(* ===== verification/Rvm_Prelude.thy ===== *)
theory Rvm_Prelude
  imports Main "HOL-Library.Word"
begin

text \<open>
  Shared vocabulary of the development: the machine integer types of the Rust sources, the
  saturating and checked operations of the standard library that the sources call, the two
  iterator searches that every fixed-capacity table uses (\<open>position\<close> and the search for the
  first free slot), and the lemmas on counting the occupied entries of an array under a single
  update.  Collections: \<open>rvm_simps\<close> for unfolding operations of the model,
  \<open>slot_simps\<close> for facts on slot arrays.

  Conventions.  A Rust array \<open>[T; N]\<close> is a list whose length is \<open>N\<close>; indices and
  \<open>usize\<close> counters bounded by an array length are \<open>nat\<close>; every other integer keeps its
  width as a word, so that \<open>wrapping_add\<close> and the unchecked \<open>+\<close> of the release
  profile are word addition.  A method \<open>&mut self -> Result<T, E>\<close> is a function
  that returns the result \<open>E + T\<close> paired with the new state, because the sources sometimes
  change the state before they return an error.
\<close>

named_theorems rvm_simps
named_theorems slot_simps

type_synonym u8 = "8 word"
type_synonym u16 = "16 word"
type_synonym u32 = "32 word"
type_synonym u64 = "64 word"

type_synonym ('e, 'a, 's) outcome = "('e + 'a) \<times> 's"

abbreviation U8_MAX :: u8 where "U8_MAX \<equiv> - 1"
abbreviation U16_MAX :: u16 where "U16_MAX \<equiv> - 1"
abbreviation U32_MAX :: u32 where "U32_MAX \<equiv> - 1"
abbreviation U64_MAX :: u64 where "U64_MAX \<equiv> - 1"

section \<open>Standard library arithmetic\<close>

definition saturating_add :: "'a::len word \<Rightarrow> 'a word \<Rightarrow> 'a word" where
  "saturating_add a b = (if unat a + unat b < 2 ^ LENGTH('a) then a + b else - 1)"

definition saturating_sub :: "'a::len word \<Rightarrow> 'a word \<Rightarrow> 'a word" where
  "saturating_sub a b = (if a < b then 0 else a - b)"

definition checked_add :: "'a::len word \<Rightarrow> 'a word \<Rightarrow> 'a word option" where
  "checked_add a b = (if unat a + unat b < 2 ^ LENGTH('a) then Some (a + b) else None)"

lemma unat_max_word: "unat (- 1 :: 'a::len word) = 2 ^ LENGTH('a) - 1"
  by (simp add: unsigned_minus_1_eq_mask mask_eq_exp_minus_1)

lemma saturating_add_unat:
  "unat (saturating_add a b) = min (unat a + unat b) (2 ^ LENGTH('a) - 1)"
  for a b :: "'a::len word"
proof (cases "unat a + unat b < 2 ^ LENGTH('a)")
  case True
  then show ?thesis by (simp add: saturating_add_def unat_word_ariths)
next
  case False
  then have "2 ^ LENGTH('a) - 1 \<le> unat a + unat b" by simp
  with False show ?thesis by (simp add: saturating_add_def unat_max_word)
qed

lemma saturating_sub_unat: "unat (saturating_sub a b) = unat a - unat b"
  by (simp add: saturating_sub_def word_less_nat_alt unat_sub_if_size word_size)

lemma checked_add_Some_unat:
  "checked_add a b = Some c \<Longrightarrow> unat c = unat a + unat b"
  by (auto simp: checked_add_def unat_word_ariths split: if_splits)

lemma checked_add_None:
  "checked_add a (1 :: 'a::len word) = None \<longleftrightarrow> a = - 1"
proof -
  have "unat a < 2 ^ LENGTH('a)" by (rule unsigned_less)
  then have "\<not> Suc (unat a) < 2 ^ LENGTH('a) \<longleftrightarrow> unat a = 2 ^ LENGTH('a) - Suc 0"
    by linarith
  then have "checked_add a 1 = None \<longleftrightarrow> unat a = unat (- 1 :: 'a word)"
    by (auto simp: checked_add_def unat_max_word)
  then show ?thesis by (simp add: unsigned_word_eqI word_unat_eq_iff)
qed

lemma word_inc_less:
  assumes "x \<noteq> (- 1 :: 'a::len word)"
  shows "y \<le> x \<Longrightarrow> y < x + 1" "x + 1 \<noteq> 0"
proof -
  have "unat x \<noteq> 2 ^ LENGTH('a) - 1" using assms by (metis unat_max_word word_unat_eq_iff)
  moreover have "unat x < 2 ^ LENGTH('a)" by (rule unsigned_less)
  ultimately have "unat x + 1 < 2 ^ LENGTH('a)" by arith
  then have "unat (x + 1) = unat x + 1" by (simp add: unat_word_ariths)
  then show "y \<le> x \<Longrightarrow> y < x + 1" "x + 1 \<noteq> 0"
    by (auto simp: word_less_nat_alt word_le_nat_alt)
qed

section \<open>Searches over slot arrays\<close>

text \<open>\<open>Iterator::position\<close>: the index of the first element that satisfies the predicate.\<close>

fun position :: "('a \<Rightarrow> bool) \<Rightarrow> 'a list \<Rightarrow> nat option" where
  "position P [] = None"
| "position P (x # xs) = (if P x then Some 0 else map_option Suc (position P xs))"

lemma position_Some:
  "position P xs = Some i \<Longrightarrow> i < length xs \<and> P (xs ! i) \<and> (\<forall>j<i. \<not> P (xs ! j))"
proof (induction xs arbitrary: i)
  case Nil
  then show ?case by simp
next
  case (Cons x xs)
  show ?case
  proof (cases "P x")
    case True
    with Cons.prems show ?thesis by simp
  next
    case False
    with Cons.prems obtain k where k: "position P xs = Some k" "i = Suc k" by auto
    from Cons.IH [OF k(1)] k(2) False show ?thesis
      by (auto simp: nth_Cons' less_Suc_eq_0_disj)
  qed
qed

lemma position_None: "position P xs = None \<longleftrightarrow> (\<forall>x\<in>set xs. \<not> P x)"
  by (induction xs) auto

lemma position_SomeI:
  assumes "i < length xs" "P (xs ! i)" "\<And>j. j < i \<Longrightarrow> \<not> P (xs ! j)"
  shows "position P xs = Some i"
proof (cases "position P xs")
  case None
  with assms(1,2) show ?thesis by (auto simp: position_None)
next
  case (Some k)
  from position_Some [OF Some] have "P (xs ! k)" "\<forall>j<k. \<not> P (xs ! j)" by auto
  with assms(2,3) have "k = i" by (meson nat_neq_iff)
  with Some show ?thesis by simp
qed

lemma position_unique:
  assumes "i < length xs" "P (xs ! i)"
    and "\<And>j. j < length xs \<Longrightarrow> P (xs ! j) \<Longrightarrow> j = i"
  shows "position P xs = Some i"
proof (rule position_SomeI)
  show "i < length xs" "P (xs ! i)" by (fact assms)+
  fix j assume "j < i"
  with assms(1) have "j < length xs" "j \<noteq> i" by auto
  with assms(3) show "\<not> P (xs ! j)" by blast
qed

text \<open>The first free slot of an array of optional entries.\<close>

definition first_free :: "'a option list \<Rightarrow> nat option" where
  "first_free xs = position (\<lambda>x. x = None) xs"

text \<open>\<open>iter().flatten().find(p)\<close>: the first occupied entry that satisfies the predicate.\<close>

definition find_some :: "('a \<Rightarrow> bool) \<Rightarrow> 'a option list \<Rightarrow> 'a option" where
  "find_some P xs =
     (case position (\<lambda>x. case x of None \<Rightarrow> False | Some a \<Rightarrow> P a) xs of
        None \<Rightarrow> None | Some i \<Rightarrow> xs ! i)"

lemma find_some_Some:
  "find_some P xs = Some a \<Longrightarrow> Some a \<in> set xs \<and> P a"
  by (auto simp: find_some_def split: option.splits dest!: position_Some)
     (metis nth_mem)+

lemma find_some_None:
  "find_some P xs = None \<longleftrightarrow> (\<forall>a. Some a \<in> set xs \<longrightarrow> \<not> P a)"
proof
  assume none: "find_some P xs = None"
  show "\<forall>a. Some a \<in> set xs \<longrightarrow> \<not> P a"
  proof (cases "position (\<lambda>x. case x of None \<Rightarrow> False | Some a \<Rightarrow> P a) xs")
    case None
    then show ?thesis by (auto simp: position_None)
  next
    case (Some i)
    with none position_Some [OF Some] show ?thesis
      by (auto simp: find_some_def split: option.splits)
  qed
next
  assume *: "\<forall>a. Some a \<in> set xs \<longrightarrow> \<not> P a"
  then have "position (\<lambda>x. case x of None \<Rightarrow> False | Some a \<Rightarrow> P a) xs = None"
    by (auto simp: position_None split: option.splits)
  then show "find_some P xs = None" by (simp add: find_some_def)
qed

section \<open>Counting occupied entries\<close>

definition count_if :: "('a \<Rightarrow> bool) \<Rightarrow> 'a list \<Rightarrow> nat" where
  "count_if P xs = length (filter P xs)"

lemma count_if_simps [simp]:
  "count_if P [] = 0"
  "count_if P (x # xs) = of_bool (P x) + count_if P xs"
  by (simp_all add: count_if_def)

lemma count_if_update [slot_simps]:
  "i < length xs \<Longrightarrow>
     count_if P (xs[i := y]) + of_bool (P (xs ! i)) = count_if P xs + of_bool (P y)"
proof (induction xs arbitrary: i)
  case Nil
  then show ?case by simp
next
  case (Cons x xs)
  then show ?case by (cases i) auto
qed

lemma count_if_le: "count_if P xs \<le> length xs"
  by (simp add: count_if_def)

lemma count_if_full: "count_if P xs = length xs \<longleftrightarrow> (\<forall>x\<in>set xs. P x)"
proof
  assume "count_if P xs = length xs"
  then show "\<forall>x\<in>set xs. P x"
    unfolding count_if_def by (metis length_filter_less less_irrefl)
qed (simp add: count_if_def)

lemma count_if_replicate [simp]: "count_if P (replicate n x) = (if P x then n else 0)"
  by (induction n) auto

lemma count_if_pos: "i < length xs \<Longrightarrow> P (xs ! i) \<Longrightarrow> 0 < count_if P xs"
  by (auto simp: count_if_def filter_empty_conv intro: nth_mem)

lemma count_if_less:
  assumes "count_if P xs < length xs"
  shows "\<exists>i<length xs. \<not> P (xs ! i)"
  using assms by (metis count_if_full in_set_conv_nth less_irrefl)

section \<open>Lists of lists, and lists of word indices\<close>

lemma distinct_concat_map:
  assumes "distinct xs"
  shows "distinct (concat (map f xs)) \<longleftrightarrow>
     (\<forall>i\<in>set xs. distinct (f i)) \<and>
     (\<forall>i\<in>set xs. \<forall>j\<in>set xs. i \<noteq> j \<longrightarrow> set (f i) \<inter> set (f j) = {})"
  using assms
proof (induction xs)
  case Nil
  then show ?case by simp
next
  case (Cons x xs)
  define D where "D i j \<longleftrightarrow> set (f i) \<inter> set (f j) = {}" for i j
  have sym: "D i j \<longleftrightarrow> D j i" for i j by (auto simp: D_def)
  have "distinct (concat (map f (x # xs))) \<longleftrightarrow>
          distinct (f x) \<and> distinct (concat (map f xs)) \<and> (\<forall>j\<in>set xs. D x j)"
    by (auto simp: D_def)
  moreover have "distinct (concat (map f xs)) \<longleftrightarrow>
          (\<forall>i\<in>set xs. distinct (f i)) \<and> (\<forall>i\<in>set xs. \<forall>j\<in>set xs. i \<noteq> j \<longrightarrow> D i j)"
    using Cons by (simp add: D_def)
  moreover have "(\<forall>i\<in>set (x # xs). \<forall>j\<in>set (x # xs). i \<noteq> j \<longrightarrow> D i j) \<longleftrightarrow>
          (\<forall>j\<in>set xs. D x j) \<and> (\<forall>i\<in>set xs. \<forall>j\<in>set xs. i \<noteq> j \<longrightarrow> D i j)"
    using Cons.prems sym by (metis distinct.simps(2) set_ConsD list.set_intros)
  ultimately show ?case by (auto simp: D_def)
qed

lemma distinct_index_length:
  fixes xs :: "'a::len word list"
  assumes "distinct xs" "\<And>x. x \<in> set xs \<Longrightarrow> unat x < n"
  shows "length xs \<le> n"
proof -
  have "distinct (map unat xs)" using assms(1) by (simp add: distinct_map inj_on_def word_unat_eq_iff)
  then have "length xs = card (set (map unat xs))" by (metis distinct_card length_map)
  also have "\<dots> \<le> card {0..<n}"
    using assms(2) by (intro card_mono) auto
  finally show ?thesis by simp
qed

end
