(* ===== verification/Rvm_Actions.thy ===== *)
theory Rvm_Actions
  imports Main "HOL-Library.Word"
begin

text \<open>
  Crate \<open>rvm-types\<close>, file \<open>witness.rs\<close>: the enumeration \<open>ActionKind\<close> of the privileged
  actions, its discriminants and the subsystem prefix used to filter audit queries.
\<close>

text \<open>The privileged actions; the discriminant is the byte stored in a record.\<close>

datatype (plugins only: code) action_kind =
    PartitionCreate | PartitionDestroy | PartitionSuspend | PartitionResume
  | PartitionSplit | PartitionMerge | PartitionHibernate | PartitionReconstruct
  | PartitionMigrate
  | CapabilityGrant | CapabilityRevoke | CapabilityDelegate | CapabilityEscalate
  | CapabilityAttenuated
  | RegionCreate | RegionDestroy | RegionTransfer | RegionShare | RegionUnshare
  | RegionPromote | RegionDemote | RegionMap | RegionUnmap
  | CommEdgeCreate | CommEdgeDestroy | IpcSend | IpcReceive | ZeroCopyShare
  | NotificationSignal
  | DeviceLeaseGrant | DeviceLeaseRevoke | DeviceLeaseExpire | DeviceLeaseRenew
  | ProofVerifiedP1 | ProofVerifiedP2 | ProofVerifiedP3 | ProofRejected | ProofEscalated
  | SchedulerEpoch | SchedulerModeSwitch | TaskSpawn | TaskTerminate
  | StructuralSplit | StructuralMerge
  | RecoveryEnter | RecoveryExit | CheckpointCreated | CheckpointRestored
  | MinCutBudgetExceededAction | DegradedModeEntered | DegradedModeExited
  | BootAttestation | BootComplete | TeeAttestation
  | VectorPut | VectorDelete | GraphMutation | CoherenceRecomputed
  | VmidReclaim | MigrationTimeoutAction
  | AnchorExternalReceipt
  | ContextResolve | ContextRead | ContextSearch | ContextPut | ContextAliasUpdate
  | ContextForget | ContextExecute | ContextEpochSeal

fun action_code :: "action_kind \<Rightarrow> 8 word" where
  "action_code PartitionCreate = 0x01" | "action_code PartitionDestroy = 0x02"
| "action_code PartitionSuspend = 0x03" | "action_code PartitionResume = 0x04"
| "action_code PartitionSplit = 0x05" | "action_code PartitionMerge = 0x06"
| "action_code PartitionHibernate = 0x07" | "action_code PartitionReconstruct = 0x08"
| "action_code PartitionMigrate = 0x09"
| "action_code CapabilityGrant = 0x10" | "action_code CapabilityRevoke = 0x11"
| "action_code CapabilityDelegate = 0x12" | "action_code CapabilityEscalate = 0x13"
| "action_code CapabilityAttenuated = 0x14"
| "action_code RegionCreate = 0x20" | "action_code RegionDestroy = 0x21"
| "action_code RegionTransfer = 0x22" | "action_code RegionShare = 0x23"
| "action_code RegionUnshare = 0x24" | "action_code RegionPromote = 0x25"
| "action_code RegionDemote = 0x26" | "action_code RegionMap = 0x27"
| "action_code RegionUnmap = 0x28"
| "action_code CommEdgeCreate = 0x30" | "action_code CommEdgeDestroy = 0x31"
| "action_code IpcSend = 0x32" | "action_code IpcReceive = 0x33"
| "action_code ZeroCopyShare = 0x34" | "action_code NotificationSignal = 0x35"
| "action_code DeviceLeaseGrant = 0x40" | "action_code DeviceLeaseRevoke = 0x41"
| "action_code DeviceLeaseExpire = 0x42" | "action_code DeviceLeaseRenew = 0x43"
| "action_code ProofVerifiedP1 = 0x50" | "action_code ProofVerifiedP2 = 0x51"
| "action_code ProofVerifiedP3 = 0x52" | "action_code ProofRejected = 0x53"
| "action_code ProofEscalated = 0x54"
| "action_code SchedulerEpoch = 0x60" | "action_code SchedulerModeSwitch = 0x61"
| "action_code TaskSpawn = 0x62" | "action_code TaskTerminate = 0x63"
| "action_code StructuralSplit = 0x64" | "action_code StructuralMerge = 0x65"
| "action_code RecoveryEnter = 0x70" | "action_code RecoveryExit = 0x71"
| "action_code CheckpointCreated = 0x72" | "action_code CheckpointRestored = 0x73"
| "action_code MinCutBudgetExceededAction = 0x74" | "action_code DegradedModeEntered = 0x75"
| "action_code DegradedModeExited = 0x76"
| "action_code BootAttestation = 0x80" | "action_code BootComplete = 0x81"
| "action_code TeeAttestation = 0x82"
| "action_code VectorPut = 0x90" | "action_code VectorDelete = 0x91"
| "action_code GraphMutation = 0x92" | "action_code CoherenceRecomputed = 0x93"
| "action_code VmidReclaim = 0xA0" | "action_code MigrationTimeoutAction = 0xA1"
| "action_code AnchorExternalReceipt = 0xB0"
| "action_code ContextResolve = 0xC0" | "action_code ContextRead = 0xC1"
| "action_code ContextSearch = 0xC2" | "action_code ContextPut = 0xC3"
| "action_code ContextAliasUpdate = 0xC4" | "action_code ContextForget = 0xC5"
| "action_code ContextExecute = 0xC6" | "action_code ContextEpochSeal = 0xC7"

definition subsystem :: "action_kind \<Rightarrow> 8 word" where
  "subsystem k = drop_bit 4 (action_code k)"

end
