(* ===== verification/Rvm_Types.thy ===== *)
theory Rvm_Types
  imports Rvm_Prelude Rvm_Actions
begin

text \<open>
  Crate \<open>rvm-types\<close>: the identifiers, errors, capability tokens, coherence values, lifecycle
  states and witness records that every other crate shares.  The newtypes over an integer
  (\<open>PartitionId\<close>, \<open>CommEdgeId\<close>, \<open>OwnedRegionId\<close>, \<open>DeviceLeaseId\<close>,
  \<open>PhysAddr\<close>, \<open>GuestPhysAddr\<close>, \<open>CoherenceScore\<close>, \<open>CutPressure\<close>) are type synonyms of
  the word they wrap; the constructors that validate or clamp are functions.
  \<open>CapRights\<close> is the bitmap of \<open>bitflags\<close> as a byte, with \<open>contains\<close> and
  \<open>difference\<close> as the bit operations.
\<close>

unbundle bit_operations_syntax

section \<open>Errors\<close>

datatype rvm_error =
    PartitionNotFound | InvalidPartitionState | PartitionLimitExceeded
  | SplitPreconditionFailed | MergePreconditionFailed | MigrationTimeout
  | VcpuNotFound | VcpuLimitReached
  | InsufficientCapability | StaleCapability | CapabilityTypeMismatch
  | DelegationDepthExceeded | CapabilityConsumed
  | WitnessVerificationFailed | WitnessChainBroken | WitnessLogFull
  | ProofInvalid | ProofTierInsufficient | ProofBudgetExceeded
  | CoherenceBelowThreshold | MinCutBudgetExceeded
  | MemoryOverlap | AlignmentError | InvalidTierTransition | OutOfMemory
  | DeviceLeaseNotFound | DeviceLeaseExpired | DeviceLeaseConflict
  | CheckpointNotFound | CheckpointCorrupted | FailureEscalated
  | ResourceLimitExceeded | Unsupported | InternalError

section \<open>Identifiers and addresses\<close>

type_synonym partition_id = u32
type_synonym comm_edge_id = u64
type_synonym owned_region_id = u64
type_synonym device_lease_id = u64
type_synonym phys_addr = u64
type_synonym guest_phys_addr = u64

definition HYPERVISOR :: partition_id where
  "HYPERVISOR = 0"

definition MAX_LOGICAL :: u32 where
  "MAX_LOGICAL = 4096"

definition partition_try_new :: "u32 \<Rightarrow> partition_id option" where
  "partition_try_new i = (if i = 0 \<or> i > MAX_LOGICAL then None else Some i)"

definition partition_vmid :: "partition_id \<Rightarrow> u16" where
  "partition_vmid p = ucast (p AND 0xFF)"

definition is_hypervisor :: "partition_id \<Rightarrow> bool" where
  "is_hypervisor p \<longleftrightarrow> p = 0"

record vcpu_id =
  vcpu_partition :: partition_id
  vcpu_index :: u16

text \<open>\<open>trailing_zeros() >= 12\<close> on a \<open>u64\<close>: the low twelve bits are clear.\<close>

definition is_page_aligned :: "u64 \<Rightarrow> bool" where
  "is_page_aligned a \<longleftrightarrow> take_bit 12 a = 0"

definition page_align_down :: "phys_addr \<Rightarrow> phys_addr" where
  "page_align_down a = a AND NOT 0xFFF"

section \<open>Capabilities\<close>

type_synonym cap_rights = u8

definition READ :: cap_rights where "READ = 0x01"
definition WRITE :: cap_rights where "WRITE = 0x02"
definition GRANT :: cap_rights where "GRANT = 0x04"
definition REVOKE :: cap_rights where "REVOKE = 0x08"
definition EXECUTE :: cap_rights where "EXECUTE = 0x10"
definition PROVE :: cap_rights where "PROVE = 0x20"
definition GRANT_ONCE :: cap_rights where "GRANT_ONCE = 0x40"

lemmas right_bits = READ_def WRITE_def GRANT_def REVOKE_def EXECUTE_def PROVE_def GRANT_ONCE_def

text \<open>\<open>CapRights::contains\<close> and \<open>CapRights::difference\<close> of the bitflags bitmap.\<close>

definition rights_contains :: "cap_rights \<Rightarrow> cap_rights \<Rightarrow> bool" where
  "rights_contains held required \<longleftrightarrow> held AND required = required"

definition rights_difference :: "cap_rights \<Rightarrow> cap_rights \<Rightarrow> cap_rights" where
  "rights_difference a b = a AND NOT b"

datatype cap_type =
    CapPartition | CapRegion | CapCommEdge | CapDevice | CapScheduler
  | CapWitnessLog | CapProof | CapVcpu | CapCoherence | CapContext

record cap_token =
  tok_id :: u64
  tok_type :: cap_type
  tok_rights :: cap_rights
  tok_epoch :: u32

definition cap_token_new :: "u64 \<Rightarrow> cap_type \<Rightarrow> cap_rights \<Rightarrow> u32 \<Rightarrow> cap_token" where
  "cap_token_new i ty r e = \<lparr>tok_id = i, tok_type = ty, tok_rights = r, tok_epoch = e\<rparr>"

definition has_rights :: "cap_token \<Rightarrow> cap_rights \<Rightarrow> bool" where
  "has_rights t required \<longleftrightarrow> rights_contains (tok_rights t) required"

definition truncated_hash :: "cap_token \<Rightarrow> u32" where
  "truncated_hash t =
     (let h = (ucast (tok_id t) :: u32);
          h = h XOR ucast (drop_bit 32 (tok_id t));
          h = h XOR tok_epoch t
      in h XOR push_bit 24 (ucast (tok_rights t)))"

section \<open>Coherence values\<close>

type_synonym coherence_score = u16
type_synonym cut_pressure = u32

definition SCORE_MAX :: coherence_score where "SCORE_MAX = 10000"
definition DEFAULT_THRESHOLD :: coherence_score where "DEFAULT_THRESHOLD = 3000"
definition DEFAULT_MERGE_THRESHOLD :: coherence_score where "DEFAULT_MERGE_THRESHOLD = 7000"
definition DEFAULT_SPLIT_THRESHOLD :: cut_pressure where "DEFAULT_SPLIT_THRESHOLD = 8000"

definition from_basis_points :: "u16 \<Rightarrow> coherence_score" where
  "from_basis_points bp = (if bp > 10000 then 10000 else bp)"

definition meets_threshold :: "coherence_score \<Rightarrow> coherence_score \<Rightarrow> bool" where
  "meets_threshold s t \<longleftrightarrow> s \<ge> t"

definition is_coherent :: "coherence_score \<Rightarrow> bool" where
  "is_coherent s \<longleftrightarrow> s \<ge> DEFAULT_THRESHOLD"

definition exceeds_threshold :: "cut_pressure \<Rightarrow> cut_pressure \<Rightarrow> bool" where
  "exceeds_threshold p t \<longleftrightarrow> p > t"

section \<open>Proof tiers and scheduler modes\<close>

datatype proof_tier = P1 | P2 | P3
datatype scheduler_mode = Reflex | Flow | Recovery

section \<open>Witness records\<close>

record witness_record =
  wr_sequence :: u64
  wr_timestamp_ns :: u64
  wr_action_kind :: u8
  wr_proof_tier :: u8
  wr_flags :: u8
  wr_reserved :: u8
  wr_actor_partition_id :: u32
  wr_target_object_id :: u64
  wr_capability_hash :: u32
  wr_payload :: "u8 list"
  wr_prev_hash :: u32
  wr_record_hash :: u32
  wr_aux :: "u8 list"
  wr_pad :: "u8 list"

definition witness_zeroed :: witness_record where
  "witness_zeroed =
     \<lparr>wr_sequence = 0, wr_timestamp_ns = 0, wr_action_kind = 0, wr_proof_tier = 0,
      wr_flags = 0, wr_reserved = 0, wr_actor_partition_id = 0, wr_target_object_id = 0,
      wr_capability_hash = 0, wr_payload = replicate 8 0, wr_prev_hash = 0,
      wr_record_hash = 0, wr_aux = replicate 8 0, wr_pad = replicate 4 0\<rparr>"

section \<open>Facts on rights\<close>

lemma rights_contains_refl [simp]: "rights_contains r r"
  by (simp add: rights_contains_def)

lemma rights_contains_bits:
  "rights_contains a b \<longleftrightarrow> (\<forall>i. bit b i \<longrightarrow> bit a i)"
proof
  assume "rights_contains a b"
  then show "\<forall>i. bit b i \<longrightarrow> bit a i"
    unfolding rights_contains_def by (metis bit_and_iff)
next
  assume "\<forall>i. bit b i \<longrightarrow> bit a i"
  then show "rights_contains a b"
    unfolding rights_contains_def by (intro bit_word_eqI) (auto simp: bit_and_iff)
qed

lemma rights_contains_trans:
  "rights_contains a b \<Longrightarrow> rights_contains b c \<Longrightarrow> rights_contains a c"
  by (simp add: rights_contains_bits)

lemma rights_contains_difference: "rights_contains a (rights_difference a b)"
  by (simp add: rights_contains_bits rights_difference_def bit_simps)

lemma rights_difference_lacks:
  "b \<noteq> 0 \<Longrightarrow> \<not> rights_contains (rights_difference a b) b"
  by (auto simp: rights_contains_bits rights_difference_def bit_simps bit_eq_iff)

lemma rights_difference_keeps:
  assumes "rights_contains a r" "r AND b = 0"
  shows "rights_contains (rights_difference a b) r"
proof -
  have "\<not> (bit r i \<and> bit b i)" for i
    using assms(2) by (metis bit_0_eq bit_and_iff bot_apply bot_bool_def)
  with assms(1) show ?thesis
    using bit_imp_le_length [of r]
    by (auto simp: rights_contains_bits rights_difference_def bit_simps)
qed

lemma from_basis_points_bound: "unat (from_basis_points bp) \<le> 10000"
  by (auto simp: from_basis_points_def word_le_nat_alt not_less)

end
