(* ===== verification/Slot_Table.thy ===== *)
theory Slot_Table
  imports Rvm_Types
begin

text \<open>
  What the fixed-size tables of the kernel have in common.  The locale \<open>handle_table\<close> is the
  contract a client relies on: what a lookup returns after an insertion or a removal, and that a
  released handle is not handed out again by the next insertion; \<open>room\<close> says when the
  provider's identifier counter still has values.  It is interpreted on the capability table, the
  partition manager and the IPC manager.  The rest is about arrays of optional entries that are
  found by a key, the layout the last two and the device manager use.
\<close>

section \<open>The contract of a handle table\<close>

locale handle_table =
  fixes lookup :: "'h \<Rightarrow> 't \<Rightarrow> 'e + 'v"
    and insert :: "'a \<Rightarrow> 't \<Rightarrow> ('e + 'h) \<times> 't"
    and remove :: "'h \<Rightarrow> 't \<Rightarrow> ('e + unit) \<times> 't"
    and invar :: "'t \<Rightarrow> bool"
    and room :: "'t \<Rightarrow> bool"
  assumes insert_invar: "invar t \<Longrightarrow> room t \<Longrightarrow> insert a t = (r, t') \<Longrightarrow> invar t'"
    and insert_error: "invar t \<Longrightarrow> room t \<Longrightarrow> insert a t = (Inl e, t') \<Longrightarrow> t' = t"
    and insert_fresh: "invar t \<Longrightarrow> room t \<Longrightarrow> insert a t = (Inr h, t') \<Longrightarrow> \<exists>e. lookup h t = Inl e"
    and insert_lookup: "invar t \<Longrightarrow> room t \<Longrightarrow> insert a t = (Inr h, t') \<Longrightarrow> \<exists>v. lookup h t' = Inr v"
    and insert_frame:
      "invar t \<Longrightarrow> room t \<Longrightarrow> insert a t = (Inr h, t') \<Longrightarrow> h' \<noteq> h \<Longrightarrow>
         lookup h' t' = Inr v \<longleftrightarrow> lookup h' t = Inr v"
    and remove_invar: "invar t \<Longrightarrow> remove h t = (u, t') \<Longrightarrow> invar t'"
    and remove_live: "invar t \<Longrightarrow> lookup h t = Inr v \<Longrightarrow> \<exists>t'. remove h t = (Inr (), t')"
    and remove_lookup: "invar t \<Longrightarrow> remove h t = (Inr (), t') \<Longrightarrow> \<exists>e. lookup h t' = Inl e"
    and remove_frame:
      "invar t \<Longrightarrow> remove h t = (Inr (), t') \<Longrightarrow> h' \<noteq> h \<Longrightarrow>
         lookup h' t' = Inr v \<longleftrightarrow> lookup h' t = Inr v"
    and reissue:
      "invar t \<Longrightarrow> remove h t = (Inr (), t1) \<Longrightarrow> room t1 \<Longrightarrow> insert a t1 = (Inr h', t2) \<Longrightarrow> h' \<noteq> h"
begin

definition live :: "'t \<Rightarrow> 'h set" where
  "live t = {h. \<exists>v. lookup h t = Inr v}"

lemma live_insert:
  assumes "invar t" "room t" "insert a t = (Inr h, t')"
  shows "h \<notin> live t" "live t' = Set.insert h (live t)"
proof -
  show "h \<notin> live t" using insert_fresh [OF assms] by (auto simp: live_def)
  show "live t' = Set.insert h (live t)"
  proof (intro set_eqI iffI)
    fix k assume "k \<in> live t'"
    then show "k \<in> Set.insert h (live t)"
      using insert_frame [OF assms, of k] by (auto simp: live_def)
  next
    fix k assume "k \<in> Set.insert h (live t)"
    then show "k \<in> live t'"
      using insert_frame [OF assms, of k] insert_lookup [OF assms] by (auto simp: live_def)
  qed
qed

lemma live_remove:
  assumes "invar t" "remove h t = (Inr (), t')"
  shows "live t' = live t - {h}"
proof (intro set_eqI iffI)
  fix k assume "k \<in> live t'"
  then show "k \<in> live t - {h}"
    using remove_frame [OF assms, of k] remove_lookup [OF assms]
    by (cases "k = h") (auto simp: live_def)
next
  fix k assume "k \<in> live t - {h}"
  then show "k \<in> live t'"
    using remove_frame [OF assms, of k] by (auto simp: live_def)
qed

text \<open>A released handle stays dead through the next insertion, whatever is inserted.\<close>

lemma released_handle_stays_dead:
  assumes "invar t" "remove h t = (Inr (), t1)" "room t1" "insert a t1 = (r, t2)"
  shows "\<exists>e. lookup h t2 = Inl e"
proof (cases r)
  case (Inl e)
  have "invar t1" using remove_invar assms(1,2) by blast
  with Inl assms(3,4) have "t2 = t1" using insert_error by blast
  with remove_lookup [OF assms(1,2)] show ?thesis by simp
next
  case (Inr h')
  have inv1: "invar t1" using remove_invar assms(1,2) by blast
  have ins: "insert a t1 = (Inr h', t2)" using assms(4) Inr by simp
  have "h \<noteq> h'" using reissue [OF assms(1,2,3) ins] by simp
  then have "h \<notin> live t2"
    using live_insert(2) [OF inv1 assms(3) ins] live_remove [OF assms(1,2)] by simp
  then show ?thesis by (cases "lookup h t2") (auto simp: live_def)
qed

end

section \<open>Arrays of keyed entries\<close>

definition keyed :: "('a \<Rightarrow> 'k) \<Rightarrow> 'a option list \<Rightarrow> bool" where
  "keyed key slots \<longleftrightarrow>
     (\<forall>i\<in>{0..<length slots}. \<forall>j\<in>{0..<length slots}.
        case slots ! i of None \<Rightarrow> True
        | Some a \<Rightarrow> (case slots ! j of None \<Rightarrow> True | Some b \<Rightarrow> key a = key b \<longrightarrow> i = j))"

definition lookup_key :: "('a \<Rightarrow> 'k) \<Rightarrow> 'k \<Rightarrow> 'a option list \<Rightarrow> 'a option" where
  "lookup_key key k slots = find_some (\<lambda>a. key a = k) slots"

abbreviation occupied :: "'a option list \<Rightarrow> nat" where
  "occupied slots \<equiv> count_if (\<lambda>s. s \<noteq> None) slots"

lemma keyedI:
  assumes "\<And>i j a b. i < length slots \<Longrightarrow> j < length slots \<Longrightarrow> slots ! i = Some a \<Longrightarrow>
             slots ! j = Some b \<Longrightarrow> key a = key b \<Longrightarrow> i = j"
  shows "keyed key slots"
  using assms by (auto simp: keyed_def split: option.splits)

lemma keyedD:
  assumes "keyed key slots" "i < length slots" "j < length slots" "slots ! i = Some a"
    "slots ! j = Some b" "key a = key b"
  shows "i = j"
proof -
  have "case slots ! i of None \<Rightarrow> True
      | Some a \<Rightarrow> (case slots ! j of None \<Rightarrow> True | Some b \<Rightarrow> key a = key b \<longrightarrow> i = j)"
    using assms(1-3) by (simp add: keyed_def)
  then show ?thesis using assms(4-6) by simp
qed

lemma keyed_new [simp]: "keyed key (replicate n None)"
  by (auto simp: keyed_def)

lemma lookup_key_None:
  "lookup_key key k slots = None \<longleftrightarrow> (\<forall>a. Some a \<in> set slots \<longrightarrow> key a \<noteq> k)"
  by (simp add: lookup_key_def find_some_None)

lemma lookup_key_Some:
  assumes "keyed key slots"
  shows "lookup_key key k slots = Some a \<longleftrightarrow> Some a \<in> set slots \<and> key a = k"
proof
  assume "lookup_key key k slots = Some a"
  then show "Some a \<in> set slots \<and> key a = k"
    unfolding lookup_key_def by (rule find_some_Some)
next
  assume a: "Some a \<in> set slots \<and> key a = k"
  then have "lookup_key key k slots \<noteq> None" by (auto simp: lookup_key_None)
  then obtain b where b: "lookup_key key k slots = Some b" by blast
  then have "Some b \<in> set slots" "key b = k"
    unfolding lookup_key_def by (auto dest: find_some_Some)
  with a obtain i j where "i < length slots" "slots ! i = Some a" "j < length slots" "slots ! j = Some b"
    by (metis in_set_conv_nth)
  with keyedD [OF assms] a \<open>key b = k\<close> have "a = b" by (metis option.inject)
  with b show "lookup_key key k slots = Some a" by simp
qed

lemma keyed_update_None: "keyed key slots \<Longrightarrow> keyed key (slots[i := None])"
proof (rule keyedI)
  fix j k a b
  assume K: "keyed key slots" and j: "j < length (slots[i := None])" "k < length (slots[i := None])"
    and a: "slots[i := None] ! j = Some a" "slots[i := None] ! k = Some b" and ab: "key a = key b"
  have "slots ! j = Some a" using a(1) j by (cases "j = i") simp_all
  moreover have "slots ! k = Some b" using a(2) j by (cases "k = i") simp_all
  ultimately show "j = k" using keyedD [OF K, of j k a b] j ab by simp
qed

text \<open>Storing under a key that is absent, or replacing an entry by one with the same key.\<close>

lemma keyed_update_Some:
  assumes "keyed key slots" "i < length slots"
    and "\<And>j a. j < length slots \<Longrightarrow> j \<noteq> i \<Longrightarrow> slots ! j = Some a \<Longrightarrow> key a \<noteq> key b"
  shows "keyed key (slots[i := Some b])"
proof (rule keyedI)
  fix j k c d
  assume j: "j < length (slots[i := Some b])" "k < length (slots[i := Some b])"
    and c: "slots[i := Some b] ! j = Some c" "slots[i := Some b] ! k = Some d" and eq: "key c = key d"
  have "slots ! j = Some c" if "j \<noteq> i" using c(1) that by simp
  moreover have "slots ! k = Some d" if "k \<noteq> i" using c(2) that by simp
  ultimately show "j = k"
    using assms(2,3) j c eq keyedD [OF assms(1), of j k c d]
    by (cases "j = i"; cases "k = i") auto
qed

lemma lookup_key_insert:
  assumes "keyed key slots" "i < length slots" "slots ! i = None" "lookup_key key (key b) slots = None"
  shows "keyed key (slots[i := Some b])"
    "lookup_key key k (slots[i := Some b]) = (if k = key b then Some b else lookup_key key k slots)"
proof -
  have absent: "key a \<noteq> key b" if "j < length slots" "slots ! j = Some a" for j a
    using assms(4) that by (auto simp: lookup_key_None in_set_conv_nth)
  then show K: "keyed key (slots[i := Some b])"
    using assms(1,2) by (intro keyed_update_Some) auto
  have mem: "Some a \<in> set (slots[i := Some b]) \<longleftrightarrow> a = b \<or> Some a \<in> set slots" for a
    using assms(2,3) by (auto simp: in_set_conv_nth nth_list_update) (metis option.distinct(1))
  show "lookup_key key k (slots[i := Some b]) = (if k = key b then Some b else lookup_key key k slots)"
  proof (cases "k = key b")
    case True
    then show ?thesis using lookup_key_Some [OF K, of k b] mem by simp
  next
    case False
    then have "lookup_key key k (slots[i := Some b]) = Some a \<longleftrightarrow> lookup_key key k slots = Some a" for a
      unfolding lookup_key_Some [OF K] lookup_key_Some [OF assms(1)] mem by auto
    with False show ?thesis by (metis option.exhaust)
  qed
qed

lemma lookup_key_replace:
  assumes "keyed key slots" "i < length slots" "slots ! i = Some a" "key b = key a"
  shows "keyed key (slots[i := Some b])"
    "lookup_key key k (slots[i := Some b]) = (if k = key b then Some b else lookup_key key k slots)"
proof -
  have other: "key c \<noteq> key b" if "j < length slots" "j \<noteq> i" "slots ! j = Some c" for j c
    using keyedD [OF assms(1) that(1) assms(2) that(3) assms(3)] assms(4) that(2) by metis
  then show K: "keyed key (slots[i := Some b])"
    using assms(1,2) by (intro keyed_update_Some) auto
  have mem: "Some c \<in> set (slots[i := Some b]) \<longleftrightarrow> c = b \<or> (Some c \<in> set slots \<and> key c \<noteq> key b)" for c
    using assms(2-4) other by (auto simp: in_set_conv_nth nth_list_update) (metis option.inject)+
  show "lookup_key key k (slots[i := Some b]) = (if k = key b then Some b else lookup_key key k slots)"
  proof (cases "k = key b")
    case True
    then show ?thesis using lookup_key_Some [OF K, of k b] mem by simp
  next
    case False
    then have "lookup_key key k (slots[i := Some b]) = Some c \<longleftrightarrow> lookup_key key k slots = Some c" for c
      unfolding lookup_key_Some [OF K] lookup_key_Some [OF assms(1)] mem by auto
    with False show ?thesis by (metis option.exhaust)
  qed
qed

lemma lookup_key_delete:
  assumes "keyed key slots" "i < length slots" "slots ! i = Some a"
  shows "lookup_key key k (slots[i := None]) = (if k = key a then None else lookup_key key k slots)"
proof -
  note K = keyed_update_None [OF assms(1), of i]
  have other: "key c \<noteq> key a" if "j < length slots" "j \<noteq> i" "slots ! j = Some c" for j c
    using keyedD [OF assms(1) that(1) assms(2) that(3) assms(3)] that(2) by metis
  have mem: "Some c \<in> set (slots[i := None]) \<longleftrightarrow> Some c \<in> set slots \<and> key c \<noteq> key a" for c
    using assms(2,3) other by (auto simp: in_set_conv_nth nth_list_update) (metis option.inject)+
  have "lookup_key key k (slots[i := None]) = Some c \<longleftrightarrow>
      (if k = key a then None else lookup_key key k slots) = Some c" for c
    unfolding lookup_key_Some [OF K] mem using lookup_key_Some [OF assms(1)] by auto
  then show ?thesis by (metis option.exhaust)
qed

text \<open>Case expressions over slots in invariants, as implications.\<close>

lemma ball_slots:
  "(\<forall>s\<in>set xs. case s of None \<Rightarrow> True | Some a \<Rightarrow> Q a) \<longleftrightarrow> (\<forall>a. Some a \<in> set xs \<longrightarrow> Q a)"
  by (metis option.case_eq_if option.collapse option.distinct(1) option.sel)

lemma case_slot:
  "(case x of None \<Rightarrow> True | Some s \<Rightarrow> (case f s of None \<Rightarrow> False | Some a \<Rightarrow> Q s a)) \<longleftrightarrow>
     (\<forall>s. x = Some s \<longrightarrow> (\<exists>a. f s = Some a \<and> Q s a))"
  by (auto split: option.splits)

text \<open>The first slot whose entry has the key.\<close>

definition key_index :: "('a \<Rightarrow> 'k) \<Rightarrow> 'k \<Rightarrow> 'a option list \<Rightarrow> nat option" where
  "key_index key k slots = position (\<lambda>s. case s of None \<Rightarrow> False | Some a \<Rightarrow> key a = k) slots"

lemma key_index_Some:
  assumes "key_index key k slots = Some i"
  obtains a where "i < length slots" "slots ! i = Some a" "key a = k" "lookup_key key k slots = Some a"
  using position_Some [OF assms [unfolded key_index_def]] assms that
  by (auto simp: lookup_key_def find_some_def key_index_def split: option.splits)

lemma key_index_None: "key_index key k slots = None \<longleftrightarrow> lookup_key key k slots = None"
  by (auto simp: key_index_def lookup_key_None position_None split: option.splits)

lemma occupied_insert:
  "i < length slots \<Longrightarrow> slots ! i = None \<Longrightarrow> occupied (slots[i := Some b]) = occupied slots + 1"
  using count_if_update [of i slots "\<lambda>s. s \<noteq> None" "Some b"] by simp

lemma occupied_replace:
  "i < length slots \<Longrightarrow> slots ! i = Some a \<Longrightarrow> occupied (slots[i := Some b]) = occupied slots"
  using count_if_update [of i slots "\<lambda>s. s \<noteq> None" "Some b"] by simp

lemma occupied_delete:
  "i < length slots \<Longrightarrow> slots ! i = Some a \<Longrightarrow> occupied (slots[i := None]) + 1 = occupied slots"
  using count_if_update [of i slots "\<lambda>s. s \<noteq> None" None] by simp

lemma occupied_less_free:
  assumes "occupied slots < length slots"
  obtains i where "position (\<lambda>s. s = None) slots = Some i" "i < length slots" "slots ! i = None"
proof -
  obtain j where "j < length slots" "slots ! j = None" using count_if_less [OF assms] by auto
  then have "position (\<lambda>s. s = None) slots \<noteq> None" by (auto simp: position_None in_set_conv_nth)
  then obtain i where i: "position (\<lambda>s. s = None) slots = Some i" by blast
  with position_Some [OF i] that show ?thesis by blast
qed

text \<open>Emptying the slots whose entry fails a test.\<close>

definition keep_slots :: "('a \<Rightarrow> bool) \<Rightarrow> 'a option list \<Rightarrow> 'a option list" where
  "keep_slots P slots = map (\<lambda>s. case s of None \<Rightarrow> None | Some a \<Rightarrow> if P a then Some a else None) slots"

lemma keep_slots_mem: "Some a \<in> set (keep_slots P slots) \<longleftrightarrow> Some a \<in> set slots \<and> P a"
  by (force simp: keep_slots_def split: option.splits if_splits)

lemma keep_slots_keyed:
  assumes "keyed key slots"
  shows "keyed key (keep_slots P slots)"
    "lookup_key key k (keep_slots P slots) =
       (case lookup_key key k slots of None \<Rightarrow> None | Some a \<Rightarrow> if P a then Some a else None)"
proof -
  have nth: "slots ! i = Some a" if "i < length slots" "keep_slots P slots ! i = Some a" for i a
    using that by (auto simp: keep_slots_def split: option.splits if_splits)
  show K: "keyed key (keep_slots P slots)"
  proof (rule keyedI)
    fix i j a b
    assume "i < length (keep_slots P slots)" "j < length (keep_slots P slots)"
      and ab: "keep_slots P slots ! i = Some a" "keep_slots P slots ! j = Some b" "key a = key b"
    then have "i < length slots" "j < length slots" by (simp_all add: keep_slots_def)
    then show "i = j" using ab by (blast intro: keyedD [OF assms] nth)
  qed
  have "lookup_key key k (keep_slots P slots) = Some a \<longleftrightarrow>
      (case lookup_key key k slots of None \<Rightarrow> None | Some a \<Rightarrow> if P a then Some a else None) = Some a" for a
    unfolding lookup_key_Some [OF K] keep_slots_mem
    using lookup_key_Some [OF assms, of k a]
    by (cases "lookup_key key k slots") auto
  then show "lookup_key key k (keep_slots P slots) =
       (case lookup_key key k slots of None \<Rightarrow> None | Some a \<Rightarrow> if P a then Some a else None)"
    by (metis option.exhaust)
qed

end
