(* ===== verification/Cap_Table.thy ===== *)
theory Cap_Table
  imports Slot_Table
begin

text \<open>
  Crate \<open>rvm-cap\<close>, files \<open>error.rs\<close> and \<open>table.rs\<close>: the capability errors and the
  fixed-size capability table with generation counters.  A slot is in use when its generation is
  not 0; a freed slot keeps its next generation in \<open>parent_index\<close>.  The table provides the
  contract \<open>handle_table\<close> (interpretation \<open>ct\<close> at the end).
\<close>

section \<open>Errors\<close>

datatype cap_error =
    InvalidHandle | StaleHandle | TableFull | Revoked | CapDelegationDepthExceeded
  | GrantNotPermitted | RightsEscalation | TreeFull | TypeMismatch | Consumed

fun cap_error_to_rvm :: "cap_error \<Rightarrow> rvm_error" where
  "cap_error_to_rvm InvalidHandle = InsufficientCapability"
| "cap_error_to_rvm GrantNotPermitted = InsufficientCapability"
| "cap_error_to_rvm RightsEscalation = InsufficientCapability"
| "cap_error_to_rvm StaleHandle = StaleCapability"
| "cap_error_to_rvm Revoked = StaleCapability"
| "cap_error_to_rvm TableFull = ResourceLimitExceeded"
| "cap_error_to_rvm TreeFull = ResourceLimitExceeded"
| "cap_error_to_rvm CapDelegationDepthExceeded = DelegationDepthExceeded"
| "cap_error_to_rvm TypeMismatch = CapabilityTypeMismatch"
| "cap_error_to_rvm Consumed = CapabilityConsumed"

section \<open>Slots\<close>

record cap_slot =
  cs_token :: cap_token
  cs_generation :: u32
  cs_owner :: partition_id
  cs_depth :: u8
  cs_parent_index :: u32
  cs_badge :: u64

definition slot_empty :: cap_slot where
  "slot_empty =
     \<lparr>cs_token = cap_token_new 0 CapRegion 0 0, cs_generation = 0, cs_owner = 0,
      cs_depth = 0, cs_parent_index = U32_MAX, cs_badge = 0\<rparr>"

definition slot_is_valid :: "cap_slot \<Rightarrow> bool" where
  "slot_is_valid s \<longleftrightarrow> cs_generation s \<noteq> 0"

definition slot_matches :: "cap_slot \<Rightarrow> u32 \<Rightarrow> bool" where
  "slot_matches s g \<longleftrightarrow> slot_is_valid s \<and> cs_generation s = g"

definition slot_invalidate :: "cap_slot \<Rightarrow> cap_slot" where
  "slot_invalidate s =
     (let next_gen = cs_generation s + 1;
          safe_gen = (if next_gen = 0 then 1 else next_gen)
      in s\<lparr>cs_parent_index := safe_gen, cs_generation := 0\<rparr>)"

definition slot_next_generation :: "cap_slot \<Rightarrow> u32" where
  "slot_next_generation s =
     (if cs_generation s \<noteq> 0 then cs_generation s
      else if cs_parent_index s = U32_MAX then 1
      else cs_parent_index s)"

section \<open>The table\<close>

record cap_table =
  ct_slots :: "cap_slot list"
  ct_count :: nat
  ct_free_hint :: nat

definition table_new :: "nat \<Rightarrow> cap_table" where
  "table_new n = \<lparr>ct_slots = replicate n slot_empty, ct_count = 0, ct_free_hint = 0\<rparr>"

definition table_capacity :: "cap_table \<Rightarrow> nat" where
  "table_capacity t = length (ct_slots t)"

definition table_is_full :: "cap_table \<Rightarrow> bool" where
  "table_is_full t \<longleftrightarrow> ct_count t \<ge> table_capacity t"

definition table_find_free_slot :: "cap_table \<Rightarrow> (cap_error, nat, cap_table) outcome" where
  "table_find_free_slot t =
     (let h = ct_free_hint t in
      case position (\<lambda>s. \<not> slot_is_valid s) (drop h (ct_slots t)) of
        Some k \<Rightarrow> (Inr (h + k), t\<lparr>ct_free_hint := h + k + 1\<rparr>)
      | None \<Rightarrow>
          (case position (\<lambda>s. \<not> slot_is_valid s) (take h (ct_slots t)) of
             Some i \<Rightarrow> (Inr i, t\<lparr>ct_free_hint := i + 1\<rparr>)
           | None \<Rightarrow> (Inl TableFull, t)))"

definition table_insert_root ::
    "cap_token \<Rightarrow> partition_id \<Rightarrow> u64 \<Rightarrow> cap_table \<Rightarrow> (cap_error, u32 \<times> u32, cap_table) outcome" where
  "table_insert_root token owner badge t =
     (case table_find_free_slot t of
        (Inl e, t') \<Rightarrow> (Inl e, t')
      | (Inr i, t') \<Rightarrow>
          let g = slot_next_generation (ct_slots t' ! i);
              s = \<lparr>cs_token = token, cs_generation = g, cs_owner = owner, cs_depth = 0,
                   cs_parent_index = U32_MAX, cs_badge = badge\<rparr>
          in (Inr (of_nat i, g),
              t'\<lparr>ct_slots := (ct_slots t')[i := s], ct_count := ct_count t' + 1\<rparr>))"

definition table_insert_derived ::
    "cap_token \<Rightarrow> partition_id \<Rightarrow> u8 \<Rightarrow> u32 \<Rightarrow> u64 \<Rightarrow> cap_table
       \<Rightarrow> (cap_error, u32 \<times> u32, cap_table) outcome" where
  "table_insert_derived token owner depth parent_index badge t =
     (case table_find_free_slot t of
        (Inl e, t') \<Rightarrow> (Inl e, t')
      | (Inr i, t') \<Rightarrow>
          let g = slot_next_generation (ct_slots t' ! i);
              s = \<lparr>cs_token = token, cs_generation = g, cs_owner = owner, cs_depth = depth,
                   cs_parent_index = parent_index, cs_badge = badge\<rparr>
          in (Inr (of_nat i, g),
              t'\<lparr>ct_slots := (ct_slots t')[i := s], ct_count := ct_count t' + 1\<rparr>))"

definition table_lookup :: "u32 \<Rightarrow> u32 \<Rightarrow> cap_table \<Rightarrow> cap_error + cap_slot" where
  "table_lookup index generation t =
     (let idx = unat index in
      if idx \<ge> length (ct_slots t) then Inl InvalidHandle
      else let s = ct_slots t ! idx in
        if \<not> slot_is_valid s then Inl InvalidHandle
        else if cs_generation s \<noteq> generation then Inl StaleHandle
        else Inr s)"

text \<open>\<open>lookup_mut\<close> followed by a write through the returned reference.\<close>

definition table_lookup_mut ::
    "u32 \<Rightarrow> u32 \<Rightarrow> (cap_slot \<Rightarrow> cap_slot) \<Rightarrow> cap_table \<Rightarrow> (cap_error, unit, cap_table) outcome" where
  "table_lookup_mut index generation f t =
     (let idx = unat index in
      if idx \<ge> length (ct_slots t) then (Inl InvalidHandle, t)
      else let s = ct_slots t ! idx in
        if \<not> slot_is_valid s then (Inl InvalidHandle, t)
        else if cs_generation s \<noteq> generation then (Inl StaleHandle, t)
        else (Inr (), t\<lparr>ct_slots := (ct_slots t)[idx := f s]\<rparr>))"

definition table_remove :: "u32 \<Rightarrow> u32 \<Rightarrow> cap_table \<Rightarrow> (cap_error, unit, cap_table) outcome" where
  "table_remove index generation t =
     (let idx = unat index in
      if idx \<ge> length (ct_slots t) then (Inl InvalidHandle, t)
      else let s = ct_slots t ! idx in
        if \<not> slot_is_valid s then (Inl InvalidHandle, t)
        else if cs_generation s \<noteq> generation then (Inl StaleHandle, t)
        else (Inr (),
              t\<lparr>ct_slots := (ct_slots t)[idx := slot_invalidate s],
                ct_count := ct_count t - 1,
                ct_free_hint := (if idx < ct_free_hint t then idx else ct_free_hint t)\<rparr>))"

definition table_force_invalidate :: "u32 \<Rightarrow> cap_table \<Rightarrow> cap_table" where
  "table_force_invalidate index t =
     (let idx = unat index in
      if idx < length (ct_slots t) \<and> slot_is_valid (ct_slots t ! idx)
      then t\<lparr>ct_slots := (ct_slots t)[idx := slot_invalidate (ct_slots t ! idx)],
             ct_count := ct_count t - 1,
             ct_free_hint := (if idx < ct_free_hint t then idx else ct_free_hint t)\<rparr>
      else t)"

definition table_iter :: "cap_table \<Rightarrow> (u32 \<times> cap_slot) list" where
  "table_iter t =
     map (\<lambda>(i, s). (of_nat i, s))
       (filter (\<lambda>(i, s). slot_is_valid s) (zip [0..<length (ct_slots t)] (ct_slots t)))"

section \<open>Invariant\<close>

text \<open>
  The cached count is the number of slots in use, the hint stays inside the array, every index
  fits a \<open>u32\<close> that is not the \<open>u32::MAX\<close> sentinel, and the generation that a free
  slot has stashed is never the sentinel 0.
\<close>

definition table_inv :: "cap_table \<Rightarrow> bool" where
  "table_inv t \<longleftrightarrow>
     ct_count t = count_if slot_is_valid (ct_slots t) \<and>
     ct_free_hint t \<le> length (ct_slots t) \<and>
     length (ct_slots t) < 2 ^ 32 \<and>
     (\<forall>s\<in>set (ct_slots t). \<not> slot_is_valid s \<longrightarrow> cs_parent_index s \<noteq> 0)"

lemma slot_invalidate_props [simp]:
  "\<not> slot_is_valid (slot_invalidate s)"
  "cs_parent_index (slot_invalidate s) \<noteq> 0"
  by (simp_all add: slot_invalidate_def slot_is_valid_def Let_def)

lemma slot_next_generation_nonzero:
  "\<not> slot_is_valid s \<Longrightarrow> cs_parent_index s \<noteq> 0 \<Longrightarrow> slot_next_generation s \<noteq> 0"
  by (auto simp: slot_next_generation_def slot_is_valid_def)

text \<open>A slot that was in use at generation \<open>g\<close> is never reissued at \<open>g\<close> by the next insertion.\<close>

lemma slot_reissue_generation:
  assumes "slot_is_valid s"
  shows "slot_next_generation (slot_invalidate s) \<noteq> cs_generation s"
proof (cases "cs_generation s = 1")
  case True
  then show ?thesis by (simp add: slot_next_generation_def slot_invalidate_def Let_def)
next
  case False
  have "cs_generation s + 1 \<noteq> cs_generation s" by simp
  with False assms show ?thesis
    by (auto simp: slot_next_generation_def slot_invalidate_def slot_is_valid_def Let_def
        split: if_splits)
qed

lemma table_new_inv: "n < 2 ^ 32 \<Longrightarrow> table_inv (table_new n)"
  by (auto simp: table_inv_def table_new_def slot_empty_def slot_is_valid_def)

subsection \<open>The search for a free slot\<close>

lemma table_find_free_slot_Inr:
  assumes "table_find_free_slot t = (Inr i, t')" and "ct_free_hint t \<le> length (ct_slots t)"
  shows "i < length (ct_slots t)" "\<not> slot_is_valid (ct_slots t ! i)"
    "t' = t\<lparr>ct_free_hint := i + 1\<rparr>"
  using assms
  by (auto simp: table_find_free_slot_def Let_def split: option.splits dest!: position_Some)

lemma table_find_free_slot_Inl:
  assumes "table_find_free_slot t = (Inl e, t')"
  shows "e = TableFull" "t' = t" "\<forall>s\<in>set (ct_slots t). slot_is_valid s"
proof -
  show "e = TableFull" "t' = t"
    using assms by (auto simp: table_find_free_slot_def Let_def split: option.splits)
  have "\<forall>s\<in>set (take (ct_free_hint t) (ct_slots t)) \<union> set (drop (ct_free_hint t) (ct_slots t)).
          slot_is_valid s"
    using assms
    by (auto simp: table_find_free_slot_def Let_def position_None split: option.splits)
  then show "\<forall>s\<in>set (ct_slots t). slot_is_valid s"
    by (metis append_take_drop_id set_append)
qed

text \<open>Both insertions write one slot; the shared shape carries their proofs.\<close>

definition table_store :: "(u32 \<Rightarrow> cap_slot) \<Rightarrow> cap_table \<Rightarrow> (cap_error, u32 \<times> u32, cap_table) outcome" where
  "table_store mk t =
     (case table_find_free_slot t of
        (Inl e, t') \<Rightarrow> (Inl e, t')
      | (Inr i, t') \<Rightarrow>
          let g = slot_next_generation (ct_slots t' ! i)
          in (Inr (of_nat i, g),
              t'\<lparr>ct_slots := (ct_slots t')[i := mk g], ct_count := ct_count t' + 1\<rparr>))"

lemma table_insert_root_store:
  "table_insert_root token owner badge =
     table_store (\<lambda>g. \<lparr>cs_token = token, cs_generation = g, cs_owner = owner, cs_depth = 0,
                       cs_parent_index = U32_MAX, cs_badge = badge\<rparr>)"
  by (rule ext) (simp only: table_insert_root_def table_store_def Let_def)

lemma table_insert_derived_store:
  "table_insert_derived token owner depth p badge =
     table_store (\<lambda>g. \<lparr>cs_token = token, cs_generation = g, cs_owner = owner, cs_depth = depth,
                       cs_parent_index = p, cs_badge = badge\<rparr>)"
  by (rule ext) (simp only: table_insert_derived_def table_store_def Let_def)

lemma table_store_Inr:
  assumes "table_store mk t = (Inr (index, g), t')" "table_inv t"
  shows "unat index < length (ct_slots t)"
    "\<not> slot_is_valid (ct_slots t ! unat index)"
    "g = slot_next_generation (ct_slots t ! unat index)"
    "g \<noteq> 0"
    "ct_slots t' = (ct_slots t)[unat index := mk g]"
    "ct_count t' = ct_count t + 1"
    "ct_free_hint t' = unat index + 1"
proof -
  obtain i t1 where ff: "table_find_free_slot t = (Inr i, t1)" and idx: "index = of_nat i"
    and g: "g = slot_next_generation (ct_slots t1 ! i)"
    and t': "t' = t1\<lparr>ct_slots := (ct_slots t1)[i := mk g], ct_count := ct_count t1 + 1\<rparr>"
    using assms(1) by (auto simp: table_store_def Let_def split: prod.splits sum.splits)
  from assms(2) have hint: "ct_free_hint t \<le> length (ct_slots t)" by (simp add: table_inv_def)
  note free = table_find_free_slot_Inr [OF ff hint]
  have i: "unat index = i"
    using free(1) assms(2) by (simp add: idx table_inv_def unat_of_nat)
  show "unat index < length (ct_slots t)" "\<not> slot_is_valid (ct_slots t ! unat index)"
    "g = slot_next_generation (ct_slots t ! unat index)"
    "ct_slots t' = (ct_slots t)[unat index := mk g]" "ct_count t' = ct_count t + 1"
    "ct_free_hint t' = unat index + 1"
    using free by (simp_all add: i t' g)
  moreover have "cs_parent_index (ct_slots t ! unat index) \<noteq> 0"
    using free(1,2) assms(2) by (simp add: table_inv_def i)
  ultimately show "g \<noteq> 0" using slot_next_generation_nonzero by metis
qed

lemma table_store_Inl:
  "table_store mk t = (Inl e, t') \<Longrightarrow> e = TableFull \<and> t' = t \<and> (\<forall>s\<in>set (ct_slots t). slot_is_valid s)"
  by (auto simp: table_store_def Let_def split: prod.splits sum.splits
      dest: table_find_free_slot_Inl)

lemma table_store_inv:
  assumes inv: "table_inv t" and st: "table_store mk t = (r, t')"
    and gen: "\<And>g. cs_generation (mk g) = g"
  shows "table_inv t'"
proof (cases r)
  case (Inl e)
  with st inv show ?thesis by (auto dest: table_store_Inl)
next
  case (Inr h)
  obtain index g where h: "h = (index, g)" by (cases h)
  from st Inr h have st': "table_store mk t = (Inr (index, g), t')" by simp
  note T = table_store_Inr [OF st' inv]
  have "count_if slot_is_valid (ct_slots t') = count_if slot_is_valid (ct_slots t) + 1"
    using count_if_update [OF T(1), of slot_is_valid "mk g"] T(2,4,5) gen [of g]
    by (simp add: slot_is_valid_def)
  moreover have "\<forall>s\<in>set (ct_slots t'). \<not> slot_is_valid s \<longrightarrow> cs_parent_index s \<noteq> 0"
    using inv T(4,5) gen [of g]
    by (auto simp: table_inv_def slot_is_valid_def dest!: set_update_subset_insert [THEN subsetD])
  ultimately show ?thesis
    using inv T by (simp add: table_inv_def)
qed

subsection \<open>Releasing slots\<close>

text \<open>Removal and forced invalidation change the table in the same way.\<close>

lemma table_remove_Inr:
  assumes "table_remove index g t = (Inr (), t')"
  shows "table_lookup index g t = Inr (ct_slots t ! unat index)"
    "t' = table_force_invalidate index t"
  using assms
  by (auto simp: table_remove_def table_lookup_def table_force_invalidate_def Let_def
      split: if_splits)

lemma table_remove_Inl:
  "table_remove index g t = (Inl e, t') \<Longrightarrow> t' = t \<and> table_lookup index g t = Inl e"
  by (auto simp: table_remove_def table_lookup_def Let_def split: if_splits)

lemma table_force_invalidate_slots:
  "ct_slots (table_force_invalidate index t) =
     (if unat index < length (ct_slots t) \<and> slot_is_valid (ct_slots t ! unat index)
      then (ct_slots t)[unat index := slot_invalidate (ct_slots t ! unat index)]
      else ct_slots t)"
  by (simp add: table_force_invalidate_def Let_def)

lemma table_force_invalidate_inv:
  assumes inv: "table_inv t"
  shows "table_inv (table_force_invalidate index t)"
proof (cases "unat index < length (ct_slots t) \<and> slot_is_valid (ct_slots t ! unat index)")
  case True
  let ?s = "slot_invalidate (ct_slots t ! unat index)"
  have "count_if slot_is_valid ((ct_slots t)[unat index := ?s]) + 1
          = count_if slot_is_valid (ct_slots t)"
    using count_if_update [of "unat index" "ct_slots t" slot_is_valid ?s] True by simp
  moreover have "\<forall>s\<in>set ((ct_slots t)[unat index := ?s]).
                   \<not> slot_is_valid s \<longrightarrow> cs_parent_index s \<noteq> 0"
    using inv by (auto simp: table_inv_def dest!: set_update_subset_insert [THEN subsetD])
  ultimately show ?thesis
    using inv True by (simp add: table_inv_def table_force_invalidate_def Let_def)
next
  case False
  with inv show ?thesis by (auto simp: table_force_invalidate_def Let_def)
qed

lemma table_remove_inv: "table_inv t \<Longrightarrow> table_inv (snd (table_remove index g t))"
  by (cases "table_remove index g t"; cases "fst (table_remove index g t)")
     (auto dest: table_remove_Inl table_remove_Inr simp: table_force_invalidate_inv)

lemma table_lookup_mut_inv:
  assumes "table_inv t" "\<And>s. cs_generation (f s) = cs_generation s"
  shows "table_inv (snd (table_lookup_mut index g f t))"
proof (cases "unat index < length (ct_slots t) \<and> slot_is_valid (ct_slots t ! unat index)
                \<and> cs_generation (ct_slots t ! unat index) = g")
  case True
  let ?s = "ct_slots t ! unat index"
  have valid: "slot_is_valid (f ?s)" using True assms(2) by (auto simp: slot_is_valid_def)
  have "count_if slot_is_valid ((ct_slots t)[unat index := f ?s])
          = count_if slot_is_valid (ct_slots t)"
    using count_if_update [of "unat index" "ct_slots t" slot_is_valid "f ?s"] True valid by simp
  moreover have "\<forall>s\<in>set ((ct_slots t)[unat index := f ?s]).
                   \<not> slot_is_valid s \<longrightarrow> cs_parent_index s \<noteq> 0"
    using assms(1) valid
    by (auto simp: table_inv_def dest!: set_update_subset_insert [THEN subsetD])
  ultimately show ?thesis
    using assms(1) True by (simp add: table_inv_def table_lookup_mut_def Let_def)
next
  case False
  with assms(1) show ?thesis by (auto simp: table_lookup_mut_def Let_def)
qed

subsection \<open>Lookups\<close>

lemma table_lookup_Inr:
  "table_lookup index g t = Inr s \<longleftrightarrow>
     unat index < length (ct_slots t) \<and> s = ct_slots t ! unat index \<and>
     slot_is_valid s \<and> cs_generation s = g"
  by (auto simp: table_lookup_def Let_def)

lemma table_lookup_not_Inr:
  "(\<exists>e. table_lookup index g t = Inl e) \<longleftrightarrow>
     \<not> (unat index < length (ct_slots t) \<and> slot_matches (ct_slots t ! unat index) g)"
  by (auto simp: table_lookup_def Let_def slot_matches_def)

lemma table_lookup_cong:
  "ct_slots t = ct_slots t' \<Longrightarrow> table_lookup i g t = table_lookup i g t'"
  by (simp add: table_lookup_def Let_def)

lemma table_lookup_force_invalidate:
  "table_lookup i g (table_force_invalidate j t) = Inr s \<longleftrightarrow> i \<noteq> j \<and> table_lookup i g t = Inr s"
  by (auto simp: table_lookup_Inr table_force_invalidate_slots nth_list_update word_unat_eq_iff
      split: if_splits)

section \<open>The table is a handle table\<close>

text \<open>The operations of the table in the shape of the contract: a handle is (index, generation).\<close>

definition ht_lookup :: "u32 \<times> u32 \<Rightarrow> cap_table \<Rightarrow> cap_error + cap_slot" where
  "ht_lookup h t = table_lookup (fst h) (snd h) t"

definition ht_remove :: "u32 \<times> u32 \<Rightarrow> cap_table \<Rightarrow> (cap_error, unit, cap_table) outcome" where
  "ht_remove h t = table_remove (fst h) (snd h) t"

definition ht_insert ::
    "cap_token \<times> partition_id \<times> u8 \<times> u32 \<times> u64 \<Rightarrow> cap_table
       \<Rightarrow> (cap_error, u32 \<times> u32, cap_table) outcome" where
  "ht_insert a t = (case a of (token, owner, depth, p, badge) \<Rightarrow>
     table_insert_derived token owner depth p badge t)"

lemma table_store_lookup:
  assumes "table_store mk t = (Inr (i, g), t')" "table_inv t" "\<And>g. cs_generation (mk g) = g"
  shows "table_lookup i g t' = Inr (mk g)"
    "\<exists>e. table_lookup i k t = Inl e"
    "(j, k) \<noteq> (i, g) \<Longrightarrow> table_lookup j k t' = Inr s \<longleftrightarrow> table_lookup j k t = Inr s"
proof -
  note T = table_store_Inr [OF assms(1,2)]
  show "table_lookup i g t' = Inr (mk g)"
    using T assms(3) by (simp add: table_lookup_Inr slot_is_valid_def)
  show "\<exists>e. table_lookup i k t = Inl e"
    using T(2) by (auto simp: table_lookup_def Let_def)
  show "table_lookup j k t' = Inr s \<longleftrightarrow> table_lookup j k t = Inr s" if "(j, k) \<noteq> (i, g)"
    using T assms(3) [of g] that
    by (auto simp: table_lookup_Inr nth_list_update word_unat_eq_iff)
qed

lemma table_reissue:
  assumes "table_inv t" "table_remove i g t = (Inr (), t1)"
    and "table_store mk t1 = (Inr (j, k), t2)"
  shows "(j, k) \<noteq> (i, g)"
proof
  assume eq: "(j, k) = (i, g)"
  note R = table_remove_Inr [OF assms(2)]
  have inv1: "table_inv t1" using R(2) assms(1) table_force_invalidate_inv by simp
  have live: "unat i < length (ct_slots t)" "slot_is_valid (ct_slots t ! unat i)"
    "cs_generation (ct_slots t ! unat i) = g"
    using R(1) by (auto simp: table_lookup_Inr)
  have "k = slot_next_generation (ct_slots t1 ! unat j)"
    using table_store_Inr(3) [OF assms(3) inv1] .
  also have "\<dots> = slot_next_generation (slot_invalidate (ct_slots t ! unat i))"
    using eq live R(2) by (simp add: table_force_invalidate_slots)
  finally show False
    using slot_reissue_generation [OF live(2)] live(3) eq by simp
qed

interpretation ct: handle_table ht_lookup ht_insert ht_remove table_inv "\<lambda>t. True"
proof (unfold_locales, goal_cases)
  case (1 t a r t')
  then show ?case
    by (auto simp: ht_insert_def table_insert_derived_store split: prod.splits
        intro: table_store_inv)
next
  case (2 t a e t')
  then show ?case
    by (auto simp: ht_insert_def table_insert_derived_store split: prod.splits
        dest: table_store_Inl)
next
  case (3 t a h t')
  then show ?case
    by (cases h) (auto simp: ht_insert_def ht_lookup_def table_insert_derived_store
        split: prod.splits intro: table_store_lookup(2))
next
  case (4 t a h t')
  then show ?case
    by (cases h) (auto simp: ht_insert_def ht_lookup_def table_insert_derived_store
        split: prod.splits dest: table_store_lookup(1))
next
  case (5 t a h t' h' v)
  then show ?case
    by (cases h; cases h')
       (auto simp: ht_insert_def ht_lookup_def table_insert_derived_store
        split: prod.splits dest: table_store_lookup(3))
next
  case (6 t h r t')
  then show ?case
    using table_remove_inv [of t "fst h" "snd h"] by (simp add: ht_remove_def)
next
  case (7 t h v)
  then show ?case
    by (auto simp: ht_lookup_def ht_remove_def table_lookup_def table_remove_def Let_def
        split: if_splits)
next
  case (8 t h t')
  then have "t' = table_force_invalidate (fst h) t"
    by (auto simp: ht_remove_def dest: table_remove_Inr)
  then show ?case
    by (cases "ht_lookup h t'") (auto simp: ht_lookup_def table_lookup_force_invalidate)
next
  case (9 t h t' h' v)
  then have t': "t' = table_force_invalidate (fst h) t"
    and live: "table_lookup (fst h) (snd h) t = Inr (ct_slots t ! unat (fst h))"
    by (auto simp: ht_remove_def dest: table_remove_Inr)
  from live 9(3) have "fst h' = fst h \<Longrightarrow> ht_lookup h' t \<noteq> Inr v"
    by (auto simp: ht_lookup_def table_lookup_Inr prod_eq_iff)
  then show ?case
    by (auto simp: ht_lookup_def t' table_lookup_force_invalidate)
next
  case (10 t h t1 a h' t2)
  then show ?case
    using table_reissue [of t "fst h" "snd h" t1 _ "fst h'" "snd h'" t2]
    by (auto simp: ht_insert_def ht_remove_def table_insert_derived_store split: prod.splits)
qed

end
