(* ===== verification/Cap_Derivation.thy ===== *)
theory Cap_Derivation
  imports Cap_Table
begin

text \<open>
  Crate \<open>rvm-cap\<close>, file \<open>derivation.rs\<close>: the derivation tree in first-child /
  next-sibling layout.  The loops that follow sibling links are
  \<^theory_text>\<open>partial_function (option)\<close>s, because nothing in the code bounds them:
  \<open>None\<close> is a walk that never ends.  \<open>tree_wf\<close> is the shape the code relies on; under
  it both subtree walks end and reach exactly the valid descendants of their root
  (\<open>subtree_walks\<close>).
\<close>

section \<open>Nodes\<close>

record deriv_node =
  dn_is_valid :: bool
  dn_depth :: u8
  dn_epoch :: u64
  dn_first_child :: u32
  dn_next_sibling :: u32
  dn_parent_index :: u32

definition node_empty :: deriv_node where
  "node_empty =
     \<lparr>dn_is_valid = False, dn_depth = 0, dn_epoch = 0, dn_first_child = U32_MAX,
      dn_next_sibling = U32_MAX, dn_parent_index = U32_MAX\<rparr>"

definition node_new_root :: "u64 \<Rightarrow> deriv_node" where
  "node_new_root epoch =
     \<lparr>dn_is_valid = True, dn_depth = 0, dn_epoch = epoch, dn_first_child = U32_MAX,
      dn_next_sibling = U32_MAX, dn_parent_index = U32_MAX\<rparr>"

definition node_new_child :: "u8 \<Rightarrow> u64 \<Rightarrow> deriv_node" where
  "node_new_child depth epoch =
     \<lparr>dn_is_valid = True, dn_depth = depth, dn_epoch = epoch, dn_first_child = U32_MAX,
      dn_next_sibling = U32_MAX, dn_parent_index = U32_MAX\<rparr>"

definition node_has_children :: "deriv_node \<Rightarrow> bool" where
  "node_has_children n \<longleftrightarrow> dn_first_child n \<noteq> U32_MAX"

section \<open>The tree and its operations\<close>

record deriv_tree =
  dt_nodes :: "deriv_node list"
  dt_count :: nat

definition tree_new :: "nat \<Rightarrow> deriv_tree" where
  "tree_new n = \<lparr>dt_nodes = replicate n node_empty, dt_count = 0\<rparr>"

definition tree_add_root :: "u32 \<Rightarrow> u64 \<Rightarrow> deriv_tree \<Rightarrow> (cap_error, unit, deriv_tree) outcome" where
  "tree_add_root index epoch t =
     (let idx = unat index in
      if idx \<ge> length (dt_nodes t) then (Inl TreeFull, t)
      else (Inr (), t\<lparr>dt_nodes := (dt_nodes t)[idx := node_new_root epoch],
                      dt_count := dt_count t + 1\<rparr>))"

definition tree_add_child ::
    "u32 \<Rightarrow> u32 \<Rightarrow> u8 \<Rightarrow> u64 \<Rightarrow> deriv_tree \<Rightarrow> (cap_error, unit, deriv_tree) outcome" where
  "tree_add_child parent_index child_index depth epoch t =
     (let pidx = unat parent_index; cidx = unat child_index; nodes = dt_nodes t in
      if pidx \<ge> length nodes \<or> cidx \<ge> length nodes then (Inl TreeFull, t)
      else if \<not> dn_is_valid (nodes ! pidx) then (Inl Revoked, t)
      else
        let child = (node_new_child depth epoch)
              \<lparr>dn_next_sibling := dn_first_child (nodes ! pidx),
               dn_parent_index := parent_index\<rparr>;
            nodes1 = nodes[pidx := (nodes ! pidx)\<lparr>dn_first_child := child_index\<rparr>];
            nodes2 = nodes1[cidx := child]
        in (Inr (), t\<lparr>dt_nodes := nodes2, dt_count := dt_count t + 1\<rparr>))"

definition tree_depth :: "u32 \<Rightarrow> deriv_tree \<Rightarrow> cap_error + u8" where
  "tree_depth index t =
     (let idx = unat index in
      if idx \<ge> length (dt_nodes t) \<or> \<not> dn_is_valid (dt_nodes t ! idx) then Inl InvalidHandle
      else Inr (dn_depth (dt_nodes t ! idx)))"

definition tree_is_valid :: "u32 \<Rightarrow> deriv_tree \<Rightarrow> bool" where
  "tree_is_valid index t \<longleftrightarrow>
     unat index < length (dt_nodes t) \<and> dn_is_valid (dt_nodes t ! unat index)"

definition tree_get :: "u32 \<Rightarrow> deriv_tree \<Rightarrow> deriv_node option" where
  "tree_get index t =
     (let idx = unat index in
      if idx < length (dt_nodes t) \<and> dn_is_valid (dt_nodes t ! idx)
      then Some (dt_nodes t ! idx) else None)"

text \<open>
  The inner loop of both subtree walks: push the valid children of a node, following the sibling
  links.  The stack is a list with its top first; \<open>stack_top < N\<close> is the length test.
\<close>

partial_function (option) push_children ::
    "deriv_node list \<Rightarrow> u32 \<Rightarrow> u32 list \<Rightarrow> u32 list option" where
  "push_children nodes child stack =
     (if child = U32_MAX then Some stack
      else if unat child \<ge> length nodes then Some stack
      else push_children nodes (dn_next_sibling (nodes ! unat child))
             (if dn_is_valid (nodes ! unat child) \<and> length stack < length nodes
              then child # stack else stack))"

partial_function (option) collect_loop ::
    "deriv_node list \<Rightarrow> u32 list \<Rightarrow> u32 list \<Rightarrow> u32 list option" where
  "collect_loop nodes stack result =
     (case stack of
        [] \<Rightarrow> Some result
      | current # rest \<Rightarrow>
          if unat current \<ge> length nodes \<or> \<not> dn_is_valid (nodes ! unat current)
          then collect_loop nodes rest result
          else
            Option.bind (push_children nodes (dn_first_child (nodes ! unat current)) rest)
              (\<lambda>stack'. collect_loop nodes stack'
                 (if length result < length nodes then result @ [current] else result)))"

text \<open>The result array is padded with the sentinel up to \<open>N\<close> entries.\<close>

definition tree_collect_subtree :: "u32 \<Rightarrow> deriv_tree \<Rightarrow> u32 list option" where
  "tree_collect_subtree index t =
     (let nodes = dt_nodes t;
          stack = (if unat index < length nodes \<and> dn_is_valid (nodes ! unat index)
                   then [index] else [])
      in map_option (\<lambda>r. r @ replicate (length nodes - length r) U32_MAX)
           (collect_loop nodes stack []))"

partial_function (option) revoke_loop ::
    "deriv_node list \<Rightarrow> nat \<Rightarrow> u32 list \<Rightarrow> nat \<Rightarrow> (deriv_node list \<times> nat \<times> nat) option" where
  "revoke_loop nodes live stack count =
     (case stack of
        [] \<Rightarrow> Some (nodes, live, count)
      | current # rest \<Rightarrow>
          if unat current \<ge> length nodes \<or> \<not> dn_is_valid (nodes ! unat current)
          then revoke_loop nodes live rest count
          else
            let nodes' = nodes[unat current := (nodes ! unat current)\<lparr>dn_is_valid := False\<rparr>]
            in Option.bind (push_children nodes' (dn_first_child (nodes' ! unat current)) rest)
                 (\<lambda>stack'. revoke_loop nodes' (live - 1) stack' (count + 1)))"

definition tree_revoke_subtree :: "u32 \<Rightarrow> deriv_tree \<Rightarrow> (nat \<times> deriv_tree) option" where
  "tree_revoke_subtree index t =
     (let nodes = dt_nodes t in
      if unat index \<ge> length nodes \<or> \<not> dn_is_valid (nodes ! unat index) then Some (0, t)
      else map_option (\<lambda>(nodes', live, count). (count, t\<lparr>dt_nodes := nodes', dt_count := live\<rparr>))
             (revoke_loop nodes (dt_count t) [index] 0))"

definition tree_revoke :: "u32 \<Rightarrow> deriv_tree \<Rightarrow> (cap_error, nat, deriv_tree) outcome option" where
  "tree_revoke index t =
     (let idx = unat index in
      if idx \<ge> length (dt_nodes t) then Some (Inl InvalidHandle, t)
      else if \<not> dn_is_valid (dt_nodes t ! idx) then Some (Inl Revoked, t)
      else map_option (\<lambda>(count, t'). (Inr count, t')) (tree_revoke_subtree index t))"

text \<open>\<open>find_parent\<close>: the cached index, or else a scan of every valid node's child chain.\<close>

partial_function (option) chain_has :: "deriv_node list \<Rightarrow> u32 \<Rightarrow> u32 \<Rightarrow> bool option" where
  "chain_has nodes cursor child =
     (if cursor = U32_MAX then Some False
      else if cursor = child then Some True
      else if unat cursor \<ge> length nodes then Some False
      else chain_has nodes (dn_next_sibling (nodes ! unat cursor)) child)"

fun scan_parents :: "deriv_node list \<Rightarrow> u32 \<Rightarrow> nat list \<Rightarrow> u32 option option" where
  "scan_parents nodes child [] = Some None"
| "scan_parents nodes child (i # is) =
     (if \<not> dn_is_valid (nodes ! i) then scan_parents nodes child is
      else Option.bind (chain_has nodes (dn_first_child (nodes ! i)) child)
             (\<lambda>found. if found then Some (Some (of_nat i)) else scan_parents nodes child is))"

definition tree_find_parent :: "u32 \<Rightarrow> deriv_tree \<Rightarrow> u32 option option" where
  "tree_find_parent child_index t =
     (let nodes = dt_nodes t; cidx = unat child_index in
      if cidx \<ge> length nodes \<or> \<not> dn_is_valid (nodes ! cidx) then Some None
      else if dn_depth (nodes ! cidx) = 0 then Some None
      else
        let pidx = dn_parent_index (nodes ! cidx) in
        if pidx \<noteq> U32_MAX \<and> unat pidx < length nodes \<and> dn_is_valid (nodes ! unat pidx)
        then Some (Some pidx)
        else scan_parents nodes child_index [0..<length nodes])"

section \<open>Well-formed trees\<close>

text \<open>The child chain that starts at a link, followed for at most \<open>fuel\<close> links.\<close>

fun chain :: "deriv_node list \<Rightarrow> nat \<Rightarrow> u32 \<Rightarrow> u32 list option" where
  "chain nodes 0 c = None"
| "chain nodes (Suc fuel) c =
     (if c = U32_MAX then Some []
      else if unat c \<ge> length nodes then None
      else map_option ((#) c) (chain nodes fuel (dn_next_sibling (nodes ! unat c))))"

text \<open>The children of node \<open>i\<close>: no chain without repetition is longer than the array.\<close>

definition kids :: "deriv_node list \<Rightarrow> nat \<Rightarrow> u32 list option" where
  "kids nodes i = chain nodes (Suc (length nodes)) (dn_first_child (nodes ! i))"

text \<open>
  Every chain ends; no index is a child of two nodes or twice a child of one; a child is deeper
  than its parent; a valid child has a valid parent.
\<close>

definition tree_wf :: "deriv_node list \<Rightarrow> bool" where
  "tree_wf nodes \<longleftrightarrow>
     length nodes < 2 ^ 32 \<and>
     (\<forall>i\<in>{0..<length nodes}. kids nodes i \<noteq> None) \<and>
     distinct (concat (map (\<lambda>i. the (kids nodes i)) [0..<length nodes])) \<and>
     (\<forall>i\<in>{0..<length nodes}. \<forall>c\<in>set (the (kids nodes i)).
        dn_depth (nodes ! i) < dn_depth (nodes ! unat c) \<and>
        (dn_is_valid (nodes ! unat c) \<longrightarrow> dn_is_valid (nodes ! i)))"

text \<open>An index is linked when it occurs in some child chain.\<close>

definition linked :: "deriv_node list \<Rightarrow> u32 \<Rightarrow> bool" where
  "linked nodes c \<longleftrightarrow> (\<exists>i\<in>{0..<length nodes}. c \<in> set (the (kids nodes i)))"

inductive desc :: "deriv_node list \<Rightarrow> u32 \<Rightarrow> u32 \<Rightarrow> bool" for nodes r where
  desc_refl: "desc nodes r r"
| desc_step: "desc nodes r p \<Longrightarrow> c \<in> set (the (kids nodes (unat p))) \<Longrightarrow>
     dn_is_valid (nodes ! unat c) \<Longrightarrow> desc nodes r c"

section \<open>Child chains\<close>

lemma chain_range:
  "chain nodes f c = Some cs \<Longrightarrow> x \<in> set cs \<Longrightarrow> unat x < length nodes"
  by (induction f arbitrary: c cs) (auto split: if_splits)

lemma chain_cong:
  assumes "chain nodes f c = Some cs" "length nodes' = length nodes"
    and "\<And>x. x \<in> set cs \<Longrightarrow>
           dn_next_sibling (nodes' ! unat x) = dn_next_sibling (nodes ! unat x)"
  shows "chain nodes' f c = Some cs"
  using assms
proof (induction f arbitrary: c cs)
  case 0
  then show ?case by simp
next
  case (Suc f)
  show ?case
  proof (cases "c = U32_MAX")
    case True
    with Suc.prems show ?thesis by simp
  next
    case False
    with Suc.prems(1) obtain ds where c: "unat c < length nodes" "cs = c # ds"
      and ds: "chain nodes f (dn_next_sibling (nodes ! unat c)) = Some ds"
      by (auto split: if_splits)
    have "chain nodes' f (dn_next_sibling (nodes ! unat c)) = Some ds"
      using Suc.IH [OF ds Suc.prems(2)] Suc.prems(3) c(2) by simp
    with c False Suc.prems(2,3) show ?thesis by simp
  qed
qed

lemma chain_fuel:
  "chain nodes f c = Some cs \<Longrightarrow> length cs < f' \<Longrightarrow> chain nodes f' c = Some cs"
proof (induction f arbitrary: c cs f')
  case 0
  then show ?case by simp
next
  case (Suc f)
  then obtain g where g: "f' = Suc g" by (cases f') auto
  show ?case
  proof (cases "c = U32_MAX")
    case True
    with Suc.prems g show ?thesis by simp
  next
    case False
    with Suc.prems(1) obtain ds where c: "unat c < length nodes" "cs = c # ds"
      and ds: "chain nodes f (dn_next_sibling (nodes ! unat c)) = Some ds"
      by (auto split: if_splits)
    have "chain nodes g (dn_next_sibling (nodes ! unat c)) = Some ds"
      using Suc.IH [OF ds] Suc.prems(2) c(2) g by simp
    with False c g show ?thesis by simp
  qed
qed

lemma chain_length: "chain nodes f c = Some cs \<Longrightarrow> length cs < f"
  by (induction f arbitrary: c cs) (auto split: if_splits)

lemma push_children_chain:
  assumes "chain nodes f c = Some cs"
    and "length stack + length (filter (\<lambda>x. dn_is_valid (nodes ! unat x)) cs) \<le> length nodes"
  shows "push_children nodes c stack =
           Some (rev (filter (\<lambda>x. dn_is_valid (nodes ! unat x)) cs) @ stack)"
  using assms
proof (induction f arbitrary: c cs stack)
  case 0
  then show ?case by simp
next
  case (Suc f)
  show ?case
  proof (cases "c = U32_MAX")
    case True
    with Suc.prems show ?thesis by (simp add: push_children.simps)
  next
    case False
    with Suc.prems(1) obtain ds where c: "unat c < length nodes" "cs = c # ds"
      and ds: "chain nodes f (dn_next_sibling (nodes ! unat c)) = Some ds"
      by (auto split: if_splits)
    let ?stack = "if dn_is_valid (nodes ! unat c) \<and> length stack < length nodes
                  then c # stack else stack"
    have "push_children nodes c stack =
            push_children nodes (dn_next_sibling (nodes ! unat c)) ?stack"
      using False c(1) by (subst push_children.simps) simp
    moreover have "push_children nodes (dn_next_sibling (nodes ! unat c)) ?stack =
            Some (rev (filter (\<lambda>x. dn_is_valid (nodes ! unat x)) ds) @ ?stack)"
      using Suc.prems(2) c(2) by (intro Suc.IH [OF ds]) (auto split: if_splits)
    ultimately show ?thesis
      using Suc.prems(2) c(2) by (auto split: if_splits)
  qed
qed

subsection \<open>What well-formedness gives\<close>

lemma tree_wf_iff:
  "tree_wf nodes \<longleftrightarrow>
     length nodes < 2 ^ 32 \<and>
     (\<forall>i<length nodes. kids nodes i \<noteq> None \<and> distinct (the (kids nodes i)) \<and>
        (\<forall>c\<in>set (the (kids nodes i)). dn_depth (nodes ! i) < dn_depth (nodes ! unat c) \<and>
           (dn_is_valid (nodes ! unat c) \<longrightarrow> dn_is_valid (nodes ! i)))) \<and>
     (\<forall>i<length nodes. \<forall>j<length nodes. i \<noteq> j \<longrightarrow>
        set (the (kids nodes i)) \<inter> set (the (kids nodes j)) = {})"
proof -
  have "distinct (concat (map (\<lambda>i. the (kids nodes i)) [0..<length nodes])) \<longleftrightarrow>
     (\<forall>i<length nodes. distinct (the (kids nodes i))) \<and>
     (\<forall>i<length nodes. \<forall>j<length nodes. i \<noteq> j \<longrightarrow>
        set (the (kids nodes i)) \<inter> set (the (kids nodes j)) = {})"
    by (simp add: distinct_concat_map atLeast0LessThan Ball_def)
  moreover define Q where "Q i \<longleftrightarrow> (\<forall>c\<in>set (the (kids nodes i)).
     dn_depth (nodes ! i) < dn_depth (nodes ! unat c) \<and>
     (dn_is_valid (nodes ! unat c) \<longrightarrow> dn_is_valid (nodes ! i)))" for i
  ultimately show ?thesis
    unfolding tree_wf_def Q_def [symmetric] by (auto simp del: not_None_eq)
qed

lemma tree_wf_kids:
  assumes "tree_wf nodes" "i < length nodes"
  obtains cs where "kids nodes i = Some cs" "distinct cs"
    "\<And>c. c \<in> set cs \<Longrightarrow> unat c < length nodes"
    "\<And>c. c \<in> set cs \<Longrightarrow> dn_depth (nodes ! i) < dn_depth (nodes ! unat c)"
    "\<And>c. c \<in> set cs \<Longrightarrow> dn_is_valid (nodes ! unat c) \<Longrightarrow> dn_is_valid (nodes ! i)"
proof -
  from assms obtain cs where cs: "kids nodes i = Some cs" by (auto simp: tree_wf_iff)
  then have "unat c < length nodes" if "c \<in> set cs" for c
    using that chain_range [of nodes "Suc (length nodes)" "dn_first_child (nodes ! i)" cs c]
    by (simp only: kids_def)
  with cs assms that show ?thesis by (auto simp: tree_wf_iff)
qed

lemma tree_wfI:
  assumes "length nodes < 2 ^ 32"
    and "\<And>i. i < length nodes \<Longrightarrow> \<exists>cs. kids nodes i = Some cs \<and> distinct cs"
    and "\<And>i c. i < length nodes \<Longrightarrow> c \<in> set (the (kids nodes i)) \<Longrightarrow>
           dn_depth (nodes ! i) < dn_depth (nodes ! unat c) \<and>
           (dn_is_valid (nodes ! unat c) \<longrightarrow> dn_is_valid (nodes ! i))"
    and "\<And>i j c. i < length nodes \<Longrightarrow> j < length nodes \<Longrightarrow>
           c \<in> set (the (kids nodes i)) \<Longrightarrow> c \<in> set (the (kids nodes j)) \<Longrightarrow> i = j"
  shows "tree_wf nodes"
  unfolding tree_wf_iff using assms by (metis disjoint_iff option.distinct(1) option.sel)

lemma not_linkedD: "\<not> linked nodes c \<Longrightarrow> i < length nodes \<Longrightarrow> c \<notin> set (the (kids nodes i))"
  by (auto simp: linked_def)

lemma not_linked_unat:
  "\<not> linked nodes c \<Longrightarrow> i < length nodes \<Longrightarrow> k \<in> set (the (kids nodes i)) \<Longrightarrow> unat k \<noteq> unat c"
  using not_linkedD by (metis word_unat_eq_iff)

lemma tree_wf_unique_parent:
  assumes "tree_wf nodes" "i < length nodes" "j < length nodes"
    and "c \<in> set (the (kids nodes i))" "c \<in> set (the (kids nodes j))"
  shows "i = j"
  using assms unfolding tree_wf_iff by blast

lemma desc_valid:
  assumes "desc nodes r c" "tree_wf nodes" "unat r < length nodes" "dn_is_valid (nodes ! unat r)"
  shows "unat c < length nodes \<and> dn_is_valid (nodes ! unat c) \<and>
         dn_depth (nodes ! unat r) \<le> dn_depth (nodes ! unat c)"
  using assms
proof (induction rule: desc.induct)
  case desc_refl
  then show ?case by simp
next
  case (desc_step p c)
  then have p: "unat p < length nodes" "dn_depth (nodes ! unat r) \<le> dn_depth (nodes ! unat p)"
    by auto
  obtain cs where "kids nodes (unat p) = Some cs" "\<And>c. c \<in> set cs \<Longrightarrow> unat c < length nodes"
    "\<And>c. c \<in> set cs \<Longrightarrow> dn_depth (nodes ! unat p) < dn_depth (nodes ! unat c)"
    using tree_wf_kids [OF desc_step.prems(1) p(1)] by metis
  with desc_step.hyps p show ?case by (fastforce intro: order.strict_implies_order le_less_trans)
qed

section \<open>The subtree walks\<close>

text \<open>The nodes after the indices in \<open>R\<close> have been revoked.\<close>

definition mark :: "deriv_node list \<Rightarrow> u32 set \<Rightarrow> deriv_node list" where
  "mark nodes R =
     map (\<lambda>i. (nodes ! i)\<lparr>dn_is_valid := dn_is_valid (nodes ! i) \<and> of_nat i \<notin> R\<rparr>)
       [0..<length nodes]"

lemma mark_length [simp]: "length (mark nodes R) = length nodes"
  by (simp add: mark_def)

lemma mark_nth:
  "unat c < length nodes \<Longrightarrow>
     mark nodes R ! unat c = (nodes ! unat c)\<lparr>dn_is_valid := dn_is_valid (nodes ! unat c) \<and> c \<notin> R\<rparr>"
  by (simp add: mark_def)

lemma mark_nth_links [simp]:
  assumes "i < length nodes"
  shows "dn_next_sibling (mark nodes R ! i) = dn_next_sibling (nodes ! i)"
    "dn_first_child (mark nodes R ! i) = dn_first_child (nodes ! i)"
    "dn_depth (mark nodes R ! i) = dn_depth (nodes ! i)"
  using assms by (simp_all add: mark_def)

lemma mark_empty: "mark nodes {} = nodes"
  by (rule nth_equalityI) (simp_all add: mark_def)

lemma mark_insert:
  assumes "length nodes < 2 ^ 32" "unat c < length nodes"
  shows "(mark nodes R)[unat c := (mark nodes R ! unat c)\<lparr>dn_is_valid := False\<rparr>] =
           mark nodes (insert c R)"
proof (rule nth_equalityI)
  fix i assume "i < length ((mark nodes R)[unat c := (mark nodes R ! unat c)\<lparr>dn_is_valid := False\<rparr>])"
  then have i: "i < length nodes" by simp
  show "(mark nodes R)[unat c := (mark nodes R ! unat c)\<lparr>dn_is_valid := False\<rparr>] ! i =
          mark nodes (insert c R) ! i"
  proof (cases "i = unat c")
    case True
    with i show ?thesis by (simp add: mark_def)
  next
    case False
    then have "of_nat i \<noteq> c"
      using i assms(1) by (auto simp: unat_of_nat)
    with False i show ?thesis by (simp add: mark_def)
  qed
qed simp

lemma kids_mark:
  assumes "tree_wf nodes" "i < length nodes"
  shows "kids (mark nodes R) i = kids nodes i"
proof -
  obtain cs where cs: "kids nodes i = Some cs" "\<And>c. c \<in> set cs \<Longrightarrow> unat c < length nodes"
    using tree_wf_kids [OF assms] by metis
  have "chain (mark nodes R) (Suc (length nodes)) (dn_first_child (nodes ! i)) = Some cs"
  proof (rule chain_cong)
    show "chain nodes (Suc (length nodes)) (dn_first_child (nodes ! i)) = Some cs"
      using cs(1) by (simp only: kids_def)
  qed (simp_all add: cs(2))
  with cs assms show ?thesis by (simp only: kids_def mark_length mark_nth_links)
qed

text \<open>
  The state of a walk from \<open>r\<close>: \<open>R\<close> has been visited, the stack holds what remains.  Every
  valid child of a visited node is visited or on the stack, and everything seen except the root
  is the child of a visited node.
\<close>

definition walk_inv :: "deriv_node list \<Rightarrow> u32 \<Rightarrow> u32 set \<Rightarrow> u32 list \<Rightarrow> bool" where
  "walk_inv nodes r R stack \<longleftrightarrow>
     (\<forall>c\<in>R \<union> set stack. desc nodes r c) \<and>
     distinct stack \<and> set stack \<inter> R = {} \<and> r \<in> R \<union> set stack \<and>
     (\<forall>p\<in>R. \<forall>c\<in>set (the (kids nodes (unat p))).
        dn_is_valid (nodes ! unat c) \<longrightarrow> c \<in> R \<union> set stack) \<and>
     (\<forall>c\<in>R \<union> set stack. c = r \<or> (\<exists>p\<in>R. c \<in> set (the (kids nodes (unat p)))))"

lemma walk_inv_done:
  assumes "walk_inv nodes r R []"
  shows "R = {c. desc nodes r c}"
proof
  show "R \<subseteq> {c. desc nodes r c}" using assms by (auto simp: walk_inv_def)
  have "desc nodes r c \<Longrightarrow> c \<in> R" for c
  proof (induction rule: desc.induct)
    case desc_refl
    then show ?case using assms by (simp add: walk_inv_def)
  next
    case (desc_step p c)
    then show ?case using assms by (auto simp: walk_inv_def)
  qed
  then show "{c. desc nodes r c} \<subseteq> R" by blast
qed

text \<open>One step of either walk: the children pushed are new, so the stack never overflows.\<close>

abbreviation valid_kids :: "deriv_node list \<Rightarrow> u32 \<Rightarrow> u32 list" where
  "valid_kids nodes c \<equiv> filter (\<lambda>x. dn_is_valid (nodes ! unat x)) (the (kids nodes (unat c)))"

lemma walk_step:
  assumes wf: "tree_wf nodes" and r: "unat r < length nodes" "dn_is_valid (nodes ! unat r)"
    and inv: "walk_inv nodes r R (c # rest)"
  shows "set (valid_kids nodes c) \<inter> (insert c R \<union> set rest) = {}"
    and "walk_inv nodes r (insert c R) (rev (valid_kids nodes c) @ rest)"
    and "length rest + length (valid_kids nodes c) \<le> length nodes"
proof -
  let ?K = "valid_kids nodes c"
  have dc: "desc nodes r c" and cR: "c \<notin> R" and rest: "distinct rest" "c \<notin> set rest"
    using inv by (auto simp: walk_inv_def)
  note c = desc_valid [OF dc wf r]
  from c obtain cs where cs: "kids nodes (unat c) = Some cs" "distinct cs"
    "\<And>k. k \<in> set cs \<Longrightarrow> unat k < length nodes"
    "\<And>k. k \<in> set cs \<Longrightarrow> dn_depth (nodes ! unat c) < dn_depth (nodes ! unat k)"
    using tree_wf_kids [OF wf] by metis
  show disj: "set ?K \<inter> (insert c R \<union> set rest) = {}"
  proof (rule ccontr)
    assume "set ?K \<inter> (insert c R \<union> set rest) \<noteq> {}"
    then obtain k where k: "k \<in> set cs" "k \<in> R \<union> set (c # rest)" using cs(1) by auto
    have "k \<noteq> r" using cs(4) [OF k(1)] c by (auto dest: order.strict_trans1)
    with k(2) inv obtain p where p: "p \<in> R" "k \<in> set (the (kids nodes (unat p)))"
      by (auto simp: walk_inv_def)
    then have "desc nodes r p" using inv by (auto simp: walk_inv_def)
    then have "unat p < length nodes" using desc_valid [OF _ wf r] by blast
    then have "unat p = unat c"
      using tree_wf_unique_parent [OF wf _ _ p(2), of "unat c"] c k(1) cs(1) by simp
    then have "p = c" by (simp add: word_unat_eq_iff)
    with p(1) cR show False by simp
  qed
  have dK: "desc nodes r k" if "k \<in> set ?K" for k
    using that dc by (auto intro: desc_step)
  show inv': "walk_inv nodes r (insert c R) (rev ?K @ rest)"
    using inv disj cs(1,2) rest dK unfolding walk_inv_def by (auto simp: Int_Un_distrib)
  have "length (rev ?K @ rest) \<le> length nodes"
  proof (rule distinct_index_length)
    show "distinct (rev ?K @ rest)" using inv' by (simp add: walk_inv_def)
    fix x assume "x \<in> set (rev ?K @ rest)"
    then have "desc nodes r x" using inv' by (auto simp: walk_inv_def)
    then show "unat x < length nodes" using desc_valid [OF _ wf r] by blast
  qed
  then show "length rest + length ?K \<le> length nodes" by simp
qed

lemma push_children_walk:
  assumes wf: "tree_wf nodes" and r: "unat r < length nodes" "dn_is_valid (nodes ! unat r)"
    and inv: "walk_inv nodes r R (c # rest)"
  shows "push_children nodes (dn_first_child (nodes ! unat c)) rest =
           Some (rev (valid_kids nodes c) @ rest)"
    and "push_children (mark nodes (insert c R)) (dn_first_child (nodes ! unat c)) rest =
           Some (rev (valid_kids nodes c) @ rest)"
proof -
  note W = walk_step [OF assms]
  let ?M = "mark nodes (insert c R)"
  have "desc nodes r c" using inv by (simp add: walk_inv_def)
  then have c: "unat c < length nodes" using desc_valid [OF _ wf r] by blast
  obtain cs where cs: "kids nodes (unat c) = Some cs" "\<And>k. k \<in> set cs \<Longrightarrow> unat k < length nodes"
    using tree_wf_kids [OF wf c] by metis
  have ch: "chain nodes (Suc (length nodes)) (dn_first_child (nodes ! unat c)) = Some cs"
    using cs(1) by (simp only: kids_def)
  show "push_children nodes (dn_first_child (nodes ! unat c)) rest =
          Some (rev (valid_kids nodes c) @ rest)"
    using push_children_chain [OF ch] W(3) cs(1) by (simp add: add.commute)
  have same: "filter (\<lambda>x. dn_is_valid (?M ! unat x)) cs = valid_kids nodes c"
    using W(1) cs by (auto simp: mark_nth intro!: filter_cong)
  have chM: "chain ?M (Suc (length nodes)) (dn_first_child (nodes ! unat c)) = Some cs"
    by (rule chain_cong [OF ch]) (simp_all add: cs(2))
  show "push_children ?M (dn_first_child (nodes ! unat c)) rest =
          Some (rev (valid_kids nodes c) @ rest)"
    using push_children_chain [OF chM, of rest] W(3) same by simp
qed

lemma subtree_walks_gen:
  assumes wf: "tree_wf nodes" and r: "unat r < length nodes" "dn_is_valid (nodes ! unat r)"
    and inv: "walk_inv nodes r R stack" and res: "set res = R" "distinct res"
    and live: "live = count_if dn_is_valid (mark nodes R)"
  shows "\<exists>out. set (res @ out) = {c. desc nodes r c} \<and> distinct (res @ out) \<and>
           collect_loop nodes stack res = Some (res @ out) \<and>
           revoke_loop (mark nodes R) live stack cnt =
             Some (mark nodes {c. desc nodes r c},
                   count_if dn_is_valid (mark nodes {c. desc nodes r c}), cnt + length out)"
  using inv res live
proof (induction "card ({c. desc nodes r c} - R)" arbitrary: R stack res live cnt rule: less_induct)
  case less
  show ?case
  proof (cases stack)
    case Nil
    then have "R = {c. desc nodes r c}" using walk_inv_done less.prems(1) by blast
    then show ?thesis
      using less.prems Nil
      by (intro exI [of _ "[]"]) (simp add: collect_loop.simps revoke_loop.simps)
  next
    case (Cons c rest)
    note inv = less.prems(1) [unfolded Cons]
    note W = walk_step [OF wf r inv] and P = push_children_walk [OF wf r inv]
    have dc: "desc nodes r c" and cR: "c \<notin> R" using inv by (auto simp: walk_inv_def)
    note c = desc_valid [OF dc wf r]
    have "finite {c. desc nodes r c}" by (rule finite)
    then have smaller: "card ({c. desc nodes r c} - insert c R) < card ({c. desc nodes r c} - R)"
      using dc cR by (intro psubset_card_mono) auto
    have len: "length nodes < 2 ^ 32" using wf by (simp add: tree_wf_def)
    have cM: "dn_is_valid (mark nodes R ! unat c)" using c cR by (simp add: mark_nth)
    have live': "live - 1 = count_if dn_is_valid (mark nodes (insert c R))"
      using count_if_update [of "unat c" "mark nodes R" dn_is_valid
          "(mark nodes R ! unat c)\<lparr>dn_is_valid := False\<rparr>"] c cM less.prems(4)
      by (simp add: mark_insert [OF len])
    have room: "length res < length nodes"
    proof -
      have "length (c # res) \<le> length nodes"
        using less.prems(1-3) cR c desc_valid [OF _ wf r]
        by (intro distinct_index_length) (auto simp: walk_inv_def)
      then show ?thesis by simp
    qed
    obtain out where out: "set ((res @ [c]) @ out) = {c. desc nodes r c}"
      "distinct ((res @ [c]) @ out)"
      "collect_loop nodes (rev (valid_kids nodes c) @ rest) (res @ [c]) = Some ((res @ [c]) @ out)"
      "revoke_loop (mark nodes (insert c R)) (live - 1) (rev (valid_kids nodes c) @ rest) (cnt + 1) =
         Some (mark nodes {c. desc nodes r c},
               count_if dn_is_valid (mark nodes {c. desc nodes r c}), cnt + 1 + length out)"
      using less.hyps [OF smaller W(2) _ _ live', of "res @ [c]" "cnt + 1"] less.prems(2,3) cR
      by auto
    have "collect_loop nodes stack res = Some ((res @ [c]) @ out)"
      using out(3) c room P(1) by (simp add: Cons collect_loop.simps [of nodes "c # rest"])
    moreover have "revoke_loop (mark nodes R) live stack cnt =
        revoke_loop (mark nodes (insert c R)) (live - 1) (rev (valid_kids nodes c) @ rest) (cnt + 1)"
      using c cM P(2)
      by (simp add: Cons revoke_loop.simps [of "mark nodes R" live "c # rest"] Let_def
          mark_insert [OF len])
    ultimately show ?thesis using out by (intro exI [of _ "c # out"]) simp
  qed
qed

lemma subtree_walks:
  assumes "tree_wf (dt_nodes t)" "tree_is_valid r t"
    and "dt_count t = count_if dn_is_valid (dt_nodes t)"
  obtains out where "set out = {c. desc (dt_nodes t) r c}" "distinct out"
    "tree_collect_subtree r t = Some (out @ replicate (length (dt_nodes t) - length out) U32_MAX)"
    "tree_revoke r t =
       Some (Inr (length out),
             t\<lparr>dt_nodes := mark (dt_nodes t) (set out),
               dt_count := count_if dn_is_valid (mark (dt_nodes t) (set out))\<rparr>)"
proof -
  let ?n = "dt_nodes t"
  have r: "unat r < length ?n" "dn_is_valid (?n ! unat r)"
    using assms(2) by (auto simp: tree_is_valid_def)
  have "walk_inv ?n r {} [r]" by (auto simp: walk_inv_def intro: desc_refl)
  from subtree_walks_gen [OF assms(1) r this, of "[]" "dt_count t" 0] assms(3)
  obtain out where "set out = {c. desc ?n r c}" "distinct out"
    "collect_loop ?n [r] [] = Some out"
    "revoke_loop ?n (dt_count t) [r] 0 =
       Some (mark ?n (set out), count_if dn_is_valid (mark ?n (set out)), length out)"
    by (auto simp: mark_empty)
  with r that show ?thesis
    by (simp add: tree_collect_subtree_def tree_revoke_def tree_revoke_subtree_def Let_def)
qed

section \<open>The operations keep the tree well formed\<close>

lemma mark_desc_wf:
  assumes wf: "tree_wf nodes" and r: "unat r < length nodes" "dn_is_valid (nodes ! unat r)"
  shows "tree_wf (mark nodes {c. desc nodes r c})" (is "tree_wf ?M")
proof -
  have K: "kids ?M i = kids nodes i" if "i < length nodes" for i
    using kids_mark [OF wf that] .
  have "dn_is_valid (?M ! i)"
    if i: "i < length nodes" and k: "k \<in> set (the (kids nodes i))"
      and v: "dn_is_valid (?M ! unat k)" for i k
  proof -
    obtain cs where cs: "kids nodes i = Some cs" "\<And>c. c \<in> set cs \<Longrightarrow> unat c < length nodes"
      "\<And>c. c \<in> set cs \<Longrightarrow> dn_is_valid (nodes ! unat c) \<Longrightarrow> dn_is_valid (nodes ! i)"
      using tree_wf_kids [OF wf i] by metis
    with k v have kv: "dn_is_valid (nodes ! unat k)" "\<not> desc nodes r k" by (auto simp: mark_nth)
    have iw: "unat (of_nat i :: u32) = i"
      using i wf by (simp add: tree_wf_def unat_of_nat)
    have "\<not> desc nodes r (of_nat i)"
      using desc_step [of nodes r "of_nat i" k] k kv iw by auto
    with i cs k kv show ?thesis by (simp add: mark_def)
  qed
  moreover have "unat k < length nodes" if "i < length nodes" "k \<in> set (the (kids nodes i))" for i k
    using tree_wf_kids [OF wf that(1)] that(2) by (metis option.sel)
  ultimately show ?thesis
    using wf K unfolding tree_wf_iff by simp
qed

text \<open>Replacing a node that no chain goes through leaves every other chain as it was.\<close>

lemma kids_update:
  assumes wf: "tree_wf nodes" and i: "i < length nodes" and c: "\<not> linked nodes c"
    and len: "length nodes' = length nodes"
    and next': "\<And>j. j < length nodes \<Longrightarrow> j \<noteq> unat c \<Longrightarrow>
               dn_next_sibling (nodes' ! j) = dn_next_sibling (nodes ! j)"
  shows "chain nodes' (Suc (length nodes)) (dn_first_child (nodes ! i)) = kids nodes i"
proof -
  obtain cs where cs: "kids nodes i = Some cs" "\<And>k. k \<in> set cs \<Longrightarrow> unat k < length nodes"
    using tree_wf_kids [OF wf i] by metis
  have off: "unat k \<noteq> unat c" if "k \<in> set cs" for k
    using not_linked_unat [OF c i] that cs(1) by simp
  have "chain nodes' (Suc (length nodes)) (dn_first_child (nodes ! i)) = Some cs"
  proof (rule chain_cong [where nodes = nodes])
    show "chain nodes (Suc (length nodes)) (dn_first_child (nodes ! i)) = Some cs"
      using cs(1) by (simp only: kids_def)
    show "dn_next_sibling (nodes' ! unat x) = dn_next_sibling (nodes ! unat x)"
      if "x \<in> set cs" for x
      using next' [OF cs(2) [OF that] off [OF that]] .
  qed (rule len)
  then show ?thesis by (simp only: cs(1))
qed

lemma kids_add_root:
  assumes wf: "tree_wf nodes" and c: "\<not> linked nodes c" "unat c < length nodes"
    and i: "i < length nodes"
  shows "kids (nodes[unat c := node_new_root epoch]) i =
           (if i = unat c then Some [] else kids nodes i)" (is "kids ?N i = _")
proof (cases "i = unat c")
  case True
  with c show ?thesis by (simp add: kids_def node_new_root_def)
next
  case False
  have "chain ?N (Suc (length nodes)) (dn_first_child (nodes ! i)) = kids nodes i"
    using wf i c(1) by (rule kids_update) simp_all
  with False i show ?thesis by (simp only: kids_def length_list_update) simp
qed

lemma add_root_wf:
  assumes wf: "tree_wf nodes" and c: "\<not> linked nodes c" "unat c < length nodes"
  shows "tree_wf (nodes[unat c := node_new_root epoch])" (is "tree_wf ?N")
proof (rule tree_wfI)
  note K = kids_add_root [OF wf c, where epoch = epoch]
  show "length ?N < 2 ^ 32" using wf by (simp add: tree_wf_def)
  show "\<exists>cs. kids ?N i = Some cs \<and> distinct cs" if "i < length ?N" for i
    using K that tree_wf_kids [OF wf] by (metis distinct.simps(1) length_list_update)
  show "dn_depth (?N ! i) < dn_depth (?N ! unat k) \<and>
        (dn_is_valid (?N ! unat k) \<longrightarrow> dn_is_valid (?N ! i))"
    if "i < length ?N" "k \<in> set (the (kids ?N i))" for i k
    using K that not_linked_unat [OF c(1), of i k] wf
    by (auto simp: tree_wf_iff split: if_splits)
  show "i = j" if "i < length ?N" "j < length ?N" "k \<in> set (the (kids ?N i))"
    "k \<in> set (the (kids ?N j))" for i j k
    using K that tree_wf_unique_parent [OF wf, of i j k] by (auto split: if_splits)
qed

text \<open>The nodes after a successful \<open>add_child\<close>.\<close>

definition linked_child :: "deriv_node list \<Rightarrow> u32 \<Rightarrow> u32 \<Rightarrow> u8 \<Rightarrow> u64 \<Rightarrow> deriv_node list" where
  "linked_child nodes p c depth epoch =
     nodes[unat p := (nodes ! unat p)\<lparr>dn_first_child := c\<rparr>,
           unat c := (node_new_child depth epoch)
             \<lparr>dn_next_sibling := dn_first_child (nodes ! unat p), dn_parent_index := p\<rparr>]"

lemma linked_child_length [simp]: "length (linked_child nodes p c depth epoch) = length nodes"
  by (simp add: linked_child_def)

lemma linked_child_nth:
  assumes "i < length nodes" "unat p < length nodes" "unat c < length nodes"
  shows "linked_child nodes p c depth epoch ! i =
     (if i = unat c then (node_new_child depth epoch)
          \<lparr>dn_next_sibling := dn_first_child (nodes ! unat p), dn_parent_index := p\<rparr>
      else if i = unat p then (nodes ! i)\<lparr>dn_first_child := c\<rparr> else nodes ! i)"
  using assms by (auto simp: linked_child_def nth_list_update)

lemma kids_add_child:
  assumes wf: "tree_wf nodes" and c: "\<not> linked nodes c" "unat c < length nodes"
    and p: "unat p < length nodes" "p \<noteq> c" and i: "i < length nodes"
  shows "kids (linked_child nodes p c depth epoch) i =
     (if i = unat c then Some [] else if i = unat p then Some (c # the (kids nodes (unat p)))
      else kids nodes i)" (is "kids ?N i = _")
proof -
  have pc: "unat p \<noteq> unat c" using p(2) by (simp add: word_unat_eq_iff)
  have cmax: "c \<noteq> U32_MAX"
    using unat_max_word [where 'a = 32] c(2) wf by (auto simp: tree_wf_def)
  note nth = linked_child_nth [OF _ p(1) c(2), where depth = depth and epoch = epoch]
  have upd: "chain ?N (Suc (length nodes)) (dn_first_child (nodes ! i)) = kids nodes i"
    if "i < length nodes" for i
    using wf that c(1) linked_child_length by (rule kids_update) (simp add: nth)
  obtain ps where ps: "kids nodes (unat p) = Some ps" "distinct ps"
    "\<And>k. k \<in> set ps \<Longrightarrow> unat k < length nodes"
    using tree_wf_kids [OF wf p(1)] by metis
  have cps: "c \<notin> set ps" using not_linkedD [OF c(1) p(1)] ps(1) by simp
  have "length (c # ps) \<le> length nodes"
    using ps cps c(2) by (intro distinct_index_length) auto
  then have "length ps < length nodes" by simp
  with upd [OF p(1)] ps(1) have
    "chain ?N (length nodes) (dn_first_child (nodes ! unat p)) = Some ps"
    by (metis chain_fuel)
  moreover have "dn_next_sibling (?N ! unat c) = dn_first_child (nodes ! unat p)"
    by (simp add: nth c(2))
  ultimately have "chain ?N (Suc (length nodes)) c = Some (c # ps)"
    using cmax c(2) by simp
  moreover have "dn_first_child (?N ! unat p) = c" using p(1) pc by (simp add: nth)
  ultimately have Kp: "kids ?N (unat p) = Some (c # ps)" by (simp only: kids_def linked_child_length)
  have Kc: "kids ?N (unat c) = Some []"
    using c(2) by (simp add: kids_def nth node_new_child_def)
  have "kids ?N i = kids nodes i" if "i \<noteq> unat c" "i \<noteq> unat p"
  proof -
    have "dn_first_child (?N ! i) = dn_first_child (nodes ! i)" using i that by (simp add: nth)
    with upd [OF i] show ?thesis by (simp only: kids_def linked_child_length)
  qed
  with Kp Kc ps(1) show ?thesis by auto
qed

lemma add_child_wf:
  assumes wf: "tree_wf nodes" and c: "\<not> linked nodes c" "unat c < length nodes"
    and p: "unat p < length nodes" "dn_is_valid (nodes ! unat p)" "p \<noteq> c"
    and d: "dn_depth (nodes ! unat p) < depth"
  shows "tree_wf (linked_child nodes p c depth epoch)" (is "tree_wf ?N")
proof (rule tree_wfI)
  have pc: "unat p \<noteq> unat c" using p(3) by (simp add: word_unat_eq_iff)
  obtain ps where ps: "kids nodes (unat p) = Some ps" "distinct ps"
    using tree_wf_kids [OF wf p(1)] by metis
  have cps: "c \<notin> set ps" using not_linkedD [OF c(1) p(1)] ps(1) by simp
  note K = kids_add_child [OF wf c p(1,3), where depth = depth and epoch = epoch, unfolded ps(1) option.sel]
  note nth = linked_child_nth [OF _ p(1) c(2), where depth = depth and epoch = epoch]
  note unlinked = not_linkedD [OF c(1)] not_linked_unat [OF c(1)]
  show "length ?N < 2 ^ 32" using wf by (simp add: tree_wf_def)
  show "\<exists>cs. kids ?N i = Some cs \<and> distinct cs" if "i < length ?N" for i
    using K that tree_wf_kids [OF wf] ps(2) cps by (metis distinct.simps linked_child_length)
  show "dn_depth (?N ! i) < dn_depth (?N ! unat k) \<and>
        (dn_is_valid (?N ! unat k) \<longrightarrow> dn_is_valid (?N ! i))"
    if "i < length ?N" "k \<in> set (the (kids ?N i))" for i k
  proof (cases "k = c")
    case True
    with that K [of i] unlinked(1) [of i] have "i = unat p" by (auto split: if_splits)
    with True c(2) p d pc show ?thesis by (simp add: nth node_new_child_def)
  next
    case False
    with that K [of i] ps(1) have k: "k \<in> set (the (kids nodes i))" "i \<noteq> unat c"
      by (auto split: if_splits)
    have "unat k < length nodes"
      using tree_wf_kids [OF wf, of i] k(1) that(1) by (metis linked_child_length option.sel)
    moreover have "dn_depth (nodes ! i) < dn_depth (nodes ! unat k)"
      "dn_is_valid (nodes ! unat k) \<Longrightarrow> dn_is_valid (nodes ! i)"
      using wf k(1) that(1) by (auto simp: tree_wf_iff)
    ultimately show ?thesis
      using k that(1) unlinked(2) [of i k] by (auto simp: nth)
  qed
  show "i = j" if "i < length ?N" "j < length ?N" "k \<in> set (the (kids ?N i))"
    "k \<in> set (the (kids ?N j))" for i j k
    using K that unlinked(1) [of i] unlinked(1) [of j] ps(1) tree_wf_unique_parent [OF wf, of i j k]
    by (auto split: if_splits)
qed

text \<open>
  The code never takes a revoked child out of its parent's chain.  A slot that is linked twice
  under the same parent is its own next sibling, and then the inner loop of both walks never ends.
\<close>

lemma push_children_no_self_loop:
  assumes "push_children nodes c stack = Some r"
  shows "\<not> (c \<noteq> U32_MAX \<and> unat c < length nodes \<and> dn_next_sibling (nodes ! unat c) = c)"
  using assms
proof (rule push_children.raw_induct [rotated])
  fix f nodes c stack r
  assume IH: "\<And>nodes c stack r. f nodes c stack = Some r \<Longrightarrow>
      \<not> (c \<noteq> U32_MAX \<and> unat c < length nodes \<and> dn_next_sibling (nodes ! unat c) = c)"
    and step: "(if c = U32_MAX then Some stack
       else if unat c \<ge> length nodes then Some stack
       else f nodes (dn_next_sibling (nodes ! unat c))
              (if dn_is_valid (nodes ! unat c) \<and> length stack < length nodes
               then c # stack else stack)) = Some r"
  show "\<not> (c \<noteq> U32_MAX \<and> unat c < length nodes \<and> dn_next_sibling (nodes ! unat c) = c)"
  proof
    assume c: "c \<noteq> U32_MAX \<and> unat c < length nodes \<and> dn_next_sibling (nodes ! unat c) = c"
    with step obtain s where "f nodes c s = Some r" by auto
    from IH [OF this] c show False by simp
  qed
qed

lemma push_children_self_loop:
  assumes "c \<noteq> U32_MAX" "unat c < length nodes" "dn_next_sibling (nodes ! unat c) = c"
  shows "push_children nodes c stack = None"
  using push_children_no_self_loop assms by (metis not_None_eq)

end
