(* ===== verification/Cap_Verify.thy ===== *)
theory Cap_Verify
  imports Cap_Derivation
begin

text \<open>
  Crate \<open>rvm-cap\<close>, file \<open>verify.rs\<close>: the three proof layers.  P1 is a handle and rights
  check, P2 a conjunction of structural checks with a nonce memory, P3 a walk over the derivation
  tree to a root.  The nonce memory is the pair of fixed arrays of the code; \<open>p3_walk\<close> is a
  \<^theory_text>\<open>partial_function (option)\<close>, because the parent search it calls may not end.
\<close>

section \<open>Errors, context and verifier\<close>

datatype proof_error =
    ProofInvalidHandle | ProofStaleCapability | InsufficientRights | PolicyViolation
  | P3NotImplemented | DerivationChainBroken

fun proof_error_to_rvm :: "proof_error \<Rightarrow> rvm_error" where
  "proof_error_to_rvm ProofInvalidHandle = InsufficientCapability"
| "proof_error_to_rvm InsufficientRights = InsufficientCapability"
| "proof_error_to_rvm ProofStaleCapability = StaleCapability"
| "proof_error_to_rvm PolicyViolation = ProofInvalid"
| "proof_error_to_rvm DerivationChainBroken = ProofInvalid"
| "proof_error_to_rvm P3NotImplemented = Unsupported"

definition NONCE_RING_SIZE :: nat where "NONCE_RING_SIZE = 4096"

record policy_context =
  pc_expected_owner :: u32
  pc_region_base :: u64
  pc_region_limit :: u64
  pc_lease_expiry_ns :: u64
  pc_current_time_ns :: u64
  pc_max_delegation_depth :: u8
  pc_nonce :: u64

record proof_verifier =
  pv_current_epoch :: u32
  pv_nonce_ring :: "u64 list"
  pv_nonce_hash :: "u64 list"
  pv_nonce_write_pos :: nat
  pv_nonce_watermark :: u64
  pv_allow_zero_nonce :: bool

definition verifier_new :: "u32 \<Rightarrow> proof_verifier" where
  "verifier_new epoch =
     \<lparr>pv_current_epoch = epoch, pv_nonce_ring = replicate NONCE_RING_SIZE 0,
      pv_nonce_hash = replicate NONCE_RING_SIZE 0, pv_nonce_write_pos = 0,
      pv_nonce_watermark = 0, pv_allow_zero_nonce = False\<rparr>"

definition verifier_set_allow_zero_nonce :: "bool \<Rightarrow> proof_verifier \<Rightarrow> proof_verifier" where
  "verifier_set_allow_zero_nonce allow v = v\<lparr>pv_allow_zero_nonce := allow\<rparr>"

definition verifier_set_epoch :: "u32 \<Rightarrow> proof_verifier \<Rightarrow> proof_verifier" where
  "verifier_set_epoch epoch v = v\<lparr>pv_current_epoch := epoch\<rparr>"

section \<open>P1\<close>

text \<open>The failure mask of the code is kept as a \<open>u8\<close> whose bits are tested at the end.\<close>

definition verify_p1 ::
    "cap_table \<Rightarrow> u32 \<Rightarrow> u32 \<Rightarrow> cap_rights \<Rightarrow> proof_verifier \<Rightarrow> proof_error + unit" where
  "verify_p1 table cap_index cap_generation required_rights v =
     (let (fail_mask :: u8, epoch_match, rights_match) =
            (case table_lookup cap_index cap_generation table of
               Inr slot \<Rightarrow> (0, tok_epoch (cs_token slot) = pv_current_epoch v,
                            has_rights (cs_token slot) required_rights)
             | Inl _ \<Rightarrow> (1, False, False));
          fail_mask = (if \<not> epoch_match then fail_mask OR 2 else fail_mask);
          fail_mask = (if \<not> rights_match then fail_mask OR 4 else fail_mask)
      in if fail_mask = 0 then Inr ()
         else if fail_mask AND 1 \<noteq> 0 then Inl ProofInvalidHandle
         else if fail_mask AND 2 \<noteq> 0 then Inl ProofStaleCapability
         else Inl InsufficientRights)"

section \<open>Nonces\<close>

definition nonce_slot :: "u64 \<Rightarrow> nat" where
  "nonce_slot nonce = unat (nonce mod of_nat NONCE_RING_SIZE)"

definition check_nonce :: "u64 \<Rightarrow> proof_verifier \<Rightarrow> bool" where
  "check_nonce nonce v =
     (if nonce = 0 then pv_allow_zero_nonce v
      else if nonce \<le> pv_nonce_watermark v then False
      else if pv_nonce_hash v ! nonce_slot nonce = nonce then False
      else True)"

definition ring_min :: "u64 list \<Rightarrow> u64" where
  "ring_min ring = foldl (\<lambda>m e. if e \<noteq> 0 \<and> e < m then e else m) U64_MAX ring"

definition mark_nonce :: "u64 \<Rightarrow> proof_verifier \<Rightarrow> proof_verifier" where
  "mark_nonce nonce v =
     (if nonce = 0 then v
      else
        let v1 = v\<lparr>pv_nonce_ring := (pv_nonce_ring v)[pv_nonce_write_pos v := nonce],
                   pv_nonce_hash := (pv_nonce_hash v)[nonce_slot nonce := nonce],
                   pv_nonce_write_pos := (pv_nonce_write_pos v + 1) mod NONCE_RING_SIZE\<rparr>
        in if pv_nonce_write_pos v1 = 0
           then let min_val = ring_min (pv_nonce_ring v1) in
                if min_val \<noteq> U64_MAX \<and> min_val > pv_nonce_watermark v1
                then v1\<lparr>pv_nonce_watermark := min_val\<rparr> else v1
           else v1)"

section \<open>P2\<close>

definition verify_p2 ::
    "cap_table \<Rightarrow> deriv_tree \<Rightarrow> u32 \<Rightarrow> u32 \<Rightarrow> policy_context \<Rightarrow> proof_verifier
       \<Rightarrow> (proof_error, unit, proof_verifier) outcome" where
  "verify_p2 table tree cap_index cap_generation ctx v =
     (let owner_ok = (case table_lookup cap_index cap_generation table of
                        Inr slot \<Rightarrow> cs_owner slot = pc_expected_owner ctx
                      | Inl _ \<Rightarrow> False);
          bounds_ok = pc_region_base ctx < pc_region_limit ctx;
          lease_ok = pc_current_time_ns ctx \<le> pc_lease_expiry_ns ctx;
          depth_ok = (case tree_depth cap_index tree of
                        Inr d \<Rightarrow> d \<le> pc_max_delegation_depth ctx
                      | Inl _ \<Rightarrow> False);
          nonce_ok = check_nonce (pc_nonce ctx) v
      in if owner_ok \<and> bounds_ok \<and> lease_ok \<and> depth_ok \<and> nonce_ok
         then (Inr (), mark_nonce (pc_nonce ctx) v)
         else (Inl PolicyViolation, v))"

section \<open>P3\<close>

text \<open>The loop of \<open>verify_p3\<close>; \<open>steps\<close> is the \<open>u8\<close> counter, incremented before the test.\<close>

partial_function (option) p3_walk ::
    "deriv_tree \<Rightarrow> u8 \<Rightarrow> u32 \<Rightarrow> u8 \<Rightarrow> u64 \<Rightarrow> u8 \<Rightarrow> (proof_error + unit) option" where
  "p3_walk tree max_depth current_idx current_depth current_epoch steps =
     (if steps + 1 > max_depth then Some (Inl DerivationChainBroken)
      else Option.bind (tree_find_parent current_idx tree) (\<lambda>parent_idx.
        case parent_idx of
          None \<Rightarrow> Some (Inl DerivationChainBroken)
        | Some pidx \<Rightarrow>
            (case tree_get pidx tree of
               None \<Rightarrow> Some (Inl DerivationChainBroken)
             | Some parent \<Rightarrow>
                 if \<not> dn_is_valid parent then Some (Inl DerivationChainBroken)
                 else if dn_depth parent \<ge> current_depth then Some (Inl DerivationChainBroken)
                 else if dn_epoch parent > current_epoch then Some (Inl DerivationChainBroken)
                 else if dn_depth parent = 0 then Some (Inr ())
                 else p3_walk tree max_depth pidx (dn_depth parent) (dn_epoch parent) (steps + 1))))"

definition verify_p3 ::
    "cap_table \<Rightarrow> deriv_tree \<Rightarrow> u32 \<Rightarrow> u32 \<Rightarrow> u8 \<Rightarrow> (proof_error + unit) option" where
  "verify_p3 table tree cap_index cap_generation max_depth =
     (case table_lookup cap_index cap_generation table of
        Inl _ \<Rightarrow> Some (Inl DerivationChainBroken)
      | Inr _ \<Rightarrow>
          (case tree_get cap_index tree of
             None \<Rightarrow> Some (Inl DerivationChainBroken)
           | Some node \<Rightarrow>
               if \<not> dn_is_valid node then Some (Inl DerivationChainBroken)
               else if dn_depth node = 0 then Some (Inr ())
               else p3_walk tree max_depth cap_index (dn_depth node) (dn_epoch node) 0))"

section \<open>What P1 decides\<close>

lemma verify_p1_cases:
  "verify_p1 table i g required v =
     (case table_lookup i g table of
        Inl _ \<Rightarrow> Inl ProofInvalidHandle
      | Inr slot \<Rightarrow>
          if tok_epoch (cs_token slot) \<noteq> pv_current_epoch v then Inl ProofStaleCapability
          else if \<not> has_rights (cs_token slot) required then Inl InsufficientRights
          else Inr ())"
  by (simp add: verify_p1_def Let_def split: sum.splits)

lemma verify_p1_Ok:
  "verify_p1 table i g required v = Inr () \<longleftrightarrow>
     (\<exists>slot. table_lookup i g table = Inr slot \<and> tok_epoch (cs_token slot) = pv_current_epoch v \<and>
        rights_contains (tok_rights (cs_token slot)) required)"
  by (auto simp: verify_p1_cases has_rights_def split: sum.splits)

section \<open>The nonce memory\<close>

definition verifier_inv :: "proof_verifier \<Rightarrow> bool" where
  "verifier_inv v \<longleftrightarrow>
     length (pv_nonce_ring v) = NONCE_RING_SIZE \<and> length (pv_nonce_hash v) = NONCE_RING_SIZE \<and>
     pv_nonce_write_pos v < NONCE_RING_SIZE"

lemma nonce_slot_less: "nonce_slot n < NONCE_RING_SIZE"
proof -
  have "n mod 4096 < 4096" by (rule word_mod_less_divisor) simp
  then show ?thesis by (simp add: nonce_slot_def NONCE_RING_SIZE_def word_less_nat_alt)
qed

lemma verifier_new_inv: "verifier_inv (verifier_new e)"
  by (simp add: verifier_inv_def verifier_new_def NONCE_RING_SIZE_def)

lemma mark_nonce_inv: "verifier_inv v \<Longrightarrow> verifier_inv (mark_nonce n v)"
  by (simp add: mark_nonce_def verifier_inv_def Let_def NONCE_RING_SIZE_def)

lemma mark_nonce_hash:
  "pv_nonce_hash (mark_nonce n v) =
     (if n = 0 then pv_nonce_hash v else (pv_nonce_hash v)[nonce_slot n := n])"
  by (simp add: mark_nonce_def Let_def)

lemma mark_nonce_watermark: "pv_nonce_watermark v \<le> pv_nonce_watermark (mark_nonce n v)"
  by (auto simp: mark_nonce_def Let_def)

lemma mark_nonce_zero [simp]: "pv_allow_zero_nonce (mark_nonce n v) = pv_allow_zero_nonce v"
  by (simp add: mark_nonce_def Let_def)

text \<open>A nonce is remembered while its hash slot still holds it.\<close>

definition remembers :: "u64 \<Rightarrow> proof_verifier \<Rightarrow> bool" where
  "remembers n v \<longleftrightarrow> pv_nonce_hash v ! nonce_slot n = n"

lemma remembers_rejected: "remembers n v \<Longrightarrow> n \<noteq> 0 \<Longrightarrow> \<not> check_nonce n v"
  by (simp add: remembers_def check_nonce_def)

lemma mark_remembers: "verifier_inv v \<Longrightarrow> n \<noteq> 0 \<Longrightarrow> remembers n (mark_nonce n v)"
  using nonce_slot_less [of n] by (simp add: remembers_def mark_nonce_hash verifier_inv_def)

lemma mark_keeps_remembering:
  assumes "remembers n v" "nonce_slot k = nonce_slot n \<longrightarrow> k = n" "verifier_inv v"
  shows "remembers n (mark_nonce k v)"
  using assms nonce_slot_less [of n]
  by (auto simp: remembers_def mark_nonce_hash verifier_inv_def nth_list_update)

lemma verify_p2_state:
  "verify_p2 tb tr i g ctx v = (r, v') \<Longrightarrow> v' = v \<or> (v' = mark_nonce (pc_nonce ctx) v \<and> r = Inr ())"
  by (auto simp: verify_p2_def Let_def split: if_splits)

lemma verify_p2_inv: "verifier_inv v \<Longrightarrow> verifier_inv (snd (verify_p2 tb tr i g ctx v))"
  by (cases "verify_p2 tb tr i g ctx v") (auto dest: verify_p2_state simp: mark_nonce_inv)

text \<open>A sequence of P2 calls, each with the table and tree of its moment.\<close>

type_synonym p2_call = "cap_table \<times> deriv_tree \<times> u32 \<times> u32 \<times> policy_context"

definition p2_call_run :: "proof_verifier \<Rightarrow> p2_call \<Rightarrow> proof_verifier" where
  "p2_call_run v c = (case c of (tb, tr, i, g, ctx) \<Rightarrow> snd (verify_p2 tb tr i g ctx v))"

definition p2_call_nonce :: "p2_call \<Rightarrow> u64" where
  "p2_call_nonce c = (case c of (tb, tr, i, g, ctx) \<Rightarrow> pc_nonce ctx)"

lemma p2_run_remembers:
  assumes "verifier_inv v" "remembers n v"
    and "\<forall>c\<in>set calls. nonce_slot (p2_call_nonce c) = nonce_slot n \<longrightarrow> p2_call_nonce c = n"
  shows "verifier_inv (foldl p2_call_run v calls) \<and> remembers n (foldl p2_call_run v calls)"
  using assms
proof (induction calls arbitrary: v)
  case Nil
  then show ?case by simp
next
  case (Cons c calls)
  obtain tb tr i g ctx where c: "c = (tb, tr, i, g, ctx)" by (cases c)
  have "verifier_inv (p2_call_run v c)" using verify_p2_inv Cons.prems(1) by (simp add: c p2_call_run_def)
  moreover have "remembers n (p2_call_run v c)"
    using Cons.prems verify_p2_state [of tb tr i g ctx v "fst (verify_p2 tb tr i g ctx v)"
        "snd (verify_p2 tb tr i g ctx v)"]
    by (auto simp: c p2_call_run_def p2_call_nonce_def intro: mark_keeps_remembering)
  ultimately show ?case using Cons.IH Cons.prems(3) by simp
qed

section \<open>The walk of P3\<close>

lemma chain_has_chain:
  assumes "chain nodes f c = Some cs" "x \<noteq> U32_MAX" "unat x < length nodes"
  shows "chain_has nodes c x = Some (x \<in> set cs)"
  using assms
proof (induction f arbitrary: c cs)
  case 0
  then show ?case by simp
next
  case (Suc f)
  show ?case
  proof (cases "c = U32_MAX")
    case True
    with Suc.prems show ?thesis by (simp add: chain_has.simps)
  next
    case False
    with Suc.prems(1) obtain ds where c: "unat c < length nodes" "cs = c # ds"
      and ds: "chain nodes f (dn_next_sibling (nodes ! unat c)) = Some ds"
      by (auto split: if_splits)
    have "chain_has nodes (dn_next_sibling (nodes ! unat c)) x = Some (x \<in> set ds)"
      using Suc.IH [OF ds] Suc.prems(2,3) by blast
    with False c show ?thesis by (subst chain_has.simps) auto
  qed
qed

lemma scan_parents_ends:
  assumes "tree_wf nodes" "x \<noteq> U32_MAX" "unat x < length nodes" "\<forall>i\<in>set is. i < length nodes"
  shows "\<exists>r. scan_parents nodes x is = Some r"
  using assms(4)
proof (induction "is")
  case Nil
  then show ?case by simp
next
  case (Cons i "is")
  have "i < length nodes" using Cons.prems by simp
  then obtain cs where "kids nodes i = Some cs" by (rule tree_wf_kids [OF assms(1)])
  then have "chain_has nodes (dn_first_child (nodes ! i)) x = Some (x \<in> set cs)"
    using chain_has_chain assms(2,3) by (simp only: kids_def)
  with Cons show ?case by auto
qed

lemma wf_index_not_max: "tree_wf nodes \<Longrightarrow> unat c < length nodes \<Longrightarrow> c \<noteq> (U32_MAX :: u32)"
  using unat_max_word [where 'a = 32] by (auto simp: tree_wf_def)

lemma find_parent_ends:
  assumes "tree_wf (dt_nodes t)"
  shows "\<exists>r. tree_find_parent c t = Some r"
proof (cases "unat c < length (dt_nodes t)")
  case True
  show ?thesis
    using scan_parents_ends [OF assms wf_index_not_max [OF assms True] True,
        of "[0..<length (dt_nodes t)]"]
    by (auto simp: tree_find_parent_def Let_def)
next
  case False
  then show ?thesis by (simp add: tree_find_parent_def Let_def)
qed

lemma p3_walk_ends:
  assumes "tree_wf (dt_nodes t)"
  shows "\<exists>r. p3_walk t max_depth i d e steps = Some r"
proof (induction "unat d" arbitrary: i d e steps rule: less_induct)
  case less
  obtain r where r: "tree_find_parent i t = Some r" using find_parent_ends assms by blast
  have rec: "dn_depth p < d \<Longrightarrow> \<exists>r. p3_walk t max_depth j (dn_depth p) (dn_epoch p) (steps + 1) = Some r"
    for p j using less.hyps by (simp add: word_less_nat_alt)
  show ?case
    by (subst p3_walk.simps) (auto simp: r not_le split: option.splits intro: rec)
qed

text \<open>
  The certificate that P3 looks for: a path of parents from the capability to a node of depth 0,
  with valid nodes, strictly falling depths and epochs that do not grow towards the root.
\<close>

fun root_path :: "deriv_tree \<Rightarrow> u32 list \<Rightarrow> bool" where
  "root_path t [] = False"
| "root_path t [i] = (case tree_get i t of None \<Rightarrow> False | Some n \<Rightarrow> dn_depth n = 0)"
| "root_path t (i # p # ps) =
     (tree_find_parent i t = Some (Some p) \<and>
      (case (tree_get i t, tree_get p t) of
         (Some n, Some m) \<Rightarrow> dn_depth m < dn_depth n \<and> dn_epoch m \<le> dn_epoch n
       | _ \<Rightarrow> False) \<and>
      root_path t (p # ps))"

lemma tree_get_valid: "tree_get i t = Some n \<Longrightarrow> dn_is_valid n"
  by (auto simp: tree_get_def Let_def split: if_splits)

lemma root_path_root:
  assumes "root_path t (i # ps)" "tree_get i t = Some n" "dn_depth n = 0"
  shows "ps = []"
  using assms by (cases ps) (auto split: option.splits)

lemma p3_walk_iff:
  assumes "tree_get i t = Some n" "dn_depth n \<noteq> 0" "unat steps + unat (dn_depth n) \<le> 255"
  shows "p3_walk t max_depth i (dn_depth n) (dn_epoch n) steps = Some (Inr ()) \<longleftrightarrow>
           (\<exists>ps. root_path t (i # ps) \<and> unat steps + length ps \<le> unat max_depth)"
  using assms
proof (induction "unat (dn_depth n)" arbitrary: i n steps rule: less_induct)
  case less
  have d0: "0 < unat (dn_depth n)" using less.prems(2) by (simp add: unat_gt_0)
  have st: "unat (steps + 1) = unat steps + 1"
    using less.prems(3) d0 by (subst unat_add_lem [THEN iffD1]) auto
  have paths: "root_path t (i # ps) \<longleftrightarrow>
      (\<exists>p m qs. ps = p # qs \<and> tree_find_parent i t = Some (Some p) \<and> tree_get p t = Some m \<and>
         dn_depth m < dn_depth n \<and> dn_epoch m \<le> dn_epoch n \<and> root_path t (p # qs))" for ps
    using less.prems by (cases ps) (auto split: option.splits)
  show ?case
  proof (cases "\<exists>p m. steps + 1 \<le> max_depth \<and> tree_find_parent i t = Some (Some p) \<and>
           tree_get p t = Some m \<and> dn_depth m < dn_depth n \<and> dn_epoch m \<le> dn_epoch n")
    case False
    then have "p3_walk t max_depth i (dn_depth n) (dn_epoch n) steps \<noteq> Some (Inr ())"
      by (subst p3_walk.simps)
         (auto simp: not_le not_less bind_eq_Some_conv split: option.splits if_splits)
    moreover have "steps + 1 > max_depth \<Longrightarrow> unat max_depth \<le> unat steps"
      using st by (simp add: word_less_nat_alt)
    ultimately show ?thesis using False unfolding paths by (force simp: not_le)
  next
    case True
    then obtain p m where pm: "steps + 1 \<le> max_depth" "tree_find_parent i t = Some (Some p)"
      "tree_get p t = Some m" "dn_depth m < dn_depth n" "dn_epoch m \<le> dn_epoch n" by blast
    have unfold: "p3_walk t max_depth i (dn_depth n) (dn_epoch n) steps =
        (if dn_depth m = 0 then Some (Inr ())
         else p3_walk t max_depth p (dn_depth m) (dn_epoch m) (steps + 1))"
    proof -
      have "\<not> steps + 1 > max_depth" "\<not> dn_depth m \<ge> dn_depth n" "\<not> dn_epoch m > dn_epoch n"
        using pm by (simp_all add: not_le not_less)
      with pm(2,3) tree_get_valid [OF pm(3)] show ?thesis by (subst p3_walk.simps) simp
    qed
    have ex: "(\<exists>ps. root_path t (i # ps) \<and> unat steps + length ps \<le> unat max_depth) \<longleftrightarrow>
        (\<exists>qs. root_path t (p # qs) \<and> unat (steps + 1) + length qs \<le> unat max_depth)"
      unfolding paths using pm st by force
    show ?thesis
    proof (cases "dn_depth m = 0")
      case True
      have "root_path t [p]" using pm(3) True by simp
      moreover have "unat (steps + 1) \<le> unat max_depth" using pm(1) by (simp add: word_le_nat_alt)
      ultimately show ?thesis unfolding ex unfold using True by (auto intro!: exI [of _ "[]"])
    next
      case False
      have "unat (dn_depth m) < unat (dn_depth n)" using pm(4) by (simp add: word_less_nat_alt)
      then show ?thesis
        unfolding ex unfold using less.hyps [of m p "steps + 1"] False pm(3) less.prems(3) st by simp
    qed
  qed
qed

lemma verify_p3_iff:
  "verify_p3 tb t i g max_depth = Some (Inr ()) \<longleftrightarrow>
     (\<exists>s. table_lookup i g tb = Inr s) \<and>
     (\<exists>ps. root_path t (i # ps) \<and> length ps \<le> unat max_depth)"
proof (cases "table_lookup i g tb")
  case (Inl e)
  then show ?thesis by (simp add: verify_p3_def)
next
  case (Inr s)
  show ?thesis
  proof (cases "tree_get i t")
    case None
    have "\<not> root_path t (i # ps)" for ps
      using None by (cases ps) auto
    with None Inr show ?thesis by (simp add: verify_p3_def)
  next
    case (Some n)
    have "unat (dn_depth n) \<le> 255"
      using unsigned_less [of "dn_depth n", where ?'a = nat] by simp
    moreover have "dn_depth n = 0 \<Longrightarrow> root_path t [i]" using Some by simp
    ultimately show ?thesis
      using Some Inr tree_get_valid [OF Some] p3_walk_iff [OF Some, of 0 max_depth]
      by (auto simp: verify_p3_def intro!: exI [of _ "[]"])
  qed
qed

end
