(* ===== verification/Cap_Manager.thy ===== *)
theory Cap_Manager
  imports Cap_Verify
begin

text \<open>
  Crate \<open>rvm-cap\<close>, files \<open>grant.rs\<close>, \<open>revoke.rs\<close> and \<open>manager.rs\<close>: the
  capability manager that owns the table, the derivation tree and the verifier.  The invariant
  \<open>mgr_inv\<close> says that table and tree agree; every operation keeps it, a creation or a grant under the
  condition that the slot it is given is in no child chain (\<open>fresh_slot\<close>).  Without that condition
  the tree does not stay well formed and a revocation may never return.
\<close>

section \<open>Grants\<close>

definition DEFAULT_MAX_DELEGATION_DEPTH :: u8 where "DEFAULT_MAX_DELEGATION_DEPTH = 8"
definition DEFAULT_CAP_TABLE_CAPACITY :: nat where "DEFAULT_CAP_TABLE_CAPACITY = 256"

record grant_policy =
  gp_max_depth :: u8
  gp_allow_grant_once :: bool

definition grant_policy_new :: grant_policy where
  "grant_policy_new = \<lparr>gp_max_depth = DEFAULT_MAX_DELEGATION_DEPTH, gp_allow_grant_once = True\<rparr>"

definition grant_policy_with_max_depth :: "u8 \<Rightarrow> grant_policy" where
  "grant_policy_with_max_depth d = \<lparr>gp_max_depth = d, gp_allow_grant_once = True\<rparr>"

definition validate_grant ::
    "cap_slot \<Rightarrow> cap_rights \<Rightarrow> u64 \<Rightarrow> u64 \<Rightarrow> u32 \<Rightarrow> grant_policy
       \<Rightarrow> cap_error + cap_token \<times> u8 \<times> bool" where
  "validate_grant source requested_rights new_id badge epoch policy =
     (let source_rights = tok_rights (cs_token source);
          has_grant = rights_contains source_rights GRANT;
          has_grant_once = gp_allow_grant_once policy \<and> rights_contains source_rights GRANT_ONCE
      in if \<not> has_grant \<and> \<not> has_grant_once then Inl GrantNotPermitted
         else if \<not> rights_contains source_rights requested_rights then Inl RightsEscalation
         else case checked_add (cs_depth source) 1 of
           None \<Rightarrow> Inl CapDelegationDepthExceeded
         | Some new_depth \<Rightarrow>
             if new_depth > gp_max_depth policy then Inl CapDelegationDepthExceeded
             else Inr (cap_token_new new_id (tok_type (cs_token source)) requested_rights epoch,
                       new_depth, \<not> has_grant \<and> has_grant_once))"

section \<open>Revocation\<close>

text \<open>\<open>None\<close>: one of the two tree walks does not return.\<close>

definition revoke_capability ::
    "u32 \<Rightarrow> u32 \<Rightarrow> cap_table \<Rightarrow> deriv_tree \<Rightarrow> (cap_error, nat, cap_table \<times> deriv_tree) outcome option" where
  "revoke_capability index generation table tree =
     (case table_lookup index generation table of
        Inl e \<Rightarrow> Some (Inl e, table, tree)
      | Inr _ \<Rightarrow>
          Option.bind (tree_collect_subtree index tree) (\<lambda>revoked_indices.
          Option.bind (tree_revoke index tree) (\<lambda>(r, tree').
            case r of
              Inl _ \<Rightarrow> Some (Inl Revoked, table, tree')
            | Inr revoked \<Rightarrow>
                Some (Inr revoked,
                      foldl (\<lambda>t idx. table_force_invalidate idx t) table revoked_indices, tree'))))"

definition revoke_single :: "u32 \<Rightarrow> u32 \<Rightarrow> cap_table \<Rightarrow> (cap_error, unit, cap_table) outcome" where
  "revoke_single index generation table = table_remove index generation table"

section \<open>The manager\<close>

record cap_manager_config =
  cc_max_delegation_depth :: u8
  cc_track_derivation :: bool
  cc_initial_epoch :: u32

definition cap_manager_config_new :: cap_manager_config where
  "cap_manager_config_new =
     \<lparr>cc_max_delegation_depth = DEFAULT_MAX_DELEGATION_DEPTH, cc_track_derivation = True,
      cc_initial_epoch = 0\<rparr>"

definition config_with_max_depth :: "u8 \<Rightarrow> cap_manager_config \<Rightarrow> cap_manager_config" where
  "config_with_max_depth d c = c\<lparr>cc_max_delegation_depth := d\<rparr>"

record manager_stats =
  ms_caps_created :: u64
  ms_caps_granted :: u64
  ms_caps_revoked :: u64
  ms_revoke_operations :: u64
  ms_max_depth_reached :: u8

record cap_manager =
  cm_table :: cap_table
  cm_derivation :: deriv_tree
  cm_verifier :: proof_verifier
  cm_config :: cap_manager_config
  cm_grant_policy :: grant_policy
  cm_epoch :: u32
  cm_next_id :: u64
  cm_stats :: manager_stats

definition manager_new :: "nat \<Rightarrow> cap_manager_config \<Rightarrow> cap_manager" where
  "manager_new n config =
     \<lparr>cm_table = table_new n, cm_derivation = tree_new n,
      cm_verifier = verifier_new (cc_initial_epoch config), cm_config = config,
      cm_grant_policy = \<lparr>gp_max_depth = cc_max_delegation_depth config, gp_allow_grant_once = True\<rparr>,
      cm_epoch = cc_initial_epoch config, cm_next_id = 1,
      cm_stats = \<lparr>ms_caps_created = 0, ms_caps_granted = 0, ms_caps_revoked = 0,
                  ms_revoke_operations = 0, ms_max_depth_reached = 0\<rparr>\<rparr>"

definition manager_with_defaults :: "nat \<Rightarrow> cap_manager" where
  "manager_with_defaults n = manager_new n cap_manager_config_new"

definition manager_increment_epoch :: "cap_manager \<Rightarrow> cap_manager" where
  "manager_increment_epoch m =
     (let e = cm_epoch m + 1
      in m\<lparr>cm_epoch := e, cm_verifier := verifier_set_epoch e (cm_verifier m)\<rparr>)"

definition create_root_capability_inner ::
    "cap_type \<Rightarrow> cap_rights \<Rightarrow> u64 \<Rightarrow> partition_id \<Rightarrow> cap_manager
       \<Rightarrow> (cap_error, u32 \<times> u32, cap_manager) outcome" where
  "create_root_capability_inner cap_type rights badge owner m =
     (let id = cm_next_id m in
      case checked_add (cm_next_id m) 1 of
        None \<Rightarrow> (Inl TableFull, m)
      | Some n \<Rightarrow>
          let m = m\<lparr>cm_next_id := n\<rparr>;
              token = cap_token_new id cap_type rights (cm_epoch m)
          in case table_insert_root token owner badge (cm_table m) of
               (Inl e, t) \<Rightarrow> (Inl e, m\<lparr>cm_table := t\<rparr>)
             | (Inr (index, generation), t) \<Rightarrow>
                 let m = m\<lparr>cm_table := t\<rparr>;
                     (r, d) = (if cc_track_derivation (cm_config m)
                               then tree_add_root index (ucast (cm_epoch m)) (cm_derivation m)
                               else (Inr (), cm_derivation m));
                     m = m\<lparr>cm_derivation := d\<rparr>
                 in case r of
                      Inl e \<Rightarrow> (Inl e, m)
                    | Inr _ \<Rightarrow>
                        (Inr (index, generation),
                         m\<lparr>cm_stats := (cm_stats m)
                              \<lparr>ms_caps_created := ms_caps_created (cm_stats m) + 1\<rparr>\<rparr>))"

definition create_root_capability ::
    "cap_type \<Rightarrow> cap_rights \<Rightarrow> u64 \<Rightarrow> partition_id \<Rightarrow> cap_manager
       \<Rightarrow> (cap_error, u32 \<times> u32, cap_manager) outcome" where
  "create_root_capability cap_type rights badge owner m =
     create_root_capability_inner cap_type rights badge owner m"

definition create_root_capability_checked ::
    "cap_type \<Rightarrow> cap_rights \<Rightarrow> u64 \<Rightarrow> partition_id \<Rightarrow> partition_id \<Rightarrow> cap_manager
       \<Rightarrow> (cap_error, u32 \<times> u32, cap_manager) outcome" where
  "create_root_capability_checked cap_type rights badge owner caller_id m =
     (if \<not> is_hypervisor caller_id then (Inl GrantNotPermitted, m)
      else create_root_capability_inner cap_type rights badge owner m)"

text \<open>What the source slot keeps once its \<open>GRANT_ONCE\<close> right has been used up.\<close>

definition consume_grant_once :: "cap_slot \<Rightarrow> cap_slot" where
  "consume_grant_once s =
     s\<lparr>cs_token := cap_token_new (tok_id (cs_token s)) (tok_type (cs_token s))
         (rights_difference (tok_rights (cs_token s)) GRANT_ONCE) (tok_epoch (cs_token s))\<rparr>"

definition grant_with_caller ::
    "u32 \<Rightarrow> u32 \<Rightarrow> cap_rights \<Rightarrow> u64 \<Rightarrow> partition_id \<Rightarrow> partition_id option \<Rightarrow> cap_manager
       \<Rightarrow> (cap_error, u32 \<times> u32, cap_manager) outcome" where
  "grant_with_caller source_index source_generation requested_rights badge target_owner caller_id m =
     (case table_lookup source_index source_generation (cm_table m) of
        Inl e \<Rightarrow> (Inl e, m)
      | Inr source_copy \<Rightarrow>
          if (case caller_id of Some caller \<Rightarrow> cs_owner source_copy \<noteq> caller | None \<Rightarrow> False)
          then (Inl GrantNotPermitted, m)
          else case checked_add (cm_next_id m) 1 of
            None \<Rightarrow> (Inl TableFull, m)
          | Some n \<Rightarrow>
              let id = cm_next_id m; m = m\<lparr>cm_next_id := n\<rparr> in
              case validate_grant source_copy requested_rights id badge (cm_epoch m)
                     (cm_grant_policy m) of
                Inl e \<Rightarrow> (Inl e, m)
              | Inr (derived_token, depth, consume) \<Rightarrow>
                  (case table_insert_derived derived_token target_owner depth source_index badge
                          (cm_table m) of
                     (Inl e, t) \<Rightarrow> (Inl e, m\<lparr>cm_table := t\<rparr>)
                   | (Inr (child_index, child_generation), t) \<Rightarrow>
                       let (r, d) = (if cc_track_derivation (cm_config m)
                                     then tree_add_child source_index child_index depth
                                            (ucast (cm_epoch m)) (cm_derivation m)
                                     else (Inr (), cm_derivation m));
                           m = m\<lparr>cm_table := t, cm_derivation := d\<rparr>
                       in case r of
                            Inl e \<Rightarrow>
                              (Inl e, m\<lparr>cm_table := table_force_invalidate child_index (cm_table m)\<rparr>)
                          | Inr _ \<Rightarrow>
                              let t' = (if consume
                                        then snd (table_lookup_mut source_index source_generation
                                                    consume_grant_once (cm_table m))
                                        else cm_table m);
                                  st = (cm_stats m)
                                    \<lparr>ms_caps_granted := ms_caps_granted (cm_stats m) + 1\<rparr>;
                                  st' = (if depth > ms_max_depth_reached st
                                         then st\<lparr>ms_max_depth_reached := depth\<rparr> else st)
                              in (Inr (child_index, child_generation),
                                  m\<lparr>cm_table := t', cm_stats := st'\<rparr>)))"

definition manager_grant ::
    "u32 \<Rightarrow> u32 \<Rightarrow> cap_rights \<Rightarrow> u64 \<Rightarrow> partition_id \<Rightarrow> cap_manager
       \<Rightarrow> (cap_error, u32 \<times> u32, cap_manager) outcome" where
  "manager_grant si sg rights badge target_owner m =
     grant_with_caller si sg rights badge target_owner None m"

definition manager_grant_checked ::
    "u32 \<Rightarrow> u32 \<Rightarrow> cap_rights \<Rightarrow> u64 \<Rightarrow> partition_id \<Rightarrow> partition_id \<Rightarrow> cap_manager
       \<Rightarrow> (cap_error, u32 \<times> u32, cap_manager) outcome" where
  "manager_grant_checked si sg rights badge target_owner caller_id m =
     grant_with_caller si sg rights badge target_owner (Some caller_id) m"

definition manager_revoke ::
    "u32 \<Rightarrow> u32 \<Rightarrow> cap_manager \<Rightarrow> (cap_error, nat, cap_manager) outcome option" where
  "manager_revoke index generation m =
     map_option (\<lambda>(r, t, d).
         let m = m\<lparr>cm_table := t, cm_derivation := d\<rparr> in
         case r of
           Inl e \<Rightarrow> (Inl e, m)
         | Inr count \<Rightarrow>
             (Inr count,
              m\<lparr>cm_stats := (cm_stats m)
                   \<lparr>ms_caps_revoked := ms_caps_revoked (cm_stats m) + of_nat count,
                    ms_revoke_operations := ms_revoke_operations (cm_stats m) + 1\<rparr>\<rparr>))
       (revoke_capability index generation (cm_table m) (cm_derivation m))"

definition manager_verify_p1 :: "u32 \<Rightarrow> u32 \<Rightarrow> cap_rights \<Rightarrow> cap_manager \<Rightarrow> proof_error + unit" where
  "manager_verify_p1 i g required m = verify_p1 (cm_table m) i g required (cm_verifier m)"

definition manager_verify_p2 ::
    "u32 \<Rightarrow> u32 \<Rightarrow> policy_context \<Rightarrow> cap_manager \<Rightarrow> (proof_error, unit, cap_manager) outcome" where
  "manager_verify_p2 i g ctx m =
     (case verify_p2 (cm_table m) (cm_derivation m) i g ctx (cm_verifier m) of
        (r, v) \<Rightarrow> (r, m\<lparr>cm_verifier := v\<rparr>))"

definition manager_verify_p3 :: "u32 \<Rightarrow> u32 \<Rightarrow> u8 \<Rightarrow> cap_manager \<Rightarrow> (proof_error + unit) option" where
  "manager_verify_p3 i g max_depth m = verify_p3 (cm_table m) (cm_derivation m) i g max_depth"

section \<open>What validation accepts\<close>

lemma validate_grant_Inr:
  assumes "validate_grant source rights nid badge epoch policy = Inr (tok, depth, consume)"
  shows "tok = cap_token_new nid (tok_type (cs_token source)) rights epoch"
    "rights_contains (tok_rights (cs_token source)) rights"
    "unat depth = unat (cs_depth source) + 1" "depth \<le> gp_max_depth policy"
    "rights_contains (tok_rights (cs_token source)) GRANT \<or>
       gp_allow_grant_once policy \<and> rights_contains (tok_rights (cs_token source)) GRANT_ONCE"
    "consume \<longleftrightarrow> \<not> rights_contains (tok_rights (cs_token source)) GRANT"
  using assms
  by (auto simp: validate_grant_def Let_def not_less dest: checked_add_Some_unat
      split: if_splits option.splits)

section \<open>The manager's invariant\<close>

text \<open>
  A derived token keeps its parent's type and has no right that the parent lacks; the parent may
  have lost \<open>GRANT_ONCE\<close> since.
\<close>

definition attenuates :: "cap_token \<Rightarrow> cap_token \<Rightarrow> bool" where
  "attenuates child parent \<longleftrightarrow>
     tok_type child = tok_type parent \<and>
     rights_contains (tok_rights parent OR GRANT_ONCE) (tok_rights child)"

definition agree :: "cap_slot list \<Rightarrow> deriv_node list \<Rightarrow> bool" where
  "agree slots nodes \<longleftrightarrow>
     length slots = length nodes \<and>
     (\<forall>i\<in>{0..<length nodes}.
        dn_is_valid (nodes ! i) = slot_is_valid (slots ! i) \<and>
        (slot_is_valid (slots ! i) \<longrightarrow> cs_depth (slots ! i) = dn_depth (nodes ! i)) \<and>
        (\<forall>k\<in>set (the (kids nodes i)). slot_is_valid (slots ! unat k) \<longrightarrow>
           attenuates (cs_token (slots ! unat k)) (cs_token (slots ! i))))"

definition mgr_inv :: "cap_manager \<Rightarrow> bool" where
  "mgr_inv m \<longleftrightarrow>
     cc_track_derivation (cm_config m) \<and>
     table_inv (cm_table m) \<and>
     tree_wf (dt_nodes (cm_derivation m)) \<and>
     dt_count (cm_derivation m) = count_if dn_is_valid (dt_nodes (cm_derivation m)) \<and>
     agree (ct_slots (cm_table m)) (dt_nodes (cm_derivation m)) \<and>
     verifier_inv (cm_verifier m) \<and>
     pv_current_epoch (cm_verifier m) = cm_epoch m"

abbreviation fresh_slot :: "u32 \<Rightarrow> cap_manager \<Rightarrow> bool" where
  "fresh_slot i m \<equiv> \<not> linked (dt_nodes (cm_derivation m)) i"

lemma attenuates_refl [simp]: "attenuates t t"
  by (simp add: attenuates_def rights_contains_bits bit_simps)

lemma attenuates_trans: "attenuates a b \<Longrightarrow> attenuates b c \<Longrightarrow> attenuates a c"
  by (auto simp: attenuates_def rights_contains_bits bit_simps)

lemma attenuates_new:
  "rights_contains (tok_rights p) r \<Longrightarrow> attenuates (cap_token_new i (tok_type p) r e) p"
  by (auto simp: attenuates_def cap_token_new_def rights_contains_bits bit_simps)

lemma attenuates_consume_parent:
  "attenuates c (cs_token s) \<Longrightarrow> attenuates c (cs_token (consume_grant_once s))"
  by (auto simp: attenuates_def consume_grant_once_def cap_token_new_def rights_difference_def
      rights_contains_bits bit_simps dest: bit_imp_le_length)

lemma attenuates_consume_child:
  "attenuates (cs_token s) p \<Longrightarrow> attenuates (cs_token (consume_grant_once s)) p"
  by (auto simp: attenuates_def consume_grant_once_def cap_token_new_def rights_difference_def
      rights_contains_bits bit_simps)

lemma consume_grant_once_fields [simp]:
  "cs_generation (consume_grant_once s) = cs_generation s"
  "cs_depth (consume_grant_once s) = cs_depth s"
  "cs_owner (consume_grant_once s) = cs_owner s"
  "slot_is_valid (consume_grant_once s) = slot_is_valid s"
  by (simp_all add: consume_grant_once_def slot_is_valid_def)

lemma kids_empty: "i < n \<Longrightarrow> kids (replicate n node_empty) i = Some []"
  by (simp add: kids_def node_empty_def)

lemma manager_new_inv:
  assumes "n < 2 ^ 32" "cc_track_derivation c"
  shows "mgr_inv (manager_new n c)"
proof -
  have "tree_wf (replicate n node_empty)"
    using assms(1) by (intro tree_wfI) (auto simp: kids_empty)
  moreover have "agree (replicate n slot_empty) (replicate n node_empty)"
    by (auto simp: agree_def kids_empty) (simp_all add: node_empty_def slot_empty_def slot_is_valid_def)
  ultimately show ?thesis
    using assms table_new_inv [OF assms(1)] verifier_new_inv
    by (simp add: mgr_inv_def manager_new_def tree_new_def table_new_def verifier_new_def
        node_empty_def)
qed

lemma increment_epoch_inv: "mgr_inv m \<Longrightarrow> mgr_inv (manager_increment_epoch m)"
  by (simp add: mgr_inv_def manager_increment_epoch_def Let_def verifier_set_epoch_def
      verifier_inv_def)

subsection \<open>Agreement of table and tree\<close>

lemma agreeD:
  assumes "agree slots nodes" "i < length nodes"
  shows "dn_is_valid (nodes ! i) = slot_is_valid (slots ! i)"
    "slot_is_valid (slots ! i) \<Longrightarrow> cs_depth (slots ! i) = dn_depth (nodes ! i)"
    "k \<in> set (the (kids nodes i)) \<Longrightarrow> slot_is_valid (slots ! unat k) \<Longrightarrow>
       attenuates (cs_token (slots ! unat k)) (cs_token (slots ! i))"
  using assms by (auto simp: agree_def)

lemma agree_length: "agree slots nodes \<Longrightarrow> length slots = length nodes"
  by (simp add: agree_def)

lemma agreeI:
  assumes "length slots = length nodes"
    and "\<And>i. i < length nodes \<Longrightarrow> dn_is_valid (nodes ! i) = slot_is_valid (slots ! i)"
    and "\<And>i. i < length nodes \<Longrightarrow> slot_is_valid (slots ! i) \<Longrightarrow>
           cs_depth (slots ! i) = dn_depth (nodes ! i)"
    and "\<And>i k. i < length nodes \<Longrightarrow> k \<in> set (the (kids nodes i)) \<Longrightarrow>
           slot_is_valid (slots ! unat k) \<Longrightarrow>
           attenuates (cs_token (slots ! unat k)) (cs_token (slots ! i))"
  shows "agree slots nodes"
  using assms by (auto simp: agree_def)

lemma kids_index:
  "tree_wf nodes \<Longrightarrow> i < length nodes \<Longrightarrow> k \<in> set (the (kids nodes i)) \<Longrightarrow> unat k < length nodes"
  by (metis tree_wf_kids option.sel)

lemma agree_add_root:
  assumes A: "agree slots nodes" and wf: "tree_wf nodes"
    and c: "\<not> linked nodes c" "unat c < length nodes" "\<not> slot_is_valid (slots ! unat c)"
    and s: "slot_is_valid s" "cs_depth s = 0"
  shows "agree (slots[unat c := s]) (nodes[unat c := node_new_root e])"
proof (rule agreeI)
  note len = agree_length [OF A] and K = kids_add_root [OF wf c(1,2), where epoch = e]
  show "length (slots[unat c := s]) = length (nodes[unat c := node_new_root e])" using len by simp
  fix i assume "i < length (nodes[unat c := node_new_root e])"
  then have i: "i < length nodes" by simp
  show "dn_is_valid (nodes[unat c := node_new_root e] ! i) = slot_is_valid (slots[unat c := s] ! i)"
    using agreeD(1) [OF A i] i s len by (cases "i = unat c") (simp_all add: node_new_root_def)
  show "slot_is_valid (slots[unat c := s] ! i) \<Longrightarrow>
        cs_depth (slots[unat c := s] ! i) = dn_depth (nodes[unat c := node_new_root e] ! i)"
    using agreeD(2) [OF A i] i s len by (cases "i = unat c") (simp_all add: node_new_root_def)
  fix k assume k: "k \<in> set (the (kids (nodes[unat c := node_new_root e]) i))"
    and v: "slot_is_valid (slots[unat c := s] ! unat k)"
  have "k \<in> set (the (kids nodes i))" "i \<noteq> unat c" using k K [OF i] by (auto split: if_splits)
  then show "attenuates (cs_token (slots[unat c := s] ! unat k)) (cs_token (slots[unat c := s] ! i))"
    using agreeD(3) [OF A i, of k] v not_linked_unat [OF c(1) i, of k] by simp
qed

lemma agree_add_child:
  assumes A: "agree slots nodes" and wf: "tree_wf nodes"
    and c: "\<not> linked nodes c" "unat c < length nodes"
    and p: "unat p < length nodes" "slot_is_valid (slots ! unat p)" "p \<noteq> c"
    and s: "slot_is_valid s" "cs_depth s = depth" "attenuates (cs_token s) (cs_token (slots ! unat p))"
  shows "agree (slots[unat c := s]) (linked_child nodes p c depth e)"
proof (rule agreeI)
  note len = agree_length [OF A] and K = kids_add_child [OF wf c p(1,3), where depth = depth and epoch = e]
    and nth = linked_child_nth [OF _ p(1) c(2), where depth = depth and epoch = e]
  have pc: "unat p \<noteq> unat c" using p(3) by (simp add: word_unat_eq_iff)
  show "length (slots[unat c := s]) = length (linked_child nodes p c depth e)" using len by simp
  fix i assume "i < length (linked_child nodes p c depth e)"
  then have i: "i < length nodes" by simp
  show "dn_is_valid (linked_child nodes p c depth e ! i) = slot_is_valid (slots[unat c := s] ! i)"
    using agreeD(1) [OF A i] i s len by (cases "i = unat c") (auto simp: nth node_new_child_def)
  show "slot_is_valid (slots[unat c := s] ! i) \<Longrightarrow>
        cs_depth (slots[unat c := s] ! i) = dn_depth (linked_child nodes p c depth e ! i)"
    using agreeD(2) [OF A i] i s len by (auto simp: nth nth_list_update node_new_child_def)
  fix k assume k: "k \<in> set (the (kids (linked_child nodes p c depth e) i))"
    and v: "slot_is_valid (slots[unat c := s] ! unat k)"
  show "attenuates (cs_token (slots[unat c := s] ! unat k)) (cs_token (slots[unat c := s] ! i))"
  proof (cases "k = c")
    case True
    with k K [OF i] not_linkedD [OF c(1) i] have "i = unat p" by (auto split: if_splits)
    with True s pc c(2) len show ?thesis by simp
  next
    case False
    with k K [OF i] have "k \<in> set (the (kids nodes i))" "i \<noteq> unat c" by (auto split: if_splits)
    then show ?thesis
      using agreeD(3) [OF A i, of k] v not_linked_unat [OF c(1) i, of k] by simp
  qed
qed

lemma agree_consume:
  assumes A: "agree slots nodes" and wf: "tree_wf nodes" and p: "p < length nodes"
  shows "agree (slots[p := consume_grant_once (slots ! p)]) nodes"
proof (rule agreeI)
  note len = agree_length [OF A]
  show "length (slots[p := consume_grant_once (slots ! p)]) = length nodes" using len by simp
  fix i assume i: "i < length nodes"
  show "dn_is_valid (nodes ! i) = slot_is_valid (slots[p := consume_grant_once (slots ! p)] ! i)"
    using agreeD(1) [OF A i] i len p by (simp add: nth_list_update)
  show "slot_is_valid (slots[p := consume_grant_once (slots ! p)] ! i) \<Longrightarrow>
      cs_depth (slots[p := consume_grant_once (slots ! p)] ! i) = dn_depth (nodes ! i)"
    using agreeD(2) [OF A i] i len p by (auto simp: nth_list_update split: if_splits)
  fix k assume k: "k \<in> set (the (kids nodes i))"
    and v: "slot_is_valid (slots[p := consume_grant_once (slots ! p)] ! unat k)"
  have "unat k < length nodes" using kids_index [OF wf i k] .
  then show "attenuates (cs_token (slots[p := consume_grant_once (slots ! p)] ! unat k))
        (cs_token (slots[p := consume_grant_once (slots ! p)] ! i))"
    using agreeD(3) [OF A i k] v i len p
    by (auto simp: nth_list_update intro: attenuates_consume_parent attenuates_consume_child
        split: if_splits)
qed

subsection \<open>Creation and grants keep the invariant\<close>

lemma count_valid_new:
  assumes "c < length nodes" "\<not> dn_is_valid (nodes ! c)" "dn_is_valid n"
  shows "count_if dn_is_valid (nodes[c := n]) = count_if dn_is_valid nodes + 1"
  using count_if_update [OF assms(1), of dn_is_valid n] assms by simp

lemma count_valid_linked_child:
  assumes "unat p < length nodes" "unat c < length nodes" "p \<noteq> c" "\<not> dn_is_valid (nodes ! unat c)"
  shows "count_if dn_is_valid (linked_child nodes p c d e) = count_if dn_is_valid nodes + 1"
proof -
  let ?n1 = "nodes[unat p := (nodes ! unat p)\<lparr>dn_first_child := c\<rparr>]"
  have "unat p \<noteq> unat c" using assms(3) by (simp add: word_unat_eq_iff)
  then have "count_if dn_is_valid (linked_child nodes p c d e) = count_if dn_is_valid ?n1 + 1"
    unfolding linked_child_def using assms by (intro count_valid_new) (simp_all add: node_new_child_def)
  moreover have "count_if dn_is_valid ?n1 = count_if dn_is_valid nodes"
    using count_if_update [OF assms(1), of dn_is_valid "(nodes ! unat p)\<lparr>dn_first_child := c\<rparr>"]
    by (simp split: if_splits)
  ultimately show ?thesis by simp
qed

lemma mgr_invD:
  assumes "mgr_inv m"
  shows "table_inv (cm_table m)" "tree_wf (dt_nodes (cm_derivation m))"
    "agree (ct_slots (cm_table m)) (dt_nodes (cm_derivation m))"
    "dt_count (cm_derivation m) = count_if dn_is_valid (dt_nodes (cm_derivation m))"
    "cc_track_derivation (cm_config m)"
    "length (ct_slots (cm_table m)) = length (dt_nodes (cm_derivation m))"
    "pv_current_epoch (cm_verifier m) = cm_epoch m" "verifier_inv (cm_verifier m)"
  using assms by (simp_all add: mgr_inv_def agree_def)

text \<open>What a successful creation did: table and tree took the same slot.\<close>

lemma create_root_Inr:
  assumes "create_root_capability_inner ty rights badge owner m = (Inr (i, g), m')" "mgr_inv m"
  obtains t n where
    "table_insert_root (cap_token_new (cm_next_id m) ty rights (cm_epoch m)) owner badge (cm_table m) =
       (Inr (i, g), t)"
    "unat i < length (dt_nodes (cm_derivation m))"
    "m' = m\<lparr>cm_next_id := n, cm_table := t,
            cm_derivation := (cm_derivation m)
              \<lparr>dt_nodes := (dt_nodes (cm_derivation m))[unat i := node_new_root (ucast (cm_epoch m))],
               dt_count := dt_count (cm_derivation m) + 1\<rparr>,
            cm_stats := (cm_stats m)\<lparr>ms_caps_created := ms_caps_created (cm_stats m) + 1\<rparr>\<rparr>"
proof -
  let ?ins = "table_insert_root (cap_token_new (cm_next_id m) ty rights (cm_epoch m)) owner badge
                (cm_table m)"
  note track = mgr_invD(5) [OF assms(2)]
  obtain n where n: "checked_add (cm_next_id m) 1 = Some n"
    using assms(1) by (cases "checked_add (cm_next_id m) 1") (simp_all add: create_root_capability_inner_def)
  obtain r t where rt: "?ins = (r, t)" by (cases ?ins)
  obtain j h where r: "r = Inr (j, h)"
    using assms(1) n rt by (cases r) (auto simp: create_root_capability_inner_def Let_def)
  have j: "unat j < length (dt_nodes (cm_derivation m))"
    using assms(1) n rt r track
    by (auto simp: create_root_capability_inner_def tree_add_root_def Let_def split: if_splits)
  then have "i = j" "g = h" using assms(1) n rt r track
    by (simp_all add: create_root_capability_inner_def tree_add_root_def Let_def)
  with that [of t n] assms(1) n rt r track j show ?thesis
    by (simp add: create_root_capability_inner_def tree_add_root_def Let_def)
qed

lemma create_root_inv:
  assumes "create_root_capability_inner ty rights badge owner m = (Inr (i, g), m')" "mgr_inv m"
    and "fresh_slot i m"
  shows "mgr_inv m'"
proof -
  note inv = mgr_invD [OF assms(2)]
  obtain t n where t: "table_insert_root (cap_token_new (cm_next_id m) ty rights (cm_epoch m)) owner
        badge (cm_table m) = (Inr (i, g), t)"
    and i: "unat i < length (dt_nodes (cm_derivation m))"
    and m': "m' = m\<lparr>cm_next_id := n, cm_table := t,
            cm_derivation := (cm_derivation m)
              \<lparr>dt_nodes := (dt_nodes (cm_derivation m))[unat i := node_new_root (ucast (cm_epoch m))],
               dt_count := dt_count (cm_derivation m) + 1\<rparr>,
            cm_stats := (cm_stats m)\<lparr>ms_caps_created := ms_caps_created (cm_stats m) + 1\<rparr>\<rparr>"
    by (rule create_root_Inr [OF assms(1,2)])
  note st = t [unfolded table_insert_root_store]
  note T = table_store_Inr [OF st inv(1)]
  have "table_inv t" using table_store_inv [OF inv(1) st] by simp
  moreover have "agree (ct_slots t) (dt_nodes (cm_derivation m'))"
    unfolding T(5) m' using T assms(3) inv i
    by simp (intro agree_add_root, simp_all add: slot_is_valid_def)
  moreover have "\<not> dn_is_valid (dt_nodes (cm_derivation m) ! unat i)"
    using agreeD(1) [OF inv(3) i] T(2) by simp
  moreover have "dn_is_valid (node_new_root (ucast (cm_epoch m)))" by (simp add: node_new_root_def)
  ultimately show ?thesis
    using assms(3) inv i by (simp add: mgr_inv_def m' add_root_wf count_valid_new)
qed

text \<open>
  What a successful grant did.  The roll-back branch of the code is dead under the invariant: a
  source that the table accepts is valid in the tree.
\<close>

lemma grant_Inr:
  assumes "grant_with_caller si sg rights badge owner caller m = (Inr (ci, cg), m')" "mgr_inv m"
  obtains src t n depth consume st where
    "table_lookup si sg (cm_table m) = Inr src"
    "\<And>c. caller = Some c \<Longrightarrow> cs_owner src = c"
    "validate_grant src rights (cm_next_id m) badge (cm_epoch m) (cm_grant_policy m) =
       Inr (cap_token_new (cm_next_id m) (tok_type (cs_token src)) rights (cm_epoch m), depth, consume)"
    "table_insert_derived (cap_token_new (cm_next_id m) (tok_type (cs_token src)) rights (cm_epoch m))
       owner depth si badge (cm_table m) = (Inr (ci, cg), t)"
    "unat ci < length (dt_nodes (cm_derivation m))"
    "m' = m\<lparr>cm_next_id := n,
            cm_table := (if consume then snd (table_lookup_mut si sg consume_grant_once t) else t),
            cm_derivation := (cm_derivation m)
              \<lparr>dt_nodes := linked_child (dt_nodes (cm_derivation m)) si ci depth (ucast (cm_epoch m)),
               dt_count := dt_count (cm_derivation m) + 1\<rparr>,
            cm_stats := st\<rparr>"
proof -
  obtain src where src: "table_lookup si sg (cm_table m) = Inr src"
    using assms(1) by (cases "table_lookup si sg (cm_table m)") (auto simp: grant_with_caller_def)
  obtain n where n: "checked_add (cm_next_id m) 1 = Some n"
    using assms(1) src
    by (cases "checked_add (cm_next_id m) 1") (auto simp: grant_with_caller_def split: if_splits)
  have own: "\<not> (case caller of Some caller \<Rightarrow> cs_owner src \<noteq> caller | None \<Rightarrow> False)"
    using assms(1) src by (auto simp: grant_with_caller_def split: if_splits)
  define m1 where "m1 = m\<lparr>cm_next_id := n\<rparr>"
  obtain tok depth consume where val:
    "validate_grant src rights (cm_next_id m) badge (cm_epoch m) (cm_grant_policy m) =
       Inr (tok, depth, consume)"
    using assms(1) src n own
    by (cases "validate_grant src rights (cm_next_id m) badge (cm_epoch m) (cm_grant_policy m)")
       (auto simp: grant_with_caller_def Let_def split: if_splits)
  note V = validate_grant_Inr [OF val]
  let ?ins = "table_insert_derived tok owner depth si badge (cm_table m)"
  let ?add = "\<lambda>c. tree_add_child si c depth (ucast (cm_epoch m)) (cm_derivation m)"
  note run = assms(1) [unfolded grant_with_caller_def Let_def, simplified src own n val, simplified]
  note track = mgr_invD(5) [OF assms(2)]
  obtain r t where rt: "?ins = (r, t)" by (cases ?ins)
  obtain j h where r: "r = Inr (j, h)" using run rt by (cases r) (auto simp: val own)
  obtain q d where qd: "?add j = (q, d)" by (cases "?add j")
  have q: "q = Inr ()" using run rt r qd track by (cases q) (auto simp: val own)
  have jh: "j = ci" "h = cg" using run rt r qd q track by (simp_all add: val own)
  then have ins: "?ins = (Inr (ci, cg), t)" and d: "?add ci = (Inr (), d)"
    using rt r qd q by simp_all
  have m': "m' = m\<lparr>cm_next_id := n,
            cm_table := (if consume then snd (table_lookup_mut si sg consume_grant_once t) else t),
            cm_derivation := d, cm_stats := cm_stats m'\<rparr>"
    using run rt r qd q track by (auto simp: val own)
  from d have "unat ci < length (dt_nodes (cm_derivation m))"
    and "d = (cm_derivation m)
       \<lparr>dt_nodes := linked_child (dt_nodes (cm_derivation m)) si ci depth (ucast (cm_epoch m)),
        dt_count := dt_count (cm_derivation m) + 1\<rparr>"
    by (auto simp: tree_add_child_def linked_child_def Let_def split: if_splits)
  moreover have "cs_owner src = c" if "caller = Some c" for c using own that by simp
  ultimately show ?thesis
    using that [OF src _ val [unfolded V(1)] ins [unfolded V(1)]] m' by blast
qed

lemma table_lookup_mut_slots:
  assumes "table_lookup i g t = Inr s"
  shows "ct_slots (snd (table_lookup_mut i g f t)) = (ct_slots t)[unat i := f (ct_slots t ! unat i)]"
  using assms by (auto simp: table_lookup_Inr table_lookup_mut_def Let_def)

lemma grant_inv:
  assumes "grant_with_caller si sg rights badge owner caller m = (Inr (ci, cg), m')" "mgr_inv m"
    and "fresh_slot ci m"
  shows "mgr_inv m'"
proof -
  note inv = mgr_invD [OF assms(2)]
  obtain src t n depth consume st where src: "table_lookup si sg (cm_table m) = Inr src"
    and val: "validate_grant src rights (cm_next_id m) badge (cm_epoch m) (cm_grant_policy m) =
       Inr (cap_token_new (cm_next_id m) (tok_type (cs_token src)) rights (cm_epoch m), depth, consume)"
    and ins: "table_insert_derived (cap_token_new (cm_next_id m) (tok_type (cs_token src)) rights
       (cm_epoch m)) owner depth si badge (cm_table m) = (Inr (ci, cg), t)"
    and ci: "unat ci < length (dt_nodes (cm_derivation m))"
    and m': "m' = m\<lparr>cm_next_id := n,
            cm_table := (if consume then snd (table_lookup_mut si sg consume_grant_once t) else t),
            cm_derivation := (cm_derivation m)
              \<lparr>dt_nodes := linked_child (dt_nodes (cm_derivation m)) si ci depth (ucast (cm_epoch m)),
               dt_count := dt_count (cm_derivation m) + 1\<rparr>,
            cm_stats := st\<rparr>"
    by (rule grant_Inr [OF assms(1,2)])
  let ?nodes = "dt_nodes (cm_derivation m)" and ?slots = "ct_slots (cm_table m)"
  let ?new = "linked_child ?nodes si ci depth (ucast (cm_epoch m))"
  note V = validate_grant_Inr [OF val]
  note sto = ins [unfolded table_insert_derived_store]
  note T = table_store_Inr [OF sto inv(1)]
  have s: "unat si < length ?nodes" "src = ?slots ! unat si" "slot_is_valid src" "cs_generation src = sg"
    using src inv(6) by (auto simp: table_lookup_Inr)
  have sc: "si \<noteq> ci" using s T(2) by auto
  have sv: "dn_is_valid (?nodes ! unat si)" "dn_depth (?nodes ! unat si) < depth"
    using agreeD(1,2) [OF inv(3) s(1)] s V(3) by (simp_all add: word_less_nat_alt)
  have cv: "\<not> dn_is_valid (?nodes ! unat ci)" using agreeD(1) [OF inv(3) ci] T(2) by simp
  have wf: "tree_wf ?new" using add_child_wf [OF inv(2) assms(3) ci s(1) sv(1) sc sv(2)] .
  have t: "table_inv t" using table_store_inv [OF inv(1) sto] by simp
  have src': "table_lookup si sg t = Inr src"
    using s T(1,5) sc inv(6) by (simp add: table_lookup_Inr word_unat_eq_iff)
  have A: "agree (ct_slots t) ?new"
    unfolding T(5) using T(4) s sc
    by (intro agree_add_child [OF inv(3,2) assms(3) ci s(1)])
       (simp_all add: slot_is_valid_def attenuates_new [OF V(2)] s(2) [symmetric])
  have "agree (ct_slots (cm_table m')) ?new"
    using A agree_consume [OF A wf, of "unat si"] s(1)
    by (simp add: m' table_lookup_mut_slots [OF src'])
  moreover have "table_inv (cm_table m')"
    using t table_lookup_mut_inv [OF t, of consume_grant_once si sg] by (simp add: m')
  ultimately show ?thesis
    using inv wf count_valid_linked_child [OF s(1) ci sc cv] by (simp add: mgr_inv_def m')
qed

section \<open>Revocation through the manager\<close>

lemma foldl_invalidate:
  assumes "length (ct_slots t) < 2 ^ 32"
  shows "length (ct_slots (foldl (\<lambda>t i. table_force_invalidate i t) t is)) = length (ct_slots t)"
    and "j < length (ct_slots t) \<Longrightarrow>
      ct_slots (foldl (\<lambda>t i. table_force_invalidate i t) t is) ! j =
        (if of_nat j \<in> set is \<and> slot_is_valid (ct_slots t ! j)
         then slot_invalidate (ct_slots t ! j) else ct_slots t ! j)"
proof -
  have "length (ct_slots (foldl (\<lambda>t i. table_force_invalidate i t) t is)) = length (ct_slots t) \<and>
    (\<forall>j<length (ct_slots t). ct_slots (foldl (\<lambda>t i. table_force_invalidate i t) t is) ! j =
        (if of_nat j \<in> set is \<and> slot_is_valid (ct_slots t ! j)
         then slot_invalidate (ct_slots t ! j) else ct_slots t ! j))"
    using assms
  proof (induction "is" arbitrary: t)
    case Nil
    then show ?case by simp
  next
    case (Cons i "is")
    let ?t = "table_force_invalidate i t"
    have len: "length (ct_slots ?t) = length (ct_slots t)" by (simp add: table_force_invalidate_slots)
    have "ct_slots ?t ! j = (if of_nat j = i \<and> slot_is_valid (ct_slots t ! j)
        then slot_invalidate (ct_slots t ! j) else ct_slots t ! j)" if "j < length (ct_slots t)" for j
      using that Cons.prems
      by (auto simp: table_force_invalidate_slots nth_list_update unat_of_nat)
    then show ?case using Cons.IH [of ?t] Cons.prems len by auto
  qed
  then show "length (ct_slots (foldl (\<lambda>t i. table_force_invalidate i t) t is)) = length (ct_slots t)"
    "j < length (ct_slots t) \<Longrightarrow>
      ct_slots (foldl (\<lambda>t i. table_force_invalidate i t) t is) ! j =
        (if of_nat j \<in> set is \<and> slot_is_valid (ct_slots t ! j)
         then slot_invalidate (ct_slots t ! j) else ct_slots t ! j)"
    by blast+
qed

lemma foldl_invalidate_inv:
  "table_inv t \<Longrightarrow> table_inv (foldl (\<lambda>t i. table_force_invalidate i t) t is)"
  by (induction "is" arbitrary: t) (simp_all add: table_force_invalidate_inv)

lemma tree_wf_index: "tree_wf nodes \<Longrightarrow> j < length nodes \<Longrightarrow> \<exists>w :: u32. j = unat w"
  by (rule exI [of _ "of_nat j"]) (simp add: tree_wf_def unat_of_nat)

text \<open>
  A revocation of a live handle returns; it clears exactly the slots and nodes of the valid
  descendants, keeps the invariant and reports how many there were.
\<close>

lemma manager_revoke_live:
  assumes "mgr_inv m" "table_lookup i g (cm_table m) = Inr s"
  obtains m' where
    "manager_revoke i g m = Some (Inr (card {c. desc (dt_nodes (cm_derivation m)) i c}), m')"
    "dt_nodes (cm_derivation m') =
       mark (dt_nodes (cm_derivation m)) {c. desc (dt_nodes (cm_derivation m)) i c}"
    "length (ct_slots (cm_table m')) = length (ct_slots (cm_table m))"
    "\<And>j. unat j < length (ct_slots (cm_table m)) \<Longrightarrow>
       ct_slots (cm_table m') ! unat j =
         (if desc (dt_nodes (cm_derivation m)) i j then slot_invalidate (ct_slots (cm_table m) ! unat j)
          else ct_slots (cm_table m) ! unat j)"
    "mgr_inv m'"
proof -
  note inv = mgr_invD [OF assms(1)]
  let ?nodes = "dt_nodes (cm_derivation m)" and ?slots = "ct_slots (cm_table m)"
  let ?D = "{c. desc ?nodes i c}"
  have i: "unat i < length ?nodes" "slot_is_valid (?slots ! unat i)"
    using assms(2) inv(6) by (auto simp: table_lookup_Inr)
  then have vi: "dn_is_valid (?nodes ! unat i)" using agreeD(1) [OF inv(3)] by simp
  then have "tree_is_valid i (cm_derivation m)" using i by (simp add: tree_is_valid_def)
  from subtree_walks [OF inv(2) this inv(4)] obtain out where out: "set out = ?D" "distinct out"
    "tree_collect_subtree i (cm_derivation m) =
       Some (out @ replicate (length ?nodes - length out) U32_MAX)"
    "tree_revoke i (cm_derivation m) = Some (Inr (length out), (cm_derivation m)
       \<lparr>dt_nodes := mark ?nodes (set out), dt_count := count_if dn_is_valid (mark ?nodes (set out))\<rparr>)"
    by blast
  define js where "js = out @ replicate (length ?nodes - length out) U32_MAX"
  define t where "t = foldl (\<lambda>t i. table_force_invalidate i t) (cm_table m) js"
  define m' where "m' = m\<lparr>cm_table := t, cm_derivation := (cm_derivation m)
       \<lparr>dt_nodes := mark ?nodes ?D, dt_count := count_if dn_is_valid (mark ?nodes ?D)\<rparr>,
     cm_stats := (cm_stats m)
       \<lparr>ms_caps_revoked := ms_caps_revoked (cm_stats m) + of_nat (length out),
        ms_revoke_operations := ms_revoke_operations (cm_stats m) + 1\<rparr>\<rparr>"
  have len: "length ?slots < 2 ^ 32" using inv(1) by (simp add: table_inv_def)
  have card: "card ?D = length out" using out(1,2) distinct_card [of out] by simp
  have vD: "slot_is_valid (?slots ! unat c)" if "desc ?nodes i c" for c
    using desc_valid [OF that inv(2) i(1) vi] agreeD(1) [OF inv(3), of "unat c"] by blast
  have slots: "ct_slots t ! unat j = (if desc ?nodes i j then slot_invalidate (?slots ! unat j)
          else ?slots ! unat j)" if "unat j < length ?slots" for j
  proof -
    have "j \<noteq> U32_MAX" using that inv(2,6) by (intro wf_index_not_max) simp_all
    then have "j \<in> set js \<longleftrightarrow> desc ?nodes i j" using out(1) by (auto simp: js_def)
    then show ?thesis using foldl_invalidate(2) [OF len that, of js, folded t_def] vD by simp
  qed
  have "agree (ct_slots t) (mark ?nodes ?D)"
  proof (rule agreeI)
    show "length (ct_slots t) = length (mark ?nodes ?D)" using foldl_invalidate(1) [OF len, of js, folded t_def] inv(6) by simp
    fix j assume "j < length (mark ?nodes ?D)"
    then have j: "j < length ?nodes" by simp
    then obtain w :: u32 where w: "j = unat w" using tree_wf_index [OF inv(2)] by blast
    note S = slots [of w] agreeD [OF inv(3) j]
    show "dn_is_valid (mark ?nodes ?D ! j) = slot_is_valid (ct_slots t ! j)"
      using S(1,2) j inv(6) by (simp add: w mark_nth)
    show "slot_is_valid (ct_slots t ! j) \<Longrightarrow> cs_depth (ct_slots t ! j) = dn_depth (mark ?nodes ?D ! j)"
      using S(1,3) j inv(6) by (auto simp: w mark_nth split: if_splits)
    fix k assume k: "k \<in> set (the (kids (mark ?nodes ?D) j))" and v: "slot_is_valid (ct_slots t ! unat k)"
    from k have k': "k \<in> set (the (kids ?nodes j))" using kids_mark [OF inv(2) j] by simp
    have kl: "unat k < length ?slots" using kids_index [OF inv(2) j k'] inv(6) by simp
    have "\<not> desc ?nodes i k" "slot_is_valid (?slots ! unat k)"
      using v slots [OF kl] by (auto split: if_splits)
    moreover have "\<not> desc ?nodes i w"
      using calculation desc_step [of ?nodes i w k] k' w agreeD(1) [OF inv(3)] kl inv(6) by auto
    ultimately show "attenuates (cs_token (ct_slots t ! unat k)) (cs_token (ct_slots t ! j))"
      using S(4) [OF k'] slots [OF kl] S(1) j inv(6) by (simp add: w)
  qed
  then have "mgr_inv m'"
    using inv mark_desc_wf [OF inv(2) i(1) vi] foldl_invalidate_inv [OF inv(1), of js, folded t_def]
    by (simp add: mgr_inv_def m'_def)
  moreover have "manager_revoke i g m = Some (Inr (card ?D), m')"
    using assms(2) out card by (simp add: manager_revoke_def revoke_capability_def m'_def t_def js_def)
  ultimately show ?thesis
    using that [of m'] slots foldl_invalidate(1) [OF len, of js, folded t_def] by (simp add: m'_def)
qed

text \<open>The definitions that evaluate a concrete run of the manager.\<close>

lemmas manager_eval =
  manager_with_defaults_def manager_new_def cap_manager_config_new_def create_root_capability_def
  create_root_capability_inner_def table_new_def tree_new_def table_insert_root_def
  table_find_free_slot_def slot_empty_def slot_is_valid_def slot_next_generation_def
  tree_add_root_def checked_add_def node_empty_def node_new_root_def cap_token_new_def
  manager_grant_def grant_with_caller_def validate_grant_def table_insert_derived_def
  table_lookup_def rights_contains_def right_bits tree_add_child_def node_new_child_def
  DEFAULT_MAX_DELEGATION_DEPTH_def Let_def

end
