(* ===== verification/Cap_Properties.thy ===== *)
theory Cap_Properties
  imports Cap_Manager
begin

text \<open>
  The capability system as a whole: the states a manager can reach, and the properties of the
  crate \<open>rvm-cap\<close>.  \<open>mgr_reach\<close> is the closure of a new manager under the public
  operations; \<open>demo_mgr\<close> is a reachable manager (a root capability and one derived from it) on
  which the properties are instantiated.
\<close>

section \<open>Reachable managers\<close>

inductive mgr_reach :: "nat \<Rightarrow> cap_manager \<Rightarrow> bool" for n where
  reach_new: "cc_track_derivation c \<Longrightarrow> mgr_reach n (manager_new n c)"
| reach_create:
    "mgr_reach n m \<Longrightarrow> create_root_capability_inner ty rights badge owner m = (r, m') \<Longrightarrow>
     (\<And>i g. r = Inr (i, g) \<Longrightarrow> fresh_slot i m) \<Longrightarrow> mgr_reach n m'"
| reach_grant:
    "mgr_reach n m \<Longrightarrow> grant_with_caller si sg rights badge owner caller m = (r, m') \<Longrightarrow>
     (\<And>i g. r = Inr (i, g) \<Longrightarrow> fresh_slot i m) \<Longrightarrow> mgr_reach n m'"
| reach_revoke: "mgr_reach n m \<Longrightarrow> manager_revoke i g m = Some (r, m') \<Longrightarrow> mgr_reach n m'"
| reach_epoch: "mgr_reach n m \<Longrightarrow> mgr_reach n (manager_increment_epoch m)"
| reach_p2: "mgr_reach n m \<Longrightarrow> manager_verify_p2 i g ctx m = (r, m') \<Longrightarrow> mgr_reach n m'"

definition demo_mgr :: cap_manager where
  "demo_mgr =
     snd (manager_grant 0 1 (READ OR GRANT_ONCE) 9 2
       (snd (create_root_capability CapRegion (READ OR WRITE OR GRANT OR REVOKE OR GRANT_ONCE) 7 1
         (manager_with_defaults (Suc (Suc (Suc 0)))))))"

lemma demo_mgr_eq:
  "demo_mgr =
    \<lparr>cm_table =
       \<lparr>ct_slots =
          [\<lparr>cs_token = \<lparr>tok_id = 1, tok_type = CapRegion, tok_rights = 0x4F, tok_epoch = 0\<rparr>,
            cs_generation = 1, cs_owner = 1, cs_depth = 0, cs_parent_index = U32_MAX, cs_badge = 7\<rparr>,
           \<lparr>cs_token = \<lparr>tok_id = 2, tok_type = CapRegion, tok_rights = 0x41, tok_epoch = 0\<rparr>,
            cs_generation = 1, cs_owner = 2, cs_depth = 1, cs_parent_index = 0, cs_badge = 9\<rparr>,
           \<lparr>cs_token = \<lparr>tok_id = 0, tok_type = CapRegion, tok_rights = 0, tok_epoch = 0\<rparr>,
            cs_generation = 0, cs_owner = 0, cs_depth = 0, cs_parent_index = U32_MAX, cs_badge = 0\<rparr>],
        ct_count = 2, ct_free_hint = 2\<rparr>,
     cm_derivation =
       \<lparr>dt_nodes =
          [\<lparr>dn_is_valid = True, dn_depth = 0, dn_epoch = 0, dn_first_child = 1,
            dn_next_sibling = U32_MAX, dn_parent_index = U32_MAX\<rparr>,
           \<lparr>dn_is_valid = True, dn_depth = 1, dn_epoch = 0, dn_first_child = U32_MAX,
            dn_next_sibling = U32_MAX, dn_parent_index = 0\<rparr>,
           \<lparr>dn_is_valid = False, dn_depth = 0, dn_epoch = 0, dn_first_child = U32_MAX,
            dn_next_sibling = U32_MAX, dn_parent_index = U32_MAX\<rparr>],
        dt_count = 2\<rparr>,
     cm_verifier = verifier_new 0, cm_config = cap_manager_config_new,
     cm_grant_policy = grant_policy_new, cm_epoch = 0, cm_next_id = 3,
     cm_stats = \<lparr>ms_caps_created = 1, ms_caps_granted = 1, ms_caps_revoked = 0,
                 ms_revoke_operations = 0, ms_max_depth_reached = 1\<rparr>\<rparr>"
  by (simp add: demo_mgr_def manager_eval grant_policy_new_def)

section \<open>Every operation keeps the invariant\<close>

lemma create_root_error:
  assumes "create_root_capability_inner ty rights badge owner m = (Inl e, m')" "mgr_inv m"
  shows "\<exists>n. m' = m\<lparr>cm_next_id := n\<rparr>"
proof (cases "checked_add (cm_next_id m) 1")
  case None
  with assms(1) have "m' = m\<lparr>cm_next_id := cm_next_id m\<rparr>" by (simp add: create_root_capability_inner_def)
  then show ?thesis by blast
next
  case (Some n)
  let ?ins = "table_insert_root (cap_token_new (cm_next_id m) ty rights (cm_epoch m)) owner badge
                (cm_table m)"
  note inv = mgr_invD [OF assms(2)]
  obtain r t where rt: "?ins = (r, t)" by (cases ?ins)
  show ?thesis
  proof (cases r)
    case (Inl e)
    with rt have "t = cm_table m" by (auto simp: table_insert_root_store dest: table_store_Inl)
    with Inl rt Some assms(1) show ?thesis by (auto simp: create_root_capability_inner_def Let_def)
  next
    case (Inr h)
    obtain j k where h: "h = (j, k)" by (cases h)
    then have "unat j < length (dt_nodes (cm_derivation m))"
      using table_store_Inr(1) [of _ "cm_table m" j k t] rt Inr inv(1,6)
      by (simp add: table_insert_root_store)
    with Inr h rt Some assms(1) inv(5) show ?thesis
      by (simp add: create_root_capability_inner_def tree_add_root_def Let_def)
  qed
qed

lemma grant_error:
  assumes "grant_with_caller si sg rights badge owner caller m = (Inl e, m')" "mgr_inv m"
  shows "\<exists>n. m' = m\<lparr>cm_next_id := n\<rparr>"
proof -
  note inv = mgr_invD [OF assms(2)]
  have self: "\<exists>n. m = m\<lparr>cm_next_id := n\<rparr>" by (rule exI [of _ "cm_next_id m"]) simp
  show ?thesis
  proof (cases "\<exists>src n tok depth consume. table_lookup si sg (cm_table m) = Inr src \<and>
      \<not> (case caller of Some caller \<Rightarrow> cs_owner src \<noteq> caller | None \<Rightarrow> False) \<and>
      checked_add (cm_next_id m) 1 = Some n \<and>
      validate_grant src rights (cm_next_id m) badge (cm_epoch m) (cm_grant_policy m) =
        Inr (tok, depth, consume)")
    case False
    with assms(1) self show ?thesis
      by (auto simp: grant_with_caller_def Let_def split: sum.splits if_splits option.splits)
  next
    case True
    then obtain src n tok depth consume where src: "table_lookup si sg (cm_table m) = Inr src"
      and own: "\<not> (case caller of Some caller \<Rightarrow> cs_owner src \<noteq> caller | None \<Rightarrow> False)"
      and n: "checked_add (cm_next_id m) 1 = Some n"
      and val: "validate_grant src rights (cm_next_id m) badge (cm_epoch m) (cm_grant_policy m) =
        Inr (tok, depth, consume)" by blast
    let ?ins = "table_insert_derived tok owner depth si badge (cm_table m)"
    note run = assms(1) [unfolded grant_with_caller_def Let_def, simplified src own n val, simplified]
    obtain r t where rt: "?ins = (r, t)" by (cases ?ins)
    show ?thesis
    proof (cases r)
      case (Inl e)
      with rt have "t = cm_table m" by (auto simp: table_insert_derived_store dest: table_store_Inl)
      with Inl rt run show ?thesis by (auto simp: own val)
    next
      case (Inr h)
      obtain j k where h: "h = (j, k)" by (cases h)
      then have j: "unat j < length (dt_nodes (cm_derivation m))"
        using table_store_Inr(1) [of _ "cm_table m" j k t] rt Inr inv(1,6)
        by (simp add: table_insert_derived_store)
      have "unat si < length (dt_nodes (cm_derivation m))"
        "dn_is_valid (dt_nodes (cm_derivation m) ! unat si)"
        using src agreeD(1) [OF inv(3), of "unat si"] inv(6) by (auto simp: table_lookup_Inr)
      with Inr h rt run inv(5) j show ?thesis
        by (simp add: own val tree_add_child_def Let_def)
    qed
  qed
qed

lemma mgr_inv_next_id: "mgr_inv m \<Longrightarrow> mgr_inv (m\<lparr>cm_next_id := n\<rparr>)"
  by (simp add: mgr_inv_def)

lemma manager_revoke_dead:
  "table_lookup i g (cm_table m) = Inl e \<Longrightarrow> manager_revoke i g m = Some (Inl e, m)"
  by (simp add: manager_revoke_def revoke_capability_def)

lemma mgr_reach_inv:
  assumes "mgr_reach n m" "n < 2 ^ 32"
  shows "mgr_inv m"
  using assms(1)
proof induction
  case (reach_new c)
  then show ?case using assms(2) by (simp add: manager_new_inv)
next
  case (reach_create m ty rights badge owner r m')
  then show ?case
    by (cases r) (auto dest: create_root_error intro: create_root_inv mgr_inv_next_id)
next
  case (reach_grant m si sg rights badge owner caller r m')
  then show ?case
    by (cases r) (auto dest: grant_error intro: grant_inv mgr_inv_next_id)
next
  case (reach_revoke m i g r m')
  show ?case
  proof (cases "table_lookup i g (cm_table m)")
    case (Inl e)
    with reach_revoke show ?thesis by (simp add: manager_revoke_dead)
  next
    case (Inr s)
    from manager_revoke_live [OF reach_revoke.IH Inr] reach_revoke.hyps(2) show ?thesis
      by (metis option.sel prod.inject)
  qed
next
  case (reach_epoch m)
  then show ?case by (simp add: increment_epoch_inv)
next
  case (reach_p2 m i g ctx r m')
  obtain q v where v: "verify_p2 (cm_table m) (cm_derivation m) i g ctx (cm_verifier m) = (q, v)"
    by (cases "verify_p2 (cm_table m) (cm_derivation m) i g ctx (cm_verifier m)")
  have "pv_current_epoch v = pv_current_epoch (cm_verifier m)"
    using verify_p2_state [OF v] by (auto simp: mark_nonce_def Let_def)
  moreover have "verifier_inv v"
    using verify_p2_inv [of "cm_verifier m" "cm_table m"] v mgr_invD(8) [OF reach_p2.IH]
    by (metis snd_conv)
  ultimately show ?case
    using reach_p2 v by (auto simp: manager_verify_p2_def mgr_inv_def)
qed

lemma demo_mgr_reach: "mgr_reach (Suc (Suc (Suc 0))) demo_mgr"
proof -
  let ?m0 = "manager_with_defaults (Suc (Suc (Suc 0)))"
  let ?c = "create_root_capability_inner CapRegion (READ OR WRITE OR GRANT OR REVOKE OR GRANT_ONCE) 7 1 ?m0"
  have m0: "mgr_reach (Suc (Suc (Suc 0))) ?m0"
    unfolding manager_with_defaults_def by (rule reach_new) (simp add: cap_manager_config_new_def)
  have c: "fst ?c = Inr (0, 1)" by (simp add: manager_eval)
  have "fresh_slot 0 ?m0"
    by (simp add: linked_def kids_def manager_eval atLeast0_lessThan_Suc)
  with c have m1: "mgr_reach (Suc (Suc (Suc 0))) (snd ?c)"
    by (intro reach_create [OF m0 surjective_pairing]) simp
  let ?g = "grant_with_caller 0 1 (READ OR GRANT_ONCE) 9 2 None (snd ?c)"
  have g: "fst ?g = Inr (1, 1)" by (simp add: manager_eval)
  have "fresh_slot 1 (snd ?c)"
    by (simp add: linked_def kids_def manager_eval atLeast0_lessThan_Suc)
  with g have "mgr_reach (Suc (Suc (Suc 0))) (snd ?g)"
    by (intro reach_grant [OF m1 surjective_pairing]) simp
  then show ?thesis by (simp add: demo_mgr_def manager_grant_def create_root_capability_def)
qed

lemma demo_mgr_inv: "mgr_inv demo_mgr"
  by (rule mgr_reach_inv [OF demo_mgr_reach]) simp

lemma demo_mgr_desc: "desc (dt_nodes (cm_derivation demo_mgr)) 0 1"
  by (rule desc_step [OF desc_refl]) (simp_all add: demo_mgr_eq kids_def)

section \<open>Properties\<close>

lemma verify_p1_slot:
  assumes "cm_verifier m' = cm_verifier m"
    and "table_lookup j k (cm_table m') = table_lookup j k (cm_table m)"
  shows "manager_verify_p1 j k required m' = manager_verify_p1 j k required m"
  using assms by (simp add: manager_verify_p1_def verify_p1_cases)

lemma revoke_keeps_verifier:
  "manager_revoke i g m = Some (r, m') \<Longrightarrow> cm_verifier m' = cm_verifier m"
  by (cases "revoke_capability i g (cm_table m) (cm_derivation m)")
     (auto simp: manager_revoke_def Let_def split: sum.split_asm)

text \<open>
  C1.  In a consistent manager (\<open>mgr_inv\<close>, which C2 shows for every manager in which no creation
  or grant was given a slot still in a child chain; without that condition a revocation may never
  return, C8) revoking a live capability returns.  Afterwards no handle, whatever its generation,
  to the revoked capability or to any capability derived from it passes P1 for any rights, every
  other handle is judged by P1 exactly as before, the number reported is the number of
  capabilities revoked, and the manager is consistent again.
\<close>

theorem revoke_ends_authority:
  assumes "mgr_inv m" "table_lookup i g (cm_table m) = Inr s"
  shows "\<exists>m'. manager_revoke i g m =
           Some (Inr (card {c. desc (dt_nodes (cm_derivation m)) i c}), m') \<and> mgr_inv m' \<and>
         (\<forall>j k required. desc (dt_nodes (cm_derivation m)) i j \<longrightarrow>
            manager_verify_p1 j k required m' = Inl ProofInvalidHandle) \<and>
         (\<forall>j k required. \<not> desc (dt_nodes (cm_derivation m)) i j \<longrightarrow>
            manager_verify_p1 j k required m' = manager_verify_p1 j k required m)"
proof -
  let ?nodes = "dt_nodes (cm_derivation m)" and ?slots = "ct_slots (cm_table m)"
  obtain m' where m': "manager_revoke i g m = Some (Inr (card {c. desc ?nodes i c}), m')" "mgr_inv m'"
    and len: "length (ct_slots (cm_table m')) = length ?slots"
    and slots: "\<And>j. unat j < length ?slots \<Longrightarrow> ct_slots (cm_table m') ! unat j =
         (if desc ?nodes i j then slot_invalidate (?slots ! unat j) else ?slots ! unat j)"
    by (rule manager_revoke_live [OF assms]) blast
  have gone: "table_lookup j k (cm_table m') = Inl InvalidHandle" if "desc ?nodes i j" for j k
    using slots [of j] len that by (simp add: table_lookup_def Let_def)
  have kept: "table_lookup j k (cm_table m') = table_lookup j k (cm_table m)" if "\<not> desc ?nodes i j" for j k
    using slots [of j] len that by (simp add: table_lookup_def Let_def)
  show ?thesis
    using m' verify_p1_slot [OF revoke_keeps_verifier [OF m'(1)] kept]
    by (auto simp: manager_verify_p1_def verify_p1_cases gone)
qed

theorem revoke_ends_authority_witness:
  "\<exists>m'. manager_revoke 0 1 demo_mgr =
      Some (Inr (card {c. desc (dt_nodes (cm_derivation demo_mgr)) 0 c}), m') \<and>
    manager_verify_p1 1 1 READ demo_mgr = Inr () \<and>
    manager_verify_p1 1 1 READ m' = Inl ProofInvalidHandle"
proof -
  have "table_lookup 0 1 (cm_table demo_mgr) = Inr (ct_slots (cm_table demo_mgr) ! 0)"
    by (simp add: demo_mgr_eq table_lookup_def slot_is_valid_def)
  from revoke_ends_authority [OF demo_mgr_inv this] demo_mgr_desc
  obtain m' where "manager_revoke 0 1 demo_mgr =
      Some (Inr (card {c. desc (dt_nodes (cm_derivation demo_mgr)) 0 c}), m')"
    "manager_verify_p1 1 1 READ m' = Inl ProofInvalidHandle" by blast
  moreover have "manager_verify_p1 1 1 READ demo_mgr = Inr ()"
    by (simp add: demo_mgr_eq manager_verify_p1_def verify_p1_cases table_lookup_def slot_is_valid_def
        verifier_new_def has_rights_def rights_contains_def READ_def)
  ultimately show ?thesis by blast
qed



text \<open>
  C3.  Authority is never amplified along the derivation tree: a capability derived, over any
  number of grants, from a live capability has the same type and no right that the ancestor does
  not hold (\<open>GRANT_ONCE\<close> aside, which an ancestor loses by using it).
\<close>

theorem derived_authority_bounded:
  assumes "mgr_inv m" "table_lookup r g (cm_table m) = Inr s"
    and "desc (dt_nodes (cm_derivation m)) r c"
  shows "tok_type (cs_token (ct_slots (cm_table m) ! unat c)) = tok_type (cs_token s) \<and>
         rights_contains (tok_rights (cs_token s) OR GRANT_ONCE)
           (tok_rights (cs_token (ct_slots (cm_table m) ! unat c)))"
proof -
  note inv = mgr_invD [OF assms(1)]
  have r: "unat r < length (dt_nodes (cm_derivation m))" "s = ct_slots (cm_table m) ! unat r"
    "dn_is_valid (dt_nodes (cm_derivation m) ! unat r)"
    using assms(2) agreeD(1) [OF inv(3), of "unat r"] inv(6) by (auto simp: table_lookup_Inr)
  from assms(3) have "attenuates (cs_token (ct_slots (cm_table m) ! unat c)) (cs_token s)"
  proof induction
    case desc_refl
    then show ?case by (simp add: r(2))
  next
    case (desc_step p c)
    have "desc (dt_nodes (cm_derivation m)) r c" using desc_step by (blast intro: desc.desc_step)
    from desc_valid [OF this inv(2) r(1,3)] have "slot_is_valid (ct_slots (cm_table m) ! unat c)"
      using agreeD(1) [OF inv(3), of "unat c"] by blast
    moreover have "unat p < length (dt_nodes (cm_derivation m))"
      using desc_valid [OF desc_step.hyps(1) inv(2) r(1,3)] by blast
    ultimately show ?case
      using agreeD(3) [OF inv(3), of "unat p" c] desc_step attenuates_trans by blast
  qed
  then show ?thesis by (simp add: attenuates_def)
qed

theorem derived_authority_bounded_witness:
  "tok_type (cs_token (ct_slots (cm_table demo_mgr) ! unat (1 :: u32))) = CapRegion \<and>
   rights_contains (0x4F OR GRANT_ONCE)
     (tok_rights (cs_token (ct_slots (cm_table demo_mgr) ! unat (1 :: u32))))"
proof -
  have "table_lookup 0 1 (cm_table demo_mgr) = Inr (ct_slots (cm_table demo_mgr) ! 0)"
    by (simp add: demo_mgr_eq table_lookup_def slot_is_valid_def)
  from derived_authority_bounded [OF demo_mgr_inv this demo_mgr_desc]
  show ?thesis by (simp add: demo_mgr_eq)
qed

text \<open>
  C4.  A grant that succeeds: the source handle was live and, for the checked variant, owned by
  the caller; it held \<open>GRANT\<close> or \<open>GRANT_ONCE\<close> and all the requested rights; the new
  handle was not live before and now names a capability with exactly the requested rights, the
  source's type, the target owner and badge, the manager's epoch, and a depth one above the
  source's and within the limit.
\<close>

theorem grant_attenuates:
  assumes "mgr_inv m"
    and "grant_with_caller si sg rights badge owner caller m = (Inr (ci, cg), m')"
  shows "\<exists>src new. table_lookup si sg (cm_table m) = Inr src \<and>
           table_lookup ci cg (cm_table m') = Inr new \<and>
           (\<exists>e. table_lookup ci cg (cm_table m) = Inl e) \<and>
           (\<forall>c. caller = Some c \<longrightarrow> cs_owner src = c) \<and>
           (rights_contains (tok_rights (cs_token src)) GRANT \<or>
            rights_contains (tok_rights (cs_token src)) GRANT_ONCE) \<and>
           rights_contains (tok_rights (cs_token src)) rights \<and>
           tok_rights (cs_token new) = rights \<and>
           tok_type (cs_token new) = tok_type (cs_token src) \<and>
           tok_epoch (cs_token new) = cm_epoch m \<and>
           cs_owner new = owner \<and> cs_badge new = badge \<and> cs_parent_index new = si \<and>
           unat (cs_depth new) = unat (cs_depth src) + 1 \<and>
           cs_depth new \<le> gp_max_depth (cm_grant_policy m)"
proof -
  note inv = mgr_invD [OF assms(1)]
  obtain src t n depth consume st where src: "table_lookup si sg (cm_table m) = Inr src"
    and own: "\<And>c. caller = Some c \<Longrightarrow> cs_owner src = c"
    and val: "validate_grant src rights (cm_next_id m) badge (cm_epoch m) (cm_grant_policy m) =
       Inr (cap_token_new (cm_next_id m) (tok_type (cs_token src)) rights (cm_epoch m), depth, consume)"
    and ins: "table_insert_derived (cap_token_new (cm_next_id m) (tok_type (cs_token src)) rights
       (cm_epoch m)) owner depth si badge (cm_table m) = (Inr (ci, cg), t)"
    and m': "cm_table m' = (if consume then snd (table_lookup_mut si sg consume_grant_once t) else t)"
    by (rule grant_Inr [OF assms(2,1)]) simp
  note sto = ins [unfolded table_insert_derived_store]
  note T = table_store_Inr [OF sto inv(1)] and L = table_store_lookup [OF sto inv(1)]
  note V = validate_grant_Inr [OF val]
  have si: "unat si \<noteq> unat ci" using src T(2) by (auto simp: table_lookup_Inr)
  have "table_lookup si sg t = Inr src"
    using src T(5) si by (auto simp: table_lookup_Inr)
  then have "table_lookup ci cg (cm_table m') = table_lookup ci cg t"
    using si by (simp add: m' table_lookup_def Let_def table_lookup_mut_slots)
  then show ?thesis using src L(1,2) own V by (auto simp: cap_token_new_def)
qed

theorem grant_attenuates_witness:
  "\<exists>src new m'. manager_grant_checked 1 1 READ 4 3 2 demo_mgr = (Inr (2, 1), m') \<and>
     table_lookup 1 1 (cm_table demo_mgr) = Inr src \<and> table_lookup 2 1 (cm_table m') = Inr new \<and>
     rights_contains (tok_rights (cs_token src)) READ \<and> tok_rights (cs_token new) = READ \<and>
     cs_owner src = 2 \<and> cs_owner new = 3"
proof -
  have "fst (grant_with_caller 1 1 READ 4 3 (Some 2) demo_mgr) = Inr (2, 1)"
    by (simp add: demo_mgr_eq manager_eval grant_policy_new_def)
  then have g: "grant_with_caller 1 1 READ 4 3 (Some 2) demo_mgr =
      (Inr (2, 1), snd (grant_with_caller 1 1 READ 4 3 (Some 2) demo_mgr))"
    by (metis prod.collapse)
  from grant_attenuates [OF demo_mgr_inv g] g show ?thesis
    unfolding manager_grant_checked_def by blast
qed

text \<open>
  C5.  \<open>GRANT_ONCE\<close> is good for one grant: when a source without \<open>GRANT\<close> has
  granted once, its handle is still live with \<open>GRANT_ONCE\<close> removed and nothing else changed, and
  every later grant from it is refused with \<open>GrantNotPermitted\<close> (while the identifier
  counter is not exhausted).
\<close>

theorem grant_once_single_use:
  assumes "mgr_inv m" "table_lookup si sg (cm_table m) = Inr src"
    and "\<not> rights_contains (tok_rights (cs_token src)) GRANT"
    and "grant_with_caller si sg rights badge owner caller m = (Inr (ci, cg), m')"
    and "cm_next_id m' \<noteq> U64_MAX"
  shows "table_lookup si sg (cm_table m') = Inr (consume_grant_once src) \<and>
         fst (grant_with_caller si sg rights' badge' owner' caller' m') = Inl GrantNotPermitted"
proof -
  note inv = mgr_invD [OF assms(1)]
  obtain t n depth consume st where
    val: "validate_grant src rights (cm_next_id m) badge (cm_epoch m) (cm_grant_policy m) =
       Inr (cap_token_new (cm_next_id m) (tok_type (cs_token src)) rights (cm_epoch m), depth, consume)"
    and ins: "table_insert_derived (cap_token_new (cm_next_id m) (tok_type (cs_token src)) rights
       (cm_epoch m)) owner depth si badge (cm_table m) = (Inr (ci, cg), t)"
    and m': "cm_table m' = (if consume then snd (table_lookup_mut si sg consume_grant_once t) else t)"
    by (rule grant_Inr [OF assms(4,1)]) (use assms(2) in simp)
  note T = table_store_Inr [OF ins [unfolded table_insert_derived_store] inv(1)]
  have si: "unat si \<noteq> unat ci" using assms(2) T(2) by (auto simp: table_lookup_Inr)
  have t: "table_lookup si sg t = Inr src" using assms(2) T(5) si by (auto simp: table_lookup_Inr)
  have "consume" using validate_grant_Inr(6) [OF val] assms(3) by simp
  then have look: "table_lookup si sg (cm_table m') = Inr (consume_grant_once src)"
    using t by (auto simp: m' table_lookup_Inr table_lookup_mut_slots)
  let ?r = "rights_difference (tok_rights (cs_token src)) GRANT_ONCE"
  have "\<not> rights_contains ?r GRANT"
    using assms(3) rights_contains_trans [OF rights_contains_difference] by blast
  moreover have "\<not> rights_contains ?r GRANT_ONCE"
    by (rule rights_difference_lacks) (simp add: GRANT_ONCE_def)
  moreover have "tok_rights (cs_token (consume_grant_once src)) = ?r"
    by (simp add: consume_grant_once_def cap_token_new_def)
  moreover obtain k where "checked_add (cm_next_id m') 1 = Some k"
    using assms(5) checked_add_None [of "cm_next_id m'"] by (cases "checked_add (cm_next_id m') 1") auto
  ultimately show ?thesis
    using look by (auto simp: grant_with_caller_def validate_grant_def Let_def split: option.splits)
qed

theorem grant_once_single_use_witness:
  "fst (manager_grant 1 1 READ 4 3 demo_mgr) = Inr (2, 1) \<and>
   fst (manager_grant 1 1 READ 4 3 (snd (manager_grant 1 1 READ 4 3 demo_mgr))) =
     Inl GrantNotPermitted"
proof -
  let ?g = "grant_with_caller 1 1 READ 4 3 None demo_mgr"
  have g: "fst ?g = Inr (2, 1)" "cm_next_id (snd ?g) \<noteq> U64_MAX"
    by (simp_all add: demo_mgr_eq manager_eval grant_policy_new_def)
  then have run: "?g = (Inr (2, 1), snd ?g)" by (metis prod.collapse)
  have src: "table_lookup 1 1 (cm_table demo_mgr) = Inr (ct_slots (cm_table demo_mgr) ! 1)"
    by (simp add: demo_mgr_eq table_lookup_def slot_is_valid_def)
  have "\<not> rights_contains (tok_rights (cs_token (ct_slots (cm_table demo_mgr) ! 1))) GRANT"
    by (simp add: demo_mgr_eq rights_contains_def GRANT_def)
  from grant_once_single_use [OF demo_mgr_inv src this run g(2)] g(1) show ?thesis
    by (simp add: manager_grant_def)
qed

text \<open>
  A handle that has been released from a consistent table stays dead through the next
  insertion, even when the same slot is reused: the insertion issues a different generation.
\<close>

theorem released_handle_dead:
  assumes "table_inv t" "table_remove i g t = (Inr (), t1)"
    and "table_insert_derived token owner depth p badge t1 = (r, t2)"
  shows "(\<exists>e. table_lookup i g t1 = Inl e) \<and> (\<exists>e. table_lookup i g t2 = Inl e)"
  using ct.remove_lookup [of t "(i, g)" t1]
    ct.released_handle_stays_dead [of t "(i, g)" t1 "(token, owner, depth, p, badge)" r t2] assms
  by (simp add: ht_lookup_def ht_remove_def ht_insert_def)

theorem released_handle_dead_witness:
  "fst (table_remove 1 1 (cm_table demo_mgr)) = Inr () \<and>
   (\<exists>e. table_lookup 1 1 (snd (table_insert_derived (cap_token_new 9 CapRegion READ 0) 5 1 0 0
        (snd (table_remove 1 1 (cm_table demo_mgr))))) = Inl e)"
proof -
  let ?r = "table_remove 1 1 (cm_table demo_mgr)"
  have r: "fst ?r = Inr ()" by (simp add: demo_mgr_eq table_remove_def slot_is_valid_def)
  then have "?r = (Inr (), snd ?r)" by (metis prod.collapse)
  from released_handle_dead [OF mgr_invD(1) [OF demo_mgr_inv] this surjective_pairing] r
  show ?thesis by blast
qed

text \<open>
  P1 accepts a handle exactly when it names a live slot whose token has the verifier's epoch
  and holds every required right; a refused handle is reported as invalid when it is not live,
  else as stale when the epoch differs, else as lacking rights.
\<close>

theorem p1_decides:
  "verify_p1 table i g required v =
     (if \<exists>slot. table_lookup i g table = Inr slot
      then let slot = ct_slots table ! unat i in
           if tok_epoch (cs_token slot) \<noteq> pv_current_epoch v then Inl ProofStaleCapability
           else if rights_contains (tok_rights (cs_token slot)) required then Inr ()
           else Inl InsufficientRights
      else Inl ProofInvalidHandle)"
proof (cases "table_lookup i g table")
  case (Inl e)
  then show ?thesis by (simp add: verify_p1_cases)
next
  case (Inr slot)
  then have "slot = ct_slots table ! unat i" by (simp add: table_lookup_Inr)
  with Inr show ?thesis by (simp add: verify_p1_cases has_rights_def Let_def)
qed

text \<open>
  C6.  No replay: once P2 has accepted a context with a non-zero nonce, P2 refuses that nonce
  after any sequence of further P2 calls, on any tables and trees, whose other nonces are not
  congruent to it modulo the size of the nonce table.
\<close>

theorem p2_refuses_replay:
  assumes "verifier_inv v" "pc_nonce ctx \<noteq> 0"
    and "verify_p2 tb tr i g ctx v = (Inr (), v1)"
    and "\<forall>c\<in>set calls. nonce_slot (p2_call_nonce c) = nonce_slot (pc_nonce ctx) \<longrightarrow>
           p2_call_nonce c = pc_nonce ctx"
    and "pc_nonce ctx' = pc_nonce ctx"
  shows "verify_p2 tb' tr' i' g' ctx' (foldl p2_call_run v1 calls) =
           (Inl PolicyViolation, foldl p2_call_run v1 calls)"
proof -
  have v1: "v1 = mark_nonce (pc_nonce ctx) v"
    using assms(3) by (auto simp: verify_p2_def Let_def split: if_splits)
  have "verifier_inv v1" "remembers (pc_nonce ctx) v1"
    using assms(1,2) by (simp_all add: v1 mark_nonce_inv mark_remembers)
  from p2_run_remembers [OF this assms(4)] have "\<not> check_nonce (pc_nonce ctx') (foldl p2_call_run v1 calls)"
    using assms(2,5) remembers_rejected by simp
  then show ?thesis by (simp add: verify_p2_def Let_def)
qed

definition demo_ctx :: "u64 \<Rightarrow> policy_context" where
  "demo_ctx nonce =
     \<lparr>pc_expected_owner = 1, pc_region_base = 0, pc_region_limit = 4096, pc_lease_expiry_ns = 10,
      pc_current_time_ns = 5, pc_max_delegation_depth = 8, pc_nonce = nonce\<rparr>"

definition demo_p2 :: "u64 \<Rightarrow> proof_verifier \<Rightarrow> (proof_error, unit, proof_verifier) outcome" where
  "demo_p2 nonce = verify_p2 (cm_table demo_mgr) (cm_derivation demo_mgr) 0 1 (demo_ctx nonce)"

lemma demo_p2_run:
  "demo_p2 nonce v = (if check_nonce nonce v then (Inr (), mark_nonce nonce v)
                      else (Inl PolicyViolation, v))"
  by (simp add: demo_p2_def verify_p2_def demo_ctx_def demo_mgr_eq table_lookup_def slot_is_valid_def
      tree_depth_def)

lemma check_nonce_new: "n \<noteq> 0 \<Longrightarrow> check_nonce n (verifier_new 0)"
  using nonce_slot_less [of n] by (simp add: check_nonce_def verifier_new_def)

theorem p2_refuses_replay_witness:
  "fst (demo_p2 7 (verifier_new 0)) = Inr () \<and>
   fst (demo_p2 7 (snd (demo_p2 8 (snd (demo_p2 7 (verifier_new 0)))))) = Inl PolicyViolation"
proof -
  let ?tb = "cm_table demo_mgr" and ?tr = "cm_derivation demo_mgr"
  have ok: "demo_p2 7 (verifier_new 0) = (Inr (), mark_nonce 7 (verifier_new 0))"
    by (simp add: demo_p2_run check_nonce_new)
  have "\<forall>c\<in>set [(?tb, ?tr, 0, 1, demo_ctx 8)].
     nonce_slot (p2_call_nonce c) = nonce_slot (pc_nonce (demo_ctx 7)) \<longrightarrow>
     p2_call_nonce c = pc_nonce (demo_ctx 7)"
    by (simp add: p2_call_nonce_def nonce_slot_def demo_ctx_def NONCE_RING_SIZE_def)
  from p2_refuses_replay [OF verifier_new_inv _ ok [unfolded demo_p2_def] this refl, of ?tb ?tr 0 1]
  show ?thesis
    using ok by (simp add: demo_p2_def p2_call_run_def demo_ctx_def)
qed

text \<open>
  C7.  P3 always returns on a well-formed tree, and accepts exactly the live handles from which
  parent links lead, in at most \<open>max_depth\<close> steps, through valid nodes of strictly falling
  depth and non-increasing epoch to a node of depth 0.
\<close>

theorem p3_certifies_root_path:
  assumes "tree_wf (dt_nodes t)"
  shows "(\<exists>r. verify_p3 tb t i g max_depth = Some r) \<and>
         (verify_p3 tb t i g max_depth = Some (Inr ()) \<longleftrightarrow>
            (\<exists>s. table_lookup i g tb = Inr s) \<and>
            (\<exists>ps. root_path t (i # ps) \<and> length ps \<le> unat max_depth))"
proof -
  have "\<exists>r. verify_p3 tb t i g max_depth = Some r"
    using p3_walk_ends [OF assms]
    by (auto simp: verify_p3_def split: sum.splits option.splits)
  with verify_p3_iff show ?thesis by blast
qed

theorem p3_certifies_root_path_witness:
  "verify_p3 (cm_table demo_mgr) (cm_derivation demo_mgr) 1 1 1 = Some (Inr ()) \<and>
   root_path (cm_derivation demo_mgr) [1, 0]"
proof -
  have p: "root_path (cm_derivation demo_mgr) [1, 0]"
    by (simp add: demo_mgr_eq tree_find_parent_def tree_get_def)
  moreover have "\<exists>s. table_lookup 1 1 (cm_table demo_mgr) = Inr s"
    by (simp add: demo_mgr_eq table_lookup_def slot_is_valid_def)
  moreover have "\<exists>ps. root_path (cm_derivation demo_mgr) (1 # ps) \<and> length ps \<le> unat (1 :: u8)"
    using p by (intro exI [of _ "[0]"]) simp
  ultimately show ?thesis
    using p3_certifies_root_path [OF mgr_invD(2) [OF demo_mgr_inv],
        of "cm_table demo_mgr" 1 1 1] by blast
qed

text \<open>A grant that is given the slot at the head of its own chain of children.\<close>

lemma regrant_diverges:
  assumes inv: "mgr_inv m" and head: "dn_first_child (dt_nodes (cm_derivation m) ! unat p) = c"
    and grant: "grant_with_caller p gp rights badge owner caller m = (Inr (c, g), m')"
  shows "dn_next_sibling (dt_nodes (cm_derivation m') ! unat c) = c \<and>
         (\<exists>s. table_lookup p gp (cm_table m') = Inr s) \<and> manager_revoke p gp m' = None"
proof -
  note I = mgr_invD [OF inv]
  let ?nodes = "dt_nodes (cm_derivation m)" and ?new = "dt_nodes (cm_derivation m')"
  obtain src t n depth consume st where src: "table_lookup p gp (cm_table m) = Inr src"
    and ins: "table_insert_derived (cap_token_new (cm_next_id m) (tok_type (cs_token src)) rights
       (cm_epoch m)) owner depth p badge (cm_table m) = (Inr (c, g), t)"
    and c: "unat c < length ?nodes"
    and m': "m' = m\<lparr>cm_next_id := n,
            cm_table := (if consume then snd (table_lookup_mut p gp consume_grant_once t) else t),
            cm_derivation := (cm_derivation m)
              \<lparr>dt_nodes := linked_child ?nodes p c depth (ucast (cm_epoch m)),
               dt_count := dt_count (cm_derivation m) + 1\<rparr>,
            cm_stats := st\<rparr>"
    by (rule grant_Inr [OF grant inv])
  note T = table_store_Inr [OF ins [unfolded table_insert_derived_store] I(1)]
  have p: "unat p < length ?nodes" "src = ct_slots (cm_table m) ! unat p" "slot_is_valid src"
      "cs_generation src = gp"
    using src I(6) by (auto simp: table_lookup_Inr)
  have pc: "unat p \<noteq> unat c" using p T(2) by auto
  have valid: "dn_is_valid (?nodes ! unat p)" using agreeD(1) [OF I(3) p(1)] p by simp
  have t: "table_lookup p gp t = Inr src" using p T(1,5) pc I(6) by (simp add: table_lookup_Inr)
  then have live: "\<exists>s. table_lookup p gp (cm_table m') = Inr s"
    using pc by (auto simp: m' table_lookup_Inr table_lookup_mut_slots [OF t])
  have new: "length ?new = length ?nodes" "dn_next_sibling (?new ! unat c) = c"
      "dn_first_child (?new ! unat p) = c" "dn_is_valid (?new ! unat p)"
    using p(1) c pc valid head by (simp_all add: m' linked_child_def node_new_child_def)
  have "length ?nodes < 2 ^ 32" using I(2) by (simp add: tree_wf_def)
  with c have "c \<noteq> U32_MAX" using unat_max_word [where 'a = 32] by auto
  then have "push_children ?new c [] = None"
    using c new by (intro push_children_self_loop) simp_all
  then have "collect_loop ?new [p] [] = None"
    using p(1) new by (simp add: collect_loop.simps)
  then have "tree_collect_subtree p (cm_derivation m') = None"
    using p(1) new by (simp add: tree_collect_subtree_def Let_def)
  with live have "manager_revoke p gp m' = None"
    by (auto simp: manager_revoke_def revoke_capability_def)
  with new(2) live show ?thesis by blast
qed

text \<open>
  C8.  The derivation tree never unlinks a revoked child.  In a consistent manager, let the child
  of a live capability that was granted last be revoked, and let the next grant from the same
  capability be given the freed slot.  Then the slot is its own next sibling, and although the
  parent is live, revoking it never returns.
\<close>

theorem revoke_after_regrant_diverges:
  assumes "mgr_inv m" "dn_first_child (dt_nodes (cm_derivation m) ! unat p) = c"
    and "table_lookup c gc (cm_table m) = Inr s"
    and "manager_revoke c gc m = Some (Inr k, m1)"
    and "manager_grant p gp rights badge owner m1 = (Inr (c, g), m2)"
  shows "dn_next_sibling (dt_nodes (cm_derivation m2) ! unat c) = c \<and>
         (\<exists>s. table_lookup p gp (cm_table m2) = Inr s) \<and> manager_revoke p gp m2 = None"
proof -
  let ?nodes = "dt_nodes (cm_derivation m)"
  obtain m1' where R: "manager_revoke c gc m = Some (Inr (card {d. desc ?nodes c d}), m1')"
    "dt_nodes (cm_derivation m1') = mark ?nodes {d. desc ?nodes c d}" "mgr_inv m1'"
    by (rule manager_revoke_live [OF assms(1,3)]) blast
  then have m1: "m1' = m1" using assms(4) by simp
  have p: "unat p < length ?nodes"
  proof -
    obtain src where "table_lookup p gp (cm_table m1) = Inr src"
      by (rule grant_Inr [OF assms(5) [unfolded manager_grant_def] R(3) [unfolded m1]])
    then show ?thesis
      using R(2,3) mgr_invD(6) [OF R(3)] by (auto simp: m1 table_lookup_Inr)
  qed
  have "dn_first_child (dt_nodes (cm_derivation m1) ! unat p) = c"
    using R(2) p assms(2) by (simp add: m1 mark_nth)
  from regrant_diverges [OF R(3) [unfolded m1] this assms(5) [unfolded manager_grant_def]]
  show ?thesis .
qed

text \<open>A root capability, a grant, the revocation of the derived capability and a second grant.\<close>

theorem revoke_after_regrant_diverges_witness:
  "\<exists>m1 m2. manager_revoke 1 1 demo_mgr = Some (Inr 1, m1) \<and>
     manager_grant 0 1 READ 9 2 m1 = (Inr (1, 2), m2) \<and> manager_revoke 0 1 m2 = None"
proof -
  have max: "unat U32_MAX = 4294967295" using unat_max_word [where 'a = 32] by simp
  define m where "m = snd (the (manager_revoke 1 1 demo_mgr))"
  have m: "manager_revoke 1 1 demo_mgr = Some (Inr 1, m)"
    "ct_slots (cm_table m) = (ct_slots (cm_table demo_mgr))[1 := slot_invalidate (ct_slots (cm_table demo_mgr) ! 1)]"
    "ct_free_hint (cm_table m) = 1"
    "dt_nodes (cm_derivation m) = (dt_nodes (cm_derivation demo_mgr))
       [1 := (dt_nodes (cm_derivation demo_mgr) ! 1)\<lparr>dn_is_valid := False\<rparr>]"
    "cm_next_id m = 3" "cm_config m = cap_manager_config_new" "cm_grant_policy m = grant_policy_new"
    "cm_epoch m = 0"
    by (simp_all add: m_def demo_mgr_eq manager_revoke_def revoke_capability_def table_lookup_def
        slot_is_valid_def tree_collect_subtree_def tree_revoke_def tree_revoke_subtree_def Let_def
        collect_loop.simps push_children.simps revoke_loop.simps table_force_invalidate_def
        slot_invalidate_def max)
  have "fst (manager_grant 0 1 READ 9 2 m) = Inr (1, 2)"
    by (simp add: m manager_eval grant_policy_new_def demo_mgr_eq slot_invalidate_def)
  then obtain m2 where g: "manager_grant 0 1 READ 9 2 m = (Inr (1, 2), m2)" by (metis prod.collapse)
  have "dn_first_child (dt_nodes (cm_derivation demo_mgr) ! unat (0 :: u32)) = 1"
    "table_lookup 1 1 (cm_table demo_mgr) = Inr (ct_slots (cm_table demo_mgr) ! 1)"
    by (simp_all add: demo_mgr_eq table_lookup_def slot_is_valid_def)
  from revoke_after_regrant_diverges [OF demo_mgr_inv this m(1) g] m(1) g show ?thesis by blast
qed

text \<open>
  The nonce memory forgets: the hash table keeps one nonce per residue, so a nonce accepted by
  P2 is accepted again, at once, after a single other nonce of the same residue, although it is
  still in the ring of recent nonces.
\<close>

theorem p2_accepts_replay_after_collision:
  "let v1 = snd (demo_p2 1 (verifier_new 0)); v2 = snd (demo_p2 4097 v1) in
   fst (demo_p2 1 (verifier_new 0)) = Inr () \<and> fst (demo_p2 4097 v1) = Inr () \<and>
   1 \<in> set (pv_nonce_ring v2) \<and> fst (demo_p2 1 v2) = Inr ()"
proof -
  let ?v1 = "mark_nonce 1 (verifier_new 0)"
  let ?v2 = "mark_nonce 4097 ?v1"
  have slot: "nonce_slot 1 = 1" "nonce_slot 4097 = 1"
    by (simp_all add: nonce_slot_def NONCE_RING_SIZE_def)
  have size: "length (pv_nonce_hash (verifier_new 0)) = NONCE_RING_SIZE" "1 < NONCE_RING_SIZE"
    by (simp_all add: verifier_new_def NONCE_RING_SIZE_def)
  have hash: "pv_nonce_hash ?v1 ! 1 = 1" "pv_nonce_hash ?v2 ! 1 = 4097"
    using size by (simp_all add: mark_nonce_hash slot)
  have ring: "pv_nonce_ring ?v1 = (replicate NONCE_RING_SIZE 0)[0 := 1]"
    "pv_nonce_write_pos ?v1 = 1" "pv_nonce_watermark ?v1 = 0"
    "pv_nonce_ring ?v2 = (replicate NONCE_RING_SIZE 0)[0 := 1, 1 := 4097]"
    "pv_nonce_watermark ?v2 = 0"
    by (simp_all add: mark_nonce_def verifier_new_def Let_def) (simp_all add: NONCE_RING_SIZE_def)
  have "pv_nonce_ring ?v2 ! 0 = 1" "0 < length (pv_nonce_ring ?v2)"
    using size(2) by (simp_all add: ring)
  then have "1 \<in> set (pv_nonce_ring ?v2)" by (metis nth_mem)
  moreover have "check_nonce 4097 ?v1" "check_nonce 1 ?v2"
    using hash by (simp_all add: check_nonce_def slot ring)
  ultimately show ?thesis
    by (simp add: demo_p2_run check_nonce_new)
qed

end
