(* ===== verification/Le_Bytes.thy ===== *)
theory Le_Bytes
  imports Rvm_Prelude
begin

unbundle bit_operations_syntax

text \<open>
  The conversions \<open>to_le_bytes\<close> and \<open>from_le_bytes\<close> of the standard library at the widths the program uses, and
  their round trips.
\<close>

definition to_le_bytes64 :: "u64 \<Rightarrow> u8 list" where
  "to_le_bytes64 w = map (\<lambda>i. ucast (drop_bit (8 * i) w)) [0..<8]"

definition to_le_bytes32 :: "u32 \<Rightarrow> u8 list" where
  "to_le_bytes32 w = map (\<lambda>i. ucast (drop_bit (8 * i) w)) [0..<4]"

definition to_le_bytes16 :: "u16 \<Rightarrow> u8 list" where
  "to_le_bytes16 w = [ucast w, ucast (drop_bit 8 w)]"

definition from_le_bytes64 :: "u8 list \<Rightarrow> u64" where
  "from_le_bytes64 bs = foldr (\<lambda>b acc. ucast b OR push_bit 8 acc) bs 0"

definition from_le_bytes16 :: "u8 list \<Rightarrow> u16" where
  "from_le_bytes16 bs = ucast (bs ! 0) OR push_bit 8 (ucast (bs ! 1))"

definition from_le_bytes32 :: "u8 list \<Rightarrow> u32" where
  "from_le_bytes32 bs = ucast (bs ! 0) OR push_bit 8 (ucast (bs ! 1)) OR push_bit 16 (ucast (bs ! 2))
     OR push_bit 24 (ucast (bs ! 3))"

lemma to_le_bytes_length [simp]:
  "length (to_le_bytes64 w) = 8" "length (to_le_bytes32 v) = 4" "length (to_le_bytes16 u) = 2"
  by (simp_all add: to_le_bytes64_def to_le_bytes32_def to_le_bytes16_def)

text \<open>The word of any list of bytes and its bits; the other conversions are cases of it.\<close>

definition le_word :: "u8 list \<Rightarrow> 'a::len word" where
  "le_word bs = foldr (\<lambda>b acc. ucast b OR push_bit 8 acc) bs 0"

lemma le_word_simps: "le_word [] = 0" "le_word (b # bs) = ucast b OR push_bit 8 (le_word bs)"
  by (simp_all add: le_word_def)

lemma bit_le_word:
  "bit (le_word bs :: 'a::len word) n \<longleftrightarrow> n < LENGTH('a) \<and> n div 8 < length bs \<and> bit (bs ! (n div 8)) (n mod 8)"
proof (induction bs arbitrary: n)
  case (Cons b bs)
  show ?case
  proof (cases "n < 8")
    case False
    then obtain k where k: "n = k + 8" by (metis add.commute le_Suc_ex not_less)
    moreover have "\<not> bit b n" using False bit_imp_le_length [of b n] by auto
    moreover have "(k + 8) div 8 = Suc (k div 8)" "(k + 8) mod 8 = k mod 8" by simp_all
    ultimately show ?thesis using Cons.IH [of k] k by (auto simp: le_word_simps bit_simps)
  qed (auto simp: le_word_simps bit_simps)
qed (simp add: le_word_simps)

lemma from_le_bytes_word:
  "from_le_bytes64 bs = le_word bs"
  "length bs = 4 \<Longrightarrow> from_le_bytes32 bs = le_word bs"
  "length bs = 2 \<Longrightarrow> from_le_bytes16 bs = le_word bs"
proof -
  show "from_le_bytes64 bs = le_word bs" by (simp add: from_le_bytes64_def le_word_def)
  assume "length bs = 4"
  then obtain a b c d where "bs = [a, b, c, d]" by (auto simp: numeral_eq_Suc length_Suc_conv)
  then show "from_le_bytes32 bs = le_word bs"
    by (simp add: from_le_bytes32_def le_word_simps push_bit_or push_bit_push_bit or.assoc)
next
  assume "length bs = 2"
  then obtain a b where "bs = [a, b]" by (auto simp: numeral_eq_Suc length_Suc_conv)
  then show "from_le_bytes16 bs = le_word bs" by (simp add: from_le_bytes16_def le_word_simps)
qed

lemma nth_to_le_bytes:
  "i < 8 \<Longrightarrow> to_le_bytes64 w ! i = ucast (drop_bit (8 * i) w)"
  "i < 4 \<Longrightarrow> to_le_bytes32 v ! i = ucast (drop_bit (8 * i) v)"
  "i < 2 \<Longrightarrow> to_le_bytes16 u ! i = ucast (drop_bit (8 * i) u)"
  by (auto simp: to_le_bytes64_def to_le_bytes32_def to_le_bytes16_def less_2_cases_iff)

lemma le_word_of_bytes:
  fixes w :: "'a::len word"
  assumes "8 * length bs = LENGTH('a)" "\<And>i. i < length bs \<Longrightarrow> bs ! i = ucast (drop_bit (8 * i) w)"
  shows "le_word bs = w"
proof (rule bit_word_eqI)
  fix n assume n: "n < LENGTH('a)"
  then have i: "n div 8 < length bs" using assms(1) by (simp add: less_mult_imp_div_less mult.commute)
  then show "bit (le_word bs :: 'a word) n = bit w n"
    using n by (simp add: bit_le_word assms(2) bit_simps)
qed

lemma bytes_of_le_word:
  assumes "8 * length bs = LENGTH('a::len)" "i < length bs"
  shows "ucast (drop_bit (8 * i) (le_word bs :: 'a word)) = bs ! i"
proof (rule bit_word_eqI)
  fix n assume n: "n < LENGTH(8)"
  then have "8 * i + n < LENGTH('a)" "(8 * i + n) div 8 = i" "(8 * i + n) mod 8 = n" using assms by auto
  then show "bit (ucast (drop_bit (8 * i) (le_word bs :: 'a word)) :: u8) n = bit (bs ! i) n"
    using n assms(2) by (simp add: bit_simps bit_le_word)
qed

lemma from_to_le_bytes [simp]:
  "from_le_bytes64 (to_le_bytes64 w) = w"
  "from_le_bytes32 (to_le_bytes32 v) = v"
  "from_le_bytes16 (to_le_bytes16 u) = u"
  by (auto simp: from_le_bytes_word nth_to_le_bytes intro!: le_word_of_bytes)

lemma to_from_le_bytes:
  "length bs = 8 \<Longrightarrow> to_le_bytes64 (from_le_bytes64 bs) = bs"
  "length bs = 4 \<Longrightarrow> to_le_bytes32 (from_le_bytes32 bs) = bs"
  "length bs = 2 \<Longrightarrow> to_le_bytes16 (from_le_bytes16 bs) = bs"
  by (auto intro!: nth_equalityI simp: from_le_bytes_word bytes_of_le_word nth_to_le_bytes)

lemma to_le_bytes_inject [simp]:
  "to_le_bytes64 w = to_le_bytes64 w' \<longleftrightarrow> w = w'"
  "to_le_bytes32 v = to_le_bytes32 v' \<longleftrightarrow> v = v'"
  "to_le_bytes16 u = to_le_bytes16 u' \<longleftrightarrow> u = u'"
  by (metis from_to_le_bytes)+

text \<open>\<open>copy_from_slice\<close> into a part of a buffer.\<close>

definition put_bytes :: "'a list \<Rightarrow> nat \<Rightarrow> 'a list \<Rightarrow> 'a list" where
  "put_bytes out pos xs = take pos out @ xs @ drop (pos + length xs) out"

lemma length_put_bytes [simp]:
  "pos + length xs \<le> length out \<Longrightarrow> length (put_bytes out pos xs) = length out"
  by (simp add: put_bytes_def)

lemma take_put_bytes:
  "k \<le> pos \<Longrightarrow> pos \<le> length out \<Longrightarrow> take k (put_bytes out pos xs) = take k out"
  by (simp add: put_bytes_def min_def)

lemma take_put_bytes_end:
  "pos \<le> length out \<Longrightarrow> take (pos + length xs) (put_bytes out pos xs) = take pos out @ xs"
  by (simp add: put_bytes_def min_def)

end
