(* ===== verification/Witness_Hash.thy ===== *)
theory Witness_Hash
  imports Rvm_Types Le_Bytes
begin

text \<open>
  Hashing and signing of witness records: \<open>fnv1a_64\<close> of \<open>rvm-types/src/witness.rs\<close> and the
  crate \<open>rvm-witness\<close>, files \<open>hash.rs\<close> and \<open>signer.rs\<close>.  SHA-256 and HMAC-SHA256 are third-party
  code: they are the parameters \<open>sha256\<close> and \<open>hmac_sha256\<close> of the definitions that call
  them.  The two loops of \<open>fnv1a_64\<close> keep their index; the second implementation of the
  same hash in \<open>signer.rs\<close> is a plain byte loop.
\<close>

unbundle bit_operations_syntax

section \<open>FNV-1a\<close>

definition FNV_OFFSET :: u64 where "FNV_OFFSET = 0xcbf29ce484222325"
definition FNV_PRIME :: u64 where "FNV_PRIME = 0x00000100000001B3"

definition fnv_step :: "u64 \<Rightarrow> u8 \<Rightarrow> u64" where
  "fnv_step hash byte = (hash XOR ucast byte) * FNV_PRIME"

function fnv_unrolled :: "u8 list \<Rightarrow> nat \<Rightarrow> u64 \<Rightarrow> nat \<times> u64" where
  "fnv_unrolled data i hash =
     (if i + 8 \<le> length data then
        let hash = fnv_step hash (data ! i);
            hash = fnv_step hash (data ! (i + 1));
            hash = fnv_step hash (data ! (i + 2));
            hash = fnv_step hash (data ! (i + 3));
            hash = fnv_step hash (data ! (i + 4));
            hash = fnv_step hash (data ! (i + 5));
            hash = fnv_step hash (data ! (i + 6));
            hash = fnv_step hash (data ! (i + 7))
        in fnv_unrolled data (i + 8) hash
      else (i, hash))"
  by pat_completeness auto
termination by (relation "measure (\<lambda>(data, i, hash). length data - i)") auto

function fnv_remainder :: "u8 list \<Rightarrow> nat \<Rightarrow> u64 \<Rightarrow> u64" where
  "fnv_remainder data i hash =
     (if i < length data then fnv_remainder data (i + 1) (fnv_step hash (data ! i)) else hash)"
  by pat_completeness auto
termination by (relation "measure (\<lambda>(data, i, hash). length data - i)") auto

declare fnv_unrolled.simps [simp del] fnv_remainder.simps [simp del]

definition fnv1a_64 :: "u8 list \<Rightarrow> u64" where
  "fnv1a_64 data = (case fnv_unrolled data 0 FNV_OFFSET of (i, hash) \<Rightarrow> fnv_remainder data i hash)"

definition fnv1a_32 :: "u8 list \<Rightarrow> u32" where
  "fnv1a_32 data = ucast (fnv1a_64 data)"

text \<open>The private \<open>fnv1a_64\<close> of \<open>signer.rs\<close>.\<close>

definition signer_fnv1a_64 :: "u8 list \<Rightarrow> u64" where
  "signer_fnv1a_64 data = foldl (\<lambda>hash byte. (hash XOR ucast byte) * FNV_PRIME) FNV_OFFSET data"

section \<open>Chain and record hashes\<close>

definition xor_fold_256_to_u64 :: "u8 list \<Rightarrow> u64" where
  "xor_fold_256_to_u64 digest =
     (let w0 = from_le_bytes64 (take 8 digest);
          w1 = from_le_bytes64 (take 8 (drop 8 digest));
          w2 = from_le_bytes64 (take 8 (drop 16 digest));
          w3 = from_le_bytes64 (take 8 (drop 24 digest))
      in w0 XOR w1 XOR w2 XOR w3)"

definition compute_chain_hash_sha256 :: "(u8 list \<Rightarrow> u8 list) \<Rightarrow> u64 \<Rightarrow> u64 \<Rightarrow> u64" where
  "compute_chain_hash_sha256 sha256 prev_hash sequence =
     xor_fold_256_to_u64 (sha256 (to_le_bytes64 prev_hash @ to_le_bytes64 sequence))"

definition compute_record_hash_sha256 :: "(u8 list \<Rightarrow> u8 list) \<Rightarrow> u8 list \<Rightarrow> u64" where
  "compute_record_hash_sha256 sha256 data = xor_fold_256_to_u64 (sha256 data)"

definition compute_chain_hash_fnv :: "u64 \<Rightarrow> u64 \<Rightarrow> u64" where
  "compute_chain_hash_fnv prev_hash sequence =
     fnv1a_64 (to_le_bytes64 prev_hash @ to_le_bytes64 sequence)"

definition compute_record_hash_fnv :: "u8 list \<Rightarrow> u64" where
  "compute_record_hash_fnv data = fnv1a_64 data"

text \<open>\<open>fold_u64_to_u32\<close> of \<open>log.rs\<close>.\<close>

definition fold_u64_to_u32 :: "u64 \<Rightarrow> u32" where
  "fold_u64_to_u32 h = ucast (drop_bit 32 h XOR h)"

section \<open>Signers\<close>

definition record_to_bytes :: "witness_record \<Rightarrow> u8 list" where
  "record_to_bytes r =
     to_le_bytes64 (wr_sequence r) @ to_le_bytes64 (wr_timestamp_ns r) @
     [wr_action_kind r, wr_proof_tier r, wr_flags r, 0] @
     to_le_bytes32 (wr_actor_partition_id r) @ to_le_bytes64 (wr_target_object_id r) @
     to_le_bytes32 (wr_capability_hash r) @ wr_payload r @
     to_le_bytes32 (wr_prev_hash r) @ to_le_bytes32 (wr_record_hash r) @
     wr_aux r @ replicate 4 0"

definition record_to_digest :: "(u8 list \<Rightarrow> u8 list) \<Rightarrow> witness_record \<Rightarrow> u8 list" where
  "record_to_digest sha256 r = sha256 (take 52 (record_to_bytes r))"

record witness_signer =
  ws_sign :: "witness_record \<Rightarrow> u8 list"
  ws_verify :: "witness_record \<Rightarrow> bool"

definition strict_signature :: "witness_record \<Rightarrow> u8 list" where
  "strict_signature r = to_le_bytes64 (signer_fnv1a_64 (take 52 (record_to_bytes r)))"

definition strict_signer :: witness_signer where
  "strict_signer = \<lparr>ws_sign = strict_signature, ws_verify = (\<lambda>r. wr_aux r = strict_signature r)\<rparr>"

definition hmac_signature ::
    "(u8 list \<Rightarrow> u8 list \<Rightarrow> u8 list) \<Rightarrow> u8 list \<Rightarrow> witness_record \<Rightarrow> u8 list" where
  "hmac_signature hmac_sha256 key r = take 8 (hmac_sha256 key (take 52 (record_to_bytes r)))"

text \<open>The constant-time comparison: all eight differences are or-ed together.\<close>

definition bytes_differ :: "u8 list \<Rightarrow> u8 list \<Rightarrow> u8" where
  "bytes_differ xs ys = foldl (\<lambda>diff i. diff OR (xs ! i XOR ys ! i)) 0 [0..<8]"

definition hmac_signer ::
    "(u8 list \<Rightarrow> u8 list \<Rightarrow> u8 list) \<Rightarrow> u8 list \<Rightarrow> witness_signer" where
  "hmac_signer hmac_sha256 key =
     \<lparr>ws_sign = hmac_signature hmac_sha256 key,
      ws_verify = (\<lambda>r. bytes_differ (hmac_signature hmac_sha256 key r) (wr_aux r) = 0)\<rparr>"

definition null_signer :: witness_signer where
  "null_signer = \<lparr>ws_sign = (\<lambda>r. replicate 8 0), ws_verify = (\<lambda>r. True)\<rparr>"

text \<open>\<open>b"rvm-witness-default-key-v1"\<close>\<close>

definition DEFAULT_KEY_INPUT :: "u8 list" where
  "DEFAULT_KEY_INPUT = map (\<lambda>c. of_nat (of_char c)) ''rvm-witness-default-key-v1''"

definition hmac_signer_with_default_key ::
    "(u8 list \<Rightarrow> u8 list) \<Rightarrow> (u8 list \<Rightarrow> u8 list \<Rightarrow> u8 list) \<Rightarrow> witness_signer" where
  "hmac_signer_with_default_key sha256 hmac_sha256 =
     hmac_signer hmac_sha256 (sha256 DEFAULT_KEY_INPUT)"

section \<open>The unrolled hash\<close>

lemma nth_block:
  assumes "i + 8 \<le> length data"
  shows "drop i data = [data ! i, data ! (i + 1), data ! (i + 2), data ! (i + 3), data ! (i + 4),
           data ! (i + 5), data ! (i + 6), data ! (i + 7)] @ drop (i + 8) data"
  using assms by (simp add: Cons_nth_drop_Suc [symmetric] numeral_eq_Suc)

lemma fnv_loops:
  "(case fnv_unrolled data i h of (j, h') \<Rightarrow> foldl fnv_step h' (drop j data)) =
     foldl fnv_step h (drop i data)"
proof (induction data i h rule: fnv_unrolled.induct)
  case (1 data i h)
  show ?case
  proof (cases "i + 8 \<le> length data")
    case True
    then show ?thesis
      using "1.IH" [OF True refl refl refl refl refl refl refl refl]
      by (subst fnv_unrolled.simps) (simp add: Let_def nth_block [OF True])
  next
    case False
    then show ?thesis by (subst fnv_unrolled.simps) simp
  qed
qed

lemma fnv_remainder_foldl: "fnv_remainder data i h = foldl fnv_step h (drop i data)"
proof (induction data i h rule: fnv_remainder.induct)
  case (1 data i h)
  then show ?case
    by (subst fnv_remainder.simps) (auto simp: Cons_nth_drop_Suc [symmetric])
qed

lemma fnv1a_64_foldl: "fnv1a_64 data = foldl fnv_step FNV_OFFSET data"
  using fnv_loops [of data 0 FNV_OFFSET]
  by (simp add: fnv1a_64_def fnv_remainder_foldl split: prod.splits)

section \<open>Encodings\<close>

text \<open>The invariant of the fixed byte arrays of a record.\<close>

definition record_shape :: "witness_record \<Rightarrow> bool" where
  "record_shape r \<longleftrightarrow> length (wr_payload r) = 8 \<and> length (wr_aux r) = 8 \<and> length (wr_pad r) = 4"

definition signed_content :: "witness_record \<Rightarrow> u8 list" where
  "signed_content r =
     to_le_bytes64 (wr_sequence r) @ to_le_bytes64 (wr_timestamp_ns r) @
     [wr_action_kind r, wr_proof_tier r, wr_flags r, 0] @
     to_le_bytes32 (wr_actor_partition_id r) @ to_le_bytes64 (wr_target_object_id r) @
     to_le_bytes32 (wr_capability_hash r) @ wr_payload r @
     to_le_bytes32 (wr_prev_hash r) @ to_le_bytes32 (wr_record_hash r)"

lemma record_to_bytes_take:
  assumes "record_shape r"
  shows "length (record_to_bytes r) = 64" "take 52 (record_to_bytes r) = signed_content r"
proof -
  have "length (signed_content r) = 52" using assms by (simp add: signed_content_def record_shape_def)
  moreover have "record_to_bytes r = signed_content r @ wr_aux r @ replicate 4 0"
    by (simp add: record_to_bytes_def signed_content_def)
  ultimately show "length (record_to_bytes r) = 64" "take 52 (record_to_bytes r) = signed_content r"
    using assms by (simp_all add: record_shape_def)
qed

lemma signed_content_aux [simp]: "signed_content (r\<lparr>wr_aux := a\<rparr>) = signed_content r"
  by (simp add: signed_content_def)

lemma word_xor_0: "(a :: 'a::len word) XOR b = 0 \<longleftrightarrow> a = b"
  by (auto simp: bit_eq_iff bit_simps)

lemma bytes_differ_0:
  assumes "length xs = 8" "length ys = 8"
  shows "bytes_differ xs ys = 0 \<longleftrightarrow> xs = ys"
proof -
  have "foldl (\<lambda>diff i. diff OR (xs ! i XOR ys ! i)) d ns = 0 \<longleftrightarrow>
          d = 0 \<and> (\<forall>i\<in>set ns. xs ! i = ys ! i)" for d ns
    by (induction ns arbitrary: d) (auto simp: or_eq_0_iff word_xor_0)
  then show ?thesis
    using assms by (auto simp: bytes_differ_def list_eq_iff_nth_eq)
qed

end
