(* ===== verification/Witness_Log.thy ===== *)
theory Witness_Log
  imports Witness_Hash
begin

text \<open>
  Crate \<open>rvm-witness\<close>, files \<open>log.rs\<close>, \<open>replay.rs\<close> and \<open>emit.rs\<close>: the ring buffer
  of witness records, its checkpoints and snapshots, the verification of the hash chain and the
  emitters.  A method runs under the log's mutex, so it is one function of the state.  The chain
  hash is the parameter \<open>H\<close>, which the crate instantiates with \<open>compute_chain_hash\<close> of
  either feature.  \<open>log_rep\<close> relates a log to the complete history of what was appended; the
  locale \<open>witness_sink\<close> is what a component that emits records relies on.
\<close>

section \<open>The log\<close>

type_synonym chain_hash = "u64 \<Rightarrow> u64 \<Rightarrow> u64"

record witness_log =
  wl_records :: "witness_record list"
  wl_write_pos :: nat
  wl_chain_hash :: u64
  wl_sequence :: u64
  wl_total_emitted :: u64

record witness_checkpoint =
  wc_next_sequence :: u64
  wc_chain_hash :: u64

record witness_snapshot =
  sn_count :: nat
  sn_end_checkpoint :: witness_checkpoint

datatype snapshot_since_error =
  FutureCheckpoint | RecordsOverwritten | OutputTooSmall nat | SequenceMismatch

definition trusted_resume :: "u64 \<Rightarrow> u64 \<Rightarrow> witness_checkpoint" where
  "trusted_resume s h = \<lparr>wc_next_sequence = s, wc_chain_hash = h\<rparr>"

definition log_new :: "nat \<Rightarrow> witness_log" where
  "log_new n =
     \<lparr>wl_records = replicate n witness_zeroed, wl_write_pos = 0, wl_chain_hash = 0,
      wl_sequence = 0, wl_total_emitted = 0\<rparr>"

definition log_append :: "chain_hash \<Rightarrow> witness_record \<Rightarrow> witness_log \<Rightarrow> u64 \<times> witness_log" where
  "log_append H r l =
     (let seq = wl_sequence l;
          prev_hash = wl_chain_hash l;
          r = r\<lparr>wr_sequence := seq, wr_prev_hash := fold_u64_to_u32 prev_hash\<rparr>;
          chain = H prev_hash seq;
          r = r\<lparr>wr_record_hash := fold_u64_to_u32 chain\<rparr>;
          pos = wl_write_pos l
      in (seq,
          l\<lparr>wl_records := (wl_records l)[pos := r],
            wl_write_pos := (pos + 1) mod length (wl_records l),
            wl_chain_hash := chain,
            wl_sequence := seq + 1,
            wl_total_emitted := wl_total_emitted l + 1\<rparr>))"

definition log_signed_append ::
    "chain_hash \<Rightarrow> witness_signer \<Rightarrow> witness_record \<Rightarrow> witness_log \<Rightarrow> u64 \<times> witness_log" where
  "log_signed_append H signer r l =
     (let seq = wl_sequence l;
          prev_hash = wl_chain_hash l;
          r = r\<lparr>wr_sequence := seq, wr_prev_hash := fold_u64_to_u32 prev_hash\<rparr>;
          chain = H prev_hash seq;
          r = r\<lparr>wr_record_hash := fold_u64_to_u32 chain\<rparr>;
          r = r\<lparr>wr_aux := ws_sign signer r\<rparr>;
          pos = wl_write_pos l
      in (seq,
          l\<lparr>wl_records := (wl_records l)[pos := r],
            wl_write_pos := (pos + 1) mod length (wl_records l),
            wl_chain_hash := chain,
            wl_sequence := seq + 1,
            wl_total_emitted := wl_total_emitted l + 1\<rparr>))"

definition log_checkpoint :: "witness_log \<Rightarrow> witness_checkpoint" where
  "log_checkpoint l = \<lparr>wc_next_sequence = wl_sequence l, wc_chain_hash = wl_chain_hash l\<rparr>"

text \<open>The copying loop of \<open>snapshot_since\<close>: an early return leaves what was copied.\<close>

fun snapshot_since_loop ::
    "witness_record list \<Rightarrow> u64 \<Rightarrow> u64 \<Rightarrow> nat list \<Rightarrow> witness_record list
       \<Rightarrow> (snapshot_since_error + unit) \<times> witness_record list" where
  "snapshot_since_loop records capacity start [] out = (Inr (), out)"
| "snapshot_since_loop records capacity start (offset # rest) out =
     (case checked_add start (of_nat offset) of
        None \<Rightarrow> (Inl SequenceMismatch, out)
      | Some sequence \<Rightarrow>
          let r = records ! unat (sequence mod capacity) in
          if wr_sequence r \<noteq> sequence then (Inl SequenceMismatch, out)
          else snapshot_since_loop records capacity start rest (out[offset := r]))"

definition log_snapshot_since ::
    "witness_checkpoint \<Rightarrow> witness_record list \<Rightarrow> witness_log
       \<Rightarrow> (snapshot_since_error + witness_snapshot) \<times> witness_record list" where
  "log_snapshot_since cp out l =
     (if wc_next_sequence cp > wl_sequence l then (Inl FutureCheckpoint, out)
      else
        let capacity = of_nat (length (wl_records l));
            retained_start = saturating_sub (wl_sequence l) capacity
        in if wc_next_sequence cp < retained_start then (Inl RecordsOverwritten, out)
           else
             let required = unat (wl_sequence l - wc_next_sequence cp)
             in if length out < required then (Inl (OutputTooSmall required), out)
                else
                  (case snapshot_since_loop (wl_records l) capacity (wc_next_sequence cp)
                          [0..<required] out of
                     (Inl e, out') \<Rightarrow> (Inl e, out')
                   | (Inr _, out') \<Rightarrow>
                       (Inr \<lparr>sn_count = required, sn_end_checkpoint = log_checkpoint l\<rparr>, out')))"

definition log_len :: "witness_log \<Rightarrow> nat" where
  "log_len l =
     (if wl_total_emitted l \<ge> of_nat (length (wl_records l)) then length (wl_records l)
      else unat (wl_total_emitted l))"

definition log_is_empty :: "witness_log \<Rightarrow> bool" where
  "log_is_empty l \<longleftrightarrow> wl_total_emitted l = 0"

definition log_get :: "nat \<Rightarrow> witness_log \<Rightarrow> witness_record option" where
  "log_get i l =
     (if i \<ge> length (wl_records l) then None
      else if wl_total_emitted l = 0 then None
      else Some (wl_records l ! i))"

definition log_snapshot :: "witness_record list \<Rightarrow> witness_log \<Rightarrow> nat \<times> witness_record list" where
  "log_snapshot buf l =
     (let n = length (wl_records l);
          wrapped = (wl_total_emitted l \<ge> of_nat n);
          available = (if wrapped then n else unat (wl_total_emitted l));
          to_copy = min (length buf) available
      in if to_copy = 0 then (0, buf)
         else
           let start = (if wrapped then wl_write_pos l else 0)
           in (to_copy,
               foldl (\<lambda>b i. b[i := wl_records l ! ((start + (available - to_copy) + i) mod n)])
                 buf [0..<to_copy]))"

section \<open>Verification and queries\<close>

datatype chain_integrity_error = ChainBreak u64 | RecordCorrupted u64 | EmptyLog

fun verify_loop ::
    "chain_hash \<Rightarrow> witness_record list \<Rightarrow> u64 \<Rightarrow> u64 \<Rightarrow> chain_integrity_error + unit" where
  "verify_loop H [] prev_chain_hash expected_sequence = Inr ()"
| "verify_loop H (r # rs) prev_chain_hash expected_sequence =
     (if wr_sequence r \<noteq> expected_sequence then Inl (ChainBreak (wr_sequence r))
      else if wr_prev_hash r \<noteq> fold_u64_to_u32 prev_chain_hash then Inl (ChainBreak (wr_sequence r))
      else
        let chain = H prev_chain_hash (wr_sequence r) in
        if wr_record_hash r \<noteq> fold_u64_to_u32 chain then Inl (RecordCorrupted (wr_sequence r))
        else verify_loop H rs chain (expected_sequence + 1))"

definition verify_chain_from ::
    "chain_hash \<Rightarrow> witness_record list \<Rightarrow> u64 \<Rightarrow> u64 \<Rightarrow> chain_integrity_error + nat" where
  "verify_chain_from H records initial_chain_hash expected_first_sequence =
     (if records = [] then Inl EmptyLog
      else case verify_loop H records initial_chain_hash expected_first_sequence of
             Inl e \<Rightarrow> Inl e
           | Inr _ \<Rightarrow> Inr (length records))"

definition verify_chain :: "chain_hash \<Rightarrow> witness_record list \<Rightarrow> chain_integrity_error + nat" where
  "verify_chain H records = verify_chain_from H records 0 0"

definition query_by_partition :: "witness_record list \<Rightarrow> u32 \<Rightarrow> witness_record list" where
  "query_by_partition records p = filter (\<lambda>r. wr_actor_partition_id r = p) records"

definition query_by_action_kind :: "witness_record list \<Rightarrow> u8 \<Rightarrow> witness_record list" where
  "query_by_action_kind records kind = filter (\<lambda>r. wr_action_kind r = kind) records"

definition query_by_time_range :: "witness_record list \<Rightarrow> u64 \<Rightarrow> u64 \<Rightarrow> witness_record list" where
  "query_by_time_range records start_ns end_ns =
     filter (\<lambda>r. wr_timestamp_ns r \<ge> start_ns \<and> wr_timestamp_ns r \<le> end_ns) records"

section \<open>Emitters\<close>

definition emit_partition_create ::
    "chain_hash \<Rightarrow> u32 \<Rightarrow> u64 \<Rightarrow> u32 \<Rightarrow> u64 \<Rightarrow> witness_log \<Rightarrow> u64 \<times> witness_log" where
  "emit_partition_create H actor new_partition_id cap_hash ts =
     log_append H (witness_zeroed\<lparr>wr_action_kind := action_code PartitionCreate, wr_proof_tier := 1,
       wr_actor_partition_id := actor, wr_target_object_id := new_partition_id,
       wr_capability_hash := cap_hash, wr_timestamp_ns := ts\<rparr>)"

definition emit_partition_destroy ::
    "chain_hash \<Rightarrow> u32 \<Rightarrow> u64 \<Rightarrow> u32 \<Rightarrow> u64 \<Rightarrow> witness_log \<Rightarrow> u64 \<times> witness_log" where
  "emit_partition_destroy H actor p cap_hash ts =
     log_append H (witness_zeroed\<lparr>wr_action_kind := action_code PartitionDestroy, wr_proof_tier := 1,
       wr_actor_partition_id := actor, wr_target_object_id := p,
       wr_capability_hash := cap_hash, wr_timestamp_ns := ts\<rparr>)"

definition emit_capability_grant ::
    "chain_hash \<Rightarrow> u32 \<Rightarrow> u64 \<Rightarrow> u32 \<Rightarrow> u8 list \<Rightarrow> u64 \<Rightarrow> witness_log \<Rightarrow> u64 \<times> witness_log" where
  "emit_capability_grant H actor target cap_hash payload ts =
     log_append H (witness_zeroed\<lparr>wr_action_kind := action_code CapabilityGrant, wr_proof_tier := 1,
       wr_actor_partition_id := actor, wr_target_object_id := target,
       wr_capability_hash := cap_hash, wr_payload := payload, wr_timestamp_ns := ts\<rparr>)"

definition emit_capability_revoke ::
    "chain_hash \<Rightarrow> u32 \<Rightarrow> u64 \<Rightarrow> u32 \<Rightarrow> u64 \<Rightarrow> witness_log \<Rightarrow> u64 \<times> witness_log" where
  "emit_capability_revoke H actor target cap_hash ts =
     log_append H (witness_zeroed\<lparr>wr_action_kind := action_code CapabilityRevoke, wr_proof_tier := 1,
       wr_actor_partition_id := actor, wr_target_object_id := target,
       wr_capability_hash := cap_hash, wr_timestamp_ns := ts\<rparr>)"

definition emit_memory_map ::
    "chain_hash \<Rightarrow> u32 \<Rightarrow> u64 \<Rightarrow> u32 \<Rightarrow> u8 list \<Rightarrow> u64 \<Rightarrow> witness_log \<Rightarrow> u64 \<times> witness_log" where
  "emit_memory_map H actor region_id cap_hash payload ts =
     log_append H (witness_zeroed\<lparr>wr_action_kind := action_code RegionMap, wr_proof_tier := 2,
       wr_actor_partition_id := actor, wr_target_object_id := region_id,
       wr_capability_hash := cap_hash, wr_payload := payload, wr_timestamp_ns := ts\<rparr>)"

definition emit_proof_rejected ::
    "chain_hash \<Rightarrow> u32 \<Rightarrow> u64 \<Rightarrow> u32 \<Rightarrow> u64 \<Rightarrow> witness_log \<Rightarrow> u64 \<times> witness_log" where
  "emit_proof_rejected H actor target cap_hash ts =
     log_append H (witness_zeroed\<lparr>wr_action_kind := action_code ProofRejected,
       wr_actor_partition_id := actor, wr_target_object_id := target,
       wr_capability_hash := cap_hash, wr_timestamp_ns := ts\<rparr>)"

section \<open>The history of a log\<close>

text \<open>The chain hash after \<open>n\<close> records that start at sequence \<open>s\<close> from the hash \<open>h\<close>.\<close>

fun chain_at :: "chain_hash \<Rightarrow> u64 \<Rightarrow> u64 \<Rightarrow> nat \<Rightarrow> u64" where
  "chain_at H h s 0 = h"
| "chain_at H h s (Suc n) = H (chain_at H h s n) (s + of_nat n)"

text \<open>Record number \<open>n\<close> after the log has filled in its fields.\<close>

definition stamp :: "chain_hash \<Rightarrow> nat \<Rightarrow> witness_record \<Rightarrow> witness_record" where
  "stamp H n r =
     r\<lparr>wr_sequence := of_nat n, wr_prev_hash := fold_u64_to_u32 (chain_at H 0 0 n),
       wr_record_hash := fold_u64_to_u32 (chain_at H 0 0 (Suc n))\<rparr>"

definition chained :: "chain_hash \<Rightarrow> u64 \<Rightarrow> u64 \<Rightarrow> witness_record list \<Rightarrow> bool" where
  "chained H h s rs \<longleftrightarrow>
     (\<forall>i\<in>{0..<length rs}. wr_sequence (rs ! i) = s + of_nat i \<and>
        wr_prev_hash (rs ! i) = fold_u64_to_u32 (chain_at H h s i) \<and>
        wr_record_hash (rs ! i) = fold_u64_to_u32 (chain_at H h s (Suc i)))"

definition log_rep :: "chain_hash \<Rightarrow> witness_log \<Rightarrow> witness_record list \<Rightarrow> bool" where
  "log_rep H l hist \<longleftrightarrow>
     0 < length (wl_records l) \<and> length (wl_records l) < 2 ^ 64 \<and> length hist < 2 ^ 64 \<and>
     wl_sequence l = of_nat (length hist) \<and> wl_total_emitted l = of_nat (length hist) \<and>
     wl_write_pos l = length hist mod length (wl_records l) \<and>
     wl_chain_hash l = chain_at H 0 0 (length hist) \<and>
     chained H 0 0 hist \<and>
     (\<forall>i\<in>{length hist - length (wl_records l)..<length hist}.
        wl_records l ! (i mod length (wl_records l)) = hist ! i)"

section \<open>Appending extends the history\<close>

lemma mod_window:
  assumes "i < j" "j - i < (n :: nat)"
  shows "i mod n \<noteq> j mod n"
proof
  assume "i mod n = j mod n"
  then have "n dvd j - i" using assms(1) mod_eq_dvd_iff_nat [of i j n] by simp
  with assms show False by (auto dest: dvd_imp_le)
qed

lemma chained_append:
  assumes "chained H h s rs"
    and "wr_sequence r = s + of_nat (length rs)"
    and "wr_prev_hash r = fold_u64_to_u32 (chain_at H h s (length rs))"
    and "wr_record_hash r = fold_u64_to_u32 (chain_at H h s (Suc (length rs)))"
  shows "chained H h s (rs @ [r])"
  using assms by (auto simp: chained_def nth_append less_Suc_eq)

lemma log_new_rep: "0 < n \<Longrightarrow> n < 2 ^ 64 \<Longrightarrow> log_rep H (log_new n) []"
  by (simp add: log_rep_def log_new_def chained_def)

text \<open>Both ways of appending write one record and advance the counters.\<close>

lemma log_store_rep:
  assumes rep: "log_rep H l hist" and room: "length hist + 1 < 2 ^ 64"
    and r: "wr_sequence r = of_nat (length hist)"
      "wr_prev_hash r = fold_u64_to_u32 (chain_at H 0 0 (length hist))"
      "wr_record_hash r = fold_u64_to_u32 (chain_at H 0 0 (Suc (length hist)))"
    and l': "l' = l\<lparr>wl_records := (wl_records l)[wl_write_pos l := r],
            wl_write_pos := (wl_write_pos l + 1) mod length (wl_records l),
            wl_chain_hash := H (wl_chain_hash l) (wl_sequence l),
            wl_sequence := wl_sequence l + 1, wl_total_emitted := wl_total_emitted l + 1\<rparr>"
  shows "log_rep H l' (hist @ [r])"
proof -
  let ?n = "length (wl_records l)" and ?k = "length hist"
  have n: "0 < ?n" "?n < 2 ^ 64" and pos: "wl_write_pos l = ?k mod ?n"
    and win: "\<And>i. ?k - ?n \<le> i \<Longrightarrow> i < ?k \<Longrightarrow> wl_records l ! (i mod ?n) = hist ! i"
    using rep by (auto simp: log_rep_def)
  have "wl_records l' ! (i mod ?n) = (hist @ [r]) ! i" if "Suc ?k - ?n \<le> i" "i < Suc ?k" for i
  proof (cases "i = ?k")
    case True
    then show ?thesis using n by (simp add: l' pos)
  next
    case False
    with that have i: "i < ?k" "?k - i < ?n" using n by auto
    then have "i mod ?n \<noteq> ?k mod ?n" by (rule mod_window)
    with i win [of i] that show ?thesis by (simp add: l' pos nth_append)
  qed
  moreover have "chained H 0 0 (hist @ [r])"
    using rep r by (intro chained_append) (simp_all add: log_rep_def)
  moreover have "(?k mod ?n + 1) mod ?n = Suc ?k mod ?n" by (simp add: mod_Suc_eq)
  ultimately show ?thesis
    using rep room n by (simp add: log_rep_def l' pos)
qed

lemma log_append_rep:
  assumes "log_rep H l hist" "length hist + 1 < 2 ^ 64"
  shows "fst (log_append H r l) = of_nat (length hist)"
    "log_rep H (snd (log_append H r l)) (hist @ [stamp H (length hist) r])"
proof -
  show "fst (log_append H r l) = of_nat (length hist)"
    using assms(1) by (simp add: log_append_def log_rep_def Let_def)
  show "log_rep H (snd (log_append H r l)) (hist @ [stamp H (length hist) r])"
    using assms
    by (rule log_store_rep) (use assms(1) in \<open>simp_all add: log_append_def stamp_def log_rep_def Let_def\<close>)
qed

definition stamp_signed :: "chain_hash \<Rightarrow> witness_signer \<Rightarrow> nat \<Rightarrow> witness_record \<Rightarrow> witness_record" where
  "stamp_signed H signer n r = (stamp H n r)\<lparr>wr_aux := ws_sign signer (stamp H n r)\<rparr>"

lemma log_signed_append_rep:
  assumes "log_rep H l hist" "length hist + 1 < 2 ^ 64"
  shows "fst (log_signed_append H signer r l) = of_nat (length hist)"
    "log_rep H (snd (log_signed_append H signer r l)) (hist @ [stamp_signed H signer (length hist) r])"
proof -
  show "fst (log_signed_append H signer r l) = of_nat (length hist)"
    using assms(1) by (simp add: log_signed_append_def log_rep_def Let_def)
  show "log_rep H (snd (log_signed_append H signer r l)) (hist @ [stamp_signed H signer (length hist) r])"
    using assms
    by (rule log_store_rep)
       (use assms(1) in \<open>simp_all add: log_signed_append_def stamp_signed_def stamp_def log_rep_def Let_def\<close>)
qed

section \<open>The contract of a witness sink\<close>

locale witness_sink =
  fixes append :: "'r \<Rightarrow> 'l \<Rightarrow> u64 \<times> 'l"
    and history :: "'l \<Rightarrow> 'r list \<Rightarrow> bool"
    and stamped :: "nat \<Rightarrow> 'r \<Rightarrow> 'r"
  assumes append_seq:
      "history l h \<Longrightarrow> length h + 1 < 2 ^ 64 \<Longrightarrow> fst (append r l) = of_nat (length h)"
    and append_history:
      "history l h \<Longrightarrow> length h + 1 < 2 ^ 64 \<Longrightarrow>
         history (snd (append r l)) (h @ [stamped (length h) r])"
begin

fun emit_all :: "'r list \<Rightarrow> 'l \<Rightarrow> u64 list \<times> 'l" where
  "emit_all [] l = ([], l)"
| "emit_all (r # rs) l =
     (let (s, l1) = append r l; (ss, l2) = emit_all rs l1 in (s # ss, l2))"

text \<open>A run of emissions gets consecutive sequence numbers and is appended in order.\<close>

lemma emit_all_history:
  assumes "history l h" "length h + length rs < 2 ^ 64"
  shows "fst (emit_all rs l) = map of_nat [length h..<length h + length rs] \<and>
         history (snd (emit_all rs l))
           (h @ map (\<lambda>(i, r). stamped i r) (zip [length h..<length h + length rs] rs))"
  using assms
proof (induction rs arbitrary: l h)
  case Nil
  then show ?case by simp
next
  case (Cons r rs)
  let ?h = "h @ [stamped (length h) r]"
  have s: "fst (append r l) = of_nat (length h)" "history (snd (append r l)) ?h"
    using append_seq append_history Cons.prems by simp_all
  then have IH: "fst (emit_all rs (snd (append r l))) = map of_nat [length ?h..<length ?h + length rs] \<and>
      history (snd (emit_all rs (snd (append r l))))
        (?h @ map (\<lambda>(i, r). stamped i r) (zip [length ?h..<length ?h + length rs] rs))"
    using Cons.prems(2) by (intro Cons.IH) simp_all
  have upt: "[length h..<length h + length (r # rs)] = length h # [length ?h..<length ?h + length rs]"
    by (simp add: upt_conv_Cons del: upt_Suc)
  show ?case
    unfolding upt using s(1) IH
    by (cases "append r l"; cases "emit_all rs (snd (append r l))") (simp del: upt_Suc)
qed

end

interpretation plain_sink: witness_sink "log_append H" "log_rep H" "stamp H" for H
  by unfold_locales (simp_all add: log_append_rep)

interpretation signed_sink:
  witness_sink "log_signed_append H signer" "log_rep H" "stamp_signed H signer" for H signer
  by unfold_locales (simp_all add: log_signed_append_rep)

section \<open>Verification accepts exactly chained records\<close>

lemma chain_at_shift: "chain_at H h s (Suc n) = chain_at H (H h s) (s + 1) n"
  by (induction n) (simp_all add: add.assoc)

lemma chained_Cons:
  "chained H h s (r # rs) \<longleftrightarrow>
     wr_sequence r = s \<and> wr_prev_hash r = fold_u64_to_u32 h \<and>
     wr_record_hash r = fold_u64_to_u32 (H h s) \<and> chained H (H h s) (s + 1) rs"
  (is "?L \<longleftrightarrow> ?R")
proof
  assume L: ?L
  have "wr_sequence (rs ! i) = s + 1 + of_nat i \<and>
        wr_prev_hash (rs ! i) = fold_u64_to_u32 (chain_at H (H h s) (s + 1) i) \<and>
        wr_record_hash (rs ! i) = fold_u64_to_u32 (chain_at H (H h s) (s + 1) (Suc i))"
    if "i < length rs" for i
    using L that chain_at_shift [of H h s i] chain_at_shift [of H h s "Suc i"]
    by (auto simp: chained_def dest!: bspec [where x = "Suc i"])
  moreover have "wr_sequence r = s" "wr_prev_hash r = fold_u64_to_u32 h"
    "wr_record_hash r = fold_u64_to_u32 (H h s)"
    using L by (auto simp: chained_def dest!: bspec [where x = 0])
  ultimately show ?R by (simp add: chained_def)
next
  assume R: ?R
  have "wr_sequence ((r # rs) ! i) = s + of_nat i \<and>
        wr_prev_hash ((r # rs) ! i) = fold_u64_to_u32 (chain_at H h s i) \<and>
        wr_record_hash ((r # rs) ! i) = fold_u64_to_u32 (chain_at H h s (Suc i))"
    if "i < Suc (length rs)" for i
  proof (cases i)
    case 0
    with R show ?thesis by simp
  next
    case (Suc j)
    with R that chain_at_shift [of H h s j] chain_at_shift [of H h s "Suc j"] show ?thesis
      by (simp add: chained_def add.assoc)
  qed
  then show ?L by (simp add: chained_def)
qed

lemma verify_loop_iff: "verify_loop H rs h s = Inr () \<longleftrightarrow> chained H h s rs"
proof (induction rs arbitrary: h s)
  case Nil
  then show ?case by (simp add: chained_def)
next
  case (Cons r rs)
  then show ?case by (auto simp: chained_Cons Let_def)
qed

lemma verify_chain_from_iff:
  "verify_chain_from H rs h s = Inr n \<longleftrightarrow> rs \<noteq> [] \<and> n = length rs \<and> chained H h s rs"
  using verify_loop_iff [of H rs h s]
  by (auto simp: verify_chain_from_def split: sum.splits)

lemma chained_drop:
  assumes "chained H 0 0 hist" "n \<le> length hist"
  shows "chained H (chain_at H 0 0 n) (of_nat n) (drop n hist)"
proof -
  have "chain_at H (chain_at H 0 0 n) (of_nat n) i = chain_at H 0 0 (n + i)" for i
    by (induction i) simp_all
  with assms show ?thesis
    by (auto simp: chained_def dest!: bspec [where x = "n + _"])
qed

section \<open>Snapshots\<close>

lemma foldl_update_upt:
  "m \<le> length out \<Longrightarrow> foldl (\<lambda>b k. b[k := f k]) out [0..<m] = map f [0..<m] @ drop m out"
proof (induction m)
  case 0
  then show ?case by simp
next
  case (Suc m)
  then show ?case
    by (simp add: list_update_append Cons_nth_drop_Suc [symmetric])
qed

lemma snapshot_loop_copies:
  assumes "\<And>k. k \<in> set ks \<Longrightarrow> unat start + k < 2 ^ 64 \<and>
             wr_sequence (records ! (unat (start + of_nat k) mod unat cap)) = start + of_nat k"
  shows "snapshot_since_loop records cap start ks out =
           (Inr (), foldl (\<lambda>b k. b[k := records ! (unat (start + of_nat k) mod unat cap)]) out ks)"
  using assms
proof (induction ks arbitrary: out)
  case Nil
  then show ?case by simp
next
  case (Cons k ks)
  have k: "unat start + k < 2 ^ 64"
    "wr_sequence (records ! (unat (start + of_nat k) mod unat cap)) = start + of_nat k"
    using Cons.prems by auto
  have "checked_add start (of_nat k) = Some (start + of_nat k)"
    using k(1) by (simp add: checked_add_def unat_of_nat)
  with k(2) Cons show ?case by (simp add: unat_mod)
qed

lemma snapshot_since_exact:
  assumes rep: "log_rep H l hist" and n: "n \<le> length hist" "length hist - n \<le> length (wl_records l)"
    and cp: "wc_next_sequence cp = of_nat n" and out: "length hist - n \<le> length out"
  shows "log_snapshot_since cp out l =
     (Inr \<lparr>sn_count = length hist - n, sn_end_checkpoint = log_checkpoint l\<rparr>,
      drop n hist @ drop (length hist - n) out)"
proof -
  let ?N = "length (wl_records l)" and ?k = "length hist"
  have L: "0 < ?N" "?N < 2 ^ 64" "?k < 2 ^ 64" "wl_sequence l = of_nat ?k" "chained H 0 0 hist"
    and win: "\<And>i. ?k - ?N \<le> i \<Longrightarrow> i < ?k \<Longrightarrow> wl_records l ! (i mod ?N) = hist ! i"
    using rep by (auto simp: log_rep_def)
  have u: "unat (of_nat ?k :: u64) = ?k" "unat (of_nat n :: u64) = n" "unat (of_nat ?N :: u64) = ?N"
    using L n by (simp_all add: unat_of_nat)
  have req: "unat (of_nat ?k - of_nat n :: u64) = ?k - n"
    using u n by (simp add: unat_sub word_le_nat_alt)
  have rec: "wl_records l ! ((n + k) mod ?N) = hist ! (n + k)"
    "unat (of_nat n + of_nat k :: u64) = n + k" if "k < ?k - n" for k
  proof -
    show "wl_records l ! ((n + k) mod ?N) = hist ! (n + k)" using that n by (intro win) auto
    have "n + k < 2 ^ 64" using that L(3) by simp
    then show "unat (of_nat n + of_nat k :: u64) = n + k"
      by (simp add: unat_of_nat flip: of_nat_add)
  qed
  have seq: "wr_sequence (hist ! (n + k)) = of_nat n + of_nat k" if "k < ?k - n" for k
    using L(5) that by (auto simp: chained_def)
  have loop: "snapshot_since_loop (wl_records l) (of_nat ?N) (of_nat n) [0..<?k - n] out =
      (Inr (), map (\<lambda>k. hist ! (n + k)) [0..<?k - n] @ drop (?k - n) out)"
  proof -
    have "foldl (\<lambda>b k. b[k := wl_records l ! (unat (of_nat n + of_nat k :: u64) mod ?N)]) out
        [0..<?k - n] = foldl (\<lambda>b k. b[k := hist ! (n + k)]) out [0..<?k - n]"
      by (rule foldl_cong) (simp_all add: rec)
    moreover have "n + k < 2 ^ 64" if "k < ?k - n" for k using that L(3) by simp
    ultimately show ?thesis
      using out by (subst snapshot_loop_copies) (simp_all add: u rec seq foldl_update_upt)
  qed
  have "map (\<lambda>k. hist ! (n + k)) [0..<?k - n] = drop n hist"
    using n by (intro nth_equalityI) simp_all
  moreover have "\<not> of_nat n > (of_nat ?k :: u64)" using u n by (simp add: word_less_nat_alt)
  moreover have "\<not> of_nat n < saturating_sub (of_nat ?k :: u64) (of_nat ?N)"
    using u n by (simp add: word_less_nat_alt saturating_sub_unat)
  ultimately show ?thesis
    using loop out by (simp add: log_snapshot_since_def Let_def L(4) cp req)
qed

lemma log_snapshot_recent:
  fixes buf :: "witness_record list"
  assumes rep: "log_rep H l hist"
  defines "k \<equiv> min (length buf) (min (length hist) (length (wl_records l)))"
  shows "log_snapshot buf l = (k, drop (length hist - k) hist @ drop k buf)"
proof -
  let ?N = "length (wl_records l)" and ?n = "length hist"
  have L: "0 < ?N" "?N < 2 ^ 64" "?n < 2 ^ 64" "wl_total_emitted l = of_nat ?n" "wl_write_pos l = ?n mod ?N"
    and win: "\<And>i. ?n - ?N \<le> i \<Longrightarrow> i < ?n \<Longrightarrow> wl_records l ! (i mod ?N) = hist ! i"
    using rep by (auto simp: log_rep_def)
  have u: "unat (of_nat ?n :: u64) = ?n" "unat (of_nat ?N :: u64) = ?N"
    using L by (simp_all add: unat_of_nat)
  have wrapped: "(of_nat ?N :: u64) \<le> of_nat ?n \<longleftrightarrow> ?N \<le> ?n" using u by (simp add: word_le_nat_alt)
  define a where "a = (if ?N \<le> ?n then ?N else ?n)"
  define s where "s = (if ?N \<le> ?n then ?n mod ?N else 0)"
  have a: "a = min ?n ?N" "k = min (length buf) a" by (simp_all add: a_def k_def)
  have rec: "wl_records l ! ((s + (a - k) + i) mod ?N) = hist ! (?n - k + i)" if "i < k" for i
  proof -
    have "(s + (a - k) + i) mod ?N = (?n - k + i) mod ?N"
    proof (cases "?N \<le> ?n")
      case True
      have "(s + (a - k) + i) mod ?N = (?n + (?N - k) + i) mod ?N"
        using True by (simp add: s_def a_def add.assoc mod_add_left_eq)
      also have "?n + (?N - k) + i = (?n - k + i) + ?N" using True a that by (simp add: a_def)
      finally show ?thesis by simp
    next
      case False
      then show ?thesis by (simp add: s_def a_def)
    qed
    moreover have "?n - ?N \<le> ?n - k + i" "?n - k + i < ?n" using a that by auto
    ultimately show ?thesis using win by simp
  qed
  have "log_snapshot buf l =
      (if k = 0 then (0, buf)
       else (k, foldl (\<lambda>b i. b[i := wl_records l ! ((s + (a - k) + i) mod ?N)]) buf [0..<k]))"
    using L(4,5) wrapped u by (simp add: log_snapshot_def Let_def a(2) a_def s_def)
  moreover have "foldl (\<lambda>b i. b[i := wl_records l ! ((s + (a - k) + i) mod ?N)]) buf [0..<k] =
      map (\<lambda>i. hist ! (?n - k + i)) [0..<k] @ drop k buf"
  proof -
    have "foldl (\<lambda>b i. b[i := wl_records l ! ((s + (a - k) + i) mod ?N)]) buf [0..<k] =
        foldl (\<lambda>b i. b[i := hist ! (?n - k + i)]) buf [0..<k]"
      by (rule foldl_cong) (simp_all add: rec)
    then show ?thesis using a(2) by (simp add: foldl_update_upt)
  qed
  moreover have "map (\<lambda>i. hist ! (?n - k + i)) [0..<k] = drop (?n - k) hist"
    using a by (intro nth_equalityI) simp_all
  ultimately show ?thesis by (cases "k = 0") simp_all
qed

text \<open>A run of appends, and a small log on which the properties are instantiated.\<close>

definition append_all :: "chain_hash \<Rightarrow> witness_record list \<Rightarrow> witness_log \<Rightarrow> witness_log" where
  "append_all H rs l = fold (\<lambda>r l. snd (log_append H r l)) rs l"

lemma append_all_emit: "append_all H rs l = snd (plain_sink.emit_all H rs l)"
  by (induction rs arbitrary: l) (simp_all add: append_all_def Let_def split_beta)

lemma append_all_records: "length (wl_records (append_all H rs l)) = length (wl_records l)"
  by (induction rs arbitrary: l) (simp_all add: append_all_def log_append_def Let_def)

definition demo_log :: witness_log where
  "demo_log = append_all compute_chain_hash_fnv [witness_zeroed] (log_new 2)"

lemma demo_log_rep:
  "log_rep compute_chain_hash_fnv demo_log [stamp compute_chain_hash_fnv 0 witness_zeroed]"
proof -
  have new: "log_rep compute_chain_hash_fnv (log_new 2) []" by (rule log_new_rep) simp_all
  from plain_sink.emit_all_history [OF this, of "[witness_zeroed]"]
  show ?thesis by (simp add: demo_log_def append_all_emit)
qed

lemma demo_log_size: "length (wl_records demo_log) = 2"
  by (simp add: demo_log_def append_all_records log_new_def)

section \<open>Properties\<close>

text \<open>
  C9.  An epoch is sealed completely: take a checkpoint of any log with a correct history, append
  any records that fit the ring, and ask for a snapshot since the checkpoint with a buffer that is
  large enough.  The snapshot returns exactly the appended records, in order, with the fields the
  log filled in, reports their number and the log's current checkpoint as the next boundary, and
  the chain verification started at the old checkpoint accepts them.
\<close>

theorem epoch_snapshot_complete:
  assumes "log_rep H l hist" "length hist + length rs < 2 ^ 64"
    and "length rs \<le> length (wl_records l)" "length rs \<le> length out"
  defines "epoch \<equiv> map (\<lambda>i. stamp H (length hist + i) (rs ! i)) [0..<length rs]"
    and "l' \<equiv> append_all H rs l" and "cp \<equiv> log_checkpoint l"
  shows "log_snapshot_since cp out l' =
           (Inr \<lparr>sn_count = length rs, sn_end_checkpoint = log_checkpoint l'\<rparr>,
            epoch @ drop (length rs) out) \<and>
         (rs \<noteq> [] \<longrightarrow>
            verify_chain_from H epoch (wc_chain_hash cp) (wc_next_sequence cp) = Inr (length rs))"
proof -
  have "map (\<lambda>(i, r). stamp H i r) (zip [length hist..<length hist + length rs] rs) = epoch"
    unfolding epoch_def by (intro nth_equalityI) simp_all
  then have rep: "log_rep H l' (hist @ epoch)"
    using plain_sink.emit_all_history [OF assms(1,2)] by (simp add: l'_def append_all_emit)
  have len: "length epoch = length rs" by (simp add: epoch_def)
  have cp: "wc_next_sequence cp = of_nat (length hist)" "wc_chain_hash cp = chain_at H 0 0 (length hist)"
    using assms(1) by (simp_all add: cp_def log_checkpoint_def log_rep_def)
  have "length (wl_records l') = length (wl_records l)" by (simp add: l'_def append_all_records)
  with snapshot_since_exact [OF rep _ _ cp(1), of out] assms(3,4) len
  have "log_snapshot_since cp out l' =
      (Inr \<lparr>sn_count = length rs, sn_end_checkpoint = log_checkpoint l'\<rparr>, epoch @ drop (length rs) out)"
    by simp
  moreover have "chained H (wc_chain_hash cp) (wc_next_sequence cp) epoch"
    using chained_drop [of H "hist @ epoch" "length hist"] rep by (simp add: log_rep_def cp)
  ultimately show ?thesis
    using len by (auto simp: verify_chain_from_iff)
qed

theorem epoch_snapshot_complete_witness:
  "log_snapshot_since (log_checkpoint demo_log) [witness_zeroed, witness_zeroed, witness_zeroed]
     (append_all compute_chain_hash_fnv [witness_zeroed, witness_zeroed] demo_log) =
   (Inr \<lparr>sn_count = 2, sn_end_checkpoint = log_checkpoint
       (append_all compute_chain_hash_fnv [witness_zeroed, witness_zeroed] demo_log)\<rparr>,
    [stamp compute_chain_hash_fnv 1 witness_zeroed, stamp compute_chain_hash_fnv 2 witness_zeroed,
     witness_zeroed])"
  using epoch_snapshot_complete [OF demo_log_rep, of "[witness_zeroed, witness_zeroed]"
      "[witness_zeroed, witness_zeroed, witness_zeroed]"] demo_log_size
  by (simp add: upt_rec) (simp add: numeral_2_eq_2)

text \<open>
  A checkpoint-relative snapshot is all or nothing, on every branch: a checkpoint ahead of
  the log, a checkpoint whose records the ring has overwritten and a buffer that is too small are
  refused with the corresponding error and the buffer untouched; otherwise exactly the records
  since the checkpoint are copied.  The internal mismatch error never occurs on a log built by
  appends.
\<close>

theorem snapshot_since_cases:
  assumes "log_rep H l hist" "n < 2 ^ 64" "wc_next_sequence cp = of_nat n"
  shows "log_snapshot_since cp out l =
     (if n > length hist then (Inl FutureCheckpoint, out)
      else if n + length (wl_records l) < length hist then (Inl RecordsOverwritten, out)
      else if length out < length hist - n then (Inl (OutputTooSmall (length hist - n)), out)
      else (Inr \<lparr>sn_count = length hist - n, sn_end_checkpoint = log_checkpoint l\<rparr>,
            drop n hist @ drop (length hist - n) out))"
proof -
  let ?k = "length hist" and ?N = "length (wl_records l)"
  have L: "?N < 2 ^ 64" "?k < 2 ^ 64" "wl_sequence l = of_nat ?k"
    using assms(1) by (simp_all add: log_rep_def)
  have u: "unat (of_nat ?k :: u64) = ?k" "unat (of_nat n :: u64) = n" "unat (of_nat ?N :: u64) = ?N"
    using L assms(2) by (simp_all add: unat_of_nat)
  have future: "(of_nat ?k :: u64) < of_nat n \<longleftrightarrow> ?k < n" using u by (simp add: word_less_nat_alt)
  have gone: "of_nat n < saturating_sub (of_nat ?k :: u64) (of_nat ?N) \<longleftrightarrow> n + ?N < ?k"
    using u by (auto simp: word_less_nat_alt saturating_sub_unat)
  have req: "n \<le> ?k \<Longrightarrow> unat (of_nat ?k - of_nat n :: u64) = ?k - n"
    using u by (simp add: unat_sub word_le_nat_alt)
  show ?thesis
  proof (cases "n \<le> ?k \<and> \<not> n + ?N < ?k \<and> ?k - n \<le> length out")
    case True
    then show ?thesis
      using snapshot_since_exact [OF assms(1) _ _ assms(3), of out] by auto
  next
    case False
    then show ?thesis
      using future gone req by (auto simp: log_snapshot_since_def Let_def L(3) assms(3) not_less)
  qed
qed

theorem snapshot_since_cases_witness:
  "log_snapshot_since (trusted_resume 5 0) [] demo_log = (Inl FutureCheckpoint, [])"
  using snapshot_since_cases [OF demo_log_rep, of 5 "trusted_resume 5 0" "[]"]
  by (simp add: trusted_resume_def)

text \<open>
  C10.  Chain verification accepts exactly the non-empty slices in which every record carries the
  next sequence number, the folded chain hash before it and the folded chain hash after it, both
  computed from the given starting hash and sequence: a record that is dropped, repeated or moved
  is detected.
\<close>

theorem verify_chain_from_decides:
  "verify_chain_from H rs h s = Inr n \<longleftrightarrow>
     rs \<noteq> [] \<and> n = length rs \<and>
     (\<forall>i<length rs. wr_sequence (rs ! i) = s + of_nat i \<and>
        wr_prev_hash (rs ! i) = fold_u64_to_u32 (chain_at H h s i) \<and>
        wr_record_hash (rs ! i) = fold_u64_to_u32 (chain_at H h s (Suc i)))"
  by (auto simp: verify_chain_from_iff chained_def)

theorem verify_chain_from_decides_witness:
  "verify_chain_from (\<lambda>_ _. 0) [witness_zeroed, witness_zeroed\<lparr>wr_sequence := 1\<rparr>] 0 0 = Inr 2 \<and>
   verify_chain_from (\<lambda>_ _. 0) [witness_zeroed, witness_zeroed] 0 0 \<noteq> Inr 2"
proof -
  have "chain_at (\<lambda>_ _. 0) 0 0 i = 0" for i by (cases i) simp_all
  then show ?thesis
    using verify_chain_from_decides [of "\<lambda>_ _. 0" "[witness_zeroed, witness_zeroed\<lparr>wr_sequence := 1\<rparr>]" 0 0 2]
      verify_chain_from_decides [of "\<lambda>_ _. 0" "[witness_zeroed, witness_zeroed]" 0 0 2]
    by (simp add: fold_u64_to_u32_def All_less_Suc numeral_2_eq_2) (simp add: witness_zeroed_def)
qed

text \<open>
  The chain does not protect the content of a record.  The link and record hashes are
  computed from sequence numbers alone, so replacing the timestamp, action, actor, target,
  capability hash, payload, flags or signature of any record leaves the verdict of the
  verification unchanged, whatever the hash function.
\<close>

theorem verify_chain_ignores_content:
  "verify_chain_from H
     (map (\<lambda>r. (f r)\<lparr>wr_sequence := wr_sequence r, wr_prev_hash := wr_prev_hash r,
                  wr_record_hash := wr_record_hash r\<rparr>) rs) h s =
   verify_chain_from H rs h s"
proof -
  have "verify_loop H (map (\<lambda>r. (f r)\<lparr>wr_sequence := wr_sequence r, wr_prev_hash := wr_prev_hash r,
        wr_record_hash := wr_record_hash r\<rparr>) rs) h s = verify_loop H rs h s" for h s
    by (induction rs arbitrary: h s) (simp_all add: Let_def)
  then show ?thesis by (simp add: verify_chain_from_def cong: sum.case_cong)
qed

text \<open>
  Signing and verifying agree: the record that \<open>signed_append\<close> stores, with the FNV signer or
  with the HMAC signer (for any MAC of at least eight bytes and any key), is accepted by the
  signer's own verification: storing the signature does not change the bytes that are signed.
\<close>

theorem signed_append_verifies:
  assumes "record_shape r" "wl_write_pos l < length (wl_records l)"
    and "\<And>k m. 8 \<le> length (hmac k m)"
    and "signer = strict_signer \<or> signer = hmac_signer hmac key"
  shows "ws_verify signer (wl_records (snd (log_signed_append H signer r l)) ! wl_write_pos l)"
proof -
  define r' where "r' = r\<lparr>wr_sequence := wl_sequence l, wr_prev_hash := fold_u64_to_u32 (wl_chain_hash l),
    wr_record_hash := fold_u64_to_u32 (H (wl_chain_hash l) (wl_sequence l))\<rparr>"
  have stored: "wl_records (snd (log_signed_append H signer r l)) ! wl_write_pos l =
      r'\<lparr>wr_aux := ws_sign signer r'\<rparr>"
    using assms(2) by (simp add: log_signed_append_def Let_def r'_def)
  have shape: "record_shape r'" using assms(1) by (simp add: record_shape_def r'_def)
  have len: "length (strict_signature q) = 8" "length (hmac_signature hmac key q) = 8" for q
    using assms(3) by (simp_all add: strict_signature_def hmac_signature_def)
  have "record_shape (r'\<lparr>wr_aux := a\<rparr>)" if "length a = 8" for a
    using shape that by (simp add: record_shape_def)
  note bytes = record_to_bytes_take(2) [OF shape] record_to_bytes_take(2) [OF this]
  have "strict_signature (r'\<lparr>wr_aux := strict_signature r'\<rparr>) = strict_signature r'"
    unfolding strict_signature_def [of "r'\<lparr>wr_aux := strict_signature r'\<rparr>"]
    by (simp add: bytes len) (simp add: strict_signature_def bytes)
  moreover have "hmac_signature hmac key (r'\<lparr>wr_aux := hmac_signature hmac key r'\<rparr>) =
      hmac_signature hmac key r'"
    unfolding hmac_signature_def [of hmac key "r'\<lparr>wr_aux := hmac_signature hmac key r'\<rparr>"]
    by (simp add: bytes len) (simp add: hmac_signature_def bytes)
  ultimately show ?thesis
    using assms(4) len by (auto simp: stored strict_signer_def hmac_signer_def bytes_differ_0)
qed

theorem signed_append_verifies_witness:
  "ws_verify strict_signer
     (wl_records (snd (log_signed_append compute_chain_hash_fnv strict_signer witness_zeroed (log_new 1))) ! 0)"
  using signed_append_verifies [of witness_zeroed "log_new 1" "\<lambda>k m. replicate 8 0" strict_signer "[]"
      compute_chain_hash_fnv]
  by (simp add: record_shape_def witness_zeroed_def log_new_def)

text \<open>
  The bytes that are signed determine the record: two records with the same signed bytes
  agree in every field but the reserved byte, the signature and the padding.
\<close>

theorem signed_bytes_determine_record:
  assumes "record_shape r" "record_shape r'"
    and "take 52 (record_to_bytes r) = take 52 (record_to_bytes r')"
  shows "r' = r\<lparr>wr_reserved := wr_reserved r', wr_aux := wr_aux r', wr_pad := wr_pad r'\<rparr>"
proof -
  have "signed_content r = signed_content r'"
    using assms record_to_bytes_take(2) by simp
  then show ?thesis
    using assms(1,2) by (simp add: signed_content_def record_shape_def)
qed

theorem signed_bytes_determine_record_witness:
  "witness_zeroed\<lparr>wr_reserved := 1\<rparr> = witness_zeroed\<lparr>wr_reserved := 1, wr_aux := wr_aux witness_zeroed,
     wr_pad := wr_pad witness_zeroed\<rparr>"
  using signed_bytes_determine_record [of witness_zeroed "witness_zeroed\<lparr>wr_reserved := 1\<rparr>"]
  by (simp add: record_shape_def record_to_bytes_def witness_zeroed_def)

text \<open>
  The two implementations of the 64-bit FNV-1a hash in the workspace agree: the unrolled one
  of \<open>rvm-types\<close>, which takes eight bytes per step and then the remainder, and the byte
  loop of the signer.
\<close>

theorem fnv_implementations_agree: "fnv1a_64 data = signer_fnv1a_64 data"
  by (simp add: fnv1a_64_foldl signer_fnv1a_64_def fnv_step_def [abs_def])

text \<open>
  A plain snapshot copies the most recent records, oldest first, as many as fit the buffer
  and are still in the ring, and leaves the rest of the buffer alone.
\<close>

theorem snapshot_most_recent:
  assumes "log_rep H l hist"
  shows "log_snapshot buf l =
     (let k = min (length buf) (min (length hist) (length (wl_records l)))
      in (k, drop (length hist - k) hist @ drop k buf))"
  using log_snapshot_recent [OF assms] by (simp add: Let_def)

theorem snapshot_most_recent_witness:
  "log_snapshot [witness_zeroed, witness_zeroed] demo_log =
     (1, [stamp compute_chain_hash_fnv 0 witness_zeroed, witness_zeroed])"
  using snapshot_most_recent [OF demo_log_rep, of "[witness_zeroed, witness_zeroed]"] demo_log_size
  by simp

end
