(* ===== verification/Part_Manager.thy ===== *)
theory Part_Manager
  imports Slot_Table
begin

text \<open>
  Crate \<open>rvm-partition\<close>, files \<open>partition.rs\<close>, \<open>lifecycle.rs\<close>, \<open>manager.rs\<close>,
  \<open>cap_table.rs\<close>, \<open>merge.rs\<close> and \<open>split.rs\<close>: partitions, their lifecycle, the manager with
  its direct lookup index, the per-partition token table and the split and merge decisions.
  \<open>pm_inv\<close> is the manager's invariant; under it the index is exact, so the fast lookup and the
  linear scan agree.
\<close>

section \<open>Partitions and their lifecycle\<close>

definition MAX_PARTITIONS :: nat where "MAX_PARTITIONS = 256"

datatype partition_state = Created | Running | Suspended | Destroyed | Hibernated
datatype partition_type = Agent | Infrastructure | Root

record partition_rec =
  pt_id :: partition_id
  pt_state :: partition_state
  pt_type :: partition_type
  pt_coherence :: coherence_score
  pt_cut_pressure :: cut_pressure
  pt_vcpu_count :: u16
  pt_cpu_affinity :: u64
  pt_epoch :: u32

definition partition_new :: "partition_id \<Rightarrow> partition_type \<Rightarrow> u16 \<Rightarrow> u32 \<Rightarrow> partition_rec" where
  "partition_new pid ty vcpu_count epoch =
     \<lparr>pt_id = pid, pt_state = Created, pt_type = ty, pt_coherence = from_basis_points 5000,
      pt_cut_pressure = 0, pt_vcpu_count = vcpu_count, pt_cpu_affinity = U64_MAX, pt_epoch = epoch\<rparr>"

fun valid_transition :: "partition_state \<Rightarrow> partition_state \<Rightarrow> bool" where
  "valid_transition Created Running = True"
| "valid_transition Suspended Running = True"
| "valid_transition Running Suspended = True"
| "valid_transition Created Destroyed = True"
| "valid_transition Running Destroyed = True"
| "valid_transition Suspended Destroyed = True"
| "valid_transition Hibernated Destroyed = True"
| "valid_transition Running Hibernated = True"
| "valid_transition Suspended Hibernated = True"
| "valid_transition Hibernated Created = True"
| "valid_transition _ _ = False"

section \<open>Split and merge decisions\<close>

datatype merge_precondition_error =
  InsufficientCoherence | NotAdjacent | MergeResourceLimitExceeded

definition merge_preconditions_met ::
    "coherence_score \<Rightarrow> coherence_score \<Rightarrow> merge_precondition_error + unit" where
  "merge_preconditions_met a b =
     (let threshold = DEFAULT_MERGE_THRESHOLD in
      if \<not> meets_threshold a threshold \<or> \<not> meets_threshold b threshold
      then Inl InsufficientCoherence else Inr ())"

definition merge_preconditions_full ::
    "coherence_score \<Rightarrow> coherence_score \<Rightarrow> bool \<Rightarrow> nat \<Rightarrow> nat
       \<Rightarrow> merge_precondition_error + unit" where
  "merge_preconditions_full a b are_adjacent combined_cap_count max_caps_per_partition =
     (case merge_preconditions_met a b of
        Inl e \<Rightarrow> Inl e
      | Inr _ \<Rightarrow>
          if \<not> are_adjacent then Inl NotAdjacent
          else if combined_cap_count > max_caps_per_partition then Inl MergeResourceLimitExceeded
          else Inr ())"

definition scored_region_assignment ::
    "coherence_score \<Rightarrow> coherence_score \<Rightarrow> coherence_score \<Rightarrow> u16" where
  "scored_region_assignment region left right =
     (let left_diff = (if region \<ge> left then region - left else left - region);
          right_diff = (if region \<ge> right then region - right else right - region)
      in if left_diff \<le> right_diff then 7500 else 2500)"

section \<open>The per-partition token table\<close>

definition MAX_CAPS_PER_PARTITION :: nat where "MAX_CAPS_PER_PARTITION = 256"

record part_cap_table =
  pct_entries :: "cap_token option list"
  pct_count :: nat

definition pct_new :: part_cap_table where
  "pct_new = \<lparr>pct_entries = replicate MAX_CAPS_PER_PARTITION None, pct_count = 0\<rparr>"

definition pct_insert :: "cap_token \<Rightarrow> part_cap_table \<Rightarrow> (rvm_error, nat, part_cap_table) outcome" where
  "pct_insert token t =
     (case position (\<lambda>s. s = None) (pct_entries t) of
        Some i \<Rightarrow> (Inr i, t\<lparr>pct_entries := (pct_entries t)[i := Some token],
                            pct_count := pct_count t + 1\<rparr>)
      | None \<Rightarrow> (Inl ResourceLimitExceeded, t))"

definition pct_get :: "nat \<Rightarrow> part_cap_table \<Rightarrow> cap_token option" where
  "pct_get i t = (if i < length (pct_entries t) then pct_entries t ! i else None)"

definition pct_remove :: "nat \<Rightarrow> part_cap_table \<Rightarrow> (rvm_error, cap_token, part_cap_table) outcome" where
  "pct_remove i t =
     (case (if i < length (pct_entries t) then pct_entries t ! i else None) of
        Some token \<Rightarrow> (Inr token, t\<lparr>pct_entries := (pct_entries t)[i := None],
                                    pct_count := pct_count t - 1\<rparr>)
      | None \<Rightarrow> (Inl InsufficientCapability, t))"

section \<open>The partition manager\<close>

definition ID_INDEX_SIZE :: nat where "ID_INDEX_SIZE = 4096"

record partition_manager =
  pm_partitions :: "partition_rec option list"
  pm_id_to_slot :: "u8 option list"
  pm_count :: nat
  pm_next_id :: u32

definition pm_new :: partition_manager where
  "pm_new =
     \<lparr>pm_partitions = replicate MAX_PARTITIONS None, pm_id_to_slot = replicate ID_INDEX_SIZE None,
      pm_count = 0, pm_next_id = 1\<rparr>"

text \<open>\<open>u8::try_from(i).unwrap_or(u8::MAX)\<close>\<close>

definition slot_byte :: "nat \<Rightarrow> u8" where
  "slot_byte i = (if i < 256 then of_nat i else U8_MAX)"

definition pm_create ::
    "partition_type \<Rightarrow> u16 \<Rightarrow> u32 \<Rightarrow> partition_manager
       \<Rightarrow> (rvm_error, partition_id, partition_manager) outcome" where
  "pm_create ty vcpu_count epoch m =
     (if pm_count m \<ge> MAX_PARTITIONS then (Inl PartitionLimitExceeded, m)
      else
        let pid = pm_next_id m;
            p = partition_new pid ty vcpu_count epoch
        in case position (\<lambda>s. s = None) (pm_partitions m) of
             Some i \<Rightarrow>
               (Inr pid,
                m\<lparr>pm_partitions := (pm_partitions m)[i := Some p],
                  pm_count := pm_count m + 1,
                  pm_next_id := pm_next_id m + 1,
                  pm_id_to_slot :=
                    (if unat pid < ID_INDEX_SIZE
                     then (pm_id_to_slot m)[unat pid := Some (slot_byte i)]
                     else pm_id_to_slot m)\<rparr>)
           | None \<Rightarrow> (Inl InternalError, m))"

definition pm_get :: "partition_id \<Rightarrow> partition_manager \<Rightarrow> partition_rec option" where
  "pm_get pid m =
     (let fast =
            (if unat pid < ID_INDEX_SIZE
             then (case pm_id_to_slot m ! unat pid of
                     Some s \<Rightarrow>
                       (case pm_partitions m ! unat s of
                          Some p \<Rightarrow> if pt_id p = pid then Some p else None
                        | None \<Rightarrow> None)
                   | None \<Rightarrow> None)
             else None)
      in case fast of
           Some p \<Rightarrow> Some p
         | None \<Rightarrow> find_some (\<lambda>p. pt_id p = pid) (pm_partitions m))"

text \<open>
  \<open>get_mut\<close> followed by a write through the returned reference: the slot that it returns and the
  update of that slot.
\<close>

definition pm_slot :: "partition_id \<Rightarrow> partition_manager \<Rightarrow> nat option" where
  "pm_slot pid m =
     (let fast =
            (if unat pid < ID_INDEX_SIZE
             then (case pm_id_to_slot m ! unat pid of
                     Some s \<Rightarrow>
                       (case pm_partitions m ! unat s of
                          Some p \<Rightarrow> if pt_id p = pid then Some (unat s) else None
                        | None \<Rightarrow> None)
                   | None \<Rightarrow> None)
             else None)
      in case fast of
           Some i \<Rightarrow> Some i
         | None \<Rightarrow> position (\<lambda>s. case s of None \<Rightarrow> False | Some p \<Rightarrow> pt_id p = pid) (pm_partitions m))"

definition pm_get_mut ::
    "partition_id \<Rightarrow> (partition_rec \<Rightarrow> partition_rec) \<Rightarrow> partition_manager \<Rightarrow> partition_manager option" where
  "pm_get_mut pid f m =
     map_option (\<lambda>i. m\<lparr>pm_partitions := (pm_partitions m)[i := map_option f (pm_partitions m ! i)]\<rparr>)
       (pm_slot pid m)"

definition pm_active_ids :: "partition_manager \<Rightarrow> partition_id list" where
  "pm_active_ids m = map pt_id (List.map_filter (\<lambda>s. s) (pm_partitions m))"

definition pm_remove ::
    "partition_id \<Rightarrow> partition_manager \<Rightarrow> (rvm_error, unit, partition_manager) outcome" where
  "pm_remove pid m =
     (case position (\<lambda>s. case s of None \<Rightarrow> False | Some p \<Rightarrow> pt_id p = pid) (pm_partitions m) of
        Some i \<Rightarrow>
          (Inr (),
           m\<lparr>pm_partitions := (pm_partitions m)[i := None],
             pm_count := pm_count m - 1,
             pm_id_to_slot :=
               (if unat pid < ID_INDEX_SIZE then (pm_id_to_slot m)[unat pid := None]
                else pm_id_to_slot m)\<rparr>)
      | None \<Rightarrow> (Inl PartitionNotFound, m))"

section \<open>Invariant\<close>

text \<open>
  Identifiers are distinct, below the next one and never the hypervisor's; the count is exact; an
  entry of the index names the slot of the partition with that identifier.
\<close>

definition pm_inv :: "partition_manager \<Rightarrow> bool" where
  "pm_inv m \<longleftrightarrow>
     length (pm_partitions m) = MAX_PARTITIONS \<and> length (pm_id_to_slot m) = ID_INDEX_SIZE \<and>
     pm_count m = occupied (pm_partitions m) \<and> pm_next_id m \<noteq> 0 \<and>
     keyed pt_id (pm_partitions m) \<and>
     (\<forall>s\<in>set (pm_partitions m). case s of None \<Rightarrow> True
        | Some p \<Rightarrow> pt_id p \<noteq> HYPERVISOR \<and> pt_id p < pm_next_id m) \<and>
     (\<forall>v\<in>{0..<ID_INDEX_SIZE}. case pm_id_to_slot m ! v of None \<Rightarrow> True
        | Some s \<Rightarrow> (case pm_partitions m ! unat s of None \<Rightarrow> False | Some p \<Rightarrow> unat (pt_id p) = v))"

abbreviation pm_room :: "partition_manager \<Rightarrow> bool" where
  "pm_room m \<equiv> pm_next_id m \<noteq> U32_MAX"

lemma pm_new_inv: "pm_inv pm_new"
  by (simp add: pm_inv_def pm_new_def)

lemma pm_inv_iff:
  "pm_inv m \<longleftrightarrow>
     length (pm_partitions m) = MAX_PARTITIONS \<and> length (pm_id_to_slot m) = ID_INDEX_SIZE \<and>
     pm_count m = occupied (pm_partitions m) \<and> pm_next_id m \<noteq> 0 \<and>
     keyed pt_id (pm_partitions m) \<and>
     (\<forall>p. Some p \<in> set (pm_partitions m) \<longrightarrow> pt_id p \<noteq> HYPERVISOR \<and> pt_id p < pm_next_id m) \<and>
     (\<forall>v s. v < ID_INDEX_SIZE \<longrightarrow> pm_id_to_slot m ! v = Some s \<longrightarrow>
        (\<exists>p. pm_partitions m ! unat s = Some p \<and> unat (pt_id p) = v))"
  unfolding pm_inv_def ball_slots case_slot by (simp add: Ball_def)

lemma pm_invD:
  assumes "pm_inv m"
  shows "length (pm_partitions m) = MAX_PARTITIONS" "length (pm_id_to_slot m) = ID_INDEX_SIZE"
    "pm_count m = occupied (pm_partitions m)" "keyed pt_id (pm_partitions m)" "pm_next_id m \<noteq> 0"
    "\<And>p. Some p \<in> set (pm_partitions m) \<Longrightarrow> pt_id p \<noteq> HYPERVISOR \<and> pt_id p < pm_next_id m"
    "\<And>v s. v < ID_INDEX_SIZE \<Longrightarrow> pm_id_to_slot m ! v = Some s \<Longrightarrow>
       \<exists>p. pm_partitions m ! unat s = Some p \<and> unat (pt_id p) = v"
  using assms unfolding pm_inv_iff by blast+

lemma slot_byte_unat: "i < MAX_PARTITIONS \<Longrightarrow> unat (slot_byte i) = i"
  by (simp add: slot_byte_def MAX_PARTITIONS_def unat_of_nat)

lemma unat_u8_slot: "unat (s :: u8) < MAX_PARTITIONS"
  using unsigned_less [of s, where ?'a = nat] by (simp add: MAX_PARTITIONS_def)

text \<open>Under the invariant the indexed lookup is the linear scan.\<close>

lemma pm_slot_scan:
  assumes "pm_inv m"
  shows "pm_slot pid m = key_index pt_id pid (pm_partitions m)"
proof -
  note inv = pm_invD [OF assms]
  have "key_index pt_id pid (pm_partitions m) = Some (unat s)"
    if "pm_partitions m ! unat s = Some p" "pt_id p = pid" for s :: u8 and p
    unfolding key_index_def
  proof (rule position_unique)
    show "unat s < length (pm_partitions m)" using inv(1) unat_u8_slot by simp
    show "case pm_partitions m ! unat s of None \<Rightarrow> False | Some p \<Rightarrow> pt_id p = pid" using that by simp
    fix j assume "j < length (pm_partitions m)"
      and "case pm_partitions m ! j of None \<Rightarrow> False | Some p \<Rightarrow> pt_id p = pid"
    then show "j = unat s"
      using that keyedD [OF inv(4), of j "unat s" _ p] inv(1) unat_u8_slot [of s]
      by (cases "pm_partitions m ! j") simp_all
  qed
  note fast = this
  show ?thesis
  proof (cases "pm_id_to_slot m ! unat pid")
    case None
    then show ?thesis by (simp add: pm_slot_def key_index_def Let_def)
  next
    case (Some s)
    show ?thesis
    proof (cases "pm_partitions m ! unat s")
      case None
      with Some show ?thesis by (simp add: pm_slot_def key_index_def Let_def)
    next
      case (Some p)
      with \<open>pm_id_to_slot m ! unat pid = Some s\<close> fast [OF Some] show ?thesis
        by (simp add: pm_slot_def Let_def key_index_def [symmetric])
    qed
  qed
qed

lemma pm_get_scan:
  assumes "pm_inv m"
  shows "pm_get pid m = lookup_key pt_id pid (pm_partitions m)"
proof -
  note inv = pm_invD [OF assms]
  have "lookup_key pt_id pid (pm_partitions m) = Some p"
    if "pm_partitions m ! unat s = Some p" "pt_id p = pid" for s :: u8 and p
    using that lookup_key_Some [OF inv(4), of pid p] inv(1) unat_u8_slot [of s] nth_mem by metis
  note fast = this
  show ?thesis
  proof (cases "pm_id_to_slot m ! unat pid")
    case None
    then show ?thesis by (simp add: pm_get_def lookup_key_def Let_def)
  next
    case (Some s)
    show ?thesis
    proof (cases "pm_partitions m ! unat s")
      case None
      with Some show ?thesis by (simp add: pm_get_def lookup_key_def Let_def)
    next
      case (Some p)
      with \<open>pm_id_to_slot m ! unat pid = Some s\<close> fast [OF Some] show ?thesis
        by (simp add: pm_get_def Let_def lookup_key_def [symmetric])
    qed
  qed
qed

lemma pm_fresh_id:
  assumes "pm_inv m"
  shows "lookup_key pt_id (pm_next_id m) (pm_partitions m) = None"
  using pm_invD(6) [OF assms] unfolding lookup_key_None by (metis order_less_irrefl)

lemma partition_new_id [simp]: "pt_id (partition_new pid ty n e) = pid"
  by (simp add: partition_new_def)

lemma pm_create_Inr:
  assumes "pm_inv m" "pm_create ty n e m = (Inr pid, m')"
  obtains i where "pid = pm_next_id m" "i < MAX_PARTITIONS" "pm_partitions m ! i = None"
    "m' = m\<lparr>pm_partitions := (pm_partitions m)[i := Some (partition_new pid ty n e)],
            pm_count := pm_count m + 1, pm_next_id := pm_next_id m + 1,
            pm_id_to_slot := (if unat pid < ID_INDEX_SIZE
               then (pm_id_to_slot m)[unat pid := Some (slot_byte i)] else pm_id_to_slot m)\<rparr>"
  using assms pm_invD(1) [OF assms(1)]
  by (auto simp: pm_create_def Let_def split: if_splits option.splits dest!: position_Some)

lemma pm_create_Inl:
  assumes "pm_inv m" "pm_create ty n e m = (Inl err, m')"
  shows "err = PartitionLimitExceeded \<and> m' = m \<and> occupied (pm_partitions m) = MAX_PARTITIONS"
proof -
  note inv = pm_invD [OF assms(1)]
  have "occupied (pm_partitions m) \<le> MAX_PARTITIONS" using count_if_le inv(1) by metis
  moreover have "occupied (pm_partitions m) < MAX_PARTITIONS \<Longrightarrow> \<exists>i. position (\<lambda>s. s = None) (pm_partitions m) = Some i"
    using occupied_less_free inv(1) by metis
  ultimately show ?thesis
    using assms(2) inv(3)
    by (cases "occupied (pm_partitions m) < MAX_PARTITIONS")
       (auto simp: pm_create_def Let_def split: if_splits option.splits)
qed

lemma pm_create_inv:
  assumes "pm_inv m" "pm_room m" "pm_create ty n e m = (r, m')"
  shows "pm_inv m'"
proof (cases r)
  case (Inl err)
  then show ?thesis using pm_create_Inl [OF assms(1)] assms(1,3) by metis
next
  case (Inr pid)
  note inv = pm_invD [OF assms(1)]
  obtain i where i: "pid = pm_next_id m" "i < MAX_PARTITIONS" "pm_partitions m ! i = None"
    and m': "m' = m\<lparr>pm_partitions := (pm_partitions m)[i := Some (partition_new pid ty n e)],
            pm_count := pm_count m + 1, pm_next_id := pm_next_id m + 1,
            pm_id_to_slot := (if unat pid < ID_INDEX_SIZE
               then (pm_id_to_slot m)[unat pid := Some (slot_byte i)] else pm_id_to_slot m)\<rparr>"
    by (rule pm_create_Inr [OF assms(1), of ty n e pid m']) (use assms(3) Inr in auto)
  let ?ps = "(pm_partitions m)[i := Some (partition_new pid ty n e)]"
  have K: "keyed pt_id ?ps"
    using lookup_key_insert(1) [OF inv(4), of i "partition_new pid ty n e"] i inv(1) pm_fresh_id [OF assms(1)]
    by simp
  have ids: "pt_id p \<noteq> HYPERVISOR \<and> pt_id p < pm_next_id m + 1" if "Some p \<in> set ?ps" for p
  proof (cases "Some p \<in> set (pm_partitions m)")
    case True
    then show ?thesis using inv(6) word_inc_less(1) [OF assms(2), of "pt_id p"] by force
  next
    case False
    with that have "p = partition_new pid ty n e"
      by (auto dest!: set_update_subset_insert [THEN subsetD])
    then show ?thesis using i(1) inv(5) word_inc_less(1) [OF assms(2)] by (simp add: HYPERVISOR_def)
  qed
  have idx: "\<exists>p. ?ps ! unat s = Some p \<and> unat (pt_id p) = v"
    if "v < ID_INDEX_SIZE" "pm_id_to_slot m' ! v = Some s" for v s
  proof (cases "v = unat pid")
    case True
    with that m' i inv(1,2) show ?thesis by (auto simp: slot_byte_unat)
  next
    case False
    with that m' have "pm_id_to_slot m ! v = Some s" by (simp split: if_splits)
    with inv(7) [OF that(1)] i(3) show ?thesis by (cases "unat s = i") auto
  qed
  then have "\<forall>v s. v < ID_INDEX_SIZE \<longrightarrow> pm_id_to_slot m' ! v = Some s \<longrightarrow>
      (\<exists>p. ?ps ! unat s = Some p \<and> unat (pt_id p) = v)" by blast
  moreover have "pm_next_id m + 1 \<noteq> 0" using word_inc_less(2) [OF assms(2)] by simp
  moreover have "occupied ?ps = pm_count m + 1" using occupied_insert [of i "pm_partitions m"] i inv(1,3) by simp
  ultimately show ?thesis
    using inv(1,2) K ids unfolding pm_inv_iff m' by simp
qed

lemma pm_remove_Inr:
  assumes "pm_remove pid m = (Inr (), m')"
  obtains i p where "i < length (pm_partitions m)" "pm_partitions m ! i = Some p" "pt_id p = pid"
    "m' = m\<lparr>pm_partitions := (pm_partitions m)[i := None], pm_count := pm_count m - 1,
            pm_id_to_slot := (if unat pid < ID_INDEX_SIZE then (pm_id_to_slot m)[unat pid := None]
                              else pm_id_to_slot m)\<rparr>"
  using assms by (auto simp: pm_remove_def split: option.splits dest!: position_Some)

lemma pm_remove_inv:
  assumes "pm_inv m" "pm_remove pid m = (r, m')"
  shows "pm_inv m'"
proof (cases r)
  case (Inl err)
  then show ?thesis using assms by (auto simp: pm_remove_def split: option.splits)
next
  case (Inr u)
  note inv = pm_invD [OF assms(1)]
  obtain i p where i: "i < length (pm_partitions m)" "pm_partitions m ! i = Some p" "pt_id p = pid"
    and m': "m' = m\<lparr>pm_partitions := (pm_partitions m)[i := None], pm_count := pm_count m - 1,
            pm_id_to_slot := (if unat pid < ID_INDEX_SIZE then (pm_id_to_slot m)[unat pid := None]
                              else pm_id_to_slot m)\<rparr>"
    by (rule pm_remove_Inr [of pid m m']) (use assms(2) Inr in auto)
  have idx: "\<exists>q. (pm_partitions m)[i := None] ! unat s = Some q \<and> unat (pt_id q) = v"
    if "v < ID_INDEX_SIZE" "pm_id_to_slot m' ! v = Some s" for v s
  proof -
    have v: "v \<noteq> unat pid" using that m' inv(2) by auto
    then have "pm_id_to_slot m ! v = Some s" using that m' by (simp split: if_splits)
    with inv(7) [OF that(1)] obtain q where q: "pm_partitions m ! unat s = Some q" "unat (pt_id q) = v"
      by blast
    with i v have "unat s \<noteq> i" by auto
    with q show ?thesis by simp
  qed
  have "Some q \<in> set ((pm_partitions m)[i := None]) \<Longrightarrow> Some q \<in> set (pm_partitions m)" for q
    by (auto dest!: set_update_subset_insert [THEN subsetD])
  moreover have "pm_count m - 1 = occupied ((pm_partitions m)[i := None])"
    using occupied_delete [of i "pm_partitions m" p] i inv(3) by simp
  moreover have "\<forall>v s. v < ID_INDEX_SIZE \<longrightarrow> pm_id_to_slot m' ! v = Some s \<longrightarrow>
      (\<exists>q. (pm_partitions m)[i := None] ! unat s = Some q \<and> unat (pt_id q) = v)" using idx by blast
  ultimately show ?thesis
    using inv(1,2,5,6) keyed_update_None [OF inv(4), of i] unfolding pm_inv_iff m' by simp
qed

lemma pm_get_mut_inv:
  assumes "pm_inv m" "\<And>p. pt_id (f p) = pt_id p" "pm_get_mut pid f m = Some m'"
  shows "pm_inv m'"
proof -
  note inv = pm_invD [OF assms(1)]
  obtain i where i: "key_index pt_id pid (pm_partitions m) = Some i"
    and m': "m' = m\<lparr>pm_partitions := (pm_partitions m)[i := map_option f (pm_partitions m ! i)]\<rparr>"
    using assms(3) by (auto simp: pm_get_mut_def pm_slot_scan [OF assms(1)])
  from key_index_Some [OF i] obtain p where p: "i < length (pm_partitions m)"
    "pm_partitions m ! i = Some p" by blast
  have K: "keyed pt_id ((pm_partitions m)[i := Some (f p)])"
    using lookup_key_replace(1) [OF inv(4) p] assms(2) by blast
  have ids: "pt_id q \<noteq> HYPERVISOR \<and> pt_id q < pm_next_id m"
    if "Some q \<in> set ((pm_partitions m)[i := Some (f p)])" for q
    using that inv(6) p assms(2) nth_mem [OF p(1)]
    by (auto dest!: set_update_subset_insert [THEN subsetD])
  have idx: "\<exists>q. (pm_partitions m)[i := Some (f p)] ! unat s = Some q \<and> unat (pt_id q) = v"
    if "v < ID_INDEX_SIZE" "pm_id_to_slot m ! v = Some s" for v s
    using inv(7) [OF that] p assms(2) by (cases "unat s = i") auto
  then have "\<forall>v s. v < ID_INDEX_SIZE \<longrightarrow> pm_id_to_slot m ! v = Some s \<longrightarrow>
      (\<exists>q. (pm_partitions m)[i := Some (f p)] ! unat s = Some q \<and> unat (pt_id q) = v)" by blast
  then show ?thesis
    using inv(1,2,3,5) p K ids occupied_replace [OF p, of "f p"] unfolding pm_inv_iff m' by simp
qed

section \<open>The manager is a handle table\<close>

definition pm_lookup :: "partition_id \<Rightarrow> partition_manager \<Rightarrow> rvm_error + partition_rec" where
  "pm_lookup pid m = (case pm_get pid m of Some p \<Rightarrow> Inr p | None \<Rightarrow> Inl PartitionNotFound)"

definition pm_insert ::
    "partition_type \<times> u16 \<times> u32 \<Rightarrow> partition_manager
       \<Rightarrow> (rvm_error, partition_id, partition_manager) outcome" where
  "pm_insert a m = (case a of (ty, n, e) \<Rightarrow> pm_create ty n e m)"

lemma pm_lookup_Inr: "pm_lookup pid m = Inr p \<longleftrightarrow> pm_get pid m = Some p"
  by (simp add: pm_lookup_def split: option.splits)

lemma pm_lookup_Inl: "(\<exists>e. pm_lookup pid m = Inl e) \<longleftrightarrow> pm_get pid m = None"
  by (simp add: pm_lookup_def split: option.splits)

lemma pm_create_get:
  assumes "pm_inv m" "pm_room m" "pm_create ty n e m = (Inr pid, m')"
  shows "pid = pm_next_id m" "pm_get pid m = None"
    "pm_get q m' = (if q = pid then Some (partition_new pid ty n e) else pm_get q m)"
proof -
  note inv = pm_invD [OF assms(1)] and inv' = pm_create_inv [OF assms]
  obtain i where i: "pid = pm_next_id m" "i < MAX_PARTITIONS" "pm_partitions m ! i = None"
    and m': "pm_partitions m' = (pm_partitions m)[i := Some (partition_new pid ty n e)]"
    by (rule pm_create_Inr [OF assms(1,3)]) auto
  show "pid = pm_next_id m" by (rule i(1))
  show "pm_get pid m = None" using pm_get_scan [OF assms(1)] pm_fresh_id [OF assms(1)] i(1) by simp
  show "pm_get q m' = (if q = pid then Some (partition_new pid ty n e) else pm_get q m)"
    using lookup_key_insert(2) [OF inv(4), of i "partition_new pid ty n e" q] i inv(1)
      pm_fresh_id [OF assms(1)]
    by (simp add: pm_get_scan [OF inv'] pm_get_scan [OF assms(1)] m')
qed

lemma pm_remove_get:
  assumes "pm_inv m" "pm_remove pid m = (Inr (), m')"
  shows "pm_get q m' = (if q = pid then None else pm_get q m)" "pm_next_id m' = pm_next_id m"
proof -
  note inv = pm_invD [OF assms(1)] and inv' = pm_remove_inv [OF assms]
  obtain i p where i: "i < length (pm_partitions m)" "pm_partitions m ! i = Some p" "pt_id p = pid"
    and m': "pm_partitions m' = (pm_partitions m)[i := None]" "pm_next_id m' = pm_next_id m"
    by (rule pm_remove_Inr [OF assms(2)]) auto
  show "pm_get q m' = (if q = pid then None else pm_get q m)"
    using lookup_key_delete [OF inv(4) i(1,2), of q] i(3)
    by (simp add: pm_get_scan [OF inv'] pm_get_scan [OF assms(1)] m')
  show "pm_next_id m' = pm_next_id m" by (rule m'(2))
qed

lemma pm_remove_found:
  assumes "pm_inv m" "pm_get pid m = Some p"
  shows "\<exists>m'. pm_remove pid m = (Inr (), m')"
proof -
  have "key_index pt_id pid (pm_partitions m) \<noteq> None"
    using assms by (simp add: key_index_None pm_get_scan)
  then show ?thesis by (auto simp: pm_remove_def key_index_def)
qed

lemma pm_get_below_next: "pm_inv m \<Longrightarrow> pm_get pid m = Some p \<Longrightarrow> pid < pm_next_id m"
  using lookup_key_Some [OF pm_invD(4), of m pid p] pm_invD(6) [of m p] by (auto simp: pm_get_scan)

interpretation pmt: handle_table pm_lookup pm_insert pm_remove pm_inv "\<lambda>m. pm_room m"
proof (unfold_locales, goal_cases)
  case (1 t a r t')
  then show ?case by (auto simp: pm_insert_def intro: pm_create_inv split: prod.splits)
next
  case (2 t a e t')
  then show ?case by (auto simp: pm_insert_def dest: pm_create_Inl split: prod.splits)
next
  case (3 t a h t')
  then show ?case by (auto simp: pm_insert_def pm_lookup_Inl dest: pm_create_get(2) split: prod.splits)
next
  case (4 t a h t')
  then show ?case
    by (auto simp: pm_insert_def pm_lookup_Inr pm_create_get(3) split: prod.splits)
next
  case (5 t a h t' h' v)
  then show ?case
    by (auto simp: pm_insert_def pm_lookup_Inr pm_create_get(3) split: prod.splits)
next
  case (6 t h u t')
  then show ?case using pm_remove_inv by blast
next
  case (7 t h v)
  then show ?case by (simp add: pm_lookup_Inr pm_remove_found)
next
  case (8 t h t')
  then show ?case by (simp add: pm_lookup_Inl pm_remove_get(1))
next
  case (9 t h t' h' v)
  then show ?case by (simp add: pm_lookup_Inr pm_remove_get(1))
next
  case (10 t h t1 a h' t2)
  obtain ty n e where a: "a = (ty, n, e)" by (cases a)
  have "pm_get h t \<noteq> None"
    using 10(2) by (auto simp: pm_remove_def pm_get_scan [OF 10(1)] key_index_None [symmetric] key_index_def
        split: option.splits)
  then have "h < pm_next_id t" using pm_get_below_next [OF 10(1)] by auto
  moreover have "h' = pm_next_id t"
    using pm_create_get(1) [of t1 ty n e h' t2] 10 pm_remove_inv [OF 10(1,2)] pm_remove_get(2) [OF 10(1,2)]
    by (simp add: a pm_insert_def)
  ultimately show ?case by auto
qed

section \<open>Properties\<close>

lemma position_replicate: "position P (replicate (Suc n) x) = (if P x then Some 0 else None)"
  by (simp add: position_None)

lemma pm_new_create:
  "pm_create Agent 1 0 pm_new =
     (Inr 1, pm_new\<lparr>pm_partitions := (replicate MAX_PARTITIONS None)[0 := Some (partition_new 1 Agent 1 0)],
       pm_count := 1, pm_next_id := 2, pm_id_to_slot := (replicate ID_INDEX_SIZE None)[1 := Some 0]\<rparr>)"
proof -
  have max: "MAX_PARTITIONS = Suc 255" by (simp add: MAX_PARTITIONS_def)
  have "position (\<lambda>s. s = None) (replicate MAX_PARTITIONS (None :: partition_rec option)) = Some 0"
    unfolding max by (subst position_replicate) simp
  then show ?thesis
    by (simp add: pm_create_def pm_new_def slot_byte_def) (simp add: MAX_PARTITIONS_def ID_INDEX_SIZE_def)
qed

text \<open>
  The direct index is exact: on every consistent manager the indexed lookup returns what the
  linear scan over all slots would return, and so does the mutable lookup.
\<close>

theorem partition_index_exact:
  assumes "pm_inv m"
  shows "pm_get pid m = find_some (\<lambda>p. pt_id p = pid) (pm_partitions m) \<and>
         pm_slot pid m =
           position (\<lambda>s. case s of None \<Rightarrow> False | Some p \<Rightarrow> pt_id p = pid) (pm_partitions m)"
  using pm_get_scan [OF assms] pm_slot_scan [OF assms] by (simp add: lookup_key_def key_index_def)

theorem partition_index_exact_witness:
  "find_some (\<lambda>p. pt_id p = 1) (pm_partitions (snd (pm_create Agent 1 0 pm_new))) =
     Some (partition_new 1 Agent 1 0)"
  using partition_index_exact [OF pm_create_inv [OF pm_new_inv _ pm_new_create], of 1]
    pm_create_get(3) [OF pm_new_inv _ pm_new_create, of 1] pm_new_create
  by (simp add: pm_new_def)

text \<open>
  Creating a partition on a consistent manager, while the 32-bit counter has not run out:
  either all 256 slots are taken, the call fails with \<open>PartitionLimitExceeded\<close> and nothing
  changes; or it returns an identifier that is not the hypervisor's and not in use, under which
  exactly the new partition, in state \<open>Created\<close>, is then found, and every other lookup
  and the invariant are kept.
\<close>

theorem partition_create_outcome:
  assumes "pm_inv m" "pm_next_id m \<noteq> U32_MAX" "pm_create ty n e m = (r, m')"
  shows "pm_inv m' \<and>
         (case r of
            Inl err \<Rightarrow> err = PartitionLimitExceeded \<and> m' = m \<and>
              (\<forall>s\<in>set (pm_partitions m). s \<noteq> None)
          | Inr pid \<Rightarrow> pid \<noteq> HYPERVISOR \<and> pm_get pid m = None \<and>
              pm_get pid m' = Some (partition_new pid ty n e) \<and>
              (\<forall>q. q \<noteq> pid \<longrightarrow> pm_get q m' = pm_get q m))"
proof (cases r)
  case (Inl err)
  with assms have "err = PartitionLimitExceeded" "m' = m" "occupied (pm_partitions m) = MAX_PARTITIONS"
    using pm_create_Inl by blast+
  moreover have "\<forall>s\<in>set (pm_partitions m). s \<noteq> None"
    using calculation(3) count_if_full [of "\<lambda>s. s \<noteq> None" "pm_partitions m"] pm_invD(1) [OF assms(1)]
    by simp
  ultimately show ?thesis using Inl assms(1) by simp
next
  case (Inr pid)
  with assms have run: "pm_create ty n e m = (Inr pid, m')" by simp
  note G = pm_create_get [OF assms(1,2) run]
  show ?thesis
    using Inr G pm_create_inv [OF assms] pm_invD(5) [OF assms(1)] by (simp add: HYPERVISOR_def)
qed

theorem partition_create_outcome_witness:
  "\<exists>m'. pm_create Agent 1 0 pm_new = (Inr 1, m') \<and>
     pm_get 1 m' = Some (partition_new 1 Agent 1 0) \<and> pm_get 2 m' = pm_get 2 pm_new"
  using partition_create_outcome [OF pm_new_inv _ pm_new_create] pm_new_create
  by (simp add: pm_new_def)

text \<open>
  An identifier is never handed out again: after a partition is removed, its identifier is
  unknown, and it is still unknown after the next creation.
\<close>

theorem removed_partition_id_dead:
  assumes "pm_inv m" "pm_remove pid m = (Inr (), m1)" "pm_next_id m1 \<noteq> U32_MAX"
    and "pm_create ty n e m1 = (r, m2)"
  shows "pm_get pid m1 = None \<and> pm_get pid m2 = None"
  using pmt.remove_lookup [OF assms(1,2)]
    pmt.released_handle_stays_dead [OF assms(1,2,3), of "(ty, n, e)" r m2] assms(4)
  by (simp add: pm_insert_def pm_lookup_Inl)

theorem removed_partition_id_dead_witness:
  "\<exists>m1. pm_remove 1 (snd (pm_create Agent 1 0 pm_new)) = (Inr (), m1) \<and>
     pm_get 1 (snd (pm_create Root 2 5 m1)) = None"
proof -
  let ?m = "snd (pm_create Agent 1 0 pm_new)"
  have m: "pm_inv ?m" "pm_get 1 ?m = Some (partition_new 1 Agent 1 0)"
    using pm_create_inv [OF pm_new_inv _ pm_new_create] pm_create_get(3) [OF pm_new_inv _ pm_new_create, of 1]
      pm_new_create by (simp_all add: pm_new_def)
  obtain m1 where r: "pm_remove 1 ?m = (Inr (), m1)" using pm_remove_found [OF m] by blast
  have "pm_next_id m1 \<noteq> U32_MAX"
    using pm_remove_get(2) [OF m(1) r] by (simp add: pm_new_create)
  from removed_partition_id_dead [OF m(1) r this surjective_pairing] r show ?thesis by blast
qed

text \<open>
  The lifecycle: \<open>Destroyed\<close> is final, and it is the only dead end: from every other state
  every state can still be reached by valid transitions.
\<close>

theorem lifecycle_reachability:
  "valid_transition\<^sup>*\<^sup>* a b \<longleftrightarrow> a = b \<or> a \<noteq> Destroyed"
proof
  assume "valid_transition\<^sup>*\<^sup>* a b"
  then show "a = b \<or> a \<noteq> Destroyed"
    by (cases rule: converse_rtranclpE) auto
next
  have step: "valid_transition Created Running" "valid_transition Running Suspended"
    "valid_transition Suspended Hibernated" "valid_transition Hibernated Created"
    "valid_transition Created Destroyed" by simp_all
  have cycle: "valid_transition\<^sup>*\<^sup>* s Created" if "s \<noteq> Destroyed" for s
    using that step by (cases s) (meson rtranclp.rtrancl_refl converse_rtranclp_into_rtranclp)+
  have all: "valid_transition\<^sup>*\<^sup>* Created s" for s
    using step by (cases s) (meson rtranclp.rtrancl_refl converse_rtranclp_into_rtranclp)+
  assume "a = b \<or> a \<noteq> Destroyed"
  then show "valid_transition\<^sup>*\<^sup>* a b" using cycle all by (metis rtranclp.rtrancl_refl rtranclp_trans)
qed

theorem lifecycle_reachability_witness:
  "valid_transition\<^sup>*\<^sup>* Hibernated Suspended \<and> \<not> valid_transition\<^sup>*\<^sup>* Destroyed Running"
  using lifecycle_reachability [of Hibernated Suspended] lifecycle_reachability [of Destroyed Running] by simp

end
