(* ===== verification/Ipc.thy ===== *)
theory Ipc
  imports Slot_Table
begin

text \<open>
  Crate \<open>rvm-partition\<close>, files \<open>ipc.rs\<close> and \<open>comm_edge.rs\<close>: the ring-buffer message queue of
  an edge and the manager of all channels.  The locale \<open>fifo_queue\<close> is what the manager relies
  on; it is interpreted on the ring buffer (\<open>mq\<close>).  The const generics \<open>CAPACITY\<close> and
  \<open>MAX_EDGES\<close> are the lengths of the arrays; \<open>QUEUE_SIZE\<close> is the field
  \<open>ipc_queue_size\<close>, which no operation changes.
\<close>

unbundle bit_operations_syntax

section \<open>Messages and edges\<close>

record ipc_message =
  msg_sender :: partition_id
  msg_receiver :: partition_id
  msg_edge_id :: comm_edge_id
  msg_payload_len :: u16
  msg_type :: u16
  msg_sequence :: u64
  msg_capability_hash :: u32

record comm_edge =
  ce_id :: comm_edge_id
  ce_source :: partition_id
  ce_dest :: partition_id
  ce_weight :: u64
  ce_last_epoch :: u32

section \<open>The message queue\<close>

record message_queue =
  mq_buffer :: "ipc_message option list"
  mq_head :: nat
  mq_tail :: nat
  mq_count :: nat

definition mq_new :: "nat \<Rightarrow> message_queue" where
  "mq_new capacity = \<lparr>mq_buffer = replicate capacity None, mq_head = 0, mq_tail = 0, mq_count = 0\<rparr>"

definition mq_send :: "ipc_message \<Rightarrow> message_queue \<Rightarrow> (rvm_error, unit, message_queue) outcome" where
  "mq_send msg q =
     (if mq_count q \<ge> length (mq_buffer q) then (Inl ResourceLimitExceeded, q)
      else (Inr (),
            q\<lparr>mq_buffer := (mq_buffer q)[mq_tail q := Some msg],
              mq_tail := (mq_tail q + 1) AND (length (mq_buffer q) - 1),
              mq_count := mq_count q + 1\<rparr>))"

definition mq_receive :: "message_queue \<Rightarrow> ipc_message option \<times> message_queue" where
  "mq_receive q =
     (if mq_count q = 0 then (None, q)
      else (mq_buffer q ! mq_head q,
            q\<lparr>mq_buffer := (mq_buffer q)[mq_head q := None],
              mq_head := (mq_head q + 1) AND (length (mq_buffer q) - 1),
              mq_count := mq_count q - 1\<rparr>))"

definition mq_is_full :: "message_queue \<Rightarrow> bool" where
  "mq_is_full q \<longleftrightarrow> mq_count q \<ge> length (mq_buffer q)"

definition mq_is_empty :: "message_queue \<Rightarrow> bool" where
  "mq_is_empty q \<longleftrightarrow> mq_count q = 0"

section \<open>The IPC manager\<close>

record channel_meta =
  ch_edge_id :: comm_edge_id
  ch_source :: partition_id
  ch_dest :: partition_id
  ch_queue :: message_queue
  ch_weight :: u64

record ipc_manager =
  ipc_queues :: "channel_meta option list"
  ipc_edge_index :: "nat option list"
  ipc_edge_count :: nat
  ipc_next_edge_id :: u64
  ipc_queue_size :: nat

definition ipc_new :: "nat \<Rightarrow> nat \<Rightarrow> ipc_manager" where
  "ipc_new max_edges queue_size =
     \<lparr>ipc_queues = replicate max_edges None, ipc_edge_index = replicate max_edges None,
      ipc_edge_count = 0, ipc_next_edge_id = 1, ipc_queue_size = queue_size\<rparr>"

definition edge_hash_slot :: "comm_edge_id \<Rightarrow> ipc_manager \<Rightarrow> nat" where
  "edge_hash_slot edge_id m = unat (edge_id mod of_nat (length (ipc_queues m)))"

definition ipc_create_channel ::
    "partition_id \<Rightarrow> partition_id \<Rightarrow> ipc_manager \<Rightarrow> (rvm_error, comm_edge_id, ipc_manager) outcome" where
  "ipc_create_channel from to m =
     (if ipc_edge_count m \<ge> length (ipc_queues m) then (Inl ResourceLimitExceeded, m)
      else
        let edge_id = ipc_next_edge_id m;
            m1 = m\<lparr>ipc_next_edge_id := ipc_next_edge_id m + 1\<rparr>
        in case position (\<lambda>s. s = None) (ipc_queues m1) of
             Some i \<Rightarrow>
               (Inr edge_id,
                m1\<lparr>ipc_queues := (ipc_queues m1)[i := Some
                      \<lparr>ch_edge_id = edge_id, ch_source = from, ch_dest = to,
                       ch_queue = mq_new (ipc_queue_size m1), ch_weight = 0\<rparr>],
                   ipc_edge_count := ipc_edge_count m1 + 1,
                   ipc_edge_index := (ipc_edge_index m1)[edge_hash_slot edge_id m1 := Some i]\<rparr>)
           | None \<Rightarrow> (Inl InternalError, m1))"

definition ipc_find :: "comm_edge_id \<Rightarrow> ipc_manager \<Rightarrow> rvm_error + channel_meta" where
  "ipc_find edge_id m =
     (let fast =
            (case ipc_edge_index m ! edge_hash_slot edge_id m of
               Some idx \<Rightarrow>
                 (case ipc_queues m ! idx of
                    Some ch \<Rightarrow> if ch_edge_id ch = edge_id then Some ch else None
                  | None \<Rightarrow> None)
             | None \<Rightarrow> None)
      in case fast of
           Some ch \<Rightarrow> Inr ch
         | None \<Rightarrow>
             (case find_some (\<lambda>ch. ch_edge_id ch = edge_id) (ipc_queues m) of
                Some ch \<Rightarrow> Inr ch
              | None \<Rightarrow> Inl PartitionNotFound))"

text \<open>\<open>find_mut\<close>: the slot of the channel that the returned reference points to.\<close>

definition ipc_find_slot :: "comm_edge_id \<Rightarrow> ipc_manager \<Rightarrow> rvm_error + nat" where
  "ipc_find_slot edge_id m =
     (let fast =
            (case ipc_edge_index m ! edge_hash_slot edge_id m of
               Some idx \<Rightarrow>
                 (case ipc_queues m ! idx of
                    Some ch \<Rightarrow> if ch_edge_id ch = edge_id then Some idx else None
                  | None \<Rightarrow> None)
             | None \<Rightarrow> None)
      in case fast of
           Some i \<Rightarrow> Inr i
         | None \<Rightarrow>
             (case position (\<lambda>s. case s of None \<Rightarrow> False | Some ch \<Rightarrow> ch_edge_id ch = edge_id)
                     (ipc_queues m) of
                Some i \<Rightarrow> Inr i
              | None \<Rightarrow> Inl PartitionNotFound))"

definition ipc_put :: "nat \<Rightarrow> channel_meta \<Rightarrow> ipc_manager \<Rightarrow> ipc_manager" where
  "ipc_put i ch m = m\<lparr>ipc_queues := (ipc_queues m)[i := Some ch]\<rparr>"

text \<open>The last three lines of both sends: enqueue, then count the message in the weight.\<close>

definition ipc_enqueue ::
    "nat \<Rightarrow> ipc_message \<Rightarrow> ipc_manager \<Rightarrow> (rvm_error, unit, ipc_manager) outcome" where
  "ipc_enqueue i msg m =
     (let ch = the (ipc_queues m ! i) in
      case mq_send msg (ch_queue ch) of
        (Inl e, q) \<Rightarrow> (Inl e, ipc_put i (ch\<lparr>ch_queue := q\<rparr>) m)
      | (Inr _, q) \<Rightarrow>
          (Inr (), ipc_put i (ch\<lparr>ch_queue := q, ch_weight := saturating_add (ch_weight ch) 1\<rparr>) m))"

definition ipc_send ::
    "comm_edge_id \<Rightarrow> ipc_message \<Rightarrow> partition_id \<Rightarrow> ipc_manager \<Rightarrow> (rvm_error, unit, ipc_manager) outcome" where
  "ipc_send edge_id msg caller_id m =
     (if msg_sender msg \<noteq> caller_id then (Inl InsufficientCapability, m)
      else case ipc_find_slot edge_id m of
        Inl e \<Rightarrow> (Inl e, m)
      | Inr i \<Rightarrow>
          if ch_source (the (ipc_queues m ! i)) \<noteq> caller_id then (Inl InsufficientCapability, m)
          else ipc_enqueue i msg m)"

definition ipc_send_unchecked ::
    "comm_edge_id \<Rightarrow> ipc_message \<Rightarrow> ipc_manager \<Rightarrow> (rvm_error, unit, ipc_manager) outcome" where
  "ipc_send_unchecked edge_id msg m =
     (case ipc_find_slot edge_id m of
        Inl e \<Rightarrow> (Inl e, m)
      | Inr i \<Rightarrow> ipc_enqueue i msg m)"

definition ipc_receive ::
    "comm_edge_id \<Rightarrow> ipc_manager \<Rightarrow> (rvm_error, ipc_message option, ipc_manager) outcome" where
  "ipc_receive edge_id m =
     (case ipc_find_slot edge_id m of
        Inl e \<Rightarrow> (Inl e, m)
      | Inr i \<Rightarrow>
          let ch = the (ipc_queues m ! i); (msg, q) = mq_receive (ch_queue ch)
          in (Inr msg, ipc_put i (ch\<lparr>ch_queue := q\<rparr>) m))"

definition ipc_destroy_channel ::
    "comm_edge_id \<Rightarrow> ipc_manager \<Rightarrow> (rvm_error, unit, ipc_manager) outcome" where
  "ipc_destroy_channel edge_id m =
     (case position (\<lambda>s. case s of None \<Rightarrow> False | Some ch \<Rightarrow> ch_edge_id ch = edge_id)
             (ipc_queues m) of
        Some i \<Rightarrow>
          let h = edge_hash_slot edge_id m in
          (Inr (),
           m\<lparr>ipc_queues := (ipc_queues m)[i := None],
             ipc_edge_count := ipc_edge_count m - 1,
             ipc_edge_index := (if ipc_edge_index m ! h = Some i then (ipc_edge_index m)[h := None]
                                else ipc_edge_index m)\<rparr>)
      | None \<Rightarrow> (Inl PartitionNotFound, m))"

definition ipc_comm_weight :: "comm_edge_id \<Rightarrow> ipc_manager \<Rightarrow> rvm_error + u64" where
  "ipc_comm_weight edge_id m = map_sum (\<lambda>e. e) ch_weight (ipc_find edge_id m)"

section \<open>Ring buffers hold lists\<close>

definition mq_contents :: "message_queue \<Rightarrow> ipc_message list" where
  "mq_contents q =
     map (\<lambda>i. the (mq_buffer q ! ((mq_head q + i) mod length (mq_buffer q)))) [0..<mq_count q]"

definition mq_inv :: "message_queue \<Rightarrow> bool" where
  "mq_inv q \<longleftrightarrow>
     (\<exists>k\<in>{0..length (mq_buffer q)}. length (mq_buffer q) = 2 ^ k) \<and>
     mq_head q < length (mq_buffer q) \<and> mq_count q \<le> length (mq_buffer q) \<and>
     mq_tail q = (mq_head q + mq_count q) mod length (mq_buffer q) \<and>
     (\<forall>i\<in>{0..<length (mq_buffer q)}.
        (mq_buffer q ! ((mq_head q + i) mod length (mq_buffer q)) \<noteq> None) = (i < mq_count q))"

lemma and_capacity:
  assumes "(n :: nat) = 2 ^ k"
  shows "x AND (n - 1) = x mod n"
  using assms take_bit_eq_mask [of k x] by (simp add: take_bit_eq_mod mask_eq_exp_minus_1)

lemma mq_and_mod:
  assumes "mq_inv q"
  shows "x AND (length (mq_buffer q) - 1) = x mod length (mq_buffer q)"
  using assms and_capacity unfolding mq_inv_def by blast

lemma mod_offset_inject:
  assumes "i < n" "j < n" "(h + i) mod n = (h + j) mod (n :: nat)"
  shows "i = j"
proof -
  have "i \<le> j \<Longrightarrow> i = j" if "i < n" "j < n" "(h + i) mod n = (h + j) mod n" for i j
  proof -
    assume "i \<le> j"
    then have "n dvd j - i" using that(3) mod_eq_dvd_iff_nat [of "h + i" "h + j" n] by simp
    with that \<open>i \<le> j\<close> show "i = j" by (auto dest: dvd_imp_le)
  qed
  with assms show ?thesis by (metis nat_le_linear)
qed

lemma mq_send_full:
  "mq_count q \<ge> length (mq_buffer q) \<Longrightarrow> mq_send msg q = (Inl ResourceLimitExceeded, q)"
  by (simp add: mq_send_def)

lemma mq_send_ok:
  assumes inv: "mq_inv q" and room: "mq_count q < length (mq_buffer q)"
  obtains q' where "mq_send msg q = (Inr (), q')" "mq_inv q'" "mq_contents q' = mq_contents q @ [msg]"
    "length (mq_buffer q') = length (mq_buffer q)"
proof -
  let ?n = "length (mq_buffer q)" and ?h = "mq_head q" and ?c = "mq_count q"
  define q' where "q' = q\<lparr>mq_buffer := (mq_buffer q)[mq_tail q := Some msg],
    mq_tail := (mq_tail q + 1) mod ?n, mq_count := ?c + 1\<rparr>"
  have send: "mq_send msg q = (Inr (), q')"
    using room mq_and_mod [OF inv] by (simp add: mq_send_def q'_def)
  have t: "mq_tail q = (?h + ?c) mod ?n" "mq_tail q < ?n" "?h < ?n"
    and occ: "\<And>i. i < ?n \<Longrightarrow> (mq_buffer q ! ((?h + i) mod ?n) \<noteq> None) = (i < ?c)"
    using inv room by (auto simp: mq_inv_def)
  have buf: "mq_buffer q' ! ((?h + i) mod ?n) = (if i = ?c then Some msg else mq_buffer q ! ((?h + i) mod ?n))"
    if "i < ?n" for i
    using that t room mod_offset_inject [of i ?n ?c ?h] by (auto simp: q'_def nth_list_update)
  have "(mq_buffer q' ! ((?h + i) mod ?n) \<noteq> None) = (i < ?c + 1)" if "i < ?n" for i
    using buf [OF that] occ [OF that] by auto
  then have "mq_inv q'"
    using inv room t by (simp add: mq_inv_def q'_def mod_Suc_eq)
  moreover have "mq_contents q' = mq_contents q @ [msg]"
  proof -
    have "mq_contents q' =
        map (\<lambda>i. the (mq_buffer q' ! ((?h + i) mod ?n))) [0..<?c] @ [the (mq_buffer q' ! ((?h + ?c) mod ?n))]"
      by (simp add: mq_contents_def q'_def)
    also have "\<dots> = mq_contents q @ [msg]"
      using buf room by (simp add: mq_contents_def)
    finally show ?thesis .
  qed
  ultimately show ?thesis using that send by (simp add: q'_def)
qed

lemma mq_receive_ok:
  assumes inv: "mq_inv q" and ne: "0 < mq_count q"
  obtains q' where "mq_receive q = (Some (hd (mq_contents q)), q')" "mq_inv q'"
    "mq_contents q' = tl (mq_contents q)" "length (mq_buffer q') = length (mq_buffer q)"
proof -
  let ?n = "length (mq_buffer q)" and ?h = "mq_head q" and ?c = "mq_count q"
  define q' where "q' = q\<lparr>mq_buffer := (mq_buffer q)[?h := None],
    mq_head := (?h + 1) mod ?n, mq_count := ?c - 1\<rparr>"
  have h: "?h < ?n" "?c \<le> ?n" "mq_tail q = (?h + ?c) mod ?n"
    and occ: "\<And>i. i < ?n \<Longrightarrow> (mq_buffer q ! ((?h + i) mod ?n) \<noteq> None) = (i < ?c)"
    using inv by (auto simp: mq_inv_def)
  have first: "mq_buffer q ! ?h \<noteq> None" using occ [of 0] h ne by force
  have upt: "[0..<?c] = 0 # map Suc [0..<?c - 1]" using ne by (simp add: upt_conv_Cons map_Suc_upt)
  have recv: "mq_receive q = (Some (hd (mq_contents q)), q')"
    using ne first mq_and_mod [OF inv] h by (simp add: mq_receive_def q'_def mq_contents_def upt)
  have step: "((?h + 1) mod ?n + i) mod ?n = (?h + Suc i) mod ?n" for i
    by (simp add: mod_add_left_eq)
  have buf: "mq_buffer q' ! ((?h + Suc i) mod ?n) =
      (if Suc i = ?n then None else mq_buffer q ! ((?h + Suc i) mod ?n))" if "i < ?n" for i
  proof (cases "Suc i = ?n")
    case True
    then show ?thesis using h by (simp add: q'_def)
  next
    case False
    then have "(?h + Suc i) mod ?n \<noteq> (?h + 0) mod ?n"
      using mod_offset_inject [of "Suc i" ?n 0 ?h] that h(1) by force
    with False h show ?thesis by (simp add: q'_def)
  qed
  have "(mq_buffer q' ! (((?h + 1) mod ?n + i) mod ?n) \<noteq> None) = (i < ?c - 1)" if "i < ?n" for i
    unfolding step using buf [OF that] occ [of "Suc i"] that h by auto
  note occ' = this
  have f: "length (mq_buffer q') = ?n" "mq_head q' = (?h + 1) mod ?n" "mq_count q' = ?c - 1"
    "mq_tail q' = mq_tail q" by (simp_all add: q'_def)
  have "mq_tail q' = (mq_head q' + mq_count q') mod ?n"
    unfolding f h(3) step using ne by simp
  moreover have "\<exists>k\<in>{0..?n}. ?n = 2 ^ k" using inv by (simp add: mq_inv_def)
  moreover have "mq_head q' < ?n" unfolding f by (rule mod_less_divisor) (use h(1) in linarith)
  moreover have "mq_count q' \<le> ?n" using h(2) by (simp add: f)
  ultimately have "mq_inv q'"
    unfolding mq_inv_def f(1) using occ' by (simp add: f(2,3))
  moreover have "mq_contents q' = tl (mq_contents q)"
  proof -
    have "mq_contents q' = map (\<lambda>i. the (mq_buffer q' ! ((?h + Suc i) mod ?n))) [0..<?c - 1]"
      unfolding mq_contents_def f step ..
    also have "\<dots> = map (\<lambda>i. the (mq_buffer q ! ((?h + Suc i) mod ?n))) [0..<?c - 1]"
      by (rule map_cong [OF refl]) (use buf h(2) in force)
    also have "\<dots> = tl (mq_contents q)" by (simp add: mq_contents_def upt comp_def)
    finally show ?thesis .
  qed
  ultimately show ?thesis using that recv f(1) by blast
qed

section \<open>The contract of a bounded FIFO queue\<close>

datatype 'm queue_op = QSend 'm | QReceive

locale fifo_queue =
  fixes send :: "'m \<Rightarrow> 'q \<Rightarrow> ('e + unit) \<times> 'q"
    and receive :: "'q \<Rightarrow> 'm option \<times> 'q"
    and contents :: "'q \<Rightarrow> 'm list"
    and capacity :: "'q \<Rightarrow> nat"
    and invar :: "'q \<Rightarrow> bool"
  assumes send_room: "invar q \<Longrightarrow> length (contents q) < capacity q \<Longrightarrow>
      \<exists>q'. send m q = (Inr (), q') \<and> invar q' \<and> contents q' = contents q @ [m] \<and> capacity q' = capacity q"
    and send_full: "invar q \<Longrightarrow> length (contents q) \<ge> capacity q \<Longrightarrow> \<exists>e. send m q = (Inl e, q)"
    and receive_empty: "invar q \<Longrightarrow> contents q = [] \<Longrightarrow> receive q = (None, q)"
    and receive_head: "invar q \<Longrightarrow> contents q = m # ms \<Longrightarrow>
      \<exists>q'. receive q = (Some m, q') \<and> invar q' \<and> contents q' = ms \<and> capacity q' = capacity q"
begin

text \<open>A run of operations: the messages accepted, the messages delivered, the final queue.\<close>

fun run :: "'m queue_op list \<Rightarrow> 'q \<Rightarrow> 'm list \<times> 'm list \<times> 'q" where
  "run [] q = ([], [], q)"
| "run (QSend m # ops) q =
     (let (r, q1) = send m q; (acc, del, q2) = run ops q1
      in ((case r of Inr _ \<Rightarrow> m # acc | Inl _ \<Rightarrow> acc), del, q2))"
| "run (QReceive # ops) q =
     (let (r, q1) = receive q; (acc, del, q2) = run ops q1
      in (acc, (case r of Some m \<Rightarrow> m # del | None \<Rightarrow> del), q2))"

text \<open>Whatever the interleaving, messages leave in the order they were accepted, none lost.\<close>

lemma run_fifo:
  assumes "invar q" "run ops q = (acc, del, q')"
  shows "invar q'" "contents q @ acc = del @ contents q'" "capacity q' = capacity q"
proof -
  have "invar q' \<and> contents q @ acc = del @ contents q' \<and> capacity q' = capacity q"
    using assms
  proof (induction ops q arbitrary: acc del q' rule: run.induct)
    case (1 q)
    then show ?case by simp
  next
    case (2 m ops q)
    obtain r q1 where s: "send m q = (r, q1)" by (cases "send m q")
    obtain acc1 del1 q2 where r: "run ops q1 = (acc1, del1, q2)" by (cases "run ops q1")
    have out: "acc = (case r of Inr _ \<Rightarrow> m # acc1 | Inl _ \<Rightarrow> acc1)" "del = del1" "q' = q2"
      using 2(3) s r by auto
    show ?case
    proof (cases "length (contents q) < capacity q")
      case True
      with send_room [OF 2(2), of m] s have q1: "r = Inr ()" "invar q1" "contents q1 = contents q @ [m]"
        "capacity q1 = capacity q" by auto
      with 2(1) [OF s [symmetric] refl] r out show ?thesis by auto
    next
      case False
      then obtain e where "send m q = (Inl e, q)" using send_full [OF 2(2), of m] by auto
      with s have "r = Inl e" "q1 = q" by auto
      with 2(1) [OF s [symmetric] refl] r out 2(2) show ?thesis by auto
    qed
  next
    case (3 ops q)
    obtain r q1 where s: "receive q = (r, q1)" by (cases "receive q")
    obtain acc1 del1 q2 where r: "run ops q1 = (acc1, del1, q2)" by (cases "run ops q1")
    have out: "acc = acc1" "del = (case r of Some m \<Rightarrow> m # del1 | None \<Rightarrow> del1)" "q' = q2"
      using 3(3) s r by auto
    show ?case
    proof (cases "contents q")
      case Nil
      with receive_empty [OF 3(2)] s have "r = None" "q1 = q" by auto
      with 3(1) [OF s [symmetric] refl] r out 3(2) show ?thesis by auto
    next
      case (Cons m ms)
      with receive_head [OF 3(2)] s have q1: "r = Some m" "invar q1" "contents q1 = ms"
        "capacity q1 = capacity q" by auto
      with 3(1) [OF s [symmetric] refl] r out Cons show ?thesis by auto
    qed
  qed
  then show "invar q'" "contents q @ acc = del @ contents q'" "capacity q' = capacity q" by auto
qed

end

lemma mq_contents_length [simp]: "length (mq_contents q) = mq_count q"
  by (simp add: mq_contents_def)

interpretation mq: fifo_queue mq_send mq_receive mq_contents "\<lambda>q. length (mq_buffer q)" mq_inv
proof (unfold_locales, goal_cases)
  case (1 q m)
  then have "mq_count q < length (mq_buffer q)" by simp
  from mq_send_ok [OF 1(1) this] show ?case by metis
next
  case (2 q m)
  then show ?case by (auto simp: mq_send_full)
next
  case (3 q)
  then have "mq_count q = 0" by (metis list.size(3) mq_contents_length)
  then show ?case by (simp add: mq_receive_def)
next
  case (4 q m ms)
  then have "0 < mq_count q" by (metis length_Cons mq_contents_length zero_less_Suc)
  from mq_receive_ok [OF 4(1) this] 4(2) show ?case by (metis list.sel(1,3))
qed

lemma mq_new_inv:
  assumes "n = 2 ^ k"
  shows "mq_inv (mq_new n)" "mq_contents (mq_new n) = []" "length (mq_buffer (mq_new n)) = n"
proof -
  have "k \<le> n" using assms by (simp add: less_imp_le)
  then show "mq_inv (mq_new n)"
    using assms by (auto simp: mq_inv_def mq_new_def)
  show "mq_contents (mq_new n) = []" "length (mq_buffer (mq_new n)) = n"
    by (simp_all add: mq_contents_def mq_new_def)
qed

section \<open>The invariant of the manager\<close>

definition channel_ok :: "ipc_manager \<Rightarrow> channel_meta \<Rightarrow> bool" where
  "channel_ok m ch \<longleftrightarrow>
     ch_edge_id ch < ipc_next_edge_id m \<and> mq_inv (ch_queue ch) \<and>
     length (mq_buffer (ch_queue ch)) = ipc_queue_size m"

definition ipc_inv :: "ipc_manager \<Rightarrow> bool" where
  "ipc_inv m \<longleftrightarrow>
     0 < length (ipc_queues m) \<and> length (ipc_queues m) < 2 ^ 64 \<and>
     length (ipc_edge_index m) = length (ipc_queues m) \<and>
     (\<exists>k\<in>{0..ipc_queue_size m}. ipc_queue_size m = 2 ^ k) \<and>
     ipc_edge_count m = occupied (ipc_queues m) \<and>
     keyed ch_edge_id (ipc_queues m) \<and>
     (\<forall>s\<in>set (ipc_queues m). case s of None \<Rightarrow> True | Some ch \<Rightarrow> channel_ok m ch) \<and>
     (\<forall>s\<in>set (ipc_edge_index m). case s of None \<Rightarrow> True | Some i \<Rightarrow> i < length (ipc_queues m))"

abbreviation ipc_room :: "ipc_manager \<Rightarrow> bool" where
  "ipc_room m \<equiv> ipc_next_edge_id m \<noteq> U64_MAX"

lemma ipc_inv_iff:
  "ipc_inv m \<longleftrightarrow>
     0 < length (ipc_queues m) \<and> length (ipc_queues m) < 2 ^ 64 \<and>
     length (ipc_edge_index m) = length (ipc_queues m) \<and>
     (\<exists>k\<in>{0..ipc_queue_size m}. ipc_queue_size m = 2 ^ k) \<and>
     ipc_edge_count m = occupied (ipc_queues m) \<and>
     keyed ch_edge_id (ipc_queues m) \<and>
     (\<forall>ch. Some ch \<in> set (ipc_queues m) \<longrightarrow> channel_ok m ch) \<and>
     (\<forall>i. Some i \<in> set (ipc_edge_index m) \<longrightarrow> i < length (ipc_queues m))"
  unfolding ipc_inv_def ball_slots ..

lemma ipc_invD:
  assumes "ipc_inv m"
  shows "0 < length (ipc_queues m)" "length (ipc_queues m) < 2 ^ 64"
    "length (ipc_edge_index m) = length (ipc_queues m)"
    "\<exists>k\<in>{0..ipc_queue_size m}. ipc_queue_size m = 2 ^ k"
    "ipc_edge_count m = occupied (ipc_queues m)" "keyed ch_edge_id (ipc_queues m)"
    "\<And>ch. Some ch \<in> set (ipc_queues m) \<Longrightarrow> channel_ok m ch"
    "\<And>i. Some i \<in> set (ipc_edge_index m) \<Longrightarrow> i < length (ipc_queues m)"
  using assms unfolding ipc_inv_iff by blast+

lemma edge_hash_slot_less:
  assumes "ipc_inv m"
  shows "edge_hash_slot e m < length (ipc_queues m)"
proof -
  note inv = ipc_invD [OF assms]
  have n: "unat (of_nat (length (ipc_queues m)) :: u64) = length (ipc_queues m)"
    using inv(2) by (simp add: unat_of_nat)
  then have "(of_nat (length (ipc_queues m)) :: u64) > 0" using inv(1) by (simp add: word_less_nat_alt)
  then have "e mod of_nat (length (ipc_queues m)) < of_nat (length (ipc_queues m))"
    by (rule word_mod_less_divisor)
  with n show ?thesis by (simp add: edge_hash_slot_def word_less_nat_alt)
qed

lemma ipc_index_slot:
  assumes "ipc_inv m" "ipc_edge_index m ! edge_hash_slot e m = Some i"
  shows "i < length (ipc_queues m)"
  using edge_hash_slot_less [OF assms(1), of e] ipc_invD(3,8) [OF assms(1)] assms(2) nth_mem by metis

text \<open>Under the invariant both lookups are the linear scan.\<close>

lemma ipc_find_slot_scan:
  assumes "ipc_inv m"
  shows "ipc_find_slot e m =
     (case key_index ch_edge_id e (ipc_queues m) of Some i \<Rightarrow> Inr i | None \<Rightarrow> Inl PartitionNotFound)"
proof -
  note K = ipc_invD(6) [OF assms]
  have fast: "key_index ch_edge_id e (ipc_queues m) = Some i"
    if "ipc_edge_index m ! edge_hash_slot e m = Some i" "ipc_queues m ! i = Some ch" "ch_edge_id ch = e" for i ch
    unfolding key_index_def
  proof (rule position_unique)
    show i: "i < length (ipc_queues m)" using ipc_index_slot [OF assms that(1)] .
    show "case ipc_queues m ! i of None \<Rightarrow> False | Some ch \<Rightarrow> ch_edge_id ch = e" using that by simp
    fix j assume "j < length (ipc_queues m)"
      and "case ipc_queues m ! j of None \<Rightarrow> False | Some ch \<Rightarrow> ch_edge_id ch = e"
    then show "j = i"
      using that keyedD [OF K, of j i _ ch] i by (cases "ipc_queues m ! j") simp_all
  qed
  show ?thesis
  proof (cases "ipc_edge_index m ! edge_hash_slot e m")
    case None
    then show ?thesis by (simp add: ipc_find_slot_def key_index_def Let_def)
  next
    case (Some i)
    show ?thesis
      by (cases "ipc_queues m ! i")
         (use fast [OF Some] Some in \<open>simp_all add: ipc_find_slot_def key_index_def [symmetric] Let_def\<close>)
  qed
qed

lemma ipc_find_scan:
  assumes "ipc_inv m"
  shows "ipc_find e m =
     (case lookup_key ch_edge_id e (ipc_queues m) of Some ch \<Rightarrow> Inr ch | None \<Rightarrow> Inl PartitionNotFound)"
proof -
  note K = ipc_invD(6) [OF assms]
  have fast: "lookup_key ch_edge_id e (ipc_queues m) = Some ch"
    if "ipc_edge_index m ! edge_hash_slot e m = Some i" "ipc_queues m ! i = Some ch" "ch_edge_id ch = e" for i ch
    using lookup_key_Some [OF K, of e ch] ipc_index_slot [OF assms that(1)] that(2,3) nth_mem by metis
  show ?thesis
  proof (cases "ipc_edge_index m ! edge_hash_slot e m")
    case None
    then show ?thesis by (simp add: ipc_find_def lookup_key_def Let_def)
  next
    case (Some i)
    show ?thesis
      by (cases "ipc_queues m ! i")
         (use fast [OF Some] Some in \<open>simp_all add: ipc_find_def lookup_key_def [symmetric] Let_def\<close>)
  qed
qed

lemma ipc_find_cases:
  assumes "ipc_inv m"
  obtains (found) i ch where "ipc_find_slot e m = Inr i" "ipc_find e m = Inr ch"
      "i < length (ipc_queues m)" "ipc_queues m ! i = Some ch" "ch_edge_id ch = e" "channel_ok m ch"
  | (absent) "ipc_find_slot e m = Inl PartitionNotFound" "ipc_find e m = Inl PartitionNotFound"
proof (cases "key_index ch_edge_id e (ipc_queues m)")
  case None
  moreover from None have "lookup_key ch_edge_id e (ipc_queues m) = None" by (simp add: key_index_None)
  ultimately show ?thesis
    using absent by (simp add: ipc_find_slot_scan [OF assms] ipc_find_scan [OF assms])
next
  case (Some i)
  from key_index_Some [OF Some] obtain ch where ch: "i < length (ipc_queues m)" "ipc_queues m ! i = Some ch"
    "ch_edge_id ch = e" "lookup_key ch_edge_id e (ipc_queues m) = Some ch" by blast
  then have "channel_ok m ch" using ipc_invD(7) [OF assms] nth_mem by metis
  with ch Some found show ?thesis by (simp add: ipc_find_slot_scan [OF assms] ipc_find_scan [OF assms])
qed

text \<open>Replacing a channel by one with the same identity.\<close>

lemma ipc_put_ok:
  assumes inv: "ipc_inv m" and i: "i < length (ipc_queues m)" "ipc_queues m ! i = Some ch"
    and ch': "ch_edge_id ch' = ch_edge_id ch" "channel_ok m ch'"
  shows "ipc_inv (ipc_put i ch' m)"
    "ipc_find e (ipc_put i ch' m) = (if e = ch_edge_id ch then Inr ch' else ipc_find e m)"
proof -
  note D = ipc_invD [OF inv]
  note L = lookup_key_replace [OF D(6) i ch'(1)]
  have "channel_ok (ipc_put i ch' m) c" if "Some c \<in> set ((ipc_queues m)[i := Some ch'])" for c
    using that D(7) ch'(2)
    by (auto simp: channel_ok_def ipc_put_def dest!: set_update_subset_insert [THEN subsetD])
  then show inv': "ipc_inv (ipc_put i ch' m)"
    using D L(1) occupied_replace [OF i] unfolding ipc_inv_iff by (auto simp: ipc_put_def)
  show "ipc_find e (ipc_put i ch' m) = (if e = ch_edge_id ch then Inr ch' else ipc_find e m)"
    unfolding ipc_find_scan [OF inv'] ipc_find_scan [OF inv]
    using L(2) [of e] ch'(1) by (simp add: ipc_put_def)
qed

lemma ipc_put_same: "i < length (ipc_queues m) \<Longrightarrow> ipc_queues m ! i = Some ch \<Longrightarrow> ipc_put i ch m = m"
  by (simp add: ipc_put_def list_update_same_conv)

text \<open>What the shared tail of both sends does on a found channel.\<close>

lemma ipc_enqueue_cases:
  assumes inv: "ipc_inv m" and i: "i < length (ipc_queues m)" "ipc_queues m ! i = Some ch"
  shows "mq_count (ch_queue ch) \<ge> ipc_queue_size m \<Longrightarrow>
           ipc_enqueue i msg m = (Inl ResourceLimitExceeded, m)"
    and "mq_count (ch_queue ch) < ipc_queue_size m \<Longrightarrow>
      \<exists>ch' m'. ipc_enqueue i msg m = (Inr (), m') \<and> ipc_inv m' \<and>
        mq_contents (ch_queue ch') = mq_contents (ch_queue ch) @ [msg] \<and>
        ch_weight ch' = saturating_add (ch_weight ch) 1 \<and>
        ch_source ch' = ch_source ch \<and> ch_dest ch' = ch_dest ch \<and>
        (\<forall>e. ipc_find e m' = (if e = ch_edge_id ch then Inr ch' else ipc_find e m))"
proof -
  have ok: "channel_ok m ch" using ipc_invD(7) [OF inv] i nth_mem by metis
  then have q: "mq_inv (ch_queue ch)" "length (mq_buffer (ch_queue ch)) = ipc_queue_size m"
    by (simp_all add: channel_ok_def)
  show "ipc_enqueue i msg m = (Inl ResourceLimitExceeded, m)" if "mq_count (ch_queue ch) \<ge> ipc_queue_size m"
    using that q i ipc_put_same [OF i] by (simp add: ipc_enqueue_def mq_send_full)
  show "\<exists>ch' m'. ipc_enqueue i msg m = (Inr (), m') \<and> ipc_inv m' \<and>
        mq_contents (ch_queue ch') = mq_contents (ch_queue ch) @ [msg] \<and>
        ch_weight ch' = saturating_add (ch_weight ch) 1 \<and>
        ch_source ch' = ch_source ch \<and> ch_dest ch' = ch_dest ch \<and>
        (\<forall>e. ipc_find e m' = (if e = ch_edge_id ch then Inr ch' else ipc_find e m))"
    if room: "mq_count (ch_queue ch) < ipc_queue_size m"
  proof -
    obtain q' where q': "mq_send msg (ch_queue ch) = (Inr (), q')" "mq_inv q'"
      "mq_contents q' = mq_contents (ch_queue ch) @ [msg]" "length (mq_buffer q') = ipc_queue_size m"
      using mq.send_room [OF q(1), of msg] room q(2) by auto
    let ?ch = "ch\<lparr>ch_queue := q', ch_weight := saturating_add (ch_weight ch) 1\<rparr>"
    have "channel_ok m ?ch" using ok q' by (simp add: channel_ok_def)
    note put = ipc_put_ok [OF inv i _ this]
    have "ipc_enqueue i msg m = (Inr (), ipc_put i ?ch m)"
      using q'(1) i by (simp add: ipc_enqueue_def)
    with put q'(3) show ?thesis by (intro exI [of _ ?ch] exI [of _ "ipc_put i ?ch m"]) simp
  qed
qed

section \<open>Creating and destroying channels\<close>

lemma ipc_new_inv:
  "0 < n \<Longrightarrow> n < 2 ^ 64 \<Longrightarrow> cap = 2 ^ k \<Longrightarrow> ipc_inv (ipc_new n cap)"
  by (auto simp: ipc_inv_def ipc_new_def less_imp_le intro!: bexI [of _ k])

lemma ipc_create_Inl:
  assumes "ipc_inv m" "ipc_create_channel from to m = (Inl e, m')"
  shows "e = ResourceLimitExceeded \<and> m' = m"
proof -
  have "occupied (ipc_queues m) < length (ipc_queues m) \<Longrightarrow>
      \<exists>i. position (\<lambda>s. s = None) (ipc_queues m) = Some i"
    using occupied_less_free by metis
  with assms(2) ipc_invD(5) [OF assms(1)] show ?thesis
    by (auto simp: ipc_create_channel_def Let_def not_le split: if_splits option.splits)
qed

lemma ipc_create_Inr:
  assumes inv: "ipc_inv m" and room: "ipc_room m" and run: "ipc_create_channel from to m = (Inr e, m')"
  shows "e = ipc_next_edge_id m" "ipc_inv m'" "ipc_next_edge_id m' = ipc_next_edge_id m + 1"
    "ipc_find e m = Inl PartitionNotFound"
    "ipc_find x m' = (if x = e then Inr \<lparr>ch_edge_id = e, ch_source = from, ch_dest = to,
        ch_queue = mq_new (ipc_queue_size m), ch_weight = 0\<rparr> else ipc_find x m)"
proof -
  note D = ipc_invD [OF inv]
  obtain i where pos: "position (\<lambda>s. s = None) (ipc_queues m) = Some i"
    using run by (auto simp: ipc_create_channel_def Let_def split: if_splits option.splits)
  have i: "i < length (ipc_queues m)" "ipc_queues m ! i = None" using position_Some [OF pos] by auto
  define ch where "ch = \<lparr>ch_edge_id = e, ch_source = from, ch_dest = to,
        ch_queue = mq_new (ipc_queue_size m), ch_weight = 0\<rparr>"
  show e: "e = ipc_next_edge_id m"
    using run pos by (auto simp: ipc_create_channel_def Let_def split: if_splits)
  have m': "m' = m\<lparr>ipc_next_edge_id := ipc_next_edge_id m + 1, ipc_queues := (ipc_queues m)[i := Some ch],
       ipc_edge_count := ipc_edge_count m + 1,
       ipc_edge_index := (ipc_edge_index m)[edge_hash_slot e m := Some i]\<rparr>"
    using run pos e by (auto simp: ipc_create_channel_def Let_def ch_def edge_hash_slot_def split: if_splits)
  show "ipc_next_edge_id m' = ipc_next_edge_id m + 1" by (simp add: m')
  have absent: "lookup_key ch_edge_id (ch_edge_id ch) (ipc_queues m) = None"
    using D(7) unfolding lookup_key_None channel_ok_def by (metis ch_def channel_meta.select_convs(1) e order_less_irrefl)
  then show "ipc_find e m = Inl PartitionNotFound" by (simp add: ipc_find_scan [OF inv] ch_def)
  note L = lookup_key_insert [OF D(6) i absent]
  have "mq_inv (mq_new (ipc_queue_size m))" "length (mq_buffer (mq_new (ipc_queue_size m))) = ipc_queue_size m"
    using D(4) mq_new_inv by blast+
  moreover have "x < ipc_next_edge_id m + 1" if "x \<le> ipc_next_edge_id m" for x
    using word_inc_less(1) [OF room that] .
  ultimately have "channel_ok m' c" if "Some c \<in> set (ipc_queues m')" for c
    using that D(7) [of c]
    by (auto simp: m' channel_ok_def ch_def e less_imp_le dest!: set_update_subset_insert [THEN subsetD])
  moreover have "j < length (ipc_queues m)" if "Some j \<in> set (ipc_edge_index m')" for j
    using that D(8) i(1) by (auto simp: m' dest!: set_update_subset_insert [THEN subsetD])
  ultimately show inv': "ipc_inv m'"
    using D L(1) occupied_insert [OF i] unfolding ipc_inv_iff by (auto simp: m')
  have "(if e = x then Some ch else y) = (if x = e then Some ch else y)" for y by simp
  then show "ipc_find x m' = (if x = e then Inr \<lparr>ch_edge_id = e, ch_source = from, ch_dest = to,
        ch_queue = mq_new (ipc_queue_size m), ch_weight = 0\<rparr> else ipc_find x m)"
    unfolding ipc_find_scan [OF inv'] ipc_find_scan [OF inv] using L(2) [of x]
    by (simp add: m' ch_def)
qed

lemma ipc_destroy_Inr:
  assumes inv: "ipc_inv m" and run: "ipc_destroy_channel e m = (Inr (), m')"
  shows "ipc_inv m'" "ipc_next_edge_id m' = ipc_next_edge_id m" "e < ipc_next_edge_id m"
    "ipc_find x m' = (if x = e then Inl PartitionNotFound else ipc_find x m)"
proof -
  note D = ipc_invD [OF inv]
  obtain i where pos: "key_index ch_edge_id e (ipc_queues m) = Some i"
    using run by (auto simp: ipc_destroy_channel_def key_index_def split: option.splits)
  from key_index_Some [OF pos] obtain ch where i: "i < length (ipc_queues m)" "ipc_queues m ! i = Some ch"
    "ch_edge_id ch = e" by blast
  have m': "m' = m\<lparr>ipc_queues := (ipc_queues m)[i := None], ipc_edge_count := ipc_edge_count m - 1,
      ipc_edge_index := ipc_edge_index m'\<rparr>"
    "ipc_edge_index m' = ipc_edge_index m \<or>
     ipc_edge_index m' = (ipc_edge_index m)[edge_hash_slot e m := None]"
    using run pos by (auto simp: ipc_destroy_channel_def key_index_def Let_def)
  show "ipc_next_edge_id m' = ipc_next_edge_id m" by (subst m'(1)) simp
  show "e < ipc_next_edge_id m" using D(7) nth_mem [OF i(1)] i by (auto simp: channel_ok_def)
  have q: "ipc_queues m' = (ipc_queues m)[i := None]" "ipc_edge_count m' = ipc_edge_count m - 1"
    "ipc_queue_size m' = ipc_queue_size m" by (subst m'(1), simp)+
  have "channel_ok m' c" if "Some c \<in> set (ipc_queues m')" for c
    using that D(7) [of c] m'(1)
    by (auto simp: q channel_ok_def dest!: set_update_subset_insert [THEN subsetD])
       (metis ipc_manager.select_convs(4) ipc_manager.surjective ipc_manager.update_convs(1,2,3))+
  moreover have "j < length (ipc_queues m)" if "Some j \<in> set (ipc_edge_index m')" for j
    using that D(8) m'(2) by (auto dest!: set_update_subset_insert [THEN subsetD])
  moreover have "length (ipc_edge_index m') = length (ipc_edge_index m)" using m'(2) by auto
  ultimately show inv': "ipc_inv m'"
    using D keyed_update_None [OF D(6), of i] occupied_delete [OF i(1,2)]
    unfolding ipc_inv_iff by (simp add: q)
  show "ipc_find x m' = (if x = e then Inl PartitionNotFound else ipc_find x m)"
    unfolding ipc_find_scan [OF inv'] ipc_find_scan [OF inv]
    using lookup_key_delete [OF D(6) i(1,2), of x] i(3) by (simp add: q)
qed

lemma ipc_destroy_Inl:
  "ipc_destroy_channel e m = (Inl err, m') \<Longrightarrow> m' = m"
  by (auto simp: ipc_destroy_channel_def Let_def split: option.splits)

lemma ipc_destroy_found:
  assumes "ipc_inv m" "ipc_find e m = Inr ch"
  shows "\<exists>m'. ipc_destroy_channel e m = (Inr (), m')"
proof -
  have "key_index ch_edge_id e (ipc_queues m) \<noteq> None"
    using assms by (auto simp: key_index_None ipc_find_scan split: option.splits)
  then show ?thesis by (auto simp: ipc_destroy_channel_def key_index_def Let_def)
qed

definition ipc_insert ::
    "partition_id \<times> partition_id \<Rightarrow> ipc_manager \<Rightarrow> (rvm_error, comm_edge_id, ipc_manager) outcome" where
  "ipc_insert a m = (case a of (from, to) \<Rightarrow> ipc_create_channel from to m)"

interpretation ipct: handle_table ipc_find ipc_insert ipc_destroy_channel ipc_inv "\<lambda>m. ipc_room m"
proof (unfold_locales, goal_cases)
  case (1 t a r t')
  then show ?case
    by (cases r) (auto simp: ipc_insert_def dest: ipc_create_Inl intro: ipc_create_Inr(2) split: prod.splits)
next
  case (2 t a e t')
  then show ?case by (auto simp: ipc_insert_def dest: ipc_create_Inl split: prod.splits)
next
  case (3 t a h t')
  then show ?case by (auto simp: ipc_insert_def dest: ipc_create_Inr(4) split: prod.splits)
next
  case (4 t a h t')
  then show ?case by (auto simp: ipc_insert_def ipc_create_Inr(5) split: prod.splits)
next
  case (5 t a h t' h' v)
  then show ?case by (auto simp: ipc_insert_def ipc_create_Inr(5) split: prod.splits)
next
  case (6 t h u t')
  then show ?case
    by (cases u) (auto dest: ipc_destroy_Inl intro: ipc_destroy_Inr(1))
next
  case (7 t h v)
  then show ?case by (rule ipc_destroy_found)
next
  case (8 t h t')
  then show ?case by (simp add: ipc_destroy_Inr(4))
next
  case (9 t h t' h' v)
  then show ?case by (simp add: ipc_destroy_Inr(4))
next
  case (10 t h t1 a h' t2)
  obtain p q where a: "a = (p, q)" by (cases a)
  have "h' = ipc_next_edge_id t1"
    using ipc_create_Inr(1) [of t1 p q h' t2] 10 ipc_destroy_Inr(1) by (simp add: a ipc_insert_def)
  then show ?case using ipc_destroy_Inr(2,3) [OF 10(1,2)] by auto
qed

section \<open>Properties\<close>

text \<open>
  C11.  The ring buffer is a FIFO queue: over any interleaving of sends and receives on a queue
  with a power-of-two capacity, the messages that were in the queue followed by those accepted are
  the messages delivered followed by those still in the queue, in that order; nothing is lost,
  duplicated or reordered, and the queue stays consistent.
\<close>

theorem message_queue_fifo:
  assumes "mq_inv q" "mq.run ops q = (accepted, delivered, q')"
  shows "mq_inv q' \<and> mq_contents q @ accepted = delivered @ mq_contents q'"
  using mq.run_fifo [OF assms] by simp

definition demo_msg :: "u16 \<Rightarrow> ipc_message" where
  "demo_msg ty = \<lparr>msg_sender = 1, msg_receiver = 2, msg_edge_id = 1, msg_payload_len = 0, msg_type = ty,
     msg_sequence = 0, msg_capability_hash = 0\<rparr>"

theorem message_queue_fifo_witness:
  "mq_inv (snd (snd (mq.run [QSend (demo_msg 1), QSend (demo_msg 2), QReceive] (mq_new 2)))) \<and>
   fst (snd (mq.run [QSend (demo_msg 1), QSend (demo_msg 2), QReceive] (mq_new 2))) = [demo_msg 1]"
proof -
  let ?r = "mq.run [QSend (demo_msg 1), QSend (demo_msg 2), QReceive] (mq_new 2)"
  have "fst (snd ?r) = [demo_msg 1]"
    by (simp add: mq_new_def mq_send_def mq_receive_def numeral_2_eq_2)
  moreover have r: "?r = (fst ?r, fst (snd ?r), snd (snd ?r))" by simp
  have "mq_inv (mq_new 2)" by (rule mq_new_inv(1) [of 2 1]) simp
  from message_queue_fifo [OF this r] have "mq_inv (snd (snd ?r))" by blast
  ultimately show ?thesis by blast
qed

lemma ipc_send_cases:
  assumes "ipc_inv m"
  shows "case ipc_find e m of
      Inl err \<Rightarrow> ipc_send e msg caller m =
        (Inl (if msg_sender msg \<noteq> caller then InsufficientCapability else PartitionNotFound), m)
    | Inr ch \<Rightarrow>
        if msg_sender msg \<noteq> caller \<or> ch_source ch \<noteq> caller
        then ipc_send e msg caller m = (Inl InsufficientCapability, m)
        else if length (mq_contents (ch_queue ch)) \<ge> ipc_queue_size m
        then ipc_send e msg caller m = (Inl ResourceLimitExceeded, m)
        else \<exists>ch' m'. ipc_send e msg caller m = (Inr (), m') \<and> ipc_inv m' \<and>
               ipc_find e m' = Inr ch' \<and> mq_contents (ch_queue ch') = mq_contents (ch_queue ch) @ [msg] \<and>
               ch_weight ch' = saturating_add (ch_weight ch) 1 \<and> ch_source ch' = ch_source ch \<and>
               (\<forall>x. x \<noteq> e \<longrightarrow> ipc_find x m' = ipc_find x m)"
proof (rule ipc_find_cases [OF assms, of e])
  assume "ipc_find_slot e m = Inl PartitionNotFound" "ipc_find e m = Inl PartitionNotFound"
  then show ?thesis by (simp add: ipc_send_def)
next
  fix i ch
  assume f: "ipc_find_slot e m = Inr i" "ipc_find e m = Inr ch" "i < length (ipc_queues m)"
    "ipc_queues m ! i = Some ch" "ch_edge_id ch = e"
  note E = ipc_enqueue_cases [OF assms f(3,4), of msg]
  have send: "ipc_send e msg caller m =
      (if msg_sender msg \<noteq> caller \<or> ch_source ch \<noteq> caller then (Inl InsufficientCapability, m)
       else ipc_enqueue i msg m)"
    using f by (simp add: ipc_send_def)
  show ?thesis
  proof (cases "msg_sender msg \<noteq> caller \<or> ch_source ch \<noteq> caller \<or>
                mq_count (ch_queue ch) \<ge> ipc_queue_size m")
    case True
    then show ?thesis using E(1) by (auto simp: f(2) send)
  next
    case False
    then obtain ch' m' where "ipc_enqueue i msg m = (Inr (), m')" "ipc_inv m'"
      "mq_contents (ch_queue ch') = mq_contents (ch_queue ch) @ [msg]"
      "ch_weight ch' = saturating_add (ch_weight ch) 1" "ch_source ch' = ch_source ch"
      "\<forall>x. ipc_find x m' = (if x = e then Inr ch' else ipc_find x m)"
      using E(2) f(5) by (metis not_le)
    with False show ?thesis by (auto simp: f(2) send)
  qed
qed

text \<open>Every outcome of a receive: the oldest message of the channel leaves it, the others stay.\<close>

lemma ipc_receive_cases:
  assumes "ipc_inv m"
  shows "case ipc_find e m of
      Inl err \<Rightarrow> ipc_receive e m = (Inl PartitionNotFound, m)
    | Inr ch \<Rightarrow> \<exists>ch' m'.
        ipc_receive e m = (Inr (case mq_contents (ch_queue ch) of [] \<Rightarrow> None | msg # _ \<Rightarrow> Some msg), m') \<and>
        ipc_inv m' \<and> ipc_find e m' = Inr ch' \<and> mq_contents (ch_queue ch') = tl (mq_contents (ch_queue ch)) \<and>
        ch_source ch' = ch_source ch \<and> (\<forall>x. x \<noteq> e \<longrightarrow> ipc_find x m' = ipc_find x m)"
proof (cases rule: ipc_find_cases [OF assms, of e])
  case (1 i ch)
  have q: "mq_inv (ch_queue ch)" using 1(6) by (simp add: channel_ok_def)
  have "\<exists>q'. mq_receive (ch_queue ch) =
        (case mq_contents (ch_queue ch) of [] \<Rightarrow> None | msg # _ \<Rightarrow> Some msg, q') \<and> mq_inv q' \<and>
      mq_contents q' = tl (mq_contents (ch_queue ch)) \<and> length (mq_buffer q') = length (mq_buffer (ch_queue ch))"
  proof (cases "0 < mq_count (ch_queue ch)")
    case True
    then have "mq_contents (ch_queue ch) \<noteq> []" by (metis length_0_conv less_irrefl mq_contents_length)
    with mq_receive_ok [OF q True] show ?thesis by (metis list.case(2) list.collapse)
  next
    case False
    then have "mq_contents (ch_queue ch) = []" by (simp add: mq_contents_def)
    with False q show ?thesis by (simp add: mq_receive_def)
  qed
  then obtain q' where q': "mq_receive (ch_queue ch) =
        (case mq_contents (ch_queue ch) of [] \<Rightarrow> None | msg # _ \<Rightarrow> Some msg, q')" "mq_inv q'"
      "mq_contents q' = tl (mq_contents (ch_queue ch))" "length (mq_buffer q') = length (mq_buffer (ch_queue ch))"
    by blast
  then have "channel_ok m (ch\<lparr>ch_queue := q'\<rparr>)" using 1(6) by (simp add: channel_ok_def)
  then show ?thesis
    using 1 q' ipc_put_ok [OF assms 1(3,4), of "ch\<lparr>ch_queue := q'\<rparr>"] by (simp add: ipc_receive_def)
qed (use assms in \<open>simp add: ipc_receive_def\<close>)

text \<open>
  Every outcome of a checked send on a consistent manager.  It is refused, with nothing changed,
  when the declared sender is not the caller, when the edge does not exist, when the caller is not
  the edge's source, or when the edge's queue is full; otherwise the message is appended to that
  edge's queue, the edge's weight goes up by one (saturating), and every other edge is as before.
\<close>

theorem ipc_send_outcome:
  assumes "ipc_inv m"
  shows "case ipc_find e m of
      Inl err \<Rightarrow> ipc_send e msg caller m =
        (Inl (if msg_sender msg \<noteq> caller then InsufficientCapability else PartitionNotFound), m)
    | Inr ch \<Rightarrow>
        if msg_sender msg \<noteq> caller \<or> ch_source ch \<noteq> caller
        then ipc_send e msg caller m = (Inl InsufficientCapability, m)
        else if length (mq_contents (ch_queue ch)) \<ge> ipc_queue_size m
        then ipc_send e msg caller m = (Inl ResourceLimitExceeded, m)
        else \<exists>ch' m'. ipc_send e msg caller m = (Inr (), m') \<and> ipc_inv m' \<and>
               ipc_find e m' = Inr ch' \<and> mq_contents (ch_queue ch') = mq_contents (ch_queue ch) @ [msg] \<and>
               ch_weight ch' = saturating_add (ch_weight ch) 1 \<and> ch_source ch' = ch_source ch \<and>
               (\<forall>x. x \<noteq> e \<longrightarrow> ipc_find x m' = ipc_find x m)"
  by (rule ipc_send_cases [OF assms])

definition demo_ipc :: ipc_manager where
  "demo_ipc = snd (ipc_create_channel 1 2 (ipc_new 2 2))"

lemma demo_ipc_props: "ipc_inv demo_ipc" "\<exists>ch. ipc_find 1 demo_ipc = Inr ch \<and> ch_source ch = 1 \<and>
    mq_contents (ch_queue ch) = []" "ipc_queue_size demo_ipc = 2"
proof -
  have new: "ipc_inv (ipc_new 2 2)" by (rule ipc_new_inv [of 2 2 1]) simp_all
  have room: "ipc_room (ipc_new 2 2)" by (simp add: ipc_new_def)
  have "fst (ipc_create_channel 1 2 (ipc_new 2 2)) = Inr 1"
    by (simp add: ipc_create_channel_def ipc_new_def numeral_2_eq_2)
  then have run: "ipc_create_channel 1 2 (ipc_new 2 2) = (Inr 1, demo_ipc)"
    by (metis demo_ipc_def prod.collapse)
  note C = ipc_create_Inr [OF new room run]
  show "ipc_inv demo_ipc" by (rule C(2))
  show "\<exists>ch. ipc_find 1 demo_ipc = Inr ch \<and> ch_source ch = 1 \<and> mq_contents (ch_queue ch) = []"
    using C(5) [of 1] by (simp add: mq_contents_def mq_new_def)
  show "ipc_queue_size demo_ipc = 2"
    by (simp add: demo_ipc_def ipc_create_channel_def ipc_new_def numeral_2_eq_2)
qed

theorem ipc_send_outcome_witness:
  "ipc_send 1 (demo_msg 7) 3 demo_ipc = (Inl InsufficientCapability, demo_ipc) \<and>
   (\<exists>m' ch'. ipc_send 1 (demo_msg 7) 1 demo_ipc = (Inr (), m') \<and> ipc_find 1 m' = Inr ch' \<and>
      mq_contents (ch_queue ch') = [demo_msg 7])"
proof -
  obtain ch where ch: "ipc_find 1 demo_ipc = Inr ch" "ch_source ch = 1" "mq_contents (ch_queue ch) = []"
    using demo_ipc_props(2) by blast
  have "msg_sender (demo_msg 7) = 1" by (simp add: demo_msg_def)
  then show ?thesis
    using ipc_send_outcome [OF demo_ipc_props(1), of 1 "demo_msg 7" 3]
      ipc_send_outcome [OF demo_ipc_props(1), of 1 "demo_msg 7" 1] ch demo_ipc_props(3)
    by auto
qed

end
