(* ===== verification/Device_Lease.thy ===== *)
theory Device_Lease
  imports Slot_Table
begin

text \<open>
  Crate \<open>rvm-partition\<close>, file \<open>device.rs\<close>: registration of devices and their time-bounded,
  exclusive leases.  \<open>dlm_inv\<close> says that a device has at most one lease and that its
  \<open>available\<close> flag says whether it has one; \<open>dlm_reach\<close> are the managers that the
  public operations can produce.
\<close>

section \<open>State\<close>

datatype device_class =
  Network | Storage | Graphics | Serial | Timer | InterruptController | Generic

record device_info =
  di_id :: u32
  di_class :: device_class
  di_mmio_base :: u64
  di_mmio_size :: u64
  di_irq :: "u32 option"
  di_available :: bool

record active_lease =
  al_lease_id :: device_lease_id
  al_device_id :: u32
  al_partition_id :: partition_id
  al_granted_epoch :: u64
  al_expiry_epoch :: u64
  al_capability_hash :: u32

record device_lease_manager =
  dlm_devices :: "device_info option list"
  dlm_leases :: "active_lease option list"
  dlm_device_count :: nat
  dlm_lease_count :: nat
  dlm_next_lease_id :: u64

definition dlm_new :: "nat \<Rightarrow> nat \<Rightarrow> device_lease_manager" where
  "dlm_new max_devices max_leases =
     \<lparr>dlm_devices = replicate max_devices None, dlm_leases = replicate max_leases None,
      dlm_device_count = 0, dlm_lease_count = 0, dlm_next_lease_id = 1\<rparr>"

section \<open>Operations\<close>

definition find_device :: "u32 \<Rightarrow> device_lease_manager \<Rightarrow> device_info option" where
  "find_device device_id m = find_some (\<lambda>d. di_id d = device_id) (dlm_devices m)"

definition find_device_index :: "u32 \<Rightarrow> device_info option list \<Rightarrow> nat option" where
  "find_device_index device_id devices =
     position (\<lambda>s. case s of None \<Rightarrow> False | Some d \<Rightarrow> di_id d = device_id) devices"

definition register_device ::
    "device_info \<Rightarrow> device_lease_manager \<Rightarrow> (rvm_error, u32, device_lease_manager) outcome" where
  "register_device info m =
     (if dlm_device_count m \<ge> length (dlm_devices m) then (Inl ResourceLimitExceeded, m)
      else case position (\<lambda>s. s = None) (dlm_devices m) of
        Some i \<Rightarrow>
          let device_id = of_nat (dlm_device_count m) in
          (Inr device_id,
           m\<lparr>dlm_devices :=
               (dlm_devices m)[i := Some (info\<lparr>di_id := device_id, di_available := True\<rparr>)],
             dlm_device_count := dlm_device_count m + 1\<rparr>)
      | None \<Rightarrow> (Inl InternalError, m))"

text \<open>Writing the flag of the device at an index.\<close>

definition set_available :: "nat \<Rightarrow> bool \<Rightarrow> device_info option list \<Rightarrow> device_info option list" where
  "set_available idx b devices =
     devices[idx := map_option (\<lambda>d. d\<lparr>di_available := b\<rparr>) (devices ! idx)]"

definition grant_lease ::
    "u32 \<Rightarrow> partition_id \<Rightarrow> u64 \<Rightarrow> u64 \<Rightarrow> u32 \<Rightarrow> device_lease_manager
       \<Rightarrow> (rvm_error, device_lease_id, device_lease_manager) outcome" where
  "grant_lease device_id part duration_epochs current_epoch cap_hash m =
     (case find_device_index device_id (dlm_devices m) of
        None \<Rightarrow> (Inl DeviceLeaseNotFound, m)
      | Some dev_idx \<Rightarrow>
          (case dlm_devices m ! dev_idx of
             None \<Rightarrow> (Inl InternalError, m)
           | Some device \<Rightarrow>
               if \<not> di_available device then (Inl DeviceLeaseConflict, m)
               else if dlm_lease_count m \<ge> length (dlm_leases m) then (Inl ResourceLimitExceeded, m)
               else
                 let lease_id = dlm_next_lease_id m;
                     lease = \<lparr>al_lease_id = lease_id, al_device_id = device_id,
                              al_partition_id = part, al_granted_epoch = current_epoch,
                              al_expiry_epoch = saturating_add current_epoch duration_epochs,
                              al_capability_hash = cap_hash\<rparr>;
                     m1 = m\<lparr>dlm_next_lease_id := dlm_next_lease_id m + 1,
                            dlm_devices := set_available dev_idx False (dlm_devices m)\<rparr>
                 in case position (\<lambda>s. s = None) (dlm_leases m1) of
                      Some i \<Rightarrow>
                        (Inr lease_id,
                         m1\<lparr>dlm_leases := (dlm_leases m1)[i := Some lease],
                            dlm_lease_count := dlm_lease_count m1 + 1\<rparr>)
                    | None \<Rightarrow> (Inl InternalError, m1)))"

text \<open>Releasing a device by its identifier, as \<open>revoke_lease\<close> and \<open>expire_leases\<close> do.\<close>

definition release_device :: "u32 \<Rightarrow> device_info option list \<Rightarrow> device_info option list" where
  "release_device device_id devices =
     (case find_device_index device_id devices of
        Some idx \<Rightarrow> set_available idx True devices
      | None \<Rightarrow> devices)"

definition revoke_lease ::
    "device_lease_id \<Rightarrow> device_lease_manager \<Rightarrow> (rvm_error, unit, device_lease_manager) outcome" where
  "revoke_lease lease_id m =
     (case position (\<lambda>s. case s of None \<Rightarrow> False | Some l \<Rightarrow> al_lease_id l = lease_id)
             (dlm_leases m) of
        Some i \<Rightarrow>
          (Inr (),
           m\<lparr>dlm_leases := (dlm_leases m)[i := None],
             dlm_lease_count := dlm_lease_count m - 1,
             dlm_devices := release_device (al_device_id (the (dlm_leases m ! i))) (dlm_devices m)\<rparr>)
      | None \<Rightarrow> (Inl DeviceLeaseNotFound, m))"

definition check_lease ::
    "device_lease_id \<Rightarrow> u64 \<Rightarrow> device_lease_manager \<Rightarrow> rvm_error + active_lease" where
  "check_lease lease_id current_epoch m =
     (case find_some (\<lambda>l. al_lease_id l = lease_id) (dlm_leases m) of
        Some lease \<Rightarrow>
          if current_epoch \<ge> al_expiry_epoch lease then Inl DeviceLeaseExpired else Inr lease
      | None \<Rightarrow> Inl DeviceLeaseNotFound)"

text \<open>
  The first loop of \<open>expire_leases\<close>: the leases that stay, and the devices of those that expired in
  a buffer of \<open>MAX_LEASES\<close> entries; the counter and the buffer length are kept separately.
\<close>

fun expire_loop ::
    "nat \<Rightarrow> u64 \<Rightarrow> active_lease option list \<Rightarrow> nat \<Rightarrow> u32 \<Rightarrow> u32 list
       \<Rightarrow> active_lease option list \<times> nat \<times> u32 \<times> u32 list" where
  "expire_loop max_leases current_epoch [] lease_count expired ids = ([], lease_count, expired, ids)"
| "expire_loop max_leases current_epoch (slot # slots) lease_count expired ids =
     (case slot of
        Some l \<Rightarrow>
          if current_epoch \<ge> al_expiry_epoch l then
            let ids' = (if length ids < max_leases then ids @ [al_device_id l] else ids);
                (rest, c, e, ids'') =
                  expire_loop max_leases current_epoch slots (lease_count - 1) (expired + 1) ids'
            in (None # rest, c, e, ids'')
          else
            let (rest, c, e, ids'') = expire_loop max_leases current_epoch slots lease_count expired ids
            in (slot # rest, c, e, ids'')
      | None \<Rightarrow>
          let (rest, c, e, ids'') = expire_loop max_leases current_epoch slots lease_count expired ids
          in (slot # rest, c, e, ids''))"

definition expire_leases :: "u64 \<Rightarrow> device_lease_manager \<Rightarrow> u32 \<times> device_lease_manager" where
  "expire_leases current_epoch m =
     (let (leases, count, expired, ids) =
            expire_loop (length (dlm_leases m)) current_epoch (dlm_leases m) (dlm_lease_count m) 0 []
      in (expired,
          m\<lparr>dlm_leases := leases, dlm_lease_count := count,
            dlm_devices := foldl (\<lambda>ds device_id. release_device device_id ds) (dlm_devices m) ids\<rparr>))"

definition get_lease_holder :: "u32 \<Rightarrow> device_lease_manager \<Rightarrow> partition_id option" where
  "get_lease_holder device_id m =
     map_option al_partition_id (find_some (\<lambda>l. al_device_id l = device_id) (dlm_leases m))"

definition is_device_available :: "u32 \<Rightarrow> device_lease_manager \<Rightarrow> bool" where
  "is_device_available device_id m =
     (case find_device device_id m of Some d \<Rightarrow> di_available d | None \<Rightarrow> False)"

section \<open>Invariant\<close>

text \<open>
  The part about devices and leases: identifiers are distinct, a device has at most one lease, it is
  available exactly when it has none, and a lease names a registered device.
\<close>

definition leases_ok :: "device_info option list \<Rightarrow> active_lease option list \<Rightarrow> bool" where
  "leases_ok devices leases \<longleftrightarrow>
     keyed di_id devices \<and> keyed al_lease_id leases \<and> keyed al_device_id leases \<and>
     (\<forall>s\<in>set devices. case s of None \<Rightarrow> True
        | Some d \<Rightarrow> di_available d = (lookup_key al_device_id (di_id d) leases = None)) \<and>
     (\<forall>s\<in>set leases. case s of None \<Rightarrow> True
        | Some l \<Rightarrow> lookup_key di_id (al_device_id l) devices \<noteq> None)"

definition dlm_inv :: "device_lease_manager \<Rightarrow> bool" where
  "dlm_inv m \<longleftrightarrow>
     leases_ok (dlm_devices m) (dlm_leases m) \<and>
     length (dlm_devices m) < 2 ^ 32 \<and>
     dlm_device_count m = occupied (dlm_devices m) \<and>
     dlm_lease_count m = occupied (dlm_leases m) \<and>
     (\<forall>s\<in>set (dlm_devices m). case s of None \<Rightarrow> True
        | Some d \<Rightarrow> unat (di_id d) < dlm_device_count m) \<and>
     (\<forall>s\<in>set (dlm_leases m). case s of None \<Rightarrow> True
        | Some l \<Rightarrow> al_lease_id l < dlm_next_lease_id m)"

lemma leases_ok_iff:
  "leases_ok devices leases \<longleftrightarrow>
     keyed di_id devices \<and> keyed al_lease_id leases \<and> keyed al_device_id leases \<and>
     (\<forall>d. Some d \<in> set devices \<longrightarrow> di_available d = (lookup_key al_device_id (di_id d) leases = None)) \<and>
     (\<forall>l. Some l \<in> set leases \<longrightarrow> lookup_key di_id (al_device_id l) devices \<noteq> None)"
  unfolding leases_ok_def ball_slots ..

lemma dlm_inv_iff:
  "dlm_inv m \<longleftrightarrow>
     leases_ok (dlm_devices m) (dlm_leases m) \<and>
     length (dlm_devices m) < 2 ^ 32 \<and>
     dlm_device_count m = occupied (dlm_devices m) \<and>
     dlm_lease_count m = occupied (dlm_leases m) \<and>
     (\<forall>d. Some d \<in> set (dlm_devices m) \<longrightarrow> unat (di_id d) < dlm_device_count m) \<and>
     (\<forall>l. Some l \<in> set (dlm_leases m) \<longrightarrow> al_lease_id l < dlm_next_lease_id m)"
  unfolding dlm_inv_def ball_slots ..

lemma leases_okD:
  assumes "leases_ok devices leases"
  shows "keyed di_id devices" "keyed al_lease_id leases" "keyed al_device_id leases"
    "\<And>d. Some d \<in> set devices \<Longrightarrow> di_available d = (lookup_key al_device_id (di_id d) leases = None)"
    "\<And>l. Some l \<in> set leases \<Longrightarrow> lookup_key di_id (al_device_id l) devices \<noteq> None"
  using assms unfolding leases_ok_iff by blast+

text \<open>Setting the flag of one device.\<close>

lemma set_available_keyed:
  assumes "keyed di_id devices" "i < length devices" "devices ! i = Some d"
  shows "keyed di_id (set_available i b devices)"
    "lookup_key di_id k (set_available i b devices) =
       (if k = di_id d then Some (d\<lparr>di_available := b\<rparr>) else lookup_key di_id k devices)"
    "Some c \<in> set (set_available i b devices) \<longleftrightarrow>
       c = d\<lparr>di_available := b\<rparr> \<or> (Some c \<in> set devices \<and> di_id c \<noteq> di_id d)"
proof -
  note L = lookup_key_replace [OF assms, of "d\<lparr>di_available := b\<rparr>"]
  show K: "keyed di_id (set_available i b devices)"
    using L(1) assms by (simp add: set_available_def)
  show l: "lookup_key di_id k (set_available i b devices) =
       (if k = di_id d then Some (d\<lparr>di_available := b\<rparr>) else lookup_key di_id k devices)" for k
    using L(2) assms by (simp add: set_available_def)
  show "Some c \<in> set (set_available i b devices) \<longleftrightarrow>
       c = d\<lparr>di_available := b\<rparr> \<or> (Some c \<in> set devices \<and> di_id c \<noteq> di_id d)"
    using lookup_key_Some [OF K, of "di_id c" c] lookup_key_Some [OF assms(1), of "di_id c" c] l [of "di_id c"]
    by (auto split: if_splits)
qed

lemma find_device_index_key: "find_device_index k devices = key_index di_id k devices"
  by (simp add: find_device_index_def key_index_def)

lemma release_device_keyed:
  assumes K: "keyed di_id devices"
  shows "keyed di_id (release_device k devices)"
    "lookup_key di_id j (release_device k devices) =
       map_option (\<lambda>d. if j = k then d\<lparr>di_available := True\<rparr> else d) (lookup_key di_id j devices)"
    "occupied (release_device k devices) = occupied devices"
    "length (release_device k devices) = length devices"
proof -
  show "length (release_device k devices) = length devices"
    by (simp add: release_device_def set_available_def split: option.splits)
  have "keyed di_id (release_device k devices) \<and>
    lookup_key di_id j (release_device k devices) =
       map_option (\<lambda>d. if j = k then d\<lparr>di_available := True\<rparr> else d) (lookup_key di_id j devices) \<and>
    occupied (release_device k devices) = occupied devices"
  proof (cases "key_index di_id k devices")
    case None
    then have "lookup_key di_id k devices = None" by (simp add: key_index_None)
    with None K show ?thesis
      by (cases "lookup_key di_id j devices") (auto simp: release_device_def find_device_index_key)
  next
    case (Some i)
    from key_index_Some [OF Some] obtain d where d: "i < length devices" "devices ! i = Some d" "di_id d = k"
      "lookup_key di_id k devices = Some d" by blast
    note S = set_available_keyed [OF K d(1,2), where b = True]
    have "occupied (set_available i True devices) = occupied devices"
      using occupied_replace [OF d(1,2), of "d\<lparr>di_available := True\<rparr>"] d by (simp add: set_available_def)
    then show ?thesis
      using S(1) S(2) [of j] d Some
      by (cases "lookup_key di_id j devices") (auto simp: release_device_def find_device_index_key)
  qed
  then show "keyed di_id (release_device k devices)"
    "lookup_key di_id j (release_device k devices) =
       map_option (\<lambda>d. if j = k then d\<lparr>di_available := True\<rparr> else d) (lookup_key di_id j devices)"
    "occupied (release_device k devices) = occupied devices" by blast+
qed


lemma release_devices_keyed:
  assumes K: "keyed di_id devices"
  shows "keyed di_id (foldl (\<lambda>ds k. release_device k ds) devices ids) \<and>
    lookup_key di_id j (foldl (\<lambda>ds k. release_device k ds) devices ids) =
      map_option (\<lambda>d. if j \<in> set ids then d\<lparr>di_available := True\<rparr> else d) (lookup_key di_id j devices) \<and>
    occupied (foldl (\<lambda>ds k. release_device k ds) devices ids) = occupied devices \<and>
    length (foldl (\<lambda>ds k. release_device k ds) devices ids) = length devices"
  using K
proof (induction ids arbitrary: devices)
  case Nil
  then show ?case by (cases "lookup_key di_id j devices") auto
next
  case (Cons k ids)
  note R = release_device_keyed [OF Cons.prems, where k = k]
  show ?case
    using Cons.IH [OF R(1)] R(2) [of j] R(3,4)
    by (cases "lookup_key di_id j devices") auto
qed

section \<open>Every operation keeps the invariant\<close>

text \<open>With the keys distinct, the invariant is about the two lookups by device identifier.\<close>

lemma leases_ok_lookup:
  assumes "keyed di_id devices" "keyed al_device_id leases"
  shows "leases_ok devices leases \<longleftrightarrow> keyed al_lease_id leases \<and>
    (\<forall>k d. lookup_key di_id k devices = Some d \<longrightarrow>
       di_available d = (lookup_key al_device_id k leases = None)) \<and>
    (\<forall>k. lookup_key al_device_id k leases \<noteq> None \<longrightarrow> lookup_key di_id k devices \<noteq> None)"
proof -
  have "(\<forall>d. Some d \<in> set devices \<longrightarrow> di_available d = (lookup_key al_device_id (di_id d) leases = None)) \<longleftrightarrow>
    (\<forall>k d. lookup_key di_id k devices = Some d \<longrightarrow> di_available d = (lookup_key al_device_id k leases = None))"
    unfolding lookup_key_Some [OF assms(1)] by simp
  moreover have "(\<forall>l. Some l \<in> set leases \<longrightarrow> lookup_key di_id (al_device_id l) devices \<noteq> None) \<longleftrightarrow>
    (\<forall>k. lookup_key al_device_id k leases \<noteq> None \<longrightarrow> lookup_key di_id k devices \<noteq> None)"
    unfolding lookup_key_None [of al_device_id] by blast
  ultimately show ?thesis using assms unfolding leases_ok_iff by simp
qed

lemma dlm_new_inv: "n < 2 ^ 32 \<Longrightarrow> dlm_inv (dlm_new n k)"
  by (auto simp: dlm_inv_iff dlm_new_def leases_ok_iff)


lemmas dlm_lookup_defs = find_device_def [folded lookup_key_def] get_lease_holder_def [folded lookup_key_def]

lemma dlm_invD:
  assumes "dlm_inv m"
  shows "leases_ok (dlm_devices m) (dlm_leases m)" "length (dlm_devices m) < 2 ^ 32"
    "dlm_device_count m = occupied (dlm_devices m)" "dlm_lease_count m = occupied (dlm_leases m)"
    "\<And>d. Some d \<in> set (dlm_devices m) \<Longrightarrow> unat (di_id d) < dlm_device_count m"
    "\<And>l. Some l \<in> set (dlm_leases m) \<Longrightarrow> al_lease_id l < dlm_next_lease_id m"
  using assms unfolding dlm_inv_iff by blast+

lemma leases_ok_devices:
  assumes "leases_ok devices leases"
  shows "\<And>k d. lookup_key di_id k devices = Some d \<Longrightarrow>
      di_available d = (lookup_key al_device_id k leases = None)"
    "\<And>k. lookup_key al_device_id k leases \<noteq> None \<Longrightarrow> lookup_key di_id k devices \<noteq> None"
  using assms leases_ok_lookup [OF leases_okD(1,3) [OF assms]] by blast+

lemma register_Inr:
  assumes inv: "dlm_inv m" and run: "register_device info m = (Inr k, m')"
  shows "dlm_inv m'" "find_device k m = None"
    "find_device x m' =
      (if x = k then Some (info\<lparr>di_id := k, di_available := True\<rparr>) else find_device x m)"
proof -
  note D = dlm_invD [OF inv] and O = leases_okD [OF dlm_invD(1) [OF inv]]
    and V = leases_ok_devices [OF dlm_invD(1) [OF inv]]
  have small: "dlm_device_count m < length (dlm_devices m)"
    using run by (auto simp: register_device_def split: if_splits)
  obtain i where pos: "position (\<lambda>s. s = None) (dlm_devices m) = Some i"
    using run small by (auto simp: register_device_def split: option.splits)
  have i: "i < length (dlm_devices m)" "dlm_devices m ! i = None" using position_Some [OF pos] by auto
  define dev where "dev = info\<lparr>di_id := k, di_available := True\<rparr>"
  have k: "k = of_nat (dlm_device_count m)" and m': "m' = m\<lparr>dlm_devices := (dlm_devices m)[i := Some dev],
      dlm_device_count := dlm_device_count m + 1\<rparr>"
    using run small pos by (auto simp: register_device_def dev_def Let_def)
  have uk: "unat k = dlm_device_count m" using small D(2) by (simp add: k unsigned_of_nat take_bit_nat_eq_self)
  have absent: "lookup_key di_id (di_id dev) (dlm_devices m) = None"
    using D(5) uk unfolding lookup_key_None by (fastforce simp: dev_def)
  then have unleased: "lookup_key al_device_id k (dlm_leases m) = None" using V(2) by (force simp: dev_def)
  note L = lookup_key_insert [OF O(1) i absent]
  show "find_device k m = None" using absent by (simp add: dlm_lookup_defs dev_def)
  show "find_device x m' = (if x = k then Some (info\<lparr>di_id := k, di_available := True\<rparr>) else find_device x m)"
    using L(2) [of x] by (simp add: dlm_lookup_defs m' dev_def)
  have "leases_ok (dlm_devices m') (dlm_leases m')"
    using L(1) O(2,3) V unleased L(2) by (subst leases_ok_lookup) (auto simp: m' dev_def)
  moreover have "unat (di_id d) < dlm_device_count m + 1" if "Some d \<in> set (dlm_devices m')" for d
    using that D(5) [of d] uk by (auto simp: m' dev_def dest!: set_update_subset_insert [THEN subsetD])
  ultimately show "dlm_inv m'"
    using D occupied_insert [OF i] unfolding dlm_inv_iff by (simp add: m')
qed

lemma register_Inl:
  assumes "dlm_inv m" "register_device info m = (Inl e, m')"
  shows "e = ResourceLimitExceeded \<and> m' = m"
proof -
  have "occupied (dlm_devices m) < length (dlm_devices m) \<Longrightarrow>
      \<exists>i. position (\<lambda>s. s = None) (dlm_devices m) = Some i"
    using occupied_less_free by metis
  with assms(2) dlm_invD(3) [OF assms(1)] show ?thesis
    by (auto simp: register_device_def Let_def not_le split: if_splits option.splits)
qed

text \<open>The outcome of a grant, branch by branch.\<close>

abbreviation dlm_room :: "device_lease_manager \<Rightarrow> bool" where
  "dlm_room m \<equiv> dlm_next_lease_id m \<noteq> U64_MAX"

lemma grant_refused:
  assumes inv: "dlm_inv m"
  shows "find_device k m = None \<Longrightarrow> grant_lease k p dur cur h m = (Inl DeviceLeaseNotFound, m)"
    "find_device k m \<noteq> None \<Longrightarrow> get_lease_holder k m \<noteq> None \<Longrightarrow>
       grant_lease k p dur cur h m = (Inl DeviceLeaseConflict, m)"
    "find_device k m \<noteq> None \<Longrightarrow> get_lease_holder k m = None \<Longrightarrow>
       dlm_lease_count m \<ge> length (dlm_leases m) \<Longrightarrow>
       grant_lease k p dur cur h m = (Inl ResourceLimitExceeded, m)"
proof -
  note V = leases_ok_devices [OF dlm_invD(1) [OF inv]]
  show "find_device k m = None \<Longrightarrow> grant_lease k p dur cur h m = (Inl DeviceLeaseNotFound, m)"
    unfolding dlm_lookup_defs key_index_None [symmetric]
    by (simp add: grant_lease_def find_device_index_key)
  have found: "\<exists>i d. find_device_index k (dlm_devices m) = Some i \<and> dlm_devices m ! i = Some d \<and>
      di_available d = (lookup_key al_device_id k (dlm_leases m) = None)"
    if some: "find_device k m \<noteq> None"
  proof -
    obtain i where i: "key_index di_id k (dlm_devices m) = Some i"
      using some unfolding dlm_lookup_defs key_index_None [symmetric] by blast
    then show ?thesis using key_index_Some [OF i] V(1) find_device_index_key by metis
  qed
  show "find_device k m \<noteq> None \<Longrightarrow> get_lease_holder k m \<noteq> None \<Longrightarrow>
      grant_lease k p dur cur h m = (Inl DeviceLeaseConflict, m)"
    using found by (auto simp: grant_lease_def dlm_lookup_defs)
  show "find_device k m \<noteq> None \<Longrightarrow> get_lease_holder k m = None \<Longrightarrow>
       dlm_lease_count m \<ge> length (dlm_leases m) \<Longrightarrow>
       grant_lease k p dur cur h m = (Inl ResourceLimitExceeded, m)"
    using found by (auto simp: grant_lease_def dlm_lookup_defs)
qed

text \<open>The lease that a successful grant stores.\<close>

definition granted_lease ::
    "device_lease_manager \<Rightarrow> u32 \<Rightarrow> partition_id \<Rightarrow> u64 \<Rightarrow> u64 \<Rightarrow> u32 \<Rightarrow> active_lease" where
  "granted_lease m k p dur cur h =
     \<lparr>al_lease_id = dlm_next_lease_id m, al_device_id = k, al_partition_id = p,
      al_granted_epoch = cur, al_expiry_epoch = saturating_add cur dur, al_capability_hash = h\<rparr>"

lemma grant_ok:
  fixes k p dur cur h
  assumes inv: "dlm_inv m" and room: "dlm_room m" and dev: "find_device k m \<noteq> None"
    and free: "get_lease_holder k m = None" and space: "dlm_lease_count m < length (dlm_leases m)"
  defines "lease \<equiv> granted_lease m k p dur cur h"
  obtains m' where "grant_lease k p dur cur h m = (Inr (dlm_next_lease_id m), m')" "dlm_inv m'"
    "\<And>x. lookup_key al_device_id x (dlm_leases m') =
       (if x = k then Some lease else lookup_key al_device_id x (dlm_leases m))"
    "\<And>x. lookup_key al_lease_id x (dlm_leases m') =
       (if x = dlm_next_lease_id m then Some lease else lookup_key al_lease_id x (dlm_leases m))"
proof -
  note D = dlm_invD [OF inv] and O = leases_okD [OF dlm_invD(1) [OF inv]]
    and V = leases_ok_devices [OF dlm_invD(1) [OF inv]]
  obtain i where idx: "key_index di_id k (dlm_devices m) = Some i"
    using dev unfolding dlm_lookup_defs key_index_None [symmetric] by blast
  from key_index_Some [OF idx] obtain d where d: "i < length (dlm_devices m)" "dlm_devices m ! i = Some d"
    "di_id d = k" "lookup_key di_id k (dlm_devices m) = Some d" by blast
  have unleased: "lookup_key al_device_id k (dlm_leases m) = None"
    using free by (simp add: dlm_lookup_defs)
  then have avail: "di_available d" using V(1) [OF d(4)] by simp
  obtain j where j: "position (\<lambda>s. s = None) (dlm_leases m) = Some j" "j < length (dlm_leases m)"
    "dlm_leases m ! j = None"
    using occupied_less_free [of "dlm_leases m"] space D(4) by metis
  define m' where "m' = m\<lparr>dlm_next_lease_id := dlm_next_lease_id m + 1,
      dlm_devices := set_available i False (dlm_devices m),
      dlm_leases := (dlm_leases m)[j := Some lease], dlm_lease_count := dlm_lease_count m + 1\<rparr>"
  note S = set_available_keyed [OF O(1) d(1,2), where b = False]
  have absent: "lookup_key al_device_id (al_device_id lease) (dlm_leases m) = None"
    "lookup_key al_lease_id (al_lease_id lease) (dlm_leases m) = None"
    using unleased D(6) unfolding lookup_key_None by (fastforce simp: lease_def granted_lease_def)+
  note L = lookup_key_insert [OF O(3) j(2,3) absent(1)] and N = lookup_key_insert [OF O(2) j(2,3) absent(2)]
  have run: "grant_lease k p dur cur h m = (Inr (dlm_next_lease_id m), m')"
    using idx d avail space j by (simp add: grant_lease_def find_device_index_key Let_def m'_def lease_def granted_lease_def)
  have "leases_ok (dlm_devices m') (dlm_leases m')"
    using S(1,2) L N(1) V d(3,4) unfolding m'_def
    by (subst leases_ok_lookup) (auto simp: lease_def granted_lease_def split: if_splits)
  moreover have "occupied (set_available i False (dlm_devices m)) = occupied (dlm_devices m)"
    using occupied_replace [OF d(1,2)] d(2) by (simp add: set_available_def)
  moreover have "unat (di_id c) < dlm_device_count m" if "Some c \<in> set (dlm_devices m')" for c
    using that D(5) [of c] D(5) [of d] nth_mem [OF d(1)] d(2) S(3) [of c] by (auto simp: m'_def)
  moreover have "al_lease_id l < dlm_next_lease_id m + 1" if "Some l \<in> set (dlm_leases m')" for l
    using that D(6) [of l] word_inc_less(1) [OF room]
    by (auto simp: m'_def lease_def granted_lease_def less_imp_le dest!: set_update_subset_insert [THEN subsetD])
  ultimately have inv': "dlm_inv m'"
    using D occupied_insert [OF j(2,3)] unfolding dlm_inv_iff by (simp add: m'_def set_available_def)
  show thesis
    using that [OF run inv'] L(2) N(2) by (simp add: m'_def lease_def granted_lease_def)
qed

lemma revoke_ok:
  assumes inv: "dlm_inv m" and run: "revoke_lease i m = (r, m')"
  shows "dlm_inv m'" "r = Inl e \<Longrightarrow> e = DeviceLeaseNotFound \<and> m' = m"
    "r = Inr () \<Longrightarrow> lookup_key al_lease_id x (dlm_leases m') =
       (if x = i then None else lookup_key al_lease_id x (dlm_leases m))"
proof -
  note D = dlm_invD [OF inv] and O = leases_okD [OF dlm_invD(1) [OF inv]]
    and V = leases_ok_devices [OF dlm_invD(1) [OF inv]]
  have "dlm_inv m' \<and> (r = Inl e \<longrightarrow> e = DeviceLeaseNotFound \<and> m' = m) \<and>
    (r = Inr () \<longrightarrow> lookup_key al_lease_id x (dlm_leases m') =
       (if x = i then None else lookup_key al_lease_id x (dlm_leases m)))"
  proof (cases "key_index al_lease_id i (dlm_leases m)")
    case None
    with run inv show ?thesis by (auto simp: revoke_lease_def key_index_def)
  next
    case (Some j)
    from key_index_Some [OF Some] obtain l where j: "j < length (dlm_leases m)" "dlm_leases m ! j = Some l"
      "al_lease_id l = i" by blast
    have l: "Some l \<in> set (dlm_leases m)" using nth_mem [OF j(1)] j(2) by simp
    have r: "r = Inr ()" and m': "m' = m\<lparr>dlm_leases := (dlm_leases m)[j := None],
        dlm_lease_count := dlm_lease_count m - 1,
        dlm_devices := release_device (al_device_id l) (dlm_devices m)\<rparr>"
      using run Some j(2) by (auto simp: revoke_lease_def key_index_def)
    note R = release_device_keyed [OF O(1), where k = "al_device_id l"]
    note L = lookup_key_delete [OF O(3) j(1,2)] lookup_key_delete [OF O(2) j(1,2)]
    have ok: "leases_ok (dlm_devices m') (dlm_leases m')"
      using R(1) keyed_update_None [OF O(2)] keyed_update_None [OF O(3)] V L(1)
      by (subst leases_ok_lookup) (auto simp: m' R(2) split: if_splits)
    have ids: "unat (di_id d) < dlm_device_count m" if "Some d \<in> set (dlm_devices m')" for d
    proof -
      have "lookup_key di_id (di_id d) (dlm_devices m') = Some d"
        using lookup_key_Some [OF leases_okD(1) [OF ok]] that by simp
      then obtain d0 where "lookup_key di_id (di_id d) (dlm_devices m) = Some d0"
        by (auto simp: m' R(2))
      then show ?thesis using lookup_key_Some [OF O(1)] D(5) by metis
    qed
    have "al_lease_id c < dlm_next_lease_id m" if "Some c \<in> set (dlm_leases m')" for c
      using that D(6) [of c] by (auto simp: m' dest!: set_update_subset_insert [THEN subsetD])
    with ok ids have "dlm_inv m'"
      using D R(3,4) occupied_delete [OF j(1,2)] unfolding dlm_inv_iff by (simp add: m')
    then show ?thesis using L(2) [of x] j(3) by (simp add: r m')
  qed
  then show "dlm_inv m'" "r = Inl e \<Longrightarrow> e = DeviceLeaseNotFound \<and> m' = m"
    "r = Inr () \<Longrightarrow> lookup_key al_lease_id x (dlm_leases m') =
       (if x = i then None else lookup_key al_lease_id x (dlm_leases m))" by blast+
qed

text \<open>What the loop of \<open>expire_leases\<close> computes.\<close>

abbreviation unexpired :: "u64 \<Rightarrow> active_lease \<Rightarrow> bool" where
  "unexpired epoch l \<equiv> epoch < al_expiry_epoch l"

definition expired_devices :: "u64 \<Rightarrow> active_lease option list \<Rightarrow> u32 list" where
  "expired_devices epoch slots =
     concat (map (\<lambda>s. case s of None \<Rightarrow> [] | Some l \<Rightarrow> if unexpired epoch l then [] else [al_device_id l]) slots)"

lemma expired_devices_mem:
  "k \<in> set (expired_devices epoch slots) \<longleftrightarrow>
     (\<exists>l. Some l \<in> set slots \<and> \<not> unexpired epoch l \<and> al_device_id l = k)"
  by (force simp: expired_devices_def split: option.splits if_splits)

lemma expire_loop_eq:
  "length ids + length slots \<le> n \<Longrightarrow> occupied slots \<le> c \<Longrightarrow>
   expire_loop n epoch slots c e ids =
     (keep_slots (unexpired epoch) slots, c - length (expired_devices epoch slots),
      e + of_nat (length (expired_devices epoch slots)), ids @ expired_devices epoch slots)"
proof (induction slots arbitrary: c e ids)
  case Nil
  then show ?case by (simp add: keep_slots_def expired_devices_def)
next
  case (Cons s slots)
  show ?case
  proof (cases s)
    case None
    with Cons show ?thesis by (simp add: keep_slots_def expired_devices_def)
  next
    case (Some l)
    with Cons show ?thesis
      by (simp add: keep_slots_def expired_devices_def not_le not_less)
  qed
qed

lemma keep_slots_occupied:
  "occupied (keep_slots (unexpired epoch) slots) + length (expired_devices epoch slots) = occupied slots"
  by (induction slots) (auto simp: keep_slots_def expired_devices_def split: option.splits)

lemma expire_ok:
  assumes inv: "dlm_inv m" and run: "expire_leases epoch m = (n, m')"
  shows "dlm_inv m'" "dlm_leases m' = keep_slots (unexpired epoch) (dlm_leases m)"
    "n = of_nat (length (expired_devices epoch (dlm_leases m)))"
proof -
  note D = dlm_invD [OF inv] and O = leases_okD [OF dlm_invD(1) [OF inv]]
    and V = leases_ok_devices [OF dlm_invD(1) [OF inv]]
  define ids where "ids = expired_devices epoch (dlm_leases m)"
  have n: "n = of_nat (length ids)" and m': "m' = m\<lparr>dlm_leases := keep_slots (unexpired epoch) (dlm_leases m),
      dlm_lease_count := dlm_lease_count m - length ids,
      dlm_devices := foldl (\<lambda>ds device_id. release_device device_id ds) (dlm_devices m) ids\<rparr>"
    using run D(4) by (auto simp: expire_leases_def expire_loop_eq ids_def)
  show "dlm_leases m' = keep_slots (unexpired epoch) (dlm_leases m)"
    "n = of_nat (length (expired_devices epoch (dlm_leases m)))" by (simp_all add: m' n ids_def)
  note R = release_devices_keyed [OF O(1), where ids = ids]
  note K = keep_slots_keyed [OF O(3), where P = "unexpired epoch"] keep_slots_keyed [OF O(2), where P = "unexpired epoch"]
  have expired: "k \<in> set ids \<longleftrightarrow> (\<exists>l. lookup_key al_device_id k (dlm_leases m) = Some l \<and> \<not> unexpired epoch l)" for k
    unfolding ids_def expired_devices_mem lookup_key_Some [OF O(3)] by blast
  have ok: "leases_ok (dlm_devices m') (dlm_leases m')"
  proof (subst leases_ok_lookup; (intro conjI allI impI)?)
    show "keyed di_id (dlm_devices m')" using R by (simp add: m')
    show "keyed al_device_id (dlm_leases m')" "keyed al_lease_id (dlm_leases m')" using K by (simp_all add: m')
    fix k d assume "lookup_key di_id k (dlm_devices m') = Some d"
    then show "di_available d = (lookup_key al_device_id k (dlm_leases m') = None)"
      using R [where j = k] K(2) [where k = k] V(1) [of k] expired [of k] by (auto simp: m' split: option.splits if_splits)
  next
    fix k assume "lookup_key al_device_id k (dlm_leases m') \<noteq> None"
    then show "lookup_key di_id k (dlm_devices m') \<noteq> None"
      using R [where j = k] K(2) [where k = k] V(2) [of k] by (auto simp: m' split: option.splits if_splits)
  qed
  have "unat (di_id d) < dlm_device_count m" if "Some d \<in> set (dlm_devices m')" for d
  proof -
    have "lookup_key di_id (di_id d) (dlm_devices m') = Some d"
      using lookup_key_Some [OF leases_okD(1) [OF ok]] that by simp
    then obtain d0 where "lookup_key di_id (di_id d) (dlm_devices m) = Some d0"
      using R [where j = "di_id d"] by (auto simp: m')
    then show ?thesis using lookup_key_Some [OF O(1)] D(5) by metis
  qed
  moreover have "al_lease_id c < dlm_next_lease_id m" if "Some c \<in> set (dlm_leases m')" for c
    using that D(6) [of c] by (auto simp: m' keep_slots_mem)
  ultimately show "dlm_inv m'"
    using D ok R keep_slots_occupied [of epoch "dlm_leases m"] unfolding dlm_inv_iff
    by (simp add: m' ids_def)
qed

section \<open>Reachable managers\<close>

text \<open>
  The managers that the public operations produce from an empty one with \<open>n\<close> device and \<open>k\<close>
  lease slots, as long as the 64-bit lease counter does not run out.
\<close>

inductive dlm_reach :: "nat \<Rightarrow> nat \<Rightarrow> device_lease_manager \<Rightarrow> bool" for n k where
  new: "dlm_reach n k (dlm_new n k)"
| reg: "dlm_reach n k m \<Longrightarrow> register_device info m = (r, m') \<Longrightarrow> dlm_reach n k m'"
| grant: "dlm_reach n k m \<Longrightarrow> dlm_room m \<Longrightarrow> grant_lease d p dur cur h m = (r, m') \<Longrightarrow> dlm_reach n k m'"
| revoke: "dlm_reach n k m \<Longrightarrow> revoke_lease i m = (r, m') \<Longrightarrow> dlm_reach n k m'"
| expire: "dlm_reach n k m \<Longrightarrow> expire_leases epoch m = (c, m') \<Longrightarrow> dlm_reach n k m'"

lemma grant_lease_inv:
  assumes "dlm_inv m" "dlm_room m" "grant_lease d p dur cur h m = (r, m')"
  shows "dlm_inv m'"
proof (cases "find_device d m = None \<or> get_lease_holder d m \<noteq> None \<or> dlm_lease_count m \<ge> length (dlm_leases m)")
  case True
  then have "m' = m" using grant_refused [OF assms(1)] assms(3) by (metis prod.inject)
  with assms(1) show ?thesis by simp
next
  case False
  then show ?thesis using grant_ok [OF assms(1,2), of d p dur cur h] assms(3) by (metis not_le prod.inject)
qed

lemma dlm_reach_inv:
  assumes "dlm_reach n k m" "n < 2 ^ 32"
  shows "dlm_inv m"
  using assms
proof (induction rule: dlm_reach.induct)
  case new
  then show ?case by (rule dlm_new_inv)
next
  case (reg m info r m')
  then show ?case using register_Inr(1) [of m info _ m'] register_Inl [of m info _ m'] by (cases r) auto
next
  case (grant m d p dur cur h r m')
  then show ?case using grant_lease_inv by blast
next
  case (revoke m i r m')
  then show ?case using revoke_ok(1) by blast
next
  case (expire m epoch c m')
  then show ?case using expire_ok(1) by blast
qed

lemma leased_device_registered:
  assumes "dlm_inv m" "get_lease_holder d m \<noteq> None"
  shows "find_device d m \<noteq> None"
  using leases_ok_devices(2) [OF dlm_invD(1) [OF assms(1)], of d] assms(2) by (simp add: dlm_lookup_defs)

section \<open>Properties\<close>

text \<open>
  Whatever sequence of registrations, grants, revocations and expiry sweeps is run on a new
  manager, a device is leased to at most one partition at a time: two lease slots never name the same
  device, a registered device is available exactly when it has no holder, a holder only exists
  for a registered device, and the lease counter is the number of occupied slots.
\<close>

theorem device_lease_exclusive:
  assumes "dlm_reach n k m" "n < 2 ^ 32"
  shows "(\<forall>i j a b. i < length (dlm_leases m) \<longrightarrow> j < length (dlm_leases m) \<longrightarrow>
            dlm_leases m ! i = Some a \<longrightarrow> dlm_leases m ! j = Some b \<longrightarrow>
            al_device_id a = al_device_id b \<longrightarrow> i = j) \<and>
    (\<forall>d. is_device_available d m \<longleftrightarrow> find_device d m \<noteq> None \<and> get_lease_holder d m = None) \<and>
    (\<forall>d. get_lease_holder d m \<noteq> None \<longrightarrow> find_device d m \<noteq> None) \<and>
    dlm_lease_count m = occupied (dlm_leases m)"
proof -
  have inv: "dlm_inv m" using dlm_reach_inv [OF assms] .
  have "is_device_available d m \<longleftrightarrow> find_device d m \<noteq> None \<and> get_lease_holder d m = None" for d
    using leases_ok_devices(1) [OF dlm_invD(1) [OF inv], of d]
    by (auto simp: is_device_available_def dlm_lookup_defs split: option.splits)
  then show ?thesis
    using leased_device_registered [OF inv] dlm_invD(4) [OF inv]
      keyedD [OF leases_okD(3) [OF dlm_invD(1) [OF inv]]] by blast
qed

definition demo_device :: device_info where
  "demo_device = \<lparr>di_id = 9, di_class = Network, di_mmio_base = 0x1000, di_mmio_size = 0x1000,
     di_irq = Some 33, di_available = False\<rparr>"

definition demo_dlm :: device_lease_manager where
  "demo_dlm = snd (register_device demo_device (dlm_new (Suc 0) (Suc 0)))"

definition demo_leased :: device_lease_manager where
  "demo_leased = snd (grant_lease 0 5 10 100 7 demo_dlm)"

lemma demo_dlm_reach: "dlm_reach (Suc 0) (Suc 0) demo_dlm"
  using dlm_reach.reg [OF dlm_reach.new surjective_pairing, of "Suc 0" "Suc 0" demo_device]
  by (simp add: demo_dlm_def)

lemmas demo_dlm_simps =
  demo_dlm_def demo_leased_def register_device_def dlm_new_def grant_lease_def find_device_index_def
  find_device_def find_some_def set_available_def get_lease_holder_def is_device_available_def demo_device_def

theorem device_lease_exclusive_witness:
  "\<not> is_device_available 0 demo_leased \<and> get_lease_holder 0 demo_leased = Some 5 \<and>
   dlm_lease_count demo_leased = occupied (dlm_leases demo_leased)"
proof -
  have "dlm_room demo_dlm" by (simp add: demo_dlm_simps)
  then have "dlm_reach (Suc 0) (Suc 0) demo_leased"
    using dlm_reach.grant [OF demo_dlm_reach _ surjective_pairing, of 0 5 10 100 7] by (simp add: demo_leased_def)
  from device_lease_exclusive [OF this]
  have "is_device_available 0 demo_leased \<longleftrightarrow> find_device 0 demo_leased \<noteq> None \<and> get_lease_holder 0 demo_leased = None"
    "dlm_lease_count demo_leased = occupied (dlm_leases demo_leased)" by auto
  moreover have "get_lease_holder 0 demo_leased = Some 5" by (simp add: demo_dlm_simps)
  ultimately show ?thesis by simp
qed

text \<open>
  Every outcome of a grant on a consistent manager: an unknown device, a leased device and a
  full lease table are refused with nothing changed; otherwise the device gets the new holder, every
  other device keeps its holder, the returned lease identifier was unused, and the lease checks
  until its expiry epoch (the saturating sum) and not from it on.
\<close>

theorem grant_lease_outcome:
  assumes "dlm_inv m" "dlm_room m"
  shows "if find_device d m = None
    then grant_lease d p dur cur h m = (Inl DeviceLeaseNotFound, m)
    else if get_lease_holder d m \<noteq> None
    then grant_lease d p dur cur h m = (Inl DeviceLeaseConflict, m)
    else if dlm_lease_count m \<ge> length (dlm_leases m)
    then grant_lease d p dur cur h m = (Inl ResourceLimitExceeded, m)
    else \<exists>i m'. grant_lease d p dur cur h m = (Inr i, m') \<and> dlm_inv m' \<and>
      check_lease i cur m = Inl DeviceLeaseNotFound \<and>
      (\<forall>x. get_lease_holder x m' = (if x = d then Some p else get_lease_holder x m)) \<and>
      (\<forall>epoch. (\<exists>l. check_lease i epoch m' = Inr l \<and> al_partition_id l = p \<and> al_device_id l = d) \<longleftrightarrow>
         epoch < saturating_add cur dur)"
proof (cases "find_device d m = None \<or> get_lease_holder d m \<noteq> None \<or> dlm_lease_count m \<ge> length (dlm_leases m)")
  case True
  then show ?thesis using grant_refused [OF assms(1), of d p dur cur h] by (auto split: if_splits)
next
  case False
  then obtain m' where m': "grant_lease d p dur cur h m = (Inr (dlm_next_lease_id m), m')" "dlm_inv m'"
    "\<And>x. lookup_key al_device_id x (dlm_leases m') =
       (if x = d then Some (granted_lease m d p dur cur h) else lookup_key al_device_id x (dlm_leases m))"
    "\<And>x. lookup_key al_lease_id x (dlm_leases m') =
       (if x = dlm_next_lease_id m then Some (granted_lease m d p dur cur h)
        else lookup_key al_lease_id x (dlm_leases m))"
    using grant_ok [OF assms, of d p dur cur h] by (metis not_le)
  have "lookup_key al_lease_id (dlm_next_lease_id m) (dlm_leases m) = None"
    using dlm_invD(6) [OF assms(1)] unfolding lookup_key_None by fastforce
  then have "check_lease (dlm_next_lease_id m) cur m = Inl DeviceLeaseNotFound"
    by (simp add: check_lease_def lookup_key_def)
  moreover have "\<forall>x. get_lease_holder x m' = (if x = d then Some p else get_lease_holder x m)"
    by (simp add: dlm_lookup_defs m'(3) granted_lease_def)
  moreover have "(\<exists>l. check_lease (dlm_next_lease_id m) epoch m' = Inr l \<and> al_partition_id l = p \<and>
      al_device_id l = d) \<longleftrightarrow> epoch < saturating_add cur dur" for epoch
    using m'(4) [of "dlm_next_lease_id m"] by (auto simp: check_lease_def lookup_key_def granted_lease_def)
  ultimately show ?thesis using False m'(1,2) by auto
qed

theorem grant_lease_outcome_witness:
  "grant_lease 3 5 10 100 7 demo_dlm = (Inl DeviceLeaseNotFound, demo_dlm) \<and>
   (\<exists>i m' l. grant_lease 0 5 10 100 7 demo_dlm = (Inr i, m') \<and> get_lease_holder 0 m' = Some 5 \<and>
      check_lease i 109 m' = Inr l)"
proof -
  have room: "dlm_room demo_dlm" by (simp add: demo_dlm_simps)
  have inv: "dlm_inv demo_dlm" using dlm_reach_inv [OF demo_dlm_reach] by simp
  have "find_device 3 demo_dlm = None" "find_device 0 demo_dlm \<noteq> None" "get_lease_holder 0 demo_dlm = None"
    "\<not> dlm_lease_count demo_dlm \<ge> length (dlm_leases demo_dlm)"
    by (simp_all add: demo_dlm_simps)
  moreover have "(109 :: u64) < saturating_add 100 10" by (simp add: saturating_add_def)
  moreover from calculation obtain i m' where g: "grant_lease 0 5 10 100 7 demo_dlm = (Inr i, m')"
    "\<forall>x. get_lease_holder x m' = (if x = 0 then Some 5 else get_lease_holder x demo_dlm)"
    "\<forall>epoch. (\<exists>l. check_lease i epoch m' = Inr l \<and> al_partition_id l = 5 \<and> al_device_id l = 0) \<longleftrightarrow>
         epoch < saturating_add 100 10"
    using grant_lease_outcome [OF inv room, of 0 5 10 100 7] by auto
  moreover from g(3) \<open>109 < saturating_add 100 10\<close> obtain l where "check_lease i 109 m' = Inr l" by blast
  ultimately show ?thesis using grant_lease_outcome [OF inv room, of 3 5 10 100 7] by auto
qed

end
