(* ===== verification/Run_Queue.thy ===== *)
theory Run_Queue
  imports Rvm_Types "HOL-Library.Multiset"
begin

text \<open>
  Crate \<open>rvm-sched\<close>, the per-CPU run queue of \<open>scheduler.rs\<close>: an array of 32 entries that holds a
  binary max-heap on the cached priority in its first \<open>len\<close> cells, and the sentinel in the others.
  The two sift loops are recursive functions.  \<open>heap_on\<close> is the heap property with the
  one exempt position of each loop; the locale \<open>max_queue\<close> is the contract of a priority
  queue on multisets, interpreted on the array operations.
\<close>

section \<open>Priorities and entries\<close>

definition compute_priority :: "u16 \<Rightarrow> cut_pressure \<Rightarrow> u32" where
  "compute_priority deadline_urgency cut_pressure =
     (let pressure_boost = (ucast (min (drop_bit 16 cut_pressure) (ucast (U16_MAX :: u16))) :: u16)
      in ucast deadline_urgency + ucast pressure_boost)"

definition MAX_RUN_QUEUE :: nat where "MAX_RUN_QUEUE = 32"

record run_queue_entry =
  rq_partition_id :: partition_id
  rq_deadline_urgency :: u16
  rq_cut_pressure :: cut_pressure
  rq_priority :: u32

definition EMPTY_ENTRY :: run_queue_entry where
  "EMPTY_ENTRY = \<lparr>rq_partition_id = HYPERVISOR, rq_deadline_urgency = 0, rq_cut_pressure = 0, rq_priority = 0\<rparr>"

definition entry_is_empty :: "run_queue_entry \<Rightarrow> bool" where
  "entry_is_empty e \<longleftrightarrow> is_hypervisor (rq_partition_id e)"

section \<open>The sift loops\<close>

text \<open>\<open>slice::swap\<close>\<close>

definition swap :: "nat \<Rightarrow> nat \<Rightarrow> 'a list \<Rightarrow> 'a list" where
  "swap i j xs = xs[i := xs ! j, j := xs ! i]"

function sift_up :: "nat \<Rightarrow> run_queue_entry list \<Rightarrow> run_queue_entry list" where
  "sift_up pos queue =
     (if pos > 0 then
        let parent = (pos - 1) div 2 in
        if rq_priority (queue ! pos) > rq_priority (queue ! parent)
        then sift_up parent (swap pos parent queue)
        else queue
      else queue)"
  by pat_completeness auto
termination by (relation "measure fst") auto

text \<open>The index of the largest of a node and its children among the first \<open>n\<close> cells.\<close>

definition largest_of :: "nat \<Rightarrow> nat \<Rightarrow> run_queue_entry list \<Rightarrow> nat" where
  "largest_of n pos queue =
     (let left = 2 * pos + 1;
          right = 2 * pos + 2;
          largest = (if left < n \<and> rq_priority (queue ! left) > rq_priority (queue ! pos) then left else pos)
      in if right < n \<and> rq_priority (queue ! right) > rq_priority (queue ! largest) then right else largest)"

function sift_down :: "nat \<Rightarrow> nat \<Rightarrow> run_queue_entry list \<Rightarrow> run_queue_entry list" where
  "sift_down n pos queue =
     (let largest = largest_of n pos queue in
      if largest = pos then queue else sift_down n largest (swap pos largest queue))"
  by pat_completeness auto
termination
  by (relation "measure (\<lambda>(n, pos, queue). n - pos)") (auto simp: largest_of_def Let_def split: if_splits)

declare sift_up.simps [simp del] sift_down.simps [simp del]

section \<open>Push and pop\<close>

text \<open>
  The part of \<open>enqueue\<close> that stores an entry, and the part of \<open>switch_next\<close> that removes
  the root, on the array and its length.
\<close>

definition rq_push :: "run_queue_entry \<Rightarrow> run_queue_entry list \<times> nat \<Rightarrow> run_queue_entry list \<times> nat" where
  "rq_push entry = (\<lambda>(queue, len). (sift_up len (queue[len := entry]), len + 1))"

definition rq_pop :: "run_queue_entry list \<times> nat \<Rightarrow> run_queue_entry \<times> run_queue_entry list \<times> nat" where
  "rq_pop = (\<lambda>(queue, len).
     let entry = queue ! 0;
         queue = (if len > 1 then queue[0 := queue ! (len - 1)] else queue);
         queue = queue[len - 1 := EMPTY_ENTRY]
     in (entry, sift_down (len - 1) 0 queue, len - 1))"

lemma sift_up_simps:
  "pos > 0 \<Longrightarrow> rq_priority (queue ! pos) > rq_priority (queue ! ((pos - 1) div 2)) \<Longrightarrow>
     sift_up pos queue = sift_up ((pos - 1) div 2) (swap pos ((pos - 1) div 2) queue)"
  "\<not> (pos > 0 \<and> rq_priority (queue ! pos) > rq_priority (queue ! ((pos - 1) div 2))) \<Longrightarrow>
     sift_up pos queue = queue"
  by (auto simp: sift_up.simps [of pos queue] Let_def)

lemma sift_down_simps:
  "largest_of n pos queue = pos \<Longrightarrow> sift_down n pos queue = queue"
  "largest_of n pos queue \<noteq> pos \<Longrightarrow>
     sift_down n pos queue = sift_down n (largest_of n pos queue) (swap pos (largest_of n pos queue) queue)"
  by (simp_all add: sift_down.simps [of n pos queue] Let_def)

section \<open>The loops permute the queue\<close>

lemma swap_nth:
  assumes "i < length xs" "j < length xs"
  shows "swap i j xs ! k = (if k = j then xs ! i else if k = i then xs ! j else xs ! k)"
  using assms by (auto simp: swap_def nth_list_update)

lemma swap_length [simp]: "length (swap i j xs) = length xs"
  by (simp add: swap_def)

lemma swap_take:
  assumes "i < n" "j < n" "n \<le> length xs"
  shows "mset (take n (swap i j xs)) = mset (take n xs)" "drop n (swap i j xs) = drop n xs"
proof -
  have "take n (swap i j xs) = (take n xs)[i := take n xs ! j, j := take n xs ! i]"
    using assms by (simp add: swap_def take_update_swap)
  then show "mset (take n (swap i j xs)) = mset (take n xs)"
    using assms mset_swap [of j "take n xs" i] by simp
  show "drop n (swap i j xs) = drop n xs"
    using assms by (simp add: swap_def drop_update_cancel)
qed

abbreviation permutes_front :: "nat \<Rightarrow> 'a list \<Rightarrow> 'a list \<Rightarrow> bool" where
  "permutes_front n xs ys \<equiv> mset (take n ys) = mset (take n xs) \<and> drop n ys = drop n xs \<and> length ys = length xs"

lemma sift_up_mset:
  "pos < n \<Longrightarrow> n \<le> length queue \<Longrightarrow> permutes_front n queue (sift_up pos queue)"
proof (induction pos queue rule: sift_up.induct)
  case (1 pos queue)
  let ?p = "(pos - 1) div 2"
  show ?case
  proof (cases "pos > 0 \<and> rq_priority (queue ! pos) > rq_priority (queue ! ?p)")
    case True
    then have "?p < n" using 1(2) by auto
    then show ?thesis
      using 1(1) [of ?p] 1(2,3) True swap_take [OF 1(2), of ?p queue] by (simp add: sift_up_simps(1))
  next
    case False
    then show ?thesis by (simp add: sift_up_simps(2))
  qed
qed

lemma largest_of_cases:
  "largest_of n pos queue = pos \<or>
   largest_of n pos queue < n \<and> pos < largest_of n pos queue \<and> (largest_of n pos queue - 1) div 2 = pos \<and>
   rq_priority (queue ! pos) < rq_priority (queue ! largest_of n pos queue)"
  by (auto simp: largest_of_def Let_def)

lemma sift_down_mset:
  "pos < n \<Longrightarrow> n \<le> length queue \<Longrightarrow> permutes_front n queue (sift_down n pos queue)"
proof (induction n pos queue rule: sift_down.induct)
  case (1 n pos queue)
  let ?l = "largest_of n pos queue"
  show ?case
  proof (cases "?l = pos")
    case True
    then show ?thesis by (simp add: sift_down_simps(1))
  next
    case False
    then have "?l < n" using largest_of_cases by metis
    then show ?thesis
      using 1(1) [OF refl False] 1(2,3) False swap_take [OF 1(2), of ?l queue]
      by (simp add: sift_down_simps(2))
  qed
qed

section \<open>The loops restore the heap\<close>

abbreviation parent :: "nat \<Rightarrow> nat" where
  "parent i \<equiv> (i - 1) div 2"

definition heap_on :: "nat \<Rightarrow> run_queue_entry list \<Rightarrow> bool" where
  "heap_on n q \<longleftrightarrow> (\<forall>i\<in>{1..<n}. rq_priority (q ! i) \<le> rq_priority (q ! parent i))"

text \<open>Every position is in order but \<open>pos\<close>, whose children are in order with its parent.\<close>

definition heap_but_up :: "nat \<Rightarrow> nat \<Rightarrow> run_queue_entry list \<Rightarrow> bool" where
  "heap_but_up n pos q \<longleftrightarrow>
     (\<forall>i\<in>{1..<n}. i \<noteq> pos \<longrightarrow> rq_priority (q ! i) \<le> rq_priority (q ! parent i)) \<and>
     (\<forall>i\<in>{1..<n}. parent i = pos \<longrightarrow> 0 < pos \<longrightarrow> rq_priority (q ! i) \<le> rq_priority (q ! parent pos))"

text \<open>Every position is in order but the children of \<open>pos\<close>, which are in order with its parent.\<close>

definition heap_but_down :: "nat \<Rightarrow> nat \<Rightarrow> run_queue_entry list \<Rightarrow> bool" where
  "heap_but_down n pos q \<longleftrightarrow>
     (\<forall>i\<in>{1..<n}. parent i \<noteq> pos \<longrightarrow> rq_priority (q ! i) \<le> rq_priority (q ! parent i)) \<and>
     (\<forall>i\<in>{1..<n}. parent i = pos \<longrightarrow> 0 < pos \<longrightarrow> rq_priority (q ! i) \<le> rq_priority (q ! parent pos))"

lemma heap_but_upD:
  assumes "heap_but_up n pos q"
  shows "0 < i \<Longrightarrow> i < n \<Longrightarrow> i \<noteq> pos \<Longrightarrow> rq_priority (q ! i) \<le> rq_priority (q ! parent i)"
    "0 < i \<Longrightarrow> i < n \<Longrightarrow> parent i = pos \<Longrightarrow> 0 < pos \<Longrightarrow> rq_priority (q ! i) \<le> rq_priority (q ! parent pos)"
  using assms by (simp_all add: heap_but_up_def)

lemma heap_but_downD:
  assumes "heap_but_down n pos q"
  shows "0 < i \<Longrightarrow> i < n \<Longrightarrow> parent i \<noteq> pos \<Longrightarrow> rq_priority (q ! i) \<le> rq_priority (q ! parent i)"
    "0 < i \<Longrightarrow> i < n \<Longrightarrow> parent i = pos \<Longrightarrow> 0 < pos \<Longrightarrow> rq_priority (q ! i) \<le> rq_priority (q ! parent pos)"
  using assms by (simp_all add: heap_but_down_def)

lemma parent_less: "0 < i \<Longrightarrow> parent i < i"
  by auto

lemma heap_but_up_swap:
  assumes h: "heap_but_up n pos q" and pos: "0 < pos" "pos < n" "n \<le> length q"
    and gt: "rq_priority (q ! pos) > rq_priority (q ! p)" and par: "parent pos = p"
  shows "heap_but_up n p (swap pos p q)"
proof -
  let ?q = "swap pos p q"
  have p: "p < pos" using parent_less [OF pos(1)] par by simp
  have nth: "?q ! k = (if k = p then q ! pos else if k = pos then q ! p else q ! k)" for k
    using pos p by (intro swap_nth) auto
  have sib: "rq_priority (q ! i) \<le> rq_priority (q ! p)" if "0 < i" "i < n" "i \<noteq> pos" "parent i = p" for i
    using heap_but_upD(1) [OF h that(1-3)] that(4) by simp
  have "rq_priority (?q ! i) \<le> rq_priority (?q ! parent i)" if i: "0 < i" "i < n" "i \<noteq> p" for i
  proof (cases "i = pos")
    case True
    then show ?thesis using p gt par by (simp add: nth)
  next
    case False
    then show ?thesis
      using i gt sib [of i] heap_but_upD(1) [OF h i(1,2)] heap_but_upD(2) [OF h i(1,2)] pos(1) par
      by (auto simp: nth)
  qed
  moreover have "rq_priority (?q ! i) \<le> rq_priority (?q ! parent p)"
    if i: "0 < i" "i < n" "parent i = p" "0 < p" for i
  proof -
    have up: "rq_priority (q ! p) \<le> rq_priority (q ! parent p)"
      using heap_but_upD(1) [OF h, of p] that p pos(2) by simp
    have "parent p < p" using i(4) by (rule parent_less)
    then have "rq_priority (?q ! parent p) = rq_priority (q ! parent p)" using p by (simp add: nth)
    moreover have "i \<noteq> p" using i parent_less [of i] by auto
    ultimately show ?thesis using up sib [of i] i par by (cases "i = pos") (auto simp: nth intro: order_trans)
  qed
  ultimately show ?thesis unfolding heap_but_up_def by (simp add: Suc_le_eq)
qed

lemma sift_up_heap:
  "heap_but_up n pos q \<Longrightarrow> pos < n \<Longrightarrow> n \<le> length q \<Longrightarrow> heap_on n (sift_up pos q)"
proof (induction pos q rule: sift_up.induct)
  case (1 pos q)
  show ?case
  proof (cases "pos > 0 \<and> rq_priority (q ! pos) > rq_priority (q ! parent pos)")
    case True
    then show ?thesis
      using 1(1) [of "parent pos"] heap_but_up_swap [OF 1(2) _ 1(3,4) _ refl] 1(3,4) parent_less [of pos]
      by (simp add: sift_up_simps(1))
  next
    case False
    then have "rq_priority (q ! i) \<le> rq_priority (q ! parent i)" if "0 < i" "i < n" for i
      using heap_but_upD(1) [OF 1(2) that] that by (cases "i = pos") (auto simp: not_less)
    then show ?thesis using False by (simp add: sift_up_simps(2) heap_on_def)
  qed
qed

lemma largest_of_max:
  assumes "0 < i" "i < n" "parent i = pos"
  shows "rq_priority (q ! i) \<le> rq_priority (q ! largest_of n pos q)"
proof -
  have "i = 2 * pos + 1 \<or> i = 2 * pos + 2" using assms by presburger
  then show ?thesis using assms by (auto simp: largest_of_def Let_def not_less)
qed

lemma heap_but_down_swap:
  assumes h: "heap_but_down n pos q" and pos: "pos < n" "n \<le> length q"
    and l: "largest_of n pos q = l" "l \<noteq> pos"
  shows "heap_but_down n l (swap pos l q)"
proof -
  let ?q = "swap pos l q"
  have c: "l < n" "pos < l" "parent l = pos" "rq_priority (q ! pos) < rq_priority (q ! l)"
    using largest_of_cases [of n pos q] l by auto
  have nth: "?q ! k = (if k = l then q ! pos else if k = pos then q ! l else q ! k)" for k
    using pos c by (intro swap_nth) auto
  have "rq_priority (?q ! i) \<le> rq_priority (?q ! parent i)" if i: "0 < i" "i < n" "parent i \<noteq> l" for i
  proof (cases "parent i = pos")
    case True
    then show ?thesis
      using largest_of_max [OF i(1,2) True, of q] c l i by (auto simp: nth)
  next
    case False
    then have *: "rq_priority (q ! i) \<le> rq_priority (q ! parent i)" using heap_but_downD(1) [OF h i(1,2)] by simp
    show ?thesis
    proof (cases "i = pos")
      case True
      then show ?thesis
        using heap_but_downD(2) [OF h, of l] c i False l(2) by (auto simp: nth)
    next
      case ni: False
      then have "i \<noteq> l" using False c(3) by auto
      with ni False i(3) * show ?thesis by (simp add: nth)
    qed
  qed
  moreover have "rq_priority (?q ! i) \<le> rq_priority (?q ! parent l)" if i: "0 < i" "i < n" "parent i = l" for i
  proof -
    have "i \<noteq> l" "i \<noteq> pos" using i c parent_less [of i] by auto
    then show ?thesis using heap_but_downD(1) [OF h i(1,2)] i(3) l(2) c(3) by (simp add: nth)
  qed
  ultimately show ?thesis unfolding heap_but_down_def by (simp add: Suc_le_eq)
qed

lemma sift_down_heap:
  "heap_but_down n pos q \<Longrightarrow> pos < n \<Longrightarrow> n \<le> length q \<Longrightarrow> heap_on n (sift_down n pos q)"
proof (induction n pos q rule: sift_down.induct)
  case (1 n pos q)
  show ?case
  proof (cases "largest_of n pos q = pos")
    case True
    then have "rq_priority (q ! i) \<le> rq_priority (q ! parent i)" if "0 < i" "i < n" for i
      using heap_but_downD(1) [OF 1(2) that] largest_of_max [OF that, of pos q] by (cases "parent i = pos") auto
    with True show ?thesis by (simp add: sift_down_simps(1) heap_on_def)
  next
    case False
    then have "largest_of n pos q < n" using largest_of_cases by metis
    with False show ?thesis
      using 1(1) [OF refl False] heap_but_down_swap [OF 1(2-4) refl False] 1(4)
      by (simp add: sift_down_simps(2))
  qed
qed

text \<open>The root of a heap is a maximum.\<close>

lemma heap_root_max:
  "heap_on n q \<Longrightarrow> i < n \<Longrightarrow> rq_priority (q ! i) \<le> rq_priority (q ! 0)"
proof (induction i rule: less_induct)
  case (less i)
  show ?case
  proof (cases "i = 0")
    case False
    then have "rq_priority (q ! i) \<le> rq_priority (q ! parent i)" "parent i < i" "parent i < n"
      using less(2,3) by (auto simp: heap_on_def)
    with less show ?thesis by (meson order_trans)
  qed simp
qed

section \<open>The contract of a priority queue\<close>

locale max_queue =
  fixes push :: "'e \<Rightarrow> 'q \<Rightarrow> 'q"
    and pop :: "'q \<Rightarrow> 'e \<times> 'q"
    and contents :: "'q \<Rightarrow> 'e multiset"
    and invar :: "'q \<Rightarrow> bool"
    and room :: "'q \<Rightarrow> bool"
    and prio :: "'e \<Rightarrow> 'p::linorder"
  assumes push_contents: "invar q \<Longrightarrow> room q \<Longrightarrow> contents (push e q) = add_mset e (contents q)"
    and push_invar: "invar q \<Longrightarrow> room q \<Longrightarrow> invar (push e q)"
    and pop_contents: "invar q \<Longrightarrow> contents q \<noteq> {#} \<Longrightarrow> contents q = add_mset (fst (pop q)) (contents (snd (pop q)))"
    and pop_max: "invar q \<Longrightarrow> contents q \<noteq> {#} \<Longrightarrow> x \<in># contents q \<Longrightarrow> prio x \<le> prio (fst (pop q))"
    and pop_invar: "invar q \<Longrightarrow> contents q \<noteq> {#} \<Longrightarrow> invar (snd (pop q))"
begin

text \<open>The entries that successive pops return.\<close>

primrec drain :: "nat \<Rightarrow> 'q \<Rightarrow> 'e list" where
  "drain 0 q = []"
| "drain (Suc n) q = fst (pop q) # drain n (snd (pop q))"

lemma drain_sorted:
  assumes "invar q" "size (contents q) = n"
  shows "mset (drain n q) = contents q" "sorted_wrt (\<lambda>a b. prio b \<le> prio a) (drain n q)"
proof -
  have "mset (drain n q) = contents q \<and> sorted_wrt (\<lambda>a b. prio b \<le> prio a) (drain n q)"
    using assms
  proof (induction n arbitrary: q)
    case 0
    then show ?case by simp
  next
    case (Suc n)
    let ?e = "fst (pop q)" and ?q = "snd (pop q)"
    have ne: "contents q \<noteq> {#}" using Suc.prems(2) by auto
    note C = pop_contents [OF Suc.prems(1) ne] and M = pop_max [OF Suc.prems(1) ne]
    have "size (contents ?q) = n" using arg_cong [OF C, of size] Suc.prems(2) by simp
    with Suc.IH [OF pop_invar [OF Suc.prems(1) ne]]
    have IH: "mset (drain n ?q) = contents ?q" "sorted_wrt (\<lambda>a b. prio b \<le> prio a) (drain n ?q)" by auto
    have "set (drain n ?q) = set_mset (contents ?q)" using IH(1) by (metis set_mset_mset)
    moreover have "x \<in># contents ?q \<Longrightarrow> x \<in># contents q" for x by (subst C) simp
    ultimately have "\<forall>x\<in>set (drain n ?q). prio x \<le> prio ?e" using M by simp
    then show ?case using IH C by simp
  qed
  then show "mset (drain n q) = contents q" "sorted_wrt (\<lambda>a b. prio b \<le> prio a) (drain n q)" by simp_all
qed

end

section \<open>The run queue is a priority queue\<close>

definition rq_contents :: "run_queue_entry list \<times> nat \<Rightarrow> run_queue_entry multiset" where
  "rq_contents q = mset (take (snd q) (fst q))"

definition rq_inv :: "run_queue_entry list \<times> nat \<Rightarrow> bool" where
  "rq_inv q \<longleftrightarrow> length (fst q) = MAX_RUN_QUEUE \<and> snd q \<le> MAX_RUN_QUEUE \<and> heap_on (snd q) (fst q) \<and>
     (\<forall>e\<in>set (drop (snd q) (fst q)). e = EMPTY_ENTRY)"

abbreviation rq_room :: "run_queue_entry list \<times> nat \<Rightarrow> bool" where
  "rq_room q \<equiv> snd q < MAX_RUN_QUEUE"

lemma rq_new_inv: "rq_inv (replicate MAX_RUN_QUEUE EMPTY_ENTRY, 0)" "rq_contents (q, 0) = {#}"
  by (simp_all add: rq_inv_def heap_on_def rq_contents_def)

lemma rq_push_ok:
  assumes "rq_inv q" "rq_room q"
  shows "rq_contents (rq_push e q) = add_mset e (rq_contents q)" "rq_inv (rq_push e q)"
    "snd (rq_push e q) = snd q + 1"
proof -
  obtain queue len where q: "q = (queue, len)" by fastforce
  let ?q = "queue[len := e]"
  have len: "len < length queue" "length queue = MAX_RUN_QUEUE" using assms by (auto simp: q rq_inv_def)
  have S: "permutes_front (len + 1) ?q (sift_up len ?q)" using len by (intro sift_up_mset) auto
  have "take (len + 1) ?q = take len queue @ [e]"
    using len by (simp add: take_Suc_conv_app_nth)
  then show "rq_contents (rq_push e q) = add_mset e (rq_contents q)"
    using S by (simp add: rq_contents_def rq_push_def q)
  show "snd (rq_push e q) = snd q + 1" by (simp add: rq_push_def q)
  have "?q ! i = queue ! i" if "i \<noteq> len" for i using that by simp
  moreover have "rq_priority (queue ! i) \<le> rq_priority (queue ! parent i)" if "0 < i" "i < len" for i
    using assms that by (simp add: q rq_inv_def heap_on_def)
  ultimately have "heap_but_up (len + 1) len ?q" by (auto simp: heap_but_up_def less_Suc_eq)
  then have "heap_on (len + 1) (sift_up len ?q)" using len by (intro sift_up_heap) auto
  moreover have "drop (len + 1) ?q = drop (len + 1) queue" by simp
  moreover have "set (drop (len + 1) queue) \<subseteq> set (drop len queue)" by (intro set_drop_subset_set_drop) simp
  ultimately show "rq_inv (rq_push e q)" using assms S len by (auto simp: rq_inv_def rq_push_def q)
qed

lemma rq_pop_ok:
  assumes "rq_inv q" "rq_contents q \<noteq> {#}"
  shows "rq_contents q = add_mset (fst (rq_pop q)) (rq_contents (snd (rq_pop q)))"
    "x \<in># rq_contents q \<Longrightarrow> rq_priority x \<le> rq_priority (fst (rq_pop q))"
    "rq_inv (snd (rq_pop q))" "snd (snd (rq_pop q)) + 1 = snd q"
proof -
  obtain queue len where q: "q = (queue, len)" by fastforce
  have len: "0 < len" "len \<le> length queue" "length queue = MAX_RUN_QUEUE"
    using assms by (auto simp: q rq_inv_def rq_contents_def)
  define n where "n = len - 1"
  define q0 where "q0 = (if len > 1 then queue[0 := queue ! n] else queue)"
  define q1 where "q1 = q0[n := EMPTY_ENTRY]"
  have pop: "rq_pop (queue, len) = (queue ! 0, sift_down n 0 q1, n)"
    by (simp add: rq_pop_def q1_def q0_def n_def Let_def)
  have l: "len = Suc n" "n < length queue" "length q1 = length queue" using len by (auto simp: n_def q1_def q0_def)
  have front: "take n q1 = (if n = 0 then [] else (take n queue)[0 := queue ! n])"
    by (simp add: q1_def q0_def l take_update_swap list_update_beyond)
  have S: "permutes_front n q1 (sift_down n 0 q1)"
  proof (cases "n = 0")
    case True
    then show ?thesis by (simp add: sift_down_simps(1) largest_of_def)
  next
    case False
    then show ?thesis using l by (intro sift_down_mset) auto
  qed
  have "mset (take len queue) = add_mset (queue ! 0) (mset (take n q1))"
    using l by (cases queue) (auto simp: front take_Suc_conv_app_nth neq0_conv gr0_conv_Suc)
  then show "rq_contents q = add_mset (fst (rq_pop q)) (rq_contents (snd (rq_pop q)))"
    using S by (simp add: rq_contents_def pop q)
  have heap: "heap_on len queue" using assms(1) by (simp add: q rq_inv_def)
  show "x \<in># rq_contents q \<Longrightarrow> rq_priority x \<le> rq_priority (fst (rq_pop q))"
    using heap_root_max [OF heap] by (auto simp: rq_contents_def q pop in_set_conv_nth)
  show "snd (snd (rq_pop q)) + 1 = snd q" using pop l(1) by (simp add: q)
  have "heap_on n (sift_down n 0 q1)"
  proof (cases "n = 0")
    case True
    then show ?thesis by (simp add: heap_on_def)
  next
    case False
    have "q1 ! i = queue ! i" if "0 < i" "i < n" for i using that l by (simp add: q1_def q0_def)
    moreover have "rq_priority (queue ! i) \<le> rq_priority (queue ! parent i)" if "0 < i" "i < n" for i
      using heap that l by (simp add: heap_on_def)
    ultimately have "heap_but_down n 0 q1" by (auto simp: heap_but_down_def)
    then show ?thesis using False l by (intro sift_down_heap) auto
  qed
  moreover have "drop n q1 = EMPTY_ENTRY # drop len queue"
    using l by (simp add: q1_def q0_def drop_update_swap Cons_nth_drop_Suc [symmetric])
  ultimately show "rq_inv (snd (rq_pop q))" using assms(1) S l len pop by (simp add: rq_inv_def q)
qed

interpretation rq: max_queue rq_push rq_pop rq_contents rq_inv rq_room rq_priority
  by unfold_locales (fact rq_push_ok rq_pop_ok)+

end
