(* ===== verification/Scheduler.thy ===== *)
theory Scheduler
  imports Run_Queue
begin

text \<open>
  Crate \<open>rvm-sched\<close>, the scheduler of \<open>scheduler.rs\<close> with the epoch tracker, the per-CPU
  state.  The arrays indexed by CPU are lists of the length \<open>MAX_CPUS\<close>.  A run queue is looked at through
  \<open>sched_queue\<close>, the pair of its array and its length that \<open>Run_Queue\<close> works on.
\<close>

section \<open>Epochs and per-CPU state\<close>

record epoch_summary =
  es_epoch :: u32
  es_switch_count :: u16
  es_runnable_count :: u16

record epoch_tracker =
  et_current_epoch :: u32
  et_switch_count :: u16

definition epoch_new :: epoch_tracker where
  "epoch_new = \<lparr>et_current_epoch = 0, et_switch_count = 0\<rparr>"

definition record_switch :: "epoch_tracker \<Rightarrow> epoch_tracker" where
  "record_switch t = t\<lparr>et_switch_count := saturating_add (et_switch_count t) 1\<rparr>"

definition epoch_advance :: "u16 \<Rightarrow> epoch_tracker \<Rightarrow> epoch_summary \<times> epoch_tracker" where
  "epoch_advance runnable_count t =
     (\<lparr>es_epoch = et_current_epoch t, es_switch_count = et_switch_count t, es_runnable_count = runnable_count\<rparr>,
      \<lparr>et_current_epoch = et_current_epoch t + 1, et_switch_count = 0\<rparr>)"

record per_cpu_scheduler =
  pc_cpu_id :: u16
  pc_current :: "partition_id option"
  pc_mode :: scheduler_mode
  pc_idle :: bool

definition per_cpu_new :: "u16 \<Rightarrow> per_cpu_scheduler" where
  "per_cpu_new cpu_id = \<lparr>pc_cpu_id = cpu_id, pc_current = None, pc_mode = Flow, pc_idle = True\<rparr>"

section \<open>The scheduler\<close>

record scheduler =
  sc_per_cpu :: "per_cpu_scheduler list"
  sc_run_queues :: "run_queue_entry list list"
  sc_queue_lens :: "nat list"
  sc_mode :: scheduler_mode
  sc_epoch :: epoch_tracker
  sc_degraded :: bool

definition sched_new :: "nat \<Rightarrow> scheduler" where
  "sched_new max_cpus =
     \<lparr>sc_per_cpu = map (\<lambda>i. per_cpu_new (of_nat i)) [0..<max_cpus],
      sc_run_queues = replicate max_cpus (replicate MAX_RUN_QUEUE EMPTY_ENTRY),
      sc_queue_lens = replicate max_cpus 0, sc_mode = Flow, sc_epoch = epoch_new, sc_degraded = False\<rparr>"

definition set_mode :: "scheduler_mode \<Rightarrow> scheduler \<Rightarrow> scheduler" where
  "set_mode mode s = s\<lparr>sc_mode := mode\<rparr>"

definition enter_degraded :: "scheduler \<Rightarrow> scheduler" where
  "enter_degraded s = s\<lparr>sc_degraded := True\<rparr>"

definition exit_degraded :: "scheduler \<Rightarrow> scheduler" where
  "exit_degraded s = s\<lparr>sc_degraded := False\<rparr>"

definition tick_epoch :: "scheduler \<Rightarrow> epoch_summary \<times> scheduler" where
  "tick_epoch s =
     (let runnable = foldl (+) (0 :: u32) (map of_nat (sc_queue_lens s));
          clamped = (if runnable > ucast (U16_MAX :: u16) then U16_MAX else (ucast runnable :: u16));
          (summary, epoch) = epoch_advance clamped (sc_epoch s)
      in (summary, s\<lparr>sc_epoch := epoch\<rparr>))"

definition run_entry :: "scheduler \<Rightarrow> partition_id \<Rightarrow> u16 \<Rightarrow> cut_pressure \<Rightarrow> run_queue_entry" where
  "run_entry s partition_id deadline_urgency cut_pressure =
     (let effective_pressure = (if sc_degraded s then 0 else cut_pressure)
      in \<lparr>rq_partition_id = partition_id, rq_deadline_urgency = deadline_urgency,
          rq_cut_pressure = effective_pressure,
          rq_priority = compute_priority deadline_urgency effective_pressure\<rparr>)"

definition enqueue :: "nat \<Rightarrow> partition_id \<Rightarrow> u16 \<Rightarrow> cut_pressure \<Rightarrow> scheduler \<Rightarrow> bool \<times> scheduler" where
  "enqueue cpu partition_id deadline_urgency cut_pressure s =
     (if cpu \<ge> length (sc_queue_lens s) \<or> sc_queue_lens s ! cpu \<ge> MAX_RUN_QUEUE then (False, s)
      else
        let entry = run_entry s partition_id deadline_urgency cut_pressure;
            (queue, len) = rq_push entry (sc_run_queues s ! cpu, sc_queue_lens s ! cpu)
        in (True, s\<lparr>sc_run_queues := (sc_run_queues s)[cpu := queue],
                    sc_queue_lens := (sc_queue_lens s)[cpu := len]\<rparr>))"

definition switch_next ::
    "nat \<Rightarrow> scheduler \<Rightarrow> (partition_id option \<times> partition_id) option \<times> scheduler" where
  "switch_next cpu s =
     (if cpu \<ge> length (sc_queue_lens s) \<or> sc_queue_lens s ! cpu = 0 then (None, s)
      else if entry_is_empty (sc_run_queues s ! cpu ! 0) then (None, s)
      else
        let (entry, queue, len) = rq_pop (sc_run_queues s ! cpu, sc_queue_lens s ! cpu);
            pc = sc_per_cpu s ! cpu
        in (Some (pc_current pc, rq_partition_id entry),
            s\<lparr>sc_run_queues := (sc_run_queues s)[cpu := queue],
              sc_queue_lens := (sc_queue_lens s)[cpu := len],
              sc_per_cpu := (sc_per_cpu s)[cpu := pc\<lparr>pc_current := Some (rq_partition_id entry), pc_idle := False\<rparr>],
              sc_epoch := record_switch (sc_epoch s)\<rparr>))"

definition queue_len :: "nat \<Rightarrow> scheduler \<Rightarrow> nat" where
  "queue_len cpu s = (if cpu < length (sc_queue_lens s) then sc_queue_lens s ! cpu else 0)"

section \<open>Invariant\<close>

definition sched_queue :: "nat \<Rightarrow> scheduler \<Rightarrow> run_queue_entry list \<times> nat" where
  "sched_queue cpu s = (sc_run_queues s ! cpu, sc_queue_lens s ! cpu)"

definition sched_inv :: "nat \<Rightarrow> scheduler \<Rightarrow> bool" where
  "sched_inv max_cpus s \<longleftrightarrow>
     length (sc_per_cpu s) = max_cpus \<and> length (sc_run_queues s) = max_cpus \<and>
     length (sc_queue_lens s) = max_cpus \<and> (\<forall>cpu\<in>{0..<max_cpus}. rq_inv (sched_queue cpu s))"

abbreviation runnable :: "nat \<Rightarrow> scheduler \<Rightarrow> run_queue_entry multiset" where
  "runnable cpu s \<equiv> rq_contents (sched_queue cpu s)"

lemma sched_new_inv: "sched_inv n (sched_new n)"
  using rq_new_inv(1) by (simp add: sched_inv_def sched_new_def sched_queue_def)

lemma sched_invD:
  assumes "sched_inv n s"
  shows "length (sc_per_cpu s) = n" "length (sc_run_queues s) = n" "length (sc_queue_lens s) = n"
    "\<And>cpu. cpu < n \<Longrightarrow> rq_inv (sched_queue cpu s)"
  using assms by (simp_all add: sched_inv_def)

lemma sched_queue_snd [simp]: "snd (sched_queue cpu s) = sc_queue_lens s ! cpu"
  by (simp add: sched_queue_def)

lemma sched_queue_len: "sched_inv n s \<Longrightarrow> cpu < n \<Longrightarrow> sc_queue_lens s ! cpu = size (runnable cpu s)"
  using sched_invD [of n s] by (simp add: rq_contents_def sched_queue_def rq_inv_def)

text \<open>Replacing the queue of one CPU.\<close>

lemma sched_put_queue:
  assumes "sched_inv n s" "cpu < n" "rq_inv q" "length (sc_per_cpu s') = n"
    "sc_run_queues s' = (sc_run_queues s)[cpu := fst q]" "sc_queue_lens s' = (sc_queue_lens s)[cpu := snd q]"
  shows "sched_inv n s'" "sched_queue c s' = (if c = cpu then q else sched_queue c s)"
proof -
  note D = sched_invD [OF assms(1)]
  show Q: "sched_queue c s' = (if c = cpu then q else sched_queue c s)" for c
    using assms D by (cases "c = cpu") (simp_all add: sched_queue_def)
  show "sched_inv n s'" using assms D unfolding sched_inv_def Q by simp
qed

text \<open>What the two operations do to the queues.\<close>

lemma enqueue_cases:
  assumes inv: "sched_inv n s" and cpu: "cpu < n"
  shows "size (runnable cpu s) \<ge> MAX_RUN_QUEUE \<Longrightarrow> enqueue cpu p u c s = (False, s)"
    "size (runnable cpu s) < MAX_RUN_QUEUE \<Longrightarrow> \<exists>s'. enqueue cpu p u c s = (True, s') \<and> sched_inv n s' \<and>
       sched_queue x s' = (if x = cpu then rq_push (run_entry s p u c) (sched_queue cpu s) else sched_queue x s) \<and>
       sc_per_cpu s' = sc_per_cpu s"
proof -
  note D = sched_invD [OF inv] and L = sched_queue_len [OF inv cpu]
  show "size (runnable cpu s) \<ge> MAX_RUN_QUEUE \<Longrightarrow> enqueue cpu p u c s = (False, s)"
    using D cpu L by (simp add: enqueue_def)
  assume room: "size (runnable cpu s) < MAX_RUN_QUEUE"
  let ?q = "rq_push (run_entry s p u c) (sched_queue cpu s)"
  have q: "rq_inv ?q" using rq_push_ok(2) [OF D(4) [OF cpu]] room L by simp
  define s' where "s' = snd (enqueue cpu p u c s)"
  have len: "sc_queue_lens s ! cpu < MAX_RUN_QUEUE" using L room by simp
  have s': "enqueue cpu p u c s = (True, s')" "s' = s\<lparr>sc_run_queues := (sc_run_queues s)[cpu := fst ?q],
      sc_queue_lens := (sc_queue_lens s)[cpu := snd ?q]\<rparr>"
    using D cpu len unfolding s'_def by (simp_all add: enqueue_def Let_def split_def sched_queue_def)
  note P = sched_put_queue [OF inv cpu q, of s']
  show "\<exists>s'. enqueue cpu p u c s = (True, s') \<and> sched_inv n s' \<and>
       sched_queue x s' = (if x = cpu then ?q else sched_queue x s) \<and> sc_per_cpu s' = sc_per_cpu s"
    using P s' D by (intro exI [of _ s']) simp
qed

lemma switch_next_cases:
  assumes inv: "sched_inv n s" and cpu: "cpu < n"
  shows "runnable cpu s = {#} \<Longrightarrow> switch_next cpu s = (None, s)"
    "runnable cpu s \<noteq> {#} \<Longrightarrow> entry_is_empty (fst (rq_pop (sched_queue cpu s))) \<Longrightarrow> switch_next cpu s = (None, s)"
    "runnable cpu s \<noteq> {#} \<Longrightarrow> \<not> entry_is_empty (fst (rq_pop (sched_queue cpu s))) \<Longrightarrow>
       \<exists>s'. switch_next cpu s = (Some (pc_current (sc_per_cpu s ! cpu),
                rq_partition_id (fst (rq_pop (sched_queue cpu s)))), s') \<and> sched_inv n s' \<and>
       sched_queue x s' = (if x = cpu then snd (rq_pop (sched_queue cpu s)) else sched_queue x s) \<and>
       sc_per_cpu s' = (sc_per_cpu s)[cpu := (sc_per_cpu s ! cpu)
         \<lparr>pc_current := Some (rq_partition_id (fst (rq_pop (sched_queue cpu s)))), pc_idle := False\<rparr>]"
proof -
  note D = sched_invD [OF inv] and L = sched_queue_len [OF inv cpu]
  have root: "fst (rq_pop (sched_queue cpu s)) = sc_run_queues s ! cpu ! 0"
    by (simp add: rq_pop_def sched_queue_def Let_def)
  show "runnable cpu s = {#} \<Longrightarrow> switch_next cpu s = (None, s)"
    using D cpu L by (simp add: switch_next_def)
  show "runnable cpu s \<noteq> {#} \<Longrightarrow> entry_is_empty (fst (rq_pop (sched_queue cpu s))) \<Longrightarrow> switch_next cpu s = (None, s)"
    using D cpu L root by (simp add: switch_next_def)
  assume ne: "runnable cpu s \<noteq> {#}" and ok: "\<not> entry_is_empty (fst (rq_pop (sched_queue cpu s)))"
  let ?q = "snd (rq_pop (sched_queue cpu s))"
  have q: "rq_inv ?q" using rq_pop_ok(3) [OF D(4) [OF cpu] ne] .
  define s' where "s' = snd (switch_next cpu s)"
  have len: "sc_queue_lens s ! cpu \<noteq> 0" using L ne by simp
  have s': "switch_next cpu s = (Some (pc_current (sc_per_cpu s ! cpu),
      rq_partition_id (fst (rq_pop (sched_queue cpu s)))), s')"
    "s' = s\<lparr>sc_run_queues := (sc_run_queues s)[cpu := fst ?q], sc_queue_lens := (sc_queue_lens s)[cpu := snd ?q],
       sc_per_cpu := (sc_per_cpu s)[cpu := (sc_per_cpu s ! cpu)
         \<lparr>pc_current := Some (rq_partition_id (fst (rq_pop (sched_queue cpu s)))), pc_idle := False\<rparr>],
       sc_epoch := record_switch (sc_epoch s)\<rparr>"
    using D cpu len ok root unfolding s'_def by (simp_all add: switch_next_def Let_def split_def sched_queue_def)
  note P = sched_put_queue [OF inv cpu q, of s']
  show "\<exists>s'. switch_next cpu s = (Some (pc_current (sc_per_cpu s ! cpu),
                rq_partition_id (fst (rq_pop (sched_queue cpu s)))), s') \<and> sched_inv n s' \<and>
       sched_queue x s' = (if x = cpu then ?q else sched_queue x s) \<and>
       sc_per_cpu s' = (sc_per_cpu s)[cpu := (sc_per_cpu s ! cpu)
         \<lparr>pc_current := Some (rq_partition_id (fst (rq_pop (sched_queue cpu s)))), pc_idle := False\<rparr>]"
    using P s' D by (intro exI [of _ s']) simp
qed

section \<open>Priorities\<close>

lemma ucast_u16_u32: "unat (ucast (x :: u16) :: u32) = unat x"
  by (simp add: unsigned_ucast_eq take_bit_nat_eq_self less_trans [OF unsigned_less])

lemma compute_priority_unat:
  "unat (compute_priority u c) = unat u + unat c div 2 ^ 16"
proof -
  have c: "unat c < 2 ^ 32" using unsigned_less [of c] by simp
  define b where "b = drop_bit 16 c"
  have b: "unat b = unat c div 2 ^ 16" by (simp add: b_def drop_bit_eq_div unat_div_distrib)
  then have bl: "unat b < 2 ^ 16" using c by (simp add: less_mult_imp_div_less)
  then have "b \<le> ucast (U16_MAX :: u16)" by (simp add: word_le_nat_alt ucast_u16_u32 unat_max_word)
  then have m: "min b (ucast (U16_MAX :: u16)) = b" by (simp add: min_def)
  have ub: "unat (ucast b :: u16) = unat b"
    using bl by (simp add: unsigned_ucast_eq take_bit_nat_eq_self)
  have "unat u < 2 ^ 16" using unsigned_less [of u] by simp
  then have "unat u + unat b < 2 ^ 32" using bl by simp
  then show ?thesis
    using b ub unfolding compute_priority_def b_def [symmetric] Let_def m
    by (simp add: unat_word_ariths ucast_u16_u32)
qed

section \<open>Properties\<close>

text \<open>
  C12.  The run queue of a CPU is a priority queue: popping it until it is empty returns every
  entry that was pushed exactly once, in order of non-increasing priority.
\<close>

theorem run_queue_drains_sorted:
  assumes "rq_inv q" "rq_contents q = M"
  shows "mset (rq.drain (size M) q) = M \<and>
         sorted_wrt (\<lambda>a b. rq_priority b \<le> rq_priority a) (rq.drain (size M) q)"
  using rq.drain_sorted [OF assms(1), of "size M"] assms(2) by simp

definition demo_entry :: "partition_id \<Rightarrow> u32 \<Rightarrow> run_queue_entry" where
  "demo_entry p pr = \<lparr>rq_partition_id = p, rq_deadline_urgency = 0, rq_cut_pressure = 0, rq_priority = pr\<rparr>"

definition demo_queue :: "run_queue_entry list \<times> nat" where
  "demo_queue = rq_push (demo_entry 2 9) (rq_push (demo_entry 1 4) (replicate MAX_RUN_QUEUE EMPTY_ENTRY, 0))"

lemma demo_queue_ok:
  "rq_inv demo_queue" "rq_contents demo_queue = {#demo_entry 2 9, demo_entry 1 4#}"
proof -
  let ?q = "(replicate MAX_RUN_QUEUE EMPTY_ENTRY, 0)"
  have room: "rq_room ?q" "rq_room (rq_push e ?q)" for e
    using rq_push_ok(3) [OF rq_new_inv(1)] by (simp_all add: MAX_RUN_QUEUE_def)
  note P = rq_push_ok [OF rq_new_inv(1) room(1)]
  show "rq_inv demo_queue" unfolding demo_queue_def by (rule rq_push_ok(2) [OF P(2) room(2)])
  show "rq_contents demo_queue = {#demo_entry 2 9, demo_entry 1 4#}"
    unfolding demo_queue_def rq_push_ok(1) [OF P(2) room(2)] P(1) rq_new_inv(2) ..
qed

theorem run_queue_drains_sorted_witness:
  "rq.drain (Suc (Suc 0)) demo_queue = [demo_entry 2 9, demo_entry 1 4]"
proof -
  let ?a = "fst (rq_pop demo_queue)" and ?b = "fst (rq_pop (snd (rq_pop demo_queue)))"
  have "{#?a, ?b#} = {#demo_entry 2 9, demo_entry 1 4#}" and le: "rq_priority ?b \<le> rq_priority ?a"
    using run_queue_drains_sorted [OF demo_queue_ok] by auto
  then consider "?a = demo_entry 2 9" "?b = demo_entry 1 4" | "?a = demo_entry 1 4" "?b = demo_entry 2 9"
    by (auto simp: add_eq_conv_diff split: if_splits)
  then show ?thesis
  proof cases
    case 2
    with le show ?thesis by (simp add: demo_entry_def)
  qed simp
qed

text \<open>
  Every outcome of \<open>switch_next\<close>: with nothing runnable nothing happens; otherwise an entry of
  maximal priority decides.  If it names the hypervisor, which the queue uses as its empty mark, the
  call returns nothing and changes nothing, although other partitions may be runnable; otherwise the
  CPU switches to that partition, exactly that entry leaves the queue, the queues of the other
  CPUs are unchanged and the queue stays a heap.
\<close>

theorem switch_next_outcome:
  assumes "sched_inv n s" "cpu < n"
  shows "if runnable cpu s = {#} then switch_next cpu s = (None, s)
    else \<exists>e. e \<in># runnable cpu s \<and> (\<forall>x. x \<in># runnable cpu s \<longrightarrow> rq_priority x \<le> rq_priority e) \<and>
      (if is_hypervisor (rq_partition_id e) then switch_next cpu s = (None, s)
       else \<exists>s'. switch_next cpu s = (Some (pc_current (sc_per_cpu s ! cpu), rq_partition_id e), s') \<and>
         sched_inv n s' \<and> runnable cpu s = add_mset e (runnable cpu s') \<and>
         (\<forall>c. c \<noteq> cpu \<longrightarrow> runnable c s' = runnable c s) \<and>
         pc_current (sc_per_cpu s' ! cpu) = Some (rq_partition_id e) \<and> \<not> pc_idle (sc_per_cpu s' ! cpu))"
proof (cases "runnable cpu s = {#}")
  case True
  then show ?thesis using switch_next_cases(1) [OF assms] by simp
next
  case False
  define e where "e = fst (rq_pop (sched_queue cpu s))"
  note P = rq_pop_ok [OF sched_invD(4) [OF assms] False, folded e_def]
  have mem: "e \<in># runnable cpu s" by (subst P(1)) simp
  show ?thesis
  proof (cases "is_hypervisor (rq_partition_id e)")
    case True
    then have "switch_next cpu s = (None, s)"
      using switch_next_cases(2) [OF assms False] by (simp add: entry_is_empty_def e_def)
    then show ?thesis using False True mem P(2) by auto
  next
    case ok: False
    then obtain s' where s': "switch_next cpu s = (Some (pc_current (sc_per_cpu s ! cpu), rq_partition_id e), s')"
      using switch_next_cases(3) [OF assms False] by (auto simp: entry_is_empty_def e_def)
    then have Q: "sched_inv n s' \<and>
       sched_queue x s' = (if x = cpu then snd (rq_pop (sched_queue cpu s)) else sched_queue x s) \<and>
       sc_per_cpu s' = (sc_per_cpu s)[cpu := (sc_per_cpu s ! cpu)
         \<lparr>pc_current := Some (rq_partition_id e), pc_idle := False\<rparr>]" for x
      using switch_next_cases(3) [OF assms False, of x] ok by (auto simp: entry_is_empty_def e_def)
    have "runnable cpu s = add_mset e (runnable cpu s')" using P(1) Q [of cpu] by simp
    moreover have "\<forall>c. c \<noteq> cpu \<longrightarrow> runnable c s' = runnable c s" using Q by simp
    ultimately show ?thesis using False ok mem P(2) s' Q sched_invD(1) [OF assms(1)] assms(2) by auto
  qed
qed

definition demo_sched :: scheduler where
  "demo_sched = snd (enqueue 0 7 50 0 (sched_new 2))"

lemma demo_sched_ok:
  "sched_inv 2 demo_sched" "runnable 0 demo_sched = {#run_entry (sched_new 2) 7 50 0#}"
proof -
  have "runnable 0 (sched_new 2) = {#}" by (simp add: sched_queue_def sched_new_def rq_new_inv(2))
  moreover have "enqueue 0 7 50 0 (sched_new 2) = (True, demo_sched)"
    by (simp add: demo_sched_def enqueue_def Let_def split_def sched_new_def MAX_RUN_QUEUE_def)
  ultimately show "sched_inv 2 demo_sched" "runnable 0 demo_sched = {#run_entry (sched_new 2) 7 50 0#}"
    using enqueue_cases(2) [OF sched_new_inv, of 0 2 7 50 0 0] rq_push_ok(1) [OF sched_invD(4) [OF sched_new_inv], of 0 2]
    by (auto simp: MAX_RUN_QUEUE_def sched_new_def)
qed

theorem switch_next_outcome_witness:
  "\<exists>s'. switch_next 0 demo_sched = (Some (None, 7), s') \<and> runnable 0 s' = {#}"
proof -
  have "pc_current (sc_per_cpu demo_sched ! 0) = None"
    by (simp add: demo_sched_def enqueue_def Let_def split_def sched_new_def MAX_RUN_QUEUE_def per_cpu_new_def)
  moreover have "rq_partition_id (run_entry (sched_new 2) 7 50 0) = 7" by (simp add: run_entry_def)
  ultimately show ?thesis
    using switch_next_outcome [OF demo_sched_ok(1), of 0] demo_sched_ok(2)
    by (auto simp: is_hypervisor_def)
qed

text \<open>
  The priority never overflows and is the exact sum of the deadline urgency and the integer
  part of the 16.16 cut pressure, so it reaches 131070; without cut pressure, which is what degraded
  mode enqueues, it is the deadline urgency alone.
\<close>

theorem compute_priority_exact:
  "unat (compute_priority u c) = unat u + unat c div 2 ^ 16 \<and>
   unat (compute_priority U16_MAX U32_MAX) = 131070 \<and>
   rq_priority (run_entry (enter_degraded s) p u c) = ucast u"
proof -
  have "compute_priority u 0 = ucast u"
    using compute_priority_unat [of u 0] by (simp add: word_unat_eq_iff ucast_u16_u32)
  then show ?thesis
    by (simp add: compute_priority_unat run_entry_def enter_degraded_def unat_max_word)
qed

end
