(* ===== verification/Smp.thy ===== *)
theory Smp
  imports Rvm_Types
begin

text \<open>
  Crate \<open>rvm-sched\<close>: the multi-core coordinator of \<open>smp.rs\<close>, which tracks which CPUs are online
  and what each one runs, and the switch contexts of \<open>switch.rs\<close>.  \<open>smp_reach\<close> are the coordinators
  that the public operations can produce.
\<close>

section \<open>The coordinator\<close>

record cpu_state =
  cs_cpu_id :: u8
  cs_online :: bool
  cs_current_partition :: "partition_id option"
  cs_idle :: bool
  cs_epoch_ticks :: u64

definition cpu_offline :: "u8 \<Rightarrow> cpu_state" where
  "cpu_offline cpu_id =
     \<lparr>cs_cpu_id = cpu_id, cs_online = False, cs_current_partition = None, cs_idle = True, cs_epoch_ticks = 0\<rparr>"

record smp_coordinator =
  smp_cpu_states :: "cpu_state list"
  smp_cpu_count :: u16

definition smp_new :: "nat \<Rightarrow> u8 \<Rightarrow> smp_coordinator" where
  "smp_new max_cpus cpu_count =
     (let clamped = (if unat cpu_count > max_cpus then of_nat max_cpus else (ucast cpu_count :: u16))
      in \<lparr>smp_cpu_states = map (\<lambda>i. (cpu_offline 0)\<lparr>cs_cpu_id := of_nat i\<rparr>) [0..<max_cpus],
          smp_cpu_count = clamped\<rparr>)"

text \<open>\<open>get_state_mut\<close>: the index that the returned reference points to.\<close>

definition get_state_mut :: "u8 \<Rightarrow> smp_coordinator \<Rightarrow> nat option" where
  "get_state_mut cpu_id m = (if unat cpu_id < length (smp_cpu_states m) then Some (unat cpu_id) else None)"

definition put_state :: "nat \<Rightarrow> cpu_state \<Rightarrow> smp_coordinator \<Rightarrow> smp_coordinator" where
  "put_state i st m = m\<lparr>smp_cpu_states := (smp_cpu_states m)[i := st]\<rparr>"

definition bring_online :: "u8 \<Rightarrow> smp_coordinator \<Rightarrow> (rvm_error, unit, smp_coordinator) outcome" where
  "bring_online cpu_id m =
     (if (ucast cpu_id :: u16) \<ge> smp_cpu_count m then (Inl ResourceLimitExceeded, m)
      else case get_state_mut cpu_id m of
        None \<Rightarrow> (Inl ResourceLimitExceeded, m)
      | Some i \<Rightarrow>
          let st = smp_cpu_states m ! i in
          if cs_online st then (Inl InvalidPartitionState, m)
          else (Inr (), put_state i (st\<lparr>cs_online := True, cs_idle := True, cs_current_partition := None\<rparr>) m))"

definition take_offline :: "u8 \<Rightarrow> smp_coordinator \<Rightarrow> (rvm_error, unit, smp_coordinator) outcome" where
  "take_offline cpu_id m =
     (case get_state_mut cpu_id m of
        None \<Rightarrow> (Inl ResourceLimitExceeded, m)
      | Some i \<Rightarrow>
          let st = smp_cpu_states m ! i in
          if \<not> cs_online st then (Inl InvalidPartitionState, m)
          else if cs_current_partition st \<noteq> None then (Inl InvalidPartitionState, m)
          else (Inr (), put_state i (st\<lparr>cs_online := False, cs_idle := True\<rparr>) m))"

definition assign_partition ::
    "u8 \<Rightarrow> partition_id \<Rightarrow> smp_coordinator \<Rightarrow> (rvm_error, unit, smp_coordinator) outcome" where
  "assign_partition cpu_id p m =
     (case get_state_mut cpu_id m of
        None \<Rightarrow> (Inl ResourceLimitExceeded, m)
      | Some i \<Rightarrow>
          let st = smp_cpu_states m ! i in
          if \<not> cs_online st then (Inl InvalidPartitionState, m)
          else if cs_current_partition st \<noteq> None then (Inl InvalidPartitionState, m)
          else (Inr (), put_state i (st\<lparr>cs_current_partition := Some p, cs_idle := False,
                                        cs_epoch_ticks := saturating_add (cs_epoch_ticks st) 1\<rparr>) m))"

definition release_partition :: "u8 \<Rightarrow> smp_coordinator \<Rightarrow> partition_id option \<times> smp_coordinator" where
  "release_partition cpu_id m =
     (case get_state_mut cpu_id m of
        None \<Rightarrow> (None, m)
      | Some i \<Rightarrow>
          let st = smp_cpu_states m ! i;
              prev = cs_current_partition st;
              st = st\<lparr>cs_current_partition := None\<rparr>
          in (prev, put_state i (if prev \<noteq> None then st\<lparr>cs_idle := True\<rparr> else st) m))"

definition find_idle_cpu :: "smp_coordinator \<Rightarrow> u8 option" where
  "find_idle_cpu m = map_option cs_cpu_id (find (\<lambda>s. cs_online s \<and> cs_idle s) (smp_cpu_states m))"

definition partition_affinity :: "partition_id \<Rightarrow> smp_coordinator \<Rightarrow> u8 option" where
  "partition_affinity p m =
     map_option cs_cpu_id (find (\<lambda>s. cs_online s \<and> cs_current_partition s = Some p) (smp_cpu_states m))"

definition active_count :: "smp_coordinator \<Rightarrow> u16" where
  "active_count m = of_nat (length (filter cs_online (smp_cpu_states m)))"

text \<open>\<open>max_by_key\<close> returns the last of several maximal elements.\<close>

fun max_by_ticks :: "cpu_state list \<Rightarrow> cpu_state option" where
  "max_by_ticks [] = None"
| "max_by_ticks (s # ss) =
     Some (foldl (\<lambda>best t. if cs_epoch_ticks best \<le> cs_epoch_ticks t then t else best) s ss)"

definition rebalance_hint :: "smp_coordinator \<Rightarrow> (u8 \<times> u8) option" where
  "rebalance_hint m =
     (case find_idle_cpu m of
        None \<Rightarrow> None
      | Some idle_cpu \<Rightarrow>
          (case max_by_ticks (filter (\<lambda>s. cs_online s \<and> cs_current_partition s \<noteq> None) (smp_cpu_states m)) of
             None \<Rightarrow> None
           | Some overloaded \<Rightarrow> Some (cs_cpu_id overloaded, idle_cpu)))"

section \<open>Switch contexts\<close>

record switch_context =
  vttbr_el2 :: u64
  elr_el2 :: u64
  spsr_el2 :: u64
  sp_el1 :: u64
  gp_regs :: "u64 list"

definition switch_context_new :: switch_context where
  "switch_context_new = \<lparr>vttbr_el2 = 0, elr_el2 = 0, spsr_el2 = 0, sp_el1 = 0, gp_regs = replicate 31 0\<rparr>"

definition ctx_init :: "u64 \<Rightarrow> u64 \<Rightarrow> u16 \<Rightarrow> u64 \<Rightarrow> switch_context \<Rightarrow> switch_context" where
  "ctx_init entry_point stack_pointer vmid s2_table_base c =
     c\<lparr>elr_el2 := entry_point, sp_el1 := stack_pointer, spsr_el2 := 0x3C5,
       vttbr_el2 := push_bit 48 (ucast vmid) OR (s2_table_base AND 0x0000FFFFFFFFFFFE)\<rparr>"

definition ctx_vmid :: "switch_context \<Rightarrow> u16" where
  "ctx_vmid c = ucast (drop_bit 48 (vttbr_el2 c))"

definition ctx_s2_table_base :: "switch_context \<Rightarrow> u64" where
  "ctx_s2_table_base c = vttbr_el2 c AND 0x0000FFFFFFFFFFFE"

definition is_valid_entry :: "switch_context \<Rightarrow> bool" where
  "is_valid_entry c \<longleftrightarrow> elr_el2 c \<noteq> 0 \<and> vttbr_el2 c \<noteq> 0"

definition HYPERVISOR_BASE :: u64 where "HYPERVISOR_BASE = 0xFFFF000000000000"

definition validate_for_switch :: "switch_context \<Rightarrow> rvm_error + unit" where
  "validate_for_switch c =
     (if elr_el2 c = 0 then Inl InvalidPartitionState
      else if elr_el2 c \<ge> HYPERVISOR_BASE then Inl InvalidPartitionState
      else Inr ())"

record switch_result =
  sr_from_vmid :: u16
  sr_to_vmid :: u16
  sr_elapsed_ns :: u64

definition partition_switch :: "switch_context \<Rightarrow> switch_context \<Rightarrow> rvm_error + switch_result" where
  "partition_switch from to =
     (case validate_for_switch to of
        Inl e \<Rightarrow> Inl e
      | Inr _ \<Rightarrow> Inr \<lparr>sr_from_vmid = ctx_vmid from, sr_to_vmid = ctx_vmid to, sr_elapsed_ns = 0\<rparr>)"

section \<open>Invariant of the coordinator\<close>

definition cpu_ok :: "u16 \<Rightarrow> nat \<Rightarrow> cpu_state \<Rightarrow> bool" where
  "cpu_ok cpu_count i st \<longleftrightarrow>
     cs_cpu_id st = of_nat i \<and> (cs_idle st \<longleftrightarrow> cs_current_partition st = None) \<and>
     (cs_current_partition st \<noteq> None \<longrightarrow> cs_online st) \<and> (cs_online st \<longrightarrow> i < unat cpu_count)"

definition smp_inv :: "nat \<Rightarrow> smp_coordinator \<Rightarrow> bool" where
  "smp_inv n m \<longleftrightarrow> length (smp_cpu_states m) = n \<and>
     (\<forall>i\<in>{0..<n}. cpu_ok (smp_cpu_count m) i (smp_cpu_states m ! i))"

inductive smp_reach :: "nat \<Rightarrow> smp_coordinator \<Rightarrow> bool" for n where
  new: "smp_reach n (smp_new n cpu_count)"
| online: "smp_reach n m \<Longrightarrow> bring_online c m = (r, m') \<Longrightarrow> smp_reach n m'"
| offline: "smp_reach n m \<Longrightarrow> take_offline c m = (r, m') \<Longrightarrow> smp_reach n m'"
| assign: "smp_reach n m \<Longrightarrow> assign_partition c p m = (r, m') \<Longrightarrow> smp_reach n m'"
| release: "smp_reach n m \<Longrightarrow> release_partition c m = (q, m') \<Longrightarrow> smp_reach n m'"

lemma smp_invD: "smp_inv n m \<Longrightarrow> i < n \<Longrightarrow> cpu_ok (smp_cpu_count m) i (smp_cpu_states m ! i)"
  by (simp add: smp_inv_def)

lemma put_state_inv:
  "smp_inv n m \<Longrightarrow> (i < n \<Longrightarrow> cpu_ok (smp_cpu_count m) i st) \<Longrightarrow> smp_inv n (put_state i st m)"
proof -
  assume inv: "smp_inv n m" and st: "i < n \<Longrightarrow> cpu_ok (smp_cpu_count m) i st"
  have "cpu_ok (smp_cpu_count m) j ((smp_cpu_states m)[i := st] ! j)" if "j < n" for j
    using smp_invD [OF inv that] st that inv by (cases "i = j") (simp_all add: smp_inv_def)
  then show ?thesis using inv by (simp add: smp_inv_def put_state_def)
qed

lemmas smp_op_defs = get_state_mut_def Let_def

lemma u8_u16: "unat (ucast (x :: u8) :: u16) = unat x"
  by (simp add: unsigned_ucast_eq take_bit_nat_eq_self less_trans [OF unsigned_less])

lemma smp_reach_inv:
  assumes "smp_reach n m"
  shows "smp_inv n m"
  using assms
proof (induction rule: smp_reach.induct)
  case (new cpu_count)
  then show ?case by (simp add: smp_inv_def smp_new_def Let_def cpu_ok_def cpu_offline_def)
next
  case (online m c r m')
  have len: "length (smp_cpu_states m) = n" using online.IH by (simp add: smp_inv_def)
  show ?case
  proof (cases "(ucast c :: u16) < smp_cpu_count m \<and> unat c < n \<and> \<not> cs_online (smp_cpu_states m ! unat c)")
    case True
    then have "\<not> smp_cpu_count m \<le> (ucast c :: u16)" by (simp add: not_le)
    with True have m': "m' = put_state (unat c) ((smp_cpu_states m ! unat c)
        \<lparr>cs_online := True, cs_idle := True, cs_current_partition := None\<rparr>) m"
      using online.hyps(2) len by (simp add: bring_online_def smp_op_defs)
    have "unat c < unat (smp_cpu_count m)" using True u8_u16 [of c] by (simp add: word_less_nat_alt)
    then show ?thesis
      unfolding m' using smp_invD [OF online.IH, of "unat c"] True
      by (intro put_state_inv [OF online.IH]) (simp add: cpu_ok_def)
  next
    case False
    then have "m' = m" using online.hyps(2) len by (auto simp: bring_online_def smp_op_defs not_le split: if_splits)
    with online.IH show ?thesis by simp
  qed
next
  case (offline m c r m')
  then show ?case
    using smp_invD [OF offline.IH, of "unat c"]
    by (auto simp: take_offline_def smp_op_defs cpu_ok_def split: if_splits intro!: put_state_inv)
next
  case (assign m c p r m')
  then show ?case
    using smp_invD [OF assign.IH, of "unat c"]
    by (auto simp: assign_partition_def smp_op_defs cpu_ok_def split: if_splits intro!: put_state_inv)
next
  case (release m c q m')
  then show ?case
    using smp_invD [OF release.IH, of "unat c"]
    by (auto simp: release_partition_def smp_op_defs cpu_ok_def split: if_splits intro!: put_state_inv)
qed

lemma smp_inv_states:
  assumes "smp_inv n m" "st \<in> set (smp_cpu_states m)"
  obtains i where "i < n" "smp_cpu_states m ! i = st" "cpu_ok (smp_cpu_count m) i st"
  using assms smp_invD [OF assms(1)] by (metis in_set_conv_nth smp_inv_def)

text \<open>A CPU that is online and idle takes a partition, and only such a CPU does.\<close>

lemma assign_ok_iff:
  assumes "smp_inv n m"
  shows "fst (assign_partition c p m) = Inr () \<longleftrightarrow>
     unat c < n \<and> cs_online (smp_cpu_states m ! unat c) \<and> cs_idle (smp_cpu_states m ! unat c)"
  using assms smp_invD [OF assms, of "unat c"]
  by (auto simp: assign_partition_def smp_op_defs smp_inv_def cpu_ok_def)

section \<open>Properties\<close>

text \<open>
  C13.  The coordinator, after any sequence of operations from a new one with at most 256 CPUs: a CPU
  is marked idle exactly when it runs nothing, and only online CPUs run something.  The search for an
  idle CPU is exact: the CPU it returns accepts a partition, which is then found there, and when
  it returns none, every assignment is refused.
\<close>

theorem smp_idle_search_exact:
  assumes "smp_reach n m" "n \<le> 256"
  shows "(\<forall>st\<in>set (smp_cpu_states m). (cs_idle st \<longleftrightarrow> cs_current_partition st = None) \<and>
            (cs_current_partition st \<noteq> None \<longrightarrow> cs_online st)) \<and>
    (case find_idle_cpu m of
       None \<Rightarrow> \<forall>c. fst (assign_partition c p m) \<noteq> Inr ()
     | Some c \<Rightarrow> \<exists>m'. assign_partition c p m = (Inr (), m') \<and> partition_affinity p m' \<noteq> None)"
proof -
  have inv: "smp_inv n m" using smp_reach_inv [OF assms(1)] .
  then have len: "length (smp_cpu_states m) = n" by (simp add: smp_inv_def)
  have "(cs_idle st \<longleftrightarrow> cs_current_partition st = None) \<and> (cs_current_partition st \<noteq> None \<longrightarrow> cs_online st)"
    if "st \<in> set (smp_cpu_states m)" for st
    using smp_inv_states [OF inv that] by (metis cpu_ok_def)
  moreover have "case find_idle_cpu m of
       None \<Rightarrow> \<forall>c. fst (assign_partition c p m) \<noteq> Inr ()
     | Some c \<Rightarrow> \<exists>m'. assign_partition c p m = (Inr (), m') \<and> partition_affinity p m' \<noteq> None"
  proof (cases "find (\<lambda>s. cs_online s \<and> cs_idle s) (smp_cpu_states m)")
    case None
    then have "\<not> (cs_online (smp_cpu_states m ! i) \<and> cs_idle (smp_cpu_states m ! i))" if "i < n" for i
      using that len by (auto simp: find_None_iff)
    then show ?thesis using None assign_ok_iff [OF inv] by (auto simp: find_idle_cpu_def)
  next
    case (Some st)
    then have st: "st \<in> set (smp_cpu_states m)" "cs_online st" "cs_idle st"
      by (auto simp: find_Some_iff)
    from smp_inv_states [OF inv st(1)] obtain i where
      i: "i < n" "smp_cpu_states m ! i = st" "cpu_ok (smp_cpu_count m) i st" by blast
    then have c: "unat (cs_cpu_id st) = i"
      using assms(2) by (simp add: cpu_ok_def unsigned_of_nat take_bit_nat_eq_self)
    define st' where "st' = st\<lparr>cs_current_partition := Some p, cs_idle := False,
        cs_epoch_ticks := saturating_add (cs_epoch_ticks st) 1\<rparr>"
    have "cs_current_partition st = None" using i(3) st by (simp add: cpu_ok_def)
    then have run: "assign_partition (cs_cpu_id st) p m = (Inr (), put_state i st' m)"
      using i c st len by (simp add: assign_partition_def smp_op_defs st'_def)
    have "st' \<in> set (smp_cpu_states (put_state i st' m))"
      using i len by (simp add: put_state_def set_update_memI)
    moreover have "cs_online st'" "cs_current_partition st' = Some p" using st by (simp_all add: st'_def)
    ultimately have "partition_affinity p (put_state i st' m) \<noteq> None"
      by (auto simp: partition_affinity_def find_None_iff)
    with Some run show ?thesis by (simp add: find_idle_cpu_def)
  qed
  ultimately show ?thesis by blast
qed

definition demo_smp :: smp_coordinator where
  "demo_smp = snd (bring_online 1 (smp_new (Suc (Suc 0)) 2))"

theorem smp_idle_search_exact_witness:
  "find_idle_cpu demo_smp = Some 1 \<and>
   (\<exists>m'. assign_partition 1 5 demo_smp = (Inr (), m') \<and> partition_affinity 5 m' \<noteq> None)"
proof -
  have "smp_reach (Suc (Suc 0)) demo_smp"
    using smp_reach.online [OF smp_reach.new surjective_pairing] by (simp add: demo_smp_def)
  moreover have "find_idle_cpu demo_smp = Some 1"
    by (simp add: demo_smp_def bring_online_def smp_new_def smp_op_defs cpu_offline_def put_state_def
        find_idle_cpu_def word_le_nat_alt)
  ultimately show ?thesis using smp_idle_search_exact [of "Suc (Suc 0)" demo_smp 5] by simp
qed

text \<open>
  A context initialised for a partition gives back its virtual machine identifier and the
  stage-2 table base (without the bits outside \<open>[47:1]\<close>) from the packed register, whatever the
  values; the two fields never overlap.  A switch to it succeeds exactly when the entry point is
  neither zero nor in the hypervisor's half, and reports both identifiers.
\<close>

theorem switch_context_roundtrip:
  "ctx_vmid (ctx_init e sp v t c) = v \<and>
   ctx_s2_table_base (ctx_init e sp v t c) = t AND 0x0000FFFFFFFFFFFE \<and>
   partition_switch from (ctx_init e sp v t c) =
     (if e = 0 \<or> e \<ge> HYPERVISOR_BASE then Inl InvalidPartitionState
      else Inr \<lparr>sr_from_vmid = ctx_vmid from, sr_to_vmid = v, sr_elapsed_ns = 0\<rparr>)"
proof -
  define lo where "lo = t AND 0x0000FFFFFFFFFFFE"
  have mask: "(0x0000FFFFFFFFFFFE :: u64) = push_bit 1 (mask 47)" by (simp add: mask_eq_exp_minus_1)
  have mask_bits: "bit (0x0000FFFFFFFFFFFE :: u64) i \<longleftrightarrow> 0 < i \<and> i < 48" for i
    unfolding mask bit_push_bit_iff bit_mask_iff by auto
  have lo: "bit lo i \<longleftrightarrow> bit t i \<and> 0 < i \<and> i < 48" for i
    unfolding lo_def bit_and_iff mask_bits by auto
  have hi: "bit (push_bit 48 (ucast v :: u64)) i \<longleftrightarrow> 48 \<le> i \<and> bit v (i - 48)" for i
    using bit_imp_le_length [of v "i - 48"] by (auto simp: bit_simps)
  have reg: "vttbr_el2 (ctx_init e sp v t c) = push_bit 48 (ucast v) OR lo"
    by (simp add: ctx_init_def lo_def)
  have v: "ctx_vmid (ctx_init e sp v t c) = v"
    unfolding ctx_vmid_def reg
    by (rule bit_word_eqI) (auto simp: bit_simps lo hi)
  moreover have "(push_bit 48 (ucast v :: u64) OR lo) AND 0x0000FFFFFFFFFFFE = lo"
  proof (rule bit_word_eqI)
    fix n
    show "bit ((push_bit 48 (ucast v :: u64) OR lo) AND 0x0000FFFFFFFFFFFE) n \<longleftrightarrow> bit lo n"
      unfolding bit_and_iff bit_or_iff hi lo mask_bits by auto
  qed
  then have "ctx_s2_table_base (ctx_init e sp v t c) = t AND 0x0000FFFFFFFFFFFE"
    unfolding ctx_s2_table_base_def reg by (simp only: lo_def)
  moreover have "elr_el2 (ctx_init e sp v t c) = e" by (simp add: ctx_init_def)
  ultimately show ?thesis by (auto simp: partition_switch_def validate_for_switch_def)
qed

end
