(* ===== verification/Buddy_Blocks.thy ===== *)
theory Buddy_Blocks
  imports Rvm_Prelude
begin

unbundle bit_operations_syntax

text \<open>
  The abstract view of the buddy allocator of \<open>rvm-memory\<close>: a set of free blocks, each given by its
  order and its index at that order.  \<open>blocks_ok\<close> says that free blocks do not overlap and that no
  two buddies are free; the lemmas here are the steps of the allocator on such sets (taking
  a block, splitting it, giving one back and merging buddies) and the completeness fact that an
  aligned range of free pages lies in one free block.
\<close>

type_synonym block = "nat \<times> nat"

definition pages :: "block \<Rightarrow> nat set" where
  "pages x = {snd x * 2 ^ fst x ..< Suc (snd x) * 2 ^ fst x}"

definition buddy :: "nat \<Rightarrow> nat" where
  "buddy b = b XOR 1"

definition free_set :: "block set \<Rightarrow> nat set" where
  "free_set S = (\<Union>x\<in>S. pages x)"

definition disjoint_blocks :: "block set \<Rightarrow> bool" where
  "disjoint_blocks S \<longleftrightarrow> (\<forall>x\<in>S. \<forall>y\<in>S. x \<noteq> y \<longrightarrow> pages x \<inter> pages y = {})"

text \<open>No two free buddies below the top order, except possibly the pair of one block.\<close>

definition merged_but :: "nat \<Rightarrow> block set \<Rightarrow> block set \<Rightarrow> bool" where
  "merged_but mx E S \<longleftrightarrow> (\<forall>x\<in>S. fst x < mx \<longrightarrow> x \<notin> E \<longrightarrow> (fst x, buddy (snd x)) \<notin> E \<longrightarrow> (fst x, buddy (snd x)) \<notin> S)"

definition blocks_ok :: "nat \<Rightarrow> block set \<Rightarrow> bool" where
  "blocks_ok mx S \<longleftrightarrow> disjoint_blocks S \<and> merged_but mx {} S"

section \<open>Geometry\<close>

lemma mem_pages: "p \<in> pages (k, b) \<longleftrightarrow> p div 2 ^ k = b"
proof
  assume "p \<in> pages (k, b)"
  then show "p div 2 ^ k = b" by (intro div_nat_eqI) (simp_all add: pages_def mult.commute)
next
  assume "p div 2 ^ k = b"
  then show "p \<in> pages (k, b)"
    using dividend_less_div_times [of "2 ^ k" p] by (auto simp: pages_def)
qed

lemma div_two_powers: "k \<le> l \<Longrightarrow> q div 2 ^ l = q div 2 ^ k div 2 ^ (l - k)" for q :: nat
  by (simp add: div_mult2_eq [symmetric] power_add [symmetric])

lemma pages_nonempty [simp]: "pages x \<noteq> {}"
  by (simp add: pages_def)

lemma pages_base: "b * 2 ^ k \<in> pages (k, b)"
  by (simp add: mem_pages)

lemma pages_nested:
  assumes "k \<le> l" "pages (k, b) \<inter> pages (l, c) \<noteq> {}"
  shows "pages (k, b) \<subseteq> pages (l, c)" "c = b div 2 ^ (l - k)"
proof -
  obtain p where "p \<in> pages (k, b)" "p \<in> pages (l, c)" using assms(2) by blast
  then have p: "p div 2 ^ k = b" "p div 2 ^ l = c" by (simp_all add: mem_pages)
  note two = div_two_powers [OF assms(1)]
  show c: "c = b div 2 ^ (l - k)" using p two [of p] by simp
  show "pages (k, b) \<subseteq> pages (l, c)" using two c by (auto simp: mem_pages)
qed

lemma pages_ancestor: "k \<le> l \<Longrightarrow> pages (k, b) \<subseteq> pages (l, b div 2 ^ (l - k))"
proof -
  assume kl: "k \<le> l"
  have "b * 2 ^ k \<in> pages (l, b div 2 ^ (l - k))" using div_two_powers [OF kl, of "b * 2 ^ k"] by (simp add: mem_pages)
  then have "pages (k, b) \<inter> pages (l, b div 2 ^ (l - k)) \<noteq> {}" using pages_base by blast
  from pages_nested(1) [OF kl this] show ?thesis .
qed

lemma pages_same_order: "pages (k, b) \<inter> pages (k, c) \<noteq> {} \<Longrightarrow> b = c"
  by (auto simp: mem_pages)

lemma pages_children: "pages (Suc k, b) = pages (k, 2 * b) \<union> pages (k, Suc (2 * b))"
  by (auto simp: mem_pages div_mult2_eq mult.commute [of 2])

lemma buddy_parity: "buddy b = (if even b then Suc b else b - 1)"
  unfolding buddy_def xor_one_eq by auto

lemma buddy_simps [simp]:
  "buddy (2 * b) = Suc (2 * b)" "buddy (Suc (2 * b)) = 2 * b" "buddy (buddy b) = b" "buddy b \<noteq> b" "b \<noteq> buddy b"
  "buddy b div 2 = b div 2"
  by (auto simp: buddy_parity elim!: oddE evenE)

lemma buddy_eq_iff: "buddy a = b \<longleftrightarrow> a = buddy b"
  by (metis buddy_simps(3))

lemma buddy_pages: "pages (k, b) \<union> pages (k, buddy b) = pages (Suc k, b div 2)"
proof (cases "even b")
  case True
  then show ?thesis by (simp add: pages_children buddy_parity)
next
  case False
  then show ?thesis by (auto simp: pages_children buddy_parity elim!: oddE)
qed

section \<open>Taking, splitting and returning\<close>

lemma free_set_insert: "free_set (insert x S) = pages x \<union> free_set S"
  by (simp add: free_set_def)

lemma free_set_remove:
  "disjoint_blocks S \<Longrightarrow> x \<in> S \<Longrightarrow> free_set (S - {x}) = free_set S - pages x"
  by (fastforce simp: free_set_def disjoint_blocks_def)

lemma not_in_free: "pages x \<inter> free_set S = {} \<Longrightarrow> x \<notin> S"
  using pages_nonempty [of x] unfolding free_set_def by blast

lemma disjoint_subset: "disjoint_blocks S \<Longrightarrow> T \<subseteq> S \<Longrightarrow> disjoint_blocks T"
  unfolding disjoint_blocks_def by blast

lemma blocks_ok_subset: "blocks_ok mx S \<Longrightarrow> T \<subseteq> S \<Longrightarrow> blocks_ok mx T"
  unfolding blocks_ok_def merged_but_def using disjoint_subset by blast

lemma disjoint_insert:
  "disjoint_blocks S \<Longrightarrow> pages x \<inter> free_set S = {} \<Longrightarrow> disjoint_blocks (insert x S)"
  by (auto simp: disjoint_blocks_def free_set_def)

text \<open>One level of a split: the right half of a held block becomes free, the left half is held.\<close>

lemma split_step:
  assumes ok: "blocks_ok mx S" and held: "pages (Suc k, b) \<inter> free_set S = {}"
  shows "blocks_ok mx (insert (k, Suc (2 * b)) S)"
    "pages (k, 2 * b) \<inter> free_set (insert (k, Suc (2 * b)) S) = {}"
    "free_set (insert (k, Suc (2 * b)) S) = free_set S \<union> (pages (Suc k, b) - pages (k, 2 * b))"
proof -
  have half: "pages (k, 2 * b) \<inter> pages (k, Suc (2 * b)) = {}" by (auto simp: mem_pages)
  have h: "pages (k, 2 * b) \<inter> free_set S = {}" "pages (k, Suc (2 * b)) \<inter> free_set S = {}"
    using held by (auto simp: pages_children)
  then have "(k, 2 * b) \<notin> S" using not_in_free by blast
  then have "merged_but mx {} (insert (k, Suc (2 * b)) S)"
    using ok by (auto simp: blocks_ok_def merged_but_def buddy_eq_iff)
  then show "blocks_ok mx (insert (k, Suc (2 * b)) S)"
    using ok disjoint_insert h(2) by (simp add: blocks_ok_def)
  show "pages (k, 2 * b) \<inter> free_set (insert (k, Suc (2 * b)) S) = {}"
    using h half by (auto simp: free_set_insert)
  show "free_set (insert (k, Suc (2 * b)) S) = free_set S \<union> (pages (Suc k, b) - pages (k, 2 * b))"
    using half by (auto simp: free_set_insert pages_children)
qed

lemma return_block:
  assumes "blocks_ok mx S" "pages x \<inter> free_set S = {}"
  shows "disjoint_blocks (insert x S)" "merged_but mx {x} (insert x S)"
  using assms disjoint_insert [of S x] by (auto simp: blocks_ok_def merged_but_def)

text \<open>One level of a merge.\<close>

lemma merge_stop:
  assumes "disjoint_blocks S" "merged_but mx {(k, b)} S" "(k, buddy b) \<notin> S \<or> mx \<le> k"
  shows "blocks_ok mx S"
  using assms unfolding blocks_ok_def merged_but_def by (auto simp: buddy_eq_iff)

lemma merge_step:
  assumes dis: "disjoint_blocks S" and mer: "merged_but mx {(k, b)} S"
    and in_S: "(k, b) \<in> S" "(k, buddy b) \<in> S"
  defines "T \<equiv> insert (Suc k, b div 2) (S - {(k, b)} - {(k, buddy b)})"
  shows "disjoint_blocks T" "merged_but mx {(Suc k, b div 2)} T" "free_set T = free_set S"
proof -
  let ?R = "S - {(k, b)} - {(k, buddy b)}"
  have R: "free_set ?R = free_set S - pages (k, b) - pages (k, buddy b)"
    using free_set_remove [OF dis in_S(1)] in_S
      free_set_remove [OF disjoint_subset [OF dis], of "S - {(k, b)}" "(k, buddy b)"] by auto
  have sub: "disjoint_blocks ?R" by (rule disjoint_subset [OF dis]) auto
  have "pages (Suc k, b div 2) \<inter> free_set ?R = {}" unfolding R buddy_pages [symmetric] by auto
  then show "disjoint_blocks T" unfolding T_def by (rule disjoint_insert [OF sub])
  have "pages (k, b) \<subseteq> free_set S" "pages (k, buddy b) \<subseteq> free_set S" using in_S by (auto simp: free_set_def)
  then show "free_set T = free_set S" unfolding T_def free_set_insert R buddy_pages [symmetric] by auto
  show "merged_but mx {(Suc k, b div 2)} T"
    using mer unfolding merged_but_def T_def by (auto simp: buddy_eq_iff)
qed

section \<open>Completeness\<close>

lemma free_range_in_block:
  assumes ok: "blocks_ok mx S" and k: "k \<le> mx" and free: "pages (k, b) \<subseteq> free_set S"
  shows "\<exists>x\<in>S. k \<le> fst x \<and> pages (k, b) \<subseteq> pages x"
  using k free
proof (induction k arbitrary: b)
  case 0
  have "b \<in> pages (0, b)" by (simp add: mem_pages)
  with 0 obtain x where x: "x \<in> S" "b \<in> pages x" by (auto simp: free_set_def)
  moreover have "pages (0, b) = {b}" by (auto simp: mem_pages)
  ultimately show ?case by auto
next
  case (Suc k)
  have half: "pages (k, 2 * b) \<subseteq> pages (Suc k, b)" "pages (k, Suc (2 * b)) \<subseteq> pages (Suc k, b)"
    by (auto simp: pages_children)
  obtain x y where x: "x \<in> S" "k \<le> fst x" "pages (k, 2 * b) \<subseteq> pages x"
    and y: "y \<in> S" "k \<le> fst y" "pages (k, Suc (2 * b)) \<subseteq> pages y"
    using Suc.IH [of "2 * b"] Suc.IH [of "Suc (2 * b)"] Suc.prems half by force
  have up: "pages (Suc k, b) \<subseteq> pages z" if "Suc k \<le> fst z" "pages (k, c) \<subseteq> pages z" "pages (k, c) \<subseteq> pages (Suc k, b)"
    for z c
    using pages_nested(1) [of "Suc k" "fst z" b "snd z"] that pages_nonempty [of "(k, c)"] by (simp, blast)
  consider "Suc k \<le> fst x" | "Suc k \<le> fst y" | "fst x = k" "fst y = k" using x(2) y(2) by linarith
  then show ?case
  proof cases
    case 1
    then show ?thesis using up [OF 1 x(3) half(1)] x(1) by blast
  next
    case 2
    then show ?thesis using up [OF 2 y(3) half(2)] y(1) by blast
  next
    case 3
    then have "x = (k, 2 * b)" "y = (k, Suc (2 * b))"
      using x(3) y(3) pages_same_order [of k "2 * b" "snd x"] pages_same_order [of k "Suc (2 * b)" "snd y"]
        pages_nonempty by (metis inf.absorb1 prod.collapse)+
    then have False
      using ok x(1) y(1) Suc.prems(1) by (force simp: blocks_ok_def merged_but_def)
    then show ?thesis ..
  qed
qed

end
