(* ===== verification/Buddy.thy ===== *)
theory Buddy
  imports Buddy_Blocks Rvm_Types
begin

text \<open>
  Crate \<open>rvm-memory\<close>, file \<open>allocator.rs\<close>: the buddy allocator on one flat bitmap, one bit per
  block and order, a set bit for a free block.  The const parameters \<open>TOTAL_PAGES\<close> and
  \<open>BITMAP_WORDS\<close> are a field of the record and the length of the bitmap; indices and page
  counts are natural numbers, addresses are words.  \<open>free_blocks\<close> abstracts the bitmap to the set of
  free blocks of \<open>Buddy_Blocks\<close>.
\<close>

section \<open>State\<close>

definition MAX_ORDER :: nat where "MAX_ORDER = 10"

abbreviation PAGE_SIZE :: u64 where "PAGE_SIZE \<equiv> 4096"

definition words_for_bits :: "nat \<Rightarrow> nat" where
  "words_for_bits bits = (bits + 63) div 64"

text \<open>The sum that the loops of \<open>total_bitmap_bits\<close> and \<open>new\<close> accumulate.\<close>

primrec bits_below :: "nat \<Rightarrow> nat \<Rightarrow> nat" where
  "bits_below total_pages 0 = 0"
| "bits_below total_pages (Suc order) = bits_below total_pages order + total_pages div 2 ^ order"

definition total_bitmap_bits :: "nat \<Rightarrow> nat" where
  "total_bitmap_bits total_pages = bits_below total_pages (MAX_ORDER + 1)"

record buddy_allocator =
  ba_total_pages :: nat
  ba_base :: phys_addr
  ba_bitmap :: "u64 list"
  ba_bit_offsets :: "nat list"

section \<open>Bitmap helpers\<close>

definition bit_offset :: "nat \<Rightarrow> nat \<Rightarrow> buddy_allocator \<Rightarrow> nat" where
  "bit_offset order blk a = ba_bit_offsets a ! order + blk"

definition is_free :: "nat \<Rightarrow> nat \<Rightarrow> buddy_allocator \<Rightarrow> bool" where
  "is_free order blk a =
     (let b = bit_offset order blk a; w = b div 64; bit_in_word = b mod 64 in
      if w \<ge> length (ba_bitmap a) then False
      else drop_bit bit_in_word (ba_bitmap a ! w) AND 1 = 1)"

definition set_free :: "nat \<Rightarrow> nat \<Rightarrow> buddy_allocator \<Rightarrow> buddy_allocator" where
  "set_free order blk a =
     (let b = bit_offset order blk a; w = b div 64; bit_in_word = b mod 64 in
      if w < length (ba_bitmap a)
      then a\<lparr>ba_bitmap := (ba_bitmap a)[w := ba_bitmap a ! w OR push_bit bit_in_word 1]\<rparr>
      else a)"

definition clear_free :: "nat \<Rightarrow> nat \<Rightarrow> buddy_allocator \<Rightarrow> buddy_allocator" where
  "clear_free order blk a =
     (let b = bit_offset order blk a; w = b div 64; bit_in_word = b mod 64 in
      if w < length (ba_bitmap a)
      then a\<lparr>ba_bitmap := (ba_bitmap a)[w := ba_bitmap a ! w AND NOT (push_bit bit_in_word 1)]\<rparr>
      else a)"

text \<open>\<open>u64::trailing_zeros\<close>\<close>

definition trailing_zeros :: "u64 \<Rightarrow> nat" where
  "trailing_zeros w = length (takeWhile (\<lambda>i. \<not> bit w i) [0..<64])"

text \<open>The scan over full words of \<open>find_first_free\<close>.\<close>

function scan_words :: "u64 list \<Rightarrow> nat \<Rightarrow> nat \<Rightarrow> nat \<Rightarrow> nat option" where
  "scan_words bitmap remaining word_idx bit_offset_in_level =
     (if remaining > 0 \<and> word_idx < length bitmap then
        let w = bitmap ! word_idx; tz = trailing_zeros w in
        if w \<noteq> 0 \<and> tz < min remaining 64 then Some (bit_offset_in_level + tz)
        else
          let consumed = min remaining 64 in
          scan_words bitmap (remaining - consumed) (word_idx + 1) (bit_offset_in_level + consumed)
      else None)"
  by pat_completeness auto
termination by (relation "measure (\<lambda>(bitmap, remaining, _, _). remaining)") auto

declare scan_words.simps [simp del]

definition find_first_free :: "nat \<Rightarrow> buddy_allocator \<Rightarrow> nat option" where
  "find_first_free order a =
     (let block_count = ba_total_pages a div 2 ^ order in
      if block_count = 0 then None
      else
        let base_bit = ba_bit_offsets a ! order;
            start_word = base_bit div 64;
            start_bit_in_word = base_bit mod 64;
            remaining = block_count
        in
        if start_bit_in_word \<noteq> 0 \<and> start_word < length (ba_bitmap a) then
          let msk = drop_bit start_bit_in_word (ba_bitmap a ! start_word);
              tz = trailing_zeros msk
          in
          if msk \<noteq> 0 \<and> tz < remaining \<and> start_bit_in_word + tz < 64 then Some tz
          else
            let consumed = min (64 - start_bit_in_word) remaining in
            scan_words (ba_bitmap a) (remaining - consumed) (start_word + 1) consumed
        else scan_words (ba_bitmap a) remaining start_word 0)"

section \<open>Allocation\<close>

primrec shrink_order :: "nat \<Rightarrow> nat \<Rightarrow> nat" where
  "shrink_order total_pages 0 = 0"
| "shrink_order total_pages (Suc order) =
     (if 2 ^ Suc order > total_pages then shrink_order total_pages order else Suc order)"

definition max_usable_order :: "buddy_allocator \<Rightarrow> nat" where
  "max_usable_order a = shrink_order (ba_total_pages a) MAX_ORDER"

definition init_free_all :: "buddy_allocator \<Rightarrow> buddy_allocator" where
  "init_free_all a =
     (let a = a\<lparr>ba_bitmap := map (\<lambda>_. 0) (ba_bitmap a)\<rparr>;
          mx = max_usable_order a
      in foldl (\<lambda>a blk. set_free mx blk a) a [0..<ba_total_pages a div 2 ^ mx])"

definition buddy_new :: "nat \<Rightarrow> nat \<Rightarrow> phys_addr \<Rightarrow> rvm_error + buddy_allocator" where
  "buddy_new total_pages bitmap_words base =
     (if \<not> is_page_aligned base then Inl AlignmentError
      else if bitmap_words < words_for_bits (total_bitmap_bits total_pages) then Inl ResourceLimitExceeded
      else Inr (init_free_all
        \<lparr>ba_total_pages = total_pages, ba_base = base, ba_bitmap = replicate bitmap_words 0,
         ba_bit_offsets = map (bits_below total_pages) [0..<MAX_ORDER + 1]\<rparr>))"

definition block_addr :: "nat \<Rightarrow> nat \<Rightarrow> buddy_allocator \<Rightarrow> phys_addr" where
  "block_addr order blk a = ba_base a + of_nat (blk * 2 ^ order) * PAGE_SIZE"

text \<open>The inner loop of a split.\<close>

function split_down :: "nat \<Rightarrow> nat \<Rightarrow> nat \<Rightarrow> buddy_allocator \<Rightarrow> nat \<times> buddy_allocator" where
  "split_down order current_order current_blk a =
     (if current_order > order then
        let current_order' = current_order - 1;
            left_child = current_blk * 2;
            right_child = left_child + 1
        in split_down order current_order' left_child (set_free current_order' right_child a)
      else (current_blk, a))"
  by pat_completeness auto
termination by (relation "measure (\<lambda>(order, current_order, _, _). current_order)") auto

text \<open>The outer loop of a split.\<close>

function split_search :: "nat \<Rightarrow> nat \<Rightarrow> buddy_allocator \<Rightarrow> (rvm_error, phys_addr, buddy_allocator) outcome" where
  "split_search order split_order a =
     (if split_order \<le> max_usable_order a then
        (case find_first_free split_order a of
           Some blk \<Rightarrow>
             let (current_blk, a') = split_down order split_order blk (clear_free split_order blk a)
             in (Inr (block_addr order current_blk a'), a')
         | None \<Rightarrow> split_search order (split_order + 1) a)
      else (Inl OutOfMemory, a))"
  by pat_completeness auto
termination by (relation "measure (\<lambda>(order, split_order, a). Suc (max_usable_order a) - split_order)") auto

declare split_down.simps [simp del] split_search.simps [simp del]

definition alloc_pages :: "nat \<Rightarrow> buddy_allocator \<Rightarrow> (rvm_error, phys_addr, buddy_allocator) outcome" where
  "alloc_pages order a =
     (if order > max_usable_order a then (Inl OutOfMemory, a)
      else case find_first_free order a of
        Some blk \<Rightarrow> let a' = clear_free order blk a in (Inr (block_addr order blk a'), a')
      | None \<Rightarrow> split_search order (order + 1) a)"

lemma set_free_fields [simp]:
  "max_usable_order (set_free k b a) = max_usable_order a" "ba_total_pages (set_free k b a) = ba_total_pages a"
  "ba_base (set_free k b a) = ba_base a" "ba_bit_offsets (set_free k b a) = ba_bit_offsets a"
  "length (ba_bitmap (set_free k b a)) = length (ba_bitmap a)"
  by (simp_all add: max_usable_order_def set_free_def Let_def)

lemma clear_free_fields [simp]:
  "max_usable_order (clear_free k b a) = max_usable_order a" "ba_total_pages (clear_free k b a) = ba_total_pages a"
  "ba_base (clear_free k b a) = ba_base a" "ba_bit_offsets (clear_free k b a) = ba_bit_offsets a"
  "length (ba_bitmap (clear_free k b a)) = length (ba_bitmap a)"
  by (simp_all add: max_usable_order_def clear_free_def Let_def)

section \<open>Freeing\<close>

text \<open>The ancestor walk of \<open>is_block_free\<close>, from a given order and index.\<close>

function ancestor_free :: "nat \<Rightarrow> nat \<Rightarrow> buddy_allocator \<Rightarrow> bool" where
  "ancestor_free order blk a =
     (if order \<le> max_usable_order a then
        if is_free order blk a then True else ancestor_free (order + 1) (blk div 2) a
      else False)"
  by pat_completeness auto
termination by (relation "measure (\<lambda>(order, blk, a). Suc (max_usable_order a) - order)") auto

definition is_block_free :: "nat \<Rightarrow> nat \<Rightarrow> buddy_allocator \<Rightarrow> bool" where
  "is_block_free order block_index a =
     (if is_free order block_index a then True
      else ancestor_free (order + 1) (block_index div 2) a)"

function coalesce :: "nat \<Rightarrow> nat \<Rightarrow> buddy_allocator \<Rightarrow> buddy_allocator" where
  "coalesce current_order current_blk a =
     (if current_order < max_usable_order a then
        let bud = buddy current_blk; block_count = ba_total_pages a div 2 ^ current_order in
        if bud \<ge> block_count then a
        else if \<not> is_free current_order bud a then a
        else
          let a1 = clear_free current_order bud (clear_free current_order current_blk a)
          in coalesce (current_order + 1) (current_blk div 2)
               (set_free (current_order + 1) (current_blk div 2) a1)
      else a)"
  by pat_completeness auto
termination
  by (relation "measure (\<lambda>(order, blk, a). max_usable_order a - order)") auto

declare ancestor_free.simps [simp del] coalesce.simps [simp del]

definition free_pages :: "phys_addr \<Rightarrow> nat \<Rightarrow> buddy_allocator \<Rightarrow> (rvm_error, unit, buddy_allocator) outcome" where
  "free_pages addr order a =
     (if order > max_usable_order a then (Inl InvalidTierTransition, a)
      else if addr < ba_base a then (Inl AlignmentError, a)
      else
        let offset_bytes = addr - ba_base a in
        if offset_bytes mod PAGE_SIZE \<noteq> 0 then (Inl AlignmentError, a)
        else
          let page_offset = unat (offset_bytes div PAGE_SIZE) in
          if page_offset \<ge> ba_total_pages a then (Inl AlignmentError, a)
          else
            let block_index = page_offset div 2 ^ order in
            if block_index * 2 ^ order \<noteq> page_offset then (Inl AlignmentError, a)
            else if is_block_free order block_index a then (Inl InternalError, a)
            else (Inr (), coalesce order block_index (set_free order block_index a)))"

definition free_page_count :: "buddy_allocator \<Rightarrow> nat" where
  "free_page_count a =
     sum_list (map (\<lambda>order. sum_list (map (\<lambda>blk. if is_free order blk a then 2 ^ order else 0)
                                       [0..<ba_total_pages a div 2 ^ order]))
                   [0..<Suc (max_usable_order a)])"

section \<open>The bitmap as a set of bits\<close>

definition map_bit :: "u64 list \<Rightarrow> nat \<Rightarrow> bool" where
  "map_bit ws n \<longleftrightarrow> n div 64 < length ws \<and> bit (ws ! (n div 64)) (n mod 64)"

lemma is_free_bit: "is_free k b a = map_bit (ba_bitmap a) (bit_offset k b a)"
  by (auto simp: is_free_def map_bit_def Let_def bit_iff_and_drop_bit_eq_1)

lemma div_mod_64_eq: "m div 64 = n div 64 \<Longrightarrow> m mod 64 = n mod 64 \<Longrightarrow> m = n" for m n :: nat
  by (metis div_mult_mod_eq)

lemma map_bit_set_free:
  assumes "bit_offset k b a div 64 < length (ba_bitmap a)"
  shows "map_bit (ba_bitmap (set_free k b a)) n \<longleftrightarrow> n = bit_offset k b a \<or> map_bit (ba_bitmap a) n"
proof (cases "n div 64 = bit_offset k b a div 64")
  case True
  then show ?thesis
    using assms div_mod_64_eq [of n "bit_offset k b a"]
    by (auto simp: map_bit_def set_free_def Let_def bit_or_iff bit_exp_iff)
next
  case False
  then show ?thesis using assms by (auto simp: map_bit_def set_free_def Let_def)
qed

lemma map_bit_clear_free:
  assumes "bit_offset k b a div 64 < length (ba_bitmap a)"
  shows "map_bit (ba_bitmap (clear_free k b a)) n \<longleftrightarrow> n \<noteq> bit_offset k b a \<and> map_bit (ba_bitmap a) n"
proof (cases "n div 64 = bit_offset k b a div 64")
  case True
  then show ?thesis
    using assms div_mod_64_eq [of n "bit_offset k b a"]
    by (auto simp: map_bit_def clear_free_def Let_def bit_and_iff bit_not_iff bit_exp_iff)
next
  case False
  then show ?thesis using assms by (auto simp: map_bit_def clear_free_def Let_def)
qed

section \<open>The word scan finds the first free block\<close>

lemma trailing_zeros_props:
  "\<And>j. j < trailing_zeros w \<Longrightarrow> \<not> bit w j" "trailing_zeros w \<le> 64"
  "trailing_zeros w < 64 \<Longrightarrow> bit w (trailing_zeros w)" "w \<noteq> 0 \<Longrightarrow> trailing_zeros w < 64"
proof -
  let ?xs = "[0..<64] :: nat list" and ?P = "\<lambda>i. \<not> bit w i"
  show "trailing_zeros w \<le> 64"
    unfolding trailing_zeros_def using length_takeWhile_le [of ?P ?xs] by simp
  show z: "\<not> bit w j" if "j < trailing_zeros w" for j
  proof -
    have j: "j < length (takeWhile ?P ?xs)" using that by (simp add: trailing_zeros_def)
    then have "takeWhile ?P ?xs ! j = j"
      using takeWhile_nth [OF j] length_takeWhile_le [of ?P ?xs] by simp
    then show ?thesis using nth_mem [OF j] set_takeWhileD [of j ?P ?xs] by simp
  qed
  show "trailing_zeros w < 64 \<Longrightarrow> bit w (trailing_zeros w)"
    using nth_length_takeWhile [of ?P ?xs] by (simp add: trailing_zeros_def)
  assume "w \<noteq> 0"
  then obtain i where i: "i < 64" "bit w i" using bit_word_eqI [of w 0] by auto
  then show "trailing_zeros w < 64" using z [of i] by (meson less_le_trans not_le)
qed

text \<open>The first index in a range that satisfies a predicate.\<close>

definition first_in :: "nat \<Rightarrow> nat \<Rightarrow> (nat \<Rightarrow> bool) \<Rightarrow> nat option \<Rightarrow> bool" where
  "first_in lo hi P r \<longleftrightarrow>
     (case r of None \<Rightarrow> \<forall>i\<in>{lo..<hi}. \<not> P i
      | Some i \<Rightarrow> lo \<le> i \<and> i < hi \<and> P i \<and> (\<forall>j\<in>{lo..<i}. \<not> P j))"

lemma first_in_skip:
  assumes "first_in mid hi P r" "lo \<le> mid" "\<And>i. lo \<le> i \<Longrightarrow> i < mid \<Longrightarrow> i < hi \<Longrightarrow> \<not> P i"
  shows "first_in lo hi P r"
proof (cases r)
  case None
  with assms show ?thesis by (auto simp: first_in_def)
next
  case (Some i)
  with assms show ?thesis by (auto simp: first_in_def)
qed

lemma first_in_find: "first_in 0 n P r \<Longrightarrow> r = find P [0..<n]"
proof (cases r)
  case None
  then show "first_in 0 n P r \<Longrightarrow> r = find P [0..<n]" by (simp add: first_in_def find_None_iff eq_commute [of None])
next
  case (Some i)
  assume "first_in 0 n P r"
  with Some have "i < n" "P i" "\<forall>j<i. \<not> P j" by (auto simp: first_in_def)
  then have "find P [0..<n] = Some i" by (auto simp: find_Some_iff intro!: exI [of _ i])
  with Some show "r = find P [0..<n]" by simp
qed

lemma scan_words_first:
  assumes "64 * word_idx = base + off" "base + off + remaining \<le> 64 * length bitmap"
  shows "first_in off (off + remaining) (\<lambda>i. map_bit bitmap (base + i)) (scan_words bitmap remaining word_idx off)"
  using assms
proof (induction bitmap remaining word_idx off rule: scan_words.induct)
  case (1 bitmap remaining word_idx off)
  let ?P = "\<lambda>i. map_bit bitmap (base + i)" and ?c = "min remaining 64"
  show ?case
  proof (cases "remaining > 0 \<and> word_idx < length bitmap")
    case False
    then have "remaining = 0" using 1(2,3) by auto
    then show ?thesis by (simp add: scan_words.simps first_in_def)
  next
    case True
    let ?w = "bitmap ! word_idx" and ?tz = "trailing_zeros (bitmap ! word_idx)"
    have P: "?P (off + j) = bit ?w j" if "j < 64" for j
    proof -
      have n: "base + (off + j) = 64 * word_idx + j" using 1(2) by simp
      show ?thesis unfolding map_bit_def n using that True by simp
    qed
    show ?thesis
    proof (cases "?w \<noteq> 0 \<and> ?tz < ?c")
      case hit: True
      have "\<not> ?P i" if i: "off \<le> i" "i < off + ?tz" for i
      proof -
        have "i - off < ?tz" "i - off < 64" using i hit by auto
        then show ?thesis using P [of "i - off"] trailing_zeros_props(1) [of "i - off" ?w] i(1) by simp
      qed
      then show ?thesis
        using hit True P [of ?tz] trailing_zeros_props(3) [of ?w]
        by (subst scan_words.simps) (auto simp: first_in_def Let_def)
    next
      case miss: False
      have none: "\<not> ?P i" if i: "off \<le> i" "i < off + ?c" for i
      proof -
        have "i - off < ?c" "i - off < 64" using i by auto
        then have "?w = 0 \<or> i - off < ?tz" using miss by linarith
        then show ?thesis
          using P [of "i - off"] trailing_zeros_props(1) [of "i - off" ?w] i(1) \<open>i - off < 64\<close> by auto
      qed
      have "first_in (off + ?c) (off + remaining) ?P (scan_words bitmap (remaining - ?c) (word_idx + 1) (off + ?c))"
      proof (cases "remaining \<le> 64")
        case True
        then show ?thesis by (simp add: scan_words.simps first_in_def)
      next
        case False
        then show ?thesis using 1(1) [OF True refl refl miss refl] 1(2,3) by simp
      qed
      then show ?thesis
        using True miss none by (subst scan_words.simps) (auto simp: Let_def intro: first_in_skip)
    qed
  qed
qed

lemma next_word: "b = w * 64 + s \<Longrightarrow> s < 64 \<Longrightarrow> 64 * (w + 1) = b + (64 - s)" for b w s :: nat
  by simp

lemma find_first_free_find:
  assumes "ba_bit_offsets a ! k + ba_total_pages a div 2 ^ k \<le> 64 * length (ba_bitmap a)"
  shows "find_first_free k a = find (\<lambda>b. is_free k b a) [0..<ba_total_pages a div 2 ^ k]"
proof -
  define n base ws where "n = ba_total_pages a div 2 ^ k" and "base = ba_bit_offsets a ! k" and "ws = ba_bitmap a"
  let ?P = "\<lambda>i. map_bit ws (base + i)" and ?s = "base mod 64" and ?w = "base div 64"
  have fit: "base + n \<le> 64 * length ws" using assms by (simp add: n_def base_def ws_def)
  have "first_in 0 n ?P (find_first_free k a)"
  proof (cases "n = 0")
    case True
    then show ?thesis by (simp add: find_first_free_def n_def first_in_def)
  next
    case n: False
    have w: "?w < length ws" using fit n by (simp add: div_less_iff_less_mult)
    show ?thesis
    proof (cases "?s = 0")
      case True
      then have "64 * ?w = base + 0" by auto
      from scan_words_first [OF this, of n ws] show ?thesis
        using True n fit by (simp add: find_first_free_def Let_def n_def base_def ws_def)
    next
      case s: False
      let ?m = "drop_bit ?s (ws ! ?w)" and ?c = "min (64 - ?s) n"
      have P: "?P j = bit ?m j" if "?s + j < 64" for j
      proof -
        have e: "base + j = (?s + j) + ?w * 64" by simp
        have "(base + j) div 64 = ?w" "(base + j) mod 64 = ?s + j"
          unfolding e using that by (simp_all only: div_mult_self1 mod_mult_self1 div_less mod_less)
        then show ?thesis using w by (simp add: map_bit_def bit_drop_bit_eq)
      qed
      show ?thesis
      proof (cases "?m \<noteq> 0 \<and> trailing_zeros ?m < n \<and> ?s + trailing_zeros ?m < 64")
        case hit: True
        then have "find_first_free k a = Some (trailing_zeros ?m)"
          using s n w by (simp add: find_first_free_def Let_def n_def base_def ws_def)
        moreover have "?P (trailing_zeros ?m)" using P hit trailing_zeros_props(3) [of ?m] by simp
        moreover have "\<not> ?P j" if "j < trailing_zeros ?m" for j
          using P [of j] trailing_zeros_props(1) that hit by auto
        ultimately show ?thesis using hit by (auto simp: first_in_def)
      next
        case miss: False
        have r: "find_first_free k a = scan_words ws (n - ?c) (?w + 1) ?c"
          using s n w miss by (auto simp: find_first_free_def Let_def n_def base_def ws_def)
        have none: "\<not> ?P j" if "j < ?c" for j
        proof -
          have j: "?s + j < 64" "j < n" using that by auto
          have "j < trailing_zeros ?m \<or> ?m = 0" using miss j that by auto
          then show ?thesis using P [OF j(1)] trailing_zeros_props(1) [of j ?m] by auto
        qed
        have "first_in ?c n ?P (scan_words ws (n - ?c) (?w + 1) ?c)"
        proof (cases "n \<le> 64 - ?s")
          case True
          then show ?thesis by (simp add: scan_words.simps first_in_def)
        next
          case False
          then have c: "?c = 64 - ?s" by simp
          then have "64 * (?w + 1) = base + ?c"
            using next_word [of base ?w ?s] by simp
          from scan_words_first [OF this, of "n - ?c" ws] show ?thesis using fit c False by simp
        qed
        then show ?thesis unfolding r using none by (auto intro: first_in_skip)
      qed
    qed
  qed
  from first_in_find [OF this] show ?thesis by (simp add: is_free_bit bit_offset_def n_def base_def ws_def)
qed

end
