(* ===== verification/Buddy_Proofs.thy ===== *)
theory Buddy_Proofs
  imports Buddy
begin

text \<open>
  Correctness of the buddy allocator.  \<open>layout_ok\<close> fixes the geometry (a power of two of pages, the
  offsets that \<open>new\<close> computes, a bitmap that is large enough, no wrap-around of the addresses);
  \<open>buddy_inv\<close> adds that the set of free blocks is consistent.  Under it the bitmap operations are
  insertion into and removal from that set, and the loops refine the steps of \<open>Buddy_Blocks\<close>.
\<close>

section \<open>Geometry of the bitmap\<close>

definition free_blocks :: "buddy_allocator \<Rightarrow> block set" where
  "free_blocks a = {(k, b). k \<le> max_usable_order a \<and> b < ba_total_pages a div 2 ^ k \<and> is_free k b a}"

abbreviation free_page_set :: "buddy_allocator \<Rightarrow> nat set" where
  "free_page_set a \<equiv> free_set (free_blocks a)"

definition layout_ok :: "buddy_allocator \<Rightarrow> bool" where
  "layout_ok a \<longleftrightarrow>
     (\<exists>n\<in>{0..ba_total_pages a}. ba_total_pages a = 2 ^ n) \<and>
     ba_bit_offsets a = map (bits_below (ba_total_pages a)) [0..<MAX_ORDER + 1] \<and>
     total_bitmap_bits (ba_total_pages a) \<le> 64 * length (ba_bitmap a) \<and>
     unat (ba_base a) + ba_total_pages a * 4096 < 2 ^ 64"

definition buddy_inv :: "buddy_allocator \<Rightarrow> bool" where
  "buddy_inv a \<longleftrightarrow> layout_ok a \<and> blocks_ok (max_usable_order a) (free_blocks a)"

abbreviation valid_block :: "buddy_allocator \<Rightarrow> nat \<Rightarrow> nat \<Rightarrow> bool" where
  "valid_block a k b \<equiv> k \<le> max_usable_order a \<and> b < ba_total_pages a div 2 ^ k"

lemma shrink_order_le: "shrink_order t k \<le> k" "t > 0 \<Longrightarrow> 2 ^ shrink_order t k \<le> t"
  by (induction k) (auto simp: not_less)

lemma layout_okD:
  assumes "layout_ok a"
  shows "\<exists>n. ba_total_pages a = 2 ^ n" "max_usable_order a \<le> MAX_ORDER"
    "2 ^ max_usable_order a \<le> ba_total_pages a"
    "k \<le> MAX_ORDER \<Longrightarrow> ba_bit_offsets a ! k = bits_below (ba_total_pages a) k"
    "total_bitmap_bits (ba_total_pages a) \<le> 64 * length (ba_bitmap a)"
    "unat (ba_base a) + ba_total_pages a * 4096 < 2 ^ 64"
proof -
  show n: "\<exists>n. ba_total_pages a = 2 ^ n" using assms by (auto simp: layout_ok_def)
  show "max_usable_order a \<le> MAX_ORDER" by (simp add: max_usable_order_def shrink_order_le)
  show "2 ^ max_usable_order a \<le> ba_total_pages a"
    using n shrink_order_le(2) [of "ba_total_pages a" MAX_ORDER] by (auto simp: max_usable_order_def)
  show "k \<le> MAX_ORDER \<Longrightarrow> ba_bit_offsets a ! k = bits_below (ba_total_pages a) k"
    using assms by (simp add: layout_ok_def del: upt_Suc)
  show "total_bitmap_bits (ba_total_pages a) \<le> 64 * length (ba_bitmap a)"
    "unat (ba_base a) + ba_total_pages a * 4096 < 2 ^ 64" using assms by (simp_all add: layout_ok_def)
qed

text \<open>Blocks of two consecutive usable orders.\<close>

lemma half_blocks:
  assumes "layout_ok a" "Suc k \<le> max_usable_order a"
  shows "ba_total_pages a div 2 ^ k = 2 * (ba_total_pages a div 2 ^ Suc k)"
proof -
  obtain n where n: "ba_total_pages a = 2 ^ n" using layout_okD(1) [OF assms(1)] by blast
  have "(2::nat) ^ max_usable_order a \<le> 2 ^ n" using layout_okD(3) [OF assms(1)] n by simp
  then have "Suc k \<le> n" using assms(2) power_le_imp_le_exp [of 2 "max_usable_order a" n] by simp
  then obtain j where "n = Suc k + j" by (auto simp: le_iff_add)
  then show ?thesis by (simp add: n power_add)
qed

lemma bits_below_mono: "k \<le> l \<Longrightarrow> bits_below t k \<le> bits_below t l"
  by (induction l) (auto simp: le_Suc_eq)

lemma bits_below_next: "k < l \<Longrightarrow> bits_below t k + t div 2 ^ k \<le> bits_below t l"
  using bits_below_mono [of "Suc k" l t] by simp

lemma offset_fits:
  assumes "layout_ok a" "k \<le> MAX_ORDER"
  shows "ba_bit_offsets a ! k + ba_total_pages a div 2 ^ k \<le> 64 * length (ba_bitmap a)"
  using bits_below_next [of k "MAX_ORDER + 1" "ba_total_pages a"] layout_okD(4,5) [OF assms(1)] assms(2)
  by (simp add: total_bitmap_bits_def)

lemma offset_word:
  assumes "layout_ok a" "valid_block a k b"
  shows "bit_offset k b a div 64 < length (ba_bitmap a)"
  using offset_fits [OF assms(1), of k] assms layout_okD(2) [OF assms(1)]
  by (simp add: bit_offset_def div_less_iff_less_mult)

lemma offset_inject:
  assumes "layout_ok a" "valid_block a k b" "valid_block a l c" "bit_offset k b a = bit_offset l c a"
  shows "(k, b) = (l, c)"
proof -
  have lt: "bit_offset k b a < bit_offset l c a"
    if "k < l" "valid_block a k b" "valid_block a l c" for k l b c
    using bits_below_next [OF that(1), of "ba_total_pages a"] that layout_okD(2,4) [OF assms(1)]
    by (simp add: bit_offset_def)
  then have "k = l" using assms(2-4) by (metis nat_neq_iff)
  with assms(4) show ?thesis by (simp add: bit_offset_def)
qed

lemma layout_set_clear [simp]:
  "layout_ok (set_free k b a) = layout_ok a" "layout_ok (clear_free k b a) = layout_ok a"
  by (simp_all add: layout_ok_def)

lemma bit_offset_set_clear [simp]:
  "bit_offset l c (set_free k b a) = bit_offset l c a" "bit_offset l c (clear_free k b a) = bit_offset l c a"
  by (simp_all add: bit_offset_def)

lemma free_blocks_set_free:
  assumes "layout_ok a" "valid_block a k b"
  shows "free_blocks (set_free k b a) = insert (k, b) (free_blocks a)"
  using assms(2) offset_inject [OF assms(1) _ assms(2)] map_bit_set_free [OF offset_word [OF assms]]
  by (fastforce simp: free_blocks_def is_free_bit)

lemma free_blocks_clear_free:
  assumes "layout_ok a" "valid_block a k b"
  shows "free_blocks (clear_free k b a) = free_blocks a - {(k, b)}"
  using offset_inject [OF assms(1) _ assms(2)] map_bit_clear_free [OF offset_word [OF assms]]
  by (fastforce simp: free_blocks_def is_free_bit)

lemma find_first_free_Some:
  assumes "layout_ok a" "k \<le> max_usable_order a" "find_first_free k a = Some b"
  shows "(k, b) \<in> free_blocks a"
  using assms offset_fits [OF assms(1), of k] layout_okD(2) [OF assms(1)]
  by (auto simp: find_first_free_find find_Some_iff free_blocks_def)

lemma find_first_free_None:
  assumes "layout_ok a" "k \<le> max_usable_order a" "find_first_free k a = None"
  shows "(k, b) \<notin> free_blocks a"
  using assms offset_fits [OF assms(1), of k] layout_okD(2) [OF assms(1)]
  by (auto simp: find_first_free_find find_None_iff free_blocks_def)

section \<open>Allocation\<close>

text \<open>What a successful and a failed allocation leave behind.\<close>

definition alloc_post ::
    "nat \<Rightarrow> buddy_allocator \<Rightarrow> (rvm_error + phys_addr) \<times> buddy_allocator \<Rightarrow> bool" where
  "alloc_post k a out \<longleftrightarrow>
     (case out of
        (Inl e, a') \<Rightarrow> e = OutOfMemory \<and> a' = a \<and> (\<forall>x\<in>free_blocks a. fst x < k)
      | (Inr addr, a') \<Rightarrow> buddy_inv a' \<and> ba_total_pages a' = ba_total_pages a \<and> ba_base a' = ba_base a \<and>
          (\<exists>b. b < ba_total_pages a div 2 ^ k \<and> addr = block_addr k b a \<and>
             pages (k, b) \<subseteq> free_page_set a \<and> free_page_set a' = free_page_set a - pages (k, b)))"

lemma split_down_ok:
  assumes "buddy_inv a" "k \<le> c" "c \<le> max_usable_order a" "b < ba_total_pages a div 2 ^ c"
    "pages (c, b) \<inter> free_page_set a = {}" "split_down k c b a = (b', a')"
  shows "buddy_inv a' \<and> ba_total_pages a' = ba_total_pages a \<and> ba_base a' = ba_base a \<and>
    b' < ba_total_pages a div 2 ^ k \<and> pages (k, b') \<subseteq> pages (c, b) \<and>
    free_page_set a' = free_page_set a \<union> (pages (c, b) - pages (k, b'))"
  using assms
proof (induction k c b a rule: split_down.induct)
  case (1 k c b a)
  show ?case
  proof (cases "c > k")
    case False
    then have "c = k" "b' = b" "a' = a" using 1(3,7) by (simp_all add: split_down.simps)
    then show ?thesis using 1 by auto
  next
    case True
    then obtain d where d: "c = Suc d" by (cases c) auto
    let ?a = "set_free d (Suc (2 * b)) a"
    have lay: "layout_ok a" and ok: "blocks_ok (max_usable_order a) (free_blocks a)"
      using 1(2) by (auto simp: buddy_inv_def)
    have v: "valid_block a d (Suc (2 * b))" "2 * b < ba_total_pages a div 2 ^ d"
      using half_blocks [OF lay, of d] 1(4,5) d by auto
    note F = free_blocks_set_free [OF lay v(1)]
    note S = split_step [OF ok 1(6) [unfolded d], folded F]
    have run: "split_down k d (2 * b) ?a = (b', a')"
      using 1(7) True d by (subst (asm) split_down.simps) (simp add: Let_def mult.commute)
    have "buddy_inv ?a" using S(1) lay by (simp add: buddy_inv_def)
    moreover have "k \<le> d" "d \<le> max_usable_order ?a" "2 * b < ba_total_pages ?a div 2 ^ d"
      using True d 1(4) v by auto
    moreover have "c - 1 = d" "b * 2 = 2 * b" "b * 2 + 1 = Suc (2 * b)" using d by auto
    ultimately have IH: "buddy_inv a' \<and> ba_total_pages a' = ba_total_pages a \<and> ba_base a' = ba_base a \<and>
        b' < ba_total_pages a div 2 ^ k \<and> pages (k, b') \<subseteq> pages (d, 2 * b) \<and>
        free_page_set a' = free_page_set ?a \<union> (pages (d, 2 * b) - pages (k, b'))"
      using 1(1) [OF True refl refl refl] S(2) run by (simp add: mult.commute [of b 2])
    have "pages (d, 2 * b) \<subseteq> pages (c, b)" by (auto simp: d pages_children)
    then show ?thesis using IH S(3) d by auto
  qed
qed

lemma take_block:
  assumes inv: "buddy_inv a" and x: "(k, b) \<in> free_blocks a"
  shows "buddy_inv (clear_free k b a)" "free_page_set (clear_free k b a) = free_page_set a - pages (k, b)"
    "pages (k, b) \<subseteq> free_page_set a" "valid_block a k b"
proof -
  show v: "valid_block a k b" using x by (simp add: free_blocks_def)
  have lay: "layout_ok a" and ok: "blocks_ok (max_usable_order a) (free_blocks a)"
    using inv by (auto simp: buddy_inv_def)
  note F = free_blocks_clear_free [OF lay v]
  show "buddy_inv (clear_free k b a)"
    using blocks_ok_subset [OF ok, of "free_blocks a - {(k, b)}"] lay F by (auto simp: buddy_inv_def)
  show "free_page_set (clear_free k b a) = free_page_set a - pages (k, b)"
    unfolding F using free_set_remove x ok by (simp add: blocks_ok_def)
  show "pages (k, b) \<subseteq> free_page_set a" using x by (auto simp: free_set_def)
qed

lemma block_addr_cong: "ba_base a' = ba_base a \<Longrightarrow> block_addr k b a' = block_addr k b a"
  by (simp add: block_addr_def)

lemma split_search_ok:
  assumes "buddy_inv a" "k < c" "\<And>x. x \<in> free_blocks a \<Longrightarrow> k \<le> fst x \<Longrightarrow> c \<le> fst x"
  shows "alloc_post k a (split_search k c a)"
  using assms
proof (induction k c a rule: split_search.induct)
  case (1 k c a)
  have lay: "layout_ok a" using 1(2) by (simp add: buddy_inv_def)
  show ?case
  proof (cases "c \<le> max_usable_order a")
    case False
    moreover have "fst x < k" if "x \<in> free_blocks a" for x
      using 1(4) [OF that] that False by (fastforce simp: free_blocks_def)
    ultimately show ?thesis by (simp add: split_search.simps alloc_post_def)
  next
    case True
    show ?thesis
    proof (cases "find_first_free c a")
      case None
      have "Suc c \<le> fst x" if x: "x \<in> free_blocks a" "k \<le> fst x" for x
        using 1(4) [OF x] find_first_free_None [OF lay True None, of "snd x"] x(1)
        by (metis Suc_leI le_neq_implies_less prod.collapse)
      then show ?thesis
        using 1(1) [OF True None] 1(2,3) True None by (simp add: split_search.simps [of k c])
    next
      case (Some b)
      let ?a = "clear_free c b a"
      obtain b' a' where d: "split_down k c b ?a = (b', a')" by fastforce
      note T = take_block [OF 1(2) find_first_free_Some [OF lay True Some]]
      have "pages (c, b) \<inter> free_page_set ?a = {}" using T(2) by auto
      with split_down_ok [OF T(1) less_imp_le [OF 1(3)] _ _ _ d] T(4)
      have P: "buddy_inv a'" "ba_total_pages a' = ba_total_pages a" "ba_base a' = ba_base a"
        "b' < ba_total_pages a div 2 ^ k" "pages (k, b') \<subseteq> pages (c, b)"
        "free_page_set a' = free_page_set ?a \<union> (pages (c, b) - pages (k, b'))" by auto
      have "split_search k c a = (Inr (block_addr k b' a'), a')"
        using True Some d by (simp add: split_search.simps [of k c])
      moreover have "free_page_set a' = free_page_set a - pages (k, b')"
        unfolding P(6) T(2) using T(3) P(5) by auto
      moreover have "pages (k, b') \<subseteq> free_page_set a" using P(5) T(3) by auto
      ultimately show ?thesis
        using P(1-4) block_addr_cong [OF P(3)] unfolding alloc_post_def by auto
    qed
  qed
qed

lemma alloc_pages_ok:
  assumes "buddy_inv a" "k \<le> max_usable_order a"
  shows "alloc_post k a (alloc_pages k a)"
proof -
  have lay: "layout_ok a" using assms(1) by (simp add: buddy_inv_def)
  show ?thesis
  proof (cases "find_first_free k a")
    case None
    have "Suc k \<le> fst x" if "x \<in> free_blocks a" "k \<le> fst x" for x
      using find_first_free_None [OF lay assms(2) None, of "snd x"] that
      by (metis Suc_leI le_neq_implies_less prod.collapse)
    then have "alloc_post k a (split_search k (Suc k) a)" by (intro split_search_ok [OF assms(1)]) auto
    then show ?thesis using None assms(2) by (simp add: alloc_pages_def)
  next
    case (Some b)
    note T = take_block [OF assms(1) find_first_free_Some [OF lay assms(2) Some]]
    have "alloc_pages k a = (Inr (block_addr k b a), clear_free k b a)"
      using Some assms(2) by (simp add: alloc_pages_def Let_def block_addr_def)
    then show ?thesis using T unfolding alloc_post_def by auto
  qed
qed

section \<open>Freeing\<close>

lemma ancestor_free_iff:
  "ancestor_free k b a \<longleftrightarrow> (\<exists>l. k \<le> l \<and> l \<le> max_usable_order a \<and> is_free l (b div 2 ^ (l - k)) a)"
proof (induction k b a rule: ancestor_free.induct)
  case (1 k b a)
  have shift: "b div 2 div 2 ^ (l - Suc k) = b div 2 ^ (l - k)" if "k < l" for l
  proof -
    have "l - k = Suc (l - Suc k)" using that by simp
    then show ?thesis by (simp add: div_mult2_eq)
  qed
  show ?case
  proof (cases "k \<le> max_usable_order a")
    case False
    then show ?thesis by (auto simp: ancestor_free.simps)
  next
    case True
    have "(\<exists>l. k \<le> l \<and> l \<le> max_usable_order a \<and> is_free l (b div 2 ^ (l - k)) a) \<longleftrightarrow>
        is_free k b a \<or> (\<exists>l. Suc k \<le> l \<and> l \<le> max_usable_order a \<and> is_free l (b div 2 div 2 ^ (l - Suc k)) a)"
      (is "?l \<longleftrightarrow> ?r")
    proof
      assume ?l
      then obtain l where l: "k \<le> l" "l \<le> max_usable_order a" "is_free l (b div 2 ^ (l - k)) a" by blast
      show ?r
      proof (cases "l = k")
        case False
        then have "Suc k \<le> l" using l(1) by simp
        then show ?thesis using l(2,3) shift [of l] by auto
      qed (use l in simp)
    next
      assume ?r
      then show ?l
      proof
        assume "is_free k b a"
        then show ?l using True by (intro exI [of _ k]) simp
      next
        assume "\<exists>l. Suc k \<le> l \<and> l \<le> max_usable_order a \<and> is_free l (b div 2 div 2 ^ (l - Suc k)) a"
        then show ?l using shift by (metis Suc_le_lessD less_imp_le)
      qed
    qed
    then show ?thesis using 1 True by (auto simp: ancestor_free.simps [of k b])
  qed
qed

lemma ancestor_valid:
  assumes "valid_block a k b" "k \<le> l" "l \<le> max_usable_order a" "layout_ok a"
  shows "b div 2 ^ (l - k) < ba_total_pages a div 2 ^ l"
  using assms(2,3)
proof (induction l rule: dec_induct)
  case base
  then show ?case using assms(1) by simp
next
  case (step l)
  have "b div 2 ^ (Suc l - k) = b div 2 ^ (l - k) div 2"
    using step(1) by (simp add: Suc_diff_le div_mult2_eq [symmetric] mult.commute)
  then show ?case
    using step half_blocks [OF assms(4), of l] by (simp add: less_mult_imp_div_less mult.commute)
qed

lemma is_block_free_iff:
  assumes "layout_ok a" "valid_block a k b"
  shows "is_block_free k b a \<longleftrightarrow> (\<exists>x\<in>free_blocks a. k \<le> fst x \<and> pages (k, b) \<subseteq> pages x)"
proof -
  have "is_block_free k b a \<longleftrightarrow> ancestor_free k b a"
    using assms(2) by (simp add: is_block_free_def ancestor_free.simps [of k])
  also have "\<dots> \<longleftrightarrow> (\<exists>l. k \<le> l \<and> (l, b div 2 ^ (l - k)) \<in> free_blocks a)"
    using ancestor_valid [OF assms(2) _ _ assms(1)] by (auto simp: ancestor_free_iff free_blocks_def)
  also have "\<dots> \<longleftrightarrow> (\<exists>x\<in>free_blocks a. k \<le> fst x \<and> pages (k, b) \<subseteq> pages x)"
  proof
    assume "\<exists>l. k \<le> l \<and> (l, b div 2 ^ (l - k)) \<in> free_blocks a"
    then obtain l where "k \<le> l" "(l, b div 2 ^ (l - k)) \<in> free_blocks a" by blast
    then show "\<exists>x\<in>free_blocks a. k \<le> fst x \<and> pages (k, b) \<subseteq> pages x"
      using pages_ancestor [of k l b] by (intro bexI [of _ "(l, b div 2 ^ (l - k))"]) auto
  next
    assume "\<exists>x\<in>free_blocks a. k \<le> fst x \<and> pages (k, b) \<subseteq> pages x"
    then obtain x where x: "x \<in> free_blocks a" "k \<le> fst x" "pages (k, b) \<subseteq> pages x" by blast
    then have "pages (k, b) \<inter> pages (fst x, snd x) \<noteq> {}" using pages_nonempty [of "(k, b)"] by (simp, blast)
    then have "snd x = b div 2 ^ (fst x - k)" using pages_nested(2) [OF x(2)] by blast
    then show "\<exists>l. k \<le> l \<and> (l, b div 2 ^ (l - k)) \<in> free_blocks a" using x by (metis prod.collapse)
  qed
  finally show ?thesis .
qed

lemma buddy_valid:
  assumes "layout_ok a" "k < max_usable_order a" "b < ba_total_pages a div 2 ^ k"
  shows "buddy b < ba_total_pages a div 2 ^ k" "b div 2 < ba_total_pages a div 2 ^ Suc k"
proof -
  have "ba_total_pages a div 2 ^ k = 2 * (ba_total_pages a div 2 ^ Suc k)"
    using half_blocks [OF assms(1), of k] assms(2) by simp
  with assms(3) show "buddy b < ba_total_pages a div 2 ^ k" "b div 2 < ba_total_pages a div 2 ^ Suc k"
    by (auto simp: buddy_parity)
qed

lemma coalesce_ok:
  assumes "layout_ok a" "valid_block a k b" "(k, b) \<in> free_blocks a" "disjoint_blocks (free_blocks a)"
    "merged_but (max_usable_order a) {(k, b)} (free_blocks a)"
  shows "buddy_inv (coalesce k b a) \<and> free_page_set (coalesce k b a) = free_page_set a"
  using assms
proof (induction k b a rule: coalesce.induct)
  case (1 k b a)
  note lay = 1(2) and v = 1(3)
  show ?case
  proof (cases "k < max_usable_order a \<and> is_free k (buddy b) a")
    case False
    then have "coalesce k b a = a" by (auto simp: coalesce.simps [of k b a] Let_def)
    moreover have "(k, buddy b) \<notin> free_blocks a \<or> max_usable_order a \<le> k" using False by (auto simp: free_blocks_def)
    ultimately show ?thesis using merge_stop [OF 1(5,6)] lay by (simp add: buddy_inv_def)
  next
    case True
    have bv: "buddy b < ba_total_pages a div 2 ^ k" "b div 2 < ba_total_pages a div 2 ^ Suc k"
      using buddy_valid [OF lay] True v by auto
    then have bf: "(k, buddy b) \<in> free_blocks a" using True by (simp add: free_blocks_def)
    let ?a1 = "clear_free k b a" and ?a2 = "clear_free k (buddy b) (clear_free k b a)"
    let ?a3 = "set_free (Suc k) (b div 2) ?a2"
    have run: "coalesce k b a = coalesce (Suc k) (b div 2) ?a3"
      using True bv by (simp add: coalesce.simps [of k b a] Let_def)
    have F: "free_blocks ?a3 = insert (Suc k, b div 2) (free_blocks a - {(k, b)} - {(k, buddy b)})"
      using free_blocks_set_free [of ?a2 "Suc k" "b div 2"] free_blocks_clear_free [of ?a1 k "buddy b"]
        free_blocks_clear_free [OF lay v] lay v bv True by simp
    note M = merge_step [OF 1(5,6) 1(4) bf, folded F]
    have "\<not> ba_total_pages a div 2 ^ k \<le> buddy b" "\<not> \<not> is_free k (buddy b) a" using bv True by auto
    then have "buddy_inv (coalesce (Suc k) (b div 2) ?a3) \<and>
        free_page_set (coalesce (Suc k) (b div 2) ?a3) = free_page_set ?a3"
      using 1(1) [OF conjunct1 [OF True] refl refl _ _ refl] M lay bv True F by simp
    then show ?thesis using run M(3) by simp
  qed
qed

lemma block_addr_unat:
  assumes "layout_ok a" "valid_block a k b"
  shows "unat (block_addr k b a) = unat (ba_base a) + b * 2 ^ k * 4096" "b * 2 ^ k < ba_total_pages a"
proof -
  have "b < ba_total_pages a div 2 ^ k" using assms(2) by simp
  then have "\<not> ba_total_pages a div 2 ^ k \<le> b * 2 ^ k div 2 ^ k" by simp
  then show lt: "b * 2 ^ k < ba_total_pages a" using div_le_mono not_le by blast
  define n where "n = b * 2 ^ k"
  have n: "unat (ba_base a) + n * 4096 < 2 ^ 64" using lt layout_okD(6) [OF assms(1)] by (simp add: n_def)
  have eq: "block_addr k b a = of_nat (unat (ba_base a) + n * 4096)" by (simp add: block_addr_def n_def)
  show "unat (block_addr k b a) = unat (ba_base a) + b * 2 ^ k * 4096"
    unfolding eq n_def [symmetric] using n by (subst unsigned_of_nat) (simp add: take_bit_nat_eq_self)
qed

lemma free_pages_eval:
  assumes "layout_ok a" "valid_block a k b"
  shows "free_pages (block_addr k b a) k a =
    (if is_block_free k b a then (Inl InternalError, a) else (Inr (), coalesce k b (set_free k b a)))"
proof -
  let ?off = "block_addr k b a - ba_base a"
  note U = block_addr_unat [OF assms]
  have le: "ba_base a \<le> block_addr k b a" using U by (simp add: word_le_nat_alt)
  have off: "unat ?off = b * 2 ^ k * 4096" using U le by (simp add: unat_sub)
  have "unat (?off mod PAGE_SIZE) = 0" "unat (?off div PAGE_SIZE) = b * 2 ^ k"
    using off by (simp_all add: unat_mod_distrib unat_div_distrib)
  moreover from this(1) have "?off mod PAGE_SIZE = 0" by (simp add: unat_eq_0)
  moreover have "\<not> ba_total_pages a \<le> b * 2 ^ k" using U(2) by simp
  moreover have "\<not> block_addr k b a < ba_base a" using le by (simp add: not_less)
  ultimately show ?thesis using assms(2) by (simp add: free_pages_def Let_def)
qed

lemma free_ok:
  assumes inv: "buddy_inv a" and v: "valid_block a k b" and held: "pages (k, b) \<inter> free_page_set a = {}"
  obtains a' where "free_pages (block_addr k b a) k a = (Inr (), a')" "buddy_inv a'"
    "free_page_set a' = free_page_set a \<union> pages (k, b)"
proof -
  have lay: "layout_ok a" and ok: "blocks_ok (max_usable_order a) (free_blocks a)"
    using inv by (auto simp: buddy_inv_def)
  have "\<not> is_block_free k b a"
    using held pages_nonempty [of "(k, b)"] unfolding is_block_free_iff [OF lay v] free_set_def by blast
  then have run: "free_pages (block_addr k b a) k a = (Inr (), coalesce k b (set_free k b a))"
    by (simp add: free_pages_eval [OF lay v])
  note F = free_blocks_set_free [OF lay v] and R = return_block [OF ok held]
  have "buddy_inv (coalesce k b (set_free k b a)) \<and>
      free_page_set (coalesce k b (set_free k b a)) = free_page_set (set_free k b a)"
    using coalesce_ok [of "set_free k b a" k b] lay v R by (simp add: F)
  then show thesis using that [OF run] by (auto simp: F free_set_insert)
qed

section \<open>A new allocator\<close>

lemma foldl_set_free:
  assumes "layout_ok a" "k \<le> max_usable_order a" "n \<le> ba_total_pages a div 2 ^ k"
  shows "layout_ok (foldl (\<lambda>a blk. set_free k blk a) a [0..<n]) \<and>
    ba_total_pages (foldl (\<lambda>a blk. set_free k blk a) a [0..<n]) = ba_total_pages a \<and>
    max_usable_order (foldl (\<lambda>a blk. set_free k blk a) a [0..<n]) = max_usable_order a \<and>
    free_blocks (foldl (\<lambda>a blk. set_free k blk a) a [0..<n]) = free_blocks a \<union> {k} \<times> {0..<n}"
  using assms(3)
proof (induction n)
  case 0
  then show ?case using assms(1) by simp
next
  case (Suc n)
  then show ?case
    using free_blocks_set_free [of "foldl (\<lambda>a blk. set_free k blk a) a [0..<n]" k n] assms(2)
    by auto
qed

lemma top_blocks:
  "blocks_ok k ({k} \<times> {0..<n})" "free_set ({k} \<times> {0..<n}) = {0..<n * 2 ^ k}"
proof -
  show "blocks_ok k ({k} \<times> {0..<n})"
    using pages_same_order [of k] by (fastforce simp: blocks_ok_def disjoint_blocks_def merged_but_def)
  have "free_set ({k} \<times> {0..<n}) = (\<Union>b\<in>{0..<n}. pages (k, b))" by (auto simp: free_set_def)
  then have "p \<in> free_set ({k} \<times> {0..<n}) \<longleftrightarrow> p div 2 ^ k < n" for p by (simp add: mem_pages)
  then show "free_set ({k} \<times> {0..<n}) = {0..<n * 2 ^ k}"
    by (intro set_eqI) (simp add: div_less_iff_less_mult)
qed

lemma buddy_new_ok:
  assumes "tp = 2 ^ n" "unat base + tp * 4096 < 2 ^ 64" "is_page_aligned base"
    "words_for_bits (total_bitmap_bits tp) \<le> bitmap_words"
  obtains a where "buddy_new tp bitmap_words base = Inr a" "buddy_inv a" "ba_total_pages a = tp"
    "free_page_set a = {0..<tp}"
proof -
  define a0 where "a0 = \<lparr>ba_total_pages = tp, ba_base = base, ba_bitmap = replicate bitmap_words 0,
       ba_bit_offsets = map (bits_below tp) [0..<MAX_ORDER + 1]\<rparr>"
  have clear: "a0\<lparr>ba_bitmap := map (\<lambda>_. 0) (ba_bitmap a0)\<rparr> = a0" by (simp add: a0_def map_replicate_const)
  have lay: "layout_ok a0"
    using assms less_exp [of n] by (auto simp: layout_ok_def a0_def words_for_bits_def intro!: bexI [of _ n])
  have none: "free_blocks a0 = {}" by (auto simp: free_blocks_def is_free_bit map_bit_def a0_def)
  define k m where "k = max_usable_order a0" and "m = tp div 2 ^ k"
  define a where "a = foldl (\<lambda>a blk. set_free k blk a) a0 [0..<m]"
  have new: "buddy_new tp bitmap_words base = Inr a"
    using assms clear unfolding buddy_new_def init_free_all_def a0_def [symmetric]
    by (simp add: Let_def a_def k_def m_def) (simp add: a0_def)
  have tot: "ba_total_pages a0 = tp" by (simp add: a0_def)
  from foldl_set_free [OF lay, of k m] have
    A: "layout_ok a" "ba_total_pages a = tp" "max_usable_order a = k" "free_blocks a = {k} \<times> {0..<m}"
    by (simp_all add: a_def k_def m_def tot none)
  have "2 ^ k \<le> (2 :: nat) ^ n" using layout_okD(3) [OF lay] by (simp add: tot k_def assms(1))
  then have "k \<le> n" using power_le_imp_le_exp [of 2 k n] by simp
  then have "m * 2 ^ k = tp" by (simp add: m_def assms(1) power_add [symmetric] le_imp_power_dvd)
  then have "free_page_set a = {0..<tp}" using top_blocks(2) by (simp add: A(4))
  then show thesis using that [OF new _ A(2)] A top_blocks(1) by (simp add: buddy_inv_def)
qed

section \<open>Properties\<close>

text \<open>
  The fast search over 64-bit words, which masks the first partial word and uses
  \<open>trailing_zeros\<close> on each word, returns the same block as testing every block of the order in turn.
\<close>

theorem find_first_free_linear:
  assumes "buddy_inv a" "order \<le> max_usable_order a"
  shows "find_first_free order a = find (\<lambda>blk. is_free order blk a) [0..<ba_total_pages a div 2 ^ order]"
proof -
  have "layout_ok a" using assms(1) by (simp add: buddy_inv_def)
  with offset_fits [of a order] layout_okD(2) [of a] assms(2) show ?thesis by (simp add: find_first_free_find)
qed

definition demo_buddy :: buddy_allocator where
  "demo_buddy = (case buddy_new 4 1 0x1000 of Inr a \<Rightarrow> a)"

lemma demo_buddy_ok:
  "buddy_inv demo_buddy" "ba_total_pages demo_buddy = 4" "free_page_set demo_buddy = {0..<4}"
  "max_usable_order demo_buddy = 2"
proof -
  have "words_for_bits (total_bitmap_bits 4) \<le> 1"
    by code_simp
  then obtain a where a: "buddy_new 4 1 0x1000 = Inr a" "buddy_inv a" "ba_total_pages a = 4" "free_page_set a = {0..<4}"
    using buddy_new_ok [of 4 2 "0x1000" 1] by (auto simp: is_page_aligned_def)
  then have d: "demo_buddy = a" by (simp add: demo_buddy_def)
  show "buddy_inv demo_buddy" "ba_total_pages demo_buddy = 4" "free_page_set demo_buddy = {0..<4}" using a d by auto
  moreover have "shrink_order 4 MAX_ORDER = 2" by code_simp
  ultimately show "max_usable_order demo_buddy = 2" by (simp add: max_usable_order_def)
qed

theorem find_first_free_linear_witness:
  "find_first_free 2 demo_buddy = find (\<lambda>blk. is_free 2 blk demo_buddy) [0..<1]"
  using find_first_free_linear [OF demo_buddy_ok(1), of 2] demo_buddy_ok by simp

text \<open>
  C14.  Allocation is sound and complete.  A successful call returns the address of an aligned block of
  \<open>2 ^ order\<close> pages that were all free, and exactly these pages stop being free.  The call fails,
  with nothing changed, only when no aligned block of that size consists of free pages: splitting
  and eager merging lose no allocatable block.
\<close>

theorem alloc_pages_sound_complete:
  assumes "buddy_inv a" "alloc_pages order a = (r, a')"
  shows "case r of
      Inl e \<Rightarrow> e = OutOfMemory \<and> a' = a \<and>
        (order \<le> max_usable_order a \<longrightarrow> (\<forall>b. \<not> pages (order, b) \<subseteq> free_page_set a))
    | Inr addr \<Rightarrow> buddy_inv a' \<and>
        (\<exists>b. addr = block_addr order b a \<and> (b + 1) * 2 ^ order \<le> ba_total_pages a \<and>
           pages (order, b) \<subseteq> free_page_set a \<and> free_page_set a' = free_page_set a - pages (order, b))"
proof (cases "order \<le> max_usable_order a")
  case False
  then show ?thesis using assms(2) by (auto simp: alloc_pages_def not_le)
next
  case True
  have post: "alloc_post order a (r, a')" using alloc_pages_ok [OF assms(1) True] assms(2) by simp
  show ?thesis
  proof (cases r)
    case (Inl e)
    then have "e = OutOfMemory" "a' = a" "\<forall>x\<in>free_blocks a. fst x < order"
      using post by (auto simp: alloc_post_def)
    moreover have "\<not> pages (order, b) \<subseteq> free_page_set a" for b
      using free_range_in_block [of "max_usable_order a" "free_blocks a" order b] assms(1) True calculation(3)
      unfolding buddy_inv_def by (metis leD)
    ultimately show ?thesis using Inl by simp
  next
    case (Inr addr)
    have "(b + 1) * 2 ^ order \<le> ba_total_pages a" if "b < ba_total_pages a div 2 ^ order" for b
      using less_eq_div_iff_mult_less_eq [of "2 ^ order" "b + 1" "ba_total_pages a"] that by simp
    then show ?thesis using Inr post by (auto simp: alloc_post_def)
  qed
qed

theorem alloc_pages_sound_complete_witness:
  "\<exists>addr a'. alloc_pages 1 demo_buddy = (Inr addr, a') \<and> buddy_inv a' \<and> free_page_set a' \<subset> {0..<4}"
proof -
  obtain r a' where run: "alloc_pages 1 demo_buddy = (r, a')" by fastforce
  have "pages (1, 0) \<subseteq> free_page_set demo_buddy" by (auto simp: pages_def demo_buddy_ok)
  with alloc_pages_sound_complete [OF demo_buddy_ok(1) run] demo_buddy_ok(4)
  obtain addr b where r: "r = Inr addr" "buddy_inv a'" "pages (1, b) \<subseteq> free_page_set demo_buddy"
    "free_page_set a' = free_page_set demo_buddy - pages (1, b)"
    by (cases r) auto
  have "free_page_set a' \<subset> {0..<4}" using r(3,4) pages_nonempty [of "(1, b)"] unfolding demo_buddy_ok(3) by blast
  then show ?thesis using run r(1,2) by blast
qed

text \<open>
  C15.  Freeing a held block, given by the address that allocation computes for it, gives back exactly
  its pages and keeps the invariant, whatever merging it triggers.  Freeing a block whose pages are all
  free already is refused as a double free with nothing changed, even when it was merged into a
  larger block.
\<close>

theorem free_pages_outcome:
  assumes "buddy_inv a" "order \<le> max_usable_order a" "b < ba_total_pages a div 2 ^ order"
  shows "(pages (order, b) \<inter> free_page_set a = {} \<longrightarrow>
      (\<exists>a'. free_pages (block_addr order b a) order a = (Inr (), a') \<and> buddy_inv a' \<and>
         free_page_set a' = free_page_set a \<union> pages (order, b))) \<and>
    (pages (order, b) \<subseteq> free_page_set a \<longrightarrow>
      free_pages (block_addr order b a) order a = (Inl InternalError, a))"
proof -
  have v: "valid_block a order b" using assms by simp
  have lay: "layout_ok a" and ok: "blocks_ok (max_usable_order a) (free_blocks a)"
    using assms(1) by (auto simp: buddy_inv_def)
  have "free_pages (block_addr order b a) order a = (Inl InternalError, a)"
    if "pages (order, b) \<subseteq> free_page_set a"
    using free_range_in_block [OF ok assms(2) that] by (simp add: free_pages_eval [OF lay v] is_block_free_iff [OF lay v])
  then show ?thesis using free_ok [OF assms(1) v] by metis
qed

theorem free_pages_outcome_witness:
  "free_pages (block_addr 1 0 demo_buddy) 1 demo_buddy = (Inl InternalError, demo_buddy)"
proof -
  have "pages (1, 0) \<subseteq> free_page_set demo_buddy" by (auto simp: pages_def demo_buddy_ok)
  then show ?thesis using free_pages_outcome [OF demo_buddy_ok(1), of 1 0] demo_buddy_ok by simp
qed

end
