(* ===== verification/Tier.thy ===== *)
theory Tier
  imports Rvm_Types
begin

text \<open>
  Crate \<open>rvm-memory\<close>, file \<open>tier.rs\<close>: the four memory tiers and the manager that places regions in
  them by a score.  A slot of the table carries its own \<open>occupied\<close> flag, as in the code; the order of
  the tiers is the derived \<open>Ord\<close> of the enumeration, an instance of \<open>linorder\<close>.
  \<open>tier_reach\<close> are the managers that the public operations can produce.
\<close>

section \<open>Tiers\<close>

datatype tier = Hot | Warm | Dormant | Cold

fun tier_index :: "tier \<Rightarrow> u8" where
  "tier_index Hot = 0"
| "tier_index Warm = 1"
| "tier_index Dormant = 2"
| "tier_index Cold = 3"

definition tier_from_u8 :: "u8 \<Rightarrow> tier option" where
  "tier_from_u8 val =
     (if val = 0 then Some Hot else if val = 1 then Some Warm else if val = 2 then Some Dormant
      else if val = 3 then Some Cold else None)"

lemma tier_index_inject: "tier_index a = tier_index b \<longleftrightarrow> a = b"
  by (cases a; cases b) simp_all

instantiation tier :: linorder
begin

definition less_eq_tier :: "tier \<Rightarrow> tier \<Rightarrow> bool" where
  "less_eq_tier a b \<longleftrightarrow> tier_index a \<le> tier_index b"

definition less_tier :: "tier \<Rightarrow> tier \<Rightarrow> bool" where
  "less_tier a b \<longleftrightarrow> tier_index a < tier_index b"

instance
  by standard (auto simp: less_eq_tier_def less_tier_def less_le tier_index_inject)

end

record tier_thresholds =
  tt_hot_to_warm :: u16
  tt_warm_to_dormant :: u16
  tt_dormant_to_cold :: u16
  tt_warm_to_hot :: u16
  tt_dormant_to_warm :: u16

definition DEFAULT_THRESHOLDS :: tier_thresholds where
  "DEFAULT_THRESHOLDS = \<lparr>tt_hot_to_warm = 7000, tt_warm_to_dormant = 4000, tt_dormant_to_cold = 1000,
     tt_warm_to_hot = 8000, tt_dormant_to_warm = 5000\<rparr>"

record region_tier_state =
  ts_region_id :: owned_region_id
  ts_tier :: tier
  ts_last_access_epoch :: u32
  ts_cut_value :: u16
  ts_recency_score :: u16
  ts_occupied :: bool

definition EMPTY_TIER_STATE :: region_tier_state where
  "EMPTY_TIER_STATE = \<lparr>ts_region_id = 0, ts_tier = Warm, ts_last_access_epoch = 0, ts_cut_value = 0,
     ts_recency_score = 0, ts_occupied = False\<rparr>"

definition residency_score :: "region_tier_state \<Rightarrow> u16" where
  "residency_score s = saturating_add (ts_cut_value s) (ts_recency_score s)"

section \<open>The manager\<close>

record tier_manager =
  tm_regions :: "region_tier_state list"
  tm_count :: nat
  tm_thresholds :: tier_thresholds
  tm_current_epoch :: u32

definition tier_with_thresholds :: "nat \<Rightarrow> tier_thresholds \<Rightarrow> tier_manager" where
  "tier_with_thresholds max_regions thresholds =
     \<lparr>tm_regions = replicate max_regions EMPTY_TIER_STATE, tm_count = 0, tm_thresholds = thresholds,
      tm_current_epoch = 0\<rparr>"

definition tier_new :: "nat \<Rightarrow> tier_manager" where
  "tier_new max_regions = tier_with_thresholds max_regions DEFAULT_THRESHOLDS"

definition tier_advance_epoch :: "tier_manager \<Rightarrow> tier_manager" where
  "tier_advance_epoch m = m\<lparr>tm_current_epoch := saturating_add (tm_current_epoch m) 1\<rparr>"

definition tier_find_slot :: "owned_region_id \<Rightarrow> tier_manager \<Rightarrow> nat option" where
  "tier_find_slot region_id m = position (\<lambda>s. ts_occupied s \<and> ts_region_id s = region_id) (tm_regions m)"

definition tier_put :: "nat \<Rightarrow> region_tier_state \<Rightarrow> tier_manager \<Rightarrow> tier_manager" where
  "tier_put i s m = m\<lparr>tm_regions := (tm_regions m)[i := s]\<rparr>"

definition tier_register ::
    "owned_region_id \<Rightarrow> tier \<Rightarrow> tier_manager \<Rightarrow> (rvm_error, unit, tier_manager) outcome" where
  "tier_register region_id initial_tier m =
     (if tm_count m \<ge> length (tm_regions m) then (Inl ResourceLimitExceeded, m)
      else if tier_find_slot region_id m \<noteq> None then (Inl MemoryOverlap, m)
      else case position (\<lambda>s. \<not> ts_occupied s) (tm_regions m) of
        Some i \<Rightarrow>
          (Inr (), (tier_put i \<lparr>ts_region_id = region_id, ts_tier = initial_tier,
                     ts_last_access_epoch = tm_current_epoch m, ts_cut_value = 0,
                     ts_recency_score = 5000, ts_occupied = True\<rparr> m)\<lparr>tm_count := tm_count m + 1\<rparr>)
      | None \<Rightarrow> (Inl ResourceLimitExceeded, m))"

definition tier_unregister ::
    "owned_region_id \<Rightarrow> tier_manager \<Rightarrow> (rvm_error, unit, tier_manager) outcome" where
  "tier_unregister region_id m =
     (case tier_find_slot region_id m of
        Some i \<Rightarrow> (Inr (), (tier_put i EMPTY_TIER_STATE m)\<lparr>tm_count := tm_count m - 1\<rparr>)
      | None \<Rightarrow> (Inl PartitionNotFound, m))"

definition tier_record_access ::
    "owned_region_id \<Rightarrow> tier_manager \<Rightarrow> (rvm_error, unit, tier_manager) outcome" where
  "tier_record_access region_id m =
     (case tier_find_slot region_id m of
        Some i \<Rightarrow>
          let s = tm_regions m ! i in
          (Inr (), tier_put i (s\<lparr>ts_last_access_epoch := tm_current_epoch m,
             ts_recency_score := min (saturating_add (ts_recency_score s) 1000) 10000\<rparr>) m)
      | None \<Rightarrow> (Inl PartitionNotFound, m))"

definition tier_update_cut_value ::
    "owned_region_id \<Rightarrow> u16 \<Rightarrow> tier_manager \<Rightarrow> (rvm_error, unit, tier_manager) outcome" where
  "tier_update_cut_value region_id cut_value m =
     (case tier_find_slot region_id m of
        Some i \<Rightarrow> (Inr (), tier_put i ((tm_regions m ! i)\<lparr>ts_cut_value := min cut_value 10000\<rparr>) m)
      | None \<Rightarrow> (Inl PartitionNotFound, m))"

definition promotion_threshold :: "tier \<Rightarrow> tier_manager \<Rightarrow> u16" where
  "promotion_threshold target m =
     (case target of
        Hot \<Rightarrow> tt_warm_to_hot (tm_thresholds m)
      | Warm \<Rightarrow> tt_dormant_to_warm (tm_thresholds m)
      | Dormant \<Rightarrow> U16_MAX
      | Cold \<Rightarrow> U16_MAX)"

definition tier_promote ::
    "owned_region_id \<Rightarrow> tier \<Rightarrow> tier_manager \<Rightarrow> (rvm_error, tier, tier_manager) outcome" where
  "tier_promote region_id target_tier m =
     (case tier_find_slot region_id m of
        None \<Rightarrow> (Inl PartitionNotFound, m)
      | Some i \<Rightarrow>
          let s = tm_regions m ! i; current = ts_tier s in
          if target_tier \<ge> current then (Inl InvalidTierTransition, m)
          else if current = Cold then (Inl InvalidTierTransition, m)
          else if residency_score s < promotion_threshold target_tier m then (Inl CoherenceBelowThreshold, m)
          else (Inr current,
                tier_put i (s\<lparr>ts_tier := target_tier, ts_last_access_epoch := tm_current_epoch m\<rparr>) m))"

definition tier_demote ::
    "owned_region_id \<Rightarrow> tier \<Rightarrow> tier_manager \<Rightarrow> (rvm_error, tier, tier_manager) outcome" where
  "tier_demote region_id target_tier m =
     (case tier_find_slot region_id m of
        None \<Rightarrow> (Inl PartitionNotFound, m)
      | Some i \<Rightarrow>
          let s = tm_regions m ! i; current = ts_tier s in
          if target_tier \<le> current then (Inl InvalidTierTransition, m)
          else (Inr current, tier_put i (s\<lparr>ts_tier := target_tier\<rparr>) m))"

definition tier_get :: "owned_region_id \<Rightarrow> tier_manager \<Rightarrow> region_tier_state option" where
  "tier_get region_id m = map_option (\<lambda>i. tm_regions m ! i) (tier_find_slot region_id m)"

definition decay_recency :: "u16 \<Rightarrow> tier_manager \<Rightarrow> tier_manager" where
  "decay_recency decay_amount m =
     m\<lparr>tm_regions := map (\<lambda>s. if ts_occupied s
         then s\<lparr>ts_recency_score := saturating_sub (ts_recency_score s) decay_amount\<rparr> else s) (tm_regions m)\<rparr>"

definition demotion_target :: "tier_thresholds \<Rightarrow> region_tier_state \<Rightarrow> tier option" where
  "demotion_target t s =
     (let score = residency_score s in
      case ts_tier s of
        Hot \<Rightarrow> if score < tt_hot_to_warm t then Some Warm else None
      | Warm \<Rightarrow> if score < tt_warm_to_dormant t then Some Dormant else None
      | Dormant \<Rightarrow> if score < tt_dormant_to_cold t then Some Cold else None
      | Cold \<Rightarrow> None)"

text \<open>The entries written to the caller's buffer, of which at most \<open>n\<close> fit.\<close>

fun demotion_candidates ::
    "tier_thresholds \<Rightarrow> nat \<Rightarrow> region_tier_state list \<Rightarrow> (owned_region_id \<times> tier) list" where
  "demotion_candidates t n [] = []"
| "demotion_candidates t n (s # ss) =
     (if \<not> ts_occupied s \<or> n = 0 then demotion_candidates t n ss
      else case demotion_target t s of
        Some target \<Rightarrow> (ts_region_id s, target) # demotion_candidates t (n - 1) ss
      | None \<Rightarrow> demotion_candidates t n ss)"

definition find_demotion_candidates ::
    "(owned_region_id \<times> tier) list \<Rightarrow> tier_manager \<Rightarrow> nat \<times> (owned_region_id \<times> tier) list" where
  "find_demotion_candidates out m =
     (let cs = demotion_candidates (tm_thresholds m) (length out) (tm_regions m)
      in (length cs, cs @ drop (length cs) out))"

section \<open>Invariant\<close>

definition tier_state_ok :: "region_tier_state \<Rightarrow> bool" where
  "tier_state_ok s \<longleftrightarrow> unat (ts_cut_value s) \<le> 10000 \<and> unat (ts_recency_score s) \<le> 10000"

definition tier_inv :: "tier_manager \<Rightarrow> bool" where
  "tier_inv m \<longleftrightarrow>
     tm_count m = count_if ts_occupied (tm_regions m) \<and> list_all tier_state_ok (tm_regions m) \<and>
     (\<forall>i\<in>{0..<length (tm_regions m)}. \<forall>j\<in>{0..<length (tm_regions m)}.
        ts_occupied (tm_regions m ! i) \<longrightarrow> ts_occupied (tm_regions m ! j) \<longrightarrow>
        ts_region_id (tm_regions m ! i) = ts_region_id (tm_regions m ! j) \<longrightarrow> i = j)"

inductive tier_reach :: "nat \<Rightarrow> tier_manager \<Rightarrow> bool" for n where
  new: "tier_reach n (tier_with_thresholds n th)"
| epoch: "tier_reach n m \<Longrightarrow> tier_reach n (tier_advance_epoch m)"
| register: "tier_reach n m \<Longrightarrow> tier_register i t m = (r, m') \<Longrightarrow> tier_reach n m'"
| unregister: "tier_reach n m \<Longrightarrow> tier_unregister i m = (r, m') \<Longrightarrow> tier_reach n m'"
| access: "tier_reach n m \<Longrightarrow> tier_record_access i m = (r, m') \<Longrightarrow> tier_reach n m'"
| cut: "tier_reach n m \<Longrightarrow> tier_update_cut_value i c m = (r, m') \<Longrightarrow> tier_reach n m'"
| promote: "tier_reach n m \<Longrightarrow> tier_promote i t m = (q, m') \<Longrightarrow> tier_reach n m'"
| demote: "tier_reach n m \<Longrightarrow> tier_demote i t m = (q, m') \<Longrightarrow> tier_reach n m'"
| decay: "tier_reach n m \<Longrightarrow> tier_reach n (decay_recency d m)"

lemma tier_invD:
  assumes "tier_inv m"
  shows "tm_count m = count_if ts_occupied (tm_regions m)"
    "\<And>i. i < length (tm_regions m) \<Longrightarrow> tier_state_ok (tm_regions m ! i)"
    "\<And>i j. i < length (tm_regions m) \<Longrightarrow> j < length (tm_regions m) \<Longrightarrow>
       ts_occupied (tm_regions m ! i) \<Longrightarrow> ts_occupied (tm_regions m ! j) \<Longrightarrow>
       ts_region_id (tm_regions m ! i) = ts_region_id (tm_regions m ! j) \<Longrightarrow> i = j"
  using assms by (auto simp: tier_inv_def list_all_length)

lemma tier_find_slot_Some:
  "tier_find_slot k m = Some i \<Longrightarrow> i < length (tm_regions m) \<and> ts_occupied (tm_regions m ! i) \<and>
     ts_region_id (tm_regions m ! i) = k"
  using position_Some unfolding tier_find_slot_def by fastforce

text \<open>Replacing one slot: the two cases of the operations.\<close>

lemma tier_put_inv:
  assumes inv: "tier_inv m" and i: "i < length (tm_regions m)" and s: "tier_state_ok s"
    and uniq: "\<And>j. j < length (tm_regions m) \<Longrightarrow> j \<noteq> i \<Longrightarrow> ts_occupied s \<Longrightarrow>
                 ts_occupied (tm_regions m ! j) \<Longrightarrow> ts_region_id (tm_regions m ! j) \<noteq> ts_region_id s"
    and c: "c + of_bool (ts_occupied (tm_regions m ! i)) = tm_count m + of_bool (ts_occupied s)"
  shows "tier_inv ((tier_put i s m)\<lparr>tm_count := c\<rparr>)"
proof -
  let ?r = "(tm_regions m)[i := s]"
  note D = tier_invD [OF inv]
  have "c = count_if ts_occupied ?r" using count_if_update [OF i, of ts_occupied s] c D(1) by simp
  moreover have "tier_state_ok (?r ! j)" if "j < length ?r" for j
    using D(2) [of j] s that by (cases "j = i") simp_all
  moreover have "a = b" if ab: "a < length ?r" "b < length ?r" "ts_occupied (?r ! a)" "ts_occupied (?r ! b)"
    "ts_region_id (?r ! a) = ts_region_id (?r ! b)" for a b
    using ab D(3) [of a b] uniq [of a] uniq [of b] by (cases "a = i"; cases "b = i") auto
  ultimately show ?thesis by (auto simp: tier_inv_def tier_put_def list_all_length)
qed

lemma tier_update_inv:
  assumes inv: "tier_inv m" and i: "tier_find_slot k m = Some i" and s: "tier_state_ok s"
    and same: "ts_occupied s" "ts_region_id s = k"
  shows "tier_inv (tier_put i s m)"
proof -
  note F = tier_find_slot_Some [OF i]
  have "tier_inv ((tier_put i s m)\<lparr>tm_count := tm_count m\<rparr>)"
    using F same tier_invD(3) [OF inv, of _ i] by (intro tier_put_inv [OF inv _ s]) auto
  then show ?thesis by (simp add: tier_put_def)
qed

lemma tier_reach_inv:
  assumes "tier_reach n m"
  shows "tier_inv m \<and> length (tm_regions m) = n"
  using assms
proof (induction rule: tier_reach.induct)
  case (new th)
  then show ?case
    by (simp add: tier_inv_def tier_with_thresholds_def EMPTY_TIER_STATE_def tier_state_ok_def list_all_length)
next
  case (epoch m)
  then show ?case by (simp add: tier_inv_def tier_advance_epoch_def)
next
  case (register m i t r m')
  show ?case
  proof (cases "tier_find_slot i m = None \<and> (\<exists>k. position (\<lambda>s. \<not> ts_occupied s) (tm_regions m) = Some k) \<and>
      tm_count m < length (tm_regions m)")
    case True
    then obtain k where k: "position (\<lambda>s. \<not> ts_occupied s) (tm_regions m) = Some k" by blast
    have free: "k < length (tm_regions m)" "\<not> ts_occupied (tm_regions m ! k)" using position_Some [OF k] by auto
    have absent: "ts_occupied (tm_regions m ! j) \<Longrightarrow> ts_region_id (tm_regions m ! j) \<noteq> i" if "j < length (tm_regions m)" for j
      using True that by (auto simp: tier_find_slot_def position_None)
    define s where "s = \<lparr>ts_region_id = i, ts_tier = t, ts_last_access_epoch = tm_current_epoch m,
        ts_cut_value = 0, ts_recency_score = 5000, ts_occupied = True\<rparr>"
    have m': "m' = (tier_put k s m)\<lparr>tm_count := tm_count m + 1\<rparr>"
      using register.hyps(2) True k by (simp add: tier_register_def s_def)
    have "tier_inv m'" unfolding m'
      using absent free by (intro tier_put_inv [OF conjunct1 [OF register.IH]]) (auto simp: s_def tier_state_ok_def)
    then show ?thesis using register.IH by (simp add: m' tier_put_def)
  next
    case False
    then have "m' = m" using register.hyps(2) by (auto simp: tier_register_def split: if_splits option.splits)
    with register.IH show ?thesis by simp
  qed
next
  case (unregister m i r m')
  show ?case
  proof (cases "tier_find_slot i m")
    case (Some k)
    note F = tier_find_slot_Some [OF Some]
    have "m' = (tier_put k EMPTY_TIER_STATE m)\<lparr>tm_count := tm_count m - 1\<rparr>"
      using unregister.hyps(2) Some by (simp add: tier_unregister_def)
    moreover have "0 < tm_count m"
      using tier_invD(1) [OF conjunct1 [OF unregister.IH]] F count_if_pos [of k "tm_regions m" ts_occupied] by simp
    ultimately show ?thesis
      using tier_put_inv [OF conjunct1 [OF unregister.IH], of k EMPTY_TIER_STATE "tm_count m - 1"] F unregister.IH
      by (simp add: EMPTY_TIER_STATE_def tier_state_ok_def tier_put_def)
  qed (use unregister in \<open>simp add: tier_unregister_def\<close>)
next
  case (access m i r m')
  show ?case
  proof (cases "tier_find_slot i m")
    case (Some k)
    note F = tier_find_slot_Some [OF Some]
    have "tier_state_ok (tm_regions m ! k)" using tier_invD(2) [OF conjunct1 [OF access.IH]] F by simp
    moreover have "unat (min x (10000 :: u16)) \<le> 10000" for x by (simp add: min_def word_le_nat_alt)
    ultimately show ?thesis
      using tier_update_inv [OF conjunct1 [OF access.IH] Some] F access Some
      by (auto simp: tier_record_access_def tier_state_ok_def Let_def tier_put_def)
  qed (use access in \<open>simp add: tier_record_access_def\<close>)
next
  case (cut m i c r m')
  show ?case
  proof (cases "tier_find_slot i m")
    case (Some k)
    note F = tier_find_slot_Some [OF Some]
    have "tier_state_ok (tm_regions m ! k)" using tier_invD(2) [OF conjunct1 [OF cut.IH]] F by simp
    moreover have "unat (min x (10000 :: u16)) \<le> 10000" for x by (simp add: min_def word_le_nat_alt)
    ultimately show ?thesis
      using tier_update_inv [OF conjunct1 [OF cut.IH] Some] F cut Some
      by (auto simp: tier_update_cut_value_def tier_state_ok_def Let_def tier_put_def)
  qed (use cut in \<open>simp add: tier_update_cut_value_def\<close>)
next
  case (promote m i t q m')
  show ?case
  proof (cases "tier_find_slot i m")
    case (Some k)
    note F = tier_find_slot_Some [OF Some]
    have "tier_state_ok (tm_regions m ! k)" using tier_invD(2) [OF conjunct1 [OF promote.IH]] F by simp
    then show ?thesis
      using tier_update_inv [OF conjunct1 [OF promote.IH] Some] F promote Some
      by (auto simp: tier_promote_def tier_state_ok_def Let_def tier_put_def split: if_splits)
  qed (use promote in \<open>simp add: tier_promote_def\<close>)
next
  case (demote m i t q m')
  show ?case
  proof (cases "tier_find_slot i m")
    case (Some k)
    note F = tier_find_slot_Some [OF Some]
    have "tier_state_ok (tm_regions m ! k)" using tier_invD(2) [OF conjunct1 [OF demote.IH]] F by simp
    then show ?thesis
      using tier_update_inv [OF conjunct1 [OF demote.IH] Some] F demote Some
      by (auto simp: tier_demote_def tier_state_ok_def Let_def tier_put_def split: if_splits)
  qed (use demote in \<open>simp add: tier_demote_def\<close>)
next
  case (decay m d)
  then show ?case
    by (auto simp: tier_inv_def decay_recency_def list_all_length tier_state_ok_def saturating_sub_unat
        count_if_def filter_map o_def intro: le_trans [OF diff_le_self] cong: filter_cong)
qed

section \<open>Properties\<close>

text \<open>
  After any sequence of operations from a new manager, whatever the thresholds: a region is
  tracked in one slot at most, both parts of the score stay within the documented 0 to 10000
  basis points, so that their sum is exact and never saturates, and no promotion ever takes a region out of
  \<open>Cold\<close>.
\<close>

theorem tier_manager_invariant:
  assumes "tier_reach n m"
  shows "tm_count m = count_if ts_occupied (tm_regions m) \<and>
    (\<forall>i j. i < n \<longrightarrow> j < n \<longrightarrow> ts_occupied (tm_regions m ! i) \<longrightarrow> ts_occupied (tm_regions m ! j) \<longrightarrow>
       ts_region_id (tm_regions m ! i) = ts_region_id (tm_regions m ! j) \<longrightarrow> i = j) \<and>
    (\<forall>s\<in>set (tm_regions m). unat (ts_cut_value s) \<le> 10000 \<and> unat (ts_recency_score s) \<le> 10000 \<and>
       unat (residency_score s) = unat (ts_cut_value s) + unat (ts_recency_score s)) \<and>
    (\<forall>k s t. tier_get k m = Some s \<longrightarrow> ts_tier s = Cold \<longrightarrow> tier_promote k t m = (Inl InvalidTierTransition, m))"
proof -
  have inv: "tier_inv m" and len: "length (tm_regions m) = n" using tier_reach_inv [OF assms] by auto
  have "unat (ts_cut_value s) \<le> 10000 \<and> unat (ts_recency_score s) \<le> 10000 \<and>
       unat (residency_score s) = unat (ts_cut_value s) + unat (ts_recency_score s)"
    if "s \<in> set (tm_regions m)" for s
    using inv that by (auto simp: tier_inv_def list_all_iff tier_state_ok_def residency_score_def saturating_add_unat)
  moreover have "tier_promote k t m = (Inl InvalidTierTransition, m)"
    if "tier_get k m = Some s" "ts_tier s = Cold" for k s t
    using that by (auto simp: tier_get_def tier_promote_def Let_def)
  ultimately show ?thesis using tier_invD [OF inv] len by blast
qed

definition demo_tier :: tier_manager where
  "demo_tier = snd (tier_register 7 Cold (tier_new (Suc (Suc 0))))"

theorem tier_manager_invariant_witness:
  "tier_promote 7 Warm demo_tier = (Inl InvalidTierTransition, demo_tier)"
proof -
  have "tier_reach (Suc (Suc 0)) demo_tier"
    using tier_reach.register [OF tier_reach.new surjective_pairing] by (simp add: demo_tier_def tier_new_def)
  moreover have "\<exists>s. tier_get 7 demo_tier = Some s \<and> ts_tier s = Cold"
    by (simp add: demo_tier_def tier_register_def tier_new_def tier_with_thresholds_def tier_get_def
        tier_find_slot_def tier_put_def EMPTY_TIER_STATE_def)
  ultimately show ?thesis using tier_manager_invariant [of "Suc (Suc 0)" demo_tier] by blast
qed

end
