(* ===== verification/Region.thy ===== *)
theory Region
  imports Tier
begin

text \<open>
  Crate \<open>rvm-memory\<close>, files \<open>region.rs\<close> and \<open>lib.rs\<close>: the table of owned regions, each mapping a
  range of guest addresses of a partition to host addresses, with the overlap checks and the address
  translation.  The sums of addresses and sizes are word additions, as in the release profile;
  \<open>region_fits\<close> says that they do not wrap, which the code does not check.  \<open>region_reach\<close> are the
  tables that the operations produce from descriptors that fit: the specification's states, not all
  states of the code, which also takes descriptors that wrap (\<open>wrapping_region_breaks_isolation\<close>).
\<close>

section \<open>Data\<close>

record memory_permissions =
  mp_read :: bool
  mp_write :: bool
  mp_execute :: bool

definition READ_ONLY :: memory_permissions where
  "READ_ONLY = \<lparr>mp_read = True, mp_write = False, mp_execute = False\<rparr>"
definition READ_WRITE :: memory_permissions where
  "READ_WRITE = \<lparr>mp_read = True, mp_write = True, mp_execute = False\<rparr>"
definition READ_EXECUTE :: memory_permissions where
  "READ_EXECUTE = \<lparr>mp_read = True, mp_write = False, mp_execute = True\<rparr>"

record memory_region =
  mr_guest_base :: guest_phys_addr
  mr_host_base :: phys_addr
  mr_page_count :: u64
  mr_permissions :: memory_permissions
  mr_owner :: partition_id

definition validate_region :: "memory_region \<Rightarrow> rvm_error + unit" where
  "validate_region r =
     (if \<not> is_page_aligned (mr_guest_base r) then Inl AlignmentError
      else if \<not> is_page_aligned (mr_host_base r) then Inl AlignmentError
      else if mr_page_count r = 0 then Inl ResourceLimitExceeded
      else if \<not> mp_read (mr_permissions r) \<and> \<not> mp_write (mr_permissions r) \<and> \<not> mp_execute (mr_permissions r)
      then Inl Unsupported
      else Inr ())"

definition regions_overlap :: "memory_region \<Rightarrow> memory_region \<Rightarrow> bool" where
  "regions_overlap a b =
     (if mr_owner a \<noteq> mr_owner b then False
      else
        let a_start = mr_guest_base a; a_end = a_start + mr_page_count a * 4096;
            b_start = mr_guest_base b; b_end = b_start + mr_page_count b * 4096
        in a_start < b_end \<and> b_start < a_end)"

definition regions_overlap_host :: "memory_region \<Rightarrow> memory_region \<Rightarrow> bool" where
  "regions_overlap_host a b =
     (let a_start = mr_host_base a; a_end = a_start + mr_page_count a * 4096;
          b_start = mr_host_base b; b_end = b_start + mr_page_count b * 4096
      in a_start < b_end \<and> b_start < a_end)"

record owned_region =
  or_id :: owned_region_id
  or_owner :: partition_id
  or_guest_base :: guest_phys_addr
  or_host_base :: phys_addr
  or_page_count :: u32
  or_tier :: tier
  or_permissions :: memory_permissions
  or_occupied :: bool

definition EMPTY_REGION :: owned_region where
  "EMPTY_REGION = \<lparr>or_id = 0, or_owner = 0, or_guest_base = 0, or_host_base = 0, or_page_count = 0,
     or_tier = Warm, or_permissions = READ_ONLY, or_occupied = False\<rparr>"

definition size_bytes :: "owned_region \<Rightarrow> u64" where
  "size_bytes r = ucast (or_page_count r) * 4096"

definition guest_end :: "owned_region \<Rightarrow> u64" where
  "guest_end r = or_guest_base r + size_bytes r"

definition host_end :: "owned_region \<Rightarrow> u64" where
  "host_end r = or_host_base r + size_bytes r"

definition contains_guest :: "guest_phys_addr \<Rightarrow> owned_region \<Rightarrow> bool" where
  "contains_guest addr r \<longleftrightarrow> addr \<ge> or_guest_base r \<and> addr < guest_end r"

record region_config =
  rc_id :: owned_region_id
  rc_owner :: partition_id
  rc_guest_base :: guest_phys_addr
  rc_host_base :: phys_addr
  rc_page_count :: u32
  rc_tier :: tier
  rc_permissions :: memory_permissions

record address_mapping =
  am_guest :: guest_phys_addr
  am_host :: phys_addr
  am_permissions :: memory_permissions

record region_manager =
  rm_regions :: "owned_region list"
  rm_count :: nat
  rm_next_id :: u64

definition region_manager_new :: "nat \<Rightarrow> region_manager" where
  "region_manager_new max_regions =
     \<lparr>rm_regions = replicate max_regions EMPTY_REGION, rm_count = 0, rm_next_id = 1\<rparr>"

section \<open>Operations\<close>

definition region_find_slot :: "owned_region_id \<Rightarrow> region_manager \<Rightarrow> nat option" where
  "region_find_slot region_id m = position (\<lambda>r. or_occupied r \<and> or_id r = region_id) (rm_regions m)"

text \<open>The single pass of \<open>create\<close>: an overlap, or the first free slot, if any.\<close>

fun create_scan ::
    "region_config \<Rightarrow> u64 \<Rightarrow> u64 \<Rightarrow> owned_region list \<Rightarrow> nat \<Rightarrow> nat option \<Rightarrow> rvm_error + nat option" where
  "create_scan config new_end new_host_end [] i first_free_slot = Inr first_free_slot"
| "create_scan config new_end new_host_end (region # regions) i first_free_slot =
     (if \<not> or_occupied region then
        create_scan config new_end new_host_end regions (i + 1)
          (if first_free_slot = None then Some i else first_free_slot)
      else if or_owner region = rc_owner config \<and>
              rc_guest_base config < guest_end region \<and> or_guest_base region < new_end
      then Inl MemoryOverlap
      else if rc_host_base config < host_end region \<and> or_host_base region < new_host_end
      then Inl MemoryOverlap
      else create_scan config new_end new_host_end regions (i + 1) first_free_slot)"

definition region_of_config :: "region_config \<Rightarrow> owned_region" where
  "region_of_config c =
     \<lparr>or_id = rc_id c, or_owner = rc_owner c, or_guest_base = rc_guest_base c, or_host_base = rc_host_base c,
      or_page_count = rc_page_count c, or_tier = rc_tier c, or_permissions = rc_permissions c,
      or_occupied = True\<rparr>"

definition region_create ::
    "region_config \<Rightarrow> region_manager \<Rightarrow> (rvm_error, owned_region_id, region_manager) outcome" where
  "region_create config m =
     (if \<not> is_page_aligned (rc_guest_base config) then (Inl AlignmentError, m)
      else if \<not> is_page_aligned (rc_host_base config) then (Inl AlignmentError, m)
      else if rc_page_count config = 0 then (Inl ResourceLimitExceeded, m)
      else if rm_count m \<ge> length (rm_regions m) then (Inl ResourceLimitExceeded, m)
      else
        let new_end = rc_guest_base config + ucast (rc_page_count config) * 4096;
            new_host_end = rc_host_base config + ucast (rc_page_count config) * 4096
        in case create_scan config new_end new_host_end (rm_regions m) 0 None of
             Inl e \<Rightarrow> (Inl e, m)
           | Inr (Some idx) \<Rightarrow>
               (Inr (rc_id config),
                m\<lparr>rm_regions := (rm_regions m)[idx := region_of_config config], rm_count := rm_count m + 1\<rparr>)
           | Inr None \<Rightarrow> (Inl ResourceLimitExceeded, m))"

definition region_create_auto_id ::
    "partition_id \<Rightarrow> guest_phys_addr \<Rightarrow> phys_addr \<Rightarrow> u32 \<Rightarrow> tier \<Rightarrow> memory_permissions \<Rightarrow> region_manager
       \<Rightarrow> (rvm_error, owned_region_id, region_manager) outcome" where
  "region_create_auto_id owner guest_base host_base page_count t permissions m =
     region_create
       \<lparr>rc_id = rm_next_id m, rc_owner = owner, rc_guest_base = guest_base, rc_host_base = host_base,
        rc_page_count = page_count, rc_tier = t, rc_permissions = permissions\<rparr>
       (m\<lparr>rm_next_id := rm_next_id m + 1\<rparr>)"

definition region_destroy ::
    "owned_region_id \<Rightarrow> region_manager \<Rightarrow> (rvm_error, owned_region, region_manager) outcome" where
  "region_destroy region_id m =
     (case region_find_slot region_id m of
        Some idx \<Rightarrow>
          (Inr (rm_regions m ! idx),
           m\<lparr>rm_regions := (rm_regions m)[idx := EMPTY_REGION], rm_count := rm_count m - 1\<rparr>)
      | None \<Rightarrow> (Inl PartitionNotFound, m))"

text \<open>The scan of \<open>transfer\<close>, with the index of the region that is transferred.\<close>

fun transfer_conflict ::
    "nat \<Rightarrow> partition_id \<Rightarrow> u64 \<Rightarrow> u64 \<Rightarrow> owned_region list \<Rightarrow> nat \<Rightarrow> bool" where
  "transfer_conflict idx new_owner xfer_start xfer_end [] i = False"
| "transfer_conflict idx new_owner xfer_start xfer_end (region # regions) i =
     (if i = idx \<or> \<not> or_occupied region \<or> or_owner region \<noteq> new_owner
      then transfer_conflict idx new_owner xfer_start xfer_end regions (i + 1)
      else if xfer_start < guest_end region \<and> or_guest_base region < xfer_end then True
      else transfer_conflict idx new_owner xfer_start xfer_end regions (i + 1))"

definition region_transfer ::
    "owned_region_id \<Rightarrow> partition_id \<Rightarrow> region_manager \<Rightarrow> (rvm_error, unit, region_manager) outcome" where
  "region_transfer region_id new_owner m =
     (case region_find_slot region_id m of
        None \<Rightarrow> (Inl PartitionNotFound, m)
      | Some idx \<Rightarrow>
          let r = rm_regions m ! idx in
          if transfer_conflict idx new_owner (or_guest_base r) (guest_end r) (rm_regions m) 0
          then (Inl MemoryOverlap, m)
          else (Inr (), m\<lparr>rm_regions := (rm_regions m)[idx := r\<lparr>or_owner := new_owner\<rparr>]\<rparr>))"

definition region_get :: "owned_region_id \<Rightarrow> region_manager \<Rightarrow> owned_region option" where
  "region_get region_id m = map_option (\<lambda>idx. rm_regions m ! idx) (region_find_slot region_id m)"

definition region_get_mut ::
    "owned_region_id \<Rightarrow> (owned_region \<Rightarrow> owned_region) \<Rightarrow> region_manager \<Rightarrow> region_manager option" where
  "region_get_mut region_id f m =
     map_option (\<lambda>idx. m\<lparr>rm_regions := (rm_regions m)[idx := f (rm_regions m ! idx)]\<rparr>) (region_find_slot region_id m)"

definition translate :: "partition_id \<Rightarrow> guest_phys_addr \<Rightarrow> region_manager \<Rightarrow> address_mapping option" where
  "translate owner guest m =
     map_option
       (\<lambda>region. let offset = guest - or_guest_base region in
          \<lparr>am_guest = guest, am_host = or_host_base region + offset, am_permissions = or_permissions region\<rparr>)
       (find (\<lambda>region. or_occupied region \<and> or_owner region = owner \<and> contains_guest guest region) (rm_regions m))"

definition count_for_partition :: "partition_id \<Rightarrow> region_manager \<Rightarrow> nat" where
  "count_for_partition owner m = length (filter (\<lambda>r. or_occupied r \<and> or_owner r = owner) (rm_regions m))"

definition regions_for_partition ::
    "partition_id \<Rightarrow> owned_region_id list \<Rightarrow> region_manager \<Rightarrow> nat \<times> owned_region_id list" where
  "regions_for_partition owner out m =
     (let ids = take (length out) (map or_id (filter (\<lambda>r. or_occupied r \<and> or_owner r = owner) (rm_regions m)))
      in (length ids, ids @ drop (length ids) out))"

section \<open>Ranges\<close>

definition range_of :: "u64 \<Rightarrow> u32 \<Rightarrow> nat set" where
  "range_of start n = {unat start ..< unat start + unat n * 4096}"

abbreviation host_range :: "owned_region \<Rightarrow> nat set" where
  "host_range r \<equiv> range_of (or_host_base r) (or_page_count r)"

abbreviation guest_range :: "owned_region \<Rightarrow> nat set" where
  "guest_range r \<equiv> range_of (or_guest_base r) (or_page_count r)"

text \<open>The end addresses do not wrap.\<close>

definition region_fits :: "owned_region \<Rightarrow> bool" where
  "region_fits r \<longleftrightarrow> unat (or_guest_base r) + unat (or_page_count r) * 4096 < 2 ^ 64 \<and>
     unat (or_host_base r) + unat (or_page_count r) * 4096 < 2 ^ 64"

lemma end_unat:
  assumes "unat s + unat (n :: u32) * 4096 < 2 ^ 64"
  shows "unat (s + ucast n * 4096 :: u64) = unat s + unat n * 4096"
proof -
  have "s + ucast n * 4096 = (of_nat (unat s + unat n * 4096) :: u64)" by simp
  then show ?thesis using assms by (simp add: unsigned_of_nat take_bit_nat_eq_self del: of_nat_add of_nat_mult)
qed

lemma region_ends:
  assumes "region_fits r"
  shows "unat (guest_end r) = unat (or_guest_base r) + unat (or_page_count r) * 4096"
    "unat (host_end r) = unat (or_host_base r) + unat (or_page_count r) * 4096"
  using assms end_unat unfolding region_fits_def guest_end_def host_end_def size_bytes_def by blast+

lemma ranges_disjoint:
  "0 < a \<Longrightarrow> 0 < b \<Longrightarrow> \<not> (s < t + b \<and> t < s + a) \<Longrightarrow> {s ..< s + a} \<inter> {t ..< t + b} = {}" for s t a b :: nat
  by auto

lemma contains_guest_range: "region_fits r \<Longrightarrow> contains_guest g r \<longleftrightarrow> unat g \<in> guest_range r"
  by (auto simp: contains_guest_def range_of_def word_le_nat_alt word_less_nat_alt region_ends)

section \<open>Invariant\<close>

definition region_ok :: "owned_region \<Rightarrow> bool" where
  "region_ok r \<longleftrightarrow> region_fits r \<and> or_page_count r \<noteq> 0"

text \<open>Two regions of the table may coexist.\<close>

definition apart :: "owned_region \<Rightarrow> owned_region \<Rightarrow> bool" where
  "apart a b \<longleftrightarrow> host_range a \<inter> host_range b = {} \<and>
     (or_owner a = or_owner b \<longrightarrow> guest_range a \<inter> guest_range b = {})"

definition region_inv :: "region_manager \<Rightarrow> bool" where
  "region_inv m \<longleftrightarrow>
     (\<forall>i < length (rm_regions m). or_occupied (rm_regions m ! i) \<longrightarrow> region_ok (rm_regions m ! i)) \<and>
     (\<forall>i < length (rm_regions m). \<forall>j < length (rm_regions m). i \<noteq> j \<longrightarrow>
        or_occupied (rm_regions m ! i) \<longrightarrow> or_occupied (rm_regions m ! j) \<longrightarrow>
        apart (rm_regions m ! i) (rm_regions m ! j))"

lemma apart_sym: "apart a b \<Longrightarrow> apart b a"
  by (auto simp: apart_def)

lemma region_invD:
  assumes "region_inv m"
  shows "\<And>i. i < length (rm_regions m) \<Longrightarrow> or_occupied (rm_regions m ! i) \<Longrightarrow> region_ok (rm_regions m ! i)"
    "\<And>i j. i < length (rm_regions m) \<Longrightarrow> j < length (rm_regions m) \<Longrightarrow> i \<noteq> j \<Longrightarrow>
       or_occupied (rm_regions m ! i) \<Longrightarrow> or_occupied (rm_regions m ! j) \<Longrightarrow>
       apart (rm_regions m ! i) (rm_regions m ! j)"
  using assms by (auto simp: region_inv_def)

text \<open>Storing a region that is apart from the others.\<close>

lemma region_put_inv:
  assumes inv: "region_inv m" and i: "i < length (rm_regions m)"
    and r: "or_occupied r \<Longrightarrow> region_ok r"
    and others: "\<And>j. j < length (rm_regions m) \<Longrightarrow> j \<noteq> i \<Longrightarrow> or_occupied r \<Longrightarrow>
                   or_occupied (rm_regions m ! j) \<Longrightarrow> apart r (rm_regions m ! j)"
    and m': "rm_regions m' = (rm_regions m)[i := r]"
  shows "region_inv m'"
proof -
  note D = region_invD [OF inv]
  have "region_ok ((rm_regions m)[i := r] ! j)"
    if "j < length (rm_regions m)" "or_occupied ((rm_regions m)[i := r] ! j)" for j
    using that D(1) [of j] r by (cases "j = i") simp_all
  moreover have "apart ((rm_regions m)[i := r] ! j) ((rm_regions m)[i := r] ! k)"
    if "j < length (rm_regions m)" "k < length (rm_regions m)" "j \<noteq> k"
      "or_occupied ((rm_regions m)[i := r] ! j)" "or_occupied ((rm_regions m)[i := r] ! k)" for j k
    using that D(2) [of j k] others [of j] others [of k] apart_sym
    by (cases "j = i"; cases "k = i") simp_all
  ultimately show ?thesis by (simp add: region_inv_def m')
qed

lemma create_scan_Inr:
  assumes "create_scan c e he rs i f = Inr s"
  shows "\<And>r. r \<in> set rs \<Longrightarrow> or_occupied r \<Longrightarrow>
           \<not> (or_owner r = rc_owner c \<and> rc_guest_base c < guest_end r \<and> or_guest_base r < e) \<and>
           \<not> (rc_host_base c < host_end r \<and> or_host_base r < he)"
    "\<And>k. s = Some k \<Longrightarrow> f = Some k \<or> (i \<le> k \<and> k < i + length rs \<and> \<not> or_occupied (rs ! (k - i)))"
  using assms
proof (induction rs arbitrary: i f)
  case Nil
  {
    case 1
    then show ?case by simp
  next
    case 2
    then show ?case by simp
  }
next
  case (Cons x rs)
  {
    case 1
    then show ?case using Cons.IH(1) by (auto split: if_splits)
  next
    case (2 k)
    show ?case
    proof (cases "or_occupied x")
      case True
      then have "create_scan c e he rs (i + 1) f = Inr s" using 2 by (simp split: if_splits)
      from Cons.IH(2) [OF 2(1) this] show ?thesis by (auto simp: nth_Cons' Suc_le_eq)
    next
      case False
      then have "create_scan c e he rs (i + 1) (if f = None then Some i else f) = Inr s" using 2 by simp
      from Cons.IH(2) [OF 2(1) this] False show ?thesis by (auto simp: nth_Cons' Suc_le_eq split: if_splits)
    qed
  }
qed

lemma region_create_inv:
  assumes inv: "region_inv m" and fits: "region_fits (region_of_config c)"
    and run: "region_create c m = (r, m')"
  shows "region_inv m' \<and> length (rm_regions m') = length (rm_regions m)"
proof (cases r)
  case (Inl e)
  then have "m' = m" using run by (auto simp: region_create_def Let_def split: if_splits sum.splits option.splits)
  with inv show ?thesis by simp
next
  case (Inr k)
  let ?r = "region_of_config c"
  have pc: "rc_page_count c \<noteq> 0"
    using run Inr by (auto simp: region_create_def split: if_splits)
  obtain idx where scan: "create_scan c (guest_end ?r) (host_end ?r) (rm_regions m) 0 None = Inr (Some idx)"
    and m': "rm_regions m' = (rm_regions m)[idx := ?r]"
    using run Inr
    by (auto simp: region_create_def Let_def guest_end_def host_end_def size_bytes_def region_of_config_def
        split: if_splits sum.splits option.splits)
  note S = create_scan_Inr [OF scan]
  have idx: "idx < length (rm_regions m)" using S(2) [of idx] by simp
  have ok: "region_ok ?r" using fits pc by (simp add: region_ok_def region_of_config_def)
  have sep: "apart ?r x" if x: "x \<in> set (rm_regions m)" "or_occupied x" "region_ok x" for x
  proof -
    have pos: "0 < unat (or_page_count ?r) * 4096" "0 < unat (or_page_count x) * 4096"
      using ok x(3) by (simp_all add: region_ok_def unat_gt_0)
    have f: "region_fits ?r" "region_fits x" using ok x(3) by (simp_all add: region_ok_def)
    have fields: "rc_owner c = or_owner ?r" "rc_guest_base c = or_guest_base ?r" "rc_host_base c = or_host_base ?r"
      by (simp_all add: region_of_config_def)
    have "\<not> (unat (or_host_base ?r) < unat (or_host_base x) + unat (or_page_count x) * 4096 \<and>
             unat (or_host_base x) < unat (or_host_base ?r) + unat (or_page_count ?r) * 4096)"
      using S(1) [OF x(1,2)] region_ends [OF f(1)] region_ends [OF f(2)] by (simp add: word_less_nat_alt fields)
    then have "host_range ?r \<inter> host_range x = {}" unfolding range_of_def by (rule ranges_disjoint [OF pos])
    moreover have "guest_range ?r \<inter> guest_range x = {}" if "or_owner ?r = or_owner x"
    proof -
      have "\<not> (unat (or_guest_base ?r) < unat (or_guest_base x) + unat (or_page_count x) * 4096 \<and>
             unat (or_guest_base x) < unat (or_guest_base ?r) + unat (or_page_count ?r) * 4096)"
        using S(1) [OF x(1,2)] region_ends [OF f(1)] region_ends [OF f(2)] that by (simp add: word_less_nat_alt fields)
      then show ?thesis unfolding range_of_def by (rule ranges_disjoint [OF pos])
    qed
    ultimately show ?thesis by (simp add: apart_def)
  qed
  have "region_inv m'"
  proof (rule region_put_inv [OF inv idx _ _ m'])
    show "region_ok ?r" by (rule ok)
    fix j assume "j < length (rm_regions m)" "or_occupied (rm_regions m ! j)"
    then show "apart ?r (rm_regions m ! j)" using region_invD(1) [OF inv] sep nth_mem by blast
  qed
  then show ?thesis by (simp add: m')
qed

lemma transfer_conflict_iff:
  "transfer_conflict idx p s e rs i \<longleftrightarrow>
     (\<exists>j < length rs. i + j \<noteq> idx \<and> or_occupied (rs ! j) \<and> or_owner (rs ! j) = p \<and>
        s < guest_end (rs ! j) \<and> or_guest_base (rs ! j) < e)"
proof (induction rs arbitrary: i)
  case Nil
  then show ?case by simp
next
  case (Cons x rs)
  have split: "(\<exists>j < length (x # rs). P j ((x # rs) ! j)) \<longleftrightarrow> P 0 x \<or> (\<exists>j < length rs. P (Suc j) (rs ! j))"
    for P by (auto simp: less_Suc_eq_0_disj)
  show ?case by (subst split) (use Cons.IH [of "i + 1"] in auto)
qed

lemma region_find_slot_Some:
  "region_find_slot k m = Some i \<Longrightarrow> i < length (rm_regions m) \<and> or_occupied (rm_regions m ! i) \<and> or_id (rm_regions m ! i) = k"
  using position_Some unfolding region_find_slot_def by fastforce

lemma region_transfer_inv:
  assumes inv: "region_inv m" and run: "region_transfer k p m = (r, m')"
  shows "region_inv m' \<and> length (rm_regions m') = length (rm_regions m)"
proof (cases "\<exists>idx. region_find_slot k m = Some idx \<and>
    \<not> transfer_conflict idx p (or_guest_base (rm_regions m ! idx)) (guest_end (rm_regions m ! idx)) (rm_regions m) 0")
  case False
  then have "m' = m" using run by (auto simp: region_transfer_def Let_def split: option.splits if_splits)
  with inv show ?thesis by simp
next
  case True
  then obtain idx where idx: "region_find_slot k m = Some idx"
    and no: "\<not> transfer_conflict idx p (or_guest_base (rm_regions m ! idx)) (guest_end (rm_regions m ! idx)) (rm_regions m) 0"
    by blast
  let ?old = "rm_regions m ! idx" and ?new = "(rm_regions m ! idx)\<lparr>or_owner := p\<rparr>"
  note F = region_find_slot_Some [OF idx]
  have m': "rm_regions m' = (rm_regions m)[idx := ?new]"
    using run idx no by (auto simp: region_transfer_def Let_def)
  have old: "region_ok ?old" using region_invD(1) [OF inv] F by blast
  have "apart ?new x" if j: "j < length (rm_regions m)" "j \<noteq> idx" "x = rm_regions m ! j" "or_occupied x" for j x
  proof -
    have x: "region_ok x" using region_invD(1) [OF inv j(1)] j by simp
    have "apart ?old x" using region_invD(2) [OF inv _ j(1), of idx] F j by auto
    then have "host_range ?new \<inter> host_range x = {}" by (simp add: apart_def)
    moreover have "guest_range ?new \<inter> guest_range x = {}" if "p = or_owner x"
    proof -
      have pos: "0 < unat (or_page_count ?old) * 4096" "0 < unat (or_page_count x) * 4096"
        using old x by (simp_all add: region_ok_def unat_gt_0)
      have f: "region_fits ?old" "region_fits x" using old x by (simp_all add: region_ok_def)
      have "\<not> (or_guest_base ?old < guest_end x \<and> or_guest_base x < guest_end ?old)"
        using no j that unfolding transfer_conflict_iff by auto
      then have "\<not> (unat (or_guest_base ?old) < unat (or_guest_base x) + unat (or_page_count x) * 4096 \<and>
             unat (or_guest_base x) < unat (or_guest_base ?old) + unat (or_page_count ?old) * 4096)"
        using region_ends [OF f(1)] region_ends [OF f(2)] by (simp add: word_less_nat_alt)
      from ranges_disjoint [OF pos this] show ?thesis by (simp add: range_of_def)
    qed
    ultimately show ?thesis by (simp add: apart_def)
  qed
  then have "region_inv m'"
    using F old by (intro region_put_inv [OF inv _ _ _ m']) (auto simp: region_ok_def region_fits_def)
  then show ?thesis by (simp add: m')
qed

lemma region_destroy_inv:
  assumes "region_inv m" "region_destroy k m = (r, m')"
  shows "region_inv m' \<and> length (rm_regions m') = length (rm_regions m)"
proof (cases "region_find_slot k m")
  case None
  with assms show ?thesis by (simp add: region_destroy_def)
next
  case (Some idx)
  then have m': "rm_regions m' = (rm_regions m)[idx := EMPTY_REGION]" using assms(2) by (auto simp: region_destroy_def)
  have "region_inv m'"
    using region_find_slot_Some [OF Some] by (intro region_put_inv [OF assms(1) _ _ _ m']) (auto simp: EMPTY_REGION_def)
  then show ?thesis by (simp add: m')
qed

section \<open>Reachable tables\<close>

inductive region_reach :: "nat \<Rightarrow> region_manager \<Rightarrow> bool" for n where
  new: "region_reach n (region_manager_new n)"
| create: "region_reach n m \<Longrightarrow> region_fits (region_of_config c) \<Longrightarrow> region_create c m = (r, m') \<Longrightarrow> region_reach n m'"
| auto_id: "region_reach n m \<Longrightarrow> unat g + unat pc * 4096 < 2 ^ 64 \<Longrightarrow> unat h + unat pc * 4096 < 2 ^ 64 \<Longrightarrow>
     region_create_auto_id p g h pc t perm m = (r, m') \<Longrightarrow> region_reach n m'"
| destroy: "region_reach n m \<Longrightarrow> region_destroy k m = (q, m') \<Longrightarrow> region_reach n m'"
| transfer: "region_reach n m \<Longrightarrow> region_transfer k p m = (u, m') \<Longrightarrow> region_reach n m'"

lemma region_reach_inv: "region_reach n m \<Longrightarrow> region_inv m"
proof (induction rule: region_reach.induct)
  case new
  then show ?case by (simp add: region_inv_def region_manager_new_def EMPTY_REGION_def)
next
  case (create m c r m')
  then show ?case using region_create_inv by blast
next
  case (auto_id m g pc h p t perm r m')
  have "region_inv (m\<lparr>rm_next_id := rm_next_id m + 1\<rparr>)" using auto_id.IH by (simp add: region_inv_def)
  moreover have "region_fits (region_of_config \<lparr>rc_id = rm_next_id m, rc_owner = p, rc_guest_base = g,
      rc_host_base = h, rc_page_count = pc, rc_tier = t, rc_permissions = perm\<rparr>)"
    using auto_id.hyps by (simp add: region_fits_def region_of_config_def)
  ultimately show ?case
    using region_create_inv auto_id.hyps(4) unfolding region_create_auto_id_def Let_def by blast
next
  case (destroy m k q m')
  then show ?case using region_destroy_inv by blast
next
  case (transfer m k p u m')
  then show ?case using region_transfer_inv by blast
qed

text \<open>A translated address comes from one slot and lies in its host range, at the offset of the guest address.\<close>

lemma translate_Some:
  assumes inv: "region_inv m" and t: "translate p g m = Some x"
  obtains i where "i < length (rm_regions m)" "or_occupied (rm_regions m ! i)" "or_owner (rm_regions m ! i) = p"
    "unat g \<in> guest_range (rm_regions m ! i)" "unat (am_host x) \<in> host_range (rm_regions m ! i)"
    "unat (am_host x) + unat (or_guest_base (rm_regions m ! i)) = unat (or_host_base (rm_regions m ! i)) + unat g"
proof -
  obtain r where f: "find (\<lambda>r. or_occupied r \<and> or_owner r = p \<and> contains_guest g r) (rm_regions m) = Some r"
    and x: "am_host x = or_host_base r + (g - or_guest_base r)"
    using t by (auto simp: translate_def Let_def)
  from f obtain i where i: "i < length (rm_regions m)" "rm_regions m ! i = r" "or_occupied r" "or_owner r = p"
    "contains_guest g r" by (auto simp: find_Some_iff)
  have fit: "region_fits r" using region_invD(1) [OF inv i(1)] i by (simp add: region_ok_def)
  have g: "unat g \<in> guest_range r" using i(5) contains_guest_range [OF fit] by simp
  then have ge: "unat (or_guest_base r) \<le> unat g" "unat g < unat (or_guest_base r) + unat (or_page_count r) * 4096"
    by (simp_all add: range_of_def)
  have off: "unat (g - or_guest_base r) = unat g - unat (or_guest_base r)"
    using ge(1) by (simp add: unat_sub word_le_nat_alt)
  have "unat g - unat (or_guest_base r) < unat (or_page_count r) * 4096" using ge by linarith
  moreover have "unat (or_host_base r) + unat (or_page_count r) * 4096 < 2 ^ 64" using fit by (simp add: region_fits_def)
  ultimately have "unat (or_host_base r) + unat (g - or_guest_base r) < 2 ^ 64" unfolding off by linarith
  then have h: "unat (am_host x) = unat (or_host_base r) + (unat g - unat (or_guest_base r))"
    unfolding x using off by (simp add: unat_word_ariths)
  have "unat (am_host x) \<in> host_range r" using h ge unfolding range_of_def by (simp only: atLeastLessThan_iff) linarith
  moreover have "unat (am_host x) + unat (or_guest_base r) = unat (or_host_base r) + unat g" using h ge by simp
  ultimately show thesis using that [of i] i g by simp
qed

section \<open>Properties\<close>

text \<open>
  C16.  Memory isolation, as long as no region wraps.  In every table built by the operations from descriptors
  whose ranges do not wrap at \<open>2 ^ 64\<close> (the code does not check this, and a wrapping descriptor breaks
  isolation), two translations that reach the same host address are the same translation: the same
  partition and the same guest address.  No partition can reach memory of another, and no partition
  sees a host page under two guest addresses, also after transfers and destructions.  (The tables are
  those built by create, destroy and transfer; \<open>get_mut\<close> hands out the raw entry and promises nothing.)
\<close>

theorem region_isolation:
  assumes "region_reach n m" "translate p g m = Some x" "translate q g' m = Some y" "am_host x = am_host y"
  shows "p = q \<and> g = g'"
proof -
  note inv = region_reach_inv [OF assms(1)]
  obtain i where i: "i < length (rm_regions m)" "or_occupied (rm_regions m ! i)" "or_owner (rm_regions m ! i) = p"
    "unat (am_host x) \<in> host_range (rm_regions m ! i)"
    "unat (am_host x) + unat (or_guest_base (rm_regions m ! i)) = unat (or_host_base (rm_regions m ! i)) + unat g"
    using translate_Some [OF inv assms(2)] by metis
  obtain j where j: "j < length (rm_regions m)" "or_occupied (rm_regions m ! j)" "or_owner (rm_regions m ! j) = q"
    "unat (am_host y) \<in> host_range (rm_regions m ! j)"
    "unat (am_host y) + unat (or_guest_base (rm_regions m ! j)) = unat (or_host_base (rm_regions m ! j)) + unat g'"
    using translate_Some [OF inv assms(3)] by metis
  have "i = j"
    using region_invD(2) [OF inv i(1) j(1) _ i(2) j(2)] i(4) j(4) assms(4) by (auto simp: apart_def)
  then show ?thesis using i j assms(4) by (auto simp: word_unat_eq_iff)
qed

definition demo_region :: "owned_region_id \<Rightarrow> partition_id \<Rightarrow> u64 \<Rightarrow> u64 \<Rightarrow> u32 \<Rightarrow> region_config" where
  "demo_region k p g h n = \<lparr>rc_id = k, rc_owner = p, rc_guest_base = g, rc_host_base = h, rc_page_count = n,
     rc_tier = Warm, rc_permissions = READ_WRITE\<rparr>"

definition demo_regions :: region_manager where
  "demo_regions = snd (region_create (demo_region 1 1 0x1000 0x2000 1) (region_manager_new (Suc (Suc 0))))"

lemmas demo_region_simps =
  demo_regions_def demo_region_def region_create_def region_manager_new_def EMPTY_REGION_def region_of_config_def
  is_page_aligned_def translate_def contains_guest_def guest_end_def host_end_def size_bytes_def

lemma demo_regions_reach: "region_reach (Suc (Suc 0)) demo_regions"
proof -
  have "region_fits (region_of_config (demo_region 1 1 0x1000 0x2000 1))"
    by (simp add: region_fits_def region_of_config_def demo_region_def)
  from region_reach.create [OF region_reach.new this surjective_pairing] show ?thesis by (simp add: demo_regions_def)
qed

theorem region_isolation_witness:
  "\<exists>x. translate 1 0x1008 demo_regions = Some x \<and> am_host x = 0x2008 \<and>
     (\<forall>q g' y. translate q g' demo_regions = Some y \<and> am_host y = 0x2008 \<longrightarrow> q = 1 \<and> g' = 0x1008)"
proof -
  have t: "\<exists>x. translate 1 0x1008 demo_regions = Some x \<and> am_host x = 0x2008"
    by (simp add: demo_region_simps Let_def word_le_nat_alt word_less_nat_alt)
  then obtain x where x: "translate 1 0x1008 demo_regions = Some x" "am_host x = 0x2008" by blast
  have "q = 1 \<and> g' = 0x1008" if "translate q g' demo_regions = Some y \<and> am_host y = 0x2008" for q g' y
    using region_isolation [OF demo_regions_reach x(1), of q g' y] that x(2) by simp
  with x show ?thesis by blast
qed

text \<open>
  Without that assumption isolation fails.  The end of a range is computed with a wrapping
  addition and not checked: after partition 1 gets the host page at 0x2000, a region of partition 2 of
  four pages that starts one page below \<open>2 ^ 64\<close> passes the overlap check, and partition 2 then
  reaches partition 1's memory.
\<close>

theorem wrapping_region_breaks_isolation:
  "\<exists>m x y. region_create (demo_region 2 2 0x10000 0xFFFFFFFFFFFFF000 4) demo_regions = (Inr 2, m) \<and>
     translate 1 0x1008 m = Some x \<and> translate 2 0x13008 m = Some y \<and> am_host x = am_host y"
  by (simp add: demo_region_simps Let_def word_le_nat_alt word_less_nat_alt)

end
