(* ===== verification/Reconstruction.thy ===== *)
theory Reconstruction
  imports Witness_Hash
begin

text \<open>
  Dormant memory: \<open>rvm-memory/src/reconstruction.rs\<close>.  A region leaves the warm tier as a
  run-length compressed checkpoint and comes back by decompression and by replaying the recorded
  deltas.  The buffers of the caller are byte lists that the operations return updated, on the error
  paths too; a copy into a slice is \<open>put_bytes\<close>, which the guards of the code keep in range.
  The lemmas show the round trip through the compressor, a bound on the size of its output, and what
  the replay of deltas computes.
\<close>

section \<open>Data\<close>

record witness_delta =
  wd_sequence :: u64
  wd_offset :: u32
  wd_length :: u16
  wd_data_hash :: u64

record compressed_checkpoint =
  cc_id :: u64
  cc_region_id :: u64
  cc_witness_sequence :: u64
  cc_uncompressed_hash :: u64
  cc_uncompressed_size :: u32
  cc_compressed_size :: u32

record reconstruction_result =
  rr_region_id :: u64
  rr_size_bytes :: u32
  rr_deltas_applied :: u32
  rr_final_hash :: u64

record reconstruction_pipeline =
  rp_deltas :: "witness_delta option list"
  rp_delta_count :: nat

section \<open>The hash and the compressor\<close>

definition recon_fnv1a_hash :: "u8 list \<Rightarrow> u64" where
  "recon_fnv1a_hash data = foldl (\<lambda>hash byte. (hash XOR ucast byte) * FNV_PRIME) FNV_OFFSET data"

definition TAG_ZERO_RUN :: u8 where "TAG_ZERO_RUN = 0"
definition TAG_LITERAL :: u8 where "TAG_LITERAL = 1"

function scan_run :: "(u8 \<Rightarrow> bool) \<Rightarrow> u8 list \<Rightarrow> nat \<Rightarrow> nat \<Rightarrow> nat" where
  "scan_run P input run_start in_pos =
     (if in_pos < length input \<and> P (input ! in_pos) \<and> in_pos - run_start < 0xFFFF
      then scan_run P input run_start (in_pos + 1) else in_pos)"
  by pat_completeness auto
termination by (relation "measure (\<lambda>(P, input, s, i). length input - i)") auto

declare scan_run.simps [simp del]

lemma scan_run_ge: "in_pos \<le> scan_run P input s in_pos"
proof (induction P input s in_pos rule: scan_run.induct)
  case (1 P input s i)
  then show ?case by (subst scan_run.simps) (auto intro: Suc_leD)
qed

lemma scan_run_progress:
  assumes "i < length input" "P (input ! i)"
  shows "i < scan_run P input i i"
  using assms scan_run_ge [of "i + 1" P input i] by (subst scan_run.simps) auto

function compress_loop :: "u8 list \<Rightarrow> u8 list \<Rightarrow> nat \<Rightarrow> nat \<Rightarrow> (rvm_error, nat, u8 list) outcome" where
  "compress_loop input out out_pos in_pos =
     (if in_pos < length input then
        if input ! in_pos = 0 then
          let run_start = in_pos;
              end_pos = scan_run (\<lambda>b. b = 0) input run_start run_start;
              run_len = end_pos - run_start
          in if out_pos + 3 > length out then (Inl ResourceLimitExceeded, out)
             else let rl = to_le_bytes16 (of_nat run_len);
                      out = out[out_pos := TAG_ZERO_RUN, out_pos + 1 := rl ! 0, out_pos + 2 := rl ! 1]
                  in compress_loop input out (out_pos + 3) end_pos
        else
          let lit_start = in_pos;
              end_pos = scan_run (\<lambda>b. b \<noteq> 0) input lit_start lit_start;
              lit_len = end_pos - lit_start
          in if out_pos + 3 + lit_len > length out then (Inl ResourceLimitExceeded, out)
             else let ll = to_le_bytes16 (of_nat lit_len);
                      out = out[out_pos := TAG_LITERAL, out_pos + 1 := ll ! 0, out_pos + 2 := ll ! 1];
                      out = put_bytes out (out_pos + 3) (take lit_len (drop lit_start input))
                  in compress_loop input out (out_pos + 3 + lit_len) end_pos
      else (Inr out_pos, out))"
  by pat_completeness auto
termination
  by (relation "measure (\<lambda>(input, out, op, i). length input - i)")
     (auto intro!: diff_less_mono2 scan_run_progress)

declare compress_loop.simps [simp del]

definition compress :: "u8 list \<Rightarrow> u8 list \<Rightarrow> (rvm_error, nat, u8 list) outcome" where
  "compress input out =
     (if length out < 4 then (Inl ResourceLimitExceeded, out)
      else let out = put_bytes out 0 (to_le_bytes32 (of_nat (length input)))
           in compress_loop input out 4 0)"

function decompress_loop :: "u8 list \<Rightarrow> nat \<Rightarrow> u8 list \<Rightarrow> nat \<Rightarrow> nat \<Rightarrow> (rvm_error, nat, u8 list) outcome" where
  "decompress_loop input uncompressed_len out in_pos out_pos =
     (if in_pos < length input \<and> out_pos < uncompressed_len then
        if in_pos + 3 > length input then (Inl CheckpointCorrupted, out)
        else
          let tag = input ! in_pos;
              block_len = unat (from_le_bytes16 [input ! (in_pos + 1), input ! (in_pos + 2)]);
              in_pos = in_pos + 3
          in if tag = TAG_ZERO_RUN then
               if out_pos + block_len > uncompressed_len then (Inl CheckpointCorrupted, out)
               else decompress_loop input uncompressed_len (put_bytes out out_pos (replicate block_len 0))
                      in_pos (out_pos + block_len)
             else if tag = TAG_LITERAL then
               if in_pos + block_len > length input then (Inl CheckpointCorrupted, out)
               else if out_pos + block_len > uncompressed_len then (Inl CheckpointCorrupted, out)
               else decompress_loop input uncompressed_len
                      (put_bytes out out_pos (take block_len (drop in_pos input)))
                      (in_pos + block_len) (out_pos + block_len)
             else (Inl CheckpointCorrupted, out)
      else (Inr out_pos, out))"
  by pat_completeness auto
termination by (relation "measure (\<lambda>(input, n, out, i, j). length input - i)") auto

declare decompress_loop.simps [simp del]

definition decompress :: "u8 list \<Rightarrow> u8 list \<Rightarrow> (rvm_error, nat, u8 list) outcome" where
  "decompress input out =
     (if length input < 4 then (Inl CheckpointCorrupted, out)
      else let uncompressed_len = unat (from_le_bytes32 (take 4 input))
           in if length out < uncompressed_len then (Inl ResourceLimitExceeded, out)
              else case decompress_loop input uncompressed_len out 4 0 of
                (Inl e, out) \<Rightarrow> (Inl e, out)
              | (Inr out_pos, out) \<Rightarrow>
                  if out_pos \<noteq> uncompressed_len then (Inl CheckpointCorrupted, out)
                  else (Inr uncompressed_len, out))"

section \<open>Checkpoints and the pipeline\<close>

definition create_checkpoint ::
    "u64 \<Rightarrow> u64 \<Rightarrow> u64 \<Rightarrow> u8 list \<Rightarrow> u8 list \<Rightarrow> (rvm_error, compressed_checkpoint \<times> nat, u8 list) outcome" where
  "create_checkpoint region_id checkpoint_id witness_sequence data compressed_out =
     (if data = [] then (Inl ResourceLimitExceeded, compressed_out)
      else let uncompressed_hash = recon_fnv1a_hash data
           in case compress data compressed_out of
                (Inl e, out) \<Rightarrow> (Inl e, out)
              | (Inr compressed_size, out) \<Rightarrow>
                  (Inr (\<lparr>cc_id = checkpoint_id, cc_region_id = region_id, cc_witness_sequence = witness_sequence,
                         cc_uncompressed_hash = uncompressed_hash, cc_uncompressed_size = of_nat (length data),
                         cc_compressed_size = of_nat compressed_size\<rparr>, compressed_size), out))"

definition pipeline_new :: "nat \<Rightarrow> reconstruction_pipeline" where
  "pipeline_new n = \<lparr>rp_deltas = replicate n None, rp_delta_count = 0\<rparr>"

definition pipeline_clear :: "reconstruction_pipeline \<Rightarrow> reconstruction_pipeline" where
  "pipeline_clear p = p\<lparr>rp_deltas := replicate (length (rp_deltas p)) None, rp_delta_count := 0\<rparr>"

definition add_delta ::
    "witness_delta \<Rightarrow> reconstruction_pipeline \<Rightarrow> (rvm_error, unit, reconstruction_pipeline) outcome" where
  "add_delta delta p =
     (if rp_delta_count p \<ge> length (rp_deltas p) then (Inl ResourceLimitExceeded, p)
      else if rp_delta_count p > 0 \<and>
              (case rp_deltas p ! (rp_delta_count p - 1) of
                 Some prev \<Rightarrow> wd_sequence delta \<le> wd_sequence prev | None \<Rightarrow> False)
           then (Inl WitnessChainBroken, p)
      else (Inr (), p\<lparr>rp_deltas := (rp_deltas p)[rp_delta_count p := Some delta],
                     rp_delta_count := rp_delta_count p + 1\<rparr>))"

definition apply_delta ::
    "nat \<Rightarrow> (witness_delta \<Rightarrow> u8 list) \<Rightarrow> witness_delta \<Rightarrow> u8 list \<Rightarrow> (rvm_error, unit, u8 list) outcome" where
  "apply_delta uncompressed_size delta_data_fn delta out =
     (let data = delta_data_fn delta;
          len = unat (wd_length delta);
          end_pos = unat (wd_offset delta) + len
      in if end_pos > uncompressed_size then (Inl CheckpointCorrupted, out)
         else if length data < len then (Inl CheckpointCorrupted, out)
         else if recon_fnv1a_hash (take len data) \<noteq> wd_data_hash delta then (Inl WitnessVerificationFailed, out)
         else (Inr (), put_bytes out (unat (wd_offset delta)) (take len data)))"

fun apply_deltas ::
    "nat \<Rightarrow> (witness_delta \<Rightarrow> u8 list) \<Rightarrow> witness_delta option list \<Rightarrow> u32 \<Rightarrow> u8 list \<Rightarrow> (rvm_error, u32, u8 list) outcome" where
  "apply_deltas n f [] applied out = (Inr applied, out)"
| "apply_deltas n f (None # ds) applied out = apply_deltas n f ds applied out"
| "apply_deltas n f (Some d # ds) applied out =
     (case apply_delta n f d out of
        (Inl e, out) \<Rightarrow> (Inl e, out)
      | (Inr _, out) \<Rightarrow> apply_deltas n f ds (applied + 1) out)"

definition reconstruct ::
    "compressed_checkpoint \<Rightarrow> u8 list \<Rightarrow> (witness_delta \<Rightarrow> u8 list) \<Rightarrow> reconstruction_pipeline \<Rightarrow> u8 list
       \<Rightarrow> (rvm_error, reconstruction_result, u8 list) outcome" where
  "reconstruct ck compressed_data delta_data_fn p out =
     (let n = unat (cc_uncompressed_size ck)
      in if length compressed_data < unat (cc_compressed_size ck) then (Inl CheckpointCorrupted, out)
         else if length out < n then (Inl ResourceLimitExceeded, out)
         else case decompress (take (unat (cc_compressed_size ck)) compressed_data) (take n out) of
           (Inl e, buf) \<Rightarrow> (Inl e, buf @ drop n out)
         | (Inr decompressed_size, buf) \<Rightarrow>
             let out = buf @ drop n out
             in if decompressed_size \<noteq> n then (Inl CheckpointCorrupted, out)
                else if recon_fnv1a_hash (take n out) \<noteq> cc_uncompressed_hash ck then (Inl CheckpointCorrupted, out)
                else (case apply_deltas n delta_data_fn (take (rp_delta_count p) (rp_deltas p)) 0 out of
                  (Inl e, out) \<Rightarrow> (Inl e, out)
                | (Inr deltas_applied, out) \<Rightarrow>
                    (Inr \<lparr>rr_region_id = cc_region_id ck, rr_size_bytes = of_nat n,
                          rr_deltas_applied = deltas_applied, rr_final_hash = recon_fnv1a_hash (take n out)\<rparr>, out)))"

section \<open>Byte copies and little-endian lengths\<close>

lemma put_bytes3:
  "pos + 3 \<le> length out \<Longrightarrow> out[pos := a, pos + 1 := b, pos + 2 := c] = put_bytes out pos [a, b, c]"
  by (rule nth_equalityI)
     (auto simp: put_bytes_def nth_append nth_list_update nth_Cons' min_def numeral_3_eq_3 intro!: arg_cong [where f = "nth out"])

lemma put_bytes_append:
  assumes "pos + length xs + length ys \<le> length out"
  shows "put_bytes (put_bytes out pos xs) (pos + length xs) ys = put_bytes out pos (xs @ ys)"
  using assms by (cases xs) (auto simp: put_bytes_def min_def add.commute add.left_commute)

lemma take_drop_take_append:
  assumes "take (pos + length xs) out = ys @ xs" "length ys = pos" "pos + length xs \<le> n"
  shows "take (length xs) (drop pos (take n out)) = xs"
proof -
  have "take (length xs) (drop pos (take n out)) = drop pos (take (pos + length xs) (take n out))"
    using assms(3) by (simp add: drop_take min_def)
  also have "\<dots> = drop pos (ys @ xs)" using assms by (simp add: min_def)
  finally show ?thesis using assms(2) by simp
qed

section \<open>Runs\<close>

lemma scan_run_spec:
  assumes "in_pos \<le> length input" "s \<le> in_pos" "in_pos - s \<le> 0xFFFF"
  shows "scan_run P input s in_pos \<le> length input \<and> scan_run P input s in_pos - s \<le> 0xFFFF \<and>
    (\<forall>k. in_pos \<le> k \<and> k < scan_run P input s in_pos \<longrightarrow> P (input ! k))"
  using assms
proof (induction P input s in_pos rule: scan_run.induct)
  case (1 P input s i)
  show ?case
  proof (cases "i < length input \<and> P (input ! i) \<and> i - s < 0xFFFF")
    case True
    then have "scan_run P input s i = scan_run P input s (i + 1)" by (simp add: scan_run.simps [of P input s i])
    moreover have "i + 1 \<le> length input" "s \<le> i + 1" "i + 1 - s \<le> 0xFFFF" using True 1(3) by auto
    ultimately show ?thesis using 1(1) [OF True] True
      by (auto simp: Suc_le_eq) (metis le_neq_implies_less)
  next
    case False
    then have "scan_run P input s i = i" by (simp only: scan_run.simps [of P input s i] if_False)
    then show ?thesis using 1(2-4) by auto
  qed
qed

lemma scan_run_block:
  assumes "i < length input" "P (input ! i)"
  defines "e \<equiv> scan_run P input i i"
  shows "i < e" "e \<le> length input" "e - i < 2 ^ 16" "unat (of_nat (e - i) :: u16) = e - i"
    "\<And>k. i \<le> k \<Longrightarrow> k < e \<Longrightarrow> P (input ! k)"
proof -
  have spec: "e \<le> length input \<and> e - i \<le> 0xFFFF \<and> (\<forall>k. i \<le> k \<and> k < e \<longrightarrow> P (input ! k))"
    unfolding e_def by (rule scan_run_spec) (use assms in auto)
  show "i < e" unfolding e_def by (rule scan_run_progress [of i input P, OF assms(1,2)])
  show "e \<le> length input" "\<And>k. i \<le> k \<Longrightarrow> k < e \<Longrightarrow> P (input ! k)" using spec by auto
  show lt: "e - i < 2 ^ 16" using spec by simp
  show "unat (of_nat (e - i) :: u16) = e - i" using lt by (simp add: unat_of_nat take_bit_nat_eq_self)
qed

lemma zero_run_bytes:
  assumes "e \<le> length input" "\<And>k. i \<le> k \<Longrightarrow> k < e \<Longrightarrow> input ! k = 0"
  shows "take (e - i) (drop i input) = replicate (e - i) 0"
  using assms by (intro nth_equalityI) auto

section \<open>The compressor and the decompressor\<close>

text \<open>The bytes of one block and what it stands for.\<close>

definition block_bytes :: "bool \<Rightarrow> u8 list \<Rightarrow> u8 list" where
  "block_bytes zero bs =
     (if zero then TAG_ZERO_RUN else TAG_LITERAL) # to_le_bytes16 (of_nat (length bs)) @ (if zero then [] else bs)"

lemma block_bytes_length: "length (block_bytes zero bs) = 3 + (if zero then 0 else length bs)"
  by (simp add: block_bytes_def to_le_bytes16_def)

lemma compress_loop_step:
  assumes "i < length input" "i < e" "e \<le> length input"
    and e: "e = scan_run (\<lambda>b. (b = 0) = (input ! i = 0)) input i i"
  defines "blk \<equiv> block_bytes (input ! i = 0) (take (e - i) (drop i input))"
  shows "compress_loop input out pos i =
    (if pos + length blk > length out then (Inl ResourceLimitExceeded, out)
     else compress_loop input (put_bytes out pos blk) (pos + length blk) e)"
proof (cases "input ! i = 0")
  case True
  then have b: "blk = [TAG_ZERO_RUN, ucast (of_nat (e - i) :: u16), ucast (drop_bit 8 (of_nat (e - i) :: u16))]"
    using assms(1-3) by (simp add: blk_def block_bytes_def to_le_bytes16_def)
  have "scan_run (\<lambda>b. b = 0) input i i = e" using e True by simp
  then show ?thesis
    unfolding compress_loop.simps [of input out pos i] b Let_def to_le_bytes16_def using True assms(1)
    by (auto simp: put_bytes3 [symmetric] numeral_2_eq_2 numeral_3_eq_3)
next
  case False
  let ?lit = "take (e - i) (drop i input)"
  let ?hd = "[TAG_LITERAL, ucast (of_nat (e - i) :: u16), ucast (drop_bit 8 (of_nat (e - i) :: u16))]"
  have b: "blk = ?hd @ ?lit" and lb: "length blk = 3 + (e - i)"
    using assms(1-3) False by (simp_all add: blk_def block_bytes_def to_le_bytes16_def)
  have "scan_run (\<lambda>b. b \<noteq> 0) input i i = e" using e False by simp
  moreover have "put_bytes (put_bytes out pos ?hd) (pos + 3) ?lit = put_bytes out pos blk"
    if "pos + length blk \<le> length out"
    using put_bytes_append [of pos ?hd ?lit out] that lb assms(3) unfolding b by (simp add: numeral_3_eq_3)
  moreover have "out[pos := TAG_LITERAL, pos + 1 := ucast (of_nat (e - i) :: u16),
      pos + 2 := ucast (drop_bit 8 (of_nat (e - i) :: u16))] = put_bytes out pos ?hd"
    if "pos + length blk \<le> length out"
    using that lb by (intro put_bytes3) simp
  ultimately show ?thesis
    unfolding compress_loop.simps [of input out pos i] Let_def to_le_bytes16_def lb using False assms(1) lb
    by (auto simp: not_less add.assoc)
qed

lemma decompress_block:
  assumes blk: "take (length (block_bytes zero bs)) (drop pos input) = block_bytes zero bs"
    and len: "length bs < 2 ^ 16" "j + length bs \<le> n" "j < n"
    and zero: "zero \<Longrightarrow> bs = replicate (length bs) 0"
  shows "decompress_loop input n out pos j =
    decompress_loop input n (put_bytes out j bs) (pos + length (block_bytes zero bs)) (j + length bs)"
proof -
  let ?b = "block_bytes zero bs"
  have fit: "pos + length ?b \<le> length input"
    using arg_cong [OF blk, of length] block_bytes_length [of zero bs] by (simp add: min_def split: if_splits)
  have nth: "input ! (pos + k) = ?b ! k" if "k < length ?b" for k
    using blk that fit by (metis add_leD1 nth_drop nth_take)
  have l3: "3 \<le> length ?b" by (simp add: block_bytes_length)
  have t: "input ! pos = (if zero then TAG_ZERO_RUN else TAG_LITERAL)"
    using nth [of 0] l3 by (simp add: block_bytes_def)
  have "[input ! (pos + 1), input ! (pos + 2)] = to_le_bytes16 (of_nat (length bs))"
    using nth [of 1] nth [of 2] l3 by (simp add: block_bytes_def to_le_bytes16_def)
  then have bl: "unat (from_le_bytes16 [input ! (pos + 1), input ! (pos + 2)]) = length bs"
    using len(1) by (simp add: from_to_le_bytes unat_of_nat take_bit_nat_eq_self)
  have p: "pos < length input \<and> j < n" "\<not> pos + 3 > length input" using fit l3 len(3) by auto
  show ?thesis
  proof (cases zero)
    case True
    then show ?thesis
      unfolding decompress_loop.simps [of input n out pos j] Let_def bl using t p len(2) zero [OF True]
      by (simp add: block_bytes_length)
  next
    case False
    then have "drop 3 ?b = bs" "length ?b = 3 + length bs" by (simp_all add: block_bytes_def to_le_bytes16_def)
    then have "take (length bs) (drop (pos + 3) input) = bs"
      using arg_cong [OF blk, of "drop 3"] by (simp add: drop_take add.commute)
    then show ?thesis
      unfolding decompress_loop.simps [of input n out pos j] Let_def bl using t p len(2) False fit
      by (simp add: block_bytes_length TAG_ZERO_RUN_def TAG_LITERAL_def add.assoc)
  qed
qed

text \<open>The induction that both directions share: the loop emits the blocks of maximal runs.\<close>

lemma compress_loop_rule:
  assumes "i \<le> length input"
    and done_: "\<And>out pos. Q out pos (length input)"
    and block: "\<And>out pos i e. i < length input \<Longrightarrow> i < e \<Longrightarrow> e \<le> length input \<Longrightarrow> e - i < 2 ^ 16 \<Longrightarrow>
      e = scan_run (\<lambda>b. (b = 0) = (input ! i = 0)) input i i \<Longrightarrow>
      (\<And>out pos. Q out pos e) \<Longrightarrow>
      (\<And>k. i \<le> k \<Longrightarrow> k < e \<Longrightarrow> (input ! k = 0) = (input ! i = 0)) \<Longrightarrow> Q out pos i"
  shows "Q out pos i"
  using assms(1)
proof (induction "length input - i" arbitrary: i out pos rule: less_induct)
  case less
  show ?case
  proof (cases "i = length input")
    case True
    then show ?thesis by (simp add: done_)
  next
    case False
    then have i: "i < length input" using less.prems by simp
    note run = scan_run_block [of i input "\<lambda>b. (b = 0) = (input ! i = 0)", OF i refl]
    show ?thesis
      by (rule block [OF i run(1,2,3) refl _ run(5)]) (use less.hyps run(1,2) i in auto)
  qed
qed

lemma compress_loop_sound:
  assumes "i \<le> length input"
  shows "compress_loop input out pos i = (Inr n, out') \<longrightarrow> pos \<le> length out \<longrightarrow> pos \<le> n \<and> n \<le> length out \<and> length out' = length out \<and> take pos out' = take pos out \<and>
    (\<forall>buf. length buf = length input \<and> take i buf = take i input \<longrightarrow>
       decompress_loop (take n out') (length input) buf pos i = (Inr (length input), input))"
proof (rule compress_loop_rule [OF assms, where Q = "\<lambda>out pos i. compress_loop input out pos i = (Inr n, out') \<longrightarrow>
    pos \<le> length out \<longrightarrow> pos \<le> n \<and> n \<le> length out \<and> length out' = length out \<and> take pos out' = take pos out \<and>
    (\<forall>buf. length buf = length input \<and> take i buf = take i input \<longrightarrow>
       decompress_loop (take n out') (length input) buf pos i = (Inr (length input), input))"], goal_cases)
  case (1 out pos)
  then show ?case by (auto simp: compress_loop.simps decompress_loop.simps)
next
  case (2 out pos i e)
  define bs where "bs = take (e - i) (drop i input)"
  let ?zero = "input ! i = 0"
  let ?blk = "block_bytes ?zero bs"
  note step = compress_loop_step [OF 2(1-3,5), of out pos, folded bs_def]
  have lbs: "length bs = e - i" using 2(2,3) by (simp add: bs_def)
  show ?case
  proof (intro impI)
    assume c: "compress_loop input out pos i = (Inr n, out')" and pos: "pos \<le> length out"
    have fit: "pos + length ?blk \<le> length out" using step c by (auto split: if_splits)
    then have "compress_loop input (put_bytes out pos ?blk) (pos + length ?blk) e = (Inr n, out')"
      using step c by simp
    from 2(6) [rule_format, OF this] fit
    have IH: "pos + length ?blk \<le> n" "n \<le> length out" "length out' = length out"
      "take (pos + length ?blk) out' = take pos out @ ?blk"
      "\<And>buf. length buf = length input \<Longrightarrow> take e buf = take e input \<Longrightarrow>
        decompress_loop (take n out') (length input) buf (pos + length ?blk) e = (Inr (length input), input)"
      using pos by (auto simp: take_put_bytes_end)
    have keep: "take pos out' = take pos out"
      using arg_cong [OF IH(4), of "take pos"] pos by (simp add: min_def)
    have blk: "take (length ?blk) (drop pos (take n out')) = ?blk"
      using IH(1,4) pos by (intro take_drop_take_append) auto
    have z: "bs = replicate (length bs) 0" if ?zero
      unfolding lbs unfolding bs_def using 2(3,7) that by (intro zero_run_bytes) auto
    have "decompress_loop (take n out') (length input) buf pos i = (Inr (length input), input)"
      if b: "length buf = length input" "take i buf = take i input" for buf
    proof -
      have l: "length bs < 2 ^ 16" "i + length bs \<le> length input" "i < length input" "i + length bs = e"
        using 2(1-4) lbs by auto
      have "take e (put_bytes buf i bs) = take i input @ bs"
        using take_put_bytes_end [of i buf bs] b l by simp
      also have "\<dots> = take e input" using l(4) unfolding bs_def
        by (metis take_add lbs bs_def)
      finally show ?thesis
        using IH(5) [of "put_bytes buf i bs"] b l
        by (simp add: decompress_block [OF blk l(1-3) z])
    qed
    then show "pos \<le> n \<and> n \<le> length out \<and> length out' = length out \<and> take pos out' = take pos out \<and>
      (\<forall>buf. length buf = length input \<and> take i buf = take i input \<longrightarrow>
         decompress_loop (take n out') (length input) buf pos i = (Inr (length input), input))"
      using IH(1-3) keep by auto
  qed
qed

text \<open>Each block costs at most four bytes for every byte it stands for.\<close>

lemma compress_loop_total:
  assumes "i \<le> length input"
  shows "pos + 4 * (length input - i) \<le> length out \<longrightarrow>
    (\<exists>n out'. compress_loop input out pos i = (Inr n, out') \<and> n \<le> pos + 4 * (length input - i))"
proof (rule compress_loop_rule [OF assms, where Q = "\<lambda>out pos i. pos + 4 * (length input - i) \<le> length out \<longrightarrow>
    (\<exists>n out'. compress_loop input out pos i = (Inr n, out') \<and> n \<le> pos + 4 * (length input - i))"], goal_cases)
  case (1 out pos)
  then show ?case by (simp add: compress_loop.simps)
next
  case (2 out pos i e)
  define bs where "bs = take (e - i) (drop i input)"
  let ?blk = "block_bytes (input ! i = 0) bs"
  note step = compress_loop_step [OF 2(1-3,5), of out pos, folded bs_def]
  have lbs: "length bs = e - i" using 2(2,3) by (simp add: bs_def)
  have l: "length ?blk + 4 * (length input - e) \<le> 4 * (length input - i)"
    using 2(1-3) lbs by (auto simp: block_bytes_length)
  show ?case
  proof
    assume a: "pos + 4 * (length input - i) \<le> length out"
    then have "\<exists>n out'. compress_loop input (put_bytes out pos ?blk) (pos + length ?blk) e = (Inr n, out') \<and>
        n \<le> pos + length ?blk + 4 * (length input - e)"
      using l by (intro 2(6) [rule_format]) simp
    then show "\<exists>n out'. compress_loop input out pos i = (Inr n, out') \<and> n \<le> pos + 4 * (length input - i)"
      using a l step by (auto intro: le_trans)
  qed
qed

lemma compress_decompress:
  assumes "4 + 4 * length data < 2 ^ 32" "4 + 4 * length data \<le> length out" "length buf = length data"
  shows "\<exists>n out'. compress data out = (Inr n, out') \<and> n \<le> 4 + 4 * length data \<and> n \<le> length out' \<and>
    decompress (take n out') buf = (Inr (length data), data)"
proof -
  let ?out = "put_bytes out 0 (to_le_bytes32 (of_nat (length data)))"
  have l: "length ?out = length out" using assms(2) by simp
  obtain n out' where c: "compress_loop data ?out 4 0 = (Inr n, out')" and n: "n \<le> 4 + 4 * length data"
    using compress_loop_total [of 0 data 4 ?out] assms(2) l by auto
  have s: "4 \<le> n" "n \<le> length out'" "take 4 out' = to_le_bytes32 (of_nat (length data))"
    "decompress_loop (take n out') (length data) buf 4 0 = (Inr (length data), data)"
    using compress_loop_sound [of 0 data ?out 4 n out'] c l assms(2,3)
      take_put_bytes_end [of 0 out "to_le_bytes32 (of_nat (length data))"] by auto
  have "unat (from_le_bytes32 (take 4 (take n out'))) = length data"
    using s(1,3) assms(1) by (simp add: min_def from_to_le_bytes unat_of_nat take_bit_nat_eq_self)
  then have "decompress (take n out') buf = (Inr (length data), data)"
    using s assms(3) by (simp add: decompress_def)
  moreover have "compress data out = (Inr n, out')" using c assms(2) by (simp add: compress_def)
  ultimately show ?thesis using n s(2) by blast
qed

section \<open>Deltas\<close>

definition delta_ok :: "nat \<Rightarrow> (witness_delta \<Rightarrow> u8 list) \<Rightarrow> witness_delta \<Rightarrow> bool" where
  "delta_ok n f d \<longleftrightarrow> unat (wd_offset d) + unat (wd_length d) \<le> n \<and> unat (wd_length d) \<le> length (f d) \<and>
     recon_fnv1a_hash (take (unat (wd_length d)) (f d)) = wd_data_hash d"

text \<open>The state after the recorded writes, in order.\<close>

definition replay :: "(witness_delta \<Rightarrow> u8 list) \<Rightarrow> witness_delta list \<Rightarrow> u8 list \<Rightarrow> u8 list" where
  "replay f ds data =
     foldl (\<lambda>xs d. put_bytes xs (unat (wd_offset d)) (take (unat (wd_length d)) (f d))) data ds"

lemma replay_simps [simp]:
  "replay f [] data = data"
  "replay f (d # ds) data = replay f ds (put_bytes data (unat (wd_offset d)) (take (unat (wd_length d)) (f d)))"
  by (simp_all add: replay_def)

lemma length_replay: "\<forall>d\<in>set ds. delta_ok (length data) f d \<Longrightarrow> length (replay f ds data) = length data"
  by (induction ds arbitrary: data) (auto simp: delta_ok_def min_def)

lemma put_bytes_append2:
  "pos + length xs \<le> length a \<Longrightarrow> put_bytes (a @ b) pos xs = put_bytes a pos xs @ b"
  by (simp add: put_bytes_def)

lemma apply_deltas_ok:
  "\<forall>d\<in>set ds. delta_ok (length data) f d \<Longrightarrow>
     apply_deltas (length data) f (map Some ds) k (data @ rest) = (Inr (k + of_nat (length ds)), replay f ds data @ rest)"
proof (induction ds arbitrary: k data)
  case Nil
  then show ?case by simp
next
  case (Cons d ds)
  let ?data = "put_bytes data (unat (wd_offset d)) (take (unat (wd_length d)) (f d))"
  have l: "length ?data = length data" using Cons.prems by (simp add: delta_ok_def)
  have "apply_delta (length data) f d (data @ rest) = (Inr (), ?data @ rest)"
    using Cons.prems by (simp add: apply_delta_def delta_ok_def Let_def put_bytes_append2 not_less)
  then show ?case using Cons.IH [of ?data "k + 1"] Cons.prems l by (simp add: add.assoc)
qed

text \<open>A delta that is out of bounds, too short or altered stops the replay with the state so far.\<close>

lemma apply_deltas_bad:
  assumes "\<forall>d\<in>set ds. delta_ok (length data) f d" "\<not> delta_ok (length data) f d"
  shows "\<exists>e. apply_deltas (length data) f (map Some ds @ Some d # rest) k (data @ tl') = (Inl e, replay f ds data @ tl')
    \<and> e \<in> {CheckpointCorrupted, WitnessVerificationFailed}"
  using assms
proof (induction ds arbitrary: k data)
  case Nil
  then show ?case by (auto simp: apply_delta_def delta_ok_def Let_def not_less)
next
  case (Cons x ds)
  let ?data = "put_bytes data (unat (wd_offset x)) (take (unat (wd_length x)) (f x))"
  have l: "length ?data = length data" using Cons.prems by (simp add: delta_ok_def)
  have "apply_delta (length data) f x (data @ tl') = (Inr (), ?data @ tl')"
    using Cons.prems by (simp add: apply_delta_def delta_ok_def Let_def put_bytes_append2 not_less)
  then show ?case using Cons.IH [of ?data "k + 1"] Cons.prems l by simp
qed

definition pipeline_of :: "nat \<Rightarrow> witness_delta list \<Rightarrow> reconstruction_pipeline" where
  "pipeline_of n ds = foldl (\<lambda>p d. snd (add_delta d p)) (pipeline_new n) ds"

lemma pipeline_of_pending:
  assumes "sorted_wrt (\<lambda>a b. wd_sequence a < wd_sequence b) ds" "length ds \<le> n"
  shows "pipeline_of n ds = \<lparr>rp_deltas = map Some ds @ replicate (n - length ds) None, rp_delta_count = length ds\<rparr>"
  using assms
proof (induction ds rule: rev_induct)
  case Nil
  then show ?case by (simp add: pipeline_of_def pipeline_new_def)
next
  case (snoc d ds)
  have IH: "pipeline_of n ds = \<lparr>rp_deltas = map Some ds @ replicate (n - length ds) None, rp_delta_count = length ds\<rparr>"
    using snoc by (simp add: sorted_wrt_append)
  have "n - length ds = Suc (n - length (ds @ [d]))" using snoc.prems(2) by simp
  then have r: "replicate (n - length ds) None = None # replicate (n - length (ds @ [d])) (None :: witness_delta option)"
    by (simp only: replicate_Suc)
  have seq: "wd_sequence (ds ! (length ds - 1)) < wd_sequence d" if "ds \<noteq> []"
    using snoc.prems(1) that by (auto simp: sorted_wrt_append)
  have "add_delta d (pipeline_of n ds) =
      (Inr (), \<lparr>rp_deltas = map Some (ds @ [d]) @ replicate (n - length (ds @ [d])) None, rp_delta_count = length (ds @ [d])\<rparr>)"
    unfolding IH add_delta_def using seq snoc.prems(2)
    by (auto simp: r nth_append list_update_append not_le)
  then show ?case by (simp add: pipeline_of_def)
qed

section \<open>Properties\<close>

text \<open>
  C17.  A dormant region comes back as it was.  For data whose worst-case compressed size fits the
  32-bit length fields and the buffer, creating a checkpoint succeeds, its compressed size is at most
  four bytes for each byte plus the header, and reconstruction from the compressed bytes returns the
  original data with every buffered delta written over it in sequence order, touches nothing of the
  output buffer past the region, and reports the number of deltas and the hash of the final state.
\<close>

theorem checkpoint_roundtrip:
  assumes "data \<noteq> []" "4 + 4 * length data < 2 ^ 32" "4 + 4 * length data \<le> length cbuf" "length data \<le> length out"
    and "sorted_wrt (\<lambda>a b. wd_sequence a < wd_sequence b) ds" "length ds \<le> max_deltas"
    and "\<forall>d\<in>set ds. delta_ok (length data) f d"
  shows "\<exists>ck n cbuf'. create_checkpoint rid cid sq data cbuf = (Inr (ck, n), cbuf') \<and> n \<le> 4 + 4 * length data \<and>
    reconstruct ck (take n cbuf') f (pipeline_of max_deltas ds) out =
      (Inr \<lparr>rr_region_id = rid, rr_size_bytes = of_nat (length data), rr_deltas_applied = of_nat (length ds),
            rr_final_hash = recon_fnv1a_hash (replay f ds data)\<rparr>, replay f ds data @ drop (length data) out)"
proof -
  obtain n cbuf' where c: "compress data cbuf = (Inr n, cbuf')" "n \<le> 4 + 4 * length data" "n \<le> length cbuf'"
    "decompress (take n cbuf') (take (length data) out) = (Inr (length data), data)"
    using compress_decompress [OF assms(2,3), of "take (length data) out"] assms(4) by auto
  have u: "unat (of_nat n :: u32) = n" "unat (of_nat (length data) :: u32) = length data"
    using c(2) assms(2) by (simp_all add: unat_of_nat take_bit_nat_eq_self)
  have p: "take (rp_delta_count (pipeline_of max_deltas ds)) (rp_deltas (pipeline_of max_deltas ds)) = map Some ds"
    by (simp add: pipeline_of_pending [OF assms(5,6)])
  show ?thesis
    using c assms(1,4) u apply_deltas_ok [OF assms(7), of 0] length_replay [OF assms(7)]
    by (simp add: create_checkpoint_def reconstruct_def p Let_def)
qed

definition demo_delta :: witness_delta where
  "demo_delta = \<lparr>wd_sequence = 1, wd_offset = 1, wd_length = 1, wd_data_hash = 0xaf63c44c8601c3c4\<rparr>"

theorem checkpoint_roundtrip_witness:
  "\<exists>ck n cbuf'. create_checkpoint 7 1 0 [5, 0, 0] (replicate 16 0) = (Inr (ck, n), cbuf') \<and> n \<le> 16 \<and>
    reconstruct ck (take n cbuf') (\<lambda>_. [9]) (pipeline_of 4 [demo_delta]) [1, 1, 1, 1] =
      (Inr \<lparr>rr_region_id = 7, rr_size_bytes = 3, rr_deltas_applied = 1, rr_final_hash = recon_fnv1a_hash [5, 9, 0]\<rparr>,
       [5, 9, 0, 1])"
proof -
  have "delta_ok (length [5 :: u8, 0, 0]) (\<lambda>_. [9]) demo_delta"
    by (simp add: delta_ok_def demo_delta_def recon_fnv1a_hash_def FNV_PRIME_def FNV_OFFSET_def)
  moreover have "replay (\<lambda>_. [9]) [demo_delta] [5, 0, 0] = [5, 9, 0 :: u8]"
    by (simp add: demo_delta_def put_bytes_def)
  ultimately show ?thesis
    using checkpoint_roundtrip [of "[5, 0, 0]" "replicate 16 0" "[1, 1, 1, 1]" "[demo_delta]" 4 "\<lambda>_. [9]" 7 1 0]
    by simp
qed

end
