(* ===== verification/Coh_Graph.thy ===== *)
theory Coh_Graph
  imports Rvm_Types
begin

text \<open>
  Crate \<open>rvm-coherence\<close>, file \<open>graph.rs\<close>: the communication graph of the partitions.  Edges
  are kept three times: in slots, in a linked list for each source node threaded through the slots,
  and summed in an adjacency matrix with cached row and column sums.  The loops that follow the
  linked list would not end, or would index out of range, on a corrupt list: they take as fuel one step
  for each slot and return \<open>None\<close> when it runs out, and the invariant below shows that they never do.
\<close>

section \<open>Data\<close>

definition INVALID :: u16 where "INVALID = U16_MAX"
definition NODE_INDEX_SIZE :: nat where "NODE_INDEX_SIZE = 256"
definition ADJ_DIM :: nat where "ADJ_DIM = 32"

record gnode =
  nd_partition :: "partition_id option"
  nd_first_edge :: u16

definition EMPTY_NODE :: gnode where
  "EMPTY_NODE = \<lparr>nd_partition = None, nd_first_edge = INVALID\<rparr>"

record gedge =
  ed_from :: u16
  ed_to :: u16
  ed_weight :: u64
  ed_next_from :: u16
  ed_active :: bool

definition EMPTY_EDGE :: gedge where
  "EMPTY_EDGE = \<lparr>ed_from = 0, ed_to = 0, ed_weight = 0, ed_next_from = INVALID, ed_active = False\<rparr>"

datatype graph_error =
    NodeCapacityExhausted | EdgeCapacityExhausted | NodeNotFound | EdgeNotFound | DuplicateNode

record coherence_graph =
  cg_nodes :: "gnode list"
  cg_edges :: "gedge list"
  cg_id_to_node :: "u8 option list"
  cg_adj_matrix :: "u64 list list"
  cg_cached_outgoing :: "u64 list"
  cg_cached_incoming :: "u64 list"
  cg_node_count :: u16
  cg_edge_count :: u16

definition graph_new :: "nat \<Rightarrow> nat \<Rightarrow> coherence_graph" where
  "graph_new max_nodes max_edges =
     \<lparr>cg_nodes = replicate max_nodes EMPTY_NODE, cg_edges = replicate max_edges EMPTY_EDGE,
      cg_id_to_node = replicate NODE_INDEX_SIZE None, cg_adj_matrix = replicate ADJ_DIM (replicate ADJ_DIM 0),
      cg_cached_outgoing = replicate ADJ_DIM 0, cg_cached_incoming = replicate ADJ_DIM 0,
      cg_node_count = 0, cg_edge_count = 0\<rparr>"

section \<open>Look-ups\<close>

definition node_hash :: "partition_id \<Rightarrow> nat" where
  "node_hash p = unat p mod NODE_INDEX_SIZE"

definition scan_nodes :: "partition_id \<Rightarrow> coherence_graph \<Rightarrow> u16 option" where
  "scan_nodes p g = map_option of_nat (position (\<lambda>n. nd_partition n = Some p) (cg_nodes g))"

definition find_node :: "partition_id \<Rightarrow> coherence_graph \<Rightarrow> u16 option" where
  "find_node p g =
     (case cg_id_to_node g ! node_hash p of
        Some idx \<Rightarrow>
          if unat idx < length (cg_nodes g) \<and> nd_partition (cg_nodes g ! unat idx) = Some p
          then Some (ucast idx) else scan_nodes p g
      | None \<Rightarrow> scan_nodes p g)"

definition partition_at :: "u16 \<Rightarrow> coherence_graph \<Rightarrow> partition_id option" where
  "partition_at idx g =
     (if unat idx < length (cg_nodes g) then nd_partition (cg_nodes g ! unat idx) else None)"

definition alloc_edge :: "coherence_graph \<Rightarrow> graph_error + u16" where
  "alloc_edge g =
     (case position (\<lambda>e. \<not> ed_active e) (cg_edges g) of
        Some i \<Rightarrow> Inr (of_nat i) | None \<Rightarrow> Inl EdgeCapacityExhausted)"

definition edge_weight :: "u16 \<Rightarrow> coherence_graph \<Rightarrow> u64 option" where
  "edge_weight edge_id g =
     (if unat edge_id < length (cg_edges g) \<and> ed_active (cg_edges g ! unat edge_id)
      then Some (ed_weight (cg_edges g ! unat edge_id)) else None)"

definition edge_endpoints :: "u16 \<Rightarrow> coherence_graph \<Rightarrow> (partition_id \<times> partition_id) option" where
  "edge_endpoints edge_id g =
     (let idx = unat edge_id in
      if idx \<ge> length (cg_edges g) \<or> \<not> ed_active (cg_edges g ! idx) then None
      else case nd_partition (cg_nodes g ! unat (ed_from (cg_edges g ! idx))) of
        None \<Rightarrow> None
      | Some from_pid \<Rightarrow>
          (case nd_partition (cg_nodes g ! unat (ed_to (cg_edges g ! idx))) of
             None \<Rightarrow> None | Some to_pid \<Rightarrow> Some (from_pid, to_pid)))"

text \<open>The items of \<open>NeighborIter\<close> from a given edge on.\<close>

fun neighbor_walk :: "nat \<Rightarrow> gedge list \<Rightarrow> u16 \<Rightarrow> (u16 \<times> u64) list option" where
  "neighbor_walk 0 edges cur = None"
| "neighbor_walk (Suc fuel) edges cur =
     (if cur = INVALID then Some []
      else if unat cur \<ge> length edges then Some []
      else let e = edges ! unat cur in
        case neighbor_walk fuel edges (ed_next_from e) of
          None \<Rightarrow> None
        | Some ns \<Rightarrow> Some (if ed_active e then (ed_to e, ed_weight e) # ns else ns))"

definition neighbors :: "partition_id \<Rightarrow> coherence_graph \<Rightarrow> (u16 \<times> u64) list option option" where
  "neighbors p g =
     (case find_node p g of
        None \<Rightarrow> Some None
      | Some idx \<Rightarrow>
          map_option Some (neighbor_walk (Suc (length (cg_edges g))) (cg_edges g)
            (nd_first_edge (cg_nodes g ! unat idx))))"

definition total_weight :: "partition_id \<Rightarrow> coherence_graph \<Rightarrow> u64" where
  "total_weight p g =
     (case find_node p g of
        Some idx \<Rightarrow> saturating_add (cg_cached_outgoing g ! unat idx) (cg_cached_incoming g ! unat idx)
      | None \<Rightarrow> 0)"

definition internal_weight :: "partition_id \<Rightarrow> coherence_graph \<Rightarrow> u64" where
  "internal_weight p g =
     (case find_node p g of
        None \<Rightarrow> 0
      | Some idx \<Rightarrow>
          foldl (\<lambda>s e. if ed_active e \<and> ed_from e = idx \<and> ed_to e = idx then saturating_add s (ed_weight e) else s)
            0 (cg_edges g))"

definition edge_weight_between :: "partition_id \<Rightarrow> partition_id \<Rightarrow> coherence_graph \<Rightarrow> u64" where
  "edge_weight_between a b g =
     (case find_node a g of
        None \<Rightarrow> 0
      | Some a_idx \<Rightarrow>
          (case find_node b g of
             None \<Rightarrow> 0
           | Some b_idx \<Rightarrow>
               saturating_add (cg_adj_matrix g ! unat a_idx ! unat b_idx) (cg_adj_matrix g ! unat b_idx ! unat a_idx)))"

fun directed_walk :: "nat \<Rightarrow> gedge list \<Rightarrow> u16 \<Rightarrow> u16 \<Rightarrow> u16 option option" where
  "directed_walk 0 edges to_idx cur = None"
| "directed_walk (Suc fuel) edges to_idx cur =
     (if cur = INVALID then Some None
      else if unat cur \<ge> length edges then Some None
      else if ed_active (edges ! unat cur) \<and> ed_to (edges ! unat cur) = to_idx then Some (Some cur)
      else directed_walk fuel edges to_idx (ed_next_from (edges ! unat cur)))"

definition find_directed_edge :: "partition_id \<Rightarrow> partition_id \<Rightarrow> coherence_graph \<Rightarrow> u16 option option" where
  "find_directed_edge from to g =
     (case find_node from g of
        None \<Rightarrow> Some None
      | Some from_idx \<Rightarrow>
          (case find_node to g of
             None \<Rightarrow> Some None
           | Some to_idx \<Rightarrow>
               if cg_adj_matrix g ! unat from_idx ! unat to_idx = 0 then Some None
               else directed_walk (Suc (length (cg_edges g))) (cg_edges g) to_idx
                      (nd_first_edge (cg_nodes g ! unat from_idx))))"

definition active_nodes :: "coherence_graph \<Rightarrow> (u16 \<times> partition_id) list" where
  "active_nodes g =
     List.map_filter (\<lambda>i. map_option (Pair (of_nat i)) (nd_partition (cg_nodes g ! i))) [0..<length (cg_nodes g)]"

definition active_edges :: "coherence_graph \<Rightarrow> (u16 \<times> u16 \<times> u16 \<times> u64) list" where
  "active_edges g =
     map (\<lambda>i. let e = cg_edges g ! i in (of_nat i, ed_from e, ed_to e, ed_weight e))
       (filter (\<lambda>i. ed_active (cg_edges g ! i)) [0..<length (cg_edges g)])"

section \<open>Updates\<close>

text \<open>\<open>adj_matrix[i][j]\<close>, \<open>cached_outgoing[i]\<close> and \<open>cached_incoming[j]\<close> are always changed together.\<close>

definition adjust_caches :: "(u64 \<Rightarrow> u64) \<Rightarrow> nat \<Rightarrow> nat \<Rightarrow> coherence_graph \<Rightarrow> coherence_graph" where
  "adjust_caches f i j g =
     g\<lparr>cg_adj_matrix := (cg_adj_matrix g)[i := (cg_adj_matrix g ! i)[j := f (cg_adj_matrix g ! i ! j)]],
       cg_cached_outgoing := (cg_cached_outgoing g)[i := f (cg_cached_outgoing g ! i)],
       cg_cached_incoming := (cg_cached_incoming g)[j := f (cg_cached_incoming g ! j)]\<rparr>"

definition add_node :: "partition_id \<Rightarrow> coherence_graph \<Rightarrow> (graph_error, u16, coherence_graph) outcome" where
  "add_node p g =
     (if find_node p g \<noteq> None then (Inl DuplicateNode, g)
      else case position (\<lambda>n. nd_partition n = None) (cg_nodes g) of
        None \<Rightarrow> (Inl NodeCapacityExhausted, g)
      | Some i \<Rightarrow>
          (Inr (of_nat i),
           g\<lparr>cg_nodes := (cg_nodes g)[i := \<lparr>nd_partition = Some p, nd_first_edge = INVALID\<rparr>],
             cg_node_count := cg_node_count g + 1,
             cg_id_to_node := (cg_id_to_node g)[node_hash p := Some (of_nat i)]\<rparr>))"

fun unlink_walk :: "nat \<Rightarrow> u16 \<Rightarrow> u16 \<Rightarrow> gedge list \<Rightarrow> u16 \<Rightarrow> gedge list option" where
  "unlink_walk 0 edge_idx nxt edges cur = None"
| "unlink_walk (Suc fuel) edge_idx nxt edges cur =
     (if cur = INVALID then Some edges
      else if unat cur \<ge> length edges then None
      else if ed_next_from (edges ! unat cur) = edge_idx
      then Some (edges[unat cur := (edges ! unat cur)\<lparr>ed_next_from := nxt\<rparr>])
      else unlink_walk fuel edge_idx nxt edges (ed_next_from (edges ! unat cur)))"

definition remove_edge_by_index :: "u16 \<Rightarrow> coherence_graph \<Rightarrow> coherence_graph option" where
  "remove_edge_by_index edge_idx g =
     (let idx = unat edge_idx in
      if idx \<ge> length (cg_edges g) \<or> \<not> ed_active (cg_edges g ! idx) then Some g
      else
        let e = cg_edges g ! idx;
            from_node = unat (ed_from e);
            to_node = unat (ed_to e);
            g = adjust_caches (\<lambda>w. saturating_sub w (ed_weight e)) from_node to_node g;
            unlinked =
              (if nd_first_edge (cg_nodes g ! from_node) = edge_idx
               then Some (g\<lparr>cg_nodes := (cg_nodes g)[from_node := (cg_nodes g ! from_node)\<lparr>nd_first_edge := ed_next_from e\<rparr>]\<rparr>)
               else map_option (\<lambda>edges. g\<lparr>cg_edges := edges\<rparr>)
                      (unlink_walk (Suc (length (cg_edges g))) edge_idx (ed_next_from e) (cg_edges g)
                        (nd_first_edge (cg_nodes g ! from_node))))
        in map_option (\<lambda>g. g\<lparr>cg_edges := (cg_edges g)[idx := (cg_edges g ! idx)\<lparr>ed_active := False\<rparr>],
                             cg_edge_count := saturating_sub (cg_edge_count g) 1\<rparr>) unlinked)"

fun remove_incident :: "u16 \<Rightarrow> nat list \<Rightarrow> coherence_graph \<Rightarrow> coherence_graph option" where
  "remove_incident idx [] g = Some g"
| "remove_incident idx (i # is) g =
     (if ed_active (cg_edges g ! i) \<and> (ed_from (cg_edges g ! i) = idx \<or> ed_to (cg_edges g ! i) = idx)
      then (case remove_edge_by_index (of_nat i) g of None \<Rightarrow> None | Some g \<Rightarrow> remove_incident idx is g)
      else remove_incident idx is g)"

definition clear_row_column :: "nat \<Rightarrow> u64 list list \<Rightarrow> u64 list list" where
  "clear_row_column ni m =
     foldl (\<lambda>m j. let m = m[ni := (m ! ni)[j := 0]] in m[j := (m ! j)[ni := 0]]) m [0..<ADJ_DIM]"

definition remove_node :: "partition_id \<Rightarrow> coherence_graph \<Rightarrow> (graph_error, unit, coherence_graph) outcome option" where
  "remove_node p g =
     (case find_node p g of
        None \<Rightarrow> Some (Inl NodeNotFound, g)
      | Some idx \<Rightarrow>
          map_option (\<lambda>g.
            let ni = unat idx;
                g = (if cg_id_to_node g ! node_hash p = Some (ucast idx)
                     then g\<lparr>cg_id_to_node := (cg_id_to_node g)[node_hash p := None]\<rparr> else g)
            in (Inr (), g\<lparr>cg_nodes := (cg_nodes g)[ni := \<lparr>nd_partition = None, nd_first_edge = INVALID\<rparr>],
                  cg_adj_matrix := clear_row_column ni (cg_adj_matrix g),
                  cg_cached_outgoing := (cg_cached_outgoing g)[ni := 0],
                  cg_cached_incoming := (cg_cached_incoming g)[ni := 0],
                  cg_node_count := saturating_sub (cg_node_count g) 1\<rparr>))
            (remove_incident idx [0..<length (cg_edges g)] g))"

definition add_edge ::
    "partition_id \<Rightarrow> partition_id \<Rightarrow> u64 \<Rightarrow> coherence_graph \<Rightarrow> (graph_error, u16, coherence_graph) outcome" where
  "add_edge from to weight g =
     (case find_node from g of
        None \<Rightarrow> (Inl NodeNotFound, g)
      | Some from_idx \<Rightarrow>
          (case find_node to g of
             None \<Rightarrow> (Inl NodeNotFound, g)
           | Some to_idx \<Rightarrow>
               (case alloc_edge g of
                  Inl e \<Rightarrow> (Inl e, g)
                | Inr edge_idx \<Rightarrow>
                    let fi = unat from_idx;
                        old_head = nd_first_edge (cg_nodes g ! fi);
                        g = g\<lparr>cg_edges := (cg_edges g)[unat edge_idx :=
                                \<lparr>ed_from = from_idx, ed_to = to_idx, ed_weight = weight, ed_next_from = old_head, ed_active = True\<rparr>],
                              cg_nodes := (cg_nodes g)[fi := (cg_nodes g ! fi)\<lparr>nd_first_edge := edge_idx\<rparr>],
                              cg_edge_count := cg_edge_count g + 1\<rparr>
                    in (Inr edge_idx, adjust_caches (\<lambda>w. saturating_add w weight) fi (unat to_idx) g))))"

definition update_weight :: "u16 \<Rightarrow> u64 \<Rightarrow> coherence_graph \<Rightarrow> (graph_error, unit, coherence_graph) outcome" where
  "update_weight edge_id delta g =
     (let idx = unat edge_id in
      if idx \<ge> length (cg_edges g) \<or> \<not> ed_active (cg_edges g ! idx) then (Inl EdgeNotFound, g)
      else
        let e = cg_edges g ! idx;
            old_weight = ed_weight e;
            new_weight = (if sint delta \<ge> 0 then saturating_add old_weight delta
                          else saturating_sub old_weight (- delta))
        in (Inr (), adjust_caches (\<lambda>w. saturating_add (saturating_sub w old_weight) new_weight)
                      (unat (ed_from e)) (unat (ed_to e))
                      (g\<lparr>cg_edges := (cg_edges g)[idx := e\<lparr>ed_weight := new_weight\<rparr>]\<rparr>)))"

definition saturating_mul :: "u64 \<Rightarrow> u64 \<Rightarrow> u64" where
  "saturating_mul a b = (if unat a * unat b < 2 ^ 64 then a * b else U64_MAX)"

fun decay_loop :: "u64 \<Rightarrow> nat list \<Rightarrow> u16 \<Rightarrow> coherence_graph \<Rightarrow> (u16 \<times> coherence_graph) option" where
  "decay_loop factor [] pruned g = Some (pruned, g)"
| "decay_loop factor (i # is) pruned g =
     (let e = cg_edges g ! i in
      if \<not> ed_active e then decay_loop factor is pruned g
      else
        let old_w = ed_weight e;
            new_w = saturating_mul old_w factor div 10000
        in if new_w = 0 then
             (case remove_edge_by_index (of_nat i) g of
                None \<Rightarrow> None | Some g \<Rightarrow> decay_loop factor is (pruned + 1) g)
           else
             decay_loop factor is pruned
               (adjust_caches (\<lambda>w. saturating_sub w (old_w - new_w)) (unat (ed_from e)) (unat (ed_to e))
                 (g\<lparr>cg_edges := (cg_edges g)[i := e\<lparr>ed_weight := new_w\<rparr>]\<rparr>)))"

definition decay_weights :: "u16 \<Rightarrow> coherence_graph \<Rightarrow> (u16 \<times> coherence_graph) option" where
  "decay_weights decay_bp g =
     decay_loop (saturating_sub 10000 (ucast decay_bp)) [0..<length (cg_edges g)] 0 g"

end
