(* ===== verification/Coh_Graph_Proofs.thy ===== *)
theory Coh_Graph_Proofs
  imports Coh_Graph "HOL-Library.Multiset"
begin

text \<open>
  The coherence graph keeps one set of edges in four forms.  The invariant \<open>graph_inv\<close> says that they
  agree: the list of each node holds exactly its active outgoing edges, and the matrix and the cached
  sums are the exact sums over the active edges as long as the sum of all weights fits a word.
  It is preserved by every operation, and the look-ups then equal plain scans of the edge slots.
\<close>

section \<open>Sums over active edges\<close>

definition contrib :: "(nat \<Rightarrow> nat \<Rightarrow> bool) \<Rightarrow> gedge \<Rightarrow> nat" where
  "contrib Q e = (if ed_active e \<and> Q (unat (ed_from e)) (unat (ed_to e)) then unat (ed_weight e) else 0)"

definition esum :: "(nat \<Rightarrow> nat \<Rightarrow> bool) \<Rightarrow> gedge list \<Rightarrow> nat" where
  "esum Q es = sum_list (map (contrib Q) es)"

abbreviation weight_sum :: "gedge list \<Rightarrow> nat" where
  "weight_sum es \<equiv> esum (\<lambda>_ _. True) es"

lemma esum_simps [simp]: "esum Q [] = 0" "esum Q (e # es) = contrib Q e + esum Q es"
  by (simp_all add: esum_def)

lemma esum_update:
  "k < length es \<Longrightarrow> esum Q (es[k := e]) + contrib Q (es ! k) = esum Q es + contrib Q e"
proof (induction es arbitrary: k)
  case Nil
  then show ?case by simp
next
  case (Cons x es)
  then show ?case by (cases k) (auto simp: add.assoc add.left_commute)
qed

lemma contrib_le: "contrib Q e \<le> contrib (\<lambda>_ _. True) e"
  by (simp add: contrib_def)

lemma esum_le: "esum Q es \<le> weight_sum es"
  by (induction es) (auto intro: add_mono contrib_le)

lemma contrib_le_esum: "k < length es \<Longrightarrow> contrib Q (es ! k) \<le> esum Q es"
proof (induction es arbitrary: k)
  case Nil
  then show ?case by simp
next
  case (Cons x es)
  then show ?case by (cases k) (auto intro: trans_le_add2)
qed

lemma contrib_next [simp]: "contrib Q (e\<lparr>ed_next_from := n\<rparr>) = contrib Q e"
  by (simp add: contrib_def)

lemma esum_next [simp]: "esum Q (es[k := (es ! k)\<lparr>ed_next_from := n\<rparr>]) = esum Q es"
proof (cases "k < length es")
  case True
  from esum_update [OF this, of Q "(es ! k)\<lparr>ed_next_from := n\<rparr>"] show ?thesis by simp
qed (simp add: not_less list_update_beyond)

lemma esum_inactive: "\<forall>e\<in>set es. \<not> ed_active e \<Longrightarrow> esum Q es = 0"
  by (induction es) (auto simp: contrib_def)

lemma esum_zero_iff: "esum Q es = 0 \<longleftrightarrow> (\<forall>e\<in>set es. contrib Q e = 0)"
  by (induction es) auto

section \<open>The caches\<close>

definition caches_ok :: "gedge list \<Rightarrow> coherence_graph \<Rightarrow> bool" where
  "caches_ok es g \<longleftrightarrow>
     length (cg_adj_matrix g) = ADJ_DIM \<and> (\<forall>i<ADJ_DIM. length (cg_adj_matrix g ! i) = ADJ_DIM) \<and>
     length (cg_cached_outgoing g) = ADJ_DIM \<and> length (cg_cached_incoming g) = ADJ_DIM \<and>
     (\<forall>i<ADJ_DIM. \<forall>j<ADJ_DIM. unat (cg_adj_matrix g ! i ! j) = esum (\<lambda>x y. x = i \<and> y = j) es) \<and>
     (\<forall>i<ADJ_DIM. unat (cg_cached_outgoing g ! i) = esum (\<lambda>x y. x = i) es) \<and>
     (\<forall>j<ADJ_DIM. unat (cg_cached_incoming g ! j) = esum (\<lambda>x y. y = j) es)"

text \<open>How one edge slot changes: it keeps its endpoints, or was free, or becomes free.\<close>

definition slot_change :: "nat \<Rightarrow> nat \<Rightarrow> gedge \<Rightarrow> gedge \<Rightarrow> bool" where
  "slot_change i j e e' \<longleftrightarrow>
     (ed_active e \<longrightarrow> unat (ed_from e) = i \<and> unat (ed_to e) = j) \<and>
     (ed_active e' \<longrightarrow> unat (ed_from e') = i \<and> unat (ed_to e') = j)"

lemma adjusted_entry:
  assumes k: "k < length es" "slot_change i j (es ! k) e'" and sum: "weight_sum (es[k := e']) < 2 ^ 64"
    and f: "\<And>w. contrib (\<lambda>_ _. True) (es ! k) \<le> unat w \<Longrightarrow>
       unat w - contrib (\<lambda>_ _. True) (es ! k) + contrib (\<lambda>_ _. True) e' < 2 ^ 64 \<Longrightarrow>
       unat (f w) = unat w - contrib (\<lambda>_ _. True) (es ! k) + contrib (\<lambda>_ _. True) e'"
    and w: "unat w = esum Q es"
  shows "unat (if Q i j then f w else w) = esum Q (es[k := e'])"
proof (cases "Q i j")
  case True
  then have c: "contrib Q (es ! k) = contrib (\<lambda>_ _. True) (es ! k)" "contrib Q e' = contrib (\<lambda>_ _. True) e'"
    using k(2) by (auto simp: contrib_def slot_change_def)
  have "contrib Q (es ! k) \<le> esum Q es" by (rule contrib_le_esum [OF k(1)])
  moreover have "esum Q (es[k := e']) < 2 ^ 64" using esum_le sum by (rule le_less_trans)
  ultimately show ?thesis using esum_update [OF k(1), of Q e'] f [of w] w c True by simp
next
  case False
  then have "contrib Q (es ! k) = 0" "contrib Q e' = 0" using k(2) by (auto simp: contrib_def slot_change_def)
  then show ?thesis using False w esum_update [OF k(1), of Q e'] by simp
qed

lemma adjust_caches_ok:
  assumes c: "caches_ok es g" and k: "k < length es" "slot_change i j (es ! k) e'" and ij: "i < ADJ_DIM" "j < ADJ_DIM"
    and sum: "weight_sum (es[k := e']) < 2 ^ 64"
    and f: "\<And>w. contrib (\<lambda>_ _. True) (es ! k) \<le> unat w \<Longrightarrow>
       unat w - contrib (\<lambda>_ _. True) (es ! k) + contrib (\<lambda>_ _. True) e' < 2 ^ 64 \<Longrightarrow>
       unat (f w) = unat w - contrib (\<lambda>_ _. True) (es ! k) + contrib (\<lambda>_ _. True) e'"
  shows "caches_ok (es[k := e']) (adjust_caches f i j g)"
proof -
  note entry = adjusted_entry [OF k sum f]
  have "unat (cg_adj_matrix (adjust_caches f i j g) ! x ! y) = esum (\<lambda>a b. a = x \<and> b = y) (es[k := e'])"
    if "x < ADJ_DIM" "y < ADJ_DIM" for x y
  proof -
    have "cg_adj_matrix (adjust_caches f i j g) ! x ! y =
        (if i = x \<and> j = y then f (cg_adj_matrix g ! x ! y) else cg_adj_matrix g ! x ! y)"
      using c that ij by (auto simp: adjust_caches_def caches_ok_def nth_list_update)
    also have "unat \<dots> = esum (\<lambda>a b. a = x \<and> b = y) (es[k := e'])"
      using c that by (intro entry) (simp_all add: caches_ok_def)
    finally show ?thesis .
  qed
  moreover have "unat (cg_cached_outgoing (adjust_caches f i j g) ! x) = esum (\<lambda>a b. a = x) (es[k := e'])"
    if "x < ADJ_DIM" for x
  proof -
    have "cg_cached_outgoing (adjust_caches f i j g) ! x =
        (if i = x then f (cg_cached_outgoing g ! x) else cg_cached_outgoing g ! x)"
      using c that ij by (auto simp: adjust_caches_def caches_ok_def nth_list_update)
    also have "unat \<dots> = esum (\<lambda>a b. a = x) (es[k := e'])"
      using c that by (intro entry) (simp_all add: caches_ok_def)
    finally show ?thesis .
  qed
  moreover have "unat (cg_cached_incoming (adjust_caches f i j g) ! y) = esum (\<lambda>a b. b = y) (es[k := e'])"
    if "y < ADJ_DIM" for y
  proof -
    have "cg_cached_incoming (adjust_caches f i j g) ! y =
        (if j = y then f (cg_cached_incoming g ! y) else cg_cached_incoming g ! y)"
      using c that ij by (auto simp: adjust_caches_def caches_ok_def nth_list_update)
    also have "unat \<dots> = esum (\<lambda>a b. b = y) (es[k := e'])"
      using c that by (intro entry) (simp_all add: caches_ok_def)
    finally show ?thesis .
  qed
  ultimately show ?thesis
    using c ij by (simp add: caches_ok_def) (auto simp: adjust_caches_def nth_list_update)
qed

lemma adjust_caches_fields [simp]:
  "cg_nodes (adjust_caches f i j g) = cg_nodes g" "cg_edges (adjust_caches f i j g) = cg_edges g"
  "cg_id_to_node (adjust_caches f i j g) = cg_id_to_node g"
  "cg_node_count (adjust_caches f i j g) = cg_node_count g" "cg_edge_count (adjust_caches f i j g) = cg_edge_count g"
  by (simp_all add: adjust_caches_def)

lemma caches_ok_cong:
  assumes "cg_adj_matrix g' = cg_adj_matrix g" "cg_cached_outgoing g' = cg_cached_outgoing g"
    "cg_cached_incoming g' = cg_cached_incoming g"
  shows "caches_ok es g' = caches_ok es g"
  by (simp add: caches_ok_def assms)

section \<open>Linked lists\<close>

primrec edge_chain :: "gedge list \<Rightarrow> u16 \<Rightarrow> nat list \<Rightarrow> bool" where
  "edge_chain es h [] = (h = INVALID)"
| "edge_chain es h (x # xs) = (h = of_nat x \<and> x < length es \<and> edge_chain es (ed_next_from (es ! x)) xs)"

lemma edge_chain_cong:
  assumes "length es' = length es" "\<And>x. x \<in> set xs \<Longrightarrow> ed_next_from (es' ! x) = ed_next_from (es ! x)"
  shows "edge_chain es' h xs = edge_chain es h xs"
  using assms(2) by (induction xs arbitrary: h) (auto simp: assms(1))

lemma chain_append_cong:
  assumes "edge_chain es h (ys @ p # xs)" "p \<notin> set ys" "edge_chain (es[p := (es ! p)\<lparr>ed_next_from := n\<rparr>]) n zs"
  shows "edge_chain (es[p := (es ! p)\<lparr>ed_next_from := n\<rparr>]) h (ys @ p # zs)"
  using assms by (induction ys arbitrary: h) auto

lemma index_word:
  assumes "length es \<le> 65535" "x < length es"
  shows "unat (of_nat x :: u16) = x" "(of_nat x :: u16) \<noteq> INVALID"
proof -
  show u: "unat (of_nat x :: u16) = x" using assms by (simp add: unat_of_nat)
  have "unat INVALID = 65535" by (simp add: INVALID_def unat_max_word)
  then show "(of_nat x :: u16) \<noteq> INVALID" using u assms by (metis leD)
qed

lemma chain_distinct_fuel: "distinct xs \<Longrightarrow> edge_chain es h xs \<Longrightarrow> length xs \<le> length es"
proof -
  assume d: "distinct xs" and c: "edge_chain es h xs"
  have "set xs \<subseteq> {0..<length es}" using c by (induction xs arbitrary: h) auto
  then have "card (set xs) \<le> card {0..<length es}" by (intro card_mono) auto
  then show ?thesis using d by (simp add: distinct_card)
qed

lemma unlink_walk_chain:
  assumes "length es \<le> 65535" "edge_chain es h (ys @ p # k # zs)" "distinct (ys @ p # k # zs)" "length ys < fuel"
  shows "unlink_walk fuel (of_nat k) nxt es h = Some (es[p := (es ! p)\<lparr>ed_next_from := nxt\<rparr>])"
  using assms(2-4)
proof (induction ys arbitrary: h fuel)
  case Nil
  then obtain m where "fuel = Suc m" by (cases fuel) auto
  then show ?case using Nil.prems(1) index_word [OF assms(1)] by auto
next
  case (Cons y ys)
  obtain m where m: "fuel = Suc m" using Cons.prems(3) by (cases fuel) auto
  have y: "h = of_nat y" "y < length es" "edge_chain es (ed_next_from (es ! y)) (ys @ p # k # zs)" using Cons.prems(1) by auto
  obtain z where z: "ed_next_from (es ! y) = of_nat z" "z < length es" "z \<noteq> k"
    using y(3) Cons.prems(2) by (cases ys) auto
  have "k < length es" using y(3) by (induction ys arbitrary: y) (auto dest: edge_chain.simps(2) [THEN iffD1])
  then have "ed_next_from (es ! y) \<noteq> of_nat k"
    using z index_word(1) [OF assms(1)] by metis
  then show ?case using m y index_word [OF assms(1) y(2)] Cons.IH [OF y(3)] Cons.prems by auto
qed

lemma neighbor_walk_chain:
  assumes "length es \<le> 65535" "edge_chain es h xs" "length xs < fuel" "\<forall>x\<in>set xs. ed_active (es ! x)"
  shows "neighbor_walk fuel es h = Some (map (\<lambda>x. (ed_to (es ! x), ed_weight (es ! x))) xs)"
  using assms(2-4)
proof (induction xs arbitrary: h fuel)
  case Nil
  then obtain m where "fuel = Suc m" by (cases fuel) auto
  with Nil show ?case by simp
next
  case (Cons x xs)
  then obtain m where "fuel = Suc m" by (cases fuel) auto
  with Cons index_word [OF assms(1), of x] show ?case by (auto simp: Let_def)
qed

lemma directed_walk_chain:
  assumes "length es \<le> 65535" "edge_chain es h xs" "length xs < fuel" "\<forall>x\<in>set xs. ed_active (es ! x)"
  shows "directed_walk fuel es t h = Some (map_option of_nat (find (\<lambda>x. ed_to (es ! x) = t) xs))"
  using assms(2-4)
proof (induction xs arbitrary: h fuel)
  case Nil
  then obtain m where "fuel = Suc m" by (cases fuel) auto
  with Nil show ?case by simp
next
  case (Cons x xs)
  then obtain m where "fuel = Suc m" by (cases fuel) auto
  with Cons index_word [OF assms(1), of x] show ?case by auto
qed

section \<open>The invariant\<close>

definition out_edges :: "gedge list \<Rightarrow> nat \<Rightarrow> nat set" where
  "out_edges es i = {k. k < length es \<and> ed_active (es ! k) \<and> unat (ed_from (es ! k)) = i}"

definition nodes_ok :: "gnode list \<Rightarrow> bool" where
  "nodes_ok ns \<longleftrightarrow> length ns \<le> ADJ_DIM \<and>
     (\<forall>i<length ns. \<forall>j<length ns. nd_partition (ns ! i) \<noteq> None \<longrightarrow> nd_partition (ns ! i) = nd_partition (ns ! j) \<longrightarrow> i = j)"

definition live_node :: "gnode list \<Rightarrow> nat \<Rightarrow> bool" where
  "live_node ns i \<longleftrightarrow> i < length ns \<and> nd_partition (ns ! i) \<noteq> None"

definition edges_ok :: "gnode list \<Rightarrow> gedge list \<Rightarrow> bool" where
  "edges_ok ns es \<longleftrightarrow> length es \<le> 65535 \<and>
     (\<forall>k<length es. ed_active (es ! k) \<longrightarrow>
        live_node ns (unat (ed_from (es ! k))) \<and> live_node ns (unat (ed_to (es ! k))))"

definition list_ok :: "gedge list \<Rightarrow> nat \<Rightarrow> u16 \<Rightarrow> bool" where
  "list_ok es i h \<longleftrightarrow> (\<exists>xs. edge_chain es h xs \<and> distinct xs \<and> set xs = out_edges es i)"

definition lists_ok :: "gnode list \<Rightarrow> gedge list \<Rightarrow> bool" where
  "lists_ok ns es \<longleftrightarrow> (\<forall>i. live_node ns i \<longrightarrow> list_ok es i (nd_first_edge (ns ! i)))"

definition graph_inv :: "coherence_graph \<Rightarrow> bool" where
  "graph_inv g \<longleftrightarrow>
     nodes_ok (cg_nodes g) \<and> length (cg_id_to_node g) = NODE_INDEX_SIZE \<and>
     edges_ok (cg_nodes g) (cg_edges g) \<and> lists_ok (cg_nodes g) (cg_edges g) \<and>
     caches_ok (cg_edges g) g \<and> weight_sum (cg_edges g) < 2 ^ 64 \<and>
     unat (cg_node_count g) = count_if (\<lambda>n. nd_partition n \<noteq> None) (cg_nodes g) \<and>
     unat (cg_edge_count g) = count_if ed_active (cg_edges g)"

lemma graph_invD:
  assumes "graph_inv g"
  shows "nodes_ok (cg_nodes g)" "length (cg_id_to_node g) = NODE_INDEX_SIZE" "edges_ok (cg_nodes g) (cg_edges g)"
    "lists_ok (cg_nodes g) (cg_edges g)" "caches_ok (cg_edges g) g" "weight_sum (cg_edges g) < 2 ^ 64"
    "unat (cg_node_count g) = count_if (\<lambda>n. nd_partition n \<noteq> None) (cg_nodes g)"
    "unat (cg_edge_count g) = count_if ed_active (cg_edges g)"
  using assms by (auto simp: graph_inv_def)

lemma node_index_word: "nodes_ok ns \<Longrightarrow> i < length ns \<Longrightarrow> unat (of_nat i :: u16) = i \<and> unat (of_nat i :: u8) = i"
  by (simp add: nodes_ok_def ADJ_DIM_def unat_of_nat)

lemma live_small: "nodes_ok ns \<Longrightarrow> live_node ns i \<Longrightarrow> i < ADJ_DIM"
  by (simp add: nodes_ok_def live_node_def)

lemma nodes_okD:
  "nodes_ok ns \<Longrightarrow> i < length ns \<Longrightarrow> j < length ns \<Longrightarrow> nd_partition (ns ! i) = Some p \<Longrightarrow>
     nd_partition (ns ! j) = Some p \<Longrightarrow> i = j"
  unfolding nodes_ok_def by (metis option.distinct(1))

lemma nodes_ok_update:
  assumes "nodes_ok ns" "\<And>k p. k < length ns \<Longrightarrow> k \<noteq> i \<Longrightarrow> nd_partition n = Some p \<Longrightarrow> nd_partition (ns ! k) \<noteq> Some p"
  shows "nodes_ok (ns[i := n])"
proof -
  have "a = b" if "a < length ns" "b < length ns" "nd_partition (ns[i := n] ! a) = Some p"
    "nd_partition (ns[i := n] ! b) = Some p" for a b p
    using that assms(2) [of a p] assms(2) [of b p] nodes_okD [OF assms(1), of a b p]
    by (cases "a = i"; cases "b = i") auto
  then show ?thesis using assms(1) by (simp add: nodes_ok_def) (metis option.exhaust)
qed

subsection \<open>Finding nodes\<close>

lemma scan_nodes_Some:
  assumes "nodes_ok (cg_nodes g)" "scan_nodes p g = Some idx"
  shows "unat idx < length (cg_nodes g) \<and> nd_partition (cg_nodes g ! unat idx) = Some p"
proof -
  obtain i where i: "position (\<lambda>n. nd_partition n = Some p) (cg_nodes g) = Some i" "idx = of_nat i"
    using assms(2) by (auto simp: scan_nodes_def)
  show ?thesis using position_Some [OF i(1)] node_index_word [OF assms(1), of i] i(2) by auto
qed

lemma scan_nodes_eq:
  assumes "nodes_ok (cg_nodes g)" "i < length (cg_nodes g)" "nd_partition (cg_nodes g ! i) = Some p"
  shows "scan_nodes p g = Some (of_nat i)"
proof -
  have "position (\<lambda>n. nd_partition n = Some p) (cg_nodes g) = Some i"
    using assms by (intro position_unique) (auto simp: nodes_ok_def)
  then show ?thesis by (simp add: scan_nodes_def)
qed

lemma find_node_scan:
  assumes "nodes_ok (cg_nodes g)"
  shows "find_node p g = scan_nodes p g"
proof -
  have "scan_nodes p g = Some (ucast idx)"
    if "unat idx < length (cg_nodes g)" "nd_partition (cg_nodes g ! unat idx) = Some p" for idx :: u8
    using scan_nodes_eq [OF assms that] by simp
  then show ?thesis by (auto simp: find_node_def split: option.splits)
qed

lemma find_node_Some:
  assumes "graph_inv g" "find_node p g = Some idx"
  shows "live_node (cg_nodes g) (unat idx)" "nd_partition (cg_nodes g ! unat idx) = Some p" "unat idx < ADJ_DIM"
proof -
  note n = graph_invD(1) [OF assms(1)]
  show "live_node (cg_nodes g) (unat idx)" "nd_partition (cg_nodes g ! unat idx) = Some p"
    using scan_nodes_Some [OF n] assms(2) find_node_scan [OF n] by (auto simp: live_node_def)
  then show "unat idx < ADJ_DIM" using live_small [OF n] by simp
qed

lemma find_node_live:
  assumes "graph_inv g" "i < length (cg_nodes g)" "nd_partition (cg_nodes g ! i) = Some p"
  shows "find_node p g = Some (of_nat i)"
  using find_node_scan scan_nodes_eq [OF _ assms(2,3)] graph_invD(1) [OF assms(1)] by simp

subsection \<open>Changing a slot\<close>

text \<open>What removal and weight changes leave alone.\<close>

definition same_nodes :: "coherence_graph \<Rightarrow> coherence_graph \<Rightarrow> bool" where
  "same_nodes g g' \<longleftrightarrow> map nd_partition (cg_nodes g') = map nd_partition (cg_nodes g) \<and>
     cg_id_to_node g' = cg_id_to_node g \<and> cg_node_count g' = cg_node_count g \<and>
     length (cg_edges g') = length (cg_edges g)"

lemma same_nodes_refl [simp]: "same_nodes g g"
  by (simp add: same_nodes_def)

lemma same_nodes_trans: "same_nodes g g' \<Longrightarrow> same_nodes g' g'' \<Longrightarrow> same_nodes g g''"
  by (simp add: same_nodes_def)

lemma same_nodesD:
  assumes "same_nodes g g'"
  shows "length (cg_nodes g') = length (cg_nodes g)"
    "i < length (cg_nodes g) \<Longrightarrow> nd_partition (cg_nodes g' ! i) = nd_partition (cg_nodes g ! i)"
    "live_node (cg_nodes g') i = live_node (cg_nodes g) i"
proof -
  have m: "map nd_partition (cg_nodes g') = map nd_partition (cg_nodes g)" using assms by (simp add: same_nodes_def)
  show l: "length (cg_nodes g') = length (cg_nodes g)" using m by (rule map_eq_imp_length_eq)
  have n: "nd_partition (cg_nodes g' ! i) = nd_partition (cg_nodes g ! i)" if "i < length (cg_nodes g)" for i
    using m that l by (metis nth_map)
  show "i < length (cg_nodes g) \<Longrightarrow> nd_partition (cg_nodes g' ! i) = nd_partition (cg_nodes g ! i)" by (rule n)
  show "live_node (cg_nodes g') i = live_node (cg_nodes g) i" using l n by (auto simp: live_node_def)
qed

lemma same_nodes_ok:
  assumes "same_nodes g g'"
  shows "nodes_ok (cg_nodes g') = nodes_ok (cg_nodes g)"
    "count_if (\<lambda>n. nd_partition n \<noteq> None) (cg_nodes g') = count_if (\<lambda>n. nd_partition n \<noteq> None) (cg_nodes g)"
proof -
  show "nodes_ok (cg_nodes g') = nodes_ok (cg_nodes g)"
    unfolding nodes_ok_def using same_nodesD [OF assms] by auto
  have "count_if (\<lambda>n. nd_partition n \<noteq> None) ns = count_if (\<lambda>x. x \<noteq> None) (map nd_partition ns)" for ns
    by (induction ns) auto
  then show "count_if (\<lambda>n. nd_partition n \<noteq> None) (cg_nodes g') = count_if (\<lambda>n. nd_partition n \<noteq> None) (cg_nodes g)"
    using assms unfolding same_nodes_def by metis
qed

lemma find_node_same:
  assumes "same_nodes g g'"
  shows "find_node p g' = find_node p g"
proof -
  have "position (\<lambda>n. nd_partition n = Some p) ns = position (\<lambda>x. x = Some p) (map nd_partition ns)" for ns
    by (induction ns) auto
  then have "scan_nodes p g' = scan_nodes p g" using assms unfolding scan_nodes_def same_nodes_def by metis
  then show ?thesis using same_nodesD [OF assms] assms by (auto simp: find_node_def same_nodes_def split: option.splits)
qed

lemma list_ok_other:
  assumes "list_ok es i h" "length es' = length es" "\<And>k. k \<in> out_edges es i \<Longrightarrow> ed_next_from (es' ! k) = ed_next_from (es ! k)"
    and "out_edges es' i = out_edges es i"
  shows "list_ok es' i h"
proof -
  obtain xs where xs: "edge_chain es h xs" "distinct xs" "set xs = out_edges es i" using assms(1) by (auto simp: list_ok_def)
  have "edge_chain es' h xs" using xs assms(2,3) edge_chain_cong [of es' es xs h] by simp
  then show ?thesis using xs assms(4) by (auto simp: list_ok_def)
qed

text \<open>A slot that keeps its endpoints and its link, such as a weight change.\<close>

lemma lists_ok_cong:
  assumes "lists_ok ns es" "length es' = length es" "\<And>i. live_node ns' i \<Longrightarrow> live_node ns i \<and> nd_first_edge (ns' ! i) = nd_first_edge (ns ! i)"
    and "\<And>k. k < length es \<Longrightarrow> ed_active (es' ! k) = ed_active (es ! k) \<and> ed_from (es' ! k) = ed_from (es ! k) \<and>
      ed_next_from (es' ! k) = ed_next_from (es ! k)"
  shows "lists_ok ns' es'"
proof -
  have out: "out_edges es' i = out_edges es i" for i using assms(2,4) by (auto simp: out_edges_def)
  have "list_ok es' i (nd_first_edge (ns' ! i))" if "live_node ns' i" for i
    using assms(1) assms(3) [OF that]
    by (intro list_ok_other [OF _ assms(2) _ out]) (auto simp: lists_ok_def out_edges_def assms(4))
  then show ?thesis by (simp add: lists_ok_def)
qed

lemma field_update: "f y = f (xs ! i) \<Longrightarrow> f (xs[i := y] ! k) = f (xs ! k)"
  by (cases "i < length xs"; cases "i = k") (auto simp: list_update_beyond)

text \<open>Cutting one edge out of the list of its source.\<close>

definition relinked :: "gedge list \<Rightarrow> nat \<Rightarrow> gedge list \<Rightarrow> bool" where
  "relinked es idx es1 \<longleftrightarrow> es1 = es \<or>
     (\<exists>p n. es1 = es[p := (es ! p)\<lparr>ed_next_from := n\<rparr>] \<and> p \<noteq> idx \<and> p \<in> out_edges es (unat (ed_from (es ! idx))))"

definition deactivate :: "nat \<Rightarrow> gedge list \<Rightarrow> gedge list" where
  "deactivate idx es = es[idx := (es ! idx)\<lparr>ed_active := False\<rparr>]"

lemma length_deactivate [simp]: "length (deactivate idx es) = length es"
  by (simp add: deactivate_def)

lemma relinked_view:
  assumes "relinked es idx es1" "k < length es"
  shows "length es1 = length es" "ed_from (es1 ! k) = ed_from (es ! k)" "ed_to (es1 ! k) = ed_to (es ! k)"
    "ed_weight (es1 ! k) = ed_weight (es ! k)" "ed_active (es1 ! k) = ed_active (es ! k)"
  using assms by (auto simp: relinked_def intro!: field_update)

lemma out_edges_deactivate:
  assumes "relinked es idx es1" "idx < length es"
  shows "out_edges (deactivate idx es1) i = out_edges es i - {idx}"
  using relinked_view [OF assms(1)] assms(2)
  by (intro set_eqI) (auto simp: out_edges_def deactivate_def nth_list_update)

lemma deactivate_next: "ed_next_from (deactivate idx es ! k) = ed_next_from (es ! k)"
  by (simp add: deactivate_def field_update)

lemma chain_deactivate [simp]: "edge_chain (deactivate idx es) h xs = edge_chain es h xs"
  by (rule edge_chain_cong) (simp_all add: deactivate_next)

lemma chain_append: "edge_chain es h (ys @ zs) \<Longrightarrow> \<exists>h'. edge_chain es h' zs"
  by (induction ys arbitrary: h) auto

lemma chain_appendD: "edge_chain es h (ys @ p # zs) \<Longrightarrow> edge_chain es (ed_next_from (es ! p)) zs \<and> p < length es"
  by (induction ys arbitrary: h) auto

lemma unlink_spec:
  assumes len: "length es \<le> 65535" and l: "list_ok es (unat (ed_from (es ! idx))) h"
    and k: "idx < length es" "ed_active (es ! idx)"
  shows "\<exists>es1. (if h = of_nat idx then es1 = es
       else unlink_walk (Suc (length es)) (of_nat idx) (ed_next_from (es ! idx)) es h = Some es1) \<and>
     relinked es idx es1 \<and>
     list_ok (deactivate idx es1) (unat (ed_from (es ! idx))) (if h = of_nat idx then ed_next_from (es ! idx) else h)"
proof -
  let ?i = "unat (ed_from (es ! idx))" and ?n = "ed_next_from (es ! idx)"
  obtain xs where xs: "edge_chain es h xs" "distinct xs" "set xs = out_edges es ?i" using l by (auto simp: list_ok_def)
  have "idx \<in> set xs" using k xs(3) by (simp add: out_edges_def)
  then obtain ys zs where d: "xs = ys @ idx # zs" by (meson split_list)
  note c = chain_appendD [OF xs(1) [unfolded d]]
  show ?thesis
  proof (cases ys rule: rev_cases)
    case Nil
    have "list_ok (deactivate idx es) ?i ?n"
      unfolding list_ok_def using c xs(2,3) d Nil out_edges_deactivate [of es idx es] k
      by (intro exI [of _ zs]) (auto simp: relinked_def)
    then show ?thesis using xs(1) d Nil by (auto simp: relinked_def)
  next
    case (snoc ys' p)
    let ?es1 = "es[p := (es ! p)\<lparr>ed_next_from := ?n\<rparr>]"
    have xs': "edge_chain es h (ys' @ p # idx # zs)" "distinct (ys' @ p # idx # zs)" using xs d snoc by auto
    have h: "h \<noteq> of_nat idx"
    proof -
      obtain y where "h = of_nat y" "y < length es" "y \<noteq> idx" using xs' by (cases ys') auto
      then show ?thesis using index_word(1) [OF len] k(1) by metis
    qed
    have "length ys' < Suc (length es)"
      using chain_distinct_fuel [OF xs'(2,1)] by simp
    then have w: "unlink_walk (Suc (length es)) (of_nat idx) ?n es h = Some ?es1"
      by (rule unlink_walk_chain [OF len xs'])
    have "?es1 ! x = es ! x" if "x \<in> set zs" for x using xs'(2) that by (intro nth_list_update_neq) auto
    then have "edge_chain ?es1 ?n zs" using c edge_chain_cong [of ?es1 es zs ?n] by simp
    then have ch: "edge_chain ?es1 h (ys' @ p # zs)" using xs' by (intro chain_append_cong [of es h ys' p "idx # zs"]) auto
    have r: "relinked es idx ?es1"
      unfolding relinked_def using xs(3) d snoc xs'(2) by (intro disjI2 exI [of _ p] exI [of _ ?n]) auto
    have "list_ok (deactivate idx ?es1) ?i h"
      unfolding list_ok_def using ch xs(3) xs'(2) d snoc out_edges_deactivate [OF r k(1)]
      by (intro exI [of _ "ys' @ p # zs"]) auto
    then show ?thesis using w r h by auto
  qed
qed

lemma relinked_lists:
  assumes lo: "lists_ok ns es" and r: "relinked es idx es1" and k: "idx < length es"
    and i: "i \<noteq> unat (ed_from (es ! idx))" "live_node ns i"
  shows "list_ok (deactivate idx es1) i (nd_first_edge (ns ! i))"
proof (rule list_ok_other [of es])
  show "list_ok es i (nd_first_edge (ns ! i))" using lo i by (simp add: lists_ok_def)
  show "length (deactivate idx es1) = length es" using relinked_view [OF r k] by simp
  show "ed_next_from (deactivate idx es1 ! k) = ed_next_from (es ! k)" if "k \<in> out_edges es i" for k
    using r i that by (auto simp: relinked_def deactivate_next out_edges_def nth_list_update)
  have "idx \<notin> out_edges es i" using i by (auto simp: out_edges_def)
  then show "out_edges (deactivate idx es1) i = out_edges es i" using out_edges_deactivate [OF r k] by auto
qed

lemma relinked_sums:
  assumes r: "relinked es idx es1"
  shows "esum Q (deactivate idx es1) = esum Q (deactivate idx es)"
    "count_if ed_active (deactivate idx es1) = count_if ed_active (deactivate idx es)"
proof -
  consider "es1 = es" | p n where "es1 = es[p := (es ! p)\<lparr>ed_next_from := n\<rparr>]" "p \<noteq> idx" "p < length es"
    using r by (auto simp: relinked_def out_edges_def)
  then have "esum Q (deactivate idx es1) = esum Q (deactivate idx es) \<and>
      count_if ed_active (deactivate idx es1) = count_if ed_active (deactivate idx es)"
  proof cases
    case 2
    have d: "deactivate idx es1 = (deactivate idx es)[p := (deactivate idx es ! p)\<lparr>ed_next_from := n\<rparr>]"
      using 2 by (simp add: deactivate_def list_update_swap nth_list_update)
    have "count_if ed_active (deactivate idx es1) = count_if ed_active (deactivate idx es)"
      using count_if_update [of p "deactivate idx es" ed_active "(deactivate idx es ! p)\<lparr>ed_next_from := n\<rparr>"] 2(3)
      unfolding d by simp
    then show ?thesis by (simp add: d)
  qed simp
  then show "esum Q (deactivate idx es1) = esum Q (deactivate idx es)"
    "count_if ed_active (deactivate idx es1) = count_if ed_active (deactivate idx es)" by auto
qed

lemma nodes_head_update:
  "map nd_partition (ns[i := (ns ! i)\<lparr>nd_first_edge := h\<rparr>]) = map nd_partition ns"
  by (cases "i < length ns") (simp_all add: map_update list_update_beyond, metis list_update_id nth_map)

definition edge_view :: "gedge \<Rightarrow> u16 \<times> u16 \<times> u64 \<times> bool" where
  "edge_view e = (ed_from e, ed_to e, ed_weight e, ed_active e)"

lemma remove_edge_inv:
  assumes inv: "graph_inv g" and k: "idx < length (cg_edges g)" "ed_active (cg_edges g ! idx)"
  shows "\<exists>g'. remove_edge_by_index (of_nat idx) g = Some g' \<and> graph_inv g' \<and> same_nodes g g' \<and>
    (\<forall>k<length (cg_edges g). edge_view (cg_edges g' ! k) = edge_view (deactivate idx (cg_edges g) ! k))"
proof -
  let ?es = "cg_edges g" and ?ns = "cg_nodes g"
  define e where "e = ?es ! idx"
  define i where "i = unat (ed_from e)"
  define j where "j = unat (ed_to e)"
  define h where "h = nd_first_edge (?ns ! i)"
  note D = graph_invD [OF inv]
  have len: "length ?es \<le> 65535" and live: "live_node ?ns i" "live_node ?ns j"
    using D(3) k by (auto simp: edges_ok_def i_def j_def e_def)
  have iw: "unat (of_nat idx :: u16) = idx" by (rule index_word [OF len k(1)])
  have "list_ok ?es i h" using D(4) live by (simp add: lists_ok_def h_def)
  from unlink_spec [OF len this [unfolded i_def e_def] k] obtain es1 where
    es1: "if h = of_nat idx then es1 = ?es
      else unlink_walk (Suc (length ?es)) (of_nat idx) (ed_next_from e) ?es h = Some es1"
    and r: "relinked ?es idx es1"
    and lst: "list_ok (deactivate idx es1) i (if h = of_nat idx then ed_next_from e else h)"
    unfolding e_def i_def by blast
  define g1 where "g1 = adjust_caches (\<lambda>w. saturating_sub w (ed_weight e)) i j g"
  define ns' where "ns' = (if h = of_nat idx then ?ns[i := (?ns ! i)\<lparr>nd_first_edge := ed_next_from e\<rparr>] else ?ns)"
  define g' where "g' = g1\<lparr>cg_nodes := ns', cg_edges := deactivate idx es1, cg_edge_count := saturating_sub (cg_edge_count g) 1\<rparr>"
  have run: "remove_edge_by_index (of_nat idx) g = Some g'"
    using es1 k iw
    by (cases "h = of_nat idx")
       (simp_all add: remove_edge_by_index_def Let_def g'_def g1_def ns'_def deactivate_def
          i_def [symmetric] j_def [symmetric] e_def [symmetric] h_def [symmetric] del: unlink_walk.simps)
  have view: "edge_view (deactivate idx es1 ! x) = edge_view (deactivate idx ?es ! x)" if "x < length ?es" for x
    using relinked_view [OF r that] relinked_view [OF r k(1)] that k(1)
    by (auto simp: edge_view_def deactivate_def nth_list_update)
  have same: "same_nodes g g'"
    using relinked_view(1) [OF r k(1)] by (simp add: same_nodes_def g'_def g1_def ns'_def nodes_head_update)
  have sums: "esum Q (deactivate idx es1) = esum Q (?es[idx := e\<lparr>ed_active := False\<rparr>])" for Q
    using relinked_sums(1) [OF r, of Q] by (simp add: deactivate_def e_def)
  have smaller: "weight_sum (?es[idx := e\<lparr>ed_active := False\<rparr>]) < 2 ^ 64"
    using esum_update [OF k(1), of "\<lambda>_ _. True" "e\<lparr>ed_active := False\<rparr>"] D(6) by (simp add: contrib_def)
  have "caches_ok (?es[idx := e\<lparr>ed_active := False\<rparr>]) g1"
    unfolding g1_def
    by (rule adjust_caches_ok [OF D(5) k(1)])
       (use k smaller live_small [OF D(1)] live in
         \<open>auto simp: slot_change_def e_def [symmetric] i_def j_def contrib_def saturating_sub_unat\<close>)
  then have c: "caches_ok (deactivate idx es1) g'"
    by (simp add: caches_ok_def sums g'_def)
  have nd: "nodes_ok ns'" "live_node ns' x = live_node ?ns x" for x
    using same_nodes_ok [OF same] same_nodesD [OF same] D(1) by (auto simp: g'_def)
  have eo: "edges_ok ns' (deactivate idx es1)"
  proof -
    have "ed_active (deactivate idx es1 ! x) \<longrightarrow> live_node ns' (unat (ed_from (deactivate idx es1 ! x))) \<and>
        live_node ns' (unat (ed_to (deactivate idx es1 ! x)))" if "x < length ?es" for x
      using D(3) view [OF that] that k(1) nd(2)
      by (auto simp: edges_ok_def edge_view_def deactivate_def nth_list_update)
    then show ?thesis using len relinked_view(1) [OF r k(1)] by (simp add: edges_ok_def)
  qed
  have lo: "lists_ok ns' (deactivate idx es1)"
    unfolding lists_ok_def
  proof (intro allI impI)
    fix x assume x: "live_node ns' x"
    show "list_ok (deactivate idx es1) x (nd_first_edge (ns' ! x))"
    proof (cases "x = i")
      case True
      then show ?thesis using lst x live by (auto simp: ns'_def h_def live_node_def)
    next
      case False
      then have "nd_first_edge (ns' ! x) = nd_first_edge (?ns ! x)" by (simp add: ns'_def)
      then show ?thesis
        using relinked_lists [OF D(4) r k(1), of x] False x nd(2) by (simp add: i_def e_def)
    qed
  qed
  have cnt: "unat (saturating_sub (cg_edge_count g) 1) = count_if ed_active (deactivate idx es1)"
    using relinked_sums(2) [OF r] count_if_update [OF k(1), of ed_active "e\<lparr>ed_active := False\<rparr>"] D(8) k(2)
    by (simp add: deactivate_def e_def saturating_sub_unat)
  have "graph_inv g'"
    using nd(1) D(2,7) eo lo c smaller sums cnt same_nodes_ok(2) [OF same]
    by (simp add: graph_inv_def g'_def g1_def)
  then show ?thesis using run same view by (auto simp: g'_def)
qed

section \<open>Weight changes\<close>

lemma reweight_inv:
  assumes inv: "graph_inv g" and k: "k < length (cg_edges g)" "ed_active (cg_edges g ! k)"
    and e: "e = cg_edges g ! k" and sum: "weight_sum ((cg_edges g)[k := e\<lparr>ed_weight := nw\<rparr>]) < 2 ^ 64"
    and f: "\<And>w. unat (ed_weight e) \<le> unat w \<Longrightarrow> unat w - unat (ed_weight e) + unat nw < 2 ^ 64 \<Longrightarrow>
       unat (f w) = unat w - unat (ed_weight e) + unat nw"
  defines "g' \<equiv> adjust_caches f (unat (ed_from e)) (unat (ed_to e)) (g\<lparr>cg_edges := (cg_edges g)[k := e\<lparr>ed_weight := nw\<rparr>]\<rparr>)"
  shows "graph_inv g' \<and> same_nodes g g'"
proof -
  let ?es = "cg_edges g"
  note D = graph_invD [OF inv]
  have live: "live_node (cg_nodes g) (unat (ed_from e))" "live_node (cg_nodes g) (unat (ed_to e))"
    using D(3) k by (auto simp: edges_ok_def e)
  have same: "same_nodes g g'" by (simp add: same_nodes_def g'_def)
  have "caches_ok ?es (g\<lparr>cg_edges := ?es[k := e\<lparr>ed_weight := nw\<rparr>]\<rparr>)"
    using D(5) by (simp add: caches_ok_def)
  then have c: "caches_ok (?es[k := e\<lparr>ed_weight := nw\<rparr>]) g'"
    unfolding g'_def
    by (rule adjust_caches_ok [OF _ k(1)])
       (use k sum f live_small [OF D(1)] live e in \<open>auto simp: slot_change_def contrib_def\<close>)
  have eo: "edges_ok (cg_nodes g) (?es[k := e\<lparr>ed_weight := nw\<rparr>])"
    using D(3) k e by (auto simp: edges_ok_def nth_list_update)
  have lo: "lists_ok (cg_nodes g) (?es[k := e\<lparr>ed_weight := nw\<rparr>])"
    by (rule lists_ok_cong [OF D(4)]) (use e in \<open>auto intro!: field_update\<close>)
  have "count_if ed_active (?es[k := e\<lparr>ed_weight := nw\<rparr>]) = count_if ed_active ?es"
    using count_if_update [OF k(1), of ed_active "e\<lparr>ed_weight := nw\<rparr>"] e by simp
  then have "graph_inv g'"
    using D c eo lo sum by (simp add: graph_inv_def g'_def)
  then show ?thesis using same by simp
qed

lemma reweight_sum:
  assumes "k < length es" "ed_active (es ! k)"
  shows "weight_sum (es[k := (es ! k)\<lparr>ed_weight := nw\<rparr>]) + unat (ed_weight (es ! k)) = weight_sum es + unat nw"
  using esum_update [OF assms(1), of "\<lambda>_ _. True" "(es ! k)\<lparr>ed_weight := nw\<rparr>"] assms(2) by (simp add: contrib_def)

lemma update_weight_inv:
  assumes inv: "graph_inv g" and d: "0 \<le> sint delta \<Longrightarrow> weight_sum (cg_edges g) + unat delta < 2 ^ 64"
    and run: "update_weight k delta g = (r, g')"
  shows "graph_inv g' \<and> same_nodes g g'"
proof (cases "unat k < length (cg_edges g) \<and> ed_active (cg_edges g ! unat k)")
  case False
  then show ?thesis using run inv by (auto simp: update_weight_def)
next
  case True
  let ?e = "cg_edges g ! unat k"
  let ?nw = "if 0 \<le> sint delta then saturating_add (ed_weight ?e) delta else saturating_sub (ed_weight ?e) (- delta)"
  have nw: "unat ?nw \<le> unat (ed_weight ?e) + (if 0 \<le> sint delta then unat delta else 0)"
    by (simp add: saturating_add_unat saturating_sub_unat)
  have g': "g' = adjust_caches (\<lambda>w. saturating_add (saturating_sub w (ed_weight ?e)) ?nw)
      (unat (ed_from ?e)) (unat (ed_to ?e)) (g\<lparr>cg_edges := (cg_edges g)[unat k := ?e\<lparr>ed_weight := ?nw\<rparr>]\<rparr>)"
    using run True by (simp add: update_weight_def Let_def split: if_splits)
  have "weight_sum ((cg_edges g)[unat k := ?e\<lparr>ed_weight := ?nw\<rparr>]) < 2 ^ 64"
    using reweight_sum [of "unat k" "cg_edges g" ?nw] True nw d graph_invD(6) [OF inv]
    by (simp split: if_splits)
  then show ?thesis unfolding g' using True
    by (intro reweight_inv [OF inv _ _ refl]) (auto simp: saturating_add_unat saturating_sub_unat)
qed

subsection \<open>Decay\<close>

definition decayed :: "u64 \<Rightarrow> u64 \<Rightarrow> u64" where
  "decayed factor w = saturating_mul w factor div 10000"

lemma decayed_le:
  assumes "factor \<le> 10000"
  shows "decayed factor w \<le> w"
proof -
  have u: "unat (decayed factor w) = (if unat w * unat factor < 2 ^ 64 then unat w * unat factor else 2 ^ 64 - 1) div 10000"
    by (simp add: decayed_def saturating_mul_def unat_div unat_word_ariths unat_max_word)
  have "unat factor \<le> 10000" using assms by (simp add: word_le_nat_alt)
  then have m: "unat w * unat factor \<le> unat w * 10000" by simp
  have "(if x < N then x else N - 1) \<le> x" for x N :: nat by auto
  then have "(if unat w * unat factor < 2 ^ 64 then unat w * unat factor else 2 ^ 64 - 1) \<le> unat w * 10000"
    using m le_trans by blast
  then have "unat (decayed factor w) \<le> unat w" unfolding u by (metis div_le_mono nonzero_mult_div_cancel_right numeral_neq_zero)
  then show ?thesis by (simp add: word_le_nat_alt)
qed

lemma decay_loop_inv:
  assumes "graph_inv g" "distinct is" "\<forall>i\<in>set is. i < length (cg_edges g)" "factor \<le> 10000"
  shows "\<exists>n g'. decay_loop factor is pruned g = Some (n, g') \<and> graph_inv g' \<and> same_nodes g g' \<and>
    (\<forall>k<length (cg_edges g). edge_view (cg_edges g' ! k) =
      (let e = cg_edges g ! k; w = decayed factor (ed_weight e) in
       if k \<in> set is \<and> ed_active e
       then (ed_from e, ed_to e, if w = 0 then ed_weight e else w, w \<noteq> 0) else edge_view e))"
  using assms
proof (induction "is" arbitrary: g pruned)
  case Nil
  then show ?case by simp
next
  case (Cons i "is")
  let ?e = "cg_edges g ! i"
  let ?w = "decayed factor (ed_weight ?e)"
  have i: "i < length (cg_edges g)" using Cons.prems by simp
  show ?case
  proof (cases "ed_active ?e")
    case False
    then show ?thesis using Cons.IH [of g pruned] Cons.prems by (auto simp: Let_def)
  next
    case True
    define g1 where "g1 = (if ?w = 0 then the (remove_edge_by_index (of_nat i) g)
      else adjust_caches (\<lambda>w. saturating_sub w (ed_weight ?e - ?w)) (unat (ed_from ?e)) (unat (ed_to ?e))
             (g\<lparr>cg_edges := (cg_edges g)[i := ?e\<lparr>ed_weight := ?w\<rparr>]\<rparr>))"
    have le: "?w \<le> ed_weight ?e" by (rule decayed_le [OF Cons.prems(4)])
    have step: "graph_inv g1 \<and> same_nodes g g1 \<and> (?w = 0 \<longrightarrow> remove_edge_by_index (of_nat i) g = Some g1) \<and>
      (\<forall>k<length (cg_edges g). edge_view (cg_edges g1 ! k) =
        (if k = i then (ed_from ?e, ed_to ?e, if ?w = 0 then ed_weight ?e else ?w, ?w \<noteq> 0) else edge_view (cg_edges g ! k)))"
    proof (cases "?w = 0")
      case True
      then show ?thesis
        using remove_edge_inv [OF Cons.prems(1) i \<open>ed_active ?e\<close>]
        by (auto simp: g1_def deactivate_def edge_view_def nth_list_update)
    next
      case False
      have "unat (ed_weight ?e - ?w) = unat (ed_weight ?e) - unat ?w" using le by (simp add: unat_sub)
      moreover have "unat ?w \<le> unat (ed_weight ?e)" using le by (simp add: word_le_nat_alt)
      moreover have "weight_sum ((cg_edges g)[i := ?e\<lparr>ed_weight := ?w\<rparr>]) < 2 ^ 64"
        using reweight_sum [OF i True, of ?w] graph_invD(6) [OF Cons.prems(1)] calculation(2) by simp
      ultimately have "graph_inv g1 \<and> same_nodes g g1"
        unfolding g1_def using False
        by (simp only: if_False, intro reweight_inv [OF Cons.prems(1) i True refl]) (auto simp: saturating_sub_unat)
      then show ?thesis using False i True by (auto simp: g1_def edge_view_def nth_list_update)
    qed
    have loop: "decay_loop factor (i # is) pruned g = decay_loop factor is (if ?w = 0 then pruned + 1 else pruned) g1"
    proof (cases "?w = 0")
      case True
      then have "remove_edge_by_index (of_nat i) g = Some g1" using step by blast
      then show ?thesis using True \<open>ed_active ?e\<close> by (simp add: Let_def decayed_def [symmetric])
    next
      case False
      then show ?thesis using True by (simp add: Let_def decayed_def [symmetric] g1_def)
    qed
    have l: "length (cg_edges g1) = length (cg_edges g)" using step by (simp add: same_nodes_def)
    obtain n g' where IH: "decay_loop factor is (if ?w = 0 then pruned + 1 else pruned) g1 = Some (n, g')" "graph_inv g'"
      "same_nodes g1 g'" "\<forall>k<length (cg_edges g1). edge_view (cg_edges g' ! k) =
        (let e = cg_edges g1 ! k; w = decayed factor (ed_weight e) in
         if k \<in> set is \<and> ed_active e
         then (ed_from e, ed_to e, if w = 0 then ed_weight e else w, w \<noteq> 0) else edge_view e)"
      using Cons.IH [of g1 "if ?w = 0 then pruned + 1 else pruned"] step Cons.prems l by auto
    have "edge_view (cg_edges g' ! k) =
      (let e = cg_edges g ! k; w = decayed factor (ed_weight e) in
       if k \<in> set (i # is) \<and> ed_active e
       then (ed_from e, ed_to e, if w = 0 then ed_weight e else w, w \<noteq> 0) else edge_view e)"
      if k: "k < length (cg_edges g)" for k
      using IH(4) [rule_format, of k] step k l Cons.prems(2) True
      by (cases "k = i") (auto simp: Let_def edge_view_def)
    then show ?thesis using loop IH(1-3) step same_nodes_trans by auto
  qed
qed

section \<open>Nodes and new edges\<close>

definition incident :: "u16 \<Rightarrow> gedge \<Rightarrow> bool" where
  "incident idx e \<longleftrightarrow> ed_active e \<and> (ed_from e = idx \<or> ed_to e = idx)"

lemma remove_incident_inv:
  assumes "graph_inv g" "distinct is" "\<forall>i\<in>set is. i < length (cg_edges g)"
  shows "\<exists>g'. remove_incident idx is g = Some g' \<and> graph_inv g' \<and> same_nodes g g' \<and>
    (\<forall>k<length (cg_edges g). edge_view (cg_edges g' ! k) =
      (let e = cg_edges g ! k in
       if k \<in> set is \<and> incident idx e then (ed_from e, ed_to e, ed_weight e, False) else edge_view e))"
  using assms
proof (induction "is" arbitrary: g)
  case Nil
  then show ?case by simp
next
  case (Cons i "is")
  have i: "i < length (cg_edges g)" using Cons.prems by simp
  show ?case
  proof (cases "incident idx (cg_edges g ! i)")
    case False
    then show ?thesis using Cons.IH [of g] Cons.prems by (auto simp: Let_def incident_def)
  next
    case True
    then obtain g1 where g1: "remove_edge_by_index (of_nat i) g = Some g1" "graph_inv g1" "same_nodes g g1"
      "\<forall>k<length (cg_edges g). edge_view (cg_edges g1 ! k) = edge_view (deactivate i (cg_edges g) ! k)"
      using remove_edge_inv [OF Cons.prems(1) i] by (auto simp: incident_def)
    have l: "length (cg_edges g1) = length (cg_edges g)" using g1 by (simp add: same_nodes_def)
    obtain g' where IH: "remove_incident idx is g1 = Some g'" "graph_inv g'" "same_nodes g1 g'"
      "\<forall>k<length (cg_edges g1). edge_view (cg_edges g' ! k) =
        (let e = cg_edges g1 ! k in
         if k \<in> set is \<and> incident idx e then (ed_from e, ed_to e, ed_weight e, False) else edge_view e)"
      using Cons.IH [of g1] g1 Cons.prems l by auto
    have "edge_view (cg_edges g' ! k) =
      (let e = cg_edges g ! k in
       if k \<in> set (i # is) \<and> incident idx e then (ed_from e, ed_to e, ed_weight e, False) else edge_view e)"
      if k: "k < length (cg_edges g)" for k
      using IH(4) [rule_format, of k] g1(4) [rule_format, of k] k l Cons.prems(2) True
      by (cases "k = i") (auto simp: Let_def edge_view_def deactivate_def incident_def)
    then show ?thesis using g1 IH same_nodes_trans True by (auto simp: incident_def)
  qed
qed

lemma clear_row_column_id:
  assumes "\<forall>j<ADJ_DIM. m ! ni ! j = 0 \<and> m ! j ! ni = 0"
  shows "clear_row_column ni m = m"
proof -
  have "foldl (\<lambda>m j. let m = m[ni := (m ! ni)[j := 0]] in m[j := (m ! j)[ni := 0]]) m js = m" if "set js \<subseteq> {0..<ADJ_DIM}" for js
    using that
  proof (induction js)
    case (Cons j js)
    then have "m ! ni ! j = 0" "m ! j ! ni = 0" using assms by auto
    then have "(m ! ni)[j := 0] = m ! ni" "(m ! j)[ni := 0] = m ! j" by (metis list_update_id)+
    then show ?case using Cons by (simp add: Let_def)
  qed simp
  then show ?thesis by (simp add: clear_row_column_def)
qed

lemma empty_sums:
  assumes "caches_ok es g" "\<forall>k<length es. ed_active (es ! k) \<longrightarrow> unat (ed_from (es ! k)) \<noteq> ni \<and> unat (ed_to (es ! k)) \<noteq> ni" "ni < ADJ_DIM"
  shows "clear_row_column ni (cg_adj_matrix g) = cg_adj_matrix g"
    "(cg_cached_outgoing g)[ni := 0] = cg_cached_outgoing g" "(cg_cached_incoming g)[ni := 0] = cg_cached_incoming g"
proof -
  have z: "esum Q es = 0" if "\<And>x y. Q x y \<Longrightarrow> x = ni \<or> y = ni" for Q
  proof -
    have "contrib Q (es ! k) = 0" if "k < length es" for k
      using assms(2) that \<open>\<And>x y. Q x y \<Longrightarrow> x = ni \<or> y = ni\<close> by (auto simp: contrib_def)
    then show ?thesis unfolding esum_zero_iff by (metis in_set_conv_nth)
  qed
  have "cg_adj_matrix g ! ni ! j = 0 \<and> cg_adj_matrix g ! j ! ni = 0" if "j < ADJ_DIM" for j
  proof -
    have "unat (cg_adj_matrix g ! ni ! j) = 0" "unat (cg_adj_matrix g ! j ! ni) = 0"
      using assms(1,3) that z [of "\<lambda>x y. x = ni \<and> y = j"] z [of "\<lambda>x y. x = j \<and> y = ni"] by (simp_all add: caches_ok_def)
    then show ?thesis by (simp add: unat_eq_zero)
  qed
  then show "clear_row_column ni (cg_adj_matrix g) = cg_adj_matrix g" by (intro clear_row_column_id) auto
  have "unat (cg_cached_outgoing g ! ni) = 0" "unat (cg_cached_incoming g ! ni) = 0"
    using assms(1,3) z [of "\<lambda>x y. x = ni"] z [of "\<lambda>x y. y = ni"] by (simp_all add: caches_ok_def)
  then have "cg_cached_outgoing g ! ni = 0" "cg_cached_incoming g ! ni = 0" by (simp_all add: unat_eq_zero)
  then show "(cg_cached_outgoing g)[ni := 0] = cg_cached_outgoing g" "(cg_cached_incoming g)[ni := 0] = cg_cached_incoming g"
    by (metis list_update_id)+
qed

lemma remove_node_inv:
  assumes inv: "graph_inv g"
  shows "\<exists>r g'. remove_node p g = Some (r, g') \<and> graph_inv g' \<and> (r = Inr () \<longleftrightarrow> find_node p g \<noteq> None) \<and>
    (r = Inr () \<longrightarrow> find_node p g' = None)"
proof (cases "find_node p g")
  case None
  then show ?thesis using inv by (simp add: remove_node_def)
next
  case (Some idx)
  note N = find_node_Some [OF inv Some]
  obtain g1 where g1: "remove_incident idx [0..<length (cg_edges g)] g = Some g1" "graph_inv g1" "same_nodes g g1"
    "\<forall>k<length (cg_edges g). edge_view (cg_edges g1 ! k) =
      (let e = cg_edges g ! k in
       if k \<in> set [0..<length (cg_edges g)] \<and> incident idx e then (ed_from e, ed_to e, ed_weight e, False) else edge_view e)"
    using remove_incident_inv [OF inv, of "[0..<length (cg_edges g)]" idx] by auto
  let ?ni = "unat idx" and ?es = "cg_edges g1"
  note D = graph_invD [OF g1(2)]
  have l: "length ?es = length (cg_edges g)" using g1 by (simp add: same_nodes_def)
  have away: "ed_from (?es ! k) \<noteq> idx \<and> ed_to (?es ! k) \<noteq> idx" if "k < length ?es" "ed_active (?es ! k)" for k
    using g1(4) [rule_format, of k] that l by (auto simp: Let_def incident_def edge_view_def split: if_splits)
  then have away': "\<forall>k<length ?es. ed_active (?es ! k) \<longrightarrow> unat (ed_from (?es ! k)) \<noteq> ?ni \<and> unat (ed_to (?es ! k)) \<noteq> ?ni"
    by (metis word_unat_eq_iff)
  note clear = empty_sums [OF D(5) away' N(3)]
  define ns' where "ns' = (cg_nodes g1)[?ni := \<lparr>nd_partition = None, nd_first_edge = INVALID\<rparr>]"
  define g2 where "g2 = (if cg_id_to_node g1 ! node_hash p = Some (ucast idx)
    then g1\<lparr>cg_id_to_node := (cg_id_to_node g1)[node_hash p := None]\<rparr> else g1)"
  define g' where "g' = g2\<lparr>cg_nodes := ns', cg_node_count := saturating_sub (cg_node_count g1) 1\<rparr>"
  have f: "cg_nodes g2 = cg_nodes g1" "cg_edges g2 = ?es" "cg_adj_matrix g2 = cg_adj_matrix g1" "cg_edge_count g2 = cg_edge_count g1"
    "cg_cached_outgoing g2 = cg_cached_outgoing g1" "cg_cached_incoming g2 = cg_cached_incoming g1" "cg_node_count g2 = cg_node_count g1"
    "length (cg_id_to_node g2) = length (cg_id_to_node g1)"
    by (simp_all add: g2_def)
  have run: "remove_node p g = Some (Inr (), g')"
  proof -
    have "g' = g2\<lparr>cg_nodes := ns', cg_adj_matrix := cg_adj_matrix g2, cg_cached_outgoing := cg_cached_outgoing g2,
      cg_cached_incoming := cg_cached_incoming g2, cg_node_count := saturating_sub (cg_node_count g2) 1\<rparr>"
      by (simp add: g'_def f)
    then show ?thesis using Some g1(1) clear by (simp add: remove_node_def Let_def g2_def ns'_def)
  qed
  have ni: "?ni < length (cg_nodes g1)" "nd_partition (cg_nodes g1 ! ?ni) = Some p"
    using N same_nodesD [OF g1(3)] by (auto simp: live_node_def)
  have live: "live_node ns' i \<longleftrightarrow> live_node (cg_nodes g1) i \<and> i \<noteq> ?ni" for i
    using ni(1) by (auto simp: live_node_def ns'_def nth_list_update)
  have no: "nodes_ok ns'"
    unfolding ns'_def by (rule nodes_ok_update [OF D(1)]) simp
  have "edges_ok ns' ?es" using D(3) away' live by (auto simp: edges_ok_def)
  moreover have "lists_ok ns' ?es"
    by (rule lists_ok_cong [OF D(4)]) (use live in \<open>auto simp: ns'_def\<close>)
  moreover have "caches_ok ?es g'" using D(5) f by (simp add: caches_ok_def g'_def)
  moreover have "unat (saturating_sub (cg_node_count g1) 1) = count_if (\<lambda>n. nd_partition n \<noteq> None) ns'"
    using count_if_update [OF ni(1), of "\<lambda>n. nd_partition n \<noteq> None" "\<lparr>nd_partition = None, nd_first_edge = INVALID\<rparr>"] D(7) ni(2)
    by (simp add: ns'_def saturating_sub_unat)
  ultimately have inv': "graph_inv g'" using no D(2,6,8) f by (simp add: graph_inv_def g'_def)
  have "find_node p g' = None"
  proof (rule ccontr)
    assume "find_node p g' \<noteq> None"
    then obtain i where i: "find_node p g' = Some i" by auto
    have g'n: "cg_nodes g' = ns'" by (simp add: g'_def)
    have lv: "live_node (cg_nodes g1) (unat i)" "unat i \<noteq> ?ni"
      using find_node_Some(1) [OF inv' i] unfolding g'n live by auto
    have "nd_partition (cg_nodes g1 ! unat i) = Some p"
      using find_node_Some(2) [OF inv' i] lv(2) unfolding g'n by (simp add: ns'_def)
    moreover have "unat i < length (cg_nodes g1)" using lv(1) by (simp add: live_node_def)
    ultimately show False using nodes_okD [OF D(1) _ ni(1) _ ni(2)] lv(2) by blast
  qed
  then show ?thesis using run inv' Some by simp
qed

lemma add_node_inv:
  assumes inv: "graph_inv g" and run: "add_node p g = (r, g')"
  shows "graph_inv g'"
proof (cases "find_node p g = None \<and> position (\<lambda>n. nd_partition n = None) (cg_nodes g) \<noteq> None")
  case False
  then show ?thesis using run inv by (auto simp: add_node_def split: if_splits option.splits)
next
  case True
  then obtain i where i: "position (\<lambda>n. nd_partition n = None) (cg_nodes g) = Some i" by auto
  note D = graph_invD [OF inv]
  note pos = position_Some [OF i]
  define ns' where "ns' = (cg_nodes g)[i := \<lparr>nd_partition = Some p, nd_first_edge = INVALID\<rparr>]"
  have g': "g' = g\<lparr>cg_nodes := ns', cg_node_count := cg_node_count g + 1,
      cg_id_to_node := (cg_id_to_node g)[node_hash p := Some (of_nat i)]\<rparr>"
    using run True i by (simp add: add_node_def ns'_def)
  have fresh: "nd_partition (cg_nodes g ! k) \<noteq> Some p" if "k < length (cg_nodes g)" for k
    using find_node_live [OF inv that] True by auto
  have live: "live_node ns' k \<longleftrightarrow> live_node (cg_nodes g) k \<or> k = i" for k
    using pos by (auto simp: live_node_def ns'_def nth_list_update)
  have no: "nodes_ok ns'"
    unfolding ns'_def by (rule nodes_ok_update [OF D(1)]) (use fresh in auto)
  have out: "out_edges (cg_edges g) i = {}"
    using D(3) pos by (auto simp: out_edges_def edges_ok_def live_node_def)
  have "lists_ok ns' (cg_edges g)"
    unfolding lists_ok_def
  proof (intro allI impI)
    fix k assume k: "live_node ns' k"
    show "list_ok (cg_edges g) k (nd_first_edge (ns' ! k))"
    proof (cases "k = i")
      case True
      then show ?thesis using pos out by (auto simp: list_ok_def ns'_def intro: exI [of _ "[]"])
    next
      case False
      then show ?thesis using k live D(4) by (simp add: lists_ok_def ns'_def)
    qed
  qed
  moreover have "edges_ok ns' (cg_edges g)" using D(3) live by (auto simp: edges_ok_def)
  moreover have "unat (cg_node_count g + 1) = count_if (\<lambda>n. nd_partition n \<noteq> None) ns'"
  proof -
    have c: "count_if (\<lambda>n. nd_partition n \<noteq> None) ns' = unat (cg_node_count g) + 1"
      using count_if_update [of i "cg_nodes g" "\<lambda>n. nd_partition n \<noteq> None" "\<lparr>nd_partition = Some p, nd_first_edge = INVALID\<rparr>"]
        pos D(7) by (simp add: ns'_def)
    moreover have "count_if (\<lambda>n. nd_partition n \<noteq> None) ns' \<le> 32"
      using count_if_le [of "\<lambda>n. nd_partition n \<noteq> None" ns'] no by (simp add: nodes_ok_def ADJ_DIM_def)
    ultimately show ?thesis by (simp add: unat_word_ariths)
  qed
  moreover have "caches_ok (cg_edges g) g'" using D(5) by (simp add: caches_ok_def g')
  ultimately show ?thesis using no D(2,6,8) by (simp add: graph_inv_def g')
qed

lemma lists_ok_push:
  assumes lo: "lists_ok ns es" and k: "k < length es" "\<not> ed_active (es ! k)" and live: "live_node ns i"
    and e: "unat (ed_from e) = i" "ed_active e" "ed_next_from e = nd_first_edge (ns ! i)"
  shows "lists_ok (ns[i := (ns ! i)\<lparr>nd_first_edge := of_nat k\<rparr>]) (es[k := e])"
  unfolding lists_ok_def
proof (intro allI impI)
  fix x assume "live_node (ns[i := (ns ! i)\<lparr>nd_first_edge := of_nat k\<rparr>]) x"
  then have x: "live_node ns x" by (simp add: live_node_def field_update)
  obtain xs where xs: "edge_chain es (nd_first_edge (ns ! x)) xs" "distinct xs" "set xs = out_edges es x"
    using lo x by (auto simp: lists_ok_def list_ok_def)
  have out: "out_edges (es[k := e]) x = (if x = i then insert k (out_edges es x) else out_edges es x)"
    using k e by (auto simp: out_edges_def nth_list_update)
  have notin: "k \<notin> out_edges es x" using k by (simp add: out_edges_def)
  have "es[k := e] ! y = es ! y" if "y \<in> set xs" for y
    using that xs(3) notin by (intro nth_list_update_neq) auto
  then have ch: "edge_chain (es[k := e]) (nd_first_edge (ns ! x)) xs"
    using xs(1) edge_chain_cong [of "es[k := e]" es xs] by simp
  show "list_ok (es[k := e]) x (nd_first_edge (ns[i := (ns ! i)\<lparr>nd_first_edge := of_nat k\<rparr>] ! x))"
  proof (cases "x = i")
    case True
    then show ?thesis
      unfolding list_ok_def using ch xs(2,3) out notin k(1) e(3) live
      by (intro exI [of _ "k # xs"]) (simp add: live_node_def)
  next
    case False
    then show ?thesis unfolding list_ok_def using ch xs(2,3) out by (intro exI [of _ xs]) simp
  qed
qed

lemma add_edge_inv:
  assumes inv: "graph_inv g" and w: "weight_sum (cg_edges g) + unat weight < 2 ^ 64"
    and run: "add_edge from to weight g = (r, g')"
  shows "graph_inv g'"
proof (cases "\<exists>fi ti k. find_node from g = Some fi \<and> find_node to g = Some ti \<and> alloc_edge g = Inr k")
  case False
  then have "g' = g" using run by (auto simp: add_edge_def split: option.splits sum.splits)
  then show ?thesis using inv by simp
next
  case True
  then obtain fi ti k where F: "find_node from g = Some fi" and T: "find_node to g = Some ti"
    and K: "position (\<lambda>e. \<not> ed_active e) (cg_edges g) = Some k"
    by (auto simp: alloc_edge_def split: option.splits)
  let ?es = "cg_edges g" and ?ns = "cg_nodes g"
  note D = graph_invD [OF inv]
  note f = find_node_Some [OF inv F] and t = find_node_Some [OF inv T]
  have k: "k < length ?es" "\<not> ed_active (?es ! k)" using position_Some [OF K] by auto
  have len: "length ?es \<le> 65535" using D(3) by (simp add: edges_ok_def)
  have kw: "unat (of_nat k :: u16) = k" by (rule index_word [OF len k(1)])
  define e where "e = \<lparr>ed_from = fi, ed_to = ti, ed_weight = weight, ed_next_from = nd_first_edge (?ns ! unat fi), ed_active = True\<rparr>"
  define ns' where "ns' = ?ns[unat fi := (?ns ! unat fi)\<lparr>nd_first_edge := of_nat k\<rparr>]"
  define g1 where "g1 = g\<lparr>cg_edges := ?es[k := e], cg_nodes := ns', cg_edge_count := cg_edge_count g + 1\<rparr>"
  have g': "g' = adjust_caches (\<lambda>x. saturating_add x weight) (unat fi) (unat ti) g1"
    using run F T K by (simp add: add_edge_def alloc_edge_def kw Let_def g1_def ns'_def e_def)
  have same: "map nd_partition ns' = map nd_partition ?ns" by (simp add: ns'_def nodes_head_update)
  then have sn: "same_nodes g (g\<lparr>cg_nodes := ns'\<rparr>)" by (simp add: same_nodes_def)
  have live: "live_node ns' x = live_node ?ns x" for x using same_nodesD(3) [OF sn] by simp
  have sum: "weight_sum (?es[k := e]) < 2 ^ 64"
    using esum_update [OF k(1), of "\<lambda>_ _. True" e] w k(2) by (simp add: contrib_def e_def)
  have "caches_ok ?es g1" using D(5) by (simp add: caches_ok_def g1_def)
  then have c: "caches_ok (?es[k := e]) g'"
    unfolding g'
    by (rule adjust_caches_ok [OF _ k(1)])
       (use k(2) f(3) t(3) sum in \<open>auto simp: slot_change_def e_def contrib_def saturating_add_unat\<close>)
  have eo: "edges_ok ns' (?es[k := e])"
    using D(3) f(1) t(1) live k(1) by (auto simp: edges_ok_def nth_list_update e_def)
  have lo: "lists_ok ns' (?es[k := e])"
    unfolding ns'_def by (rule lists_ok_push [OF D(4) k f(1)]) (simp_all add: e_def)
  have cnt: "count_if ed_active (?es[k := e]) = unat (cg_edge_count g) + 1"
    using count_if_update [OF k(1), of ed_active e] k(2) D(8) by (simp add: e_def)
  moreover have "count_if ed_active (?es[k := e]) \<le> 65535"
    using count_if_le [of ed_active "?es[k := e]"] len by simp
  ultimately have "unat (cg_edge_count g + 1) = count_if ed_active (?es[k := e])"
    by (simp add: unat_word_ariths)
  then show ?thesis
    using same_nodes_ok [OF sn] D(1,2,7) c eo lo sum by (simp add: graph_inv_def g' g1_def)
qed

lemma decay_weights_inv:
  assumes "graph_inv g"
  shows "\<exists>n g'. decay_weights bp g = Some (n, g') \<and> graph_inv g' \<and> same_nodes g g' \<and>
    (\<forall>k<length (cg_edges g). edge_view (cg_edges g' ! k) =
      (let e = cg_edges g ! k; w = decayed (saturating_sub 10000 (ucast bp)) (ed_weight e) in
       if ed_active e then (ed_from e, ed_to e, if w = 0 then ed_weight e else w, w \<noteq> 0) else edge_view e))"
proof -
  have "saturating_sub 10000 (ucast bp) \<le> (10000 :: u64)"
    by (simp add: word_le_nat_alt saturating_sub_unat)
  from decay_loop_inv [OF assms _ _ this, of "[0..<length (cg_edges g)]" 0]
  show ?thesis by (simp add: decay_weights_def Let_def)
qed

lemma graph_new_inv:
  assumes "n \<le> ADJ_DIM" "m \<le> 65535"
  shows "graph_inv (graph_new n m)"
proof -
  have "esum Q (replicate m EMPTY_EDGE) = 0" for Q by (rule esum_inactive) (auto simp: EMPTY_EDGE_def)
  moreover have "\<not> live_node (replicate n EMPTY_NODE) i" for i by (simp add: live_node_def EMPTY_NODE_def)
  ultimately show ?thesis using assms
    by (simp add: graph_inv_def graph_new_def nodes_ok_def edges_ok_def lists_ok_def caches_ok_def)
       (simp add: EMPTY_NODE_def EMPTY_EDGE_def)
qed

section \<open>Reachable graphs\<close>

text \<open>Weights are added only while their sum fits 64 bits; every other operation is unrestricted.\<close>

inductive graph_reach :: "nat \<Rightarrow> nat \<Rightarrow> coherence_graph \<Rightarrow> bool" for n m where
  new: "graph_reach n m (graph_new n m)"
| node: "graph_reach n m g \<Longrightarrow> add_node p g = (r, g') \<Longrightarrow> graph_reach n m g'"
| unnode: "graph_reach n m g \<Longrightarrow> remove_node p g = Some (u, g') \<Longrightarrow> graph_reach n m g'"
| edge: "graph_reach n m g \<Longrightarrow> weight_sum (cg_edges g) + unat w < 2 ^ 64 \<Longrightarrow> add_edge p q w g = (r, g') \<Longrightarrow> graph_reach n m g'"
| weight: "graph_reach n m g \<Longrightarrow> (0 \<le> sint d \<longrightarrow> weight_sum (cg_edges g) + unat d < 2 ^ 64) \<Longrightarrow>
    update_weight k d g = (u, g') \<Longrightarrow> graph_reach n m g'"
| decay: "graph_reach n m g \<Longrightarrow> decay_weights bp g = Some (c, g') \<Longrightarrow> graph_reach n m g'"

lemma graph_reach_inv:
  assumes "graph_reach n m g" "n \<le> ADJ_DIM" "m \<le> 65535"
  shows "graph_inv g"
  using assms(1)
proof (induction rule: graph_reach.induct)
  case new
  then show ?case using graph_new_inv assms by simp
next
  case (node g p r g')
  then show ?case using add_node_inv by blast
next
  case (unnode g p u g')
  then show ?case using remove_node_inv [of g p] by auto
next
  case (edge g w p q r g')
  then show ?case using add_edge_inv by blast
next
  case (weight g d k u g')
  then show ?case using update_weight_inv by blast
next
  case (decay g bp c g')
  then show ?case using decay_weights_inv [of g bp] by auto
qed

section \<open>Look-ups against scans\<close>

lemma cache_value:
  assumes "graph_inv g" "i < ADJ_DIM" "j < ADJ_DIM"
  shows "unat (cg_adj_matrix g ! i ! j) = esum (\<lambda>x y. x = i \<and> y = j) (cg_edges g)"
    "unat (cg_cached_outgoing g ! i) = esum (\<lambda>x y. x = i) (cg_edges g)"
    "unat (cg_cached_incoming g ! j) = esum (\<lambda>x y. y = j) (cg_edges g)"
  using graph_invD(5) [OF assms(1)] assms(2,3) by (simp_all add: caches_ok_def)

lemma esum_disjoint:
  assumes "\<And>x y. \<not> (P x y \<and> Q x y)"
  shows "esum P es + esum Q es = esum (\<lambda>x y. P x y \<or> Q x y) es"
  using assms by (induction es) (auto simp: contrib_def)

lemma edge_weight_between_exact:
  assumes inv: "graph_inv g" and f: "find_node a g = Some i" "find_node b g = Some j" "i \<noteq> j"
  shows "unat (edge_weight_between a b g) =
    esum (\<lambda>x y. x = unat i \<and> y = unat j \<or> x = unat j \<and> y = unat i) (cg_edges g)"
proof -
  have d: "unat i \<noteq> unat j" using f(3) by (simp add: word_unat_eq_iff)
  note s = find_node_Some(3) [OF inv f(1)] find_node_Some(3) [OF inv f(2)]
  have "esum (\<lambda>x y. x = unat i \<and> y = unat j) (cg_edges g) + esum (\<lambda>x y. x = unat j \<and> y = unat i) (cg_edges g) =
    esum (\<lambda>x y. x = unat i \<and> y = unat j \<or> x = unat j \<and> y = unat i) (cg_edges g)"
    by (rule esum_disjoint) (use d in auto)
  moreover have "esum (\<lambda>x y. x = unat i \<and> y = unat j \<or> x = unat j \<and> y = unat i) (cg_edges g) < 2 ^ 64"
    by (rule le_less_trans [OF esum_le graph_invD(6) [OF inv]])
  ultimately show ?thesis
    using f cache_value(1) [OF inv s] cache_value(1) [OF inv s(2,1)]
    by (simp add: edge_weight_between_def saturating_add_unat)
qed

lemma total_weight_exact:
  assumes inv: "graph_inv g" and f: "find_node a g = Some i"
  shows "unat (total_weight a g) =
    min (esum (\<lambda>x y. x = unat i) (cg_edges g) + esum (\<lambda>x y. y = unat i) (cg_edges g)) (2 ^ 64 - 1)"
  using f cache_value [OF inv find_node_Some(3) [OF inv f] find_node_Some(3) [OF inv f]]
  by (simp add: total_weight_def saturating_add_unat)

lemma node_list:
  assumes "graph_inv g" "find_node p g = Some i"
  obtains xs where "edge_chain (cg_edges g) (nd_first_edge (cg_nodes g ! unat i)) xs" "distinct xs"
    "set xs = out_edges (cg_edges g) (unat i)" "length xs < Suc (length (cg_edges g))" "length (cg_edges g) \<le> 65535"
    "\<forall>x\<in>set xs. ed_active (cg_edges g ! x)"
proof -
  obtain xs where xs: "edge_chain (cg_edges g) (nd_first_edge (cg_nodes g ! unat i)) xs" "distinct xs"
    "set xs = out_edges (cg_edges g) (unat i)"
    using graph_invD(4) [OF assms(1)] find_node_Some(1) [OF assms] by (auto simp: lists_ok_def list_ok_def)
  show thesis
    using that [OF xs] chain_distinct_fuel [OF xs(2,1)] graph_invD(3) [OF assms(1)] xs(3)
    by (auto simp: edges_ok_def out_edges_def)
qed

lemma neighbors_exact:
  assumes "graph_inv g" "find_node p g = Some i"
  shows "\<exists>ns. neighbors p g = Some (Some ns) \<and>
    mset ns = image_mset (\<lambda>k. (ed_to (cg_edges g ! k), ed_weight (cg_edges g ! k)))
      (mset_set (out_edges (cg_edges g) (unat i)))"
proof -
  obtain xs where xs: "edge_chain (cg_edges g) (nd_first_edge (cg_nodes g ! unat i)) xs" "distinct xs"
    "set xs = out_edges (cg_edges g) (unat i)" "length xs < Suc (length (cg_edges g))" "length (cg_edges g) \<le> 65535"
    "\<forall>x\<in>set xs. ed_active (cg_edges g ! x)"
    by (rule node_list [OF assms])
  have "neighbors p g = Some (Some (map (\<lambda>x. (ed_to (cg_edges g ! x), ed_weight (cg_edges g ! x))) xs))"
    using assms(2) neighbor_walk_chain [OF xs(5,1,4,6)] by (simp add: neighbors_def del: neighbor_walk.simps)
  moreover have "mset xs = mset_set (out_edges (cg_edges g) (unat i))"
    using xs(2,3) by (metis mset_set_set)
  ultimately show ?thesis by (simp add: mset_map)
qed

lemma find_directed_edge_exact:
  assumes inv: "graph_inv g" and f: "find_node p g = Some i" and t: "find_node q g = Some j"
  shows "\<exists>r. find_directed_edge p q g = Some r \<and>
    (case r of
       None \<Rightarrow> esum (\<lambda>x y. x = unat i \<and> y = unat j) (cg_edges g) = 0
     | Some k \<Rightarrow> unat k < length (cg_edges g) \<and> ed_active (cg_edges g ! unat k) \<and>
         ed_from (cg_edges g ! unat k) = i \<and> ed_to (cg_edges g ! unat k) = j)"
proof (cases "cg_adj_matrix g ! unat i ! unat j = 0")
  case True
  then show ?thesis
    using f t cache_value(1) [OF inv find_node_Some(3) [OF inv f] find_node_Some(3) [OF inv t]]
    by (simp add: find_directed_edge_def)
next
  case False
  let ?es = "cg_edges g"
  obtain xs where xs: "edge_chain ?es (nd_first_edge (cg_nodes g ! unat i)) xs" "distinct xs"
    "set xs = out_edges ?es (unat i)" "length xs < Suc (length ?es)" "length ?es \<le> 65535" "\<forall>x\<in>set xs. ed_active (?es ! x)"
    by (rule node_list [OF inv f])
  have run: "find_directed_edge p q g = Some (map_option of_nat (find (\<lambda>x. ed_to (?es ! x) = j) xs))"
    using f t False directed_walk_chain [OF xs(5,1,4,6)] by (simp add: find_directed_edge_def del: directed_walk.simps)
  show ?thesis
  proof (cases "find (\<lambda>x. ed_to (?es ! x) = j) xs")
    case None
    then have "\<not> (ed_active (?es ! k) \<and> unat (ed_from (?es ! k)) = unat i \<and> unat (ed_to (?es ! k)) = unat j)"
      if "k < length ?es" for k
      using that xs(3) by (auto simp: find_None_iff out_edges_def word_unat_eq_iff)
    then have "esum (\<lambda>x y. x = unat i \<and> y = unat j) ?es = 0"
      unfolding esum_zero_iff by (auto simp: contrib_def in_set_conv_nth)
    then show ?thesis using run None by simp
  next
    case (Some k)
    then have "k \<in> set xs" "ed_to (?es ! k) = j" by (auto simp: find_Some_iff)
    then have "k < length ?es" "ed_active (?es ! k)" "ed_from (?es ! k) = i" "ed_to (?es ! k) = j"
      using xs(3) by (auto simp: out_edges_def word_unat_eq_iff)
    then show ?thesis using run Some index_word(1) [OF xs(5), of k] by simp
  qed
qed

text \<open>The reference: a scan over all active edges.\<close>

definition scanned_weight :: "(u16 \<Rightarrow> u16 \<Rightarrow> bool) \<Rightarrow> coherence_graph \<Rightarrow> nat" where
  "scanned_weight Q g = sum_list (map (\<lambda>(k, a, b, w). unat w) (filter (\<lambda>(k, a, b, w). Q a b) (active_edges g)))"

lemma scanned_weight_esum:
  assumes "\<And>a b. Q a b \<longleftrightarrow> R (unat a) (unat b)"
  shows "esum R (cg_edges g) = scanned_weight Q g"
proof -
  let ?es = "cg_edges g"
  have "esum R ?es = sum_list (map (contrib R) (map (\<lambda>i. ?es ! i) [0..<length ?es]))" by (simp add: esum_def map_nth)
  also have "\<dots> = sum_list (map (\<lambda>i. if ed_active (?es ! i) \<and> Q (ed_from (?es ! i)) (ed_to (?es ! i)) then unat (ed_weight (?es ! i)) else 0)
      [0..<length ?es])"
    by (simp add: contrib_def comp_def assms)
  also have "\<dots> = sum_list (map (\<lambda>i. unat (ed_weight (?es ! i)))
      (filter (\<lambda>i. ed_active (?es ! i) \<and> Q (ed_from (?es ! i)) (ed_to (?es ! i))) [0..<length ?es]))"
    by (simp add: sum_list_map_filter')
  also have "\<dots> = scanned_weight Q g"
    by (simp add: scanned_weight_def active_edges_def Let_def filter_map comp_def conj_commute)
  finally show ?thesis .
qed

section \<open>Properties\<close>

text \<open>
  C18.  The coherence graph's fast paths are exact.  In every graph of at most 32 nodes built by the
  operations, as long as the sum of all weights fits 64 bits: the indexed node look-up equals the
  linear scan; the weight between two partitions, read from the matrix, equals a scan over the
  active edges in both directions; the neighbour iteration ends and yields every active outgoing
  edge exactly once; the directed search ends with an edge of that direction or with none only when
  none carries weight; and removing a node and decaying the weights end.
\<close>

theorem coherence_graph_exact:
  assumes "graph_reach n m g" "n \<le> ADJ_DIM" "m \<le> 65535"
  shows "find_node p g = scan_nodes p g \<and> remove_node p g \<noteq> None \<and> decay_weights bp g \<noteq> None \<and>
    (\<forall>i. find_node p g = Some i \<longrightarrow>
      (\<exists>ns. neighbors p g = Some (Some ns) \<and>
        mset ns = image_mset (\<lambda>k. (ed_to (cg_edges g ! k), ed_weight (cg_edges g ! k)))
          (mset_set (out_edges (cg_edges g) (unat i)))) \<and>
      unat (total_weight p g) = min (scanned_weight (\<lambda>a b. a = i) g + scanned_weight (\<lambda>a b. b = i) g) (2 ^ 64 - 1) \<and>
      (\<forall>j. find_node q g = Some j \<longrightarrow>
        (i \<noteq> j \<longrightarrow> unat (edge_weight_between p q g) = scanned_weight (\<lambda>a b. a = i \<and> b = j \<or> a = j \<and> b = i) g) \<and>
        (\<exists>r. find_directed_edge p q g = Some r \<and>
          (case r of
             None \<Rightarrow> scanned_weight (\<lambda>a b. a = i \<and> b = j) g = 0
           | Some k \<Rightarrow> unat k < length (cg_edges g) \<and> ed_active (cg_edges g ! unat k) \<and>
               ed_from (cg_edges g ! unat k) = i \<and> ed_to (cg_edges g ! unat k) = j))))"
proof -
  note inv = graph_reach_inv [OF assms]
  have sw: "esum (\<lambda>x y. x = unat i) (cg_edges g) = scanned_weight (\<lambda>a b. a = i) g"
    "esum (\<lambda>x y. y = unat i) (cg_edges g) = scanned_weight (\<lambda>a b. b = i) g"
    "esum (\<lambda>x y. x = unat i \<and> y = unat j) (cg_edges g) = scanned_weight (\<lambda>a b. a = i \<and> b = j) g"
    "esum (\<lambda>x y. x = unat i \<and> y = unat j \<or> x = unat j \<and> y = unat i) (cg_edges g) =
      scanned_weight (\<lambda>a b. a = i \<and> b = j \<or> a = j \<and> b = i) g" for i j :: u16
    by (rule scanned_weight_esum, simp add: word_unat_eq_iff)+
  have "remove_node p g \<noteq> None" "decay_weights bp g \<noteq> None"
    using remove_node_inv [OF inv, of p] decay_weights_inv [OF inv, of bp] by auto
  moreover have "find_node p g = scan_nodes p g" by (rule find_node_scan [OF graph_invD(1) [OF inv]])
  ultimately show ?thesis
    using neighbors_exact [OF inv, of p] total_weight_exact [OF inv, of p] edge_weight_between_exact [OF inv, of p _ q]
      find_directed_edge_exact [OF inv, of p _ q] unfolding sw by blast
qed

definition demo_graph :: coherence_graph where
  "demo_graph = snd (add_edge 1 2 7 (snd (add_node 2 (snd (add_node 1 (graph_new 2 2))))))"

lemma demo_graph_reach: "graph_reach 2 2 demo_graph"
proof -
  let ?g = "snd (add_node 2 (snd (add_node 1 (graph_new 2 2))))"
  have g: "graph_reach 2 2 ?g" by (intro graph_reach.node [OF _ surjective_pairing] graph_reach.new)
  have "cg_edges ?g = replicate 2 EMPTY_EDGE"
    by (simp add: add_node_def graph_new_def split: option.split)
  then have "weight_sum (cg_edges ?g) = 0" by (simp add: esum_inactive EMPTY_EDGE_def)
  then show ?thesis unfolding demo_graph_def
    by (intro graph_reach.edge [OF g _ surjective_pairing]) simp
qed

theorem coherence_graph_exact_witness:
  "find_node 1 demo_graph = Some 0 \<and> find_node 2 demo_graph = Some 1 \<and>
   unat (edge_weight_between 1 2 demo_graph) = scanned_weight (\<lambda>a b. a = 0 \<and> b = 1 \<or> a = 1 \<and> b = 0) demo_graph \<and>
   scanned_weight (\<lambda>a b. a = 0 \<and> b = 1) demo_graph = 7"
proof -
  have r: "replicate 2 x = [x, x]" for x :: 'a by (simp add: numeral_2_eq_2)
  note demo = demo_graph_def add_edge_def add_node_def graph_new_def find_node_def scan_nodes_def node_hash_def alloc_edge_def
    adjust_caches_def EMPTY_NODE_def EMPTY_EDGE_def NODE_INDEX_SIZE_def r Let_def
  have f: "find_node 1 demo_graph = Some 0" "find_node 2 demo_graph = Some 1" by (simp_all add: demo)
  have "scanned_weight (\<lambda>a b. a = 0 \<and> b = 1) demo_graph = 7"
    by (simp add: demo scanned_weight_def active_edges_def upt_rec)
  then show ?thesis
    using coherence_graph_exact [OF demo_graph_reach, of 1 0 2] f by (simp add: ADJ_DIM_def)
qed

end
