(* ===== verification/Min_Cut_Spec.thy ===== *)
theory Min_Cut_Spec
  imports Main
begin

text \<open>
  Cuts of a weighted graph, without reference to any representation: the weight of a cut, maximum
  adjacency orderings and why the last vertex of such an ordering is a minimum cut between the last
  two, and how cuts behave when two vertices are merged.  The algorithm of \<open>rvm-coherence\<close> is checked
  against these definitions.
\<close>

definition cutw :: "(nat \<Rightarrow> nat \<Rightarrow> nat) \<Rightarrow> nat set \<Rightarrow> nat set \<Rightarrow> nat" where
  "cutw W A B = (\<Sum>a\<in>A. \<Sum>b\<in>B. W a b)"

text \<open>The weight that crosses \<open>S\<close> inside the vertex set \<open>U\<close>.\<close>

definition crossing :: "(nat \<Rightarrow> nat \<Rightarrow> nat) \<Rightarrow> nat set \<Rightarrow> nat set \<Rightarrow> nat" where
  "crossing W S U = cutw W (U \<inter> S) (U - S)"

lemma cutw_mono:
  assumes "A \<subseteq> A'" "B \<subseteq> B'" "finite A'" "finite B'"
  shows "cutw W A B \<le> cutw W A' B'"
proof -
  have "cutw W A B \<le> (\<Sum>a\<in>A. \<Sum>b\<in>B'. W a b)"
    unfolding cutw_def using assms by (intro sum_mono sum_mono2) auto
  also have "\<dots> \<le> cutw W A' B'" unfolding cutw_def using assms by (intro sum_mono2) auto
  finally show ?thesis .
qed

lemma cutw_insert_right:
  "finite B \<Longrightarrow> v \<notin> B \<Longrightarrow> cutw W A (insert v B) = (\<Sum>a\<in>A. W a v) + cutw W A B"
  by (simp add: cutw_def sum.distrib)

lemma cutw_insert_left:
  "finite A \<Longrightarrow> v \<notin> A \<Longrightarrow> cutw W (insert v A) B = (\<Sum>b\<in>B. W v b) + cutw W A B"
  by (simp add: cutw_def)

lemma cutw_sym: "(\<And>a b. W a b = W b a) \<Longrightarrow> cutw W A B = cutw W B A"
  unfolding cutw_def by (subst sum.swap) simp

lemma crossing_insert:
  assumes "finite U" "u \<notin> U" and sym: "\<And>a b. W a b = W b a"
  shows "crossing W S (insert u U) = crossing W S U + (\<Sum>a | a \<in> U \<and> (a \<in> S) \<noteq> (u \<in> S). W a u)"
proof (cases "u \<in> S")
  case True
  then have e: "insert u U \<inter> S = insert u (U \<inter> S)" "insert u U - S = U - S" "{a. a \<in> U \<and> (a \<in> S) \<noteq> (u \<in> S)} = U - S"
    by auto
  have "crossing W S (insert u U) = (\<Sum>b\<in>U - S. W u b) + crossing W S U"
    unfolding crossing_def e using assms by (intro cutw_insert_left) auto
  then show ?thesis unfolding e using sym by (simp add: add.commute)
next
  case False
  then have e: "insert u U \<inter> S = U \<inter> S" "insert u U - S = insert u (U - S)" "{a. a \<in> U \<and> (a \<in> S) \<noteq> (u \<in> S)} = U \<inter> S"
    by auto
  have "crossing W S (insert u U) = (\<Sum>a\<in>U \<inter> S. W a u) + crossing W S U"
    unfolding crossing_def e(1,2) using assms by (intro cutw_insert_right) auto
  then show ?thesis unfolding e by simp
qed

lemma crossing_insert_ge:
  assumes "finite U" "u \<notin> U" "v \<in> U" "(v \<in> S) \<noteq> (u \<in> S)" and sym: "\<And>a b. W a b = W b a"
  shows "crossing W S U + W v u \<le> crossing W S (insert u U)"
proof -
  have "W v u \<le> (\<Sum>a | a \<in> U \<and> (a \<in> S) \<noteq> (u \<in> S). W a u)"
    using assms by (intro member_le_sum) auto
  then show ?thesis using crossing_insert [OF assms(1,2) sym] by simp
qed

text \<open>The vertex \<open>v\<close> splits \<open>{v, u}\<close> off a set that already holds \<open>u\<close>.\<close>

lemma crossing_insert_both:
  assumes "finite U" "u \<notin> U" "v \<notin> U" "v \<noteq> u" "(v \<in> S) \<noteq> (u \<in> S)" and sym: "\<And>a b. W a b = W b a"
  shows "crossing W S (insert u U) + W v u \<le> crossing W S (insert v (insert u U))"
  using crossing_insert_ge [of "insert u U" v u S W] assms by auto

section \<open>Maximum adjacency orderings\<close>

definition ma_order :: "(nat \<Rightarrow> nat \<Rightarrow> nat) \<Rightarrow> nat list \<Rightarrow> bool" where
  "ma_order W vs \<longleftrightarrow> distinct vs \<and>
     (\<forall>i j. i < j \<and> j < length vs \<longrightarrow>
        (\<Sum>a\<in>set (take i vs). W a (vs ! j)) \<le> (\<Sum>a\<in>set (take i vs). W a (vs ! i)))"

lemma ma_order_bound:
  assumes ma: "ma_order W vs" and sym: "\<And>a b. W a b = W b a"
  shows "0 < i \<Longrightarrow> i \<le> j \<Longrightarrow> j < length vs \<Longrightarrow> (vs ! (i - 1) \<in> S) \<noteq> (vs ! j \<in> S) \<Longrightarrow>
    (\<Sum>a\<in>set (take i vs). W a (vs ! j)) \<le> crossing W S (insert (vs ! j) (set (take i vs)))"
proof (induction i arbitrary: j)
  case 0
  then show ?case by simp
next
  case (Suc i)
  let ?v = "vs ! i" and ?u = "vs ! j" and ?A = "set (take i vs)"
  have d: "distinct vs" using ma by (simp add: ma_order_def)
  have il: "i < length vs" using Suc.prems by simp
  have take: "set (take (Suc i) vs) = insert ?v ?A" using il by (simp add: take_Suc_conv_app_nth)
  have notin: "vs ! k \<notin> ?A" if "i \<le> k" "k < length vs" for k
    using d that by (auto simp: in_set_conv_nth nth_eq_iff_index_eq)
  have n: "?v \<notin> ?A" "?u \<notin> ?A" "?v \<noteq> ?u"
    using notin [of i] notin [of j] Suc.prems d by (auto simp: nth_eq_iff_index_eq)
  have opp: "(?v \<in> S) \<noteq> (?u \<in> S)" using Suc.prems(4) by simp
  have sum: "(\<Sum>a\<in>insert ?v ?A. W a ?u) = (\<Sum>a\<in>?A. W a ?u) + W ?v ?u" using n by simp
  show ?case
  proof (cases "i = 0 \<or> (vs ! (i - 1) \<in> S) \<noteq> (?u \<in> S)")
    case True
    have "(\<Sum>a\<in>?A. W a ?u) \<le> crossing W S (insert ?u ?A)"
      using True Suc.IH [of j] Suc.prems by (cases "i = 0") auto
    moreover have "crossing W S (insert ?u ?A) + W ?v ?u \<le> crossing W S (insert ?v (insert ?u ?A))"
      using n opp sym by (intro crossing_insert_both) auto
    ultimately show ?thesis unfolding take sum insert_commute [of ?u ?v] by linarith
  next
    case False
    then have "0 < i" "(vs ! (i - 1) \<in> S) \<noteq> (?v \<in> S)" using opp by auto
    then have "(\<Sum>a\<in>?A. W a ?v) \<le> crossing W S (insert ?v ?A)" using Suc.IH [of i] il by simp
    moreover have "(\<Sum>a\<in>?A. W a ?u) \<le> (\<Sum>a\<in>?A. W a ?v)" using ma Suc.prems by (simp add: ma_order_def)
    moreover have "crossing W S (insert ?v ?A) + W ?v ?u \<le> crossing W S (insert ?u (insert ?v ?A))"
      using n opp sym by (intro crossing_insert_ge) auto
    ultimately show ?thesis unfolding take sum by linarith
  qed
qed

text \<open>The cut of the phase is a minimum cut between the last two vertices.\<close>

lemma ma_order_cut:
  assumes "ma_order W (vs @ [s, t])" "\<And>a b. W a b = W b a" "(s \<in> S) \<noteq> (t \<in> S)"
  shows "(\<Sum>a\<in>insert s (set vs). W a t) \<le> crossing W S (insert t (insert s (set vs)))"
  using ma_order_bound [OF assms(1,2), of "Suc (length vs)" "Suc (length vs)" S] assms(3)
  by (simp add: nth_append)

section \<open>Groups of merged vertices\<close>

text \<open>\<open>G a\<close> is the set of original vertices that the vertex \<open>a\<close> of the contracted graph stands for.\<close>

definition group_union :: "(nat \<Rightarrow> nat set) \<Rightarrow> nat set \<Rightarrow> nat set" where
  "group_union G A = (\<Union>a\<in>A. G a)"

lemma cutw_groups:
  assumes "finite A" "finite B" "\<And>a. a \<in> A \<union> B \<Longrightarrow> finite (G a)"
    and "\<And>a b. a \<in> A \<union> B \<Longrightarrow> b \<in> A \<union> B \<Longrightarrow> a \<noteq> b \<Longrightarrow> G a \<inter> G b = {}"
    and "\<And>a b. a \<in> A \<Longrightarrow> b \<in> B \<Longrightarrow> W a b = cutw W0 (G a) (G b)"
  shows "cutw W A B = cutw W0 (group_union G A) (group_union G B)"
proof -
  have "cutw W A B = (\<Sum>a\<in>A. \<Sum>b\<in>B. \<Sum>x\<in>G a. \<Sum>y\<in>G b. W0 x y)"
    unfolding cutw_def using assms(5) by (intro sum.cong refl) (simp add: cutw_def)
  also have "\<dots> = (\<Sum>a\<in>A. \<Sum>x\<in>G a. \<Sum>b\<in>B. \<Sum>y\<in>G b. W0 x y)"
    by (rule sum.cong [OF refl], rule sum.swap)
  also have "\<dots> = (\<Sum>a\<in>A. \<Sum>x\<in>G a. \<Sum>y\<in>group_union G B. W0 x y)"
    unfolding group_union_def using assms by (intro sum.cong refl sum.UNION_disjoint [symmetric]) auto
  also have "\<dots> = cutw W0 (group_union G A) (group_union G B)"
    unfolding cutw_def group_union_def using assms by (intro sum.UNION_disjoint [symmetric]) auto
  finally show ?thesis .
qed

end
