(* ===== verification/Coh_Mincut.thy ===== *)
theory Coh_Mincut
  imports Coh_Graph Min_Cut_Spec
begin

text \<open>
  Crate \<open>rvm-coherence\<close>, file \<open>mincut.rs\<close>: the budgeted minimum cut of the neighbourhood of a
  partition.  Each phase orders the active nodes by maximum adjacency and merges the last two; the
  arrays of 32 entries are lists, and the loop that runs while more than one node is active is a
  recursion on the number of active nodes.
\<close>

section \<open>Data\<close>

definition MINCUT_MAX_NODES :: nat where "MINCUT_MAX_NODES = 32"

record min_cut_result =
  mc_left :: "partition_id option list"
  mc_left_count :: u16
  mc_right :: "partition_id option list"
  mc_right_count :: u16
  mc_cut_weight :: u64
  mc_within_budget :: bool

definition mincut_empty :: min_cut_result where
  "mincut_empty =
     \<lparr>mc_left = replicate MINCUT_MAX_NODES None, mc_left_count = 0, mc_right = replicate MINCUT_MAX_NODES None,
      mc_right_count = 0, mc_cut_weight = 0, mc_within_budget = True\<rparr>"

record min_cut_bridge =
  mb_last_known_cut :: min_cut_result
  mb_epoch :: u32
  mb_budget_exceeded_count :: u32
  mb_compute_count :: u32
  mb_max_iterations :: u32

definition bridge_new :: "u32 \<Rightarrow> min_cut_bridge" where
  "bridge_new max_iterations =
     \<lparr>mb_last_known_cut = mincut_empty, mb_epoch = 0, mb_budget_exceeded_count = 0, mb_compute_count = 0,
      mb_max_iterations = max_iterations\<rparr>"

definition bridge_advance_epoch :: "min_cut_bridge \<Rightarrow> min_cut_bridge" where
  "bridge_advance_epoch b = b\<lparr>mb_epoch := mb_epoch b + 1\<rparr>"

section \<open>One phase\<close>

text \<open>The search for the most tightly connected node outside \<open>A\<close>.\<close>

definition tightest :: "bool list \<Rightarrow> bool list \<Rightarrow> u64 list \<Rightarrow> nat \<Rightarrow> u64 \<times> nat \<times> bool" where
  "tightest active in_a key n =
     foldl (\<lambda>(max_key, max_node, found) i.
        if active ! i \<and> \<not> in_a ! i \<and> (key ! i > max_key \<or> \<not> found) then (key ! i, i, True)
        else (max_key, max_node, found)) (0, 0, False) [0..<n]"

definition add_keys :: "u64 list list \<Rightarrow> bool list \<Rightarrow> bool list \<Rightarrow> nat \<Rightarrow> nat \<Rightarrow> u64 list \<Rightarrow> u64 list" where
  "add_keys w active in_a n max_node key =
     foldl (\<lambda>key i. if active ! i \<and> \<not> in_a ! i then key[i := saturating_add (key ! i) (w ! max_node ! i)] else key)
       key [0..<n]"

type_synonym phase_state = "bool list \<times> u64 list \<times> nat \<times> nat"

definition phase_step :: "u64 list list \<Rightarrow> bool list \<Rightarrow> nat \<Rightarrow> phase_state \<Rightarrow> phase_state" where
  "phase_step w active n st =
     (case st of (in_a, key, second_to_last, lst) \<Rightarrow>
        let max_node = fst (snd (tightest active in_a key n));
            in_a = in_a[max_node := True]
        in (in_a, add_keys w active in_a n max_node key, lst, max_node))"

definition phase_init :: "u64 list list \<Rightarrow> bool list \<Rightarrow> nat \<Rightarrow> phase_state" where
  "phase_init w active n =
     (let start = (case find (\<lambda>i. active ! i) [0..<n] of Some i \<Rightarrow> i | None \<Rightarrow> 0);
          in_a = (replicate MINCUT_MAX_NODES False)[start := True];
          key = foldl (\<lambda>key i. if active ! i \<and> \<not> in_a ! i then key[i := w ! start ! i] else key)
                  (replicate MINCUT_MAX_NODES 0) [0..<n]
      in (in_a, key, 0, start))"

definition minimum_cut_phase :: "u64 list list \<Rightarrow> bool list \<Rightarrow> nat \<Rightarrow> nat \<Rightarrow> nat \<times> nat \<times> u64" where
  "minimum_cut_phase w active active_count n =
     (case (phase_step w active n ^^ (active_count - 1)) (phase_init w active n) of
        (in_a, key, second_to_last, lst) \<Rightarrow> (second_to_last, lst, key ! lst))"

section \<open>The phases\<close>

definition build_result ::
    "(u16 \<times> partition_id) option list \<Rightarrow> bool list list \<Rightarrow> nat \<Rightarrow> nat \<Rightarrow> min_cut_result" where
  "build_result sub_nodes groups cut_node n =
     foldl (\<lambda>r i.
        case sub_nodes ! i of
          None \<Rightarrow> r
        | Some (_, pid) \<Rightarrow>
            if groups ! cut_node ! i then
              if unat (mc_left_count r) < MINCUT_MAX_NODES
              then r\<lparr>mc_left := (mc_left r)[unat (mc_left_count r) := Some pid], mc_left_count := mc_left_count r + 1\<rparr>
              else r
            else
              if unat (mc_right_count r) < MINCUT_MAX_NODES
              then r\<lparr>mc_right := (mc_right r)[unat (mc_right_count r) := Some pid], mc_right_count := mc_right_count r + 1\<rparr>
              else r)
       mincut_empty [0..<n]"

definition merge_weights :: "bool list \<Rightarrow> nat \<Rightarrow> nat \<Rightarrow> nat \<Rightarrow> u64 list list \<Rightarrow> u64 list list" where
  "merge_weights active n s t w =
     foldl (\<lambda>w i.
        if active ! i \<and> i \<noteq> s \<and> i \<noteq> t then
          let w = w[s := (w ! s)[i := saturating_add (w ! s ! i) (w ! t ! i)]]
          in w[i := (w ! i)[s := saturating_add (w ! i ! s) (w ! i ! t)]]
        else w) w [0..<n]"

definition merge_groups :: "nat \<Rightarrow> nat \<Rightarrow> nat \<Rightarrow> bool list list \<Rightarrow> bool list list" where
  "merge_groups n s t groups =
     foldl (\<lambda>groups i. if groups ! t ! i then groups[s := (groups ! s)[i := True]] else groups) groups [0..<n]"

record sw_state =
  sw_w :: "u64 list list"
  sw_groups :: "bool list list"
  sw_active :: "bool list"
  sw_best_cut_weight :: u64
  sw_best_cut_node :: nat
  sw_iteration_count :: u32

definition sw_phase :: "nat \<Rightarrow> nat \<Rightarrow> sw_state \<Rightarrow> sw_state" where
  "sw_phase active_count n st =
     (case minimum_cut_phase (sw_w st) (sw_active st) active_count n of
        (s, t, cut_of_phase) \<Rightarrow>
          st\<lparr>sw_best_cut_weight := (if cut_of_phase < sw_best_cut_weight st then cut_of_phase else sw_best_cut_weight st),
             sw_best_cut_node := (if cut_of_phase < sw_best_cut_weight st then t else sw_best_cut_node st),
             sw_w := merge_weights (sw_active st) n s t (sw_w st),
             sw_groups := merge_groups n s t (sw_groups st),
             sw_active := (sw_active st)[t := False],
             sw_iteration_count := sw_iteration_count st + 1\<rparr>)"

text \<open>\<open>Inl\<close> is the state at which the budget ran out, \<open>Inr\<close> the state after the last phase.\<close>

fun sw_loop :: "nat \<Rightarrow> u32 \<Rightarrow> nat \<Rightarrow> sw_state \<Rightarrow> sw_state + sw_state" where
  "sw_loop n max_iterations active_count st =
     (if active_count > 1 then
        if sw_iteration_count st \<ge> max_iterations then Inl st
        else sw_loop n max_iterations (active_count - 1) (sw_phase active_count n st)
      else Inr st)"

declare sw_loop.simps [simp del]

definition sw_init :: "u64 list list \<Rightarrow> nat \<Rightarrow> sw_state" where
  "sw_init adj n =
     \<lparr>sw_w = map (\<lambda>i. map (\<lambda>j. if i < n \<and> j < n then adj ! i ! j else 0) [0..<MINCUT_MAX_NODES]) [0..<MINCUT_MAX_NODES],
      sw_groups = map (\<lambda>i. map (\<lambda>j. i = j \<and> i < n) [0..<MINCUT_MAX_NODES]) [0..<MINCUT_MAX_NODES],
      sw_active = map (\<lambda>i. i < n) [0..<MINCUT_MAX_NODES],
      sw_best_cut_weight = U64_MAX, sw_best_cut_node = 0, sw_iteration_count = 0\<rparr>"

definition sw_result :: "(u16 \<times> partition_id) option list \<Rightarrow> nat \<Rightarrow> bool \<Rightarrow> sw_state \<Rightarrow> min_cut_result" where
  "sw_result sub_nodes n within st =
     (build_result sub_nodes (sw_groups st) (sw_best_cut_node st) n)
       \<lparr>mc_cut_weight := sw_best_cut_weight st, mc_within_budget := within\<rparr>"

definition stoer_wagner_mincut ::
    "u64 list list \<Rightarrow> nat \<Rightarrow> (u16 \<times> partition_id) option list \<Rightarrow> u32 \<Rightarrow> min_cut_result + min_cut_result" where
  "stoer_wagner_mincut adj n sub_nodes max_iterations =
     (if n < 2 then Inr mincut_empty
      else case sw_loop n max_iterations n (sw_init adj n) of
        Inl st \<Rightarrow> Inl (sw_result sub_nodes n False st)
      | Inr st \<Rightarrow> Inr (sw_result sub_nodes n True st))"

section \<open>The local subgraph\<close>

text \<open>The nodes found so far are a list of at most 32 entries; a full list or a repeated node adds nothing.\<close>

fun add_sub_nodes :: "coherence_graph \<Rightarrow> u16 list \<Rightarrow> (u16 \<times> partition_id) list \<Rightarrow> (u16 \<times> partition_id) list" where
  "add_sub_nodes g [] sub = sub"
| "add_sub_nodes g (idx # rest) sub =
     (if length sub \<ge> MINCUT_MAX_NODES then sub
      else case partition_at idx g of
        None \<Rightarrow> add_sub_nodes g rest sub
      | Some pid \<Rightarrow>
          if idx \<in> fst ` set sub then add_sub_nodes g rest sub
          else add_sub_nodes g rest (sub @ [(idx, pid)]))"

definition local_nodes :: "coherence_graph \<Rightarrow> partition_id \<Rightarrow> (u16 \<times> partition_id) list option" where
  "local_nodes g p =
     (case find_node p g of
        None \<Rightarrow> Some []
      | Some root_idx \<Rightarrow>
          (case neighbors p g of
             None \<Rightarrow> None
           | Some ns \<Rightarrow>
               let sub = add_sub_nodes g (case ns of None \<Rightarrow> [] | Some l \<Rightarrow> map fst l) [(root_idx, p)];
                   incoming = map (\<lambda>(k, from, to, w). from) (filter (\<lambda>(k, from, to, w). to = root_idx) (active_edges g))
               in Some (add_sub_nodes g incoming sub)))"

definition local_adj :: "coherence_graph \<Rightarrow> (u16 \<times> partition_id) list \<Rightarrow> u64 list list" where
  "local_adj g sub =
     map (\<lambda>i. map (\<lambda>j.
        if i < length sub \<and> j < length sub \<and> i \<noteq> j then
          (case (partition_at (fst (sub ! i)) g, partition_at (fst (sub ! j)) g) of
             (Some pi, Some pj) \<Rightarrow> edge_weight_between pi pj g | _ \<Rightarrow> 0)
        else 0) [0..<MINCUT_MAX_NODES]) [0..<MINCUT_MAX_NODES]"

definition find_min_cut ::
    "coherence_graph \<Rightarrow> partition_id \<Rightarrow> min_cut_bridge \<Rightarrow> (min_cut_result \<times> min_cut_bridge) option" where
  "find_min_cut g p b =
     (let b = bridge_advance_epoch b in
      case local_nodes g p of
        None \<Rightarrow> None
      | Some sub \<Rightarrow>
          if length sub < 2 then
            let res = (case sub of
                  [(_, pid)] \<Rightarrow> mincut_empty\<lparr>mc_left := (mc_left mincut_empty)[0 := Some pid], mc_left_count := 1\<rparr>
                | _ \<Rightarrow> mincut_empty)
            in Some (res, b\<lparr>mb_last_known_cut := res, mb_compute_count := mb_compute_count b + 1\<rparr>)
          else
            let sub_nodes = map Some sub @ replicate (MINCUT_MAX_NODES - length sub) None in
            (case stoer_wagner_mincut (local_adj g sub) (length sub) sub_nodes (mb_max_iterations b) of
               Inr res \<Rightarrow> Some (res, b\<lparr>mb_last_known_cut := res, mb_compute_count := mb_compute_count b + 1\<rparr>)
             | Inl partial \<Rightarrow>
                 let res = partial\<lparr>mc_within_budget := False\<rparr>
                 in Some (res, b\<lparr>mb_last_known_cut := res, mb_budget_exceeded_count := mb_budget_exceeded_count b + 1\<rparr>)))"

section \<open>Loops over an index range\<close>

lemma foldl_update_nth:
  assumes "n \<le> length xs"
  shows "length (foldl (\<lambda>xs i. if P i then xs[i := f i (xs ! i)] else xs) xs [0..<n]) = length xs \<and>
    (\<forall>j. foldl (\<lambda>xs i. if P i then xs[i := f i (xs ! i)] else xs) xs [0..<n] ! j =
      (if j < n \<and> P j then f j (xs ! j) else xs ! j))"
  using assms
proof (induction n)
  case (Suc n)
  then show ?case by (auto simp: nth_list_update less_Suc_eq)
qed simp

lemma add_keys_nth:
  assumes "n \<le> length key"
  shows "length (add_keys w active in_a n m key) = length key"
    "add_keys w active in_a n m key ! j =
      (if j < n \<and> active ! j \<and> \<not> in_a ! j then saturating_add (key ! j) (w ! m ! j) else key ! j)"
  unfolding add_keys_def
  using foldl_update_nth [OF assms, of "\<lambda>i. active ! i \<and> \<not> in_a ! i" "\<lambda>i k. saturating_add k (w ! m ! i)"] by auto

definition open_nodes :: "bool list \<Rightarrow> bool list \<Rightarrow> nat \<Rightarrow> nat set" where
  "open_nodes active in_a n = {i. i < n \<and> active ! i \<and> \<not> in_a ! i}"

lemma tightest_spec:
  "case tightest active in_a key n of (k, m, found) \<Rightarrow>
     found = (open_nodes active in_a n \<noteq> {}) \<and>
     (found \<longrightarrow> m \<in> open_nodes active in_a n \<and> k = key ! m \<and> (\<forall>i\<in>open_nodes active in_a n. key ! i \<le> key ! m))"
proof (induction n)
  case 0
  then show ?case by (simp add: tightest_def open_nodes_def)
next
  case (Suc n)
  obtain k m found where t: "tightest active in_a key n = (k, m, found)" by (cases "tightest active in_a key n") auto
  have step: "tightest active in_a key (Suc n) =
      (if active ! n \<and> \<not> in_a ! n \<and> (key ! n > k \<or> \<not> found) then (key ! n, n, True) else (k, m, found))"
    using t by (simp add: tightest_def)
  have on: "open_nodes active in_a (Suc n) =
      (if active ! n \<and> \<not> in_a ! n then insert n (open_nodes active in_a n) else open_nodes active in_a n)"
    by (auto simp: open_nodes_def less_Suc_eq)
  show ?case
  proof (cases "active ! n \<and> \<not> in_a ! n")
    case True
    then show ?thesis using Suc.IH t unfolding step on by auto
  next
    case False
    then show ?thesis using Suc.IH t unfolding step on by auto
  qed
qed

lemma merge_groups_nth:
  assumes "s \<noteq> t" "s < length gs" "n \<le> length (gs ! s)"
  shows "length (merge_groups n s t gs) = length gs \<and> length (merge_groups n s t gs ! s) = length (gs ! s) \<and>
    (\<forall>a. a \<noteq> s \<longrightarrow> merge_groups n s t gs ! a = gs ! a) \<and>
    (\<forall>i. merge_groups n s t gs ! s ! i = (gs ! s ! i \<or> i < n \<and> gs ! t ! i))"
  using assms
proof (induction n)
  case 0
  then show ?case by (simp add: merge_groups_def)
next
  case (Suc n)
  let ?g = "merge_groups n s t gs"
  have IH: "length ?g = length gs" "length (?g ! s) = length (gs ! s)" "\<And>a. a \<noteq> s \<Longrightarrow> ?g ! a = gs ! a"
    "\<And>i. ?g ! s ! i = (gs ! s ! i \<or> i < n \<and> gs ! t ! i)"
    using Suc by auto
  have step: "merge_groups (Suc n) s t gs = (if gs ! t ! n then ?g[s := (?g ! s)[n := True]] else ?g)"
    using IH(3) [of t] Suc.prems(1) by (simp add: merge_groups_def)
  show ?case
  proof (cases "gs ! t ! n")
    case True
    then show ?thesis using IH Suc.prems unfolding step by (auto simp: nth_list_update less_Suc_eq)
  next
    case False
    then show ?thesis using IH unfolding step by (auto simp: less_Suc_eq)
  qed
qed

definition square :: "'a list list \<Rightarrow> nat \<Rightarrow> bool" where
  "square m d \<longleftrightarrow> length m = d \<and> (\<forall>i<d. length (m ! i) = d)"

lemma square_update: "square m d \<Longrightarrow> square (m[i := (m ! i)[j := x]]) d"
  by (cases "i < length m") (auto simp: square_def nth_list_update list_update_beyond)

lemma square_update_nth:
  assumes "square m d" "i < d" "j < d" "a < d" "b < d"
  shows "m[i := (m ! i)[j := x]] ! a ! b = (if a = i \<and> b = j then x else m ! a ! b)"
  using assms by (auto simp: square_def nth_list_update)

lemma merge_weights_nth:
  assumes sq: "square w d" and n: "n \<le> d" and st: "s \<noteq> t" "s < d" "t < d"
  shows "square (merge_weights active n s t w) d \<and>
    (\<forall>a<d. \<forall>b<d. merge_weights active n s t w ! a ! b =
      (if a = s \<and> b < n \<and> active ! b \<and> b \<noteq> s \<and> b \<noteq> t then saturating_add (w ! s ! b) (w ! t ! b)
       else if b = s \<and> a < n \<and> active ! a \<and> a \<noteq> s \<and> a \<noteq> t then saturating_add (w ! a ! s) (w ! a ! t)
       else w ! a ! b))"
  using n
proof (induction n)
  case 0
  then show ?case using sq by (simp add: merge_weights_def)
next
  case (Suc n)
  let ?w = "merge_weights active n s t w"
  have n: "n < d" using Suc.prems by simp
  have IH: "square ?w d" "\<And>a b. a < d \<Longrightarrow> b < d \<Longrightarrow> ?w ! a ! b =
      (if a = s \<and> b < n \<and> active ! b \<and> b \<noteq> s \<and> b \<noteq> t then saturating_add (w ! s ! b) (w ! t ! b)
       else if b = s \<and> a < n \<and> active ! a \<and> a \<noteq> s \<and> a \<noteq> t then saturating_add (w ! a ! s) (w ! a ! t)
       else w ! a ! b)"
    using Suc by auto
  show ?case
  proof (cases "active ! n \<and> n \<noteq> s \<and> n \<noteq> t")
    case False
    have step: "merge_weights active (Suc n) s t w = ?w" using False by (auto simp: merge_weights_def)
    have "x < Suc n \<and> active ! x \<and> x \<noteq> s \<and> x \<noteq> t \<longleftrightarrow> x < n \<and> active ! x \<and> x \<noteq> s \<and> x \<noteq> t" for x
      using False by (auto simp: less_Suc_eq)
    then show ?thesis using IH unfolding step by simp
  next
    case True
    let ?w1 = "?w[s := (?w ! s)[n := saturating_add (?w ! s ! n) (?w ! t ! n)]]"
    have step: "merge_weights active (Suc n) s t w = ?w1[n := (?w1 ! n)[s := saturating_add (?w1 ! n ! s) (?w1 ! n ! t)]]"
      using True by (simp add: merge_weights_def Let_def)
    note sq1 = square_update [OF IH(1), of s n "saturating_add (?w ! s ! n) (?w ! t ! n)"]
    have w1: "?w1 ! a ! b = (if a = s \<and> b = n then saturating_add (w ! s ! n) (w ! t ! n) else ?w ! a ! b)"
      if "a < d" "b < d" for a b
      using square_update_nth [OF IH(1) st(2) n that] IH(2) [OF st(2) n] IH(2) [OF st(3) n] True st by auto
    have e: "?w1 ! n ! s = w ! n ! s" "?w1 ! n ! t = w ! n ! t"
      using w1 [OF n st(2)] w1 [OF n st(3)] IH(2) [OF n st(2)] IH(2) [OF n st(3)] True st by auto
    have "merge_weights active (Suc n) s t w ! a ! b =
      (if a = s \<and> b < Suc n \<and> active ! b \<and> b \<noteq> s \<and> b \<noteq> t then saturating_add (w ! s ! b) (w ! t ! b)
       else if b = s \<and> a < Suc n \<and> active ! a \<and> a \<noteq> s \<and> a \<noteq> t then saturating_add (w ! a ! s) (w ! a ! t)
       else w ! a ! b)" if ab: "a < d" "b < d" for a b
      unfolding step using square_update_nth [OF sq1 n st(2) ab] w1 [OF ab] IH(2) [OF ab] e True
      by (auto simp: less_Suc_eq)
    then show ?thesis unfolding step using square_update [OF sq1] by simp
  qed
qed

end
