(* ===== verification/Coh_Mincut_Proofs.thy ===== *)
theory Coh_Mincut_Proofs
  imports Coh_Mincut
begin

text \<open>
  The minimum cut computed by \<open>mincut.rs\<close> is exact.  A phase is shown to produce a maximum adjacency
  ordering of the active nodes, the merged nodes are groups of original nodes, and the loop keeps the
  property that every cut is at least the best one so far or splits no group.
\<close>

section \<open>A phase\<close>

definition active_set :: "bool list \<Rightarrow> nat \<Rightarrow> nat set" where
  "active_set active n = {i. i < n \<and> active ! i}"

text \<open>The weights between active nodes, and nothing else.\<close>

definition weights :: "u64 list list \<Rightarrow> nat set \<Rightarrow> nat \<Rightarrow> nat \<Rightarrow> nat" where
  "weights w V a b = (if a \<in> V \<and> b \<in> V \<and> a \<noteq> b then unat (w ! a ! b) else 0)"

definition phase_inv :: "u64 list list \<Rightarrow> bool list \<Rightarrow> nat \<Rightarrow> nat list \<Rightarrow> phase_state \<Rightarrow> bool" where
  "phase_inv w active n vs st \<longleftrightarrow>
     (case st of (in_a, key, second, lst) \<Rightarrow>
        let V = active_set active n; W = weights w V in
        length in_a = MINCUT_MAX_NODES \<and> length key = MINCUT_MAX_NODES \<and>
        vs \<noteq> [] \<and> distinct vs \<and> set vs \<subseteq> V \<and> lst = last vs \<and>
        (\<forall>i<MINCUT_MAX_NODES. in_a ! i = (i \<in> set vs)) \<and>
        (\<forall>i\<in>V - set vs. unat (key ! i) = (\<Sum>a\<in>set vs. W a i)) \<and>
        (length vs > 1 \<longrightarrow> second = last (butlast vs) \<and> unat (key ! lst) = (\<Sum>a\<in>set (butlast vs). W a lst)) \<and>
        (\<forall>i u. i < length vs \<and> u \<in> V - set (take i vs) \<longrightarrow>
           (\<Sum>a\<in>set (take i vs). W a u) \<le> (\<Sum>a\<in>set (take i vs). W a (vs ! i))))"

lemma phase_init_inv:
  assumes "n \<le> MINCUT_MAX_NODES" "active_set active n \<noteq> {}"
  shows "\<exists>v. phase_inv w active n [v] (phase_init w active n)"
proof -
  have "find (\<lambda>i. active ! i) [0..<n] \<noteq> None" using assms(2) by (auto simp: find_None_iff active_set_def)
  then obtain v where v: "find (\<lambda>i. active ! i) [0..<n] = Some v" by auto
  then obtain k where k: "k < length [0..<n]" "active ! ([0..<n] ! k)" "v = [0..<n] ! k"
    by (auto simp: find_Some_iff)
  then have vV: "v \<in> active_set active n" by (simp add: active_set_def)
  let ?a = "(replicate MINCUT_MAX_NODES False)[v := True]"
  have in_a: "?a ! i = (i = v)" if "i < MINCUT_MAX_NODES" for i
    using that by (cases "i = v") auto
  note key = foldl_update_nth [of n "replicate MINCUT_MAX_NODES (0 :: u64)" "\<lambda>i. active ! i \<and> \<not> ?a ! i" "\<lambda>i _. w ! v ! i"]
  show ?thesis
    using vV assms(1) in_a key
    by (intro exI [of _ v]) (auto simp: phase_inv_def phase_init_def v Let_def weights_def active_set_def)
qed

lemma phase_step_inv:
  assumes n: "n \<le> MINCUT_MAX_NODES" and inv: "phase_inv w active n vs st" and more: "set vs \<subset> active_set active n"
    and fits: "\<And>i. i \<in> active_set active n \<Longrightarrow> (\<Sum>a\<in>active_set active n. weights w (active_set active n) a i) < 2 ^ 64"
  shows "\<exists>m. phase_inv w active n (vs @ [m]) (phase_step w active n st)"
proof -
  obtain in_a key second lst where st: "st = (in_a, key, second, lst)" by (cases st) auto
  let ?V = "active_set active n"
  let ?W = "weights w ?V"
  have I: "length in_a = MINCUT_MAX_NODES" "length key = MINCUT_MAX_NODES" "vs \<noteq> []" "distinct vs" "set vs \<subseteq> ?V"
    "\<And>i. i < MINCUT_MAX_NODES \<Longrightarrow> in_a ! i = (i \<in> set vs)"
    "\<And>i. i \<in> ?V - set vs \<Longrightarrow> unat (key ! i) = (\<Sum>a\<in>set vs. ?W a i)" "lst = last vs"
    "\<And>i u. i < length vs \<Longrightarrow> u \<in> ?V - set (take i vs) \<Longrightarrow>
       (\<Sum>a\<in>set (take i vs). ?W a u) \<le> (\<Sum>a\<in>set (take i vs). ?W a (vs ! i))"
    using inv unfolding phase_inv_def st Let_def by auto
  have open_: "open_nodes active in_a n = ?V - set vs"
    using I(6) n by (auto simp: open_nodes_def active_set_def)
  define m where "m = fst (snd (tightest active in_a key n))"
  have m: "m \<in> ?V - set vs" "\<And>i. i \<in> ?V - set vs \<Longrightarrow> key ! i \<le> key ! m"
    using tightest_spec [where active = active and in_a = in_a and key = key and n = n] more unfolding open_ m_def by (auto split: prod.splits)
  have m32: "m < MINCUT_MAX_NODES" using m(1) n by (auto simp: active_set_def)
  let ?a = "in_a[m := True]"
  have in_a: "?a ! i = (i \<in> set (vs @ [m]))" if "i < MINCUT_MAX_NODES" for i
    using I(1,6) that m32 by (auto simp: nth_list_update)
  note keys = add_keys_nth [where n = n and key = key and w = w and active = active and in_a = ?a and m = m]
  have nk: "n \<le> length key" using n I(2) by simp
  have keyv: "unat (add_keys w active ?a n m key ! i) = (\<Sum>a\<in>set (vs @ [m]). ?W a i)" if i: "i \<in> ?V - set (vs @ [m])" for i
  proof -
    have "i < n" "active ! i" using i by (auto simp: active_set_def)
    moreover from this have "\<not> ?a ! i" using in_a [of i] i n by simp
    ultimately have "i < n" "active ! i" "\<not> ?a ! i" by auto
    then have e: "add_keys w active ?a n m key ! i = saturating_add (key ! i) (w ! m ! i)" using keys [OF nk] by simp
    have s: "(\<Sum>a\<in>set (vs @ [m]). ?W a i) = unat (key ! i) + unat (w ! m ! i)"
      using I(7) [of i] i m(1) by (auto simp: weights_def)
    have "(\<Sum>a\<in>set (vs @ [m]). ?W a i) \<le> (\<Sum>a\<in>?V. ?W a i)"
      using I(5) m(1) by (intro sum_mono2) (auto simp: active_set_def)
    also have "\<dots> < 2 ^ 64" using fits i by auto
    finally show ?thesis unfolding e s by (simp add: saturating_add_unat)
  qed
  have "\<not> (m < n \<and> active ! m \<and> \<not> ?a ! m)" using in_a [OF m32] by simp
  then have keym: "add_keys w active ?a n m key ! m = key ! m" by (metis keys(2) [OF nk])
  have ma: "(\<Sum>a\<in>set (take i (vs @ [m])). ?W a u) \<le> (\<Sum>a\<in>set (take i (vs @ [m])). ?W a ((vs @ [m]) ! i))"
    if "i < length (vs @ [m])" "u \<in> ?V - set (take i (vs @ [m]))" for i u
  proof (cases "i < length vs")
    case True
    then show ?thesis using I(9) [of i u] that by (simp add: nth_append)
  next
    case False
    then have "i = length vs" using that by simp
    moreover have u: "u \<in> ?V - set vs" using that \<open>i = length vs\<close> by simp
    moreover have "unat (key ! u) \<le> unat (key ! m)" using m(2) [OF u] by (simp add: word_le_nat_alt)
    ultimately show ?thesis using I(7) [OF u] I(7) [OF m(1)] by simp
  qed
  have "phase_inv w active n (vs @ [m]) (phase_step w active n st)"
    unfolding st phase_step_def
    using I(1-5,8) m(1) in_a keyv keym ma keys [OF nk] I(7) [OF m(1)]
    by (simp add: phase_inv_def Let_def m_def [symmetric])
  then show ?thesis by blast
qed

lemma phase_steps_inv:
  assumes n: "n \<le> MINCUT_MAX_NODES" and k: "k < card (active_set active n)"
    and fits: "\<And>i. i \<in> active_set active n \<Longrightarrow> (\<Sum>a\<in>active_set active n. weights w (active_set active n) a i) < 2 ^ 64"
  shows "\<exists>vs. phase_inv w active n vs ((phase_step w active n ^^ k) (phase_init w active n)) \<and> length vs = Suc k"
  using k
proof (induction k)
  case 0
  then have "active_set active n \<noteq> {}" by auto
  with phase_init_inv [OF n] show ?case by fastforce
next
  case (Suc k)
  then obtain vs where vs: "phase_inv w active n vs ((phase_step w active n ^^ k) (phase_init w active n))" "length vs = Suc k"
    by auto
  have d: "distinct vs" "set vs \<subseteq> active_set active n" using vs(1) by (auto simp: phase_inv_def Let_def split: prod.splits)
  have "card (set vs) < card (active_set active n)" using d(1) vs(2) Suc.prems by (simp add: distinct_card)
  then have "set vs \<subset> active_set active n" using d(2) by auto
  from phase_step_inv [OF n vs(1) this fits] vs(2) show ?case by fastforce
qed

text \<open>The phase returns two active nodes and the weight between the last one and all others, and no
  cut that separates the two is lighter.\<close>

lemma minimum_cut_phase_spec:
  assumes n: "n \<le> MINCUT_MAX_NODES" and c: "card (active_set active n) = c" "2 \<le> c"
    and fits: "\<And>i. i \<in> active_set active n \<Longrightarrow> (\<Sum>a\<in>active_set active n. weights w (active_set active n) a i) < 2 ^ 64"
    and sym: "\<And>a b. weights w (active_set active n) a b = weights w (active_set active n) b a"
    and run: "minimum_cut_phase w active c n = (s, t, cop)"
  defines "V \<equiv> active_set active n"
  defines "W \<equiv> weights w V"
  shows "s \<in> V \<and> t \<in> V \<and> s \<noteq> t \<and> unat cop = cutw W (V - {t}) {t} \<and>
    (\<forall>S. (s \<in> S) \<noteq> (t \<in> S) \<longrightarrow> unat cop \<le> crossing W S V)"
proof -
  obtain vs in_a key where vs: "phase_inv w active n vs (in_a, key, s, t)" "length vs = c" "cop = key ! t"
    using phase_steps_inv [OF n _ fits, of "c - 1"] c run
    by (auto simp: minimum_cut_phase_def split: prod.splits)
  have P: "distinct vs" "set vs \<subseteq> V" "t = last vs" "s = last (butlast vs)" "unat (key ! t) = (\<Sum>a\<in>set (butlast vs). W a t)"
    "\<And>i u. i < length vs \<Longrightarrow> u \<in> V - set (take i vs) \<Longrightarrow> (\<Sum>a\<in>set (take i vs). W a u) \<le> (\<Sum>a\<in>set (take i vs). W a (vs ! i))"
    using vs c(2) unfolding phase_inv_def Let_def V_def W_def by auto
  have fin: "finite V" by (simp add: V_def active_set_def)
  have set: "set vs = V" using P(1,2) vs(2) c(1) fin by (metis V_def card_subset_eq distinct_card)
  have "butlast vs \<noteq> []" using vs(2) c(2) by (cases vs rule: rev_cases) auto
  then obtain us where us: "vs = us @ [s, t]"
    using P(3,4) by (metis append.assoc append_Cons append_Nil append_butlast_last_id butlast.simps(1))
  have ma: "ma_order W vs"
    unfolding ma_order_def
  proof (intro conjI allI impI)
    fix i j assume ij: "i < j \<and> j < length vs"
    then have "vs ! j \<in> V - set (take i vs)"
      using P(1) set by (auto simp: in_set_conv_nth nth_eq_iff_index_eq)
    then show "(\<Sum>a\<in>set (take i vs). W a (vs ! j)) \<le> (\<Sum>a\<in>set (take i vs). W a (vs ! i))" using P(6) [of i] ij by simp
  qed (fact P(1))
  have V: "V = insert t (insert s (set us))" "V - {t} = insert s (set us)" "s \<noteq> t" using set us P(1) by auto
  have cop: "unat cop = (\<Sum>a\<in>insert s (set us). W a t)" using P(5) vs(3) us by (simp add: butlast_append insert_commute)
  have "unat cop \<le> crossing W S V" if "(s \<in> S) \<noteq> (t \<in> S)" for S
  proof -
    have "W a b = W b a" for a b using sym by (simp add: W_def V_def)
    from ma_order_cut [OF ma [unfolded us] this that] show ?thesis unfolding cop by (simp add: V(1))
  qed
  moreover have "unat cop = cutw W (V - {t}) {t}" unfolding cop V(2) by (simp add: cutw_def)
  ultimately show ?thesis using V by auto
qed

section \<open>The loop\<close>

text \<open>\<open>adj0\<close> is the original matrix as a function on the first \<open>n\<close> nodes.\<close>

definition adj0 :: "u64 list list \<Rightarrow> nat \<Rightarrow> nat \<Rightarrow> nat \<Rightarrow> nat" where
  "adj0 adj n x y = (if x < n \<and> y < n then unat (adj ! x ! y) else 0)"

definition cut0 :: "u64 list list \<Rightarrow> nat \<Rightarrow> nat set \<Rightarrow> nat" where
  "cut0 adj n S = cutw (adj0 adj n) S ({0..<n} - S)"

definition proper :: "nat \<Rightarrow> nat set \<Rightarrow> bool" where
  "proper n S \<longleftrightarrow> S \<subseteq> {0..<n} \<and> S \<noteq> {} \<and> S \<noteq> {0..<n}"

definition group_of :: "nat \<Rightarrow> sw_state \<Rightarrow> nat \<Rightarrow> nat set" where
  "group_of n st a = {i. i < n \<and> sw_groups st ! a ! i}"

definition keeps_groups :: "nat \<Rightarrow> sw_state \<Rightarrow> nat set \<Rightarrow> bool" where
  "keeps_groups n st S \<longleftrightarrow> (\<forall>a\<in>active_set (sw_active st) n. group_of n st a \<subseteq> S \<or> group_of n st a \<inter> S = {})"

definition sw_shape :: "nat \<Rightarrow> sw_state \<Rightarrow> bool" where
  "sw_shape n st \<longleftrightarrow> square (sw_w st) MINCUT_MAX_NODES \<and> square (sw_groups st) MINCUT_MAX_NODES \<and>
     length (sw_active st) = MINCUT_MAX_NODES"

definition sw_partition :: "nat \<Rightarrow> sw_state \<Rightarrow> bool" where
  "sw_partition n st \<longleftrightarrow>
     (let V = active_set (sw_active st) n; G = group_of n st in
      (\<forall>a\<in>V. G a \<noteq> {}) \<and> (\<forall>a\<in>V. \<forall>b\<in>V. a \<noteq> b \<longrightarrow> G a \<inter> G b = {}) \<and> group_union G V = {0..<n})"

definition sw_weights :: "u64 list list \<Rightarrow> nat \<Rightarrow> sw_state \<Rightarrow> bool" where
  "sw_weights adj n st \<longleftrightarrow>
     (let V = active_set (sw_active st) n; G = group_of n st in
      \<forall>a\<in>V. \<forall>b\<in>V. a \<noteq> b \<longrightarrow> unat (sw_w st ! a ! b) = cutw (adj0 adj n) (G a) (G b))"

definition sw_best :: "u64 list list \<Rightarrow> nat \<Rightarrow> nat \<Rightarrow> sw_state \<Rightarrow> bool" where
  "sw_best adj n c st \<longleftrightarrow>
     c = n \<and> sw_best_cut_weight st = U64_MAX \<or>
     sw_best_cut_node st < n \<and> sw_best_cut_node st \<notin> active_set (sw_active st) n \<and>
       proper n (group_of n st (sw_best_cut_node st)) \<and>
       unat (sw_best_cut_weight st) = cut0 adj n (group_of n st (sw_best_cut_node st))"

definition sw_inv :: "u64 list list \<Rightarrow> nat \<Rightarrow> nat \<Rightarrow> sw_state \<Rightarrow> bool" where
  "sw_inv adj n c st \<longleftrightarrow>
     sw_shape n st \<and> card (active_set (sw_active st) n) = c \<and> sw_partition n st \<and> sw_weights adj n st \<and>
     sw_best adj n c st \<and>
     (\<forall>S. proper n S \<longrightarrow> unat (sw_best_cut_weight st) \<le> cut0 adj n S \<or> keeps_groups n st S)"

lemma cutw_adj_bound:
  assumes "A \<subseteq> {0..<n}" "B \<subseteq> {0..<n}"
  shows "cutw (adj0 adj n) A B \<le> cutw (adj0 adj n) {0..<n} {0..<n}"
  by (rule cutw_mono) (use assms in auto)

text \<open>What the partition into groups says about the contracted graph.\<close>

lemma contracted_cut:
  assumes p: "sw_partition n st" and w: "sw_weights adj n st" and A: "A \<subseteq> active_set (sw_active st) n"
    and B: "B \<subseteq> active_set (sw_active st) n" "A \<inter> B = {}"
  shows "cutw (weights (sw_w st) (active_set (sw_active st) n)) A B =
    cutw (adj0 adj n) (group_union (group_of n st) A) (group_union (group_of n st) B)"
proof (rule cutw_groups)
  let ?V = "active_set (sw_active st) n"
  have "finite ?V" by (simp add: active_set_def)
  then show "finite A" "finite B" using A B finite_subset by blast+
  show "finite (group_of n st a)" for a by (simp add: group_of_def)
  show "group_of n st a \<inter> group_of n st b = {}" if "a \<in> A \<union> B" "b \<in> A \<union> B" "a \<noteq> b" for a b
    using p that A B unfolding sw_partition_def Let_def by blast
  show "weights (sw_w st) ?V a b = cutw (adj0 adj n) (group_of n st a) (group_of n st b)" if "a \<in> A" "b \<in> B" for a b
  proof -
    have "a \<in> ?V" "b \<in> ?V" "a \<noteq> b" using that A B by auto
    then show ?thesis using w by (simp add: weights_def sw_weights_def Let_def)
  qed
qed

lemma group_union_diff:
  assumes "sw_partition n st" "A \<subseteq> active_set (sw_active st) n"
  shows "group_union (group_of n st) (active_set (sw_active st) n - A) = {0..<n} - group_union (group_of n st) A"
proof -
  let ?V = "active_set (sw_active st) n" and ?G = "group_of n st"
  have d: "\<And>a b. a \<in> ?V \<Longrightarrow> b \<in> ?V \<Longrightarrow> a \<noteq> b \<Longrightarrow> ?G a \<inter> ?G b = {}" and u: "group_union ?G ?V = {0..<n}"
    using assms(1) by (auto simp: sw_partition_def Let_def)
  have "(\<Union>a\<in>?V - A. ?G a) = (\<Union>a\<in>?V. ?G a) - (\<Union>a\<in>A. ?G a)"
    using d assms(2) by blast
  then show ?thesis using u by (simp add: group_union_def)
qed

lemma contracted_side:
  assumes "sw_partition n st" "A \<subseteq> active_set (sw_active st) n" "sw_weights adj n st"
  shows "cutw (weights (sw_w st) (active_set (sw_active st) n)) A (active_set (sw_active st) n - A) =
    cut0 adj n (group_union (group_of n st) A)"
  using contracted_cut [OF assms(1,3,2), of "active_set (sw_active st) n - A"] group_union_diff [OF assms(1,2)]
  by (auto simp: cut0_def)

lemma kept_cut:
  assumes p: "sw_partition n st" and w: "sw_weights adj n st" and S: "S \<subseteq> {0..<n}" "keeps_groups n st S"
  defines "V \<equiv> active_set (sw_active st) n"
  defines "A \<equiv> {a \<in> V. group_of n st a \<subseteq> S}"
  shows "crossing (weights (sw_w st) V) A V = cut0 adj n S" "group_union (group_of n st) A = S"
proof -
  have u: "group_union (group_of n st) V = {0..<n}" using p by (simp add: sw_partition_def Let_def V_def)
  show g: "group_union (group_of n st) A = S"
  proof
    show "group_union (group_of n st) A \<subseteq> S" by (auto simp: group_union_def A_def)
    show "S \<subseteq> group_union (group_of n st) A"
    proof
      fix x assume x: "x \<in> S"
      then obtain a where a: "a \<in> V" "x \<in> group_of n st a" using S(1) u by (auto simp: group_union_def)
      then have "group_of n st a \<subseteq> S" using S(2) x by (auto simp: keeps_groups_def V_def)
      then show "x \<in> group_union (group_of n st) A" using a by (auto simp: group_union_def A_def)
    qed
  qed
  have "V \<inter> A = A" "A \<subseteq> active_set (sw_active st) n" by (auto simp: A_def V_def)
  then show "crossing (weights (sw_w st) V) A V = cut0 adj n S"
    using contracted_side [OF p _ w, of A] g by (simp add: crossing_def V_def)
qed

lemma cutw_union_left:
  "finite A \<Longrightarrow> finite B \<Longrightarrow> A \<inter> B = {} \<Longrightarrow> cutw W (A \<union> B) C = cutw W A C + cutw W B C"
  by (simp add: cutw_def sum.union_disjoint)

lemma cutw_union_right:
  assumes "finite A" "finite B" "A \<inter> B = {}"
  shows "cutw W C (A \<union> B) = cutw W C A + cutw W C B"
  using assms by (simp add: cutw_def sum.union_disjoint sum.distrib)

definition adj_ok :: "u64 list list \<Rightarrow> nat \<Rightarrow> bool" where
  "adj_ok adj n \<longleftrightarrow> n \<le> MINCUT_MAX_NODES \<and> (\<forall>i<n. \<forall>j<n. adj ! i ! j = adj ! j ! i) \<and>
     cutw (adj0 adj n) {0..<n} {0..<n} < 2 ^ 64 - 1"

lemma adj0_sym: "adj_ok adj n \<Longrightarrow> adj0 adj n x y = adj0 adj n y x"
  by (auto simp: adj_ok_def adj0_def)

text \<open>The phase on the contracted graph, read on the original one.\<close>

lemma sw_phase_cut:
  assumes ok: "adj_ok adj n" and inv: "sw_inv adj n c st" and c: "2 \<le> c"
    and run: "minimum_cut_phase (sw_w st) (sw_active st) c n = (s, t, cop)"
  defines "V \<equiv> active_set (sw_active st) n"
  shows "s \<in> V" "t \<in> V" "s \<noteq> t" "unat cop = cut0 adj n (group_of n st t)"
    "\<And>S. S \<subseteq> {0..<n} \<Longrightarrow> keeps_groups n st S \<Longrightarrow>
       (group_of n st s \<subseteq> S) \<noteq> (group_of n st t \<subseteq> S) \<Longrightarrow> unat cop \<le> cut0 adj n S"
proof -
  let ?W = "weights (sw_w st) V" and ?G = "group_of n st"
  have p: "sw_partition n st" and w: "sw_weights adj n st" and card: "card V = c"
    using inv by (auto simp: sw_inv_def V_def)
  have sym: "?W a b = ?W b a" for a b
    using w adj0_sym [OF ok] cutw_sym [of "adj0 adj n" "?G a" "?G b"]
    by (auto simp: weights_def sw_weights_def Let_def V_def)
  have one: "cutw ?W (V - {i}) {i} = cut0 adj n (?G i)" if "i \<in> V" for i
  proof -
    have "cutw ?W (V - {i}) {i} = cutw ?W {i} (V - {i})" by (rule cutw_sym) (rule sym)
    then show ?thesis
      using contracted_side [OF p _ w, of "{i}"] that by (simp add: V_def group_union_def)
  qed
  have fits: "(\<Sum>a\<in>V. ?W a i) < 2 ^ 64" if "i \<in> V" for i
  proof -
    have "finite V" by (simp add: V_def active_set_def)
    then have "(\<Sum>a\<in>V. ?W a i) = cutw ?W (V - {i}) {i}"
      using that by (simp add: cutw_def sum.remove [of V i] weights_def)
    also have "\<dots> \<le> cutw (adj0 adj n) {0..<n} {0..<n}"
      unfolding one [OF that] cut0_def by (rule cutw_adj_bound) (auto simp: group_of_def)
    also have "\<dots> < 2 ^ 64" using ok by (simp add: adj_ok_def)
    finally show ?thesis .
  qed
  have n: "n \<le> MINCUT_MAX_NODES" using ok by (simp add: adj_ok_def)
  have ph: "s \<in> V \<and> t \<in> V \<and> s \<noteq> t \<and> unat cop = cutw ?W (V - {t}) {t} \<and>
      (\<forall>S. (s \<in> S) \<noteq> (t \<in> S) \<longrightarrow> unat cop \<le> crossing ?W S V)"
    unfolding V_def
    by (rule minimum_cut_phase_spec [OF n _ c _ _ run]) (use card fits sym in \<open>simp_all only: V_def\<close>)
  then show st: "s \<in> V" "t \<in> V" "s \<noteq> t" by auto
  show "unat cop = cut0 adj n (?G t)" using ph one [OF st(2)] by simp
  fix S assume S: "S \<subseteq> {0..<n}" "keeps_groups n st S" "(?G s \<subseteq> S) \<noteq> (?G t \<subseteq> S)"
  have "(s \<in> {a \<in> V. ?G a \<subseteq> S}) \<noteq> (t \<in> {a \<in> V. ?G a \<subseteq> S})" using S(3) st by simp
  then have "unat cop \<le> crossing ?W {a \<in> V. ?G a \<subseteq> S} V" using ph by (elim conjE allE impE)
  then show "unat cop \<le> cut0 adj n S" using kept_cut(1) [OF p w S(1,2)] by (simp add: V_def)
qed

definition merged :: "nat \<Rightarrow> nat \<Rightarrow> nat \<Rightarrow> sw_state \<Rightarrow> sw_state" where
  "merged n s t st =
     st\<lparr>sw_w := merge_weights (sw_active st) n s t (sw_w st), sw_groups := merge_groups n s t (sw_groups st),
        sw_active := (sw_active st)[t := False]\<rparr>"

lemma merged_structure:
  assumes ok: "adj_ok adj n" and inv: "sw_inv adj n c st"
    and st: "s \<in> active_set (sw_active st) n" "t \<in> active_set (sw_active st) n" "s \<noteq> t"
  shows "sw_shape n (merged n s t st)"
    "active_set (sw_active (merged n s t st)) n = active_set (sw_active st) n - {t}"
    "group_of n (merged n s t st) a = (if a = s then group_of n st s \<union> group_of n st t else group_of n st a)"
proof -
  have sh: "square (sw_w st) MINCUT_MAX_NODES" "square (sw_groups st) MINCUT_MAX_NODES" "length (sw_active st) = MINCUT_MAX_NODES"
    using inv by (auto simp: sw_inv_def sw_shape_def)
  have n: "n \<le> MINCUT_MAX_NODES" using ok by (simp add: adj_ok_def)
  have lt: "s < MINCUT_MAX_NODES" "t < MINCUT_MAX_NODES" "t < n" using st n by (auto simp: active_set_def)
  note g = merge_groups_nth [of s t "sw_groups st" n]
  have gs: "s < length (sw_groups st)" "n \<le> length (sw_groups st ! s)" using sh(2) lt n by (auto simp: square_def)
  have "square (merge_groups n s t (sw_groups st)) MINCUT_MAX_NODES"
    using g [OF st(3) gs] sh(2) unfolding square_def by metis
  then show "sw_shape n (merged n s t st)"
    using merge_weights_nth [OF sh(1) n st(3) lt(1,2)] sh(3) by (simp add: sw_shape_def merged_def)
  show "active_set (sw_active (merged n s t st)) n = active_set (sw_active st) n - {t}"
    using lt(2) sh(3) by (auto simp: merged_def active_set_def nth_list_update)
  show "group_of n (merged n s t st) a = (if a = s then group_of n st s \<union> group_of n st t else group_of n st a)"
    using g [OF st(3) gs] by (auto simp: group_of_def merged_def)
qed

lemma merged_partition:
  assumes ok: "adj_ok adj n" and inv: "sw_inv adj n c st"
    and st: "s \<in> active_set (sw_active st) n" "t \<in> active_set (sw_active st) n" "s \<noteq> t"
  shows "sw_partition n (merged n s t st)"
proof -
  let ?V = "active_set (sw_active st) n" and ?G = "group_of n st"
  have p: "\<And>a. a \<in> ?V \<Longrightarrow> ?G a \<noteq> {}" "\<And>a b. a \<in> ?V \<Longrightarrow> b \<in> ?V \<Longrightarrow> a \<noteq> b \<Longrightarrow> ?G a \<inter> ?G b = {}"
    "group_union ?G ?V = {0..<n}"
    using inv by (auto simp: sw_inv_def sw_partition_def Let_def)
  note m = merged_structure [OF ok inv st]
  have "group_union (group_of n (merged n s t st)) (?V - {t}) = group_union ?G ?V"
    unfolding group_union_def m(3) using st by auto
  moreover have "group_of n (merged n s t st) a \<inter> group_of n (merged n s t st) b = {}"
    if "a \<in> ?V - {t}" "b \<in> ?V - {t}" "a \<noteq> b" for a b
    unfolding m(3) using that p(2) [of a b] p(2) [of t b] p(2) [of a t] st by auto
  moreover have "group_of n (merged n s t st) a \<noteq> {}" if "a \<in> ?V - {t}" for a
    unfolding m(3) using that p(1) [of a] by auto
  ultimately show ?thesis using p(3) unfolding sw_partition_def Let_def m(2) by simp
qed

lemma merged_weights:
  assumes ok: "adj_ok adj n" and inv: "sw_inv adj n c st"
    and st: "s \<in> active_set (sw_active st) n" "t \<in> active_set (sw_active st) n" "s \<noteq> t"
  shows "sw_weights adj n (merged n s t st)"
proof -
  let ?V = "active_set (sw_active st) n" and ?G = "group_of n st" and ?A = "adj0 adj n"
  have sq: "square (sw_w st) MINCUT_MAX_NODES" using inv by (auto simp: sw_inv_def sw_shape_def)
  have n: "n \<le> MINCUT_MAX_NODES" using ok by (simp add: adj_ok_def)
  have lt: "a < MINCUT_MAX_NODES" if "a \<in> ?V" for a using that n by (auto simp: active_set_def)
  have w: "unat (sw_w st ! a ! b) = cutw ?A (?G a) (?G b)" if "a \<in> ?V" "b \<in> ?V" "a \<noteq> b" for a b
    using inv that by (auto simp: sw_inv_def sw_weights_def Let_def)
  have fin: "finite (?G a)" for a by (simp add: group_of_def)
  have dis: "?G s \<inter> ?G t = {}" using inv st by (auto simp: sw_inv_def sw_partition_def Let_def)
  have small: "cutw ?A (?G a \<union> ?G b) (?G d) < 2 ^ 64" "cutw ?A (?G d) (?G a \<union> ?G b) < 2 ^ 64" for a b d
  proof -
    have "?G a \<union> ?G b \<subseteq> {0..<n}" "?G d \<subseteq> {0..<n}" by (auto simp: group_of_def)
    then have "cutw ?A (?G a \<union> ?G b) (?G d) \<le> cutw ?A {0..<n} {0..<n}" "cutw ?A (?G d) (?G a \<union> ?G b) \<le> cutw ?A {0..<n} {0..<n}"
      by (simp_all add: cutw_adj_bound)
    moreover have "cutw ?A {0..<n} {0..<n} < 2 ^ 64 - 1" using ok by (simp add: adj_ok_def)
    ultimately show "cutw ?A (?G a \<union> ?G b) (?G d) < 2 ^ 64" "cutw ?A (?G d) (?G a \<union> ?G b) < 2 ^ 64" by auto
  qed
  note mw = merge_weights_nth [OF sq n st(3) lt [OF st(1)] lt [OF st(2)], of "sw_active st", THEN conjunct2, rule_format]
  note m = merged_structure [OF ok inv st]
  have "unat (sw_w (merged n s t st) ! a ! b) = cutw ?A (group_of n (merged n s t st) a) (group_of n (merged n s t st) b)"
    if ab: "a \<in> ?V - {t}" "b \<in> ?V - {t}" "a \<noteq> b" for a b
  proof -
    have act: "a < n" "sw_active st ! a" "b < n" "sw_active st ! b" using ab by (auto simp: active_set_def)
    have e: "sw_w (merged n s t st) ! a ! b = merge_weights (sw_active st) n s t (sw_w st) ! a ! b" by (simp add: merged_def)
    consider (s1) "a = s" | (s2) "b = s" "a \<noteq> s" | (no) "a \<noteq> s" "b \<noteq> s" by auto
    then show ?thesis
    proof cases
      case s1
      then show ?thesis
        using mw [OF lt lt, of a b] ab act w [of s b] w [of t b] st cutw_union_left [OF fin fin dis, of ?A "?G b"] small(1) [of s t b]
        unfolding e m(3) by (simp add: saturating_add_unat)
    next
      case s2
      then show ?thesis
        using mw [OF lt lt, of a b] ab act w [of a s] w [of a t] st cutw_union_right [OF fin fin dis, of ?A "?G a"] small(2) [of a s t]
        unfolding e m(3) by (simp add: saturating_add_unat)
    next
      case no
      then show ?thesis using mw [OF lt lt, of a b] ab w [of a b] unfolding e m(3) by simp
    qed
  qed
  then show ?thesis unfolding sw_weights_def Let_def m(2) by simp
qed

lemma cut0_bound: "adj_ok adj n \<Longrightarrow> S \<subseteq> {0..<n} \<Longrightarrow> cut0 adj n S < 2 ^ 64 - 1"
  unfolding cut0_def adj_ok_def using cutw_adj_bound [of S n "{0..<n} - S" adj] by auto

lemma merged_keeps:
  assumes ok: "adj_ok adj n" and inv: "sw_inv adj n c st"
    and st: "s \<in> active_set (sw_active st) n" "t \<in> active_set (sw_active st) n" "s \<noteq> t"
    and k: "keeps_groups n st S" "(group_of n st s \<subseteq> S) = (group_of n st t \<subseteq> S)"
  shows "keeps_groups n (merged n s t st) S"
proof -
  note m = merged_structure [OF ok inv st]
  have k': "group_of n st a \<subseteq> S \<or> group_of n st a \<inter> S = {}" if "a \<in> active_set (sw_active st) n" for a
    using k(1) that by (simp add: keeps_groups_def)
  have "group_of n (merged n s t st) a \<subseteq> S \<or> group_of n (merged n s t st) a \<inter> S = {}"
    if "a \<in> active_set (sw_active st) n - {t}" for a
  proof (cases "a = s")
    case True
    then show ?thesis unfolding m(3) using k' [OF st(1)] k' [OF st(2)] k(2) by auto
  next
    case False
    then show ?thesis unfolding m(3) using k' [of a] that by simp
  qed
  then show ?thesis unfolding keeps_groups_def m(2) by simp
qed

lemma sw_phase_inv:
  assumes ok: "adj_ok adj n" and inv: "sw_inv adj n c st" and c: "2 \<le> c" "c \<le> n"
  shows "sw_inv adj n (c - 1) (sw_phase c n st)"
proof -
  obtain s t cop where run: "minimum_cut_phase (sw_w st) (sw_active st) c n = (s, t, cop)"
    by (cases "minimum_cut_phase (sw_w st) (sw_active st) c n") auto
  let ?V = "active_set (sw_active st) n" and ?M = "merged n s t st" and ?st = "sw_phase c n st"
  note ph = sw_phase_cut [OF ok inv c(1) run]
  note m = merged_structure [OF ok inv ph(1-3)]
  let ?better = "cop < sw_best_cut_weight st"
  have f: "sw_w ?st = sw_w ?M" "sw_groups ?st = sw_groups ?M" "sw_active ?st = sw_active ?M"
    "sw_best_cut_weight ?st = (if ?better then cop else sw_best_cut_weight st)"
    "sw_best_cut_node ?st = (if ?better then t else sw_best_cut_node st)"
    by (simp_all add: sw_phase_def run merged_def)
  have g: "group_of n ?st = group_of n ?M" by (rule ext) (simp add: group_of_def f)
  have card: "card (active_set (sw_active ?st) n) = c - 1"
    using inv ph(2) unfolding f m(2) by (simp add: sw_inv_def active_set_def)
  have parts: "sw_shape n ?st" "sw_partition n ?st" "sw_weights adj n ?st"
    using m(1) merged_partition [OF ok inv ph(1-3)] merged_weights [OF ok inv ph(1-3)]
    by (simp_all add: sw_shape_def sw_partition_def sw_weights_def f g)
  have Gt: "group_of n st t \<noteq> {}" "group_of n st s \<noteq> {}" "group_of n st s \<inter> group_of n st t = {}"
    using inv ph(1-3) by (auto simp: sw_inv_def sw_partition_def Let_def)
  have pt: "proper n (group_of n st t)"
  proof -
    have sub: "group_of n st a \<subseteq> {0..<n}" for a by (auto simp: group_of_def)
    then have "group_of n st t \<noteq> {0..<n}" using Gt(2,3) by blast
    then show ?thesis using sub Gt(1) by (simp add: proper_def)
  qed
  have tn: "t < n" using ph(2) by (simp add: active_set_def)
  have best: "sw_best adj n (c - 1) ?st"
  proof (cases ?better)
    case True
    then show ?thesis using tn pt ph(3,4) by (simp add: sw_best_def f g m)
  next
    case False
    have "cop \<noteq> U64_MAX"
      using cut0_bound [OF ok, of "group_of n st t"] ph(4) pt unat_max_word [where 'a = 64]
      by (auto simp: proper_def)
    then have "sw_best_cut_weight st \<noteq> U64_MAX" using False by (metis word_order.extremum_strict not_less_iff_gr_or_eq word_order.not_eq_extremum)
    then have old: "sw_best_cut_node st < n" "sw_best_cut_node st \<notin> ?V" "proper n (group_of n st (sw_best_cut_node st))"
      "unat (sw_best_cut_weight st) = cut0 adj n (group_of n st (sw_best_cut_node st))"
      using inv by (auto simp: sw_inv_def sw_best_def)
    moreover have "sw_best_cut_node st \<noteq> s" using old(2) ph(1) by auto
    ultimately show ?thesis using False by (simp add: sw_best_def f g m)
  qed
  have le: "unat (sw_best_cut_weight ?st) \<le> unat cop" "unat (sw_best_cut_weight ?st) \<le> unat (sw_best_cut_weight st)"
    by (auto simp: f word_less_nat_alt not_less)
  have "unat (sw_best_cut_weight ?st) \<le> cut0 adj n S \<or> keeps_groups n ?st S" if S: "proper n S" for S
  proof -
    have "S \<subseteq> {0..<n}" using S by (simp add: proper_def)
    consider "unat (sw_best_cut_weight st) \<le> cut0 adj n S" | "keeps_groups n st S" using inv S by (auto simp: sw_inv_def)
    then show ?thesis
    proof cases
      case 1
      then show ?thesis using le(2) by linarith
    next
      case 2
      show ?thesis
      proof (cases "(group_of n st s \<subseteq> S) = (group_of n st t \<subseteq> S)")
        case True
        from merged_keeps [OF ok inv ph(1-3) 2 this] show ?thesis by (simp add: keeps_groups_def f g)
      next
        case False
        from ph(5) [OF \<open>S \<subseteq> {0..<n}\<close> 2 False] le(1) show ?thesis by linarith
      qed
    qed
  qed
  then show ?thesis using parts card best by (simp add: sw_inv_def)
qed

lemma sw_init_inv:
  assumes "adj_ok adj n" "1 \<le> n"
  shows "sw_inv adj n n (sw_init adj n)"
proof -
  have n: "n \<le> MINCUT_MAX_NODES" using assms(1) by (simp add: adj_ok_def)
  have V: "active_set (sw_active (sw_init adj n)) n = {0..<n}"
    using n by (auto simp: active_set_def sw_init_def)
  have G: "group_of n (sw_init adj n) a = {a}" if "a < n" for a
    using that n by (auto simp: group_of_def sw_init_def)
  have U: "unat (sw_best_cut_weight (sw_init adj n)) = 2 ^ 64 - 1" by (simp add: sw_init_def unat_max_word)
  have "keeps_groups n (sw_init adj n) S" for S
    using G by (auto simp: keeps_groups_def V)
  moreover have "sw_partition n (sw_init adj n)"
    using G by (auto simp: sw_partition_def V Let_def group_union_def)
  moreover have "sw_weights adj n (sw_init adj n)"
  proof -
    have "sw_w (sw_init adj n) ! a ! b = adj ! a ! b" if "a < n" "b < n" for a b
      using that n by (simp add: sw_init_def)
    then show ?thesis using G by (simp add: sw_weights_def V Let_def cutw_def adj0_def)
  qed
  moreover have "sw_shape n (sw_init adj n)" by (simp add: sw_shape_def square_def sw_init_def)
  moreover have "sw_best adj n n (sw_init adj n)" by (simp add: sw_best_def sw_init_def)
  ultimately show ?thesis by (simp add: sw_inv_def V)
qed

lemma sw_loop_inv:
  assumes "adj_ok adj n" "sw_inv adj n c st" "1 \<le> c" "c \<le> n" "unat (sw_iteration_count st) + (c - 1) \<le> unat max_it"
  shows "\<exists>st'. sw_loop n max_it c st = Inr st' \<and> sw_inv adj n 1 st'"
  using assms(2-5)
proof (induction c arbitrary: st)
  case 0
  then show ?case by simp
next
  case (Suc c)
  show ?case
  proof (cases "c = 0")
    case True
    then show ?thesis using Suc.prems by (simp add: sw_loop.simps)
  next
    case False
    then have it: "sw_iteration_count st < max_it" using Suc.prems(4) by (simp add: word_less_nat_alt)
    have "unat (sw_iteration_count st + 1) = unat (sw_iteration_count st) + 1"
    proof -
      have "unat (sw_iteration_count st) < unat max_it" using it by (simp add: word_less_nat_alt)
      moreover have "unat max_it < 2 ^ 32" using unsigned_less [of max_it, where ?'a = nat] by simp
      ultimately show ?thesis by (simp add: unat_word_ariths)
    qed
    moreover have "sw_iteration_count (sw_phase (Suc c) n st) = sw_iteration_count st + 1"
      by (simp add: sw_phase_def split: prod.splits)
    ultimately have "unat (sw_iteration_count (sw_phase (Suc c) n st)) + (c - 1) \<le> unat max_it"
      using Suc.prems(4) False by simp
    then have "\<exists>st'. sw_loop n max_it c (sw_phase (Suc c) n st) = Inr st' \<and> sw_inv adj n 1 st'"
      using sw_phase_inv [OF assms(1) Suc.prems(1)] Suc.prems(3) False by (intro Suc.IH) auto
    then show ?thesis using False it by (simp add: sw_loop.simps [of n max_it "Suc c"])
  qed
qed

text \<open>After the last phase there is one group, which no proper cut keeps.\<close>

lemma sw_final:
  assumes "sw_inv adj n 1 st" "2 \<le> n"
  shows "proper n (group_of n st (sw_best_cut_node st))"
    "unat (sw_best_cut_weight st) = cut0 adj n (group_of n st (sw_best_cut_node st))"
    "proper n S \<Longrightarrow> unat (sw_best_cut_weight st) \<le> cut0 adj n S"
proof -
  obtain a where V: "active_set (sw_active st) n = {a}" using assms(1) by (auto simp: sw_inv_def card_1_singleton_iff)
  have "group_of n st a = {0..<n}" using assms(1) V by (simp add: sw_inv_def sw_partition_def Let_def group_union_def)
  then have "\<not> keeps_groups n st S" if "proper n S" for S
    using that V by (auto simp: keeps_groups_def proper_def)
  then show "proper n S \<Longrightarrow> unat (sw_best_cut_weight st) \<le> cut0 adj n S" using assms(1) by (auto simp: sw_inv_def)
  show "proper n (group_of n st (sw_best_cut_node st))"
    "unat (sw_best_cut_weight st) = cut0 adj n (group_of n st (sw_best_cut_node st))"
    using assms by (auto simp: sw_inv_def sw_best_def)
qed

section \<open>The two sides\<close>

definition side :: "(u16 \<times> partition_id) list \<Rightarrow> (nat \<Rightarrow> bool) \<Rightarrow> partition_id list" where
  "side sub P = map (\<lambda>i. snd (sub ! i)) (filter P [0..<length sub])"

lemma put_next:
  assumes "take k xs = map Some ys" "k = length ys" "k < length xs"
  shows "take (Suc k) (xs[k := Some y]) = map Some (ys @ [y])"
  using assms by (simp add: take_Suc_conv_app_nth)

lemma build_result_sides:
  fixes groups :: "bool list list" and node :: nat
  assumes "length sub \<le> MINCUT_MAX_NODES" "m \<le> length sub"
  defines "r \<equiv> build_result (map Some sub @ replicate (MINCUT_MAX_NODES - length sub) None) groups node m"
  shows "length (mc_left r) = MINCUT_MAX_NODES \<and> length (mc_right r) = MINCUT_MAX_NODES \<and>
    unat (mc_left_count r) = length (filter (\<lambda>i. groups ! node ! i) [0..<m]) \<and>
    unat (mc_right_count r) = length (filter (\<lambda>i. \<not> groups ! node ! i) [0..<m]) \<and>
    take (unat (mc_left_count r)) (mc_left r) = map Some (map (\<lambda>i. snd (sub ! i)) (filter (\<lambda>i. groups ! node ! i) [0..<m])) \<and>
    take (unat (mc_right_count r)) (mc_right r) = map Some (map (\<lambda>i. snd (sub ! i)) (filter (\<lambda>i. \<not> groups ! node ! i) [0..<m]))"
  using assms(2) unfolding r_def
proof (induction m)
  case 0
  then show ?case by (simp add: build_result_def mincut_empty_def)
next
  case (Suc m)
  define q where "q = build_result (map Some sub @ replicate (MINCUT_MAX_NODES - length sub) None) groups node m"
  let ?L = "filter (\<lambda>i. groups ! node ! i) [0..<m]" and ?R = "filter (\<lambda>i. \<not> groups ! node ! i) [0..<m]"
  have IH: "length (mc_left q) = MINCUT_MAX_NODES" "length (mc_right q) = MINCUT_MAX_NODES"
    "unat (mc_left_count q) = length ?L" "unat (mc_right_count q) = length ?R"
    "take (length ?L) (mc_left q) = map Some (map (\<lambda>i. snd (sub ! i)) ?L)"
    "take (length ?R) (mc_right q) = map Some (map (\<lambda>i. snd (sub ! i)) ?R)"
    using Suc unfolding q_def by auto
  have m: "m < length sub" "m < 32" using Suc.prems assms(1) by (auto simp: MINCUT_MAX_NODES_def)
  have lt: "length ?L < 32" "length ?R < 32"
    using m length_filter_le [of "\<lambda>i. groups ! node ! i" "[0..<m]"] length_filter_le [of "\<lambda>i. \<not> groups ! node ! i" "[0..<m]"]
    by auto
  have inc: "unat (mc_left_count q + 1) = Suc (length ?L)" "unat (mc_right_count q + 1) = Suc (length ?R)"
    using IH(3,4) lt by (simp_all add: unat_word_ariths)
  obtain a pid where sm: "sub ! m = (a, pid)" by (cases "sub ! m") auto
  have step: "build_result (map Some sub @ replicate (MINCUT_MAX_NODES - length sub) None) groups node (Suc m) =
     (if groups ! node ! m
      then q\<lparr>mc_left := (mc_left q)[length ?L := Some pid], mc_left_count := mc_left_count q + 1\<rparr>
      else q\<lparr>mc_right := (mc_right q)[length ?R := Some pid], mc_right_count := mc_right_count q + 1\<rparr>)"
    using m lt IH(3,4) sm unfolding q_def build_result_def by (simp add: nth_append MINCUT_MAX_NODES_def)
  show ?case
    unfolding step using IH inc lt sm
      put_next [OF IH(5) _, of pid] put_next [OF IH(6) _, of pid]
    by (simp add: MINCUT_MAX_NODES_def)
qed

section \<open>Properties\<close>

text \<open>
  C19.  The minimum cut is exact.  On a symmetric matrix of at most 32 nodes whose entries sum to less
  than the largest 64-bit value, with a budget of one iteration for each merge, the computation ends
  within its budget with a cut of minimum weight over all ways to split the nodes into two non-empty
  sides, and the two lists it returns are the two sides of such a cut.
\<close>

theorem stoer_wagner_exact:
  assumes "adj_ok adj n" "2 \<le> n" "length sub = n" "n - 1 \<le> unat max_iterations"
  shows "\<exists>r B. stoer_wagner_mincut adj n (map Some sub @ replicate (MINCUT_MAX_NODES - n) None) max_iterations = Inr r \<and>
    mc_within_budget r \<and> proper n B \<and> unat (mc_cut_weight r) = cut0 adj n B \<and>
    (\<forall>S. proper n S \<longrightarrow> unat (mc_cut_weight r) \<le> cut0 adj n S) \<and>
    take (unat (mc_left_count r)) (mc_left r) = map Some (side sub (\<lambda>i. i \<in> B)) \<and>
    take (unat (mc_right_count r)) (mc_right r) = map Some (side sub (\<lambda>i. i \<notin> B))"
proof -
  obtain st where st: "sw_loop n max_iterations n (sw_init adj n) = Inr st" "sw_inv adj n 1 st"
    using sw_loop_inv [OF assms(1) sw_init_inv [OF assms(1)], of max_iterations] assms(2,4) by (auto simp: sw_init_def)
  let ?B = "group_of n st (sw_best_cut_node st)"
  let ?nodes = "map Some sub @ replicate (MINCUT_MAX_NODES - n) None"
  let ?r = "sw_result ?nodes n True st"
  have n: "n \<le> MINCUT_MAX_NODES" using assms(1) by (simp add: adj_ok_def)
  have run: "stoer_wagner_mincut adj n ?nodes max_iterations = Inr ?r"
    using st(1) assms(2) by (simp add: stoer_wagner_mincut_def)
  have B: "i \<in> ?B \<longleftrightarrow> sw_groups st ! sw_best_cut_node st ! i" if "i < n" for i using that by (simp add: group_of_def)
  have flt: "filter (\<lambda>i. i \<in> ?B) [0..<n] = filter (\<lambda>i. sw_groups st ! sw_best_cut_node st ! i) [0..<n]"
    "filter (\<lambda>i. i \<notin> ?B) [0..<n] = filter (\<lambda>i. \<not> sw_groups st ! sw_best_cut_node st ! i) [0..<n]"
    by (auto intro!: filter_cong simp: B)
  let ?q = "build_result ?nodes (sw_groups st) (sw_best_cut_node st) n"
  have rq: "mc_left ?r = mc_left ?q" "mc_left_count ?r = mc_left_count ?q" "mc_right ?r = mc_right ?q"
    "mc_right_count ?r = mc_right_count ?q"
    by (simp_all add: sw_result_def)
  have sides: "take (unat (mc_left_count ?r)) (mc_left ?r) = map Some (side sub (\<lambda>i. i \<in> ?B))"
    "take (unat (mc_right_count ?r)) (mc_right ?r) = map Some (side sub (\<lambda>i. i \<notin> ?B))"
    using build_result_sides [of sub n "sw_groups st" "sw_best_cut_node st", unfolded assms(3), OF n order_refl]
    unfolding side_def assms(3) flt rq by blast+
  show ?thesis
    using run sides sw_final [OF st(2) assms(2)] by (intro exI [of _ ?r] exI [of _ ?B]) (simp add: sw_result_def)
qed

definition demo_adj :: "u64 list list" where
  "demo_adj = [[0, 5, 1], [5, 0, 1], [1, 1, 0]]"

theorem stoer_wagner_exact_witness:
  "\<exists>r. stoer_wagner_mincut demo_adj 3 (map Some [(0, 10), (1, 11), (2, 12)] @ replicate 29 None) 10 = Inr r \<and>
     mc_within_budget r \<and> unat (mc_cut_weight r) \<le> 2"
proof -
  have three: "{0..<3} = {0, 1, 2 :: nat}" by auto
  have lt: "i < 3 \<longleftrightarrow> i = 0 \<or> i = 1 \<or> i = 2" for i :: nat by arith
  have "demo_adj ! i ! j = demo_adj ! j ! i" if "i < 3" "j < 3" for i j
    using that unfolding lt by (auto simp: demo_adj_def)
  moreover have "cutw (adj0 demo_adj 3) {0, 1, 2} {0, 1, 2} = 14"
    by (simp add: cutw_def adj0_def demo_adj_def)
  ultimately have "adj_ok demo_adj 3" by (simp add: adj_ok_def three MINCUT_MAX_NODES_def)
  moreover have "proper 3 {2}" unfolding proper_def three by (simp add: insert_eq_iff)
  moreover have "cut0 demo_adj 3 {2} = 2"
  proof -
    have "{0..<3} - {2} = {0, 1 :: nat}" by auto
    then show ?thesis by (simp add: cut0_def cutw_def adj0_def demo_adj_def)
  qed
  ultimately show ?thesis
    using stoer_wagner_exact [of demo_adj 3 "[(0, 10), (1, 11), (2, 12)]" 10]
    by (fastforce simp: MINCUT_MAX_NODES_def)
qed

end
