(* ===== verification/Coh_Engine.thy ===== *)
theory Coh_Engine
  imports Coh_Graph_Proofs Coh_Mincut
begin

text \<open>
  Crate \<open>rvm-coherence\<close>, files \<open>scoring.rs\<close>, \<open>pressure.rs\<close>, \<open>adaptive.rs\<close>, \<open>bridge.rs\<close>, \<open>engine.rs\<close> and the filter
  of \<open>lib.rs\<close>: scores and pressures computed from the graph, the controller that decides when to
  recompute them, and the engine that recommends splits and merges.  The intermediate products are
  128 bits wide in the source and do not overflow; they are natural numbers here.  The scoring
  backend is a parameter of the engine; the operations never call its cut backend.
\<close>

section \<open>Scores\<close>

record partition_coherence_result =
  pc_partition :: partition_id
  pc_score :: coherence_score
  pc_internal_weight :: u64
  pc_total_weight :: u64

definition compute_coherence_score :: "partition_id \<Rightarrow> coherence_graph \<Rightarrow> partition_coherence_result" where
  "compute_coherence_score p g =
     (let tot = total_weight p g;
          int = internal_weight p g;
          score = (if tot = 0 then SCORE_MAX
                   else from_basis_points (of_nat (unat int * 10000 div unat tot)))
      in \<lparr>pc_partition = p, pc_score = score, pc_internal_weight = int, pc_total_weight = tot\<rparr>)"

text \<open>The output buffer is cleared; the loop stops when it is full.\<close>

definition recompute_all_scores ::
    "coherence_graph \<Rightarrow> partition_coherence_result option list \<Rightarrow> u16 \<times> partition_coherence_result option list" where
  "recompute_all_scores g output =
     foldl (\<lambda>(count, out) (_, pid).
        if unat count \<ge> length out then (count, out)
        else (count + 1, out[unat count := Some (compute_coherence_score pid g)]))
      (0, map (\<lambda>_. None) output) (active_nodes g)"

section \<open>Pressure\<close>

definition SPLIT_THRESHOLD_BP :: u32 where "SPLIT_THRESHOLD_BP = 8000"
definition MERGE_COHERENCE_THRESHOLD_BP :: u16 where "MERGE_COHERENCE_THRESHOLD_BP = 4000"

record pressure_result =
  ps_partition :: partition_id
  ps_pressure :: cut_pressure
  ps_should_split :: bool
  ps_external_weight :: u64
  ps_internal_weight :: u64

record merge_signal =
  ms_partition_a :: partition_id
  ms_partition_b :: partition_id
  ms_mutual_coherence :: coherence_score
  ms_should_merge :: bool

definition compute_cut_pressure :: "partition_id \<Rightarrow> coherence_graph \<Rightarrow> pressure_result" where
  "compute_cut_pressure p g =
     (let tot = total_weight p g;
          int = internal_weight p g;
          external = saturating_sub tot int;
          pressure_bp = (if tot = 0 then 0 else of_nat (unat external * 10000 div unat tot))
      in \<lparr>ps_partition = p, ps_pressure = pressure_bp,
          ps_should_split = (pressure_bp > SPLIT_THRESHOLD_BP),
          ps_external_weight = external, ps_internal_weight = int\<rparr>)"

definition evaluate_merge :: "partition_id \<Rightarrow> partition_id \<Rightarrow> coherence_graph \<Rightarrow> merge_signal" where
  "evaluate_merge a b g =
     (let mutual_weight = edge_weight_between a b g;
          combined = saturating_add (total_weight a g) (total_weight b g);
          mutual_bp =
            (if combined = 0 then 0
             else let bp = of_nat (unat mutual_weight * 10000 div unat combined)
                  in if bp > 10000 then 10000 else bp)
      in \<lparr>ms_partition_a = a, ms_partition_b = b, ms_mutual_coherence = from_basis_points mutual_bp,
          ms_should_merge = (mutual_bp \<ge> MERGE_COHERENCE_THRESHOLD_BP)\<rparr>)"

section \<open>The adaptive controller\<close>

definition LOAD_HIGH :: u8 where "LOAD_HIGH = 80"
definition LOAD_MEDIUM :: u8 where "LOAD_MEDIUM = 60"
definition INTERVAL_HIGH :: u32 where "INTERVAL_HIGH = 4"
definition INTERVAL_MEDIUM :: u32 where "INTERVAL_MEDIUM = 2"
definition INTERVAL_LOW :: u32 where "INTERVAL_LOW = 1"

record adaptive_engine =
  ad_last_compute_epoch :: u32
  ad_compute_count :: u32
  ad_budget_exceeded_count :: u32
  ad_current_interval :: u32
  ad_current_epoch :: u32

definition adaptive_new :: adaptive_engine where
  "adaptive_new =
     \<lparr>ad_last_compute_epoch = 0, ad_compute_count = 0, ad_budget_exceeded_count = 0,
      ad_current_interval = INTERVAL_LOW, ad_current_epoch = 0\<rparr>"

definition adaptive_tick :: "u8 \<Rightarrow> adaptive_engine \<Rightarrow> bool \<times> adaptive_engine" where
  "adaptive_tick load a =
     (let a = a\<lparr>ad_current_epoch := ad_current_epoch a + 1\<rparr>;
          a = a\<lparr>ad_current_interval :=
                 (if load > LOAD_HIGH then INTERVAL_HIGH
                  else if load > LOAD_MEDIUM then INTERVAL_MEDIUM
                  else INTERVAL_LOW)\<rparr>
      in if ad_compute_count a = 0 then (True, a)
         else (ad_current_epoch a - ad_last_compute_epoch a \<ge> ad_current_interval a, a))"

definition record_computation :: "adaptive_engine \<Rightarrow> adaptive_engine" where
  "record_computation a =
     a\<lparr>ad_last_compute_epoch := ad_current_epoch a, ad_compute_count := ad_compute_count a + 1\<rparr>"

definition record_budget_exceeded :: "adaptive_engine \<Rightarrow> adaptive_engine" where
  "record_budget_exceeded a = a\<lparr>ad_budget_exceeded_count := ad_budget_exceeded_count a + 1\<rparr>"

definition duty_cycle_bp :: "adaptive_engine \<Rightarrow> u16" where
  "duty_cycle_bp a =
     (if ad_current_interval a = 0 then 10000 else ucast (10000 div ad_current_interval a))"

definition adaptive_reset :: "adaptive_engine \<Rightarrow> adaptive_engine" where
  "adaptive_reset a = adaptive_new"

section \<open>The moving average\<close>

record ema_filter =
  ef_current_bp :: u32
  ef_alpha_bp :: u16
  ef_initialized :: bool

definition ema_new :: "u16 \<Rightarrow> ema_filter" where
  "ema_new alpha =
     \<lparr>ef_current_bp = 0, ef_alpha_bp = (if alpha > 10000 then 10000 else alpha), ef_initialized = False\<rparr>"

definition ema_current :: "ema_filter \<Rightarrow> coherence_score" where
  "ema_current f =
     from_basis_points (if ef_current_bp f > 10000 then 10000 else ucast (ef_current_bp f))"

definition ema_update :: "u16 \<Rightarrow> ema_filter \<Rightarrow> coherence_score \<times> ema_filter" where
  "ema_update sample f =
     (let f = (if \<not> ef_initialized f
               then f\<lparr>ef_current_bp := ucast sample, ef_initialized := True\<rparr>
               else
                 let alpha = ucast (ef_alpha_bp f);
                     one_minus_alpha = saturating_sub 10000 alpha
                 in f\<lparr>ef_current_bp := (alpha * ucast sample + one_minus_alpha * ef_current_bp f) div 10000\<rparr>)
      in (ema_current f, f))"

definition phi_to_coherence_bp :: "u32 \<Rightarrow> u16" where
  "phi_to_coherence_bp phi = (if phi \<ge> 10000 then 10000 else ucast phi)"

section \<open>Backends\<close>

record backend_min_cut_result =
  bk_left :: "partition_id option list"
  bk_left_count :: u16
  bk_right :: "partition_id option list"
  bk_right_count :: u16
  bk_cut_weight :: u64
  bk_within_budget :: bool
  bk_backend :: string

definition backend_empty :: "string \<Rightarrow> backend_min_cut_result" where
  "backend_empty name =
     \<lparr>bk_left = replicate 32 None, bk_left_count = 0, bk_right = replicate 32 None, bk_right_count = 0,
      bk_cut_weight = 0, bk_within_budget = True, bk_backend = name\<rparr>"

definition copy_prefix :: "nat \<Rightarrow> 'a list \<Rightarrow> 'a list \<Rightarrow> 'a list" where
  "copy_prefix n src dst = foldl (\<lambda>dst i. dst[i := src ! i]) dst [0..<min n 32]"

definition from_mincut_result :: "min_cut_result \<Rightarrow> string \<Rightarrow> backend_min_cut_result" where
  "from_mincut_result r name =
     (let out = backend_empty name
      in out\<lparr>bk_cut_weight := mc_cut_weight r, bk_within_budget := mc_within_budget r,
             bk_left_count := mc_left_count r, bk_right_count := mc_right_count r,
             bk_left := copy_prefix (unat (mc_left_count r)) (mc_left r) (bk_left out),
             bk_right := copy_prefix (unat (mc_right_count r)) (mc_right r) (bk_right out)\<rparr>)"

definition builtin_find_min_cut ::
    "coherence_graph \<Rightarrow> partition_id \<Rightarrow> min_cut_bridge \<Rightarrow> (backend_min_cut_result \<times> min_cut_bridge) option" where
  "builtin_find_min_cut g p b =
     map_option (\<lambda>(r, b). (from_mincut_result r ''stoer-wagner-builtin'', b)) (find_min_cut g p b)"

definition ruvector_find_min_cut ::
    "coherence_graph \<Rightarrow> partition_id \<Rightarrow> min_cut_bridge \<Rightarrow> (backend_min_cut_result \<times> min_cut_bridge) option" where
  "ruvector_find_min_cut g p b =
     map_option (\<lambda>(r, b). (from_mincut_result r ''ruvector-mincut-stub'', b)) (find_min_cut g p b)"

type_synonym score_backend = "partition_id \<Rightarrow> coherence_graph \<Rightarrow> coherence_score"

definition builtin_compute_score :: score_backend where
  "builtin_compute_score p g = pc_score (compute_coherence_score p g)"

definition spectral_compute_score :: score_backend where
  "spectral_compute_score p g = builtin_compute_score p g"

section \<open>The engine\<close>

definition ENGINE_MAX_NODES :: nat where "ENGINE_MAX_NODES = 32"
definition ENGINE_MAX_EDGES :: nat where "ENGINE_MAX_EDGES = 128"
definition EDGE_DECAY_BP :: u16 where "EDGE_DECAY_BP = 500"

datatype coherence_decision =
    NoAction
  | SplitRecommended partition_id cut_pressure
  | MergeRecommended partition_id partition_id coherence_score

record partition_entry =
  pe_id :: partition_id
  pe_score :: coherence_score
  pe_pressure :: cut_pressure
  pe_active :: bool

definition EMPTY_PARTITION_ENTRY :: partition_entry where
  "EMPTY_PARTITION_ENTRY = \<lparr>pe_id = HYPERVISOR, pe_score = SCORE_MAX, pe_pressure = 0, pe_active = False\<rparr>"

record coherence_engine =
  en_graph :: coherence_graph
  en_adaptive :: adaptive_engine
  en_mincut_backend :: min_cut_bridge
  en_entries :: "partition_entry list"
  en_epoch :: u64

definition engine_new :: "min_cut_bridge \<Rightarrow> coherence_engine" where
  "engine_new mincut =
     \<lparr>en_graph = graph_new ENGINE_MAX_NODES ENGINE_MAX_EDGES, en_adaptive = adaptive_new,
      en_mincut_backend = mincut, en_entries = replicate ENGINE_MAX_NODES EMPTY_PARTITION_ENTRY, en_epoch = 0\<rparr>"

definition engine_with_defaults :: "u32 \<Rightarrow> coherence_engine" where
  "engine_with_defaults max_iterations = engine_new (bridge_new max_iterations)"

definition partition_count :: "coherence_engine \<Rightarrow> nat" where
  "partition_count e = unat (cg_node_count (en_graph e))"

fun add_node_error :: "graph_error \<Rightarrow> rvm_error" where
  "add_node_error DuplicateNode = InvalidPartitionState"
| "add_node_error NodeCapacityExhausted = ResourceLimitExceeded"
| "add_node_error _ = InternalError"

definition add_partition :: "partition_id \<Rightarrow> coherence_engine \<Rightarrow> (rvm_error, unit, coherence_engine) outcome" where
  "add_partition p e =
     (case add_node p (en_graph e) of
        (Inl err, g) \<Rightarrow> (Inl (add_node_error err), e\<lparr>en_graph := g\<rparr>)
      | (Inr _, g) \<Rightarrow>
          (let e = e\<lparr>en_graph := g\<rparr> in
           case position (\<lambda>en. \<not> pe_active en) (en_entries e) of
             Some i \<Rightarrow>
               (Inr (), e\<lparr>en_entries := (en_entries e)[i := \<lparr>pe_id = p, pe_score = SCORE_MAX,
                   pe_pressure = 0, pe_active = True\<rparr>]\<rparr>)
           | None \<Rightarrow> (Inl ResourceLimitExceeded, e)))"

definition remove_partition ::
    "partition_id \<Rightarrow> coherence_engine \<Rightarrow> (rvm_error, unit, coherence_engine) outcome option" where
  "remove_partition p e =
     (case remove_node p (en_graph e) of
        None \<Rightarrow> None
      | Some (Inl _, g) \<Rightarrow> Some (Inl PartitionNotFound, e\<lparr>en_graph := g\<rparr>)
      | Some (Inr _, g) \<Rightarrow>
          (let e = e\<lparr>en_graph := g\<rparr> in
           case position (\<lambda>en. pe_active en \<and> pe_id en = p) (en_entries e) of
             Some i \<Rightarrow>
               Some (Inr (), e\<lparr>en_entries := (en_entries e)[i := (en_entries e ! i)\<lparr>pe_active := False\<rparr>]\<rparr>)
           | None \<Rightarrow> Some (Inr (), e)))"

text \<open>\<open>i64::try_from(weight).unwrap_or(i64::MAX)\<close>\<close>

definition clamp_i64 :: "u64 \<Rightarrow> u64" where
  "clamp_i64 w = (if unat w < 2 ^ 63 then w else 0x7FFFFFFFFFFFFFFF)"

fun add_edge_error :: "graph_error \<Rightarrow> rvm_error" where
  "add_edge_error EdgeCapacityExhausted = ResourceLimitExceeded"
| "add_edge_error NodeNotFound = PartitionNotFound"
| "add_edge_error _ = InternalError"

definition record_communication ::
    "partition_id \<Rightarrow> partition_id \<Rightarrow> u64 \<Rightarrow> coherence_engine \<Rightarrow> (rvm_error, unit, coherence_engine) outcome option" where
  "record_communication from to weight e =
     (case find_directed_edge from to (en_graph e) of
        None \<Rightarrow> None
      | Some (Some eidx) \<Rightarrow>
          (case update_weight eidx (clamp_i64 weight) (en_graph e) of
             (Inl _, g) \<Rightarrow> Some (Inl InternalError, e\<lparr>en_graph := g\<rparr>)
           | (Inr _, g) \<Rightarrow> Some (Inr (), e\<lparr>en_graph := g\<rparr>))
      | Some None \<Rightarrow>
          (case add_edge from to weight (en_graph e) of
             (Inl err, g) \<Rightarrow> Some (Inl (add_edge_error err), e\<lparr>en_graph := g\<rparr>)
           | (Inr _, g) \<Rightarrow> Some (Inr (), e\<lparr>en_graph := g\<rparr>)))"

subsection \<open>Recommendations\<close>

definition consider_split ::
    "(partition_id \<times> cut_pressure) option \<Rightarrow> partition_entry \<Rightarrow> (partition_id \<times> cut_pressure) option" where
  "consider_split best en =
     (if \<not> pe_active en then best
      else if pe_pressure en > SPLIT_THRESHOLD_BP then
        (case best of
           None \<Rightarrow> Some (pe_id en, pe_pressure en)
         | Some (_, prev) \<Rightarrow> if pe_pressure en > prev then Some (pe_id en, pe_pressure en) else best)
      else best)"

definition best_split :: "partition_entry list \<Rightarrow> (partition_id \<times> cut_pressure) option" where
  "best_split entries = foldl consider_split None entries"

definition consider_merge :: "merge_signal option \<Rightarrow> merge_signal \<Rightarrow> merge_signal option" where
  "consider_merge best signal =
     (if ms_should_merge signal then
        (case best of
           None \<Rightarrow> Some signal
         | Some prev \<Rightarrow> if ms_mutual_coherence signal > ms_mutual_coherence prev then Some signal else best)
      else best)"

definition active_entry_ids :: "partition_entry list \<Rightarrow> partition_id option list" where
  "active_entry_ids entries = map (\<lambda>en. if pe_active en then Some (pe_id en) else None) entries"

definition best_merge :: "coherence_graph \<Rightarrow> partition_id option list \<Rightarrow> merge_signal option" where
  "best_merge g ids =
     foldl (\<lambda>best i.
        case ids ! i of
          None \<Rightarrow> best
        | Some a \<Rightarrow>
            foldl (\<lambda>best j.
               case ids ! j of
                 None \<Rightarrow> best
               | Some b \<Rightarrow> consider_merge best (evaluate_merge a b g)) best [i + 1..<ENGINE_MAX_NODES])
       None [0..<ENGINE_MAX_NODES]"

definition recommend :: "coherence_engine \<Rightarrow> coherence_decision" where
  "recommend e =
     (case best_split (en_entries e) of
        Some (p, pressure) \<Rightarrow> SplitRecommended p pressure
      | None \<Rightarrow>
          (case best_merge (en_graph e) (active_entry_ids (en_entries e)) of
             Some signal \<Rightarrow>
               MergeRecommended (ms_partition_a signal) (ms_partition_b signal) (ms_mutual_coherence signal)
           | None \<Rightarrow> NoAction))"

definition refresh_entry :: "score_backend \<Rightarrow> coherence_graph \<Rightarrow> partition_entry \<Rightarrow> partition_entry" where
  "refresh_entry score g en =
     (if \<not> pe_active en then en
      else en\<lparr>pe_score := score (pe_id en) g, pe_pressure := ps_pressure (compute_cut_pressure (pe_id en) g)\<rparr>)"

definition engine_tick ::
    "score_backend \<Rightarrow> u8 \<Rightarrow> coherence_engine \<Rightarrow> (coherence_decision \<times> coherence_engine) option" where
  "engine_tick score load e =
     (let e = e\<lparr>en_epoch := en_epoch e + 1\<rparr> in
      case decay_weights EDGE_DECAY_BP (en_graph e) of
        None \<Rightarrow> None
      | Some (_, g) \<Rightarrow>
          (let e = e\<lparr>en_graph := g\<rparr>;
               (should_recompute, a) = adaptive_tick load (en_adaptive e);
               e = e\<lparr>en_adaptive := a\<rparr>
           in if \<not> should_recompute then Some (recommend e, e)
              else
                let e = e\<lparr>en_entries := map (refresh_entry score (en_graph e)) (en_entries e)\<rparr>;
                    e = e\<lparr>en_adaptive := record_computation (en_adaptive e)\<rparr>
                in Some (recommend e, e)))"

definition engine_score :: "partition_id \<Rightarrow> coherence_engine \<Rightarrow> coherence_score" where
  "engine_score p e =
     (case position (\<lambda>en. pe_active en \<and> pe_id en = p) (en_entries e) of
        Some i \<Rightarrow> pe_score (en_entries e ! i) | None \<Rightarrow> SCORE_MAX)"

definition engine_pressure :: "partition_id \<Rightarrow> coherence_engine \<Rightarrow> cut_pressure" where
  "engine_pressure p e =
     (case position (\<lambda>en. pe_active en \<and> pe_id en = p) (en_entries e) of
        Some i \<Rightarrow> pe_pressure (en_entries e ! i) | None \<Rightarrow> 0)"

end
