(* ===== verification/Coh_Engine_Proofs.thy ===== *)
theory Coh_Engine_Proofs
  imports Coh_Engine
begin

text \<open>
  Scores, pressures and merge signals as exact ratios of edge weights; the engine's choice as a
  maximum; the invariant that ties the engine's entries to the nodes of its graph.
\<close>

section \<open>Exact weights of a node\<close>

definition self_weight :: "nat \<Rightarrow> coherence_graph \<Rightarrow> nat" where
  "self_weight i g = esum (\<lambda>x y. x = i \<and> y = i) (cg_edges g)"

definition outer_weight :: "nat \<Rightarrow> coherence_graph \<Rightarrow> nat" where
  "outer_weight i g = esum (\<lambda>x y. (x = i) \<noteq> (y = i)) (cg_edges g)"

definition pair_weight :: "nat \<Rightarrow> nat \<Rightarrow> coherence_graph \<Rightarrow> nat" where
  "pair_weight i j g = esum (\<lambda>x y. x = i \<and> y = j \<or> x = j \<and> y = i) (cg_edges g)"

lemma esum_mono:
  assumes "\<And>x y. P x y \<Longrightarrow> Q x y"
  shows "esum P es \<le> esum Q es"
  using assms by (induction es) (auto simp: contrib_def intro: add_mono)

lemma esum_node:
  "esum (\<lambda>x y. x = i) es + esum (\<lambda>x y. y = i) es =
     2 * esum (\<lambda>x y. x = i \<and> y = i) es + esum (\<lambda>x y. (x = i) \<noteq> (y = i)) es"
  by (induction es) (auto simp: contrib_def)

lemma esum_two_nodes:
  assumes "i \<noteq> j"
  shows "esum (\<lambda>x y. x = i) es + esum (\<lambda>x y. y = i) es + esum (\<lambda>x y. x = j) es + esum (\<lambda>x y. y = j) es \<le>
     2 * weight_sum es"
  using assms by (induction es) (auto simp: contrib_def)

lemma pair_weight_le: "i \<noteq> j \<Longrightarrow> pair_weight i j g \<le> outer_weight i g"
  unfolding pair_weight_def outer_weight_def by (rule esum_mono) auto

lemma pair_weight_sym: "pair_weight i j g = pair_weight j i g"
  unfolding pair_weight_def by (rule arg_cong [where f = "\<lambda>Q. esum Q (cg_edges g)"]) auto

lemma foldl_saturating:
  "unat (foldl (\<lambda>s e. if P e then saturating_add s (ed_weight e) else s) s es) =
     min (unat s + sum_list (map (\<lambda>e. if P e then unat (ed_weight e) else 0) es)) (2 ^ 64 - 1)"
proof (induction es arbitrary: s)
  case Nil
  then show ?case using unsigned_less [of s, where ?'a = nat] by simp
next
  case (Cons e es)
  then show ?case by (auto simp: saturating_add_unat)
qed

lemma internal_weight_exact:
  assumes inv: "graph_inv g" and f: "find_node p g = Some i"
  shows "unat (internal_weight p g) = self_weight (unat i) g"
proof -
  have "sum_list (map (\<lambda>e. if ed_active e \<and> ed_from e = i \<and> ed_to e = i then unat (ed_weight e) else 0) es) =
      esum (\<lambda>x y. x = unat i \<and> y = unat i) es" for es
    by (induction es) (auto simp: contrib_def word_unat_eq_iff)
  moreover have "self_weight (unat i) g < 2 ^ 64"
    unfolding self_weight_def by (rule le_less_trans [OF esum_le graph_invD(6) [OF inv]])
  ultimately show ?thesis
    using f by (simp add: internal_weight_def foldl_saturating self_weight_def)
qed

text \<open>As long as the sum of all weights is below half the word size no sum saturates.\<close>

definition unsaturated :: "coherence_graph \<Rightarrow> bool" where
  "unsaturated g \<longleftrightarrow> weight_sum (cg_edges g) < 2 ^ 63"

lemma total_weight_split:
  assumes "graph_inv g" "unsaturated g" "find_node p g = Some i"
  shows "unat (total_weight p g) = 2 * self_weight (unat i) g + outer_weight (unat i) g"
proof -
  have "esum (\<lambda>x y. x = unat i) (cg_edges g) + esum (\<lambda>x y. y = unat i) (cg_edges g) < 2 ^ 64"
    using assms(2) esum_le [of "\<lambda>x y. x = unat i" "cg_edges g"] esum_le [of "\<lambda>x y. y = unat i" "cg_edges g"]
    by (simp add: unsaturated_def)
  then show ?thesis
    using total_weight_exact [OF assms(1,3)] esum_node [of "unat i" "cg_edges g"]
    by (simp add: self_weight_def outer_weight_def)
qed

lemma combined_weight:
  assumes "graph_inv g" "unsaturated g" "find_node a g = Some i" "find_node b g = Some j" "i \<noteq> j"
  shows "unat (saturating_add (total_weight a g) (total_weight b g)) = unat (total_weight a g) + unat (total_weight b g)"
proof -
  have "unat i \<noteq> unat j" using assms(5) by (simp add: word_unat_eq_iff)
  from esum_two_nodes [OF this, of "cg_edges g"]
  have "unat (total_weight a g) + unat (total_weight b g) < 2 ^ 64"
    using assms(2) total_weight_exact [OF assms(1,3)] total_weight_exact [OF assms(1,4)]
    by (simp add: unsaturated_def)
  then show ?thesis by (simp add: saturating_add_unat)
qed

section \<open>Ratios in basis points\<close>

lemma ratio_le: "a \<le> b \<Longrightarrow> a * 10000 div b \<le> (10000 :: nat)"
  by (cases "b = 0") (auto simp: div_le_mono dest: mult_le_mono1 [of a b 10000] intro: order_trans [OF div_le_mono])

lemma ratio_word:
  assumes "a \<le> b"
  shows "unat (of_nat (a * 10000 div b) :: u16) = a * 10000 div b"
    "unat (of_nat (a * 10000 div b) :: u32) = a * 10000 div b"
  using ratio_le [OF assms] by (simp_all add: unat_of_nat)

lemma coherence_score_exact:
  assumes inv: "graph_inv g" "unsaturated g" and f: "find_node p g = Some i"
  defines "s \<equiv> self_weight (unat i) g" and "x \<equiv> outer_weight (unat i) g"
  shows "unat (pc_score (compute_coherence_score p g)) =
     (if 2 * s + x = 0 then 10000 else s * 10000 div (2 * s + x))"
proof -
  have t: "unat (total_weight p g) = 2 * s + x" "unat (internal_weight p g) = s"
    using total_weight_split [OF inv f] internal_weight_exact [OF inv(1) f] by (simp_all add: s_def x_def)
  have z: "total_weight p g = 0 \<longleftrightarrow> 2 * s + x = 0"
    using t(1) by (metis unat_eq_zero)
  have r: "unat (of_nat (s * 10000 div (2 * s + x)) :: u16) = s * 10000 div (2 * s + x)"
    "s * 10000 div (2 * s + x) \<le> 10000"
    by (rule ratio_word(1), simp, rule ratio_le, simp)
  show ?thesis
    using r by (auto simp: compute_coherence_score_def Let_def z t SCORE_MAX_def from_basis_points_def word_less_nat_alt)
qed

lemma cut_pressure_exact:
  assumes inv: "graph_inv g" "unsaturated g" and f: "find_node p g = Some i"
  defines "s \<equiv> self_weight (unat i) g" and "x \<equiv> outer_weight (unat i) g"
  shows "unat (ps_pressure (compute_cut_pressure p g)) =
     (if 2 * s + x = 0 then 0 else (s + x) * 10000 div (2 * s + x))"
proof -
  have t: "unat (total_weight p g) = 2 * s + x" "unat (internal_weight p g) = s"
    using total_weight_split [OF inv f] internal_weight_exact [OF inv(1) f] by (simp_all add: s_def x_def)
  have z: "total_weight p g = 0 \<longleftrightarrow> 2 * s + x = 0"
    using t(1) by (metis unat_eq_zero)
  have r: "unat (of_nat ((s + x) * 10000 div (2 * s + x)) :: u32) = (s + x) * 10000 div (2 * s + x)"
    by (rule ratio_word(2)) simp
  have e: "2 * s + x - s = s + x" by simp
  show ?thesis
    using r by (auto simp: compute_cut_pressure_def Let_def z t saturating_sub_unat e)
qed

lemma merge_signal_exact:
  assumes inv: "graph_inv g" "unsaturated g"
    and f: "find_node a g = Some i" "find_node b g = Some j" "i \<noteq> j"
  defines "m \<equiv> pair_weight (unat i) (unat j) g"
    and "t \<equiv> 2 * self_weight (unat i) g + outer_weight (unat i) g + (2 * self_weight (unat j) g + outer_weight (unat j) g)"
  shows "unat (ms_mutual_coherence (evaluate_merge a b g)) = (if t = 0 then 0 else m * 10000 div t)"
    "ms_should_merge (evaluate_merge a b g) \<longleftrightarrow> t \<noteq> 0 \<and> 4000 \<le> m * 10000 div t"
proof -
  have c: "unat (saturating_add (total_weight a g) (total_weight b g)) = t"
    using combined_weight [OF inv f] total_weight_split [OF inv f(1)] total_weight_split [OF inv f(2)]
    by (simp add: t_def)
  have z: "saturating_add (total_weight a g) (total_weight b g) = 0 \<longleftrightarrow> t = 0"
    using c by (metis unat_eq_zero)
  have w: "unat (edge_weight_between a b g) = m"
    using edge_weight_between_exact [OF inv(1) f] by (simp add: m_def pair_weight_def)
  have "unat i \<noteq> unat j" using f(3) by (simp add: word_unat_eq_iff)
  then have "m \<le> t" using pair_weight_le [of "unat i" "unat j" g] by (simp add: m_def t_def)
  then have r: "unat (of_nat (m * 10000 div t) :: u16) = m * 10000 div t" "m * 10000 div t \<le> 10000"
    by (rule ratio_word(1), rule ratio_le)
  show "unat (ms_mutual_coherence (evaluate_merge a b g)) = (if t = 0 then 0 else m * 10000 div t)"
    using r by (auto simp: evaluate_merge_def Let_def z c w from_basis_points_def word_less_nat_alt)
  show "ms_should_merge (evaluate_merge a b g) \<longleftrightarrow> t \<noteq> 0 \<and> 4000 \<le> m * 10000 div t"
    using r by (auto simp: evaluate_merge_def Let_def z c w MERGE_COHERENCE_THRESHOLD_BP_def word_less_nat_alt word_le_nat_alt)
qed

lemma merge_signal_absent:
  assumes "graph_inv g" "find_node a g = None \<or> find_node b g = None"
  shows "\<not> ms_should_merge (evaluate_merge a b g)"
  using assms(2)
  by (auto simp: evaluate_merge_def edge_weight_between_def Let_def MERGE_COHERENCE_THRESHOLD_BP_def split: option.split)

text \<open>
  The arithmetic behind the recommendation: two nodes whose pressure is not above 8000 basis points
  have too much traffic of their own for their mutual share to reach 4000 basis points.
\<close>

lemma low_pressure_bound:
  assumes "(s + x) * 10000 div (2 * s + x) \<le> 8000" "2 * s + x \<noteq> (0 :: nat)"
  shows "1999 * x \<le> 6002 * s"
proof -
  have "(s + x) * 10000 div (2 * s + x) < 8001" "0 < 2 * s + x" using assms by simp_all
  then have "(s + x) * 10000 < 8001 * (2 * s + x)" by (simp only: div_less_iff_less_mult)
  then show ?thesis by simp
qed

lemma merge_needs_pressure:
  assumes "(sa + xa) * 10000 div (2 * sa + xa) \<le> 8000" "(sb + xb) * 10000 div (2 * sb + xb) \<le> 8000"
    and "m \<le> xa" "m \<le> xb" "2 * sa + xa + (2 * sb + xb) \<noteq> (0 :: nat)"
  shows "m * 10000 div (2 * sa + xa + (2 * sb + xb)) < 4000"
proof -
  have b: "1999 * m \<le> 6002 * sa" "1999 * m \<le> 6002 * sb"
    using low_pressure_bound [of sa xa] low_pressure_bound [of sb xb] assms(1-4)
    by (cases "2 * sa + xa = 0"; cases "2 * sb + xb = 0"; simp)+
  have t: "0 < 2 * sa + xa + (2 * sb + xb)" using assms(5) by simp
  have "m * 10000 < 4000 * (2 * sa + xa + (2 * sb + xb))"
  proof (cases "m = 0")
    case True
    with t show ?thesis by simp
  next
    case False
    then have "0 < m" by simp
    with b assms(3,4) show ?thesis by simp
  qed
  with t show ?thesis by (simp only: div_less_iff_less_mult)
qed

lemma share_arith:
  fixes s x :: nat
  assumes "2 * s + x \<noteq> 0"
  defines "a \<equiv> s * 10000 div (2 * s + x)" and "b \<equiv> (s + x) * 10000 div (2 * s + x)"
  shows "a \<le> 5000" "5000 \<le> b" "b \<le> 10000" "9999 \<le> a + b" "a + b \<le> 10000"
    "x = 0 \<Longrightarrow> a = 5000 \<and> b = 5000" "s = 0 \<Longrightarrow> a = 0 \<and> b = 10000"
proof -
  define t where "t = 2 * s + x"
  have t: "0 < t" using assms(1) by (simp add: t_def)
  have ab: "a * t \<le> s * 10000" "s * 10000 < a * t + t" "b * t \<le> (s + x) * 10000" "(s + x) * 10000 < b * t + t"
    using div_times_less_eq_dividend [of "s * 10000" t] dividend_less_div_times [OF t, of "s * 10000"]
      div_times_less_eq_dividend [of "(s + x) * 10000" t] dividend_less_div_times [OF t, of "(s + x) * 10000"]
    unfolding a_def b_def t_def by (simp_all add: add.commute)
  have "a * t \<le> 5000 * t" "5000 * t < (b + 1) * t" "b * t \<le> 10000 * t" "10000 * t < (a + b + 2) * t" "(a + b) * t \<le> 10000 * t"
    using ab unfolding t_def by (simp_all add: algebra_simps)
  then have "a \<le> 5000" "5000 < b + 1" "b \<le> 10000" "10000 < a + b + 2" "a + b \<le> 10000"
    using t by (simp_all only: mult_le_cancel2 mult_less_cancel2)
  then show "a \<le> 5000" "5000 \<le> b" "b \<le> 10000" "9999 \<le> a + b" "a + b \<le> 10000" by simp_all
  show "x = 0 \<Longrightarrow> a = 5000 \<and> b = 5000" "s = 0 \<Longrightarrow> a = 0 \<and> b = 10000"
    using assms(1) unfolding a_def b_def by (auto simp: mult.commute [of s])
qed

section \<open>The engine chooses a maximum\<close>

definition pick :: "('a \<Rightarrow> bool) \<Rightarrow> ('a \<Rightarrow> 'k::linorder) \<Rightarrow> 'a option \<Rightarrow> 'a \<Rightarrow> 'a option" where
  "pick P key best x =
     (if P x then (case best of None \<Rightarrow> Some x | Some y \<Rightarrow> if key x > key y then Some x else best) else best)"

lemma pick_max:
  "case foldl (pick P key) None xs of
     None \<Rightarrow> \<forall>x\<in>set xs. \<not> P x
   | Some x \<Rightarrow> x \<in> set xs \<and> P x \<and> (\<forall>y\<in>set xs. P y \<longrightarrow> key y \<le> key x)"
proof (induction xs rule: rev_induct)
  case Nil
  then show ?case by simp
next
  case (snoc x xs)
  then show ?case by (auto simp: pick_def split: option.splits)
qed

lemma best_split_pick:
  "best_split es =
     foldl (pick (\<lambda>(_, p). p > SPLIT_THRESHOLD_BP) snd) None
       (map (\<lambda>en. (pe_id en, pe_pressure en)) (filter pe_active es))"
proof -
  have "foldl consider_split b es =
      foldl (pick (\<lambda>(_, p). p > SPLIT_THRESHOLD_BP) snd) b
        (map (\<lambda>en. (pe_id en, pe_pressure en)) (filter pe_active es))" for b
    by (induction es arbitrary: b) (auto simp: consider_split_def pick_def split: option.splits)
  then show ?thesis by (simp add: best_split_def)
qed

definition entry_pairs :: "partition_entry list \<Rightarrow> (partition_id \<times> partition_id) list" where
  "entry_pairs es =
     concat (map (\<lambda>i. map (\<lambda>j. (pe_id (es ! i), pe_id (es ! j)))
         (filter (\<lambda>j. pe_active (es ! j)) [i + 1..<length es]))
       (filter (\<lambda>i. pe_active (es ! i)) [0..<length es]))"

lemma foldl_concat: "foldl (\<lambda>b i. foldl f b (L i)) b xs = foldl f b (concat (map L xs))"
  by (induction xs arbitrary: b) simp_all

lemma foldl_filter_map: "foldl (\<lambda>b j. if P j then f b (h j) else b) b js = foldl f b (map h (filter P js))"
  by (induction js arbitrary: b) simp_all

lemma best_merge_pick:
  assumes "length es = ENGINE_MAX_NODES"
  shows "best_merge g (active_entry_ids es) =
    foldl (pick ms_should_merge ms_mutual_coherence) None (map (\<lambda>(a, b). evaluate_merge a b g) (entry_pairs es))"
proof -
  have c: "consider_merge = pick ms_should_merge ms_mutual_coherence"
    by (intro ext) (simp add: consider_merge_def pick_def)
  have nth: "active_entry_ids es ! i = (if pe_active (es ! i) then Some (pe_id (es ! i)) else None)"
    if "i < ENGINE_MAX_NODES" for i using that assms by (simp add: active_entry_ids_def)
  define inner where "inner a i = map (\<lambda>j. evaluate_merge a (pe_id (es ! j)) g)
    (filter (\<lambda>j. pe_active (es ! j)) [i + 1..<ENGINE_MAX_NODES])" for a i
  have row: "foldl (\<lambda>best j. case active_entry_ids es ! j of None \<Rightarrow> best
        | Some b \<Rightarrow> consider_merge best (evaluate_merge a b g)) best [i + 1..<ENGINE_MAX_NODES] =
      foldl (pick ms_should_merge ms_mutual_coherence) best (inner a i)" for a best i
    unfolding inner_def foldl_filter_map [symmetric] c
    by (rule foldl_cong) (auto simp: nth)
  have "best_merge g (active_entry_ids es) =
      foldl (\<lambda>best i. if pe_active (es ! i)
        then foldl (pick ms_should_merge ms_mutual_coherence) best (inner (pe_id (es ! i)) i) else best)
       None [0..<ENGINE_MAX_NODES]"
    unfolding best_merge_def by (rule foldl_cong) (auto simp: nth row [unfolded Suc_eq_plus1 [symmetric]] simp del: upt_Suc)
  also have "\<dots> = foldl (pick ms_should_merge ms_mutual_coherence) None
      (concat (map (\<lambda>i. inner (pe_id (es ! i)) i) (filter (\<lambda>i. pe_active (es ! i)) [0..<ENGINE_MAX_NODES])))"
    unfolding foldl_filter_map
      [of "\<lambda>i. pe_active (es ! i)" "\<lambda>b xs. foldl (pick ms_should_merge ms_mutual_coherence) b xs"
        "\<lambda>i. inner (pe_id (es ! i)) i"]
    by (simp add: foldl_concat [where L = "\<lambda>xs. xs"])
  also have "concat (map (\<lambda>i. inner (pe_id (es ! i)) i) (filter (\<lambda>i. pe_active (es ! i)) [0..<ENGINE_MAX_NODES])) =
      map (\<lambda>(a, b). evaluate_merge a b g) (entry_pairs es)"
    by (simp add: entry_pairs_def map_concat inner_def comp_def assms)
  finally show ?thesis .
qed

lemma entry_pairs_set:
  "(a, b) \<in> set (entry_pairs es) \<longleftrightarrow>
     (\<exists>i j. i < j \<and> j < length es \<and> pe_active (es ! i) \<and> pe_active (es ! j) \<and> a = pe_id (es ! i) \<and> b = pe_id (es ! j))"
proof
  assume "\<exists>i j. i < j \<and> j < length es \<and> pe_active (es ! i) \<and> pe_active (es ! j) \<and> a = pe_id (es ! i) \<and> b = pe_id (es ! j)"
  then obtain i j where ij: "i < j" "j < length es" "pe_active (es ! i)" "pe_active (es ! j)"
    "a = pe_id (es ! i)" "b = pe_id (es ! j)" by blast
  then have "i \<in> set (filter (\<lambda>i. pe_active (es ! i)) [0..<length es])"
    "(a, b) \<in> set (map (\<lambda>j. (pe_id (es ! i), pe_id (es ! j))) (filter (\<lambda>j. pe_active (es ! j)) [i + 1..<length es]))"
    by auto
  then show "(a, b) \<in> set (entry_pairs es)"
    unfolding entry_pairs_def set_concat set_map [of _ "filter (\<lambda>i. pe_active (es ! i)) [0..<length es]"]
    by (rule UN_I [OF imageI])
next
  assume "(a, b) \<in> set (entry_pairs es)"
  then obtain i j where "i < length es" "pe_active (es ! i)" "Suc i \<le> j" "j < length es" "pe_active (es ! j)"
    "a = pe_id (es ! i)" "b = pe_id (es ! j)"
    by (auto simp: entry_pairs_def)
  then show "\<exists>i j. i < j \<and> j < length es \<and> pe_active (es ! i) \<and> pe_active (es ! j) \<and> a = pe_id (es ! i) \<and> b = pe_id (es ! j)"
    by (intro exI [of _ i] exI [of _ j]) simp
qed

text \<open>What a recommendation means for the entries and the graph.\<close>

definition recommendation_ok :: "coherence_engine \<Rightarrow> coherence_decision \<Rightarrow> bool" where
  "recommendation_ok e d \<longleftrightarrow>
     (let active = {en \<in> set (en_entries e). pe_active en};
          merges = {m. \<exists>(a, b) \<in> set (entry_pairs (en_entries e)). m = evaluate_merge a b (en_graph e) \<and> ms_should_merge m}
      in case d of
           SplitRecommended p pr \<Rightarrow>
             pr > SPLIT_THRESHOLD_BP \<and> (\<exists>en\<in>active. pe_id en = p \<and> pe_pressure en = pr) \<and>
             (\<forall>en\<in>active. pe_pressure en \<le> pr)
         | MergeRecommended a b c \<Rightarrow>
             (\<forall>en\<in>active. pe_pressure en \<le> SPLIT_THRESHOLD_BP) \<and>
             (\<exists>m\<in>merges. ms_partition_a m = a \<and> ms_partition_b m = b \<and> ms_mutual_coherence m = c) \<and>
             (\<forall>m\<in>merges. ms_mutual_coherence m \<le> c)
         | NoAction \<Rightarrow>
             (\<forall>en\<in>active. pe_pressure en \<le> SPLIT_THRESHOLD_BP) \<and> merges = {})"

lemma recommend_ok:
  assumes "length (en_entries e) = ENGINE_MAX_NODES"
  shows "recommendation_ok e (recommend e)"
proof -
  let ?split = "map (\<lambda>en. (pe_id en, pe_pressure en)) (filter pe_active (en_entries e))"
    and ?merge = "map (\<lambda>(a, b). evaluate_merge a b (en_graph e)) (entry_pairs (en_entries e))"
  note s = pick_max [where P = "\<lambda>(_, p). p > SPLIT_THRESHOLD_BP" and key = snd and xs = ?split]
    and m = pick_max [where P = ms_should_merge and key = ms_mutual_coherence and xs = ?merge]
  show ?thesis
  proof (cases "best_split (en_entries e)")
    case (Some pp)
    obtain p pr where pp: "pp = (p, pr)" by (cases pp)
    have "(p, pr) \<in> set ?split" "pr > SPLIT_THRESHOLD_BP" "\<forall>(q, y)\<in>set ?split. y > SPLIT_THRESHOLD_BP \<longrightarrow> y \<le> pr"
      using s Some by (auto simp: best_split_pick pp)
    then show ?thesis
      using Some by (auto simp: recommend_def recommendation_ok_def pp Let_def)
  next
    case None
    have low: "\<forall>en\<in>set (en_entries e). pe_active en \<longrightarrow> pe_pressure en \<le> SPLIT_THRESHOLD_BP"
      using s None by (auto simp: best_split_pick not_less)
    show ?thesis
    proof (cases "best_merge (en_graph e) (active_entry_ids (en_entries e))")
      case m0: None
      then have "\<forall>x\<in>set ?merge. \<not> ms_should_merge x"
        using m by (simp add: best_merge_pick [OF assms])
      then show ?thesis
        using None m0 low by (auto simp: recommend_def recommendation_ok_def Let_def)
    next
      case (Some x)
      then have "x \<in> set ?merge" "ms_should_merge x"
        "\<forall>y\<in>set ?merge. ms_should_merge y \<longrightarrow> ms_mutual_coherence y \<le> ms_mutual_coherence x"
        using m by (simp_all add: best_merge_pick [OF assms])
      then show ?thesis
        using None Some low by (auto simp: recommend_def recommendation_ok_def Let_def)
    qed
  qed
qed

section \<open>Entries and nodes\<close>

definition node_ids :: "coherence_graph \<Rightarrow> partition_id list" where
  "node_ids g = List.map_filter nd_partition (cg_nodes g)"

definition entry_id :: "partition_entry \<Rightarrow> partition_id option" where
  "entry_id en = (if pe_active en then Some (pe_id en) else None)"

definition entry_ids :: "partition_entry list \<Rightarrow> partition_id list" where
  "entry_ids es = List.map_filter entry_id es"

fun opt_mset :: "'a option \<Rightarrow> 'a multiset" where
  "opt_mset None = {#}"
| "opt_mset (Some x) = {#x#}"

lemma map_filter_Cons [simp]:
  "List.map_filter f (x # xs) = (case f x of None \<Rightarrow> List.map_filter f xs | Some y \<Rightarrow> y # List.map_filter f xs)"
  by (simp add: List.map_filter_def split: option.split)

lemma map_filter_append: "List.map_filter f (xs @ ys) = List.map_filter f xs @ List.map_filter f ys"
  by (simp add: List.map_filter_def)

lemma map_filter_Nil [simp]: "List.map_filter f [] = []"
  by (simp add: List.map_filter_def)

lemma mset_map_filter_update:
  "i < length xs \<Longrightarrow>
     mset (List.map_filter f (xs[i := y])) + opt_mset (f (xs ! i)) = mset (List.map_filter f xs) + opt_mset (f y)"
proof (induction xs arbitrary: i)
  case Nil
  then show ?case by simp
next
  case (Cons x xs)
  then show ?case by (cases i) (auto split: option.split)
qed

lemma map_filter_cong_map: "map f xs = map f ys \<Longrightarrow> List.map_filter f xs = List.map_filter f ys"
proof (induction xs arbitrary: ys)
  case Nil
  then show ?case by simp
next
  case (Cons x xs)
  then show ?case by (cases ys) (auto split: option.split)
qed

lemma length_map_filter: "length (List.map_filter f xs) = count_if (\<lambda>x. f x \<noteq> None) xs"
  by (induction xs) (auto split: option.split)

lemma set_map_filter: "y \<in> set (List.map_filter f xs) \<longleftrightarrow> (\<exists>x\<in>set xs. f x = Some y)"
  by (induction xs) (auto split: option.split)

lemma set_map_filter_nth: "y \<in> set (List.map_filter f xs) \<longleftrightarrow> (\<exists>i<length xs. f (xs ! i) = Some y)"
  unfolding set_map_filter by (metis in_set_conv_nth)

lemma map_filter_replicate [simp]: "f x = None \<Longrightarrow> List.map_filter f (replicate n x) = []"
  by (induction n) auto

lemma distinct_map_filter:
  assumes "\<And>i j. i < length xs \<Longrightarrow> j < length xs \<Longrightarrow> f (xs ! i) \<noteq> None \<Longrightarrow> f (xs ! i) = f (xs ! j) \<Longrightarrow> i = j"
  shows "distinct (List.map_filter f xs)"
  using assms
proof (induction xs)
  case Nil
  then show ?case by simp
next
  case (Cons x xs)
  have "distinct (List.map_filter f xs)"
    by (rule Cons.IH) (use Cons.prems [of "Suc _" "Suc _"] in auto)
  moreover have "f x \<noteq> Some y" if y: "y \<in> set (List.map_filter f xs)" for y
  proof
    assume "f x = Some y"
    moreover obtain i where "i < length xs" "f (xs ! i) = Some y"
      using y by (auto simp: set_map_filter_nth)
    ultimately show False using Cons.prems [of 0 "Suc i"] by simp
  qed
  ultimately show ?case by (auto split: option.split)
qed

lemma node_ids_distinct: "graph_inv g \<Longrightarrow> distinct (node_ids g)"
  unfolding node_ids_def by (rule distinct_map_filter) (use graph_invD(1) [of g] in \<open>auto simp: nodes_ok_def\<close>)

lemma node_ids_find:
  assumes "graph_inv g"
  shows "p \<in> set (node_ids g) \<longleftrightarrow> find_node p g \<noteq> None"
proof
  assume "p \<in> set (node_ids g)"
  then obtain i where "i < length (cg_nodes g)" "nd_partition (cg_nodes g ! i) = Some p"
    by (auto simp: node_ids_def set_map_filter_nth)
  then show "find_node p g \<noteq> None" using find_node_live [OF assms] by simp
next
  assume "find_node p g \<noteq> None"
  then obtain i where "find_node p g = Some i" by auto
  from find_node_Some(1,2) [OF assms this] show "p \<in> set (node_ids g)"
    by (auto simp: node_ids_def set_map_filter_nth live_node_def)
qed

definition engine_inv :: "coherence_engine \<Rightarrow> bool" where
  "engine_inv e \<longleftrightarrow>
     graph_inv (en_graph e) \<and> length (cg_nodes (en_graph e)) = ENGINE_MAX_NODES \<and>
     length (en_entries e) = ENGINE_MAX_NODES \<and>
     mset (entry_ids (en_entries e)) = mset (node_ids (en_graph e))"

lemma engine_invD:
  assumes "engine_inv e"
  shows "graph_inv (en_graph e)" "length (cg_nodes (en_graph e)) = ENGINE_MAX_NODES"
    "length (en_entries e) = ENGINE_MAX_NODES" "mset (entry_ids (en_entries e)) = mset (node_ids (en_graph e))"
    "distinct (entry_ids (en_entries e))" "set (entry_ids (en_entries e)) = set (node_ids (en_graph e))"
proof -
  show "graph_inv (en_graph e)" "length (cg_nodes (en_graph e)) = ENGINE_MAX_NODES"
    "length (en_entries e) = ENGINE_MAX_NODES" and m: "mset (entry_ids (en_entries e)) = mset (node_ids (en_graph e))"
    using assms by (simp_all add: engine_inv_def)
  then show "distinct (entry_ids (en_entries e))" using node_ids_distinct by (metis mset_eq_imp_distinct_iff)
  show "set (entry_ids (en_entries e)) = set (node_ids (en_graph e))" using m by (metis set_mset_mset)
qed

lemma engine_inv_graph:
  assumes "engine_inv e" "graph_inv g" "map nd_partition (cg_nodes g) = map nd_partition (cg_nodes (en_graph e))"
    and "en_graph e' = g" "map entry_id (en_entries e') = map entry_id (en_entries e)"
  shows "engine_inv e'"
proof -
  have "length (cg_nodes g) = length (cg_nodes (en_graph e))" "length (en_entries e') = length (en_entries e)"
    using assms(3,5) by (metis length_map)+
  moreover have "node_ids g = node_ids (en_graph e)" "entry_ids (en_entries e') = entry_ids (en_entries e)"
    using assms(3,5) unfolding node_ids_def entry_ids_def by (metis map_filter_cong_map)+
  ultimately show ?thesis using assms(1,2,4) by (simp add: engine_inv_def)
qed

lemma engine_new_inv: "engine_inv (engine_new b)"
  using graph_new_inv [of 32 128]
  by (simp add: engine_inv_def engine_new_def entry_ids_def node_ids_def graph_new_def ENGINE_MAX_NODES_def
      ENGINE_MAX_EDGES_def ADJ_DIM_def EMPTY_PARTITION_ENTRY_def EMPTY_NODE_def entry_id_def)

lemma entry_position:
  assumes "position (\<lambda>en. pe_active en \<and> pe_id en = p) es = Some i"
  shows "i < length es" "entry_id (es ! i) = Some p"
  using position_Some [OF assms] by (auto simp: entry_id_def)

lemma add_partition_inv:
  assumes inv: "engine_inv e" and run: "add_partition p e = (r, e')"
  shows "engine_inv e' \<and>
    r = (if find_node p (en_graph e) \<noteq> None then Inl InvalidPartitionState
         else if length (node_ids (en_graph e)) = ENGINE_MAX_NODES then Inl ResourceLimitExceeded
         else Inr ())"
proof -
  let ?g = "en_graph e" and ?es = "en_entries e"
  note D = engine_invD [OF inv]
  have full: "position (\<lambda>n. nd_partition n = None) (cg_nodes ?g) = None \<longleftrightarrow> length (node_ids ?g) = ENGINE_MAX_NODES"
    using count_if_full [of "\<lambda>n. nd_partition n \<noteq> None" "cg_nodes ?g"] D(2)
    by (simp add: position_None node_ids_def length_map_filter)
  show ?thesis
  proof (cases "find_node p ?g = None \<and> position (\<lambda>n. nd_partition n = None) (cg_nodes ?g) \<noteq> None")
    case False
    then show ?thesis
      using run inv full by (auto simp: add_partition_def add_node_def split: if_splits option.splits)
  next
    case True
    then obtain i where i: "position (\<lambda>n. nd_partition n = None) (cg_nodes ?g) = Some i" by auto
    obtain g' where g': "add_node p ?g = (Inr (of_nat i), g')"
      "cg_nodes g' = (cg_nodes ?g)[i := \<lparr>nd_partition = Some p, nd_first_edge = INVALID\<rparr>]"
      using True i by (simp add: add_node_def)
    have "length (entry_ids ?es) = length (node_ids ?g)" using D(4) by (metis size_mset)
    then have "count_if (\<lambda>en. entry_id en \<noteq> None) ?es \<noteq> length ?es"
      using full i D(3) by (simp add: entry_ids_def length_map_filter)
    then obtain k where k: "position (\<lambda>en. \<not> pe_active en) ?es = Some k"
      using position_None [of "\<lambda>en. \<not> pe_active en" ?es] count_if_full [of "\<lambda>en. entry_id en \<noteq> None" ?es]
      by (auto simp: entry_id_def)
    define en where "en = \<lparr>pe_id = p, pe_score = SCORE_MAX, pe_pressure = 0, pe_active = True\<rparr>"
    have e': "e' = e\<lparr>en_graph := g', en_entries := ?es[k := en]\<rparr>" "r = Inr ()"
      using run g' k by (simp_all add: add_partition_def en_def Let_def)
    have "mset (entry_ids (?es[k := en])) = mset (entry_ids ?es) + {#p#}"
      using mset_map_filter_update [where f = entry_id and i = k and xs = ?es and y = en] position_Some [OF k]
      by (simp add: entry_ids_def en_def entry_id_def)
    moreover have "mset (node_ids g') = mset (node_ids ?g) + {#p#}"
      using mset_map_filter_update [where f = nd_partition and i = i and xs = "cg_nodes ?g"
          and y = "\<lparr>nd_partition = Some p, nd_first_edge = INVALID\<rparr>"] position_Some [OF i] g'(2)
      by (simp add: node_ids_def)
    moreover have "graph_inv g'" by (rule add_node_inv [OF D(1) g'(1)])
    moreover have "length (node_ids ?g) \<noteq> ENGINE_MAX_NODES" using full i by simp
    ultimately show ?thesis using D g'(2) True e' by (simp add: engine_inv_def)
  qed
qed

lemma remove_node_ids:
  assumes inv: "graph_inv g" and run: "remove_node p g = Some (Inr (), g')"
  shows "mset (node_ids g') + {#p#} = mset (node_ids g)" "length (cg_nodes g') = length (cg_nodes g)"
proof -
  obtain idx where f: "find_node p g = Some idx"
    using run by (auto simp: remove_node_def split: option.splits)
  obtain g1 where g1: "remove_incident idx [0..<length (cg_edges g)] g = Some g1" "same_nodes g g1"
    using remove_incident_inv [OF inv, of "[0..<length (cg_edges g)]" idx] by auto
  note N = find_node_Some [OF inv f]
  have g': "cg_nodes g' = (cg_nodes g1)[unat idx := \<lparr>nd_partition = None, nd_first_edge = INVALID\<rparr>]"
    using run f g1(1) by (auto simp: remove_node_def Let_def split: if_splits)
  have "node_ids g1 = node_ids g"
    unfolding node_ids_def by (rule map_filter_cong_map) (use g1(2) in \<open>simp add: same_nodes_def\<close>)
  moreover have "unat idx < length (cg_nodes g1)" "nd_partition (cg_nodes g1 ! unat idx) = Some p"
    using N same_nodesD [OF g1(2)] by (auto simp: live_node_def)
  ultimately show "mset (node_ids g') + {#p#} = mset (node_ids g)"
    using mset_map_filter_update [where f = nd_partition and i = "unat idx" and xs = "cg_nodes g1"
        and y = "\<lparr>nd_partition = None, nd_first_edge = INVALID\<rparr>"] g'
    by (simp add: node_ids_def)
  show "length (cg_nodes g') = length (cg_nodes g)" using g' same_nodesD(1) [OF g1(2)] by simp
qed

lemma remove_partition_inv:
  assumes inv: "engine_inv e"
  shows "\<exists>r e'. remove_partition p e = Some (r, e') \<and> engine_inv e' \<and>
    r = (if p \<in> set (node_ids (en_graph e)) then Inr () else Inl PartitionNotFound)"
proof -
  let ?g = "en_graph e" and ?es = "en_entries e"
  note D = engine_invD [OF inv]
  obtain r g' where rn: "remove_node p ?g = Some (r, g')" "graph_inv g'" "r = Inr () \<longleftrightarrow> find_node p ?g \<noteq> None"
    using remove_node_inv [OF D(1), of p] by blast
  show ?thesis
  proof (cases "p \<in> set (node_ids ?g)")
    case False
    then have "find_node p ?g = None" using node_ids_find [OF D(1)] by simp
    then have "remove_node p ?g = Some (Inl NodeNotFound, ?g)" by (simp add: remove_node_def)
    then show ?thesis using False inv by (simp add: remove_partition_def)
  next
    case True
    then have r: "r = Inr ()" using node_ids_find [OF D(1)] rn(3) by simp
    have "p \<in> set (entry_ids ?es)" using True D(6) by simp
    then obtain k where k: "position (\<lambda>en. pe_active en \<and> pe_id en = p) ?es = Some k"
      using position_None [of "\<lambda>en. pe_active en \<and> pe_id en = p" ?es]
      by (force simp: entry_ids_def set_map_filter entry_id_def split: if_splits)
    note K = entry_position [OF k]
    have "mset (entry_ids (?es[k := (?es ! k)\<lparr>pe_active := False\<rparr>])) + {#p#} = mset (entry_ids ?es)"
      using mset_map_filter_update [where f = entry_id and i = k and xs = ?es and y = "(?es ! k)\<lparr>pe_active := False\<rparr>"] K
      by (simp add: entry_ids_def) (simp add: entry_id_def)
    with remove_node_ids(1) [OF D(1) rn(1) [unfolded r]] D(4)
    have "mset (entry_ids (?es[k := (?es ! k)\<lparr>pe_active := False\<rparr>])) = mset (node_ids g')"
      by (metis add_right_imp_eq)
    then show ?thesis
      using rn(1,2) r k D True remove_node_ids(2) [OF D(1) rn(1) [unfolded r]]
      by (simp add: remove_partition_def engine_inv_def Let_def)
  qed
qed

lemma clamp_i64_le: "unat (clamp_i64 w) \<le> unat w"
  by (simp add: clamp_i64_def)

lemma add_edge_nodes:
  "add_edge from to w g = (r, g') \<Longrightarrow> map nd_partition (cg_nodes g') = map nd_partition (cg_nodes g)"
  by (auto simp: add_edge_def nodes_head_update Let_def split: option.splits sum.splits)

text \<open>A message may be recorded while its weight keeps the sum of all weights in 64 bits.\<close>

lemma record_communication_inv:
  assumes inv: "engine_inv e" and w: "weight_sum (cg_edges (en_graph e)) + unat w < 2 ^ 64"
  shows "\<exists>r e'. record_communication p q w e = Some (r, e') \<and> engine_inv e' \<and> en_entries e' = en_entries e"
proof -
  let ?g = "en_graph e"
  note D = engine_invD [OF inv]
  have keep: "engine_inv (e\<lparr>en_graph := g\<rparr>)"
    if "graph_inv g" "map nd_partition (cg_nodes g) = map nd_partition (cg_nodes ?g)" for g
    by (rule engine_inv_graph [OF inv that]) simp_all
  have upd: "engine_inv (e\<lparr>en_graph := g\<rparr>)" if "update_weight k (clamp_i64 w) ?g = (r, g)" for k r g
  proof -
    have "graph_inv g \<and> same_nodes ?g g"
      by (rule update_weight_inv [OF D(1) _ that]) (use w clamp_i64_le [of w] in linarith)
    then show ?thesis by (intro keep) (simp_all add: same_nodes_def)
  qed
  have add: "engine_inv (e\<lparr>en_graph := g\<rparr>)" if "add_edge p q w ?g = (r, g)" for r g
    by (rule keep [OF add_edge_inv [OF D(1) w that] add_edge_nodes [OF that]])
  obtain r where "find_directed_edge p q ?g = Some r"
    using find_directed_edge_exact [OF D(1), of p _ q]
    by (cases "find_node p ?g"; cases "find_node q ?g") (auto simp: find_directed_edge_def)
  then show ?thesis
    using upd add by (auto simp: record_communication_def split: option.splits prod.splits sum.splits)
qed

lemma refresh_entry_id [simp]: "entry_id (refresh_entry score g en) = entry_id en"
  by (simp add: refresh_entry_def entry_id_def)

lemma engine_tick_inv:
  assumes inv: "engine_inv e"
  shows "\<exists>e'. engine_tick score load e = Some (recommend e', e') \<and> engine_inv e' \<and>
    (fst (adaptive_tick load (en_adaptive e)) \<longrightarrow>
       (\<forall>en\<in>set (en_entries e'). pe_active en \<longrightarrow>
          pe_score en = score (pe_id en) (en_graph e') \<and>
          pe_pressure en = ps_pressure (compute_cut_pressure (pe_id en) (en_graph e'))))"
proof -
  let ?g = "en_graph e"
  note D = engine_invD [OF inv]
  obtain n g' where dec: "decay_weights EDGE_DECAY_BP ?g = Some (n, g')" "graph_inv g'" "same_nodes ?g g'"
    using decay_weights_inv [OF D(1), of EDGE_DECAY_BP] by blast
  have keep: "engine_inv e'" if "en_graph e' = g'" "map entry_id (en_entries e') = map entry_id (en_entries e)" for e'
    by (rule engine_inv_graph [OF inv dec(2) _ that]) (use dec(3) in \<open>simp add: same_nodes_def\<close>)
  show ?thesis
  proof (cases "fst (adaptive_tick load (en_adaptive e))")
    case False
    then show ?thesis
      using dec(1) by (auto simp: engine_tick_def Let_def split_beta intro!: keep)
  next
    case True
    then show ?thesis
      using dec(1) by (auto simp: engine_tick_def Let_def split_beta refresh_entry_def entry_id_def intro!: keep split: if_splits)
  qed
qed

subsection \<open>The sum of the weights\<close>

lemma esum_nth_mono:
  assumes "length es' = length es" "\<And>k. k < length es \<Longrightarrow> contrib Q (es' ! k) \<le> contrib Q (es ! k)"
  shows "esum Q es' \<le> esum Q es"
  using assms by (auto simp: esum_def sum_list_sum_nth intro: sum_mono)

lemma decay_weight_sum:
  assumes "graph_inv g" "decay_weights bp g = Some (n, g')"
  shows "weight_sum (cg_edges g') \<le> weight_sum (cg_edges g)"
proof -
  let ?f = "saturating_sub 10000 (ucast bp) :: u64"
  have "?f \<le> 10000" by (simp add: word_le_nat_alt saturating_sub_unat)
  note dec = decayed_le [OF this]
  have v: "same_nodes g g'" "\<And>k. k < length (cg_edges g) \<Longrightarrow> edge_view (cg_edges g' ! k) =
      (let e = cg_edges g ! k; w = decayed ?f (ed_weight e) in
       if ed_active e then (ed_from e, ed_to e, if w = 0 then ed_weight e else w, w \<noteq> 0) else edge_view e)"
    using decay_weights_inv [OF assms(1), of bp] assms(2) by auto
  show ?thesis
  proof (rule esum_nth_mono)
    fix k assume "k < length (cg_edges g)"
    from v(2) [OF this] dec [of "ed_weight (cg_edges g ! k)"]
    show "contrib (\<lambda>_ _. True) (cg_edges g' ! k) \<le> contrib (\<lambda>_ _. True) (cg_edges g ! k)"
      by (auto simp: edge_view_def contrib_def Let_def word_le_nat_alt split: if_splits)
  qed (use v(1) in \<open>simp add: same_nodes_def\<close>)
qed

lemma add_edge_weight_sum:
  assumes "graph_inv g" "add_edge p q w g = (r, g')"
  shows "weight_sum (cg_edges g') \<le> weight_sum (cg_edges g) + unat w"
proof (cases "\<exists>fi ti k. find_node p g = Some fi \<and> find_node q g = Some ti \<and> alloc_edge g = Inr k")
  case False
  then have "g' = g" using assms(2) by (auto simp: add_edge_def split: option.splits sum.splits)
  then show ?thesis by simp
next
  case True
  then obtain fi ti k where F: "find_node p g = Some fi" "find_node q g = Some ti"
    and K: "position (\<lambda>e. \<not> ed_active e) (cg_edges g) = Some k"
    by (auto simp: alloc_edge_def split: option.splits)
  have "k < length (cg_edges g)" "length (cg_edges g) \<le> 65535"
    using position_Some [OF K] graph_invD(3) [OF assms(1)] by (auto simp: edges_ok_def)
  then have k: "unat (of_nat k :: u16) = k" "k < length (cg_edges g)" using index_word by auto
  define e where "e = \<lparr>ed_from = fi, ed_to = ti, ed_weight = w, ed_next_from = nd_first_edge (cg_nodes g ! unat fi), ed_active = True\<rparr>"
  have "cg_edges g' = (cg_edges g)[k := e]"
    using assms(2) F K k(1) by (auto simp: add_edge_def alloc_edge_def Let_def e_def)
  then show ?thesis
    using esum_update [OF k(2), of "\<lambda>_ _. True" e] by (simp add: contrib_def e_def split: if_splits)
qed

lemma update_weight_weight_sum:
  assumes "update_weight k d g = (r, g')"
  shows "weight_sum (cg_edges g') \<le> weight_sum (cg_edges g) + unat d"
proof (cases "unat k < length (cg_edges g) \<and> ed_active (cg_edges g ! unat k)")
  case True
  let ?e = "cg_edges g ! unat k"
  let ?nw = "if 0 \<le> sint d then saturating_add (ed_weight ?e) d else saturating_sub (ed_weight ?e) (- d)"
  have "cg_edges g' = (cg_edges g)[unat k := ?e\<lparr>ed_weight := ?nw\<rparr>]"
    using assms True by (auto simp: update_weight_def Let_def)
  moreover have "unat ?nw \<le> unat (ed_weight ?e) + unat d"
    by (cases "0 \<le> sint d") (simp_all add: saturating_add_unat saturating_sub_unat trans_le_add1)
  ultimately show ?thesis using reweight_sum [of "unat k" "cg_edges g" ?nw] True by simp
qed (use assms in \<open>auto simp: update_weight_def\<close>)

lemma record_communication_weight_sum:
  assumes inv: "engine_inv e" and run: "record_communication p q w e = Some (r, e')"
  shows "weight_sum (cg_edges (en_graph e')) \<le> weight_sum (cg_edges (en_graph e)) + unat w"
proof -
  note a = add_edge_weight_sum [OF engine_invD(1) [OF inv], of p q w]
  have u: "weight_sum (cg_edges g') \<le> weight_sum (cg_edges (en_graph e)) + unat w"
    if "update_weight k (clamp_i64 w) (en_graph e) = (r, g')" for k r g'
    using update_weight_weight_sum [OF that] clamp_i64_le [of w] by linarith
  show ?thesis
    using run a u by (auto simp: record_communication_def split: option.splits prod.splits sum.splits)
qed

lemma add_partition_edges [simp]: "cg_edges (en_graph (snd (add_partition p e))) = cg_edges (en_graph e)"
  by (auto simp: add_partition_def add_node_def Let_def split: option.splits)

lemma engine_tick_unsaturated:
  assumes "engine_inv e" "engine_tick score load e = Some (d, e')" "unsaturated (en_graph e)"
  shows "unsaturated (en_graph e')"
proof -
  obtain n g' where "decay_weights EDGE_DECAY_BP (en_graph e) = Some (n, g')" "en_graph e' = g'"
    using assms(2) by (auto simp: engine_tick_def Let_def split_beta split: option.splits if_splits)
  then show ?thesis
    using decay_weight_sum [OF engine_invD(1) [OF assms(1)], of EDGE_DECAY_BP n g'] assms(3)
    unfolding unsaturated_def by (metis le_less_trans)
qed

section \<open>Reachable engines\<close>

inductive engine_reach :: "score_backend \<Rightarrow> coherence_engine \<Rightarrow> bool" for score where
  new: "engine_reach score (engine_new b)"
| add: "engine_reach score e \<Longrightarrow> add_partition p e = (r, e') \<Longrightarrow> engine_reach score e'"
| remove: "engine_reach score e \<Longrightarrow> remove_partition p e = Some (r, e') \<Longrightarrow> engine_reach score e'"
| communicate: "engine_reach score e \<Longrightarrow> weight_sum (cg_edges (en_graph e)) + unat w < 2 ^ 64 \<Longrightarrow>
    record_communication p q w e = Some (r, e') \<Longrightarrow> engine_reach score e'"
| tick: "engine_reach score e \<Longrightarrow> engine_tick score load e = Some (d, e') \<Longrightarrow> engine_reach score e'"

lemma engine_reach_inv: "engine_reach score e \<Longrightarrow> engine_inv e"
proof (induction rule: engine_reach.induct)
  case (new b)
  then show ?case by (rule engine_new_inv)
next
  case (add e p r e')
  then show ?case using add_partition_inv by blast
next
  case (remove e p r e')
  then show ?case using remove_partition_inv [of e p] by auto
next
  case (communicate e w p q r e')
  then show ?case using record_communication_inv [of e w p q] by auto
next
  case (tick e load d e')
  then show ?case using engine_tick_inv [of e score load] by auto
qed

section \<open>Properties\<close>

lemma entry_pairs_distinct:
  assumes inv: "engine_inv e" and ab: "(a, b) \<in> set (entry_pairs (en_entries e))"
  shows "a \<noteq> b" "\<exists>x\<in>set (en_entries e). pe_active x \<and> pe_id x = a" "\<exists>x\<in>set (en_entries e). pe_active x \<and> pe_id x = b"
proof -
  let ?es = "en_entries e"
  obtain i j where ij: "i < j" "j < length ?es" "pe_active (?es ! i)" "pe_active (?es ! j)"
    "a = pe_id (?es ! i)" "b = pe_id (?es ! j)" using ab unfolding entry_pairs_set by blast
  then show "\<exists>x\<in>set ?es. pe_active x \<and> pe_id x = a" "\<exists>x\<in>set ?es. pe_active x \<and> pe_id x = b"
    by (auto intro: nth_mem)
  have "entry_ids ?es = entry_ids (take j ?es @ ?es ! j # drop (Suc j) ?es)"
    using ij(2) by (simp add: id_take_nth_drop [symmetric])
  then have "entry_ids ?es = entry_ids (take j ?es) @ b # entry_ids (drop (Suc j) ?es)"
    using ij(4,6) by (simp add: entry_ids_def map_filter_append entry_id_def)
  moreover have "a \<in> set (entry_ids (take j ?es))"
    using ij by (auto simp: entry_ids_def set_map_filter_nth entry_id_def intro!: exI [of _ i])
  ultimately show "a \<noteq> b" using engine_invD(5) [OF inv] by auto
qed

lemma low_pressure_no_merge:
  assumes inv: "graph_inv g" "unsaturated g" and ne: "a \<noteq> b"
    and low: "ps_pressure (compute_cut_pressure a g) \<le> SPLIT_THRESHOLD_BP"
      "ps_pressure (compute_cut_pressure b g) \<le> SPLIT_THRESHOLD_BP"
  shows "\<not> ms_should_merge (evaluate_merge a b g)"
proof (cases "find_node a g = None \<or> find_node b g = None")
  case True
  then show ?thesis by (rule merge_signal_absent [OF inv(1)])
next
  case False
  then obtain i j where f: "find_node a g = Some i" "find_node b g = Some j" by auto
  have ij: "i \<noteq> j" using find_node_Some(2) [OF inv(1) f(1)] find_node_Some(2) [OF inv(1) f(2)] ne by auto
  then have uij: "unat i \<noteq> unat j" by (simp add: word_unat_eq_iff)
  let ?sa = "self_weight (unat i) g" and ?xa = "outer_weight (unat i) g"
    and ?sb = "self_weight (unat j) g" and ?xb = "outer_weight (unat j) g"
    and ?m = "pair_weight (unat i) (unat j) g"
  have p: "(?sa + ?xa) * 10000 div (2 * ?sa + ?xa) \<le> 8000" "(?sb + ?xb) * 10000 div (2 * ?sb + ?xb) \<le> 8000"
    using low cut_pressure_exact [OF inv f(1)] cut_pressure_exact [OF inv f(2)]
    by (auto simp: word_le_nat_alt SPLIT_THRESHOLD_BP_def split: if_splits)
  have m: "?m \<le> ?xa" "?m \<le> ?xb"
    using pair_weight_le [OF uij, of g] pair_weight_le [of "unat j" "unat i" g] uij pair_weight_sym by simp_all
  show ?thesis
    unfolding merge_signal_exact(2) [OF inv f ij]
  proof
    assume t: "2 * ?sa + ?xa + (2 * ?sb + ?xb) \<noteq> 0 \<and> 4000 \<le> ?m * 10000 div (2 * ?sa + ?xa + (2 * ?sb + ?xb))"
    with merge_needs_pressure [OF p m] show False by linarith
  qed
qed

text \<open>Two partitions that exchange 1000 units of traffic.\<close>

definition demo_pair :: coherence_engine where
  "demo_pair = snd (add_partition 2 (snd (add_partition 1 (engine_with_defaults 100))))"

lemma demo_traffic:
  "\<exists>r e. record_communication 1 2 1000 demo_pair = Some (r, e) \<and> engine_reach score e \<and> unsaturated (en_graph e) \<and>
     fst (adaptive_tick 10 (en_adaptive e))"
proof -
  have pair: "engine_reach score demo_pair"
    unfolding demo_pair_def engine_with_defaults_def
    by (intro engine_reach.add [OF _ surjective_pairing] engine_reach.new)
  have "cg_edges (en_graph demo_pair) = replicate ENGINE_MAX_EDGES EMPTY_EDGE"
    by (simp add: demo_pair_def engine_with_defaults_def engine_new_def graph_new_def)
  then have sum: "weight_sum (cg_edges (en_graph demo_pair)) = 0"
    by (simp add: esum_inactive EMPTY_EDGE_def)
  have "ad_compute_count (en_adaptive demo_pair) = 0"
    by (simp add: demo_pair_def engine_with_defaults_def engine_new_def adaptive_new_def add_partition_def add_node_def
        Let_def split: option.splits)
  moreover obtain r e where e: "record_communication 1 2 1000 demo_pair = Some (r, e)"
    using record_communication_inv [OF engine_reach_inv [OF pair], of 1000 1 2] sum by auto
  moreover from e have "en_adaptive e = en_adaptive demo_pair"
    by (auto simp: record_communication_def split: option.splits prod.splits sum.splits)
  moreover have "engine_reach score e" by (rule engine_reach.communicate [OF pair _ e]) (simp add: sum)
  moreover have "unsaturated (en_graph e)"
    using record_communication_weight_sum [OF engine_reach_inv [OF pair] e] sum by (simp add: unsaturated_def)
  ultimately show ?thesis by (auto simp: adaptive_tick_def Let_def)
qed

lemma position_replicate_iff: "position P (replicate n x) = (if 0 < n \<and> P x then Some 0 else None)"
  by (induction n) auto

lemma demo_entries: "entry_ids (en_entries demo_pair) = [1, 2]"
proof -
  have r: "replicate 32 x = x # x # replicate 30 x" for x :: 'a by (simp add: numeral_eq_Suc)
  let ?n = "\<lambda>p. \<lparr>nd_partition = Some p, nd_first_edge = INVALID\<rparr>"
  let ?en = "\<lambda>p. \<lparr>pe_id = p, pe_score = SCORE_MAX, pe_pressure = 0, pe_active = True\<rparr>"
  note simps = add_partition_def add_node_def find_node_def scan_nodes_def node_hash_def NODE_INDEX_SIZE_def
    graph_new_def ENGINE_MAX_NODES_def EMPTY_NODE_def EMPTY_PARTITION_ENTRY_def r position_replicate_iff Let_def
  have "en_entries (snd (add_partition 1 (engine_with_defaults 100))) = ?en 1 # EMPTY_PARTITION_ENTRY # replicate 30 EMPTY_PARTITION_ENTRY"
    "cg_nodes (en_graph (snd (add_partition 1 (engine_with_defaults 100)))) = ?n 1 # EMPTY_NODE # replicate 30 EMPTY_NODE"
    "cg_id_to_node (en_graph (snd (add_partition 1 (engine_with_defaults 100)))) = (replicate 256 None)[1 := Some 0]"
    by (simp_all add: simps engine_with_defaults_def engine_new_def)
  then have "en_entries demo_pair = ?en 1 # ?en 2 # replicate 30 EMPTY_PARTITION_ENTRY"
    by (simp add: demo_pair_def simps)
  then show ?thesis by (simp add: entry_ids_def entry_id_def EMPTY_PARTITION_ENTRY_def)
qed

lemma demo_nodes:
  assumes "record_communication 1 2 1000 demo_pair = Some (r, e)"
  shows "find_node 1 (en_graph e) \<noteq> None"
proof -
  have inv: "engine_inv e"
    using demo_traffic [of builtin_compute_score] assms engine_reach_inv by auto
  have "entry_ids (en_entries demo_pair) = [1, 2]" by (rule demo_entries)
  moreover have "en_entries e = en_entries demo_pair"
    using assms by (auto simp: record_communication_def split: option.splits prod.splits sum.splits)
  ultimately have "set (node_ids (en_graph e)) = {1, 2}" using engine_invD(6) [OF inv] by simp
  then have "1 \<in> set (node_ids (en_graph e))" by simp
  then show ?thesis using node_ids_find [OF engine_invD(1) [OF inv]] by simp
qed

text \<open>
  C23.  Every epoch of the coherence engine ends, and its recommendation is the strongest one.  In every
  engine that the operations reach while the edge weights sum up to less than \<open>2 ^ 64\<close>, \<open>tick\<close> returns; a recommended split names an active partition whose
  pressure exceeds the threshold and is the highest of all; a merge is recommended only when no
  pressure exceeds the threshold, and then for a pair whose mutual coherence is the highest among the
  pairs that qualify; no action means that there is neither.  The engine's entries are exactly the
  partitions of its graph, so that registering a partition fails only for a duplicate or when all 32
  nodes are taken, and never after the graph has accepted it.
\<close>

theorem engine_recommendation_exact:
  assumes "engine_reach score e"
  shows "(\<exists>d e'. engine_tick score load e = Some (d, e') \<and> recommendation_ok e' d \<and>
      distinct (entry_ids (en_entries e')) \<and> set (entry_ids (en_entries e')) = set (node_ids (en_graph e'))) \<and>
    fst (add_partition p e) =
      (if p \<in> set (node_ids (en_graph e)) then Inl InvalidPartitionState
       else if length (node_ids (en_graph e)) = ENGINE_MAX_NODES then Inl ResourceLimitExceeded
       else Inr ())"
proof (rule conjI)
  note inv = engine_reach_inv [OF assms]
  obtain e' where e': "engine_tick score load e = Some (recommend e', e')" "engine_inv e'"
    using engine_tick_inv [OF inv] by blast
  show "\<exists>d e'. engine_tick score load e = Some (d, e') \<and> recommendation_ok e' d \<and>
      distinct (entry_ids (en_entries e')) \<and> set (entry_ids (en_entries e')) = set (node_ids (en_graph e'))"
    using e' recommend_ok [OF engine_invD(3) [OF e'(2)]] engine_invD(5,6) [OF e'(2)] by blast
  show "fst (add_partition p e) =
      (if p \<in> set (node_ids (en_graph e)) then Inl InvalidPartitionState
       else if length (node_ids (en_graph e)) = ENGINE_MAX_NODES then Inl ResourceLimitExceeded
       else Inr ())"
    using add_partition_inv [OF inv surjective_pairing, of p] node_ids_find [OF engine_invD(1) [OF inv], of p]
    by simp
qed

theorem engine_recommendation_exact_witness:
  "\<exists>d e'. engine_tick builtin_compute_score 10 (engine_with_defaults 100) = Some (d, e') \<and> recommendation_ok e' d"
  using engine_recommendation_exact [OF engine_reach.new, of builtin_compute_score 10 "bridge_new 100"]
  unfolding engine_with_defaults_def by blast

text \<open>
  An epoch that recomputes the pressures never recommends a merge.  When the sum of the edge weights is
  below \<open>2 ^ 63\<close>, two partitions whose pressures do not exceed the split threshold of 8000 basis points keep at
  least a fifth of their weight to themselves, which is counted twice in their totals, and so their mutual share
  stays below the merge threshold of 4000 basis points.  A merge can only be recommended on stale
  pressures, in an epoch that the adaptive controller skips.
\<close>

theorem fresh_tick_never_merges:
  assumes "engine_reach score e" "engine_tick score load e = Some (d, e')"
    and "fst (adaptive_tick load (en_adaptive e))" "unsaturated (en_graph e)"
  shows "d \<noteq> MergeRecommended a b c"
proof
  assume d: "d = MergeRecommended a b c"
  have t: "d = recommend e'" "engine_inv e'"
    and fresh: "\<And>en. en \<in> set (en_entries e') \<Longrightarrow> pe_active en \<Longrightarrow>
      pe_pressure en = ps_pressure (compute_cut_pressure (pe_id en) (en_graph e'))"
    using engine_tick_inv [OF engine_reach_inv [OF assms(1)], of score load] assms(2,3) by auto
  have un: "unsaturated (en_graph e')"
    by (rule engine_tick_unsaturated [OF engine_reach_inv [OF assms(1)] assms(2,4)])
  have ok: "recommendation_ok e' (MergeRecommended a b c)"
    using recommend_ok [OF engine_invD(3) [OF t(2)]] t(1) d by simp
  then obtain x y where xy: "(x, y) \<in> set (entry_pairs (en_entries e'))"
    "ms_should_merge (evaluate_merge x y (en_graph e'))"
    by (auto simp: recommendation_ok_def Let_def)
  have "ps_pressure (compute_cut_pressure q (en_graph e')) \<le> SPLIT_THRESHOLD_BP"
    if "\<exists>en\<in>set (en_entries e'). pe_active en \<and> pe_id en = q" for q
    using that fresh ok by (auto simp: recommendation_ok_def Let_def)
  with entry_pairs_distinct [OF t(2) xy(1)] xy(2) low_pressure_no_merge [OF engine_invD(1) [OF t(2)] un]
  show False by blast
qed

theorem fresh_tick_never_merges_witness:
  "\<exists>r e d e'. record_communication 1 2 1000 demo_pair = Some (r, e) \<and>
     engine_tick builtin_compute_score 10 e = Some (d, e') \<and> d \<noteq> MergeRecommended 1 2 5000"
proof -
  obtain r e where e: "record_communication 1 2 1000 demo_pair = Some (r, e)" "engine_reach builtin_compute_score e"
    "unsaturated (en_graph e)" "fst (adaptive_tick 10 (en_adaptive e))"
    using demo_traffic by blast
  obtain d e' where t: "engine_tick builtin_compute_score 10 e = Some (d, e')"
    using engine_tick_inv [OF engine_reach_inv [OF e(2)], of builtin_compute_score 10] by blast
  from fresh_tick_never_merges [OF e(2) t e(4,3), of 1 2 5000] e(1) t show ?thesis by blast
qed

text \<open>
  Score and pressure of a partition are complementary shares.  A partition without traffic has the
  maximal score and no pressure.  Any other one has a score of at most 5000 basis points and a pressure
  between 5000 and 10000, because a message of a partition to itself is counted twice in the total: the two
  add up to 10000 up to rounding, and purely internal traffic gives 5000 for both.
\<close>

theorem score_and_pressure_complementary:
  assumes "engine_reach score e" "unsaturated (en_graph e)" "find_node p (en_graph e) = Some i"
  shows "let g = en_graph e; sc = unat (builtin_compute_score p g); pr = unat (ps_pressure (compute_cut_pressure p g))
     in if total_weight p g = 0 then sc = 10000 \<and> pr = 0
        else sc \<le> 5000 \<and> 5000 \<le> pr \<and> pr \<le> 10000 \<and> 9999 \<le> sc + pr \<and> sc + pr \<le> 10000 \<and>
             (outer_weight (unat i) g = 0 \<longrightarrow> sc = 5000 \<and> pr = 5000) \<and>
             (self_weight (unat i) g = 0 \<longrightarrow> sc = 0 \<and> pr = 10000)"
proof -
  let ?g = "en_graph e"
  define s x where "s = self_weight (unat i) ?g" and "x = outer_weight (unat i) ?g"
  note inv = engine_invD(1) [OF engine_reach_inv [OF assms(1)]]
  note v = coherence_score_exact [OF inv assms(2,3)] cut_pressure_exact [OF inv assms(2,3)]
    total_weight_split [OF inv assms(2,3)]
  have z: "total_weight p ?g = 0 \<longleftrightarrow> 2 * s + x = 0" using v(3) unfolding s_def x_def by (metis unat_eq_zero)
  show ?thesis
    using share_arith [of s x] unfolding Let_def builtin_compute_score_def v z s_def [symmetric] x_def [symmetric]
    by auto
qed

theorem score_and_pressure_complementary_witness:
  "\<exists>r e i. record_communication 1 2 1000 demo_pair = Some (r, e) \<and> find_node 1 (en_graph e) = Some i \<and>
     (total_weight 1 (en_graph e) = 0 \<longrightarrow> unat (builtin_compute_score 1 (en_graph e)) = 10000) \<and>
     (total_weight 1 (en_graph e) \<noteq> 0 \<longrightarrow> unat (builtin_compute_score 1 (en_graph e)) \<le> 5000)"
proof -
  obtain r e where e: "record_communication 1 2 1000 demo_pair = Some (r, e)" "engine_reach builtin_compute_score e"
    "unsaturated (en_graph e)"
    using demo_traffic by blast
  obtain i where "find_node 1 (en_graph e) = Some i" using demo_nodes [OF e(1)] by auto
  from score_and_pressure_complementary [OF e(2,3) this] e(1) this show ?thesis
    by (auto simp: Let_def split: if_splits)
qed

end
