(* ===== verification/Security_Gate.thy ===== *)
theory Security_Gate
  imports Witness_Log
begin

text \<open>
  Crate \<open>rvm-security\<close>: the gate of \<open>gate.rs\<close> in its plain and its signed form, the quick policy
  check of \<open>lib.rs\<close> and the attestation chain of \<open>attestation.rs\<close>.  The gate borrows the witness
  log; its methods are functions of the log.  The chain hash, the signer and the digest that extends
  the attestation chain are parameters.
\<close>

section \<open>Requests and errors\<close>

record p3_witness_chain =
  pc_links :: "(u64 \<times> u64) list"
  pc_signatures :: "u8 list list"
  pc_link_count :: u8

definition p3_chain_empty :: p3_witness_chain where
  "p3_chain_empty =
     \<lparr>pc_links = replicate 4 (0, 0), pc_signatures = replicate 4 (replicate 8 0), pc_link_count = 0\<rparr>"

type_synonym witness_hash = "u8 list"

definition witness_hash_is_zero :: "witness_hash \<Rightarrow> bool" where
  "witness_hash_is_zero h \<longleftrightarrow> list_all (\<lambda>b. b = 0) h"

record gate_request =
  gr_token :: cap_token
  gr_required_type :: cap_type
  gr_required_rights :: cap_rights
  gr_proof_commitment :: "witness_hash option"
  gr_require_p3 :: bool
  gr_p3_chain_valid :: bool
  gr_p3_witness_data :: "p3_witness_chain option"
  gr_action :: action_kind
  gr_target_object_id :: u64
  gr_timestamp_ns :: u64

record gate_response =
  rp_witness_sequence :: u64
  rp_proof_tier :: u8

datatype security_error =
    SecCapabilityTypeMismatch | SecInsufficientRights | SecPolicyViolation
  | SecDerivationChainBroken | SecInternal rvm_error

section \<open>The plain gate\<close>

definition p3_link_count :: "p3_witness_chain \<Rightarrow> nat" where
  "p3_link_count chain = unat (min (pc_link_count chain) 4)"

definition verify_p3_chain :: "p3_witness_chain \<Rightarrow> bool" where
  "verify_p3_chain chain =
     (if pc_link_count chain = 0 then False
      else list_all (\<lambda>i. snd (pc_links chain ! i) = fst (pc_links chain ! (i + 1)))
             [0..<p3_link_count chain - 1])"

definition allowed_record :: "gate_request \<Rightarrow> u8 \<Rightarrow> witness_record" where
  "allowed_record req tier =
     witness_zeroed\<lparr>wr_action_kind := action_code (gr_action req), wr_proof_tier := tier,
       wr_actor_partition_id := 0, wr_target_object_id := gr_target_object_id req,
       wr_capability_hash := truncated_hash (gr_token req),
       wr_timestamp_ns := gr_timestamp_ns req\<rparr>"

definition rejection_record :: "gate_request \<Rightarrow> witness_record" where
  "rejection_record req =
     witness_zeroed\<lparr>wr_action_kind := action_code ProofRejected,
       wr_actor_partition_id := 0, wr_target_object_id := gr_target_object_id req,
       wr_capability_hash := truncated_hash (gr_token req),
       wr_timestamp_ns := gr_timestamp_ns req\<rparr>"

definition emit_allowed ::
    "chain_hash \<Rightarrow> gate_request \<Rightarrow> u8 \<Rightarrow> witness_log \<Rightarrow> u64 \<times> witness_log" where
  "emit_allowed H req tier = log_append H (allowed_record req tier)"

definition emit_rejection :: "chain_hash \<Rightarrow> gate_request \<Rightarrow> witness_log \<Rightarrow> witness_log" where
  "emit_rejection H req log = snd (log_append H (rejection_record req) log)"

definition check_and_execute ::
    "chain_hash \<Rightarrow> gate_request \<Rightarrow> witness_log \<Rightarrow> (security_error, gate_response, witness_log) outcome" where
  "check_and_execute H req log =
     (if tok_type (gr_token req) \<noteq> gr_required_type req
      then (Inl SecCapabilityTypeMismatch, emit_rejection H req log)
      else if \<not> has_rights (gr_token req) (gr_required_rights req)
      then (Inl SecInsufficientRights, emit_rejection H req log)
      else
        (case (case gr_proof_commitment req of
                 Some commitment \<Rightarrow> if witness_hash_is_zero commitment then None else Some 2
               | None \<Rightarrow> Some 1) of
           None \<Rightarrow> (Inl SecPolicyViolation, emit_rejection H req log)
         | Some proof_tier \<Rightarrow>
             (let chain_ok =
                (case gr_p3_witness_data req of
                   Some chain \<Rightarrow> verify_p3_chain chain
                 | None \<Rightarrow> False)
              in
                if gr_require_p3 req \<and> \<not> chain_ok
                then (Inl SecDerivationChainBroken, emit_rejection H req log)
                else
                  (let proof_tier = (if gr_require_p3 req then 3 else proof_tier);
                       (seq, log) = emit_allowed H req proof_tier log
                   in (Inr \<lparr>rp_witness_sequence = seq, rp_proof_tier = proof_tier\<rparr>, log)))))"

section \<open>The signed gate\<close>

text \<open>The record rebuilt from link \<open>i\<close> of a chain; the 64-bit links are truncated.\<close>

definition link_record :: "p3_witness_chain \<Rightarrow> nat \<Rightarrow> witness_record" where
  "link_record chain i =
     witness_zeroed\<lparr>wr_prev_hash := ucast (fst (pc_links chain ! i)),
       wr_record_hash := ucast (snd (pc_links chain ! i)),
       wr_sequence := of_nat i, wr_aux := pc_signatures chain ! i\<rparr>"

definition verify_chain_signatures :: "witness_signer \<Rightarrow> p3_witness_chain \<Rightarrow> bool" where
  "verify_chain_signatures signer chain =
     list_all (\<lambda>i. pc_signatures chain ! i = replicate 8 0 \<or> ws_verify signer (link_record chain i))
       [0..<p3_link_count chain]"

definition emit_allowed_signed ::
    "chain_hash \<Rightarrow> witness_signer \<Rightarrow> gate_request \<Rightarrow> u8 \<Rightarrow> witness_log \<Rightarrow> u64 \<times> witness_log" where
  "emit_allowed_signed H signer req tier = log_signed_append H signer (allowed_record req tier)"

definition emit_rejection_signed ::
    "chain_hash \<Rightarrow> witness_signer \<Rightarrow> gate_request \<Rightarrow> witness_log \<Rightarrow> witness_log" where
  "emit_rejection_signed H signer req log = snd (log_signed_append H signer (rejection_record req) log)"

definition signed_check_and_execute ::
    "chain_hash \<Rightarrow> witness_signer \<Rightarrow> gate_request \<Rightarrow> witness_log \<Rightarrow>
       (security_error, gate_response, witness_log) outcome" where
  "signed_check_and_execute H signer req log =
     (if tok_type (gr_token req) \<noteq> gr_required_type req
      then (Inl SecCapabilityTypeMismatch, emit_rejection_signed H signer req log)
      else if \<not> has_rights (gr_token req) (gr_required_rights req)
      then (Inl SecInsufficientRights, emit_rejection_signed H signer req log)
      else
        (case (case gr_proof_commitment req of
                 Some commitment \<Rightarrow> if witness_hash_is_zero commitment then None else Some 2
               | None \<Rightarrow> Some 1) of
           None \<Rightarrow> (Inl SecPolicyViolation, emit_rejection_signed H signer req log)
         | Some proof_tier \<Rightarrow>
             (let chain_ok =
                (case gr_p3_witness_data req of
                   Some chain \<Rightarrow> verify_p3_chain chain \<and> verify_chain_signatures signer chain
                 | None \<Rightarrow> False)
              in
                if gr_require_p3 req \<and> \<not> chain_ok
                then (Inl SecDerivationChainBroken, emit_rejection_signed H signer req log)
                else
                  (let proof_tier = (if gr_require_p3 req then 3 else proof_tier);
                       (seq, log) = emit_allowed_signed H signer req proof_tier log
                   in (Inr \<lparr>rp_witness_sequence = seq, rp_proof_tier = proof_tier\<rparr>, log)))))"

section \<open>The quick policy check\<close>

datatype policy_decision = Allow | Deny rvm_error

record policy_request =
  pr_token :: cap_token
  pr_required_type :: cap_type
  pr_required_rights :: cap_rights
  pr_proof_commitment :: "witness_hash option"
  pr_current_epoch :: "u32 option"

definition evaluate :: "policy_request \<Rightarrow> policy_decision" where
  "evaluate req =
     (if (case pr_current_epoch req of Some e \<Rightarrow> tok_epoch (pr_token req) \<noteq> e | None \<Rightarrow> False)
      then Deny InsufficientCapability
      else if tok_type (pr_token req) \<noteq> pr_required_type req then Deny CapabilityTypeMismatch
      else if \<not> has_rights (pr_token req) (pr_required_rights req) then Deny InsufficientCapability
      else if (case pr_proof_commitment req of Some c \<Rightarrow> witness_hash_is_zero c | None \<Rightarrow> False)
      then Deny ProofInvalid
      else Allow)"

definition enforce :: "policy_request \<Rightarrow> rvm_error + unit" where
  "enforce req = (case evaluate req of Allow \<Rightarrow> Inr () | Deny e \<Rightarrow> Inl e)"

section \<open>The attestation chain\<close>

definition MAX_ATTESTATION_ENTRIES :: nat where "MAX_ATTESTATION_ENTRIES = 64"

record attestation_entry =
  ae_sequence :: u32
  ae_hash :: "u8 list"
  ae_source_tag :: u8

definition attestation_entry_zeroed :: attestation_entry where
  "attestation_entry_zeroed = \<lparr>ae_sequence = 0, ae_hash = replicate 32 0, ae_source_tag = 0\<rparr>"

record attestation_chain =
  ac_entries :: "attestation_entry list"
  ac_count :: nat
  ac_chain_hash :: "u8 list"

record attestation_report =
  ar_entry_count :: u32
  ar_chain_root :: "u8 list"
  ar_boot_measurement_count :: u32
  ar_runtime_witness_count :: u32

definition attestation_new :: attestation_chain where
  "attestation_new =
     \<lparr>ac_entries = replicate MAX_ATTESTATION_ENTRIES attestation_entry_zeroed, ac_count = 0,
      ac_chain_hash = replicate 32 0\<rparr>"

text \<open>The digest of the running hash and a measurement, for either feature of the crate.\<close>

definition extend_chain_hash_sha256 :: "(u8 list \<Rightarrow> u8 list) \<Rightarrow> u8 list \<Rightarrow> u8 list \<Rightarrow> u8 list" where
  "extend_chain_hash_sha256 sha256 chain h = sha256 (chain @ h)"

definition extend_chain_hash_fnv :: "u8 list \<Rightarrow> u8 list \<Rightarrow> u8 list" where
  "extend_chain_hash_fnv chain h =
     (let input = chain @ h
      in to_le_bytes64 (fnv1a_64 input) @ to_le_bytes64 (fnv1a_64 (drop 8 input)) @
         to_le_bytes64 (fnv1a_64 (drop 16 input)) @ to_le_bytes64 (fnv1a_64 (drop 24 input)))"

type_synonym chain_extend = "u8 list \<Rightarrow> u8 list \<Rightarrow> u8 list"

definition add_entry ::
    "chain_extend \<Rightarrow> u8 list \<Rightarrow> u8 \<Rightarrow> attestation_chain \<Rightarrow> bool \<times> attestation_chain" where
  "add_entry ext h tag c =
     (if ac_count c \<ge> MAX_ATTESTATION_ENTRIES then (False, c)
      else
        (True,
         c\<lparr>ac_entries := (ac_entries c)
             [ac_count c := \<lparr>ae_sequence = of_nat (ac_count c), ae_hash = h, ae_source_tag = tag\<rparr>],
           ac_count := ac_count c + 1,
           ac_chain_hash := ext (ac_chain_hash c) h\<rparr>))"

definition add_boot_measurement ::
    "chain_extend \<Rightarrow> u8 list \<Rightarrow> attestation_chain \<Rightarrow> bool \<times> attestation_chain" where
  "add_boot_measurement ext h = add_entry ext h 0"

definition add_runtime_witness ::
    "chain_extend \<Rightarrow> u8 list \<Rightarrow> attestation_chain \<Rightarrow> bool \<times> attestation_chain" where
  "add_runtime_witness ext h = add_entry ext h 1"

text \<open>The counting loops of \<open>boot_measurement_count\<close> and \<open>runtime_witness_count\<close>.\<close>

definition source_count :: "u8 \<Rightarrow> attestation_chain \<Rightarrow> u32" where
  "source_count tag c =
     foldl (\<lambda>n i. if ae_source_tag (ac_entries c ! i) = tag then n + 1 else n) 0 [0..<ac_count c]"

definition generate_attestation_report :: "attestation_chain \<Rightarrow> attestation_report" where
  "generate_attestation_report c =
     \<lparr>ar_entry_count = of_nat (ac_count c), ar_chain_root = ac_chain_hash c,
      ar_boot_measurement_count = source_count 0 c,
      ar_runtime_witness_count = source_count 1 c\<rparr>"

text \<open>The comparison is \<open>ct_eq\<close> of the crate \<open>subtle\<close>, a parameter.\<close>

definition verify_attestation ::
    "(u8 list \<Rightarrow> u8 list \<Rightarrow> bool) \<Rightarrow> attestation_report \<Rightarrow> u8 list \<Rightarrow> bool" where
  "verify_attestation subtle_eq report expected_root = subtle_eq (ar_chain_root report) expected_root"

section \<open>What a gate admits\<close>

text \<open>The chain of links is unbroken over the links that are counted.\<close>

definition unbroken :: "p3_witness_chain \<Rightarrow> bool" where
  "unbroken chain \<longleftrightarrow>
     0 < unat (pc_link_count chain) \<and>
     (\<forall>i. i + 1 < min (unat (pc_link_count chain)) 4 \<longrightarrow>
        snd (pc_links chain ! i) = fst (pc_links chain ! (i + 1)))"

text \<open>Every link that carries a signature carries a valid one.\<close>

definition signatures_valid :: "witness_signer \<Rightarrow> p3_witness_chain \<Rightarrow> bool" where
  "signatures_valid signer chain \<longleftrightarrow>
     (\<forall>i. i < min (unat (pc_link_count chain)) 4 \<longrightarrow> pc_signatures chain ! i \<noteq> replicate 8 0 \<longrightarrow>
        ws_verify signer (link_record chain i))"

text \<open>The reason for which a request is refused, the first one that applies.\<close>

definition refusal :: "(p3_witness_chain \<Rightarrow> bool) \<Rightarrow> gate_request \<Rightarrow> security_error option" where
  "refusal good req =
     (if tok_type (gr_token req) \<noteq> gr_required_type req then Some SecCapabilityTypeMismatch
      else if \<exists>b. bit (gr_required_rights req) b \<and> \<not> bit (tok_rights (gr_token req)) b
      then Some SecInsufficientRights
      else if \<exists>c. gr_proof_commitment req = Some c \<and> set c \<subseteq> {0} then Some SecPolicyViolation
      else if gr_require_p3 req \<and> \<not> (\<exists>chain. gr_p3_witness_data req = Some chain \<and> good chain)
      then Some SecDerivationChainBroken
      else None)"

definition granted_tier :: "gate_request \<Rightarrow> u8" where
  "granted_tier req =
     (if gr_require_p3 req then 3 else if gr_proof_commitment req = None then 1 else 2)"

definition audit_record :: "(p3_witness_chain \<Rightarrow> bool) \<Rightarrow> gate_request \<Rightarrow> witness_record" where
  "audit_record good req =
     (if refusal good req = None then allowed_record req (granted_tier req) else rejection_record req)"

definition gate_answer ::
    "(p3_witness_chain \<Rightarrow> bool) \<Rightarrow> gate_request \<Rightarrow> u64 \<Rightarrow> security_error + gate_response" where
  "gate_answer good req seq =
     (case refusal good req of
        Some e \<Rightarrow> Inl e
      | None \<Rightarrow> Inr \<lparr>rp_witness_sequence = seq, rp_proof_tier = granted_tier req\<rparr>)"

lemma p3_link_count_min: "p3_link_count chain = min (unat (pc_link_count chain)) 4"
  by (simp add: p3_link_count_def min_def word_le_nat_alt)

lemma verify_p3_chain_unbroken: "verify_p3_chain chain \<longleftrightarrow> unbroken chain"
proof -
  have "i < min n 4 - 1 \<longleftrightarrow> i + 1 < min n 4" for i n :: nat by linarith
  then show ?thesis
    by (simp add: verify_p3_chain_def unbroken_def list_all_iff Ball_def p3_link_count_min
        word_unat_eq_iff [of "pc_link_count chain" 0])
qed

lemma verify_chain_signatures_valid:
  "verify_chain_signatures signer chain \<longleftrightarrow> signatures_valid signer chain"
  by (auto simp: verify_chain_signatures_def signatures_valid_def list_all_iff p3_link_count_min)

lemma has_rights_bits:
  "\<not> has_rights t r \<longleftrightarrow> (\<exists>b. bit r b \<and> \<not> bit (tok_rights t) b)"
  by (auto simp: has_rights_def rights_contains_bits)

lemma witness_hash_is_zero_set: "witness_hash_is_zero h \<longleftrightarrow> set h \<subseteq> {0}"
  by (auto simp: witness_hash_is_zero_def list_all_iff)

lemmas gate_checks = has_rights_bits witness_hash_is_zero_set verify_p3_chain_unbroken
  verify_chain_signatures_valid

text \<open>Each gate appends one record and answers by the verdict.\<close>

lemma check_and_execute_step:
  "check_and_execute H req l =
     (gate_answer unbroken req (fst (log_append H (audit_record unbroken req) l)),
      snd (log_append H (audit_record unbroken req) l))"
  unfolding check_and_execute_def gate_answer_def audit_record_def refusal_def granted_tier_def
  by (auto simp: gate_checks emit_rejection_def emit_allowed_def Let_def split_beta
      split: option.splits)

lemma signed_check_and_execute_step:
  "signed_check_and_execute H signer req l =
     (gate_answer (\<lambda>c. unbroken c \<and> signatures_valid signer c) req
        (fst (log_signed_append H signer (audit_record (\<lambda>c. unbroken c \<and> signatures_valid signer c) req) l)),
      snd (log_signed_append H signer (audit_record (\<lambda>c. unbroken c \<and> signatures_valid signer c) req) l))"
  unfolding signed_check_and_execute_def gate_answer_def audit_record_def refusal_def granted_tier_def
  by (auto simp: gate_checks emit_rejection_signed_def emit_allowed_signed_def Let_def split_beta
      split: option.splits)

section \<open>The contract of an audited service\<close>

text \<open>A service that records one entry for every request, whatever it answers.\<close>

locale audited_service = witness_sink append history stamped
  for append :: "'r \<Rightarrow> 'l \<Rightarrow> u64 \<times> 'l"
    and history :: "'l \<Rightarrow> 'r list \<Rightarrow> bool"
    and stamped :: "nat \<Rightarrow> 'r \<Rightarrow> 'r" +
  fixes serve :: "'q \<Rightarrow> 'l \<Rightarrow> 'a \<times> 'l"
    and entry :: "'q \<Rightarrow> 'r"
    and answer :: "'q \<Rightarrow> u64 \<Rightarrow> 'a"
  assumes serve_step:
    "serve q l = (answer q (fst (append (entry q) l)), snd (append (entry q) l))"
begin

fun serve_all :: "'q list \<Rightarrow> 'l \<Rightarrow> 'a list \<times> 'l" where
  "serve_all [] l = ([], l)"
| "serve_all (q # qs) l = (let (a, l1) = serve q l; (as, l2) = serve_all qs l1 in (a # as, l2))"

lemma serve_all_audited:
  assumes "history l h" "length h + length qs < 2 ^ 64"
  shows "fst (serve_all qs l) = map (\<lambda>(i, q). answer q (of_nat i)) (zip [length h..<length h + length qs] qs)"
    "history (snd (serve_all qs l))
       (h @ map (\<lambda>(i, q). stamped i (entry q)) (zip [length h..<length h + length qs] qs))"
proof -
  have run: "serve_all qs l =
      (map (\<lambda>(s, q). answer q s) (zip (fst (emit_all (map entry qs) l)) qs), snd (emit_all (map entry qs) l))"
    by (induction qs arbitrary: l) (simp_all add: serve_step Let_def split_beta)
  have em: "fst (emit_all (map entry qs) l) = map of_nat [length h..<length h + length qs]"
    "history (snd (emit_all (map entry qs) l))
       (h @ map (\<lambda>(i, r). stamped i r) (zip [length h..<length h + length qs] (map entry qs)))"
    using emit_all_history [OF assms(1), of "map entry qs"] assms(2) by simp_all
  show "fst (serve_all qs l) =
        map (\<lambda>(i, q). answer q (of_nat i)) (zip [length h..<length h + length qs] qs)"
    by (simp add: run em(1) zip_map1 split_beta)
  show "history (snd (serve_all qs l))
       (h @ map (\<lambda>(i, q). stamped i (entry q)) (zip [length h..<length h + length qs] qs))"
    using em(2) by (simp add: run zip_map2 comp_def case_prod_unfold)
qed

end

interpretation plain_gate:
  audited_service "log_append H" "log_rep H" "stamp H" "check_and_execute H"
    "audit_record unbroken" "gate_answer unbroken" for H
  by unfold_locales (rule check_and_execute_step)

interpretation signed_gate:
  audited_service "log_signed_append H signer" "log_rep H" "stamp_signed H signer"
    "signed_check_and_execute H signer"
    "audit_record (\<lambda>c. unbroken c \<and> signatures_valid signer c)"
    "gate_answer (\<lambda>c. unbroken c \<and> signatures_valid signer c)" for H signer
  by unfold_locales (rule signed_check_and_execute_step)

section \<open>Every decision of the gate is on record\<close>

text \<open>The identifying fields of the record written for a request.\<close>

definition names_request :: "gate_request \<Rightarrow> witness_record \<Rightarrow> bool" where
  "names_request req r \<longleftrightarrow>
     wr_target_object_id r = gr_target_object_id req \<and>
     wr_capability_hash r = truncated_hash (gr_token req) \<and>
     wr_timestamp_ns r = gr_timestamp_ns req"

text \<open>The record and the answer agree on what was decided and why.\<close>

definition decision_recorded ::
    "(p3_witness_chain \<Rightarrow> bool) \<Rightarrow> gate_request \<Rightarrow> security_error + gate_response \<Rightarrow> witness_record \<Rightarrow> bool" where
  "decision_recorded good req a r \<longleftrightarrow>
     names_request req r \<and>
     (case a of
        Inl e \<Rightarrow>
          refusal good req = Some e \<and> wr_action_kind r = action_code ProofRejected \<and> wr_proof_tier r = 0
      | Inr resp \<Rightarrow>
          refusal good req = None \<and> wr_action_kind r = action_code (gr_action req) \<and>
          rp_witness_sequence resp = wr_sequence r \<and> rp_proof_tier resp = granted_tier req \<and>
          wr_proof_tier r = granted_tier req)"

lemma audit_entry_recorded:
  "decision_recorded good req (gate_answer good req (of_nat n)) (stamp H n (audit_record good req))"
  "decision_recorded good req (gate_answer good req (of_nat n))
     (stamp_signed H signer n (audit_record good req))"
  by (auto simp: decision_recorded_def names_request_def gate_answer_def audit_record_def
      stamp_signed_def stamp_def allowed_record_def rejection_record_def witness_zeroed_def
      split: option.split)

definition gate_run ::
    "chain_hash \<Rightarrow> gate_request list \<Rightarrow> witness_log \<Rightarrow> (security_error + gate_response) list \<times> witness_log" where
  "gate_run H = plain_gate.serve_all H"

definition signed_gate_run ::
    "chain_hash \<Rightarrow> witness_signer \<Rightarrow> gate_request list \<Rightarrow> witness_log \<Rightarrow>
       (security_error + gate_response) list \<times> witness_log" where
  "signed_gate_run H signer = signed_gate.serve_all H signer"

lemma gate_run_simps [simp]:
  "gate_run H [] l = ([], l)"
  "gate_run H (q # qs) l =
     (let (a, l1) = check_and_execute H q l; (as, l2) = gate_run H qs l1 in (a # as, l2))"
  "signed_gate_run H signer [] l = ([], l)"
  "signed_gate_run H signer (q # qs) l =
     (let (a, l1) = signed_check_and_execute H signer q l; (as, l2) = signed_gate_run H signer qs l1
      in (a # as, l2))"
  by (simp_all add: gate_run_def signed_gate_run_def)

definition demo_request :: gate_request where
  "demo_request =
     \<lparr>gr_token = cap_token_new 1 CapPartition (READ OR WRITE) 1, gr_required_type = CapPartition,
      gr_required_rights = READ, gr_proof_commitment = None, gr_require_p3 = False,
      gr_p3_chain_valid = False, gr_p3_witness_data = None, gr_action = PartitionCreate,
      gr_target_object_id = 42, gr_timestamp_ns = 1000\<rparr>"

definition demo_requests :: "gate_request list" where
  "demo_requests = [demo_request, demo_request\<lparr>gr_required_rights := GRANT\<rparr>,
     demo_request\<lparr>gr_require_p3 := True, gr_p3_chain_valid := True\<rparr>]"

text \<open>
  What an audit trail is complete for: the run's log extends the history by one record for each
  request, and each answer and record are those of the request's decision.
\<close>

definition audit_complete ::
    "chain_hash \<Rightarrow> witness_record list \<Rightarrow> (p3_witness_chain \<Rightarrow> bool) \<Rightarrow> gate_request list \<Rightarrow>
     (security_error + gate_response) list \<times> witness_log \<Rightarrow> bool" where
  "audit_complete H hist good reqs run \<longleftrightarrow>
     (\<exists>recs. log_rep H (snd run) (hist @ recs) \<and>
        length recs = length reqs \<and> length (fst run) = length reqs \<and>
        (\<forall>i < length reqs. decision_recorded good (reqs ! i) (fst run ! i) (recs ! i)))"

text \<open>
  C20.  No decision of the gate goes unrecorded.  Running any sequence of requests through the plain
  gate extends the log's history by exactly one record for each request, in order.  A request is
  granted exactly when the token has the required type and every required right, a proof commitment
  that is given is not zero and, for P3, the supplied chain is unbroken (the caller's own
  \<open>p3_chain_valid\<close> plays no role); then the record carries the action, the tier, and the sequence number of
  the answer.  Otherwise the answer is the first failing check and the record says \<open>ProofRejected\<close>.
  The signed gate does the same, and for P3 it also checks the signature of every link that has one.
\<close>

theorem gate_audit_complete:
  assumes "log_rep H l hist" "length hist + length reqs < 2 ^ 64"
  shows "audit_complete H hist unbroken reqs (gate_run H reqs l) \<and>
    audit_complete H hist (\<lambda>chain. unbroken chain \<and> signatures_valid signer chain) reqs
      (signed_gate_run H signer reqs l)"
proof -
  note plain = plain_gate.serve_all_audited [OF assms]
    and signed = signed_gate.serve_all_audited [OF assms, where signer = signer]
  have "audit_complete H hist unbroken reqs (gate_run H reqs l)"
    unfolding gate_run_def audit_complete_def
    by (rule exI, rule conjI, rule plain(2)) (simp add: plain(1) audit_entry_recorded del: of_nat_add)
  moreover have "audit_complete H hist (\<lambda>chain. unbroken chain \<and> signatures_valid signer chain) reqs
      (signed_gate_run H signer reqs l)"
    unfolding signed_gate_run_def audit_complete_def
    by (rule exI, rule conjI, rule signed(2)) (simp add: signed(1) audit_entry_recorded del: of_nat_add)
  ultimately show ?thesis ..
qed

theorem gate_audit_complete_witness:
  "audit_complete (\<lambda>h s. h + s) [] unbroken demo_requests
     (gate_run (\<lambda>h s. h + s) demo_requests (log_new 2)) \<and>
   fst (gate_run (\<lambda>h s. h + s) demo_requests (log_new 2)) =
     [Inr \<lparr>rp_witness_sequence = 0, rp_proof_tier = 1\<rparr>, Inl SecInsufficientRights,
      Inl SecDerivationChainBroken]"
  apply (rule conjI)
   apply (rule gate_audit_complete [OF log_new_rep, THEN conjunct1])
     apply (simp_all add: demo_requests_def)
  by (simp add: demo_request_def check_and_execute_def cap_token_new_def has_rights_def
      rights_contains_def right_bits emit_allowed_def emit_rejection_def log_append_def log_new_def Let_def)

section \<open>What an attestation root binds\<close>

text \<open>A run of measurements: a digest with \<open>True\<close> for a boot measurement.\<close>

fun attest_all ::
    "chain_extend \<Rightarrow> (u8 list \<times> bool) list \<Rightarrow> attestation_chain \<Rightarrow> bool list \<times> attestation_chain" where
  "attest_all ext [] c = ([], c)"
| "attest_all ext ((h, boot) # ms) c =
     (let (ok, c1) = (if boot then add_boot_measurement ext h c else add_runtime_witness ext h c);
          (oks, c2) = attest_all ext ms c1
      in (ok # oks, c2))"

definition chain_rep :: "chain_extend \<Rightarrow> attestation_chain \<Rightarrow> (u8 list \<times> bool) list \<Rightarrow> bool" where
  "chain_rep ext c ms \<longleftrightarrow>
     length (ac_entries c) = MAX_ATTESTATION_ENTRIES \<and> ac_count c = length ms \<and>
     length ms \<le> MAX_ATTESTATION_ENTRIES \<and>
     take (length ms) (ac_entries c) =
       map (\<lambda>i. \<lparr>ae_sequence = of_nat i, ae_hash = fst (ms ! i),
                 ae_source_tag = (if snd (ms ! i) then 0 else 1)\<rparr>) [0..<length ms] \<and>
     ac_chain_hash c = foldl ext (replicate 32 0) (map fst ms)"

lemma attestation_new_rep: "chain_rep ext attestation_new []"
  by (simp add: chain_rep_def attestation_new_def)

lemma add_entry_rep:
  assumes "chain_rep ext c ms" "tag = (if boot then 0 else 1)"
  shows "add_entry ext h tag c =
      (length ms < MAX_ATTESTATION_ENTRIES, snd (add_entry ext h tag c))"
    "chain_rep ext (snd (add_entry ext h tag c))
       (if length ms < MAX_ATTESTATION_ENTRIES then ms @ [(h, boot)] else ms)"
proof -
  show "add_entry ext h tag c = (length ms < MAX_ATTESTATION_ENTRIES, snd (add_entry ext h tag c))"
    using assms(1) by (auto simp: add_entry_def chain_rep_def)
  show "chain_rep ext (snd (add_entry ext h tag c))
       (if length ms < MAX_ATTESTATION_ENTRIES then ms @ [(h, boot)] else ms)"
    using assms by (auto simp: add_entry_def chain_rep_def take_Suc_conv_app_nth nth_append)
qed

lemma attest_all_rep:
  assumes "chain_rep ext c ms"
  shows "chain_rep ext (snd (attest_all ext ns c)) (take MAX_ATTESTATION_ENTRIES (ms @ ns))"
  using assms
proof (induction ns arbitrary: c ms)
  case Nil
  then show ?case by (simp add: chain_rep_def)
next
  case (Cons n ns)
  obtain h b where n: "n = (h, b)" by (cases n)
  let ?c = "snd (add_entry ext h (if b then 0 else 1) c)"
  have step: "snd (attest_all ext (n # ns) c) = snd (attest_all ext ns ?c)"
    by (simp add: n add_boot_measurement_def add_runtime_witness_def Let_def split_beta)
  have len: "length ms \<le> MAX_ATTESTATION_ENTRIES" using Cons.prems by (simp add: chain_rep_def)
  show ?case
  proof (cases "length ms < MAX_ATTESTATION_ENTRIES")
    case True
    with add_entry_rep(2) [OF Cons.prems refl, of h b] have "chain_rep ext ?c (ms @ [(h, b)])" by simp
    from Cons.IH [OF this] show ?thesis unfolding step by (simp add: n)
  next
    case False
    with add_entry_rep(2) [OF Cons.prems refl, of h b] have "chain_rep ext ?c ms" by simp
    from Cons.IH [OF this] show ?thesis unfolding step using False len by simp
  qed
qed

lemma foldl_collision:
  assumes "foldl ext r ms = foldl ext r ns" "length ms = length ns" "ms \<noteq> ns"
  shows "\<exists>i < length ms.
     (foldl ext r (take i ms), ms ! i) \<noteq> (foldl ext r (take i ns), ns ! i) \<and>
     ext (foldl ext r (take i ms)) (ms ! i) = ext (foldl ext r (take i ns)) (ns ! i)"
  using assms
proof (induction ms arbitrary: ns rule: rev_induct)
  case Nil
  then show ?case by simp
next
  case (snoc m ms)
  then obtain n ns' where ns: "ns = ns' @ [n]" "length ns' = length ms"
    by (metis append_Nil2 length_append_singleton length_Suc_conv_rev)
  show ?case
  proof (cases "(foldl ext r ms, m) = (foldl ext r ns', n)")
    case True
    with snoc.prems ns have "ms \<noteq> ns'" by auto
    with True snoc.IH [of ns'] ns obtain i where i: "i < length ms"
      "(foldl ext r (take i ms), ms ! i) \<noteq> (foldl ext r (take i ns'), ns' ! i)"
      "ext (foldl ext r (take i ms)) (ms ! i) = ext (foldl ext r (take i ns')) (ns' ! i)"
      by auto
    then show ?thesis using ns by (intro exI [of _ i]) (simp add: nth_append)
  next
    case False
    then show ?thesis using snoc.prems(1) ns by (intro exI [of _ "length ms"]) (simp add: nth_append)
  qed
qed

lemma foldl_count_word:
  "foldl (\<lambda>n i. if P i then n + 1 else n) (0 :: 'a::len word) xs = of_nat (length (filter P xs))"
  by (induction xs rule: rev_induct) simp_all

lemma source_count_rep:
  assumes "chain_rep ext c ms"
  shows "source_count 0 c = of_nat (length (filter snd ms))"
    "source_count 1 c = of_nat (length (filter (\<lambda>m. \<not> snd m) ms))"
proof -
  have tag: "ae_source_tag (ac_entries c ! i) = (if snd (ms ! i) then 0 else 1)" if "i < length ms" for i
    using assms that nth_take [OF that, of "ac_entries c", symmetric] by (simp add: chain_rep_def)
  have "filter (\<lambda>i. ae_source_tag (ac_entries c ! i) = 0) [0..<length ms] =
      filter (\<lambda>i. snd (ms ! i)) [0..<length ms]"
    "filter (\<lambda>i. ae_source_tag (ac_entries c ! i) = 1) [0..<length ms] =
      filter (\<lambda>i. \<not> snd (ms ! i)) [0..<length ms]"
    by (auto intro!: filter_cong simp: tag split: if_splits)
  moreover have "length (filter Q ms) = length (filter (\<lambda>i. Q (ms ! i)) [0..<length ms])" for Q
  proof -
    have "filter Q ms = filter Q (map ((!) ms) [0..<length ms])" by (simp only: map_nth)
    then show ?thesis by (simp only: filter_map length_map comp_def)
  qed
  moreover have "ac_count c = length ms" using assms by (simp add: chain_rep_def)
  ultimately show "source_count 0 c = of_nat (length (filter snd ms))"
    "source_count 1 c = of_nat (length (filter (\<lambda>m. \<not> snd m) ms))"
    by (simp_all add: source_count_def foldl_count_word)
qed

definition measured :: "(u8 list \<times> bool) list \<Rightarrow> (u8 list \<times> bool) list" where
  "measured ms = take MAX_ATTESTATION_ENTRIES ms"

definition attest_report :: "chain_extend \<Rightarrow> (u8 list \<times> bool) list \<Rightarrow> attestation_report" where
  "attest_report ext ms = generate_attestation_report (snd (attest_all ext ms attestation_new))"

lemma attest_report_fields:
  "ar_entry_count (attest_report ext ms) = of_nat (length (measured ms))"
  "ar_chain_root (attest_report ext ms) = foldl ext (replicate 32 0) (map fst (measured ms))"
  "ar_boot_measurement_count (attest_report ext ms) = of_nat (length (filter snd (measured ms)))"
  "ar_runtime_witness_count (attest_report ext ms) = of_nat (length (filter (\<lambda>m. \<not> snd m) (measured ms)))"
proof -
  have rep: "chain_rep ext (snd (attest_all ext ms attestation_new)) (measured ms)"
    using attest_all_rep [OF attestation_new_rep, of ext ms] by (simp add: measured_def)
  then show "ar_entry_count (attest_report ext ms) = of_nat (length (measured ms))"
    "ar_chain_root (attest_report ext ms) = foldl ext (replicate 32 0) (map fst (measured ms))"
    "ar_boot_measurement_count (attest_report ext ms) = of_nat (length (filter snd (measured ms)))"
    "ar_runtime_witness_count (attest_report ext ms) = of_nat (length (filter (\<lambda>m. \<not> snd m) (measured ms)))"
    by (simp_all add: attest_report_def generate_attestation_report_def source_count_rep [OF rep]
        chain_rep_def)
qed

text \<open>
  C21.  An attestation root binds the measurements and their order.  With a digest of 32 bytes and a comparison that decides
  equality, when the report of one platform is
  accepted against the root of another and both have the same number of entries, then either the
  recorded measurements (the first 64) are the same digests in the same order, or the two runs
  themselves exhibit a collision of SHA-256: at some index the two running inputs differ and their
  digests agree.  The root does not bind whether a digest was a boot or a runtime measurement.
\<close>

theorem attestation_root_binds:
  fixes sha256 :: "u8 list \<Rightarrow> u8 list"
  defines "ext \<equiv> extend_chain_hash_sha256 sha256"
  defines "root \<equiv> \<lambda>hs. foldl ext (replicate 32 0) hs"
  assumes "\<And>x. length (sha256 x) = 32" and "\<And>x y. length x = length y \<Longrightarrow> subtle_eq x y \<longleftrightarrow> x = y"
    and "\<And>m. m \<in> set ms \<union> set ns \<Longrightarrow> length (fst m) = 32"
    and "length (measured ms) = length (measured ns)"
    and "verify_attestation subtle_eq (attest_report ext ms) (ar_chain_root (attest_report ext ns))"
  shows "map fst (measured ms) = map fst (measured ns) \<or>
    (\<exists>i < length (measured ms).
       root (map fst (take i (measured ms))) @ fst (measured ms ! i) \<noteq>
         root (map fst (take i (measured ns))) @ fst (measured ns ! i) \<and>
       sha256 (root (map fst (take i (measured ms))) @ fst (measured ms ! i)) =
         sha256 (root (map fst (take i (measured ns))) @ fst (measured ns ! i)))"
proof (subst disj_commute, rule disjCI)
  assume neq: "map fst (measured ms) \<noteq> map fst (measured ns)"
  have len: "length (root hs) = 32" for hs
    by (induction hs rule: rev_induct) (simp_all add: root_def ext_def extend_chain_hash_sha256_def assms(3))
  have "root (map fst (measured ms)) = root (map fst (measured ns))"
    using assms(4) [of "root (map fst (measured ms))" "root (map fst (measured ns))"] assms(7) len
    by (simp add: verify_attestation_def attest_report_fields root_def)
  from foldl_collision [OF this [unfolded root_def] _ neq] assms(6)
  obtain i where i: "i < length (measured ms)"
    "(root (map fst (take i (measured ms))), fst (measured ms ! i)) \<noteq>
       (root (map fst (take i (measured ns))), fst (measured ns ! i))"
    "ext (root (map fst (take i (measured ms)))) (fst (measured ms ! i)) =
       ext (root (map fst (take i (measured ns)))) (fst (measured ns ! i))"
    by (auto simp: root_def take_map)
  have "length (fst (measured ms ! i)) = length (fst (measured ns ! i))"
    using i(1) assms(5) [of "measured ms ! i"] assms(5) [of "measured ns ! i"] assms(6)
    by (auto simp: measured_def)
  with i show "\<exists>i < length (measured ms).
       root (map fst (take i (measured ms))) @ fst (measured ms ! i) \<noteq>
         root (map fst (take i (measured ns))) @ fst (measured ns ! i) \<and>
       sha256 (root (map fst (take i (measured ms))) @ fst (measured ms ! i)) =
         sha256 (root (map fst (take i (measured ns))) @ fst (measured ns ! i))"
    by (intro exI [of _ i]) (auto simp: append_eq_append_conv ext_def extend_chain_hash_sha256_def)
qed

definition demo_digest :: "u8 list \<Rightarrow> u8 list" where
  "demo_digest x = take 32 (x @ replicate 32 0)"

theorem attestation_root_binds_witness:
  "map fst (measured [(replicate 32 1, True)]) = map fst (measured [(replicate 32 (1 :: u8), False)]) \<or>
    (\<exists>i < length (measured [(replicate 32 1, True)]).
       foldl (extend_chain_hash_sha256 demo_digest) (replicate 32 0)
           (map fst (take i (measured [(replicate 32 1, True)]))) @ fst (measured [(replicate 32 1, True)] ! i) \<noteq>
         foldl (extend_chain_hash_sha256 demo_digest) (replicate 32 0)
           (map fst (take i (measured [(replicate 32 1, False)]))) @ fst (measured [(replicate 32 1, False)] ! i) \<and>
       demo_digest (foldl (extend_chain_hash_sha256 demo_digest) (replicate 32 0)
           (map fst (take i (measured [(replicate 32 1, True)]))) @ fst (measured [(replicate 32 1, True)] ! i)) =
         demo_digest (foldl (extend_chain_hash_sha256 demo_digest) (replicate 32 0)
           (map fst (take i (measured [(replicate 32 1, False)]))) @ fst (measured [(replicate 32 1, False)] ! i)))"
  by (rule attestation_root_binds [where subtle_eq = "(=)"])
    (auto simp: demo_digest_def verify_attestation_def attest_report_fields measured_def
      MAX_ATTESTATION_ENTRIES_def)

end
