(* ===== verification/Resource_Budget.thy ===== *)
theory Resource_Budget
  imports Rvm_Types
begin

text \<open>
  Crate \<open>rvm-security\<close>, files \<open>budget.rs\<close> and \<open>validation.rs\<close>: the per-partition budgets for DMA, CPU
  time, memory, messages and the GPU, and the validation of parameters.  Every meter of the crate
  interprets the locale \<open>meter\<close>: a charge is admitted exactly when it fits, in the arithmetic of the
  natural numbers, and a refused charge changes nothing.
\<close>

section \<open>Charging a 64-bit counter\<close>

text \<open>
  The common body of the checks: \<open>checked_add\<close>, the comparison with the limit, and the new total.
\<close>

definition charge_u64 :: "rvm_error \<Rightarrow> u64 \<Rightarrow> u64 \<Rightarrow> u64 \<Rightarrow> rvm_error + u64" where
  "charge_u64 err used requested limit =
     (case checked_add used requested of
        None \<Rightarrow> Inl err
      | Some new_total \<Rightarrow> if new_total > limit then Inl err else Inr new_total)"

section \<open>The DMA budget\<close>

record dma_budget =
  db_max_bytes_per_epoch :: u64
  db_used_bytes :: u64

definition dma_new :: "u64 \<Rightarrow> dma_budget" where
  "dma_new m = \<lparr>db_max_bytes_per_epoch = m, db_used_bytes = 0\<rparr>"

definition check_dma :: "u64 \<Rightarrow> dma_budget \<Rightarrow> (rvm_error, unit, dma_budget) outcome" where
  "check_dma requested b =
     (if requested = 0 then (Inr (), b)
      else case charge_u64 ResourceLimitExceeded (db_used_bytes b) requested (db_max_bytes_per_epoch b) of
        Inl e \<Rightarrow> (Inl e, b)
      | Inr new_total \<Rightarrow> (Inr (), b\<lparr>db_used_bytes := new_total\<rparr>))"

definition dma_remaining :: "dma_budget \<Rightarrow> u64" where
  "dma_remaining b = saturating_sub (db_max_bytes_per_epoch b) (db_used_bytes b)"

definition dma_reset :: "dma_budget \<Rightarrow> dma_budget" where
  "dma_reset b = b\<lparr>db_used_bytes := 0\<rparr>"

definition dma_is_exhausted :: "dma_budget \<Rightarrow> bool" where
  "dma_is_exhausted b \<longleftrightarrow> db_used_bytes b \<ge> db_max_bytes_per_epoch b"

section \<open>The quota of a partition\<close>

record resource_quota =
  rq_cpu_time_ns :: u64
  rq_cpu_time_used_ns :: u64
  rq_memory_bytes :: u64
  rq_memory_used_bytes :: u64
  rq_ipc_rate :: u32
  rq_ipc_used :: u32
  rq_dma :: dma_budget

definition quota_new :: "u64 \<Rightarrow> u64 \<Rightarrow> u32 \<Rightarrow> u64 \<Rightarrow> resource_quota" where
  "quota_new cpu mem ipc dma =
     \<lparr>rq_cpu_time_ns = cpu, rq_cpu_time_used_ns = 0, rq_memory_bytes = mem, rq_memory_used_bytes = 0,
      rq_ipc_rate = ipc, rq_ipc_used = 0, rq_dma = dma_new dma\<rparr>"

definition check_cpu_time :: "u64 \<Rightarrow> resource_quota \<Rightarrow> (rvm_error, unit, resource_quota) outcome" where
  "check_cpu_time requested q =
     (case charge_u64 ResourceLimitExceeded (rq_cpu_time_used_ns q) requested (rq_cpu_time_ns q) of
        Inl e \<Rightarrow> (Inl e, q)
      | Inr new_total \<Rightarrow> (Inr (), q\<lparr>rq_cpu_time_used_ns := new_total\<rparr>))"

definition quota_check_memory :: "u64 \<Rightarrow> resource_quota \<Rightarrow> (rvm_error, unit, resource_quota) outcome" where
  "quota_check_memory requested q =
     (case charge_u64 OutOfMemory (rq_memory_used_bytes q) requested (rq_memory_bytes q) of
        Inl e \<Rightarrow> (Inl e, q)
      | Inr new_total \<Rightarrow> (Inr (), q\<lparr>rq_memory_used_bytes := new_total\<rparr>))"

definition check_ipc :: "resource_quota \<Rightarrow> (rvm_error, unit, resource_quota) outcome" where
  "check_ipc q =
     (if rq_ipc_used q \<ge> rq_ipc_rate q then (Inl ResourceLimitExceeded, q)
      else (Inr (), q\<lparr>rq_ipc_used := rq_ipc_used q + 1\<rparr>))"

definition quota_release_memory :: "u64 \<Rightarrow> resource_quota \<Rightarrow> resource_quota" where
  "quota_release_memory b q = q\<lparr>rq_memory_used_bytes := saturating_sub (rq_memory_used_bytes q) b\<rparr>"

definition quota_reset_epoch :: "resource_quota \<Rightarrow> resource_quota" where
  "quota_reset_epoch q =
     q\<lparr>rq_cpu_time_used_ns := 0, rq_ipc_used := 0, rq_dma := dma_reset (rq_dma q)\<rparr>"

section \<open>The GPU quota\<close>

record gpu_quota =
  gq_compute_ns_max :: u64
  gq_compute_ns_used :: u64
  gq_memory_max :: u64
  gq_memory_used :: u64
  gq_transfer_bytes_max :: u64
  gq_transfer_bytes_used :: u64
  gq_kernel_launches_max :: u32
  gq_kernel_launches_used :: u32

definition gpu_quota_new :: "u64 \<Rightarrow> u64 \<Rightarrow> u64 \<Rightarrow> u32 \<Rightarrow> gpu_quota" where
  "gpu_quota_new compute mem transfer launches =
     \<lparr>gq_compute_ns_max = compute, gq_compute_ns_used = 0, gq_memory_max = mem, gq_memory_used = 0,
      gq_transfer_bytes_max = transfer, gq_transfer_bytes_used = 0,
      gq_kernel_launches_max = launches, gq_kernel_launches_used = 0\<rparr>"

definition check_compute :: "u64 \<Rightarrow> gpu_quota \<Rightarrow> (rvm_error, unit, gpu_quota) outcome" where
  "check_compute ns q =
     (case charge_u64 ResourceLimitExceeded (gq_compute_ns_used q) ns (gq_compute_ns_max q) of
        Inl e \<Rightarrow> (Inl e, q)
      | Inr new_total \<Rightarrow> (Inr (), q\<lparr>gq_compute_ns_used := new_total\<rparr>))"

definition gpu_check_memory :: "u64 \<Rightarrow> gpu_quota \<Rightarrow> (rvm_error, unit, gpu_quota) outcome" where
  "gpu_check_memory b q =
     (case charge_u64 ResourceLimitExceeded (gq_memory_used q) b (gq_memory_max q) of
        Inl e \<Rightarrow> (Inl e, q)
      | Inr new_total \<Rightarrow> (Inr (), q\<lparr>gq_memory_used := new_total\<rparr>))"

definition check_transfer :: "u64 \<Rightarrow> gpu_quota \<Rightarrow> (rvm_error, unit, gpu_quota) outcome" where
  "check_transfer b q =
     (if b = 0 then (Inr (), q)
      else case charge_u64 ResourceLimitExceeded (gq_transfer_bytes_used q) b (gq_transfer_bytes_max q) of
        Inl e \<Rightarrow> (Inl e, q)
      | Inr new_total \<Rightarrow> (Inr (), q\<lparr>gq_transfer_bytes_used := new_total\<rparr>))"

definition check_launch :: "gpu_quota \<Rightarrow> (rvm_error, unit, gpu_quota) outcome" where
  "check_launch q =
     (if gq_kernel_launches_used q \<ge> gq_kernel_launches_max q then (Inl ResourceLimitExceeded, q)
      else (Inr (), q\<lparr>gq_kernel_launches_used := gq_kernel_launches_used q + 1\<rparr>))"

definition record_transfer :: "u64 \<Rightarrow> gpu_quota \<Rightarrow> (rvm_error, unit, gpu_quota) outcome" where
  "record_transfer b q = check_transfer b q"

definition record_launch :: "gpu_quota \<Rightarrow> (rvm_error, unit, gpu_quota) outcome" where
  "record_launch q = check_launch q"

definition gpu_release_memory :: "u64 \<Rightarrow> gpu_quota \<Rightarrow> gpu_quota" where
  "gpu_release_memory b q = q\<lparr>gq_memory_used := saturating_sub (gq_memory_used q) b\<rparr>"

definition gpu_reset_epoch :: "gpu_quota \<Rightarrow> gpu_quota" where
  "gpu_reset_epoch q =
     q\<lparr>gq_compute_ns_used := 0, gq_transfer_bytes_used := 0, gq_kernel_launches_used := 0\<rparr>"

section \<open>Validation of parameters\<close>

definition MAX_PARTITION_ID :: u32 where "MAX_PARTITION_ID = 4096"
definition VALIDATION_PAGE_SIZE :: u64 where "VALIDATION_PAGE_SIZE = 4096"

definition validate_partition_id :: "u32 \<Rightarrow> rvm_error + unit" where
  "validate_partition_id i =
     (if i = 0 then Inl InvalidPartitionState
      else if i > MAX_PARTITION_ID then Inl PartitionLimitExceeded
      else Inr ())"

definition validate_region_bounds :: "u64 \<Rightarrow> u64 \<Rightarrow> rvm_error + unit" where
  "validate_region_bounds addr sz =
     (if sz = 0 then Inl AlignmentError
      else if addr mod VALIDATION_PAGE_SIZE \<noteq> 0 then Inl AlignmentError
      else if sz mod VALIDATION_PAGE_SIZE \<noteq> 0 then Inl AlignmentError
      else if checked_add addr sz = None then Inl MemoryOverlap
      else Inr ())"

definition validate_capability_rights :: "cap_rights \<Rightarrow> cap_rights \<Rightarrow> rvm_error + unit" where
  "validate_capability_rights requested held =
     (if rights_contains held requested then Inr () else Inl InsufficientCapability)"

definition validate_lease_expiry :: "u32 \<Rightarrow> u32 \<Rightarrow> rvm_error + unit" where
  "validate_lease_expiry lease_expiry_epoch current_epoch =
     (if current_epoch \<ge> lease_expiry_epoch then Inl DeviceLeaseExpired else Inr ())"

section \<open>The contract of a meter\<close>

locale meter =
  fixes charge :: "'n \<Rightarrow> 's \<Rightarrow> ('e, unit, 's) outcome"
    and cost :: "'n \<Rightarrow> nat"
    and limit :: "'s \<Rightarrow> nat"
    and used :: "'s \<Rightarrow> nat"
    and error :: 'e
  assumes charge_fits:
      "used s \<le> limit s \<Longrightarrow> used s + cost n \<le> limit s \<Longrightarrow>
         fst (charge n s) = Inr () \<and> used (snd (charge n s)) = used s + cost n"
    and charge_refused:
      "used s \<le> limit s \<Longrightarrow> limit s < used s + cost n \<Longrightarrow> charge n s = (Inl error, s)"
    and charge_limit: "limit (snd (charge n s)) = limit s"
begin

lemma charge_bounded: "used s \<le> limit s \<Longrightarrow> used (snd (charge n s)) \<le> limit s"
  using charge_fits [of s n] charge_refused [of s n] by (cases "used s + cost n \<le> limit s") auto

lemma charge_admits_iff:
  "used s \<le> limit s \<Longrightarrow> fst (charge n s) = Inr () \<longleftrightarrow> used s + cost n \<le> limit s"
  using charge_fits [of s n] charge_refused [of s n] by (cases "used s + cost n \<le> limit s") auto

fun charge_all :: "'n list \<Rightarrow> 's \<Rightarrow> ('e + unit) list \<times> 's" where
  "charge_all [] s = ([], s)"
| "charge_all (n # ns) s = (let (r, s1) = charge n s; (rs, s2) = charge_all ns s1 in (r # rs, s2))"

text \<open>The costs of the charges that were admitted add up to what was used, within the limit.\<close>

lemma charge_all_accounted:
  assumes "used s \<le> limit s"
  shows "used (snd (charge_all ns s)) =
      used s + (\<Sum>(n, r) \<leftarrow> zip ns (fst (charge_all ns s)). if r = Inr () then cost n else 0)"
    "used (snd (charge_all ns s)) \<le> limit s"
proof -
  have "used (snd (charge_all ns s)) =
      used s + (\<Sum>(n, r) \<leftarrow> zip ns (fst (charge_all ns s)). if r = Inr () then cost n else 0) \<and>
    used (snd (charge_all ns s)) \<le> limit s"
    using assms
  proof (induction ns arbitrary: s)
    case Nil
    then show ?case by simp
  next
    case (Cons n ns)
    have "used (snd (charge n s)) \<le> limit (snd (charge n s))"
      using Cons.prems charge_bounded charge_limit by simp
    note IH = Cons.IH [OF this]
    have "used (snd (charge n s)) = used s + (if fst (charge n s) = Inr () then cost n else 0)"
      using Cons.prems charge_fits charge_refused charge_admits_iff
      by (cases "used s + cost n \<le> limit s") auto
    with IH charge_limit [of n s] show ?case
      by (simp add: Let_def split_beta)
  qed
  then show "used (snd (charge_all ns s)) =
      used s + (\<Sum>(n, r) \<leftarrow> zip ns (fst (charge_all ns s)). if r = Inr () then cost n else 0)"
    "used (snd (charge_all ns s)) \<le> limit s" by simp_all
qed

end

lemma charge_u64_cases:
  "charge_u64 err used requested limit =
     (if unat used + unat requested \<le> unat limit then Inr (used + requested) else Inl err)"
proof -
  have "unat limit < 2 ^ 64" using unsigned_less [of limit, where ?'a = nat] by simp
  then show ?thesis
    by (auto simp: charge_u64_def checked_add_def word_less_nat_alt unat_word_ariths)
qed

lemma unat_add_fits:
  fixes a b c :: "'a::len word"
  assumes "unat a + unat b \<le> unat c"
  shows "unat (a + b) = unat a + unat b"
proof -
  have "unat c < 2 ^ LENGTH('a)" by (rule unsigned_less)
  with assms have "unat a + unat b < 2 ^ LENGTH('a)" by linarith
  then show ?thesis by (simp add: unat_word_ariths)
qed

lemma unat_succ_below: "Suc (unat a) \<le> unat b \<Longrightarrow> unat (a + 1) = Suc (unat a)" for a b :: "'a::len word"
  using unat_add_fits [of a 1 b] by simp

interpretation dma: meter check_dma unat "\<lambda>b. unat (db_max_bytes_per_epoch b)"
    "\<lambda>b. unat (db_used_bytes b)" ResourceLimitExceeded
  by unfold_locales (auto simp: check_dma_def charge_u64_cases unat_add_fits)

interpretation cpu_time: meter check_cpu_time unat "\<lambda>q. unat (rq_cpu_time_ns q)"
    "\<lambda>q. unat (rq_cpu_time_used_ns q)" ResourceLimitExceeded
  by unfold_locales (auto simp: check_cpu_time_def charge_u64_cases unat_add_fits)

interpretation memory: meter quota_check_memory unat "\<lambda>q. unat (rq_memory_bytes q)"
    "\<lambda>q. unat (rq_memory_used_bytes q)" OutOfMemory
  by unfold_locales (auto simp: quota_check_memory_def charge_u64_cases unat_add_fits)

interpretation ipc: meter "\<lambda>_ :: unit. check_ipc" "\<lambda>_. 1" "\<lambda>q. unat (rq_ipc_rate q)"
    "\<lambda>q. unat (rq_ipc_used q)" ResourceLimitExceeded
  by unfold_locales (auto simp: check_ipc_def word_le_nat_alt unat_succ_below not_le)

interpretation gpu_compute: meter check_compute unat "\<lambda>q. unat (gq_compute_ns_max q)"
    "\<lambda>q. unat (gq_compute_ns_used q)" ResourceLimitExceeded
  by unfold_locales (auto simp: check_compute_def charge_u64_cases unat_add_fits)

interpretation gpu_memory: meter gpu_check_memory unat "\<lambda>q. unat (gq_memory_max q)"
    "\<lambda>q. unat (gq_memory_used q)" ResourceLimitExceeded
  by unfold_locales (auto simp: gpu_check_memory_def charge_u64_cases unat_add_fits)

interpretation gpu_transfer: meter check_transfer unat "\<lambda>q. unat (gq_transfer_bytes_max q)"
    "\<lambda>q. unat (gq_transfer_bytes_used q)" ResourceLimitExceeded
  by unfold_locales (auto simp: check_transfer_def charge_u64_cases unat_add_fits)

interpretation gpu_launch: meter "\<lambda>_ :: unit. check_launch" "\<lambda>_. 1" "\<lambda>q. unat (gq_kernel_launches_max q)"
    "\<lambda>q. unat (gq_kernel_launches_used q)" ResourceLimitExceeded
  by unfold_locales (auto simp: check_launch_def word_le_nat_alt unat_succ_below not_le)

section \<open>All budgets together refine unbounded counters\<close>

datatype budget_meter =
    CpuTime | Memory | IpcMessages | DmaBytes | GpuCompute | GpuMemory | GpuTransfer | GpuLaunch

datatype budget_op =
    Charge budget_meter u64 | Release_Memory u64 | Gpu_Release_Memory u64 | Reset_Epoch | Gpu_Reset_Epoch

type_synonym budgets = "resource_quota \<times> gpu_quota"

fun budget_step :: "budget_op \<Rightarrow> budgets \<Rightarrow> (rvm_error, unit, budgets) outcome" where
  "budget_step (Charge CpuTime n) (q, g) = (let (r, q) = check_cpu_time n q in (r, q, g))"
| "budget_step (Charge Memory n) (q, g) = (let (r, q) = quota_check_memory n q in (r, q, g))"
| "budget_step (Charge IpcMessages n) (q, g) = (let (r, q) = check_ipc q in (r, q, g))"
| "budget_step (Charge DmaBytes n) (q, g) =
     (let (r, b) = check_dma n (rq_dma q) in (r, q\<lparr>rq_dma := b\<rparr>, g))"
| "budget_step (Charge GpuCompute n) (q, g) = (let (r, g) = check_compute n g in (r, q, g))"
| "budget_step (Charge GpuMemory n) (q, g) = (let (r, g) = gpu_check_memory n g in (r, q, g))"
| "budget_step (Charge GpuTransfer n) (q, g) = (let (r, g) = record_transfer n g in (r, q, g))"
| "budget_step (Charge GpuLaunch n) (q, g) = (let (r, g) = record_launch g in (r, q, g))"
| "budget_step (Release_Memory n) (q, g) = (Inr (), quota_release_memory n q, g)"
| "budget_step (Gpu_Release_Memory n) (q, g) = (Inr (), q, gpu_release_memory n g)"
| "budget_step Reset_Epoch (q, g) = (Inr (), quota_reset_epoch q, g)"
| "budget_step Gpu_Reset_Epoch (q, g) = (Inr (), q, gpu_reset_epoch g)"

fun budget_limit :: "budgets \<Rightarrow> budget_meter \<Rightarrow> nat" where
  "budget_limit (q, g) CpuTime = unat (rq_cpu_time_ns q)"
| "budget_limit (q, g) Memory = unat (rq_memory_bytes q)"
| "budget_limit (q, g) IpcMessages = unat (rq_ipc_rate q)"
| "budget_limit (q, g) DmaBytes = unat (db_max_bytes_per_epoch (rq_dma q))"
| "budget_limit (q, g) GpuCompute = unat (gq_compute_ns_max g)"
| "budget_limit (q, g) GpuMemory = unat (gq_memory_max g)"
| "budget_limit (q, g) GpuTransfer = unat (gq_transfer_bytes_max g)"
| "budget_limit (q, g) GpuLaunch = unat (gq_kernel_launches_max g)"

fun budget_used :: "budgets \<Rightarrow> budget_meter \<Rightarrow> nat" where
  "budget_used (q, g) CpuTime = unat (rq_cpu_time_used_ns q)"
| "budget_used (q, g) Memory = unat (rq_memory_used_bytes q)"
| "budget_used (q, g) IpcMessages = unat (rq_ipc_used q)"
| "budget_used (q, g) DmaBytes = unat (db_used_bytes (rq_dma q))"
| "budget_used (q, g) GpuCompute = unat (gq_compute_ns_used g)"
| "budget_used (q, g) GpuMemory = unat (gq_memory_used g)"
| "budget_used (q, g) GpuTransfer = unat (gq_transfer_bytes_used g)"
| "budget_used (q, g) GpuLaunch = unat (gq_kernel_launches_used g)"

text \<open>The specification: counters without a width, one for each meter.\<close>

definition ideal_cost :: "budget_meter \<Rightarrow> u64 \<Rightarrow> nat" where
  "ideal_cost m n = (if m = IpcMessages \<or> m = GpuLaunch then 1 else unat n)"

definition ideal_error :: "budget_meter \<Rightarrow> rvm_error" where
  "ideal_error m = (if m = Memory then OutOfMemory else ResourceLimitExceeded)"

fun ideal_step ::
    "(budget_meter \<Rightarrow> nat) \<Rightarrow> budget_op \<Rightarrow> (budget_meter \<Rightarrow> nat) \<Rightarrow>
       (rvm_error, unit, budget_meter \<Rightarrow> nat) outcome" where
  "ideal_step limit (Charge m n) used =
     (if used m + ideal_cost m n \<le> limit m
      then (Inr (), used(m := used m + ideal_cost m n))
      else (Inl (ideal_error m), used))"
| "ideal_step limit (Release_Memory n) used = (Inr (), used(Memory := used Memory - unat n))"
| "ideal_step limit (Gpu_Release_Memory n) used = (Inr (), used(GpuMemory := used GpuMemory - unat n))"
| "ideal_step limit Reset_Epoch used = (Inr (), used(CpuTime := 0, IpcMessages := 0, DmaBytes := 0))"
| "ideal_step limit Gpu_Reset_Epoch used = (Inr (), used(GpuCompute := 0, GpuTransfer := 0, GpuLaunch := 0))"

fun run_ops :: "('o \<Rightarrow> 's \<Rightarrow> ('e, unit, 's) outcome) \<Rightarrow> 'o list \<Rightarrow> 's \<Rightarrow> ('e + unit) list \<times> 's" where
  "run_ops step [] s = ([], s)"
| "run_ops step (x # xs) s = (let (r, s1) = step x s; (rs, s2) = run_ops step xs s1 in (r # rs, s2))"

definition within :: "budgets \<Rightarrow> bool" where
  "within b \<longleftrightarrow> (\<forall>m. budget_used b m \<le> budget_limit b m)"

lemmas budget_ops = check_cpu_time_def quota_check_memory_def check_ipc_def check_dma_def
  check_compute_def gpu_check_memory_def check_transfer_def check_launch_def record_transfer_def
  record_launch_def quota_release_memory_def gpu_release_memory_def quota_reset_epoch_def
  gpu_reset_epoch_def dma_reset_def

text \<open>A counter per meter: the effect of every operation on every meter.\<close>

lemma budget_step_refines:
  assumes "within b"
  shows "fst (budget_step x b) = fst (ideal_step (budget_limit b) x (budget_used b))"
    "budget_used (snd (budget_step x b)) m = snd (ideal_step (budget_limit b) x (budget_used b)) m"
    "budget_limit (snd (budget_step x b)) m = budget_limit b m"
proof -
  obtain q g where b: "b = (q, g)" by (cases b)
  note simps = b budget_ops charge_u64_cases unat_add_fits unat_succ_below ideal_cost_def ideal_error_def
    saturating_sub_unat word_le_nat_alt not_le Suc_le_eq
  show "fst (budget_step x b) = fst (ideal_step (budget_limit b) x (budget_used b))"
    using assms [unfolded within_def, rule_format, of DmaBytes]
      assms [unfolded within_def, rule_format, of GpuTransfer]
    by (cases "(x, b)" rule: budget_step.cases) (auto simp: simps)
  show "budget_limit (snd (budget_step x b)) m = budget_limit b m"
    by (cases "(x, b)" rule: budget_step.cases; cases m) (auto simp: budget_ops charge_u64_cases)
  show "budget_used (snd (budget_step x b)) m = snd (ideal_step (budget_limit b) x (budget_used b)) m"
    by (cases "(x, b)" rule: budget_step.cases; cases m) (auto simp: simps)
qed

lemma ideal_step_within:
  assumes "\<And>m. used m \<le> limit m"
  shows "snd (ideal_step limit x used) m \<le> limit m"
proof (cases x)
  case (Charge m' n)
  then show ?thesis using assms by simp
qed (use assms in \<open>auto intro: le_trans [OF diff_le_self]\<close>)

lemma budget_step_within:
  assumes "within b"
  shows "within (snd (budget_step x b))"
  using assms ideal_step_within [of "budget_used b" "budget_limit b" x]
  by (simp add: within_def budget_step_refines [OF assms])

lemma run_ops_refines:
  assumes "within b"
  shows "fst (run_ops budget_step xs b) = fst (run_ops (ideal_step (budget_limit b)) xs (budget_used b)) \<and>
    budget_used (snd (run_ops budget_step xs b)) =
      snd (run_ops (ideal_step (budget_limit b)) xs (budget_used b)) \<and>
    within (snd (run_ops budget_step xs b)) \<and>
    budget_limit (snd (run_ops budget_step xs b)) = budget_limit b"
  using assms
proof (induction xs arbitrary: b)
  case Nil
  then show ?case by simp
next
  case (Cons x xs)
  let ?b = "snd (budget_step x b)"
  have "budget_used ?b = snd (ideal_step (budget_limit b) x (budget_used b))"
    "budget_limit ?b = budget_limit b"
    using budget_step_refines [OF Cons.prems] by auto
  with Cons.IH [OF budget_step_within [OF Cons.prems, of x]] show ?case
    by (simp add: budget_step_refines(1) [OF Cons.prems] Let_def split_beta)
qed

text \<open>
  C22.  The budgets of a partition never admit more than their limits, and the fixed-width counters
  behave as counters without a width: for every sequence of charges, releases and epoch resets,
  starting from fresh quotas, every answer is the one that unbounded arithmetic gives (a charge is
  admitted exactly when it fits, overflow included), every counter has the exact value, and every
  meter stays within its limit.
\<close>

theorem budgets_refine_unbounded:
  "let b = (quota_new cpu mem ipc dma, gpu_quota_new compute gmem transfer launches);
       (rs, b') = run_ops budget_step xs b;
       (rs', used') = run_ops (ideal_step (budget_limit b)) xs (\<lambda>_. 0)
   in rs = rs' \<and> budget_used b' = used' \<and> (\<forall>m. budget_used b' m \<le> budget_limit b m)"
proof -
  let ?b = "(quota_new cpu mem ipc dma, gpu_quota_new compute gmem transfer launches)"
  have zero: "budget_used ?b = (\<lambda>_. 0)"
  proof
    show "budget_used ?b m = 0" for m
      by (cases m) (simp_all add: quota_new_def gpu_quota_new_def dma_new_def)
  qed
  then have "within ?b" by (simp add: within_def)
  note run = run_ops_refines [OF this, of xs, unfolded zero]
  then have "\<forall>m. budget_used (snd (run_ops budget_step xs ?b)) m \<le> budget_limit ?b m"
    by (metis within_def)
  with run show ?thesis by (simp add: Let_def split_beta)
qed

end
