(* ===== verification/Proof_Engine.thy ===== *)
theory Proof_Engine
  imports Cap_Manager Security_Gate
begin

text \<open>
  Crate \<open>rvm-proof\<close>: the proof context and its builder (\<open>context.rs\<close>), the P2 rules with their nonce memory
  (\<open>policy.rs\<close>), the engine that chains P1, P2 and the witness (\<open>engine.rs\<close>), proofs and their verification
  (\<open>lib.rs\<close>) and the comparisons of \<open>constant_time.rs\<close>.  The comparison of the crate \<open>subtle\<close>, the
  chain hash and the signer are parameters.
\<close>

section \<open>The context\<close>

record proof_context =
  px_partition_id :: partition_id
  px_target_object :: u64
  px_requested_operation :: u8
  px_capability_handle :: u32
  px_capability_generation :: u32
  px_current_epoch :: u32
  px_region_base :: u64
  px_region_limit :: u64
  px_lease_expiry_ns :: u64
  px_current_time_ns :: u64
  px_max_delegation_depth :: u8
  px_nonce :: u64

text \<open>The builder has the same fields as the context that it builds.\<close>

type_synonym proof_context_builder = proof_context

definition context_builder_new :: "partition_id \<Rightarrow> proof_context_builder" where
  "context_builder_new p =
     \<lparr>px_partition_id = p, px_target_object = 0, px_requested_operation = 0, px_capability_handle = 0,
      px_capability_generation = 0, px_current_epoch = 0, px_region_base = 0, px_region_limit = 0,
      px_lease_expiry_ns = U64_MAX, px_current_time_ns = 0, px_max_delegation_depth = 8, px_nonce = 0\<rparr>"

definition with_target_object :: "u64 \<Rightarrow> proof_context_builder \<Rightarrow> proof_context_builder" where
  "with_target_object x b = b\<lparr>px_target_object := x\<rparr>"

definition with_requested_operation :: "u8 \<Rightarrow> proof_context_builder \<Rightarrow> proof_context_builder" where
  "with_requested_operation x b = b\<lparr>px_requested_operation := x\<rparr>"

definition with_capability_handle :: "u32 \<Rightarrow> proof_context_builder \<Rightarrow> proof_context_builder" where
  "with_capability_handle x b = b\<lparr>px_capability_handle := x\<rparr>"

definition with_capability_generation :: "u32 \<Rightarrow> proof_context_builder \<Rightarrow> proof_context_builder" where
  "with_capability_generation x b = b\<lparr>px_capability_generation := x\<rparr>"

definition with_current_epoch :: "u32 \<Rightarrow> proof_context_builder \<Rightarrow> proof_context_builder" where
  "with_current_epoch x b = b\<lparr>px_current_epoch := x\<rparr>"

definition with_region_bounds :: "u64 \<Rightarrow> u64 \<Rightarrow> proof_context_builder \<Rightarrow> proof_context_builder" where
  "with_region_bounds base limit b = b\<lparr>px_region_base := base, px_region_limit := limit\<rparr>"

definition with_time_window :: "u64 \<Rightarrow> u64 \<Rightarrow> proof_context_builder \<Rightarrow> proof_context_builder" where
  "with_time_window current_ns expiry_ns b =
     b\<lparr>px_current_time_ns := current_ns, px_lease_expiry_ns := expiry_ns\<rparr>"

definition with_max_delegation_depth :: "u8 \<Rightarrow> proof_context_builder \<Rightarrow> proof_context_builder" where
  "with_max_delegation_depth x b = b\<lparr>px_max_delegation_depth := x\<rparr>"

definition with_nonce :: "u64 \<Rightarrow> proof_context_builder \<Rightarrow> proof_context_builder" where
  "with_nonce x b = b\<lparr>px_nonce := x\<rparr>"

definition context_build :: "proof_context_builder \<Rightarrow> proof_context" where
  "context_build b = b"

section \<open>Policy rules\<close>

datatype policy_rule =
  OwnershipChain | RegionBounds | LeaseExpiry | DelegationDepth | NonceReplay | TimeWindow

definition POLICY_NONCE_RING_SIZE :: nat where "POLICY_NONCE_RING_SIZE = 4096"

record policy_evaluator =
  pe_nonce_ring :: "u64 list"
  pe_nonce_hash :: "u64 list"
  pe_nonce_write_pos :: nat
  pe_nonce_watermark :: u64
  pe_allow_zero_nonce :: bool

definition policy_new :: policy_evaluator where
  "policy_new =
     \<lparr>pe_nonce_ring = replicate POLICY_NONCE_RING_SIZE 0, pe_nonce_hash = replicate POLICY_NONCE_RING_SIZE 0,
      pe_nonce_write_pos = 0, pe_nonce_watermark = 0, pe_allow_zero_nonce = False\<rparr>"

definition policy_set_allow_zero_nonce :: "bool \<Rightarrow> policy_evaluator \<Rightarrow> policy_evaluator" where
  "policy_set_allow_zero_nonce allow p = p\<lparr>pe_allow_zero_nonce := allow\<rparr>"

definition policy_nonce_slot :: "u64 \<Rightarrow> nat" where
  "policy_nonce_slot nonce = unat (nonce mod of_nat POLICY_NONCE_RING_SIZE)"

definition is_nonce_replayed :: "u64 \<Rightarrow> policy_evaluator \<Rightarrow> bool" where
  "is_nonce_replayed nonce p =
     (if nonce = 0 then \<not> pe_allow_zero_nonce p
      else if nonce \<le> pe_nonce_watermark p then True
      else pe_nonce_hash p ! policy_nonce_slot nonce = nonce)"

definition evaluate_rule :: "policy_rule \<Rightarrow> proof_context \<Rightarrow> policy_evaluator \<Rightarrow> rvm_error + unit" where
  "evaluate_rule rule ctx p =
     (case rule of
        OwnershipChain \<Rightarrow> if px_partition_id ctx > MAX_LOGICAL then Inl InsufficientCapability else Inr ()
      | RegionBounds \<Rightarrow> if px_region_base ctx < px_region_limit ctx then Inr () else Inl ProofInvalid
      | LeaseExpiry \<Rightarrow> if px_current_time_ns ctx \<le> px_lease_expiry_ns ctx then Inr () else Inl DeviceLeaseExpired
      | DelegationDepth \<Rightarrow> if px_max_delegation_depth ctx \<le> 8 then Inr () else Inl DelegationDepthExceeded
      | NonceReplay \<Rightarrow> if is_nonce_replayed (px_nonce ctx) p then Inl ProofInvalid else Inr ()
      | TimeWindow \<Rightarrow> if px_current_time_ns ctx \<le> px_lease_expiry_ns ctx then Inr () else Inl ProofBudgetExceeded)"

text \<open>The least entry of the ring that is not zero, \<open>u64::MAX\<close> when there is none.\<close>

definition ring_least :: "u64 list \<Rightarrow> u64" where
  "ring_least ring = foldl (\<lambda>m e. if e \<noteq> 0 \<and> e < m then e else m) U64_MAX ring"

definition record_nonce :: "u64 \<Rightarrow> policy_evaluator \<Rightarrow> policy_evaluator" where
  "record_nonce nonce p =
     (let p = p\<lparr>pe_nonce_ring := (pe_nonce_ring p)[pe_nonce_write_pos p := nonce],
                pe_nonce_hash := (pe_nonce_hash p)[policy_nonce_slot nonce := nonce],
                pe_nonce_write_pos := (pe_nonce_write_pos p + 1) mod POLICY_NONCE_RING_SIZE\<rparr>
      in if pe_nonce_write_pos p = 0
         then let min_val = ring_least (pe_nonce_ring p)
              in if min_val \<noteq> U64_MAX \<and> min_val > pe_nonce_watermark p
                 then p\<lparr>pe_nonce_watermark := min_val\<rparr> else p
         else p)"

definition evaluate_all_rules :: "proof_context \<Rightarrow> policy_evaluator \<Rightarrow> (rvm_error, unit, policy_evaluator) outcome" where
  "evaluate_all_rules ctx p =
     (let valid = True;
          valid = (valid \<and> evaluate_rule OwnershipChain ctx p = Inr ());
          valid = (valid \<and> evaluate_rule RegionBounds ctx p = Inr ());
          valid = (valid \<and> evaluate_rule LeaseExpiry ctx p = Inr ());
          valid = (valid \<and> evaluate_rule DelegationDepth ctx p = Inr ());
          nonce_ok = (evaluate_rule NonceReplay ctx p = Inr ());
          valid = (valid \<and> nonce_ok);
          valid = (valid \<and> evaluate_rule TimeWindow ctx p = Inr ())
      in if valid then (Inr (), if px_nonce ctx \<noteq> 0 then record_nonce (px_nonce ctx) p else p)
         else (Inl ProofInvalid, p))"

section \<open>The engine\<close>

record proof_token =
  pt_tier :: proof_tier
  pt_epoch :: u32
  pt_hash :: u32

fun tier_code :: "proof_tier \<Rightarrow> u8" where
  "tier_code P1 = 1" | "tier_code P2 = 2" | "tier_code P3 = 3"

fun tier_action :: "proof_tier \<Rightarrow> action_kind" where
  "tier_action P1 = ProofVerifiedP1" | "tier_action P2 = ProofVerifiedP2" | "tier_action P3 = ProofVerifiedP3"

definition proof_record :: "action_kind \<Rightarrow> proof_context \<Rightarrow> proof_token \<Rightarrow> witness_record" where
  "proof_record action ctx token =
     witness_zeroed\<lparr>wr_action_kind := action_code action, wr_proof_tier := tier_code (pt_tier token),
       wr_actor_partition_id := px_partition_id ctx, wr_target_object_id := px_target_object ctx,
       wr_capability_hash := pt_hash token\<rparr>"

definition emit_proof_witness ::
    "chain_hash \<Rightarrow> action_kind \<Rightarrow> proof_context \<Rightarrow> proof_token \<Rightarrow> witness_log \<Rightarrow> witness_log" where
  "emit_proof_witness H action ctx token log = snd (log_append H (proof_record action ctx token) log)"

definition engine_emit_rejected :: "chain_hash \<Rightarrow> proof_context \<Rightarrow> proof_token \<Rightarrow> witness_log \<Rightarrow> witness_log" where
  "engine_emit_rejected H ctx token log = snd (log_append H (proof_record ProofRejected ctx token) log)"

definition emit_signed_proof_witness ::
    "chain_hash \<Rightarrow> witness_signer \<Rightarrow> action_kind \<Rightarrow> proof_context \<Rightarrow> proof_token \<Rightarrow> witness_log \<Rightarrow> witness_log" where
  "emit_signed_proof_witness H signer action ctx token log =
     snd (log_signed_append H signer (proof_record action ctx token) log)"

definition emit_signed_proof_rejected ::
    "chain_hash \<Rightarrow> witness_signer \<Rightarrow> proof_context \<Rightarrow> proof_token \<Rightarrow> witness_log \<Rightarrow> witness_log" where
  "emit_signed_proof_rejected H signer ctx token log =
     snd (log_signed_append H signer (proof_record ProofRejected ctx token) log)"

definition verify_and_witness ::
    "chain_hash \<Rightarrow> proof_token \<Rightarrow> proof_context \<Rightarrow> cap_manager \<Rightarrow> policy_evaluator \<Rightarrow> witness_log \<Rightarrow>
       (rvm_error, unit, policy_evaluator \<times> witness_log) outcome" where
  "verify_and_witness H token ctx mgr p log =
     (case manager_verify_p1 (px_capability_handle ctx) (px_capability_generation ctx) PROVE mgr of
        Inl e \<Rightarrow> (Inl (proof_error_to_rvm e), p, engine_emit_rejected H ctx token log)
      | Inr _ \<Rightarrow>
          (case evaluate_all_rules ctx p of
             (Inl e, p) \<Rightarrow> (Inl e, p, engine_emit_rejected H ctx token log)
           | (Inr _, p) \<Rightarrow> (Inr (), p, emit_proof_witness H (tier_action (pt_tier token)) ctx token log)))"

definition p3_token :: "proof_context \<Rightarrow> proof_token" where
  "p3_token ctx = \<lparr>pt_tier = P3, pt_epoch = px_current_epoch ctx, pt_hash = 0\<rparr>"

text \<open>\<open>verify_p3\<close>: the policy rules on a fresh evaluator; the flag of the caller is ignored.\<close>

definition engine_verify_p3 ::
    "chain_hash \<Rightarrow> proof_context \<Rightarrow> bool \<Rightarrow> witness_log \<Rightarrow> (rvm_error, unit, witness_log) outcome" where
  "engine_verify_p3 H ctx chain_valid log =
     (if fst (evaluate_all_rules ctx policy_new) = Inr ()
      then (Inr (), emit_proof_witness H ProofVerifiedP3 ctx (p3_token ctx) log)
      else (Inl ProofInvalid, engine_emit_rejected H ctx (p3_token ctx) log))"

definition engine_verify_p3_with_cap ::
    "chain_hash \<Rightarrow> proof_context \<Rightarrow> cap_manager \<Rightarrow> witness_log \<Rightarrow> (rvm_error, unit, witness_log) outcome option" where
  "engine_verify_p3_with_cap H ctx mgr log =
     (case manager_verify_p3 (px_capability_handle ctx) (px_capability_generation ctx) (px_max_delegation_depth ctx) mgr of
        None \<Rightarrow> None
      | Some r \<Rightarrow>
          Some (if r = Inr () then (Inr (), emit_proof_witness H ProofVerifiedP3 ctx (p3_token ctx) log)
                else (Inl ProofInvalid, engine_emit_rejected H ctx (p3_token ctx) log)))"

definition engine_verify_p3_signed ::
    "chain_hash \<Rightarrow> witness_signer \<Rightarrow> proof_context \<Rightarrow> witness_log \<Rightarrow> (rvm_error, unit, witness_log) outcome" where
  "engine_verify_p3_signed H signer ctx log =
     (if fst (evaluate_all_rules ctx policy_new) = Inr ()
      then (Inr (), emit_signed_proof_witness H signer ProofVerifiedP3 ctx (p3_token ctx) log)
      else (Inl ProofInvalid, emit_signed_proof_rejected H signer ctx (p3_token ctx) log))"

section \<open>Proofs\<close>

datatype payload_tier = HashTier | WitnessTier | ZkTier

record proof_payload =
  pf_tier :: payload_tier
  pf_commitment :: witness_hash
  pf_data :: "u8 list"
  pf_data_len :: u8

definition hash_proof :: "witness_hash \<Rightarrow> u8 list \<Rightarrow> proof_payload" where
  "hash_proof commitment preimage =
     (let len = min (length preimage) 64
      in \<lparr>pf_tier = HashTier, pf_commitment = commitment,
          pf_data = take len preimage @ replicate (64 - len) 0, pf_data_len = of_nat len\<rparr>)"

definition proof_data :: "proof_payload \<Rightarrow> u8 list" where
  "proof_data p = take (unat (pf_data_len p)) (pf_data p)"

definition compute_data_hash :: "u8 list \<Rightarrow> witness_hash" where
  "compute_data_hash data = to_le_bytes64 (fnv1a_64 data) @ replicate 24 0"

definition LINK_SIZE :: nat where "LINK_SIZE = 16"

definition link_prev_hash :: "u8 list \<Rightarrow> nat \<Rightarrow> u64" where
  "link_prev_hash data i = from_le_bytes64 (take 8 (drop (i * LINK_SIZE) data))"

definition link_record_hash :: "u8 list \<Rightarrow> nat \<Rightarrow> u64" where
  "link_record_hash data i = from_le_bytes64 (take 8 (drop (i * LINK_SIZE + 8) data))"

definition verify_proof :: "proof_payload \<Rightarrow> witness_hash \<Rightarrow> rvm_error + unit" where
  "verify_proof p expected =
     (if pf_commitment p \<noteq> expected then Inl ProofInvalid
      else
        (case pf_tier p of
           HashTier \<Rightarrow>
             if pf_data_len p = 0 then Inl ProofInvalid
             else if compute_data_hash (proof_data p) \<noteq> pf_commitment p then Inl ProofInvalid
             else Inr ()
         | WitnessTier \<Rightarrow>
             if pf_data_len p = 0 then Inl ProofInvalid
             else
               (let data = proof_data p in
                if length data < LINK_SIZE then Inl ProofInvalid
                else
                  let link_count = length data div LINK_SIZE in
                  if link_count = 0 then Inl ProofInvalid
                  else if list_all (\<lambda>i. link_record_hash data i = link_prev_hash data (i + 1)) [0..<link_count - 1]
                  then Inr () else Inl ProofInvalid)
         | ZkTier \<Rightarrow> Inl Unsupported))"

definition verify_proof_with_cap :: "proof_payload \<Rightarrow> witness_hash \<Rightarrow> cap_token \<Rightarrow> rvm_error + unit" where
  "verify_proof_with_cap p expected token =
     (if \<not> has_rights token PROVE then Inl InsufficientCapability else verify_proof p expected)"

definition ct_eq :: "(u8 list \<Rightarrow> u8 list \<Rightarrow> bool) \<Rightarrow> u8 list \<Rightarrow> u8 list \<Rightarrow> bool" where
  "ct_eq subtle_eq a b = (if length a \<noteq> length b then False else subtle_eq a b)"

section \<open>The contract of a replay guard\<close>

text \<open>
  Both nonce memories of the system promise that an accepted nonce stays refused until another nonce
  of the same slot is accepted.
\<close>

locale replay_guard =
  fixes admits :: "u64 \<Rightarrow> 's \<Rightarrow> bool"
    and remember :: "u64 \<Rightarrow> 's \<Rightarrow> 's"
    and wf :: "'s \<Rightarrow> bool"
    and slot :: "u64 \<Rightarrow> nat"
  assumes remember_wf: "wf s \<Longrightarrow> wf (remember n s)"
    and remember_blocks: "wf s \<Longrightarrow> n \<noteq> 0 \<Longrightarrow> \<not> admits n (remember n s)"
    and remember_keeps:
      "wf s \<Longrightarrow> n \<noteq> 0 \<Longrightarrow> k \<noteq> 0 \<Longrightarrow> \<not> admits n s \<Longrightarrow> (slot k = slot n \<Longrightarrow> k = n) \<Longrightarrow> \<not> admits n (remember k s)"
begin

lemma remembered_blocks:
  assumes "wf s" "n \<noteq> 0" "\<not> admits n s" "\<forall>k\<in>set ks. k \<noteq> 0 \<and> (slot k = slot n \<longrightarrow> k = n)"
  shows "wf (foldl (\<lambda>s k. remember k s) s ks) \<and> \<not> admits n (foldl (\<lambda>s k. remember k s) s ks)"
  using assms
proof (induction ks arbitrary: s)
  case Nil
  then show ?case by simp
next
  case (Cons k ks)
  have "\<not> admits n (remember k s)" by (rule remember_keeps) (use Cons.prems in auto)
  with Cons.IH [of "remember k s"] Cons.prems remember_wf show ?case by simp
qed

end

lemma kept_slot: "xs ! i = n \<Longrightarrow> (j = i \<Longrightarrow> v = n) \<Longrightarrow> i < length xs \<Longrightarrow> xs[j := v] ! i = n"
  by (cases "j = i") auto

interpretation verifier_guard: replay_guard check_nonce mark_nonce verifier_inv nonce_slot
proof
  show "verifier_inv (mark_nonce n s)" if "verifier_inv s" for s n by (rule mark_nonce_inv [OF that])
  show "\<not> check_nonce n (mark_nonce n s)" if "verifier_inv s" "n \<noteq> 0" for s n
    by (rule remembers_rejected [OF mark_remembers [OF that] that(2)])
  show "\<not> check_nonce n (mark_nonce k s)"
    if "verifier_inv s" "n \<noteq> 0" "k \<noteq> 0" "\<not> check_nonce n s" "nonce_slot k = nonce_slot n \<Longrightarrow> k = n" for s n k
    using that nonce_slot_less [of n] mark_nonce_watermark [of s k]
    by (auto simp: check_nonce_def mark_nonce_hash verifier_inv_def kept_slot split: if_splits)
qed

definition policy_inv :: "policy_evaluator \<Rightarrow> bool" where
  "policy_inv p \<longleftrightarrow>
     length (pe_nonce_ring p) = POLICY_NONCE_RING_SIZE \<and> length (pe_nonce_hash p) = POLICY_NONCE_RING_SIZE \<and>
     pe_nonce_write_pos p < POLICY_NONCE_RING_SIZE"

lemma policy_nonce_slot_less: "policy_nonce_slot n < POLICY_NONCE_RING_SIZE"
proof -
  have "n mod 4096 < 4096" by (rule word_mod_less_divisor) simp
  then show ?thesis by (simp add: policy_nonce_slot_def POLICY_NONCE_RING_SIZE_def word_less_nat_alt)
qed

lemma record_nonce_fields:
  "pe_nonce_hash (record_nonce n p) = (pe_nonce_hash p)[policy_nonce_slot n := n]"
  "pe_nonce_watermark p \<le> pe_nonce_watermark (record_nonce n p)"
  "pe_allow_zero_nonce (record_nonce n p) = pe_allow_zero_nonce p"
  "policy_inv p \<Longrightarrow> policy_inv (record_nonce n p)"
  by (auto simp: record_nonce_def Let_def policy_inv_def POLICY_NONCE_RING_SIZE_def)

interpretation policy_guard:
  replay_guard "\<lambda>n p. \<not> is_nonce_replayed n p" record_nonce policy_inv policy_nonce_slot
proof
  show "policy_inv (record_nonce n s)" if "policy_inv s" for s n by (rule record_nonce_fields(4) [OF that])
  show "\<not> \<not> is_nonce_replayed n (record_nonce n s)" if "policy_inv s" "n \<noteq> 0" for s n
    using that policy_nonce_slot_less [of n] by (simp add: is_nonce_replayed_def record_nonce_fields policy_inv_def)
  show "\<not> \<not> is_nonce_replayed n (record_nonce k s)"
    if "policy_inv s" "n \<noteq> 0" "k \<noteq> 0" "\<not> \<not> is_nonce_replayed n s" "policy_nonce_slot k = policy_nonce_slot n \<Longrightarrow> k = n"
    for s n k
    using that policy_nonce_slot_less [of n] record_nonce_fields(2) [of s k]
    by (auto simp: is_nonce_replayed_def record_nonce_fields(1) policy_inv_def kept_slot split: if_splits)
qed

lemma policy_new_inv: "policy_inv policy_new"
  by (simp add: policy_inv_def policy_new_def POLICY_NONCE_RING_SIZE_def)

section \<open>What the engine decides\<close>

definition policy_admits :: "proof_context \<Rightarrow> policy_evaluator \<Rightarrow> bool" where
  "policy_admits ctx p \<longleftrightarrow>
     px_partition_id ctx \<le> MAX_LOGICAL \<and> px_region_base ctx < px_region_limit ctx \<and>
     px_current_time_ns ctx \<le> px_lease_expiry_ns ctx \<and> px_max_delegation_depth ctx \<le> 8 \<and>
     \<not> is_nonce_replayed (px_nonce ctx) p"

lemma evaluate_all_rules_cases:
  "evaluate_all_rules ctx p =
     (if policy_admits ctx p then (Inr (), if px_nonce ctx \<noteq> 0 then record_nonce (px_nonce ctx) p else p)
      else (Inl ProofInvalid, p))"
  by (auto simp: evaluate_all_rules_def evaluate_rule_def policy_admits_def Let_def)

definition holds_prove :: "proof_context \<Rightarrow> cap_manager \<Rightarrow> bool" where
  "holds_prove ctx mgr \<longleftrightarrow>
     manager_verify_p1 (px_capability_handle ctx) (px_capability_generation ctx) PROVE mgr = Inr ()"

text \<open>The answer, the new evaluator and the record of one call.\<close>

definition engine_answer :: "proof_context \<Rightarrow> cap_manager \<Rightarrow> policy_evaluator \<Rightarrow> rvm_error + unit" where
  "engine_answer ctx mgr p =
     (case manager_verify_p1 (px_capability_handle ctx) (px_capability_generation ctx) PROVE mgr of
        Inl e \<Rightarrow> Inl (proof_error_to_rvm e)
      | Inr _ \<Rightarrow> if policy_admits ctx p then Inr () else Inl ProofInvalid)"

lemma engine_answer_ok: "engine_answer ctx mgr p = Inr () \<longleftrightarrow> holds_prove ctx mgr \<and> policy_admits ctx p"
  by (auto simp: engine_answer_def holds_prove_def split: sum.splits)

lemma verify_and_witness_cases:
  "verify_and_witness H token ctx mgr p log =
     (engine_answer ctx mgr p,
      if engine_answer ctx mgr p = Inr () \<and> px_nonce ctx \<noteq> 0 then record_nonce (px_nonce ctx) p else p,
      snd (log_append H
        (proof_record (if engine_answer ctx mgr p = Inr () then tier_action (pt_tier token) else ProofRejected) ctx token) log))"
  by (auto simp: verify_and_witness_def evaluate_all_rules_cases engine_answer_def emit_proof_witness_def
      engine_emit_rejected_def split: sum.splits)

text \<open>A run of calls on one engine and one log, each with the manager of its moment.\<close>

type_synonym engine_call = "proof_token \<times> proof_context \<times> cap_manager"

fun engine_run ::
    "chain_hash \<Rightarrow> engine_call list \<Rightarrow> policy_evaluator \<Rightarrow> witness_log \<Rightarrow>
       (rvm_error + unit) list \<times> policy_evaluator \<times> witness_log" where
  "engine_run H [] p l = ([], p, l)"
| "engine_run H ((token, ctx, mgr) # cs) p l =
     (let (r, p1, l1) = verify_and_witness H token ctx mgr p l; (rs, p2, l2) = engine_run H cs p1 l1
      in (r # rs, p2, l2))"

definition call_nonce :: "engine_call \<Rightarrow> u64" where
  "call_nonce c = px_nonce (fst (snd c))"

text \<open>The record of a call agrees with its answer.\<close>

definition call_recorded :: "engine_call \<Rightarrow> rvm_error + unit \<Rightarrow> witness_record \<Rightarrow> bool" where
  "call_recorded c r w \<longleftrightarrow>
     (case c of (token, ctx, mgr) \<Rightarrow>
        wr_action_kind w = action_code (if r = Inr () then tier_action (pt_tier token) else ProofRejected) \<and>
        wr_proof_tier w = tier_code (pt_tier token) \<and> wr_actor_partition_id w = px_partition_id ctx \<and>
        wr_target_object_id w = px_target_object ctx \<and> wr_capability_hash w = pt_hash token \<and>
        (r = Inr () \<longrightarrow> holds_prove ctx mgr))"

lemma engine_run_recorded:
  assumes "log_rep H l hist" "length hist + length cs < 2 ^ 64"
  shows "\<exists>recs. log_rep H (snd (snd (engine_run H cs p l))) (hist @ recs) \<and>
    list_all2 (\<lambda>(c, r) w. call_recorded c r w) (zip cs (fst (engine_run H cs p l))) recs \<and>
    length (fst (engine_run H cs p l)) = length cs"
  using assms
proof (induction cs arbitrary: p l hist)
  case Nil
  then show ?case by (intro exI [of _ "[]"]) simp
next
  case (Cons c cs)
  obtain token ctx mgr where c: "c = (token, ctx, mgr)" by (cases c)
  define w where "w = proof_record (if engine_answer ctx mgr p = Inr () then tier_action (pt_tier token) else ProofRejected) ctx token"
  define p1 where "p1 = (if engine_answer ctx mgr p = Inr () \<and> px_nonce ctx \<noteq> 0 then record_nonce (px_nonce ctx) p else p)"
  define l1 where "l1 = snd (log_append H w l)"
  have step: "verify_and_witness H token ctx mgr p l = (engine_answer ctx mgr p, p1, l1)"
    by (simp add: verify_and_witness_cases w_def p1_def l1_def)
  have "log_rep H l1 (hist @ [stamp H (length hist) w])"
    unfolding l1_def by (rule log_append_rep(2)) (use Cons.prems in auto)
  from Cons.IH [OF this, of p1] Cons.prems obtain recs where
    "log_rep H (snd (snd (engine_run H cs p1 l1))) ((hist @ [stamp H (length hist) w]) @ recs)"
    "list_all2 (\<lambda>(c, r) w. call_recorded c r w) (zip cs (fst (engine_run H cs p1 l1))) recs"
    "length (fst (engine_run H cs p1 l1)) = length cs" by auto
  moreover have "call_recorded c (engine_answer ctx mgr p) (stamp H (length hist) w)"
    using engine_answer_ok [of ctx mgr p]
    by (auto simp: call_recorded_def c w_def stamp_def proof_record_def)
  ultimately show ?case
    by (intro exI [of _ "stamp H (length hist) w # recs"]) (simp add: c step Let_def case_prod_unfold)
qed

lemma engine_run_refuses:
  assumes "policy_inv p" "n \<noteq> 0" "is_nonce_replayed n p"
    and "\<forall>c\<in>set cs. policy_nonce_slot (call_nonce c) = policy_nonce_slot n \<longrightarrow> call_nonce c = n"
    and "i < length cs" "call_nonce (cs ! i) = n"
  shows "fst (engine_run H cs p l) ! i \<noteq> Inr ()"
  using assms
proof (induction cs arbitrary: p l i)
  case Nil
  then show ?case by simp
next
  case (Cons c cs)
  obtain token ctx mgr where c: "c = (token, ctx, mgr)" by (cases c)
  define p1 where "p1 = (if engine_answer ctx mgr p = Inr () \<and> px_nonce ctx \<noteq> 0 then record_nonce (px_nonce ctx) p else p)"
  obtain l1 where step: "verify_and_witness H token ctx mgr p l = (engine_answer ctx mgr p, p1, l1)"
    by (simp add: verify_and_witness_cases p1_def)
  have p1: "policy_inv p1" "is_nonce_replayed n p1"
    using Cons.prems(1-4) policy_guard.remember_wf [of p] policy_guard.remember_keeps [of p n "px_nonce ctx"]
    by (auto simp: p1_def c call_nonce_def)
  show ?case
  proof (cases i)
    case 0
    then have "px_nonce ctx = n" using Cons.prems(6) by (simp add: c call_nonce_def)
    then have "\<not> policy_admits ctx p" using Cons.prems(3) by (simp add: policy_admits_def)
    then show ?thesis using 0 engine_answer_ok [of ctx mgr p] by (simp add: c step Let_def split_beta)
  next
    case (Suc j)
    have "fst (engine_run H cs p1 l1) ! j \<noteq> Inr ()"
      by (rule Cons.IH [OF p1(1) Cons.prems(2) p1(2)]) (use Cons.prems Suc in auto)
    then show ?thesis using Suc by (simp add: c step Let_def split_beta)
  qed
qed

lemma engine_run_append:
  "engine_run H (xs @ ys) p l =
     (let (r1, p1, l1) = engine_run H xs p l; (r2, p2, l2) = engine_run H ys p1 l1 in (r1 @ r2, p2, l2))"
  by (induction xs arbitrary: p l) (auto simp: Let_def split_beta)

lemma engine_run_inv: "policy_inv p \<Longrightarrow> policy_inv (fst (snd (engine_run H cs p l)))"
proof (induction cs arbitrary: p l)
  case (Cons c cs)
  then show ?case
    by (cases c) (simp add: verify_and_witness_cases Let_def split_beta record_nonce_fields(4))
qed simp

lemma engine_run_length: "length (fst (engine_run H cs p l)) = length cs"
  by (induction cs arbitrary: p l) (auto simp: Let_def split_beta)

lemma engine_run_replay:
  assumes inv: "policy_inv p" and ij: "i < j" "j < length cs"
    and n: "call_nonce (cs ! i) = n" "call_nonce (cs ! j) = n" "n \<noteq> 0"
    and ok: "fst (engine_run H cs p l) ! i = Inr ()"
    and slot: "\<And>k. i < k \<Longrightarrow> k < j \<Longrightarrow> policy_nonce_slot (call_nonce (cs ! k)) = policy_nonce_slot n \<Longrightarrow> call_nonce (cs ! k) = n"
  shows "fst (engine_run H cs p l) ! j \<noteq> Inr ()"
proof -
  define pre mid post where "pre = take i cs" and "mid = drop (Suc i) (take (Suc j) cs)" and "post = drop (Suc j) cs"
  obtain token ctx mgr where c: "cs ! i = (token, ctx, mgr)" by (cases "cs ! i")
  have "drop (Suc i) (take (Suc j) cs @ drop (Suc j) cs) = mid @ post"
    using ij by (simp add: mid_def post_def del: append_take_drop_id)
  then have "drop (Suc i) cs = mid @ post" by simp
  then have split: "cs = pre @ (token, ctx, mgr) # mid @ post"
    using id_take_nth_drop [of i cs] ij c by (simp add: pre_def)
  obtain rs1 p1 l1 where r1: "engine_run H pre p l = (rs1, p1, l1)" by (cases "engine_run H pre p l")
  have p1: "policy_inv p1" using engine_run_inv [OF inv, of H pre l] r1 by simp
  obtain r q l2 where r2: "verify_and_witness H token ctx mgr p1 l1 = (r, q, l2)"
    by (cases "verify_and_witness H token ctx mgr p1 l1")
  have len: "length rs1 = i" using engine_run_length [of H pre p l] r1 ij by (simp add: pre_def)
  have run: "fst (engine_run H cs p l) = rs1 @ r # fst (engine_run H mid q l2) @
      fst (engine_run H post (fst (snd (engine_run H mid q l2))) (snd (snd (engine_run H mid q l2))))"
    by (subst split) (simp add: engine_run_append r1 r2 Let_def split_beta)
  have "r = Inr ()" using ok len by (simp add: run nth_append)
  then have q: "q = record_nonce n p1" "policy_inv q" "is_nonce_replayed n q"
    using r2 n c p1 policy_guard.remember_blocks [OF p1 n(3)] policy_guard.remember_wf [OF p1]
    by (auto simp: verify_and_witness_cases call_nonce_def)
  have lm: "length mid = j - i" using ij by (simp add: mid_def)
  have nth: "mid ! k = cs ! (Suc i + k)" if "k < j - i" for k
    using that ij by (simp add: mid_def)
  have "fst (engine_run H mid q l2) ! (j - Suc i) \<noteq> Inr ()"
  proof (rule engine_run_refuses [OF q(2) n(3) q(3)])
    show "\<forall>c\<in>set mid. policy_nonce_slot (call_nonce c) = policy_nonce_slot n \<longrightarrow> call_nonce c = n"
    proof (intro ballI impI)
      fix c assume "c \<in> set mid" and s: "policy_nonce_slot (call_nonce c) = policy_nonce_slot n"
      then obtain k where k: "k < j - i" "c = cs ! (Suc i + k)" by (metis in_set_conv_nth lm nth)
      show "call_nonce c = n"
        using slot [of "Suc i + k"] s k n(2) by (cases "Suc i + k = j") auto
    qed
    show "j - Suc i < length mid" using lm ij by simp
    show "call_nonce (mid ! (j - Suc i)) = n" using nth [of "j - Suc i"] ij n(2) by simp
  qed
  moreover have "fst (engine_run H cs p l) ! j = fst (engine_run H mid q l2) ! (j - Suc i)"
  proof -
    have "j - i = Suc (j - Suc i)" "\<not> j < i" "j - Suc i < j - i" using ij(1) by simp_all
    then show ?thesis using len lm engine_run_length [of H mid q l2] by (simp add: run nth_append)
  qed
  ultimately show ?thesis by simp
qed

section \<open>Hash proofs\<close>

lemma hash_proof_accepted:
  "verify_proof_with_cap (hash_proof c preimage) expected token = Inr () \<longleftrightarrow>
     has_rights token PROVE \<and> c = expected \<and> preimage \<noteq> [] \<and> compute_data_hash (take 64 preimage) = expected"
proof -
  have len: "unat (of_nat (min (length preimage) 64) :: u8) = min (length preimage) 64"
    by (simp add: unat_of_nat)
  then have data: "proof_data (hash_proof c preimage) = take 64 preimage"
    by (cases "length preimage \<le> 64") (simp_all add: proof_data_def hash_proof_def Let_def)
  have "pf_data_len (hash_proof c preimage) = 0 \<longleftrightarrow> preimage = []"
    using len by (auto simp: hash_proof_def Let_def word_unat_eq_iff min_def split: if_splits)
  then show ?thesis
    by (auto simp: verify_proof_with_cap_def verify_proof_def data) (simp_all add: hash_proof_def Let_def)
qed

section \<open>Properties\<close>

definition demo_context :: proof_context where
  "demo_context =
     context_build (with_nonce 7 (with_region_bounds 0 4096 (with_capability_handle 0
       (with_capability_generation 1 (context_builder_new 1)))))"

definition demo_manager :: cap_manager where
  "demo_manager = snd (create_root_capability CapPartition PROVE 0 1 (manager_new (Suc (Suc 0)) cap_manager_config_new))"

definition demo_calls :: "engine_call list" where
  "demo_calls = replicate 2 (\<lparr>pt_tier = P2, pt_epoch = 0, pt_hash = 0\<rparr>, demo_context, demo_manager)"

text \<open>
  C24.  The proof engine records every decision, and refuses a repeated nonzero nonce unless a different nonce
  of the same slot of its memory, one equal modulo 4096, came in between.
  A run of calls extends the log by one record for each call, in order, which names the partition, the
  object and the tier and says whether the proof was verified or rejected; a call is accepted only with a
  live capability that carries the right to prove.  Once a call with a nonzero nonce was accepted, every
  later call with that nonce is refused, as long as no other nonce of the same slot of the memory comes
  between them.
\<close>

theorem proof_engine_run_exact:
  assumes "log_rep H l hist" "length hist + length cs < 2 ^ 64"
  shows "(\<exists>recs. log_rep H (snd (snd (engine_run H cs policy_new l))) (hist @ recs) \<and>
      list_all2 (\<lambda>(c, r) w. call_recorded c r w) (zip cs (fst (engine_run H cs policy_new l))) recs) \<and>
    (i < j \<and> j < length cs \<and> call_nonce (cs ! i) = n \<and> call_nonce (cs ! j) = n \<and> n \<noteq> 0 \<and>
      fst (engine_run H cs policy_new l) ! i = Inr () \<and>
      (\<forall>k. i < k \<and> k < j \<and> policy_nonce_slot (call_nonce (cs ! k)) = policy_nonce_slot n \<longrightarrow> call_nonce (cs ! k) = n) \<longrightarrow>
      fst (engine_run H cs policy_new l) ! j \<noteq> Inr ())"
  using engine_run_recorded [OF assms, of policy_new] engine_run_replay [OF policy_new_inv, of i j cs n H l]
  by (intro conjI impI) blast+

lemma demo_accepts: "engine_answer demo_context demo_manager policy_new = Inr ()"
proof -
  have "holds_prove demo_context demo_manager"
    by (simp add: holds_prove_def demo_context_def context_build_def with_nonce_def with_region_bounds_def
        with_capability_handle_def with_capability_generation_def context_builder_new_def demo_manager_def
        manager_eval manager_verify_p1_def verify_p1_cases has_rights_def verifier_new_def)
  moreover have "policy_admits demo_context policy_new"
    using policy_nonce_slot_less [of 7]
    by (simp add: policy_admits_def demo_context_def context_build_def with_nonce_def with_region_bounds_def
        with_capability_handle_def with_capability_generation_def context_builder_new_def is_nonce_replayed_def policy_new_def
        MAX_LOGICAL_def)
  ultimately show ?thesis by (simp add: engine_answer_ok)
qed

theorem proof_engine_run_exact_witness:
  "fst (engine_run (\<lambda>h s. h + s) demo_calls policy_new (log_new 1)) ! 0 = Inr () \<and>
   fst (engine_run (\<lambda>h s. h + s) demo_calls policy_new (log_new 1)) ! 1 \<noteq> Inr ()"
proof -
  have first: "fst (engine_run (\<lambda>h s. h + s) demo_calls policy_new (log_new 1)) ! 0 = Inr ()"
    using demo_accepts by (simp add: demo_calls_def numeral_2_eq_2 verify_and_witness_cases Let_def split_beta)
  have "call_nonce (demo_calls ! 0) = 7" "call_nonce (demo_calls ! 1) = 7"
    by (simp_all add: demo_calls_def call_nonce_def demo_context_def context_build_def with_nonce_def)
  then show ?thesis
    using proof_engine_run_exact [of "\<lambda>h s. h + s" "log_new 1" "[]" demo_calls 0 1 7] first log_new_rep [of 1 "\<lambda>h s. h + s"]
    by (simp add: demo_calls_def)
qed

text \<open>
  The P3 check of the proof engine without a capability manager is no check of a derivation chain.  Its
  answer does not depend on the capability that the context names, nor on the chain flag, and it accepts the
  same nonce again and again; the variant with a capability manager certifies the path to a root.
\<close>

theorem engine_p3_ignores_chain:
  "fst (engine_verify_p3 H (ctx\<lparr>px_capability_handle := h, px_capability_generation := g\<rparr>) flag l) =
     fst (engine_verify_p3 H ctx flag' l')"
  by (simp add: engine_verify_p3_def evaluate_all_rules_cases policy_admits_def)

end
