(* ===== verification/Boot.thy ===== *)
theory Boot
  imports Witness_Hash
begin

text \<open>
  Crate \<open>rvm-boot\<close>: the seven boot stages (\<open>sequence.rs\<close>), the measured boot chain (\<open>measured.rs\<close>), the driver that runs
  the stages (\<open>entry.rs\<close>), the legacy tracker (\<open>lib.rs\<close>) and the stub of the hardware layer (\<open>hal_init.rs\<close>).
  The hardware layer, the tick source and SHA-256 are parameters of the driver.  Both trackers interpret the
  locale \<open>phase_machine\<close>: whatever is attempted, phases complete once each and in order.
\<close>

section \<open>Stages\<close>

datatype boot_stage =
  ResetVector | HardwareDetect | MmuSetup | HypervisorMode | KernelObjectInit | FirstWitness | SchedulerEntry

definition BOOT_STAGE_COUNT :: nat where "BOOT_STAGE_COUNT = 7"

fun stage_index :: "boot_stage \<Rightarrow> nat" where
  "stage_index ResetVector = 0" | "stage_index HardwareDetect = 1" | "stage_index MmuSetup = 2"
| "stage_index HypervisorMode = 3" | "stage_index KernelObjectInit = 4" | "stage_index FirstWitness = 5"
| "stage_index SchedulerEntry = 6"

fun stage_next :: "boot_stage \<Rightarrow> boot_stage option" where
  "stage_next ResetVector = Some HardwareDetect" | "stage_next HardwareDetect = Some MmuSetup"
| "stage_next MmuSetup = Some HypervisorMode" | "stage_next HypervisorMode = Some KernelObjectInit"
| "stage_next KernelObjectInit = Some FirstWitness" | "stage_next FirstWitness = Some SchedulerEntry"
| "stage_next SchedulerEntry = None"

fun stage_name :: "boot_stage \<Rightarrow> string" where
  "stage_name ResetVector = ''reset vector''" | "stage_name HardwareDetect = ''hardware detect''"
| "stage_name MmuSetup = ''MMU setup''" | "stage_name HypervisorMode = ''hypervisor mode''"
| "stage_name KernelObjectInit = ''kernel object init''" | "stage_name FirstWitness = ''first witness''"
| "stage_name SchedulerEntry = ''scheduler entry''"

definition stage_all :: "boot_stage list" where
  "stage_all =
     [ResetVector, HardwareDetect, MmuSetup, HypervisorMode, KernelObjectInit, FirstWitness, SchedulerEntry]"

record phase_timing =
  tm_start_tick :: u64
  tm_end_tick :: u64

definition timing_zeroed :: phase_timing where
  "timing_zeroed = \<lparr>tm_start_tick = 0, tm_end_tick = 0\<rparr>"

definition duration_ticks :: "phase_timing \<Rightarrow> u64" where
  "duration_ticks t = saturating_sub (tm_end_tick t) (tm_start_tick t)"

record boot_sequence =
  bs_current :: "boot_stage option"
  bs_completed :: "bool list"
  bs_timings :: "phase_timing list"
  bs_witness_digests :: "u8 list list"

definition sequence_new :: boot_sequence where
  "sequence_new =
     \<lparr>bs_current = Some ResetVector, bs_completed = replicate BOOT_STAGE_COUNT False,
      bs_timings = replicate BOOT_STAGE_COUNT timing_zeroed,
      bs_witness_digests = replicate BOOT_STAGE_COUNT (replicate 32 0)\<rparr>"

definition begin_stage :: "boot_stage \<Rightarrow> u64 \<Rightarrow> boot_sequence \<Rightarrow> (rvm_error, unit, boot_sequence) outcome" where
  "begin_stage stage tick s =
     (case bs_current s of
        Some expected \<Rightarrow>
          if stage_index expected = stage_index stage
          then (Inr (), s\<lparr>bs_timings := (bs_timings s)[stage_index stage :=
                  (bs_timings s ! stage_index stage)\<lparr>tm_start_tick := tick\<rparr>]\<rparr>)
          else (Inl InternalError, s)
      | None \<Rightarrow> (Inl Unsupported, s))"

definition complete_stage ::
    "boot_stage \<Rightarrow> u64 \<Rightarrow> u8 list \<Rightarrow> boot_sequence \<Rightarrow> (rvm_error, boot_stage, boot_sequence) outcome" where
  "complete_stage stage tick digest s =
     (case bs_current s of
        Some expected \<Rightarrow>
          if stage_index expected = stage_index stage
          then (Inr stage,
                s\<lparr>bs_timings := (bs_timings s)[stage_index stage :=
                    (bs_timings s ! stage_index stage)\<lparr>tm_end_tick := tick\<rparr>],
                  bs_completed := (bs_completed s)[stage_index stage := True],
                  bs_witness_digests := (bs_witness_digests s)[stage_index stage := digest],
                  bs_current := stage_next stage\<rparr>)
          else (Inl InternalError, s)
      | None \<Rightarrow> (Inl Unsupported, s))"

definition sequence_is_complete :: "boot_sequence \<Rightarrow> bool" where
  "sequence_is_complete s \<longleftrightarrow> bs_current s = None \<and> list_all (\<lambda>c. c) (bs_completed s)"

definition stage_completed :: "boot_stage \<Rightarrow> boot_sequence \<Rightarrow> bool" where
  "stage_completed stage s = bs_completed s ! stage_index stage"

definition total_ticks :: "boot_sequence \<Rightarrow> u64" where
  "total_ticks s =
     saturating_sub (tm_end_tick (bs_timings s ! (BOOT_STAGE_COUNT - 1))) (tm_start_tick (bs_timings s ! 0))"

section \<open>Measured boot\<close>

record measured_boot =
  mb_accumulator :: "u8 list"
  mb_measurement_count :: u32
  mb_phase_hashes :: "u8 list list"

definition measured_new :: measured_boot where
  "measured_new =
     \<lparr>mb_accumulator = replicate 32 0, mb_measurement_count = 0, mb_phase_hashes = replicate 7 (replicate 32 0)\<rparr>"

text \<open>The new accumulator in either feature of the crate.\<close>

definition measure_sha256 :: "(u8 list \<Rightarrow> u8 list) \<Rightarrow> u8 list \<Rightarrow> nat \<Rightarrow> u8 list \<Rightarrow> u8 list" where
  "measure_sha256 sha256 acc idx h = sha256 (acc @ [of_nat idx] @ h)"

definition measure_fnv :: "u8 list \<Rightarrow> nat \<Rightarrow> u8 list \<Rightarrow> u8 list" where
  "measure_fnv acc idx h =
     (let input = acc @ [of_nat idx] @ h
      in to_le_bytes64 (fnv1a_64 input) @ to_le_bytes64 (fnv1a_64 (drop 8 input)) @
         to_le_bytes64 (fnv1a_64 (drop 16 input)) @ to_le_bytes64 (fnv1a_64 (drop 24 input)))"

type_synonym measure_fn = "u8 list \<Rightarrow> nat \<Rightarrow> u8 list \<Rightarrow> u8 list"

definition extend_measurement :: "measure_fn \<Rightarrow> boot_stage \<Rightarrow> u8 list \<Rightarrow> measured_boot \<Rightarrow> measured_boot" where
  "extend_measurement mea phase h m =
     (let idx = stage_index phase
      in m\<lparr>mb_phase_hashes := (mb_phase_hashes m)[idx := h],
           mb_accumulator := mea (mb_accumulator m) idx h,
           mb_measurement_count := mb_measurement_count m + 1\<rparr>)"

definition is_virgin :: "measured_boot \<Rightarrow> bool" where
  "is_virgin m \<longleftrightarrow> mb_accumulator m = replicate 32 0"

section \<open>The hardware layer\<close>

record uart_config =
  uc_base_addr :: phys_addr
  uc_baud_rate :: u32

definition uart_default_qemu :: uart_config where
  "uart_default_qemu = \<lparr>uc_base_addr = 0x09000000, uc_baud_rate = 115200\<rparr>"

record mmu_config =
  mc_page_table_base :: phys_addr
  mc_levels :: u8
  mc_page_size :: u32

record interrupt_config =
  ic_irq_count :: u32

record 'h hal_init =
  hi_init_uart :: "uart_config \<Rightarrow> 'h \<Rightarrow> (rvm_error, unit, 'h) outcome"
  hi_init_mmu :: "mmu_config \<Rightarrow> 'h \<Rightarrow> (rvm_error, unit, 'h) outcome"
  hi_init_interrupts :: "interrupt_config \<Rightarrow> 'h \<Rightarrow> (rvm_error, unit, 'h) outcome"

record stub_hal =
  sh_uart_initialized :: bool
  sh_mmu_initialized :: bool
  sh_interrupts_initialized :: bool

definition stub_hal_new :: stub_hal where
  "stub_hal_new = \<lparr>sh_uart_initialized = False, sh_mmu_initialized = False, sh_interrupts_initialized = False\<rparr>"

definition stub_hal_init :: "stub_hal hal_init" where
  "stub_hal_init =
     \<lparr>hi_init_uart = (\<lambda>_ h. (Inr (), h\<lparr>sh_uart_initialized := True\<rparr>)),
      hi_init_mmu = (\<lambda>_ h. (Inr (), h\<lparr>sh_mmu_initialized := True\<rparr>)),
      hi_init_interrupts = (\<lambda>_ h. (Inr (), h\<lparr>sh_interrupts_initialized := True\<rparr>))\<rparr>"

section \<open>The driver\<close>

record boot_context =
  bc_sequence :: boot_sequence
  bc_measured :: measured_boot
  bc_dtb_ptr :: u64
  bc_ram_size :: u64
  bc_uart_ready :: bool

definition boot_context_new :: "u64 \<Rightarrow> boot_context" where
  "boot_context_new dtb =
     \<lparr>bc_sequence = sequence_new, bc_measured = measured_new, bc_dtb_ptr = dtb, bc_ram_size = 0,
      bc_uart_ready = False\<rparr>"

definition phase_digest :: "boot_stage \<Rightarrow> u8 list \<Rightarrow> u8 list" where
  "phase_digest stage data =
     (let copy_len = min (length data) 63;
          input = [of_nat (stage_index stage)] @ take copy_len data @ replicate (63 - copy_len) 0
      in to_le_bytes64 (fnv1a_64 input) @ to_le_bytes64 (fnv1a_64 (drop 8 input)) @
         to_le_bytes64 (fnv1a_64 (drop 16 input)) @ to_le_bytes64 (fnv1a_64 (drop 24 input)))"

type_synonym ('h, 't) boot_state = "boot_context \<times> 'h \<times> 't"
type_synonym 't tick_fn = "'t \<Rightarrow> u64 \<times> 't"
type_synonym 'h phase_work = "boot_context \<Rightarrow> 'h \<Rightarrow> (rvm_error, unit, boot_context \<times> 'h) outcome"

text \<open>
  One block of \<open>run_boot_sequence\<close>: begin the stage, do its work, digest its data, extend the
  measurement and complete the stage.  A failing step returns with the state as it is then.
\<close>

definition boot_block ::
    "measure_fn \<Rightarrow> 't tick_fn \<Rightarrow> boot_stage \<Rightarrow> 'h phase_work \<Rightarrow> (boot_context \<Rightarrow> u8 list) \<Rightarrow>
       ('h, 't) boot_state \<Rightarrow> (rvm_error, unit, ('h, 't) boot_state) outcome" where
  "boot_block mea tick_fn stage work data st =
     (case st of (ctx, hal, t) \<Rightarrow>
        (let (tick, t) = tick_fn t;
             (r, s) = begin_stage stage tick (bc_sequence ctx);
             ctx = ctx\<lparr>bc_sequence := s\<rparr>
         in case r of
              Inl e \<Rightarrow> (Inl e, ctx, hal, t)
            | Inr _ \<Rightarrow>
                (case work ctx hal of
                   (Inl e, ctx, hal) \<Rightarrow> (Inl e, ctx, hal, t)
                 | (Inr _, ctx, hal) \<Rightarrow>
                     (let digest = phase_digest stage (data ctx);
                          ctx = ctx\<lparr>bc_measured := extend_measurement mea stage digest (bc_measured ctx)\<rparr>;
                          (tick, t) = tick_fn t;
                          (r, s) = complete_stage stage tick digest (bc_sequence ctx);
                          ctx = ctx\<lparr>bc_sequence := s\<rparr>
                      in case r of
                           Inl e \<Rightarrow> (Inl e, ctx, hal, t)
                         | Inr _ \<Rightarrow> (Inr (), ctx, hal, t)))))"

definition no_work :: "'h phase_work" where
  "no_work ctx hal = (Inr (), ctx, hal)"

definition hardware_detect_work :: "'h hal_init \<Rightarrow> 'h phase_work" where
  "hardware_detect_work h ctx hal =
     (let ctx = ctx\<lparr>bc_ram_size := 128 * 1024 * 1024\<rparr>
      in case hi_init_uart h uart_default_qemu hal of
           (Inl e, hal) \<Rightarrow> (Inl e, ctx, hal)
         | (Inr _, hal) \<Rightarrow> (Inr (), ctx\<lparr>bc_uart_ready := True\<rparr>, hal))"

definition boot_mmu_config :: mmu_config where
  "boot_mmu_config = \<lparr>mc_page_table_base = 0, mc_levels = 2, mc_page_size = 4096\<rparr>"

definition boot_interrupt_config :: interrupt_config where
  "boot_interrupt_config = \<lparr>ic_irq_count = 256\<rparr>"

definition mmu_setup_work :: "'h hal_init \<Rightarrow> 'h phase_work" where
  "mmu_setup_work h ctx hal = (let (r, hal) = hi_init_mmu h boot_mmu_config hal in (r, ctx, hal))"

definition hypervisor_mode_work :: "'h hal_init \<Rightarrow> 'h phase_work" where
  "hypervisor_mode_work h ctx hal =
     (let (r, hal) = hi_init_interrupts h boot_interrupt_config hal in (r, ctx, hal))"

definition then_block ::
    "(rvm_error, unit, 's) outcome \<Rightarrow> ('s \<Rightarrow> (rvm_error, unit, 's) outcome) \<Rightarrow> (rvm_error, unit, 's) outcome" where
  "then_block o1 f = (case o1 of (Inl e, s) \<Rightarrow> (Inl e, s) | (Inr _, s) \<Rightarrow> f s)"

definition run_boot_sequence ::
    "measure_fn \<Rightarrow> 'h hal_init \<Rightarrow> 't tick_fn \<Rightarrow> ('h, 't) boot_state \<Rightarrow> (rvm_error, unit, ('h, 't) boot_state) outcome" where
  "run_boot_sequence mea h tick_fn st =
     (let block = boot_block mea tick_fn
      in then_block (then_block (then_block (then_block (then_block (then_block
           (block ResetVector no_work (\<lambda>_. []) st)
           (block HardwareDetect (hardware_detect_work h) (\<lambda>ctx. to_le_bytes64 (bc_ram_size ctx))))
           (block MmuSetup (mmu_setup_work h) (\<lambda>_. to_le_bytes32 (mc_page_size boot_mmu_config))))
           (block HypervisorMode (hypervisor_mode_work h) (\<lambda>_. to_le_bytes32 (ic_irq_count boot_interrupt_config))))
           (block KernelObjectInit no_work (\<lambda>_. [0xCA, 0xFE])))
           (block FirstWitness no_work (\<lambda>ctx. mb_accumulator (bc_measured ctx))))
           (block SchedulerEntry no_work (\<lambda>_. [])))"

section \<open>The legacy tracker\<close>

datatype boot_phase =
  HalInit | MemoryInit | CapabilityInit | WitnessInit | SchedulerInit | RootPartition | Handoff

fun phase_index :: "boot_phase \<Rightarrow> nat" where
  "phase_index HalInit = 0" | "phase_index MemoryInit = 1" | "phase_index CapabilityInit = 2"
| "phase_index WitnessInit = 3" | "phase_index SchedulerInit = 4" | "phase_index RootPartition = 5"
| "phase_index Handoff = 6"

fun phase_next :: "boot_phase \<Rightarrow> boot_phase option" where
  "phase_next HalInit = Some MemoryInit" | "phase_next MemoryInit = Some CapabilityInit"
| "phase_next CapabilityInit = Some WitnessInit" | "phase_next WitnessInit = Some SchedulerInit"
| "phase_next SchedulerInit = Some RootPartition" | "phase_next RootPartition = Some Handoff"
| "phase_next Handoff = None"

fun phase_name :: "boot_phase \<Rightarrow> string" where
  "phase_name HalInit = ''HAL init''" | "phase_name MemoryInit = ''memory init''"
| "phase_name CapabilityInit = ''capability init''" | "phase_name WitnessInit = ''witness init''"
| "phase_name SchedulerInit = ''scheduler init''" | "phase_name RootPartition = ''root partition''"
| "phase_name Handoff = ''handoff''"

record boot_tracker =
  bt_current :: "boot_phase option"
  bt_completed :: "bool list"

definition tracker_new :: boot_tracker where
  "tracker_new = \<lparr>bt_current = Some HalInit, bt_completed = replicate 7 False\<rparr>"

definition complete_phase :: "boot_phase \<Rightarrow> boot_tracker \<Rightarrow> (rvm_error, boot_phase, boot_tracker) outcome" where
  "complete_phase phase t =
     (case bt_current t of
        Some current \<Rightarrow>
          if phase_index current = phase_index phase
          then (Inr phase, t\<lparr>bt_completed := (bt_completed t)[phase_index phase := True],
                  bt_current := phase_next phase\<rparr>)
          else (Inl InternalError, t)
      | None \<Rightarrow> (Inl Unsupported, t))"

definition tracker_is_complete :: "boot_tracker \<Rightarrow> bool" where
  "tracker_is_complete t \<longleftrightarrow> bt_current t = None \<and> list_all (\<lambda>c. c) (bt_completed t)"

definition phase_completed :: "boot_phase \<Rightarrow> boot_tracker \<Rightarrow> bool" where
  "phase_completed phase t = bt_completed t ! phase_index phase"

section \<open>The contract of a phase machine\<close>

locale phase_machine =
  fixes order :: "'p list"
    and target :: "'c \<Rightarrow> 'p"
    and complete :: "'c \<Rightarrow> 's \<Rightarrow> ('e, 'p, 's) outcome"
    and at :: "'s \<Rightarrow> nat \<Rightarrow> bool"
  assumes complete_next:
      "at s k \<Longrightarrow> k < length order \<Longrightarrow> target c = order ! k \<Longrightarrow>
         fst (complete c s) = Inr (order ! k) \<and> at (snd (complete c s)) (Suc k)"
    and complete_other:
      "at s k \<Longrightarrow> (k < length order \<Longrightarrow> target c \<noteq> order ! k) \<Longrightarrow> \<exists>e. complete c s = (Inl e, s)"
begin

fun attempt_all :: "'c list \<Rightarrow> 's \<Rightarrow> 'p list \<times> 's" where
  "attempt_all [] s = ([], s)"
| "attempt_all (c # cs) s =
     (case complete c s of
        (Inl _, s1) \<Rightarrow> attempt_all cs s1
      | (Inr p, s1) \<Rightarrow> (let (ps, s2) = attempt_all cs s1 in (p # ps, s2)))"

text \<open>Whatever is attempted, the phases that complete are the next ones of the order.\<close>

lemma attempts_in_order:
  assumes "at s k" "k \<le> length order"
  shows "\<exists>m. m \<le> length order \<and> k \<le> m \<and> at (snd (attempt_all cs s)) m \<and>
    fst (attempt_all cs s) = drop k (take m order)"
  using assms
proof (induction cs arbitrary: s k)
  case Nil
  then show ?case by (intro exI [of _ k]) simp
next
  case (Cons c cs)
  show ?case
  proof (cases "k < length order \<and> target c = order ! k")
    case True
    obtain s1 where s1: "complete c s = (Inr (order ! k), s1)" "at s1 (Suc k)"
      using complete_next [OF Cons.prems(1), of c] True by (cases "complete c s") auto
    obtain m where m: "m \<le> length order" "Suc k \<le> m" "at (snd (attempt_all cs s1)) m"
      "fst (attempt_all cs s1) = drop (Suc k) (take m order)"
      using Cons.IH [OF s1(2)] True by auto
    have "drop k (take m order) = order ! k # drop (Suc k) (take m order)"
      using m by (simp add: Cons_nth_drop_Suc [symmetric])
    with m s1(1) show ?thesis by (intro exI [of _ m]) (simp add: Let_def split_beta)
  next
    case False
    then obtain e where "complete c s = (Inl e, s)" using complete_other [OF Cons.prems(1), of c] by blast
    with Cons.IH [OF Cons.prems] show ?thesis by simp
  qed
qed

end

definition flags :: "nat \<Rightarrow> bool list" where
  "flags k = map (\<lambda>i. i < k) [0..<7]"

lemma flags_step: "k < 7 \<Longrightarrow> (flags k)[k := True] = flags (Suc k)"
  by (rule nth_equalityI) (auto simp: flags_def nth_list_update less_Suc_eq)

lemma flags_complete: "k \<le> 7 \<Longrightarrow> list_all (\<lambda>c. c) (flags k) \<longleftrightarrow> k = 7"
  by (auto simp: flags_def list_all_iff)

definition sequence_at :: "boot_sequence \<Rightarrow> nat \<Rightarrow> bool" where
  "sequence_at s k \<longleftrightarrow> bs_current s = (if k < 7 then Some (stage_all ! k) else None) \<and> bs_completed s = flags k"

definition phase_all :: "boot_phase list" where
  "phase_all = [HalInit, MemoryInit, CapabilityInit, WitnessInit, SchedulerInit, RootPartition, Handoff]"

definition tracker_at :: "boot_tracker \<Rightarrow> nat \<Rightarrow> bool" where
  "tracker_at t k \<longleftrightarrow> bt_current t = (if k < 7 then Some (phase_all ! k) else None) \<and> bt_completed t = flags k"

lemma stage_index_eq [simp]: "stage_index a = stage_index b \<longleftrightarrow> a = b"
  by (cases a; cases b) auto

lemma phase_index_eq [simp]: "phase_index a = phase_index b \<longleftrightarrow> a = b"
  by (cases a; cases b) auto

lemma less_7: "k < 7 \<longleftrightarrow> k = 0 \<or> k = 1 \<or> k = 2 \<or> k = 3 \<or> k = 4 \<or> k = 5 \<or> k = (6 :: nat)"
  by auto

lemma stage_order:
  assumes "k < 7"
  shows "stage_index (stage_all ! k) = k" "stage_next (stage_all ! k) = (if Suc k < 7 then Some (stage_all ! Suc k) else None)"
  using assms unfolding less_7 by (auto simp: stage_all_def)

lemma phase_order:
  assumes "k < 7"
  shows "phase_index (phase_all ! k) = k" "phase_next (phase_all ! k) = (if Suc k < 7 then Some (phase_all ! Suc k) else None)"
  using assms unfolding less_7 by (auto simp: phase_all_def)

lemma stage_index_less: "stage_index st < 7" and stage_all_index: "stage_all ! stage_index st = st"
  by (cases st; simp add: stage_all_def)+

lemma phase_index_less: "phase_index p < 7" and phase_all_index: "phase_all ! phase_index p = p"
  by (cases p; simp add: phase_all_def)+

lemma complete_stage_at:
  assumes "sequence_at s k"
  shows "k < 7 \<Longrightarrow> st = stage_all ! k \<Longrightarrow> fst (complete_stage st tick d s) = Inr st"
    "k < 7 \<Longrightarrow> st = stage_all ! k \<Longrightarrow> sequence_at (snd (complete_stage st tick d s)) (Suc k)"
    "(k < 7 \<Longrightarrow> st \<noteq> stage_all ! k) \<Longrightarrow>
       complete_stage st tick d s = (Inl (if k < 7 then InternalError else Unsupported), s)"
  using assms
  by (simp add: complete_stage_def sequence_at_def,
      simp add: complete_stage_def sequence_at_def stage_order flags_step,
      auto simp: complete_stage_def sequence_at_def)

interpretation boot_stages:
  phase_machine stage_all "\<lambda>(st, tick, d). st" "\<lambda>(st, tick, d). complete_stage st tick d" sequence_at
proof
  have len: "length stage_all = 7" by (simp add: stage_all_def)
  show "fst ((\<lambda>(st, tick, d). complete_stage st tick d) c s) = Inr (stage_all ! k) \<and>
      sequence_at (snd ((\<lambda>(st, tick, d). complete_stage st tick d) c s)) (Suc k)"
    if "sequence_at s k" "k < length stage_all" "(\<lambda>(st, tick, d). st) c = stage_all ! k" for s k c
    using that complete_stage_at(1,2) [OF that(1)] by (auto simp: len split_beta)
  show "\<exists>e. (\<lambda>(st, tick, d). complete_stage st tick d) c s = (Inl e, s)"
    if "sequence_at s k" "k < length stage_all \<Longrightarrow> (\<lambda>(st, tick, d). st) c \<noteq> stage_all ! k" for s k c
    using that complete_stage_at(3) [OF that(1), of "fst c"] by (auto simp: len split_beta)
qed

interpretation boot_phases: phase_machine phase_all "\<lambda>p. p" complete_phase tracker_at
proof
  have len: "length phase_all = 7" by (simp add: phase_all_def)
  show "fst (complete_phase c s) = Inr (phase_all ! k) \<and> tracker_at (snd (complete_phase c s)) (Suc k)"
    if "tracker_at s k" "k < length phase_all" "c = phase_all ! k" for s k c
    using that by (simp add: len complete_phase_def tracker_at_def phase_order flags_step)
  show "\<exists>e. complete_phase c s = (Inl e, s)"
    if "tracker_at s k" "k < length phase_all \<Longrightarrow> c \<noteq> phase_all ! k" for s k c
    using that by (auto simp: len complete_phase_def tracker_at_def)
qed

section \<open>The driver under any hardware\<close>

lemma sequence_new_at: "sequence_at sequence_new 0"
  by (simp add: sequence_at_def sequence_new_def stage_all_def flags_def BOOT_STAGE_COUNT_def map_replicate_const)

lemma begin_stage_at:
  assumes "sequence_at s k" "k < 7"
  shows "fst (begin_stage (stage_all ! k) tick s) = Inr ()" "sequence_at (snd (begin_stage (stage_all ! k) tick s)) k"
  using assms by (simp_all add: begin_stage_def sequence_at_def)

text \<open>The state after the first \<open>k\<close> stages: how far the sequence is and what was measured.\<close>

definition booted :: "measure_fn \<Rightarrow> u8 list list \<Rightarrow> boot_context \<Rightarrow> bool" where
  "booted mea ds ctx \<longleftrightarrow>
     sequence_at (bc_sequence ctx) (length ds) \<and>
     mb_accumulator (bc_measured ctx) = foldl (\<lambda>acc (i, d). mea acc i d) (replicate 32 0) (zip [0..<length ds] ds) \<and>
     mb_measurement_count (bc_measured ctx) = of_nat (length ds)"

text \<open>An outcome with result \<open>r\<close> and hardware state \<open>hal\<close> after the digests \<open>ds\<close> were measured.\<close>

definition boot_post ::
    "measure_fn \<Rightarrow> rvm_error + unit \<Rightarrow> 'h \<Rightarrow> u8 list list \<Rightarrow> (rvm_error, unit, ('h, 't) boot_state) outcome \<Rightarrow> bool" where
  "boot_post mea r hal ds x \<longleftrightarrow> (\<exists>ctx t. x = (r, ctx, hal, t) \<and> booted mea ds ctx)"

lemma boot_block_post:
  assumes b: "booted mea ds ctx" and k: "length ds < 7" and stage: "stage = stage_all ! length ds"
    and r: "\<And>c. fst (work c hal) = r" and hal2: "\<And>c. snd (snd (work c hal)) = hal2"
    and keep: "\<And>c. booted mea ds c \<Longrightarrow> booted mea ds (fst (snd (work c hal)))"
    and d: "\<And>c. booted mea ds c \<Longrightarrow> r = Inr () \<Longrightarrow> phase_digest stage (data (fst (snd (work c hal)))) = d"
  shows "boot_post mea r hal2 (if r = Inr () then ds @ [d] else ds)
    (boot_block mea tick_fn stage work data (ctx, hal, t))"
proof -
  obtain tick t1 where t1: "tick_fn t = (tick, t1)" by (cases "tick_fn t")
  obtain r1 s1 where s1: "begin_stage stage tick (bc_sequence ctx) = (r1, s1)"
    by (cases "begin_stage stage tick (bc_sequence ctx)")
  have at1: "r1 = Inr ()" "sequence_at s1 (length ds)"
    using begin_stage_at [of "bc_sequence ctx" "length ds" tick] b k s1 by (simp_all add: booted_def stage)
  define c where "c = ctx\<lparr>bc_sequence := s1\<rparr>"
  have c: "booted mea ds c" using b at1(2) by (simp add: booted_def c_def)
  obtain c2 where work: "work c hal = (r, c2, hal2)" using r [of c] hal2 [of c] by (cases "work c hal") auto
  have c2: "booted mea ds c2" using keep [OF c] work by simp
  show ?thesis
  proof (cases r)
    case (Inl e)
    then have "boot_block mea tick_fn stage work data (ctx, hal, t) = (Inl e, c2, hal2, t1)"
      using t1 s1 at1 work by (simp add: boot_block_def c_def [symmetric])
    then show ?thesis using c2 Inl by (simp add: boot_post_def)
  next
    case (Inr u)
    have dd: "phase_digest stage (data c2) = d" using d [OF c] work Inr by simp
    obtain tick2 t2 where t2: "tick_fn t1 = (tick2, t2)" by (cases "tick_fn t1")
    obtain r2 s2 where s2: "complete_stage stage tick2 d (bc_sequence c2) = (r2, s2)"
      by (cases "complete_stage stage tick2 d (bc_sequence c2)")
    have at2: "sequence_at (bc_sequence c2) (length ds)" using c2 by (simp add: booted_def)
    have at3: "r2 = Inr stage" "sequence_at s2 (Suc (length ds))"
      using complete_stage_at(1,2) [OF at2 k stage, of tick2 d] s2 by simp_all
    have "boot_block mea tick_fn stage work data (ctx, hal, t) =
        (Inr (), c2\<lparr>bc_measured := extend_measurement mea stage d (bc_measured c2), bc_sequence := s2\<rparr>, hal2, t2)"
      using t1 s1 at1 work t2 s2 at3 Inr dd by (simp add: boot_block_def c_def [symmetric] Let_def)
    moreover have "booted mea (ds @ [d]) (c2\<lparr>bc_measured := extend_measurement mea stage d (bc_measured c2), bc_sequence := s2\<rparr>)"
      using c2 at3(2) stage_order(1) [OF k] by (simp add: booted_def extend_measurement_def Let_def stage)
    ultimately show ?thesis using Inr by (simp add: boot_post_def)
  qed
qed

lemma then_block_err: "boot_post mea (Inl e) hal ds x \<Longrightarrow> boot_post mea (Inl e) hal ds (then_block x f)"
  by (auto simp: boot_post_def then_block_def)

lemma then_block_ok:
  assumes "boot_post mea (Inr ()) hal ds x" "\<And>ctx t. booted mea ds ctx \<Longrightarrow> boot_post mea r2 hal2 ds2 (f (ctx, hal, t))"
  shows "boot_post mea r2 hal2 ds2 (then_block x f)"
  using assms by (auto simp: boot_post_def [of mea "Inr ()"] then_block_def)

text \<open>The digests that a complete boot measures: none depends on the hardware, the ticks or the firmware.\<close>

definition boot_digests :: "measure_fn \<Rightarrow> u8 list list" where
  "boot_digests mea =
     (let ds = [phase_digest ResetVector [], phase_digest HardwareDetect (to_le_bytes64 (128 * 1024 * 1024)),
                phase_digest MmuSetup (to_le_bytes32 4096), phase_digest HypervisorMode (to_le_bytes32 256),
                phase_digest KernelObjectInit [0xCA, 0xFE]];
          acc = foldl (\<lambda>acc (i, d). mea acc i d) (replicate 32 0) (zip [0..<length ds] ds)
      in ds @ [phase_digest FirstWitness acc, phase_digest SchedulerEntry []])"

text \<open>What the hardware answers, and how many stages complete because of it.\<close>

definition hal_outcome :: "'h hal_init \<Rightarrow> 'h \<Rightarrow> (rvm_error + unit) \<times> 'h \<times> nat" where
  "hal_outcome h hal =
     (case hi_init_uart h uart_default_qemu hal of
        (Inl e, hal) \<Rightarrow> (Inl e, hal, 1)
      | (Inr _, hal) \<Rightarrow>
          (case hi_init_mmu h boot_mmu_config hal of
             (Inl e, hal) \<Rightarrow> (Inl e, hal, 2)
           | (Inr _, hal) \<Rightarrow>
               (case hi_init_interrupts h boot_interrupt_config hal of
                  (Inl e, hal) \<Rightarrow> (Inl e, hal, 3)
                | (Inr _, hal) \<Rightarrow> (Inr (), hal, 7))))"

lemma no_work_post:
  assumes "booted mea ds ctx" "length ds < 7" "stage = stage_all ! length ds"
    and "\<And>c. booted mea ds c \<Longrightarrow> phase_digest stage (data c) = d"
  shows "boot_post mea (Inr ()) hal (ds @ [d]) (boot_block mea tick_fn stage no_work data (ctx, hal, t))"
  using boot_block_post [OF assms(1-3), of no_work hal "Inr ()" hal data d tick_fn t] assms(4)
  by (simp add: no_work_def)

lemma hal_work_post:
  assumes "booted mea ds ctx" "length ds < 7" "stage = stage_all ! length ds"
    and "\<And>c. work c hal = (let (r, hal2) = f hal in (r, g r c, hal2))"
    and "\<And>r c. booted mea ds c \<Longrightarrow> booted mea ds (g r c)" "\<And>c. phase_digest stage (data (g (Inr ()) c)) = d"
  shows "boot_post mea (fst (f hal)) (snd (f hal)) (if fst (f hal) = Inr () then ds @ [d] else ds)
    (boot_block mea tick_fn stage work data (ctx, hal, t))"
  by (rule boot_block_post [OF assms(1-3)]) (use assms(4-6) in \<open>auto simp: split_beta\<close>)

lemma run_boot_sequence_post:
  "case hal_outcome h hal of (r, hal', n) \<Rightarrow>
     boot_post mea r hal' (take n (boot_digests mea)) (run_boot_sequence mea h tick_fn (boot_context_new dtb, hal, t))"
proof -
  let ?block = "boot_block mea tick_fn"
  let ?d = "\<lambda>i. boot_digests mea ! i"
  let ?D = "\<lambda>n. take n (boot_digests mea)"
  have ds: "?D 1 = [?d 0]" "?D 2 = ?D 1 @ [?d 1]" "?D 3 = ?D 2 @ [?d 2]" "?D 4 = ?D 3 @ [?d 3]" "?D 5 = ?D 4 @ [?d 4]"
    "?D 6 = ?D 5 @ [?d 5]" "?D 7 = ?D 6 @ [?d 6]" "length (boot_digests mea) = 7"
    by (simp_all add: boot_digests_def Let_def)
  note stage = stage_all_def
  define u m i where "u = hi_init_uart h uart_default_qemu" and "m = hi_init_mmu h boot_mmu_config"
    and "i = hi_init_interrupts h boot_interrupt_config"
  have b0: "booted mea [] (boot_context_new dtb)"
    using sequence_new_at by (simp add: booted_def boot_context_new_def measured_new_def)
  have s0: "boot_post mea (Inr ()) hal (?D 1) (?block ResetVector no_work (\<lambda>_. []) (boot_context_new dtb, hal, t))"
    using no_work_post [OF b0, of ResetVector "\<lambda>_. []" "?d 0" hal tick_fn t] ds(1)
    by (simp add: stage boot_digests_def Let_def)
  have s1: "boot_post mea (fst (u hal)) (snd (u hal)) (if fst (u hal) = Inr () then ?D 2 else ?D 1)
      (?block HardwareDetect (hardware_detect_work h) (\<lambda>ctx. to_le_bytes64 (bc_ram_size ctx)) (ctx, hal, t))"
    if "booted mea (?D 1) ctx" for ctx hal t
    unfolding ds(2)
    by (rule hal_work_post [OF that, where f = u and g = "\<lambda>r c. (if r = Inr () then c\<lparr>bc_ram_size := 128 * 1024 * 1024, bc_uart_ready := True\<rparr>
          else c\<lparr>bc_ram_size := 128 * 1024 * 1024\<rparr>)"])
       (auto simp: stage ds hardware_detect_work_def u_def boot_digests_def booted_def Let_def split: prod.splits sum.splits)
  have s2: "boot_post mea (fst (m hal)) (snd (m hal)) (if fst (m hal) = Inr () then ?D 3 else ?D 2)
      (?block MmuSetup (mmu_setup_work h) (\<lambda>_. to_le_bytes32 (mc_page_size boot_mmu_config)) (ctx, hal, t))"
    if "booted mea (?D 2) ctx" for ctx hal t
    unfolding ds(3)
    by (rule hal_work_post [OF that, where f = m and g = "\<lambda>r c. c"])
       (auto simp: stage ds mmu_setup_work_def m_def boot_digests_def boot_mmu_config_def)
  have s3: "boot_post mea (fst (i hal)) (snd (i hal)) (if fst (i hal) = Inr () then ?D 4 else ?D 3)
      (?block HypervisorMode (hypervisor_mode_work h) (\<lambda>_. to_le_bytes32 (ic_irq_count boot_interrupt_config)) (ctx, hal, t))"
    if "booted mea (?D 3) ctx" for ctx hal t
    unfolding ds(4)
    by (rule hal_work_post [OF that, where f = i and g = "\<lambda>r c. c"])
       (auto simp: stage ds hypervisor_mode_work_def i_def boot_digests_def boot_interrupt_config_def)
  have s4: "boot_post mea (Inr ()) hal (?D 5) (?block KernelObjectInit no_work (\<lambda>_. [0xCA, 0xFE]) (ctx, hal, t))"
    if "booted mea (?D 4) ctx" for ctx hal t
    unfolding ds(5) by (rule no_work_post [OF that]) (simp_all add: stage ds boot_digests_def)
  have s5: "boot_post mea (Inr ()) hal (?D 6)
      (?block FirstWitness no_work (\<lambda>ctx. mb_accumulator (bc_measured ctx)) (ctx, hal, t))"
    if "booted mea (?D 5) ctx" for ctx hal t
    unfolding ds(6) by (rule no_work_post [OF that]) (simp_all add: stage ds boot_digests_def booted_def Let_def)
  have s6: "boot_post mea (Inr ()) hal (?D 7) (?block SchedulerEntry no_work (\<lambda>_. []) (ctx, hal, t))"
    if "booted mea (?D 6) ctx" for ctx hal t
    unfolding ds(7) by (rule no_work_post [OF that]) (simp_all add: stage ds boot_digests_def Let_def)
  note chain = hal_outcome_def u_def [symmetric] m_def [symmetric] i_def [symmetric]
  obtain ru h1 where u: "u hal = (ru, h1)" by (cases "u hal")
  obtain rm h2 where m: "m h1 = (rm, h2)" by (cases "m h1")
  obtain ri h3 where i: "i h2 = (ri, h3)" by (cases "i h2")
  let ?B1 = "?block HardwareDetect (hardware_detect_work h) (\<lambda>ctx. to_le_bytes64 (bc_ram_size ctx))"
    and ?B2 = "?block MmuSetup (mmu_setup_work h) (\<lambda>_. to_le_bytes32 (mc_page_size boot_mmu_config))"
    and ?B3 = "?block HypervisorMode (hypervisor_mode_work h) (\<lambda>_. to_le_bytes32 (ic_irq_count boot_interrupt_config))"
  let ?X0 = "?block ResetVector no_work (\<lambda>_. []) (boot_context_new dtb, hal, t)"
  have s1': "boot_post mea ru h1 (if ru = Inr () then ?D 2 else ?D 1) (then_block ?X0 ?B1)"
    by (rule then_block_ok [OF s0]) (use s1 [of _ hal] u in simp)
  show ?thesis
  proof (cases ru)
    case (Inl e)
    have "boot_post mea (Inl e) h1 (?D 1) (run_boot_sequence mea h tick_fn (boot_context_new dtb, hal, t))"
      unfolding run_boot_sequence_def Let_def by (rule then_block_err, rule then_block_err, rule then_block_err, rule then_block_err, rule then_block_err) (use s1' Inl in simp)
    then show ?thesis using u Inl by (simp add: chain)
  next
    case (Inr x)
    then have ru: "ru = Inr ()" by simp
    from s1' ru have x1: "boot_post mea (Inr ()) h1 (?D 2) (then_block ?X0 ?B1)" by simp
    have s2': "boot_post mea rm h2 (if rm = Inr () then ?D 3 else ?D 2) (then_block (then_block ?X0 ?B1) ?B2)"
      by (rule then_block_ok [OF x1]) (use s2 [of _ h1] m in simp)
    show ?thesis
    proof (cases rm)
      case (Inl e)
      have "boot_post mea (Inl e) h2 (?D 2) (run_boot_sequence mea h tick_fn (boot_context_new dtb, hal, t))"
        unfolding run_boot_sequence_def Let_def by (rule then_block_err, rule then_block_err, rule then_block_err, rule then_block_err) (use s2' Inl in simp)
      then show ?thesis using u m ru Inl by (simp add: chain)
    next
      case (Inr x)
      then have rm: "rm = Inr ()" by simp
      from s2' rm have x2: "boot_post mea (Inr ()) h2 (?D 3) (then_block (then_block ?X0 ?B1) ?B2)" by simp
      have s3': "boot_post mea ri h3 (if ri = Inr () then ?D 4 else ?D 3) (then_block (then_block (then_block ?X0 ?B1) ?B2) ?B3)"
        by (rule then_block_ok [OF x2]) (use s3 [of _ h2] i in simp)
      show ?thesis
      proof (cases ri)
        case (Inl e)
        have "boot_post mea (Inl e) h3 (?D 3) (run_boot_sequence mea h tick_fn (boot_context_new dtb, hal, t))"
          unfolding run_boot_sequence_def Let_def by (rule then_block_err, rule then_block_err, rule then_block_err) (use s3' Inl in simp)
        then show ?thesis using u m i ru rm Inl by (simp add: chain)
      next
        case (Inr x)
        then have ri: "ri = Inr ()" by simp
        from s3' ri have x3: "boot_post mea (Inr ()) h3 (?D 4) (then_block (then_block (then_block ?X0 ?B1) ?B2) ?B3)"
          by simp
        have "boot_post mea (Inr ()) h3 (?D 7) (run_boot_sequence mea h tick_fn (boot_context_new dtb, hal, t))"
          unfolding run_boot_sequence_def Let_def
          by (rule then_block_ok, rule then_block_ok, rule then_block_ok, rule x3, erule s4, erule s5, erule s6)
        then show ?thesis using u m i ru rm ri by (simp add: chain)
      qed
    qed
  qed
qed

section \<open>Properties\<close>

lemma boot_digests_length: "length (boot_digests mea) = 7"
  by (simp add: boot_digests_def Let_def)

definition attempt_stages ::
    "(boot_stage \<times> u64 \<times> u8 list) list \<Rightarrow> boot_sequence \<Rightarrow> boot_stage list \<times> boot_sequence" where
  "attempt_stages = boot_stages.attempt_all"

definition attempt_phases :: "boot_phase list \<Rightarrow> boot_tracker \<Rightarrow> boot_phase list \<times> boot_tracker" where
  "attempt_phases = boot_phases.attempt_all"

text \<open>
  Boot phases complete once each and in order, whatever is attempted.  After any sequence of
  completion attempts on a fresh boot sequence, the stages that completed are a prefix of the seven stages
  in their order, the completion flags are exactly theirs, and the boot is complete exactly when all
  seven have completed; the same holds for the legacy tracker.
\<close>

theorem boot_phases_in_order:
  "(\<exists>m \<le> 7. fst (attempt_stages cs sequence_new) = take m stage_all \<and>
     (\<forall>st. stage_completed st (snd (attempt_stages cs sequence_new)) \<longleftrightarrow> st \<in> set (take m stage_all)) \<and>
     (sequence_is_complete (snd (attempt_stages cs sequence_new)) \<longleftrightarrow> m = 7)) \<and>
   (\<exists>m \<le> 7. fst (attempt_phases ps tracker_new) = take m phase_all \<and>
     (\<forall>p. phase_completed p (snd (attempt_phases ps tracker_new)) \<longleftrightarrow> p \<in> set (take m phase_all)) \<and>
     (tracker_is_complete (snd (attempt_phases ps tracker_new)) \<longleftrightarrow> m = 7))"
proof (rule conjI)
  have len: "length stage_all = 7" "length phase_all = 7" by (simp_all add: stage_all_def phase_all_def)
  have "tracker_at tracker_new 0"
    by (simp add: tracker_at_def tracker_new_def phase_all_def flags_def map_replicate_const)
  from boot_stages.attempts_in_order [OF sequence_new_at, of cs] boot_phases.attempts_in_order [OF this, of ps] len
  obtain m n where m: "m \<le> 7" "sequence_at (snd (attempt_stages cs sequence_new)) m"
      "fst (attempt_stages cs sequence_new) = take m stage_all"
    and n: "n \<le> 7" "tracker_at (snd (attempt_phases ps tracker_new)) n"
      "fst (attempt_phases ps tracker_new) = take n phase_all"
    by (auto simp: attempt_stages_def attempt_phases_def)
  have in_take: "x \<in> set (take k xs) \<longleftrightarrow> (\<exists>i<k. i < length xs \<and> x = xs ! i)" for x k and xs :: "'a list"
    by (auto simp: in_set_conv_nth)
  have st: "flags m ! stage_index st \<longleftrightarrow> st \<in> set (take m stage_all)" for st
    using m(1) stage_index_less [of st] stage_all_index [of st] stage_order(1)
    by (auto simp: flags_def in_take len) 
  have ph: "flags n ! phase_index p \<longleftrightarrow> p \<in> set (take n phase_all)" for p
    using n(1) phase_index_less [of p] phase_all_index [of p] phase_order(1)
    by (auto simp: flags_def in_take len)
  show "\<exists>m \<le> 7. fst (attempt_stages cs sequence_new) = take m stage_all \<and>
     (\<forall>st. stage_completed st (snd (attempt_stages cs sequence_new)) \<longleftrightarrow> st \<in> set (take m stage_all)) \<and>
     (sequence_is_complete (snd (attempt_stages cs sequence_new)) \<longleftrightarrow> m = 7)"
    using m st flags_complete [OF m(1)]
    by (intro exI [of _ m]) (auto simp: stage_completed_def sequence_at_def sequence_is_complete_def)
  show "\<exists>m \<le> 7. fst (attempt_phases ps tracker_new) = take m phase_all \<and>
     (\<forall>p. phase_completed p (snd (attempt_phases ps tracker_new)) \<longleftrightarrow> p \<in> set (take m phase_all)) \<and>
     (tracker_is_complete (snd (attempt_phases ps tracker_new)) \<longleftrightarrow> m = 7)"
    using n ph flags_complete [OF n(1)]
    by (intro exI [of _ n]) (auto simp: phase_completed_def tracker_at_def tracker_is_complete_def)
qed

text \<open>
  The driver boots exactly when the hardware does, and every boot yields the same digest.  For any
  hardware layer, tick source, device tree and digest: \<open>run_boot_sequence\<close> succeeds exactly when the three
  initialisations succeed, and then all stages are complete and seven digests are measured; otherwise it
  returns the error of the first one that fails, with exactly the stages before it complete and
  measured.  The measured digests, and so the attestation digest, depend on nothing but the digest function:
  neither the firmware nor the configuration that the hardware reports enters them.
\<close>

theorem boot_outcome_exact:
  "case hal_outcome h hal of (r, hal', n) \<Rightarrow>
     (\<exists>ctx t'. run_boot_sequence mea h tick_fn (boot_context_new dtb, hal, t) = (r, ctx, hal', t') \<and>
        (r = Inr () \<longleftrightarrow> n = 7) \<and>
        (sequence_is_complete (bc_sequence ctx) \<longleftrightarrow> r = Inr ()) \<and>
        (\<forall>st. stage_completed st (bc_sequence ctx) \<longleftrightarrow> stage_index st < n) \<and>
        mb_measurement_count (bc_measured ctx) = of_nat n \<and>
        mb_accumulator (bc_measured ctx) =
          foldl (\<lambda>acc (i, d). mea acc i d) (replicate 32 0) (zip [0..<n] (take n (boot_digests mea))))"
proof -
  obtain r hal' n where o: "hal_outcome h hal = (r, hal', n)" by (cases "hal_outcome h hal")
  have n: "n \<le> 7" "r = Inr () \<longleftrightarrow> n = 7"
    using o by (auto simp: hal_outcome_def split: prod.splits sum.splits)
  from run_boot_sequence_post [where h = h and hal = hal and mea = mea and tick_fn = tick_fn and dtb = dtb and t = t] o
  obtain ctx t' where run: "run_boot_sequence mea h tick_fn (boot_context_new dtb, hal, t) = (r, ctx, hal', t')"
    and b: "booted mea (take n (boot_digests mea)) ctx"
    by (auto simp: boot_post_def)
  have at: "sequence_at (bc_sequence ctx) n" using b n by (simp add: booted_def boot_digests_length)
  have "stage_completed st (bc_sequence ctx) \<longleftrightarrow> stage_index st < n" for st
    using at stage_index_less [of st] by (simp add: stage_completed_def sequence_at_def flags_def)
  moreover have "sequence_is_complete (bc_sequence ctx) \<longleftrightarrow> n = 7"
    using at flags_complete [OF n(1)] by (auto simp: sequence_is_complete_def sequence_at_def)
  ultimately show ?thesis
    using o run b n by (simp add: booted_def boot_digests_length)
qed

end
