(* ===== verification/Kernel.thy ===== *)
theory Kernel
  imports Part_Manager Ipc Device_Lease Scheduler Tier Coh_Engine_Proofs Security_Gate Boot Cap_Manager
begin

text \<open>
  Crate \<open>rvm-kernel\<close>, \<open>lib.rs\<close>: the structure \<open>Kernel\<close>, which owns one instance of every
  subsystem, and its whole interface.  Each method calls the models of the subsystems in the order
  of the source and appends its records to the witness log.  Methods that walk the adjacency lists
  of the coherence graph are partial: \<open>None\<close> stands for a walk that does not end, and the
  invariant of the kernel shows that it never happens.  The chain hash is a parameter.
\<close>

section \<open>State and configuration\<close>

record rvm_config =
  rc_max_partitions :: u16
  rc_coherence_threshold :: coherence_score
  rc_witness_ring_capacity :: u64
  rc_epoch_interval_ns :: u64

definition rvm_config_default :: rvm_config where
  "rvm_config_default =
     \<lparr>rc_max_partitions = 256, rc_coherence_threshold = DEFAULT_THRESHOLD,
      rc_witness_ring_capacity = 262144, rc_epoch_interval_ns = 10000000\<rparr>"

record partition_config =
  cf_vcpu_count :: u16
  cf_initial_coherence :: coherence_score
  cf_cpu_affinity :: u64
  cf_partition_type :: partition_type

definition partition_config_default :: partition_config where
  "partition_config_default =
     \<lparr>cf_vcpu_count = 1, cf_initial_coherence = from_basis_points 5000, cf_cpu_affinity = U64_MAX,
      cf_partition_type = Agent\<rparr>"

definition DEFAULT_MAX_CPUS :: nat where "DEFAULT_MAX_CPUS = 8"
definition DEFAULT_WITNESS_CAPACITY :: nat where "DEFAULT_WITNESS_CAPACITY = 256"
definition DEFAULT_CAP_CAPACITY :: nat where "DEFAULT_CAP_CAPACITY = 256"
definition DEFAULT_MAX_PARTITIONS :: nat where "DEFAULT_MAX_PARTITIONS = 256"
definition DEFAULT_MAX_IPC_CHANNELS :: nat where "DEFAULT_MAX_IPC_CHANNELS = 128"
definition DEFAULT_IPC_QUEUE_SIZE :: nat where "DEFAULT_IPC_QUEUE_SIZE = 16"
definition DEFAULT_MAX_TIER_REGIONS :: nat where "DEFAULT_MAX_TIER_REGIONS = 256"
definition RECENCY_DECAY_PER_EPOCH :: u16 where "RECENCY_DECAY_PER_EPOCH = 200"
definition DEFAULT_MAX_DEVICES :: nat where "DEFAULT_MAX_DEVICES = 32"
definition DEFAULT_MAX_LEASES :: nat where "DEFAULT_MAX_LEASES = 64"
definition DEFAULT_MINCUT_BUDGET :: u32 where "DEFAULT_MINCUT_BUDGET = 100"

record epoch_result =
  er_summary :: epoch_summary
  er_decision :: coherence_decision

datatype apply_result =
  AppliedNothing | AppliedSplit partition_id partition_id | AppliedMerge partition_id partition_id

record kernel =
  kn_partitions :: partition_manager
  kn_scheduler :: scheduler
  kn_witness_log :: witness_log
  kn_cap_manager :: cap_manager
  kn_coherence :: coherence_engine
  kn_ipc :: ipc_manager
  kn_tier_manager :: tier_manager
  kn_devices :: device_lease_manager
  kn_boot :: boot_tracker
  kn_config :: rvm_config
  kn_booted :: bool

record kernel_config =
  kc_rvm :: rvm_config
  kc_cap :: cap_manager_config

definition kernel_config_default :: kernel_config where
  "kernel_config_default = \<lparr>kc_rvm = rvm_config_default, kc_cap = cap_manager_config_new\<rparr>"

definition kernel_new :: "kernel_config \<Rightarrow> kernel" where
  "kernel_new config =
     \<lparr>kn_partitions = pm_new, kn_scheduler = sched_new DEFAULT_MAX_CPUS,
      kn_witness_log = log_new DEFAULT_WITNESS_CAPACITY,
      kn_cap_manager = manager_new DEFAULT_CAP_CAPACITY (kc_cap config),
      kn_coherence = engine_with_defaults DEFAULT_MINCUT_BUDGET,
      kn_ipc = ipc_new DEFAULT_MAX_IPC_CHANNELS DEFAULT_IPC_QUEUE_SIZE,
      kn_tier_manager = tier_new DEFAULT_MAX_TIER_REGIONS,
      kn_devices = dlm_new DEFAULT_MAX_DEVICES DEFAULT_MAX_LEASES,
      kn_boot = tracker_new, kn_config = kc_rvm config, kn_booted = False\<rparr>"

definition kernel_with_defaults :: kernel where
  "kernel_with_defaults = kernel_new kernel_config_default"

definition kernel_emit :: "chain_hash \<Rightarrow> witness_record \<Rightarrow> kernel \<Rightarrow> kernel" where
  "kernel_emit H r k = k\<lparr>kn_witness_log := snd (log_append H r (kn_witness_log k))\<rparr>"

text \<open>The records of the kernel share a shape: tier 1, an action, an actor and a target.\<close>

definition kernel_record :: "action_kind \<Rightarrow> u32 \<Rightarrow> u64 \<Rightarrow> witness_record" where
  "kernel_record a actor target =
     witness_zeroed\<lparr>wr_action_kind := action_code a, wr_proof_tier := 1,
       wr_actor_partition_id := actor, wr_target_object_id := target\<rparr>"

text \<open>\<open>record.payload[0..n].copy_from_slice(bytes)\<close>\<close>

definition with_payload :: "u8 list \<Rightarrow> witness_record \<Rightarrow> witness_record" where
  "with_payload bytes r = r\<lparr>wr_payload := bytes @ drop (length bytes) (wr_payload r)\<rparr>"

section \<open>Boot\<close>

definition boot_record :: "boot_phase \<Rightarrow> witness_record" where
  "boot_record phase =
     with_payload [of_nat (phase_index phase)]
       (kernel_record (case phase of Handoff \<Rightarrow> BootComplete | _ \<Rightarrow> BootAttestation) HYPERVISOR 0)"

fun kernel_boot_phases :: "chain_hash \<Rightarrow> boot_phase list \<Rightarrow> kernel \<Rightarrow> (rvm_error, unit, kernel) outcome" where
  "kernel_boot_phases H [] k = (Inr (), k\<lparr>kn_booted := True\<rparr>)"
| "kernel_boot_phases H (phase # phases) k =
     (case complete_phase phase (kn_boot k) of
        (Inl e, t) \<Rightarrow> (Inl e, k\<lparr>kn_boot := t\<rparr>)
      | (Inr _, t) \<Rightarrow>
          kernel_boot_phases H phases (kernel_emit H (boot_record phase) (k\<lparr>kn_boot := t\<rparr>)))"

definition kernel_boot :: "chain_hash \<Rightarrow> kernel \<Rightarrow> (rvm_error, unit, kernel) outcome" where
  "kernel_boot H k =
     kernel_boot_phases H
       [HalInit, MemoryInit, CapabilityInit, WitnessInit, SchedulerInit, RootPartition, Handoff] k"

section \<open>Epochs\<close>

definition sync_one :: "coherence_engine \<Rightarrow> partition_id \<Rightarrow> partition_manager \<Rightarrow> partition_manager" where
  "sync_one e p m =
     (case pm_get_mut p (\<lambda>x. x\<lparr>pt_coherence := engine_score p e, pt_cut_pressure := engine_pressure p e\<rparr>) m of
        Some m' \<Rightarrow> m' | None \<Rightarrow> m)"

definition sync_partition_scores :: "kernel \<Rightarrow> kernel" where
  "sync_partition_scores k =
     k\<lparr>kn_partitions :=
        fold (sync_one (kn_coherence k)) (take DEFAULT_MAX_PARTITIONS (pm_active_ids (kn_partitions k)))
          (kn_partitions k)\<rparr>"

definition epoch_record :: "epoch_summary \<Rightarrow> witness_record" where
  "epoch_record s =
     with_payload (map (\<lambda>i. ucast (drop_bit (8 * i) (es_switch_count s))) [0..<2])
       (kernel_record SchedulerEpoch 0 0)"

definition kernel_tick :: "chain_hash \<Rightarrow> kernel \<Rightarrow> (rvm_error, epoch_result, kernel) outcome option" where
  "kernel_tick H k =
     (if \<not> kn_booted k then Some (Inl InvalidPartitionState, k)
      else
        let (summary, s) = tick_epoch (kn_scheduler k) in
        case engine_tick builtin_compute_score 20 (kn_coherence k) of
          None \<Rightarrow> None
        | Some (decision, e) \<Rightarrow>
            (let k = k\<lparr>kn_scheduler := s, kn_coherence := e\<rparr>;
                 k = k\<lparr>kn_tier_manager :=
                   decay_recency RECENCY_DECAY_PER_EPOCH (tier_advance_epoch (kn_tier_manager k))\<rparr>;
                 k = sync_partition_scores k;
                 k = kernel_emit H (epoch_record summary) k
             in Some (Inr \<lparr>er_summary = summary, er_decision = decision\<rparr>, k)))"

section \<open>Partitions\<close>

definition kernel_record_communication ::
    "partition_id \<Rightarrow> partition_id \<Rightarrow> u64 \<Rightarrow> kernel \<Rightarrow> (rvm_error, unit, kernel) outcome option" where
  "kernel_record_communication from to weight k =
     (if \<not> kn_booted k then Some (Inl InvalidPartitionState, k)
      else case record_communication from to weight (kn_coherence k) of
        None \<Rightarrow> None
      | Some (Inl _, e) \<Rightarrow> Some (Inl InternalError, k\<lparr>kn_coherence := e\<rparr>)
      | Some (Inr _, e) \<Rightarrow> Some (Inr (), k\<lparr>kn_coherence := e\<rparr>))"

definition kernel_create_partition ::
    "chain_hash \<Rightarrow> partition_config \<Rightarrow> kernel \<Rightarrow> (rvm_error, partition_id, kernel) outcome" where
  "kernel_create_partition H config k =
     (if \<not> kn_booted k then (Inl InvalidPartitionState, k)
      else
        let epoch = et_current_epoch (sc_epoch (kn_scheduler k)) in
        case pm_create Agent (cf_vcpu_count config) epoch (kn_partitions k) of
          (Inl err, m) \<Rightarrow> (Inl err, k\<lparr>kn_partitions := m\<rparr>)
        | (Inr p, m) \<Rightarrow>
            (let k = k\<lparr>kn_partitions := m, kn_coherence := snd (add_partition p (kn_coherence k))\<rparr>
             in (Inr p, kernel_emit H (kernel_record PartitionCreate HYPERVISOR (ucast p)) k)))"

definition kernel_destroy_partition ::
    "chain_hash \<Rightarrow> partition_id \<Rightarrow> kernel \<Rightarrow> (rvm_error, unit, kernel) outcome option" where
  "kernel_destroy_partition H p k =
     (if \<not> kn_booted k then Some (Inl InvalidPartitionState, k)
      else case pm_get p (kn_partitions k) of
        None \<Rightarrow> Some (Inl PartitionNotFound, k)
      | Some pt \<Rightarrow>
          if \<not> valid_transition (pt_state pt) Destroyed then Some (Inl InvalidPartitionState, k)
          else case remove_partition p (kn_coherence k) of
            None \<Rightarrow> None
          | Some (_, e) \<Rightarrow>
              (let k = k\<lparr>kn_coherence := e\<rparr> in
               case pm_remove p (kn_partitions k) of
                 (Inl err, m) \<Rightarrow> Some (Inl err, k\<lparr>kn_partitions := m\<rparr>)
               | (Inr _, m) \<Rightarrow>
                   Some (Inr (), kernel_emit H (kernel_record PartitionDestroy HYPERVISOR (ucast p))
                     (k\<lparr>kn_partitions := m\<rparr>))))"

section \<open>Scheduling\<close>

definition kernel_enqueue_partition ::
    "nat \<Rightarrow> partition_id \<Rightarrow> u16 \<Rightarrow> kernel \<Rightarrow> (rvm_error, unit, kernel) outcome" where
  "kernel_enqueue_partition cpu p deadline_urgency k =
     (if \<not> kn_booted k then (Inl InvalidPartitionState, k)
      else if pm_get p (kn_partitions k) = None then (Inl PartitionNotFound, k)
      else
        let (ok, s) = enqueue cpu p deadline_urgency (engine_pressure p (kn_coherence k)) (kn_scheduler k)
        in (if ok then Inr () else Inl ResourceLimitExceeded, k\<lparr>kn_scheduler := s\<rparr>))"

definition kernel_switch_next ::
    "nat \<Rightarrow> kernel \<Rightarrow> (partition_id option \<times> partition_id) option \<times> kernel" where
  "kernel_switch_next cpu k =
     (let (r, s) = switch_next cpu (kn_scheduler k) in (r, k\<lparr>kn_scheduler := s\<rparr>))"

section \<open>Splitting and merging\<close>

definition execute_split ::
    "chain_hash \<Rightarrow> partition_id \<Rightarrow> kernel \<Rightarrow> (rvm_error, partition_id, kernel) outcome" where
  "execute_split H source k =
     (if \<not> kn_booted k then (Inl InvalidPartitionState, k)
      else case pm_get source (kn_partitions k) of
        None \<Rightarrow> (Inl PartitionNotFound, k)
      | Some src \<Rightarrow>
          (let epoch = et_current_epoch (sc_epoch (kn_scheduler k)) in
           case pm_create Agent (pt_vcpu_count src) epoch (kn_partitions k) of
             (Inl err, m) \<Rightarrow> (Inl err, k\<lparr>kn_partitions := m\<rparr>)
           | (Inr child, m) \<Rightarrow>
               (let k = k\<lparr>kn_partitions := m, kn_coherence := snd (add_partition child (kn_coherence k))\<rparr>
                in (Inr child, kernel_emit H (kernel_record StructuralSplit source (ucast child)) k))))"

definition execute_merge ::
    "chain_hash \<Rightarrow> partition_id \<Rightarrow> partition_id \<Rightarrow> kernel \<Rightarrow> (rvm_error, partition_id, kernel) outcome option" where
  "execute_merge H absorber absorbed k =
     (if \<not> kn_booted k then Some (Inl InvalidPartitionState, k)
      else if pm_get absorber (kn_partitions k) = None then Some (Inl PartitionNotFound, k)
      else if pm_get absorbed (kn_partitions k) = None then Some (Inl PartitionNotFound, k)
      else case merge_preconditions_met (engine_score absorber (kn_coherence k))
                  (engine_score absorbed (kn_coherence k)) of
        Inl _ \<Rightarrow> Some (Inl InvalidPartitionState, k)
      | Inr _ \<Rightarrow>
          (case remove_partition absorbed (kn_coherence k) of
             None \<Rightarrow> None
           | Some (_, e) \<Rightarrow>
               Some (Inr absorber, kernel_emit H (kernel_record StructuralMerge absorber (ucast absorbed))
                 (k\<lparr>kn_coherence := e\<rparr>))))"

definition apply_decision ::
    "chain_hash \<Rightarrow> coherence_decision \<Rightarrow> kernel \<Rightarrow> (rvm_error, apply_result, kernel) outcome option" where
  "apply_decision H decision k =
     (case decision of
        NoAction \<Rightarrow> Some (Inr AppliedNothing, k)
      | SplitRecommended p _ \<Rightarrow>
          Some (apfst (map_sum (\<lambda>e. e) (AppliedSplit p)) (execute_split H p k))
      | MergeRecommended a b _ \<Rightarrow>
          map_option (apfst (map_sum (\<lambda>e. e) (\<lambda>survivor. AppliedMerge survivor b))) (execute_merge H a b k))"

section \<open>Channels\<close>

definition kernel_create_channel ::
    "chain_hash \<Rightarrow> partition_id \<Rightarrow> partition_id \<Rightarrow> kernel \<Rightarrow> (rvm_error, comm_edge_id, kernel) outcome" where
  "kernel_create_channel H from to k =
     (if \<not> kn_booted k then (Inl InvalidPartitionState, k)
      else if pm_get from (kn_partitions k) = None \<or> pm_get to (kn_partitions k) = None
      then (Inl PartitionNotFound, k)
      else case ipc_create_channel from to (kn_ipc k) of
        (Inl err, m) \<Rightarrow> (Inl err, k\<lparr>kn_ipc := m\<rparr>)
      | (Inr edge, m) \<Rightarrow>
          (Inr edge, kernel_emit H (kernel_record CommEdgeCreate from (ucast to)) (k\<lparr>kn_ipc := m\<rparr>)))"

definition kernel_ipc_send ::
    "chain_hash \<Rightarrow> comm_edge_id \<Rightarrow> ipc_message \<Rightarrow> partition_id \<Rightarrow> kernel \<Rightarrow>
       (rvm_error, unit, kernel) outcome option" where
  "kernel_ipc_send H edge msg caller k =
     (if \<not> kn_booted k then Some (Inl InvalidPartitionState, k)
      else case ipc_send edge msg caller (kn_ipc k) of
        (Inl err, m) \<Rightarrow> Some (Inl err, k\<lparr>kn_ipc := m\<rparr>)
      | (Inr _, m) \<Rightarrow>
          (case record_communication (msg_sender msg) (msg_receiver msg) 1 (kn_coherence k) of
             None \<Rightarrow> None
           | Some (_, e) \<Rightarrow>
               Some (Inr (), kernel_emit H (kernel_record IpcSend (msg_sender msg) (ucast (msg_receiver msg)))
                 (k\<lparr>kn_ipc := m, kn_coherence := e\<rparr>))))"

definition kernel_ipc_receive ::
    "comm_edge_id \<Rightarrow> kernel \<Rightarrow> (rvm_error, ipc_message option, kernel) outcome" where
  "kernel_ipc_receive edge k =
     (if \<not> kn_booted k then (Inl InvalidPartitionState, k)
      else let (r, m) = ipc_receive edge (kn_ipc k) in (r, k\<lparr>kn_ipc := m\<rparr>))"

definition kernel_destroy_channel ::
    "chain_hash \<Rightarrow> comm_edge_id \<Rightarrow> kernel \<Rightarrow> (rvm_error, unit, kernel) outcome" where
  "kernel_destroy_channel H edge k =
     (if \<not> kn_booted k then (Inl InvalidPartitionState, k)
      else case ipc_destroy_channel edge (kn_ipc k) of
        (Inl err, m) \<Rightarrow> (Inl err, k\<lparr>kn_ipc := m\<rparr>)
      | (Inr _, m) \<Rightarrow>
          (Inr (), kernel_emit H (with_payload (to_le_bytes64 edge) (kernel_record CommEdgeDestroy 0 0))
             (k\<lparr>kn_ipc := m\<rparr>)))"

section \<open>Memory tiers and devices\<close>

definition kernel_register_region ::
    "owned_region_id \<Rightarrow> tier \<Rightarrow> kernel \<Rightarrow> (rvm_error, unit, kernel) outcome" where
  "kernel_register_region region tier k =
     (let (r, m) = tier_register region tier (kn_tier_manager k) in (r, k\<lparr>kn_tier_manager := m\<rparr>))"

definition record_memory_access :: "owned_region_id \<Rightarrow> kernel \<Rightarrow> (rvm_error, unit, kernel) outcome" where
  "record_memory_access region k =
     (let (r, m) = tier_record_access region (kn_tier_manager k) in (r, k\<lparr>kn_tier_manager := m\<rparr>))"

definition update_region_cut_value ::
    "owned_region_id \<Rightarrow> u16 \<Rightarrow> kernel \<Rightarrow> (rvm_error, unit, kernel) outcome" where
  "update_region_cut_value region v k =
     (let (r, m) = tier_update_cut_value region v (kn_tier_manager k) in (r, k\<lparr>kn_tier_manager := m\<rparr>))"

definition tier_record :: "action_kind \<Rightarrow> owned_region_id \<Rightarrow> tier \<Rightarrow> tier \<Rightarrow> witness_record" where
  "tier_record a region old target =
     with_payload [tier_index old, tier_index target] (kernel_record a 0 region)"

definition promote_region ::
    "chain_hash \<Rightarrow> owned_region_id \<Rightarrow> tier \<Rightarrow> kernel \<Rightarrow> (rvm_error, tier, kernel) outcome" where
  "promote_region H region target k =
     (case tier_promote region target (kn_tier_manager k) of
        (Inl err, m) \<Rightarrow> (Inl err, k\<lparr>kn_tier_manager := m\<rparr>)
      | (Inr old, m) \<Rightarrow>
          (Inr old, kernel_emit H (tier_record RegionPromote region old target) (k\<lparr>kn_tier_manager := m\<rparr>)))"

definition demote_region ::
    "chain_hash \<Rightarrow> owned_region_id \<Rightarrow> tier \<Rightarrow> kernel \<Rightarrow> (rvm_error, tier, kernel) outcome" where
  "demote_region H region target k =
     (case tier_demote region target (kn_tier_manager k) of
        (Inl err, m) \<Rightarrow> (Inl err, k\<lparr>kn_tier_manager := m\<rparr>)
      | (Inr old, m) \<Rightarrow>
          (Inr old, kernel_emit H (tier_record RegionDemote region old target) (k\<lparr>kn_tier_manager := m\<rparr>)))"

definition region_tier :: "owned_region_id \<Rightarrow> kernel \<Rightarrow> tier option" where
  "region_tier region k = map_option ts_tier (tier_get region (kn_tier_manager k))"

definition kernel_register_device :: "device_info \<Rightarrow> kernel \<Rightarrow> (rvm_error, u32, kernel) outcome" where
  "kernel_register_device info k =
     (let (r, m) = register_device info (kn_devices k) in (r, k\<lparr>kn_devices := m\<rparr>))"

definition grant_device_lease ::
    "chain_hash \<Rightarrow> u32 \<Rightarrow> partition_id \<Rightarrow> u64 \<Rightarrow> u32 \<Rightarrow> kernel \<Rightarrow> (rvm_error, device_lease_id, kernel) outcome" where
  "grant_device_lease H device p duration_epochs cap_hash k =
     (if \<not> kn_booted k then (Inl InvalidPartitionState, k)
      else
        let epoch = ucast (et_current_epoch (sc_epoch (kn_scheduler k))) in
        case grant_lease device p duration_epochs epoch cap_hash (kn_devices k) of
          (Inl err, m) \<Rightarrow> (Inl err, k\<lparr>kn_devices := m\<rparr>)
        | (Inr lease, m) \<Rightarrow>
            (Inr lease, kernel_emit H (kernel_record DeviceLeaseGrant p (ucast device)) (k\<lparr>kn_devices := m\<rparr>)))"

definition revoke_device_lease ::
    "chain_hash \<Rightarrow> device_lease_id \<Rightarrow> kernel \<Rightarrow> (rvm_error, unit, kernel) outcome" where
  "revoke_device_lease H lease k =
     (case revoke_lease lease (kn_devices k) of
        (Inl err, m) \<Rightarrow> (Inl err, k\<lparr>kn_devices := m\<rparr>)
      | (Inr _, m) \<Rightarrow>
          (Inr (), kernel_emit H (with_payload (to_le_bytes64 lease) (kernel_record DeviceLeaseRevoke 0 0))
             (k\<lparr>kn_devices := m\<rparr>)))"

section \<open>Operations behind the security gate\<close>

definition write_request :: "cap_token \<Rightarrow> action_kind \<Rightarrow> u64 \<Rightarrow> gate_request" where
  "write_request token action target =
     \<lparr>gr_token = token, gr_required_type = CapPartition, gr_required_rights = WRITE,
      gr_proof_commitment = None, gr_require_p3 = False, gr_p3_chain_valid = False,
      gr_p3_witness_data = None, gr_action = action, gr_target_object_id = target, gr_timestamp_ns = 0\<rparr>"

definition checked_create_partition ::
    "chain_hash \<Rightarrow> partition_config \<Rightarrow> cap_token \<Rightarrow> kernel \<Rightarrow> (rvm_error, partition_id, kernel) outcome" where
  "checked_create_partition H config token k =
     (if \<not> kn_booted k then (Inl InvalidPartitionState, k)
      else case check_and_execute H (write_request token PartitionCreate 0) (kn_witness_log k) of
        (Inl _, l) \<Rightarrow> (Inl InsufficientCapability, k\<lparr>kn_witness_log := l\<rparr>)
      | (Inr _, l) \<Rightarrow> kernel_create_partition H config (k\<lparr>kn_witness_log := l\<rparr>))"

definition checked_ipc_send ::
    "chain_hash \<Rightarrow> comm_edge_id \<Rightarrow> ipc_message \<Rightarrow> cap_token \<Rightarrow> kernel \<Rightarrow>
       (rvm_error, unit, kernel) outcome option" where
  "checked_ipc_send H edge msg token k =
     (if \<not> kn_booted k then Some (Inl InvalidPartitionState, k)
      else case check_and_execute H (write_request token IpcSend (ucast (msg_receiver msg))) (kn_witness_log k) of
        (Inl _, l) \<Rightarrow> Some (Inl InsufficientCapability, k\<lparr>kn_witness_log := l\<rparr>)
      | (Inr _, l) \<Rightarrow>
          (let caller = msg_sender msg in kernel_ipc_send H edge msg caller (k\<lparr>kn_witness_log := l\<rparr>)))"

section \<open>Degraded mode\<close>

definition enter_degraded_mode :: "chain_hash \<Rightarrow> kernel \<Rightarrow> kernel" where
  "enter_degraded_mode H k =
     kernel_emit H (kernel_record DegradedModeEntered 0 0)
       (k\<lparr>kn_scheduler := enter_degraded (kn_scheduler k)\<rparr>)"

definition exit_degraded_mode :: "chain_hash \<Rightarrow> kernel \<Rightarrow> kernel" where
  "exit_degraded_mode H k =
     kernel_emit H (kernel_record DegradedModeExited 0 0)
       (k\<lparr>kn_scheduler := exit_degraded (kn_scheduler k)\<rparr>)"

section \<open>The signer bridge\<close>

text \<open>
  \<open>CryptoSignerAdapter\<close>: a signer of 32-byte digests with 64-byte signatures, truncated to the
  eight bytes of the field \<open>aux\<close>.  The inner signer and SHA-256 are parameters.
\<close>

definition bridge_sign :: "(u8 list \<Rightarrow> u8 list) \<Rightarrow> (u8 list \<Rightarrow> u8 list) \<Rightarrow> witness_record \<Rightarrow> u8 list" where
  "bridge_sign sha256 inner r = take 8 (inner (record_to_digest sha256 r))"

definition bridge_signer :: "(u8 list \<Rightarrow> u8 list) \<Rightarrow> (u8 list \<Rightarrow> u8 list) \<Rightarrow> witness_signer" where
  "bridge_signer sha256 inner =
     \<lparr>ws_sign = bridge_sign sha256 inner,
      ws_verify = (\<lambda>r. bytes_differ (bridge_sign sha256 inner r) (wr_aux r) = 0)\<rparr>"

end
