(* ===== verification/Kernel_Proofs.thy ===== *)
theory Kernel_Proofs
  imports Kernel
begin

text \<open>
  What the kernel guarantees as a whole: its calls as one step function, the witness trail that a
  call leaves, the invariant that ties the subsystems together, and the kernels that any sequence of
  calls reaches.
\<close>

section \<open>Calls and answers\<close>

datatype kernel_call =
    KBoot
  | KTick
  | KCommunicate partition_id partition_id u64
  | KCreate partition_config
  | KDestroy partition_id
  | KEnqueue nat partition_id u16
  | KSwitch nat
  | KApply coherence_decision
  | KCreateChannel partition_id partition_id
  | KSend comm_edge_id ipc_message partition_id
  | KReceive comm_edge_id
  | KDestroyChannel comm_edge_id
  | KRegisterRegion owned_region_id tier
  | KAccess owned_region_id
  | KCutValue owned_region_id u16
  | KPromote owned_region_id tier
  | KDemote owned_region_id tier
  | KRegisterDevice device_info
  | KGrant u32 partition_id u64 u32
  | KRevoke device_lease_id
  | KCheckedCreate partition_config cap_token
  | KCheckedSend comm_edge_id ipc_message cap_token
  | KEnterDegraded
  | KExitDegraded

datatype kernel_reply =
    RUnit
  | REpoch epoch_result
  | RPartition partition_id
  | RSwitch "(partition_id option \<times> partition_id) option"
  | RApplied apply_result
  | REdge comm_edge_id
  | RMessage "ipc_message option"
  | RTier tier
  | RDevice u32
  | RLease device_lease_id

type_synonym kernel_answer = "rvm_error + kernel_reply"

definition reply :: "('a \<Rightarrow> kernel_reply) \<Rightarrow> (rvm_error, 'a, kernel) outcome \<Rightarrow> kernel_answer \<times> kernel" where
  "reply f out = apfst (map_sum (\<lambda>e. e) f) out"

lemma reply_Pair [simp]: "reply f (r, k) = (map_sum (\<lambda>e. e) f r, k)"
  by (simp add: reply_def)

lemma reply_split: "reply f out = (map_sum (\<lambda>e. e) f (fst out), snd out)"
  by (cases out) simp

abbreviation unit_reply :: "unit \<Rightarrow> kernel_reply" where
  "unit_reply \<equiv> \<lambda>_. RUnit"

fun kernel_step :: "chain_hash \<Rightarrow> kernel_call \<Rightarrow> kernel \<Rightarrow> (kernel_answer \<times> kernel) option" where
  "kernel_step H KBoot k = Some (reply unit_reply (kernel_boot H k))"
| "kernel_step H KTick k = map_option (reply REpoch) (kernel_tick H k)"
| "kernel_step H (KCommunicate p q w) k = map_option (reply unit_reply) (kernel_record_communication p q w k)"
| "kernel_step H (KCreate c) k = Some (reply RPartition (kernel_create_partition H c k))"
| "kernel_step H (KDestroy p) k = map_option (reply unit_reply) (kernel_destroy_partition H p k)"
| "kernel_step H (KEnqueue cpu p u) k = Some (reply unit_reply (kernel_enqueue_partition cpu p u k))"
| "kernel_step H (KSwitch cpu) k = (let (r, k') = kernel_switch_next cpu k in Some (Inr (RSwitch r), k'))"
| "kernel_step H (KApply d) k = map_option (reply RApplied) (apply_decision H d k)"
| "kernel_step H (KCreateChannel p q) k = Some (reply REdge (kernel_create_channel H p q k))"
| "kernel_step H (KSend e m c) k = map_option (reply unit_reply) (kernel_ipc_send H e m c k)"
| "kernel_step H (KReceive e) k = Some (reply RMessage (kernel_ipc_receive e k))"
| "kernel_step H (KDestroyChannel e) k = Some (reply unit_reply (kernel_destroy_channel H e k))"
| "kernel_step H (KRegisterRegion r t) k = Some (reply unit_reply (kernel_register_region r t k))"
| "kernel_step H (KAccess r) k = Some (reply unit_reply (record_memory_access r k))"
| "kernel_step H (KCutValue r v) k = Some (reply unit_reply (update_region_cut_value r v k))"
| "kernel_step H (KPromote r t) k = Some (reply RTier (promote_region H r t k))"
| "kernel_step H (KDemote r t) k = Some (reply RTier (demote_region H r t k))"
| "kernel_step H (KRegisterDevice i) k = Some (reply RDevice (kernel_register_device i k))"
| "kernel_step H (KGrant d p t h) k = Some (reply RLease (grant_device_lease H d p t h k))"
| "kernel_step H (KRevoke l) k = Some (reply unit_reply (revoke_device_lease H l k))"
| "kernel_step H (KCheckedCreate c t) k = Some (reply RPartition (checked_create_partition H c t k))"
| "kernel_step H (KCheckedSend e m t) k = map_option (reply unit_reply) (checked_ipc_send H e m t k)"
| "kernel_step H KEnterDegraded k = Some (Inr RUnit, enter_degraded_mode H k)"
| "kernel_step H KExitDegraded k = Some (Inr RUnit, exit_degraded_mode H k)"

section \<open>The trail of a call\<close>

text \<open>
  The records that an answered call leaves in the witness log.  The flag says whether the kernel had
  booted.  A refused call leaves nothing, a call behind the gate leaves the gate's verdict first.
\<close>

definition boot_trail :: "witness_record list" where
  "boot_trail = map boot_record phase_all"

definition may_write :: "cap_token \<Rightarrow> bool" where
  "may_write t \<longleftrightarrow> tok_type t = CapPartition \<and> has_rights t WRITE"

definition gate_trail :: "gate_request \<Rightarrow> witness_record" where
  "gate_trail req = (if may_write (gr_token req) then allowed_record req 1 else rejection_record req)"

fun send_trail :: "ipc_message \<Rightarrow> kernel_answer \<Rightarrow> witness_record list" where
  "send_trail m (Inr _) = [kernel_record IpcSend (msg_sender m) (ucast (msg_receiver m))]"
| "send_trail m (Inl _) = []"

fun create_trail :: "kernel_answer \<Rightarrow> witness_record list" where
  "create_trail (Inr (RPartition p)) = [kernel_record PartitionCreate HYPERVISOR (ucast p)]"
| "create_trail _ = []"

fun kernel_trail :: "bool \<Rightarrow> kernel_call \<Rightarrow> kernel_answer \<Rightarrow> witness_record list" where
  "kernel_trail b KBoot (Inr _) = boot_trail"
| "kernel_trail b KTick (Inr (REpoch x)) = [epoch_record (er_summary x)]"
| "kernel_trail b (KCreate c) r = create_trail r"
| "kernel_trail b (KDestroy p) (Inr _) = [kernel_record PartitionDestroy HYPERVISOR (ucast p)]"
| "kernel_trail b (KApply d) (Inr (RApplied (AppliedSplit p child))) = [kernel_record StructuralSplit p (ucast child)]"
| "kernel_trail b (KApply d) (Inr (RApplied (AppliedMerge p q))) = [kernel_record StructuralMerge p (ucast q)]"
| "kernel_trail b (KCreateChannel p q) (Inr _) = [kernel_record CommEdgeCreate p (ucast q)]"
| "kernel_trail b (KSend e m c) r = send_trail m r"
| "kernel_trail b (KDestroyChannel e) (Inr _) = [with_payload (to_le_bytes64 e) (kernel_record CommEdgeDestroy 0 0)]"
| "kernel_trail b (KPromote x t) (Inr (RTier old)) = [tier_record RegionPromote x old t]"
| "kernel_trail b (KDemote x t) (Inr (RTier old)) = [tier_record RegionDemote x old t]"
| "kernel_trail b (KGrant d p t h) (Inr _) = [kernel_record DeviceLeaseGrant p (ucast d)]"
| "kernel_trail b (KRevoke l) (Inr _) = [with_payload (to_le_bytes64 l) (kernel_record DeviceLeaseRevoke 0 0)]"
| "kernel_trail b (KCheckedCreate c t) r =
     (if b then gate_trail (write_request t PartitionCreate 0) # create_trail r else [])"
| "kernel_trail b (KCheckedSend e m t) r =
     (if b then gate_trail (write_request t IpcSend (ucast (msg_receiver m))) # send_trail m r else [])"
| "kernel_trail b KEnterDegraded r = [kernel_record DegradedModeEntered 0 0]"
| "kernel_trail b KExitDegraded r = [kernel_record DegradedModeExited 0 0]"
| "kernel_trail b _ _ = []"

lemma append_all_simps [simp]:
  "append_all H [] l = l"
  "append_all H (r # rs) l = append_all H rs (snd (log_append H r l))"
  by (simp_all add: append_all_def)

lemma kernel_emit_fields [simp]:
  "kn_witness_log (kernel_emit H r k) = snd (log_append H r (kn_witness_log k))"
  "kn_partitions (kernel_emit H r k) = kn_partitions k" "kn_scheduler (kernel_emit H r k) = kn_scheduler k"
  "kn_coherence (kernel_emit H r k) = kn_coherence k" "kn_ipc (kernel_emit H r k) = kn_ipc k"
  "kn_tier_manager (kernel_emit H r k) = kn_tier_manager k" "kn_devices (kernel_emit H r k) = kn_devices k"
  "kn_boot (kernel_emit H r k) = kn_boot k" "kn_booted (kernel_emit H r k) = kn_booted k"
  by (simp_all add: kernel_emit_def)

lemma sync_fields [simp]:
  "kn_witness_log (sync_partition_scores k) = kn_witness_log k"
  "kn_scheduler (sync_partition_scores k) = kn_scheduler k" "kn_coherence (sync_partition_scores k) = kn_coherence k"
  "kn_ipc (sync_partition_scores k) = kn_ipc k" "kn_tier_manager (sync_partition_scores k) = kn_tier_manager k"
  "kn_devices (sync_partition_scores k) = kn_devices k" "kn_boot (sync_partition_scores k) = kn_boot k"
  "kn_booted (sync_partition_scores k) = kn_booted k"
  by (simp_all add: sync_partition_scores_def)

definition tracker_done :: boot_tracker where
  "tracker_done = \<lparr>bt_current = None, bt_completed = replicate 7 True\<rparr>"

definition boot_consistent :: "kernel \<Rightarrow> bool" where
  "boot_consistent k \<longleftrightarrow> kn_boot k = (if kn_booted k then tracker_done else tracker_new)"

text \<open>Booting completes all seven phases on a fresh kernel and is refused on a booted one.\<close>

lemma kernel_boot_cases:
  assumes "boot_consistent k"
  shows "kernel_boot H k =
    (if kn_booted k then (Inl Unsupported, k)
     else (Inr (), k\<lparr>kn_boot := tracker_done, kn_booted := True,
             kn_witness_log := append_all H boot_trail (kn_witness_log k)\<rparr>))"
proof (cases "kn_booted k")
  case True
  with assms show ?thesis
    by (simp add: boot_consistent_def kernel_boot_def complete_phase_def tracker_done_def)
next
  case False
  then have "kn_boot k = tracker_new" using assms by (simp add: boot_consistent_def)
  with False show ?thesis
    by (simp add: kernel_boot_def complete_phase_def tracker_new_def tracker_done_def boot_trail_def phase_all_def
        kernel_emit_def numeral_eq_Suc)
qed

lemma gate_write:
  "check_and_execute H (write_request t a x) l = (r, l') \<Longrightarrow>
     l' = snd (log_append H (gate_trail (write_request t a x)) l) \<and> (may_write t \<longleftrightarrow> (\<exists>y. r = Inr y))"
  by (auto simp: check_and_execute_def write_request_def gate_trail_def may_write_def emit_rejection_def
      emit_allowed_def Let_def split_beta split: if_splits)

lemma kernel_create_log:
  "reply RPartition (kernel_create_partition H c k) = (r, k') \<Longrightarrow>
     kn_witness_log k' = append_all H (create_trail r) (kn_witness_log k)"
  by (auto simp: kernel_create_partition_def Let_def split: if_splits prod.splits sum.splits)

lemma kernel_send_log:
  "kernel_ipc_send H e m c k = Some (r, k') \<Longrightarrow>
     kn_witness_log k' = append_all H (send_trail m (map_sum (\<lambda>e. e) unit_reply r)) (kn_witness_log k)"
  by (auto simp: kernel_ipc_send_def split: if_splits option.splits prod.splits sum.splits)

text \<open>Every call appends exactly its trail.\<close>

lemma kernel_step_log:
  assumes "boot_consistent k" "kernel_step H c k = Some (r, k')"
  shows "kn_witness_log k' = append_all H (kernel_trail (kn_booted k) c r) (kn_witness_log k)"
proof (cases c)
  case KBoot
  then show ?thesis using assms by (auto simp: kernel_boot_cases split: if_splits)
next
  case KTick
  then show ?thesis using assms(2)
    by (auto simp: kernel_tick_def Let_def split: if_splits option.splits prod.splits)
next
  case (KCreate x)
  then show ?thesis using assms(2) kernel_create_log by simp
next
  case (KCheckedCreate x t)
  then show ?thesis using assms(2)
    by (auto simp: checked_create_partition_def dest!: gate_write kernel_create_log split: if_splits prod.splits sum.splits)
next
  case (KSend e m x)
  then show ?thesis using assms(2) by (auto dest!: kernel_send_log)
next
  case (KCheckedSend e m t)
  then show ?thesis using assms(2)
    by (auto simp: checked_ipc_send_def Let_def dest!: gate_write kernel_send_log split: if_splits prod.splits sum.splits)
next
  case (KApply d)
  then show ?thesis using assms(2)
    by (auto simp: apply_decision_def execute_split_def execute_merge_def Let_def
        split: if_splits option.splits prod.splits sum.splits coherence_decision.splits)
qed (use assms(2) in \<open>auto simp: kernel_record_communication_def kernel_destroy_partition_def kernel_enqueue_partition_def
    kernel_switch_next_def kernel_create_channel_def kernel_ipc_receive_def kernel_destroy_channel_def
    kernel_register_region_def record_memory_access_def update_region_cut_value_def promote_region_def
    demote_region_def kernel_register_device_def grant_device_lease_def revoke_device_lease_def
    enter_degraded_mode_def exit_degraded_mode_def Let_def
    split: if_splits option.splits prod.splits sum.splits\<close>)

section \<open>The invariant\<close>

text \<open>
  The subsystems are consistent each for itself, and the coherence graph only knows partitions that
  the partition manager knows.
\<close>

abbreviation graph_ids :: "kernel \<Rightarrow> partition_id set" where
  "graph_ids k \<equiv> set (node_ids (en_graph (kn_coherence k)))"

definition live :: "kernel \<Rightarrow> partition_id set" where
  "live k = {p. pm_get p (kn_partitions k) \<noteq> None}"

definition kernel_inv :: "kernel \<Rightarrow> bool" where
  "kernel_inv k \<longleftrightarrow>
     boot_consistent k \<and> pm_inv (kn_partitions k) \<and> sched_inv DEFAULT_MAX_CPUS (kn_scheduler k) \<and>
     engine_reach builtin_compute_score (kn_coherence k) \<and> ipc_inv (kn_ipc k) \<and>
     tier_reach DEFAULT_MAX_TIER_REGIONS (kn_tier_manager k) \<and>
     dlm_reach DEFAULT_MAX_DEVICES DEFAULT_MAX_LEASES (kn_devices k) \<and> graph_ids k \<subseteq> live k"

lemma kernel_invD:
  assumes "kernel_inv k"
  shows "boot_consistent k" "pm_inv (kn_partitions k)" "sched_inv DEFAULT_MAX_CPUS (kn_scheduler k)"
    "engine_reach builtin_compute_score (kn_coherence k)" "ipc_inv (kn_ipc k)"
    "tier_reach DEFAULT_MAX_TIER_REGIONS (kn_tier_manager k)"
    "dlm_reach DEFAULT_MAX_DEVICES DEFAULT_MAX_LEASES (kn_devices k)" "graph_ids k \<subseteq> live k"
    "engine_inv (kn_coherence k)"
  using assms engine_reach_inv [of builtin_compute_score "kn_coherence k"] by (simp_all add: kernel_inv_def)

text \<open>What has not run out: the counters of identifiers, and the sum of the edge weights.\<close>

definition kernel_room :: "nat \<Rightarrow> kernel \<Rightarrow> bool" where
  "kernel_room w k \<longleftrightarrow>
     pm_room (kn_partitions k) \<and> ipc_room (kn_ipc k) \<and> dlm_room (kn_devices k) \<and>
     weight_sum (cg_edges (en_graph (kn_coherence k))) + w < 2 ^ 64"

fun call_weight :: "kernel_call \<Rightarrow> nat" where
  "call_weight (KCommunicate p q w) = unat w"
| "call_weight (KSend e m c) = 1"
| "call_weight (KCheckedSend e m t) = 1"
| "call_weight _ = 0"

subsection \<open>The nodes of the graph\<close>

lemma add_partition_ids:
  assumes "engine_inv e" "add_partition p e = (r, e')"
  shows "set (node_ids (en_graph e')) \<subseteq> insert p (set (node_ids (en_graph e)))"
proof -
  have "engine_inv e'" using add_partition_inv [OF assms] by blast
  moreover have "set (entry_ids (en_entries e')) \<subseteq> insert p (set (entry_ids (en_entries e)))"
    using assms(2) set_update_subset_insert [of "en_entries e"]
    by (fastforce simp: add_partition_def entry_ids_def set_map_filter entry_id_def Let_def
        split: prod.splits sum.splits option.splits if_splits)
  ultimately show ?thesis using engine_invD(6) assms(1) by metis
qed

lemma remove_partition_ids:
  assumes "engine_inv e" "remove_partition p e = Some (r, e')"
  shows "set (node_ids (en_graph e')) = set (node_ids (en_graph e)) - {p}"
proof (cases "p \<in> set (node_ids (en_graph e))")
  case False
  then have "find_node p (en_graph e) = None" using node_ids_find [OF engine_invD(1) [OF assms(1)]] by simp
  then have "e' = e" using assms(2) by (simp add: remove_partition_def remove_node_def)
  with False show ?thesis by simp
next
  case True
  then have "r = Inr ()" using remove_partition_inv [OF assms(1), of p] assms(2) by auto
  then have run: "remove_node p (en_graph e) = Some (Inr (), en_graph e')"
    using assms(2) by (auto simp: remove_partition_def Let_def split: option.splits prod.splits sum.splits)
  have m: "mset (node_ids (en_graph e)) = mset (p # node_ids (en_graph e'))"
    using remove_node_ids(1) [OF engine_invD(1) [OF assms(1)] run] by simp
  moreover have "distinct (p # node_ids (en_graph e'))"
    using engine_invD(1) [OF assms(1)] node_ids_distinct m mset_eq_imp_distinct_iff by metis
  moreover have "set (node_ids (en_graph e)) = set (p # node_ids (en_graph e'))"
    using m by (metis set_mset_mset)
  ultimately show ?thesis by auto
qed

lemma record_communication_ids:
  assumes "engine_inv e" "weight_sum (cg_edges (en_graph e)) + unat w < 2 ^ 64"
  shows "\<exists>r e'. record_communication p q w e = Some (r, e') \<and>
    set (node_ids (en_graph e')) = set (node_ids (en_graph e))"
  using record_communication_inv [OF assms, of p q] engine_invD(6) assms(1) by metis

lemma engine_tick_ids:
  assumes "engine_inv e" "engine_tick score load e = Some (d, e')"
  shows "set (node_ids (en_graph e')) = set (node_ids (en_graph e))"
proof -
  have "engine_inv e'" using engine_tick_inv [OF assms(1), of score load] assms(2) by auto
  moreover have "map entry_id (en_entries e') = map entry_id (en_entries e)"
    using assms(2) by (auto simp: engine_tick_def Let_def split: option.splits prod.splits if_splits)
  then have "entry_ids (en_entries e') = entry_ids (en_entries e)"
    unfolding entry_ids_def by (rule map_filter_cong_map)
  ultimately show ?thesis using engine_invD(6) assms(1) by metis
qed

subsection \<open>Preservation\<close>

lemma kernel_inv_emit [simp]: "kernel_inv (kernel_emit H r k) = kernel_inv k"
  by (simp add: kernel_inv_def boot_consistent_def live_def)

lemma kernel_inv_update:
  assumes "kernel_inv k"
  shows "sched_inv DEFAULT_MAX_CPUS s \<Longrightarrow> kernel_inv (k\<lparr>kn_scheduler := s\<rparr>)"
    "ipc_inv m \<Longrightarrow> kernel_inv (k\<lparr>kn_ipc := m\<rparr>)"
    "tier_reach DEFAULT_MAX_TIER_REGIONS t \<Longrightarrow> kernel_inv (k\<lparr>kn_tier_manager := t\<rparr>)"
    "dlm_reach DEFAULT_MAX_DEVICES DEFAULT_MAX_LEASES d \<Longrightarrow> kernel_inv (k\<lparr>kn_devices := d\<rparr>)"
    "kernel_inv (k\<lparr>kn_witness_log := l\<rparr>)" "kernel_inv (k\<lparr>kn_cap_manager := c\<rparr>)"
    "engine_reach builtin_compute_score e \<Longrightarrow> set (node_ids (en_graph e)) \<subseteq> live k \<Longrightarrow> kernel_inv (k\<lparr>kn_coherence := e\<rparr>)"
  using assms by (simp_all add: kernel_inv_def boot_consistent_def live_def)

lemma kernel_inv_create:
  assumes inv: "kernel_inv k" and room: "pm_room (kn_partitions k)"
    and run: "pm_create ty n epoch (kn_partitions k) = (Inr p, m)"
  shows "kernel_inv (k\<lparr>kn_partitions := m, kn_coherence := snd (add_partition p (kn_coherence k))\<rparr>)"
proof -
  note D = kernel_invD [OF inv]
  have "engine_reach builtin_compute_score (snd (add_partition p (kn_coherence k)))"
    using D(4) engine_reach.add prod.collapse by metis
  moreover have "set (node_ids (en_graph (snd (add_partition p (kn_coherence k))))) \<subseteq> insert p (graph_ids k)"
    using add_partition_ids [OF D(9)] prod.collapse by metis
  moreover have "pm_get q m \<noteq> None" if "q \<in> insert p (graph_ids k)" for q
    using that D(8) pm_create_get(3) [OF D(2) room run, of q] by (auto simp: live_def)
  ultimately show ?thesis
    using D pm_create_inv [OF D(2) room run] by (auto simp: kernel_inv_def boot_consistent_def live_def)
qed

lemma kernel_inv_remove:
  assumes inv: "kernel_inv k" and run: "pm_remove p (kn_partitions k) = (Inr (), m)"
    and rem: "remove_partition p (kn_coherence k) = Some (r, e)"
  shows "kernel_inv (k\<lparr>kn_coherence := e, kn_partitions := m\<rparr>)"
proof -
  note D = kernel_invD [OF inv]
  have "engine_reach builtin_compute_score e" by (rule engine_reach.remove [OF D(4) rem])
  moreover have "pm_get q m \<noteq> None" if "q \<in> set (node_ids (en_graph e))" for q
    using that D(8) remove_partition_ids [OF D(9) rem] pm_remove_get(1) [OF D(2) run, of q]
    by (auto simp: live_def)
  ultimately show ?thesis
    using D pm_remove_inv [OF D(2) run] by (auto simp: kernel_inv_def boot_consistent_def live_def)
qed

lemma kernel_inv_forget:
  assumes "kernel_inv k" "remove_partition p (kn_coherence k) = Some (r, e)"
  shows "kernel_inv (k\<lparr>kn_coherence := e\<rparr>)"
  using kernel_inv_update(7) [OF assms(1) engine_reach.remove [OF kernel_invD(4) [OF assms(1)] assms(2)]]
    remove_partition_ids [OF kernel_invD(9) [OF assms(1)] assms(2)] kernel_invD(8) [OF assms(1)] by blast

lemma kernel_inv_communicate:
  assumes inv: "kernel_inv k" and room: "weight_sum (cg_edges (en_graph (kn_coherence k))) + unat w < 2 ^ 64"
  shows "\<exists>r e. record_communication p q w (kn_coherence k) = Some (r, e) \<and> kernel_inv (k\<lparr>kn_coherence := e\<rparr>)"
proof -
  note D = kernel_invD [OF inv]
  obtain r e where e: "record_communication p q w (kn_coherence k) = Some (r, e)"
    "set (node_ids (en_graph e)) = graph_ids k"
    using record_communication_ids [OF D(9) room] by blast
  with kernel_inv_update(7) [OF inv engine_reach.communicate [OF D(4) room e(1)]] D(8) show ?thesis by auto
qed

lemma pm_get_mut_get:
  assumes "pm_inv m" "\<And>x. pt_id (f x) = pt_id x" "pm_get_mut p f m = Some m'"
  shows "pm_get q m' = (if q = p then map_option f (pm_get q m) else pm_get q m)"
proof -
  note inv = pm_invD [OF assms(1)]
  obtain i where i: "key_index pt_id p (pm_partitions m) = Some i"
    and m': "m' = m\<lparr>pm_partitions := (pm_partitions m)[i := map_option f (pm_partitions m ! i)]\<rparr>"
    using assms(3) by (auto simp: pm_get_mut_def pm_slot_scan [OF assms(1)])
  from key_index_Some [OF i] obtain x where x: "i < length (pm_partitions m)" "pm_partitions m ! i = Some x"
    "pt_id x = p" "lookup_key pt_id p (pm_partitions m) = Some x" by blast
  have "lookup_key pt_id q ((pm_partitions m)[i := Some (f x)]) =
      (if q = p then Some (f x) else lookup_key pt_id q (pm_partitions m))"
    using lookup_key_replace(2) [OF inv(4) x(1,2), of "f x" q] x(3) assms(2) [of x] by simp
  with x(4) show ?thesis
    by (cases "q = p") (simp_all add: pm_get_scan [OF pm_get_mut_inv [OF assms]] pm_get_scan [OF assms(1)], simp_all add: m' x(2))
qed

lemma pm_get_mut_None: "pm_inv m \<Longrightarrow> pm_get_mut p f m = None \<longleftrightarrow> pm_get p m = None"
  by (simp add: pm_get_mut_def pm_slot_scan pm_get_scan key_index_None)

definition scored :: "coherence_engine \<Rightarrow> partition_id \<Rightarrow> partition_rec \<Rightarrow> partition_rec" where
  "scored e p x = x\<lparr>pt_coherence := engine_score p e, pt_cut_pressure := engine_pressure p e\<rparr>"

lemma sync_one_scored: "sync_one e p m = (case pm_get_mut p (scored e p) m of Some m' \<Rightarrow> m' | None \<Rightarrow> m)"
  by (simp add: sync_one_def scored_def [abs_def])

lemma sync_one_get:
  assumes "pm_inv m"
  shows "pm_inv (sync_one e p m) \<and> pm_next_id (sync_one e p m) = pm_next_id m \<and>
    pm_get q (sync_one e p m) = (if q = p then map_option (scored e p) (pm_get q m) else pm_get q m)"
proof (cases "pm_get_mut p (scored e p) m")
  case None
  then have "sync_one e p m = m" by (simp add: sync_one_scored)
  moreover have "pm_get p m = None" using None pm_get_mut_None [OF assms] by blast
  ultimately show ?thesis using assms by auto
next
  case (Some m')
  then have "pm_next_id m' = pm_next_id m" by (auto simp: pm_get_mut_def)
  with Some pm_get_mut_inv [OF assms _ Some] pm_get_mut_get [OF assms _ Some, of q] show ?thesis
    by (cases "q = p") (simp_all add: sync_one_scored, simp_all add: scored_def)
qed

lemma sync_fold:
  assumes "pm_inv m"
  shows "pm_inv (fold (sync_one e) ps m) \<and> pm_next_id (fold (sync_one e) ps m) = pm_next_id m \<and>
    pm_get q (fold (sync_one e) ps m) = (if q \<in> set ps then map_option (scored e q) (pm_get q m) else pm_get q m)"
  using assms
proof (induction ps arbitrary: m)
  case Nil
  then show ?case by simp
next
  case (Cons p ps)
  have idem: "map_option (scored e q) (map_option (scored e q) x) = map_option (scored e q) x" for x
    by (cases x) (simp_all add: scored_def)
  from Cons.IH [of "sync_one e p m"] sync_one_get [OF Cons.prems, of e p] idem show ?case by auto
qed

text \<open>The identifiers in the slots are those that the lookup finds, and there are at most 256.\<close>

lemma pm_active_ids_live:
  assumes "pm_inv m"
  shows "p \<in> set (take DEFAULT_MAX_PARTITIONS (pm_active_ids m)) \<longleftrightarrow> pm_get p m \<noteq> None"
proof -
  have "length (pm_active_ids m) \<le> length (pm_partitions m)"
    by (simp add: pm_active_ids_def length_map_filter count_if_le)
  then have "take DEFAULT_MAX_PARTITIONS (pm_active_ids m) = pm_active_ids m"
    using pm_invD(1) [OF assms] by (simp add: DEFAULT_MAX_PARTITIONS_def MAX_PARTITIONS_def)
  moreover have "p \<in> set (pm_active_ids m) \<longleftrightarrow> lookup_key pt_id p (pm_partitions m) \<noteq> None"
    by (auto simp: pm_active_ids_def set_map_filter lookup_key_None)
  ultimately show ?thesis by (simp add: pm_get_scan [OF assms])
qed

lemma sync_get:
  assumes "pm_inv (kn_partitions k)"
  shows "pm_inv (kn_partitions (sync_partition_scores k))"
    "pm_next_id (kn_partitions (sync_partition_scores k)) = pm_next_id (kn_partitions k)"
    "pm_get q (kn_partitions (sync_partition_scores k)) =
       map_option (scored (kn_coherence k) q) (pm_get q (kn_partitions k))"
  using sync_fold [OF assms, of "kn_coherence k" "take DEFAULT_MAX_PARTITIONS (pm_active_ids (kn_partitions k))" q]
    pm_active_ids_live [OF assms, of q]
  by (auto simp: sync_partition_scores_def)

lemma kernel_same [simp]:
  "k\<lparr>kn_partitions := kn_partitions k\<rparr> = k" "k\<lparr>kn_ipc := kn_ipc k\<rparr> = k"
  "k\<lparr>kn_scheduler := kn_scheduler k\<rparr> = k"
  by simp_all

lemma enqueue_inv:
  assumes "sched_inv n s"
  shows "sched_inv n (snd (enqueue cpu p u c s))"
proof (cases "cpu < n")
  case True
  show ?thesis
    using enqueue_cases(1) [OF assms True, of p u c] enqueue_cases(2) [OF assms True, of p u c 0] assms
    by (cases "size (runnable cpu s) < MAX_RUN_QUEUE") auto
next
  case False
  then show ?thesis using assms sched_invD(3) [OF assms] by (simp add: enqueue_def)
qed

lemma switch_next_inv:
  assumes "sched_inv n s"
  shows "sched_inv n (snd (switch_next cpu s))"
proof (cases "cpu < n")
  case True
  show ?thesis
    using switch_next_cases(1,2) [OF assms True] switch_next_cases(3) [OF assms True, of 0] assms
    by (cases "runnable cpu s = {#}"; cases "entry_is_empty (fst (rq_pop (sched_queue cpu s)))") auto
next
  case False
  then show ?thesis using assms sched_invD(3) [OF assms] by (simp add: switch_next_def)
qed

lemma ipc_send_inv:
  assumes "ipc_inv m"
  shows "ipc_inv (snd (ipc_send edge msg caller m))"
  using ipc_send_cases [OF assms, of edge msg caller] assms by (auto split: sum.splits if_splits)

lemma ipc_receive_inv:
  assumes "ipc_inv m"
  shows "ipc_inv (snd (ipc_receive edge m))"
  using ipc_receive_cases [OF assms, of edge] assms by (auto split: sum.splits)

text \<open>The operations that several calls share.\<close>

lemma kernel_create_inv:
  assumes inv: "kernel_inv k" and room: "pm_room (kn_partitions k)"
  shows "kernel_inv (snd (kernel_create_partition H c k))"
proof (cases "kn_booted k")
  case True
  let ?epoch = "et_current_epoch (sc_epoch (kn_scheduler k))"
  show ?thesis
  proof (cases "pm_create Agent (cf_vcpu_count c) ?epoch (kn_partitions k)")
    case (Pair r m)
    show ?thesis
    proof (cases r)
      case (Inl e)
      with Pair have "m = kn_partitions k" using pm_create_Inl [OF kernel_invD(2) [OF inv]] by blast
      with Inl Pair True inv show ?thesis by (simp add: kernel_create_partition_def)
    next
      case (Inr p)
      with Pair True kernel_inv_create [OF inv room, of Agent "cf_vcpu_count c" ?epoch p m] show ?thesis
        by (simp add: kernel_create_partition_def Let_def)
    qed
  qed
qed (use inv in \<open>simp add: kernel_create_partition_def\<close>)

lemma execute_split_inv:
  assumes inv: "kernel_inv k" and room: "pm_room (kn_partitions k)"
  shows "kernel_inv (snd (execute_split H p k))"
proof (cases "kn_booted k \<and> pm_get p (kn_partitions k) \<noteq> None")
  case True
  then obtain x where x: "kn_booted k" "pm_get p (kn_partitions k) = Some x" by blast
  let ?epoch = "et_current_epoch (sc_epoch (kn_scheduler k))"
  obtain r m where run: "pm_create Agent (pt_vcpu_count x) ?epoch (kn_partitions k) = (r, m)"
    by (rule prod.exhaust)
  show ?thesis
  proof (cases r)
    case (Inl e)
    with run have "m = kn_partitions k" using pm_create_Inl [OF kernel_invD(2) [OF inv]] by blast
    with Inl run x inv show ?thesis by (simp add: execute_split_def Let_def)
  next
    case (Inr c)
    with run x kernel_inv_create [OF inv room, of Agent "pt_vcpu_count x" ?epoch c m] show ?thesis
      by (simp add: execute_split_def Let_def)
  qed
qed (use inv in \<open>auto simp: execute_split_def\<close>)

lemma execute_merge_inv:
  assumes inv: "kernel_inv k"
  shows "\<exists>r k'. execute_merge H p q k = Some (r, k') \<and> kernel_inv k'"
proof -
  obtain r e where "remove_partition q (kn_coherence k) = Some (r, e)"
    using remove_partition_inv [OF kernel_invD(9) [OF inv], of q] by blast
  with kernel_inv_forget [OF inv this] inv show ?thesis
    by (auto simp: execute_merge_def split: sum.split)
qed

lemma kernel_send_inv:
  assumes inv: "kernel_inv k" and room: "weight_sum (cg_edges (en_graph (kn_coherence k))) + 1 < 2 ^ 64"
  shows "\<exists>r k'. kernel_ipc_send H e m c k = Some (r, k') \<and> kernel_inv k'"
proof -
  obtain r i where send: "ipc_send e m c (kn_ipc k) = (r, i)" by (rule prod.exhaust)
  have "ipc_inv i" using ipc_send_inv [OF kernel_invD(5) [OF inv], of e m c] send by simp
  note inv1 = kernel_inv_update(2) [OF inv this]
  obtain q g where q: "record_communication (msg_sender m) (msg_receiver m) 1 (kn_coherence k) = Some (q, g)"
    "kernel_inv (k\<lparr>kn_ipc := i, kn_coherence := g\<rparr>)"
    using kernel_inv_communicate [OF inv1, of 1 "msg_sender m" "msg_receiver m"] room by auto
  with send inv inv1 show ?thesis
    by (cases r) (auto simp: kernel_ipc_send_def)
qed

lemma kernel_destroy_inv:
  assumes inv: "kernel_inv k"
  shows "\<exists>r k'. kernel_destroy_partition H p k = Some (r, k') \<and> kernel_inv k'"
proof (cases "pm_get p (kn_partitions k)")
  case (Some x)
  obtain m where m: "pm_remove p (kn_partitions k) = (Inr (), m)"
    using pm_remove_found [OF kernel_invD(2) [OF inv] Some] by blast
  obtain r e where e: "remove_partition p (kn_coherence k) = Some (r, e)"
    using remove_partition_inv [OF kernel_invD(9) [OF inv], of p] by blast
  show ?thesis
    using kernel_inv_remove [OF inv m e] Some m e inv
    by (auto simp: kernel_destroy_partition_def Let_def)
qed (use inv in \<open>simp add: kernel_destroy_partition_def\<close>)

lemma kernel_tick_inv:
  assumes inv: "kernel_inv k"
  shows "\<exists>r k'. kernel_tick H k = Some (r, k') \<and> kernel_inv k'"
proof (cases "kn_booted k")
  case True
  note D = kernel_invD [OF inv]
  obtain d e where e: "engine_tick builtin_compute_score 20 (kn_coherence k) = Some (d, e)"
    using engine_tick_inv [OF D(9)] by blast
  obtain x s where s: "tick_epoch (kn_scheduler k) = (x, s)" by (rule prod.exhaust)
  have "sched_inv DEFAULT_MAX_CPUS s"
    using D(3) s by (auto simp: tick_epoch_def Let_def sched_inv_def sched_queue_def split_beta)
  from kernel_inv_update(1) [OF inv this]
  have "kernel_inv (k\<lparr>kn_scheduler := s, kn_coherence := e\<rparr>)"
    using kernel_inv_update(7) [OF _ engine_reach.tick [OF D(4) e], of "k\<lparr>kn_scheduler := s\<rparr>"]
      engine_tick_ids [OF D(9) e] D(8) by (simp add: live_def)
  from kernel_inv_update(3) [OF this tier_reach.decay [OF tier_reach.epoch [OF D(6)]]]
  have inv1: "kernel_inv (k\<lparr>kn_scheduler := s, kn_coherence := e,
      kn_tier_manager := decay_recency RECENCY_DECAY_PER_EPOCH (tier_advance_epoch (kn_tier_manager k))\<rparr>)"
    (is "kernel_inv ?k1") by simp
  have "kernel_inv (sync_partition_scores ?k1)"
    using kernel_invD [OF inv1] sync_get [OF kernel_invD(2) [OF inv1]]
    by (simp add: kernel_inv_def boot_consistent_def live_def)
  with True e s show ?thesis by (simp add: kernel_tick_def Let_def)
qed (use inv in \<open>simp add: kernel_tick_def\<close>)

lemma apply_decision_inv:
  assumes inv: "kernel_inv k" and room: "pm_room (kn_partitions k)"
  shows "\<exists>r k'. apply_decision H d k = Some (r, k') \<and> kernel_inv k'"
proof (cases d)
  case (SplitRecommended p x)
  then show ?thesis
    using execute_split_inv [OF inv room, of H p] by (cases "execute_split H p k") (simp add: apply_decision_def)
next
  case (MergeRecommended p q x)
  then show ?thesis using execute_merge_inv [OF inv, of H p q] by (auto simp: apply_decision_def)
qed (use inv in \<open>simp add: apply_decision_def\<close>)

lemma kernel_step_component:
  assumes inv: "kernel_inv k" and room: "kernel_room 0 k"
  shows "kernel_inv (snd (kernel_boot H k))" "kernel_inv (snd (kernel_enqueue_partition cpu p u k))"
    "kernel_inv (snd (kernel_switch_next cpu k))" "kernel_inv (snd (kernel_create_channel H p q k))"
    "kernel_inv (snd (kernel_ipc_receive e k))" "kernel_inv (snd (kernel_destroy_channel H e k))"
    "kernel_inv (snd (kernel_register_region x t k))" "kernel_inv (snd (record_memory_access x k))"
    "kernel_inv (snd (update_region_cut_value x v k))" "kernel_inv (snd (promote_region H x t k))"
    "kernel_inv (snd (demote_region H x t k))" "kernel_inv (snd (kernel_register_device i k))"
    "kernel_inv (snd (grant_device_lease H dev p dur h k))" "kernel_inv (snd (revoke_device_lease H l k))"
    "kernel_inv (enter_degraded_mode H k)" "kernel_inv (exit_degraded_mode H k)"
proof -
  note D = kernel_invD [OF inv] and U = kernel_inv_update [OF inv]
  have R: "ipc_room (kn_ipc k)" "dlm_room (kn_devices k)" using room by (simp_all add: kernel_room_def)
  show "kernel_inv (snd (kernel_boot H k))"
    using inv by (simp add: kernel_boot_cases [OF D(1)] kernel_inv_def boot_consistent_def live_def)
  show "kernel_inv (snd (kernel_enqueue_partition cpu p u k))"
    using inv U(1) [OF enqueue_inv [OF D(3)]] by (simp add: kernel_enqueue_partition_def Let_def split_beta)
  show "kernel_inv (snd (kernel_switch_next cpu k))"
    using U(1) [OF switch_next_inv [OF D(3)]] by (simp add: kernel_switch_next_def split_beta)
  have "ipc_inv m" if "ipc_create_channel p q (kn_ipc k) = (r, m)" for r m
    using that ipc_create_Inl [OF D(5)] ipc_create_Inr(2) [OF D(5) R(1)] D(5) by (cases r) auto
  then show "kernel_inv (snd (kernel_create_channel H p q k))"
    using inv U(2) by (auto simp: kernel_create_channel_def split: prod.split sum.split)
  show "kernel_inv (snd (kernel_ipc_receive e k))"
    using inv U(2) [OF ipc_receive_inv [OF D(5)]] by (simp add: kernel_ipc_receive_def split_beta)
  have "ipc_inv m" if "ipc_destroy_channel e (kn_ipc k) = (r, m)" for r m
    using that ipc_destroy_Inl ipc_destroy_Inr(1) [OF D(5)] D(5) by (cases r) auto
  then show "kernel_inv (snd (kernel_destroy_channel H e k))"
    using inv U(2) by (auto simp: kernel_destroy_channel_def split: prod.split sum.split)
  show "kernel_inv (snd (kernel_register_region x t k))"
    using U(3) [OF tier_reach.register [OF D(6) surjective_pairing]]
    by (simp add: kernel_register_region_def split_beta)
  show "kernel_inv (snd (record_memory_access x k))"
    using U(3) [OF tier_reach.access [OF D(6) surjective_pairing]]
    by (simp add: record_memory_access_def split_beta)
  show "kernel_inv (snd (update_region_cut_value x v k))"
    using U(3) [OF tier_reach.cut [OF D(6) surjective_pairing]]
    by (simp add: update_region_cut_value_def split_beta)
  show "kernel_inv (snd (promote_region H x t k))"
    using U(3) [OF tier_reach.promote [OF D(6)]] by (auto simp: promote_region_def split: prod.split sum.split)
  show "kernel_inv (snd (demote_region H x t k))"
    using U(3) [OF tier_reach.demote [OF D(6)]] by (auto simp: demote_region_def split: prod.split sum.split)
  show "kernel_inv (snd (kernel_register_device i k))"
    using U(4) [OF dlm_reach.reg [OF D(7) surjective_pairing]]
    by (simp add: kernel_register_device_def split_beta)
  show "kernel_inv (snd (grant_device_lease H dev p dur h k))"
    using inv U(4) [OF dlm_reach.grant [OF D(7) R(2)]]
    by (auto simp: grant_device_lease_def Let_def split: prod.split sum.split)
  show "kernel_inv (snd (revoke_device_lease H l k))"
    using U(4) [OF dlm_reach.revoke [OF D(7)]] by (auto simp: revoke_device_lease_def split: prod.split sum.split)
  show "kernel_inv (enter_degraded_mode H k)"
    using U(1) [of "enter_degraded (kn_scheduler k)"] D(3)
    by (simp add: enter_degraded_mode_def enter_degraded_def sched_inv_def sched_queue_def)
  show "kernel_inv (exit_degraded_mode H k)"
    using U(1) [of "exit_degraded (kn_scheduler k)"] D(3)
    by (simp add: exit_degraded_mode_def exit_degraded_def sched_inv_def sched_queue_def)
qed

text \<open>Every call on a consistent kernel returns and keeps the kernel consistent.\<close>

lemma kernel_step_inv:
  assumes inv: "kernel_inv k" and room: "kernel_room (call_weight c) k"
  shows "\<exists>r k'. kernel_step H c k = Some (r, k') \<and> kernel_inv k'"
proof -
  have room0: "kernel_room 0 k" using room by (simp add: kernel_room_def)
  have lift: "\<exists>r k'. Some (reply f out) = Some (r, k') \<and> kernel_inv k'"
    if "kernel_inv (snd out)" for f :: "'b \<Rightarrow> kernel_reply" and out
    using that by (cases out) simp
  have lift_option: "\<exists>r k'. map_option (reply f) out = Some (r, k') \<and> kernel_inv k'"
    if "\<exists>r k'. out = Some (r, k') \<and> kernel_inv k'" for f :: "'b \<Rightarrow> kernel_reply" and out
    using that by auto
  note C = kernel_step_component [OF inv room0]
  have P: "pm_room (kn_partitions k)" using room by (simp add: kernel_room_def)
  show ?thesis
  proof (cases c)
    case KTick
    then show ?thesis using lift_option [OF kernel_tick_inv [OF inv]] by simp
  next
    case (KCommunicate p q w)
    then have "\<exists>r k'. kernel_record_communication p q w k = Some (r, k') \<and> kernel_inv k'"
      using kernel_inv_communicate [OF inv, of w p q] room inv
      by (auto simp: kernel_record_communication_def kernel_room_def split: sum.split)
    from lift_option [OF this] KCommunicate show ?thesis by simp
  next
    case (KCreate x)
    then show ?thesis using lift [OF kernel_create_inv [OF inv P]] by simp
  next
    case (KDestroy p)
    then show ?thesis using lift_option [OF kernel_destroy_inv [OF inv]] by simp
  next
    case (KApply d)
    then show ?thesis using lift_option [OF apply_decision_inv [OF inv P]] by simp
  next
    case (KSend e m x)
    then show ?thesis using lift_option [OF kernel_send_inv [OF inv]] room by (simp add: kernel_room_def)
  next
    case (KCheckedCreate x t)
    have "kernel_inv (snd (checked_create_partition H x t k))"
      using inv kernel_inv_update(5) [OF inv] kernel_create_inv [OF kernel_inv_update(5) [OF inv], of _ H x] P
      by (auto simp: checked_create_partition_def split: prod.split sum.split)
    with KCheckedCreate show ?thesis using lift by simp
  next
    case (KCheckedSend e m t)
    have "\<exists>r k'. checked_ipc_send H e m t k = Some (r, k') \<and> kernel_inv k'"
      using inv kernel_inv_update(5) [OF inv] kernel_send_inv [OF kernel_inv_update(5) [OF inv], of _ H e m "msg_sender m"]
        room KCheckedSend
      by (auto simp: checked_ipc_send_def kernel_room_def Let_def split: prod.split sum.split)
    from lift_option [OF this] KCheckedSend show ?thesis by simp
  next
    case (KSwitch cpu)
    then show ?thesis using C(3) [of cpu] by (simp add: split_beta)
  qed (use C in \<open>simp_all add: reply_split\<close>)
qed

section \<open>Reachable kernels\<close>

text \<open>
  The kernels that sequences of calls reach from a new one, with the records the calls left.  A call is
  made only while \<open>kernel_room\<close> holds: no counter of identifiers is exhausted and the edge weights sum up
  to less than \<open>2 ^ 64\<close>, which the code does not check.  The capability manager is lent out by
  \<open>cap_manager_mut\<close> and may change in any way.
\<close>

inductive kernel_reach :: "chain_hash \<Rightarrow> kernel \<Rightarrow> witness_record list \<Rightarrow> bool" for H where
  new: "kernel_reach H (kernel_new config) []"
| call: "kernel_reach H k rs \<Longrightarrow> kernel_room (call_weight c) k \<Longrightarrow> kernel_step H c k = Some (r, k') \<Longrightarrow>
    kernel_reach H k' (rs @ kernel_trail (kn_booted k) c r)"
| cap_manager: "kernel_reach H k rs \<Longrightarrow> kernel_reach H (k\<lparr>kn_cap_manager := m\<rparr>) rs"

lemma kernel_new_inv: "kernel_inv (kernel_new config)"
proof -
  have "graph_ids (kernel_new config) = {}"
    by (simp add: kernel_new_def engine_with_defaults_def engine_new_def node_ids_def graph_new_def
        set_map_filter_nth EMPTY_NODE_def set_eq_iff)
  moreover have "ipc_inv (ipc_new DEFAULT_MAX_IPC_CHANNELS DEFAULT_IPC_QUEUE_SIZE)"
    by (rule ipc_new_inv [of _ _ 4]) (simp_all add: DEFAULT_MAX_IPC_CHANNELS_def DEFAULT_IPC_QUEUE_SIZE_def)
  ultimately show ?thesis
    using engine_reach.new sched_new_inv pm_new_inv tier_reach.new dlm_reach.new
    by (simp add: kernel_inv_def boot_consistent_def kernel_new_def engine_with_defaults_def tier_new_def)
qed

lemma kernel_reach_inv: "kernel_reach H k rs \<Longrightarrow> kernel_inv k"
proof (induction rule: kernel_reach.induct)
  case (call k rs c r k')
  then show ?case using kernel_step_inv [OF call.IH call.hyps(2), of H] by auto
qed (simp_all add: kernel_new_inv kernel_inv_update(6))

lemma kernel_reach_log:
  "kernel_reach H k rs \<Longrightarrow> kn_witness_log k = append_all H rs (log_new DEFAULT_WITNESS_CAPACITY)"
proof (induction rule: kernel_reach.induct)
  case (call k rs c r k')
  have "append_all H (rs @ ts) l = append_all H ts (append_all H rs l)" for ts l
    by (simp add: append_all_def)
  with call kernel_step_log [OF kernel_invD(1) [OF kernel_reach_inv [OF call.hyps(1)]] call.hyps(3)]
  show ?case by simp
qed (simp_all add: kernel_new_def)

definition demo_booted :: "chain_hash \<Rightarrow> kernel" where
  "demo_booted H = snd (kernel_boot H kernel_with_defaults)"

lemma kernel_new_room: "kernel_room 0 (kernel_new config)"
  by (simp add: kernel_room_def kernel_new_def pm_new_def ipc_new_def dlm_new_def engine_with_defaults_def
      engine_new_def graph_new_def esum_def contrib_def EMPTY_EDGE_def map_replicate_const sum_list_replicate)

lemma demo_booted_facts:
  "kernel_boot H kernel_with_defaults = (Inr (), demo_booted H)" "kn_booted (demo_booted H)"
  "kernel_reach H (demo_booted H) boot_trail" "kernel_room 0 (demo_booted H)"
proof -
  let ?k = kernel_with_defaults
  have new: "boot_consistent ?k" "\<not> kn_booted ?k" "kernel_room 0 ?k" "kernel_reach H ?k []"
    using kernel_new_inv kernel_new_room kernel_reach.new
    by (simp_all add: kernel_with_defaults_def kernel_inv_def) (simp add: kernel_new_def)
  show run: "kernel_boot H ?k = (Inr (), demo_booted H)"
    using new(2) by (simp add: demo_booted_def kernel_boot_cases [OF new(1)])
  show "kn_booted (demo_booted H)" using new(2) by (simp add: demo_booted_def kernel_boot_cases [OF new(1)])
  show "kernel_reach H (demo_booted H) boot_trail"
    using kernel_reach.call [OF new(4), of KBoot "Inr RUnit" "demo_booted H"] new(3) run by simp
  show "kernel_room 0 (demo_booted H)"
    using new(2,3) by (simp add: demo_booted_def kernel_boot_cases [OF new(1)] kernel_room_def)
qed

section \<open>Properties\<close>

text \<open>
  C25.  Every action of the kernel is on record, and nothing else is.  After any sequence of calls on a new
  kernel, each made while the identifier counters and the weight sum have room, the witness log holds exactly the trails of the calls, in their order, chained and numbered
  from zero: each success that changes partitions, channels, tiers, leases or the mode leaves its
  record, a refused call leaves none, and a call behind the security gate leaves the verdict of the gate
  before the record of its action.  The ring keeps the last 256 of them.
\<close>

theorem kernel_trail_exact:
  assumes "kernel_reach H k rs" "length rs < 2 ^ 64"
  shows "wl_total_emitted (kn_witness_log k) = of_nat (length rs) \<and>
    length (wl_records (kn_witness_log k)) = DEFAULT_WITNESS_CAPACITY \<and>
    (\<forall>i\<in>{length rs - DEFAULT_WITNESS_CAPACITY..<length rs}.
       wl_records (kn_witness_log k) ! (i mod DEFAULT_WITNESS_CAPACITY) = stamp H i (rs ! i))"
proof -
  let ?hist = "map (\<lambda>i. stamp H i (rs ! i)) [0..<length rs]"
  have "map (\<lambda>(i, r). stamp H i r) (zip [0..<length rs] rs) = ?hist"
    by (intro nth_equalityI) simp_all
  moreover have "log_rep H (log_new DEFAULT_WITNESS_CAPACITY) []"
    by (rule log_new_rep) (simp_all add: DEFAULT_WITNESS_CAPACITY_def)
  ultimately have rep: "log_rep H (kn_witness_log k) ?hist"
    using plain_sink.emit_all_history [of H "log_new DEFAULT_WITNESS_CAPACITY" "[]" rs] assms(2)
    by (simp add: kernel_reach_log [OF assms(1)] append_all_emit)
  have "length (wl_records (kn_witness_log k)) = DEFAULT_WITNESS_CAPACITY"
    by (simp add: kernel_reach_log [OF assms(1)] append_all_records log_new_def)
  with rep show ?thesis by (simp add: log_rep_def)
qed

text \<open>
  C26.  While the identifier counters and the weight sum have room, every call to the kernel returns,
  whatever calls came before it, and the coherence graph never knows a partition that the partition
  manager does not know.
\<close>

theorem kernel_calls_return:
  assumes "kernel_reach H k rs" "kernel_room (call_weight c) k"
  shows "\<exists>r k'. kernel_step H c k = Some (r, k') \<and>
    set (node_ids (en_graph (kn_coherence k'))) \<subseteq> {p. pm_get p (kn_partitions k') \<noteq> None}"
  using kernel_step_inv [OF kernel_reach_inv [OF assms(1)] assms(2), of H] kernel_invD(8)
  unfolding live_def by blast

lemma active_entry_live:
  assumes "kernel_inv k" "en \<in> set (en_entries (kn_coherence k))" "pe_active en"
  shows "pe_id en \<in> live k"
proof -
  have "pe_id en \<in> set (entry_ids (en_entries (kn_coherence k)))"
    using assms(2,3) by (auto simp: entry_ids_def set_map_filter entry_id_def)
  then show ?thesis using engine_invD(6) [OF kernel_invD(9)] kernel_invD(8) assms(1) by blast
qed

lemma evaluate_merge_fields [simp]:
  "ms_partition_a (evaluate_merge a b g) = a" "ms_partition_b (evaluate_merge a b g) = b"
  by (simp_all add: evaluate_merge_def Let_def split: option.split)

lemma recommended_live:
  assumes inv: "kernel_inv k" and ok: "recommendation_ok (kn_coherence k) d"
  shows "d = SplitRecommended p x \<Longrightarrow> p \<in> live k"
    "d = MergeRecommended p q y \<Longrightarrow> p \<in> live k \<and> q \<in> live k \<and> p \<noteq> q"
proof -
  show "d = SplitRecommended p x \<Longrightarrow> p \<in> live k"
    using ok active_entry_live [OF inv] by (auto simp: recommendation_ok_def Let_def)
  assume "d = MergeRecommended p q y"
  then have "(p, q) \<in> set (entry_pairs (en_entries (kn_coherence k)))"
    using ok by (auto simp: recommendation_ok_def Let_def)
  from entry_pairs_distinct [OF kernel_invD(9) [OF inv] this]
  show "p \<in> live k \<and> q \<in> live k \<and> p \<noteq> q"
    using active_entry_live [OF inv] by blast
qed

text \<open>A tick: the decision is sound for the new state, and the partitions show the engine's values.\<close>

lemma kernel_tick_outcome:
  assumes inv: "kernel_inv k" and booted: "kn_booted k"
  shows "\<exists>x k'. kernel_tick H k = Some (Inr x, k') \<and> kernel_inv k' \<and> kn_booted k' \<and>
    recommendation_ok (kn_coherence k') (er_decision x) \<and> live k' = live k \<and>
    pm_next_id (kn_partitions k') = pm_next_id (kn_partitions k) \<and>
    (\<forall>p pt. pm_get p (kn_partitions k') = Some pt \<longrightarrow>
       pt_coherence pt = engine_score p (kn_coherence k') \<and> pt_cut_pressure pt = engine_pressure p (kn_coherence k'))"
proof -
  note D = kernel_invD [OF inv]
  obtain r k' where run: "kernel_tick H k = Some (r, k')" "kernel_inv k'"
    using kernel_tick_inv [OF inv] by blast
  obtain e where e: "engine_tick builtin_compute_score 20 (kn_coherence k) = Some (recommend e, e)" "engine_inv e"
    using engine_tick_inv [OF D(9), of builtin_compute_score 20] by blast
  obtain x s where s: "tick_epoch (kn_scheduler k) = (x, s)" by (rule prod.exhaust)
  define k1 where "k1 = k\<lparr>kn_scheduler := s, kn_coherence := e,
      kn_tier_manager := decay_recency RECENCY_DECAY_PER_EPOCH (tier_advance_epoch (kn_tier_manager k))\<rparr>"
  have k': "r = Inr \<lparr>er_summary = x, er_decision = recommend e\<rparr>"
    "k' = kernel_emit H (epoch_record x) (sync_partition_scores k1)"
    using run(1) booted e(1) s by (simp_all add: kernel_tick_def Let_def k1_def)
  have coh: "kn_coherence k1 = e" "kn_partitions k1 = kn_partitions k" by (simp_all add: k1_def)
  note S = sync_get [of k1, unfolded coh, OF D(2)]
  show ?thesis
    using run k' coh(1) recommend_ok [OF engine_invD(3) [OF e(2)]] S booted
    by (auto simp: k1_def live_def scored_def)
qed

lemma execute_split_outcome:
  assumes inv: "kernel_inv k" and room: "pm_room (kn_partitions k)" and booted: "kn_booted k" and p: "p \<in> live k"
  shows "execute_split H p k = (Inl PartitionLimitExceeded, k) \<or>
    (\<exists>c k'. execute_split H p k = (Inr c, k') \<and> c \<notin> live k \<and> live k' = insert c (live k))"
proof -
  note D = kernel_invD [OF inv]
  obtain x where x: "pm_get p (kn_partitions k) = Some x" using p by (auto simp: live_def)
  let ?epoch = "et_current_epoch (sc_epoch (kn_scheduler k))"
  obtain r m where run: "pm_create Agent (pt_vcpu_count x) ?epoch (kn_partitions k) = (r, m)"
    by (rule prod.exhaust)
  show ?thesis
  proof (cases r)
    case (Inl e)
    with run have "e = PartitionLimitExceeded" "m = kn_partitions k" using pm_create_Inl [OF D(2)] by blast+
    with Inl run x booted show ?thesis by (simp add: execute_split_def Let_def)
  next
    case (Inr c)
    with run have "pm_get c (kn_partitions k) = None"
      "\<And>q. pm_get q m = (if q = c then Some (partition_new c Agent (pt_vcpu_count x) ?epoch) else pm_get q (kn_partitions k))"
      using pm_create_get(2,3) [OF D(2) room] by blast+
    with Inr run x booted show ?thesis by (auto simp: execute_split_def Let_def live_def)
  qed
qed

lemma execute_merge_outcome:
  assumes inv: "kernel_inv k" and booted: "kn_booted k" and pq: "p \<in> live k" "q \<in> live k"
  shows "execute_merge H p q k = Some (Inl InvalidPartitionState, k) \<or>
    (\<exists>k'. execute_merge H p q k = Some (Inr p, k') \<and> live k' = live k \<and> graph_ids k' = graph_ids k - {q})"
proof -
  obtain r e where e: "remove_partition q (kn_coherence k) = Some (r, e)"
    using remove_partition_inv [OF kernel_invD(9) [OF inv], of q] by blast
  with pq booted remove_partition_ids [OF kernel_invD(9) [OF inv] e] show ?thesis
    by (cases "merge_preconditions_met (engine_score p (kn_coherence k)) (engine_score q (kn_coherence k))")
      (auto simp: execute_merge_def live_def)
qed

text \<open>
  C27.  An epoch's decision can be carried out.  A tick on a reachable, booted kernel whose counters have room publishes the engine's
  scores and pressures to every partition.  Applying its decision at once fails in two cases only: a
  split when all 256 partition slots are taken, and a merge when a score is below the threshold.  A
  split adds one new partition.  A merge removes the absorbed partition from the coherence graph, but
  it does not destroy it: both partitions are still in the partition manager.
\<close>

theorem tick_decision_applicable:
  assumes "kernel_reach H k rs" "kernel_room 0 k" "kn_booted k"
  shows "\<exists>x k1. kernel_tick H k = Some (Inr x, k1) \<and>
    (\<forall>p pt. pm_get p (kn_partitions k1) = Some pt \<longrightarrow>
       pt_coherence pt = engine_score p (kn_coherence k1) \<and> pt_cut_pressure pt = engine_pressure p (kn_coherence k1)) \<and>
    (case er_decision x of
       NoAction \<Rightarrow> apply_decision H (er_decision x) k1 = Some (Inr AppliedNothing, k1)
     | SplitRecommended p _ \<Rightarrow>
         apply_decision H (er_decision x) k1 = Some (Inl PartitionLimitExceeded, k1) \<or>
         (\<exists>c k2. apply_decision H (er_decision x) k1 = Some (Inr (AppliedSplit p c), k2) \<and>
            c \<notin> live k1 \<and> live k2 = insert c (live k1))
     | MergeRecommended p q _ \<Rightarrow>
         p \<noteq> q \<and>
         (apply_decision H (er_decision x) k1 = Some (Inl InvalidPartitionState, k1) \<or>
          (\<exists>k2. apply_decision H (er_decision x) k1 = Some (Inr (AppliedMerge p q), k2) \<and>
             p \<in> live k2 \<and> q \<in> live k2 \<and> live k2 = live k1 \<and> q \<notin> set (node_ids (en_graph (kn_coherence k2))))))"
proof -
  obtain x k1 where t: "kernel_tick H k = Some (Inr x, k1)" "kernel_inv k1" "kn_booted k1"
    "recommendation_ok (kn_coherence k1) (er_decision x)" "pm_next_id (kn_partitions k1) = pm_next_id (kn_partitions k)"
    "\<forall>p pt. pm_get p (kn_partitions k1) = Some pt \<longrightarrow>
       pt_coherence pt = engine_score p (kn_coherence k1) \<and> pt_cut_pressure pt = engine_pressure p (kn_coherence k1)"
    using kernel_tick_outcome [OF kernel_reach_inv [OF assms(1)] assms(3), of H] by blast
  have room: "pm_room (kn_partitions k1)" using assms(2) t(5) by (simp add: kernel_room_def)
  note L = recommended_live [OF t(2,4)]
  show ?thesis
  proof (intro exI [of _ x] exI [of _ k1] conjI t(1,6), cases "er_decision x", goal_cases)
    case 1
    then show ?case by (simp add: apply_decision_def)
  next
    case (2 p y)
    then show ?case using execute_split_outcome [OF t(2) room t(3) L(1) [OF 2], of H]
      by (auto simp: apply_decision_def)
  next
    case (3 p q y)
    then show ?case
      using execute_merge_outcome [OF t(2,3), of p q H] L(2) [OF 3] by (auto simp: apply_decision_def)
  qed
qed

theorem kernel_trail_exact_witness:
  "wl_total_emitted (kn_witness_log (demo_booted compute_chain_hash_fnv)) = 7 \<and>
   wl_records (kn_witness_log (demo_booted compute_chain_hash_fnv)) ! 6 = stamp compute_chain_hash_fnv 6 (boot_record Handoff)"
  using kernel_trail_exact [OF demo_booted_facts(3), where H = compute_chain_hash_fnv]
  by (simp add: boot_trail_def phase_all_def DEFAULT_WITNESS_CAPACITY_def)

theorem kernel_calls_return_witness:
  "\<exists>r k'. kernel_step compute_chain_hash_fnv (KCreate partition_config_default) (demo_booted compute_chain_hash_fnv) = Some (r, k') \<and>
    set (node_ids (en_graph (kn_coherence k'))) \<subseteq> {p. pm_get p (kn_partitions k') \<noteq> None}"
  by (rule kernel_calls_return [OF demo_booted_facts(3)]) (simp add: demo_booted_facts(4))

theorem tick_decision_applicable_witness:
  "\<exists>x k1. kernel_tick compute_chain_hash_fnv (demo_booted compute_chain_hash_fnv) = Some (Inr x, k1)"
  using tick_decision_applicable [OF demo_booted_facts(3,4,2), where H = compute_chain_hash_fnv] by blast

text \<open>
  Destroying a partition removes it, and only it, from the partition manager and from the coherence
  graph, and leaves one record.  It does not reclaim the partition's resources: the channels with their
  queued messages, the run queues and the device leases are what they were.  Identifiers that are
  unknown and partitions that were already destroyed are refused without any change.
\<close>

theorem destroy_partition_effect:
  assumes "kernel_reach H k rs" "kn_booted k"
  shows "\<exists>r k1. kernel_destroy_partition H p k = Some (r, k1) \<and>
    (case pm_get p (kn_partitions k) of
       None \<Rightarrow> r = Inl PartitionNotFound \<and> k1 = k
     | Some pt \<Rightarrow>
         (if pt_state pt = Destroyed then r = Inl InvalidPartitionState \<and> k1 = k
          else r = Inr () \<and> (\<forall>q. pm_get q (kn_partitions k1) = (if q = p then None else pm_get q (kn_partitions k))) \<and>
            set (node_ids (en_graph (kn_coherence k1))) = set (node_ids (en_graph (kn_coherence k))) - {p} \<and>
            kn_ipc k1 = kn_ipc k \<and> kn_scheduler k1 = kn_scheduler k \<and> kn_devices k1 = kn_devices k \<and>
            kn_witness_log k1 =
              snd (log_append H (kernel_record PartitionDestroy HYPERVISOR (ucast p)) (kn_witness_log k))))"
proof (cases "pm_get p (kn_partitions k)")
  case None
  then show ?thesis using assms(2) by (simp add: kernel_destroy_partition_def)
next
  case (Some pt)
  note D = kernel_invD [OF kernel_reach_inv [OF assms(1)]]
  obtain m where m: "pm_remove p (kn_partitions k) = (Inr (), m)"
    using pm_remove_found [OF D(2) Some] by blast
  obtain r e where e: "remove_partition p (kn_coherence k) = Some (r, e)"
    using remove_partition_inv [OF D(9), of p] by blast
  have "valid_transition s Destroyed \<longleftrightarrow> s \<noteq> Destroyed" for s by (cases s) simp_all
  then show ?thesis
    using Some m e assms(2) pm_remove_get(1) [OF D(2) m] remove_partition_ids [OF D(9) e]
    by (simp add: kernel_destroy_partition_def Let_def kernel_emit_def)
qed

definition demo_created :: "chain_hash \<Rightarrow> kernel" where
  "demo_created H = snd (kernel_create_partition H partition_config_default (demo_booted H))"

lemma demo_created_facts:
  "kernel_reach H (demo_created H) (boot_trail @ [kernel_record PartitionCreate HYPERVISOR 1])"
  "kn_booted (demo_created H)" "pm_get 1 (kn_partitions (demo_created H)) = Some (partition_new 1 Agent 1 0)"
proof -
  have parts: "kn_partitions (demo_booted H) = pm_new" "et_current_epoch (sc_epoch (kn_scheduler (demo_booted H))) = 0"
    using kernel_boot_cases [OF kernel_invD(1) [OF kernel_new_inv], of H kernel_config_default]
    by (simp_all add: demo_booted_def kernel_with_defaults_def)
      (simp_all add: kernel_new_def sched_new_def epoch_new_def)
  have run: "fst (kernel_create_partition H partition_config_default (demo_booted H)) = Inr 1"
    "kn_booted (demo_created H)" "pm_create Agent 1 0 pm_new = (Inr 1, kn_partitions (demo_created H))"
    by (simp_all add: demo_created_def kernel_create_partition_def demo_booted_facts(2) parts pm_new_create
        partition_config_default_def)
  then show "kn_booted (demo_created H)" "pm_get 1 (kn_partitions (demo_created H)) = Some (partition_new 1 Agent 1 0)"
    using pm_create_get(3) [OF pm_new_inv _ run(3), of 1] by (simp_all add: pm_new_def)
  have "kernel_step H (KCreate partition_config_default) (demo_booted H) = Some (Inr (RPartition 1), demo_created H)"
    using run(1) by (simp add: reply_split demo_created_def)
  from kernel_reach.call [OF demo_booted_facts(3) _ this] demo_booted_facts(4)
  show "kernel_reach H (demo_created H) (boot_trail @ [kernel_record PartitionCreate HYPERVISOR 1])" by simp
qed

theorem destroy_partition_effect_witness:
  "\<exists>k1. kernel_destroy_partition compute_chain_hash_fnv 1 (demo_created compute_chain_hash_fnv) = Some (Inr (), k1) \<and>
     pm_get 1 (kn_partitions k1) = None \<and> kn_scheduler k1 = kn_scheduler (demo_created compute_chain_hash_fnv)"
  using destroy_partition_effect [OF demo_created_facts(1,2), where p = 1 and H = compute_chain_hash_fnv] demo_created_facts(3)
  by (auto simp: partition_new_def)

text \<open>
  What a send on behalf of \<open>caller\<close> must do: refuse and leave the channels alone, or append the message
  to one queue and count the traffic.  Nothing outside channels, graph and log changes.
\<close>

definition kernel_send_spec ::
    "comm_edge_id \<Rightarrow> ipc_message \<Rightarrow> partition_id \<Rightarrow> kernel \<Rightarrow> rvm_error + unit \<Rightarrow> kernel \<Rightarrow> bool" where
  "kernel_send_spec e m caller k r k' \<longleftrightarrow>
     kn_partitions k' = kn_partitions k \<and> kn_scheduler k' = kn_scheduler k \<and>
     kn_tier_manager k' = kn_tier_manager k \<and> kn_devices k' = kn_devices k \<and>
     kn_cap_manager k' = kn_cap_manager k \<and> kn_booted k' = kn_booted k \<and>
     (let refused = (\<lambda>err. r = Inl err \<and> kn_ipc k' = kn_ipc k \<and> kn_coherence k' = kn_coherence k) in
      if msg_sender m \<noteq> caller then refused InsufficientCapability
      else case ipc_find e (kn_ipc k) of
        Inl _ \<Rightarrow> refused PartitionNotFound
      | Inr ch \<Rightarrow>
          if ch_source ch \<noteq> caller then refused InsufficientCapability
          else if length (mq_contents (ch_queue ch)) \<ge> ipc_queue_size (kn_ipc k) then refused ResourceLimitExceeded
          else r = Inr () \<and>
            (\<exists>ch'. ipc_find e (kn_ipc k') = Inr ch' \<and> ch_source ch' = ch_source ch \<and>
               mq_contents (ch_queue ch') = mq_contents (ch_queue ch) @ [m] \<and>
               ch_weight ch' = saturating_add (ch_weight ch) 1) \<and>
            (\<forall>x. x \<noteq> e \<longrightarrow> ipc_find x (kn_ipc k') = ipc_find x (kn_ipc k)) \<and>
            (\<exists>q. record_communication (msg_sender m) (msg_receiver m) 1 (kn_coherence k) = Some (q, kn_coherence k')))"

lemma kernel_send_spec_log:
  "kernel_send_spec e m c (k\<lparr>kn_witness_log := l\<rparr>) r k' \<longleftrightarrow> kernel_send_spec e m c k r k'"
  by (simp add: kernel_send_spec_def Let_def split: sum.split)

lemma kernel_send_effect:
  assumes inv: "kernel_inv k" "kn_booted k" and room: "weight_sum (cg_edges (en_graph (kn_coherence k))) + 1 < 2 ^ 64"
  shows "\<exists>r k'. kernel_ipc_send H e m c k = Some (r, k') \<and> kernel_send_spec e m c k r k'"
proof -
  obtain q g where rec: "record_communication (msg_sender m) (msg_receiver m) 1 (kn_coherence k) = Some (q, g)"
    using record_communication_inv [OF kernel_invD(9) [OF inv(1)], of 1 "msg_sender m" "msg_receiver m"] room by auto
  note cases = ipc_send_cases [OF kernel_invD(5) [OF inv(1)], of e m c]
  show ?thesis
  proof (cases "ipc_send e m c (kn_ipc k)")
    case (Pair x i)
    show ?thesis
    proof (cases x)
      case (Inl err)
      then have "kernel_ipc_send H e m c k = Some (Inl err, k\<lparr>kn_ipc := i\<rparr>)"
        using Pair inv(2) by (simp add: kernel_ipc_send_def)
      moreover have "kernel_send_spec e m c k (Inl err) (k\<lparr>kn_ipc := i\<rparr>)"
        using cases Pair Inl by (auto simp: kernel_send_spec_def Let_def split: sum.splits if_splits)
      ultimately show ?thesis by blast
    next
      case (Inr u)
      let ?k = "kernel_emit H (kernel_record IpcSend (msg_sender m) (ucast (msg_receiver m)))
        (k\<lparr>kn_ipc := i, kn_coherence := g\<rparr>)"
      have "kernel_ipc_send H e m c k = Some (Inr (), ?k)"
        using Pair Inr inv(2) rec by (simp add: kernel_ipc_send_def)
      moreover have "kernel_send_spec e m c k (Inr ()) ?k"
        using cases Pair Inr rec unfolding kernel_send_spec_def
        by (auto simp: Let_def kernel_emit_def split: sum.splits if_splits)
      ultimately show ?thesis by blast
    qed
  qed
qed

text \<open>
  C28.  Every outcome of a gated send on a reachable, booted kernel whose counters have room.  The call
  returns, leaves the verdict of the gate in the log, and changes no partition, run queue, tier or
  lease.  A token without \<open>WRITE\<close> on partitions is refused and nothing is sent.  With such a token the
  send is judged on behalf of the sender that the message itself names, the holder of the token is
  never compared with it: the send is refused, without a change of any channel, when the channel does
  not exist, when that sender is not the channel's source, or when the queue is full; otherwise the
  message is appended to the channel's queue, the traffic is counted under the named sender, and every
  other channel is as before.
\<close>

theorem checked_send_outcome:
  assumes "kernel_reach H k rs" "kernel_room 1 k" "kn_booted k"
  shows "\<exists>r k'. checked_ipc_send H e m t k = Some (r, k') \<and>
    kn_witness_log k' = append_all H (gate_trail (write_request t IpcSend (ucast (msg_receiver m))) #
      send_trail m (map_sum (\<lambda>e. e) unit_reply r)) (kn_witness_log k) \<and>
    (if tok_type t = CapPartition \<and> has_rights t WRITE then kernel_send_spec e m (msg_sender m) k r k'
     else r = Inl InsufficientCapability \<and> (\<exists>l. k' = k\<lparr>kn_witness_log := l\<rparr>))"
proof -
  obtain q l where g: "check_and_execute H (write_request t IpcSend (ucast (msg_receiver m))) (kn_witness_log k) = (q, l)"
    by (rule prod.exhaust)
  note w = gate_write [OF g]
  show ?thesis
  proof (cases "may_write t")
    case True
    then obtain y where q: "q = Inr y" using w by blast
    let ?k = "k\<lparr>kn_witness_log := l\<rparr>"
    have inv: "kernel_inv ?k" using kernel_reach_inv [OF assms(1)] by (simp add: kernel_inv_def boot_consistent_def live_def)
    obtain r k' where send: "kernel_ipc_send H e m (msg_sender m) ?k = Some (r, k')"
      "kernel_send_spec e m (msg_sender m) ?k r k'"
      using kernel_send_effect [OF inv, of H e m "msg_sender m"] assms(2,3) by (auto simp: kernel_room_def)
    have "kernel_send_spec e m (msg_sender m) k r k'" using send(2) by (rule kernel_send_spec_log [THEN iffD1])
    moreover have "kn_witness_log k' = append_all H (send_trail m (map_sum (\<lambda>e. e) unit_reply r)) l"
      using kernel_send_log [OF send(1)] by simp
    ultimately show ?thesis using True send(1) g q w assms(3)
      by (simp add: checked_ipc_send_def Let_def may_write_def)
  next
    case False
    then obtain x where "q = Inl x" using w by (cases q) auto
    then show ?thesis using False g w assms(3) by (auto simp: checked_ipc_send_def may_write_def)
  qed
qed

text \<open>
  A second partition and a channel from partition 1 to it; the capability of partition 2 that writes to
  partitions, and a message that it sends in the name of partition 1.
\<close>

definition demo_linked :: "chain_hash \<Rightarrow> kernel" where
  "demo_linked H =
     snd (kernel_create_channel H 1 2 (snd (kernel_create_partition H partition_config_default (demo_created H))))"

definition demo_writer :: cap_manager where
  "demo_writer = snd (create_root_capability CapPartition WRITE 0 2 (manager_new (Suc (Suc 0)) cap_manager_config_new))"

definition forged_msg :: ipc_message where
  "forged_msg = \<lparr>msg_sender = 1, msg_receiver = 2, msg_edge_id = 1, msg_payload_len = 0, msg_type = 0,
     msg_sequence = 0, msg_capability_hash = 0\<rparr>"

lemma demo_linked_facts:
  "\<exists>rs. kernel_reach H (demo_linked H) rs" "kn_booted (demo_linked H)" "kernel_room 1 (demo_linked H)"
  "ipc_find 1 (kn_ipc (demo_linked H)) =
     Inr \<lparr>ch_edge_id = 1, ch_source = 1, ch_dest = 2, ch_queue = mq_new DEFAULT_IPC_QUEUE_SIZE, ch_weight = 0\<rparr>"
  "ipc_queue_size (kn_ipc (demo_linked H)) = DEFAULT_IPC_QUEUE_SIZE"
proof -
  let ?new = "ipc_new DEFAULT_MAX_IPC_CHANNELS DEFAULT_IPC_QUEUE_SIZE" and ?k1 = "demo_created H"
  let ?k2 = "snd (kernel_create_partition H partition_config_default ?k1)"
  have b: "kn_partitions (demo_booted H) = pm_new" "kn_ipc (demo_booted H) = ?new"
      "et_current_epoch (sc_epoch (kn_scheduler (demo_booted H))) = 0"
      "kn_devices (demo_booted H) = kn_devices kernel_with_defaults"
      "cg_edges (en_graph (kn_coherence (demo_booted H))) = cg_edges (en_graph (kn_coherence kernel_with_defaults))"
    using kernel_boot_cases [OF kernel_invD(1) [OF kernel_new_inv], of H kernel_config_default]
    by (simp_all add: demo_booted_def kernel_with_defaults_def)
      (simp_all add: kernel_new_def sched_new_def epoch_new_def)
  have room0: "kernel_room 1 kernel_with_defaults"
    unfolding kernel_with_defaults_def
    by (simp add: kernel_room_def kernel_new_def pm_new_def ipc_new_def dlm_new_def engine_with_defaults_def
      engine_new_def graph_new_def esum_def contrib_def EMPTY_EDGE_def map_replicate_const sum_list_replicate)
  have k1: "kn_partitions ?k1 = snd (pm_create Agent 1 0 pm_new)" "kn_ipc ?k1 = ?new"
      "kn_devices ?k1 = kn_devices kernel_with_defaults"
      "cg_edges (en_graph (kn_coherence ?k1)) = cg_edges (en_graph (kn_coherence kernel_with_defaults))"
    by (simp_all add: demo_created_def kernel_create_partition_def demo_booted_facts(2) b pm_new_create
        partition_config_default_def)
  have inv1: "pm_inv (kn_partitions ?k1)"
    using kernel_invD(2) [OF kernel_reach_inv [OF demo_created_facts(1)]] .
  have slot: "position (\<lambda>s. s = None) ((replicate MAX_PARTITIONS None)[0 := Some (partition_new 1 Agent 1 0)]) = Some 1"
  proof -
    have "MAX_PARTITIONS = Suc (Suc 254)" by (simp add: MAX_PARTITIONS_def)
    then obtain n where n: "MAX_PARTITIONS = Suc (Suc n)" by blast
    show ?thesis unfolding n by simp
  qed
  have parts: "kn_partitions ?k1 =
      pm_new\<lparr>pm_partitions := (replicate MAX_PARTITIONS None)[0 := Some (partition_new 1 Agent 1 0)],
        pm_count := 1, pm_next_id := 2, pm_id_to_slot := (replicate ID_INDEX_SIZE None)[1 := Some 0]\<rparr>"
    using k1(1) by (simp add: pm_new_create)
  obtain m where m: "pm_create Agent (cf_vcpu_count partition_config_default)
      (et_current_epoch (sc_epoch (kn_scheduler ?k1))) (kn_partitions ?k1) = (Inr 2, m)" "pm_next_id m = 3"
  proof -
    have "\<not> MAX_PARTITIONS \<le> 1" by (simp add: MAX_PARTITIONS_def)
    then show thesis using that slot by (simp add: pm_create_def parts pm_new_def Let_def)
  qed
  have g: "pm_get 1 m \<noteq> None" "pm_get 2 m \<noteq> None"
  proof -
    have "pm_room (kn_partitions ?k1)" by (simp add: parts)
    note get = pm_create_get(3) [OF inv1 this m(1)]
    show "pm_get 1 m \<noteq> None" "pm_get 2 m \<noteq> None"
      unfolding get demo_created_facts(3) by simp_all
  qed
  have k2: "kernel_create_partition H partition_config_default ?k1 = (Inr 2, ?k2)" "kn_partitions ?k2 = m"
      "kn_ipc ?k2 = ?new" "kn_devices ?k2 = kn_devices kernel_with_defaults" "kn_booted ?k2"
      "cg_edges (en_graph (kn_coherence ?k2)) = cg_edges (en_graph (kn_coherence kernel_with_defaults))"
    using m by (simp_all add: kernel_create_partition_def demo_created_facts(2) k1)
  have rooms: "kernel_room 1 ?k1" "kernel_room 1 ?k2"
    using room0 m(2) by (simp_all add: kernel_room_def parts k1(2-4) k2(2-4,6) ipc_new_def)
  obtain i where i: "ipc_create_channel 1 2 ?new = (Inr 1, i)" "ipc_next_edge_id i = 2"
      "ipc_queue_size i = DEFAULT_IPC_QUEUE_SIZE"
    by (simp add: ipc_create_channel_def ipc_new_def position_replicate_iff DEFAULT_MAX_IPC_CHANNELS_def)
  have chan: "kernel_create_channel H 1 2 ?k2 =
      (Inr 1, kernel_emit H (kernel_record CommEdgeCreate 1 (ucast (2 :: u32))) (?k2\<lparr>kn_ipc := i\<rparr>))"
    unfolding kernel_create_channel_def k2(2,3) i(1) using g k2(5) by simp
  then have linked: "demo_linked H = kernel_emit H (kernel_record CommEdgeCreate 1 (ucast (2 :: u32))) (?k2\<lparr>kn_ipc := i\<rparr>)"
    unfolding demo_linked_def by simp
  have run: "kernel_create_channel H 1 2 ?k2 = (Inr 1, demo_linked H)" "kn_ipc (demo_linked H) = i"
    unfolding linked chan by simp_all
  have f: "fst (kernel_create_partition H partition_config_default ?k1) = Inr 2"
    "fst (kernel_create_channel H 1 2 ?k2) = Inr 1"
    using arg_cong [OF k2(1), of fst] arg_cong [OF run(1), of fst] by simp_all
  have "kernel_step H (KCreate partition_config_default) ?k1 = Some (Inr (RPartition 2), ?k2)"
    "kernel_step H (KCreateChannel 1 2) ?k2 = Some (Inr (REdge 1), demo_linked H)"
    using f by (simp_all add: reply_split demo_linked_def)
  note calls = kernel_reach.call [OF kernel_reach.call [OF demo_created_facts(1) _ this(1)] _ this(2)]
  have "kernel_room (call_weight (KCreate partition_config_default)) ?k1" "kernel_room (call_weight (KCreateChannel 1 2)) ?k2"
    using rooms by (simp_all add: kernel_room_def)
  then show "\<exists>rs. kernel_reach H (demo_linked H) rs" using calls by blast
  show "kn_booted (demo_linked H)" "kernel_room 1 (demo_linked H)" "ipc_queue_size (kn_ipc (demo_linked H)) = DEFAULT_IPC_QUEUE_SIZE"
    unfolding linked using i k2(5) rooms(2) by (simp_all add: kernel_room_def)
  have "ipc_inv ?new" by (rule ipc_new_inv [of _ _ 4]) (simp_all add: DEFAULT_MAX_IPC_CHANNELS_def DEFAULT_IPC_QUEUE_SIZE_def)
  from ipc_create_Inr(5) [OF this _ i(1), of 1]
  show "ipc_find 1 (kn_ipc (demo_linked H)) =
     Inr \<lparr>ch_edge_id = 1, ch_source = 1, ch_dest = 2, ch_queue = mq_new DEFAULT_IPC_QUEUE_SIZE, ch_weight = 0\<rparr>"
    by (simp add: run(2) ipc_new_def)
qed

theorem checked_send_outcome_witness:
  "\<exists>s r k' ch. table_lookup 0 1 (cm_table demo_writer) = Inr s \<and> cs_owner s = 2 \<and>
     checked_ipc_send compute_chain_hash_fnv 1 forged_msg (cs_token s) (demo_linked compute_chain_hash_fnv) = Some (Inr r, k') \<and>
     ipc_find 1 (kn_ipc k') = Inr ch \<and> ch_source ch = 1 \<and> mq_contents (ch_queue ch) = [forged_msg]"
proof -
  let ?k = "demo_linked compute_chain_hash_fnv"
  obtain rs where reach: "kernel_reach compute_chain_hash_fnv ?k rs" using demo_linked_facts(1) by blast
  obtain s where s: "table_lookup 0 1 (cm_table demo_writer) = Inr s" "cs_owner s = 2"
      "tok_type (cs_token s) = CapPartition \<and> has_rights (cs_token s) WRITE"
    by (simp add: demo_writer_def manager_eval has_rights_def rights_contains_def WRITE_def)
  have "mq_contents (mq_new n) = []" for n by (simp add: mq_contents_def mq_new_def)
  with checked_send_outcome [OF reach demo_linked_facts(3,2), of 1 forged_msg "cs_token s"] s(3)
  obtain r k' ch where "checked_ipc_send compute_chain_hash_fnv 1 forged_msg (cs_token s) ?k = Some (Inr r, k')"
    "ipc_find 1 (kn_ipc k') = Inr ch" "ch_source ch = 1" "mq_contents (ch_queue ch) = [forged_msg]"
    by (auto simp: kernel_send_spec_def demo_linked_facts(4,5) forged_msg_def DEFAULT_IPC_QUEUE_SIZE_def)
  with s show ?thesis by blast
qed

end
