(* ===== verification/Wasm_Module.thy ===== *)
theory Wasm_Module
  imports Rvm_Types
begin

text \<open>
  Crate \<open>rvm-wasm\<close>: the framing check of a WebAssembly module (\<open>lib.rs\<close>) and the import policy
  (\<open>module_policy.rs\<close>).  A module is a list of bytes and a position an index of it.  The check is
  proved equivalent to a grammar of modules.
\<close>

section \<open>Sections\<close>

definition MAX_MODULE_SIZE :: nat where "MAX_MODULE_SIZE = 1024 * 1024"

datatype wasm_module_state = ModLoaded | ModValidated | ModRunning | ModTerminated

record wasm_module_info =
  wm_partition :: partition_id
  wm_state :: wasm_module_state
  wm_size_bytes :: u32
  wm_export_count :: u16
  wm_import_count :: u16

datatype wasm_section_id =
    SecCustom | SecType | SecImport | SecFunction | SecTable | SecMemory | SecGlobal | SecExport
  | SecStart | SecElement | SecCode | SecData | SecDataCount | SecTag

fun section_byte :: "wasm_section_id \<Rightarrow> u8" where
  "section_byte SecCustom = 0" | "section_byte SecType = 1" | "section_byte SecImport = 2"
| "section_byte SecFunction = 3" | "section_byte SecTable = 4" | "section_byte SecMemory = 5"
| "section_byte SecGlobal = 6" | "section_byte SecExport = 7" | "section_byte SecStart = 8"
| "section_byte SecElement = 9" | "section_byte SecCode = 10" | "section_byte SecData = 11"
| "section_byte SecDataCount = 12" | "section_byte SecTag = 13"

fun order_rank :: "wasm_section_id \<Rightarrow> u8" where
  "order_rank SecCustom = 0" | "order_rank SecType = 1" | "order_rank SecImport = 2"
| "order_rank SecFunction = 3" | "order_rank SecTable = 4" | "order_rank SecMemory = 5"
| "order_rank SecTag = 6" | "order_rank SecGlobal = 7" | "order_rank SecExport = 8"
| "order_rank SecStart = 9" | "order_rank SecElement = 10" | "order_rank SecDataCount = 11"
| "order_rank SecCode = 12" | "order_rank SecData = 13"

definition section_from_u8 :: "u8 \<Rightarrow> wasm_section_id option" where
  "section_from_u8 b =
     (if b = 0 then Some SecCustom else if b = 1 then Some SecType else if b = 2 then Some SecImport
      else if b = 3 then Some SecFunction else if b = 4 then Some SecTable else if b = 5 then Some SecMemory
      else if b = 6 then Some SecGlobal else if b = 7 then Some SecExport else if b = 8 then Some SecStart
      else if b = 9 then Some SecElement else if b = 10 then Some SecCode else if b = 11 then Some SecData
      else if b = 12 then Some SecDataCount else if b = 13 then Some SecTag else None)"

record wasm_validation_result =
  wv_section_count :: u16
  wv_has_type :: bool
  wv_has_function :: bool
  wv_has_memory :: bool
  wv_has_export :: bool
  wv_has_code :: bool
  wv_total_payload_bytes :: u32

definition wasm_validation_default :: wasm_validation_result where
  "wasm_validation_default =
     \<lparr>wv_section_count = 0, wv_has_type = False, wv_has_function = False, wv_has_memory = False,
      wv_has_export = False, wv_has_code = False, wv_total_payload_bytes = 0\<rparr>"

section \<open>Integers in LEB128\<close>

fun leb_loop :: "u8 list \<Rightarrow> nat \<Rightarrow> nat list \<Rightarrow> nat \<Rightarrow> nat \<Rightarrow> u32 \<Rightarrow> rvm_error + u32 \<times> nat" where
  "leb_loop bytes start [] pos shift result = Inl ProofInvalid"
| "leb_loop bytes start (i # is) pos shift result =
     (if pos \<ge> length bytes then Inl ProofInvalid
      else
        let byte = bytes ! pos; pos = pos + 1 in
        if i = 4 \<and> byte > 0x0F then Inl ProofInvalid
        else
          let result = result OR push_bit shift (ucast (byte AND 0x7F)) in
          if byte AND 0x80 = 0 then Inr (result, pos - start)
          else leb_loop bytes start is pos (shift + 7) result)"

definition read_leb128_u32 :: "u8 list \<Rightarrow> nat \<Rightarrow> rvm_error + u32 \<times> nat" where
  "read_leb128_u32 bytes start = leb_loop bytes start [0..<5] start 0 0"

section \<open>The framing check\<close>

text \<open>The order of a section after the last rank and the sections seen: the new values of both.\<close>

definition check_order ::
    "wasm_section_id \<Rightarrow> u8 \<Rightarrow> u8 option \<Rightarrow> u16 \<Rightarrow> (u8 option \<times> u16) option" where
  "check_order section_id section_id_byte last_non_custom_rank seen_sections =
     (if section_id \<noteq> SecCustom then
        (if (case last_non_custom_rank of Some l \<Rightarrow> order_rank section_id \<le> l | None \<Rightarrow> False) then None
         else
           let b = push_bit (unat section_id_byte) 1 in
           if seen_sections AND b \<noteq> 0 then None
           else Some (Some (order_rank section_id), seen_sections OR b))
      else Some (last_non_custom_rank, seen_sections))"

definition note_section ::
    "wasm_section_id \<Rightarrow> u32 \<Rightarrow> wasm_validation_result \<Rightarrow> wasm_validation_result" where
  "note_section section_id section_size result =
     (let result =
        (case section_id of
           SecType \<Rightarrow> result\<lparr>wv_has_type := True\<rparr>
         | SecFunction \<Rightarrow> result\<lparr>wv_has_function := True\<rparr>
         | SecMemory \<Rightarrow> result\<lparr>wv_has_memory := True\<rparr>
         | SecExport \<Rightarrow> result\<lparr>wv_has_export := True\<rparr>
         | SecCode \<Rightarrow> result\<lparr>wv_has_code := True\<rparr>
         | _ \<Rightarrow> result)
      in result\<lparr>wv_section_count := wv_section_count result + 1,
           wv_total_payload_bytes := saturating_add (wv_total_payload_bytes result) section_size\<rparr>)"

lemma leb_loop_consumes:
  "leb_loop bytes start is pos shift result = Inr (v, n) \<Longrightarrow> start \<le> pos \<Longrightarrow> 0 < n"
  by (induction bytes start "is" pos shift result rule: leb_loop.induct)
    (auto simp: Let_def split: if_splits)

lemma read_leb_consumes: "read_leb128_u32 bytes start = Inr (v, n) \<Longrightarrow> 0 < n"
  unfolding read_leb128_u32_def by (erule leb_loop_consumes) simp

function validate_sections ::
    "u8 list \<Rightarrow> nat \<Rightarrow> u8 option \<Rightarrow> u16 \<Rightarrow> wasm_validation_result \<Rightarrow> rvm_error + wasm_validation_result" where
  "validate_sections bytes pos last_rank seen result =
     (if pos \<ge> length bytes then Inr result
      else
        let section_id_byte = bytes ! pos; pos1 = pos + 1 in
        case section_from_u8 section_id_byte of
          None \<Rightarrow> Inl ProofInvalid
        | Some section_id \<Rightarrow>
            (case read_leb128_u32 bytes pos1 of
               Inl e \<Rightarrow> Inl e
             | Inr (section_size, bytes_read) \<Rightarrow>
                 (let pos2 = pos1 + bytes_read in
                  if pos2 + unat section_size > length bytes then Inl ProofInvalid
                  else
                    case check_order section_id section_id_byte last_rank seen of
                      None \<Rightarrow> Inl ProofInvalid
                    | Some (last_rank', seen') \<Rightarrow>
                        validate_sections bytes (pos2 + unat section_size) last_rank' seen'
                          (note_section section_id section_size result))))"
  by pat_completeness auto
termination
  by (relation "measure (\<lambda>(bytes, pos, _). length bytes - pos)") auto

declare validate_sections.simps [simp del]

definition validate_module :: "u8 list \<Rightarrow> rvm_error + wasm_validation_result" where
  "validate_module bytes =
     (if length bytes > MAX_MODULE_SIZE then Inl ResourceLimitExceeded
      else if length bytes < 8 then Inl ProofInvalid
      else if take 4 bytes \<noteq> [0x00, 0x61, 0x73, 0x6D] then Inl ProofInvalid
      else if take 4 (drop 4 bytes) \<noteq> [0x01, 0x00, 0x00, 0x00] then Inl Unsupported
      else validate_sections bytes 8 None 0 wasm_validation_default)"

definition validate_header :: "u8 list \<Rightarrow> rvm_error + unit" where
  "validate_header bytes = map_sum (\<lambda>e. e) (\<lambda>_. ()) (validate_module bytes)"

section \<open>The import policy\<close>

datatype import_kind = ImpFunc | ImpTable | ImpMemory | ImpGlobal | ImpTag

record import_ref =
  ir_module :: string
  ir_name :: string
  ir_kind :: import_kind

record allowed_import =
  ai_module :: string
  ai_name :: "string option"

datatype import_policy =
  AllowAll | DenyAll | Allowlist "allowed_import list" | Predicate "import_ref \<Rightarrow> bool"

definition policy_allows :: "import_policy \<Rightarrow> import_ref \<Rightarrow> bool" where
  "policy_allows p imp =
     (case p of
        AllowAll \<Rightarrow> True
      | DenyAll \<Rightarrow> False
      | Allowlist list \<Rightarrow>
          list_ex (\<lambda>a. ai_module a = ir_module imp \<and>
            (case ai_name a of None \<Rightarrow> True | Some n \<Rightarrow> n = ir_name imp)) list
      | Predicate f \<Rightarrow> f imp)"

definition UNBOUNDED_MEMORY_PAGES :: u64 where "UNBOUNDED_MEMORY_PAGES = 65536"

record module_policy =
  mp_max_module_bytes :: u64
  mp_max_section_bytes :: u64
  mp_max_function_body_bytes :: u64
  mp_max_locals :: u32
  mp_max_types :: u32
  mp_max_imports :: u32
  mp_max_exports :: u32
  mp_max_functions :: u32
  mp_max_memory_pages :: u64
  mp_imports :: import_policy
  mp_max_table_elements :: u64
  mp_max_globals :: u32
  mp_max_data_segments :: u32
  mp_max_element_segments :: u32

definition module_policy_default :: module_policy where
  "module_policy_default =
     \<lparr>mp_max_module_bytes = of_nat MAX_MODULE_SIZE, mp_max_section_bytes = of_nat MAX_MODULE_SIZE,
      mp_max_function_body_bytes = 256 * 1024, mp_max_locals = 4096, mp_max_types = 10000,
      mp_max_imports = 1024, mp_max_exports = 1024, mp_max_functions = 50000, mp_max_memory_pages = 1024,
      mp_imports = DenyAll, mp_max_table_elements = 65536, mp_max_globals = 10000,
      mp_max_data_segments = 10000, mp_max_element_segments = 10000\<rparr>"

text \<open>\<open>ModulePolicy::permissive\<close> and the errors of validation.\<close>

definition module_policy_permissive :: module_policy where
  "module_policy_permissive =
     \<lparr>mp_max_module_bytes = U64_MAX, mp_max_section_bytes = U64_MAX,
      mp_max_function_body_bytes = U64_MAX, mp_max_locals = U32_MAX, mp_max_types = U32_MAX,
      mp_max_imports = U32_MAX, mp_max_exports = U32_MAX, mp_max_functions = U32_MAX,
      mp_max_memory_pages = U64_MAX, mp_imports = AllowAll, mp_max_table_elements = U64_MAX,
      mp_max_globals = U32_MAX, mp_max_data_segments = U32_MAX, mp_max_element_segments = U32_MAX\<rparr>"

datatype limit =
    ModuleBytes | SectionBytes | FunctionBodyBytes | Locals | Types | Imports | Exports | Functions
  | MemoryPages | TableElements | Globals | DataSegments | ElementSegments

datatype module_error =
    ModInvalid nat string | ModTruncated | ModLimitExceeded limit | ModForbiddenImport u32 | NotACoreModule

fun module_error_code :: "module_error \<Rightarrow> rvm_error" where
  "module_error_code (ModLimitExceeded _) = ResourceLimitExceeded"
| "module_error_code (ModForbiddenImport _) = InsufficientCapability"
| "module_error_code NotACoreModule = Unsupported"
| "module_error_code (ModInvalid _ _) = ProofInvalid"
| "module_error_code ModTruncated = ProofInvalid"

section \<open>LEB128 denotes a number\<close>

text \<open>
  An encoding is a non-empty run of bytes of which only the last has a clear top bit; it denotes the
  number whose base-128 digits are its low seven bits, least significant first.
\<close>

fun leb_value :: "u8 list \<Rightarrow> nat" where
  "leb_value [] = 0"
| "leb_value (b # bs) = unat b mod 128 + 128 * leb_value bs"

fun leb_code :: "u8 list \<Rightarrow> bool" where
  "leb_code [] = False"
| "leb_code (b # bs) = (if bs = [] then unat b < 128 else 128 \<le> unat b \<and> leb_code bs)"

lemma low_seven_bits: "unat ((b :: 8 word) AND 0x7F) = unat b mod 128"
proof -
  have "(0x7F :: 8 word) = mask 7" by (simp add: mask_eq_exp_minus_1)
  then have "b AND 0x7F = take_bit 7 b" by (simp only: take_bit_eq_mask)
  then have "unat (b AND 0x7F) = take_bit 7 (unat b)" by (simp only: unsigned_take_bit_eq)
  then show ?thesis by (simp add: take_bit_eq_mod)
qed

lemma top_bit_clear: "(b :: 8 word) AND 0x80 = 0 \<longleftrightarrow> unat b < 128"
proof -
  have e: "(0x80 :: 8 word) = push_bit 7 1" by (simp add: push_bit_eq_mult)
  have "b AND 0x80 = 0 \<longleftrightarrow> \<not> bit b 7"
    unfolding e by (simp add: bit_iff_and_push_bit_not_eq_0)
  also have "bit b 7 \<longleftrightarrow> bit (unat b) 7" by (simp add: bit_unsigned_iff)
  also have "\<not> bit (unat b) 7 \<longleftrightarrow> even (unat b div 128)" by (simp add: bit_iff_odd)
  also have "\<dots> \<longleftrightarrow> unat b < 128"
  proof -
    have "unat b div 128 < 2" using unsigned_less [of b, where ?'a = nat] by (simp only: div_less_iff_less_mult) simp
    then have "even (unat b div 128) \<longleftrightarrow> unat b div 128 = 0" by (auto simp: less_2_cases_iff)
    then show ?thesis by (simp add: div_eq_0_iff)
  qed
  finally show ?thesis .
qed

lemma or_push_bit_add:
  fixes r :: "32 word"
  assumes "unat r < 2 ^ s" "unat x * 2 ^ s < 2 ^ 32" 
  shows "unat (r OR push_bit s x) = unat r + unat x * 2 ^ s"
proof -
  have "unat (push_bit s x) = take_bit 32 (push_bit s (unat x))"
    using unsigned_push_bit_eq [of s x, where ?'a = nat] by simp
  also have "\<dots> = unat x * 2 ^ s" unfolding push_bit_eq_mult using assms(2) by (simp add: take_bit_nat_eq_self)
  finally have u: "unat (push_bit s x) = unat x * 2 ^ s" .
  have "unat (r OR push_bit s x) = unat r OR unat (push_bit s x)" by (simp add: unsigned_or_eq)
  also have "\<dots> = unat r + unat (push_bit s x)"
  proof (rule disjunctive_add [symmetric])
    fix n
    have "\<not> bit (unat r) n" if "s \<le> n"
      using assms(1) that by (metis bit_take_bit_iff leD take_bit_nat_eq_self)
    moreover have "\<not> bit (push_bit s (unat x)) n" if "n < s"
      using that by (simp add: bit_push_bit_iff)
    moreover have "unat (push_bit s x) = push_bit s (unat x)"
      unfolding u by (rule push_bit_eq_mult [symmetric])
    ultimately show "\<not> bit (unat r) n \<or> \<not> bit (unat (push_bit s x)) n" by (metis not_le)
  qed
  finally show ?thesis by (simp add: u)
qed

lemma leb_digit:
  assumes "unat (r :: u32) < 2 ^ (7 * i)" "i < 5" "i = 4 \<longrightarrow> unat (b :: u8) < 16"
  shows "unat (r OR push_bit (7 * i) (ucast (b AND 0x7F))) = unat r + (unat b mod 128) * 2 ^ (7 * i)"
proof -
  have u: "unat (ucast (b AND 0x7F) :: u32) = unat b mod 128"
    using low_seven_bits [of b] by (simp add: unsigned_ucast_eq take_bit_eq_mod)
  have "(unat b mod 128) * 2 ^ (7 * i) < (2 :: nat) ^ 32"
  proof (cases "i = 4")
    case True
    with assms(3) have "(unat b mod 128) * 2 ^ (7 * i) \<le> 15 * 2 ^ 28" by simp
    also have "\<dots> < (2 :: nat) ^ 32" by simp
    finally show ?thesis .
  next
    case False
    then have "(2 :: nat) ^ (7 * i) \<le> 2 ^ 21" using assms(2) by (intro power_increasing) simp_all
    then have "(unat b mod 128) * 2 ^ (7 * i) \<le> 127 * 2 ^ 21" by (intro mult_le_mono) simp_all
    also have "\<dots> < (2 :: nat) ^ 32" by simp
    finally show ?thesis .
  qed
  with or_push_bit_add [OF assms(1), of "ucast (b AND 0x7F)"] u show ?thesis by simp
qed

lemma fifth_byte: "(0x0F :: u8) < b \<longleftrightarrow> 16 \<le> unat b"
  by (simp add: word_less_nat_alt Suc_le_eq [symmetric])

lemma leb_loop_exact:
  assumes "pos = start + i" "i \<le> 5" "unat r < 2 ^ (7 * i)"
  shows "leb_loop bytes start [i..<5] pos (7 * i) r = Inr (v, n) \<longleftrightarrow>
    i < n \<and> n \<le> 5 \<and> start + n \<le> length bytes \<and> leb_code (take (n - i) (drop pos bytes)) \<and>
    unat v = unat r + 2 ^ (7 * i) * leb_value (take (n - i) (drop pos bytes))"
  using assms
proof (induction "5 - i" arbitrary: i pos r)
  case 0
  then show ?case by simp
next
  case (Suc d)
  then have i: "i < 5" and upt: "[i..<5] = i # [Suc i..<5]" by (simp_all add: upt_conv_Cons)
  show ?case
  proof (cases "pos < length bytes")
    case False
    then show ?thesis using Suc.prems i by (auto simp: upt)
  next
    case True
    let ?b = "bytes ! pos" and ?r = "r OR push_bit (7 * i) (ucast (bytes ! pos AND 0x7F))"
    have code: "take (n - i) (drop pos bytes) = ?b # take (n - Suc i) (drop (Suc pos) bytes)" if "i < n"
      using that True by (simp add: Cons_nth_drop_Suc [symmetric] take_Cons' Suc_diff_Suc [symmetric])
    show ?thesis
    proof (cases "i = 4 \<and> 16 \<le> unat ?b")
      case big: True
      then have "leb_loop bytes start [i..<5] pos (7 * i) r = Inl ProofInvalid"
        using True by (simp add: upt fifth_byte)
      moreover have False if "i < n" "n \<le> 5" "leb_code (take (n - i) (drop pos bytes))"
        "unat v = unat r + 2 ^ (7 * i) * leb_value (take (n - i) (drop pos bytes))"
      proof -
        have "n = 5" using big that by simp
        then have "unat v = unat r + 2 ^ 28 * (unat ?b mod 128)" "unat ?b < 128"
          using that(3,4) code [OF that(1)] big by simp_all
        then have "2 ^ 28 * 16 \<le> unat v" using big by simp
        then show False using unsigned_less [of v, where ?'a = nat] by simp
      qed
      ultimately show ?thesis by auto
    next
      case ok: False
      have u: "unat ?r = unat r + (unat ?b mod 128) * 2 ^ (7 * i)"
        by (rule leb_digit [OF Suc.prems(3) i]) (use ok in auto)
      have step: "leb_loop bytes start [i..<5] pos (7 * i) r =
          (if unat ?b < 128 then Inr (?r, Suc i)
           else leb_loop bytes start [Suc i..<5] (Suc pos) (7 * Suc i) ?r)"
        using True ok Suc.prems(1) by (auto simp: upt top_bit_clear fifth_byte Let_def add.commute)
      show ?thesis
      proof (cases "unat ?b < 128")
        case stop: True
        then have "leb_code (take (n - i) (drop pos bytes)) \<longleftrightarrow> n = Suc i" if "i < n" "start + n \<le> length bytes"
          using that True code [OF that(1)] Suc.prems(1) by (auto simp: drop_eq_Nil)
        then show ?thesis
          using step stop u True Suc.prems(1) i code
          by (auto simp: word_unat_eq_iff algebra_simps)
      next
        case more: False
        have "unat ?r < 2 ^ (7 * Suc i)"
        proof -
          have "(unat ?b mod 128) * 2 ^ (7 * i) \<le> 127 * 2 ^ (7 * i)" by (rule mult_le_mono1) simp
          then have "unat ?r < 2 ^ (7 * i) + 127 * 2 ^ (7 * i)" using u Suc.prems(3) by linarith
          then show ?thesis by (simp add: power_add)
        qed
        note IH = Suc.hyps(1) [of "Suc i" "Suc pos" ?r, OF _ _ _ this]
        have "leb_code (take (n - i) (drop pos bytes)) \<longleftrightarrow> Suc i < n \<and> leb_code (take (n - Suc i) (drop (Suc pos) bytes))"
          if "i < n" "start + n \<le> length bytes"
          using that more code [OF that(1)] by (cases "Suc i < n") auto
        then show ?thesis
          using step more u IH Suc.hyps(2) Suc.prems(1) i code
          by (auto simp: power_add algebra_simps)
      qed
    qed
  qed
qed

lemma read_leb_exact:
  "read_leb128_u32 bytes start = Inr (v, n) \<longleftrightarrow>
     n \<le> 5 \<and> start + n \<le> length bytes \<and> leb_code (take n (drop start bytes)) \<and>
     unat v = leb_value (take n (drop start bytes))"
  using leb_loop_exact [of start start 0 0 bytes v n]
  by (cases n) (auto simp: read_leb128_u32_def)

section \<open>The grammar of modules\<close>

text \<open>
  A section is its identifier, an encoding of the length of its payload in at most five bytes, and the
  payload.  The non-custom sections of a module appear in strictly increasing rank.
\<close>

type_synonym wasm_section = "wasm_section_id \<times> u8 list \<times> u8 list"

fun section_bytes :: "wasm_section \<Rightarrow> u8 list" where
  "section_bytes (sid, code, payload) = section_byte sid # code @ payload"

fun section_ok :: "wasm_section \<Rightarrow> bool" where
  "section_ok (sid, code, payload) \<longleftrightarrow>
     leb_code code \<and> length code \<le> 5 \<and> leb_value code = length payload \<and> length payload < 2 ^ 32"

fun ranks :: "wasm_section list \<Rightarrow> nat list" where
  "ranks [] = []"
| "ranks ((sid, _) # secs) = (if sid = SecCustom then ranks secs else unat (order_rank sid) # ranks secs)"

fun note_all :: "wasm_section list \<Rightarrow> wasm_validation_result \<Rightarrow> wasm_validation_result" where
  "note_all [] r = r"
| "note_all ((sid, _, payload) # secs) r = note_all secs (note_section sid (of_nat (length payload)) r)"

definition above :: "u8 option \<Rightarrow> nat list \<Rightarrow> bool" where
  "above l rs \<longleftrightarrow> (case l of None \<Rightarrow> True | Some x \<Rightarrow> \<forall>r\<in>set rs. unat x < r)"

text \<open>The sections seen have a rank up to the last one; so the test for duplicates never fires.\<close>

definition seen_ok :: "u8 option \<Rightarrow> u16 \<Rightarrow> bool" where
  "seen_ok l seen \<longleftrightarrow>
     (\<forall>sid. bit seen (unat (section_byte sid)) \<longrightarrow>
        (case l of None \<Rightarrow> False | Some x \<Rightarrow> order_rank sid \<le> x))"

lemma section_byte_inj: "section_byte a = section_byte b \<longleftrightarrow> a = b"
  by (cases a; cases b) simp_all

lemma section_byte_16: "unat (section_byte s) < 16"
  by (cases s) simp_all

lemma section_from_u8_iff: "section_from_u8 b = Some sid \<longleftrightarrow> b = section_byte sid"
  by (cases sid) (auto simp: section_from_u8_def)

lemma check_order_cases:
  assumes "seen_ok l seen"
  shows "check_order sid (section_byte sid) l seen =
    (if sid = SecCustom then Some (l, seen)
     else if above l [unat (order_rank sid)]
     then Some (Some (order_rank sid), seen OR push_bit (unat (section_byte sid)) 1) else None)"
proof -
  have "seen AND push_bit (unat (section_byte sid)) 1 = 0" if "above l [unat (order_rank sid)]"
  proof -
    have "\<not> bit seen (unat (section_byte sid))"
      using assms that by (auto simp: seen_ok_def above_def word_le_nat_alt split: option.splits)
    then show ?thesis by (simp add: bit_iff_and_push_bit_not_eq_0)
  qed
  then show ?thesis
    by (auto simp: check_order_def above_def Let_def word_le_nat_alt split: option.splits)
qed

lemma seen_ok_step:
  assumes "seen_ok l seen" "above l [unat (order_rank sid)]"
  shows "seen_ok (Some (order_rank sid)) (seen OR push_bit (unat (section_byte sid)) 1)"
proof -
  have "order_rank s \<le> order_rank sid" if "bit (seen OR push_bit (unat (section_byte sid)) 1) (unat (section_byte s))" for s
  proof (cases "s = sid")
    case False
    then have "unat (section_byte s) \<noteq> unat (section_byte sid)" using section_byte_inj by (simp add: word_unat_eq_iff [symmetric])
    then have "bit seen (unat (section_byte s))"
      using that by (auto simp: bit_or_iff bit_exp_iff)
    with assms show ?thesis
      by (auto simp: seen_ok_def above_def word_le_nat_alt split: option.splits)
  qed simp
  then show ?thesis by (simp add: seen_ok_def)
qed

lemma above_Cons: "above l (x # rs) \<longleftrightarrow> above l [x] \<and> above l rs"
  by (auto simp: above_def split: option.splits)

lemma above_rank:
  "above (Some (order_rank sid)) rs \<longleftrightarrow> (\<forall>r\<in>set rs. unat (order_rank sid) < r)"
  by (simp add: above_def)

lemma sections_empty: "concat (map section_bytes secs) = [] \<longleftrightarrow> secs = []"
  by (cases secs) auto

text \<open>What reading one section at a position finds.\<close>

lemma section_split:
  "drop pos bytes = section_bytes (sid, code, payload) @ rest \<and> section_ok (sid, code, payload) \<longleftrightarrow>
     pos < length bytes \<and> section_from_u8 (bytes ! pos) = Some sid \<and>
     (\<exists>v n. read_leb128_u32 bytes (Suc pos) = Inr (v, n) \<and> Suc pos + n + unat v \<le> length bytes \<and>
        code = take n (drop (Suc pos) bytes) \<and> payload = take (unat v) (drop (Suc pos + n) bytes) \<and>
        rest = drop (Suc pos + n + unat v) bytes)"
    (is "?L \<longleftrightarrow> ?R")
proof
  assume L: ?L
  then have pos: "pos < length bytes" by (cases "pos < length bytes") simp_all
  then have d: "drop pos bytes = bytes ! pos # drop (Suc pos) bytes" by (simp add: Cons_nth_drop_Suc)
  with L have b: "bytes ! pos = section_byte sid" and r: "drop (Suc pos) bytes = code @ payload @ rest" by simp_all
  let ?n = "length code" and ?v = "of_nat (length payload) :: u32"
  have v: "unat ?v = length payload" using L by (simp add: unat_of_nat)
  have len: "length bytes - Suc pos = length code + length payload + length rest"
    using arg_cong [OF r, of length] by simp
  have "drop (Suc pos + ?n) bytes = drop ?n (drop (Suc pos) bytes)"
    using drop_drop [of ?n "Suc pos" bytes] by (simp only: add.commute)
  then have "drop (Suc pos + ?n) bytes = payload @ rest" by (simp only: r append_eq_conv_conj) simp
  moreover from this have "drop (Suc pos + ?n + unat ?v) bytes = rest"
    using drop_drop [of "unat ?v" "Suc pos + ?n" bytes] unfolding v by (simp add: add.commute)
  ultimately have parts: "code = take ?n (drop (Suc pos) bytes)"
    "payload = take (unat ?v) (drop (Suc pos + ?n) bytes)" "rest = drop (Suc pos + ?n + unat ?v) bytes"
    unfolding v by (simp_all only: r) simp_all
  have "read_leb128_u32 bytes (Suc pos) = Inr (?v, ?n)"
    using L parts(1) len pos v by (simp add: read_leb_exact)
  moreover have "Suc pos + ?n + unat ?v \<le> length bytes" using len pos unfolding v by linarith
  ultimately show ?R using parts b pos unfolding section_from_u8_iff by blast
next
  assume ?R
  then obtain v n where pos: "pos < length bytes" "bytes ! pos = section_byte sid"
    and leb: "read_leb128_u32 bytes (Suc pos) = Inr (v, n)" "Suc pos + n + unat v \<le> length bytes"
    and parts: "code = take n (drop (Suc pos) bytes)" "payload = take (unat v) (drop (Suc pos + n) bytes)"
      "rest = drop (Suc pos + n + unat v) bytes"
    by (auto simp: section_from_u8_iff)
  have "drop (Suc pos) bytes = code @ payload @ rest"
    using append_take_drop_id [of n "drop (Suc pos) bytes"]
      append_take_drop_id [of "unat v" "drop (Suc pos + n) bytes"]
    by (simp add: parts add.commute add.left_commute)
  then have "drop pos bytes = section_bytes (sid, code, payload) @ rest"
    using pos Cons_nth_drop_Suc [OF pos(1)] by simp
  moreover have "length payload = unat v" "length code = n" using leb(2) by (simp_all add: parts)
  ultimately show ?L
    using leb(1) parts(1) unsigned_less [of v, where ?'a = nat] by (simp add: read_leb_exact)
qed

text \<open>The loop accepts exactly the sequences of sections that continue the order.\<close>

lemma validate_sections_exact:
  assumes "seen_ok l seen"
  shows "validate_sections bytes pos l seen res = Inr out \<longleftrightarrow>
    (\<exists>secs. drop pos bytes = concat (map section_bytes secs) \<and> (\<forall>x\<in>set secs. section_ok x) \<and>
       sorted_wrt (<) (ranks secs) \<and> above l (ranks secs) \<and> out = note_all secs res)"
  using assms
proof (induction "length bytes - pos" arbitrary: pos l seen res rule: less_induct)
  case less
  show ?case
  proof (cases "length bytes \<le> pos")
    case True
    then show ?thesis
      using sections_empty by (subst validate_sections.simps) (auto simp: above_def split: option.splits)
  next
    case False
    then have byte: "drop pos bytes = bytes ! pos # drop (Suc pos) bytes" by (simp add: Cons_nth_drop_Suc)
    let ?next = "\<lambda>n v. Suc pos + n + unat (v :: u32)"
    have "(\<exists>secs. drop pos bytes = concat (map section_bytes secs) \<and> (\<forall>x\<in>set secs. section_ok x) \<and>
         sorted_wrt (<) (ranks secs) \<and> above l (ranks secs) \<and> out = note_all secs res) \<longleftrightarrow>
       (\<exists>sid v n secs. section_from_u8 (bytes ! pos) = Some sid \<and> read_leb128_u32 bytes (Suc pos) = Inr (v, n) \<and>
          ?next n v \<le> length bytes \<and> drop (?next n v) bytes = concat (map section_bytes secs) \<and>
          (\<forall>x\<in>set secs. section_ok x) \<and> sorted_wrt (<) (ranks ((sid, [], []) # secs)) \<and>
          above l (ranks ((sid, [], []) # secs)) \<and> out = note_all secs (note_section sid v res))"
      (is "?A \<longleftrightarrow> ?B")
    proof
      assume ?A
      then obtain secs where secs: "drop pos bytes = concat (map section_bytes secs)" "\<forall>x\<in>set secs. section_ok x"
        "sorted_wrt (<) (ranks secs)" "above l (ranks secs)" "out = note_all secs res" by blast
      with byte obtain sid code payload rest where s: "secs = (sid, code, payload) # rest"
        by (cases secs) auto
      then have "drop pos bytes = section_bytes (sid, code, payload) @ concat (map section_bytes rest) \<and>
          section_ok (sid, code, payload)" using secs by simp
      then obtain v n where "section_from_u8 (bytes ! pos) = Some sid" "read_leb128_u32 bytes (Suc pos) = Inr (v, n)"
        "?next n v \<le> length bytes" "drop (?next n v) bytes = concat (map section_bytes rest)"
        "payload = take (unat v) (drop (Suc pos + n) bytes)"
        unfolding section_split by auto
      then show ?B using secs s
        by (intro exI [of _ sid] exI [of _ v] exI [of _ n] exI [of _ rest]) simp
    next
      assume ?B
      then obtain sid v n secs where B: "section_from_u8 (bytes ! pos) = Some sid"
        "read_leb128_u32 bytes (Suc pos) = Inr (v, n)" "?next n v \<le> length bytes"
        "drop (?next n v) bytes = concat (map section_bytes secs)" "\<forall>x\<in>set secs. section_ok x"
        "sorted_wrt (<) (ranks ((sid, [], []) # secs))" "above l (ranks ((sid, [], []) # secs))"
        "out = note_all secs (note_section sid v res)" by blast
      let ?x = "(sid, take n (drop (Suc pos) bytes), take (unat v) (drop (Suc pos + n) bytes))"
      have "drop pos bytes = section_bytes ?x @ drop (?next n v) bytes \<and> section_ok ?x"
        unfolding section_split using B(1-3) False by auto
      then show ?A
        using B by (intro exI [of _ "?x # secs"]) simp
    qed
    moreover have "validate_sections bytes pos l seen res = Inr out \<longleftrightarrow> ?B"
    proof (cases "\<exists>sid v n. section_from_u8 (bytes ! pos) = Some sid \<and>
        read_leb128_u32 bytes (Suc pos) = Inr (v, n) \<and> ?next n v \<le> length bytes")
      case bad: False
      then have "\<nexists>out. validate_sections bytes pos l seen res = Inr out"
        using False by (subst validate_sections.simps) (auto simp: Let_def split: option.split sum.split)
      with bad show ?thesis by blast
    next
      case True
      then obtain sid v n where hd: "section_from_u8 (bytes ! pos) = Some sid"
        "read_leb128_u32 bytes (Suc pos) = Inr (v, n)" "?next n v \<le> length bytes" by blast
      then have b: "bytes ! pos = section_byte sid" by (simp add: section_from_u8_iff)
      have step: "validate_sections bytes pos l seen res =
          (case check_order sid (section_byte sid) l seen of None \<Rightarrow> Inl ProofInvalid
           | Some (l', seen') \<Rightarrow> validate_sections bytes (?next n v) l' seen' (note_section sid v res))"
        using False hd b by (subst validate_sections.simps) (simp add: Let_def not_less, simp only: add_Suc)
      have IH: "validate_sections bytes (?next n v) l' seen' res' = Inr out \<longleftrightarrow>
          (\<exists>secs. drop (?next n v) bytes = concat (map section_bytes secs) \<and> (\<forall>x\<in>set secs. section_ok x) \<and>
             sorted_wrt (<) (ranks secs) \<and> above l' (ranks secs) \<and> out = note_all secs res')"
        if "seen_ok l' seen'" for l' seen' res'
        by (rule less.hyps [OF _ that]) (use False in simp)
      have order: "sorted_wrt (<) (ranks ((sid, [], []) # secs)) \<and> above l (ranks ((sid, [], []) # secs)) \<longleftrightarrow>
          (if sid = SecCustom then sorted_wrt (<) (ranks secs) \<and> above l (ranks secs)
           else above l [unat (order_rank sid)] \<and> sorted_wrt (<) (ranks secs) \<and> above (Some (order_rank sid)) (ranks secs))"
        for secs
        by (auto simp: above_def split: option.splits)
      have "validate_sections bytes pos l seen res = Inr out \<longleftrightarrow>
          (\<exists>secs. drop (?next n v) bytes = concat (map section_bytes secs) \<and> (\<forall>x\<in>set secs. section_ok x) \<and>
             (sorted_wrt (<) (ranks ((sid, [], []) # secs)) \<and> above l (ranks ((sid, [], []) # secs))) \<and>
             out = note_all secs (note_section sid v res))"
        unfolding order step check_order_cases [OF less.prems]
        using IH [OF less.prems] IH [OF seen_ok_step [OF less.prems]] by auto
      then show ?thesis using hd by auto
    qed
    ultimately show ?thesis by simp
  qed
qed

text \<open>What the check reports of a module, as a function of its sections.\<close>

definition payload_sum :: "wasm_section list \<Rightarrow> nat" where
  "payload_sum secs = (\<Sum>(sid, code, payload) \<leftarrow> secs. length payload)"

definition module_summary :: "wasm_section list \<Rightarrow> wasm_validation_result" where
  "module_summary secs =
     (let ids = set (map fst secs) in
      \<lparr>wv_section_count = of_nat (length secs), wv_has_type = (SecType \<in> ids),
       wv_has_function = (SecFunction \<in> ids), wv_has_memory = (SecMemory \<in> ids),
       wv_has_export = (SecExport \<in> ids), wv_has_code = (SecCode \<in> ids),
       wv_total_payload_bytes = of_nat (payload_sum secs)\<rparr>)"

lemma note_section_fields [simp]:
  "wv_section_count (note_section sid v r) = wv_section_count r + 1"
  "wv_has_type (note_section sid v r) \<longleftrightarrow> wv_has_type r \<or> sid = SecType"
  "wv_has_function (note_section sid v r) \<longleftrightarrow> wv_has_function r \<or> sid = SecFunction"
  "wv_has_memory (note_section sid v r) \<longleftrightarrow> wv_has_memory r \<or> sid = SecMemory"
  "wv_has_export (note_section sid v r) \<longleftrightarrow> wv_has_export r \<or> sid = SecExport"
  "wv_has_code (note_section sid v r) \<longleftrightarrow> wv_has_code r \<or> sid = SecCode"
  "wv_total_payload_bytes (note_section sid v r) = saturating_add (wv_total_payload_bytes r) v"
  by (cases sid; simp add: note_section_def)+

lemma note_all_fields:
  "wv_section_count (note_all secs r) = wv_section_count r + of_nat (length secs)"
  "wv_has_type (note_all secs r) \<longleftrightarrow> wv_has_type r \<or> SecType \<in> fst ` set secs"
  "wv_has_function (note_all secs r) \<longleftrightarrow> wv_has_function r \<or> SecFunction \<in> fst ` set secs"
  "wv_has_memory (note_all secs r) \<longleftrightarrow> wv_has_memory r \<or> SecMemory \<in> fst ` set secs"
  "wv_has_export (note_all secs r) \<longleftrightarrow> wv_has_export r \<or> SecExport \<in> fst ` set secs"
  "wv_has_code (note_all secs r) \<longleftrightarrow> wv_has_code r \<or> SecCode \<in> fst ` set secs"
  by (induction secs r rule: note_all.induct) (auto simp: algebra_simps)

lemma note_all_payload:
  "unat (wv_total_payload_bytes r) + payload_sum secs < 2 ^ 32 \<Longrightarrow>
     wv_total_payload_bytes (note_all secs r) = wv_total_payload_bytes r + of_nat (payload_sum secs)"
proof (induction secs r rule: note_all.induct)
  case (2 sid code payload secs r)
  have u: "unat (of_nat (length payload) :: u32) = length payload"
    using "2.prems" by (simp add: payload_sum_def unat_of_nat)
  have "saturating_add (wv_total_payload_bytes r) (of_nat (length payload)) =
      wv_total_payload_bytes r + of_nat (length payload)"
    using "2.prems" by (simp add: payload_sum_def saturating_add_def u)
  moreover have "unat (wv_total_payload_bytes r + of_nat (length payload)) =
      unat (wv_total_payload_bytes r) + length payload"
    using "2.prems" by (simp add: payload_sum_def unat_word_ariths u)
  ultimately show ?case using 2 by (simp add: payload_sum_def algebra_simps)
qed (simp add: payload_sum_def)

lemma payload_sum_le: "payload_sum secs \<le> length (concat (map section_bytes secs))"
  by (induction secs) (auto simp: payload_sum_def)

lemma note_all_summary:
  assumes "payload_sum secs < 2 ^ 32"
  shows "note_all secs wasm_validation_default = module_summary secs"
proof (rule wasm_validation_result.equality)
qed (use note_all_fields [of secs wasm_validation_default] note_all_payload [of wasm_validation_default secs] assms
  in \<open>auto simp: module_summary_def wasm_validation_default_def Let_def\<close>)

definition wasm_preamble :: "u8 list" where
  "wasm_preamble = [0x00, 0x61, 0x73, 0x6D, 0x01, 0x00, 0x00, 0x00]"

lemma wasm_preamble_iff:
  "length bytes \<ge> 8 \<and> take 4 bytes = [0x00, 0x61, 0x73, 0x6D] \<and> take 4 (drop 4 bytes) = [0x01, 0x00, 0x00, 0x00] \<longleftrightarrow>
     bytes = wasm_preamble @ drop 8 bytes"
  (is "?L \<longleftrightarrow> ?R")
proof
  assume L: ?L
  have "bytes = take 4 bytes @ take 4 (drop 4 bytes) @ drop 4 (drop 4 bytes)" by (simp only: append_take_drop_id)
  also have "\<dots> = wasm_preamble @ drop 8 bytes"
    using L by (simp only: drop_drop wasm_preamble_def append.simps) simp
  finally show ?R .
next
  assume ?R
  then obtain xs where "bytes = wasm_preamble @ xs" by blast
  then show ?L by (simp add: wasm_preamble_def)
qed

lemma wasm_preamble_drop: "bytes = wasm_preamble @ drop 8 bytes \<and> drop 8 bytes = xs \<longleftrightarrow> bytes = wasm_preamble @ xs"
  by (auto simp: wasm_preamble_def)

section \<open>Properties\<close>

text \<open>
  C29.  The framing check accepts exactly the modules of the grammar.  A byte string of at most 1 MiB is
  accepted exactly when it is the preamble of version 1 followed by sections with known identifiers, a
  length in LEB128 of at most five bytes that is the length of the payload, and non-custom sections
  in strictly increasing rank; then the result counts the sections (modulo \<open>2 ^ 16\<close>), names those that are present, and
  adds up the payloads.
\<close>

theorem validate_module_exact:
  "validate_module bytes = Inr out \<longleftrightarrow>
     length bytes \<le> MAX_MODULE_SIZE \<and>
     (\<exists>secs. bytes = wasm_preamble @ concat (map section_bytes secs) \<and>
        list_all section_ok secs \<and> sorted_wrt (<) (ranks secs) \<and> out = module_summary secs)"
proof -
  have "seen_ok None 0" by (simp add: seen_ok_def)
  note secs = validate_sections_exact [OF this, of bytes 8 wasm_validation_default out]
  have v: "validate_module bytes = Inr out \<longleftrightarrow>
      length bytes \<le> MAX_MODULE_SIZE \<and> bytes = wasm_preamble @ drop 8 bytes \<and>
      validate_sections bytes 8 None 0 wasm_validation_default = Inr out"
    unfolding wasm_preamble_iff [symmetric] validate_module_def
    by (cases "length bytes > MAX_MODULE_SIZE"; cases "length bytes < 8"; cases "take 4 bytes = [0x00, 0x61, 0x73, 0x6D]";
        cases "take 4 (drop 4 bytes) = [0x01, 0x00, 0x00, 0x00]") (simp_all only: if_True if_False, simp_all)
  have n: "note_all secs wasm_validation_default = module_summary secs"
    if "length bytes \<le> MAX_MODULE_SIZE" "bytes = wasm_preamble @ concat (map section_bytes secs)" for secs
    using that payload_sum_le [of secs] by (intro note_all_summary) (simp add: MAX_MODULE_SIZE_def)
  have e: "bytes = wasm_preamble @ drop 8 bytes \<and> validate_sections bytes 8 None 0 wasm_validation_default = Inr out \<longleftrightarrow>
      (\<exists>secs. bytes = wasm_preamble @ concat (map section_bytes secs) \<and> list_all section_ok secs \<and>
         sorted_wrt (<) (ranks secs) \<and> out = note_all secs wasm_validation_default)"
    (is "?L \<longleftrightarrow> ?R")
  proof
    assume L: ?L
    then obtain ss where ss: "drop 8 bytes = concat (map section_bytes ss)" "\<forall>x\<in>set ss. section_ok x"
      "sorted_wrt (<) (ranks ss)" "out = note_all ss wasm_validation_default" using secs by blast
    from L ss(1) have "bytes = wasm_preamble @ concat (map section_bytes ss)" by (metis wasm_preamble_drop)
    with ss(2-4) show ?R by (intro exI [of _ ss]) (simp add: list_all_iff)
  next
    assume ?R
    then obtain ss where ss: "bytes = wasm_preamble @ concat (map section_bytes ss)" "list_all section_ok ss"
      "sorted_wrt (<) (ranks ss)" "out = note_all ss wasm_validation_default" by blast
    from ss(1) have d: "bytes = wasm_preamble @ drop 8 bytes" "drop 8 bytes = concat (map section_bytes ss)"
      by (metis wasm_preamble_drop)+
    have "above None (ranks ss)" by (simp add: above_def)
    with d(2) ss(2-4) have "validate_sections bytes 8 None 0 wasm_validation_default = Inr out"
      unfolding secs list_all_iff by blast
    with d(1) show ?L by blast
  qed
  show ?thesis unfolding v e by (rule conj_cong [OF refl], rule ex_cong1) (metis n)
qed

end
