(* ===== verification/Wasm_Agent.thy ===== *)
theory Wasm_Agent
  imports Witness_Log
begin

text \<open>
  Crate \<open>rvm-wasm\<close>: the agents of a partition (\<open>agent.rs\<close>) and the migration of an agent
  (\<open>migration.rs\<close>).  The registry is an array of optional agents; the log of the witness records is
  passed in and returned.  The registry is proved to refine a finite map from identifiers to agents, and
  a migration to follow its seven steps within the deadline.
\<close>

section \<open>Agents\<close>

type_synonym agent_id = u32

datatype agent_state =
    AgInitializing | AgRunning | AgSuspended | AgMigrating | AgHibernated | AgReconstructing
  | AgTerminated

record agent_config =
  ac_badge :: u32
  ac_partition_id :: partition_id
  ac_max_memory_pages :: u32

record agent =
  ag_id :: agent_id
  ag_state :: agent_state
  ag_partition_id :: partition_id
  ag_memory_usage :: u32
  ag_message_count :: u64

definition agent_new :: "agent_id \<Rightarrow> partition_id \<Rightarrow> agent" where
  "agent_new i p =
     \<lparr>ag_id = i, ag_state = AgInitializing, ag_partition_id = p, ag_memory_usage = 0,
      ag_message_count = 0\<rparr>"

record agent_manager =
  am_agents :: "agent option list"
  am_count :: nat

definition agent_manager_new :: "nat \<Rightarrow> agent_manager" where
  "agent_manager_new n = \<lparr>am_agents = replicate n None, am_count = 0\<rparr>"

definition agent_record :: "action_kind \<Rightarrow> partition_id \<Rightarrow> agent_id \<Rightarrow> witness_record" where
  "agent_record action part i =
     witness_zeroed\<lparr>wr_action_kind := action_code action, wr_actor_partition_id := part,
       wr_target_object_id := ucast i, wr_proof_tier := 1\<rparr>"

definition emit_agent_witness ::
    "chain_hash \<Rightarrow> action_kind \<Rightarrow> partition_id \<Rightarrow> agent_id \<Rightarrow> witness_log \<Rightarrow> witness_log" where
  "emit_agent_witness H action part i log = snd (log_append H (agent_record action part i) log)"

text \<open>The live agents with an identifier, as every search of the registry compares them.\<close>

definition agent_matches :: "agent_id \<Rightarrow> agent option \<Rightarrow> bool" where
  "agent_matches i slot = (case slot of None \<Rightarrow> False | Some a \<Rightarrow> ag_id a = i \<and> ag_state a \<noteq> AgTerminated)"

definition agent_spawn ::
    "chain_hash \<Rightarrow> agent_config \<Rightarrow> agent_manager \<Rightarrow> witness_log
      \<Rightarrow> (rvm_error, agent_id, agent_manager \<times> witness_log) outcome" where
  "agent_spawn H config m log =
     (if am_count m \<ge> length (am_agents m) then (Inl ResourceLimitExceeded, m, log)
      else
        let i = ac_badge config in
        if list_ex (agent_matches i) (am_agents m) then (Inl InternalError, m, log)
        else
          let agent = agent_new i (ac_partition_id config) in
          case position (\<lambda>slot. slot = None) (am_agents m) of
            Some k \<Rightarrow>
              (Inr i,
               m\<lparr>am_agents := (am_agents m)[k := Some agent], am_count := am_count m + 1\<rparr>,
               emit_agent_witness H TaskSpawn (ac_partition_id config) i log)
          | None \<Rightarrow> (Inl InternalError, m, log))"

text \<open>\<open>get_mut\<close>: the slot of the agent.\<close>

definition agent_get_mut :: "agent_id \<Rightarrow> agent_manager \<Rightarrow> rvm_error + nat \<times> agent" where
  "agent_get_mut i m =
     (case position (agent_matches i) (am_agents m) of
        Some k \<Rightarrow> Inr (k, the (am_agents m ! k))
      | None \<Rightarrow> Inl PartitionNotFound)"

definition agent_put :: "nat \<Rightarrow> agent \<Rightarrow> agent_manager \<Rightarrow> agent_manager" where
  "agent_put k a m = m\<lparr>am_agents := (am_agents m)[k := Some a]\<rparr>"

definition agent_activate ::
    "agent_id \<Rightarrow> agent_manager \<Rightarrow> (rvm_error, unit, agent_manager) outcome" where
  "agent_activate i m =
     (case agent_get_mut i m of
        Inl e \<Rightarrow> (Inl e, m)
      | Inr (k, a) \<Rightarrow>
          (case ag_state a of
             AgInitializing \<Rightarrow> (Inr (), agent_put k (a\<lparr>ag_state := AgRunning\<rparr>) m)
           | AgReconstructing \<Rightarrow> (Inr (), agent_put k (a\<lparr>ag_state := AgRunning\<rparr>) m)
           | _ \<Rightarrow> (Inl InvalidPartitionState, m)))"

definition agent_suspend ::
    "chain_hash \<Rightarrow> agent_id \<Rightarrow> agent_manager \<Rightarrow> witness_log
      \<Rightarrow> (rvm_error, unit, agent_manager \<times> witness_log) outcome" where
  "agent_suspend H i m log =
     (case agent_get_mut i m of
        Inl e \<Rightarrow> (Inl e, m, log)
      | Inr (k, a) \<Rightarrow>
          if ag_state a \<noteq> AgRunning then (Inl InvalidPartitionState, m, log)
          else (Inr (), agent_put k (a\<lparr>ag_state := AgSuspended\<rparr>) m,
                emit_agent_witness H PartitionSuspend (ag_partition_id a) i log))"

definition agent_resume ::
    "chain_hash \<Rightarrow> agent_id \<Rightarrow> agent_manager \<Rightarrow> witness_log
      \<Rightarrow> (rvm_error, unit, agent_manager \<times> witness_log) outcome" where
  "agent_resume H i m log =
     (case agent_get_mut i m of
        Inl e \<Rightarrow> (Inl e, m, log)
      | Inr (k, a) \<Rightarrow>
          if ag_state a \<noteq> AgSuspended then (Inl InvalidPartitionState, m, log)
          else (Inr (), agent_put k (a\<lparr>ag_state := AgRunning\<rparr>) m,
                emit_agent_witness H PartitionResume (ag_partition_id a) i log))"

definition agent_terminate ::
    "chain_hash \<Rightarrow> agent_id \<Rightarrow> agent_manager \<Rightarrow> witness_log
      \<Rightarrow> (rvm_error, unit, agent_manager \<times> witness_log) outcome" where
  "agent_terminate H i m log =
     (case position (agent_matches i) (am_agents m) of
        None \<Rightarrow> (Inl PartitionNotFound, m, log)
      | Some k \<Rightarrow>
          let a = the (am_agents m ! k) in
          if ag_state a = AgTerminated then (Inl InvalidPartitionState, m, log)
          else (Inr (),
                m\<lparr>am_agents := (am_agents m)[k := None], am_count := am_count m - 1\<rparr>,
                emit_agent_witness H TaskTerminate (ag_partition_id a) i log))"

definition agent_get :: "agent_id \<Rightarrow> agent_manager \<Rightarrow> agent option" where
  "agent_get i m = find_some (\<lambda>a. ag_id a = i \<and> ag_state a \<noteq> AgTerminated) (am_agents m)"

section \<open>Migration\<close>

record migration_plan =
  mp_agent_id :: agent_id
  mp_source_partition :: partition_id
  mp_dest_partition :: partition_id
  mp_deadline_ns :: u64

datatype migration_state =
    MgSerializing | MgPausingComms | MgTransferringRegions | MgUpdatingEdges | MgUpdatingGraph
  | MgVerifying | MgResuming | MgComplete | MgAborted

fun migration_next :: "migration_state \<Rightarrow> migration_state option" where
  "migration_next MgSerializing = Some MgPausingComms"
| "migration_next MgPausingComms = Some MgTransferringRegions"
| "migration_next MgTransferringRegions = Some MgUpdatingEdges"
| "migration_next MgUpdatingEdges = Some MgUpdatingGraph"
| "migration_next MgUpdatingGraph = Some MgVerifying"
| "migration_next MgVerifying = Some MgResuming"
| "migration_next MgResuming = Some MgComplete"
| "migration_next MgComplete = None"
| "migration_next MgAborted = None"

definition migration_is_terminal :: "migration_state \<Rightarrow> bool" where
  "migration_is_terminal s \<longleftrightarrow> s = MgComplete \<or> s = MgAborted"

definition MIGRATION_TIMEOUT_NS :: u64 where "MIGRATION_TIMEOUT_NS = 100000000"

record migration_tracker =
  mt_plan :: migration_plan
  mt_state :: migration_state
  mt_start_ns :: u64
  mt_bytes_transferred :: u64

definition migration_begin :: "migration_plan \<Rightarrow> u64 \<Rightarrow> rvm_error + migration_tracker" where
  "migration_begin plan now_ns =
     (if mp_source_partition plan = mp_dest_partition plan then Inl InvalidPartitionState
      else Inr \<lparr>mt_plan = plan, mt_state = MgSerializing, mt_start_ns = now_ns,
                mt_bytes_transferred = 0\<rparr>)"

definition migration_record :: "action_kind \<Rightarrow> migration_plan \<Rightarrow> witness_record" where
  "migration_record action plan =
     witness_zeroed\<lparr>wr_action_kind := action_code action,
       wr_actor_partition_id := mp_source_partition plan,
       wr_target_object_id := ucast (mp_agent_id plan), wr_proof_tier := 2,
       wr_payload := to_le_bytes32 (mp_source_partition plan) @ to_le_bytes32 (mp_dest_partition plan)\<rparr>"

definition emit_migration_witness ::
    "chain_hash \<Rightarrow> action_kind \<Rightarrow> migration_plan \<Rightarrow> witness_log \<Rightarrow> witness_log" where
  "emit_migration_witness H action plan log = snd (log_append H (migration_record action plan) log)"

definition migration_advance ::
    "chain_hash \<Rightarrow> u64 \<Rightarrow> migration_tracker \<Rightarrow> witness_log
      \<Rightarrow> (rvm_error, migration_state, migration_tracker \<times> witness_log) outcome" where
  "migration_advance H current_ns t log =
     (if migration_is_terminal (mt_state t) then (Inl InvalidPartitionState, t, log)
      else if saturating_sub current_ns (mt_start_ns t) > mp_deadline_ns (mt_plan t) then
        (Inl MigrationTimeout, t\<lparr>mt_state := MgAborted\<rparr>,
         emit_migration_witness H MigrationTimeoutAction (mt_plan t) log)
      else case migration_next (mt_state t) of
        Some next_state \<Rightarrow>
          (Inr next_state, t\<lparr>mt_state := next_state\<rparr>,
           if next_state = MgComplete then emit_migration_witness H PartitionMigrate (mt_plan t) log else log)
      | None \<Rightarrow> (Inl InvalidPartitionState, t, log))"

definition migration_abort ::
    "chain_hash \<Rightarrow> migration_tracker \<Rightarrow> witness_log \<Rightarrow> migration_tracker \<times> witness_log" where
  "migration_abort H t log =
     (if \<not> migration_is_terminal (mt_state t)
      then (t\<lparr>mt_state := MgAborted\<rparr>, emit_migration_witness H MigrationTimeoutAction (mt_plan t) log)
      else (t, log))"

definition migration_is_complete :: "migration_tracker \<Rightarrow> bool" where
  "migration_is_complete t \<longleftrightarrow> mt_state t = MgComplete"

definition migration_is_aborted :: "migration_tracker \<Rightarrow> bool" where
  "migration_is_aborted t \<longleftrightarrow> mt_state t = MgAborted"

section \<open>The registry refines a finite map\<close>

datatype agent_call =
    AgSpawn agent_config | AgActivate agent_id | AgSuspend agent_id | AgResume agent_id
  | AgTerminate agent_id

text \<open>One call on the code's model; the identifier is the result of every successful call.\<close>

fun agent_step ::
    "chain_hash \<Rightarrow> agent_call \<Rightarrow> agent_manager \<times> witness_log
      \<Rightarrow> (rvm_error, agent_id, agent_manager \<times> witness_log) outcome" where
  "agent_step H (AgSpawn config) (m, log) = agent_spawn H config m log"
| "agent_step H (AgActivate i) (m, log) =
     (let (r, m) = agent_activate i m in (map_sum (\<lambda>e. e) (\<lambda>_. i) r, m, log))"
| "agent_step H (AgSuspend i) (m, log) = apfst (map_sum (\<lambda>e. e) (\<lambda>_. i)) (agent_suspend H i m log)"
| "agent_step H (AgResume i) (m, log) = apfst (map_sum (\<lambda>e. e) (\<lambda>_. i)) (agent_resume H i m log)"
| "agent_step H (AgTerminate i) (m, log) = apfst (map_sum (\<lambda>e. e) (\<lambda>_. i)) (agent_terminate H i m log)"

text \<open>
  The specification: a map with a capacity.  A call gives its result, the new map and the witness records
  that it leaves.
\<close>

definition spec_move ::
    "agent_state \<Rightarrow> agent_state \<Rightarrow> action_kind option \<Rightarrow> agent_id \<Rightarrow> (agent_id \<rightharpoonup> agent)
      \<Rightarrow> (rvm_error + agent_id) \<times> (agent_id \<rightharpoonup> agent) \<times> witness_record list" where
  "spec_move from_state to_state action i A =
     (case A i of
        None \<Rightarrow> (Inl PartitionNotFound, A, [])
      | Some a \<Rightarrow>
          if ag_state a \<noteq> from_state then (Inl InvalidPartitionState, A, [])
          else (Inr i, A(i \<mapsto> a\<lparr>ag_state := to_state\<rparr>),
                case action of None \<Rightarrow> [] | Some k \<Rightarrow> [agent_record k (ag_partition_id a) i]))"

fun agent_spec ::
    "nat \<Rightarrow> agent_call \<Rightarrow> (agent_id \<rightharpoonup> agent)
      \<Rightarrow> (rvm_error + agent_id) \<times> (agent_id \<rightharpoonup> agent) \<times> witness_record list" where
  "agent_spec n (AgSpawn config) A =
     (if card (dom A) \<ge> n then (Inl ResourceLimitExceeded, A, [])
      else if A (ac_badge config) \<noteq> None then (Inl InternalError, A, [])
      else (Inr (ac_badge config),
            A(ac_badge config \<mapsto> agent_new (ac_badge config) (ac_partition_id config)),
            [agent_record TaskSpawn (ac_partition_id config) (ac_badge config)]))"
| "agent_spec n (AgActivate i) A = spec_move AgInitializing AgRunning None i A"
| "agent_spec n (AgSuspend i) A = spec_move AgRunning AgSuspended (Some PartitionSuspend) i A"
| "agent_spec n (AgResume i) A = spec_move AgSuspended AgRunning (Some PartitionResume) i A"
| "agent_spec n (AgTerminate i) A =
     (case A i of
        None \<Rightarrow> (Inl PartitionNotFound, A, [])
      | Some a \<Rightarrow> (Inr i, A(i := None), [agent_record TaskTerminate (ag_partition_id a) i]))"

fun agent_run ::
    "chain_hash \<Rightarrow> agent_call list \<Rightarrow> agent_manager \<times> witness_log
      \<Rightarrow> (rvm_error + agent_id) list \<times> agent_manager \<times> witness_log" where
  "agent_run H [] s = ([], s)"
| "agent_run H (c # cs) s = (let (r, s) = agent_step H c s; (rs, s) = agent_run H cs s in (r # rs, s))"

fun agent_spec_run ::
    "nat \<Rightarrow> agent_call list \<Rightarrow> (agent_id \<rightharpoonup> agent)
      \<Rightarrow> (rvm_error + agent_id) list \<times> (agent_id \<rightharpoonup> agent) \<times> witness_record list" where
  "agent_spec_run n [] A = ([], A, [])"
| "agent_spec_run n (c # cs) A =
     (let (r, A, w) = agent_spec n c A; (rs, A, ws) = agent_spec_run n cs A in (r # rs, A, w @ ws))"

definition agent_abs :: "agent_manager \<Rightarrow> agent_id \<rightharpoonup> agent" where
  "agent_abs m i = agent_get i m"

definition live_states :: "agent_state set" where
  "live_states = {AgInitializing, AgRunning, AgSuspended}"

definition holds_at :: "agent_manager \<Rightarrow> nat \<Rightarrow> agent \<Rightarrow> bool" where
  "holds_at m k a \<longleftrightarrow> k < length (am_agents m) \<and> am_agents m ! k = Some a"

definition agent_inv :: "agent_manager \<Rightarrow> bool" where
  "agent_inv m \<longleftrightarrow>
     am_count m = count_if (\<lambda>s. s \<noteq> None) (am_agents m)
     \<and> (\<forall>k a. holds_at m k a \<longrightarrow> ag_state a \<in> live_states)
     \<and> (\<forall>j k a b. holds_at m j a \<longrightarrow> holds_at m k b \<longrightarrow> ag_id a = ag_id b \<longrightarrow> j = k)"

lemma agent_inv_unique:
  "agent_inv m \<Longrightarrow> holds_at m j a \<Longrightarrow> holds_at m k b \<Longrightarrow> ag_id a = ag_id b \<Longrightarrow> j = k \<and> a = b"
  unfolding agent_inv_def by (metis holds_at_def option.inject)

lemma agent_inv_live: "agent_inv m \<Longrightarrow> holds_at m k a \<Longrightarrow> ag_state a \<in> live_states \<and> ag_state a \<noteq> AgTerminated"
proof -
  assume "agent_inv m" "holds_at m k a"
  then have "ag_state a \<in> live_states" unfolding agent_inv_def by blast
  then show ?thesis by (auto simp: live_states_def)
qed

lemma agent_matches_iff:
  assumes "agent_inv m" "k < length (am_agents m)"
  shows "agent_matches i (am_agents m ! k) \<longleftrightarrow> (\<exists>a. holds_at m k a \<and> ag_id a = i)"
  using agent_inv_live [OF assms(1), of k] assms(2)
  by (auto simp: agent_matches_def holds_at_def split: option.splits)

lemma agent_position:
  assumes inv: "agent_inv m"
  shows "position (agent_matches i) (am_agents m) = Some k \<longleftrightarrow> (\<exists>a. holds_at m k a \<and> ag_id a = i)"
proof
  assume "position (agent_matches i) (am_agents m) = Some k"
  from position_Some [OF this] show "\<exists>a. holds_at m k a \<and> ag_id a = i"
    using agent_matches_iff [OF inv] by blast
next
  assume "\<exists>a. holds_at m k a \<and> ag_id a = i"
  then obtain a where a: "holds_at m k a" "ag_id a = i" by blast
  show "position (agent_matches i) (am_agents m) = Some k"
  proof (rule position_unique)
    show k: "k < length (am_agents m)" using a by (simp add: holds_at_def)
    show "agent_matches i (am_agents m ! k)" using a agent_matches_iff [OF inv k] by blast
    fix j assume "j < length (am_agents m)" "agent_matches i (am_agents m ! j)"
    then obtain b where "holds_at m j b" "ag_id b = i" using agent_matches_iff [OF inv] by blast
    with a agent_inv_unique [OF inv] show "j = k" by blast
  qed
qed

lemma agent_abs_Some:
  assumes inv: "agent_inv m"
  shows "agent_abs m i = Some a \<longleftrightarrow> ag_id a = i \<and> (\<exists>k. holds_at m k a)"
proof -
  have "agent_abs m i = Some a \<longleftrightarrow>
      (\<exists>k. position (agent_matches i) (am_agents m) = Some k \<and> am_agents m ! k = Some a)"
    by (simp add: agent_abs_def agent_get_def find_some_def agent_matches_def [abs_def] split: option.splits)
  also have "\<dots> \<longleftrightarrow> ag_id a = i \<and> (\<exists>k. holds_at m k a)"
    unfolding agent_position [OF inv] by (metis holds_at_def option.inject)
  finally show ?thesis .
qed

lemma agent_abs_None:
  assumes inv: "agent_inv m"
  shows "position (agent_matches i) (am_agents m) = None \<longleftrightarrow> agent_abs m i = None"
proof (cases "position (agent_matches i) (am_agents m)")
  case None
  then show ?thesis
    by (simp add: agent_abs_def agent_get_def find_some_def agent_matches_def [abs_def])
next
  case (Some k)
  then obtain a where "holds_at m k a" "ag_id a = i" using agent_position [OF inv] by blast
  then have "agent_abs m i = Some a" using agent_abs_Some [OF inv] by blast
  with Some show ?thesis by simp
qed

lemma agent_abs_card:
  assumes inv: "agent_inv m"
  shows "card (dom (agent_abs m)) = am_count m"
proof -
  let ?K = "{k. k < length (am_agents m) \<and> am_agents m ! k \<noteq> None}"
  have "dom (agent_abs m) = (\<lambda>k. ag_id (the (am_agents m ! k))) ` ?K"
    using agent_abs_Some [OF inv] by (auto simp: dom_def holds_at_def image_iff) (metis option.sel)+
  moreover have "inj_on (\<lambda>k. ag_id (the (am_agents m ! k))) ?K"
    using agent_inv_unique [OF inv] by (auto simp: inj_on_def holds_at_def)
  ultimately have "card (dom (agent_abs m)) = card ?K" by (simp add: card_image)
  also have "\<dots> = am_count m"
    using inv by (simp add: agent_inv_def count_if_def length_filter_conv_card)
  finally show ?thesis .
qed

lemma map_eqI: "(\<And>i a. A i = Some a \<longleftrightarrow> B i = Some a) \<Longrightarrow> A = B" for A B :: "'k \<rightharpoonup> 'v"
  by (rule ext) (metis option.exhaust)

text \<open>Writing a slot: an agent with the identifier of the old one, a new agent, and a removal.\<close>

definition with_slot :: "nat \<Rightarrow> agent option \<Rightarrow> nat \<Rightarrow> agent_manager \<Rightarrow> agent_manager" where
  "with_slot k v n m = m\<lparr>am_agents := (am_agents m)[k := v], am_count := n\<rparr>"

lemma holds_at_with_slot:
  "k < length (am_agents m) \<Longrightarrow>
     holds_at (with_slot k v n m) j b \<longleftrightarrow> (if j = k then v = Some b else holds_at m j b)"
  by (auto simp: holds_at_def with_slot_def nth_list_update)

lemma with_slot_inv:
  assumes inv: "agent_inv m" and k: "k < length (am_agents m)"
    and v: "\<And>a. v = Some a \<Longrightarrow> ag_state a \<in> live_states"
    and fresh: "\<And>a j b. v = Some a \<Longrightarrow> holds_at m j b \<Longrightarrow> ag_id b = ag_id a \<Longrightarrow> j = k"
    and n: "n + of_bool (am_agents m ! k \<noteq> None) = am_count m + of_bool (v \<noteq> None)"
  shows "agent_inv (with_slot k v n m)"
proof -
  have "n = count_if (\<lambda>s. s \<noteq> None) ((am_agents m)[k := v])"
    using count_if_update [OF k, of "\<lambda>s. s \<noteq> None" v] inv n by (simp add: agent_inv_def)
  moreover have "am_agents (with_slot k v n m) = (am_agents m)[k := v]" "am_count (with_slot k v n m) = n"
    by (simp_all add: with_slot_def)
  moreover have "ag_state a \<in> live_states" if "holds_at (with_slot k v n m) j a" for j a
    using that v agent_inv_live [OF inv] by (simp add: holds_at_with_slot [OF k] split: if_splits)
  moreover have "i = j"
    if "holds_at (with_slot k v n m) i a" "holds_at (with_slot k v n m) j b" "ag_id a = ag_id b" for i j a b
  proof (cases "i = k")
    case True
    show ?thesis
    proof (rule ccontr)
      assume "i \<noteq> j"
      with True that fresh [of a j b] show False by (simp add: holds_at_with_slot [OF k])
    qed
  next
    case False
    then have a: "holds_at m i a" using that(1) by (simp add: holds_at_with_slot [OF k])
    show ?thesis
    proof (cases "j = k")
      case True
      with that fresh [of b i a] a show ?thesis by (simp add: holds_at_with_slot [OF k])
    next
      case False
      then have "holds_at m j b" using that(2) by (simp add: holds_at_with_slot [OF k])
      with a that(3) agent_inv_unique [OF inv] show ?thesis by blast
    qed
  qed
  ultimately show ?thesis unfolding agent_inv_def by metis
qed

lemma with_slot_abs:
  assumes "agent_inv (with_slot k v n m)" "k < length (am_agents m)"
  shows "agent_abs (with_slot k v n m) i = Some b \<longleftrightarrow>
    ag_id b = i \<and> (v = Some b \<or> (\<exists>j. j \<noteq> k \<and> holds_at m j b))"
  unfolding agent_abs_Some [OF assms(1)] holds_at_with_slot [OF assms(2)] by (auto split: if_splits)

lemma agent_replace:
  assumes inv: "agent_inv m" and k: "holds_at m k a"
    and a': "ag_id a' = ag_id a" "ag_state a' \<in> live_states"
  shows "agent_inv (agent_put k a' m)" "agent_abs (agent_put k a' m) = (agent_abs m)(ag_id a \<mapsto> a')"
proof -
  have put: "agent_put k a' m = with_slot k (Some a') (am_count m) m"
    by (simp add: agent_put_def with_slot_def)
  have len: "k < length (am_agents m)" using k by (simp add: holds_at_def)
  show inv': "agent_inv (agent_put k a' m)"
    unfolding put
  proof (rule with_slot_inv [OF inv len])
    fix a'' j b assume "Some a' = Some a''" "holds_at m j b" "ag_id b = ag_id a''"
    with a' k agent_inv_unique [OF inv] show "j = k" by (metis option.inject)
  qed (use a' k in \<open>auto simp: holds_at_def\<close>)
  show "agent_abs (agent_put k a' m) = (agent_abs m)(ag_id a \<mapsto> a')"
  proof (rule map_eqI)
    fix i b
    show "agent_abs (agent_put k a' m) i = Some b \<longleftrightarrow> ((agent_abs m)(ag_id a \<mapsto> a')) i = Some b"
    proof (cases "i = ag_id a")
      case True
      have "\<not> holds_at m j b" if "j \<noteq> k" "ag_id b = ag_id a" for j
        using that k agent_inv_unique [OF inv, of j b k a] by auto
      with True a'(1) show ?thesis
        unfolding put with_slot_abs [OF inv' [unfolded put] len] by auto
    next
      case False
      then have "b \<noteq> a' \<and> \<not> holds_at m k b" if "ag_id b = i"
        using that k a'(1) by (auto simp: holds_at_def)
      with False show ?thesis
        unfolding put with_slot_abs [OF inv' [unfolded put] len] by (auto simp: agent_abs_Some [OF inv])
    qed
  qed
qed

lemma agent_add:
  assumes inv: "agent_inv m" and k: "k < length (am_agents m)" "am_agents m ! k = None"
    and a: "agent_abs m (ag_id a) = None" "ag_state a \<in> live_states"
  shows "agent_inv (with_slot k (Some a) (am_count m + 1) m)"
    "agent_abs (with_slot k (Some a) (am_count m + 1) m) = (agent_abs m)(ag_id a \<mapsto> a)"
proof -
  have fresh: "ag_id b \<noteq> ag_id a" if "holds_at m j b" for j b
    using that a(1) agent_abs_Some [OF inv, of "ag_id a" b] by auto
  show inv': "agent_inv (with_slot k (Some a) (am_count m + 1) m)"
    by (rule with_slot_inv [OF inv k(1)]) (use k a fresh in auto)
  have away: "\<not> holds_at m k b" for b using k by (simp add: holds_at_def)
  show "agent_abs (with_slot k (Some a) (am_count m + 1) m) = (agent_abs m)(ag_id a \<mapsto> a)"
  proof (rule map_eqI)
    fix i b
    show "agent_abs (with_slot k (Some a) (am_count m + 1) m) i = Some b \<longleftrightarrow>
        ((agent_abs m)(ag_id a \<mapsto> a)) i = Some b"
    proof (cases "i = ag_id a")
      case True
      then show ?thesis using fresh unfolding with_slot_abs [OF inv' k(1)] by auto
    next
      case False
      then show ?thesis
        using away unfolding with_slot_abs [OF inv' k(1)] by (auto simp: agent_abs_Some [OF inv]) metis
    qed
  qed
qed

lemma agent_remove:
  assumes inv: "agent_inv m" and k: "holds_at m k a"
  shows "agent_inv (with_slot k None (am_count m - 1) m)"
    "agent_abs (with_slot k None (am_count m - 1) m) = (agent_abs m)(ag_id a := None)"
proof -
  have len: "k < length (am_agents m)" "am_agents m ! k \<noteq> None" using k by (auto simp: holds_at_def)
  then have "0 < am_count m" using inv count_if_pos [of k "am_agents m" "\<lambda>s. s \<noteq> None"] by (simp add: agent_inv_def)
  then show inv': "agent_inv (with_slot k None (am_count m - 1) m)"
    by (intro with_slot_inv [OF inv len(1)]) (use len in auto)
  show "agent_abs (with_slot k None (am_count m - 1) m) = (agent_abs m)(ag_id a := None)"
  proof (rule map_eqI)
    fix i b
    show "agent_abs (with_slot k None (am_count m - 1) m) i = Some b \<longleftrightarrow>
        ((agent_abs m)(ag_id a := None)) i = Some b"
    proof (cases "i = ag_id a")
      case True
      have "\<not> holds_at m j b" if "j \<noteq> k" "ag_id b = ag_id a" for j
        using that k agent_inv_unique [OF inv, of j b k a] by auto
      with True show ?thesis unfolding with_slot_abs [OF inv' len(1)] by auto
    next
      case False
      then have "\<not> holds_at m k b" if "ag_id b = i" using that k by (auto simp: holds_at_def)
      with False show ?thesis
        unfolding with_slot_abs [OF inv' len(1)] by (auto simp: agent_abs_Some [OF inv])
    qed
  qed
qed

lemma agent_move_refines:
  assumes inv: "agent_inv m"
  shows "case spec_move from_state to_state action i (agent_abs m) of (r, A, w) \<Rightarrow>
    (case agent_get_mut i m of
       Inl e \<Rightarrow> r = Inl e \<and> A = agent_abs m \<and> w = []
     | Inr (k, a) \<Rightarrow> holds_at m k a \<and> ag_id a = i \<and> ag_state a \<in> live_states \<and>
         (if ag_state a \<noteq> from_state then r = Inl InvalidPartitionState \<and> A = agent_abs m \<and> w = []
          else r = Inr i
            \<and> w = (case action of None \<Rightarrow> [] | Some k \<Rightarrow> [agent_record k (ag_partition_id a) i])
            \<and> (to_state \<in> live_states \<longrightarrow> agent_inv (agent_put k (a\<lparr>ag_state := to_state\<rparr>) m)
                 \<and> A = agent_abs (agent_put k (a\<lparr>ag_state := to_state\<rparr>) m))))"
proof (cases "position (agent_matches i) (am_agents m)")
  case None
  moreover from None have "agent_abs m i = None" using agent_abs_None [OF inv] by simp
  ultimately show ?thesis by (simp add: agent_get_mut_def spec_move_def)
next
  case (Some k)
  then obtain a where a: "holds_at m k a" "ag_id a = i" using agent_position [OF inv] by blast
  then have "agent_abs m i = Some a" using agent_abs_Some [OF inv] by blast
  moreover have "agent_get_mut i m = Inr (k, a)" using Some a by (simp add: agent_get_mut_def holds_at_def)
  moreover note agent_inv_live [OF inv a(1)] agent_replace [OF inv a(1), of "a\<lparr>ag_state := to_state\<rparr>"]
  ultimately show ?thesis using a by (simp add: spec_move_def)
qed

lemma append_records_simps [simp]:
  "append_all H [] l = l" "append_all H [r] l = snd (log_append H r l)"
  "append_all H (rs @ ss) l = append_all H ss (append_all H rs l)"
  by (simp_all add: append_all_def)

lemma agent_put_length [simp]: "length (am_agents (agent_put k a m)) = length (am_agents m)"
  by (simp add: agent_put_def)

lemma agent_spawn_refines:
  assumes inv: "agent_inv m"
  shows "case agent_spec (length (am_agents m)) (AgSpawn config) (agent_abs m) of (r, A, w) \<Rightarrow>
    case agent_spawn H config m log of (r', m', log') \<Rightarrow>
      r' = r \<and> agent_abs m' = A \<and> agent_inv m' \<and> length (am_agents m') = length (am_agents m)
      \<and> log' = append_all H w log"
proof -
  have count: "am_count m = count_if (\<lambda>s. s \<noteq> None) (am_agents m)" using inv by (simp add: agent_inv_def)
  have dup: "list_ex (agent_matches i) (am_agents m) \<longleftrightarrow> agent_abs m i \<noteq> None" for i
    using agent_abs_None [OF inv, of i] by (auto simp: position_None list_ex_iff)
  show ?thesis
  proof (cases "am_count m < length (am_agents m) \<and> agent_abs m (ac_badge config) = None")
    case False
    then show ?thesis using inv by (auto simp: agent_spawn_def agent_abs_card [OF inv] dup Let_def)
  next
    case True
    then obtain k where k: "position (\<lambda>s. s = None) (am_agents m) = Some k"
      using count count_if_full [of "\<lambda>s. s \<noteq> None" "am_agents m"]
      by (cases "position (\<lambda>s. s = None) (am_agents m)") (auto simp: position_None)
    let ?a = "agent_new (ac_badge config) (ac_partition_id config)"
    have "agent_inv (with_slot k (Some ?a) (am_count m + 1) m)"
      "agent_abs (with_slot k (Some ?a) (am_count m + 1) m) = (agent_abs m)(ac_badge config \<mapsto> ?a)"
      using agent_add [OF inv, of k ?a] position_Some [OF k] True
      by (simp_all add: agent_new_def live_states_def)
    with True k show ?thesis
      by (simp add: agent_spawn_def agent_abs_card [OF inv] dup Let_def with_slot_def emit_agent_witness_def)
  qed
qed

lemma agent_terminate_refines:
  assumes inv: "agent_inv m"
  shows "case agent_spec n (AgTerminate i) (agent_abs m) of (r, A, w) \<Rightarrow>
    case agent_step H (AgTerminate i) (m, log) of (r', m', log') \<Rightarrow>
      r' = r \<and> agent_abs m' = A \<and> agent_inv m' \<and> length (am_agents m') = length (am_agents m)
      \<and> log' = append_all H w log"
proof (cases "position (agent_matches i) (am_agents m)")
  case None
  moreover from None have "agent_abs m i = None" using agent_abs_None [OF inv] by simp
  ultimately show ?thesis using inv by (simp add: agent_terminate_def)
next
  case (Some k)
  then obtain a where a: "holds_at m k a" "ag_id a = i" using agent_position [OF inv] by blast
  then have "agent_abs m i = Some a" using agent_abs_Some [OF inv] by blast
  then show ?thesis
    using Some a agent_inv_live [OF inv a(1)] agent_remove [OF inv a(1)]
    by (simp add: agent_terminate_def holds_at_def with_slot_def emit_agent_witness_def)
qed

lemma agent_step_refines:
  assumes inv: "agent_inv m"
  shows "case agent_spec (length (am_agents m)) c (agent_abs m) of (r, A, w) \<Rightarrow>
    case agent_step H c (m, log) of (r', m', log') \<Rightarrow>
      r' = r \<and> agent_abs m' = A \<and> agent_inv m' \<and> length (am_agents m') = length (am_agents m)
      \<and> log' = append_all H w log"
proof (cases c)
  case (AgSpawn config)
  then show ?thesis using agent_spawn_refines [OF inv] by simp
next
  case (AgActivate i)
  show ?thesis
  proof (cases "agent_get_mut i m")
    case (Inl e)
    with AgActivate inv agent_move_refines [OF inv, where from_state = AgInitializing and to_state = AgRunning
        and action = None and i = i]
    show ?thesis by (auto simp: agent_activate_def)
  next
    case (Inr ka)
    obtain k a where ka: "ka = (k, a)" by fastforce
    with AgActivate Inr inv agent_move_refines [OF inv, where from_state = AgInitializing
        and to_state = AgRunning and action = None and i = i]
    show ?thesis
      by (cases "ag_state a") (auto simp: agent_activate_def live_states_def)
  qed
next
  case (AgSuspend i)
  then show ?thesis
    using agent_move_refines [OF inv, where from_state = AgRunning and to_state = AgSuspended and action = "Some PartitionSuspend" and i = i] inv
    by (auto simp: agent_suspend_def live_states_def emit_agent_witness_def split: sum.splits prod.splits if_splits)
next
  case (AgResume i)
  then show ?thesis
    using agent_move_refines [OF inv, where from_state = AgSuspended and to_state = AgRunning and action = "Some PartitionResume" and i = i] inv
    by (auto simp: agent_resume_def live_states_def emit_agent_witness_def split: sum.splits prod.splits if_splits)
next
  case (AgTerminate i)
  then show ?thesis using agent_terminate_refines [OF inv] by simp
qed

lemma agent_run_refines:
  assumes "agent_inv m"
  shows "case agent_spec_run (length (am_agents m)) cs (agent_abs m) of (rs, A, ws) \<Rightarrow>
    case agent_run H cs (m, log) of (rs', m', log') \<Rightarrow>
      rs' = rs \<and> agent_abs m' = A \<and> log' = append_all H ws log"
  using assms
proof (induction cs arbitrary: m log)
  case (Cons c cs)
  obtain r m' log' where step: "agent_step H c (m, log) = (r, m', log')" by (metis prod_cases3)
  obtain r2 A w where spec: "agent_spec (length (am_agents m)) c (agent_abs m) = (r2, A, w)" by (metis prod_cases3)
  from agent_step_refines [OF Cons.prems, where c = c and H = H and log = log]
  have "r = r2" "agent_abs m' = A" "agent_inv m'" "length (am_agents m') = length (am_agents m)"
    "log' = append_all H w log" by (simp_all add: step spec)
  with Cons.IH [where m = m' and log = log'] show ?case
    by (auto simp: step spec Let_def split: prod.splits)
qed simp

text \<open>
  C30.  The agent registry refines a finite map.  Whatever calls are made on a new registry of a given
  capacity, their results are those of a map from identifiers to agents with that capacity, the
  look-ups of the final registry are that map, and the log has grown by exactly the records of the
  specification: one for each spawn, suspension, resumption and termination that succeeded.  No
  record is left by an activation, and no agent is ever migrating, hibernated or reconstructing.
\<close>

theorem agent_registry_refines_map:
  "let (rs, m, log') = agent_run H cs (agent_manager_new n, log);
       (spec_rs, A, records) = agent_spec_run n cs Map.empty
   in rs = spec_rs \<and> (\<lambda>i. agent_get i m) = A \<and> log' = append_all H records log"
proof -
  have "agent_inv (agent_manager_new n)"
    by (auto simp: agent_inv_def agent_manager_new_def holds_at_def)
  moreover have "agent_abs (agent_manager_new n) = Map.empty"
    by (rule ext) (simp add: agent_abs_def agent_get_def find_some_None agent_manager_new_def)
  moreover have "agent_abs m = (\<lambda>i. agent_get i m)" for m by (rule ext) (simp add: agent_abs_def)
  ultimately show ?thesis
    using agent_run_refines [of "agent_manager_new n", where cs = cs and H = H and log = log]
    by (auto simp: agent_manager_new_def split: prod.splits)
qed

section \<open>Runs of a migration\<close>

datatype migration_event = Advance u64 | Abort

fun migration_step ::
    "chain_hash \<Rightarrow> migration_event \<Rightarrow> migration_tracker \<times> witness_log
      \<Rightarrow> (rvm_error + migration_state) option \<times> migration_tracker \<times> witness_log" where
  "migration_step H (Advance now) (t, log) = apfst Some (migration_advance H now t log)"
| "migration_step H Abort (t, log) = (None, migration_abort H t log)"

fun migration_run ::
    "chain_hash \<Rightarrow> migration_event list \<Rightarrow> migration_tracker \<times> witness_log
      \<Rightarrow> (rvm_error + migration_state) option list \<times> migration_tracker \<times> witness_log" where
  "migration_run H [] s = ([], s)"
| "migration_run H (e # es) s =
     (let (r, s) = migration_step H e s; (rs, s) = migration_run H es s in (r # rs, s))"

definition migration_order :: "migration_state list" where
  "migration_order =
     [MgSerializing, MgPausingComms, MgTransferringRegions, MgUpdatingEdges, MgUpdatingGraph,
      MgVerifying, MgResuming, MgComplete]"

text \<open>An event that moves the migration on, and the answers to events after the end.\<close>

definition in_time :: "migration_plan \<Rightarrow> u64 \<Rightarrow> migration_event \<Rightarrow> bool" where
  "in_time plan start e \<longleftrightarrow>
     (case e of Advance now \<Rightarrow> saturating_sub now start \<le> mp_deadline_ns plan | Abort \<Rightarrow> False)"

definition answer_with :: "rvm_error \<Rightarrow> migration_event \<Rightarrow> (rvm_error + migration_state) option" where
  "answer_with err e = (case e of Advance _ \<Rightarrow> Some (Inl err) | Abort \<Rightarrow> None)"

lemma migration_order_next:
  assumes "k < 7"
  shows "migration_next (migration_order ! k) = Some (migration_order ! Suc k)"
    "\<not> migration_is_terminal (migration_order ! k)" "migration_order ! Suc k = MgComplete \<longleftrightarrow> k = 6"
proof -
  have "k \<in> set [0..<7]" using assms by simp
  then show "migration_next (migration_order ! k) = Some (migration_order ! Suc k)"
    "\<not> migration_is_terminal (migration_order ! k)" "migration_order ! Suc k = MgComplete \<longleftrightarrow> k = 6"
    by (auto simp: upt_rec migration_order_def migration_is_terminal_def)
qed

lemma migration_run_terminal:
  "migration_is_terminal (mt_state t) \<Longrightarrow>
     migration_run H es (t, log) = (map (answer_with InvalidPartitionState) es, t, log)"
proof (induction es)
  case (Cons e es)
  then show ?case by (cases e) (simp_all add: migration_advance_def migration_abort_def answer_with_def)
qed simp

definition migration_outcome ::
    "nat \<Rightarrow> migration_event list \<Rightarrow> migration_plan \<Rightarrow> u64
      \<Rightarrow> (rvm_error + migration_state) option list \<times> migration_state \<times> witness_record list" where
  "migration_outcome k es plan start =
     (let n = min (7 - k) (length (takeWhile (in_time plan start) es));
          moved = map (\<lambda>s. Some (Inr s)) (take n (drop (Suc k) migration_order));
          late = map (answer_with InvalidPartitionState)
      in if n = 7 - k then (moved @ late (drop n es), MgComplete, [migration_record PartitionMigrate plan])
         else case drop n es of
           [] \<Rightarrow> (moved, migration_order ! (k + n), [])
         | e # rest \<Rightarrow> (moved @ answer_with MigrationTimeout e # late rest, MgAborted,
                         [migration_record MigrationTimeoutAction plan]))"

lemma migration_run_from:
  assumes "k < 7" "mt_state t = migration_order ! k"
  shows "migration_run H es (t, log) =
    (case migration_outcome k es (mt_plan t) (mt_start_ns t) of
       (rs, s, ws) \<Rightarrow> (rs, t\<lparr>mt_state := s\<rparr>, append_all H ws log))"
  using assms
proof (induction es arbitrary: k t log)
  case Nil
  then show ?case by (simp add: migration_outcome_def Let_def)
next
  case (Cons e es)
  note next_ = migration_order_next [OF Cons.prems(1)]
  show ?case
  proof (cases "in_time (mt_plan t) (mt_start_ns t) e")
    case False
    let ?t = "t\<lparr>mt_state := MgAborted\<rparr>"
    have "migration_run H es (?t, l) = (map (answer_with InvalidPartitionState) es, ?t, l)" for l
      by (rule migration_run_terminal) (simp add: migration_is_terminal_def)
    with False next_ Cons.prems show ?thesis
      by (cases e) (simp_all add: migration_outcome_def Let_def migration_advance_def migration_abort_def
          emit_migration_witness_def answer_with_def in_time_def not_le)
  next
    case True
    then obtain now where e: "e = Advance now" by (cases e) (simp_all add: in_time_def)
    let ?t = "t\<lparr>mt_state := migration_order ! Suc k\<rparr>"
    have step: "migration_step H e (t, log) = (Some (Inr (migration_order ! Suc k)), ?t,
        if k = 6 then append_all H [migration_record PartitionMigrate (mt_plan t)] log else log)"
      using True next_ Cons.prems by (simp add: e migration_advance_def emit_migration_witness_def in_time_def)
    have len: "length migration_order = 8" by (simp add: migration_order_def)
    show ?thesis
    proof (cases "k = 6")
      case True': True
      have "migration_run H es (?t, l) = (map (answer_with InvalidPartitionState) es, ?t, l)" for l
        by (rule migration_run_terminal) (use next_ True' in \<open>simp add: migration_is_terminal_def\<close>)
      with step True True' next_ show ?thesis
        by (simp add: migration_outcome_def Let_def migration_order_def)
    next
      case False
      then have "migration_run H es (?t, log) =
        (case migration_outcome (Suc k) es (mt_plan t) (mt_start_ns t) of
           (rs, s, ws) \<Rightarrow> (rs, t\<lparr>mt_state := s\<rparr>, append_all H ws log))"
        using Cons.IH [of "Suc k" ?t log] Cons.prems by simp
      moreover have "drop (Suc k) migration_order = migration_order ! Suc k # drop (Suc (Suc k)) migration_order"
        using Cons.prems len by (simp add: Cons_nth_drop_Suc)
      moreover have "7 - k = Suc (6 - k)" "7 - Suc k = 6 - k" using Cons.prems by simp_all
      ultimately show ?thesis
        using False True step
        by (simp add: migration_outcome_def Let_def split: list.split prod.split)
    qed
  qed
qed

text \<open>
  C31.  What a migration does, whatever events arrive.  A plan between two different partitions begins, and
  the run is the one that the protocol describes: each event in time moves to the next of the seven
  steps in order; the first event out of time or the first abort before the last step ends it as aborted
  with one timeout record; the seventh step ends it as complete with one migration record; before
  either end no record is left, and after it every further step is refused.  In particular seven calls
  within the deadline complete the migration.
\<close>

theorem migration_run_exact:
  "case migration_begin plan start of
     Inl e \<Rightarrow> e = InvalidPartitionState \<and> mp_source_partition plan = mp_dest_partition plan
   | Inr t \<Rightarrow>
       migration_run H es (t, log) =
         (case migration_outcome 0 es plan start of
            (rs, s, ws) \<Rightarrow> (rs, t\<lparr>mt_state := s\<rparr>, append_all H ws log))"
proof (cases "mp_source_partition plan = mp_dest_partition plan")
  case True
  then show ?thesis by (simp add: migration_begin_def)
next
  case False
  then obtain t where t: "migration_begin plan start = Inr t" "mt_state t = migration_order ! 0"
    "mt_plan t = plan" "mt_start_ns t = start"
    by (auto simp: migration_begin_def migration_order_def)
  then show ?thesis using migration_run_from [of 0 t] by simp
qed

lemma migration_in_time_completes:
  assumes "length es = 7" "\<forall>e\<in>set es. in_time plan start e"
  shows "migration_outcome 0 es plan start =
    (map (\<lambda>s. Some (Inr s)) (tl migration_order), MgComplete, [migration_record PartitionMigrate plan])"
proof -
  have "takeWhile (in_time plan start) es = es" using assms(2) by (simp add: takeWhile_eq_all_conv)
  then have "length (takeWhile (in_time plan start) es) = 7" using assms(1) by metis
  with assms(1) show ?thesis by (simp add: migration_outcome_def Let_def migration_order_def)
qed

end
