(* ===== verification/Wasm_Quota.thy ===== *)
theory Wasm_Quota
  imports Resource_Budget
begin

text \<open>
  Crate \<open>rvm-wasm\<close>, \<open>quota.rs\<close>: the budgets of the partitions that run agents.  The combined checks
  interpret the contract of a meter where they are exact; the check of the processor time adds in 64
  bits without a check for overflow, and the exact condition under which it accepts is proved.
\<close>

section \<open>Quotas\<close>

record partition_quota =
  qu_max_cpu_us_per_epoch :: u64
  qu_max_memory_pages :: u32
  qu_max_ipc_per_epoch :: u32
  qu_max_agents :: u16

definition partition_quota_default :: partition_quota where
  "partition_quota_default =
     \<lparr>qu_max_cpu_us_per_epoch = 10000, qu_max_memory_pages = 256, qu_max_ipc_per_epoch = 1024,
      qu_max_agents = 32\<rparr>"

datatype resource_kind = KCpu | KMemory | KIpc | KAgents

record resource_usage =
  us_cpu_us :: u64
  us_memory_pages :: u32
  us_ipc_count :: u32
  us_agent_count :: u16

definition resource_usage_default :: resource_usage where
  "resource_usage_default =
     \<lparr>us_cpu_us = 0, us_memory_pages = 0, us_ipc_count = 0, us_agent_count = 0\<rparr>"

type_synonym quota_entry = "partition_id \<times> partition_quota \<times> resource_usage"

record quota_tracker =
  qt_quotas :: "quota_entry option list"
  qt_count :: nat

definition quota_tracker_new :: "nat \<Rightarrow> quota_tracker" where
  "quota_tracker_new n = \<lparr>qt_quotas = replicate n None, qt_count = 0\<rparr>"

definition quota_of :: "partition_id \<Rightarrow> quota_entry option \<Rightarrow> bool" where
  "quota_of p slot = (case slot of None \<Rightarrow> False | Some entry \<Rightarrow> fst entry = p)"

definition quota_register ::
    "partition_id \<Rightarrow> partition_quota \<Rightarrow> quota_tracker \<Rightarrow> (rvm_error, unit, quota_tracker) outcome" where
  "quota_register p quota t =
     (if list_ex (quota_of p) (qt_quotas t) then (Inl InvalidPartitionState, t)
      else if qt_count t \<ge> length (qt_quotas t) then (Inl ResourceLimitExceeded, t)
      else case position (\<lambda>slot. slot = None) (qt_quotas t) of
        Some k \<Rightarrow>
          (Inr (), t\<lparr>qt_quotas := (qt_quotas t)[k := Some (p, quota, resource_usage_default)],
                    qt_count := qt_count t + 1\<rparr>)
      | None \<Rightarrow> (Inl InternalError, t))"

definition quota_find :: "partition_id \<Rightarrow> quota_tracker \<Rightarrow> rvm_error + quota_entry" where
  "quota_find p t =
     (case position (quota_of p) (qt_quotas t) of
        Some k \<Rightarrow> Inr (the (qt_quotas t ! k))
      | None \<Rightarrow> Inl PartitionNotFound)"

text \<open>\<open>find_mut\<close> and a change of the usage through the reference that it returns.\<close>

definition quota_find_mut :: "partition_id \<Rightarrow> quota_tracker \<Rightarrow> rvm_error + nat \<times> quota_entry" where
  "quota_find_mut p t =
     (case position (quota_of p) (qt_quotas t) of
        Some k \<Rightarrow> Inr (k, the (qt_quotas t ! k))
      | None \<Rightarrow> Inl PartitionNotFound)"

definition quota_put :: "nat \<Rightarrow> quota_entry \<Rightarrow> resource_usage \<Rightarrow> quota_tracker \<Rightarrow> quota_tracker" where
  "quota_put k entry usage t =
     t\<lparr>qt_quotas := (qt_quotas t)[k := Some (fst entry, fst (snd entry), usage)]\<rparr>"

definition check_quota ::
    "partition_id \<Rightarrow> resource_kind \<Rightarrow> u64 \<Rightarrow> quota_tracker \<Rightarrow> rvm_error + unit" where
  "check_quota p resource amount t =
     (case quota_find p t of
        Inl e \<Rightarrow> Inl e
      | Inr (_, quota, usage) \<Rightarrow>
          let within_budget =
                (case resource of
                   KCpu \<Rightarrow> us_cpu_us usage + amount \<le> qu_max_cpu_us_per_epoch quota
                 | KMemory \<Rightarrow> ucast (us_memory_pages usage) + amount \<le> ucast (qu_max_memory_pages quota)
                 | KIpc \<Rightarrow> ucast (us_ipc_count usage) + amount \<le> ucast (qu_max_ipc_per_epoch quota)
                 | KAgents \<Rightarrow> ucast (us_agent_count usage) + amount \<le> ucast (qu_max_agents quota))
          in if within_budget then Inr () else Inl ResourceLimitExceeded)"

definition record_usage ::
    "partition_id \<Rightarrow> resource_kind \<Rightarrow> u64 \<Rightarrow> quota_tracker \<Rightarrow> (rvm_error, unit, quota_tracker) outcome" where
  "record_usage p resource amount t =
     (case quota_find_mut p t of
        Inl e \<Rightarrow> (Inl e, t)
      | Inr (k, entry) \<Rightarrow>
          let usage = snd (snd entry);
              usage =
                (case resource of
                   KCpu \<Rightarrow> usage\<lparr>us_cpu_us := saturating_add (us_cpu_us usage) amount\<rparr>
                 | KMemory \<Rightarrow> usage\<lparr>us_memory_pages := saturating_add (us_memory_pages usage) (ucast amount)\<rparr>
                 | KIpc \<Rightarrow> usage\<lparr>us_ipc_count := saturating_add (us_ipc_count usage) (ucast amount)\<rparr>
                 | KAgents \<Rightarrow> usage\<lparr>us_agent_count := saturating_add (us_agent_count usage) (ucast amount)\<rparr>)
          in (Inr (), quota_put k entry usage t))"

text \<open>The bodies of the combined checks on the entry of the partition.\<close>

definition charge_cpu ::
    "u64 \<Rightarrow> partition_quota \<times> resource_usage \<Rightarrow> (rvm_error, unit, partition_quota \<times> resource_usage) outcome" where
  "charge_cpu us = (\<lambda>(quota, usage).
     if us_cpu_us usage + us > qu_max_cpu_us_per_epoch quota then (Inl ResourceLimitExceeded, quota, usage)
     else (Inr (), quota, usage\<lparr>us_cpu_us := saturating_add (us_cpu_us usage) us\<rparr>))"

definition charge_memory ::
    "u32 \<Rightarrow> partition_quota \<times> resource_usage \<Rightarrow> (rvm_error, unit, partition_quota \<times> resource_usage) outcome" where
  "charge_memory pages = (\<lambda>(quota, usage).
     if (ucast (us_memory_pages usage) :: u64) + ucast pages > ucast (qu_max_memory_pages quota)
     then (Inl ResourceLimitExceeded, quota, usage)
     else (Inr (), quota, usage\<lparr>us_memory_pages := saturating_add (us_memory_pages usage) pages\<rparr>))"

definition charge_ipc ::
    "partition_quota \<times> resource_usage \<Rightarrow> (rvm_error, unit, partition_quota \<times> resource_usage) outcome" where
  "charge_ipc = (\<lambda>(quota, usage).
     if (ucast (us_ipc_count usage) :: u64) + 1 > ucast (qu_max_ipc_per_epoch quota)
     then (Inl ResourceLimitExceeded, quota, usage)
     else (Inr (), quota, usage\<lparr>us_ipc_count := saturating_add (us_ipc_count usage) 1\<rparr>))"

definition with_quota ::
    "partition_id \<Rightarrow> (partition_quota \<times> resource_usage \<Rightarrow> (rvm_error, unit, partition_quota \<times> resource_usage) outcome)
      \<Rightarrow> quota_tracker \<Rightarrow> (rvm_error, unit, quota_tracker) outcome" where
  "with_quota p charge t =
     (case quota_find_mut p t of
        Inl e \<Rightarrow> (Inl e, t)
      | Inr (k, entry) \<Rightarrow>
          (case charge (snd entry) of (r, _, usage) \<Rightarrow> (r, quota_put k entry usage t)))"

definition check_and_record_cpu ::
    "partition_id \<Rightarrow> u64 \<Rightarrow> quota_tracker \<Rightarrow> (rvm_error, unit, quota_tracker) outcome" where
  "check_and_record_cpu p us = with_quota p (charge_cpu us)"

definition check_and_record_memory ::
    "partition_id \<Rightarrow> u32 \<Rightarrow> quota_tracker \<Rightarrow> (rvm_error, unit, quota_tracker) outcome" where
  "check_and_record_memory p pages = with_quota p (charge_memory pages)"

definition check_and_record_ipc ::
    "partition_id \<Rightarrow> quota_tracker \<Rightarrow> (rvm_error, unit, quota_tracker) outcome" where
  "check_and_record_ipc p = with_quota p charge_ipc"

definition over_quota :: "partition_quota \<Rightarrow> resource_usage \<Rightarrow> bool" where
  "over_quota quota usage \<longleftrightarrow>
     us_cpu_us usage > qu_max_cpu_us_per_epoch quota \<or> us_memory_pages usage > qu_max_memory_pages quota
     \<or> us_ipc_count usage > qu_max_ipc_per_epoch quota \<or> us_agent_count usage > qu_max_agents quota"

definition enforce_quota :: "partition_id \<Rightarrow> quota_tracker \<Rightarrow> rvm_error + bool" where
  "enforce_quota p t =
     (case quota_find p t of Inl e \<Rightarrow> Inl e | Inr (_, quota, usage) \<Rightarrow> Inr (over_quota quota usage))"

definition reset_epoch_counters :: "quota_tracker \<Rightarrow> quota_tracker" where
  "reset_epoch_counters t =
     t\<lparr>qt_quotas := map (map_option (\<lambda>(p, quota, usage). (p, quota, usage\<lparr>us_cpu_us := 0, us_ipc_count := 0\<rparr>)))
                     (qt_quotas t)\<rparr>"

definition quota_usage :: "partition_id \<Rightarrow> quota_tracker \<Rightarrow> rvm_error + resource_usage" where
  "quota_usage p t = (case quota_find p t of Inl e \<Rightarrow> Inl e | Inr (_, _, usage) \<Rightarrow> Inr usage)"

section \<open>The checks as meters\<close>

lemma widened_sum:
  fixes a b c :: u32
  shows "(ucast c :: u64) < ucast a + ucast b \<longleftrightarrow> unat c < unat a + unat b"
proof -
  have "unat a < 2 ^ 32" "unat b < 2 ^ 32" "unat c < 2 ^ 32"
    using unsigned_less [of a] unsigned_less [of b] unsigned_less [of c] by simp_all
  then show ?thesis by (simp add: word_less_nat_alt unat_word_ariths unsigned_ucast_eq take_bit_nat_eq_self)
qed

lemma widened_succ: "(ucast c :: u64) < ucast a + 1 \<longleftrightarrow> unat c \<le> unat a" for a c :: u32
  using widened_sum [of c a 1] by (simp add: less_Suc_eq_le)

lemma saturating_add_fits:
  fixes a b c :: "'a::len word"
  assumes "unat a + unat b \<le> unat c"
  shows "unat (saturating_add a b) = unat a + unat b"
proof -
  have "unat c < 2 ^ LENGTH('a)" by (rule unsigned_less)
  with assms have "unat a + unat b \<le> 2 ^ LENGTH('a) - 1" by linarith
  then show ?thesis by (simp add: saturating_add_unat)
qed

lemma saturating_succ_fits: "unat a < unat c \<Longrightarrow> unat (saturating_add a 1) = Suc (unat a)" for a c :: "'a::len word"
  using saturating_add_fits [of a 1 c] by simp

interpretation quota_memory: meter charge_memory unat "\<lambda>(q, u). unat (qu_max_memory_pages q)"
    "\<lambda>(q, u). unat (us_memory_pages u)" ResourceLimitExceeded
  by unfold_locales
     (auto simp: charge_memory_def widened_sum saturating_add_fits saturating_add_fits [OF leI] split: prod.splits)

interpretation quota_ipc: meter "\<lambda>_ :: unit. charge_ipc" "\<lambda>_. 1" "\<lambda>(q, u). unat (qu_max_ipc_per_epoch q)"
    "\<lambda>(q, u). unat (us_ipc_count u)" ResourceLimitExceeded
  by unfold_locales (auto simp: charge_ipc_def widened_succ Suc_le_eq saturating_succ_fits saturating_succ_fits [OF not_le_imp_less] split: prod.splits)

text \<open>
  The processor time is the exception: the sum wraps, so the check accepts exactly when the sum modulo
  two to the 64 is within the budget, and what it then records is the saturated sum.
\<close>

lemma charge_cpu_exact:
  "fst (charge_cpu us (q, u)) = Inr () \<longleftrightarrow>
     (unat (us_cpu_us u) + unat us) mod 2 ^ 64 \<le> unat (qu_max_cpu_us_per_epoch q)"
  by (simp add: charge_cpu_def word_less_nat_alt unat_word_ariths)

lemma charge_cpu_bypass:
  assumes "2 ^ 64 \<le> unat (us_cpu_us u) + unat us"
    and "unat (us_cpu_us u) + unat us - 2 ^ 64 \<le> unat (qu_max_cpu_us_per_epoch q)"
  shows "charge_cpu us (q, u) = (Inr (), q, u\<lparr>us_cpu_us := - 1\<rparr>)"
proof -
  have "unat (us_cpu_us u) < 2 ^ 64" "unat us < 2 ^ 64"
    using unsigned_less [of "us_cpu_us u"] unsigned_less [of us] by simp_all
  then have "(unat (us_cpu_us u) + unat us) mod 2 ^ 64 = unat (us_cpu_us u) + unat us - 2 ^ 64"
    using assms(1) by (simp add: mod_if)
  with assms charge_cpu_exact [of us q u] show ?thesis
    by (auto simp: charge_cpu_def saturating_add_def split: if_splits)
qed

section \<open>Limits over a run\<close>

datatype quota_call =
    QRegister partition_id partition_quota | QCpu partition_id u64 | QMemory partition_id u32
  | QIpc partition_id | QReset

fun quota_step :: "quota_call \<Rightarrow> quota_tracker \<Rightarrow> (rvm_error, unit, quota_tracker) outcome" where
  "quota_step (QRegister p q) t = quota_register p q t"
| "quota_step (QCpu p us) t = check_and_record_cpu p us t"
| "quota_step (QMemory p pages) t = check_and_record_memory p pages t"
| "quota_step (QIpc p) t = check_and_record_ipc p t"
| "quota_step QReset t = (Inr (), reset_epoch_counters t)"

definition quota_run :: "quota_call list \<Rightarrow> quota_tracker \<Rightarrow> quota_tracker" where
  "quota_run cs t = fold (\<lambda>c t. snd (quota_step c t)) cs t"

text \<open>Budgets and requests of processor time below two to the 63, whose sums do not wrap.\<close>

fun modest :: "quota_call \<Rightarrow> bool" where
  "modest (QRegister p q) \<longleftrightarrow> qu_max_cpu_us_per_epoch q < 0x8000000000000000"
| "modest (QCpu p us) \<longleftrightarrow> us < 0x8000000000000000"
| "modest _ \<longleftrightarrow> True"

definition entry_ok :: "partition_quota \<times> resource_usage \<Rightarrow> bool" where
  "entry_ok e \<longleftrightarrow> \<not> over_quota (fst e) (snd e) \<and> qu_max_cpu_us_per_epoch (fst e) < 0x8000000000000000"

definition tracker_ok :: "quota_tracker \<Rightarrow> bool" where
  "tracker_ok t \<longleftrightarrow> (\<forall>p e. Some (p, e) \<in> set (qt_quotas t) \<longrightarrow> entry_ok e)"

lemma tracker_ok_put:
  assumes "tracker_ok t" "entry_ok e" "qt_quotas t' = (qt_quotas t)[k := Some (p, e)]"
  shows "tracker_ok t'"
  unfolding tracker_ok_def assms(3)
proof (intro allI impI)
  fix p' e' assume "Some (p', e') \<in> set ((qt_quotas t)[k := Some (p, e)])"
  then have "Some (p', e') = Some (p, e) \<or> Some (p', e') \<in> set (qt_quotas t)"
    using set_update_subset_insert by fast
  then show "entry_ok e'" using assms(1,2) by (auto simp: tracker_ok_def simp del: split_paired_All)
qed

lemma with_quota_ok:
  assumes "tracker_ok t" "\<And>e. entry_ok e \<Longrightarrow> entry_ok (fst e, snd (snd (charge e)))"
  shows "tracker_ok (snd (with_quota p charge t))"
proof (cases "position (quota_of p) (qt_quotas t)")
  case None
  then show ?thesis using assms(1) by (simp add: with_quota_def quota_find_mut_def)
next
  case (Some k)
  then obtain e where e: "qt_quotas t ! k = Some (p, e)" "k < length (qt_quotas t)"
    using position_Some [OF Some] by (fastforce simp: quota_of_def split: option.splits)
  then have "Some (p, e) \<in> set (qt_quotas t)" by (metis nth_mem)
  then have "entry_ok e" using assms(1) unfolding tracker_ok_def by blast
  then have "entry_ok (fst e, snd (snd (charge e)))" by (rule assms(2))
  moreover have "qt_quotas (snd (with_quota p charge t)) = (qt_quotas t)[k := Some (p, fst e, snd (snd (charge e)))]"
    using Some e by (simp add: with_quota_def quota_find_mut_def quota_put_def split_beta)
  ultimately show ?thesis by (rule tracker_ok_put [OF assms(1)])
qed

lemma charge_memory_ok: "entry_ok e \<Longrightarrow> entry_ok (fst e, snd (snd (charge_memory n e)))"
  using quota_memory.charge_bounded [of e n] by (cases e) (auto simp: entry_ok_def over_quota_def charge_memory_def word_less_nat_alt)

lemma charge_ipc_ok: "entry_ok e \<Longrightarrow> entry_ok (fst e, snd (snd (charge_ipc e)))"
  using quota_ipc.charge_bounded [of e] by (cases e) (auto simp: entry_ok_def over_quota_def charge_ipc_def word_less_nat_alt)

lemma charge_cpu_ok:
  assumes "entry_ok e" "us < 0x8000000000000000"
  shows "entry_ok (fst e, snd (snd (charge_cpu us e)))"
proof (cases e)
  case (Pair q u)
  have "unat (us_cpu_us u) < 2 ^ 63" "unat us < 2 ^ 63"
    using assms by (auto simp: Pair entry_ok_def over_quota_def word_less_nat_alt)
  then have "saturating_add (us_cpu_us u) us = us_cpu_us u + us" by (simp add: saturating_add_def)
  with assms show ?thesis by (auto simp: Pair entry_ok_def over_quota_def charge_cpu_def)
qed

lemma quota_step_ok:
  assumes "tracker_ok t" "modest c"
  shows "tracker_ok (snd (quota_step c t))"
proof (cases c)
  case (QRegister p q)
  have "tracker_ok (snd (quota_register p q t))"
  proof (cases "snd (quota_register p q t) = t")
    case True
    with assms(1) show ?thesis by simp
  next
    case False
    then obtain k where "qt_quotas (snd (quota_register p q t)) =
        (qt_quotas t)[k := Some (p, q, resource_usage_default)]"
      by (auto simp: quota_register_def split: option.splits if_splits)
    moreover have "entry_ok (q, resource_usage_default)"
      using assms(2) by (simp add: QRegister entry_ok_def over_quota_def resource_usage_default_def)
    ultimately show ?thesis using tracker_ok_put [OF assms(1)] by blast
  qed
  then show ?thesis by (simp add: QRegister)
next
  case QReset
  with assms show ?thesis
    by (auto simp: reset_epoch_counters_def tracker_ok_def entry_ok_def over_quota_def
        eq_commute [of "Some _" "map_option _ _"])
qed (use assms in \<open>simp_all add: check_and_record_cpu_def check_and_record_memory_def
      check_and_record_ipc_def with_quota_ok charge_cpu_ok charge_memory_ok charge_ipc_ok\<close>)

text \<open>
  C32.  The combined checks keep every partition within its quota.  After any sequence of registrations,
  combined checks and epoch resets on a new tracker, no partition is over any limit, as long as the
  budgets and requests of processor time are below two to the 63.  Without that bound the check of
  the processor time wraps and admits requests beyond the budget (\<open>charge_cpu_bypass\<close>).
\<close>

theorem quota_never_exceeded:
  assumes "list_all modest cs"
  shows "enforce_quota p (quota_run cs (quota_tracker_new n)) \<noteq> Inr True"
proof -
  have "tracker_ok (quota_run cs t)" if "tracker_ok t" for t
    using that assms unfolding quota_run_def
    by (induction cs arbitrary: t) (simp_all add: quota_step_ok)
  then have ok: "tracker_ok (quota_run cs (quota_tracker_new n))"
    using tracker_ok_def [of "quota_tracker_new n"] by (simp add: quota_tracker_new_def)
  show ?thesis
  proof (cases "position (quota_of p) (qt_quotas (quota_run cs (quota_tracker_new n)))")
    case None
    then show ?thesis by (simp add: enforce_quota_def quota_find_def)
  next
    case (Some k)
    then obtain e where "qt_quotas (quota_run cs (quota_tracker_new n)) ! k = Some (p, e)"
      "k < length (qt_quotas (quota_run cs (quota_tracker_new n)))"
      using position_Some [OF Some] by (fastforce simp: quota_of_def split: option.splits)
    moreover from this have "entry_ok e" using ok by (metis tracker_ok_def nth_mem)
    ultimately show ?thesis using Some by (simp add: enforce_quota_def quota_find_def entry_ok_def split_beta)
  qed
qed

theorem quota_never_exceeded_witness:
  "enforce_quota 7 (quota_run [QRegister 7 partition_quota_default, QCpu 7 9999, QCpu 7 2, QMemory 7 256,
     QMemory 7 1, QIpc 7, QReset, QCpu 7 10000] (quota_tracker_new 2)) \<noteq> Inr True"
  by (rule quota_never_exceeded) (simp add: partition_quota_default_def)

end
