(* ===== verification/Wasm_Host.thy ===== *)
theory Wasm_Host
  imports Ipc Wasm_Agent
begin

text \<open>
  Crate \<open>rvm-wasm\<close>, \<open>host_functions.rs\<close>: the calls that a WebAssembly guest makes, and the host context of
  the kernel, \<open>KernelHostContext\<close> in \<open>rvm-kernel/src/lib.rs\<close>.  The trait \<open>HostContext\<close> is a record of its
  methods over a state; the default methods of the trait are the record \<open>host_default\<close>.  The Cargo
  feature \<open>gpu\<close> is a Boolean argument.
\<close>

section \<open>Host functions\<close>

datatype host_function =
    HfSend | HfReceive | HfAlloc | HfFree | HfSpawn | HfYield | HfGetTime | HfGetId
  | HfGpuLaunch | HfGpuAlloc | HfGpuFree | HfGpuTransfer | HfGpuSync

fun required_rights :: "host_function \<Rightarrow> cap_rights" where
  "required_rights HfSend = WRITE"
| "required_rights HfReceive = READ"
| "required_rights HfAlloc = WRITE"
| "required_rights HfFree = WRITE"
| "required_rights HfSpawn = EXECUTE"
| "required_rights HfYield = READ"
| "required_rights HfGetTime = READ"
| "required_rights HfGetId = READ"
| "required_rights HfGpuLaunch = EXECUTE OR WRITE"
| "required_rights HfGpuAlloc = WRITE"
| "required_rights HfGpuFree = WRITE"
| "required_rights HfGpuTransfer = READ OR WRITE"
| "required_rights HfGpuSync = READ"

definition host_function_from_u8 :: "u8 \<Rightarrow> host_function option" where
  "host_function_from_u8 b =
     (if b = 0 then Some HfSend else if b = 1 then Some HfReceive else if b = 2 then Some HfAlloc
      else if b = 3 then Some HfFree else if b = 4 then Some HfSpawn else if b = 5 then Some HfYield
      else if b = 6 then Some HfGetTime else if b = 7 then Some HfGetId
      else if b = 8 then Some HfGpuLaunch else if b = 9 then Some HfGpuAlloc
      else if b = 10 then Some HfGpuFree else if b = 11 then Some HfGpuTransfer
      else if b = 12 then Some HfGpuSync else None)"

datatype host_call_result = HostSuccess u64 | HostError rvm_error

fun into_result :: "host_call_result \<Rightarrow> rvm_error + u64" where
  "into_result (HostSuccess v) = Inr v"
| "into_result (HostError e) = Inl e"

definition host_is_success :: "host_call_result \<Rightarrow> bool" where
  "host_is_success r \<longleftrightarrow> (case r of HostSuccess _ \<Rightarrow> True | HostError _ \<Rightarrow> False)"

record host_call_args =
  ha_arg0 :: u64
  ha_arg1 :: u64
  ha_arg2 :: u64

definition host_args_empty :: host_call_args where
  "host_args_empty = \<lparr>ha_arg0 = 0, ha_arg1 = 0, ha_arg2 = 0\<rparr>"

section \<open>Host contexts\<close>

record 'c host_context =
  hc_send :: "agent_id \<Rightarrow> u64 \<Rightarrow> u64 \<Rightarrow> 'c \<Rightarrow> (rvm_error, u64, 'c) outcome"
  hc_receive :: "agent_id \<Rightarrow> 'c \<Rightarrow> (rvm_error, u64, 'c) outcome"
  hc_alloc :: "agent_id \<Rightarrow> u64 \<Rightarrow> 'c \<Rightarrow> (rvm_error, u64, 'c) outcome"
  hc_free :: "agent_id \<Rightarrow> u64 \<Rightarrow> 'c \<Rightarrow> (rvm_error, u64, 'c) outcome"
  hc_spawn :: "agent_id \<Rightarrow> u64 \<Rightarrow> 'c \<Rightarrow> (rvm_error, u64, 'c) outcome"
  hc_yield_quantum :: "agent_id \<Rightarrow> 'c \<Rightarrow> (rvm_error, u64, 'c) outcome"
  hc_get_time :: "'c \<Rightarrow> u64"
  hc_gpu_launch :: "agent_id \<Rightarrow> u64 \<Rightarrow> u64 \<Rightarrow> 'c \<Rightarrow> (rvm_error, u64, 'c) outcome"
  hc_gpu_alloc :: "agent_id \<Rightarrow> u64 \<Rightarrow> 'c \<Rightarrow> (rvm_error, u64, 'c) outcome"
  hc_gpu_free :: "agent_id \<Rightarrow> u64 \<Rightarrow> 'c \<Rightarrow> (rvm_error, u64, 'c) outcome"
  hc_gpu_transfer :: "agent_id \<Rightarrow> u64 \<Rightarrow> u64 \<Rightarrow> u64 \<Rightarrow> 'c \<Rightarrow> (rvm_error, u64, 'c) outcome"
  hc_gpu_sync :: "agent_id \<Rightarrow> 'c \<Rightarrow> (rvm_error, u64, 'c) outcome"

definition host_default :: "'c host_context" where
  "host_default =
     \<lparr>hc_send = (\<lambda>sender target len c. (Inr len, c)),
      hc_receive = (\<lambda>receiver c. (Inr 0, c)),
      hc_alloc = (\<lambda>agent pages c.
        if pages = 0 \<or> pages > 65536 then (Inl ResourceLimitExceeded, c) else (Inr pages, c)),
      hc_free = (\<lambda>agent base c. (Inr 0, c)),
      hc_spawn = (\<lambda>parent badge c. (Inr badge, c)),
      hc_yield_quantum = (\<lambda>agent c. (Inr 0, c)),
      hc_get_time = (\<lambda>c. 0),
      hc_gpu_launch = (\<lambda>agent kernel config c. (Inl InternalError, c)),
      hc_gpu_alloc = (\<lambda>agent bytes c. (Inl InternalError, c)),
      hc_gpu_free = (\<lambda>agent buffer c. (Inl InternalError, c)),
      hc_gpu_transfer = (\<lambda>agent src dst bytes c. (Inl InternalError, c)),
      hc_gpu_sync = (\<lambda>agent c. (Inl InternalError, c))\<rparr>"

definition host_reply :: "(rvm_error, u64, 'c) outcome \<Rightarrow> host_call_result \<times> 'c" where
  "host_reply = (\<lambda>(r, c). (case r of Inr v \<Rightarrow> HostSuccess v | Inl e \<Rightarrow> HostError e, c))"

definition host_handler ::
    "bool \<Rightarrow> 'c host_context \<Rightarrow> agent_id \<Rightarrow> host_function \<Rightarrow> host_call_args \<Rightarrow> 'c \<Rightarrow> host_call_result \<times> 'c" where
  "host_handler gpu ops agent f args c =
     (case f of
        HfGetId \<Rightarrow> (HostSuccess (ucast agent), c)
      | HfGetTime \<Rightarrow> (HostSuccess (hc_get_time ops c), c)
      | HfYield \<Rightarrow> host_reply (hc_yield_quantum ops agent c)
      | HfAlloc \<Rightarrow> host_reply (hc_alloc ops agent (ha_arg0 args) c)
      | HfFree \<Rightarrow> host_reply (hc_free ops agent (ha_arg0 args) c)
      | HfSend \<Rightarrow> host_reply (hc_send ops agent (ha_arg0 args) (ha_arg1 args) c)
      | HfReceive \<Rightarrow> host_reply (hc_receive ops agent c)
      | HfSpawn \<Rightarrow> host_reply (hc_spawn ops agent (ha_arg0 args) c)
      | HfGpuLaunch \<Rightarrow>
          if gpu then host_reply (hc_gpu_launch ops agent (ha_arg0 args) (ha_arg1 args) c)
          else (HostError InternalError, c)
      | HfGpuAlloc \<Rightarrow>
          if gpu then host_reply (hc_gpu_alloc ops agent (ha_arg0 args) c) else (HostError InternalError, c)
      | HfGpuFree \<Rightarrow>
          if gpu then host_reply (hc_gpu_free ops agent (ha_arg0 args) c) else (HostError InternalError, c)
      | HfGpuTransfer \<Rightarrow>
          if gpu then host_reply (hc_gpu_transfer ops agent (ha_arg0 args) (ha_arg1 args) (ha_arg2 args) c)
          else (HostError InternalError, c)
      | HfGpuSync \<Rightarrow>
          if gpu then host_reply (hc_gpu_sync ops agent c) else (HostError InternalError, c))"

definition dispatch_host_call ::
    "bool \<Rightarrow> 'c host_context \<Rightarrow> agent_id \<Rightarrow> host_function \<Rightarrow> host_call_args \<Rightarrow> cap_token \<Rightarrow> 'c
      \<Rightarrow> host_call_result \<times> 'c" where
  "dispatch_host_call gpu ops agent f args token c =
     (if \<not> has_rights token (required_rights f) then (HostError InsufficientCapability, c)
      else host_handler gpu ops agent f args c)"

definition dispatch_host_call_stub ::
    "bool \<Rightarrow> agent_id \<Rightarrow> host_function \<Rightarrow> host_call_args \<Rightarrow> cap_token \<Rightarrow> host_call_result" where
  "dispatch_host_call_stub gpu agent f args token =
     fst (dispatch_host_call gpu host_default agent f args token ())"

section \<open>The host context of the kernel\<close>

record kernel_host_context =
  kh_partition :: partition_id
  kh_ipc :: ipc_manager
  kh_active_channel :: "comm_edge_id option"
  kh_next_sequence :: u64

definition host_message :: "kernel_host_context \<Rightarrow> comm_edge_id \<Rightarrow> u64 \<Rightarrow> u64 \<Rightarrow> ipc_message" where
  "host_message c edge target len =
     \<lparr>msg_sender = kh_partition c, msg_receiver = ucast target, msg_edge_id = edge,
      msg_payload_len = ucast len, msg_type = 0, msg_sequence = kh_next_sequence c,
      msg_capability_hash = 0\<rparr>"

definition kernel_host_send ::
    "agent_id \<Rightarrow> u64 \<Rightarrow> u64 \<Rightarrow> kernel_host_context \<Rightarrow> (rvm_error, u64, kernel_host_context) outcome" where
  "kernel_host_send sender target len c =
     (case kh_active_channel c of
        None \<Rightarrow> (Inl PartitionNotFound, c)
      | Some edge \<Rightarrow>
          if target > ucast U32_MAX then (Inl ResourceLimitExceeded, c)
          else if (ucast target :: u32) = 0 then (Inl InsufficientCapability, c)
          else if ucast target = kh_partition c then (Inl InsufficientCapability, c)
          else if len > ucast U16_MAX then (Inl ResourceLimitExceeded, c)
          else
            let msg = host_message c edge target len;
                c = c\<lparr>kh_next_sequence := kh_next_sequence c + 1\<rparr>
            in case ipc_send edge msg (kh_partition c) (kh_ipc c) of
                 (Inl e, m) \<Rightarrow> (Inl e, c\<lparr>kh_ipc := m\<rparr>)
               | (Inr _, m) \<Rightarrow> (Inr len, c\<lparr>kh_ipc := m\<rparr>))"

definition kernel_host_receive ::
    "agent_id \<Rightarrow> kernel_host_context \<Rightarrow> (rvm_error, u64, kernel_host_context) outcome" where
  "kernel_host_receive receiver c =
     (case kh_active_channel c of
        None \<Rightarrow> (Inl PartitionNotFound, c)
      | Some edge \<Rightarrow>
          (case ipc_receive edge (kh_ipc c) of
             (Inl e, m) \<Rightarrow> (Inl e, c\<lparr>kh_ipc := m\<rparr>)
           | (Inr (Some msg), m) \<Rightarrow> (Inr (ucast (msg_payload_len msg)), c\<lparr>kh_ipc := m\<rparr>)
           | (Inr None, m) \<Rightarrow> (Inr 0, c\<lparr>kh_ipc := m\<rparr>)))"

definition kernel_host :: "kernel_host_context host_context" where
  "kernel_host = host_default\<lparr>hc_send := kernel_host_send, hc_receive := kernel_host_receive\<rparr>"

section \<open>What a guest can do\<close>

type_synonym guest_call = "host_function \<times> host_call_args \<times> cap_token"

fun guest_run ::
    "bool \<Rightarrow> agent_id \<Rightarrow> guest_call list \<Rightarrow> kernel_host_context
      \<Rightarrow> host_call_result list \<times> kernel_host_context" where
  "guest_run gpu agent [] c = ([], c)"
| "guest_run gpu agent ((f, args, token) # calls) c =
     (let (r, c) = dispatch_host_call gpu kernel_host agent f args token c;
          (rs, c) = guest_run gpu agent calls c
      in (r # rs, c))"

text \<open>A message that the guest of a partition may put on an edge.\<close>

definition guest_message :: "partition_id \<Rightarrow> comm_edge_id \<Rightarrow> ipc_message \<Rightarrow> bool" where
  "guest_message p edge msg \<longleftrightarrow>
     msg_sender msg = p \<and> msg_edge_id msg = edge \<and> msg_receiver msg \<noteq> HYPERVISOR \<and> msg_receiver msg \<noteq> p"

text \<open>How a channel may change: messages leave its front, and messages of the guest join its end.\<close>

fun served ::
    "partition_id \<Rightarrow> comm_edge_id \<Rightarrow> rvm_error + channel_meta \<Rightarrow> rvm_error + channel_meta \<Rightarrow> bool" where
  "served p e (Inl err) r \<longleftrightarrow> r = Inl err"
| "served p e (Inr ch) r \<longleftrightarrow>
     (\<exists>ch' taken sent. r = Inr ch' \<and> ch_source ch' = ch_source ch
        \<and> mq_contents (ch_queue ch) @ sent = taken @ mq_contents (ch_queue ch')
        \<and> list_all (guest_message p e) sent \<and> (ch_source ch \<noteq> p \<longrightarrow> sent = []))"

text \<open>The relation between the context before and after some calls.\<close>

definition confined :: "kernel_host_context \<Rightarrow> kernel_host_context \<Rightarrow> bool" where
  "confined c c' \<longleftrightarrow>
     ipc_inv (kh_ipc c') \<and> kh_partition c' = kh_partition c \<and> kh_active_channel c' = kh_active_channel c
     \<and> (\<forall>e. if kh_active_channel c = Some e
            then served (kh_partition c) e (ipc_find e (kh_ipc c)) (ipc_find e (kh_ipc c'))
            else ipc_find e (kh_ipc c') = ipc_find e (kh_ipc c))"

lemma served_intro:
  "ch_source ch' = ch_source ch \<Longrightarrow> mq_contents (ch_queue ch) @ sent = taken @ mq_contents (ch_queue ch')
    \<Longrightarrow> list_all (guest_message p e) sent \<Longrightarrow> (ch_source ch \<noteq> p \<Longrightarrow> sent = []) \<Longrightarrow> served p e (Inr ch) (Inr ch')"
  by auto

lemma served_refl: "served p e r r"
proof (cases r)
  case (Inr ch)
  show ?thesis unfolding Inr by (rule served_intro [of _ _ "[]" "[]"]) simp_all
qed simp

lemma served_trans:
  assumes "served p e r r1" "served p e r1 r2"
  shows "served p e r r2"
proof (cases r)
  case (Inl err)
  with assms show ?thesis by simp
next
  case (Inr ch)
  with assms(1) obtain ch1 t1 s1 where 1: "r1 = Inr ch1" "ch_source ch1 = ch_source ch"
    "mq_contents (ch_queue ch) @ s1 = t1 @ mq_contents (ch_queue ch1)"
    "list_all (guest_message p e) s1" "ch_source ch \<noteq> p \<longrightarrow> s1 = []" by auto
  with assms(2) obtain ch2 t2 s2 where 2: "r2 = Inr ch2" "ch_source ch2 = ch_source ch1"
    "mq_contents (ch_queue ch1) @ s2 = t2 @ mq_contents (ch_queue ch2)"
    "list_all (guest_message p e) s2" "ch_source ch1 \<noteq> p \<longrightarrow> s2 = []" by auto
  have "mq_contents (ch_queue ch) @ s1 @ s2 = (t1 @ t2) @ mq_contents (ch_queue ch2)"
    using 1(3) 2(3) by (metis append.assoc)
  with 1 2 show ?thesis unfolding Inr 2(1) by (intro served_intro [of _ _ "s1 @ s2" "t1 @ t2"]) simp_all
qed

lemma confined_refl: "ipc_inv (kh_ipc c) \<Longrightarrow> confined c c"
  by (simp add: confined_def served_refl)

lemma confined_trans:
  assumes "confined c c1" "confined c1 c2"
  shows "confined c c2"
  using assms served_trans unfolding confined_def by (metis (full_types))

lemma host_send_confined:
  assumes inv: "ipc_inv (kh_ipc c)"
  shows "confined c (snd (kernel_host_send agent target len c))"
proof (cases "snd (kernel_host_send agent target len c) = c")
  case True
  then show ?thesis using confined_refl [OF inv] by simp
next
  case False
  then obtain edge where edge: "kh_active_channel c = Some edge" "ucast target \<noteq> (0 :: u32)"
      "ucast target \<noteq> kh_partition c"
    by (auto simp: kernel_host_send_def split: option.splits if_splits)
  let ?msg = "host_message c edge target len"
  have after: "snd (kernel_host_send agent target len c) =
      c\<lparr>kh_next_sequence := kh_next_sequence c + 1, kh_ipc := snd (ipc_send edge ?msg (kh_partition c) (kh_ipc c))\<rparr>"
    using False edge by (auto simp: kernel_host_send_def Let_def split: if_splits sum.splits prod.splits)
  have guest: "guest_message (kh_partition c) edge ?msg"
    using edge by (simp add: guest_message_def host_message_def HYPERVISOR_def)
  show ?thesis
  proof (cases "snd (ipc_send edge ?msg (kh_partition c) (kh_ipc c)) = kh_ipc c")
    case True
    then show ?thesis unfolding after using inv by (simp add: confined_def served_refl)
  next
    case False
    then obtain ch ch' m' where ch: "ipc_find edge (kh_ipc c) = Inr ch" "ch_source ch = kh_partition c"
      "ipc_send edge ?msg (kh_partition c) (kh_ipc c) = (Inr (), m')" "ipc_inv m'" "ipc_find edge m' = Inr ch'"
      "mq_contents (ch_queue ch') = mq_contents (ch_queue ch) @ [?msg]" "ch_source ch' = ch_source ch"
      "\<forall>x. x \<noteq> edge \<longrightarrow> ipc_find x m' = ipc_find x (kh_ipc c)"
      using ipc_send_cases [OF inv, of edge ?msg "kh_partition c"]
      by (auto split: sum.splits if_splits)
    have "served (kh_partition c) edge (Inr ch) (Inr ch')"
      by (rule served_intro [of _ _ "[?msg]" "[]"]) (use ch guest in simp_all)
    with ch edge show ?thesis unfolding after by (simp add: confined_def)
  qed
qed

lemma host_receive_confined:
  assumes inv: "ipc_inv (kh_ipc c)"
  shows "confined c (snd (kernel_host_receive agent c))"
proof (cases "kh_active_channel c")
  case None
  then show ?thesis using confined_refl [OF inv] by (simp add: kernel_host_receive_def)
next
  case (Some edge)
  have after: "snd (kernel_host_receive agent c) = c\<lparr>kh_ipc := snd (ipc_receive edge (kh_ipc c))\<rparr>"
    by (simp add: kernel_host_receive_def Some split: sum.splits prod.splits option.splits)
  show ?thesis
  proof (cases "ipc_find edge (kh_ipc c)")
    case (Inl err)
    then have "snd (ipc_receive edge (kh_ipc c)) = kh_ipc c" using ipc_receive_cases [OF inv, of edge] by simp
    then show ?thesis unfolding after using inv by (simp add: confined_def served_refl)
  next
    case (Inr ch)
    then obtain r ch' m' where ch: "ipc_receive edge (kh_ipc c) = (r, m')" "ipc_inv m'" "ipc_find edge m' = Inr ch'"
      "mq_contents (ch_queue ch') = tl (mq_contents (ch_queue ch))" "ch_source ch' = ch_source ch"
      "\<forall>x. x \<noteq> edge \<longrightarrow> ipc_find x m' = ipc_find x (kh_ipc c)"
      using ipc_receive_cases [OF inv, of edge] by auto
    have "served (kh_partition c) edge (Inr ch) (Inr ch')"
      by (rule served_intro [of _ _ "[]" "take 1 (mq_contents (ch_queue ch))"])
         (use ch in \<open>simp_all add: drop_Suc [symmetric]\<close>, cases "mq_contents (ch_queue ch)", simp_all)
    with ch Some Inr show ?thesis unfolding after by (simp add: confined_def)
  qed
qed

lemma dispatch_confined:
  assumes "ipc_inv (kh_ipc c)"
  shows "confined c (snd (dispatch_host_call gpu kernel_host agent f args token c))"
  using confined_refl [OF assms] host_send_confined [OF assms] host_receive_confined [OF assms]
  by (cases f) (simp_all add: dispatch_host_call_def host_handler_def host_reply_def kernel_host_def
      host_default_def split_beta)

lemma guest_run_confined:
  assumes "ipc_inv (kh_ipc c)"
  shows "confined c (snd (guest_run gpu agent calls c))"
  using assms
proof (induction calls arbitrary: c)
  case Nil
  then show ?case by (simp add: confined_refl)
next
  case (Cons call calls)
  obtain f args token where call: "call = (f, args, token)" by (cases call) auto
  let ?c = "snd (dispatch_host_call gpu kernel_host agent f args token c)"
  note step = dispatch_confined [OF Cons.prems, of gpu agent f args token]
  then have "ipc_inv (kh_ipc ?c)" by (simp add: confined_def)
  from confined_trans [OF step Cons.IH [OF this]] show ?case
    by (simp add: call Let_def split_beta)
qed

text \<open>
  C33.  A guest is confined to its active channel.  Whatever host calls a guest makes, with whatever
  arguments and tokens, every channel but the active one keeps its contents; on the active channel
  messages only leave at the front and join at the end; every message that joins names the guest's own
  partition as sender and that channel as its edge, and neither the hypervisor nor the guest itself as
  receiver; and nothing joins at all unless the partition is the source of the channel.  The receiver that
  a message names is not compared with the destination of the channel.
\<close>

theorem guest_calls_confined:
  assumes "ipc_inv (kh_ipc c)"
  shows "confined c (snd (guest_run gpu agent calls c))"
  by (rule guest_run_confined [OF assms])

definition demo_host :: kernel_host_context where
  "demo_host = \<lparr>kh_partition = 1, kh_ipc = demo_ipc, kh_active_channel = Some 1, kh_next_sequence = 0\<rparr>"

definition demo_call :: guest_call where
  "demo_call = (HfSend, \<lparr>ha_arg0 = 7, ha_arg1 = 16, ha_arg2 = 0\<rparr>, cap_token_new 1 CapCommEdge WRITE 0)"

lemma demo_send: "fst (guest_run False 9 [demo_call] demo_host) = [HostSuccess 16]"
proof -
  obtain ch where ch: "ipc_find 1 demo_ipc = Inr ch" "ch_source ch = 1" "mq_contents (ch_queue ch) = []"
    using demo_ipc_props(2) by blast
  have "\<exists>m'. ipc_send 1 (host_message demo_host 1 7 16) 1 demo_ipc = (Inr (), m')"
    using ipc_send_cases [OF demo_ipc_props(1), of 1 "host_message demo_host 1 7 16" 1] ch demo_ipc_props(3)
    by (auto simp: host_message_def demo_host_def)
  moreover have "(ucast U16_MAX :: u64) = 0xFFFF" "(ucast U32_MAX :: u64) = 0xFFFFFFFF" by code_simp+
  ultimately show ?thesis
    by (auto simp: demo_call_def dispatch_host_call_def has_rights_def cap_token_new_def host_handler_def
        kernel_host_def host_default_def host_reply_def kernel_host_send_def demo_host_def Let_def)
qed

theorem guest_calls_confined_witness:
  "fst (guest_run False 9 [demo_call] demo_host) = [HostSuccess 16]
   \<and> confined demo_host (snd (guest_run False 9 [demo_call] demo_host))"
proof
  show "fst (guest_run False 9 [demo_call] demo_host) = [HostSuccess 16]" by (rule demo_send)
  have "ipc_inv (kh_ipc demo_host)" using demo_ipc_props(1) by (simp add: demo_host_def)
  then show "confined demo_host (snd (guest_run False 9 [demo_call] demo_host))"
    by (rule guest_calls_confined)
qed

end
