(* ===== verification/Std_Text.thy ===== *)
theory Std_Text
  imports Rvm_Prelude
begin

text \<open>
  The operations of the standard library on results and strings that the program uses: \<open>?\<close> and \<open>collect\<close>,
  splitting, and the classes of ASCII characters.
\<close>

section \<open>Strings\<close>

text \<open>The operator \<open>?\<close> and \<open>collect\<close> on an iterator of results.\<close>

fun result_bind :: "'e + 'a \<Rightarrow> ('a \<Rightarrow> 'e + 'b) \<Rightarrow> 'e + 'b" where
  "result_bind (Inl e) f = Inl e"
| "result_bind (Inr x) f = f x"

fun collect_results :: "('e + 'a) list \<Rightarrow> 'e + 'a list" where
  "collect_results [] = Inr []"
| "collect_results (Inl e # rs) = Inl e"
| "collect_results (Inr x # rs) = result_bind (collect_results rs) (\<lambda>xs. Inr (x # xs))"

text \<open>\<open>str::split\<close>, \<open>str::split_once\<close> and \<open>str::strip_prefix\<close>.\<close>

fun split_on :: "'a \<Rightarrow> 'a list \<Rightarrow> 'a list list" where
  "split_on c [] = [[]]"
| "split_on c (x # xs) =
     (if x = c then [] # split_on c xs
      else case split_on c xs of [] \<Rightarrow> [[x]] | part # parts \<Rightarrow> (x # part) # parts)"

fun split_once :: "'a \<Rightarrow> 'a list \<Rightarrow> ('a list \<times> 'a list) option" where
  "split_once c [] = None"
| "split_once c (x # xs) =
     (if x = c then Some ([], xs) else map_option (apfst ((#) x)) (split_once c xs))"

definition strip_prefix :: "'a list \<Rightarrow> 'a list \<Rightarrow> 'a list option" where
  "strip_prefix p s = (if take (length p) s = p then Some (drop (length p) s) else None)"

fun join_with :: "'a \<Rightarrow> 'a list list \<Rightarrow> 'a list" where
  "join_with c [] = []"
| "join_with c [part] = part"
| "join_with c (part # parts) = part @ c # join_with c parts"

definition is_ascii :: "char \<Rightarrow> bool" where
  "is_ascii c \<longleftrightarrow> (of_char c :: nat) < 128"

definition is_ascii_digit :: "char \<Rightarrow> bool" where
  "is_ascii_digit c \<longleftrightarrow> 48 \<le> (of_char c :: nat) \<and> (of_char c :: nat) \<le> 57"

definition is_ascii_lowercase :: "char \<Rightarrow> bool" where
  "is_ascii_lowercase c \<longleftrightarrow> 97 \<le> (of_char c :: nat) \<and> (of_char c :: nat) \<le> 122"

definition is_ascii_uppercase :: "char \<Rightarrow> bool" where
  "is_ascii_uppercase c \<longleftrightarrow> 65 \<le> (of_char c :: nat) \<and> (of_char c :: nat) \<le> 90"

definition is_ascii_alphanumeric :: "char \<Rightarrow> bool" where
  "is_ascii_alphanumeric c \<longleftrightarrow> is_ascii_digit c \<or> is_ascii_lowercase c \<or> is_ascii_uppercase c"

section \<open>Splitting and joining\<close>

lemma result_bind_Inr: "result_bind m f = Inr y \<longleftrightarrow> (\<exists>x. m = Inr x \<and> f x = Inr y)"
  by (cases m) auto

lemma collect_results_Inr: "collect_results rs = Inr xs \<longleftrightarrow> rs = map Inr xs"
proof (induction rs arbitrary: xs rule: collect_results.induct)
  case (3 x rs)
  then show ?case by (cases xs) (auto simp: result_bind_Inr)
qed auto

lemma split_on_nonempty [simp]: "split_on c s \<noteq> []"
  by (induction s) (auto split: list.splits)

lemma join_with_Cons: "ps \<noteq> [] \<Longrightarrow> join_with c (p # ps) = p @ c # join_with c ps"
  by (cases ps) auto

lemma join_with_Cons_Cons [simp]: "join_with c ((x # p) # ps) = x # join_with c (p # ps)"
  by (cases ps) auto

lemma join_split: "join_with c (split_on c s) = s"
proof (induction s)
  case (Cons x s)
  then show ?case by (cases "split_on c s") (auto simp: join_with_Cons neq_Nil_conv split: list.splits)
qed simp

lemma split_on_sep_free: "c \<notin> \<Union> (set ` set (split_on c s))"
  by (induction s) (auto split: list.splits)

lemma split_on_plain: "c \<notin> set p \<Longrightarrow> split_on c p = [p]"
  by (induction p) auto

lemma split_on_append: "c \<notin> set p \<Longrightarrow> split_on c (p @ c # s) = p # split_on c s"
  by (induction p) auto

lemma split_join:
  "ps \<noteq> [] \<Longrightarrow> \<forall>p\<in>set ps. c \<notin> set p \<Longrightarrow> split_on c (join_with c ps) = ps"
proof (induction ps rule: join_with.induct)
  case (3 c p q ps)
  then show ?case by (simp add: split_on_append)
qed (auto simp: split_on_plain)

lemma split_on_eq_iff:
  "split_on c s = ps \<longleftrightarrow> ps \<noteq> [] \<and> (\<forall>p\<in>set ps. c \<notin> set p) \<and> s = join_with c ps"
  using split_on_sep_free [of c s] by (auto simp: join_split split_join)

lemma split_once_Some:
  "split_once c s = Some (p, q) \<longleftrightarrow> c \<notin> set p \<and> s = p @ c # q"
proof (induction s arbitrary: p)
  case (Cons x s)
  then show ?case by (cases p) auto
qed simp

lemma split_once_None: "split_once c s = None \<longleftrightarrow> c \<notin> set s"
  by (induction s) auto

lemma strip_prefix_Some: "strip_prefix p s = Some r \<longleftrightarrow> s = p @ r"
  by (auto simp: strip_prefix_def) (metis append_take_drop_id)

lemma length_join_with:
  "ps \<noteq> [] \<Longrightarrow> length (join_with c ps) = sum_list (map length ps) + (length ps - 1)"
  by (induction ps rule: join_with.induct) auto

end
