(* ===== verification/Context_Uri.thy ===== *)
theory Context_Uri
  imports Std_Text
begin

unbundle bit_operations_syntax

text \<open>
  Crate \<open>rvm-context\<close>, \<open>uri.rs\<close>: names of context objects, \<open>ruv://authority/tenant/kind/id/collection/path\<close>
  with an optional revision and view.  A Rust \<open>str\<close> is a list of bytes, that is, a \<^typ>\<open>string\<close>; the
  newtypes that wrap a checked string are synonyms of it, and a value is valid when its constructor
  accepts it.  The methods that only return the text of a wrapper or a field have no definition of
  their own.  The parser is proved to accept exactly the printed forms of valid names.
\<close>

section \<open>Components of a name\<close>

definition SCHEME :: string where "SCHEME = ''ruv://''"
definition MAX_URI_BYTES :: nat where "MAX_URI_BYTES = 2048"
definition MAX_AUTHORITY_BYTES :: nat where "MAX_AUTHORITY_BYTES = 253"
definition MAX_DNS_LABEL_BYTES :: nat where "MAX_DNS_LABEL_BYTES = 63"
definition MAX_IDENTIFIER_BYTES :: nat where "MAX_IDENTIFIER_BYTES = 63"
definition MAX_PATH_SEGMENT_BYTES :: nat where "MAX_PATH_SEGMENT_BYTES = 128"
definition MAX_PATH_SEGMENTS :: nat where "MAX_PATH_SEGMENTS = 32"
definition MAX_PATH_BYTES :: nat where "MAX_PATH_BYTES = 1024"

datatype uri_error =
    UriTooLong | NonAscii | InvalidScheme | PercentEncodingNotAllowed | FragmentNotAllowed
  | CredentialsNotAllowed | PortNotAllowed | InvalidAuthority | InvalidTenant | InvalidSubjectKind
  | InvalidSubjectId | InvalidCollection | MissingComponent | EmptyPathSegment | TrailingSlash
  | DotSegment | InvalidPathSegment | TooManyPathSegments | PathTooLong | InvalidQuery
  | UnknownQueryKey | DuplicateQueryKey | QueryOrder | InvalidRevision | InvalidView
  | RevisionRequired

definition reject_forbidden_octets :: "string \<Rightarrow> uri_error + unit" where
  "reject_forbidden_octets s =
     (let non_ascii = list_ex (\<lambda>byte. \<not> is_ascii byte) s;
          percent = list_ex (\<lambda>byte. byte = CHR ''%'') s;
          fragment = list_ex (\<lambda>byte. byte = CHR ''#'') s
      in if non_ascii then Inl NonAscii
         else if percent then Inl PercentEncodingNotAllowed
         else if fragment then Inl FragmentNotAllowed
         else Inr ())"

definition is_ascii_lowercase_or_digit :: "char \<Rightarrow> bool" where
  "is_ascii_lowercase_or_digit byte \<longleftrightarrow> is_ascii_lowercase byte \<or> is_ascii_digit byte"

definition is_slug :: "string \<Rightarrow> bool" where
  "is_slug bytes \<longleftrightarrow>
     bytes \<noteq> [] \<and> length bytes \<le> MAX_IDENTIFIER_BYTES
     \<and> is_ascii_lowercase_or_digit (bytes ! 0)
     \<and> is_ascii_lowercase_or_digit (bytes ! (length bytes - 1))
     \<and> list_all (\<lambda>byte. is_ascii_lowercase_or_digit byte \<or> byte = CHR ''-'') bytes"

type_synonym authority = string
type_synonym tenant_id = string
type_synonym subject_id = string
type_synonym path_segment = string

definition dns_label_ok :: "string \<Rightarrow> bool" where
  "dns_label_ok bytes \<longleftrightarrow>
     \<not> (bytes = [] \<or> length bytes > MAX_DNS_LABEL_BYTES
        \<or> \<not> is_ascii_lowercase_or_digit (bytes ! 0)
        \<or> \<not> is_ascii_lowercase_or_digit (bytes ! (length bytes - 1))
        \<or> \<not> list_all (\<lambda>byte. is_ascii_lowercase_or_digit byte \<or> byte = CHR ''-'') bytes)"

definition authority_new_prevalidated :: "string \<Rightarrow> uri_error + authority" where
  "authority_new_prevalidated s =
     (if CHR ''@'' \<in> set s then Inl CredentialsNotAllowed
      else if CHR '':'' \<in> set s then Inl PortNotAllowed
      else if s = [] \<or> length s > MAX_AUTHORITY_BYTES then Inl InvalidAuthority
      else if list_ex (\<lambda>label. \<not> dns_label_ok label) (split_on (CHR ''.'') s) then Inl InvalidAuthority
      else Inr s)"

definition authority_new :: "string \<Rightarrow> uri_error + authority" where
  "authority_new s = result_bind (reject_forbidden_octets s) (\<lambda>_. authority_new_prevalidated s)"

definition tenant_new_prevalidated :: "string \<Rightarrow> uri_error + tenant_id" where
  "tenant_new_prevalidated s = (if \<not> is_slug s then Inl InvalidTenant else Inr s)"

definition tenant_new :: "string \<Rightarrow> uri_error + tenant_id" where
  "tenant_new s = result_bind (reject_forbidden_octets s) (\<lambda>_. tenant_new_prevalidated s)"

definition subject_id_new_prevalidated :: "string \<Rightarrow> uri_error + subject_id" where
  "subject_id_new_prevalidated s = (if \<not> is_slug s then Inl InvalidSubjectId else Inr s)"

definition subject_id_new :: "string \<Rightarrow> uri_error + subject_id" where
  "subject_id_new s = result_bind (reject_forbidden_octets s) (\<lambda>_. subject_id_new_prevalidated s)"

datatype subject_kind = KindAgent | KindUser | KindService | KindTeam

fun subject_kind_str :: "subject_kind \<Rightarrow> string" where
  "subject_kind_str KindAgent = ''agent''"
| "subject_kind_str KindUser = ''user''"
| "subject_kind_str KindService = ''service''"
| "subject_kind_str KindTeam = ''team''"

definition subject_kind_from_str :: "string \<Rightarrow> uri_error + subject_kind" where
  "subject_kind_from_str s =
     (if s = ''agent'' then Inr KindAgent else if s = ''user'' then Inr KindUser
      else if s = ''service'' then Inr KindService else if s = ''team'' then Inr KindTeam
      else Inl InvalidSubjectKind)"

record uri_subject =
  sj_kind :: subject_kind
  sj_id :: subject_id

datatype collection = CollMemory | CollResources | CollSkills

fun collection_str :: "collection \<Rightarrow> string" where
  "collection_str CollMemory = ''memory''"
| "collection_str CollResources = ''resources''"
| "collection_str CollSkills = ''skills''"

definition collection_from_str :: "string \<Rightarrow> uri_error + collection" where
  "collection_from_str s =
     (if s = ''memory'' then Inr CollMemory else if s = ''resources'' then Inr CollResources
      else if s = ''skills'' then Inr CollSkills else Inl InvalidCollection)"

definition segment_byte_ok :: "char \<Rightarrow> bool" where
  "segment_byte_ok byte \<longleftrightarrow> is_ascii_alphanumeric byte \<or> byte \<in> set ''-._~''"

definition path_segment_new_prevalidated :: "string \<Rightarrow> uri_error + path_segment" where
  "path_segment_new_prevalidated s =
     (if s = [] then Inl EmptyPathSegment
      else if s = ''.'' \<or> s = ''..'' then Inl DotSegment
      else if length s > MAX_PATH_SEGMENT_BYTES \<or> \<not> list_all segment_byte_ok s then Inl InvalidPathSegment
      else Inr s)"

definition path_segment_new :: "string \<Rightarrow> uri_error + path_segment" where
  "path_segment_new s = result_bind (reject_forbidden_octets s) (\<lambda>_. path_segment_new_prevalidated s)"

text \<open>A revision is the array of the 32 bytes of a digest.\<close>

type_synonym revision = "u8 list"

definition HEX :: string where "HEX = ''0123456789abcdef''"

definition revision_display :: "revision \<Rightarrow> string" where
  "revision_display r =
     ''sha256:'' @ concat (map (\<lambda>byte. [HEX ! unat (drop_bit 4 byte), HEX ! unat (byte AND 0x0F)]) r)"

definition hex_nibble :: "char \<Rightarrow> u8" where
  "hex_nibble c =
     (if is_ascii_digit c then of_char c - 48
      else if 97 \<le> (of_char c :: nat) \<and> (of_char c :: nat) \<le> 102 then of_char c - 97 + 10
      else 0)"

definition hex_byte_ok :: "char \<Rightarrow> bool" where
  "hex_byte_ok c \<longleftrightarrow> is_ascii_digit c \<or> 97 \<le> (of_char c :: nat) \<and> (of_char c :: nat) \<le> 102"

definition revision_from_str :: "string \<Rightarrow> uri_error + revision" where
  "revision_from_str s =
     (case strip_prefix ''sha256:'' s of
        None \<Rightarrow> Inl InvalidRevision
      | Some hex \<Rightarrow>
          if length hex \<noteq> 64 \<or> \<not> list_all hex_byte_ok hex then Inl InvalidRevision
          else
            Inr (map (\<lambda>index. let offset = index * 2 in
                        push_bit 4 (hex_nibble (hex ! offset)) OR hex_nibble (hex ! (offset + 1)))
                   [0..<32]))"

datatype progressive_view = ViewAbstract | ViewOverview | ViewContent

fun view_str :: "progressive_view \<Rightarrow> string" where
  "view_str ViewAbstract = ''abstract''"
| "view_str ViewOverview = ''overview''"
| "view_str ViewContent = ''content''"

definition view_from_str :: "string \<Rightarrow> uri_error + progressive_view" where
  "view_from_str s =
     (if s = ''abstract'' then Inr ViewAbstract else if s = ''overview'' then Inr ViewOverview
      else if s = ''content'' then Inr ViewContent else Inl InvalidView)"

section \<open>Names\<close>

record ruv_uri =
  ru_authority :: authority
  ru_tenant :: tenant_id
  ru_subject :: uri_subject
  ru_collection :: collection
  ru_path :: "path_segment list"
  ru_revision :: "revision option"
  ru_view :: "progressive_view option"

definition is_pinned :: "ruv_uri \<Rightarrow> bool" where
  "is_pinned u \<longleftrightarrow> ru_revision u \<noteq> None"

definition optional_path_bytes :: "ruv_uri \<Rightarrow> nat" where
  "optional_path_bytes u = sum_list (map length (ru_path u)) + (length (ru_path u) - 1)"

definition canonical_len :: "ruv_uri \<Rightarrow> nat" where
  "canonical_len u =
     length SCHEME + length (ru_authority u) + 4 + length (ru_tenant u)
     + length (subject_kind_str (sj_kind (ru_subject u))) + length (sj_id (ru_subject u))
     + length (collection_str (ru_collection u))
     + sum_list (map (\<lambda>segment. 1 + length segment) (ru_path u))
     + (if ru_revision u \<noteq> None then 1 + 4 + 7 + 64 else 0)
     + (case ru_view u of Some view \<Rightarrow> 1 + 5 + length (view_str view) | None \<Rightarrow> 0)"

definition validate_complete :: "ruv_uri \<Rightarrow> uri_error + unit" where
  "validate_complete u =
     (if length (ru_path u) > MAX_PATH_SEGMENTS then Inl TooManyPathSegments
      else if optional_path_bytes u > MAX_PATH_BYTES then Inl PathTooLong
      else if canonical_len u > MAX_URI_BYTES then Inl UriTooLong
      else Inr ())"

fun query_entries ::
    "string list \<Rightarrow> revision option \<Rightarrow> progressive_view option \<Rightarrow> bool
      \<Rightarrow> uri_error + revision option \<times> progressive_view option" where
  "query_entries [] revn view saw_view = Inr (revn, view)"
| "query_entries (entry # entries) revn view saw_view =
     (case split_once (CHR ''='') entry of
        None \<Rightarrow> Inl InvalidQuery
      | Some (key, val) \<Rightarrow>
          if key = [] \<or> val = [] \<or> CHR ''='' \<in> set val then Inl InvalidQuery
          else if key = ''rev'' then
            (if revn \<noteq> None then Inl DuplicateQueryKey
             else if saw_view then Inl QueryOrder
             else result_bind (revision_from_str val) (\<lambda>r. query_entries entries (Some r) view saw_view))
          else if key = ''view'' then
            (if view \<noteq> None then Inl DuplicateQueryKey
             else result_bind (view_from_str val) (\<lambda>v. query_entries entries revn (Some v) True))
          else Inl UnknownQueryKey)"

fun parse_query :: "string option \<Rightarrow> uri_error + revision option \<times> progressive_view option" where
  "parse_query None = Inr (None, None)"
| "parse_query (Some query) =
     (if query = [] then Inl InvalidQuery
      else
        let entries = split_on (CHR ''&'') query;
            first = hd entries;
            second = (if length entries > 1 then Some (entries ! 1) else None)
        in if length entries > 2 \<or> first = [] \<or> second = Some [] then Inl InvalidQuery
           else query_entries (first # (case second of None \<Rightarrow> [] | Some s \<Rightarrow> [s])) None None False)"

text \<open>The array of components keeps the first 37 parts; the count goes on.\<close>

definition ruv_uri_from_str :: "string \<Rightarrow> uri_error + ruv_uri" where
  "ruv_uri_from_str s =
     (if length s > MAX_URI_BYTES then Inl UriTooLong
      else result_bind (reject_forbidden_octets s) (\<lambda>_.
        case strip_prefix SCHEME s of
          None \<Rightarrow> Inl InvalidScheme
        | Some after_scheme \<Rightarrow>
            let (hierarchy, query) =
                  (case split_once (CHR ''?'') after_scheme of
                     Some (hierarchy, query) \<Rightarrow> (hierarchy, Some query)
                   | None \<Rightarrow> (after_scheme, None))
            in if hierarchy \<noteq> [] \<and> hierarchy ! (length hierarchy - 1) = CHR ''/'' then Inl TrailingSlash
               else
                 let parts = split_on (CHR ''/'') hierarchy;
                     components = take (5 + MAX_PATH_SEGMENTS) parts;
                     component_count = length parts;
                     has_empty_component = list_ex (\<lambda>component. component = []) parts
                 in if component_count < 5 then Inl MissingComponent
                    else if has_empty_component then Inl EmptyPathSegment
                    else
                      result_bind (authority_new_prevalidated (components ! 0)) (\<lambda>authority.
                      result_bind (tenant_new_prevalidated (components ! 1)) (\<lambda>tenant.
                      result_bind (subject_kind_from_str (components ! 2)) (\<lambda>subject_kind.
                      result_bind (subject_id_new_prevalidated (components ! 3)) (\<lambda>subject_id.
                      result_bind (collection_from_str (components ! 4)) (\<lambda>collection.
                        let path_count = component_count - 5 in
                        if path_count > MAX_PATH_SEGMENTS then Inl TooManyPathSegments
                        else
                          let path_parts = drop 5 (take component_count components);
                              path_bytes = sum_list (map length path_parts) + (path_count - 1)
                          in if path_bytes > MAX_PATH_BYTES then Inl PathTooLong
                             else
                               result_bind (collect_results (map path_segment_new_prevalidated path_parts)) (\<lambda>path.
                               result_bind (parse_query query) (\<lambda>(revn, view).
                                 let uri = \<lparr>ru_authority = authority, ru_tenant = tenant,
                                            ru_subject = \<lparr>sj_kind = subject_kind, sj_id = subject_id\<rparr>,
                                            ru_collection = collection, ru_path = path,
                                            ru_revision = revn, ru_view = view\<rparr>
                                 in result_bind (validate_complete uri) (\<lambda>_. Inr uri))))))))))"

definition ruv_uri_parse :: "string \<Rightarrow> uri_error + ruv_uri" where
  "ruv_uri_parse = ruv_uri_from_str"

definition ruv_uri_display :: "ruv_uri \<Rightarrow> string" where
  "ruv_uri_display u =
     SCHEME @ ru_authority u @ ''/'' @ ru_tenant u @ ''/'' @ subject_kind_str (sj_kind (ru_subject u))
     @ ''/'' @ sj_id (ru_subject u) @ ''/'' @ collection_str (ru_collection u)
     @ concat (map (\<lambda>segment. ''/'' @ segment) (ru_path u))
     @ (case ru_revision u of Some r \<Rightarrow> ''?rev='' @ revision_display r | None \<Rightarrow> [])
     @ (case ru_view u of
          Some v \<Rightarrow> (if ru_revision u \<noteq> None then ''&view='' @ view_str v else ''?view='' @ view_str v)
        | None \<Rightarrow> [])"

record pinned_uri =
  pu_uri :: ruv_uri
  pu_revision :: revision

definition ruv_uri_with_revision :: "revision \<Rightarrow> ruv_uri \<Rightarrow> uri_error + pinned_uri" where
  "ruv_uri_with_revision r u =
     (let u = u\<lparr>ru_revision := Some r\<rparr> in
      result_bind (validate_complete u) (\<lambda>_. Inr \<lparr>pu_uri = u, pu_revision = r\<rparr>))"

definition ruv_uri_with_view :: "progressive_view \<Rightarrow> ruv_uri \<Rightarrow> uri_error + ruv_uri" where
  "ruv_uri_with_view v u =
     (let u = u\<lparr>ru_view := Some v\<rparr> in result_bind (validate_complete u) (\<lambda>_. Inr u))"

definition pinned_try_from :: "ruv_uri \<Rightarrow> uri_error + pinned_uri" where
  "pinned_try_from u =
     (case ru_revision u of
        None \<Rightarrow> Inl RevisionRequired
      | Some r \<Rightarrow> Inr \<lparr>pu_uri = u, pu_revision = r\<rparr>)"

definition pinned_from_str :: "string \<Rightarrow> uri_error + pinned_uri" where
  "pinned_from_str s = result_bind (ruv_uri_parse s) pinned_try_from"

definition pinned_display :: "pinned_uri \<Rightarrow> string" where
  "pinned_display p = ruv_uri_display (pu_uri p)"

text \<open>The builder has the fields of a name; \<open>build\<close> checks the limits that span components.\<close>

record ruv_uri_builder =
  bu_authority :: authority
  bu_tenant :: tenant_id
  bu_subject :: uri_subject
  bu_collection :: collection
  bu_path :: "path_segment list"
  bu_revision :: "revision option"
  bu_view :: "progressive_view option"

definition builder_new ::
    "authority \<Rightarrow> tenant_id \<Rightarrow> uri_subject \<Rightarrow> collection \<Rightarrow> ruv_uri_builder" where
  "builder_new a t s c =
     \<lparr>bu_authority = a, bu_tenant = t, bu_subject = s, bu_collection = c, bu_path = [],
      bu_revision = None, bu_view = None\<rparr>"

definition builder_path_segment :: "path_segment \<Rightarrow> ruv_uri_builder \<Rightarrow> ruv_uri_builder" where
  "builder_path_segment segment b = b\<lparr>bu_path := bu_path b @ [segment]\<rparr>"

definition builder_path :: "path_segment list \<Rightarrow> ruv_uri_builder \<Rightarrow> ruv_uri_builder" where
  "builder_path path b = b\<lparr>bu_path := path\<rparr>"

definition builder_revision :: "revision \<Rightarrow> ruv_uri_builder \<Rightarrow> ruv_uri_builder" where
  "builder_revision r b = b\<lparr>bu_revision := Some r\<rparr>"

definition builder_view :: "progressive_view \<Rightarrow> ruv_uri_builder \<Rightarrow> ruv_uri_builder" where
  "builder_view v b = b\<lparr>bu_view := Some v\<rparr>"

definition builder_build :: "ruv_uri_builder \<Rightarrow> uri_error + ruv_uri" where
  "builder_build b =
     (let uri = \<lparr>ru_authority = bu_authority b, ru_tenant = bu_tenant b, ru_subject = bu_subject b,
                 ru_collection = bu_collection b, ru_path = bu_path b,
                 ru_revision = bu_revision b, ru_view = bu_view b\<rparr>
      in result_bind (validate_complete uri) (\<lambda>_. Inr uri))"

definition builder_build_pinned :: "ruv_uri_builder \<Rightarrow> uri_error + pinned_uri" where
  "builder_build_pinned b = result_bind (builder_build b) pinned_try_from"

section \<open>Revisions\<close>

lemma length_pairs: "length (concat (map (\<lambda>b. [f b, g b]) r)) = 2 * length r"
  by (induction r) auto

lemma nth_pairs:
  "i < length r \<Longrightarrow> concat (map (\<lambda>b. [f b, g b]) r) ! (2 * i) = f (r ! i)"
  "i < length r \<Longrightarrow> concat (map (\<lambda>b. [f b, g b]) r) ! Suc (2 * i) = g (r ! i)"
proof (induction r arbitrary: i)
  case (Cons x r)
  { case 1 then show ?case using Cons.IH(1) by (cases i) auto next
    case 2 then show ?case using Cons.IH(2) by (cases i) auto }
qed auto

lemma nth_pairs_right:
  assumes "i < length r"
  shows "concat (map (\<lambda>b. [f b, g b]) r) ! (i * 2) = f (r ! i)"
    "concat (map (\<lambda>b. [f b, g b]) r) ! Suc (i * 2) = g (r ! i)"
  using nth_pairs [OF assms, of f g] unfolding mult.commute [of 2 i] by simp_all

lemma nibble_bound: "x < 16 \<Longrightarrow> take_bit 4 x = x" for x :: u8
  by (rule word_unat_eq_iff [THEN iffD2])
     (simp add: unsigned_take_bit_eq take_bit_nat_eq_self word_less_nat_alt)

lemma nibble_join:
  fixes x y :: u8
  assumes "x < 16" "y < 16"
  shows "drop_bit 4 (push_bit 4 x OR y) = x" "(push_bit 4 x OR y) AND 0x0F = y"
proof -
  have 15: "(15 :: u8) = mask 4" by (simp add: mask_eq_exp_minus_1)
  have x: "take_bit 4 x = x" and y: "take_bit 4 y = y" using assms by (simp_all add: nibble_bound)
  show "(push_bit 4 x OR y) AND 0x0F = y"
    unfolding 15 take_bit_eq_mask [symmetric] take_bit_or y by (simp add: take_bit_push_bit)
  have "bit x n \<Longrightarrow> n < 4" "bit y n \<Longrightarrow> n < 4" for n
    by (metis x bit_take_bit_iff, metis y bit_take_bit_iff)
  then show "drop_bit 4 (push_bit 4 x OR y) = x"
    by (intro bit_word_eqI) (fastforce simp: bit_simps)
qed

lemma nibble_split: "push_bit 4 (drop_bit 4 b) OR (b AND 0x0F) = b" for b :: u8
proof -
  have 15: "(15 :: u8) = mask 4" by (simp add: mask_eq_exp_minus_1)
  show ?thesis
    unfolding 15 by (intro bit_word_eqI) (auto simp: bit_simps)
qed

lemma hex_chars: "hex_byte_ok c \<longleftrightarrow> c \<in> set HEX"
proof
  assume "hex_byte_ok c"
  then have "(of_char c :: nat) \<in> {48..<58} \<union> {97..<103}"
    by (auto simp: hex_byte_ok_def is_ascii_digit_def)
  then have "char_of (of_char c :: nat) \<in> char_of ` (set [48..<58] \<union> set [97..<103])"
    unfolding set_upt by (rule imageI)
  then have "c \<in> char_of ` (set [48..<58 :: nat] \<union> set [97..<103])" by simp
  also have "\<dots> = set HEX" by (auto simp: upt_rec HEX_def char_of_def bit_0)
  finally show "c \<in> set HEX" .
next
  assume "c \<in> set HEX"
  then show "hex_byte_ok c" by (auto simp: hex_byte_ok_def is_ascii_digit_def HEX_def)
qed

lemma hex_nibble_HEX: "c \<in> set HEX \<Longrightarrow> hex_nibble c < 16 \<and> HEX ! unat (hex_nibble c) = c"
  by (auto simp: HEX_def hex_nibble_def is_ascii_digit_def)

lemma HEX_nibble: "i < 16 \<Longrightarrow> HEX ! i \<in> set HEX \<and> hex_nibble (HEX ! i) = of_nat i"
proof -
  assume "i < 16"
  then have "i \<in> set [0..<16]" by simp
  then show ?thesis by (auto simp: upt_rec HEX_def hex_nibble_def is_ascii_digit_def)
qed

text \<open>The text of a revision determines it, and only such texts are revisions.\<close>

lemma hex_digits_of_byte:
  fixes b :: u8
  shows "hex_nibble (HEX ! unat (drop_bit 4 b)) = drop_bit 4 b" "HEX ! unat (drop_bit 4 b) \<in> set HEX"
    "hex_nibble (HEX ! unat (b AND 0x0F)) = b AND 0x0F" "HEX ! unat (b AND 0x0F) \<in> set HEX"
proof -
  have b: "unat b < 256" using unsigned_less [of b] by simp
  have "unat (drop_bit 4 b) = unat b div 2 ^ 4"
    unfolding unsigned_drop_bit_eq using b by (simp add: drop_bit_eq_div take_bit_nat_eq_self)
  then have "unat (drop_bit 4 b) < 16" using b by simp
  then show "hex_nibble (HEX ! unat (drop_bit 4 b)) = drop_bit 4 b" "HEX ! unat (drop_bit 4 b) \<in> set HEX"
    using HEX_nibble by auto
  have "b AND 0x0F \<le> 0x0F" by (rule word_and_le1)
  then have "unat (b AND 0x0F) < 16" by (simp add: word_le_nat_alt)
  then show "hex_nibble (HEX ! unat (b AND 0x0F)) = b AND 0x0F" "HEX ! unat (b AND 0x0F) \<in> set HEX"
    using HEX_nibble by auto
qed

lemma revision_text_exact:
  "revision_from_str s = Inr r \<longleftrightarrow> length r = 32 \<and> s = revision_display r"
proof
  assume "revision_from_str s = Inr r"
  then obtain hex where s: "s = ''sha256:'' @ hex" and len: "length hex = 64"
    and all: "\<forall>c\<in>set hex. c \<in> set HEX"
    and r: "r = map (\<lambda>i. push_bit 4 (hex_nibble (hex ! (i * 2))) OR hex_nibble (hex ! (i * 2 + 1))) [0..<32]"
    by (auto simp: revision_from_str_def strip_prefix_Some list_all_iff hex_chars Let_def
        split: option.splits if_splits)
  have nib: "hex_nibble (hex ! j) < 16" "HEX ! unat (hex_nibble (hex ! j)) = hex ! j" if "j < 64" for j
    using hex_nibble_HEX [of "hex ! j"] all len that by auto
  have lenr: "length r = 32" by (simp add: r)
  have "concat (map (\<lambda>b. [HEX ! unat (drop_bit 4 b), HEX ! unat (b AND 0x0F)]) r) = hex" (is "?t = _")
  proof (rule nth_equalityI)
    show "length ?t = length hex" by (simp add: length_pairs lenr len)
    fix j assume "j < length ?t"
    then have j: "j < 64" by (simp add: length_pairs lenr)
    define i where "i = j div 2"
    have i: "i < 32" using j by (simp add: i_def)
    have ri: "r ! i = push_bit 4 (hex_nibble (hex ! (2 * i))) OR hex_nibble (hex ! Suc (2 * i))"
      using i by (simp add: r mult.commute)
    have "hex_nibble (hex ! (2 * i)) < 16" "hex_nibble (hex ! Suc (2 * i)) < 16"
      using i by (simp_all add: nib(1))
    note ri = nibble_join [OF this, folded ri]
    show "?t ! j = hex ! j"
    proof (cases "even j")
      case True
      then have "j = 2 * i" by (simp add: i_def)
      with i j show ?thesis by (simp add: nth_pairs lenr ri nib(2))
    next
      case False
      then have "j = Suc (2 * i)" by (simp add: i_def)
      with i j show ?thesis by (simp add: nth_pairs lenr ri nib(2))
    qed
  qed
  then show "length r = 32 \<and> s = revision_display r" by (simp add: s revision_display_def r)
next
  assume r: "length r = 32 \<and> s = revision_display r"
  define hex where "hex = concat (map (\<lambda>b. [HEX ! unat (drop_bit 4 b), HEX ! unat (b AND 0x0F)]) r)"
  have "length hex = 64" using r by (simp add: hex_def length_pairs)
  moreover have "list_all hex_byte_ok hex"
    by (auto simp: hex_def list_all_iff hex_chars hex_digits_of_byte)
  moreover have "map (\<lambda>i. push_bit 4 (hex_nibble (hex ! (i * 2))) OR hex_nibble (hex ! (i * 2 + 1))) [0..<32] = r"
    using r by (intro nth_equalityI) (simp_all add: hex_def nth_pairs_right hex_digits_of_byte nibble_split)
  moreover have "strip_prefix ''sha256:'' s = Some hex"
    using r by (simp add: strip_prefix_Some revision_display_def hex_def)
  ultimately show "revision_from_str s = Inr r" by (simp add: revision_from_str_def Let_def)
qed

section \<open>Queries\<close>

lemma subject_kind_text: "subject_kind_from_str s = Inr k \<longleftrightarrow> s = subject_kind_str k"
  by (cases k) (auto simp: subject_kind_from_str_def)

lemma collection_text: "collection_from_str s = Inr c \<longleftrightarrow> s = collection_str c"
  by (cases c) (auto simp: collection_from_str_def)

lemma view_text: "view_from_str s = Inr v \<longleftrightarrow> s = view_str v"
  by (cases v) (auto simp: view_from_str_def)

lemma revision_chars: "c \<in> set (revision_display r) \<Longrightarrow> c \<in> set ''sha256:'' \<union> set HEX"
  by (auto simp: revision_display_def hex_digits_of_byte)

lemma no_separators:
  "CHR ''='' \<notin> set (revision_display r)" "CHR ''&'' \<notin> set (revision_display r)"
  "CHR ''='' \<notin> set (view_str v)" "CHR ''&'' \<notin> set (view_str v)"
  using revision_chars [of "CHR ''=''" r] revision_chars [of "CHR ''&''" r]
  by (auto simp: HEX_def) (cases v; auto)+

lemma texts_not_empty [simp]: "revision_display r \<noteq> []" "view_str v \<noteq> []"
  by (simp add: revision_display_def) (cases v; simp)

fun query_text :: "revision option \<Rightarrow> progressive_view option \<Rightarrow> string option" where
  "query_text None None = None"
| "query_text (Some r) None = Some (''rev='' @ revision_display r)"
| "query_text None (Some v) = Some (''view='' @ view_str v)"
| "query_text (Some r) (Some v) = Some (''rev='' @ revision_display r @ ''&view='' @ view_str v)"

definition revision_ok :: "revision option \<Rightarrow> bool" where
  "revision_ok r \<longleftrightarrow> (case r of None \<Rightarrow> True | Some r \<Rightarrow> length r = 32)"

lemma query_entries_Cons:
  "query_entries (entry # entries) r v saw = Inr res \<longleftrightarrow>
     (\<exists>r'. length r' = 32 \<and> entry = ''rev='' @ revision_display r' \<and> r = None \<and> \<not> saw
           \<and> query_entries entries (Some r') v saw = Inr res)
     \<or> (\<exists>v'. entry = ''view='' @ view_str v' \<and> v = None
             \<and> query_entries entries r (Some v') True = Inr res)" (is "?lhs \<longleftrightarrow> ?rhs")
proof
  assume ?lhs
  then obtain key val where "split_once (CHR ''='') entry = Some (key, val)"
    by (auto split: option.splits)
  with \<open>?lhs\<close> show ?rhs
    by (auto simp: split_once_Some result_bind_Inr revision_text_exact view_text split: if_splits)
next
  assume ?rhs
  then show ?lhs
    by (auto simp: no_separators result_bind_Inr revision_text_exact view_text)
qed

declare query_entries.simps(2) [simp del]

lemma parse_query_sound:
  assumes "parse_query (Some s) = Inr (r, v)"
  shows "Some s = query_text r v \<and> revision_ok r"
proof -
  obtain e es where parts: "split_on (CHR ''&'') s = e # es" by (meson split_on_nonempty neq_Nil_conv)
  then have s: "s = join_with (CHR ''&'') (e # es)" using join_split [of "CHR ''&''" s] by simp
  consider "es = []" | f where "es = [f]" | f g fs where "es = f # g # fs" by (metis neq_Nil_conv)
  then show ?thesis
  proof cases
    case 1
    with assms have "query_entries [e] None None False = Inr (r, v)"
      by (simp add: parts Let_def split: if_splits)
    with 1 s show ?thesis by (auto simp: query_entries_Cons revision_ok_def)
  next
    case 2
    with assms have "query_entries [e, f] None None False = Inr (r, v)"
      by (simp add: parts Let_def split: if_splits)
    with 2 s show ?thesis by (auto simp: query_entries_Cons revision_ok_def)
  next
    case 3
    with assms show ?thesis by (simp add: parts Let_def split: if_splits)
  qed
qed

lemma parse_query_complete:
  assumes "revision_ok r"
  shows "parse_query (query_text r v) = Inr (r, v)"
proof (cases r)
  case None
  have "split_on (CHR ''&'') (''view='' @ view_str x) = [''view='' @ view_str x]" for x
    by (simp add: split_on_plain no_separators)
  then show ?thesis by (cases v) (simp_all add: None query_entries_Cons Let_def del: split_on.simps)
next
  case (Some d)
  have "split_on (CHR ''&'') (''rev='' @ revision_display d) = [''rev='' @ revision_display d]"
    by (rule split_on_plain) (simp add: no_separators)
  moreover have "split_on (CHR ''&'') (''rev='' @ revision_display d @ ''&view='' @ view_str x)
      = [''rev='' @ revision_display d, ''view='' @ view_str x]" for x
    by (simp add: split_on_eq_iff no_separators del: split_on.simps)
  moreover have "length d = 32" using assms by (simp add: Some revision_ok_def)
  ultimately show ?thesis
    by (cases v) (simp_all add: Some query_entries_Cons Let_def del: split_on.simps)
qed

lemma parse_query_exact:
  "parse_query q = Inr (r, v) \<longleftrightarrow> q = query_text r v \<and> revision_ok r"
proof
  assume "parse_query q = Inr (r, v)"
  then show "q = query_text r v \<and> revision_ok r"
    by (cases q) (auto simp: revision_ok_def dest: parse_query_sound simp del: parse_query.simps(2))
qed (simp add: parse_query_complete)

section \<open>The canonical text\<close>

definition uri_components :: "ruv_uri \<Rightarrow> string list" where
  "uri_components u =
     [ru_authority u, ru_tenant u, subject_kind_str (sj_kind (ru_subject u)),
      sj_id (ru_subject u), collection_str (ru_collection u)] @ ru_path u"

definition query_suffix :: "string option \<Rightarrow> string" where
  "query_suffix q = (case q of None \<Rightarrow> [] | Some s \<Rightarrow> CHR ''?'' # s)"

lemma join_with_append:
  "ps \<noteq> [] \<Longrightarrow> join_with c (ps @ qs) = join_with c ps @ concat (map ((#) c) qs)"
proof (induction ps rule: join_with.induct)
  case (2 c p)
  then show ?case by (induction qs arbitrary: p) (auto simp: join_with_Cons)
qed auto

lemma display_text:
  "ruv_uri_display u =
     SCHEME @ join_with (CHR ''/'') (uri_components u) @ query_suffix (query_text (ru_revision u) (ru_view u))"
  unfolding uri_components_def
  by (subst join_with_append)
     (auto simp: ruv_uri_display_def query_suffix_def split: option.splits)

lemma canonical_len_exact:
  assumes "revision_ok (ru_revision u)"
  shows "canonical_len u = length (ruv_uri_display u)"
proof -
  have "length (revision_display r) = 7 + 2 * length r" for r
    by (simp add: revision_display_def length_pairs)
  then show ?thesis
    using assms
    by (auto simp: canonical_len_def ruv_uri_display_def revision_ok_def length_concat o_def
        split: option.splits)
qed

section \<open>Valid names\<close>

text \<open>A value of the Rust type: every component was accepted by its constructor, and the limits hold.\<close>

definition uri_valid :: "ruv_uri \<Rightarrow> bool" where
  "uri_valid u \<longleftrightarrow>
     authority_new (ru_authority u) = Inr (ru_authority u)
     \<and> tenant_new (ru_tenant u) = Inr (ru_tenant u)
     \<and> subject_id_new (sj_id (ru_subject u)) = Inr (sj_id (ru_subject u))
     \<and> list_all (\<lambda>p. path_segment_new p = Inr p) (ru_path u)
     \<and> revision_ok (ru_revision u)
     \<and> validate_complete u = Inr ()"

lemma constructor_keeps_text:
  "authority_new_prevalidated s = Inr a \<Longrightarrow> a = s"
  "tenant_new_prevalidated s = Inr t \<Longrightarrow> t = s"
  "subject_id_new_prevalidated s = Inr i \<Longrightarrow> i = s"
  "path_segment_new_prevalidated s = Inr p \<Longrightarrow> p = s"
  by (auto simp: authority_new_prevalidated_def tenant_new_prevalidated_def
      subject_id_new_prevalidated_def path_segment_new_prevalidated_def split: if_splits)

lemma slug_bytes: "is_slug s \<Longrightarrow> s \<noteq> [] \<and> list_all segment_byte_ok s"
  by (auto simp: is_slug_def list_all_iff segment_byte_ok_def is_ascii_alphanumeric_def
      is_ascii_lowercase_or_digit_def)

lemma authority_bytes:
  assumes "authority_new_prevalidated s = Inr s"
  shows "s \<noteq> [] \<and> list_all segment_byte_ok s"
proof -
  have labels: "dns_label_ok l" if "l \<in> set (split_on (CHR ''.'') s)" for l
    using assms that by (auto simp: authority_new_prevalidated_def list_ex_iff split: if_splits)
  have set_join: "set (join_with c ps) \<subseteq> insert c (\<Union> (set ` set ps))" for c :: char and ps
    by (induction ps rule: join_with.induct) auto
  have "segment_byte_ok c" if "c \<in> set s" for c
  proof (cases "c = CHR ''.''")
    case False
    with that set_join [of "CHR ''.''" "split_on (CHR ''.'') s"]
    obtain l where "l \<in> set (split_on (CHR ''.'') s)" "c \<in> set l" by (auto simp: join_split)
    with labels show ?thesis
      by (auto simp: dns_label_ok_def list_all_iff segment_byte_ok_def is_ascii_alphanumeric_def
          is_ascii_lowercase_or_digit_def)
  qed (simp add: segment_byte_ok_def)
  with assms show ?thesis
    by (auto simp: authority_new_prevalidated_def list_all_iff split: if_splits)
qed

lemma component_bytes:
  "authority_new_prevalidated s = Inr a \<Longrightarrow> s \<noteq> [] \<and> list_all segment_byte_ok s"
  "tenant_new_prevalidated s = Inr t \<Longrightarrow> s \<noteq> [] \<and> list_all segment_byte_ok s"
  "subject_id_new_prevalidated s = Inr i \<Longrightarrow> s \<noteq> [] \<and> list_all segment_byte_ok s"
  "path_segment_new_prevalidated s = Inr p \<Longrightarrow> s \<noteq> [] \<and> list_all segment_byte_ok s"
  using authority_bytes [of s] slug_bytes [of s]
  by (auto dest: constructor_keeps_text simp: tenant_new_prevalidated_def
      subject_id_new_prevalidated_def path_segment_new_prevalidated_def split: if_splits)

lemma segment_byte_excludes:
  "segment_byte_ok c \<Longrightarrow> is_ascii c \<and> c \<notin> set ''%#/?''"
  by (auto simp: segment_byte_ok_def is_ascii_alphanumeric_def is_ascii_digit_def
      is_ascii_lowercase_def is_ascii_uppercase_def is_ascii_def)

lemma reject_forbidden_octets_Inr:
  "reject_forbidden_octets s = Inr () \<longleftrightarrow> (\<forall>c\<in>set s. is_ascii c \<and> c \<noteq> CHR ''%'' \<and> c \<noteq> CHR ''#'')"
  by (auto simp: reject_forbidden_octets_def list_ex_iff)

lemma component_octets:
  "list_all segment_byte_ok s \<Longrightarrow> reject_forbidden_octets s = Inr ()"
  using segment_byte_excludes by (auto simp: reject_forbidden_octets_Inr list_all_iff)

lemma constructors_agree:
  "authority_new s = Inr a \<longleftrightarrow> authority_new_prevalidated s = Inr a"
  "tenant_new s = Inr t \<longleftrightarrow> tenant_new_prevalidated s = Inr t"
  "subject_id_new s = Inr i \<longleftrightarrow> subject_id_new_prevalidated s = Inr i"
  "path_segment_new s = Inr p \<longleftrightarrow> path_segment_new_prevalidated s = Inr p"
  by (auto simp: authority_new_def tenant_new_def subject_id_new_def path_segment_new_def
      result_bind_Inr component_octets dest: component_bytes)

lemma fixed_component_bytes:
  "subject_kind_str k \<noteq> []" "list_all segment_byte_ok (subject_kind_str k)"
  "collection_str c \<noteq> []" "list_all segment_byte_ok (collection_str c)"
  by (cases k; simp add: segment_byte_ok_def is_ascii_alphanumeric_def is_ascii_lowercase_def)
     (cases k; cases c; simp add: segment_byte_ok_def is_ascii_alphanumeric_def is_ascii_lowercase_def)+

lemma uri_component_bytes:
  assumes "uri_valid u" "p \<in> set (uri_components u)"
  shows "p \<noteq> []" "list_all segment_byte_ok p"
  using assms
  by (auto simp: uri_valid_def uri_components_def constructors_agree list_all_iff [of "\<lambda>p. _ p = Inr p"]
      fixed_component_bytes fixed_component_bytes(1,3) [symmetric] dest: component_bytes)

section \<open>The parser\<close>

lemma split_query:
  "(case split_once (CHR ''?'') s of Some (h, q) \<Rightarrow> (h, Some q) | None \<Rightarrow> (s, None)) = (h, q)
     \<longleftrightarrow> CHR ''?'' \<notin> set h \<and> s = h @ query_suffix q"
proof (cases "split_once (CHR ''?'') s")
  case None
  then have "CHR ''?'' \<notin> set s" by (simp add: split_once_None)
  then show ?thesis unfolding None option.case by (cases q) (auto simp: query_suffix_def)
next
  case (Some r)
  then obtain a b where r: "split_once (CHR ''?'') s = Some (a, b)" by (cases r) auto
  then have ab: "CHR ''?'' \<notin> set a" "s = a @ CHR ''?'' # b" by (simp_all add: split_once_Some)
  show ?thesis
  proof (cases q)
    case None
    with r ab show ?thesis by (auto simp: query_suffix_def)
  next
    case (Some b')
    have "split_once (CHR ''?'') s = Some (h, b') \<longleftrightarrow> CHR ''?'' \<notin> set h \<and> s = h @ CHR ''?'' # b'"
      by (rule split_once_Some)
    with r Some show ?thesis by (auto simp: query_suffix_def)
  qed
qed

lemma collect_checked:
  assumes checks: "\<And>s p. f s = Inr p \<Longrightarrow> p = s"
  shows "collect_results (map f parts) = Inr path \<longleftrightarrow> path = parts \<and> list_all (\<lambda>p. f p = Inr p) parts"
proof
  assume "collect_results (map f parts) = Inr path"
  then have eq: "map f parts = map Inr path" by (simp add: collect_results_Inr)
  then have len: "length parts = length path" by (metis length_map)
  have f: "f (parts ! i) = Inr (path ! i)" if "i < length parts" for i
    using eq that len by (metis nth_map)
  have "path = parts" using len checks [OF f] by (intro nth_equalityI) simp_all
  with f show "path = parts \<and> list_all (\<lambda>p. f p = Inr p) parts" by (simp add: list_all_length)
qed (auto simp: collect_results_Inr list_all_iff)

lemmas path_results = collect_checked [of path_segment_new_prevalidated, OF constructor_keeps_text(4)]

lemma from_str_sound:
  assumes "ruv_uri_from_str s = Inr u"
  shows "uri_valid u" "s = ruv_uri_display u"
proof -
  from assms obtain rest where s: "s = SCHEME @ rest"
    by (auto simp: ruv_uri_from_str_def result_bind_Inr strip_prefix_Some split: if_splits option.splits)
  obtain h q where hq: "(case split_once (CHR ''?'') rest of Some (h, q) \<Rightarrow> (h, Some q) | None \<Rightarrow> (rest, None)) = (h, q)"
    by fastforce
  then have rest: "rest = h @ query_suffix q" by (simp only: split_query)
  obtain parts where parts: "split_on (CHR ''/'') h = parts" by blast
  have "strip_prefix SCHEME s = Some rest" by (simp add: s strip_prefix_Some)
  note facts = assms [unfolded ruv_uri_from_str_def this option.case Let_def hq case_prod_conv parts result_bind_Inr]
  have five: "5 \<le> length parts" and thirtyseven: "length parts - 5 \<le> MAX_PATH_SEGMENTS"
    using facts by (auto simp: result_bind_Inr split: if_splits)
  obtain a t k i c path where p: "parts = a # t # k # i # c # path"
    using five by (auto simp: numeral_eq_Suc Suc_le_length_iff)
  have take: "take (5 + MAX_PATH_SEGMENTS) parts = parts"
    using thirtyseven five by simp
  from facts [unfolded take p] obtain a' t' k' i' c' r v where
    u: "u = \<lparr>ru_authority = a', ru_tenant = t', ru_subject = \<lparr>sj_kind = k', sj_id = i'\<rparr>,
             ru_collection = c', ru_path = path, ru_revision = r, ru_view = v\<rparr>"
    and comps: "authority_new_prevalidated a = Inr a'" "tenant_new_prevalidated t = Inr t'"
      "k = subject_kind_str k'" "subject_id_new_prevalidated i = Inr i'" "c = collection_str c'"
      "list_all (\<lambda>p. path_segment_new_prevalidated p = Inr p) path"
    and query: "parse_query q = Inr (r, v)"
    and complete: "validate_complete u = Inr ()"
    by (auto simp: result_bind_Inr path_results subject_kind_text collection_text split: if_splits)
  note same = constructor_keeps_text(1) [OF comps(1)] constructor_keeps_text(2) [OF comps(2)]
    constructor_keeps_text(3) [OF comps(4)]
  show "uri_valid u"
    using comps query complete same
    by (simp add: uri_valid_def u constructors_agree parse_query_exact)
  show "s = ruv_uri_display u"
    using join_split [of "CHR ''/''" h] comps(3,5) query same
    by (simp add: display_text s rest uri_components_def parts p u parse_query_exact)
qed

lemma query_suffix_bytes:
  assumes "c \<in> set (query_suffix (query_text r v))"
  shows "c \<in> set ''?rev=sha256:&view=abstractoverviewcontent'' \<union> set HEX"
proof -
  have view: "c \<in> set ''abstractoverviewcontent''" if "c \<in> set (view_str w)" for w
    using that by (cases w) auto
  from assms show ?thesis
    by (cases r; cases v) (auto simp: query_suffix_def dest: revision_chars view)
qed

lemma join_with_last:
  "ps \<noteq> [] \<Longrightarrow> last ps \<noteq> [] \<Longrightarrow> join_with c ps \<noteq> [] \<and> last (join_with c ps) = last (last ps)"
proof (induction c ps rule: join_with.induct)
  case (3 c p q ps)
  then have "join_with c (q # ps) \<noteq> []" "last (join_with c (q # ps)) = last (last (q # ps))" by simp_all
  then show ?case by simp
qed simp_all

lemma from_str_complete:
  assumes "uri_valid u"
  shows "ruv_uri_from_str (ruv_uri_display u) = Inr u"
proof -
  let ?q = "query_text (ru_revision u) (ru_view u)"
  let ?h = "join_with (CHR ''/'') (uri_components u)"
  have s: "ruv_uri_display u = SCHEME @ ?h @ query_suffix ?q" by (rule display_text)
  have rev_ok: "revision_ok (ru_revision u)" and complete: "validate_complete u = Inr ()"
    using assms by (simp_all add: uri_valid_def)
  have limits: "length (ru_path u) \<le> MAX_PATH_SEGMENTS" "optional_path_bytes u \<le> MAX_PATH_BYTES"
      "length (ruv_uri_display u) \<le> MAX_URI_BYTES"
    using complete canonical_len_exact [OF rev_ok] by (simp_all add: validate_complete_def split: if_splits)
  note bytes = uri_component_bytes [OF assms]
  have ne: "uri_components u \<noteq> []" by (simp add: uri_components_def)
  have free: "CHR ''/'' \<notin> set p" if "p \<in> set (uri_components u)" for p
    using bytes(2) [OF that] segment_byte_excludes by (fastforce simp: list_all_iff)
  then have parts: "split_on (CHR ''/'') ?h = uri_components u" using ne by (simp add: split_join)
  have h_bytes: "segment_byte_ok c \<or> c = CHR ''/''" if "c \<in> set ?h" for c
  proof -
    have "set (join_with x ps) \<subseteq> insert x (\<Union> (set ` set ps))" for x :: char and ps
      by (induction ps rule: join_with.induct) auto
    then have "c = CHR ''/'' \<or> (\<exists>p\<in>set (uri_components u). c \<in> set p)" using that by blast
    then show ?thesis using bytes(2) by (auto simp: list_all_iff)
  qed
  have "is_ascii c \<and> c \<noteq> CHR ''%'' \<and> c \<noteq> CHR ''#''" if "c \<in> set (query_suffix ?q)" for c
    using query_suffix_bytes [OF that] by (auto simp: is_ascii_def HEX_def)
  moreover have "is_ascii c \<and> c \<noteq> CHR ''%'' \<and> c \<noteq> CHR ''#''" if "c \<in> set ?h" for c
    using h_bytes [OF that] segment_byte_excludes [of c] by (auto simp: is_ascii_def)
  ultimately have octets: "reject_forbidden_octets (ruv_uri_display u) = Inr ()"
    by (auto simp: reject_forbidden_octets_Inr s SCHEME_def is_ascii_def)
  have "CHR ''?'' \<notin> set ?h" using h_bytes segment_byte_excludes by fastforce
  then have query: "(case split_once (CHR ''?'') (?h @ query_suffix ?q) of Some (h, q) \<Rightarrow> (h, Some q)
      | None \<Rightarrow> (?h @ query_suffix ?q, None)) = (?h, ?q)"
    by (simp add: split_query)
  have last_ok: "last (uri_components u) \<in> set (uri_components u)" using ne by simp
  then have "?h \<noteq> []" "last ?h = last (last (uri_components u))"
    using join_with_last [OF ne] bytes(1) by auto
  moreover have "last (last (uri_components u)) \<noteq> CHR ''/''"
    using free [OF last_ok] bytes(1) [OF last_ok] last_in_set by metis
  ultimately have no_slash: "\<not> (?h \<noteq> [] \<and> ?h ! (length ?h - 1) = CHR ''/'')"
    by (simp add: last_conv_nth)
  have take: "take (5 + MAX_PATH_SEGMENTS) (uri_components u) = uri_components u"
    using limits(1) by (simp add: uri_components_def)
  have no_empty: "\<not> list_ex (\<lambda>component. component = []) (uri_components u)"
    using bytes(1) by (auto simp: list_ex_iff)
  have length: "length (uri_components u) = 5 + length (ru_path u)"
      "drop 5 (uri_components u) = ru_path u"
    by (simp_all add: uri_components_def)
  have nth: "uri_components u ! 0 = ru_authority u" "uri_components u ! 1 = ru_tenant u"
      "uri_components u ! 2 = subject_kind_str (sj_kind (ru_subject u))"
      "uri_components u ! 3 = sj_id (ru_subject u)"
      "uri_components u ! 4 = collection_str (ru_collection u)"
    by (simp_all add: uri_components_def)
  have same: "\<lparr>ru_authority = ru_authority u, ru_tenant = ru_tenant u,
      ru_subject = \<lparr>sj_kind = sj_kind (ru_subject u), sj_id = sj_id (ru_subject u)\<rparr>,
      ru_collection = ru_collection u, ru_path = ru_path u,
      ru_revision = ru_revision u, ru_view = ru_view u\<rparr> = u"
    by simp
  have "strip_prefix SCHEME (ruv_uri_display u) = Some (?h @ query_suffix ?q)"
    by (simp add: strip_prefix_Some s)
  moreover have "subject_kind_from_str (subject_kind_str k) = Inr k" "collection_from_str (collection_str c) = Inr c" for k c
    by (simp_all add: subject_kind_text collection_text)
  moreover have "collect_results (map path_segment_new_prevalidated (ru_path u)) = Inr (ru_path u)"
    using assms by (simp add: path_results uri_valid_def constructors_agree)
  moreover have "parse_query ?q = Inr (ru_revision u, ru_view u)" using rev_ok by (simp add: parse_query_exact)
  ultimately show ?thesis
    using limits complete assms
    unfolding ruv_uri_from_str_def Let_def
    by (simp add: octets query parts no_slash take no_empty length nth uri_valid_def constructors_agree
        optional_path_bytes_def del: split_on.simps split_once.simps One_nat_def)
       (simp only: same complete result_bind.simps)
qed

text \<open>
  C34.  Parsing a name accepts exactly the canonical texts.  A string parses to a name if and only if the name is
  valid (every component is accepted by its constructor, the revision has 32 bytes and the limits on
  segments, path and whole text hold) and the string is the text that the name prints.  So every
  valid name has exactly one spelling, and printing and parsing are inverse to each other.
\<close>

theorem uri_parse_exact:
  "ruv_uri_parse s = Inr u \<longleftrightarrow> uri_valid u \<and> s = ruv_uri_display u"
  using from_str_sound from_str_complete by (auto simp: ruv_uri_parse_def)

section \<open>Every value that the interface builds\<close>

text \<open>Builders that start from checked components, and names from any public operation.\<close>

inductive builder_value :: "ruv_uri_builder \<Rightarrow> bool" where
  "authority_new a = Inr auth \<Longrightarrow> tenant_new t = Inr tenant \<Longrightarrow> subject_id_new i = Inr sid
    \<Longrightarrow> builder_value (builder_new auth tenant \<lparr>sj_kind = k, sj_id = sid\<rparr> c)"
| "builder_value b \<Longrightarrow> path_segment_new p = Inr segment \<Longrightarrow> builder_value (builder_path_segment segment b)"
| "builder_value b \<Longrightarrow> collect_results (map path_segment_new ps) = Inr path
    \<Longrightarrow> builder_value (builder_path path b)"
| "builder_value b \<Longrightarrow> length r = 32 \<Longrightarrow> builder_value (builder_revision r b)"
| "builder_value b \<Longrightarrow> builder_value (builder_view v b)"

inductive uri_value :: "ruv_uri \<Rightarrow> bool" where
  "ruv_uri_parse s = Inr u \<Longrightarrow> uri_value u"
| "builder_value b \<Longrightarrow> builder_build b = Inr u \<Longrightarrow> uri_value u"
| "builder_value b \<Longrightarrow> builder_build_pinned b = Inr p \<Longrightarrow> uri_value (pu_uri p)"
| "uri_value u \<Longrightarrow> length r = 32 \<Longrightarrow> ruv_uri_with_revision r u = Inr p \<Longrightarrow> uri_value (pu_uri p)"
| "uri_value u \<Longrightarrow> ruv_uri_with_view v u = Inr u' \<Longrightarrow> uri_value u'"
| "pinned_from_str s = Inr p \<Longrightarrow> uri_value (pu_uri p)"

definition builder_ok :: "ruv_uri_builder \<Rightarrow> bool" where
  "builder_ok b \<longleftrightarrow>
     authority_new (bu_authority b) = Inr (bu_authority b) \<and> tenant_new (bu_tenant b) = Inr (bu_tenant b)
     \<and> subject_id_new (sj_id (bu_subject b)) = Inr (sj_id (bu_subject b))
     \<and> list_all (\<lambda>p. path_segment_new p = Inr p) (bu_path b) \<and> revision_ok (bu_revision b)"

lemma constructor_again:
  "authority_new s = Inr a \<Longrightarrow> authority_new a = Inr a"
  "tenant_new s = Inr t \<Longrightarrow> tenant_new t = Inr t"
  "subject_id_new s = Inr i \<Longrightarrow> subject_id_new i = Inr i"
  "path_segment_new s = Inr p \<Longrightarrow> path_segment_new p = Inr p"
  using constructor_keeps_text by (metis constructors_agree)+

lemma builder_value_ok: "builder_value b \<Longrightarrow> builder_ok b"
proof (induction rule: builder_value.induct)
  case (3 b ps path)
  have "p = s" if "path_segment_new s = Inr p" for s p
    using that constructor_keeps_text(4) by (simp add: constructors_agree)
  from collect_checked [of path_segment_new ps path, OF this] 3 show ?case by (auto simp: builder_ok_def builder_path_def)
qed (auto simp: builder_ok_def builder_new_def builder_path_segment_def builder_revision_def
      builder_view_def revision_ok_def intro: constructor_again)

lemma validated_value:
  "result_bind (validate_complete u) (\<lambda>_. Inr x) = Inr y \<longleftrightarrow> validate_complete u = Inr () \<and> y = x"
  by (auto simp: result_bind_Inr)

lemma builder_build_valid:
  assumes "builder_value b" "builder_build b = Inr u"
  shows "uri_valid u"
  using builder_value_ok [OF assms(1)] assms(2)
  by (auto simp: builder_build_def Let_def validated_value uri_valid_def builder_ok_def)

lemma uri_value_valid: "uri_value u \<Longrightarrow> uri_valid u"
proof (induction rule: uri_value.induct)
  case (1 s u)
  then show ?case by (simp add: ruv_uri_parse_def from_str_sound)
next
  case (2 b u)
  then show ?case by (rule builder_build_valid)
next
  case (3 b p)
  then show ?case
    by (auto simp: builder_build_pinned_def result_bind_Inr pinned_try_from_def builder_build_valid
        split: option.splits)
next
  case (4 u r p)
  then show ?case
    by (auto simp: ruv_uri_with_revision_def Let_def validated_value uri_valid_def revision_ok_def)
next
  case (5 u v u')
  then show ?case by (auto simp: ruv_uri_with_view_def Let_def validated_value uri_valid_def)
next
  case (6 s p)
  then show ?case
    by (auto simp: pinned_from_str_def result_bind_Inr pinned_try_from_def ruv_uri_parse_def
        from_str_sound split: option.splits)
qed

text \<open>
  C35.  Every name that the public operations build (parsing, the builder with its checked components,
  adding a revision or a view, pinning) is a value of the parser: its text parses back to exactly that
  name.
\<close>

theorem uri_value_roundtrip:
  assumes "uri_value u"
  shows "ruv_uri_parse (ruv_uri_display u) = Inr u"
  unfolding ruv_uri_parse_def by (rule from_str_complete [OF uri_value_valid [OF assms]])

theorem uri_value_roundtrip_witness:
  "ruv_uri_parse ''ruv://a.b/acme/agent/bot-7/memory/notes?view=overview'' = Inr \<lparr>ru_authority = ''a.b'',
     ru_tenant = ''acme'', ru_subject = \<lparr>sj_kind = KindAgent, sj_id = ''bot-7''\<rparr>, ru_collection = CollMemory,
     ru_path = [''notes''], ru_revision = None, ru_view = Some ViewOverview\<rparr>"
  (is "_ = Inr ?u")
proof -
  let ?b = "builder_view ViewOverview (builder_path_segment ''notes'' (builder_new ''a.b'' ''acme''
    \<lparr>sj_kind = KindAgent, sj_id = ''bot-7''\<rparr> CollMemory))"
  have "authority_new ''a.b'' = Inr ''a.b''" "tenant_new ''acme'' = Inr ''acme''"
    "subject_id_new ''bot-7'' = Inr ''bot-7''" "path_segment_new ''notes'' = Inr ''notes''"
    by code_simp+
  then have "builder_value ?b" by (intro builder_value.intros)
  moreover have "builder_build ?b = Inr ?u" by code_simp
  ultimately have "uri_value ?u" by (rule uri_value.intros(2))
  from uri_value_roundtrip [OF this] show ?thesis
    by (simp add: ruv_uri_display_def SCHEME_def)
qed

end
