(* ===== verification/Context_Match.thy ===== *)
theory Context_Match
  imports Rvm_Prelude "HOL-Library.While_Combinator" "HOL-Library.Sublist"
begin

text \<open>
  Crate \<open>rvm-context\<close>, \<open>resolver.rs\<close>: the matcher that scores a search.  \<open>QueryMatcher\<close> is the algorithm of
  Knuth, Morris and Pratt with a failure table; its inner loop follows the table and is a
  \<^const>\<open>while_option\<close>, so that not returning is \<^term>\<open>None\<close>.  The matcher is proved to return and to count the
  positions where the needle occurs.
\<close>

section \<open>The matcher\<close>

record query_matcher =
  qm_needle :: "u8 list"
  qm_failure :: "nat list"

text \<open>\<open>while matched > 0 && byte != needle[matched] { matched = failure[matched - 1] }\<close>\<close>

definition fall_back :: "u8 list \<Rightarrow> nat list \<Rightarrow> u8 \<Rightarrow> nat \<Rightarrow> nat option" where
  "fall_back needle failure byte =
     while_option (\<lambda>matched. matched > 0 \<and> byte \<noteq> needle ! matched) (\<lambda>matched. failure ! (matched - 1))"

fun build_failure :: "u8 list \<Rightarrow> nat list \<Rightarrow> nat \<Rightarrow> nat list \<Rightarrow> nat list option" where
  "build_failure needle [] matched failure = Some failure"
| "build_failure needle (index # indices) matched failure =
     (case fall_back needle failure (needle ! index) matched of
        None \<Rightarrow> None
      | Some matched \<Rightarrow>
          if needle ! index = needle ! matched
          then build_failure needle indices (matched + 1) (failure[index := matched + 1])
          else build_failure needle indices matched failure)"

definition query_matcher_new :: "u8 list \<Rightarrow> query_matcher option" where
  "query_matcher_new needle =
     map_option (\<lambda>failure. \<lparr>qm_needle = needle, qm_failure = failure\<rparr>)
       (build_failure needle [1..<length needle] 0 (replicate (length needle) 0))"

fun count_loop :: "query_matcher \<Rightarrow> u8 list \<Rightarrow> nat \<Rightarrow> u32 \<Rightarrow> u32 option" where
  "count_loop qm [] matched count = Some count"
| "count_loop qm (byte # bytes) matched count =
     (case fall_back (qm_needle qm) (qm_failure qm) byte matched of
        None \<Rightarrow> None
      | Some matched \<Rightarrow>
          if byte = qm_needle qm ! matched then
            (let matched = matched + 1 in
             if matched = length (qm_needle qm)
             then count_loop qm bytes (qm_failure qm ! (matched - 1)) (saturating_add count 1)
             else count_loop qm bytes matched count)
          else count_loop qm bytes matched count)"

definition occurrence_count :: "u8 list \<Rightarrow> query_matcher \<Rightarrow> u32 option" where
  "occurrence_count haystack qm =
     (if qm_needle qm = [] \<or> length haystack < length (qm_needle qm) then Some 0
      else count_loop qm haystack 0 0)"

section \<open>Prefixes of the needle at the end of a text\<close>

text \<open>The proper prefixes of the needle, by length, that the text ends with.\<close>

definition ends :: "'a list \<Rightarrow> 'a list \<Rightarrow> nat set" where
  "ends p t = {k. k < length p \<and> suffix (take k p) t}"

definition best :: "'a list \<Rightarrow> 'a list \<Rightarrow> nat" where
  "best p t = Max (ends p t)"

lemma ends_finite [simp]: "finite (ends p t)"
  by (simp add: ends_def)

lemma ends_zero: "p \<noteq> [] \<Longrightarrow> 0 \<in> ends p t"
  by (simp add: ends_def)

lemma best_in: "p \<noteq> [] \<Longrightarrow> best p t \<in> ends p t"
  unfolding best_def using ends_zero by (intro Max_in) auto

lemma best_ge: "k \<in> ends p t \<Longrightarrow> k \<le> best p t"
  unfolding best_def by simp

lemma best_eqI: "m \<in> ends p t \<Longrightarrow> (\<And>k. k \<in> ends p t \<Longrightarrow> k \<le> m) \<Longrightarrow> best p t = m"
  unfolding best_def by (rule Max_eqI) auto

lemma ends_below:
  assumes "j \<in> ends p t" "k < j"
  shows "k \<in> ends p t \<longleftrightarrow> k \<in> ends p (tl (take j p))"
proof -
  have j: "j < length p" "suffix (take j p) t" using assms(1) by (auto simp: ends_def)
  have "suffix (take k p) t \<longleftrightarrow> suffix (take k p) (take j p)"
    using assms(2) j by (auto intro: suffix_order.trans) (rule suffix_length_suffix, auto)
  also have "\<dots> \<longleftrightarrow> suffix (take k p) (tl (take j p))"
  proof
    assume "suffix (take k p) (take j p)"
    moreover have "take k p \<noteq> take j p" using assms(2) j(1) by (auto dest: arg_cong [of _ _ length])
    ultimately show "suffix (take k p) (tl (take j p))"
      by (cases "take j p") (auto simp: suffix_Cons)
  next
    assume "suffix (take k p) (tl (take j p))"
    then show "suffix (take k p) (take j p)" using suffix_order.trans suffix_tl by blast
  qed
  finally show ?thesis using assms(2) j(1) by (auto simp: ends_def)
qed

lemma ends_snoc:
  "Suc k \<in> ends p (t @ [x]) \<longleftrightarrow> Suc k < length p \<and> k \<in> ends p t \<and> p ! k = x"
  by (auto simp: ends_def take_Suc_conv_app_nth)

lemma full_match:
  assumes "p \<noteq> []"
  shows "suffix p (t @ [x]) \<longleftrightarrow> length p - 1 \<in> ends p t \<and> p ! (length p - 1) = x"
proof -
  have "p = take (length p - 1) p @ [p ! (length p - 1)]"
    using assms by (metis append_butlast_last_id butlast_conv_take last_conv_nth)
  then have "suffix p (t @ [x]) \<longleftrightarrow> suffix (take (length p - 1) p @ [p ! (length p - 1)]) (t @ [x])" by simp
  then show ?thesis using assms by (auto simp: ends_def)
qed

section \<open>The table and the loop\<close>

text \<open>The entries of the table below a length are the longest proper borders.\<close>

definition table_ok :: "u8 list \<Rightarrow> nat list \<Rightarrow> nat \<Rightarrow> bool" where
  "table_ok p failure n \<longleftrightarrow> (\<forall>i. 0 < i \<longrightarrow> i \<le> n \<longrightarrow> failure ! (i - 1) = best p (tl (take i p)))"

lemma best_prefix_less:
  assumes "p \<noteq> []" "0 < i"
  shows "best p (tl (take i p)) < i"
proof -
  have "best p (tl (take i p)) \<in> ends p (tl (take i p))" using assms(1) by (rule best_in)
  then have "length (take (best p (tl (take i p))) p) \<le> length (tl (take i p))"
    "best p (tl (take i p)) < length p"
    by (auto simp: ends_def dest: suffix_length_le)
  then show ?thesis using assms(2) by simp
qed

lemma fall_back_finds:
  assumes p: "p \<noteq> []" and tab: "table_ok p failure m" and m: "m = best p t"
  shows "\<exists>k. fall_back p failure x m = Some k \<and> k \<in> ends p t \<and> (k = 0 \<or> p ! k = x)
    \<and> (\<forall>j\<in>ends p t. k < j \<longrightarrow> p ! j \<noteq> x)"
proof -
  let ?b = "\<lambda>k. k > 0 \<and> x \<noteq> p ! k"
  let ?P = "\<lambda>k. k \<in> ends p t \<and> k \<le> m \<and> (\<forall>j\<in>ends p t. k < j \<longrightarrow> p ! j \<noteq> x)"
  have step: "?P (failure ! (k - 1)) \<and> failure ! (k - 1) < k" if P: "?P k" and b: "?b k" for k
  proof -
    have f: "failure ! (k - 1) = best p (tl (take k p))" using tab that by (simp add: table_ok_def)
    have less: "best p (tl (take k p)) < k" using best_prefix_less [OF p] that(2) by simp
    have kin: "k \<in> ends p t" using that(1) by simp
    have "best p (tl (take k p)) \<in> ends p t"
      using best_in [OF p] ends_below [OF kin less] by blast
    moreover have "p ! j \<noteq> x" if j: "j \<in> ends p t" "best p (tl (take k p)) < j" for j
    proof (cases "k < j")
      case True
      with \<open>?P k\<close> j show ?thesis by blast
    next
      case False
      show ?thesis
      proof (cases "j = k")
        case True
        with b show ?thesis by auto
      next
        case False
        with \<open>\<not> k < j\<close> have "j < k" by simp
        with j(1) kin have "j \<in> ends p (tl (take k p))" using ends_below by blast
        with j(2) best_ge show ?thesis by (metis not_less)
      qed
    qed
    ultimately show ?thesis using f less that(1) by auto
  qed
  have "?P m" using m best_in [OF p] best_ge [of _ p t] by (metis leD order_refl)
  then have "\<exists>k. while_option ?b (\<lambda>k. failure ! (k - 1)) m = Some k"
    by (intro measure_while_option_Some [where P = ?P and f = id, rotated]) (use step in auto)
  then obtain k where k: "while_option ?b (\<lambda>k. failure ! (k - 1)) m = Some k" by blast
  have "?P k"
    by (rule while_option_rule [where P = ?P, OF _ k \<open>?P m\<close>]) (use step in blast)
  moreover have "\<not> ?b k" by (rule while_option_stop [OF k])
  ultimately show ?thesis using k by (auto simp: fall_back_def)
qed

text \<open>One byte of a text: the state becomes the longest prefix that ends the longer text.\<close>

lemma best_snoc:
  assumes p: "p \<noteq> []" and k: "k \<in> ends p t" "k = 0 \<or> p ! k = x" "\<forall>j\<in>ends p t. k < j \<longrightarrow> p ! j \<noteq> x"
    and open_: "\<not> suffix p (t @ [x])"
  shows "best p (t @ [x]) = (if x = p ! k then Suc k else k)"
proof -
  have bound: "j \<le> (if x = p ! k then Suc k else k)" if j: "j \<in> ends p (t @ [x])" for j
  proof (cases j)
    case (Suc i)
    with j have "i \<in> ends p t" "p ! i = x" by (simp_all add: ends_snoc)
    then have "i \<le> k" using k(3) by (metis not_less)
    moreover have "x = p ! k \<or> i \<noteq> k" using \<open>p ! i = x\<close> by auto
    ultimately show ?thesis using Suc k(2) \<open>p ! i = x\<close> by auto
  qed simp
  show ?thesis
  proof (cases "x = p ! k")
    case True
    have "Suc k < length p"
    proof (rule ccontr)
      assume "\<not> Suc k < length p"
      moreover have "k < length p" using k(1) by (simp add: ends_def)
      ultimately have "k = length p - 1" by simp
      with True k(1) full_match [OF p, of t x] open_ show False by simp
    qed
    with True k(1) have "Suc k \<in> ends p (t @ [x])" by (simp add: ends_snoc)
    with True bound show ?thesis by (intro best_eqI) auto
  next
    case False
    with k(2) have "k = 0" by simp
    with False bound show ?thesis by (intro best_eqI) (auto simp: ends_zero [OF p])
  qed
qed

text \<open>The two loops take the same step.\<close>

lemma matcher_step:
  assumes p: "p \<noteq> []" and tab: "table_ok p failure n" "best p t \<le> n" and open_: "\<not> suffix p (t @ [x])"
  shows "\<exists>k. fall_back p failure x (best p t) = Some k
    \<and> best p (t @ [x]) = (if x = p ! k then Suc k else k) \<and> (x = p ! k \<longrightarrow> Suc k < length p) \<and> (x \<noteq> p ! k \<longrightarrow> k = 0)"
proof -
  have "table_ok p failure (best p t)" using tab by (auto simp: table_ok_def)
  then obtain k where k: "fall_back p failure x (best p t) = Some k" "k \<in> ends p t" "k = 0 \<or> p ! k = x"
    "\<forall>j\<in>ends p t. k < j \<longrightarrow> p ! j \<noteq> x"
    using fall_back_finds [OF p _ refl] by blast
  have b: "best p (t @ [x]) = (if x = p ! k then Suc k else k)" using best_snoc [OF p k(2-4) open_] .
  have "best p (t @ [x]) < length p" using best_in [OF p, of "t @ [x]"] by (simp add: ends_def)
  with b k(1,3) show ?thesis by auto
qed

lemma tl_take_Suc: "0 < i \<Longrightarrow> i < length p \<Longrightarrow> tl (take (Suc i) p) = tl (take i p) @ [p ! i]"
  by (cases p) (auto simp: take_Suc_conv_app_nth gr0_conv_Suc)

lemma build_failure_ok:
  assumes "p \<noteq> []" "0 < i" "i \<le> length p" "length failure = length p" "table_ok p failure i"
    "\<forall>j. i \<le> j \<longrightarrow> j < length p \<longrightarrow> failure ! j = 0" "m = best p (tl (take i p))"
  shows "\<exists>f. build_failure p [i..<length p] m failure = Some f \<and> table_ok p f (length p) \<and> length f = length p"
  using assms(2-)
proof (induction "length p - i" arbitrary: i failure m)
  case 0
  then show ?case by simp
next
  case (Suc d)
  then have i: "i < length p" by simp
  let ?t = "tl (take i p)"
  have "length (?t @ [p ! i]) < length p" using i Suc.prems(1) by simp
  then have "\<not> suffix p (?t @ [p ! i])" using suffix_length_le leD by blast
  moreover have "best p ?t \<le> i" using best_prefix_less [OF assms(1) Suc.prems(1)] by simp
  ultimately obtain k where k: "fall_back p failure (p ! i) m = Some k"
    "best p (?t @ [p ! i]) = (if p ! i = p ! k then Suc k else k)" "p ! i \<noteq> p ! k \<longrightarrow> k = 0"
    using matcher_step [OF assms(1) Suc.prems(4)] Suc.prems(6) by metis
  define f where "f = (if p ! i = p ! k then failure[i := Suc k] else failure)"
  define m' where "m' = (if p ! i = p ! k then Suc k else k)"
  have m': "m' = best p (tl (take (Suc i) p))"
    unfolding m'_def tl_take_Suc [OF Suc.prems(1) i] using k(2) by simp
  have fi: "f ! i = m'"
    using i Suc.prems(3,5) k(3) by (auto simp: f_def m'_def)
  have "table_ok p f (Suc i)"
    unfolding table_ok_def
  proof (intro allI impI)
    fix j assume j: "0 < j" "j \<le> Suc i"
    show "f ! (j - 1) = best p (tl (take j p))"
    proof (cases "j = Suc i")
      case True
      then show ?thesis using fi m' by simp
    next
      case False
      with j have "j \<le> i" "j - 1 \<noteq> i" by auto
      then have "f ! (j - 1) = failure ! (j - 1)" by (simp add: f_def)
      with \<open>j \<le> i\<close> j(1) Suc.prems(4) show ?thesis by (simp add: table_ok_def)
    qed
  qed
  moreover have "length f = length p" using Suc.prems(3) by (simp add: f_def)
  moreover have "\<forall>j. Suc i \<le> j \<longrightarrow> j < length p \<longrightarrow> f ! j = 0"
    using Suc.prems(5) by (simp add: f_def)
  moreover have "d = length p - Suc i" "Suc i \<le> length p" using Suc.hyps(2) i by auto
  ultimately have "\<exists>g. build_failure p [Suc i..<length p] m' f = Some g \<and> table_ok p g (length p) \<and> length g = length p"
    using m' by (intro Suc.hyps(1)) simp_all
  moreover have "build_failure p [i..<length p] m failure = build_failure p [Suc i..<length p] m' f"
    using k(1) i by (simp add: upt_conv_Cons f_def m'_def)
  ultimately show ?case by simp
qed

text \<open>The table can always be built, for the empty needle too.\<close>

lemma best_nil: "p \<noteq> [] \<Longrightarrow> best p [] = 0"
  by (rule best_eqI) (auto simp: ends_def)

lemma query_matcher_new_ok:
  "\<exists>f. query_matcher_new p = Some \<lparr>qm_needle = p, qm_failure = f\<rparr> \<and> table_ok p f (length p)"
proof (cases "p = []")
  case True
  then show ?thesis by (simp add: query_matcher_new_def table_ok_def)
next
  case False
  have "\<exists>f. build_failure p [1..<length p] 0 (replicate (length p) 0) = Some f
    \<and> table_ok p f (length p) \<and> length f = length p"
  proof (rule build_failure_ok [OF False])
    have "tl (take 1 p) = []" using False by (cases p) auto
    then show "0 = best p (tl (take 1 p))" using best_nil [OF False] by simp
    have one: "0 < i \<and> i \<le> 1 \<longleftrightarrow> i = 1" for i :: nat by auto
    have "(replicate (length p) (0 :: nat)) ! 0 = 0" using False by simp
    then show "table_ok p (replicate (length p) 0) 1"
      using one \<open>0 = best p (tl (take 1 p))\<close> unfolding table_ok_def by (metis diff_self_eq_0)
  qed (use False in \<open>auto simp: Suc_le_eq\<close>)
  then show ?thesis by (auto simp: query_matcher_new_def)
qed

section \<open>Counting\<close>

text \<open>The matches that end inside a stretch of bytes, the text before it given.\<close>

fun hits :: "'a list \<Rightarrow> 'a list \<Rightarrow> 'a list \<Rightarrow> nat" where
  "hits p t [] = 0"
| "hits p t (x # xs) = (if suffix p (t @ [x]) then 1 else 0) + hits p (t @ [x]) xs"

lemma hits_card: "hits p t xs = card {e. 0 < e \<and> e \<le> length xs \<and> suffix p (t @ take e xs)}"
proof (induction xs arbitrary: t)
  case Nil
  have "{e. 0 < e \<and> e \<le> length ([] :: 'a list) \<and> suffix p (t @ take e [])} = {}" by auto
  then show ?case by (simp only: hits.simps card.empty)
next
  case (Cons x xs)
  let ?A = "{e. 0 < e \<and> e \<le> length xs \<and> suffix p ((t @ [x]) @ take e xs)}"
  have fin: "finite ?A" by (rule finite_subset [of _ "{..length xs}"]) auto
  have "e \<in> {e. 0 < e \<and> e \<le> length (x # xs) \<and> suffix p (t @ take e (x # xs))}
    \<longleftrightarrow> e \<in> (if suffix p (t @ [x]) then {1} else {}) \<union> Suc ` ?A" for e
    by (cases e; cases "e - 1") (auto simp: image_iff)
  then have "{e. 0 < e \<and> e \<le> length (x # xs) \<and> suffix p (t @ take e (x # xs))}
    = (if suffix p (t @ [x]) then {1} else {}) \<union> Suc ` ?A" by blast
  moreover have "card ((if suffix p (t @ [x]) then {1} else {}) \<union> Suc ` ?A)
    = (if suffix p (t @ [x]) then 1 else 0) + card ?A"
  proof -
    have "card (Suc ` ?A) = card ?A" by (simp add: card_image)
    moreover have "1 \<notin> Suc ` ?A" by auto
    ultimately show ?thesis using fin by simp
  qed
  ultimately show ?case using Cons.IH [of "t @ [x]"] by simp
qed

text \<open>The positions where the needle occurs, overlapping ones counted.\<close>

definition occurrences :: "'a list \<Rightarrow> 'a list \<Rightarrow> nat" where
  "occurrences p h = length (filter (\<lambda>i. take (length p) (drop i h) = p) [0..<length h])"

lemma occurs_at_iff:
  "p \<noteq> [] \<Longrightarrow> i < length h \<and> take (length p) (drop i h) = p \<longleftrightarrow>
    i + length p \<le> length h \<and> suffix p (take (i + length p) h)"
proof
  assume p: "p \<noteq> []" and "i < length h \<and> take (length p) (drop i h) = p"
  then have i: "take (length p) (drop i h) = p" by simp
  then have "length (take (length p) (drop i h)) = length p" by simp
  then have "length p \<le> length h - i" by simp
  moreover have "take (i + length p) h = take i h @ p" using i by (simp add: take_add)
  ultimately show "i + length p \<le> length h \<and> suffix p (take (i + length p) h)"
    using p by (cases p) (auto intro: suffixI)
next
  assume p: "p \<noteq> []" and i: "i + length p \<le> length h \<and> suffix p (take (i + length p) h)"
  then obtain u where u: "take (i + length p) h = u @ p" by (auto elim: suffixE)
  then have "length (take (i + length p) h) = length (u @ p)" by simp
  with i have "length u = i" by simp
  with u have "drop i (take (i + length p) h) = p" by simp
  then have "take (length p) (drop i h) = p" by (simp add: drop_take)
  moreover have "i < length h" using i p by (cases p) auto
  ultimately show "i < length h \<and> take (length p) (drop i h) = p" by simp
qed

lemma occurrences_hits:
  assumes "p \<noteq> []"
  shows "occurrences p h = hits p [] h"
proof -
  let ?A = "{i. i < length h \<and> take (length p) (drop i h) = p}"
  have "{e. 0 < e \<and> e \<le> length h \<and> suffix p ([] @ take e h)} = (\<lambda>i. i + length p) ` ?A"
  proof (intro set_eqI iffI)
    fix e assume e: "e \<in> {e. 0 < e \<and> e \<le> length h \<and> suffix p ([] @ take e h)}"
    then have "suffix p (take e h)" by simp
    then have "length p \<le> length (take e h)" by (rule suffix_length_le)
    then have "length p \<le> e" by simp
    then have "e = (e - length p) + length p" by simp
    moreover from this e have "e - length p \<in> ?A" using occurs_at_iff [OF assms, of "e - length p" h] by simp
    ultimately show "e \<in> (\<lambda>i. i + length p) ` ?A" by blast
  next
    fix e assume "e \<in> (\<lambda>i. i + length p) ` ?A"
    then obtain i where "e = i + length p" "i \<in> ?A" by blast
    then show "e \<in> {e. 0 < e \<and> e \<le> length h \<and> suffix p ([] @ take e h)}"
      using occurs_at_iff [OF assms, of i h] assms by simp
  qed
  then have "hits p [] h = card ?A" by (simp only: hits_card) (simp add: card_image)
  then show ?thesis by (simp add: occurrences_def length_filter_conv_card conj_commute cong: conj_cong)
qed

lemma ends_after_match:
  assumes "suffix p t"
  shows "ends p t = ends p (tl p)"
proof -
  have "suffix (take k p) t \<longleftrightarrow> suffix (take k p) (tl p)" if k: "k < length p" for k
  proof -
    have "suffix (take k p) t \<longleftrightarrow> suffix (take k p) p"
      using assms k by (auto intro: suffix_order.trans) (rule suffix_length_suffix, auto)
    also have "\<dots> \<longleftrightarrow> suffix (take k p) (tl p)"
    proof
      have "take k p \<noteq> p" using k by (auto dest: arg_cong [of _ _ length])
      moreover assume "suffix (take k p) p"
      ultimately show "suffix (take k p) (tl p)" by (cases p) (auto simp: suffix_Cons)
    next
      assume "suffix (take k p) (tl p)"
      then show "suffix (take k p) p" using suffix_order.trans suffix_tl by blast
    qed
    finally show ?thesis .
  qed
  then show ?thesis by (auto simp: ends_def)
qed

lemma matcher_step_full:
  assumes p: "p \<noteq> []" and tab: "table_ok p failure (length p)" and full: "suffix p (t @ [x])"
  shows "fall_back p failure x (best p t) = Some (length p - 1) \<and> x = p ! (length p - 1)
    \<and> failure ! (length p - 1) = best p (t @ [x])"
proof -
  have last_: "length p - 1 \<in> ends p t" "p ! (length p - 1) = x" using full full_match [OF p] by blast+
  have "best p t < length p" using best_in [OF p, of t] by (simp add: ends_def)
  then have "table_ok p failure (best p t)" using tab by (auto simp: table_ok_def)
  then obtain k where k: "fall_back p failure x (best p t) = Some k" "k \<in> ends p t"
    "\<forall>j\<in>ends p t. k < j \<longrightarrow> p ! j \<noteq> x"
    using fall_back_finds [OF p _ refl] by blast
  have "\<not> k < length p - 1" using k(3) last_ by blast
  moreover have "k < length p" using k(2) by (simp add: ends_def)
  ultimately have "k = length p - 1" by simp
  moreover have "failure ! (length p - 1) = best p (tl p)" using tab p by (simp add: table_ok_def)
  moreover have "best p (t @ [x]) = best p (tl p)"
    using ends_after_match [OF full] by (simp add: best_def)
  ultimately show ?thesis using k(1) last_(2) by simp
qed

lemma count_loop_counts:
  assumes p: "p \<noteq> []" and tab: "table_ok p f (length p)"
  shows "m = best p t \<Longrightarrow> count_loop \<lparr>qm_needle = p, qm_failure = f\<rparr> xs m c
    = Some (of_nat (min (unat c + hits p t xs) (2 ^ 32 - 1)))"
proof (induction xs arbitrary: t m c)
  case Nil
  have "unat c \<le> 2 ^ 32 - 1" using unsigned_less [of c, where 'a = nat] by simp
  then show ?case by (simp add: min_absorb1)
next
  case (Cons x xs)
  show ?case
  proof (cases "suffix p (t @ [x])")
    case True
    define c' where "c' = saturating_add c 1"
    have step: "fall_back p f x m = Some (length p - 1)" "x = p ! (length p - 1)"
      "f ! (length p - 1) = best p (t @ [x])"
      using matcher_step_full [OF p tab True] Cons.prems by blast+
    have "count_loop \<lparr>qm_needle = p, qm_failure = f\<rparr> (x # xs) m c
      = count_loop \<lparr>qm_needle = p, qm_failure = f\<rparr> xs (best p (t @ [x])) c'"
      using step p by (simp add: c'_def)
    also have "\<dots> = Some (of_nat (min (unat c' + hits p (t @ [x]) xs) (2 ^ 32 - 1)))"
      by (rule Cons.IH [OF refl])
    also have "min (unat c' + hits p (t @ [x]) xs) (2 ^ 32 - 1) = min (unat c + hits p t (x # xs)) (2 ^ 32 - 1)"
      using True by (simp add: c'_def saturating_add_unat)
    finally show ?thesis .
  next
    case False
    have "best p t < length p" using best_in [OF p, of t] by (simp add: ends_def)
    then obtain k where k: "fall_back p f x m = Some k" "best p (t @ [x]) = (if x = p ! k then Suc k else k)"
      "x = p ! k \<longrightarrow> Suc k < length p"
      using matcher_step [OF p tab _ False] Cons.prems by (metis less_imp_le)
    then have step: "count_loop \<lparr>qm_needle = p, qm_failure = f\<rparr> (x # xs) m c
      = count_loop \<lparr>qm_needle = p, qm_failure = f\<rparr> xs (best p (t @ [x])) c"
      by (cases "x = p ! k") auto
    show ?thesis unfolding step Cons.IH [OF refl] by (simp only: hits.simps False if_False add_0)
  qed
qed

lemma occurrences_short: "length h < length p \<Longrightarrow> occurrences p h = 0"
  by (auto simp: occurrences_def filter_empty_conv dest: arg_cong [of _ _ length])

text \<open>
  C36.  The search term is counted exactly: for every needle and every text the matcher is built, its loops return,
  and the result is the number of positions where the needle occurs, overlaps included, stopped at the largest u32.
  (A needle that is empty counts as absent.)
\<close>
theorem matcher_counts_occurrences:
  "Option.bind (query_matcher_new needle) (occurrence_count haystack)
    = Some (of_nat (if needle = [] then 0 else min (occurrences needle haystack) (2 ^ 32 - 1)))"
proof (cases "needle = [] \<or> length haystack < length needle")
  case True
  obtain f where "query_matcher_new needle = Some \<lparr>qm_needle = needle, qm_failure = f\<rparr>"
    using query_matcher_new_ok by blast
  with True show ?thesis by (auto simp: occurrence_count_def occurrences_short)
next
  case False
  then have p: "needle \<noteq> []" by simp
  obtain f where f: "query_matcher_new needle = Some \<lparr>qm_needle = needle, qm_failure = f\<rparr>"
    "table_ok needle f (length needle)"
    using query_matcher_new_ok by blast
  have "count_loop \<lparr>qm_needle = needle, qm_failure = f\<rparr> haystack 0 0
    = Some (of_nat (min (occurrences needle haystack) (2 ^ 32 - 1)))"
    using count_loop_counts [OF p f(2), of 0 "[]"] best_nil [OF p] occurrences_hits [OF p, of haystack] by simp
  with False f(1) show ?thesis by (simp add: occurrence_count_def)
qed

end
