(* ===== verification/Rvf_Format.thy ===== *)
theory Rvf_Format
  imports Le_Bytes
begin

unbundle bit_operations_syntax

text \<open>
  Crate \<open>rvm-rvf\<close>, \<open>format.rs\<close> and \<open>container.rs\<close>: the wire format of RVF segments and the walk that turns the
  bytes of a container into an inventory of segments.  Offsets are natural numbers: they are positions in a
  buffer held in memory, so the additions of the code on \<open>usize\<close> cannot overflow.
\<close>

section \<open>Format\<close>

definition SEGMENT_MAGIC :: u32 where "SEGMENT_MAGIC = 0x52564653"
definition SEGMENT_VERSION :: u8 where "SEGMENT_VERSION = 1"
definition SEGMENT_HEADER_SIZE :: nat where "SEGMENT_HEADER_SIZE = 64"
definition SEGMENT_ALIGNMENT :: nat where "SEGMENT_ALIGNMENT = 64"
definition MAX_SEGMENT_PAYLOAD :: u64 where "MAX_SEGMENT_PAYLOAD = 4 * 1024 * 1024 * 1024"
definition MAX_SEGMENTS :: nat where "MAX_SEGMENTS = 2 ^ 20"
definition SIGNATURE_FOOTER_MIN_SIZE :: nat where "SIGNATURE_FOOTER_MIN_SIZE = 8"
definition MAX_SIGNATURE_LENGTH :: u16 where "MAX_SIGNATURE_LENGTH = 7856"
definition SIG_ALGO_ED25519 :: u16 where "SIG_ALGO_ED25519 = 0"
definition ED25519_SIGNATURE_LENGTH :: u16 where "ED25519_SIGNATURE_LENGTH = 64"
definition SIGN_CONTEXT :: "u8 list" where "SIGN_CONTEXT = map of_char ''RVF-v1-segment''"

definition SEG_TYPE_MANIFEST :: u8 where "SEG_TYPE_MANIFEST = 0x05"
definition SEG_TYPE_META :: u8 where "SEG_TYPE_META = 0x07"
definition SEG_TYPE_PROFILE :: u8 where "SEG_TYPE_PROFILE = 0x0B"
definition SEG_TYPE_KERNEL :: u8 where "SEG_TYPE_KERNEL = 0x0E"
definition SEG_TYPE_EBPF :: u8 where "SEG_TYPE_EBPF = 0x0F"
definition SEG_TYPE_WASM :: u8 where "SEG_TYPE_WASM = 0x10"

definition FLAG_ENCRYPTED :: u16 where "FLAG_ENCRYPTED = 0x0002"
definition FLAG_SIGNED :: u16 where "FLAG_SIGNED = 0x0004"
definition FLAG_KNOWN_MASK :: u16 where "FLAG_KNOWN_MASK = 0x0FFF"

datatype segment_class = ClassRuntime | ClassModel | ClassState | ClassMemory

definition is_executable_type :: "u8 \<Rightarrow> bool" where
  "is_executable_type seg_type \<longleftrightarrow>
     seg_type = SEG_TYPE_KERNEL \<or> seg_type = SEG_TYPE_EBPF \<or> seg_type = SEG_TYPE_WASM"

definition segment_class :: "u8 \<Rightarrow> segment_class" where
  "segment_class seg_type =
     (if seg_type \<in> {SEG_TYPE_KERNEL, SEG_TYPE_EBPF, SEG_TYPE_WASM} then ClassRuntime
      else if seg_type \<in> {0x01, 0x02, 0x06, 0x08, 0x09} then ClassModel
      else if seg_type \<in> {0x03, 0x04} \<or> 0x20 \<le> seg_type \<and> seg_type \<le> 0x23 then ClassState
      else ClassMemory)"

text \<open>The capability classes are named here because the error type of the crate mentions them.\<close>

datatype capability_class =
    CcMemory | CcFilesystem | CcNetwork | CcModel | CcMcp | CcProcess | CcClock | CcRandomness
  | CcGpu | CcSensor | CcDisplay | CcAudio | CcClipboard | CcPersistentState | CcInterAgentMessaging

datatype rvf_error =
    BadMagic | Truncated | UnsupportedVersion u8 | PayloadOutOfBounds | PayloadTooLarge
  | MalformedFooter | SignedFlagWithoutFooter | NoSegments | TrailingBytes | TooManySegments
  | NoForwardProgress | UnsupportedCapability capability_class | UnknownCapability
  | RvfCapabilityTableFull

record segment_header =
  sh_magic :: u32
  sh_version :: u8
  sh_seg_type :: u8
  sh_flags :: u16
  sh_segment_id :: u64
  sh_payload_length :: u64
  sh_timestamp_ns :: u64
  sh_checksum_algo :: u8
  sh_compression :: u8
  sh_reserved_0 :: u16
  sh_reserved_1 :: u32
  sh_content_hash :: "u8 list"
  sh_uncompressed_len :: u32
  sh_alignment_pad :: u32

definition bytes_at :: "u8 list \<Rightarrow> nat \<Rightarrow> nat \<Rightarrow> u8 list" where
  "bytes_at data off n = take n (drop off data)"

definition u64_at :: "u8 list \<Rightarrow> nat \<Rightarrow> u64" where
  "u64_at data off = from_le_bytes64 (bytes_at data off 8)"

definition u32_at :: "u8 list \<Rightarrow> nat \<Rightarrow> u32" where
  "u32_at data off = from_le_bytes32 (bytes_at data off 4)"

definition header_parse :: "u8 list \<Rightarrow> rvf_error + segment_header" where
  "header_parse data =
     (if length data < SEGMENT_HEADER_SIZE then Inl Truncated
      else
        let magic = from_le_bytes32 [data ! 0, data ! 1, data ! 2, data ! 3] in
        if magic \<noteq> SEGMENT_MAGIC then Inl BadMagic
        else
          let version = data ! 4 in
          if version \<noteq> SEGMENT_VERSION then Inl (UnsupportedVersion version)
          else
            Inr \<lparr>sh_magic = magic, sh_version = version, sh_seg_type = data ! 5,
                 sh_flags = from_le_bytes16 [data ! 6, data ! 7],
                 sh_segment_id = u64_at data 0x08, sh_payload_length = u64_at data 0x10,
                 sh_timestamp_ns = u64_at data 0x18, sh_checksum_algo = data ! 0x20,
                 sh_compression = data ! 0x21, sh_reserved_0 = from_le_bytes16 [data ! 0x22, data ! 0x23],
                 sh_reserved_1 = u32_at data 0x24, sh_content_hash = bytes_at data 0x28 16,
                 sh_uncompressed_len = u32_at data 0x38, sh_alignment_pad = u32_at data 0x3C\<rparr>)"

definition header_to_bytes :: "segment_header \<Rightarrow> u8 list" where
  "header_to_bytes h =
     to_le_bytes32 (sh_magic h) @ [sh_version h, sh_seg_type h] @ to_le_bytes16 (sh_flags h)
     @ to_le_bytes64 (sh_segment_id h) @ to_le_bytes64 (sh_payload_length h)
     @ to_le_bytes64 (sh_timestamp_ns h) @ [sh_checksum_algo h, sh_compression h]
     @ to_le_bytes16 (sh_reserved_0 h) @ to_le_bytes32 (sh_reserved_1 h) @ sh_content_hash h
     @ to_le_bytes32 (sh_uncompressed_len h) @ to_le_bytes32 (sh_alignment_pad h)"

definition header_is_signed :: "segment_header \<Rightarrow> bool" where
  "header_is_signed h \<longleftrightarrow> sh_flags h AND FLAG_KNOWN_MASK AND FLAG_SIGNED = FLAG_SIGNED"

definition header_is_encrypted :: "segment_header \<Rightarrow> bool" where
  "header_is_encrypted h \<longleftrightarrow> sh_flags h AND FLAG_KNOWN_MASK AND FLAG_ENCRYPTED = FLAG_ENCRYPTED"

definition header_is_executable :: "segment_header \<Rightarrow> bool" where
  "header_is_executable h \<longleftrightarrow> is_executable_type (sh_seg_type h)"

definition header_class :: "segment_header \<Rightarrow> segment_class" where
  "header_class h = segment_class (sh_seg_type h)"

record signature_footer =
  sf_sig_algo :: u16
  sf_sig_length :: u16
  sf_signature :: "u8 list"
  sf_footer_length :: u32

definition compute_footer_length :: "u16 \<Rightarrow> u32" where
  "compute_footer_length sig_length = 2 + 2 + ucast sig_length + 4"

definition decode_signature_footer :: "u8 list \<Rightarrow> rvf_error + signature_footer" where
  "decode_signature_footer data =
     (if length data < SIGNATURE_FOOTER_MIN_SIZE then Inl Truncated
      else
        let sig_algo = from_le_bytes16 [data ! 0, data ! 1];
            sig_length = from_le_bytes16 [data ! 2, data ! 3]
        in if sig_length > MAX_SIGNATURE_LENGTH then Inl MalformedFooter
           else
             let sig_len = unat sig_length;
                 end_pos = 4 + sig_len + 4
             in if length data < end_pos then Inl Truncated
                else Inr \<lparr>sf_sig_algo = sig_algo, sf_sig_length = sig_length,
                          sf_signature = bytes_at data 4 sig_len,
                          sf_footer_length = u32_at data (4 + sig_len)\<rparr>)"

text \<open>The message a signature covers; the hash of the payload (SHAKE-256) is an argument.\<close>

definition build_signed_message_from_hash :: "segment_header \<Rightarrow> u8 list \<Rightarrow> u8 list" where
  "build_signed_message_from_hash h payload_hash =
     take 40 (header_to_bytes h) @ sh_content_hash h @ SIGN_CONTEXT
     @ to_le_bytes64 (sh_segment_id h) @ payload_hash"

definition build_signed_message :: "(u8 list \<Rightarrow> u8 list) \<Rightarrow> segment_header \<Rightarrow> u8 list \<Rightarrow> u8 list" where
  "build_signed_message shake256_128 h payload = build_signed_message_from_hash h (shake256_128 payload)"

definition align_up :: "nat \<Rightarrow> nat" where
  "align_up n = ((n + SEGMENT_ALIGNMENT - 1) div SEGMENT_ALIGNMENT) * SEGMENT_ALIGNMENT"

section \<open>The walk\<close>

record parsed_segment =
  ps_index :: nat
  ps_offset :: nat
  ps_header :: segment_header
  ps_payload :: "nat \<times> nat"
  ps_footer :: "(nat \<times> nat) option"

definition segment_is_signed :: "parsed_segment \<Rightarrow> bool" where
  "segment_is_signed seg = header_is_signed (ps_header seg)"

definition segment_is_executable :: "parsed_segment \<Rightarrow> bool" where
  "segment_is_executable seg = header_is_executable (ps_header seg)"

definition byte_range :: "u8 list \<Rightarrow> nat \<times> nat \<Rightarrow> u8 list" where
  "byte_range data r = take (snd r - fst r) (drop (fst r) data)"

definition segment_payload :: "u8 list \<Rightarrow> parsed_segment \<Rightarrow> u8 list" where
  "segment_payload data seg = byte_range data (ps_payload seg)"

definition ROOT_PAGE_MAGIC :: u32 where "ROOT_PAGE_MAGIC = 0x52564D30"
definition ROOT_PAGE_SIZE :: nat where "ROOT_PAGE_SIZE = 4096"

record walked_container =
  wc_segments :: "parsed_segment list"
  wc_root_page :: "(nat \<times> nat) option"

definition crc32c_bit :: "u32 \<Rightarrow> u32" where
  "crc32c_bit crc = drop_bit 1 crc XOR (0x82F63B78 AND (0 - (crc AND 1)))"

definition crc32c_byte :: "u32 \<Rightarrow> u8 \<Rightarrow> u32" where
  "crc32c_byte crc b = (crc32c_bit ^^ 8) (crc XOR ucast b)"

definition crc32c :: "u8 list \<Rightarrow> u32" where
  "crc32c data = NOT (foldl crc32c_byte 0xFFFFFFFF data)"

definition is_level0_page :: "u8 list \<Rightarrow> bool" where
  "is_level0_page page \<longleftrightarrow>
     (if length page \<noteq> ROOT_PAGE_SIZE then False
      else
        let u16_at = (\<lambda>off. from_le_bytes16 [page ! off, page ! (off + 1)]);
            stored = from_le_bytes32 [page ! 0xFFC, page ! 0xFFD, page ! 0xFFE, page ! 0xFFF]
        in take 4 page = to_le_bytes32 ROOT_PAGE_MAGIC \<and> u16_at 4 = 1 \<and> u16_at 0x96 \<le> 3688
           \<and> stored = crc32c (take 0xFFC page))"

definition split_root_page :: "u8 list \<Rightarrow> u8 list \<times> (nat \<times> nat) option" where
  "split_root_page data =
     (if length data < ROOT_PAGE_SIZE + SEGMENT_HEADER_SIZE then (data, None)
      else
        let start = length data - ROOT_PAGE_SIZE in
        if is_level0_page (drop start data) then (take start data, Some (start, length data))
        else (data, None))"

text \<open>The footer of a segment: its range, or nothing when the header has no \<open>SIGNED\<close> flag.\<close>

definition locate_footer :: "u8 list \<Rightarrow> segment_header \<Rightarrow> nat \<Rightarrow> rvf_error + (nat \<times> nat) option" where
  "locate_footer data header payload_end =
     (if header_is_signed header then
        (case decode_signature_footer (drop payload_end data) of
           Inl e \<Rightarrow> Inl e
         | Inr decoded \<Rightarrow>
             if sf_sig_length decoded = 0 then Inl SignedFlagWithoutFooter
             else if sf_footer_length decoded \<noteq> compute_footer_length (sf_sig_length decoded) then Inl MalformedFooter
             else
               let footer_end = payload_end + unat (sf_footer_length decoded) in
               if footer_end > length data then Inl MalformedFooter
               else Inr (Some (payload_end, footer_end)))
      else Inr None)"

text \<open>One turn of the loop at an offset: the segment that starts there and the offset that follows it.\<close>

definition walk_step :: "u8 list \<Rightarrow> nat \<Rightarrow> nat \<Rightarrow> rvf_error + parsed_segment \<times> nat" where
  "walk_step data index offset =
     (if index \<ge> MAX_SEGMENTS then Inl TooManySegments
      else
        case header_parse (drop offset data) of
          Inl e \<Rightarrow> Inl e
        | Inr header \<Rightarrow>
            if sh_payload_length header > MAX_SEGMENT_PAYLOAD then Inl PayloadTooLarge
            else
              let payload_start = offset + SEGMENT_HEADER_SIZE;
                  payload_end = payload_start + unat (sh_payload_length header)
              in if payload_end > length data then Inl PayloadOutOfBounds
                 else
                   case locate_footer data header payload_end of
                     Inl e \<Rightarrow> Inl e
                   | Inr footer \<Rightarrow>
                       let end_pos = (case footer of None \<Rightarrow> payload_end | Some r \<Rightarrow> snd r);
                           next_pos = align_up end_pos
                       in if next_pos \<le> offset then Inl NoForwardProgress
                          else Inr (\<lparr>ps_index = index, ps_offset = offset, ps_header = header,
                                     ps_payload = (payload_start, payload_end), ps_footer = footer\<rparr>, next_pos))"

lemma walk_step_progress: "walk_step data index offset = Inr (seg, next_pos) \<Longrightarrow> offset < next_pos"
  by (auto simp: walk_step_def Let_def split: if_splits sum.splits option.splits)

function walk_loop :: "u8 list \<Rightarrow> parsed_segment list \<Rightarrow> nat \<Rightarrow> rvf_error + parsed_segment list" where
  "walk_loop data segments offset =
     (if offset < length data then
        if length data - offset < SEGMENT_HEADER_SIZE then
          (if list_all (\<lambda>b. b = 0) (drop offset data) then Inr segments else Inl TrailingBytes)
        else
          case walk_step data (length segments) offset of
            Inl e \<Rightarrow> Inl e
          | Inr (seg, next_pos) \<Rightarrow>
              if next_pos > length data then Inr (segments @ [seg])
              else walk_loop data (segments @ [seg]) next_pos
      else Inr segments)"
  by pat_completeness auto

termination
  by (relation "measure (\<lambda>(data, segments, offset). length data - offset)")
     (auto dest!: walk_step_progress)

declare walk_loop.simps [simp del]

definition walk_segments :: "u8 list \<Rightarrow> rvf_error + parsed_segment list" where
  "walk_segments data =
     (if length data < SEGMENT_HEADER_SIZE then Inl Truncated
      else
        case walk_loop data [] 0 of
          Inl e \<Rightarrow> Inl e
        | Inr segments \<Rightarrow> if segments = [] then Inl NoSegments else Inr segments)"

definition walk_container :: "u8 list \<Rightarrow> rvf_error + walked_container" where
  "walk_container data =
     (let (body, root_page) = split_root_page data in
      case walk_segments body of
        Inr segments \<Rightarrow> Inr \<lparr>wc_segments = segments, wc_root_page = root_page\<rparr>
      | Inl e \<Rightarrow>
          if root_page \<noteq> None then
            (case walk_segments data of
               Inr segments \<Rightarrow> Inr \<lparr>wc_segments = segments, wc_root_page = None\<rparr>
             | Inl _ \<Rightarrow> Inl e)
          else Inl e)"

definition walk :: "u8 list \<Rightarrow> rvf_error + parsed_segment list" where
  "walk data = map_sum id wc_segments (walk_container data)"

definition root_manifest :: "parsed_segment list \<Rightarrow> parsed_segment option" where
  "root_manifest segments = find (\<lambda>s. sh_seg_type (ps_header s) = SEG_TYPE_MANIFEST) (rev segments)"

section \<open>Headers\<close>

lemma length_bytes_at [simp]: "off + n \<le> length d \<Longrightarrow> length (bytes_at d off n) = n"
  by (simp add: bytes_at_def)

lemma bytes_at_append: "bytes_at d off n @ bytes_at d (off + n) m = bytes_at d off (n + m)"
  by (simp add: bytes_at_def take_add add.commute [of off n])

lemma bytes_at_split: "n \<le> k \<Longrightarrow> bytes_at d off k = bytes_at d off n @ bytes_at d (off + n) (k - n)"
  by (simp add: bytes_at_append)

lemma bytes_at_Suc: "off < length d \<Longrightarrow> bytes_at d off (Suc n) = d ! off # bytes_at d (Suc off) n"
  by (simp add: bytes_at_def Cons_nth_drop_Suc [symmetric])

lemma bytes_at_0 [simp]: "bytes_at d off 0 = []"
  by (simp add: bytes_at_def)

lemma bytes_at_few:
  "off < length d \<Longrightarrow> [d ! off] = bytes_at d off 1"
  "Suc off < length d \<Longrightarrow> [d ! off, d ! Suc off] = bytes_at d off 2"
  "off + 3 < length d \<Longrightarrow> [d ! off, d ! Suc off, d ! Suc (Suc off), d ! Suc (Suc (Suc off))] = bytes_at d off 4"
  by (simp_all add: bytes_at_Suc numeral_eq_Suc)

lemma bytes_at_join:
  "off' = off + n \<Longrightarrow> bytes_at d off n @ bytes_at d off' m = bytes_at d off (n + m)"
  "off' = off + n \<Longrightarrow> bytes_at d off n @ bytes_at d off' m @ bs = bytes_at d off (n + m) @ bs"
  using bytes_at_append [of d off n m] by (simp_all flip: append_assoc)

lemma bytes_at_footer:
  "bytes_at d 0 (8 + n) = bytes_at d 0 2 @ bytes_at d 2 2 @ bytes_at d 4 n @ bytes_at d (4 + n) 4"
  by (simp add: bytes_at_join)

lemma header_pieces:
  assumes "64 \<le> length d"
  shows "[d ! 0, d ! 1, d ! 2, d ! 3] = bytes_at d 0 4" "[d ! 6, d ! 7] = bytes_at d 6 2"
    "[d ! 0x22, d ! 0x23] = bytes_at d 0x22 2"
  using bytes_at_few(3) [where off = 0 and d = d] bytes_at_few(2) [where off = 6 and d = d]
    bytes_at_few(2) [where off = "0x22" and d = d] assms
  by (simp_all add: numeral_2_eq_2 numeral_3_eq_3)

text \<open>
  What a header must satisfy to be written and read again.  The reserved fields are free: the format says
  that they must be zero, but the parser does not look.
\<close>

definition header_ok :: "segment_header \<Rightarrow> bool" where
  "header_ok h \<longleftrightarrow> sh_magic h = SEGMENT_MAGIC \<and> sh_version h = SEGMENT_VERSION \<and> length (sh_content_hash h) = 16"

lemma header_to_bytes_length: "length (header_to_bytes h) = 48 + length (sh_content_hash h)"
  by (simp add: header_to_bytes_def)

lemma header_parse_bytes:
  assumes "header_parse d = Inr h"
  shows "header_ok h \<and> SEGMENT_HEADER_SIZE \<le> length d \<and> bytes_at d 0 64 = header_to_bytes h"
proof -
  have len: "64 \<le> length d" using assms by (auto simp: header_parse_def SEGMENT_HEADER_SIZE_def split: if_splits)
  let ?b = "bytes_at d"
  have h: "h = \<lparr>sh_magic = from_le_bytes32 (?b 0 4), sh_version = d ! 4, sh_seg_type = d ! 5,
      sh_flags = from_le_bytes16 (?b 6 2), sh_segment_id = u64_at d 0x08, sh_payload_length = u64_at d 0x10,
      sh_timestamp_ns = u64_at d 0x18, sh_checksum_algo = d ! 0x20, sh_compression = d ! 0x21,
      sh_reserved_0 = from_le_bytes16 (?b 0x22 2), sh_reserved_1 = u32_at d 0x24,
      sh_content_hash = bytes_at d 0x28 16, sh_uncompressed_len = u32_at d 0x38, sh_alignment_pad = u32_at d 0x3C\<rparr>"
    and ok: "from_le_bytes32 (?b 0 4) = SEGMENT_MAGIC" "d ! 4 = SEGMENT_VERSION"
    using assms len unfolding header_parse_def Let_def header_pieces [OF len]
    by (auto split: if_splits)
  have "header_to_bytes h = ?b 0 4 @ ?b 4 1 @ ?b 5 1 @ ?b 6 2 @ ?b 8 8 @ ?b 16 8 @ ?b 24 8 @ ?b 32 1 @ ?b 33 1
      @ ?b 34 2 @ ?b 36 4 @ ?b 40 16 @ ?b 56 4 @ ?b 60 4"
    using len unfolding h header_to_bytes_def u64_at_def u32_at_def
    by (simp add: to_from_le_bytes bytes_at_Suc)
  also have "\<dots> = ?b 0 64" by (simp add: bytes_at_join)
  finally show ?thesis using len ok h by (simp add: header_ok_def SEGMENT_HEADER_SIZE_def)
qed

lemma header_to_bytes_inject:
  assumes "length (sh_content_hash h) = length (sh_content_hash h')" "header_to_bytes h = header_to_bytes h'"
  shows "h = h'"
  using assms by (cases h; cases h') (simp add: header_to_bytes_def)

text \<open>A header is read exactly from the bytes it is written to.\<close>

lemma header_parse_exact:
  "header_parse d = Inr h \<longleftrightarrow>
     header_ok h \<and> SEGMENT_HEADER_SIZE \<le> length d \<and> bytes_at d 0 64 = header_to_bytes h"
proof
  assume r: "header_ok h \<and> SEGMENT_HEADER_SIZE \<le> length d \<and> bytes_at d 0 64 = header_to_bytes h"
  then have len: "64 \<le> length d" by (simp add: SEGMENT_HEADER_SIZE_def)
  have "take 4 (bytes_at d 0 64) = to_le_bytes32 (sh_magic h)"
    using r by (simp add: header_to_bytes_def)
  then have "bytes_at d 0 4 = to_le_bytes32 (sh_magic h)" by (simp add: bytes_at_def)
  then have "[d ! 0, d ! 1, d ! 2, d ! 3] = to_le_bytes32 (sh_magic h)"
    by (simp only: header_pieces [OF len])
  moreover have "d ! 4 = sh_version h"
  proof -
    have "d ! 4 = bytes_at d 0 64 ! 4" using len by (simp add: bytes_at_def)
    also have "\<dots> = header_to_bytes h ! 4" using r by simp
    also have "\<dots> = sh_version h" by (simp add: header_to_bytes_def nth_append)
    finally show ?thesis .
  qed
  ultimately obtain h' where h': "header_parse d = Inr h'"
    using len r by (auto simp: header_parse_def header_ok_def Let_def SEGMENT_HEADER_SIZE_def)
  have "h' = h"
    using header_parse_bytes [OF h'] r by (intro header_to_bytes_inject) (auto simp: header_ok_def)
  with h' show "header_parse d = Inr h" by simp
qed (rule header_parse_bytes)

section \<open>Footers\<close>

definition footer_to_bytes :: "signature_footer \<Rightarrow> u8 list" where
  "footer_to_bytes f =
     to_le_bytes16 (sf_sig_algo f) @ to_le_bytes16 (sf_sig_length f) @ sf_signature f
     @ to_le_bytes32 (sf_footer_length f)"

definition footer_ok :: "signature_footer \<Rightarrow> bool" where
  "footer_ok f \<longleftrightarrow> length (sf_signature f) = unat (sf_sig_length f) \<and> sf_sig_length f \<le> MAX_SIGNATURE_LENGTH"

lemma footer_to_bytes_length: "length (footer_to_bytes f) = 8 + length (sf_signature f)"
  by (simp add: footer_to_bytes_def)

lemma decode_footer_bytes:
  assumes "decode_signature_footer d = Inr f"
  shows "footer_ok f \<and> 8 + unat (sf_sig_length f) \<le> length d
    \<and> bytes_at d 0 (8 + unat (sf_sig_length f)) = footer_to_bytes f"
proof -
  let ?b = "bytes_at d"
  define n where "n = unat (from_le_bytes16 (?b 2 2))"
  have len: "8 \<le> length d"
    using assms by (auto simp: decode_signature_footer_def SIGNATURE_FOOTER_MIN_SIZE_def split: if_splits)
  then have "[d ! 0, d ! 1] = ?b 0 2" "[d ! 2, d ! 3] = ?b 2 2"
    using bytes_at_few(2) [where off = 0 and d = d] bytes_at_few(2) [where off = 2 and d = d] by simp_all
  then have f: "f = \<lparr>sf_sig_algo = from_le_bytes16 (?b 0 2), sf_sig_length = from_le_bytes16 (?b 2 2),
      sf_signature = ?b 4 n, sf_footer_length = u32_at d (4 + n)\<rparr>"
    and ok: "from_le_bytes16 (?b 2 2) \<le> MAX_SIGNATURE_LENGTH" "8 + n \<le> length d"
    using assms by (auto simp: decode_signature_footer_def Let_def n_def not_less split: if_splits)
  have "footer_to_bytes f = ?b 0 2 @ ?b 2 2 @ ?b 4 n @ ?b (4 + n) 4"
    using len ok(2) by (simp add: f footer_to_bytes_def u32_at_def to_from_le_bytes)
  also have "\<dots> = ?b 0 (8 + n)" by (simp only: bytes_at_footer)
  finally show ?thesis using ok by (simp add: footer_ok_def f n_def add.commute add.left_commute)
qed

lemma decode_footer_exact:
  "decode_signature_footer d = Inr f \<longleftrightarrow>
     footer_ok f \<and> 8 + unat (sf_sig_length f) \<le> length d
     \<and> bytes_at d 0 (8 + unat (sf_sig_length f)) = footer_to_bytes f"
proof
  assume r: "footer_ok f \<and> 8 + unat (sf_sig_length f) \<le> length d
     \<and> bytes_at d 0 (8 + unat (sf_sig_length f)) = footer_to_bytes f"
  then have b: "bytes_at d 0 (8 + unat (sf_sig_length f)) = footer_to_bytes f" by blast
  let ?n = "unat (sf_sig_length f)"
  have len: "8 + ?n \<le> length d" "length (sf_signature f) = ?n" using r by (simp_all add: footer_ok_def)
  have pieces: "bytes_at d 0 2 = to_le_bytes16 (sf_sig_algo f)" "bytes_at d 2 2 = to_le_bytes16 (sf_sig_length f)"
    "bytes_at d 4 ?n = sf_signature f" "bytes_at d (4 + ?n) 4 = to_le_bytes32 (sf_footer_length f)"
  proof -
    have "bytes_at d 0 2 @ bytes_at d 2 2 @ bytes_at d 4 ?n @ bytes_at d (4 + ?n) 4 = footer_to_bytes f"
      using b by (simp only: bytes_at_footer)
    then show "bytes_at d 0 2 = to_le_bytes16 (sf_sig_algo f)" "bytes_at d 2 2 = to_le_bytes16 (sf_sig_length f)"
      "bytes_at d 4 ?n = sf_signature f" "bytes_at d (4 + ?n) 4 = to_le_bytes32 (sf_footer_length f)"
      using len unfolding footer_to_bytes_def by simp_all
  qed
  have "[d ! 0, d ! 1] = bytes_at d 0 2" "[d ! 2, d ! 3] = bytes_at d 2 2"
    using len bytes_at_few(2) [where off = 0 and d = d] bytes_at_few(2) [where off = 2 and d = d] by simp_all
  then show "decode_signature_footer d = Inr f"
    using pieces len r unfolding decode_signature_footer_def u32_at_def
    by (simp add: SIGNATURE_FOOTER_MIN_SIZE_def footer_ok_def Let_def not_less)
qed (rule decode_footer_bytes)

section \<open>Containers\<close>

text \<open>
  The layout of a container, stated by the bytes of its segments: a header at an aligned offset, the payload after it,
  and a footer exactly when the header is flagged as signed.
\<close>

definition segment_end :: "parsed_segment \<Rightarrow> nat" where
  "segment_end s = (case ps_footer s of None \<Rightarrow> snd (ps_payload s) | Some r \<Rightarrow> snd r)"

definition footer_laid :: "u8 list \<Rightarrow> nat \<Rightarrow> (nat \<times> nat) \<Rightarrow> bool" where
  "footer_laid d pos r \<longleftrightarrow>
     (\<exists>f. footer_ok f \<and> sf_sig_length f \<noteq> 0 \<and> sf_footer_length f = compute_footer_length (sf_sig_length f)
        \<and> r = (pos, pos + 8 + unat (sf_sig_length f)) \<and> snd r \<le> length d
        \<and> bytes_at d pos (8 + unat (sf_sig_length f)) = footer_to_bytes f)"

definition segment_laid :: "u8 list \<Rightarrow> parsed_segment \<Rightarrow> bool" where
  "segment_laid d s \<longleftrightarrow>
     header_ok (ps_header s) \<and> bytes_at d (ps_offset s) 64 = header_to_bytes (ps_header s)
     \<and> sh_payload_length (ps_header s) \<le> MAX_SEGMENT_PAYLOAD
     \<and> ps_payload s = (ps_offset s + 64, ps_offset s + 64 + unat (sh_payload_length (ps_header s)))
     \<and> snd (ps_payload s) \<le> length d
     \<and> (case ps_footer s of
          None \<Rightarrow> \<not> header_is_signed (ps_header s)
        | Some r \<Rightarrow> header_is_signed (ps_header s) \<and> footer_laid d (snd (ps_payload s)) r)"

fun laid_from :: "u8 list \<Rightarrow> nat \<Rightarrow> nat \<Rightarrow> parsed_segment list \<Rightarrow> bool" where
  "laid_from d i off [] \<longleftrightarrow> length d < off + 64 \<and> list_all (\<lambda>b. b = 0) (drop off d)"
| "laid_from d i off (s # ss) \<longleftrightarrow>
     i < MAX_SEGMENTS \<and> ps_index s = i \<and> ps_offset s = off \<and> segment_laid d s
     \<and> laid_from d (Suc i) (align_up (segment_end s)) ss"

definition container_laid :: "u8 list \<Rightarrow> parsed_segment list \<Rightarrow> bool" where
  "container_laid d ss \<longleftrightarrow> ss \<noteq> [] \<and> laid_from d 0 0 ss"

lemma align_up_ge: "n \<le> align_up n"
proof -
  have "64 * ((n + 63) div 64) + (n + 63) mod 64 = n + 63" "(n + 63) mod 64 < 64"
    by (rule mult_div_mod_eq) simp
  then have "n \<le> 64 * ((n + 63) div 64)" by linarith
  then show ?thesis by (simp add: align_up_def SEGMENT_ALIGNMENT_def mult.commute)
qed

lemma compute_footer_length_unat: "unat (compute_footer_length l) = 8 + unat l"
proof -
  have "unat l < 2 ^ 16" using unsigned_less [of l, where 'a = nat] by simp
  then show ?thesis by (simp add: compute_footer_length_def unat_word_ariths unsigned_ucast_eq take_bit_nat_eq_self)
qed

lemma bytes_at_drop: "bytes_at (drop k d) 0 n = bytes_at d k n"
  by (simp add: bytes_at_def)

lemma footer_laid_decode:
  "footer_laid d pos r \<longleftrightarrow> pos \<le> length d \<and>
     (\<exists>f. decode_signature_footer (drop pos d) = Inr f \<and> sf_sig_length f \<noteq> 0
        \<and> sf_footer_length f = compute_footer_length (sf_sig_length f)
        \<and> r = (pos, pos + unat (sf_footer_length f)))"
  unfolding footer_laid_def decode_footer_exact bytes_at_drop
  by (auto simp: compute_footer_length_unat)

lemma locate_footer_exact:
  assumes "pos \<le> length d"
  shows "locate_footer d h pos = Inr r \<longleftrightarrow>
    (case r of None \<Rightarrow> \<not> header_is_signed h | Some r \<Rightarrow> header_is_signed h \<and> footer_laid d pos r)"
proof -
  have fits: "pos + unat (sf_footer_length f) \<le> length d"
    if "decode_signature_footer (drop pos d) = Inr f" "sf_footer_length f = compute_footer_length (sf_sig_length f)" for f
  proof -
    have "8 + unat (sf_sig_length f) \<le> length d - pos" using decode_footer_bytes [OF that(1)] by simp
    then show ?thesis unfolding that(2) compute_footer_length_unat using assms by linarith
  qed
  show ?thesis
  proof (cases "decode_signature_footer (drop pos d)")
    case (Inl e)
    then show ?thesis unfolding footer_laid_decode by (auto simp: locate_footer_def split: option.splits)
  next
    case (Inr f)
    with fits [OF Inr] assms show ?thesis
      unfolding footer_laid_decode by (auto simp: locate_footer_def Let_def split: option.splits)
  qed
qed

lemma walk_step_cases:
  "walk_step d i off = Inr (s, next_pos) \<longleftrightarrow> i < MAX_SEGMENTS \<and>
     (\<exists>h ft. header_parse (drop off d) = Inr h \<and> sh_payload_length h \<le> MAX_SEGMENT_PAYLOAD
        \<and> off + 64 + unat (sh_payload_length h) \<le> length d
        \<and> locate_footer d h (off + 64 + unat (sh_payload_length h)) = Inr ft
        \<and> s = \<lparr>ps_index = i, ps_offset = off, ps_header = h,
              ps_payload = (off + 64, off + 64 + unat (sh_payload_length h)), ps_footer = ft\<rparr>
        \<and> next_pos = align_up (segment_end s) \<and> off < next_pos)"
  unfolding walk_step_def Let_def segment_end_def SEGMENT_HEADER_SIZE_def
  by (auto simp: not_le not_less split: sum.splits if_splits cong: option.case_cong)

lemma segment_end_ge:
  assumes "segment_laid d s"
  shows "ps_offset s + 64 \<le> segment_end s \<and> segment_end s \<le> length d"
  using assms by (auto simp: segment_laid_def segment_end_def footer_laid_def split: option.splits)

lemma walk_step_exact:
  "walk_step d i off = Inr (s, next_pos) \<longleftrightarrow>
     i < MAX_SEGMENTS \<and> ps_index s = i \<and> ps_offset s = off \<and> segment_laid d s \<and> next_pos = align_up (segment_end s)"
proof
  assume "walk_step d i off = Inr (s, next_pos)"
  then show "i < MAX_SEGMENTS \<and> ps_index s = i \<and> ps_offset s = off \<and> segment_laid d s
    \<and> next_pos = align_up (segment_end s)"
    unfolding walk_step_cases header_parse_exact bytes_at_drop
    by (auto simp: locate_footer_exact segment_laid_def cong: option.case_cong)
next
  assume r: "i < MAX_SEGMENTS \<and> ps_index s = i \<and> ps_offset s = off \<and> segment_laid d s
    \<and> next_pos = align_up (segment_end s)"
  let ?h = "ps_header s"
  have s: "segment_laid d s" using r by blast
  then have laid: "snd (ps_payload s) \<le> length d"
    "ps_payload s = (ps_offset s + 64, ps_offset s + 64 + unat (sh_payload_length ?h))"
    "case ps_footer s of None \<Rightarrow> \<not> header_is_signed ?h
     | Some r \<Rightarrow> header_is_signed ?h \<and> footer_laid d (snd (ps_payload s)) r"
    unfolding segment_laid_def by blast+
  have here: "ps_index s = i" "ps_offset s = off" using r by blast+
  have pay: "ps_payload s = (off + 64, off + 64 + unat (sh_payload_length ?h))" using laid(2) here by simp
  then have fits: "off + 64 + unat (sh_payload_length ?h) \<le> length d" using laid(1) by simp
  have "SEGMENT_HEADER_SIZE \<le> length (drop off d)"
    using fits unfolding SEGMENT_HEADER_SIZE_def length_drop by linarith
  moreover have "header_ok ?h" "bytes_at d off 64 = header_to_bytes ?h"
    using s r unfolding segment_laid_def by metis+
  ultimately have "header_parse (drop off d) = Inr ?h"
    unfolding header_parse_exact bytes_at_drop by blast
  moreover have "sh_payload_length ?h \<le> MAX_SEGMENT_PAYLOAD" using s unfolding segment_laid_def by blast
  moreover note fits
  moreover have "locate_footer d ?h (off + 64 + unat (sh_payload_length ?h)) = Inr (ps_footer s)"
    using laid(3) unfolding locate_footer_exact [OF fits] pay snd_conv .
  moreover have "s = \<lparr>ps_index = i, ps_offset = off, ps_header = ?h,
      ps_payload = (off + 64, off + 64 + unat (sh_payload_length ?h)), ps_footer = ps_footer s\<rparr>"
    using pay here by (cases s) simp
  moreover have "next_pos = align_up (segment_end s)" using r by blast
  moreover have "off < next_pos"
    using r segment_end_ge [OF s] align_up_ge [of "segment_end s"] by simp
  ultimately have "header_parse (drop off d) = Inr ?h \<and> sh_payload_length ?h \<le> MAX_SEGMENT_PAYLOAD
    \<and> off + 64 + unat (sh_payload_length ?h) \<le> length d
    \<and> locate_footer d ?h (off + 64 + unat (sh_payload_length ?h)) = Inr (ps_footer s)
    \<and> s = \<lparr>ps_index = i, ps_offset = off, ps_header = ?h,
      ps_payload = (off + 64, off + 64 + unat (sh_payload_length ?h)), ps_footer = ps_footer s\<rparr>
    \<and> next_pos = align_up (segment_end s) \<and> off < next_pos"
    by (intro conjI)
  with r show "walk_step d i off = Inr (s, next_pos)"
    unfolding walk_step_cases by blast
qed

lemma laid_from_end: "length d \<le> off \<Longrightarrow> laid_from d i off ss \<longleftrightarrow> ss = []"
proof (cases ss)
  case (Cons s rest)
  assume "length d \<le> off"
  with Cons show ?thesis using segment_end_ge [of d s] by auto
qed simp

lemma walk_loop_exact:
  "walk_loop d segments off = Inr r \<longleftrightarrow> (\<exists>ss. r = segments @ ss \<and> laid_from d (length segments) off ss)"
proof (induction d segments off arbitrary: r rule: walk_loop.induct)
  case (1 d segments off)
  consider (past) "length d \<le> off" | (short) "off < length d" "length d < off + 64"
    | (step) "off < length d" "off + 64 \<le> length d" by linarith
  then show ?case
  proof cases
    case past
    then show ?thesis by (auto simp: walk_loop.simps [of d segments off] laid_from_end)
  next
    case short
    have "laid_from d (length segments) off ss \<longleftrightarrow> ss = [] \<and> list_all (\<lambda>b. b = 0) (drop off d)" for ss
    proof (cases ss)
      case (Cons s rest)
      then show ?thesis using short segment_end_ge [of d s] by auto
    qed (use short in simp)
    moreover have "walk_loop d segments off
      = (if list_all (\<lambda>b. b = 0) (drop off d) then Inr segments else Inl TrailingBytes)"
      using short by (subst walk_loop.simps) (simp add: SEGMENT_HEADER_SIZE_def)
    ultimately show ?thesis by auto
  next
    case step
    then have big: "\<not> length d - off < SEGMENT_HEADER_SIZE" by (simp add: SEGMENT_HEADER_SIZE_def)
    have laid: "laid_from d (length segments) off ss \<longleftrightarrow>
      (\<exists>s rest. ss = s # rest \<and> walk_step d (length segments) off = Inr (s, align_up (segment_end s))
        \<and> laid_from d (Suc (length segments)) (align_up (segment_end s)) rest)" for ss
      using step by (cases ss) (auto simp: walk_step_exact)
    show ?thesis
    proof (cases "walk_step d (length segments) off")
      case (Inl e)
      with step big show ?thesis by (subst walk_loop.simps) (simp add: laid)
    next
      case (Inr sn)
      obtain s where s: "sn = (s, align_up (segment_end s))" using Inr walk_step_exact by (cases sn) auto
      let ?n = "align_up (segment_end s)"
      have "walk_loop d segments off = Inr r \<longleftrightarrow>
        (\<exists>rest. r = (segments @ [s]) @ rest \<and> laid_from d (Suc (length segments)) ?n rest)"
      proof (cases "?n > length d")
        case True
        then show ?thesis using step big Inr s
          by (subst walk_loop.simps) (auto simp: laid_from_end)
      next
        case False
        have "walk_loop d segments off = walk_loop d (segments @ [s]) ?n"
          using step big Inr s False by (subst walk_loop.simps) simp
        then show ?thesis using 1 [OF step(1) big Inr s [symmetric] False] by simp
      qed
      then show ?thesis using Inr s by (auto simp: laid)
    qed
  qed
qed

lemma walk_segments_exact: "walk_segments d = Inr segments \<longleftrightarrow> container_laid d segments"
proof -
  have loop: "walk_loop d [] 0 = Inr segments \<longleftrightarrow> laid_from d 0 0 segments"
    using walk_loop_exact [of d "[]" 0 segments] by simp
  show ?thesis
proof (cases "length d < SEGMENT_HEADER_SIZE")
  case True
  have "\<not> container_laid d segments"
    using True segment_end_ge [of d "hd segments"]
    by (cases segments) (auto simp: container_laid_def SEGMENT_HEADER_SIZE_def)
  with True show ?thesis by (simp add: walk_segments_def)
next
  case False
  then show ?thesis
    unfolding container_laid_def loop [symmetric] by (auto simp: walk_segments_def split: sum.splits)
qed
qed

text \<open>Segments of a container do not overlap and stay inside it.\<close>

lemma laid_from_nth:
  "laid_from d i off ss \<Longrightarrow> k < length ss \<Longrightarrow>
     segment_laid d (ss ! k) \<and> off \<le> ps_offset (ss ! k)
     \<and> (\<forall>j. k < j \<longrightarrow> j < length ss \<longrightarrow> segment_end (ss ! k) \<le> ps_offset (ss ! j))"
proof (induction d i off ss arbitrary: k rule: laid_from.induct)
  case (2 d i off s ss)
  then have s: "segment_laid d s" "ps_offset s = off" "laid_from d (Suc i) (align_up (segment_end s)) ss" by simp_all
  have e: "off \<le> segment_end s" "segment_end s \<le> align_up (segment_end s)"
    using segment_end_ge [OF s(1)] s(2) align_up_ge by simp_all
  note IH = "2.IH" [OF s(3)]
  show ?case
  proof (cases k)
    case 0
    have "segment_end s \<le> ps_offset ((s # ss) ! j)" if "0 < j" "j < length (s # ss)" for j
      using IH [of "j - 1"] that e(2) by (cases j) auto
    with 0 s show ?thesis by simp
  next
    case (Suc m)
    with "2.prems"(2) have m: "m < length ss" by simp
    have "segment_end (ss ! m) \<le> ps_offset ((s # ss) ! j)" if "k < j" "j < length (s # ss)" for j
      using IH [OF m] that Suc by (cases j) auto
    with Suc IH [OF m] e show ?thesis by simp
  qed
qed simp

lemma walked_segments_disjoint:
  assumes "container_laid d ss" "k < j" "j < length ss"
  shows "segment_end (ss ! k) \<le> ps_offset (ss ! j) \<and> segment_end (ss ! j) \<le> length d"
  using assms laid_from_nth [of d 0 0 ss] segment_end_ge [of d "ss ! j"]
  by (auto simp: container_laid_def)

lemma split_root_page_None: "snd (split_root_page d) = None \<Longrightarrow> fst (split_root_page d) = d"
  by (auto simp: split_root_page_def Let_def split: if_splits)

lemma split_root_page_Some: "snd (split_root_page d) = Some r \<Longrightarrow> fst (split_root_page d) = take (fst r) d"
  by (auto simp: split_root_page_def Let_def split: if_splits)

lemma walk_exact:
  "walk d = Inr segments \<longleftrightarrow>
     (case snd (split_root_page d) of
        None \<Rightarrow> container_laid d segments
      | Some r \<Rightarrow>
          container_laid (take (fst r) d) segments
          \<or> container_laid d segments \<and> \<not> (\<exists>ss. container_laid (take (fst r) d) ss))"
proof (cases "snd (split_root_page d)")
  case None
  then show ?thesis
    unfolding walk_segments_exact [symmetric]
    by (auto simp: walk_def walk_container_def split_root_page_None case_prod_beta Let_def split: sum.splits)
next
  case (Some r)
  then show ?thesis
    unfolding walk_segments_exact [symmetric]
    by (auto simp: walk_def walk_container_def split_root_page_Some case_prod_beta Let_def split: sum.splits)
qed

text \<open>
  C37.  The walk accepts exactly the well-formed containers and lists exactly their segments: the bytes are a run
  of headers, payloads and signature footers at aligned offsets, up to the end or to a valid root page; the layout
  without the page counts when the part before the page has none.  Well-formed means what the code checks: the
  reserved fields of a header, its \<open>alignment_pad\<close> and the padding between segments are free, although the
  format documents them as zero.
\<close>
theorem rvf_walk_exact:
  "walk d = Inr segments \<longleftrightarrow>
     (case snd (split_root_page d) of
        None \<Rightarrow> container_laid d segments
      | Some r \<Rightarrow>
          container_laid (take (fst r) d) segments
          \<or> container_laid d segments \<and> \<not> (\<exists>ss. container_laid (take (fst r) d) ss))"
  by (rule walk_exact)

end
