(* ===== verification/Rvf_Payload.thy ===== *)
theory Rvf_Payload
  imports Le_Bytes "HOL-Library.Sublist"
begin

unbundle bit_operations_syntax

text \<open>
  Crate \<open>rvm-rvf\<close>, \<open>wasm_payload.rs\<close>: the payload of a WASM segment, a bare module or a module after a 64-byte
  header, split by a scanner that takes the bytes in pieces of any size.  SHA-256 is the parameter \<open>sha256\<close>: the
  incremental hasher is the list of the bytes it has absorbed.  The sink is the list of the slices handed to
  it.  Lengths of byte streams are natural numbers (a \<open>u64\<close> of the code counts bytes that have arrived).
\<close>

definition WASM_HEADER_LEN :: nat where "WASM_HEADER_LEN = 64"
definition WASM_HEADER_MAGIC :: u32 where "WASM_HEADER_MAGIC = 0x5256574D"
definition MAGIC_BYTES :: "u8 list" where "MAGIC_BYTES = to_le_bytes32 WASM_HEADER_MAGIC"

datatype wasm_payload_error =
    TruncatedHeader | UnsupportedHeaderVersion u16 | UnknownEnumValue | Compressed | ReservedNonZero
  | EmptyBytecode | LengthMismatch

record module_span =
  ms_offset :: nat
  ms_len :: nat
  ms_sha256 :: "u8 list"

datatype wasm_payload_facts =
    PayloadBare module_span | PayloadHeaded module_span | PayloadRejected wasm_payload_error

definition parse_wasm_header :: "u8 list \<Rightarrow> wasm_payload_error + nat" where
  "parse_wasm_header head =
     (let version = from_le_bytes16 [head ! 4, head ! 5] in
      if version \<noteq> 1 then Inl (UnsupportedHeaderVersion version)
      else if head ! 6 > 4 \<or> head ! 7 > 4 then Inl UnknownEnumValue
      else
        let compressed = from_le_bytes32 [head ! 0x10, head ! 0x11, head ! 0x12, head ! 0x13] in
        if compressed \<noteq> 0 \<or> head ! 0x14 \<noteq> 0 then Inl Compressed
        else if list_ex (\<lambda>b. b \<noteq> 0) (take (0x40 - 0x3A) (drop 0x3A head)) then Inl ReservedNonZero
        else
          let size_field = from_le_bytes32 [head ! 0x0C, head ! 0x0D, head ! 0x0E, head ! 0x0F] in
          if size_field = 0 then Inl EmptyBytecode
          else Inr (unat size_field))"

datatype scan_mode =
    ModeUndecided | ModeBare | ModeHeader | ModeBody nat | ModeFailed wasm_payload_error

record wasm_payload_scanner =
  sc_mode :: scan_mode
  sc_head :: "u8 list"
  sc_have :: nat
  sc_len :: nat
  sc_sha :: "u8 list"

definition scanner_new :: wasm_payload_scanner where
  "scanner_new =
     \<lparr>sc_mode = ModeUndecided, sc_head = replicate WASM_HEADER_LEN 0, sc_have = 0, sc_len = 0, sc_sha = []\<rparr>"

definition scanner_emit ::
    "wasm_payload_scanner \<Rightarrow> u8 list \<Rightarrow> u8 list list \<Rightarrow> wasm_payload_scanner \<times> u8 list list" where
  "scanner_emit sc bytes sink =
     (if bytes \<noteq> [] then
        (sc\<lparr>sc_sha := sc_sha sc @ bytes, sc_len := sc_len sc + length bytes\<rparr>, sink @ [bytes])
      else (sc, sink))"

text \<open>The bytes copied into the header, and the mode the first four bytes decide.\<close>

definition scanner_fill :: "wasm_payload_scanner \<Rightarrow> u8 list \<Rightarrow> wasm_payload_scanner \<times> u8 list" where
  "scanner_fill sc bytes =
     (let n = min (WASM_HEADER_LEN - sc_have sc) (length bytes) in
      (sc\<lparr>sc_head := put_bytes (sc_head sc) (sc_have sc) (take n bytes), sc_have := sc_have sc + n\<rparr>,
       drop n bytes))"

definition mode_rank :: "scan_mode \<Rightarrow> nat" where
  "mode_rank m = (if m = ModeUndecided \<or> m = ModeHeader then 1 else 0)"

function scanner_push ::
    "wasm_payload_scanner \<Rightarrow> u8 list \<Rightarrow> u8 list list
      \<Rightarrow> (wasm_payload_error + unit) \<times> wasm_payload_scanner \<times> u8 list list" where
  "scanner_push sc bytes sink =
     (case sc_mode sc of
        ModeFailed e \<Rightarrow> (Inl e, sc, sink)
      | ModeBare \<Rightarrow> (let (sc, sink) = scanner_emit sc bytes sink in (Inr (), sc, sink))
      | ModeBody want \<Rightarrow>
          let room = want - sc_len sc in
          if length bytes > room then
            (Inl LengthMismatch, sc\<lparr>sc_mode := ModeFailed LengthMismatch\<rparr>, sink)
          else (let (sc, sink) = scanner_emit sc bytes sink in (Inr (), sc, sink))
      | _ \<Rightarrow>
          let (sc, bytes) = scanner_fill sc bytes;
              decide = (sc_mode sc = ModeUndecided \<and> sc_have sc \<ge> length MAGIC_BYTES)
          in if decide \<and> take 4 (sc_head sc) \<noteq> MAGIC_BYTES then
               (let sc = sc\<lparr>sc_mode := ModeBare\<rparr>;
                    (sc, sink) = scanner_emit sc (take (sc_have sc) (sc_head sc)) sink
                in scanner_push sc bytes sink)
             else
               let sc = (if decide then sc\<lparr>sc_mode := ModeHeader\<rparr> else sc) in
               if sc_mode sc = ModeHeader \<and> sc_have sc = WASM_HEADER_LEN then
                 (case parse_wasm_header (sc_head sc) of
                    Inr want \<Rightarrow> scanner_push (sc\<lparr>sc_mode := ModeBody want\<rparr>) bytes sink
                  | Inl e \<Rightarrow> (Inl e, sc\<lparr>sc_mode := ModeFailed e\<rparr>, sink))
               else (Inr (), sc, sink))"
  by pat_completeness auto

termination
  by (relation "measure (\<lambda>(sc, bytes, sink). mode_rank (sc_mode sc))")
     (auto simp: mode_rank_def scanner_emit_def split: if_splits)

declare scanner_push.simps [simp del]

definition scanner_finish ::
    "(u8 list \<Rightarrow> u8 list) \<Rightarrow> wasm_payload_scanner \<Rightarrow> u8 list list \<Rightarrow> wasm_payload_facts \<times> u8 list list" where
  "scanner_finish sha256 sc sink =
     (let span = (\<lambda>sc bare. \<lparr>ms_offset = (if bare then 0 else WASM_HEADER_LEN), ms_len = sc_len sc,
                            ms_sha256 = sha256 (sc_sha sc)\<rparr>) in
      case sc_mode sc of
        ModeFailed e \<Rightarrow> (PayloadRejected e, sink)
      | ModeUndecided \<Rightarrow>
          let (sc, sink) = scanner_emit sc (take (sc_have sc) (sc_head sc)) sink
          in (PayloadBare (span sc True), sink)
      | ModeBare \<Rightarrow> (PayloadBare (span sc True), sink)
      | ModeHeader \<Rightarrow> (PayloadRejected TruncatedHeader, sink)
      | ModeBody want \<Rightarrow>
          if sc_len sc = want then (PayloadHeaded (span sc False), sink)
          else (PayloadRejected LengthMismatch, sink))"

definition split_wasm_payload :: "(u8 list \<Rightarrow> u8 list) \<Rightarrow> u8 list \<Rightarrow> wasm_payload_error + u8 list" where
  "split_wasm_payload sha256 payload =
     (case scanner_push scanner_new payload [] of
        (Inl e, _, _) \<Rightarrow> Inl e
      | (Inr _, sc, _) \<Rightarrow>
          (case fst (scanner_finish sha256 sc []) of
             PayloadBare _ \<Rightarrow> Inr payload
           | PayloadHeaded span \<Rightarrow> Inr (drop (ms_offset span) payload)
           | PayloadRejected e \<Rightarrow> Inl e))"

definition scan_payload :: "(u8 list \<Rightarrow> u8 list) \<Rightarrow> u8 list \<Rightarrow> wasm_payload_facts" where
  "scan_payload sha256 payload =
     (case scanner_push scanner_new payload [] of
        (Inr _, sc, _) \<Rightarrow> fst (scanner_finish sha256 sc [])
      | (Inl e, _, _) \<Rightarrow> PayloadRejected e)"

section \<open>What a payload is\<close>

definition payload_spec :: "(u8 list \<Rightarrow> u8 list) \<Rightarrow> u8 list \<Rightarrow> wasm_payload_facts" where
  "payload_spec sha256 p =
     (if \<not> prefix MAGIC_BYTES p then PayloadBare \<lparr>ms_offset = 0, ms_len = length p, ms_sha256 = sha256 p\<rparr>
      else if length p < 64 then PayloadRejected TruncatedHeader
      else case parse_wasm_header (take 64 p) of
        Inl e \<Rightarrow> PayloadRejected e
      | Inr want \<Rightarrow>
          if length p = 64 + want then
            PayloadHeaded \<lparr>ms_offset = 64, ms_len = want, ms_sha256 = sha256 (drop 64 p)\<rparr>
          else PayloadRejected LengthMismatch)"

text \<open>The scanner after the bytes \<open>p\<close>, with \<open>out\<close> handed to the sink.\<close>

definition scan_rep :: "wasm_payload_scanner \<Rightarrow> u8 list \<Rightarrow> u8 list list \<Rightarrow> bool" where
  "scan_rep sc p out \<longleftrightarrow>
     concat out = sc_sha sc \<and> sc_len sc = length (sc_sha sc) \<and> length (sc_head sc) = 64 \<and>
     (case sc_mode sc of
        ModeUndecided \<Rightarrow>
          length p < 4 \<and> sc_have sc = length p \<and> take (length p) (sc_head sc) = p \<and> sc_sha sc = []
      | ModeHeader \<Rightarrow>
          prefix MAGIC_BYTES p \<and> length p < 64 \<and> sc_have sc = length p \<and> take (length p) (sc_head sc) = p
          \<and> sc_sha sc = []
      | ModeBare \<Rightarrow> 4 \<le> length p \<and> \<not> prefix MAGIC_BYTES p \<and> sc_sha sc = p
      | ModeBody want \<Rightarrow>
          prefix MAGIC_BYTES p \<and> 64 \<le> length p \<and> parse_wasm_header (take 64 p) = Inr want
          \<and> sc_sha sc = drop 64 p \<and> length p \<le> 64 + want
      | ModeFailed e \<Rightarrow> False)"

lemma MAGIC_BYTES_length [simp]: "length MAGIC_BYTES = 4"
  by (simp add: MAGIC_BYTES_def)

lemma magic_prefix: "4 \<le> length p \<Longrightarrow> prefix MAGIC_BYTES p \<longleftrightarrow> take 4 p = MAGIC_BYTES"
  by (metis MAGIC_BYTES_length append_eq_conv_conj prefix_def)

lemma magic_prefix_append: "4 \<le> length p \<Longrightarrow> prefix MAGIC_BYTES (p @ q) \<longleftrightarrow> prefix MAGIC_BYTES p"
  by (simp add: magic_prefix)

lemma scanner_new_rep: "scan_rep scanner_new [] []"
  by (simp add: scan_rep_def scanner_new_def WASM_HEADER_LEN_def)

text \<open>A push that fails has seen the reason in the bytes so far.\<close>

definition push_post :: "u8 list \<Rightarrow> (wasm_payload_error + unit) \<times> wasm_payload_scanner \<times> u8 list list \<Rightarrow> bool" where
  "push_post q res \<longleftrightarrow>
     (case res of (r, sc', out') \<Rightarrow>
        (case r of
           Inr _ \<Rightarrow> scan_rep sc' q out'
         | Inl e \<Rightarrow> (\<forall>sha256 rest. payload_spec sha256 (q @ rest) = PayloadRejected e)
                   \<and> (\<forall>rest. prefix (concat out') (drop 64 (q @ rest)))))"

lemma push_bare:
  assumes "scan_rep sc p out" "sc_mode sc = ModeBare"
  shows "push_post (p @ bytes) (scanner_push sc bytes out)"
  using assms
  by (auto simp: push_post_def scanner_push.simps [of sc] scan_rep_def scanner_emit_def magic_prefix_append)

lemma push_body:
  assumes rep: "scan_rep sc p out" and mode: "sc_mode sc = ModeBody want"
  shows "push_post (p @ bytes) (scanner_push sc bytes out)"
proof -
  have r: "prefix MAGIC_BYTES p" "64 \<le> length p" "parse_wasm_header (take 64 p) = Inr want"
    "sc_sha sc = drop 64 p" "length p \<le> 64 + want" "concat out = sc_sha sc" "sc_len sc = length (sc_sha sc)"
    using rep mode by (simp_all add: scan_rep_def)
  have magic: "prefix MAGIC_BYTES (p @ x)" for x using r(1,2) by (simp add: magic_prefix_append)
  show ?thesis
  proof (cases "length bytes > want - sc_len sc")
    case True
    then have "scanner_push sc bytes out = (Inl LengthMismatch, sc\<lparr>sc_mode := ModeFailed LengthMismatch\<rparr>, out)"
      by (simp add: scanner_push.simps [of sc] mode)
    moreover have "payload_spec sha256 ((p @ bytes) @ rest) = PayloadRejected LengthMismatch" for sha256 rest
      using True r magic [of "bytes @ rest"] by (auto simp: payload_spec_def)
    moreover have "prefix (concat out) (drop 64 ((p @ bytes) @ rest))" for rest
      using r by simp
    ultimately show ?thesis by (simp add: push_post_def)
  next
    case False
    with r mode magic [of bytes] rep show ?thesis
      by (auto simp: push_post_def scanner_push.simps [of sc] scanner_emit_def scan_rep_def)
  qed
qed

lemma scanner_fill_rep:
  assumes "sc_have sc = length p" "take (length p) (sc_head sc) = p" "length p \<le> 64" "length (sc_head sc) = 64"
    and "scanner_fill sc bytes = (sc', rest)"
  shows "\<exists>q. p @ bytes = q @ rest \<and> sc_have sc' = length q \<and> take (length q) (sc_head sc') = q
    \<and> length q \<le> 64 \<and> length (sc_head sc') = 64 \<and> (length q < 64 \<longrightarrow> rest = []) \<and> length p \<le> length q
    \<and> sc_mode sc' = sc_mode sc \<and> sc_sha sc' = sc_sha sc \<and> sc_len sc' = sc_len sc"
proof -
  define n where "n = min (64 - length p) (length bytes)"
  have s: "sc' = sc\<lparr>sc_head := put_bytes (sc_head sc) (length p) (take n bytes), sc_have := length p + n\<rparr>"
    "rest = drop n bytes"
    using assms(1,5) by (auto simp: scanner_fill_def n_def WASM_HEADER_LEN_def Let_def)
  have n: "n \<le> length bytes" "length p + n \<le> 64" by (simp_all add: n_def) (use assms(3) in linarith)
  have "take (length p + length (take n bytes)) (put_bytes (sc_head sc) (length p) (take n bytes)) = p @ take n bytes"
    using assms(2-4) by (simp only: take_put_bytes_end)
  then show ?thesis
    using s n assms(4) by (intro exI [of _ "p @ take n bytes"]) (auto simp: n_def min_def split: if_splits)
qed

lemma push_head_eq:
  assumes "sc_mode sc = ModeUndecided \<or> sc_mode sc = ModeHeader" "scanner_fill sc bytes = (sc1, rest)"
  shows "scanner_push sc bytes out =
    (let decide = (sc_mode sc1 = ModeUndecided \<and> 4 \<le> sc_have sc1) in
     if decide \<and> take 4 (sc_head sc1) \<noteq> MAGIC_BYTES then
       (case scanner_emit (sc1\<lparr>sc_mode := ModeBare\<rparr>) (take (sc_have sc1) (sc_head sc1)) out of
          (sc, out) \<Rightarrow> scanner_push sc rest out)
     else
       let sc2 = (if decide then sc1\<lparr>sc_mode := ModeHeader\<rparr> else sc1) in
       if sc_mode sc2 = ModeHeader \<and> sc_have sc2 = 64 then
         (case parse_wasm_header (sc_head sc2) of
            Inr want \<Rightarrow> scanner_push (sc2\<lparr>sc_mode := ModeBody want\<rparr>) rest out
          | Inl e \<Rightarrow> (Inl e, sc2\<lparr>sc_mode := ModeFailed e\<rparr>, out))
       else (Inr (), sc2, out))"
  using assms by (elim disjE; subst scanner_push.simps) (simp_all add: Let_def WASM_HEADER_LEN_def)

lemma push_head:
  assumes rep: "scan_rep sc p out" and mode: "sc_mode sc = ModeUndecided \<or> sc_mode sc = ModeHeader"
  shows "push_post (p @ bytes) (scanner_push sc bytes out)"
proof -
  obtain sc1 rest where f: "scanner_fill sc bytes = (sc1, rest)" by (cases "scanner_fill sc bytes")
  have r: "sc_have sc = length p" "take (length p) (sc_head sc) = p" "length p \<le> 64" "length (sc_head sc) = 64"
    "sc_sha sc = []" "concat out = []" "sc_len sc = 0"
    "sc_mode sc = ModeUndecided \<longrightarrow> length p < 4" "sc_mode sc = ModeHeader \<longrightarrow> prefix MAGIC_BYTES p"
    using rep mode by (auto simp: scan_rep_def)
  from scanner_fill_rep [OF r(1-4) f] obtain q where
    q: "p @ bytes = q @ rest" "sc_have sc1 = length q" "take (length q) (sc_head sc1) = q" "length q \<le> 64"
      "length (sc_head sc1) = 64" "length q < 64 \<longrightarrow> rest = []" "length p \<le> length q"
      "sc_mode sc1 = sc_mode sc" "sc_sha sc1 = sc_sha sc" "sc_len sc1 = sc_len sc" by blast
  have four: "take 4 (sc_head sc1) = take 4 q" if "4 \<le> length q"
    using q(3) that by (metis min.absorb1 take_take)
  have headed: "prefix MAGIC_BYTES q" if "sc_mode sc = ModeHeader"
  proof -
    have "prefix p q" using q(1,7) by (metis prefixI prefix_length_prefix)
    with r(9) that show ?thesis using prefix_order.trans by blast
  qed
  define decide where "decide \<longleftrightarrow> sc_mode sc = ModeUndecided \<and> 4 \<le> length q"
  show ?thesis
  proof (cases "decide \<and> take 4 q \<noteq> MAGIC_BYTES")
    case True
    let ?b = "sc1\<lparr>sc_mode := ModeBare, sc_sha := q, sc_len := length q\<rparr>"
    have "q \<noteq> []" using True by (auto simp: decide_def)
    then have "scanner_push sc bytes out = scanner_push ?b rest (out @ [q])"
      using True four unfolding push_head_eq [OF mode f] decide_def
      by (simp add: q scanner_emit_def r)
    moreover have "scan_rep ?b q (out @ [q])"
      using True r q(5) by (auto simp: scan_rep_def decide_def magic_prefix)
    ultimately show ?thesis using push_bare [of ?b q "out @ [q]" rest] q(1) by simp
  next
    case False
    define sc2 where "sc2 = (if decide then sc1\<lparr>sc_mode := ModeHeader\<rparr> else sc1)"
    have s2: "sc_have sc2 = length q" "sc_head sc2 = sc_head sc1" "sc_sha sc2 = []" "sc_len sc2 = 0"
      by (simp_all add: sc2_def q r)
    have push: "scanner_push sc bytes out =
      (if sc_mode sc2 = ModeHeader \<and> length q = 64 then
         (case parse_wasm_header (sc_head sc2) of
            Inr want \<Rightarrow> scanner_push (sc2\<lparr>sc_mode := ModeBody want\<rparr>) rest out
          | Inl e \<Rightarrow> (Inl e, sc2\<lparr>sc_mode := ModeFailed e\<rparr>, out))
       else (Inr (), sc2, out))"
      using False four unfolding push_head_eq [OF mode f] sc2_def decide_def by (auto simp: q Let_def)
    have m2: "sc_mode sc2 = ModeHeader \<Longrightarrow> prefix MAGIC_BYTES q"
      using False headed by (auto simp: sc2_def decide_def magic_prefix q split: if_splits)
    show ?thesis
    proof (cases "sc_mode sc2 = ModeHeader \<and> length q = 64")
      case True
      then have head: "sc_head sc1 = q" using q(3,5) by simp
      have magic: "prefix MAGIC_BYTES (q @ x)" for x using m2 True by (simp add: magic_prefix_append)
      show ?thesis
      proof (cases "parse_wasm_header q")
        case (Inl e)
        then have "scanner_push sc bytes out = (Inl e, sc2\<lparr>sc_mode := ModeFailed e\<rparr>, out)"
          using push True head s2 by simp
        moreover have "payload_spec sha256 ((p @ bytes) @ more) = PayloadRejected e" for sha256 more
          using Inl True magic [of "rest @ more"] unfolding q(1) by (simp add: payload_spec_def)
        moreover have "prefix (concat out) xs" for xs unfolding r(6) by simp
        ultimately show ?thesis unfolding push_post_def by (simp del: concat_eq_Nil_conv)
      next
        case (Inr want)
        let ?b = "sc2\<lparr>sc_mode := ModeBody want\<rparr>"
        have "scanner_push sc bytes out = scanner_push ?b rest out"
          using push True head s2 Inr by simp
        moreover have "scan_rep ?b q out"
          using True r(6) s2 q(5) Inr magic [of "[]"] by (simp add: scan_rep_def)
        ultimately show ?thesis using push_body [of ?b q out want rest] q(1) by simp
      qed
    next
      case notfull: False
      have small: "length q < 64"
        using notfull False mode q(4,8) by (auto simp: sc2_def decide_def split: if_splits)
      then have "rest = []" using q(6) by blast
      moreover have "scan_rep sc2 q out"
        using small m2 r(6) s2 q(3,5,8) mode unfolding scan_rep_def sc2_def decide_def
        by (auto split: if_splits)
      ultimately show ?thesis using push notfull q(1) by (simp add: push_post_def)
    qed
  qed
qed

lemma scanner_push_ok:
  assumes "scan_rep sc p out"
  shows "push_post (p @ bytes) (scanner_push sc bytes out)"
proof (cases "sc_mode sc")
  case (ModeFailed e)
  with assms show ?thesis by (simp add: scan_rep_def)
qed (use push_head [OF assms] push_body [OF assms] push_bare [OF assms] in simp_all)

text \<open>Any number of pushes and the end of the payload.\<close>

fun scan_pieces ::
    "(u8 list \<Rightarrow> u8 list) \<Rightarrow> wasm_payload_scanner \<Rightarrow> u8 list list \<Rightarrow> u8 list list \<Rightarrow> wasm_payload_facts \<times> u8 list list" where
  "scan_pieces sha256 sc [] out = scanner_finish sha256 sc out"
| "scan_pieces sha256 sc (piece # pieces) out =
     (case scanner_push sc piece out of
        (Inl e, _, out) \<Rightarrow> (PayloadRejected e, out)
      | (Inr _, sc, out) \<Rightarrow> scan_pieces sha256 sc pieces out)"

definition sink_ok :: "wasm_payload_facts \<Rightarrow> u8 list list \<Rightarrow> u8 list \<Rightarrow> bool" where
  "sink_ok facts out p \<longleftrightarrow>
     (case facts of
        PayloadBare _ \<Rightarrow> concat out = p
      | PayloadHeaded _ \<Rightarrow> concat out = drop 64 p
      | PayloadRejected _ \<Rightarrow> prefix (concat out) (drop 64 p))"

lemma scanner_finish_ok:
  assumes "scan_rep sc p out" "scanner_finish sha256 sc out = (facts, out')"
  shows "facts = payload_spec sha256 p \<and> sink_ok facts out' p"
  using assms MAGIC_BYTES_length
  by (cases "sc_mode sc")
     (auto simp del: MAGIC_BYTES_length simp: scan_rep_def scanner_finish_def scanner_emit_def payload_spec_def sink_ok_def WASM_HEADER_LEN_def
       dest: prefix_length_le split: if_splits)

lemma scan_pieces_ok:
  assumes "scan_rep sc p out" "scan_pieces sha256 sc pieces out = (facts, out')"
  shows "facts = payload_spec sha256 (p @ concat pieces) \<and> sink_ok facts out' (p @ concat pieces)"
  using assms
proof (induction sha256 sc pieces out arbitrary: p rule: scan_pieces.induct)
  case (1 sha256 sc out)
  then show ?case using scanner_finish_ok by simp
next
  case (2 sha256 sc piece pieces out)
  obtain r sc' o' where r: "scanner_push sc piece out = (r, sc', o')" by (metis prod_cases3)
  have post: "push_post (p @ piece) (r, sc', o')" using scanner_push_ok [OF "2.prems"(1)] r by metis
  show ?case
  proof (cases r)
    case (Inl e)
    then show ?thesis using post r "2.prems"(2) by (auto simp: push_post_def sink_ok_def)
  next
    case (Inr u)
    then have "scan_rep sc' (p @ piece) o'" using post by (simp add: push_post_def)
    from "2.IH" [OF r [symmetric] Inr refl this] "2.prems"(2) r Inr show ?thesis by auto
  qed
qed

lemma scanner_finish_fst: "fst (scanner_finish sha256 sc out) = fst (scanner_finish sha256 sc [])"
  by (cases "sc_mode sc") (simp_all add: scanner_finish_def scanner_emit_def Let_def)

lemma scan_payload_exact: "scan_payload sha256 p = payload_spec sha256 p"
proof -
  obtain r sc out where push: "scanner_push scanner_new p [] = (r, sc, out)" by (metis prod_cases3)
  have "scan_payload sha256 p = fst (scan_pieces sha256 scanner_new [p] [])"
    by (cases r) (simp_all add: push scan_payload_def scanner_finish_fst [of sha256 sc out])
  then show ?thesis
    using scan_pieces_ok [OF scanner_new_rep, of sha256 "[p]"]
    by (cases "scan_pieces sha256 scanner_new [p] []") simp
qed

lemma scanner_finish_headed:
  "fst (scanner_finish sha256 sc out) = PayloadHeaded span \<Longrightarrow> ms_offset span = 64"
  by (cases "sc_mode sc")
     (auto simp: scanner_finish_def scanner_emit_def Let_def WASM_HEADER_LEN_def split: if_splits)

lemma split_wasm_payload_exact:
  "split_wasm_payload sha256 p =
     (case payload_spec sha256 p of
        PayloadBare _ \<Rightarrow> Inr p | PayloadHeaded _ \<Rightarrow> Inr (drop 64 p) | PayloadRejected e \<Rightarrow> Inl e)"
proof -
  obtain r sc out where push: "scanner_push scanner_new p [] = (r, sc, out)" by (metis prod_cases3)
  show ?thesis
    unfolding scan_payload_exact [symmetric] split_wasm_payload_def scan_payload_def push
    by (cases r; cases "fst (scanner_finish sha256 sc [])") (simp_all add: scanner_finish_headed)
qed

text \<open>
  C38.  However a payload arrives, in pieces of any number and size, the scanner answers as for the whole payload
  at once; it accepts exactly the bare modules and the modules after a valid header of matching length, and
  the sink receives exactly the module, or a beginning of it when the payload is refused: never a header byte.
\<close>
theorem payload_scan_piecewise:
  "case scan_pieces sha256 scanner_new pieces [] of (facts, out) \<Rightarrow>
     facts = scan_payload sha256 (concat pieces) \<and> facts = payload_spec sha256 (concat pieces)
     \<and> sink_ok facts out (concat pieces)"
  using scan_pieces_ok [OF scanner_new_rep, of sha256 pieces]
  by (auto simp: scan_payload_exact split: prod.split)

end
