(* ===== verification/Rvf_Capability.thy ===== *)
theory Rvf_Capability
  imports Std_Text Cap_Table Rvf_Format
begin

unbundle bit_operations_syntax

text \<open>
  Crate \<open>rvm-rvf\<close>, \<open>capability.rs\<close>: the classes of authority a package declares, how each becomes a capability
  of the kernel, and the installation of a mapping in a capability table (\<^theory_text>\<open>Cap_Table\<close>).  Text is
  handled as the standard library does: bytes are decoded from UTF-8 to scalar values, then split into lines and
  names.  The mapping is proved to deny by default, and the installation to be all or nothing.
\<close>

section \<open>Text\<close>

text \<open>\<open>core::str::from_utf8\<close>: the well-formed sequences of the Unicode standard.\<close>

definition is_cont :: "u8 \<Rightarrow> bool" where
  "is_cont b \<longleftrightarrow> 0x80 \<le> b \<and> b \<le> 0xBF"

definition cont_bits :: "u8 \<Rightarrow> nat" where
  "cont_bits b = unat (b AND 0x3F)"

fun utf8_decode :: "u8 list \<Rightarrow> nat list option" where
  "utf8_decode [] = Some []"
| "utf8_decode (a # bs) =
     (if a < 0x80 then map_option ((#) (unat a)) (utf8_decode bs)
      else if 0xC2 \<le> a \<and> a \<le> 0xDF then
        (case bs of
           b # rest \<Rightarrow>
             if is_cont b then map_option ((#) (unat (a AND 0x1F) * 64 + cont_bits b)) (utf8_decode rest) else None
         | _ \<Rightarrow> None)
      else if 0xE0 \<le> a \<and> a \<le> 0xEF then
        (case bs of
           b # c # rest \<Rightarrow>
             if is_cont b \<and> is_cont c \<and> (a = 0xE0 \<longrightarrow> 0xA0 \<le> b) \<and> (a = 0xED \<longrightarrow> b \<le> 0x9F)
             then map_option ((#) (unat (a AND 0x0F) * 4096 + cont_bits b * 64 + cont_bits c)) (utf8_decode rest)
             else None
         | _ \<Rightarrow> None)
      else if 0xF0 \<le> a \<and> a \<le> 0xF4 then
        (case bs of
           b # c # d # rest \<Rightarrow>
             if is_cont b \<and> is_cont c \<and> is_cont d \<and> (a = 0xF0 \<longrightarrow> 0x90 \<le> b) \<and> (a = 0xF4 \<longrightarrow> b \<le> 0x8F)
             then map_option ((#) (unat (a AND 0x07) * 262144 + cont_bits b * 4096 + cont_bits c * 64 + cont_bits d))
                    (utf8_decode rest)
             else None
         | _ \<Rightarrow> None)
      else None)"

text \<open>\<open>str::lines\<close>: a line ends in a newline, with the carriage return before it; no empty line at the end.\<close>

definition strip_suffix1 :: "'a \<Rightarrow> 'a list \<Rightarrow> 'a list" where
  "strip_suffix1 c s = (if s \<noteq> [] \<and> last s = c then butlast s else s)"

definition str_lines :: "nat list \<Rightarrow> nat list list" where
  "str_lines s =
     (let parts = split_on 10 s in
      map (strip_suffix1 13) (butlast parts) @ (if last parts = [] then [] else [last parts]))"

text \<open>\<open>str::trim\<close>: the scalar values with the property \<open>White_Space\<close>.\<close>

definition is_white_space :: "nat \<Rightarrow> bool" where
  "is_white_space c \<longleftrightarrow>
     9 \<le> c \<and> c \<le> 13 \<or> c \<in> {0x20, 0x85, 0xA0, 0x1680, 0x2028, 0x2029, 0x202F, 0x205F, 0x3000}
     \<or> 0x2000 \<le> c \<and> c \<le> 0x200A"

definition str_trim :: "nat list \<Rightarrow> nat list" where
  "str_trim s = rev (dropWhile is_white_space (rev (dropWhile is_white_space s)))"

definition ascii :: "string \<Rightarrow> nat list" where
  "ascii s = map of_char s"

section \<open>Classes\<close>

definition CAPABILITY_DECLARATION_KEY :: string where
  "CAPABILITY_DECLARATION_KEY = ''rvf.capabilities''"

definition capability_classes :: "capability_class list" where
  "capability_classes =
     [CcMemory, CcFilesystem, CcNetwork, CcModel, CcMcp, CcProcess, CcClock, CcRandomness, CcGpu, CcSensor,
      CcDisplay, CcAudio, CcClipboard, CcPersistentState, CcInterAgentMessaging]"

fun capability_class_str :: "capability_class \<Rightarrow> string" where
  "capability_class_str CcMemory = ''memory''"
| "capability_class_str CcFilesystem = ''filesystem''"
| "capability_class_str CcNetwork = ''network''"
| "capability_class_str CcModel = ''model''"
| "capability_class_str CcMcp = ''mcp''"
| "capability_class_str CcProcess = ''process''"
| "capability_class_str CcClock = ''clock''"
| "capability_class_str CcRandomness = ''randomness''"
| "capability_class_str CcGpu = ''gpu''"
| "capability_class_str CcSensor = ''sensor''"
| "capability_class_str CcDisplay = ''display''"
| "capability_class_str CcAudio = ''audio''"
| "capability_class_str CcClipboard = ''clipboard''"
| "capability_class_str CcPersistentState = ''persistent-state''"
| "capability_class_str CcInterAgentMessaging = ''inter-agent-messaging''"

definition from_wire :: "nat list \<Rightarrow> capability_class option" where
  "from_wire s = find (\<lambda>c. ascii (capability_class_str c) = s) capability_classes"

datatype device_class =
    DevNetwork | DevStorage | DevGraphics | DevSerial | DevTimer | DevInterruptController | DevGeneric

record rvm_binding =
  rb_class :: capability_class
  rb_cap_type :: cap_type
  rb_rights :: cap_rights
  rb_device_class :: "device_class option"

definition class_binding :: "capability_class \<Rightarrow> rvm_binding option" where
  "class_binding c =
     (let b = (\<lambda>t r d. Some \<lparr>rb_class = c, rb_cap_type = t, rb_rights = r, rb_device_class = d\<rparr>) in
      case c of
        CcMemory \<Rightarrow> b CapRegion (READ OR WRITE) None
      | CcPersistentState \<Rightarrow> b CapRegion (READ OR WRITE) None
      | CcModel \<Rightarrow> b CapRegion READ None
      | CcMcp \<Rightarrow> b CapCommEdge (READ OR WRITE) None
      | CcInterAgentMessaging \<Rightarrow> b CapCommEdge (READ OR WRITE) None
      | CcProcess \<Rightarrow> b CapPartition WRITE None
      | CcFilesystem \<Rightarrow> b CapDevice (READ OR WRITE) (Some DevStorage)
      | CcNetwork \<Rightarrow> b CapDevice (READ OR WRITE) (Some DevNetwork)
      | CcGpu \<Rightarrow> b CapDevice (READ OR WRITE) (Some DevGraphics)
      | CcDisplay \<Rightarrow> b CapDevice WRITE (Some DevGraphics)
      | CcClock \<Rightarrow> b CapDevice READ (Some DevTimer)
      | CcSensor \<Rightarrow> b CapDevice READ (Some DevGeneric)
      | CcAudio \<Rightarrow> b CapDevice (READ OR WRITE) (Some DevGeneric)
      | CcClipboard \<Rightarrow> None
      | CcRandomness \<Rightarrow> None)"

definition is_representable :: "capability_class \<Rightarrow> bool" where
  "is_representable c \<longleftrightarrow> class_binding c \<noteq> None"

fun class_code :: "capability_class \<Rightarrow> u64" where
  "class_code CcMemory = 0" | "class_code CcFilesystem = 1" | "class_code CcNetwork = 2"
| "class_code CcModel = 3" | "class_code CcMcp = 4" | "class_code CcProcess = 5"
| "class_code CcClock = 6" | "class_code CcRandomness = 7" | "class_code CcGpu = 8"
| "class_code CcSensor = 9" | "class_code CcDisplay = 10" | "class_code CcAudio = 11"
| "class_code CcClipboard = 12" | "class_code CcPersistentState = 13"
| "class_code CcInterAgentMessaging = 14"

section \<open>Mappings\<close>

record capability_mapping =
  cm_granted :: "rvm_binding list"
  cm_denied :: "capability_class list"

definition mapping_is_granted :: "capability_mapping \<Rightarrow> capability_class \<Rightarrow> bool" where
  "mapping_is_granted m c \<longleftrightarrow> list_ex (\<lambda>b. rb_class b = c) (cm_granted m)"

definition mapping_rights_for :: "capability_mapping \<Rightarrow> capability_class \<Rightarrow> cap_rights" where
  "mapping_rights_for m c =
     (case find (\<lambda>b. rb_class b = c) (cm_granted m) of None \<Rightarrow> 0 | Some b \<Rightarrow> rb_rights b)"

fun map_declared_loop ::
    "capability_class list \<Rightarrow> capability_class list \<Rightarrow> rvm_binding list \<Rightarrow> capability_class list
      \<Rightarrow> rvf_error + capability_mapping" where
  "map_declared_loop declared [] granted denied = Inr \<lparr>cm_granted = granted, cm_denied = denied\<rparr>"
| "map_declared_loop declared (c # cs) granted denied =
     (if c \<notin> set declared then map_declared_loop declared cs granted (denied @ [c])
      else case class_binding c of
        None \<Rightarrow> Inl (UnsupportedCapability c)
      | Some b \<Rightarrow> map_declared_loop declared cs (granted @ [b]) denied)"

definition map_declared :: "capability_class list \<Rightarrow> rvf_error + capability_mapping" where
  "map_declared declared = map_declared_loop declared capability_classes [] []"

text \<open>The names of one line of a declaration.\<close>

definition declared_names :: "nat list \<Rightarrow> nat list list" where
  "declared_names line =
     (case strip_prefix (ascii CAPABILITY_DECLARATION_KEY) line of
        None \<Rightarrow> []
      | Some rest \<Rightarrow>
          (case strip_prefix (ascii ''='') rest of
             None \<Rightarrow> []
           | Some val \<Rightarrow> map str_trim (split_on 44 val)))"

definition payload_names :: "u8 list \<Rightarrow> nat list list" where
  "payload_names payload =
     (case utf8_decode payload of None \<Rightarrow> [] | Some text \<Rightarrow> concat (map declared_names (str_lines text)))"

text \<open>The found classes without repetitions, sorted in the order of the declaration of the enum.\<close>

definition declared_classes_in :: "u8 list list \<Rightarrow> capability_class list" where
  "declared_classes_in payloads =
     (let found = foldl (\<lambda>found name.
            case from_wire name of
              None \<Rightarrow> found
            | Some c \<Rightarrow> if c \<notin> set found then found @ [c] else found) [] (concat (map payload_names payloads))
      in sort_key class_code found)"

definition has_unknown_class_name_in :: "u8 list list \<Rightarrow> bool" where
  "has_unknown_class_name_in payloads \<longleftrightarrow>
     list_ex (\<lambda>payload. list_ex (\<lambda>name. name \<noteq> [] \<and> from_wire name = None) (payload_names payload)) payloads"

definition plaintext_meta :: "u8 list \<Rightarrow> parsed_segment list \<Rightarrow> u8 list list" where
  "plaintext_meta data segments =
     map (segment_payload data)
       (filter (\<lambda>s. sh_seg_type (ps_header s) = SEG_TYPE_META \<and> \<not> header_is_encrypted (ps_header s)) segments)"

definition declared_classes :: "u8 list \<Rightarrow> parsed_segment list \<Rightarrow> capability_class list" where
  "declared_classes data segments = declared_classes_in (plaintext_meta data segments)"

section \<open>Installation\<close>

definition remove_handles :: "(u32 \<times> u32) list \<Rightarrow> cap_table \<Rightarrow> cap_table" where
  "remove_handles handles t = foldl (\<lambda>t (index, generation). snd (table_remove index generation t)) t handles"

fun install_loop ::
    "partition_id \<Rightarrow> u32 \<Rightarrow> u64 \<Rightarrow> rvm_binding list \<Rightarrow> nat \<Rightarrow> (u32 \<times> u32) list \<Rightarrow> cap_table
      \<Rightarrow> (rvf_error, (u32 \<times> u32) list, cap_table) outcome" where
  "install_loop owner epoch first_cap_id [] i handles t = (Inr handles, t)"
| "install_loop owner epoch first_cap_id (b # bs) i handles t =
     (let cid = first_cap_id + of_nat i;
          token = cap_token_new cid (rb_cap_type b) (rb_rights b) epoch;
          badge = class_code (rb_class b)
      in case table_insert_root token owner badge t of
           (Inr handle, t) \<Rightarrow> install_loop owner epoch first_cap_id bs (i + 1) (handles @ [handle]) t
         | (Inl _, t) \<Rightarrow> (Inl RvfCapabilityTableFull, remove_handles handles t))"

definition install_tracked ::
    "capability_mapping \<Rightarrow> partition_id \<Rightarrow> u32 \<Rightarrow> u64 \<Rightarrow> cap_table
      \<Rightarrow> (rvf_error, (u32 \<times> u32) list, cap_table) outcome" where
  "install_tracked m owner epoch first_cap_id t = install_loop owner epoch first_cap_id (cm_granted m) 0 [] t"

definition mapping_install ::
    "capability_mapping \<Rightarrow> partition_id \<Rightarrow> u32 \<Rightarrow> u64 \<Rightarrow> cap_table \<Rightarrow> (rvf_error, nat, cap_table) outcome" where
  "mapping_install m owner epoch first_cap_id t =
     (case install_tracked m owner epoch first_cap_id t of
        (Inr handles, t) \<Rightarrow> (Inr (length handles), t)
      | (Inl e, t) \<Rightarrow> (Inl e, t))"

section \<open>Declarations deny by default\<close>

lemma capability_classes_all: "set capability_classes = UNIV" "distinct capability_classes"
proof -
  have "c \<in> set capability_classes" for c by (cases c) (simp_all add: capability_classes_def)
  then show "set capability_classes = UNIV" by blast
qed (simp add: capability_classes_def)

lemma class_name_inject: "ascii (capability_class_str c) = ascii (capability_class_str c') \<longleftrightarrow> c = c'"
  by (cases c; cases c') (simp_all add: ascii_def)

lemma from_wire_Some: "from_wire s = Some c \<longleftrightarrow> s = ascii (capability_class_str c)"
proof
  assume "from_wire s = Some c"
  then show "s = ascii (capability_class_str c)" by (auto simp: from_wire_def find_Some_iff)
next
  assume s: "s = ascii (capability_class_str c)"
  then obtain c' where c': "from_wire s = Some c'"
    using capability_classes_all(1) by (cases "from_wire s") (auto simp: from_wire_def find_None_iff)
  then have "ascii (capability_class_str c') = s" by (auto simp: from_wire_def find_Some_iff)
  with s c' show "from_wire s = Some c" by (simp add: class_name_inject)
qed

lemma from_wire_None: "from_wire s = None \<longleftrightarrow> (\<forall>c. s \<noteq> ascii (capability_class_str c))"
  by (metis from_wire_Some not_None_eq)

lemma class_binding_class: "class_binding c = Some b \<Longrightarrow> rb_class b = c"
  by (cases c) (auto simp: class_binding_def)

lemma map_declared_loop_Inr:
  "map_declared_loop declared cs granted denied = Inr m \<longleftrightarrow>
     (\<forall>c\<in>set cs. c \<in> set declared \<longrightarrow> is_representable c)
     \<and> m = \<lparr>cm_granted = granted @ map (the \<circ> class_binding) (filter (\<lambda>c. c \<in> set declared) cs),
            cm_denied = denied @ filter (\<lambda>c. c \<notin> set declared) cs\<rparr>"
  by (induction declared cs granted denied rule: map_declared_loop.induct)
     (auto simp: is_representable_def split: option.splits)

lemma map_declared_Inr:
  "map_declared declared = Inr m \<longleftrightarrow>
     (\<forall>c\<in>set declared. is_representable c)
     \<and> m = \<lparr>cm_granted = map (the \<circ> class_binding) (filter (\<lambda>c. c \<in> set declared) capability_classes),
            cm_denied = filter (\<lambda>c. c \<notin> set declared) capability_classes\<rparr>"
  using capability_classes_all by (auto simp: map_declared_def map_declared_loop_Inr)

lemma mem_foldl_found:
  "set (foldl (\<lambda>found name. case from_wire name of None \<Rightarrow> found
     | Some c \<Rightarrow> if c \<notin> set found then found @ [c] else found) found names)
   = set found \<union> {c. ascii (capability_class_str c) \<in> set names}"
proof (induction names arbitrary: found)
  case (Cons name names)
  show ?case
  proof (cases "from_wire name")
    case None
    moreover have "ascii (capability_class_str c) \<noteq> name" for c using None from_wire_None by metis
    ultimately show ?thesis using Cons.IH [of found] by auto
  next
    case (Some c)
    moreover have "ascii (capability_class_str c') = name \<longleftrightarrow> c' = c" for c'
      using Some by (auto simp: from_wire_Some class_name_inject)
    ultimately show ?thesis using Cons.IH [of found] Cons.IH [of "found @ [c]"] by auto
  qed
qed simp

lemma declared_classes_in_set:
  "set (declared_classes_in payloads)
     = {c. \<exists>payload\<in>set payloads. ascii (capability_class_str c) \<in> set (payload_names payload)}"
  by (auto simp: declared_classes_in_def mem_foldl_found Let_def)

lemma has_unknown_class_name_iff:
  "has_unknown_class_name_in payloads \<longleftrightarrow>
     (\<exists>payload\<in>set payloads. \<exists>name\<in>set (payload_names payload).
        name \<noteq> [] \<and> (\<forall>c. name \<noteq> ascii (capability_class_str c)))"
  by (auto simp: has_unknown_class_name_in_def list_ex_iff from_wire_None)

section \<open>Installations are all or nothing\<close>

text \<open>The slots a handle of the table reaches.\<close>

definition reaches :: "cap_table \<Rightarrow> u32 \<times> u32 \<Rightarrow> cap_slot option" where
  "reaches t h = (case table_lookup (fst h) (snd h) t of Inl _ \<Rightarrow> None | Inr s \<Rightarrow> Some s)"

definition installed_slot :: "partition_id \<Rightarrow> u32 \<Rightarrow> u64 \<Rightarrow> nat \<Rightarrow> rvm_binding \<Rightarrow> u32 \<Rightarrow> cap_slot" where
  "installed_slot owner epoch first_cap_id i b g =
     \<lparr>cs_token = cap_token_new (first_cap_id + of_nat i) (rb_cap_type b) (rb_rights b) epoch,
      cs_generation = g, cs_owner = owner, cs_depth = 0, cs_parent_index = U32_MAX,
      cs_badge = class_code (rb_class b)\<rparr>"

lemma reaches_Some: "reaches t h = Some s \<longleftrightarrow> table_lookup (fst h) (snd h) t = Inr s"
  by (simp add: reaches_def split: sum.splits)

lemma insert_root_reaches:
  assumes "table_inv t" "table_insert_root (cap_token_new (first + of_nat i) (rb_cap_type b) (rb_rights b) epoch)
     owner (class_code (rb_class b)) t = (Inr h, t')"
  shows "table_inv t'" "reaches t' = (reaches t)(h \<mapsto> installed_slot owner epoch first i b (snd h))"
    "\<And>k. reaches t (fst h, k) = None" "ct_count t' = ct_count t + 1" "length (ct_slots t') = length (ct_slots t)"
proof -
  let ?mk = "installed_slot owner epoch first i b"
  have st: "table_store ?mk t = (Inr (fst h, snd h), t')"
    using assms(2) by (simp add: table_insert_root_store installed_slot_def [abs_def])
  have gen: "cs_generation (?mk g) = g" for g by (simp add: installed_slot_def)
  note L = table_store_lookup [OF st assms(1) gen]
  show "table_inv t'" by (rule table_store_inv [OF assms(1) st gen])
  show "reaches t' = (reaches t)(h \<mapsto> ?mk (snd h))"
  proof
    fix h'
    show "reaches t' h' = ((reaches t)(h \<mapsto> ?mk (snd h))) h'"
    proof (cases "h' = h")
      case True
      then show ?thesis using L(1) by (simp add: reaches_Some)
    next
      case False
      then have "(fst h', snd h') \<noteq> (fst h, snd h)" by simp
      from L(3) [OF this] have "reaches t' h' = Some s \<longleftrightarrow> reaches t h' = Some s" for s
        by (simp add: reaches_Some)
      then have "reaches t' h' = reaches t h'" by (metis not_None_eq)
      with False show ?thesis by simp
    qed
  qed
  show "reaches t (fst h, k) = None" for k using L(2) [of k] by (auto simp: reaches_def)
  show "ct_count t' = ct_count t + 1" "length (ct_slots t') = length (ct_slots t)"
    using table_store_Inr [OF st assms(1)] by simp_all
qed

lemma insert_root_full:
  "table_insert_root token owner badge t = (Inl e, t') \<Longrightarrow>
     t' = t \<and> (\<forall>s\<in>set (ct_slots t). slot_is_valid s)"
  by (auto simp: table_insert_root_store dest: table_store_Inl)

text \<open>Removing handles again that reach slots at different indexes.\<close>

lemma remove_handles_reaches:
  assumes "table_inv t" "\<And>h. h \<in> set hs \<Longrightarrow> reaches t h \<noteq> None" "distinct (map fst hs)"
  shows "table_inv (remove_handles hs t) \<and> ct_count (remove_handles hs t) + length hs = ct_count t
    \<and> reaches (remove_handles hs t) = (\<lambda>h. if fst h \<in> fst ` set hs then None else reaches t h)"
  using assms
proof (induction hs arbitrary: t)
  case (Cons h hs)
  obtain i g where h: "h = (i, g)" by (cases h)
  then obtain s where s: "table_lookup i g t = Inr s"
    using Cons.prems(2) [of h] by (auto simp: reaches_def split: sum.splits)
  let ?t = "table_force_invalidate i t"
  have rem: "snd (table_remove i g t) = ?t"
    using s by (auto simp: table_remove_def table_lookup_def table_force_invalidate_def Let_def split: if_splits)
  have reach: "reaches ?t h' = (if fst h' = i then None else reaches t h')" for h'
  proof -
    have "reaches ?t h' = Some x \<longleftrightarrow> (if fst h' = i then None else reaches t h') = Some x" for x
      by (simp add: reaches_Some table_lookup_force_invalidate)
    then show ?thesis by (metis not_None_eq)
  qed
  have live: "unat i < length (ct_slots t)" "slot_is_valid (ct_slots t ! unat i)"
    using s by (auto simp: table_lookup_Inr)
  then have "0 < ct_count t"
    using Cons.prems(1) count_if_pos [of "unat i" "ct_slots t" slot_is_valid] by (simp add: table_inv_def)
  moreover have "ct_count ?t = ct_count t - 1"
    using live by (simp add: table_force_invalidate_def Let_def)
  moreover have "table_inv ?t" using Cons.prems(1) by (rule table_force_invalidate_inv)
  moreover have "reaches ?t h' \<noteq> None" if "h' \<in> set hs" for h'
    using that Cons.prems(2) [of h'] Cons.prems(3) h by (force simp: reach)
  ultimately have "table_inv (remove_handles hs ?t) \<and> ct_count (remove_handles hs ?t) + length hs = ct_count ?t
    \<and> reaches (remove_handles hs ?t) = (\<lambda>h. if fst h \<in> fst ` set hs then None else reaches ?t h)"
    using Cons.IH Cons.prems(3) by simp
  moreover have "remove_handles (h # hs) t = remove_handles hs ?t"
    by (simp add: remove_handles_def h rem)
  ultimately show ?case
    using h reach \<open>0 < ct_count t\<close> \<open>ct_count ?t = ct_count t - 1\<close> by (auto simp: fun_eq_iff)
qed (simp add: remove_handles_def)

text \<open>The slots of the handles so far, on top of what the table reached before.\<close>

definition installed_map ::
    "partition_id \<Rightarrow> u32 \<Rightarrow> u64 \<Rightarrow> rvm_binding list \<Rightarrow> (u32 \<times> u32) list \<Rightarrow> u32 \<times> u32 \<Rightarrow> cap_slot option" where
  "installed_map owner epoch first bs hs =
     map_of (zip hs (map (\<lambda>i. installed_slot owner epoch first i (bs ! i) (snd (hs ! i))) [0..<length hs]))"

definition install_rep ::
    "partition_id \<Rightarrow> u32 \<Rightarrow> u64 \<Rightarrow> rvm_binding list \<Rightarrow> cap_table \<Rightarrow> (u32 \<times> u32) list \<Rightarrow> cap_table \<Rightarrow> bool" where
  "install_rep owner epoch first bs t0 hs t \<longleftrightarrow>
     table_inv t \<and> distinct (map fst hs) \<and> (\<forall>h\<in>set hs. \<forall>k. reaches t0 (fst h, k) = None)
     \<and> length (ct_slots t) = length (ct_slots t0) \<and> ct_count t = ct_count t0 + length hs
     \<and> reaches t = reaches t0 ++ installed_map owner epoch first bs hs"

lemma installed_map_snoc:
  assumes "h \<notin> set hs"
  shows "installed_map owner epoch first bs (hs @ [h])
    = (installed_map owner epoch first bs hs)(h \<mapsto> installed_slot owner epoch first (length hs) (bs ! length hs) (snd h))"
proof -
  have "installed_map owner epoch first bs (hs @ [h])
    = [h \<mapsto> installed_slot owner epoch first (length hs) (bs ! length hs) (snd h)] ++ installed_map owner epoch first bs hs"
  proof -
    have "map (\<lambda>i. installed_slot owner epoch first i (bs ! i) (snd ((hs @ [h]) ! i))) [0..<length hs]
      = map (\<lambda>i. installed_slot owner epoch first i (bs ! i) (snd (hs ! i))) [0..<length hs]"
      by (rule map_cong) (simp_all add: nth_append)
    then show ?thesis unfolding installed_map_def length_append_singleton upt_Suc_append [OF le0] map_append
      by (simp del: map_eq_conv)
  qed
  moreover have "h \<notin> dom (installed_map owner epoch first bs hs)"
    using assms by (simp add: installed_map_def dom_map_of_zip)
  ultimately show ?thesis by (simp add: map_add_comm)
qed

lemma installed_map_dom: "dom (installed_map owner epoch first bs hs) = set hs"
  by (simp add: installed_map_def dom_map_of_zip)

lemma install_rep_step:
  assumes rep: "install_rep owner epoch first bs t0 hs t"
    and ins: "table_insert_root (cap_token_new (first + of_nat (length hs)) (rb_cap_type b) (rb_rights b) epoch)
       owner (class_code (rb_class b)) t = (Inr h, t')"
    and b: "b = bs ! length hs"
  shows "install_rep owner epoch first bs t0 (hs @ [h]) t'"
proof -
  have r: "table_inv t" "distinct (map fst hs)" "\<forall>h\<in>set hs. \<forall>k. reaches t0 (fst h, k) = None"
    "length (ct_slots t) = length (ct_slots t0)" "ct_count t = ct_count t0 + length hs"
    "reaches t = reaches t0 ++ installed_map owner epoch first bs hs"
    using rep by (simp_all add: install_rep_def)
  note I = insert_root_reaches [OF r(1) ins]
  have none: "reaches t0 (fst h, k) = None \<and> (fst h, k) \<notin> set hs" for k
    using I(3) [of k] installed_map_dom [of owner epoch first bs hs]
    unfolding r(6) by (auto simp: map_add_None domIff)
  then have "h \<notin> set hs" "fst h \<notin> fst ` set hs" by (metis prod.collapse, force)
  then show ?thesis
    unfolding install_rep_def
    using I r none b by (auto simp: installed_map_snoc fun_eq_iff map_add_def split: option.splits)
qed

lemma install_loop_ok:
  assumes "install_rep owner epoch first bs t0 hs t" "bs = past @ rest" "length hs = length past" "table_inv t0"
    and "install_loop owner epoch first rest (length hs) hs t = (r, t')"
  shows "case r of
      Inl e \<Rightarrow> e = RvfCapabilityTableFull \<and> table_inv t' \<and> ct_count t' = ct_count t0 \<and> reaches t' = reaches t0
        \<and> length (ct_slots t0) < ct_count t0 + length bs
    | Inr handles \<Rightarrow> install_rep owner epoch first bs t0 handles t' \<and> length handles = length bs"
  using assms
proof (induction rest arbitrary: past hs t)
  case Nil
  then show ?case by auto
next
  case (Cons b rest)
  have b: "b = bs ! length hs" using Cons.prems(2,3) by simp
  let ?ins = "table_insert_root (cap_token_new (first + of_nat (length hs)) (rb_cap_type b) (rb_rights b) epoch)
    owner (class_code (rb_class b)) t"
  obtain q t1 where q: "?ins = (q, t1)" by (cases ?ins)
  show ?case
  proof (cases q)
    case (Inr h)
    then have "install_rep owner epoch first bs t0 (hs @ [h]) t1"
      using install_rep_step [OF Cons.prems(1) _ b] q by simp
    then show ?thesis
      using Cons.IH [of "hs @ [h]" t1 "past @ [b]"] Cons.prems(2-5) q Inr by simp
  next
    case (Inl e)
    with q have t1: "t1 = t" "\<forall>s\<in>set (ct_slots t). slot_is_valid s" by (auto dest: insert_root_full)
    have rt: "r = Inl RvfCapabilityTableFull" "t' = remove_handles hs t"
      using Cons.prems(5) q Inl t1 by simp_all
    have r: "table_inv t" "distinct (map fst hs)" "\<forall>h\<in>set hs. \<forall>k. reaches t0 (fst h, k) = None"
      "length (ct_slots t) = length (ct_slots t0)" "ct_count t = ct_count t0 + length hs"
      "reaches t = reaches t0 ++ installed_map owner epoch first bs hs"
      using Cons.prems(1) by (simp_all add: install_rep_def)
    have dom: "reaches t h \<noteq> None" if "h \<in> set hs" for h
      using that installed_map_dom [of owner epoch first bs hs] unfolding r(6) by (auto simp: map_add_None domIff)
    note R = remove_handles_reaches [OF r(1) dom r(2)]
    have "reaches t' h = reaches t0 h" for h
    proof (cases "fst h \<in> fst ` set hs")
      case True
      then have "reaches t0 h = None" using r(3) by (metis imageE prod.collapse)
      with True R rt show ?thesis by simp
    next
      case False
      then have "h \<notin> set hs" by blast
      then have "installed_map owner epoch first bs hs h = None"
        using installed_map_dom [of owner epoch first bs hs] by blast
      then have "reaches t h = reaches t0 h" unfolding r(6) by (simp add: map_add_def)
      with False R rt show ?thesis by simp
    qed
    moreover have "ct_count t = length (ct_slots t)"
      using r(1) t1(2) by (simp add: table_inv_def count_if_def filter_True)
    ultimately show ?thesis using R rt r(4,5) Cons.prems(2,3) by (auto simp: fun_eq_iff)
  qed
qed

text \<open>
  C39.  An installation is all or nothing.  When it succeeds, there is one new capability for each granted class,
  with its token, owner and badge, at a slot that was free; every other handle reaches what it reached.  When it
  is refused, the table lacked room, and every handle reaches exactly what it reached before.
\<close>
theorem install_all_or_nothing:
  assumes "table_inv t" "install_tracked m owner epoch first_cap_id t = (r, t')"
  shows "table_inv t' \<and>
    (case r of
       Inr handles \<Rightarrow>
         length handles = length (cm_granted m) \<and> distinct (map fst handles)
         \<and> (\<forall>h\<in>set handles. \<forall>k. reaches t (fst h, k) = None)
         \<and> reaches t' = reaches t ++ installed_map owner epoch first_cap_id (cm_granted m) handles
         \<and> ct_count t' = ct_count t + length (cm_granted m)
     | Inl e \<Rightarrow>
         e = RvfCapabilityTableFull \<and> length (ct_slots t) < ct_count t + length (cm_granted m)
         \<and> reaches t' = reaches t \<and> ct_count t' = ct_count t)"
proof -
  have "install_rep owner epoch first_cap_id (cm_granted m) t [] t"
    using assms(1) by (simp add: install_rep_def installed_map_def)
  from install_loop_ok [OF this, of "[]" "cm_granted m" r t'] assms show ?thesis
    by (auto simp: install_tracked_def install_rep_def split: sum.splits)
qed

definition demo_mapping :: capability_mapping where
  "demo_mapping = \<lparr>cm_granted = [the (class_binding CcClock), the (class_binding CcNetwork)], cm_denied = []\<rparr>"

lemma install_all_or_nothing_witness:
  "\<exists>t'. install_tracked demo_mapping 7 1 100 (table_new 1) = (Inl RvfCapabilityTableFull, t')
     \<and> reaches t' = reaches (table_new 1)"
proof -
  have "fst (install_tracked demo_mapping 7 1 100 (table_new 1)) = Inl RvfCapabilityTableFull" by code_simp
  then obtain t' where t': "install_tracked demo_mapping 7 1 100 (table_new 1) = (Inl RvfCapabilityTableFull, t')"
    by (metis prod.collapse)
  have "table_inv (table_new 1)" by (simp add: table_new_inv)
  from install_all_or_nothing [OF this t'] t' show ?thesis by auto
qed

end
