(* ===== verification/Rvf_Verify.thy ===== *)
theory Rvf_Verify
  imports Rvf_Capability Rvf_Payload
begin

text \<open>
  Crate \<open>rvm-rvf\<close>: verification of a package before anything of it is loaded (\<open>hash.rs\<close>, \<open>policy.rs\<close>,
  \<open>detail.rs\<close>, \<open>report.rs\<close>, \<open>verify.rs\<close>).  The hash functions and the Ed25519 check come from
  third-party crates: they are the fields of \<open>rvf_crypto\<close>.  Every check leaves a record in a report; the
  report is proved to admit a package exactly when all the rules hold.
\<close>

section \<open>Hashes\<close>

record rvf_crypto =
  cr_sha256 :: "u8 list \<Rightarrow> u8 list"
  cr_shake256_128 :: "u8 list \<Rightarrow> u8 list"
  cr_xxh3_128 :: "u8 list \<Rightarrow> u8 list"
  cr_ed25519 :: "u8 list \<Rightarrow> u8 list \<Rightarrow> u8 list \<Rightarrow> bool"

definition content_hash :: "rvf_crypto \<Rightarrow> u8 \<Rightarrow> u8 list \<Rightarrow> u8 list" where
  "content_hash C algo data = (if algo = 2 then cr_shake256_128 C data else cr_xxh3_128 C data)"

definition verify_content_hash :: "rvf_crypto \<Rightarrow> segment_header \<Rightarrow> u8 list \<Rightarrow> bool" where
  "verify_content_hash C h payload \<longleftrightarrow> content_hash C (sh_checksum_algo h) payload = sh_content_hash h"

section \<open>Size policy\<close>

record size_policy =
  sp_max_runtime_bytes :: u64
  sp_max_model_bytes :: u64
  sp_max_state_bytes :: u64
  sp_max_memory_bytes :: u64
  sp_max_container_bytes :: u64
  sp_max_segments :: nat

definition FAIL_CLOSED :: size_policy where
  "FAIL_CLOSED =
     \<lparr>sp_max_runtime_bytes = 1024 * 1024, sp_max_model_bytes = 64 * 1024 * 1024,
      sp_max_state_bytes = 16 * 1024 * 1024, sp_max_memory_bytes = 4 * 1024 * 1024,
      sp_max_container_bytes = 128 * 1024 * 1024, sp_max_segments = 4096\<rparr>"

definition size_permissive :: size_policy where
  "size_permissive =
     \<lparr>sp_max_runtime_bytes = - 1, sp_max_model_bytes = - 1, sp_max_state_bytes = - 1,
      sp_max_memory_bytes = - 1, sp_max_container_bytes = - 1, sp_max_segments = MAX_SEGMENTS\<rparr>"

fun budget_for :: "size_policy \<Rightarrow> segment_class \<Rightarrow> u64" where
  "budget_for p ClassRuntime = sp_max_runtime_bytes p"
| "budget_for p ClassModel = sp_max_model_bytes p"
| "budget_for p ClassState = sp_max_state_bytes p"
| "budget_for p ClassMemory = sp_max_memory_bytes p"

datatype size_violation =
    ViolatesClass segment_class u64 u64 | ViolatesContainer u64 u64 | ViolatesCount nat nat

record size_tally =
  st_runtime_bytes :: u64
  st_model_bytes :: u64
  st_state_bytes :: u64
  st_memory_bytes :: u64

fun bytes_for :: "size_tally \<Rightarrow> segment_class \<Rightarrow> u64" where
  "bytes_for t ClassRuntime = st_runtime_bytes t"
| "bytes_for t ClassModel = st_model_bytes t"
| "bytes_for t ClassState = st_state_bytes t"
| "bytes_for t ClassMemory = st_memory_bytes t"

definition tally_add :: "size_tally \<Rightarrow> parsed_segment \<Rightarrow> size_tally" where
  "tally_add t seg =
     (let len = sh_payload_length (ps_header seg) in
      case header_class (ps_header seg) of
        ClassRuntime \<Rightarrow> t\<lparr>st_runtime_bytes := saturating_add (st_runtime_bytes t) len\<rparr>
      | ClassModel \<Rightarrow> t\<lparr>st_model_bytes := saturating_add (st_model_bytes t) len\<rparr>
      | ClassState \<Rightarrow> t\<lparr>st_state_bytes := saturating_add (st_state_bytes t) len\<rparr>
      | ClassMemory \<Rightarrow> t\<lparr>st_memory_bytes := saturating_add (st_memory_bytes t) len\<rparr>)"

definition tally :: "parsed_segment list \<Rightarrow> size_tally" where
  "tally segments =
     foldl tally_add \<lparr>st_runtime_bytes = 0, st_model_bytes = 0, st_state_bytes = 0, st_memory_bytes = 0\<rparr> segments"

definition check_sizes :: "u64 \<Rightarrow> parsed_segment list \<Rightarrow> size_policy \<Rightarrow> size_violation list" where
  "check_sizes container_bytes segments p =
     (if container_bytes > sp_max_container_bytes p
      then [ViolatesContainer container_bytes (sp_max_container_bytes p)] else [])
     @ (if length segments > sp_max_segments p then [ViolatesCount (length segments) (sp_max_segments p)] else [])
     @ concat (map (\<lambda>cls.
         let declared = bytes_for (tally segments) cls; limit = budget_for p cls
         in if declared > limit then [ViolatesClass cls declared limit] else [])
         [ClassRuntime, ClassModel, ClassState, ClassMemory])"

section \<open>Records\<close>

datatype check_kind =
    CkIdentity | CkRootManifestPresent | CkContentHash | CkExecutableSigned | CkSignature | CkSizePolicy
  | CkCapabilityMapping | CkStreamProfile | CkStreamDescriptor | CkStreamSegment | CkStreamPoisoned
  | CkStreamComplete | CkStreamModule | CkStreamFault | CkWasmHeader

datatype check_outcome = Pass | Fail | Skip

datatype stream_error =
    UnknownSigner | DescriptorTruncated | SeBadMagic | SeUnsupportedVersion | BadFlags | LimitExceeded
  | TableInvalid | BadSignature | StaleEpoch | EpochConflict | Expired | PolicyMismatch
  | ChunkHashMismatch | TableHashMismatch | UnexpectedFrame | FrameSizeLie | RequirementsUnmet
  | SeIdentityMismatch | WeakChecksum | Poisoned | BadState | DuplicateFlood | SegmentMalformed
  | SegmentMismatch | IdentityRequired | TooManyOpenSegments | ClockRequired

datatype detail_code =
    IdentityMatches | IdentityMismatch | RootManifestFound | RootManifestMissing | ContentHashMatches
  | ContentHashMismatch | ExecutableIsSigned | ExecutableIsUnsigned | UnsignedExecutablePermitted
  | SignatureVerifies | SignatureRejected | NoTrustedKey | UnsupportedSignatureAlgorithm
  | FooterMalformed | WithinSizePolicy | ExceedsSizePolicy | CapabilitiesMapped
  | CapabilityUnsupported | CapabilityUnknown | StreamProfileDowngrade | StreamProfilePermitted
  | StreamProfileSatisfied | IdentityNotPinned | StreamDescriptorAccepted | StreamSegmentAccepted
  | StreamCompleted | StreamModuleValidated | StreamModuleRejected | WasmHeaderAccepted
  | WasmHeaderRejected wasm_payload_error | StreamRefused stream_error

record verification_record =
  vr_check :: check_kind
  vr_outcome :: check_outcome
  vr_segment_index :: "nat option"
  vr_segment_id :: "u64 option"
  vr_segment_type :: u8
  vr_detail :: detail_code

record verified_executable =
  ve_segment_id :: u64
  ve_segment_type :: u8
  ve_byte_length :: u64
  ve_sha256 :: "u8 list"
  ve_module_offset :: nat
  ve_module_length :: nat
  ve_module_sha256 :: "u8 list"

definition executable_matches :: "rvf_crypto \<Rightarrow> verified_executable \<Rightarrow> u8 list \<Rightarrow> bool" where
  "executable_matches C ve module_bytes \<longleftrightarrow>
     ve_module_length ve = length module_bytes \<and> ve_module_sha256 ve = cr_sha256 C module_bytes"

definition executable_matches_payload :: "rvf_crypto \<Rightarrow> verified_executable \<Rightarrow> u8 list \<Rightarrow> bool" where
  "executable_matches_payload C ve payload \<longleftrightarrow>
     ve_byte_length ve = of_nat (length payload) \<and> ve_sha256 ve = cr_sha256 C payload"

record verification_report =
  rp_rvf_identity :: "u8 list"
  rp_byte_length :: u64
  rp_ok :: bool
  rp_identity_confirmed :: bool
  rp_segment_count :: nat
  rp_executables :: "verified_executable list"
  rp_records :: "verification_record list"
  rp_capabilities :: capability_mapping
  rp_size_violations :: "size_violation list"

definition admissible :: "verification_report \<Rightarrow> bool" where
  "admissible r \<longleftrightarrow> rp_ok r \<and> rp_identity_confirmed r"

definition report_failures :: "verification_report \<Rightarrow> verification_record list" where
  "report_failures r = filter (\<lambda>x. vr_outcome x = Fail) (rp_records r)"

definition first_failure :: "verification_report \<Rightarrow> check_kind \<Rightarrow> verification_record option" where
  "first_failure r k = find (\<lambda>x. vr_outcome x = Fail \<and> vr_check x = k) (rp_records r)"

definition report_into_result :: "verification_report \<Rightarrow> rvf_error + verification_report" where
  "report_into_result r =
     (if admissible r then Inr r
      else if first_failure r CkCapabilityMapping \<noteq> None then
        (if list_ex (\<lambda>x. vr_check x = CkCapabilityMapping \<and> vr_detail x = CapabilityUnknown) (rp_records r)
         then Inl UnknownCapability
         else Inl (UnsupportedCapability
           (case find (\<lambda>c. \<not> is_representable c) capability_classes of Some c \<Rightarrow> c | None \<Rightarrow> CcClipboard)))
      else Inl MalformedFooter)"

record verify_options =
  vo_trusted_keys :: "u8 list list"
  vo_allow_unsigned_executable :: bool
  vo_expected_identity :: "u8 list option"
  vo_size_policy :: size_policy
  vo_permit_buffered_stream_profile :: bool
  vo_require_pinned_identity :: bool

definition verify_options_default :: verify_options where
  "verify_options_default =
     \<lparr>vo_trusted_keys = [], vo_allow_unsigned_executable = False, vo_expected_identity = None,
      vo_size_policy = FAIL_CLOSED, vo_permit_buffered_stream_profile = False, vo_require_pinned_identity = False\<rparr>"

definition with_trusted_keys :: "u8 list list \<Rightarrow> verify_options" where
  "with_trusted_keys keys = verify_options_default\<lparr>vo_trusted_keys := keys\<rparr>"

definition expect_identity :: "u8 list \<Rightarrow> verify_options \<Rightarrow> verify_options" where
  "expect_identity identity opts = opts\<lparr>vo_expected_identity := Some identity\<rparr>"

section \<open>Facts of a segment\<close>

datatype sig_facts =
    SigUnsigned | SigMalformed | SigDecoded u16 u16 "u8 list option" "u8 list"

record segment_facts =
  sg_content_hash_ok :: bool
  sg_sig :: sig_facts
  sg_payload_sha256 :: "u8 list option"
  sg_wasm :: "wasm_payload_facts option"

definition facts_from_buffer :: "rvf_crypto \<Rightarrow> u8 list \<Rightarrow> parsed_segment \<Rightarrow> segment_facts" where
  "facts_from_buffer C data seg =
     (let payload = segment_payload data seg;
          sig = (if segment_is_signed seg then
                   (case Option.bind (ps_footer seg)
                           (\<lambda>r. case decode_signature_footer (byte_range data r) of Inl _ \<Rightarrow> None | Inr f \<Rightarrow> Some f) of
                      None \<Rightarrow> SigMalformed
                    | Some f \<Rightarrow>
                        SigDecoded (sf_sig_algo f) (sf_sig_length f)
                          (if length (sf_signature f) = 64 then Some (sf_signature f) else None)
                          (build_signed_message (cr_shake256_128 C) (ps_header seg) payload))
                 else SigUnsigned)
      in \<lparr>sg_content_hash_ok = verify_content_hash C (ps_header seg) payload, sg_sig = sig,
          sg_payload_sha256 = (if segment_is_executable seg then Some (cr_sha256 C payload) else None),
          sg_wasm = (if sh_seg_type (ps_header seg) = SEG_TYPE_WASM \<and> \<not> header_is_encrypted (ps_header seg)
                     then Some (scan_payload (cr_sha256 C) payload) else None)\<rparr>)"

definition STREAM_PROFILE_DECLARATION_KEY :: string where
  "STREAM_PROFILE_DECLARATION_KEY = ''rvm.stream_profile''"

definition declares_stream_profile :: "u8 list list \<Rightarrow> bool" where
  "declares_stream_profile payloads \<longleftrightarrow>
     list_ex (\<lambda>p. list_ex (\<lambda>line.
        case strip_prefix (map of_char STREAM_PROFILE_DECLARATION_KEY) line of
          None \<Rightarrow> False
        | Some rest \<Rightarrow> rest \<noteq> [] \<and> hd rest = of_char (CHR ''='')) (split_on 10 p)) payloads"

datatype delivery = Buffered | Streamed

record report_input =
  ri_identity :: "u8 list"
  ri_container_bytes :: u64
  ri_segments :: "parsed_segment list"
  ri_facts :: "segment_facts list"
  ri_meta :: "u8 list list"
  ri_delivery :: delivery
  ri_identity_confirmed :: bool

definition outcome_of :: "bool \<Rightarrow> check_outcome" where
  "outcome_of passed = (if passed then Pass else Fail)"

definition container_record :: "check_kind \<Rightarrow> check_outcome \<Rightarrow> detail_code \<Rightarrow> verification_record" where
  "container_record check oc detail =
     \<lparr>vr_check = check, vr_outcome = oc, vr_segment_index = None, vr_segment_id = None,
      vr_segment_type = 0, vr_detail = detail\<rparr>"

definition segment_record ::
    "check_kind \<Rightarrow> check_outcome \<Rightarrow> parsed_segment \<Rightarrow> detail_code \<Rightarrow> verification_record" where
  "segment_record check oc seg detail =
     \<lparr>vr_check = check, vr_outcome = oc, vr_segment_index = Some (ps_index seg),
      vr_segment_id = Some (sh_segment_id (ps_header seg)), vr_segment_type = sh_seg_type (ps_header seg),
      vr_detail = detail\<rparr>"

section \<open>The report\<close>

definition root_manifest_record :: "parsed_segment list \<Rightarrow> verification_record" where
  "root_manifest_record segments =
     (case root_manifest segments of
        Some seg \<Rightarrow> segment_record CkRootManifestPresent Pass seg RootManifestFound
      | None \<Rightarrow> container_record CkRootManifestPresent Fail RootManifestMissing)"

text \<open>The empty declaration always maps, so the branch that cannot be reached is the empty mapping.\<close>

definition deny_all :: capability_mapping where
  "deny_all = (case map_declared [] of Inr m \<Rightarrow> m | Inl _ \<Rightarrow> \<lparr>cm_granted = [], cm_denied = []\<rparr>)"

definition capability_record :: "u8 list list \<Rightarrow> capability_mapping \<times> verification_record" where
  "capability_record meta =
     (if has_unknown_class_name_in meta then
        (deny_all, container_record CkCapabilityMapping Fail CapabilityUnknown)
      else case map_declared (declared_classes_in meta) of
        Inr m \<Rightarrow> (m, container_record CkCapabilityMapping Pass CapabilitiesMapped)
      | Inl _ \<Rightarrow> (deny_all, container_record CkCapabilityMapping Fail CapabilityUnsupported))"

definition stream_profile_record :: "delivery \<Rightarrow> verify_options \<Rightarrow> verification_record" where
  "stream_profile_record d opts =
     (let (oc, detail) =
        (case d of
           Streamed \<Rightarrow> (Pass, StreamProfileSatisfied)
         | Buffered \<Rightarrow>
             if vo_permit_buffered_stream_profile opts \<and> vo_expected_identity opts \<noteq> None
             then (Pass, StreamProfilePermitted)
             else (Fail, StreamProfileDowngrade))
      in container_record CkStreamProfile oc detail)"

definition wasm_header_record :: "parsed_segment \<Rightarrow> segment_facts \<Rightarrow> verification_record option" where
  "wasm_header_record seg facts =
     (case sg_wasm facts of
        None \<Rightarrow> None
      | Some (PayloadBare _) \<Rightarrow> None
      | Some (PayloadHeaded _) \<Rightarrow> Some (segment_record CkWasmHeader Pass seg WasmHeaderAccepted)
      | Some (PayloadRejected e) \<Rightarrow> Some (segment_record CkWasmHeader Fail seg (WasmHeaderRejected e)))"

definition executable_signed_record :: "parsed_segment \<Rightarrow> verify_options \<Rightarrow> verification_record" where
  "executable_signed_record seg opts =
     (if segment_is_signed seg then segment_record CkExecutableSigned Pass seg ExecutableIsSigned
      else if vo_allow_unsigned_executable opts then
        segment_record CkExecutableSigned Skip seg UnsignedExecutablePermitted
      else segment_record CkExecutableSigned Fail seg ExecutableIsUnsigned)"

fun signature_record :: "rvf_crypto \<Rightarrow> parsed_segment \<Rightarrow> sig_facts \<Rightarrow> verify_options \<Rightarrow> verification_record" where
  "signature_record C seg (SigDecoded algo len signature message) opts =
     (if algo \<noteq> SIG_ALGO_ED25519 \<or> len \<noteq> ED25519_SIGNATURE_LENGTH then
        segment_record CkSignature (if segment_is_executable seg then Fail else Skip) seg UnsupportedSignatureAlgorithm
      else if vo_trusted_keys opts = [] then
        segment_record CkSignature
          (if segment_is_executable seg \<and> \<not> vo_allow_unsigned_executable opts then Fail else Skip) seg NoTrustedKey
      else
        let verified = (case signature of
              None \<Rightarrow> False
            | Some bytes \<Rightarrow> list_ex (\<lambda>key. cr_ed25519 C key message bytes) (vo_trusted_keys opts))
        in segment_record CkSignature (outcome_of verified) seg
             (if verified then SignatureVerifies else SignatureRejected))"
| "signature_record C seg _ opts = segment_record CkSignature Fail seg FooterMalformed"

definition segment_records ::
    "rvf_crypto \<Rightarrow> verify_options \<Rightarrow> parsed_segment \<times> segment_facts \<Rightarrow> verification_record list" where
  "segment_records C opts sf =
     (let seg = fst sf; facts = snd sf in
      [segment_record CkContentHash (outcome_of (sg_content_hash_ok facts)) seg
         (if sg_content_hash_ok facts then ContentHashMatches else ContentHashMismatch)]
      @ (if segment_is_executable seg then [executable_signed_record seg opts] else [])
      @ (case wasm_header_record seg facts of None \<Rightarrow> [] | Some r \<Rightarrow> [r])
      @ (if segment_is_signed seg then [signature_record C seg (sg_sig facts) opts] else []))"

definition executable_entry :: "parsed_segment \<times> segment_facts \<Rightarrow> verified_executable" where
  "executable_entry sf =
     (let seg = fst sf; facts = snd sf;
          payload_sha = (case sg_payload_sha256 facts of Some h \<Rightarrow> h | None \<Rightarrow> replicate 32 0);
          (module_offset, module_length, module_sha256) =
            (case sg_wasm facts of
               Some (PayloadHeaded s) \<Rightarrow> (ms_offset s, ms_len s, ms_sha256 s)
             | Some (PayloadBare s) \<Rightarrow> (ms_offset s, ms_len s, ms_sha256 s)
             | Some (PayloadRejected _) \<Rightarrow> (0, 0, replicate 32 0)
             | None \<Rightarrow> (0, unat (sh_payload_length (ps_header seg)), payload_sha))
      in \<lparr>ve_segment_id = sh_segment_id (ps_header seg), ve_segment_type = sh_seg_type (ps_header seg),
          ve_byte_length = sh_payload_length (ps_header seg), ve_sha256 = payload_sha,
          ve_module_offset = module_offset, ve_module_length = module_length, ve_module_sha256 = module_sha256\<rparr>)"

definition container_records :: "report_input \<Rightarrow> verify_options \<Rightarrow> verification_record list" where
  "container_records i opts =
     (if vo_require_pinned_identity opts \<and> vo_expected_identity opts = None \<and> ri_delivery i = Buffered
      then [container_record CkIdentity Fail IdentityNotPinned] else [])
     @ (case vo_expected_identity opts of
          None \<Rightarrow> []
        | Some expected \<Rightarrow>
            let same = expected = ri_identity i
            in [container_record CkIdentity (outcome_of same) (if same then IdentityMatches else IdentityMismatch)])
     @ [root_manifest_record (ri_segments i)]
     @ (let violations = check_sizes (ri_container_bytes i) (ri_segments i) (vo_size_policy opts)
        in [container_record CkSizePolicy (outcome_of (violations = []))
              (if violations = [] then WithinSizePolicy else ExceedsSizePolicy)])
     @ [snd (capability_record (ri_meta i))]
     @ (if declares_stream_profile (ri_meta i) then [stream_profile_record (ri_delivery i) opts] else [])"

definition build_report :: "rvf_crypto \<Rightarrow> report_input \<Rightarrow> verify_options \<Rightarrow> verification_report" where
  "build_report C i opts =
     (let pairs = zip (ri_segments i) (ri_facts i);
          records = container_records i opts @ concat (map (segment_records C opts) pairs)
      in \<lparr>rp_rvf_identity = ri_identity i, rp_byte_length = ri_container_bytes i,
          rp_ok = (\<not> list_ex (\<lambda>r. vr_outcome r = Fail) records),
          rp_identity_confirmed = ri_identity_confirmed i, rp_segment_count = length (ri_segments i),
          rp_executables = map executable_entry (filter (\<lambda>sf. segment_is_executable (fst sf)) pairs),
          rp_records = records, rp_capabilities = fst (capability_record (ri_meta i)),
          rp_size_violations = check_sizes (ri_container_bytes i) (ri_segments i) (vo_size_policy opts)\<rparr>)"

definition rvf_verify :: "rvf_crypto \<Rightarrow> u8 list \<Rightarrow> verify_options \<Rightarrow> rvf_error + verification_report" where
  "rvf_verify C data opts =
     (case walk data of
        Inl e \<Rightarrow> Inl e
      | Inr segments \<Rightarrow>
          Inr (build_report C
            \<lparr>ri_identity = cr_sha256 C data, ri_container_bytes = of_nat (length data), ri_segments = segments,
             ri_facts = map (facts_from_buffer C data) segments, ri_meta = plaintext_meta data segments,
             ri_delivery = Buffered, ri_identity_confirmed = True\<rparr> opts))"

section \<open>Admission\<close>

lemma outcome_of_Fail [simp]: "outcome_of b = Fail \<longleftrightarrow> \<not> b" "outcome_of b = Pass \<longleftrightarrow> b"
  by (simp_all add: outcome_of_def)

lemma record_outcome [simp]:
  "vr_outcome (container_record k oc det) = oc" "vr_outcome (segment_record k oc seg det) = oc"
  by (simp_all add: container_record_def segment_record_def)

text \<open>The declared bytes of a class, as a sum.\<close>

definition class_bytes :: "parsed_segment list \<Rightarrow> segment_class \<Rightarrow> nat" where
  "class_bytes segments cls =
     sum_list (map (\<lambda>s. if header_class (ps_header s) = cls then unat (sh_payload_length (ps_header s)) else 0) segments)"

lemma tally_foldl:
  "unat (bytes_for (foldl tally_add t segments) cls) = min (unat (bytes_for t cls) + class_bytes segments cls) (2 ^ 64 - 1)"
proof (induction segments arbitrary: t)
  case Nil
  have "unat (bytes_for t cls) \<le> 2 ^ 64 - 1" using unsigned_less [of "bytes_for t cls", where 'a = nat] by simp
  then show ?case by (simp add: class_bytes_def)
next
  case (Cons s segments)
  have "unat (bytes_for (tally_add t s) cls)
    = (if header_class (ps_header s) = cls
       then min (unat (bytes_for t cls) + unat (sh_payload_length (ps_header s))) (2 ^ 64 - 1)
       else unat (bytes_for t cls))"
    by (cases "header_class (ps_header s)"; cases cls) (simp_all add: tally_add_def saturating_add_unat)
  then show ?case
    using Cons.IH [of "tally_add t s"]
    by (cases "header_class (ps_header s) = cls") (simp_all add: class_bytes_def)
qed

lemma tally_bytes: "unat (bytes_for (tally segments) cls) = min (class_bytes segments cls) (2 ^ 64 - 1)"
  unfolding tally_def tally_foldl by (cases cls) simp_all

definition sizes_ok :: "u64 \<Rightarrow> parsed_segment list \<Rightarrow> size_policy \<Rightarrow> bool" where
  "sizes_ok container_bytes segments p \<longleftrightarrow>
     container_bytes \<le> sp_max_container_bytes p \<and> length segments \<le> sp_max_segments p
     \<and> (\<forall>cls. min (class_bytes segments cls) (2 ^ 64 - 1) \<le> unat (budget_for p cls))"

lemma check_sizes_empty: "check_sizes n segments p = [] \<longleftrightarrow> sizes_ok n segments p"
proof -
  have all: "(\<forall>cls. P cls) \<longleftrightarrow> P ClassRuntime \<and> P ClassModel \<and> P ClassState \<and> P ClassMemory" for P
    by (metis segment_class.exhaust)
  have "check_sizes n segments p = [] \<longleftrightarrow>
    \<not> n > sp_max_container_bytes p \<and> \<not> length segments > sp_max_segments p
    \<and> (\<forall>cls\<in>{ClassRuntime, ClassModel, ClassState, ClassMemory}. \<not> bytes_for (tally segments) cls > budget_for p cls)"
    by (simp add: check_sizes_def Let_def)
  also have "\<dots> \<longleftrightarrow> sizes_ok n segments p"
    unfolding sizes_ok_def all tally_bytes [symmetric] word_le_nat_alt [symmetric] by (simp add: not_less)
  finally show ?thesis .
qed

definition signature_ok :: "rvf_crypto \<Rightarrow> verify_options \<Rightarrow> segment_header \<Rightarrow> u8 list \<Rightarrow> signature_footer \<Rightarrow> bool" where
  "signature_ok C opts h payload f \<longleftrightarrow>
     (if sf_sig_algo f \<noteq> SIG_ALGO_ED25519 \<or> sf_sig_length f \<noteq> ED25519_SIGNATURE_LENGTH then \<not> header_is_executable h
      else if vo_trusted_keys opts = [] then header_is_executable h \<longrightarrow> vo_allow_unsigned_executable opts
      else \<exists>key\<in>set (vo_trusted_keys opts).
             cr_ed25519 C key (build_signed_message (cr_shake256_128 C) h payload) (sf_signature f))"

definition segment_ok :: "rvf_crypto \<Rightarrow> verify_options \<Rightarrow> u8 list \<Rightarrow> parsed_segment \<Rightarrow> bool" where
  "segment_ok C opts d s \<longleftrightarrow>
     (let h = ps_header s; payload = segment_payload d s in
      content_hash C (sh_checksum_algo h) payload = sh_content_hash h
      \<and> (header_is_executable h \<longrightarrow> header_is_signed h \<or> vo_allow_unsigned_executable opts)
      \<and> (sh_seg_type h = SEG_TYPE_WASM \<longrightarrow> \<not> header_is_encrypted h \<longrightarrow>
           (\<forall>e. payload_spec (cr_sha256 C) payload \<noteq> PayloadRejected e))
      \<and> (header_is_signed h \<longrightarrow>
           (\<exists>r f. ps_footer s = Some r \<and> byte_range d r = footer_to_bytes f \<and> footer_ok f
                \<and> signature_ok C opts h payload f)))"

definition package_ok :: "rvf_crypto \<Rightarrow> verify_options \<Rightarrow> u8 list \<Rightarrow> parsed_segment list \<Rightarrow> bool" where
  "package_ok C opts d segments \<longleftrightarrow>
     (vo_require_pinned_identity opts \<longrightarrow> vo_expected_identity opts \<noteq> None)
     \<and> (\<forall>expected. vo_expected_identity opts = Some expected \<longrightarrow> cr_sha256 C d = expected)
     \<and> (\<exists>s\<in>set segments. sh_seg_type (ps_header s) = SEG_TYPE_MANIFEST)
     \<and> sizes_ok (of_nat (length d)) segments (vo_size_policy opts)
     \<and> \<not> has_unknown_class_name_in (plaintext_meta d segments)
     \<and> (\<forall>c\<in>set (declared_classes_in (plaintext_meta d segments)). is_representable c)
     \<and> (declares_stream_profile (plaintext_meta d segments) \<longrightarrow>
          vo_permit_buffered_stream_profile opts \<and> vo_expected_identity opts \<noteq> None)
     \<and> (\<forall>s\<in>set segments. segment_ok C opts d s)"

lemma footer_bytes_decode:
  "footer_ok f \<Longrightarrow> decode_signature_footer (footer_to_bytes f) = Inr f"
  unfolding decode_footer_exact by (simp add: footer_ok_def footer_to_bytes_length bytes_at_def)

lemma footer_to_bytes_inject:
  "footer_ok f \<Longrightarrow> footer_ok g \<Longrightarrow> footer_to_bytes f = footer_to_bytes g \<longleftrightarrow> f = g"
  using footer_bytes_decode by (metis sum.inject(2))

lemma walked_footer:
  assumes "walk d = Inr segments" "s \<in> set segments"
  shows "case ps_footer s of None \<Rightarrow> \<not> header_is_signed (ps_header s)
    | Some r \<Rightarrow> header_is_signed (ps_header s) \<and> (\<exists>f. footer_ok f \<and> byte_range d r = footer_to_bytes f)"
proof -
  obtain k where laid: "container_laid (take k d) segments"
    using assms(1) by (auto simp: walk_exact split: option.splits) (metis take_all order_refl)+
  obtain i where i: "i < length segments" "s = segments ! i" using assms(2) by (metis in_set_conv_nth)
  have s: "segment_laid (take k d) s"
    using laid_from_nth [of "take k d" 0 0 segments i] laid i by (auto simp: container_laid_def)
  show ?thesis
  proof (cases "ps_footer s")
    case None
    with s show ?thesis by (simp add: segment_laid_def)
  next
    case (Some r)
    have "case ps_footer s of None \<Rightarrow> \<not> header_is_signed (ps_header s)
      | Some r \<Rightarrow> header_is_signed (ps_header s) \<and> footer_laid (take k d) (snd (ps_payload s)) r"
      using s unfolding segment_laid_def by blast
    with Some have signed: "header_is_signed (ps_header s)" and "footer_laid (take k d) (snd (ps_payload s)) r"
      by simp_all
    then obtain f pos where f: "footer_ok f" "r = (pos, pos + 8 + unat (sf_sig_length f))" "snd r \<le> length (take k d)"
      "bytes_at (take k d) pos (8 + unat (sf_sig_length f)) = footer_to_bytes f"
      unfolding footer_laid_def by blast
    have "byte_range d r = bytes_at (take k d) pos (8 + unat (sf_sig_length f))"
    proof -
      have "pos + 8 + unat (sf_sig_length f) \<le> k" using f(2,3) by simp
      then have "8 + unat (sf_sig_length f) \<le> k - pos" by linarith
      then show ?thesis
        unfolding f(2) byte_range_def bytes_at_def fst_conv snd_conv drop_take take_take
        by (simp add: min_absorb1)
    qed
    with Some signed f show ?thesis by auto
  qed
qed

lemma root_manifest_None:
  "root_manifest segments = None \<longleftrightarrow> (\<forall>s\<in>set segments. sh_seg_type (ps_header s) \<noteq> SEG_TYPE_MANIFEST)"
  by (auto simp: root_manifest_def find_None_iff)

lemma container_records_ok:
  "(\<forall>r\<in>set (container_records i opts). vr_outcome r \<noteq> Fail) \<longleftrightarrow>
     (vo_require_pinned_identity opts \<and> ri_delivery i = Buffered \<longrightarrow> vo_expected_identity opts \<noteq> None)
     \<and> (\<forall>expected. vo_expected_identity opts = Some expected \<longrightarrow> ri_identity i = expected)
     \<and> (\<exists>s\<in>set (ri_segments i). sh_seg_type (ps_header s) = SEG_TYPE_MANIFEST)
     \<and> sizes_ok (ri_container_bytes i) (ri_segments i) (vo_size_policy opts)
     \<and> \<not> has_unknown_class_name_in (ri_meta i)
     \<and> (\<forall>c\<in>set (declared_classes_in (ri_meta i)). is_representable c)
     \<and> (declares_stream_profile (ri_meta i) \<longrightarrow> ri_delivery i = Streamed
          \<or> vo_permit_buffered_stream_profile opts \<and> vo_expected_identity opts \<noteq> None)"
proof -
  have manifest: "vr_outcome (root_manifest_record segs) \<noteq> Fail
    \<longleftrightarrow> (\<exists>s\<in>set segs. sh_seg_type (ps_header s) = SEG_TYPE_MANIFEST)" for segs
    using root_manifest_None [of segs] by (auto simp: root_manifest_record_def split: option.splits)
  have caps: "vr_outcome (snd (capability_record meta)) \<noteq> Fail
    \<longleftrightarrow> \<not> has_unknown_class_name_in meta \<and> (\<forall>c\<in>set (declared_classes_in meta). is_representable c)" for meta
    using map_declared_Inr [of "declared_classes_in meta"]
    by (cases "map_declared (declared_classes_in meta)") (auto simp: capability_record_def)
  have profile: "vr_outcome (stream_profile_record d opts) \<noteq> Fail
    \<longleftrightarrow> d = Streamed \<or> vo_permit_buffered_stream_profile opts \<and> vo_expected_identity opts \<noteq> None" for d
    by (cases d) (auto simp: stream_profile_record_def)
  have pinned: "(\<forall>r\<in>set (if p then [container_record CkIdentity Fail IdentityNotPinned] else []).
      vr_outcome r \<noteq> Fail) \<longleftrightarrow> \<not> p" for p by simp
  have identity: "(\<forall>r\<in>set (case vo_expected_identity opts of
          None \<Rightarrow> []
        | Some expected \<Rightarrow>
            let same = expected = ri_identity i
            in [container_record CkIdentity (outcome_of same) (if same then IdentityMatches else IdentityMismatch)]).
      vr_outcome r \<noteq> Fail)
    \<longleftrightarrow> (\<forall>expected. vo_expected_identity opts = Some expected \<longrightarrow> ri_identity i = expected)"
    by (cases "vo_expected_identity opts") (auto simp: Let_def)
  have sizes: "(\<forall>r\<in>set (let violations = check_sizes n segs p
        in [container_record CkSizePolicy (outcome_of (violations = []))
              (if violations = [] then WithinSizePolicy else ExceedsSizePolicy)]). vr_outcome r \<noteq> Fail)
    \<longleftrightarrow> sizes_ok n segs p" for n segs p
    by (simp add: Let_def check_sizes_empty)
  have declared: "(\<forall>r\<in>set (if p then [x] else []). vr_outcome r \<noteq> Fail) \<longleftrightarrow> (p \<longrightarrow> vr_outcome x \<noteq> Fail)"
    and single: "(\<forall>r\<in>set [x]. vr_outcome r \<noteq> Fail) \<longleftrightarrow> vr_outcome x \<noteq> Fail" for p x by simp_all
  show ?thesis
    unfolding container_records_def set_append ball_Un pinned identity sizes declared single manifest caps profile
      record_outcome
    by auto
qed

lemma segment_records_ok:
  assumes "walk d = Inr segments" "s \<in> set segments"
  shows "(\<forall>r\<in>set (segment_records C opts (s, facts_from_buffer C d s)). vr_outcome r \<noteq> Fail)
    \<longleftrightarrow> segment_ok C opts d s"
proof -
  let ?h = "ps_header s" and ?p = "segment_payload d s" and ?facts = "facts_from_buffer C d s"
  have hash: "sg_content_hash_ok ?facts \<longleftrightarrow> content_hash C (sh_checksum_algo ?h) ?p = sh_content_hash ?h"
    by (simp add: facts_from_buffer_def verify_content_hash_def Let_def)
  have exec: "vr_outcome (executable_signed_record s opts) \<noteq> Fail
    \<longleftrightarrow> header_is_signed ?h \<or> vo_allow_unsigned_executable opts"
    by (simp add: executable_signed_record_def segment_is_signed_def)
  have wasm: "(\<forall>r\<in>set (case wasm_header_record s ?facts of None \<Rightarrow> [] | Some r \<Rightarrow> [r]). vr_outcome r \<noteq> Fail)
    \<longleftrightarrow> (sh_seg_type ?h = SEG_TYPE_WASM \<longrightarrow> \<not> header_is_encrypted ?h \<longrightarrow>
           (\<forall>e. payload_spec (cr_sha256 C) ?p \<noteq> PayloadRejected e))"
    by (simp add: facts_from_buffer_def wasm_header_record_def Let_def scan_payload_exact
        split: wasm_payload_facts.split)
  have sig: "vr_outcome (signature_record C s (sg_sig ?facts) opts) \<noteq> Fail
    \<longleftrightarrow> (\<exists>r f. ps_footer s = Some r \<and> byte_range d r = footer_to_bytes f \<and> footer_ok f
             \<and> signature_ok C opts ?h ?p f)" if signed: "header_is_signed ?h"
  proof -
    obtain r f where r: "ps_footer s = Some r" and f: "footer_ok f" "byte_range d r = footer_to_bytes f"
      using walked_footer [OF assms] signed by (auto split: option.splits)
    have facts: "sg_sig ?facts = SigDecoded (sf_sig_algo f) (sf_sig_length f)
        (if length (sf_signature f) = 64 then Some (sf_signature f) else None)
        (build_signed_message (cr_shake256_128 C) ?h ?p)"
      using r f signed footer_bytes_decode [OF f(1)]
      by (simp add: facts_from_buffer_def segment_is_signed_def Let_def)
    have "length (sf_signature f) = 64" if "sf_sig_length f = ED25519_SIGNATURE_LENGTH"
      using f(1) that by (simp add: footer_ok_def ED25519_SIGNATURE_LENGTH_def)
    then have "vr_outcome (signature_record C s (sg_sig ?facts) opts) \<noteq> Fail \<longleftrightarrow> signature_ok C opts ?h ?p f"
      unfolding facts signature_ok_def by (auto simp: segment_is_executable_def list_ex_iff Let_def)
    moreover have "(\<exists>r f. ps_footer s = Some r \<and> byte_range d r = footer_to_bytes f \<and> footer_ok f
        \<and> signature_ok C opts ?h ?p f) \<longleftrightarrow> signature_ok C opts ?h ?p f"
      using r f footer_to_bytes_inject by auto
    ultimately show ?thesis by simp
  qed
  have single: "(\<forall>r\<in>set (if p then [x] else []). vr_outcome r \<noteq> Fail) \<longleftrightarrow> (p \<longrightarrow> vr_outcome x \<noteq> Fail)" for p x
    by simp
  show ?thesis
    unfolding segment_records_def Let_def fst_conv snd_conv set_append ball_Un single exec wasm
      segment_is_executable_def segment_is_signed_def segment_ok_def
    using sig by (auto simp: hash)
qed

lemma zip_map_self: "zip xs (map f xs) = map (\<lambda>x. (x, f x)) xs"
  by (induction xs) simp_all

text \<open>
  C40.  The gate that grants authority opens exactly when every rule holds: a package is admitted iff it is a
  well-formed container, its identity is the pinned one, it has a root manifest, it fits the size policy, it declares
  only known capabilities that the kernel can represent, a stream profile is permitted, and every segment has the
  content hash of its header, a valid module header, and an acceptable signature: an executable is signed unless the
  options permit unsigned ones, and a signature verifies under a trusted key, except that on other segments one of an
  unknown algorithm is skipped, and with no trusted key all are skipped but those of executables, which are then
  refused unless unsigned executables are permitted.  (The documentation of the crate says that without keys signatures
  are skipped and that unknown class names are skipped; the code refuses both.)
\<close>
theorem rvf_verify_admits:
  "(\<exists>r. rvf_verify C d opts = Inr r \<and> admissible r) \<longleftrightarrow> (\<exists>segments. walk d = Inr segments \<and> package_ok C opts d segments)"
proof (cases "walk d")
  case (Inl e)
  then show ?thesis by (simp add: rvf_verify_def)
next
  case (Inr segments)
  have "(\<forall>r\<in>set (concat (map (segment_records C opts) (zip segments (map (facts_from_buffer C d) segments)))).
      vr_outcome r \<noteq> Fail) \<longleftrightarrow> (\<forall>s\<in>set segments. segment_ok C opts d s)"
    using segment_records_ok [OF Inr] by (auto simp: zip_map_self)
  then show ?thesis
    unfolding rvf_verify_def Inr admissible_def package_ok_def
    by (simp add: build_report_def Let_def list_ex_iff ball_Un container_records_ok del: set_concat)
qed

text \<open>What a report grants: nothing unless every name is known and every class representable.\<close>

lemma report_grants_declared:
  assumes "rvf_verify C d opts = Inr r"
  shows "\<exists>segments. walk d = Inr segments \<and>
    (let meta = plaintext_meta d segments in
     mapping_is_granted (rp_capabilities r) c \<longleftrightarrow>
       \<not> has_unknown_class_name_in meta \<and> (\<forall>c\<in>set (declared_classes_in meta). is_representable c)
       \<and> c \<in> set (declared_classes_in meta))"
proof -
  obtain segments where w: "walk d = Inr segments"
    and caps: "rp_capabilities r = fst (capability_record (plaintext_meta d segments))"
    using assms by (auto simp: rvf_verify_def build_report_def Let_def split: sum.splits)
  have deny: "\<not> mapping_is_granted deny_all c"
    using map_declared_Inr [of "[]" "\<lparr>cm_granted = [], cm_denied = capability_classes\<rparr>"]
    by (simp add: deny_all_def mapping_is_granted_def)
  have granted: "mapping_is_granted m c \<longleftrightarrow> c \<in> set declared" if m: "map_declared declared = Inr m" for m declared
  proof -
    have rep: "class_binding x \<noteq> None" if "x \<in> set declared" for x
      using m that by (auto simp: map_declared_Inr is_representable_def)
    then have cls: "rb_class (the (class_binding x)) = x" if "x \<in> set declared" for x
      using that class_binding_class by force
    show ?thesis
      using m capability_classes_all cls by (auto simp: map_declared_Inr mapping_is_granted_def list_ex_iff)
  qed
  show ?thesis
    unfolding w caps capability_record_def
    using deny granted map_declared_Inr
    by (auto simp: Let_def split: sum.splits) (metis sum.distinct(1))+
qed

end
