(* ===== verification/Spec2Isabelle.thy ===== *)
theory Spec2Isabelle
  imports Cap_Properties Witness_Log Part_Manager Ipc Device_Lease Scheduler Smp
    Buddy_Proofs Tier Region Reconstruction Coh_Graph_Proofs Coh_Mincut_Proofs
    Coh_Engine_Proofs Security_Gate Resource_Budget Proof_Engine Boot Kernel_Proofs Wasm_Module
    Wasm_Agent Wasm_Quota Wasm_Host Context_Uri Context_Match Rvf_Format Rvf_Payload Rvf_Capability Rvf_Verify
begin

text \<open>
  RVM, a coherence-native microhypervisor: a Rust workspace whose crates live under \<open>src/crates\<close>.
  This library models the crates that hold the hypervisor's own logic and proves the properties that
  make them correct.

  \<^bold>\<open>The program.\<close>  A capability manager (\<open>rvm-cap\<close>) decides who may do what: a table of
  generation-checked slots, a derivation tree that records which capability was granted from which,
  and a verifier with three layers.  Every privileged action is recorded in a hash-chained ring of
  fixed-size records (\<open>rvm-witness\<close>).  The proof engine (\<open>rvm-proof\<close>) and the security gate
  (\<open>rvm-security\<close>) stand in front of the actions: they check a token or a proof and record the
  verdict.  Partitions (\<open>rvm-partition\<close>) are the isolated guests; they exchange messages over edges and
  lease devices.  The scheduler (\<open>rvm-sched\<close>) runs them from one heap for each CPU.  Memory
  (\<open>rvm-memory\<close>) comes from a buddy allocator, is mapped in regions, moves between tiers, and is
  reconstructed from checkpoints when it was dormant.  The coherence engine (\<open>rvm-coherence\<close>) keeps a
  weighted graph of the communication between partitions, scores them, and recommends to split or to
  merge.  \<open>rvm-boot\<close> runs the boot stages in order and measures them.  The kernel (\<open>rvm-kernel\<close>) owns
  one of each and is the surface that callers see.  Guests may be WebAssembly modules (\<open>rvm-wasm\<close>):
  agents with quotas, a migration protocol and host calls that end in the kernel's channels.  What may
  be loaded is decided by \<open>rvm-rvf\<close>, which walks a signed container, verifies it and installs the
  capabilities that it declares.  \<open>rvm-context\<close> names the objects that agents share.

  \<^bold>\<open>Theories and sources.\<close>  Paths are relative to \<open>src/crates\<close>.

  \<^item> \<open>Rvm_Actions\<close>, \<open>Rvm_Types\<close>: the shared types of \<open>rvm-types/src\<close> (\<open>ActionKind\<close>, \<open>RvmError\<close>, rights,
    tokens, witness records and their wire format, identifiers).  \<open>Rvm_Prelude\<close>: generic lemmas and
    the collections of rewrite rules.  \<open>Std_Text\<close>, \<open>Le_Bytes\<close>: what the code uses of the standard
    library on texts and of little-endian bytes, with the round trips.
  \<^item> \<open>Slot_Table\<close>: the generation-checked table and its contract, the locale \<open>handle_table\<close>, which the
    capability table, the partition manager and the channels interpret.
  \<^item> \<open>Cap_Table\<close>, \<open>Cap_Derivation\<close>, \<open>Cap_Verify\<close>, \<open>Cap_Manager\<close>: \<open>rvm-cap/src/{table, derivation,
    verify, grant, revoke, manager}.rs\<close>.  \<open>Cap_Properties\<close>: what revocation, granting, and the three
    proof layers guarantee in every consistent manager, and how reusing a revoked slot breaks the tree.
  \<^item> \<open>Witness_Hash\<close>, \<open>Witness_Log\<close>: \<open>rvm-witness/src/{hash, signer, log, emit, replay}.rs\<close>; the contract
    of the log towards its clients is the locale \<open>witness_sink\<close>.
  \<^item> \<open>Part_Manager\<close>, \<open>Ipc\<close>, \<open>Device_Lease\<close>: \<open>rvm-partition/src\<close>; the message ring interprets the
    locale \<open>fifo_queue\<close>.
  \<^item> \<open>Run_Queue\<close>, \<open>Scheduler\<close>, \<open>Smp\<close>: \<open>rvm-sched/src\<close>; the array heap interprets the locale
    \<open>max_queue\<close>.
  \<^item> \<open>Buddy_Blocks\<close>, \<open>Buddy\<close>, \<open>Buddy_Proofs\<close>, \<open>Tier\<close>, \<open>Region\<close>, \<open>Reconstruction\<close>: \<open>rvm-memory/src\<close>.
    Isolation of regions holds while no range wraps, and \<open>Region\<close> shows that it needs this.
  \<^item> \<open>Coh_Graph\<close>, \<open>Coh_Graph_Proofs\<close>: \<open>rvm-coherence/src/graph.rs\<close>.  \<open>Min_Cut_Spec\<close>, \<open>Coh_Mincut\<close>,
    \<open>Coh_Mincut_Proofs\<close>: \<open>rvm-coherence/src/mincut.rs\<close> against an abstract theory of cuts.
    \<open>Coh_Engine\<close>, \<open>Coh_Engine_Proofs\<close>: \<open>scoring.rs\<close>, \<open>pressure.rs\<close>, \<open>adaptive.rs\<close>, \<open>bridge.rs\<close> and
    \<open>engine.rs\<close>, with the recommendation as a maximum.
  \<^item> \<open>Security_Gate\<close>: \<open>rvm-security/src/{gate, attestation}.rs\<close> and the policy check; the plain and the
    signed gate interpret the locale \<open>audited_service\<close>, which extends \<open>witness_sink\<close>: one record for each
    request.  \<open>Resource_Budget\<close>: \<open>budget.rs\<close> and \<open>validation.rs\<close>; each budget interprets the locale
    \<open>meter\<close>.
  \<^item> \<open>Proof_Engine\<close>: \<open>rvm-proof/src/{context, policy, engine}.rs\<close>; its nonce memory and the one of
    \<open>rvm-cap\<close> interpret the locale \<open>replay_guard\<close>.
  \<^item> \<open>Boot\<close>: \<open>rvm-boot/src\<close>; the boot sequence and the older tracker interpret the locale
    \<open>phase_machine\<close>.
  \<^item> \<open>Kernel\<close>, \<open>Kernel_Proofs\<close>: \<open>rvm-kernel/src/lib.rs\<close>.  The calls are one step function on the state of
    the kernel, \<open>kernel_trail\<close> gives the records of a call, and \<open>kernel_inv\<close> ties the components together.
  \<^item> \<open>Wasm_Module\<close>, \<open>Wasm_Agent\<close>, \<open>Wasm_Quota\<close>, \<open>Wasm_Host\<close>: \<open>rvm-wasm/src\<close>: the framing of modules, the
    agents and their migration, the quotas, and the host calls with the context of the kernel.
  \<^item> \<open>Context_Uri\<close>: \<open>rvm-context/src/uri.rs\<close>, the names; \<open>Context_Match\<close>: the text matcher of
    \<open>resolver.rs\<close>.
  \<^item> \<open>Rvf_Format\<close>: \<open>rvm-rvf/src/{format, container}.rs\<close>; \<open>Rvf_Payload\<close>: \<open>wasm_payload.rs\<close>;
    \<open>Rvf_Capability\<close>: \<open>capability.rs\<close>; \<open>Rvf_Verify\<close>: \<open>hash.rs\<close>, \<open>policy.rs\<close>, \<open>report.rs\<close> and \<open>verify.rs\<close>.

  \<^bold>\<open>Conventions.\<close>  A Rust array is a list of its length; an index or a \<open>usize\<close> counter that an
  array bounds is a \<open>nat\<close>; every other integer is a word of its width and the unchecked \<open>+\<close> of
  the release profile wraps.  A method on \<open>&mut self\<close> returns its result, \<open>error + value\<close>, with the new
  state, on the error paths too.

  \<^bold>\<open>Parameters.\<close>  Code outside the repository is an argument of the definitions that call it: the hash
  of the witness chain, SHA-256, XXH3, SHAKE and Ed25519 (the record \<open>rvf_crypto\<close> in \<open>Rvf_Verify\<close>), the
  constant-time comparison of the crate \<open>subtle\<close>, signers, the clock, the hardware layer of the boot
  driver, the scoring backend of the engine, and the context of a WebAssembly host.

  \<^bold>\<open>Loops and fuel.\<close>  Loops are recursions with a termination proof.  The loops that follow indices
  stored in an array may run forever.  The walks of the derivation tree in \<open>revoke\<close> are partial functions
  whose value \<open>None\<close> means that they do not return: on a well-formed tree they return, and after a slot was
  granted again below the parent that it was revoked from they do not.  The adjacency lists of the
  coherence graph are walked with one unit of fuel for each slot of the edge array, and the invariant of
  the graph shows that this is enough.  The inner loop of the text matcher is a \<open>while\<close> with an option
  as result, and the matcher is shown to return.

  \<^bold>\<open>Abstract specifications.\<close>  Ring buffers refine lists, the array heap a multiset with maximum
  extraction, the bitmap allocator a set of disjoint aligned blocks that is fully merged, chain
  verification a predicate on adjacent records, the region table a partial map that is injective on
  host addresses, replay of deltas a fold of writes, the coherence graph a finite set of weighted
  directed edges, the cut search the minimum over all bipartitions of the neighbourhood, the budgets
  unbounded counters, the agents a finite map of bounded size, modules, names and containers the texts
  that a printer makes, and the scanner of payloads a function of the whole payload.

  \<^bold>\<open>Reachable states.\<close>  The inductive predicates \<open>mgr_reach\<close>, \<open>region_reach\<close>, \<open>engine_reach\<close> and
  \<open>kernel_reach\<close> are specifications, not translations: their rules carry the conditions under which the
  theorems hold and which the code does not check (a fresh slot, a range that does not wrap, a weight sum
  below \<open>2 ^ 64\<close>, identifier counters that are not exhausted).  The text before each theorem names them.

  \<^bold>\<open>Not modelled.\<close>  The hardware layer (\<open>rvm-hal\<close>: registers, page tables, inline assembly) and the
  parts that only call it; the host and the launcher (\<open>rvm-host\<close>, \<open>rvm-launch\<close>), which drive operating
  system processes and files; the service and the bindings around the context store
  (\<open>rvm-context-service\<close>, \<open>rvm-context-wasm\<close>), which are network, database and foreign-function glue, and
  of \<open>rvm-context\<close> itself the store, the receipts and the runtime; \<open>rvm-anchor\<close>, which is canonical JSON
  and floating-point statistics; the TEE signers of \<open>rvm-proof\<close>, which wrap third-party cryptography;
  \<open>rvm-gpu\<close>, an optional subsystem that the kernel only re-exports; in \<open>rvm-wasm\<close> the streaming check and in
  \<open>rvm-rvf\<close> the delivery by streams and the witness records of a verification; \<open>Display\<close> texts; benches,
  tests and examples.
\<close>

end
